(* ===== verification/Prelude.thy ===== *)
theory Prelude
  imports Complex_Main
begin

text \<open>
  What every component of the development shares: JavaScript numbers and values as far as the
  sources inspect them (\<^verbatim>\<open>typeof\<close>, \<^verbatim>\<open>Number.isSafeInteger\<close>,
  \<^verbatim>\<open>Number.isFinite\<close>), rounding division, the sum-type result of code that throws, and
  the collections of hints the component proofs use.

  Numbers. A JavaScript number is a finite value, an infinity or NaN. The finite values are
  modelled as exact reals; every counter, index, size and millisecond clock of the sources is
  an integer of magnitude at most \<open>2 ^ 53 - 1\<close>, on which double arithmetic is exact, and is an
  \<open>int\<close> or a \<open>nat\<close> here. Where a source divides or multiplies by a fraction
  the component's own text says what is idealised.
\<close>

named_theorems step_simps \<open>one-step equations of the state machines\<close>
named_theorems inv_defs \<open>definitions of the component invariants\<close>

subsection \<open>Numbers and untyped values\<close>

datatype js_num = Fin real | PosInf | NegInf | NaN

datatype js =
    JUndef
  | JNull
  | JBool bool
  | JNum js_num
  | JStr string
  | JFun
  | JArr "js list"
  | JObj "(string \<times> js) list"

definition MAX_SAFE_INTEGER :: int where
  "MAX_SAFE_INTEGER = 9007199254740991"

text \<open>The integer a finite number denotes, if it denotes one within the safe range.\<close>

definition safe_integer :: "js_num \<Rightarrow> int option" where
  "safe_integer n = (case n of
      Fin q \<Rightarrow> (if of_int \<lfloor>q\<rfloor> = q \<and> \<bar>\<lfloor>q\<rfloor>\<bar> \<le> MAX_SAFE_INTEGER then Some \<lfloor>q\<rfloor> else None)
    | _ \<Rightarrow> None)"

definition is_finite :: "js_num \<Rightarrow> bool" where
  "is_finite n = (case n of Fin _ \<Rightarrow> True | _ \<Rightarrow> False)"

lemma safe_integer_int [simp]:
  "safe_integer (Fin (of_int i)) = (if \<bar>i\<bar> \<le> MAX_SAFE_INTEGER then Some i else None)"
  by (simp add: safe_integer_def)

lemma safe_integer_Some:
  "safe_integer n = Some i \<Longrightarrow> n = Fin (of_int i) \<and> \<bar>i\<bar> \<le> MAX_SAFE_INTEGER"
  by (auto simp: safe_integer_def split: js_num.splits if_splits)

subsection \<open>Thrown errors\<close>

text \<open>The error classes the sources throw, each with the message's fixed part or the field it names.\<close>

datatype js_error = RangeError string | TypeError string | PlainError string

subsection \<open>Rounding division\<close>

text \<open>\<open>Math.ceil(a / b)\<close> on integers with a positive divisor.\<close>

definition ceil_div :: "int \<Rightarrow> int \<Rightarrow> int" where
  "ceil_div a b = - ((- a) div b)"

lemma ceil_div_bounds:
  assumes "0 < b"
  shows "a \<le> ceil_div a b * b" and "ceil_div a b * b < a + b"
proof -
  have mod: "0 \<le> (- a) mod b" "(- a) mod b < b" using assms by simp_all
  have "(- a) div b * b + (- a) mod b = - a" by (rule div_mult_mod_eq)
  then have "ceil_div a b * b = a + (- a) mod b"
    unfolding ceil_div_def by (metis add.commute add_minus_cancel minus_add_distrib minus_minus mult_minus_left)
  with mod show "a \<le> ceil_div a b * b" and "ceil_div a b * b < a + b" by simp_all
qed

lemma ceil_div_le_iff: "0 < b \<Longrightarrow> ceil_div a b \<le> k \<longleftrightarrow> a \<le> k * b"
proof
  assume b: "0 < b" and le: "ceil_div a b \<le> k"
  have "a \<le> ceil_div a b * b" by (rule ceil_div_bounds(1) [OF b])
  also have "\<dots> \<le> k * b" using le b by (simp add: mult_right_mono)
  finally show "a \<le> k * b" .
next
  assume b: "0 < b" and le: "a \<le> k * b"
  have "ceil_div a b * b < a + b" by (rule ceil_div_bounds(2) [OF b])
  also have "\<dots> \<le> (k + 1) * b" using le by (simp add: algebra_simps)
  finally have "ceil_div a b < k + 1" using b by (simp add: mult_less_cancel_right)
  then show "ceil_div a b \<le> k" by simp
qed

lemma ceil_div_pos: "0 < b \<Longrightarrow> 0 < a \<Longrightarrow> 0 < ceil_div a b"
  using ceil_div_le_iff [of b a 0] by (auto simp: not_le [symmetric])

subsection \<open>Lists\<close>

lemma length_filter_list_update:
  "i < length xs \<Longrightarrow> P (xs ! i) \<Longrightarrow>
    length (filter P xs) = length (filter P (xs[i := y])) + (if P y then 0 else 1)"
proof (induction xs arbitrary: i)
  case Nil
  then show ?case by simp
next
  case (Cons x xs)
  show ?case
  proof (cases i)
    case 0
    with Cons.prems show ?thesis by simp
  next
    case (Suc j)
    with Cons show ?thesis by simp
  qed
qed

lemma length_filter_list_update_not:
  "i < length xs \<Longrightarrow> \<not> P (xs ! i) \<Longrightarrow> \<not> P y \<Longrightarrow> length (filter P (xs[i := y])) = length (filter P xs)"
proof (induction xs arbitrary: i)
  case Nil
  then show ?case by simp
next
  case (Cons x xs)
  then show ?case by (cases i) auto
qed

lemma length_filter_mono: "(\<And>x. P x \<Longrightarrow> Q x) \<Longrightarrow> length (filter P xs) \<le> length (filter Q xs)"
  by (induction xs) auto

lemma in_map_filter: "x \<in> set (List.map_filter f xs) \<longleftrightarrow> (\<exists>y \<in> set xs. f y = Some x)"
  by (induction xs) (auto simp: List.map_filter_simps split: option.split)

lemma map_filter_cong: "(\<And>x. x \<in> set xs \<Longrightarrow> f x = g (h x)) \<Longrightarrow> List.map_filter f xs = List.map_filter g (map h xs)"
  by (induction xs) (auto simp: List.map_filter_simps split: option.split)

lemma foldl_invariant:
  "I a \<Longrightarrow> (\<And>a x. x \<in> set xs \<Longrightarrow> I a \<Longrightarrow> I (f a x)) \<Longrightarrow> I (foldl f a xs)"
  by (induction xs arbitrary: a) auto

end
