(* ===== verification/Machine.thy ===== *)
theory Machine
  imports Prelude
begin

text \<open>
  The contract between a stateful component and whoever drives it. A component is a step function
  from a state and an event to the next state and an output; a run is the left-to-right execution
  of a list of events. Three locales state what a component promises:
  \<^item> \<open>machine\<close>: an invariant every step keeps, hence every run keeps it;
  \<^item> \<open>monitored_machine\<close>: a relation between state, event, output and next state
    that every step satisfies, hence every step of every run does;
  \<^item> \<open>simulation\<close>: an abstract machine that the component implements, hence the
    component and the abstraction give the same outputs on every run.
  Each component theory interprets them on its own step function and invariant.
\<close>

primrec exec :: "('s \<Rightarrow> 'e \<Rightarrow> 's \<times> 'o) \<Rightarrow> 's \<Rightarrow> 'e list \<Rightarrow> 's \<times> 'o list" where
  "exec step s [] = (s, [])"
| "exec step s (e # es) =
     (let (s', out) = step s e; (s'', outs) = exec step s' es in (s'', out # outs))"

text \<open>The steps a run makes, each with the states before and after it.\<close>

primrec trace :: "('s \<Rightarrow> 'e \<Rightarrow> 's \<times> 'o) \<Rightarrow> 's \<Rightarrow> 'e list \<Rightarrow> ('s \<times> 'e \<times> 'o \<times> 's) list" where
  "trace step s [] = []"
| "trace step s (e # es) =
     (let (s', out) = step s e in (s, e, out, s') # trace step s' es)"

definition final :: "('s \<Rightarrow> 'e \<Rightarrow> 's \<times> 'o) \<Rightarrow> 's \<Rightarrow> 'e list \<Rightarrow> 's" where
  "final step s es = fst (exec step s es)"

lemma final_simps [simp]:
  "final step s [] = s"
  "final step s (e # es) = final step (fst (step s e)) es"
  by (simp_all add: final_def split: prod.splits)

lemma final_append: "final step s (es @ es') = final step (final step s es) es'"
  by (induction es arbitrary: s) simp_all

lemma length_outputs: "length (snd (exec step s es)) = length es"
  by (induction es arbitrary: s) (auto simp: Let_def split: prod.splits, metis snd_conv)

lemma trace_Cons:
  "x \<in> set (trace step s (e # es)) \<longleftrightarrow>
     x = (s, e, snd (step s e), fst (step s e)) \<or> x \<in> set (trace step (fst (step s e)) es)"
  by (cases "step s e") auto

locale machine =
  fixes step :: "'s \<Rightarrow> 'e \<Rightarrow> 's \<times> 'o"
    and inv :: "'s \<Rightarrow> bool"
  assumes step_inv: "inv s \<Longrightarrow> inv (fst (step s e))"
begin

lemma run_inv: "inv s \<Longrightarrow> inv (final step s es)"
  by (induction es arbitrary: s) (simp_all add: step_inv)

lemma trace_inv: "inv s \<Longrightarrow> (t, e, out, t') \<in> set (trace step s es) \<Longrightarrow> inv t \<and> inv t'"
proof (induction es arbitrary: s)
  case Nil
  then show ?case by simp
next
  case (Cons a es)
  from Cons.prems(2) consider "t = s" "t' = fst (step s a)"
    | "(t, e, out, t') \<in> set (trace step (fst (step s a)) es)"
    unfolding trace_Cons by blast
  then show ?case
  proof cases
    case 1
    with Cons.prems(1) show ?thesis by (simp add: step_inv)
  next
    case 2
    with Cons.IH [OF step_inv [OF Cons.prems(1)]] show ?thesis by blast
  qed
qed

lemma trace_step: "(t, e, out, t') \<in> set (trace step s es) \<Longrightarrow> step t e = (t', out)"
proof (induction es arbitrary: s)
  case Nil
  then show ?case by simp
next
  case (Cons a es)
  then show ?case unfolding trace_Cons by (metis prod.collapse prod.inject)
qed

end

locale monitored_machine = machine step inv
  for step :: "'s \<Rightarrow> 'e \<Rightarrow> 's \<times> 'o" and inv :: "'s \<Rightarrow> bool" +
  fixes guarantee :: "'s \<Rightarrow> 'e \<Rightarrow> 'o \<Rightarrow> 's \<Rightarrow> bool"
  assumes step_guarantee: "inv s \<Longrightarrow> guarantee s e (snd (step s e)) (fst (step s e))"
begin

lemma run_guarantee:
  "inv s \<Longrightarrow> (t, e, out, t') \<in> set (trace step s es) \<Longrightarrow> guarantee t e out t'"
  using trace_inv [of s t e out t' es] trace_step [of t e out t' s es] step_guarantee [of t e]
  by simp

end

locale simulation = machine step inv
  for step :: "'s \<Rightarrow> 'e \<Rightarrow> 's \<times> 'o" and inv :: "'s \<Rightarrow> bool" +
  fixes astep :: "'a \<Rightarrow> 'e \<Rightarrow> 'a \<times> 'o"
    and abs :: "'s \<Rightarrow> 'a"
  assumes step_abs: "inv s \<Longrightarrow> astep (abs s) e = (abs (fst (step s e)), snd (step s e))"
begin

lemma run_abs:
  "inv s \<Longrightarrow> exec astep (abs s) es = (abs (fst (exec step s es)), snd (exec step s es))"
proof (induction es arbitrary: s)
  case Nil
  then show ?case by simp
next
  case (Cons e es)
  from Cons.IH [OF step_inv [OF Cons.prems]] show ?case
    by (simp add: step_abs [OF Cons.prems] split: prod.splits)
qed

lemma run_outputs: "inv s \<Longrightarrow> snd (exec astep (abs s) es) = snd (exec step s es)"
  by (simp add: run_abs)

end

end
