(* ===== verification/Breaker.thy ===== *)
theory Breaker
  imports Machine
begin

text \<open>
  The upstream circuit breaker, \<^verbatim>\<open>services/ultrathink/engine/breaker.ts\<close>. The closure
  variables of \<^verbatim>\<open>createCircuitBreaker\<close> are the fields of \<open>breaker\<close>. A release
  callback is a handle into \<open>bk_slots\<close>: the record keeps what the callback captured
  (its kind, the generation it was admitted in) and its \<^verbatim>\<open>released\<close> flag. The calls
  of the \<^verbatim>\<open>onTransition\<close> hook are the list \<open>bk_log\<close>, oldest first; a
  throwing hook is swallowed by the source, so it has no further effect. The clock value an
  operation reads is an argument of its step.
\<close>

datatype breaker_state = Closed | Open | HalfOpen

datatype release_outcome = Success | Failure | Ignored

datatype slot_kind = ClosedSlot | ProbeSlot

record slot =
  sl_kind :: slot_kind
  sl_generation :: nat
  sl_released :: bool

record breaker_opts =
  failureThreshold :: int
  bo_windowMs :: int
  openMs :: int
  halfOpenMaxCalls :: int

record breaker =
  bk_state :: breaker_state
  bk_failures :: int
  bk_windowStart :: "int option"
  bk_openedAt :: "int option"
  bk_transitions :: nat
  bk_generation :: nat
  bk_inFlight :: int
  bk_slots :: "slot list"
  bk_log :: "(breaker_state \<times> breaker_state) list"

text \<open>\<^verbatim>\<open>Acquire\<close>: a release handle, or a refusal with its retry delay.\<close>

datatype acquire = Acquired nat | Refused int

record breaker_snapshot =
  bs_state :: breaker_state
  bs_failures :: int
  bs_openedAt :: "int option"
  bs_transitions :: nat

definition HALF_OPEN_RETRY_MS :: int where
  "HALF_OPEN_RETRY_MS = 1000"

subsection \<open>Construction\<close>

record breaker_raw =
  raw_failureThreshold :: js
  raw_windowMs :: js
  raw_openMs :: js
  raw_halfOpenMaxCalls :: js
  raw_now :: js
  raw_onTransition :: js

definition requirePositiveInteger :: "string \<Rightarrow> js \<Rightarrow> js_error + int" where
  "requirePositiveInteger name v = (case v of
      JNum n \<Rightarrow> (case safe_integer n of
          Some i \<Rightarrow> if i < 1 then Inl (RangeError name) else Inr i
        | None \<Rightarrow> Inl (RangeError name))
    | _ \<Rightarrow> Inl (RangeError name))"

definition new_breaker :: breaker where
  "new_breaker = \<lparr>bk_state = Closed, bk_failures = 0, bk_windowStart = None, bk_openedAt = None,
     bk_transitions = 0, bk_generation = 0, bk_inFlight = 0, bk_slots = [], bk_log = []\<rparr>"

definition createCircuitBreaker :: "breaker_raw \<Rightarrow> js_error + (breaker_opts \<times> breaker)" where
  "createCircuitBreaker raw =
     (case requirePositiveInteger ''failureThreshold'' (raw_failureThreshold raw) of Inl e \<Rightarrow> Inl e
      | Inr ft \<Rightarrow>
     (case requirePositiveInteger ''windowMs'' (raw_windowMs raw) of Inl e \<Rightarrow> Inl e
      | Inr w \<Rightarrow>
     (case requirePositiveInteger ''openMs'' (raw_openMs raw) of Inl e \<Rightarrow> Inl e
      | Inr om \<Rightarrow>
     (case (if raw_halfOpenMaxCalls raw = JUndef then Inr 1
            else requirePositiveInteger ''halfOpenMaxCalls'' (raw_halfOpenMaxCalls raw)) of Inl e \<Rightarrow> Inl e
      | Inr hm \<Rightarrow>
     (if raw_now raw \<noteq> JUndef \<and> raw_now raw \<noteq> JFun then Inl (RangeError ''now'')
      else if raw_onTransition raw \<noteq> JUndef \<and> raw_onTransition raw \<noteq> JFun
        then Inl (RangeError ''onTransition'')
      else Inr (\<lparr>failureThreshold = ft, bo_windowMs = w, openMs = om, halfOpenMaxCalls = hm\<rparr>,
                new_breaker))))))"

subsection \<open>Operations\<close>

definition transition :: "breaker_state \<Rightarrow> breaker \<Rightarrow> breaker" where
  "transition to b = b\<lparr>bk_state := to, bk_transitions := bk_transitions b + 1,
     bk_generation := bk_generation b + 1, bk_inFlight := 0,
     bk_log := bk_log b @ [(bk_state b, to)]\<rparr>"

definition open_breaker :: "int \<Rightarrow> breaker \<Rightarrow> breaker" where
  "open_breaker t b = transition Open (b\<lparr>bk_openedAt := Some t\<rparr>)"

definition recordClosedFailure :: "breaker_opts \<Rightarrow> int \<Rightarrow> breaker \<Rightarrow> breaker" where
  "recordClosedFailure opts t b =
     (let b' = (case bk_windowStart b of
            None \<Rightarrow> b\<lparr>bk_windowStart := Some t, bk_failures := 1\<rparr>
          | Some ws \<Rightarrow> if t - ws \<ge> bo_windowMs opts
              then b\<lparr>bk_windowStart := Some t, bk_failures := 1\<rparr>
              else b\<lparr>bk_failures := bk_failures b + 1\<rparr>)
      in if bk_failures b' \<ge> failureThreshold opts then open_breaker t b' else b')"

definition closedAcquire :: "breaker \<Rightarrow> breaker \<times> acquire" where
  "closedAcquire b =
     (b\<lparr>bk_slots := bk_slots b @ [\<lparr>sl_kind = ClosedSlot, sl_generation = bk_generation b, sl_released = False\<rparr>]\<rparr>,
      Acquired (length (bk_slots b)))"

definition probeAcquire :: "breaker \<Rightarrow> breaker \<times> acquire" where
  "probeAcquire b =
     (b\<lparr>bk_inFlight := bk_inFlight b + 1,
        bk_slots := bk_slots b @ [\<lparr>sl_kind = ProbeSlot, sl_generation = bk_generation b, sl_released = False\<rparr>]\<rparr>,
      Acquired (length (bk_slots b)))"

definition halfOpenAcquire :: "breaker_opts \<Rightarrow> breaker \<Rightarrow> breaker \<times> acquire" where
  "halfOpenAcquire opts b =
     (if bk_inFlight b \<ge> halfOpenMaxCalls opts then (b, Refused HALF_OPEN_RETRY_MS)
      else probeAcquire b)"

definition tryAcquire :: "breaker_opts \<Rightarrow> int \<Rightarrow> breaker \<Rightarrow> breaker \<times> acquire" where
  "tryAcquire opts t b = (case bk_state b of
      Open \<Rightarrow> (case bk_openedAt b of
          Some opened \<Rightarrow>
            let elapsed = t - opened in
            if elapsed < openMs opts
            then (b, Refused (min (openMs opts) (max 1 (openMs opts - elapsed))))
            else halfOpenAcquire opts (transition HalfOpen b)
        | None \<Rightarrow> halfOpenAcquire opts (transition HalfOpen b))
    | HalfOpen \<Rightarrow> halfOpenAcquire opts b
    | Closed \<Rightarrow> closedAcquire b)"

definition mark_released :: "nat \<Rightarrow> breaker \<Rightarrow> breaker" where
  "mark_released i b = b\<lparr>bk_slots := (bk_slots b)[i := (bk_slots b ! i)\<lparr>sl_released := True\<rparr>]\<rparr>"

definition releaseClosed :: "breaker_opts \<Rightarrow> nat \<Rightarrow> release_outcome \<Rightarrow> int \<Rightarrow> breaker \<Rightarrow> breaker" where
  "releaseClosed opts admitted outcome t b =
     (if outcome = Failure \<and> bk_state b = Closed \<and> admitted = bk_generation b
      then recordClosedFailure opts t b else b)"

definition releaseProbe :: "nat \<Rightarrow> release_outcome \<Rightarrow> int \<Rightarrow> breaker \<Rightarrow> breaker" where
  "releaseProbe probeGeneration outcome t b =
     (if probeGeneration \<noteq> bk_generation b then b
      else let b' = b\<lparr>bk_inFlight := bk_inFlight b - 1\<rparr> in
        (case outcome of
          Success \<Rightarrow> transition Closed (b'\<lparr>bk_failures := 0, bk_windowStart := None\<rparr>)
        | Failure \<Rightarrow> open_breaker t (b'\<lparr>bk_failures := bk_failures b' + 1\<rparr>)
        | Ignored \<Rightarrow> b'))"

text \<open>
  \<^verbatim>\<open>release(outcome)\<close> on the callback handed out as handle \<open>i\<close>. A handle
  that was never handed out names no callback.
\<close>

definition release :: "breaker_opts \<Rightarrow> nat \<Rightarrow> release_outcome \<Rightarrow> int \<Rightarrow> breaker \<Rightarrow> breaker" where
  "release opts i outcome t b =
     (if i < length (bk_slots b) \<and> \<not> sl_released (bk_slots b ! i)
      then let s = bk_slots b ! i; b' = mark_released i b in
        (case sl_kind s of
          ClosedSlot \<Rightarrow> releaseClosed opts (sl_generation s) outcome t b'
        | ProbeSlot \<Rightarrow> releaseProbe (sl_generation s) outcome t b')
      else b)"

definition snapshot :: "breaker \<Rightarrow> breaker_snapshot" where
  "snapshot b = \<lparr>bs_state = bk_state b, bs_failures = bk_failures b,
     bs_openedAt = bk_openedAt b, bs_transitions = bk_transitions b\<rparr>"

datatype breaker_event = TryAcquire int | Release nat release_outcome int

datatype breaker_output = Acq acquire | Unit

fun breaker_step :: "breaker_opts \<Rightarrow> breaker \<Rightarrow> breaker_event \<Rightarrow> breaker \<times> breaker_output" where
  "breaker_step opts b (TryAcquire t) = (let (b', a) = tryAcquire opts t b in (b', Acq a))"
| "breaker_step opts b (Release i outcome t) = (release opts i outcome t b, Unit)"

subsection \<open>Invariant\<close>

definition live_probes :: "breaker \<Rightarrow> slot list" where
  "live_probes b = filter (\<lambda>s. sl_kind s = ProbeSlot \<and> sl_generation s = bk_generation b \<and> \<not> sl_released s)
     (bk_slots b)"

text \<open>The edges the source documents, and that a log is a path of them from \<open>Closed\<close>.\<close>

definition breaker_edge :: "breaker_state \<Rightarrow> breaker_state \<Rightarrow> bool" where
  "breaker_edge a c = ((a, c) \<in> {(Closed, Open), (Open, HalfOpen), (HalfOpen, Closed), (HalfOpen, Open)})"

fun log_path :: "breaker_state \<Rightarrow> (breaker_state \<times> breaker_state) list \<Rightarrow> breaker_state \<Rightarrow> bool" where
  "log_path s [] e = (s = e)"
| "log_path s ((a, c) # l) e = (s = a \<and> breaker_edge a c \<and> log_path c l e)"

definition valid_opts :: "breaker_opts \<Rightarrow> bool" where
  "valid_opts opts = (1 \<le> failureThreshold opts \<and> 1 \<le> bo_windowMs opts \<and> 1 \<le> openMs opts
     \<and> 1 \<le> halfOpenMaxCalls opts)"

definition breaker_inv :: "breaker_opts \<Rightarrow> breaker \<Rightarrow> bool" where
  "breaker_inv opts b \<longleftrightarrow> valid_opts opts
     \<and> bk_generation b = bk_transitions b
     \<and> length (bk_log b) = bk_transitions b
     \<and> log_path Closed (bk_log b) (bk_state b)
     \<and> (\<forall>s \<in> set (bk_slots b). sl_generation s \<le> bk_generation b)
     \<and> (\<forall>s \<in> set (bk_slots b). sl_kind s = ProbeSlot \<and> sl_generation s = bk_generation b
          \<longrightarrow> bk_state b = HalfOpen)
     \<and> bk_inFlight b = int (length (live_probes b))
     \<and> bk_inFlight b \<le> halfOpenMaxCalls opts
     \<and> (bk_state b = Closed \<longrightarrow> 0 \<le> bk_failures b \<and> bk_failures b < failureThreshold opts)
     \<and> (bk_state b = Closed \<and> bk_windowStart b = None \<longrightarrow> bk_failures b = 0)
     \<and> (bk_state b \<noteq> Closed \<longrightarrow> bk_openedAt b \<noteq> None)"

lemmas breaker_op_defs = tryAcquire_def halfOpenAcquire_def probeAcquire_def closedAcquire_def
  release_def mark_released_def releaseClosed_def releaseProbe_def recordClosedFailure_def
  open_breaker_def transition_def

subsection \<open>The invariant holds in every run\<close>

lemma createCircuitBreaker_Inr:
  "createCircuitBreaker raw = Inr (opts, b) \<Longrightarrow> valid_opts opts \<and> b = new_breaker"
  by (auto simp: createCircuitBreaker_def requirePositiveInteger_def valid_opts_def
      split: js.splits option.splits sum.splits if_splits)

lemma log_path_snoc: "log_path s (l @ [(a, c)]) e \<longleftrightarrow> log_path s l a \<and> breaker_edge a c \<and> c = e"
  by (induction l arbitrary: s) auto

lemma new_breaker_inv: "valid_opts opts \<Longrightarrow> breaker_inv opts new_breaker"
  by (auto simp: breaker_inv_def new_breaker_def live_probes_def valid_opts_def)

lemma live_probes_transition:
  "\<forall>s \<in> set (bk_slots b). sl_generation s \<le> bk_generation b \<Longrightarrow> live_probes (transition to b) = []"
  by (fastforce simp: live_probes_def transition_def filter_empty_conv)

lemma breaker_transition_inv:
  assumes "valid_opts opts" "bk_generation b = bk_transitions b"
    "length (bk_log b) = bk_transitions b" "log_path Closed (bk_log b) (bk_state b)"
    "\<forall>s \<in> set (bk_slots b). sl_generation s \<le> bk_generation b"
    "breaker_edge (bk_state b) to"
    "to = Closed \<Longrightarrow> bk_failures b = 0" "to \<noteq> Closed \<Longrightarrow> bk_openedAt b \<noteq> None"
  shows "breaker_inv opts (transition to b)"
proof -
  have "live_probes (transition to b) = []" using assms(5) by (rule live_probes_transition)
  with assms show ?thesis
    by (fastforce simp: breaker_inv_def transition_def log_path_snoc valid_opts_def)
qed

lemma live_probes_append:
  "live_probes (b\<lparr>bk_slots := bk_slots b @ [s]\<rparr>) = live_probes b @
     (if sl_kind s = ProbeSlot \<and> sl_generation s = bk_generation b \<and> \<not> sl_released s then [s] else [])"
  by (simp add: live_probes_def)

lemma closedAcquire_inv:
  "breaker_inv opts b \<Longrightarrow> breaker_inv opts (fst (closedAcquire b))"
  by (auto simp: breaker_inv_def closedAcquire_def live_probes_def)

lemma halfOpenAcquire_inv:
  "breaker_inv opts b \<Longrightarrow> bk_state b = HalfOpen \<Longrightarrow> breaker_inv opts (fst (halfOpenAcquire opts b))"
  by (auto simp: breaker_inv_def halfOpenAcquire_def probeAcquire_def live_probes_def)

lemma half_open_inv:
  "breaker_inv opts b \<Longrightarrow> bk_state b = Open \<Longrightarrow> breaker_inv opts (transition HalfOpen b)"
  by (rule breaker_transition_inv) (auto simp: breaker_inv_def breaker_edge_def)

lemma tryAcquire_inv: "breaker_inv opts b \<Longrightarrow> breaker_inv opts (fst (tryAcquire opts t b))"
  using closedAcquire_inv [of opts b] halfOpenAcquire_inv [of opts b]
    half_open_inv [of opts b] halfOpenAcquire_inv [of opts "transition HalfOpen b"]
  by (auto simp: tryAcquire_def Let_def transition_def split: breaker_state.splits option.splits)

lemma mark_released_live:
  assumes "i < length (bk_slots b)" "\<not> sl_released (bk_slots b ! i)"
  shows "length (live_probes b) = length (live_probes (mark_released i b)) +
    (if sl_kind (bk_slots b ! i) = ProbeSlot \<and> sl_generation (bk_slots b ! i) = bk_generation b then 1 else 0)"
proof -
  let ?P = "\<lambda>s. sl_kind s = ProbeSlot \<and> sl_generation s = bk_generation b \<and> \<not> sl_released s"
  let ?y = "(bk_slots b ! i)\<lparr>sl_released := True\<rparr>"
  have eq: "length (live_probes (mark_released i b)) = length (filter ?P ((bk_slots b)[i := ?y]))"
    by (simp add: live_probes_def mark_released_def)
  show ?thesis
  proof (cases "?P (bk_slots b ! i)")
    case True
    with length_filter_list_update [of i "bk_slots b" ?P ?y] assms eq show ?thesis
      by (simp add: live_probes_def)
  next
    case False
    with length_filter_list_update_not [of i "bk_slots b" ?P ?y] assms eq show ?thesis
      by (auto simp: live_probes_def)
  qed
qed

lemma mark_released_simps [simp]:
  "bk_state (mark_released i b) = bk_state b" "bk_failures (mark_released i b) = bk_failures b"
  "bk_windowStart (mark_released i b) = bk_windowStart b" "bk_openedAt (mark_released i b) = bk_openedAt b"
  "bk_transitions (mark_released i b) = bk_transitions b" "bk_generation (mark_released i b) = bk_generation b"
  "bk_inFlight (mark_released i b) = bk_inFlight b" "bk_log (mark_released i b) = bk_log b"
  by (simp_all add: mark_released_def)

lemma mark_released_slots:
  assumes "i < length (bk_slots b)" "s \<in> set (bk_slots (mark_released i b))"
  shows "\<exists>s' \<in> set (bk_slots b). sl_kind s' = sl_kind s \<and> sl_generation s' = sl_generation s"
proof -
  have "s \<in> insert ((bk_slots b ! i)\<lparr>sl_released := True\<rparr>) (set (bk_slots b))"
    using assms(2) set_update_subset_insert [of "bk_slots b" i] by (auto simp: mark_released_def)
  then show ?thesis using nth_mem [OF assms(1)] by fastforce
qed

text \<open>
  Marking a slot released keeps every part of the invariant but the probe count, which is one too
  high when the slot was a live probe; the rest of the release settles that.
\<close>

lemma mark_released_inv:
  assumes inv: "breaker_inv opts b" and i: "i < length (bk_slots b)" "\<not> sl_released (bk_slots b ! i)"
    and stale: "\<not> (sl_kind (bk_slots b ! i) = ProbeSlot \<and> sl_generation (bk_slots b ! i) = bk_generation b)"
  shows "breaker_inv opts (mark_released i b)"
proof -
  have "length (live_probes (mark_released i b)) = length (live_probes b)"
    using mark_released_live [OF i] stale by auto
  then show ?thesis
    using inv mark_released_slots [OF i(1)] unfolding breaker_inv_def
    by (simp, metis)
qed

lemma recordClosedFailure_inv:
  assumes inv: "breaker_inv opts b" and "bk_state b = Closed"
  shows "breaker_inv opts (recordClosedFailure opts t b)"
proof -
  define b' where "b' = (case bk_windowStart b of
            None \<Rightarrow> b\<lparr>bk_windowStart := Some t, bk_failures := 1\<rparr>
          | Some ws \<Rightarrow> if t - ws \<ge> bo_windowMs opts
              then b\<lparr>bk_windowStart := Some t, bk_failures := 1\<rparr>
              else b\<lparr>bk_failures := bk_failures b + 1\<rparr>)"
  have b': "bk_state b' = Closed" "bk_generation b' = bk_generation b" "bk_slots b' = bk_slots b"
    "bk_log b' = bk_log b" "bk_transitions b' = bk_transitions b" "bk_inFlight b' = bk_inFlight b"
    "bk_windowStart b' \<noteq> None" "0 \<le> bk_failures b'"
    using assms by (auto simp: b'_def breaker_inv_def split: option.splits)
  have eq: "recordClosedFailure opts t b =
      (if bk_failures b' \<ge> failureThreshold opts then open_breaker t b' else b')"
    by (simp add: recordClosedFailure_def b'_def Let_def)
  show ?thesis
  proof (cases "bk_failures b' \<ge> failureThreshold opts")
    case True
    have "breaker_inv opts (transition Open (b'\<lparr>bk_openedAt := Some t\<rparr>))"
      using inv b' assms(2) by (intro breaker_transition_inv) (auto simp: breaker_inv_def breaker_edge_def)
    with True show ?thesis by (simp add: eq open_breaker_def)
  next
    case False
    have "live_probes b' = live_probes b" using b' by (simp add: live_probes_def)
    with False b' inv assms(2) show ?thesis by (auto simp: eq breaker_inv_def)
  qed
qed

lemma releaseProbe_inv:
  assumes inv: "breaker_inv opts b" and i: "i < length (bk_slots b)" "\<not> sl_released (bk_slots b ! i)"
    and live: "sl_kind (bk_slots b ! i) = ProbeSlot" "sl_generation (bk_slots b ! i) = bk_generation b"
  shows "breaker_inv opts (releaseProbe (bk_generation b) outcome t (mark_released i b))"
proof -
  let ?b = "mark_released i b"
  have state: "bk_state b = HalfOpen" using inv live i(1) unfolding breaker_inv_def by (metis nth_mem)
  have opened: "bk_openedAt b \<noteq> None" using inv state by (simp add: breaker_inv_def)
  have count: "length (live_probes b) = Suc (length (live_probes ?b))"
    using mark_released_live [OF i] live by simp
  have gens: "\<forall>s \<in> set (bk_slots ?b). sl_generation s \<le> bk_generation b"
    using inv mark_released_slots [OF i(1)] unfolding breaker_inv_def by metis
  show ?thesis
  proof (cases outcome)
    case Success
    have "breaker_inv opts (transition Closed (?b\<lparr>bk_inFlight := bk_inFlight b - 1, bk_failures := 0, bk_windowStart := None\<rparr>))"
      using inv gens state by (intro breaker_transition_inv) (auto simp: breaker_inv_def breaker_edge_def)
    with Success show ?thesis by (simp add: releaseProbe_def)
  next
    case Failure
    have "breaker_inv opts (transition Open (?b\<lparr>bk_inFlight := bk_inFlight b - 1,
        bk_failures := bk_failures b + 1, bk_openedAt := Some t\<rparr>))"
      using inv gens state by (intro breaker_transition_inv) (auto simp: breaker_inv_def breaker_edge_def)
    with Failure show ?thesis by (simp add: releaseProbe_def open_breaker_def)
  next
    case Ignored
    have "live_probes (?b\<lparr>bk_inFlight := bk_inFlight b - 1\<rparr>) = live_probes ?b"
      by (simp add: live_probes_def)
    with Ignored inv gens state opened count show ?thesis
      by (auto simp: releaseProbe_def breaker_inv_def)
  qed
qed

lemma release_inv:
  assumes inv: "breaker_inv opts b"
  shows "breaker_inv opts (release opts i outcome t b)"
proof (cases "i < length (bk_slots b) \<and> \<not> sl_released (bk_slots b ! i)")
  case False
  with inv show ?thesis by (auto simp: release_def)
next
  case True
  then have i: "i < length (bk_slots b)" "\<not> sl_released (bk_slots b ! i)" by simp_all
  show ?thesis
  proof (cases "sl_kind (bk_slots b ! i) = ProbeSlot \<and> sl_generation (bk_slots b ! i) = bk_generation b")
    case True
    with releaseProbe_inv [OF inv i] i show ?thesis by (simp add: release_def Let_def)
  next
    case False
    have marked: "breaker_inv opts (mark_released i b)" using mark_released_inv [OF inv i False] .
    with False i recordClosedFailure_inv [OF marked] show ?thesis
      by (auto simp: release_def Let_def releaseClosed_def releaseProbe_def split: slot_kind.splits)
  qed
qed

lemma breaker_step_inv: "breaker_inv opts b \<Longrightarrow> breaker_inv opts (fst (breaker_step opts b e))"
  by (cases e) (simp_all add: release_inv tryAcquire_inv Let_def split_beta)

subsection \<open>Every state change has its documented cause\<close>

definition live_probe :: "breaker \<Rightarrow> nat \<Rightarrow> bool" where
  "live_probe b i = (i < length (bk_slots b) \<and> sl_kind (bk_slots b ! i) = ProbeSlot
     \<and> sl_generation (bk_slots b ! i) = bk_generation b \<and> \<not> sl_released (bk_slots b ! i))"

definition live_closed :: "breaker \<Rightarrow> nat \<Rightarrow> bool" where
  "live_closed b i = (i < length (bk_slots b) \<and> sl_kind (bk_slots b ! i) = ClosedSlot
     \<and> sl_generation (bk_slots b ! i) = bk_generation b \<and> \<not> sl_released (bk_slots b ! i))"

text \<open>
  What an observer of the run writes down: the times of the failures of live closed slots since the
  breaker last changed state. It says nothing of the breaker's own counter or window.
\<close>

definition noted_failures :: "breaker_opts \<Rightarrow> breaker \<Rightarrow> int list \<Rightarrow> breaker_event \<Rightarrow> int list" where
  "noted_failures opts b ts e =
     (if bk_state (fst (breaker_step opts b e)) \<noteq> bk_state b then []
      else case e of
          Release i Failure t \<Rightarrow> if bk_state b = Closed \<and> live_closed b i then ts @ [t] else ts
        | _ \<Rightarrow> ts)"

fun failure_times :: "breaker_opts \<Rightarrow> breaker \<Rightarrow> int list \<Rightarrow> breaker_event list \<Rightarrow> int list" where
  "failure_times opts b ts [] = ts"
| "failure_times opts b ts (e # es) =
     failure_times opts (fst (breaker_step opts b e)) (noted_failures opts b ts e) es"

text \<open>The last threshold-many of these failures all fall less than \<^verbatim>\<open>windowMs\<close> after the first of them.\<close>

definition threshold_in_window :: "breaker_opts \<Rightarrow> int list \<Rightarrow> bool" where
  "threshold_in_window opts ts \<longleftrightarrow> (\<exists>old cur. ts = old @ cur
     \<and> int (length cur) = failureThreshold opts \<and> (\<forall>u \<in> set cur. u - hd cur < bo_windowMs opts))"

definition breaker_cause ::
    "breaker_opts \<Rightarrow> int list \<Rightarrow> breaker \<Rightarrow> breaker_event \<Rightarrow> breaker_state \<Rightarrow> bool" where
  "breaker_cause opts ts b e to = (case (bk_state b, to) of
      (Closed, Open) \<Rightarrow> (\<exists>i t. e = Release i Failure t \<and> live_closed b i
         \<and> threshold_in_window opts (ts @ [t]))
    | (Open, HalfOpen) \<Rightarrow> (\<exists>t opened. e = TryAcquire t \<and> bk_openedAt b = Some opened \<and> openMs opts \<le> t - opened)
    | (HalfOpen, Closed) \<Rightarrow> (\<exists>i t. e = Release i Success t \<and> live_probe b i)
    | (HalfOpen, Open) \<Rightarrow> (\<exists>i t. e = Release i Failure t \<and> live_probe b i)
    | _ \<Rightarrow> False)"

lemma opening_threshold:
  "breaker_cause opts ts b (Release i Failure t) Open \<Longrightarrow> bk_state b = Closed \<Longrightarrow>
   threshold_in_window opts (ts @ [t])"
  by (simp add: breaker_cause_def)

text \<open>The counter and the window start of a closed breaker describe the newest noted failures.\<close>

definition window_matches :: "breaker_opts \<Rightarrow> breaker \<Rightarrow> int list \<Rightarrow> bool" where
  "window_matches opts b ts \<longleftrightarrow> (bk_state b = Closed \<longrightarrow> (case bk_windowStart b of
      None \<Rightarrow> bk_failures b = 0
    | Some ws \<Rightarrow> \<exists>old cur. ts = old @ cur \<and> cur \<noteq> [] \<and> hd cur = ws
        \<and> int (length cur) = bk_failures b \<and> (\<forall>u \<in> set cur. u - ws < bo_windowMs opts)))"

definition breaker_guarantee ::
    "breaker_opts \<Rightarrow> int list \<Rightarrow> breaker \<Rightarrow> breaker_event \<Rightarrow> breaker \<Rightarrow> bool" where
  "breaker_guarantee opts ts b e b' \<longleftrightarrow>
     (bk_state b' = bk_state b \<and> bk_log b' = bk_log b \<and> bk_openedAt b' = bk_openedAt b)
     \<or> (breaker_cause opts ts b e (bk_state b') \<and> bk_log b' = bk_log b @ [(bk_state b, bk_state b')])"

lemma tryAcquire_guarantee:
  assumes "breaker_inv opts b"
  shows "breaker_guarantee opts ts b (TryAcquire t) (fst (tryAcquire opts t b))"
proof -
  have hm: "1 \<le> halfOpenMaxCalls opts" using assms by (simp add: breaker_inv_def valid_opts_def)
  have opened: "bk_state b = Open \<Longrightarrow> \<exists>opened. bk_openedAt b = Some opened"
    using assms by (auto simp: breaker_inv_def)
  with hm show ?thesis
    by (auto simp: breaker_guarantee_def breaker_cause_def tryAcquire_def Let_def halfOpenAcquire_def
        probeAcquire_def closedAcquire_def transition_def split: breaker_state.splits if_splits)
qed

text \<open>The window a counted failure falls in, before the threshold is compared.\<close>

lemma recordClosedFailure_window:
  assumes inv: "breaker_inv opts b" and closed: "bk_state b = Closed" and ts: "window_matches opts b ts"
  obtains old cur b' where "ts @ [t] = old @ cur" "cur \<noteq> []" "bk_windowStart b' = Some (hd cur)"
    "int (length cur) = bk_failures b'" "\<forall>u \<in> set cur. u - hd cur < bo_windowMs opts"
    "bk_failures b' \<le> failureThreshold opts" "bk_state b' = Closed" "bk_log b' = bk_log b" "bk_openedAt b' = bk_openedAt b"
    "recordClosedFailure opts t b = (if failureThreshold opts \<le> bk_failures b' then open_breaker t b' else b')"
proof -
  have limits: "1 \<le> bo_windowMs opts" "1 \<le> failureThreshold opts" "bk_failures b < failureThreshold opts"
    using inv closed by (simp_all add: breaker_inv_def valid_opts_def)
  note result = that
  let ?fresh = "b\<lparr>bk_windowStart := Some t, bk_failures := 1\<rparr>"
  have fresh: thesis if "bk_windowStart b = None \<or> (\<exists>ws. bk_windowStart b = Some ws \<and> bo_windowMs opts \<le> t - ws)"
  proof (rule result [of ts "[t]" ?fresh])
    show "recordClosedFailure opts t b = (if failureThreshold opts \<le> bk_failures ?fresh then open_breaker t ?fresh else ?fresh)"
      using that by (auto simp: recordClosedFailure_def Let_def)
  qed (use limits closed in simp_all)
  show thesis
  proof (cases "\<exists>ws. bk_windowStart b = Some ws \<and> t - ws < bo_windowMs opts")
    case True
    then obtain ws where ws: "bk_windowStart b = Some ws" "t - ws < bo_windowMs opts" by blast
    obtain old cur where cur: "ts = old @ cur" "cur \<noteq> []" "hd cur = ws" "int (length cur) = bk_failures b"
      "\<forall>u \<in> set cur. u - ws < bo_windowMs opts"
      using ts closed ws(1) by (auto simp: window_matches_def)
    let ?more = "b\<lparr>bk_failures := bk_failures b + 1\<rparr>"
    show thesis
    proof (rule result [of old "cur @ [t]" ?more])
      show "recordClosedFailure opts t b = (if failureThreshold opts \<le> bk_failures ?more then open_breaker t ?more else ?more)"
        using ws by (simp add: recordClosedFailure_def Let_def)
    qed (use cur ws limits closed in simp_all)
  next
    case False
    then show thesis by (intro fresh) (auto simp: not_less)
  qed
qed

lemma release_closed_slot:
  assumes "i < length (bk_slots b)" "\<not> sl_released (bk_slots b ! i)" "sl_kind (bk_slots b ! i) = ClosedSlot"
  shows "release opts i outcome t b =
    (if outcome = Failure \<and> bk_state b = Closed \<and> live_closed b i
     then recordClosedFailure opts t (mark_released i b) else mark_released i b)"
  using assms by (auto simp: release_def Let_def releaseClosed_def live_closed_def)

lemma live_closed_slot:
  "live_closed b i \<Longrightarrow> i < length (bk_slots b) \<and> \<not> sl_released (bk_slots b ! i)
     \<and> sl_kind (bk_slots b ! i) = ClosedSlot"
  by (simp add: live_closed_def)

lemma window_matches_mark: "window_matches opts (mark_released i b) ts = window_matches opts b ts"
  by (cases "bk_windowStart b") (simp_all add: window_matches_def)

text \<open>A live closed slot that fails: what it does to the window, and when it opens the breaker.\<close>

lemma closed_failure:
  assumes inv: "breaker_inv opts b" and closed: "bk_state b = Closed" and live: "live_closed b i"
    and ts: "window_matches opts b ts"
  shows "breaker_guarantee opts ts b (Release i Failure t) (release opts i Failure t b)"
    and "bk_state (release opts i Failure t b) = Closed \<Longrightarrow>
      window_matches opts (release opts i Failure t b) (ts @ [t])"
proof -
  note slot = live_closed_slot [OF live]
  have "breaker_inv opts (mark_released i b)" using slot by (intro mark_released_inv [OF inv]) simp_all
  moreover have "bk_state (mark_released i b) = Closed" using closed by simp
  moreover have "window_matches opts (mark_released i b) ts" using ts by (simp add: window_matches_mark)
  ultimately obtain old cur b' where w: "ts @ [t] = old @ cur" "cur \<noteq> []" "bk_windowStart b' = Some (hd cur)"
    "int (length cur) = bk_failures b'" "\<forall>u \<in> set cur. u - hd cur < bo_windowMs opts"
    "bk_failures b' \<le> failureThreshold opts" "bk_state b' = Closed" "bk_log b' = bk_log (mark_released i b)"
    "bk_openedAt b' = bk_openedAt (mark_released i b)"
    "recordClosedFailure opts t (mark_released i b)
      = (if failureThreshold opts \<le> bk_failures b' then open_breaker t b' else b')"
    by (rule recordClosedFailure_window)
  have eq: "release opts i Failure t b = (if failureThreshold opts \<le> bk_failures b' then open_breaker t b' else b')"
    using release_closed_slot [of i b opts Failure t] slot closed live w(10) by simp
  show "breaker_guarantee opts ts b (Release i Failure t) (release opts i Failure t b)"
  proof (cases "failureThreshold opts \<le> bk_failures b'")
    case True
    then have "threshold_in_window opts (ts @ [t])"
      using w(1,4,5,6) unfolding threshold_in_window_def by (intro exI [of _ old] exI [of _ cur]) simp
    with True eq w(7,8) closed live show ?thesis
      by (simp add: breaker_guarantee_def breaker_cause_def open_breaker_def transition_def)
  next
    case False
    with eq w(7-9) closed show ?thesis by (simp add: breaker_guarantee_def)
  qed
  assume still: "bk_state (release opts i Failure t b) = Closed"
  then have "release opts i Failure t b = b'" by (auto simp: eq open_breaker_def transition_def split: if_splits)
  with w(1-5) show "window_matches opts (release opts i Failure t b) (ts @ [t])"
    unfolding window_matches_def by auto
qed

lemma release_guarantee:
  assumes inv: "breaker_inv opts b" and ts: "window_matches opts b ts"
  shows "breaker_guarantee opts ts b (Release i outcome t) (release opts i outcome t b)"
proof (cases "i < length (bk_slots b) \<and> \<not> sl_released (bk_slots b ! i)")
  case False
  then show ?thesis by (auto simp: release_def breaker_guarantee_def)
next
  case True
  then have i: "i < length (bk_slots b)" "\<not> sl_released (bk_slots b ! i)" by simp_all
  show ?thesis
  proof (cases "sl_kind (bk_slots b ! i)")
    case ClosedSlot
    show ?thesis
    proof (cases "outcome = Failure \<and> bk_state b = Closed \<and> live_closed b i")
      case True
      with closed_failure(1) [OF inv _ _ ts] show ?thesis by blast
    next
      case False
      then show ?thesis
        using release_closed_slot [OF i ClosedSlot, of opts outcome t] by (auto simp: breaker_guarantee_def)
    qed
  next
    case ProbeSlot
    have "sl_generation (bk_slots b ! i) = bk_generation b \<Longrightarrow> bk_state b = HalfOpen"
      using inv i(1) ProbeSlot unfolding breaker_inv_def by (metis nth_mem)
    with ProbeSlot i show ?thesis
      by (auto simp: release_def Let_def breaker_guarantee_def breaker_cause_def live_probe_def
          releaseProbe_def open_breaker_def transition_def split: release_outcome.splits)
  qed
qed

text \<open>Nothing but a counted failure touches the window of a breaker that stays closed, and a
  breaker that becomes closed starts without one.\<close>

lemma release_window:
  assumes inv: "breaker_inv opts b" and ts: "window_matches opts b ts"
  shows "window_matches opts (release opts i outcome t b) (noted_failures opts b ts (Release i outcome t))"
proof (cases "outcome = Failure \<and> bk_state b = Closed \<and> live_closed b i")
  case True
  show ?thesis
  proof (cases "bk_state (release opts i Failure t b) = Closed")
    case True
    with \<open>outcome = Failure \<and> bk_state b = Closed \<and> live_closed b i\<close> closed_failure(2) [OF inv _ _ ts True] show ?thesis
      by (simp add: noted_failures_def)
  next
    case False
    with \<open>outcome = Failure \<and> bk_state b = Closed \<and> live_closed b i\<close> show ?thesis
      by (simp add: window_matches_def)
  qed
next
  case other: False
  show ?thesis
  proof (cases "i < length (bk_slots b) \<and> \<not> sl_released (bk_slots b ! i)")
    case False
    then show ?thesis using ts by (auto simp: release_def noted_failures_def live_closed_def split: release_outcome.split)
  next
    case True
    then have i: "i < length (bk_slots b)" "\<not> sl_released (bk_slots b ! i)" by simp_all
    show ?thesis
    proof (cases "sl_kind (bk_slots b ! i)")
      case ClosedSlot
      then have "release opts i outcome t b = mark_released i b"
        using release_closed_slot [OF i ClosedSlot, of opts outcome t] other by argo
      moreover have "noted_failures opts b ts (Release i outcome t) = ts"
        using other calculation by (cases outcome) (auto simp: noted_failures_def)
      ultimately show ?thesis using ts by (simp add: window_matches_mark)
    next
      case ProbeSlot
      show ?thesis
      proof (cases "sl_generation (bk_slots b ! i) = bk_generation b")
        case True
        have "bk_state b = HalfOpen" using inv i(1) ProbeSlot True unfolding breaker_inv_def by (metis nth_mem)
        with ProbeSlot i True show ?thesis
          by (cases outcome) (simp_all add: release_def Let_def window_matches_def releaseProbe_def
              open_breaker_def transition_def)
      next
        case False
        then have "release opts i outcome t b = mark_released i b"
          using ProbeSlot i by (simp add: release_def Let_def releaseProbe_def)
        moreover have "noted_failures opts b ts (Release i outcome t) = ts"
          using other calculation by (cases outcome) (auto simp: noted_failures_def)
        ultimately show ?thesis using ts by (simp add: window_matches_mark)
      qed
    qed
  qed
qed

lemma tryAcquire_window:
  assumes "window_matches opts b ts"
  shows "window_matches opts (fst (tryAcquire opts t b)) (noted_failures opts b ts (TryAcquire t))"
  using assms
  by (auto simp: tryAcquire_def Let_def noted_failures_def window_matches_def halfOpenAcquire_def
      probeAcquire_def closedAcquire_def transition_def split: breaker_state.splits option.splits)

text \<open>The breaker together with its observer.\<close>

definition watched_step ::
    "breaker_opts \<Rightarrow> breaker \<times> int list \<Rightarrow> breaker_event \<Rightarrow> (breaker \<times> int list) \<times> breaker_output" where
  "watched_step opts w e = ((fst (breaker_step opts (fst w) e), noted_failures opts (fst w) (snd w) e),
     snd (breaker_step opts (fst w) e))"

lemma watched_final:
  "final (watched_step opts) (b, ts) es = (final (breaker_step opts) b es, failure_times opts b ts es)"
  by (induction es arbitrary: b ts) (simp_all add: watched_step_def)

interpretation breaker: machine "breaker_step opts" "breaker_inv opts" for opts
  by unfold_locales (rule breaker_step_inv)

interpretation watched: monitored_machine "watched_step opts"
    "\<lambda>w. breaker_inv opts (fst w) \<and> window_matches opts (fst w) (snd w)"
    "\<lambda>w e out w'. breaker_guarantee opts (snd w) (fst w) e (fst w')"
  for opts
proof unfold_locales
  fix w e
  assume inv: "breaker_inv opts (fst w) \<and> window_matches opts (fst w) (snd w)"
  then show "breaker_inv opts (fst (fst (watched_step opts w e)))
      \<and> window_matches opts (fst (fst (watched_step opts w e))) (snd (fst (watched_step opts w e)))"
    using breaker_step_inv [of opts "fst w" e] release_window [of opts "fst w" "snd w"]
      tryAcquire_window [of opts "fst w" "snd w"]
    by (cases e) (simp_all add: watched_step_def Let_def split_beta)
  show "breaker_guarantee opts (snd w) (fst w) e (fst (fst (watched_step opts w e)))"
    using inv tryAcquire_guarantee [of opts "fst w" "snd w"] release_guarantee [of opts "fst w" "snd w"]
    by (cases e) (simp_all add: watched_step_def Let_def split_beta)
qed

lemma created_run_inv:
  "createCircuitBreaker raw = Inr (opts, b) \<Longrightarrow> breaker_inv opts (final (breaker_step opts) b es)"
  using createCircuitBreaker_Inr new_breaker_inv breaker.run_inv by blast

subsection \<open>Properties\<close>

definition sample_raw :: breaker_raw where
  "sample_raw = \<lparr>raw_failureThreshold = JNum (Fin 2), raw_windowMs = JNum (Fin 1000),
     raw_openMs = JNum (Fin 500), raw_halfOpenMaxCalls = JUndef, raw_now = JFun, raw_onTransition = JUndef\<rparr>"

definition sample_opts :: breaker_opts where
  "sample_opts = \<lparr>failureThreshold = 2, bo_windowMs = 1000, openMs = 500, halfOpenMaxCalls = 1\<rparr>"

lemma sample_breaker_created: "createCircuitBreaker sample_raw = Inr (sample_opts, new_breaker)"
  by (simp add: createCircuitBreaker_def sample_raw_def sample_opts_def requirePositiveInteger_def
      safe_integer_def MAX_SAFE_INTEGER_def)

text \<open>In every run of a breaker that construction accepted: at most
  \<^verbatim>\<open>halfOpenMaxCalls\<close> probes are outstanding, a closed breaker has counted fewer
  failures than the threshold, and the reported transitions form a path of the documented edges
  from closed to the current state, one report per transition.\<close>
theorem breaker_run_invariant:
  assumes "createCircuitBreaker raw = Inr (opts, b\<^sub>0)"
    and "b = final (breaker_step opts) b\<^sub>0 es"
  shows "int (length (live_probes b)) \<le> halfOpenMaxCalls opts
    \<and> (bk_state b = Closed \<longrightarrow> bk_failures b < failureThreshold opts)
    \<and> log_path Closed (bk_log b) (bk_state b) \<and> length (bk_log b) = bs_transitions (snapshot b)"
  using created_run_inv [OF assms(1), of es] assms(2)
  by (auto simp: breaker_inv_def snapshot_def)

lemma breaker_run_invariant_witness:
  "log_path Closed [(Closed, Open), (Open, HalfOpen)] HalfOpen \<and>
   int (length (live_probes (final (breaker_step sample_opts) new_breaker
     [TryAcquire 0, TryAcquire 1, Release 0 Failure 2, Release 1 Failure 3, TryAcquire 600]))) \<le> 1"
  using breaker_run_invariant [OF sample_breaker_created refl, of
      "[TryAcquire 0, TryAcquire 1, Release 0 Failure 2, Release 1 Failure 3, TryAcquire 600]"]
  by (simp add: sample_opts_def breaker_edge_def)

text \<open>C19. Every state change in every run has its documented cause: closed to open only by the
  failure of a live slot, when the last \<^verbatim>\<open>failureThreshold\<close> such failures since the
  breaker was last closed, this one included, all came less than \<^verbatim>\<open>windowMs\<close> after the
  first of them; open to half-open only by a request for a slot once \<^verbatim>\<open>openMs\<close> has
  passed; half-open to closed or open only by a live probe that succeeded or failed. The hook is told
  of exactly that change. The times are those an observer of the run notes, not the breaker's counter.\<close>
theorem breaker_transitions_caused:
  assumes "createCircuitBreaker raw = Inr (opts, b\<^sub>0)"
    and "b = final (breaker_step opts) b\<^sub>0 es" and "b' = fst (breaker_step opts b e)"
  shows "(bk_state b' = bk_state b \<and> bk_log b' = bk_log b) \<or>
    (breaker_cause opts (failure_times opts b\<^sub>0 [] es) b e (bk_state b')
      \<and> bk_log b' = bk_log b @ [(bk_state b, bk_state b')])"
proof -
  have "breaker_inv opts b\<^sub>0 \<and> window_matches opts b\<^sub>0 []"
    using createCircuitBreaker_Inr [OF assms(1)] new_breaker_inv by (simp add: window_matches_def new_breaker_def)
  then have inv: "breaker_inv opts b \<and> window_matches opts b (failure_times opts b\<^sub>0 [] es)"
    using watched.run_inv [of opts "(b\<^sub>0, [])" es] assms(2) by (simp add: watched_final)
  then have "breaker_guarantee opts (failure_times opts b\<^sub>0 [] es) b e b'"
    using watched.step_guarantee [of opts "(b, failure_times opts b\<^sub>0 [] es)" e] assms(3)
    by (simp add: watched_step_def)
  then show ?thesis by (auto simp: breaker_guarantee_def)
qed

lemma breaker_transitions_caused_witness:
  "failure_times sample_opts new_breaker [] [TryAcquire 0, TryAcquire 1, Release 0 Failure 2] = [2] \<and>
   threshold_in_window sample_opts [2, 3] \<and> \<not> threshold_in_window sample_opts [2, 1002]"
proof -
  let ?es = "[TryAcquire 0, TryAcquire 1, Release 0 Failure 2]"
  let ?b = "final (breaker_step sample_opts) new_breaker ?es"
  let ?b' = "fst (breaker_step sample_opts ?b (Release 1 Failure 3))"
  have noted: "failure_times sample_opts new_breaker [] ?es = [2]"
    by (simp add: breaker_op_defs new_breaker_def sample_opts_def noted_failures_def live_closed_def)
  have states: "bk_state ?b = Closed" "bk_state ?b' = Open"
    by (simp_all add: breaker_op_defs new_breaker_def sample_opts_def)
  have "breaker_cause sample_opts [2] ?b (Release 1 Failure 3) Open"
    using breaker_transitions_caused [OF sample_breaker_created refl refl, of ?es "Release 1 Failure 3"]
    unfolding states noted by blast
  from opening_threshold [OF this states(1)] have "threshold_in_window sample_opts [2, 3]" by simp
  moreover have "\<not> threshold_in_window sample_opts [2, 1002]"
  proof
    assume "threshold_in_window sample_opts [2, 1002]"
    then obtain old and cur :: "int list" where cur: "[2, 1002] = old @ cur" "length cur = 2"
      "\<forall>u \<in> set cur. u - hd cur < 1000"
      by (auto simp: threshold_in_window_def sample_opts_def)
    have "length old = 0" using arg_cong [OF cur(1), of length] cur(2) by simp
    then have "[2, 1002] = cur" using cur(1) by simp
    then show False using cur(3) by auto
  qed
  ultimately show ?thesis using noted by blast
qed

text \<open>In every run, an open breaker asked for a slot before \<^verbatim>\<open>openMs\<close> has
  passed since it opened refuses, changes nothing, and names a delay between 1 and
  \<^verbatim>\<open>openMs\<close>; asked at or after that, it becomes half-open and hands out a probe.\<close>
theorem breaker_open_gate:
  assumes "createCircuitBreaker raw = Inr (opts, b\<^sub>0)"
    and "b = final (breaker_step opts) b\<^sub>0 es" and "bk_state b = Open"
  shows "\<exists>opened. bk_openedAt b = Some opened \<and>
    (if t - opened < openMs opts
     then \<exists>r. tryAcquire opts t b = (b, Refused r) \<and> 1 \<le> r \<and> r \<le> openMs opts
     else (let (b', a) = tryAcquire opts t b in
       bk_state b' = HalfOpen \<and> a = Acquired (length (bk_slots b)) \<and> live_probe b' (length (bk_slots b))))"
proof -
  have inv: "breaker_inv opts b" using created_run_inv [OF assms(1)] assms(2) by simp
  then obtain opened where o: "bk_openedAt b = Some opened" using assms(3) by (auto simp: breaker_inv_def)
  have "1 \<le> openMs opts" "1 \<le> halfOpenMaxCalls opts" using inv by (auto simp: breaker_inv_def valid_opts_def)
  with o assms(3) show ?thesis
    by (auto simp: tryAcquire_def Let_def halfOpenAcquire_def probeAcquire_def transition_def live_probe_def)
qed

lemma breaker_open_gate_witness:
  "\<exists>b r. tryAcquire sample_opts 100 b = (b, Refused r) \<and> 1 \<le> r \<and> r \<le> 500"
proof -
  let ?b = "final (breaker_step sample_opts) new_breaker
    [TryAcquire 0, TryAcquire 1, Release 0 Failure 2, Release 1 Failure 3]"
  have "bk_state ?b = Open" "bk_openedAt ?b = Some 3"
    by (simp_all add: breaker_op_defs new_breaker_def sample_opts_def)
  with breaker_open_gate [OF sample_breaker_created refl, of _ 100] show ?thesis
    by (fastforce simp: sample_opts_def)
qed

text \<open>One admitted call that fails at time \<open>t\<close>.\<close>

definition failing_call :: "breaker_opts \<Rightarrow> breaker \<Rightarrow> int \<Rightarrow> breaker" where
  "failing_call opts b t = release opts (length (bk_slots b)) Failure t (fst (tryAcquire opts t b))"

lemma failing_call_closed:
  assumes "bk_state b = Closed"
  shows "\<exists>b'. failing_call opts b t = recordClosedFailure opts t b' \<and> bk_state b' = Closed
    \<and> bk_failures b' = bk_failures b \<and> bk_windowStart b' = bk_windowStart b"
proof -
  let ?c = "fst (closedAcquire b)"
  have "failing_call opts b t = recordClosedFailure opts t (mark_released (length (bk_slots b)) ?c)"
    using assms by (simp add: failing_call_def tryAcquire_def closedAcquire_def release_def releaseClosed_def)
  moreover have "bk_state ?c = Closed" "bk_failures ?c = bk_failures b" "bk_windowStart ?c = bk_windowStart b"
    using assms by (simp_all add: closedAcquire_def)
  ultimately show ?thesis by (intro exI [of _ "mark_released (length (bk_slots b)) ?c"]) simp
qed

lemma failing_calls_count:
  assumes "bk_state b = Closed" "bk_windowStart b = Some w" "\<forall>t \<in> set ts. t - w < bo_windowMs opts"
    "bk_failures b + int (length ts) < failureThreshold opts"
  shows "bk_state (foldl (failing_call opts) b ts) = Closed
    \<and> bk_windowStart (foldl (failing_call opts) b ts) = Some w
    \<and> bk_failures (foldl (failing_call opts) b ts) = bk_failures b + int (length ts)"
  using assms
proof (induction ts arbitrary: b)
  case Nil
  then show ?case by simp
next
  case (Cons t ts)
  obtain b' where b': "failing_call opts b t = recordClosedFailure opts t b'" "bk_state b' = Closed"
    "bk_failures b' = bk_failures b" "bk_windowStart b' = Some w"
    using failing_call_closed [OF Cons.prems(1)] Cons.prems(2) by metis
  have "bk_state (failing_call opts b t) = Closed" "bk_windowStart (failing_call opts b t) = Some w"
    "bk_failures (failing_call opts b t) = bk_failures b + 1"
    using b' Cons.prems(3,4) by (auto simp: recordClosedFailure_def Let_def)
  with Cons.IH [of "failing_call opts b t"] Cons.prems(3,4) show ?case by simp
qed

text \<open>The counting window: starting closed with no window, calls that all fail within one
  window of the first leave the breaker closed while there are fewer of them than the threshold,
  and the one that reaches the threshold opens it at that call's time.\<close>
theorem breaker_opens_at_threshold:
  assumes "valid_opts opts" and "bk_state b = Closed" and "bk_windowStart b = None"
    and "\<forall>s \<in> set ts. s - t < bo_windowMs opts" and "int (length ts) + 1 = failureThreshold opts"
  shows "bk_state (foldl (failing_call opts) b (butlast (t # ts))) = Closed
    \<and> bk_state (foldl (failing_call opts) b (t # ts)) = Open
    \<and> bk_openedAt (foldl (failing_call opts) b (t # ts)) = Some (last (t # ts))"
proof -
  define ts' where "ts' = butlast (t # ts)"
  define u where "u = last (t # ts)"
  have split: "foldl (failing_call opts) b (t # ts) = failing_call opts (foldl (failing_call opts) b ts') u"
    unfolding ts'_def u_def
    by (metis append_butlast_last_id foldl_Cons foldl_Nil foldl_append list.distinct(1))
  show ?thesis
  proof (cases ts)
    case Nil
    obtain b' where "failing_call opts b t = recordClosedFailure opts t b'" "bk_state b' = Closed"
      "bk_windowStart b' = None"
      using failing_call_closed [OF assms(2)] assms(3) by metis
    with Nil assms show ?thesis
      by (simp add: recordClosedFailure_def Let_def open_breaker_def transition_def)
  next
    case (Cons s ss)
    define c where "c = failing_call opts b t"
    obtain b' where b': "c = recordClosedFailure opts t b'" "bk_state b' = Closed" "bk_windowStart b' = None"
      using failing_call_closed [OF assms(2)] assms(3) unfolding c_def by metis
    then have c: "bk_state c = Closed" "bk_windowStart c = Some t" "bk_failures c = 1"
      using assms(5) Cons by (simp_all add: recordClosedFailure_def Let_def)
    have ts': "ts' = t # butlast ts" using Cons by (simp add: ts'_def)
    define d where "d = foldl (failing_call opts) c (butlast ts)"
    have near: "\<forall>s \<in> set (butlast ts). s - t < bo_windowMs opts" using assms(4) in_set_butlastD by fast
    have few: "bk_failures c + int (length (butlast ts)) < failureThreshold opts" using c(3) assms(5) Cons by simp
    have d: "bk_state d = Closed" "bk_windowStart d = Some t" "bk_failures d = 1 + int (length (butlast ts))"
      unfolding d_def using failing_calls_count [OF c(1,2) near few] c(3) by simp_all
    obtain d' where d': "failing_call opts d u = recordClosedFailure opts u d'" "bk_state d' = Closed"
      "bk_failures d' = bk_failures d" "bk_windowStart d' = Some t"
      using failing_call_closed [OF d(1)] d(2) by metis
    have "u \<in> set ts" using Cons by (simp add: u_def)
    then have "u - t < bo_windowMs opts" using assms(4) by blast
    moreover have "length (butlast ts) = length ss" using Cons by (simp del: butlast.simps)
    then have "bk_failures d' + 1 = failureThreshold opts" unfolding d'(3) d(3) using assms(5) Cons by simp
    ultimately have "bk_state (failing_call opts d u) = Open" "bk_openedAt (failing_call opts d u) = Some u"
      using d' by (simp_all add: recordClosedFailure_def Let_def open_breaker_def transition_def)
    moreover have "foldl (failing_call opts) b ts' = d" by (simp add: ts' d_def c_def)
    ultimately have "bk_state (foldl (failing_call opts) b ts') = Closed
        \<and> bk_state (foldl (failing_call opts) b (t # ts)) = Open
        \<and> bk_openedAt (foldl (failing_call opts) b (t # ts)) = Some u"
      using d(1) unfolding split by simp
    then show ?thesis unfolding ts'_def u_def .
  qed
qed

lemma breaker_opens_at_threshold_witness:
  "bk_state (foldl (failing_call sample_opts) new_breaker [10]) = Closed \<and>
   bk_openedAt (foldl (failing_call sample_opts) new_breaker [10, 900]) = Some 900"
  using breaker_opens_at_threshold [of sample_opts new_breaker "[900]" 10]
  by (simp add: sample_opts_def new_breaker_def valid_opts_def)

lemma slots_unchanged [simp]:
  "bk_slots (transition to b) = bk_slots b" "bk_slots (open_breaker t b) = bk_slots b"
  "bk_slots (recordClosedFailure opts t b) = bk_slots b" "bk_slots (releaseClosed opts g out t b) = bk_slots b"
  "bk_slots (releaseProbe g out t b) = bk_slots b"
  by (simp_all add: transition_def open_breaker_def recordClosedFailure_def releaseClosed_def
      releaseProbe_def Let_def split: option.splits release_outcome.splits)

lemma release_marks:
  "i < length (bk_slots b) \<Longrightarrow> i < length (bk_slots (release opts i out t b))
    \<and> sl_released (bk_slots (release opts i out t b) ! i)"
  by (auto simp: release_def Let_def mark_released_def split: slot_kind.splits)

text \<open>A slot counts once: releasing a handle again, with any outcome at any time, changes
  nothing; and a probe of an earlier generation changes nothing but its own released flag.\<close>
theorem breaker_release_once:
  "release opts i o\<^sub>2 t\<^sub>2 (release opts i o\<^sub>1 t\<^sub>1 b) = release opts i o\<^sub>1 t\<^sub>1 b
   \<and> (i < length (bk_slots b) \<and> sl_generation (bk_slots b ! i) \<noteq> bk_generation b \<and> \<not> sl_released (bk_slots b ! i)
      \<longrightarrow> release opts i o\<^sub>1 t\<^sub>1 b = mark_released i b)"
proof -
  have "release opts i o\<^sub>2 t\<^sub>2 (release opts i o\<^sub>1 t\<^sub>1 b) = release opts i o\<^sub>1 t\<^sub>1 b"
  proof (cases "i < length (bk_slots b)")
    case True
    then have "sl_released (bk_slots (release opts i o\<^sub>1 t\<^sub>1 b) ! i)" using release_marks by blast
    then show ?thesis by (subst release_def) simp
  next
    case False
    then show ?thesis by (simp add: release_def)
  qed
  moreover have "i < length (bk_slots b) \<and> sl_generation (bk_slots b ! i) \<noteq> bk_generation b
      \<and> \<not> sl_released (bk_slots b ! i) \<longrightarrow> release opts i o\<^sub>1 t\<^sub>1 b = mark_released i b"
    by (simp add: release_def Let_def releaseClosed_def releaseProbe_def split: slot_kind.splits)
  ultimately show ?thesis by blast
qed

lemma breaker_release_once_witness:
  "release sample_opts 0 Failure 9 (release sample_opts 0 Success 5
     (fst (closedAcquire new_breaker))) = release sample_opts 0 Success 5 (fst (closedAcquire new_breaker))"
  using breaker_release_once [of sample_opts 0 Failure 9 Success 5 "fst (closedAcquire new_breaker)"] by blast

end
