(* ===== verification/Js_Map.thy ===== *)
theory Js_Map
  imports Machine "HOL-Library.AList"
begin

text \<open>
  \<^verbatim>\<open>Map\<close> as the sources use it: a table that iterates in insertion order, where
  \<^verbatim>\<open>set\<close> on a present key keeps the key's place and on a new key appends it, and
  \<^verbatim>\<open>delete\<close> removes it. It is an association list with distinct keys; the library's
  \<open>AList.update\<close> and \<open>AList.delete\<close> are exactly these two operations. The locale
  \<open>keyed_store\<close> is the contract the bounded tables (rate windows, penalties,
  per-principal slots, anomaly keys) rely on.
\<close>

type_synonym ('k, 'v) jmap = "('k \<times> 'v) list"

abbreviation jm_get :: "('k, 'v) jmap \<Rightarrow> 'k \<Rightarrow> 'v option" where
  "jm_get m k \<equiv> map_of m k"

abbreviation jm_set :: "'k \<Rightarrow> 'v \<Rightarrow> ('k, 'v) jmap \<Rightarrow> ('k, 'v) jmap" where
  "jm_set k v m \<equiv> AList.update k v m"

abbreviation jm_delete :: "'k \<Rightarrow> ('k, 'v) jmap \<Rightarrow> ('k, 'v) jmap" where
  "jm_delete k m \<equiv> AList.delete k m"

abbreviation jm_wf :: "('k, 'v) jmap \<Rightarrow> bool" where
  "jm_wf m \<equiv> distinct (map fst m)"

text \<open>A \<^verbatim>\<open>for (const [key, v] of map) if (dead(v)) map.delete(key)\<close> sweep.\<close>

definition jm_sweep :: "('v \<Rightarrow> bool) \<Rightarrow> ('k, 'v) jmap \<Rightarrow> ('k, 'v) jmap" where
  "jm_sweep dead m = filter (\<lambda>(k, v). \<not> dead v) m"

locale keyed_store =
  fixes get :: "'m \<Rightarrow> 'k \<Rightarrow> 'v option"
    and put :: "'k \<Rightarrow> 'v \<Rightarrow> 'm \<Rightarrow> 'm"
    and del :: "'k \<Rightarrow> 'm \<Rightarrow> 'm"
    and sweep :: "('v \<Rightarrow> bool) \<Rightarrow> 'm \<Rightarrow> 'm"
    and size :: "'m \<Rightarrow> nat"
    and wf :: "'m \<Rightarrow> bool"
  assumes get_put: "wf m \<Longrightarrow> get (put k v m) = (get m)(k \<mapsto> v)"
    and get_del: "wf m \<Longrightarrow> get (del k m) = (get m)(k := None)"
    and get_sweep: "wf m \<Longrightarrow> get (sweep dead m) k =
      (case get m k of None \<Rightarrow> None | Some v \<Rightarrow> if dead v then None else Some v)"
    and size_put: "wf m \<Longrightarrow> size (put k v m) = (if get m k = None then Suc (size m) else size m)"
    and size_del: "wf m \<Longrightarrow> size (del k m) \<le> size m"
    and size_sweep: "wf m \<Longrightarrow> size (sweep dead m) \<le> size m"
    and wf_put: "wf m \<Longrightarrow> wf (put k v m)"
    and wf_del: "wf m \<Longrightarrow> wf (del k m)"
    and wf_sweep: "wf m \<Longrightarrow> wf (sweep dead m)"
begin

lemma bounded_put: "wf m \<Longrightarrow> size m \<le> n \<Longrightarrow> get m k \<noteq> None \<or> size m < n \<Longrightarrow> size (put k v m) \<le> n"
  by (auto simp: size_put)

lemma bounded_del: "wf m \<Longrightarrow> size m \<le> n \<Longrightarrow> size (del k m) \<le> n"
  using size_del order_trans by blast

lemma bounded_sweep: "wf m \<Longrightarrow> size m \<le> n \<Longrightarrow> size (sweep dead m) \<le> n"
  using size_sweep order_trans by blast

lemma sweep_keeps: "wf m \<Longrightarrow> get m k = Some v \<Longrightarrow> \<not> dead v \<Longrightarrow> get (sweep dead m) k = Some v"
  by (simp add: get_sweep)

lemma sweep_only_removes: "wf m \<Longrightarrow> get (sweep dead m) k = Some v \<Longrightarrow> get m k = Some v \<and> \<not> dead v"
  by (auto simp: get_sweep split: option.splits if_splits)

end

lemma map_of_jm_sweep:
  "jm_wf m \<Longrightarrow> map_of (jm_sweep dead m) k =
    (case map_of m k of None \<Rightarrow> None | Some v \<Rightarrow> if dead v then None else Some v)"
proof (induction m)
  case Nil
  then show ?case by (simp add: jm_sweep_def)
next
  case (Cons p m)
  obtain k' v' where p: "p = (k', v')" by fastforce
  from Cons.prems p have none: "map_of m k' = None" by (simp add: map_of_eq_None_iff)
  from Cons p none show ?case by (auto simp: jm_sweep_def)
qed

lemma jm_wf_sweep: "jm_wf m \<Longrightarrow> jm_wf (jm_sweep dead m)"
  unfolding jm_sweep_def by (rule distinct_map_filter)

lemma length_update: "length (AList.update k v m) = (if map_of m k = None then Suc (length m) else length m)"
  by (induction m) auto

lemma length_jm_sweep: "length (jm_sweep dead m) \<le> length m"
  by (simp add: jm_sweep_def)

interpretation js_map: keyed_store map_of AList.update AList.delete jm_sweep length jm_wf
proof unfold_locales
  fix m :: "('k, 'v) jmap" and k :: 'k and v :: 'v and dead :: "'v \<Rightarrow> bool"
  assume wf: "jm_wf m"
  show "map_of (AList.update k v m) = (map_of m)(k \<mapsto> v)" by (rule update_conv')
  show "map_of (AList.delete k m) = (map_of m)(k := None)" by (rule delete_conv')
  show "map_of (jm_sweep dead m) k =
      (case map_of m k of None \<Rightarrow> None | Some v \<Rightarrow> if dead v then None else Some v)"
    using wf by (rule map_of_jm_sweep)
  show "length (AList.update k v m) = (if map_of m k = None then Suc (length m) else length m)"
    by (rule length_update)
  show "length (AList.delete k m) \<le> length m" by (rule length_delete_le)
  show "length (jm_sweep dead m) \<le> length m" by (simp add: jm_sweep_def)
  show "jm_wf (AList.update k v m)" using wf by (rule distinct_update)
  show "jm_wf (AList.delete k m)" using wf by (rule distinct_delete)
  show "jm_wf (jm_sweep dead m)" using wf by (rule jm_wf_sweep)
qed

text \<open>Values kept by a table: what an update or a deletion does to a property of every entry.\<close>

definition jm_all :: "('k \<Rightarrow> 'v \<Rightarrow> bool) \<Rightarrow> ('k, 'v) jmap \<Rightarrow> bool" where
  "jm_all P m = list_all (\<lambda>(k, v). P k v) m"

lemma jm_all_get: "jm_all P m \<Longrightarrow> map_of m k = Some v \<Longrightarrow> P k v"
  by (auto simp: jm_all_def list_all_iff dest: map_of_SomeD)

lemma jm_all_Nil [simp]: "jm_all P []"
  by (simp add: jm_all_def)

lemma jm_all_update [intro]: "jm_all P m \<Longrightarrow> P k v \<Longrightarrow> jm_all P (AList.update k v m)"
  by (induction m) (auto simp: jm_all_def)

lemma jm_all_delete [intro]: "jm_all P m \<Longrightarrow> jm_all P (AList.delete k m)"
  by (auto simp: jm_all_def list_all_iff AList.delete_eq)

lemma jm_all_sweep [intro]: "jm_all P m \<Longrightarrow> jm_all P (jm_sweep dead m)"
  by (auto simp: jm_all_def list_all_iff jm_sweep_def)

end
