(* ===== verification/Penalty.thy ===== *)
theory Penalty
  imports Js_Map
begin

text \<open>
  Progressive penalties for repeated failures, \<^verbatim>\<open>services/ultrathink/auth/penalty.ts\<close>.
  The \<^verbatim>\<open>entries\<close> map is a \<open>jmap\<close> from keys to \<open>pen_entry\<close>;
  an entry the source mutates in place is written back under its key, which keeps its position.
  Times, windows and durations are finite numbers, not necessarily whole, and are exact reals
  here. The optional security logger is the event component of the result.
\<close>

record pen_opts =
  pen_windowMs :: real
  failuresPerWindow :: nat
  baseSec :: real
  maxSec :: real
  decayMs :: real
  pen_maxKeys :: nat

record pen_entry =
  pe_window :: int
  pe_count :: nat
  pe_level :: nat
  pe_blockedUntil :: real

type_synonym pen_table = "(string, pen_entry) jmap"

record pen_result =
  pr_blockedSec :: int
  pr_escalated :: bool
  pr_level :: nat
  pr_tracked :: bool

text \<open>The suspicious-activity event of an escalation: key, level and block length.\<close>

type_synonym pen_event = "string \<times> nat \<times> int"

subsection \<open>Construction\<close>

record pen_raw =
  praw_windowMs :: js_num
  praw_failuresPerWindow :: js_num
  praw_baseSec :: js_num
  praw_maxSec :: js_num
  praw_decayMs :: js_num
  praw_maxKeys :: js_num
  praw_now :: js

definition requirePositive :: "string \<Rightarrow> js_num \<Rightarrow> js_error + real" where
  "requirePositive name v = (case v of
      Fin q \<Rightarrow> if q \<le> 0 then Inl (RangeError name) else Inr q
    | _ \<Rightarrow> Inl (RangeError name))"

definition pen_requirePositiveInteger :: "string \<Rightarrow> js_num \<Rightarrow> js_error + nat" where
  "pen_requirePositiveInteger name v = (case safe_integer v of
      Some i \<Rightarrow> if i < 1 then Inl (RangeError name) else Inr (nat i)
    | None \<Rightarrow> Inl (RangeError name))"

definition pen_validate :: "pen_raw \<Rightarrow> js_error + pen_opts" where
  "pen_validate raw =
     (case requirePositive ''windowMs'' (praw_windowMs raw) of Inl e \<Rightarrow> Inl e | Inr w \<Rightarrow>
     (case pen_requirePositiveInteger ''failuresPerWindow'' (praw_failuresPerWindow raw) of Inl e \<Rightarrow> Inl e | Inr f \<Rightarrow>
     (case requirePositive ''baseSec'' (praw_baseSec raw) of Inl e \<Rightarrow> Inl e | Inr bs \<Rightarrow>
     (case requirePositive ''maxSec'' (praw_maxSec raw) of Inl e \<Rightarrow> Inl e | Inr ms \<Rightarrow>
     (case requirePositive ''decayMs'' (praw_decayMs raw) of Inl e \<Rightarrow> Inl e | Inr d \<Rightarrow>
     (case pen_requirePositiveInteger ''maxKeys'' (praw_maxKeys raw) of Inl e \<Rightarrow> Inl e | Inr k \<Rightarrow>
     (if bs > ms then Inl (RangeError ''baseSec'')
      else if praw_now raw \<noteq> JFun then Inl (RangeError ''now'')
      else Inr \<lparr>pen_windowMs = w, failuresPerWindow = f, baseSec = bs, maxSec = ms,
                decayMs = d, pen_maxKeys = k\<rparr>)))))))"

subsection \<open>Operations\<close>

definition windowOf :: "pen_opts \<Rightarrow> real \<Rightarrow> int" where
  "windowOf opts t = \<lfloor>t / pen_windowMs opts\<rfloor>"

definition secondsUntil :: "real \<Rightarrow> real \<Rightarrow> int" where
  "secondsUntil until t = \<lceil>(until - t) / 1000\<rceil>"

text \<open>What \<^verbatim>\<open>prune\<close> deletes: no active block, no decay running, no current window.\<close>

definition pen_dead :: "pen_opts \<Rightarrow> real \<Rightarrow> pen_entry \<Rightarrow> bool" where
  "pen_dead opts t e = (\<not> pe_blockedUntil e > t
     \<and> \<not> (pe_level e > 0 \<and> t - pe_blockedUntil e \<le> decayMs opts)
     \<and> pe_window e \<noteq> windowOf opts t)"

definition prune :: "pen_opts \<Rightarrow> real \<Rightarrow> pen_table \<Rightarrow> pen_table" where
  "prune opts t m = jm_sweep (pen_dead opts t) m"

definition fresh_entry :: "pen_opts \<Rightarrow> real \<Rightarrow> pen_entry" where
  "fresh_entry opts t = \<lparr>pe_window = windowOf opts t, pe_count = 0, pe_level = 0, pe_blockedUntil = 0\<rparr>"

definition block_seconds :: "pen_opts \<Rightarrow> nat \<Rightarrow> real" where
  "block_seconds opts level = min (maxSec opts) (baseSec opts * 2 ^ (level - 1))"

text \<open>The part of \<^verbatim>\<open>fail\<close> after the entry is known: count, and escalate beyond the threshold.\<close>

definition count_failure :: "pen_opts \<Rightarrow> real \<Rightarrow> pen_entry \<Rightarrow> pen_entry \<times> pen_result \<times> bool" where
  "count_failure opts t e =
     (let e\<^sub>1 = (if pe_window e \<noteq> windowOf opts t
               then e\<lparr>pe_window := windowOf opts t, pe_count := 0\<rparr> else e);
          e\<^sub>2 = e\<^sub>1\<lparr>pe_count := pe_count e\<^sub>1 + 1\<rparr>
      in if pe_count e\<^sub>2 \<le> failuresPerWindow opts
         then (e\<^sub>2, \<lparr>pr_blockedSec = 0, pr_escalated = False, pr_level = pe_level e\<^sub>2, pr_tracked = True\<rparr>, False)
         else
           let quiet = (pe_level e\<^sub>2 = 0 \<or> t - pe_blockedUntil e\<^sub>2 > decayMs opts);
               level = (if quiet then 1 else pe_level e\<^sub>2 + 1);
               until = t + block_seconds opts level * 1000;
               e\<^sub>3 = e\<^sub>2\<lparr>pe_level := level, pe_blockedUntil := until, pe_count := 0\<rparr>
           in (e\<^sub>3, \<lparr>pr_blockedSec = secondsUntil until t, pr_escalated = True, pr_level = level, pr_tracked = True\<rparr>, True))"

definition fail_entry :: "pen_opts \<Rightarrow> real \<Rightarrow> string \<Rightarrow> pen_entry \<Rightarrow> pen_table \<Rightarrow> pen_table \<times> pen_result \<times> pen_event option" where
  "fail_entry opts t key e m =
     (let (e', r, escalated) = count_failure opts t e
      in (jm_set key e' m, r, if escalated then Some (key, pr_level r, pr_blockedSec r) else None))"

definition untracked :: pen_result where
  "untracked = \<lparr>pr_blockedSec = 0, pr_escalated = False, pr_level = 0, pr_tracked = False\<rparr>"

definition pen_fail :: "pen_opts \<Rightarrow> real \<Rightarrow> string \<Rightarrow> pen_table \<Rightarrow> pen_table \<times> pen_result \<times> pen_event option" where
  "pen_fail opts t key m = (case jm_get m key of
      Some e \<Rightarrow>
        if pe_blockedUntil e > t
        then (m, \<lparr>pr_blockedSec = secondsUntil (pe_blockedUntil e) t, pr_escalated = False,
                  pr_level = pe_level e, pr_tracked = True\<rparr>, None)
        else fail_entry opts t key e m
    | None \<Rightarrow>
        let m' = (if length m \<ge> pen_maxKeys opts then prune opts t m else m) in
        if length m \<ge> pen_maxKeys opts \<and> length m' \<ge> pen_maxKeys opts then (m', untracked, None)
        else fail_entry opts t key (fresh_entry opts t) m')"

definition pen_blockedSec :: "real \<Rightarrow> string \<Rightarrow> pen_table \<Rightarrow> int" where
  "pen_blockedSec t key m = (case jm_get m key of
      None \<Rightarrow> 0
    | Some e \<Rightarrow> if pe_blockedUntil e > t then secondsUntil (pe_blockedUntil e) t else 0)"

datatype pen_call = Fail string | BlockedSec string

datatype pen_output = Failed pen_result "pen_event option" | Blocked int

fun pen_step :: "pen_opts \<Rightarrow> pen_table \<Rightarrow> real \<times> pen_call \<Rightarrow> pen_table \<times> pen_output" where
  "pen_step opts m (t, Fail key) = (let (m', r, ev) = pen_fail opts t key m in (m', Failed r ev))"
| "pen_step opts m (t, BlockedSec key) = (m, Blocked (pen_blockedSec t key m))"

subsection \<open>Invariant\<close>

definition pen_valid :: "pen_opts \<Rightarrow> bool" where
  "pen_valid opts = (0 < pen_windowMs opts \<and> 1 \<le> failuresPerWindow opts \<and> 0 < baseSec opts
     \<and> baseSec opts \<le> maxSec opts \<and> 0 < decayMs opts \<and> 1 \<le> pen_maxKeys opts)"

definition entry_ok :: "pen_opts \<Rightarrow> pen_entry \<Rightarrow> bool" where
  "entry_ok opts e = (pe_count e \<le> failuresPerWindow opts \<and> (pe_level e = 0 \<longrightarrow> pe_blockedUntil e = 0))"

definition pen_inv :: "pen_opts \<Rightarrow> pen_table \<Rightarrow> bool" where
  "pen_inv opts m \<longleftrightarrow> pen_valid opts \<and> jm_wf m \<and> length m \<le> pen_maxKeys opts
     \<and> jm_all (\<lambda>_. entry_ok opts) m"

lemma pen_validate_Inr: "pen_validate raw = Inr opts \<Longrightarrow> pen_valid opts"
  by (auto simp: pen_validate_def requirePositive_def pen_requirePositiveInteger_def pen_valid_def
      split: js_num.splits option.splits sum.splits if_splits)

lemma block_seconds_bounds:
  assumes "pen_valid opts"
  shows "0 < block_seconds opts l" and "block_seconds opts l \<le> maxSec opts"
    and "baseSec opts \<le> block_seconds opts l"
proof -
  have base: "baseSec opts \<le> baseSec opts * 2 ^ (l - 1)"
    using assms by (simp add: pen_valid_def)
  then show "baseSec opts \<le> block_seconds opts l" "block_seconds opts l \<le> maxSec opts"
    using assms by (simp_all add: block_seconds_def pen_valid_def)
  with assms show "0 < block_seconds opts l" by (simp add: pen_valid_def)
qed

text \<open>Every count and level follows one of three rows: below the threshold, first or further escalation.\<close>

lemma count_failure_ok:
  assumes "pen_valid opts" "entry_ok opts e" "count_failure opts t e = (e', r, esc)"
  shows "entry_ok opts e'" and "esc = pr_escalated r" and "pr_tracked r"
    and "esc \<Longrightarrow> pe_level e' = (if pe_level e = 0 \<or> t - pe_blockedUntil e > decayMs opts then 1 else pe_level e + 1)
      \<and> pe_blockedUntil e' = t + block_seconds opts (pe_level e') * 1000
      \<and> pr_blockedSec r = secondsUntil (pe_blockedUntil e') t \<and> pr_level r = pe_level e'"
    and "\<not> esc \<Longrightarrow> pe_level e' = pe_level e \<and> pe_blockedUntil e' = pe_blockedUntil e \<and> pr_blockedSec r = 0"
  using assms
  by (auto simp: count_failure_def Let_def entry_ok_def split: if_splits)

lemma fresh_entry_ok: "entry_ok opts (fresh_entry opts t)"
  by (simp add: entry_ok_def fresh_entry_def)

lemma fail_entry_table: "fst (fail_entry opts t key e m) = jm_set key (fst (count_failure opts t e)) m"
  by (simp add: fail_entry_def split: prod.splits)

lemma prune_inv: "pen_inv opts m \<Longrightarrow> pen_inv opts (prune opts t m)"
  unfolding pen_inv_def prune_def
  by (auto intro: jm_wf_sweep js_map.bounded_sweep)

lemma fail_entry_inv:
  assumes inv: "pen_inv opts m" and e: "entry_ok opts e"
    and room: "jm_get m key \<noteq> None \<or> length m < pen_maxKeys opts"
  shows "pen_inv opts (fst (fail_entry opts t key e m))"
proof -
  have "entry_ok opts (fst (count_failure opts t e))"
    using count_failure_ok(1) e inv unfolding pen_inv_def by (metis prod.collapse)
  with assms show ?thesis
    unfolding fail_entry_table pen_inv_def
    by (auto intro: js_map.bounded_put distinct_update simp: jm_all_update)
qed

lemma pen_fail_inv: "pen_inv opts m \<Longrightarrow> pen_inv opts (fst (pen_fail opts t key m))"
proof (cases "jm_get m key")
  case None
  assume inv: "pen_inv opts m"
  let ?m = "if length m \<ge> pen_maxKeys opts then prune opts t m else m"
  have "pen_inv opts ?m" using inv prune_inv by simp
  with None inv fail_entry_inv [of opts ?m "fresh_entry opts t" key t] show ?thesis
    by (auto simp: pen_fail_def Let_def fresh_entry_ok prune_inv)
next
  case (Some e)
  assume inv: "pen_inv opts m"
  then have "entry_ok opts e" using Some jm_all_get unfolding pen_inv_def by fastforce
  with Some inv fail_entry_inv [of opts m e key t] show ?thesis by (simp add: pen_fail_def)
qed

interpretation penalty: machine "pen_step opts" "pen_inv opts" for opts
proof unfold_locales
  fix m and call :: "real \<times> pen_call"
  assume inv: "pen_inv opts m"
  obtain t c where call: "call = (t, c)" by fastforce
  show "pen_inv opts (fst (pen_step opts m call))"
    using inv pen_fail_inv [OF inv] unfolding call by (cases c) (simp_all add: split_beta)
qed

lemma pen_empty_inv: "pen_valid opts \<Longrightarrow> pen_inv opts []"
  by (simp add: pen_inv_def)

lemma pen_run_inv: "pen_validate raw = Inr opts \<Longrightarrow> pen_inv opts (final (pen_step opts) [] calls)"
  using penalty.run_inv pen_empty_inv pen_validate_Inr by blast

subsection \<open>What a failure does\<close>

lemma secondsUntil_pos: "t < until \<Longrightarrow> 1 \<le> secondsUntil until t"
  by (simp add: secondsUntil_def one_le_ceiling)

lemma secondsUntil_block: "secondsUntil (t + s * 1000) t = \<lceil>s\<rceil>"
  by (simp add: secondsUntil_def)

text \<open>The entry a failure of \<open>key\<close> is counted on: the stored one, or a fresh one.\<close>

definition entry_of :: "pen_opts \<Rightarrow> real \<Rightarrow> string \<Rightarrow> pen_table \<Rightarrow> pen_entry" where
  "entry_of opts t key m = (case jm_get m key of Some e \<Rightarrow> e | None \<Rightarrow> fresh_entry opts t)"

lemma entry_of_ok: "pen_inv opts m \<Longrightarrow> entry_ok opts (entry_of opts t key m)"
  using jm_all_get by (fastforce simp: entry_of_def fresh_entry_ok pen_inv_def split: option.splits)

lemma pen_fail_cases:
  assumes "pen_fail opts t key m = (m', r, ev)"
  obtains (blocked) e where "jm_get m key = Some e" "t < pe_blockedUntil e" "m' = m"
      "pr_blockedSec r = secondsUntil (pe_blockedUntil e) t" "\<not> pr_escalated r" "ev = None" "pr_tracked r"
  | (full) "jm_get m key = None" "r = untracked" "ev = None" "m' = prune opts t m"
  | (counted) e' esc where "\<not> (\<exists>e. jm_get m key = Some e \<and> t < pe_blockedUntil e)"
      "count_failure opts t (entry_of opts t key m) = (e', r, esc)" "jm_get m' key = Some e'"
      "ev = (if esc then Some (key, pr_level r, pr_blockedSec r) else None)"
proof (cases "jm_get m key")
  case None
  let ?m = "if length m \<ge> pen_maxKeys opts then prune opts t m else m"
  show thesis
  proof (cases "length m \<ge> pen_maxKeys opts \<and> length ?m \<ge> pen_maxKeys opts")
    case True
    with None assms show thesis by (intro full) (auto simp: pen_fail_def Let_def)
  next
    case False
    obtain e' r' esc where c: "count_failure opts t (fresh_entry opts t) = (e', r', esc)"
      by (metis prod_cases3)
    with None assms False show thesis
      by (intro counted [of e' esc]) (auto simp: pen_fail_def Let_def fail_entry_def entry_of_def update_conv')
  qed
next
  case (Some e)
  obtain e' r' esc where c: "count_failure opts t e = (e', r', esc)" by (metis prod_cases3)
  show thesis
  proof (cases "t < pe_blockedUntil e")
    case True
    with Some assms show thesis by (intro blocked [of e]) (auto simp: pen_fail_def)
  next
    case False
    with Some assms c show thesis
      by (intro counted [of e' esc]) (auto simp: pen_fail_def fail_entry_def entry_of_def update_conv')
  qed
qed

definition pen_sample :: pen_opts where
  "pen_sample = \<lparr>pen_windowMs = 1000, failuresPerWindow = 2, baseSec = 60, maxSec = 3600,
     decayMs = 5000, pen_maxKeys = 3\<rparr>"

definition pen_sample_raw :: pen_raw where
  "pen_sample_raw = \<lparr>praw_windowMs = Fin 1000, praw_failuresPerWindow = Fin 2, praw_baseSec = Fin 60,
     praw_maxSec = Fin 3600, praw_decayMs = Fin 5000, praw_maxKeys = Fin 3, praw_now = JFun\<rparr>"

lemma pen_sample_valid: "pen_validate pen_sample_raw = Inr pen_sample"
  by (simp add: pen_validate_def pen_sample_raw_def pen_sample_def requirePositive_def
      pen_requirePositiveInteger_def safe_integer_def MAX_SAFE_INTEGER_def)

text \<open>In every run of a ladder that construction accepted, the table never holds more than
  \<^verbatim>\<open>maxKeys\<close> keys. A failure during an active block changes nothing and reports the
  remaining seconds. An escalation blocks the key at once for the ladder's duration, the base doubled
  with the level and capped at \<^verbatim>\<open>maxSec\<close>; the level is one more than before, or one
  when the key was never blocked or its last block ended more than \<^verbatim>\<open>decayMs\<close> ago,
  and exactly the escalations report an event.\<close>
theorem penalty_fail_outcomes:
  assumes "pen_validate raw = Inr opts" and "m = final (pen_step opts) [] calls"
    and "pen_fail opts t key m = (m', r, ev)"
  shows "length m' \<le> pen_maxKeys opts
    \<and> (pen_blockedSec t key m > 0 \<longrightarrow>
         m' = m \<and> pr_blockedSec r = pen_blockedSec t key m \<and> \<not> pr_escalated r)
    \<and> (pr_escalated r \<longrightarrow>
         pr_level r = (let e = entry_of opts t key m in
           if pe_level e = 0 \<or> t - pe_blockedUntil e > decayMs opts then 1 else pe_level e + 1)
         \<and> pr_blockedSec r = \<lceil>min (maxSec opts) (baseSec opts * 2 ^ (pr_level r - 1))\<rceil>
         \<and> pen_blockedSec t key m' = pr_blockedSec r)
    \<and> (ev = (if pr_escalated r then Some (key, pr_level r, pr_blockedSec r) else None))"
proof -
  have inv: "pen_inv opts m" using pen_run_inv [OF assms(1)] assms(2) by simp
  then have len: "length m' \<le> pen_maxKeys opts"
    using pen_fail_inv [OF inv, of t key] assms(3) by (simp add: pen_inv_def)
  have valid: "pen_valid opts" using inv by (simp add: pen_inv_def)
  from assms(3) show ?thesis
  proof (cases rule: pen_fail_cases)
    case (blocked e)
    with len secondsUntil_pos [of t "pe_blockedUntil e"] show ?thesis by (simp add: pen_blockedSec_def)
  next
    case full
    with len show ?thesis by (simp add: untracked_def pen_blockedSec_def)
  next
    case (counted e' esc)
    note c = count_failure_ok [OF valid entry_of_ok [OF inv] counted(2)]
    have "pen_blockedSec t key m = 0"
      using counted(1) by (auto simp: pen_blockedSec_def split: option.splits)
    moreover have "0 < block_seconds opts (pe_level e')" by (rule block_seconds_bounds(1) [OF valid])
    ultimately show ?thesis
      using len c counted(3,4) secondsUntil_block [of t "block_seconds opts (pe_level e')"]
      by (cases esc) (auto simp: pen_blockedSec_def Let_def block_seconds_def)
  qed
qed

lemma penalty_fail_outcomes_witness:
  "\<exists>m m' r ev. pen_fail pen_sample 30 ''a'' m = (m', r, ev) \<and> pr_escalated r \<and> pr_blockedSec r = 60
     \<and> pen_blockedSec 30 ''a'' m' = 60"
proof -
  let ?m = "final (pen_step pen_sample) [] [(10, Fail ''a''), (20, Fail ''a'')]"
  obtain m' r ev where f: "pen_fail pen_sample 30 ''a'' ?m = (m', r, ev)" by (metis prod_cases3)
  then have "pr_escalated r" "pr_level r = 1"
    by (auto simp: pen_fail_def fail_entry_def count_failure_def fresh_entry_def pen_sample_def windowOf_def
        Let_def)
  with penalty_fail_outcomes [OF pen_sample_valid refl f] f show ?thesis
    by (intro exI [of _ ?m] exI [of _ m'] exI [of _ r] exI [of _ ev]) (simp add: pen_sample_def)
qed

subsection \<open>The threshold of a window\<close>

definition pen_fails :: "pen_opts \<Rightarrow> string \<Rightarrow> pen_table \<Rightarrow> real list \<Rightarrow> pen_table" where
  "pen_fails opts key m ts = foldl (\<lambda>m t. fst (pen_fail opts t key m)) m ts"

lemma pen_fails_counted:
  assumes "jm_get m key = Some e" "pe_blockedUntil e = 0" "pe_window e = w" "pe_level e = 0"
    "pe_count e + length ts \<le> failuresPerWindow opts" "\<forall>t \<in> set ts. windowOf opts t = w \<and> 0 \<le> t"
  shows "\<exists>e'. jm_get (pen_fails opts key m ts) key = Some e' \<and> pe_blockedUntil e' = 0 \<and> pe_window e' = w
    \<and> pe_level e' = 0 \<and> pe_count e' = pe_count e + length ts"
  using assms
proof (induction ts arbitrary: m e)
  case Nil
  then show ?case by (simp add: pen_fails_def)
next
  case (Cons t ts)
  define e\<^sub>1 where "e\<^sub>1 = e\<lparr>pe_count := pe_count e + 1\<rparr>"
  have "jm_get (fst (pen_fail opts t key m)) key = Some e\<^sub>1"
    using Cons.prems by (simp add: pen_fail_def fail_entry_def count_failure_def e\<^sub>1_def Let_def update_conv')
  then obtain e' where "jm_get (pen_fails opts key (fst (pen_fail opts t key m)) ts) key = Some e'"
    "pe_blockedUntil e' = 0" "pe_window e' = w" "pe_level e' = 0" "pe_count e' = pe_count e\<^sub>1 + length ts"
    using Cons.IH [of "fst (pen_fail opts t key m)" e\<^sub>1] Cons.prems by (auto simp: e\<^sub>1_def)
  then show ?case by (simp add: pen_fails_def e\<^sub>1_def)
qed

text \<open>The window threshold: for a key the table does not hold, with room for it, the first
  \<^verbatim>\<open>failuresPerWindow\<close> failures inside one window block nobody, and the next failure
  in that window escalates to level one.\<close>
theorem penalty_threshold:
  assumes "pen_valid opts" and "jm_get m key = None" and "length m < pen_maxKeys opts"
    and "length ts = failuresPerWindow opts" and "\<forall>t \<in> set (u # ts). windowOf opts t = w \<and> 0 \<le> t"
    and "pen_fail opts u key (pen_fails opts key m ts) = (m', r, ev)"
  shows "pen_blockedSec u key (pen_fails opts key m ts) = 0
    \<and> pr_escalated r \<and> pr_level r = 1 \<and> pr_blockedSec r = \<lceil>baseSec opts\<rceil>"
proof -
  obtain t ts' where ts: "ts = t # ts'"
    using assms(1,4) by (cases ts) (auto simp: pen_valid_def)
  let ?e = "(fresh_entry opts t)\<lparr>pe_count := 1\<rparr>"
  have "jm_get (fst (pen_fail opts t key m)) key = Some ?e"
    using assms ts by (simp add: pen_fail_def fail_entry_def count_failure_def Let_def update_conv' fresh_entry_def)
  moreover have "pe_window ?e = w" using assms(5) ts by (simp add: fresh_entry_def)
  ultimately obtain e where e: "jm_get (pen_fails opts key (fst (pen_fail opts t key m)) ts') key = Some e"
    "pe_blockedUntil e = 0" "pe_window e = w" "pe_level e = 0" "pe_count e = failuresPerWindow opts"
    using pen_fails_counted [of "fst (pen_fail opts t key m)" key ?e w ts' opts] assms(4,5) ts
    by (auto simp: fresh_entry_def)
  have "jm_get (pen_fails opts key m ts) key = Some e" using e(1) ts by (simp add: pen_fails_def)
  moreover have "baseSec opts \<le> maxSec opts" using assms(1) by (simp add: pen_valid_def)
  ultimately show ?thesis
    using e assms(5,6) secondsUntil_block [of u "baseSec opts"]
    by (auto simp: pen_fail_def fail_entry_def count_failure_def Let_def pen_blockedSec_def block_seconds_def)
qed

lemma penalty_threshold_witness:
  "\<exists>r :: pen_result. pr_escalated r \<and> pr_level r = 1 \<and> pr_blockedSec r = 60"
proof -
  obtain m' r ev where "pen_fail pen_sample 30 ''a'' (pen_fails pen_sample ''a'' [] [10, 20]) = (m', r, ev)"
    by (metis prod_cases3)
  from penalty_threshold [of pen_sample "[]" "''a''" "[10, 20]" 30 0, OF _ _ _ _ _ this] show ?thesis
    by (auto simp: pen_sample_def pen_valid_def windowOf_def)
qed

subsection \<open>Pruning is not observable\<close>

lemma windowOf_mono: "pen_valid opts \<Longrightarrow> t \<le> t' \<Longrightarrow> windowOf opts t \<le> windowOf opts t'"
  unfolding windowOf_def pen_valid_def by (intro floor_mono divide_right_mono) auto

lemma pruned_get:
  "jm_wf m \<Longrightarrow> jm_get (prune opts t m) key = (case jm_get m key of None \<Rightarrow> None
     | Some e \<Rightarrow> if pen_dead opts t e then None else Some e)"
  unfolding prune_def by (rule map_of_jm_sweep)

lemma prune_shrinks:
  assumes "jm_wf m" "jm_get m key = Some e" "pen_dead opts t e"
  shows "length (prune opts t m) < length m"
proof -
  have "(key, e) \<in> set m" using assms(2) by (rule map_of_SomeD)
  with assms(3) show ?thesis
    unfolding prune_def jm_sweep_def by (intro length_filter_less [of "(key, e)"]) simp_all
qed

text \<open>
  Two tables that differ by pruning: a key held by one of them only carries no live state, and the
  entries of a key held by both are equal or differ in a level and a block that are both long over.
\<close>

definition past :: "pen_opts \<Rightarrow> real \<Rightarrow> pen_entry \<Rightarrow> bool" where
  "past opts t e \<longleftrightarrow> pe_blockedUntil e \<le> t \<and> (pe_level e = 0 \<or> decayMs opts < t - pe_blockedUntil e)"

definition alike :: "pen_opts \<Rightarrow> real \<Rightarrow> pen_entry \<Rightarrow> pen_entry \<Rightarrow> bool" where
  "alike opts t e e' \<longleftrightarrow> e = e' \<or>
     past opts t e \<and> past opts t e' \<and> pe_window e = pe_window e' \<and> pe_count e = pe_count e'"

definition same_slot :: "pen_opts \<Rightarrow> real \<Rightarrow> pen_entry option \<Rightarrow> pen_entry option \<Rightarrow> bool" where
  "same_slot opts t a b = (case (a, b) of
      (None, None) \<Rightarrow> True
    | (Some e, None) \<Rightarrow> pen_dead opts t e \<and> pe_window e \<le> windowOf opts t
    | (None, Some e) \<Rightarrow> pen_dead opts t e \<and> pe_window e \<le> windowOf opts t
    | (Some e, Some e') \<Rightarrow> alike opts t e e' \<and> pe_window e \<le> windowOf opts t)"

definition same_state :: "pen_opts \<Rightarrow> real \<Rightarrow> pen_table \<Rightarrow> pen_table \<Rightarrow> bool" where
  "same_state opts t m m' \<longleftrightarrow> pen_inv opts m \<and> pen_inv opts m' \<and> (\<forall>k. same_slot opts t (jm_get m k) (jm_get m' k))"

lemma dead_past: "pen_dead opts t e \<longleftrightarrow> past opts t e \<and> pe_window e \<noteq> windowOf opts t"
  by (auto simp: pen_dead_def past_def)

lemma alike_sym: "alike opts t e e' \<Longrightarrow> alike opts t e' e"
  by (auto simp: alike_def)

lemma alike_window: "alike opts t e e' \<Longrightarrow> pe_window e = pe_window e'"
  by (auto simp: alike_def)

lemma alike_dead: "alike opts t e e' \<Longrightarrow> pen_dead opts t e = pen_dead opts t e'"
  by (auto simp: alike_def dead_past)

lemma same_slot_sym: "same_slot opts t a b \<Longrightarrow> same_slot opts t b a"
  using alike_sym alike_window by (fastforce simp: same_slot_def split: option.splits)

lemma same_state_sym: "same_state opts t m m' \<Longrightarrow> same_state opts t m' m"
  using same_slot_sym unfolding same_state_def by blast

lemma same_slot_later:
  assumes "pen_valid opts" "t \<le> t'" "same_slot opts t a b"
  shows "same_slot opts t' a b"
proof -
  have later: "past opts t e \<Longrightarrow> past opts t' e" for e using assms(2) by (auto simp: past_def)
  have window: "windowOf opts t \<le> windowOf opts t'" by (rule windowOf_mono [OF assms(1,2)])
  from assms(3) later window show ?thesis
    by (fastforce simp: same_slot_def alike_def dead_past split: option.splits)
qed

lemma same_state_later: "t \<le> t' \<Longrightarrow> same_state opts t m m' \<Longrightarrow> same_state opts t' m m'"
  using same_slot_later unfolding same_state_def pen_inv_def by blast

text \<open>Pruning keeps the state and leaves equally many keys in both tables.\<close>

lemma same_state_prune:
  assumes "same_state opts t m m'"
  shows "same_state opts t (prune opts t m) m'"
proof -
  have wf: "jm_wf m" using assms by (simp add: same_state_def pen_inv_def)
  have "same_slot opts t (jm_get (prune opts t m) k) (jm_get m' k)" for k
  proof -
    have "same_slot opts t (jm_get m k) (jm_get m' k)" using assms by (simp add: same_state_def)
    then show ?thesis
      using alike_dead [of opts t] alike_window [of opts t] pruned_get [OF wf, of opts t k]
      by (fastforce simp: same_slot_def split: option.splits if_splits)
  qed
  with assms prune_inv show ?thesis by (simp add: same_state_def)
qed

lemma pruned_keys:
  assumes "jm_wf m"
  shows "set (map fst (prune opts t m)) = {k. \<exists>e. jm_get m k = Some e \<and> \<not> pen_dead opts t e}"
proof -
  have "k \<in> set (map fst (prune opts t m)) \<longleftrightarrow> jm_get (prune opts t m) k \<noteq> None" for k
    by (simp add: map_of_eq_None_iff)
  also have "\<dots> k \<longleftrightarrow> (\<exists>e. jm_get m k = Some e \<and> \<not> pen_dead opts t e)" for k
    using pruned_get [OF assms, of opts t k] by (auto split: option.splits)
  finally show ?thesis by blast
qed

lemma same_state_pruned_length:
  assumes "same_state opts t m m'"
  shows "length (prune opts t m) = length (prune opts t m')"
proof -
  have wf: "jm_wf m" "jm_wf m'" using assms by (auto simp: same_state_def pen_inv_def)
  have sub: "\<exists>e'. jm_get n' k = Some e' \<and> \<not> pen_dead opts t e'"
    if "same_state opts t n n'" "jm_get n k = Some e" "\<not> pen_dead opts t e" for n n' k e
  proof -
    have "same_slot opts t (jm_get n k) (jm_get n' k)" using that(1) by (simp add: same_state_def)
    with that(2,3) alike_dead [of opts t e] show ?thesis by (auto simp: same_slot_def split: option.splits)
  qed
  have "set (map fst (prune opts t m)) = set (map fst (prune opts t m'))"
    unfolding pruned_keys [OF wf(1)] pruned_keys [OF wf(2)]
    using sub [OF assms] sub [OF same_state_sym [OF assms]] by blast
  moreover have "distinct (map fst (prune opts t m))" "distinct (map fst (prune opts t m'))"
    unfolding prune_def by (intro jm_wf_sweep wf)+
  ultimately show ?thesis by (metis distinct_card length_map)
qed

text \<open>The table a failure of \<open>key\<close> is stored in, after the prune that makes room.\<close>

definition with_room :: "pen_opts \<Rightarrow> real \<Rightarrow> string \<Rightarrow> pen_table \<Rightarrow> pen_table" where
  "with_room opts t key m = (if jm_get m key = None \<and> pen_maxKeys opts \<le> length m then prune opts t m else m)"

definition no_room :: "pen_opts \<Rightarrow> real \<Rightarrow> string \<Rightarrow> pen_table \<Rightarrow> bool" where
  "no_room opts t key m = (jm_get m key = None \<and> pen_maxKeys opts \<le> length (prune opts t m))"

lemma prune_length_le: "length (prune opts t m) \<le> length m"
  by (simp add: prune_def length_jm_sweep)

lemma pen_fail_unblocked:
  assumes "\<And>e. jm_get m key = Some e \<Longrightarrow> \<not> t < pe_blockedUntil e"
  shows "pen_fail opts t key m = (if no_room opts t key m then (with_room opts t key m, untracked, None)
    else fail_entry opts t key (entry_of opts t key m) (with_room opts t key m))"
  using assms prune_length_le [of opts t m]
  by (auto simp: pen_fail_def no_room_def with_room_def entry_of_def Let_def split: option.split)

lemma same_state_with_room:
  "same_state opts t m m' \<Longrightarrow> same_state opts t (with_room opts t key m) (with_room opts t key m')"
proof -
  assume state: "same_state opts t m m'"
  note left = same_state_prune [OF this]
  note right = same_state_sym [OF same_state_prune [OF same_state_sym [OF state]]]
  note both = same_state_sym [OF same_state_prune [OF same_state_sym [OF left]]]
  show ?thesis using state left right both by (simp add: with_room_def)
qed

lemma same_state_no_room:
  assumes "same_state opts t m m'" "no_room opts t key m"
  shows "no_room opts t key m'"
proof (cases "jm_get m' key")
  case None
  with assms same_state_pruned_length show ?thesis by (simp add: no_room_def)
next
  case (Some e)
  have "same_slot opts t (jm_get m key) (jm_get m' key)" using assms(1) by (simp add: same_state_def)
  with assms(2) Some have "pen_dead opts t e" by (simp add: same_slot_def no_room_def)
  with assms(1) Some have "length (prune opts t m') < pen_maxKeys opts"
    using prune_shrinks [of m' key e opts t] by (auto simp: same_state_def pen_inv_def)
  with assms show ?thesis by (simp add: same_state_pruned_length no_room_def)
qed

text \<open>What one sees of a failure: all of the result but the level reported without a block.\<close>

definition same_result :: "pen_result \<Rightarrow> pen_result \<Rightarrow> bool" where
  "same_result r r' \<longleftrightarrow> pr_blockedSec r = pr_blockedSec r' \<and> pr_escalated r = pr_escalated r' \<and>
     pr_tracked r = pr_tracked r' \<and> (pr_escalated r \<or> 0 < pr_blockedSec r \<longrightarrow> pr_level r = pr_level r')"

lemma alike_count_failure:
  assumes "pen_valid opts" and alike: "alike opts t e e'"
    and c: "count_failure opts t e = (e\<^sub>1, r\<^sub>1, b\<^sub>1)" "count_failure opts t e' = (e\<^sub>2, r\<^sub>2, b\<^sub>2)"
  shows "b\<^sub>1 = b\<^sub>2 \<and> same_result r\<^sub>1 r\<^sub>2 \<and> alike opts t e\<^sub>1 e\<^sub>2 \<and> pe_window e\<^sub>1 = windowOf opts t \<and> (b\<^sub>1 \<longrightarrow> r\<^sub>1 = r\<^sub>2)"
proof (cases "e = e'")
  case True
  with c have "e\<^sub>1 = e\<^sub>2" "r\<^sub>1 = r\<^sub>2" "b\<^sub>1 = b\<^sub>2" by simp_all
  moreover have "pe_window e\<^sub>1 = windowOf opts t"
    using c(1) by (auto simp: count_failure_def Let_def split: if_splits)
  ultimately show ?thesis by (simp add: same_result_def alike_def)
next
  case False
  with alike have p: "past opts t e" "past opts t e'" "pe_window e = pe_window e'" "pe_count e = pe_count e'"
    by (auto simp: alike_def)
  define n where "n = (if pe_window e \<noteq> windowOf opts t then 0 else pe_count e) + 1"
  have count: "count_failure opts t x = (if n \<le> failuresPerWindow opts
      then (x\<lparr>pe_window := windowOf opts t, pe_count := n\<rparr>,
        \<lparr>pr_blockedSec = 0, pr_escalated = False, pr_level = pe_level x, pr_tracked = True\<rparr>, False)
      else (\<lparr>pe_window = windowOf opts t, pe_count = 0, pe_level = 1, pe_blockedUntil = t + block_seconds opts 1 * 1000\<rparr>,
        \<lparr>pr_blockedSec = secondsUntil (t + block_seconds opts 1 * 1000) t, pr_escalated = True, pr_level = 1, pr_tracked = True\<rparr>, True))"
    if "past opts t x" "pe_window x = pe_window e" "pe_count x = pe_count e" for x :: pen_entry
    using that by (cases x) (simp add: count_failure_def Let_def n_def past_def)
  show ?thesis
  proof (cases "n \<le> failuresPerWindow opts")
    case True
    with c count [OF p(1)] count [OF p(2)] p show ?thesis
      by (auto simp: same_result_def alike_def past_def)
  next
    case False
    with c count [OF p(1)] count [OF p(2)] p show ?thesis
      by (auto simp: same_result_def alike_def)
  qed
qed

lemma dead_count_failure:
  assumes "pen_valid opts" "pen_dead opts t e" "0 \<le> t"
    "count_failure opts t e = (e\<^sub>1, r\<^sub>1, b\<^sub>1)" "count_failure opts t (fresh_entry opts t) = (e\<^sub>2, r\<^sub>2, b\<^sub>2)"
  shows "\<not> b\<^sub>1 \<and> \<not> b\<^sub>2 \<and> same_result r\<^sub>1 r\<^sub>2 \<and> alike opts t e\<^sub>1 e\<^sub>2 \<and> pe_window e\<^sub>1 = windowOf opts t"
  using assms
  by (auto simp: count_failure_def alike_def dead_past past_def same_result_def fresh_entry_def pen_valid_def
      Let_def split: if_splits)

lemma same_result_sym: "same_result r r' \<Longrightarrow> same_result r' r"
  by (auto simp: same_result_def)

lemma same_slot_entry_of:
  assumes state: "same_state opts t m m'" and t: "0 \<le> t"
    and c: "count_failure opts t (entry_of opts t key m) = (e\<^sub>1, r\<^sub>1, b\<^sub>1)"
      "count_failure opts t (entry_of opts t key m') = (e\<^sub>2, r\<^sub>2, b\<^sub>2)"
  shows "b\<^sub>1 = b\<^sub>2 \<and> same_result r\<^sub>1 r\<^sub>2 \<and> alike opts t e\<^sub>1 e\<^sub>2 \<and> pe_window e\<^sub>1 = windowOf opts t \<and> (b\<^sub>1 \<longrightarrow> r\<^sub>1 = r\<^sub>2)"
proof -
  have valid: "pen_valid opts" and slot: "same_slot opts t (jm_get m key) (jm_get m' key)"
    using state by (auto simp: same_state_def pen_inv_def)
  consider e e' where "jm_get m key = Some e" "jm_get m' key = Some e'" "alike opts t e e'"
    | "jm_get m key = None" "jm_get m' key = None"
    | e where "jm_get m key = Some e" "jm_get m' key = None" "pen_dead opts t e"
    | e where "jm_get m key = None" "jm_get m' key = Some e" "pen_dead opts t e"
    using slot by (auto simp: same_slot_def split: option.splits)
  then show ?thesis
  proof cases
    case 1
    with c show ?thesis by (intro alike_count_failure [OF valid 1(3)]) (simp_all add: entry_of_def)
  next
    case 2
    with c have "count_failure opts t (fresh_entry opts t) = (e\<^sub>1, r\<^sub>1, b\<^sub>1)"
      "count_failure opts t (fresh_entry opts t) = (e\<^sub>2, r\<^sub>2, b\<^sub>2)" by (simp_all add: entry_of_def)
    moreover have "alike opts t (fresh_entry opts t) (fresh_entry opts t)" by (simp add: alike_def)
    ultimately show ?thesis by (intro alike_count_failure [OF valid]) simp_all
  next
    case 3
    with c have "count_failure opts t e = (e\<^sub>1, r\<^sub>1, b\<^sub>1)"
      "count_failure opts t (fresh_entry opts t) = (e\<^sub>2, r\<^sub>2, b\<^sub>2)" by (simp_all add: entry_of_def)
    from dead_count_failure [OF valid 3(3) t this] show ?thesis by blast
  next
    case 4
    with c have "count_failure opts t e = (e\<^sub>2, r\<^sub>2, b\<^sub>2)"
      "count_failure opts t (fresh_entry opts t) = (e\<^sub>1, r\<^sub>1, b\<^sub>1)" by (simp_all add: entry_of_def)
    from dead_count_failure [OF valid 4(3) t this] show ?thesis
      using same_result_sym [of r\<^sub>2 r\<^sub>1] alike_sym [of opts t e\<^sub>2 e\<^sub>1] alike_window [of opts t e\<^sub>2 e\<^sub>1] by metis
  qed
qed

fun same_output :: "pen_output \<Rightarrow> pen_output \<Rightarrow> bool" where
  "same_output (Failed r ev) (Failed r' ev') = (same_result r r' \<and> ev = ev')"
| "same_output (Blocked s) (Blocked s') = (s = s')"
| "same_output _ _ = False"

lemma blocked_not_past: "t < pe_blockedUntil e \<Longrightarrow> \<not> past opts t e"
  by (simp add: past_def)

lemma same_state_blocked:
  assumes "same_state opts t m m'" "jm_get m key = Some e" "t < pe_blockedUntil e"
  shows "jm_get m' key = Some e"
proof -
  have "same_slot opts t (jm_get m key) (jm_get m' key)" using assms(1) by (simp add: same_state_def)
  with assms(2,3) blocked_not_past show ?thesis
    by (auto simp: same_slot_def alike_def dead_past split: option.splits)
qed

lemma same_state_step:
  assumes state: "same_state opts t m m'" and t: "0 \<le> t"
  shows "same_state opts t (fst (pen_step opts m (t, c))) (fst (pen_step opts m' (t, c)))
    \<and> same_output (snd (pen_step opts m (t, c))) (snd (pen_step opts m' (t, c)))"
proof (cases c)
  case (BlockedSec key)
  have "pen_blockedSec t key m = pen_blockedSec t key m'"
  proof (cases "\<exists>e. jm_get m key = Some e \<and> t < pe_blockedUntil e")
    case True
    with same_state_blocked [OF state] show ?thesis by (auto simp: pen_blockedSec_def)
  next
    case False
    with same_state_blocked [OF same_state_sym [OF state]]
    have "\<not> (\<exists>e. jm_get m' key = Some e \<and> t < pe_blockedUntil e)" by blast
    with False show ?thesis by (auto simp: pen_blockedSec_def split: option.split)
  qed
  with state BlockedSec show ?thesis by simp
next
  case (Fail key)
  have inv: "pen_inv opts (fst (pen_fail opts t key m))" "pen_inv opts (fst (pen_fail opts t key m'))"
    using state pen_fail_inv by (auto simp: same_state_def)
  show ?thesis
  proof (cases "\<exists>e. jm_get m key = Some e \<and> t < pe_blockedUntil e")
    case True
    then obtain e where e: "jm_get m key = Some e" "t < pe_blockedUntil e" by blast
    with same_state_blocked [OF state e] state Fail show ?thesis by (simp add: pen_fail_def same_result_def)
  next
    case False
    then have free: "\<And>e. jm_get m key = Some e \<Longrightarrow> \<not> t < pe_blockedUntil e"
      "\<And>e. jm_get m' key = Some e \<Longrightarrow> \<not> t < pe_blockedUntil e"
      using same_state_blocked [OF same_state_sym [OF state], of key] by blast+
    note eqs = pen_fail_unblocked [OF free(1)] pen_fail_unblocked [OF free(2)]
    have room: "no_room opts t key m' = no_room opts t key m"
      using same_state_no_room [OF state] same_state_no_room [OF same_state_sym [OF state]] by blast
    note same = same_state_with_room [OF state, of key]
    show ?thesis
    proof (cases "no_room opts t key m")
      case True
      with same room Fail eqs show ?thesis by (simp add: same_result_def)
    next
      case False
      obtain e\<^sub>1 r\<^sub>1 b\<^sub>1 e\<^sub>2 r\<^sub>2 b\<^sub>2 where c: "count_failure opts t (entry_of opts t key m) = (e\<^sub>1, r\<^sub>1, b\<^sub>1)"
        "count_failure opts t (entry_of opts t key m') = (e\<^sub>2, r\<^sub>2, b\<^sub>2)" by (metis prod_cases3)
      note alike = same_slot_entry_of [OF state t c]
      have tables: "fst (pen_fail opts t key m) = jm_set key e\<^sub>1 (with_room opts t key m)"
        "fst (pen_fail opts t key m') = jm_set key e\<^sub>2 (with_room opts t key m')"
        using False room by (simp_all add: eqs fail_entry_def c)
      have "same_slot opts t (jm_get (jm_set key e\<^sub>1 (with_room opts t key m)) k)
          (jm_get (jm_set key e\<^sub>2 (with_room opts t key m')) k)" for k
        using same alike by (auto simp: same_state_def update_conv' same_slot_def)
      then have "same_state opts t (fst (pen_fail opts t key m)) (fst (pen_fail opts t key m'))"
        using inv unfolding same_state_def tables by blast
      moreover have "same_output (snd (pen_step opts m (t, Fail key))) (snd (pen_step opts m' (t, Fail key)))"
        using False room alike by (simp add: eqs fail_entry_def c)
      ultimately show ?thesis using Fail by (simp add: split_beta)
    qed
  qed
qed

lemma same_state_run:
  assumes "same_state opts t m m'" "0 \<le> t" "sorted (t # map fst calls)"
  shows "list_all2 same_output (snd (exec (pen_step opts) m calls)) (snd (exec (pen_step opts) m' calls))"
  using assms
proof (induction calls arbitrary: t m m')
  case (Cons call calls)
  obtain u c where call: "call = (u, c)" by fastforce
  have u: "t \<le> u" "0 \<le> u" "sorted (u # map fst calls)" using Cons.prems(2,3) call by auto
  note step = same_state_step [OF same_state_later [OF u(1) Cons.prems(1)] u(2), of c]
  obtain n out n' out' where s: "pen_step opts m call = (n, out)" "pen_step opts m' call = (n', out')" by fastforce
  with step call have "same_state opts u n n'" "same_output out out'" by auto
  with Cons.IH [OF this(1) u(2,3)] s show ?case by (simp add: split_beta)
qed simp

text \<open>C24. Pruning cannot be observed: from a table and from the same table pruned at time \<open>t\<close>,
  every sequence of failures and queries for old and new keys, at times that do not go back before
  \<open>t\<close>, is answered alike: the same blocks, escalations and events, and the same keys tracked
  or refused. Only the level reported by a failure that is not blocked and does not escalate can
  differ.\<close>
theorem penalty_prune_unobservable:
  assumes "pen_inv opts m" and "\<forall>e \<in> snd ` set m. pe_window e \<le> windowOf opts t" and "0 \<le> t"
    and "sorted (t # map fst calls)"
  shows "list_all2 same_output (snd (exec (pen_step opts) m calls)) (snd (exec (pen_step opts) (prune opts t m) calls))"
proof -
  have "same_slot opts t (jm_get m k) (jm_get m k)" for k
    using assms(2) by (force simp: same_slot_def alike_def split: option.split dest: map_of_SomeD)
  then have "same_state opts t m m" using assms(1) by (simp add: same_state_def)
  from same_state_sym [OF same_state_prune [OF this]] show ?thesis by (rule same_state_run [OF _ assms(3,4)])
qed

lemma penalty_prune_unobservable_witness:
  "list_all2 same_output
     (snd (exec (pen_step pen_sample) [(''a'', \<lparr>pe_window = 0, pe_count = 0, pe_level = 1, pe_blockedUntil = 60030\<rparr>)]
       [(70000, BlockedSec ''a''), (70001, Fail ''a''), (70002, Fail ''b'')]))
     (snd (exec (pen_step pen_sample) (prune pen_sample 70000 [(''a'', \<lparr>pe_window = 0, pe_count = 0, pe_level = 1, pe_blockedUntil = 60030\<rparr>)])
       [(70000, BlockedSec ''a''), (70001, Fail ''a''), (70002, Fail ''b'')]))"
  using penalty_prune_unobservable [of pen_sample "[(''a'', \<lparr>pe_window = 0, pe_count = 0, pe_level = 1, pe_blockedUntil = 60030\<rparr>)]"
      70000 "[(70000, BlockedSec ''a''), (70001, Fail ''a''), (70002, Fail ''b'')]"]
  by (simp add: pen_inv_def pen_valid_def pen_sample_def jm_all_def entry_ok_def windowOf_def)

end
