(* ===== verification/Validation.thy ===== *)
theory Validation
  imports Js_String Js_Map
begin

text \<open>
  The input validation framework, \<^verbatim>\<open>services/ultrathink/security/validation.ts\<close>. A
  validator object is the function its \<^verbatim>\<open>validate\<close> method computes, from an
  untyped value to a result; combinators take validators as arguments. A regular expression is
  the predicate on strings that its \<^verbatim>\<open>test\<close> computes; every pattern the file
  writes down is defined here. \<^verbatim>\<open>JSON.stringify\<close>, used only to compare array items, is equality of
  the values it prints. The URL parser and \<^verbatim>\<open>JSON.parse\<close> are parameters.
\<close>

record verror =
  ve_field :: string
  ve_code :: string
  ve_message :: string
  ve_received :: js

datatype vresult = Valid js | Invalid "verror list"

type_synonym validator = "js \<Rightarrow> vresult"

definition success :: "js \<Rightarrow> vresult" where
  "success v = Valid v"

definition failure :: "string \<Rightarrow> string \<Rightarrow> string \<Rightarrow> js \<Rightarrow> vresult" where
  "failure field code message received =
     Invalid [\<lparr>ve_field = field, ve_code = code, ve_message = message, ve_received = received\<rparr>]"

definition show_int :: "int \<Rightarrow> string" where
  "show_int i = (if i < 0 then ''-'' @ dec (nat (- i)) else dec (nat i))"

subsection \<open>Scalar validators\<close>

record string_options =
  so_minLength :: "nat option"
  so_maxLength :: "nat option"
  so_pattern :: "(string \<Rightarrow> bool) option"
  so_allowedValues :: "string list option"
  so_trim :: bool
  so_allowEmpty :: bool

definition no_string_options :: string_options where
  "no_string_options = \<lparr>so_minLength = None, so_maxLength = None, so_pattern = None,
     so_allowedValues = None, so_trim = False, so_allowEmpty = False\<rparr>"

definition StringValidator :: "string_options \<Rightarrow> validator" where
  "StringValidator opt value = (case value of
      JStr s \<Rightarrow>
        let str = (if so_trim opt then js_trim s else s) in
        if \<not> so_allowEmpty opt \<and> length str = 0
          then failure ''string'' ''EMPTY_STRING'' ''String cannot be empty'' JUndef
        else if (case so_minLength opt of Some n \<Rightarrow> length str < n | None \<Rightarrow> False)
          then failure ''string'' ''TOO_SHORT''
            (''String must be at least '' @ dec (the (so_minLength opt)) @ '' characters'') (JStr str)
        else if (case so_maxLength opt of Some n \<Rightarrow> length str > n | None \<Rightarrow> False)
          then failure ''string'' ''TOO_LONG''
            (''String must be at most '' @ dec (the (so_maxLength opt)) @ '' characters'') (JStr str)
        else if (case so_pattern opt of Some p \<Rightarrow> \<not> p str | None \<Rightarrow> False)
          then failure ''string'' ''PATTERN_MISMATCH'' ''String does not match required pattern'' (JStr str)
        else if (case so_allowedValues opt of Some vs \<Rightarrow> str \<notin> set vs | None \<Rightarrow> False)
          then failure ''string'' ''INVALID_VALUE''
            (''String must be one of: '' @ js_join '', '' (the (so_allowedValues opt))) (JStr str)
        else success (JStr str)
    | _ \<Rightarrow> failure ''string'' ''TYPE_MISMATCH'' ''Value must be a string'' value)"

record number_options =
  no_min :: "int option"
  no_max :: "int option"
  no_integer :: bool
  no_positive :: bool

definition no_number_options :: number_options where
  "no_number_options = \<lparr>no_min = None, no_max = None, no_integer = False, no_positive = False\<rparr>"

definition NumberValidator :: "number_options \<Rightarrow> validator" where
  "NumberValidator opt value = (case value of
      JNum (Fin q) \<Rightarrow>
        if no_integer opt \<and> of_int \<lfloor>q\<rfloor> \<noteq> q
          then failure ''number'' ''NOT_INTEGER'' ''Value must be an integer'' value
        else if no_positive opt \<and> q \<le> 0
          then failure ''number'' ''NOT_POSITIVE'' ''Value must be positive'' value
        else if (case no_min opt of Some m \<Rightarrow> q < of_int m | None \<Rightarrow> False)
          then failure ''number'' ''TOO_SMALL'' (''Value must be at least '' @ show_int (the (no_min opt))) value
        else if (case no_max opt of Some m \<Rightarrow> q > of_int m | None \<Rightarrow> False)
          then failure ''number'' ''TOO_LARGE'' (''Value must be at most '' @ show_int (the (no_max opt))) value
        else success value
    | _ \<Rightarrow> failure ''number'' ''TYPE_MISMATCH'' ''Value must be a valid number'' value)"

definition BooleanValidator :: validator where
  "BooleanValidator value = (case value of
      JBool b \<Rightarrow> success value
    | _ \<Rightarrow>
        if value = JStr ''true'' \<or> value = JStr ''1'' \<or> value = JNum (Fin 1) then success (JBool True)
        else if value = JStr ''false'' \<or> value = JStr ''0'' \<or> value = JNum (Fin 0) then success (JBool False)
        else failure ''boolean'' ''TYPE_MISMATCH'' ''Value must be a boolean'' value)"

text \<open>A DNS label: \<^verbatim>\<open>[a-zA-Z0-9](?:[a-zA-Z0-9-]{0,61}[a-zA-Z0-9])?\<close>.\<close>

definition is_label :: "string \<Rightarrow> bool" where
  "is_label s = (s \<noteq> [] \<and> length s \<le> 63 \<and> is_alnum (hd s) \<and> is_alnum (last s)
     \<and> list_all (\<lambda>c. is_alnum c \<or> c = CHR ''-'') s)"

definition is_email_local :: "char \<Rightarrow> bool" where
  "is_email_local c = (is_alnum c \<or> c \<in> set ''.!#$%&*+/=?^_`{|}~-'' \<or> code_of c = 39)"

text \<open>No class of the pattern has \<^verbatim>\<open>@\<close>, so its halves are the two parts of the split.\<close>

definition EMAIL_REGEX :: "string \<Rightarrow> bool" where
  "EMAIL_REGEX s = (case split_on (CHR ''@'') s of
      [name, domain] \<Rightarrow> name \<noteq> [] \<and> list_all is_email_local name
        \<and> length (split_on (CHR ''.'') domain) \<ge> 2 \<and> list_all is_label (split_on (CHR ''.'') domain)
    | _ \<Rightarrow> False)"

definition EmailValidator :: validator where
  "EmailValidator value =
     (case StringValidator (no_string_options\<lparr>so_maxLength := Some 254\<rparr>) value of
        Invalid es \<Rightarrow> Invalid es
      | Valid v \<Rightarrow> (case v of
          JStr s \<Rightarrow> if \<not> EMAIL_REGEX s then failure ''email'' ''INVALID_EMAIL'' ''Invalid email format'' value
                    else success v
        | _ \<Rightarrow> success v))"

text \<open>A parsed URL: what the validator reads of it.\<close>

record url =
  url_protocol :: string
  url_hostname :: string

definition UrlValidator :: "(string \<Rightarrow> url option) \<Rightarrow> string list option \<Rightarrow> bool \<Rightarrow> validator" where
  "UrlValidator parse_url protocols allowLocalhost value =
     (case StringValidator (no_string_options\<lparr>so_maxLength := Some 2048\<rparr>) value of
        Invalid es \<Rightarrow> Invalid es
      | Valid v \<Rightarrow> (case v of
          JStr s \<Rightarrow> (case parse_url s of
              None \<Rightarrow> failure ''url'' ''INVALID_URL'' ''Invalid URL format'' value
            | Some url \<Rightarrow>
                let ps = (case protocols of Some ps \<Rightarrow> ps | None \<Rightarrow> [''http:'', ''https:'']) in
                if url_protocol url \<notin> set ps
                  then failure ''url'' ''INVALID_PROTOCOL'' (''URL must use one of: '' @ js_join '', '' ps) value
                else if \<not> allowLocalhost \<and> url_hostname url \<in> {''localhost'', ''127.0.0.1'', ''::1''}
                  then failure ''url'' ''LOCALHOST_NOT_ALLOWED'' ''Localhost URLs are not allowed'' value
                else success v)
        | _ \<Rightarrow> success v))"

text \<open>The pattern's \<^verbatim>\<open>i\<close> flag makes its classes take upper case as well.\<close>

definition UUID_REGEX :: "string \<Rightarrow> bool" where
  "UUID_REGEX s = (case split_on (CHR ''-'') s of
      [a, b, c, d, e] \<Rightarrow> class_run is_hex 8 8 a \<and> class_run is_hex 4 4 b
        \<and> class_run is_hex 4 4 c \<and> hd c \<in> set ''12345''
        \<and> class_run is_hex 4 4 d \<and> hd d \<in> set ''89abAB'' \<and> class_run is_hex 12 12 e
    | _ \<Rightarrow> False)"

definition UuidValidator :: validator where
  "UuidValidator value =
     (case StringValidator (no_string_options\<lparr>so_pattern := Some UUID_REGEX\<rparr>) value of
        Invalid es \<Rightarrow> Invalid es
      | Valid v \<Rightarrow> success v)"

text \<open>\<^verbatim>\<open>BaseValidator.combine\<close>: all errors of the parts, and no value on success.\<close>

definition errors_of :: "vresult \<Rightarrow> verror list" where
  "errors_of r = (case r of Valid _ \<Rightarrow> [] | Invalid es \<Rightarrow> es)"

definition combine_results :: "vresult list \<Rightarrow> vresult" where
  "combine_results rs = (let errors = concat (map errors_of rs) in
     if errors \<noteq> [] then Invalid errors else Valid JUndef)"

subsection \<open>The validators the service shares\<close>

definition is_ip_shape :: "string \<Rightarrow> bool" where
  "is_ip_shape s =
     (length (split_on (CHR ''.'') s) = 4 \<and> list_all (class_run is_digit 1 3) (split_on (CHR ''.'') s)
    \<or> length (split_on (CHR '':'') s) = 8 \<and> list_all (class_run is_hex 1 4) (split_on (CHR '':'') s))"

definition is_hostname :: "string \<Rightarrow> bool" where
  "is_hostname s = (let parts = split_on (CHR ''.'') s in
     length parts \<ge> 2 \<and> list_all is_label (butlast parts) \<and> length (last parts) \<ge> 2
     \<and> list_all (\<lambda>c. is_lower c \<or> is_upper c) (last parts))"

fun commonValidators :: "string \<Rightarrow> validator option" where
  "commonValidators name =
     (if name = ''sessionId'' then Some UuidValidator
      else if name = ''apiKey'' then Some (StringValidator (no_string_options
        \<lparr>so_minLength := Some 32, so_maxLength := Some 128, so_pattern := Some (list_all is_urlsafe)\<rparr>))
      else if name = ''password'' then Some (StringValidator (no_string_options
        \<lparr>so_minLength := Some 12, so_maxLength := Some 128\<rparr>))
      else if name = ''username'' then Some (StringValidator (no_string_options
        \<lparr>so_minLength := Some 3, so_maxLength := Some 64, so_pattern := Some (list_all is_urlsafe)\<rparr>))
      else if name = ''slug'' then Some (StringValidator (no_string_options
        \<lparr>so_minLength := Some 1, so_maxLength := Some 100,
         so_pattern := Some (list_all (\<lambda>c. is_lower c \<or> is_digit c \<or> c = CHR ''-''))\<rparr>))
      else if name = ''timestamp'' then Some (NumberValidator (no_number_options
        \<lparr>no_min := Some 0, no_integer := True\<rparr>))
      else if name = ''durationMs'' then Some (NumberValidator (no_number_options
        \<lparr>no_min := Some 0, no_max := Some 86400000, no_integer := True\<rparr>))
      else if name = ''port'' then Some (NumberValidator (no_number_options
        \<lparr>no_min := Some 1, no_max := Some 65535, no_integer := True\<rparr>))
      else if name = ''ipAddress'' then Some (StringValidator (no_string_options\<lparr>so_pattern := Some is_ip_shape\<rparr>))
      else if name = ''hostname'' then Some (StringValidator (no_string_options
        \<lparr>so_maxLength := Some 253, so_pattern := Some is_hostname\<rparr>))
      else None)"

subsection \<open>Objects\<close>

type_synonym schema = "(string \<times> validator) list"

text \<open>\<^verbatim>\<open>obj[key]\<close>, of the object's own members: a schema whose keys include a
  member of \<^verbatim>\<open>Object.prototype\<close> (none in the service has one) would also read that.\<close>

definition obj_get :: "(string \<times> js) list \<Rightarrow> string \<Rightarrow> js" where
  "obj_get obj key = (case map_of obj key of Some v \<Rightarrow> v | None \<Rightarrow> JUndef)"

text \<open>One turn of the loop over the schema: the errors and the copied object so far.\<close>

fun schema_step :: "(string \<times> js) list \<Rightarrow> verror list \<times> (string \<times> js) list
    \<Rightarrow> string \<times> validator \<Rightarrow> verror list \<times> (string \<times> js) list" where
  "schema_step obj (errors, out) (key, validate) =
     (case validate (obj_get obj key) of
        Invalid es \<Rightarrow> (errors @ map (\<lambda>e. e\<lparr>ve_field := if ve_field e \<noteq> [] then ve_field e else key\<rparr>) es, out)
      | Valid v \<Rightarrow> (errors, if v \<noteq> JUndef then AList.update key v out else out))"

definition extra_keys :: "schema \<Rightarrow> (string \<times> js) list \<Rightarrow> string list" where
  "extra_keys schema obj = filter (\<lambda>k. k \<notin> fst ` set schema) (map fst obj)"

definition extra_error :: "(string \<times> js) list \<Rightarrow> string \<Rightarrow> verror" where
  "extra_error obj key = \<lparr>ve_field = key, ve_code = ''UNEXPECTED_FIELD'',
     ve_message = ''Unexpected field: '' @ key, ve_received = obj_get obj key\<rparr>"

definition ObjectValidator :: "schema \<Rightarrow> bool \<Rightarrow> bool \<Rightarrow> validator" where
  "ObjectValidator schema allowExtraKeys strict value = (case value of
      JObj obj \<Rightarrow>
        let (errors, out) = foldl (schema_step obj) ([], obj) schema;
            errors' = (if \<not> allowExtraKeys \<and> strict
                       then errors @ map (extra_error obj) (extra_keys schema obj) else errors)
        in if errors' \<noteq> [] then Invalid errors' else Valid (JObj out)
    | _ \<Rightarrow> failure ''object'' ''TYPE_MISMATCH'' ''Value must be an object'' value)"

subsection \<open>Arrays\<close>

definition item_errors :: "nat \<Rightarrow> verror list \<Rightarrow> verror list" where
  "item_errors i es = map (\<lambda>e. e\<lparr>ve_field :=
     ''['' @ dec i @ '']'' @ (if ve_field e \<noteq> [] then ''.'' @ ve_field e else [])\<rparr>) es"

text \<open>The item loop from index \<open>i\<close> on: errors and accepted values, both in order.\<close>

fun array_items :: "validator \<Rightarrow> nat \<Rightarrow> js list \<Rightarrow> verror list \<times> js list" where
  "array_items validate i [] = ([], [])"
| "array_items validate i (x # xs) =
     (let (errors, results) = array_items validate (i + 1) xs in
      case validate x of
        Invalid es \<Rightarrow> (item_errors i es @ errors, results)
      | Valid v \<Rightarrow> (errors, v # results))"

fun duplicate_errors :: "js list \<Rightarrow> nat \<Rightarrow> js list \<Rightarrow> verror list" where
  "duplicate_errors seen i [] = []"
| "duplicate_errors seen i (x # xs) =
     (if x \<in> set seen
      then [\<lparr>ve_field = ''['' @ dec i @ '']'', ve_code = ''DUPLICATE'',
             ve_message = ''Duplicate array item'', ve_received = x\<rparr>] else [])
     @ duplicate_errors (x # seen) (i + 1) xs"

definition ArrayValidator :: "validator \<Rightarrow> nat option \<Rightarrow> nat option \<Rightarrow> bool \<Rightarrow> validator" where
  "ArrayValidator validate minLength maxLength unique value = (case value of
      JArr items \<Rightarrow>
        if (case minLength of Some n \<Rightarrow> length items < n | None \<Rightarrow> False)
          then failure ''array'' ''TOO_SHORT''
            (''Array must have at least '' @ dec (the minLength) @ '' items'') value
        else if (case maxLength of Some n \<Rightarrow> length items > n | None \<Rightarrow> False)
          then failure ''array'' ''TOO_LONG''
            (''Array must have at most '' @ dec (the maxLength) @ '' items'') value
        else
          let (errors, results) = array_items validate 0 items;
              errors' = (if unique then errors @ duplicate_errors [] 0 results else errors)
          in if errors' \<noteq> [] then Invalid errors' else Valid (JArr results)
    | _ \<Rightarrow> failure ''array'' ''TYPE_MISMATCH'' ''Value must be an array'' value)"

subsection \<open>Request bodies\<close>

text \<open>
  \<^verbatim>\<open>readRequestBytes\<close>: the chunks the stream delivers, read until one takes the total past
  the limit. \<open>read_loop\<close> is the loop with the total and the bytes kept so far.
\<close>

fun read_loop :: "nat \<Rightarrow> nat \<Rightarrow> 'b list \<Rightarrow> 'b list list \<Rightarrow> 'b list option" where
  "read_loop maxSize sofar got [] = Some got"
| "read_loop maxSize sofar got (chunk # chunks) =
     (let sofar' = sofar + length chunk in
      if sofar' > maxSize then None else read_loop maxSize sofar' (got @ chunk) chunks)"

definition readRequestBytes :: "nat \<Rightarrow> 'b list list option \<Rightarrow> 'b list option" where
  "readRequestBytes maxSize body = (case body of None \<Rightarrow> Some [] | Some chunks \<Rightarrow> read_loop maxSize 0 [] chunks)"

definition body_error :: "string \<Rightarrow> string \<Rightarrow> vresult" where
  "body_error code message =
     Invalid [\<lparr>ve_field = ''body'', ve_code = code, ve_message = message, ve_received = JUndef\<rparr>]"

text \<open>
  A request: the declared length when the header is a number, and the body, or \<open>None\<close> when
  reading it throws. \<open>parse_json\<close> is \<^verbatim>\<open>JSON.parse\<close> after decoding.
\<close>

record 'b request =
  rq_declared :: "real option"
  rq_body :: "'b list list option option"

definition validateRequestBody ::
    "('b list \<Rightarrow> js option) \<Rightarrow> 'b request \<Rightarrow> schema \<Rightarrow> nat option \<Rightarrow> bool \<Rightarrow> vresult" where
  "validateRequestBody parse_json request schema maxBodySize allowExtraKeys =
     (let maxSize = (case maxBodySize of Some n \<Rightarrow> n | None \<Rightarrow> 1024 * 1024);
          tooLarge = body_error ''BODY_TOO_LARGE'' ''Request body exceeds maximum size''
      in if (case rq_declared request of Some d \<Rightarrow> d > real maxSize | None \<Rightarrow> False) then tooLarge
         else case rq_body request of
           None \<Rightarrow> body_error ''READ_ERROR'' ''Failed to read request body''
         | Some body \<Rightarrow> (case readRequestBytes maxSize body of
             None \<Rightarrow> tooLarge
           | Some bytes \<Rightarrow> (case parse_json bytes of
               None \<Rightarrow> body_error ''INVALID_JSON'' ''Request body must be valid JSON''
             | Some v \<Rightarrow> ObjectValidator schema allowExtraKeys True v)))"

definition validateOrThrow :: "js \<Rightarrow> validator \<Rightarrow> (string \<times> verror list) + js" where
  "validateOrThrow value validate = (case validate value of
      Invalid es \<Rightarrow> Inl (js_join ''; '' (map (\<lambda>e. ve_field e @ '': '' @ ve_message e) es), es)
    | Valid v \<Rightarrow> Inr v)"

subsection \<open>What acceptance means\<close>

text \<open>A validator that rejects says why.\<close>

definition explains :: "validator \<Rightarrow> bool" where
  "explains validate \<longleftrightarrow> (\<forall>v. validate v \<noteq> Invalid [])"

lemma failure_explains: "failure f c m r \<noteq> Invalid []"
  by (simp add: failure_def)

lemma string_explains: "explains (StringValidator opt)"
  by (auto simp: explains_def StringValidator_def failure_def success_def Let_def split: js.splits)

lemma number_explains: "explains (NumberValidator opt)"
  by (auto simp: explains_def NumberValidator_def failure_def success_def split: js.splits js_num.splits)

lemma boolean_explains: "explains BooleanValidator"
  by (auto simp: explains_def BooleanValidator_def failure_def success_def split: js.splits)

lemma email_explains: "explains EmailValidator"
  using string_explains
  by (auto simp: explains_def EmailValidator_def failure_def success_def split: vresult.splits js.splits)

lemma url_explains: "explains (UrlValidator parse_url protocols allowLocalhost)"
  using string_explains
  by (auto simp: explains_def UrlValidator_def failure_def success_def Let_def
      split: vresult.splits js.splits option.splits)

lemma uuid_explains: "explains UuidValidator"
  using string_explains by (auto simp: explains_def UuidValidator_def success_def split: vresult.splits)

lemma object_explains: "explains (ObjectValidator sch allowExtraKeys strict)"
  by (auto simp: explains_def ObjectValidator_def failure_def Let_def split_beta split: js.splits)

lemma array_explains: "explains (ArrayValidator validate minLength maxLength unique)"
  by (auto simp: explains_def ArrayValidator_def failure_def Let_def split_beta split: js.splits)

lemmas framework_explains = string_explains number_explains boolean_explains email_explains url_explains
  uuid_explains object_explains array_explains

text \<open>What the accepted object holds under a key: the schema's converted value, else the value sent.\<close>

definition converted :: "schema \<Rightarrow> (string \<times> js) list \<Rightarrow> string \<Rightarrow> js option" where
  "converted sch obj k = (case map_of sch k of
      Some validate \<Rightarrow> (case validate (obj_get obj k) of
          Valid w \<Rightarrow> if w \<noteq> JUndef then Some w else map_of obj k
        | Invalid _ \<Rightarrow> map_of obj k)
    | None \<Rightarrow> map_of obj k)"

definition fields_valid :: "schema \<Rightarrow> (string \<times> js) list \<Rightarrow> bool" where
  "fields_valid sch obj \<longleftrightarrow> (\<forall>(k, validate) \<in> set sch. \<exists>w. validate (obj_get obj k) = Valid w)"

lemma schema_errors:
  assumes "\<forall>e \<in> set sch. explains (snd e)"
  shows "fst (foldl (schema_step obj) acc sch) = [] \<longleftrightarrow> fst acc = [] \<and> fields_valid sch obj"
  using assms
proof (induction sch arbitrary: acc)
  case Nil
  then show ?case by (simp add: fields_valid_def)
next
  case (Cons e sch)
  obtain k v where e: "e = (k, v)" by fastforce
  obtain errs out where acc: "acc = (errs, out)" by fastforce
  have v: "explains v" using Cons.prems e by simp
  have "fst (schema_step obj acc e) = [] \<longleftrightarrow> errs = [] \<and> (\<exists>w. v (obj_get obj k) = Valid w)"
    using v by (auto simp: e acc explains_def split: vresult.split)
  with Cons.IH [of "schema_step obj acc e"] Cons.prems show ?case by (auto simp: fields_valid_def e acc)
qed

lemma schema_out:
  assumes "distinct (map fst sch)"
  shows "map_of (snd (foldl (schema_step obj) acc sch)) k = (case map_of sch k of
      Some validate \<Rightarrow> (case validate (obj_get obj k) of
          Valid w \<Rightarrow> if w \<noteq> JUndef then Some w else map_of (snd acc) k
        | Invalid _ \<Rightarrow> map_of (snd acc) k)
    | None \<Rightarrow> map_of (snd acc) k)"
  using assms
proof (induction sch arbitrary: acc)
  case (Cons e sch)
  obtain k' v where e: "e = (k', v)" by fastforce
  obtain errs out where acc: "acc = (errs, out)" by fastforce
  have out: "map_of (snd (schema_step obj acc e)) k = (if k = k' then (case v (obj_get obj k) of
      Valid w \<Rightarrow> if w \<noteq> JUndef then Some w else map_of out k | Invalid _ \<Rightarrow> map_of out k) else map_of out k)"
    by (auto simp: e acc update_conv' split: vresult.split)
  define acc' where "acc' = schema_step obj acc e"
  have run: "foldl (schema_step obj) acc (e # sch) = foldl (schema_step obj) acc' sch" by (simp add: acc'_def)
  have snd: "snd acc = out" by (simp add: acc)
  note out = out [folded acc'_def]
  have "distinct (map fst sch)" using Cons.prems by simp
  note IH = Cons.IH [OF this, of acc']
  show ?case
  proof (cases "k = k'")
    case True
    then have "map_of sch k = None" using Cons.prems e by (auto simp: map_of_eq_None_iff)
    with IH out True show ?thesis unfolding run snd by (simp add: e)
  next
    case False
    with out have "map_of (snd acc') k = map_of out k" by simp
    with False show ?thesis using IH unfolding run snd by (simp only: e map_of.simps fst_conv snd_conv fun_upd_apply if_False)
  qed
qed simp

lemma ObjectValidator_accepts:
  assumes "\<forall>e \<in> set sch. explains (snd e)" "distinct (map fst sch)"
  shows "ObjectValidator sch allowExtraKeys True v = Valid u \<longleftrightarrow> (\<exists>obj. v = JObj obj \<and>
      (allowExtraKeys \<or> fst ` set obj \<subseteq> fst ` set sch) \<and> fields_valid sch obj \<and>
      u = JObj (snd (foldl (schema_step obj) ([], obj) sch)))"
proof (cases v)
  case (JObj obj)
  have keys: "extra_keys sch obj = [] \<longleftrightarrow> fst ` set obj \<subseteq> fst ` set sch"
    by (auto simp: extra_keys_def filter_empty_conv)
  from schema_errors [OF assms(1), of obj "([], obj)"] JObj keys show ?thesis
    by (auto simp: ObjectValidator_def Let_def split_beta)
qed (simp_all add: ObjectValidator_def failure_def)

subsection \<open>The streamed size guard\<close>

lemma read_loop_spec:
  "read_loop maxSize sofar got chunks = (if sofar + length (concat chunks) \<le> maxSize \<or> chunks = []
     then Some (got @ concat chunks) else None)"
  by (induction chunks arbitrary: sofar got) (auto simp: Let_def)

lemma readRequestBytes_spec:
  "readRequestBytes maxSize (Some chunks) =
     (if length (concat chunks) \<le> maxSize then Some (concat chunks) else None)"
  by (auto simp: readRequestBytes_def read_loop_spec)

text \<open>The bytes of a body that is read to the end, none when there is no body.\<close>

definition body_bytes :: "'b list list option \<Rightarrow> 'b list" where
  "body_bytes body = (case body of None \<Rightarrow> [] | Some chunks \<Rightarrow> concat chunks)"

lemma readRequestBytes_bytes:
  "readRequestBytes maxSize body = (if length (body_bytes body) \<le> maxSize then Some (body_bytes body) else None)"
  by (cases body) (simp_all add: body_bytes_def readRequestBytes_spec, simp add: readRequestBytes_def)

definition acceptable ::
    "('b list \<Rightarrow> js option) \<Rightarrow> 'b request \<Rightarrow> schema \<Rightarrow> nat \<Rightarrow> bool \<Rightarrow> (string \<times> js) list \<Rightarrow> bool" where
  "acceptable parse_json request sch limit allowExtraKeys obj \<longleftrightarrow>
     (\<forall>d. rq_declared request = Some d \<longrightarrow> d \<le> real limit) \<and>
     (\<exists>body. rq_body request = Some body \<and> length (body_bytes body) \<le> limit \<and>
        parse_json (body_bytes body) = Some (JObj obj)) \<and>
     (allowExtraKeys \<or> fst ` set obj \<subseteq> fst ` set sch) \<and> fields_valid sch obj"

text \<open>C25. The trust boundary of a request body: however the stream is cut into chunks, a body is accepted
  exactly when its declared and its real length are within the limit, it can be read, it parses as an
  object, the schema names all of its fields unless extra fields are allowed, and every schema field
  passes its validator; the accepted object then holds each schema field's converted value, and the
  other fields as they were sent. Assumed are distinct schema keys and validators that name an error
  when they reject, as all of the framework do (\<open>framework_explains\<close>).\<close>
theorem request_body_accepted:
  assumes "\<forall>e \<in> set sch. explains (snd e)" and "distinct (map fst sch)"
    and "limit = (case maxBody of Some n \<Rightarrow> n | None \<Rightarrow> 1048576)"
  shows "((\<exists>u. validateRequestBody parse_json request sch maxBody allowExtraKeys = Valid u)
      \<longleftrightarrow> (\<exists>obj. acceptable parse_json request sch limit allowExtraKeys obj))
    \<and> (\<forall>u. validateRequestBody parse_json request sch maxBody allowExtraKeys = Valid u \<longrightarrow>
        (\<exists>obj out. acceptable parse_json request sch limit allowExtraKeys obj \<and> u = JObj out \<and>
          (\<forall>k. map_of out k = converted sch obj k)))"
proof -
  have exact: "validateRequestBody parse_json request sch maxBody allowExtraKeys = Valid u \<longleftrightarrow>
      (\<exists>obj. acceptable parse_json request sch limit allowExtraKeys obj \<and>
        u = JObj (snd (foldl (schema_step obj) ([], obj) sch)))" for u
    unfolding acceptable_def assms(3)
    by (auto simp: validateRequestBody_def body_error_def Let_def readRequestBytes_bytes
        ObjectValidator_accepts [OF assms(1,2)] not_less split: option.splits if_splits)
  have "map_of (snd (foldl (schema_step obj) ([], obj) sch)) k = converted sch obj k" for obj k
    using schema_out [OF assms(2), of obj "([], obj)" k] unfolding converted_def snd_conv .
  with exact show ?thesis by blast
qed

definition sample_schema :: schema where
  "sample_schema = [(''name'', StringValidator (no_string_options\<lparr>so_trim := True, so_maxLength := Some 3\<rparr>))]"

lemma request_body_accepted_witness:
  "\<exists>out. validateRequestBody (\<lambda>bytes. if bytes = [1, 2 :: nat] then Some (JObj [(''name'', JStr '' ab '')]) else None)
       \<lparr>rq_declared = None, rq_body = Some (Some [[1], [2]])\<rparr> sample_schema (Some 2) False = Valid (JObj out)
    \<and> map_of out ''name'' = Some (JStr ''ab'')"
proof -
  let ?parse = "\<lambda>bytes. if bytes = [1, 2 :: nat] then Some (JObj [(''name'', JStr '' ab '')]) else None"
  let ?request = "\<lparr>rq_declared = None, rq_body = Some (Some [[1], [2]])\<rparr> :: nat request"
  have field: "StringValidator (no_string_options\<lparr>so_trim := True, so_maxLength := Some 3\<rparr>) (JStr '' ab '') = Valid (JStr ''ab'')"
    by (simp add: StringValidator_def success_def no_string_options_def js_trim_def is_ws_def)
  have ok: "acceptable ?parse ?request sample_schema 2 False [(''name'', JStr '' ab '')]"
    by (simp add: acceptable_def body_bytes_def fields_valid_def sample_schema_def obj_get_def field)
  have parsed: "acceptable ?parse ?request sample_schema 2 False obj \<Longrightarrow> obj = [(''name'', JStr '' ab '')]" for obj
    by (simp add: acceptable_def body_bytes_def)
  have schema: "\<forall>e \<in> set sample_schema. explains (snd e)" "distinct (map fst sample_schema)"
    by (simp_all add: sample_schema_def string_explains)
  note accepted = request_body_accepted [OF schema, where maxBody = "Some 2", OF refl,
      where parse_json = ?parse and request = ?request and allowExtraKeys = False]
  from accepted ok obtain u where u: "validateRequestBody ?parse ?request sample_schema (Some 2) False = Valid u"
    by fastforce
  with accepted parsed obtain out where "u = JObj out"
    "\<forall>k. map_of out k = converted sample_schema [(''name'', JStr '' ab '')] k" by fastforce
  with u field show ?thesis by (auto simp: converted_def sample_schema_def obj_get_def)
qed

end
