(* ===== verification/Rate_Limits.thy ===== *)
theory Rate_Limits
  imports Validation
begin

text \<open>
  The request, login and approval limits of \<^verbatim>\<open>services/ultrathink/auth/auth.ts\<close>:
  the class \<^verbatim>\<open>FixedWindowLimiter\<close> and the handlers \<^verbatim>\<open>allowRequest\<close>,
  \<^verbatim>\<open>allowApprovalAttempt\<close> and the limiting half of \<^verbatim>\<open>login\<close>. The clock is
  \<^verbatim>\<open>Date.now\<close>, a whole number of milliseconds; each operation takes the value it reads.
  SHA-256 of a long principal is the parameter \<open>sha\<close>.
\<close>

record window =
  win_count :: nat
  win_resetAt :: int

record hit =
  hit_count :: nat
  hit_retryAfterSec :: int

record limiter =
  lim_windows :: "(string, window) jmap"
  lim_nextPruneAt :: int

definition PRUNE_INTERVAL_MS :: int where "PRUNE_INTERVAL_MS = 60000"
definition MAX_TRACKED_KEYS :: nat where "MAX_TRACKED_KEYS = 10000"
definition LOGIN_WINDOW_MS :: int where "LOGIN_WINDOW_MS = 900000"
definition LOGIN_ATTEMPTS_PER_IP :: nat where "LOGIN_ATTEMPTS_PER_IP = 5"
definition OWNER_FAILURES_PER_WINDOW :: nat where "OWNER_FAILURES_PER_WINDOW = 10"
definition REQUEST_WINDOW_MS :: int where "REQUEST_WINDOW_MS = 60000"
definition OWNER_REQUESTS_PER_WINDOW :: nat where "OWNER_REQUESTS_PER_WINDOW = 60"
definition PRINCIPAL_REQUESTS_PER_WINDOW :: nat where "PRINCIPAL_REQUESTS_PER_WINDOW = 60"
definition IP_REQUESTS_PER_WINDOW :: nat where "IP_REQUESTS_PER_WINDOW = 120"
definition MAX_PRINCIPAL_LENGTH :: nat where "MAX_PRINCIPAL_LENGTH = 128"
definition MAX_PRINCIPAL_INPUT_CHARS :: nat where "MAX_PRINCIPAL_INPUT_CHARS = 4096"
definition APPROVAL_WINDOW_MS :: int where "APPROVAL_WINDOW_MS = 60000"
definition APPROVAL_ATTEMPTS_PER_WINDOW :: nat where "APPROVAL_ATTEMPTS_PER_WINDOW = 2"

lemmas limit_constants = PRUNE_INTERVAL_MS_def MAX_TRACKED_KEYS_def LOGIN_WINDOW_MS_def
  LOGIN_ATTEMPTS_PER_IP_def OWNER_FAILURES_PER_WINDOW_def REQUEST_WINDOW_MS_def
  OWNER_REQUESTS_PER_WINDOW_def PRINCIPAL_REQUESTS_PER_WINDOW_def IP_REQUESTS_PER_WINDOW_def
  MAX_PRINCIPAL_LENGTH_def MAX_PRINCIPAL_INPUT_CHARS_def APPROVAL_WINDOW_MS_def
  APPROVAL_ATTEMPTS_PER_WINDOW_def

subsection \<open>The limiter\<close>

definition new_limiter :: limiter where
  "new_limiter = \<lparr>lim_windows = [], lim_nextPruneAt = 0\<rparr>"

definition lim_prune :: "int \<Rightarrow> limiter \<Rightarrow> limiter" where
  "lim_prune t l = l\<lparr>lim_windows := jm_sweep (\<lambda>w. win_resetAt w \<le> t) (lim_windows l)\<rparr>"

definition pruneIfDue :: "int \<Rightarrow> limiter \<Rightarrow> limiter" where
  "pruneIfDue t l = (if t < lim_nextPruneAt l then l
     else (lim_prune t l)\<lparr>lim_nextPruneAt := t + PRUNE_INTERVAL_MS\<rparr>)"

text \<open>\<^verbatim>\<open>live\<close>: the key's unexpired window; an expired one is deleted on the way.\<close>

definition live :: "string \<Rightarrow> int \<Rightarrow> limiter \<Rightarrow> limiter \<times> window option" where
  "live key t l = (case jm_get (lim_windows l) key of
      Some w \<Rightarrow> if win_resetAt w > t then (l, Some w)
        else (l\<lparr>lim_windows := jm_delete key (lim_windows l)\<rparr>, None)
    | None \<Rightarrow> (l, None))"

definition put_window :: "string \<Rightarrow> window \<Rightarrow> limiter \<Rightarrow> limiter" where
  "put_window key w l = l\<lparr>lim_windows := jm_set key w (lim_windows l)\<rparr>"

definition bump :: "string \<Rightarrow> int \<Rightarrow> window \<Rightarrow> limiter \<Rightarrow> limiter \<times> hit option" where
  "bump key t w l = (let w' = w\<lparr>win_count := win_count w + 1\<rparr> in
     (put_window key w' l,
      Some \<lparr>hit_count = win_count w', hit_retryAfterSec = max 1 (ceil_div (win_resetAt w - t) 1000)\<rparr>))"

definition hit :: "nat \<Rightarrow> string \<Rightarrow> int \<Rightarrow> int \<Rightarrow> limiter \<Rightarrow> limiter \<times> hit option" where
  "hit maxKeys key windowMs t l =
     (let (l\<^sub>1, window) = live key t (pruneIfDue t l) in
      case window of
        Some w \<Rightarrow> bump key t w l\<^sub>1
      | None \<Rightarrow>
          let l\<^sub>2 = (if length (lim_windows l\<^sub>1) \<ge> maxKeys then lim_prune t l\<^sub>1 else l\<^sub>1) in
          if length (lim_windows l\<^sub>2) \<ge> maxKeys then (l\<^sub>2, None)
          else bump key t \<lparr>win_count = 0, win_resetAt = t + windowMs\<rparr> l\<^sub>2)"

definition lim_release :: "string \<Rightarrow> int \<Rightarrow> limiter \<Rightarrow> limiter" where
  "lim_release key t l = (let (l', window) = live key t l in
     case window of
       Some w \<Rightarrow> if win_count w > 0 then put_window key (w\<lparr>win_count := win_count w - 1\<rparr>) l' else l'
     | None \<Rightarrow> l')"

subsection \<open>The handlers\<close>

definition retryAfterOf :: "hit option \<Rightarrow> int \<Rightarrow> int" where
  "retryAfterOf h windowMs = (case h of Some h \<Rightarrow> hit_retryAfterSec h | None \<Rightarrow> ceil_div windowMs 1000)"

text \<open>An optional JavaScript argument of any type: absent, a number, or something else.\<close>

definition effectiveScale :: "js \<Rightarrow> real" where
  "effectiveScale scale = (case scale of
      JUndef \<Rightarrow> 1
    | JNum (Fin q) \<Rightarrow> min 1 (max (1 / 10) q)
    | _ \<Rightarrow> 1 / 10)"

definition scaledLimit :: "real \<Rightarrow> real \<Rightarrow> int" where
  "scaledLimit base factor = max 1 \<lfloor>base * factor\<rfloor>"

definition no_control :: "string \<Rightarrow> bool" where
  "no_control s = (\<forall>c \<in> set s. (of_char c :: nat) > 31 \<and> (of_char c :: nat) \<noteq> 127)"

definition IDENTITY_INPUT :: validator where
  "IDENTITY_INPUT = StringValidator (no_string_options\<lparr>so_maxLength := Some 64, so_pattern := Some no_control\<rparr>)"

definition is_valid :: "vresult \<Rightarrow> bool" where
  "is_valid r = (case r of Valid _ \<Rightarrow> True | Invalid _ \<Rightarrow> False)"

datatype scope = IpScope | PrincipalScope | OwnerScope

datatype verdict = Allowed | Limited scope int

record request_input =
  ri_clientIp :: string
  ri_ownerId :: string
  ri_principal :: js
  ri_ownerLimit :: js
  ri_scale :: js

definition over_limit :: "hit option \<Rightarrow> int \<Rightarrow> bool" where
  "over_limit h limit = (case h of None \<Rightarrow> True | Some h \<Rightarrow> int (hit_count h) > limit)"

definition principal_key :: "(string \<Rightarrow> string) \<Rightarrow> string \<Rightarrow> string" where
  "principal_key sha p = (if length p \<le> MAX_PRINCIPAL_LENGTH then p else ''sha256:'' @ sha p)"

definition owner_check :: "nat \<Rightarrow> string \<Rightarrow> real \<Rightarrow> real \<Rightarrow> int \<Rightarrow> limiter \<Rightarrow> limiter \<times> verdict" where
  "owner_check maxKeys ownerId limit factor t l =
     (let (l', owner) = hit maxKeys (''owner:'' @ ownerId) REQUEST_WINDOW_MS t l in
      if over_limit owner (scaledLimit limit factor)
      then (l', Limited OwnerScope (retryAfterOf owner REQUEST_WINDOW_MS))
      else (l', Allowed))"

definition allowRequest :: "nat \<Rightarrow> (string \<Rightarrow> string) \<Rightarrow> request_input \<Rightarrow> int \<Rightarrow> limiter
    \<Rightarrow> js_error + (limiter \<times> verdict)" where
  "allowRequest maxKeys sha inp t l =
     (if \<not> is_valid (IDENTITY_INPUT (JStr (ri_clientIp inp))) \<or> \<not> is_valid (IDENTITY_INPUT (JStr (ri_ownerId inp)))
        then Inl (TypeError ''request limit needs a client address and an owner id'')
      else if (case ri_principal inp of JUndef \<Rightarrow> False | JStr p \<Rightarrow> length p > MAX_PRINCIPAL_INPUT_CHARS | _ \<Rightarrow> True)
        then Inl (TypeError ''request limit principal must be a string of at most 4096 characters'')
      else if (case ri_ownerLimit inp of JUndef \<Rightarrow> False | JNum (Fin q) \<Rightarrow> q < 0 | _ \<Rightarrow> True)
        then Inl (TypeError ''request limit owner limit must be a finite, non-negative number'')
      else
        let factor = effectiveScale (ri_scale inp);
            (l\<^sub>1, ip) = hit maxKeys (''ip:'' @ ri_clientIp inp) REQUEST_WINDOW_MS t l;
            owner_limit = (case ri_ownerLimit inp of JNum (Fin q) \<Rightarrow> q | _ \<Rightarrow> real OWNER_REQUESTS_PER_WINDOW)
        in if over_limit ip (scaledLimit (real IP_REQUESTS_PER_WINDOW) factor)
           then Inr (l\<^sub>1, Limited IpScope (retryAfterOf ip REQUEST_WINDOW_MS))
           else (case ri_principal inp of
               JStr p \<Rightarrow>
                 let (l\<^sub>2, h) = hit maxKeys (''principal:'' @ principal_key sha p) REQUEST_WINDOW_MS t l\<^sub>1 in
                 if over_limit h (scaledLimit (real PRINCIPAL_REQUESTS_PER_WINDOW) factor)
                 then Inr (l\<^sub>2, Limited PrincipalScope (retryAfterOf h REQUEST_WINDOW_MS))
                 else Inr (owner_check maxKeys (ri_ownerId inp) owner_limit factor t l\<^sub>2)
             | _ \<Rightarrow> Inr (owner_check maxKeys (ri_ownerId inp) owner_limit factor t l\<^sub>1)))"

definition allowApprovalAttempt :: "nat \<Rightarrow> string \<Rightarrow> int \<Rightarrow> limiter \<Rightarrow> js_error + (limiter \<times> int option)" where
  "allowApprovalAttempt maxKeys clientIp t l =
     (if \<not> is_valid (IDENTITY_INPUT (JStr clientIp)) then Inl (TypeError ''approval attempt needs a client address'')
      else let (l', h) = hit maxKeys clientIp APPROVAL_WINDOW_MS t l in
        if over_limit h (int APPROVAL_ATTEMPTS_PER_WINDOW) then Inr (l', Some (retryAfterOf h APPROVAL_WINDOW_MS))
        else Inr (l', None))"

subsection \<open>Logins\<close>

text \<open>
  The limiting part of \<^verbatim>\<open>login\<close>, in its two halves: the reservation before the password
  is verified, and what happens once the verdict is known. Other requests may run between them.
\<close>

record login_limits =
  loginsByIp :: limiter
  ownerFailures :: limiter

datatype login_start = BadInput | RateLimited int | Verifying

definition PASSWORD_INPUT :: validator where
  "PASSWORD_INPUT = StringValidator (no_string_options\<lparr>so_allowEmpty := True, so_maxLength := Some 1024\<rparr>)"

definition login_begin :: "nat \<Rightarrow> string \<Rightarrow> string \<Rightarrow> int \<Rightarrow> login_limits \<Rightarrow> login_limits \<times> login_start" where
  "login_begin maxKeys password clientIp t s =
     (if \<not> is_valid (PASSWORD_INPUT (JStr password)) then (s, BadInput)
      else if \<not> is_valid (IDENTITY_INPUT (JStr clientIp)) then (s, BadInput)
      else
        let (byIp, perIp) = hit maxKeys clientIp LOGIN_WINDOW_MS t (loginsByIp s);
            s\<^sub>1 = s\<lparr>loginsByIp := byIp\<rparr>
        in if over_limit perIp (int LOGIN_ATTEMPTS_PER_IP)
           then (s\<^sub>1, RateLimited (retryAfterOf perIp LOGIN_WINDOW_MS))
           else
             let (own, perOwner) = hit maxKeys ''owner'' LOGIN_WINDOW_MS t (ownerFailures s\<^sub>1);
                 s\<^sub>2 = s\<^sub>1\<lparr>ownerFailures := own\<rparr>
             in if over_limit perOwner (int OWNER_FAILURES_PER_WINDOW)
                then (s\<^sub>2, RateLimited (retryAfterOf perOwner LOGIN_WINDOW_MS))
                else (s\<^sub>2, Verifying))"

definition login_end :: "string \<Rightarrow> bool \<Rightarrow> int \<Rightarrow> login_limits \<Rightarrow> login_limits" where
  "login_end clientIp matches t s =
     (if matches then s\<lparr>ownerFailures := lim_release ''owner'' t (ownerFailures s),
                        loginsByIp := lim_release clientIp t (loginsByIp s)\<rparr>
      else s)"

subsection \<open>What an operation does to one key's window\<close>

declare map_of_eq_Some_iff [simp del] Some_eq_map_of_iff [simp del]

abbreviation win_of :: "limiter \<Rightarrow> string \<Rightarrow> window option" where
  "win_of l key \<equiv> jm_get (lim_windows l) key"

abbreviation lim_wf :: "limiter \<Rightarrow> bool" where
  "lim_wf l \<equiv> jm_wf (lim_windows l)"

text \<open>\<open>narrows t l l'\<close>: \<open>l'\<close> is \<open>l\<close> without some of the windows over by \<open>t\<close>.\<close>

definition narrows :: "int \<Rightarrow> limiter \<Rightarrow> limiter \<Rightarrow> bool" where
  "narrows t l l' \<longleftrightarrow> lim_wf l' \<and> length (lim_windows l') \<le> length (lim_windows l) \<and>
     (\<forall>K. win_of l' K = win_of l K \<or> win_of l' K = None \<and> (\<forall>w. win_of l K = Some w \<longrightarrow> win_resetAt w \<le> t))"

lemma narrowsD:
  assumes "narrows t l l'"
  shows "lim_wf l'" and "length (lim_windows l') \<le> length (lim_windows l)"
    and "win_of l K = Some w \<Longrightarrow> t < win_resetAt w \<Longrightarrow> win_of l' K = Some w"
    and "win_of l' K = Some w \<Longrightarrow> win_of l K = Some w"
    and "win_of l' K = win_of l K \<or> win_of l' K = None \<and> (\<forall>w. win_of l K = Some w \<longrightarrow> win_resetAt w \<le> t)"
proof -
  show either: "win_of l' K = win_of l K
      \<or> win_of l' K = None \<and> (\<forall>w. win_of l K = Some w \<longrightarrow> win_resetAt w \<le> t)" for K
    using assms unfolding narrows_def by blast
  show "win_of l K = Some w \<Longrightarrow> t < win_resetAt w \<Longrightarrow> win_of l' K = Some w"
    "win_of l' K = Some w \<Longrightarrow> win_of l K = Some w"
    using either [of K] by auto
qed (use assms in \<open>simp_all add: narrows_def\<close>)

lemma narrows_refl: "lim_wf l \<Longrightarrow> narrows t l l"
  by (simp add: narrows_def)

lemma narrows_trans:
  assumes ab: "narrows t a b" and bc: "narrows t b c"
  shows "narrows t a c"
  unfolding narrows_def
proof (intro conjI allI)
  show "lim_wf c" by (rule narrowsD(1) [OF bc])
  show "length (lim_windows c) \<le> length (lim_windows a)"
    using narrowsD(2) [OF bc] narrowsD(2) [OF ab] by simp
  show "win_of c K = win_of a K \<or> win_of c K = None \<and> (\<forall>w. win_of a K = Some w \<longrightarrow> win_resetAt w \<le> t)" for K
    using narrowsD(5) [OF bc, of K] narrowsD(5) [OF ab, of K] by auto
qed

lemma lim_prune_narrows: "lim_wf l \<Longrightarrow> narrows t l (lim_prune t l)"
  by (auto simp: narrows_def lim_prune_def js_map.wf_sweep js_map.get_sweep length_jm_sweep split: option.split)

lemma pruneIfDue_narrows: "lim_wf l \<Longrightarrow> narrows t l (pruneIfDue t l)"
  using lim_prune_narrows [of l t] by (simp add: pruneIfDue_def narrows_refl narrows_def)

lemma live_narrows: "lim_wf l \<Longrightarrow> live key t l = (l', w') \<Longrightarrow> narrows t l l'"
  by (auto simp: live_def narrows_def distinct_delete delete_conv' length_delete_le
      split: option.splits if_splits)

lemma live_result:
  assumes "live key t l = (l', w')"
  shows "w' = (case win_of l key of Some w \<Rightarrow> if t < win_resetAt w then Some w else None | None \<Rightarrow> None)"
    and "w' = Some w \<Longrightarrow> win_of l' key = Some w \<and> t < win_resetAt w" and "w' = None \<Longrightarrow> win_of l' key = None"
    and "K \<noteq> key \<Longrightarrow> win_of l' K = win_of l K"
  using assms by (auto simp: live_def delete_conv' split: option.splits if_splits)

lemma put_window_facts:
  "lim_wf l \<Longrightarrow> lim_wf (put_window key w l)"
  "win_of (put_window key w l) K = (if K = key then Some w else win_of l K)"
  "length (lim_windows (put_window key w l)) =
     (if win_of l key = None then Suc (length (lim_windows l)) else length (lim_windows l))"
  by (simp_all add: put_window_def distinct_update update_conv' length_update)

text \<open>
  The three outcomes of \<^verbatim>\<open>hit\<close>: the key's live window counts one more; a new window
  opens; or the table is full of live windows and the hit is refused.
\<close>

lemma hit_cases:
  assumes wf: "lim_wf l" and hit: "hit maxKeys key windowMs t l = (l', h)"
  obtains (counted) l\<^sub>0 w where "win_of l key = Some w" "t < win_resetAt w" "win_of l\<^sub>0 key = Some w"
      "h = Some \<lparr>hit_count = win_count w + 1, hit_retryAfterSec = max 1 (ceil_div (win_resetAt w - t) 1000)\<rparr>"
      "l' = put_window key (w\<lparr>win_count := win_count w + 1\<rparr>) l\<^sub>0" "narrows t l l\<^sub>0"
  | (opened) l\<^sub>0 where "\<And>w. win_of l key = Some w \<Longrightarrow> win_resetAt w \<le> t"
      "h = Some \<lparr>hit_count = 1, hit_retryAfterSec = max 1 (ceil_div windowMs 1000)\<rparr>"
      "l' = put_window key \<lparr>win_count = 1, win_resetAt = t + windowMs\<rparr> l\<^sub>0" "narrows t l l\<^sub>0"
      "length (lim_windows l\<^sub>0) < maxKeys"
  | (full) "\<And>w. win_of l key = Some w \<Longrightarrow> win_resetAt w \<le> t" "h = None" "narrows t l l'"
      "maxKeys \<le> length (lim_windows l')"
proof -
  obtain l\<^sub>1 w' where lv: "live key t (pruneIfDue t l) = (l\<^sub>1, w')" by fastforce
  note due = pruneIfDue_narrows [OF wf, of t]
  have n1: "narrows t l l\<^sub>1" by (rule narrows_trans [OF due live_narrows [OF narrowsD(1) [OF due] lv]])
  show thesis
  proof (cases w')
    case (Some w)
    from live_result(2) [OF lv this] have w: "win_of l\<^sub>1 key = Some w" "t < win_resetAt w" by simp_all
    from hit Some lv have "l' = put_window key (w\<lparr>win_count := win_count w + 1\<rparr>) l\<^sub>1"
      "h = Some \<lparr>hit_count = win_count w + 1, hit_retryAfterSec = max 1 (ceil_div (win_resetAt w - t) 1000)\<rparr>"
      by (simp_all add: hit_def bump_def Let_def)
    then show thesis by (intro counted [OF narrowsD(4) [OF n1 w(1)] w(2,1) _ _ n1])
  next
    case None
    have dead: "win_resetAt w \<le> t" if "win_of l key = Some w" for w
      using narrowsD(3) [OF n1 that] live_result(3) [OF lv None] by fastforce
    define l\<^sub>2 where "l\<^sub>2 = (if length (lim_windows l\<^sub>1) \<ge> maxKeys then lim_prune t l\<^sub>1 else l\<^sub>1)"
    have n2: "narrows t l l\<^sub>2"
      using narrows_trans [OF n1 lim_prune_narrows [OF narrowsD(1) [OF n1]]] n1 by (simp add: l\<^sub>2_def)
    have hit': "hit maxKeys key windowMs t l = (if length (lim_windows l\<^sub>2) \<ge> maxKeys then (l\<^sub>2, None)
        else bump key t \<lparr>win_count = 0, win_resetAt = t + windowMs\<rparr> l\<^sub>2)"
      unfolding hit_def lv Let_def by (simp only: None prod.case option.case l\<^sub>2_def)
    show thesis
    proof (cases "length (lim_windows l\<^sub>2) \<ge> maxKeys")
      case True
      with hit hit' n2 show thesis by (intro full [OF dead]) auto
    next
      case False
      with hit hit' n2 show thesis by (intro opened [OF dead, of l\<^sub>2]) (auto simp: bump_def Let_def)
    qed
  qed
qed

lemma hit_wf: "lim_wf l \<Longrightarrow> lim_wf (fst (hit maxKeys key windowMs t l))"
  by (cases "hit maxKeys key windowMs t l")
    (erule (1) hit_cases; simp add: put_window_facts narrowsD(1))

lemma hit_size:
  assumes "lim_wf l" "length (lim_windows l) \<le> maxKeys"
  shows "length (lim_windows (fst (hit maxKeys key windowMs t l))) \<le> maxKeys"
proof -
  obtain l' h where h: "hit maxKeys key windowMs t l = (l', h)" by fastforce
  from assms(1) h have "length (lim_windows l') \<le> maxKeys"
  proof (cases rule: hit_cases)
    case (counted l\<^sub>0 w)
    with assms(2) narrowsD(2) [OF counted(6)] show ?thesis by (simp add: put_window_facts(3))
  next
    case (opened l\<^sub>0)
    then show ?thesis by (simp add: put_window_facts(3))
  next
    case full
    with assms(2) narrowsD(2) [OF full(3)] show ?thesis by simp
  qed
  with h show ?thesis by simp
qed

lemma release_cases:
  assumes wf: "lim_wf l"
  shows "lim_wf (lim_release key t l)"
    and "length (lim_windows (lim_release key t l)) \<le> length (lim_windows l)"
    and "K \<noteq> key \<Longrightarrow> win_of (lim_release key t l) K = win_of l K"
    and "win_of l key = Some w \<Longrightarrow> t < win_resetAt w \<Longrightarrow>
      win_of (lim_release key t l) key = Some (w\<lparr>win_count := win_count w - 1\<rparr>)"
    and "(\<And>w. win_of l key = Some w \<Longrightarrow> win_resetAt w \<le> t) \<Longrightarrow> win_of (lim_release key t l) key = None"
proof -
  obtain l' w' where lv: "live key t l = (l', w')" by fastforce
  note r = live_result [OF lv]
  note n = live_narrows [OF wf lv]
  have rel: "lim_release key t l = (case w' of
       Some w \<Rightarrow> if win_count w > 0 then put_window key (w\<lparr>win_count := win_count w - 1\<rparr>) l' else l'
     | None \<Rightarrow> l')" by (simp add: lim_release_def lv)
  show "lim_wf (lim_release key t l)" "length (lim_windows (lim_release key t l)) \<le> length (lim_windows l)"
    "K \<noteq> key \<Longrightarrow> win_of (lim_release key t l) K = win_of l K"
    using narrowsD(1,2) [OF n] r(2,4) by (auto simp: rel put_window_facts split: option.splits)
  show "win_of (lim_release key t l) key = Some (w\<lparr>win_count := win_count w - 1\<rparr>)"
    if "win_of l key = Some w" "t < win_resetAt w"
  proof -
    from that r(1) have "w' = Some w" by simp
    with r(2) [OF this] show ?thesis by (simp add: rel put_window_facts)
  qed
  show "win_of (lim_release key t l) key = None"
    if "\<And>w. win_of l key = Some w \<Longrightarrow> win_resetAt w \<le> t"
  proof -
    have "w' = None" using r(1) that by (fastforce split: option.splits if_splits)
    with r(3) [OF this] show ?thesis by (simp add: rel)
  qed
qed

subsection \<open>The limiter as a machine\<close>

datatype lim_call = Hit string int int | Rel string int

fun lim_step :: "nat \<Rightarrow> limiter \<Rightarrow> lim_call \<Rightarrow> limiter \<times> hit option" where
  "lim_step maxKeys l (Hit key windowMs t) = hit maxKeys key windowMs t l"
| "lim_step maxKeys l (Rel key t) = (lim_release key t l, None)"

definition lim_inv :: "nat \<Rightarrow> limiter \<Rightarrow> bool" where
  "lim_inv maxKeys l \<longleftrightarrow> lim_wf l \<and> length (lim_windows l) \<le> maxKeys"

interpretation limiter: machine "lim_step maxKeys" "lim_inv maxKeys" for maxKeys
proof unfold_locales
  fix l c
  assume inv: "lim_inv maxKeys l"
  then have wf: "lim_wf l" by (simp add: lim_inv_def)
  show "lim_inv maxKeys (fst (lim_step maxKeys l c))"
  proof (cases c)
    case (Hit key W t)
    with inv show ?thesis by (simp add: lim_inv_def hit_wf hit_size)
  next
    case (Rel key t)
    with inv release_cases(1) [OF wf] order_trans [OF release_cases(2) [OF wf]] show ?thesis
      by (simp add: lim_inv_def)
  qed
qed

lemma new_limiter_inv: "lim_inv maxKeys new_limiter"
  by (simp add: lim_inv_def new_limiter_def)

fun call_key :: "lim_call \<Rightarrow> string" where
  "call_key (Hit key _ _) = key"
| "call_key (Rel key _) = key"

fun call_time :: "lim_call \<Rightarrow> int" where
  "call_time (Hit _ _ t) = t"
| "call_time (Rel _ t) = t"

lemma other_call_keeps:
  assumes "lim_wf l" "call_key c \<noteq> key" "call_time c < win_resetAt w" "win_of l key = Some w"
  shows "win_of (fst (lim_step maxKeys l c)) key = Some w"
proof (cases c)
  case (Rel k t)
  with assms release_cases(3) [OF assms(1)] show ?thesis by simp
next
  case (Hit k W t)
  obtain l' h where h: "hit maxKeys k W t l = (l', h)" by fastforce
  have t: "t < win_resetAt w" and k: "k \<noteq> key" using assms(2,3) Hit by simp_all
  from assms(1) h have "win_of l' key = Some w"
  proof (cases rule: hit_cases)
    case (counted l\<^sub>0 w')
    with narrowsD(3) [OF counted(6) assms(4) t] k show ?thesis by (simp add: put_window_facts(2))
  next
    case (opened l\<^sub>0)
    with narrowsD(3) [OF opened(4) assms(4) t] k show ?thesis by (simp add: put_window_facts(2))
  next
    case full
    from narrowsD(3) [OF full(3) assms(4) t] show ?thesis .
  qed
  with Hit h show ?thesis by simp
qed

text \<open>No traffic on other keys resets a limit: in every run of the limiter, however the other
  keys churn and however full the table is, a key's window keeps its count and its end as long as
  the calls come before that end, and the table never exceeds \<^verbatim>\<open>maxKeys\<close>.\<close>
theorem limiter_window_kept:
  assumes "l = final (lim_step maxKeys) new_limiter earlier" and "win_of l key = Some w"
    and "\<forall>c \<in> set calls. call_key c \<noteq> key \<and> call_time c < win_resetAt w"
  shows "win_of (final (lim_step maxKeys) l calls) key = Some w
    \<and> length (lim_windows (final (lim_step maxKeys) l calls)) \<le> maxKeys"
proof -
  have inv: "lim_inv maxKeys l" using limiter.run_inv new_limiter_inv assms(1) by blast
  then have "win_of (final (lim_step maxKeys) l calls) key = Some w" using assms(2,3)
  proof (induction calls arbitrary: l)
    case Nil
    then show ?case by simp
  next
    case (Cons c calls)
    from other_call_keeps [of l c key w] Cons.prems
    have "win_of (fst (lim_step maxKeys l c)) key = Some w" by (simp add: lim_inv_def)
    with Cons.IH [OF limiter.step_inv [OF Cons.prems(1)]] Cons.prems(3) show ?case by simp
  qed
  moreover have "lim_inv maxKeys (final (lim_step maxKeys) l calls)" using limiter.run_inv inv by blast
  ultimately show ?thesis by (simp add: lim_inv_def)
qed

lemma limiter_window_kept_witness:
  "win_of (final (lim_step 1) (final (lim_step 1) new_limiter [Hit ''a'' 100 0]) [Hit ''b'' 100 5, Hit ''c'' 100 50]) ''a''
    = Some \<lparr>win_count = 1, win_resetAt = 100\<rparr>"
proof -
  have "win_of (final (lim_step 1) new_limiter [Hit ''a'' 100 0]) ''a'' = Some \<lparr>win_count = 1, win_resetAt = 100\<rparr>"
    by (simp add: hit_def pruneIfDue_def lim_prune_def new_limiter_def live_def bump_def put_window_def
        jm_sweep_def Let_def)
  from limiter_window_kept [OF refl this, of "[Hit ''b'' 100 5, Hit ''c'' 100 50]"] show ?thesis by simp
qed

subsection \<open>Counting what a window let through\<close>

text \<open>
  \<open>track K t\<^sub>0 T n l\<close>: of the hits of \<open>K\<close> since \<open>t\<^sub>0\<close>, \<open>n\<close> have not
  been returned, and they are in one window that lasts at least to \<open>T\<close>. The number is an
  integer because a release may come without its hit.
\<close>

definition track :: "string \<Rightarrow> int \<Rightarrow> int \<Rightarrow> int \<Rightarrow> limiter \<Rightarrow> bool" where
  "track K t\<^sub>0 T n l \<longleftrightarrow> lim_wf l \<and>
     (case win_of l K of
        None \<Rightarrow> n \<le> 0
      | Some w \<Rightarrow> if T \<le> win_resetAt w then n \<le> int (win_count w) else win_resetAt w \<le> t\<^sub>0 \<and> n \<le> 0)"

lemma track_start:
  "lim_wf l \<Longrightarrow> (\<And>w. win_of l K = Some w \<Longrightarrow> win_resetAt w \<le> t\<^sub>0) \<Longrightarrow> t\<^sub>0 < T \<Longrightarrow> track K t\<^sub>0 T 0 l"
  by (auto simp: track_def split: option.splits)

lemma track_mono: "track K t\<^sub>0 T n l \<Longrightarrow> m \<le> n \<Longrightarrow> track K t\<^sub>0 T m l"
  by (auto simp: track_def split: option.splits)

text \<open>Dropping windows that are over keeps the account.\<close>

lemma track_narrows:
  assumes tr: "track K t\<^sub>0 T n l" and n: "narrows t l l'" and t: "t < T"
  shows "track K t\<^sub>0 T n l'"
proof (cases "win_of l' K = win_of l K")
  case True
  with tr narrowsD(1) [OF n] show ?thesis by (simp add: track_def)
next
  case False
  then have "win_of l' K = None" "\<And>w. win_of l K = Some w \<Longrightarrow> win_resetAt w < T"
    using narrowsD(5) [OF n, of K] t by auto
  with tr narrowsD(1) [OF n] show ?thesis by (auto simp: track_def split: option.splits if_splits)
qed

lemma track_put_other: "track K t\<^sub>0 T n l \<Longrightarrow> key \<noteq> K \<Longrightarrow> track K t\<^sub>0 T n (put_window key w l)"
  by (simp add: track_def put_window_facts)

lemma track_other:
  assumes tr: "track K t\<^sub>0 T n l" and t: "t < T" and key: "key \<noteq> K" and h: "hit maxKeys key W t l = (l', h)"
  shows "track K t\<^sub>0 T n l'"
proof -
  have wf: "lim_wf l" using tr by (simp add: track_def)
  from wf h show ?thesis
  proof (cases rule: hit_cases)
    case (counted l\<^sub>0 w)
    with track_put_other [OF track_narrows [OF tr counted(6) t] key] show ?thesis by simp
  next
    case (opened l\<^sub>0)
    with track_put_other [OF track_narrows [OF tr opened(4) t] key] show ?thesis by simp
  next
    case full
    from track_narrows [OF tr full(3) t] show ?thesis .
  qed
qed

lemma track_hit:
  assumes tr: "track K t\<^sub>0 T n l" and t: "t\<^sub>0 \<le> t" "t < T" "T \<le> t + W" and h: "hit maxKeys K W t l = (l', h)"
  shows "track K t\<^sub>0 T n l'" and "h = Some x \<Longrightarrow> n + 1 \<le> int (hit_count x) \<and> track K t\<^sub>0 T (n + 1) l'"
proof -
  have wf: "lim_wf l" using tr by (simp add: track_def)
  have wf': "lim_wf l'" using hit_wf [OF wf] h by (metis fst_conv)
  have "track K t\<^sub>0 T n l' \<and> (h = Some x \<longrightarrow> n + 1 \<le> int (hit_count x) \<and> track K t\<^sub>0 T (n + 1) l')"
    using wf h
  proof (cases rule: hit_cases)
    case (counted l\<^sub>0 w)
    then have "T \<le> win_resetAt w \<and> n \<le> int (win_count w)"
      using tr t by (auto simp: track_def split: if_splits)
    with counted(4,5) wf' show ?thesis by (auto simp: track_def put_window_facts(2))
  next
    case (opened l\<^sub>0)
    have "n \<le> 0" using opened(1) tr t by (fastforce simp: track_def split: option.splits if_splits)
    with opened(2,3) t wf' show ?thesis by (auto simp: track_def put_window_facts(2))
  next
    case full
    with track_narrows [OF tr full(3) t(2)] show ?thesis by simp
  qed
  then show "track K t\<^sub>0 T n l'" and "h = Some x \<Longrightarrow> n + 1 \<le> int (hit_count x) \<and> track K t\<^sub>0 T (n + 1) l'"
    by blast+
qed

lemma track_release:
  assumes tr: "track K t\<^sub>0 T n l" and t: "t\<^sub>0 \<le> t" "t < T"
  shows "track K t\<^sub>0 T (if key = K then n - 1 else n) (lim_release key t l)"
proof -
  have wf: "lim_wf l" using tr by (simp add: track_def)
  note r = release_cases [OF wf]
  show ?thesis
  proof (cases "key = K")
    case False
    with tr r(1,3) show ?thesis by (simp add: track_def)
  next
    case True
    show ?thesis
    proof (cases "\<exists>w. win_of l K = Some w \<and> t < win_resetAt w")
      case live: True
      then obtain w where w: "win_of l K = Some w" "t < win_resetAt w" by blast
      with tr t have "T \<le> win_resetAt w \<and> n \<le> int (win_count w)" by (auto simp: track_def split: if_splits)
      with True r(1) r(4) [OF w] show ?thesis by (auto simp: track_def)
    next
      case dead: False
      then have "win_of (lim_release K t l) K = None" by (intro r(5)) force
      moreover have "n \<le> 0" using dead tr t by (fastforce simp: track_def split: option.splits if_splits)
      ultimately show ?thesis using True r(1) by (simp add: track_def)
    qed
  qed
qed

lemma track_any:
  assumes tr: "track K t\<^sub>0 T n l" and t: "t\<^sub>0 \<le> t" "t < T" "T \<le> t + W" and h: "hit maxKeys key W t l = (l', h)"
  shows "track K t\<^sub>0 T n l'"
    and "key = K \<Longrightarrow> \<not> over_limit h limit \<Longrightarrow> n + 1 \<le> limit \<and> track K t\<^sub>0 T (n + 1) l'"
proof -
  show "track K t\<^sub>0 T n l'"
    using track_other [OF tr t(2) _ h] track_hit(1) [OF tr t, of maxKeys l' h] h by (cases "key = K") auto
  assume "key = K" "\<not> over_limit h limit"
  then show "n + 1 \<le> limit \<and> track K t\<^sub>0 T (n + 1) l'"
    using track_hit(2) [OF tr t, of maxKeys l' h] h by (fastforce simp: over_limit_def split: option.splits)
qed

subsection \<open>Requests let through in one window\<close>

text \<open>The key a request charges in each scope, and the limit it is held to there.\<close>

fun scope_key :: "(string \<Rightarrow> string) \<Rightarrow> scope \<Rightarrow> request_input \<Rightarrow> string option" where
  "scope_key sha IpScope inp = Some (''ip:'' @ ri_clientIp inp)"
| "scope_key sha PrincipalScope inp =
     (case ri_principal inp of JStr p \<Rightarrow> Some (''principal:'' @ principal_key sha p) | _ \<Rightarrow> None)"
| "scope_key sha OwnerScope inp = Some (''owner:'' @ ri_ownerId inp)"

fun scope_base :: "scope \<Rightarrow> request_input \<Rightarrow> real" where
  "scope_base IpScope inp = real IP_REQUESTS_PER_WINDOW"
| "scope_base PrincipalScope inp = real PRINCIPAL_REQUESTS_PER_WINDOW"
| "scope_base OwnerScope inp =
     (case ri_ownerLimit inp of JNum (Fin q) \<Rightarrow> q | _ \<Rightarrow> real OWNER_REQUESTS_PER_WINDOW)"

definition scope_limit :: "scope \<Rightarrow> request_input \<Rightarrow> int" where
  "scope_limit sc inp = scaledLimit (scope_base sc inp) (effectiveScale (ri_scale inp))"

lemma effectiveScale_bounds: "1 / 10 \<le> effectiveScale s \<and> effectiveScale s \<le> 1"
  by (auto simp: effectiveScale_def split: js.splits js_num.splits)

lemma scope_limit_le:
  assumes "scope_base sc inp \<le> real b" "1 \<le> b" "0 \<le> scope_base sc inp"
  shows "scope_limit sc inp \<le> int b"
proof -
  have "scope_base sc inp * effectiveScale (ri_scale inp) \<le> real b * 1"
    using assms effectiveScale_bounds [of "ri_scale inp"] by (intro mult_mono) auto
  with assms(2) show ?thesis by (simp add: scope_limit_def scaledLimit_def floor_le_iff)
qed

lemma owner_check_track:
  assumes tr: "track K t\<^sub>0 T n l" and t: "t\<^sub>0 \<le> t" "t < T" "T \<le> t + REQUEST_WINDOW_MS"
    and o: "owner_check maxKeys own limit factor t l = (l', v)"
  shows "track K t\<^sub>0 T n l'"
    and "v = Allowed \<Longrightarrow> ''owner:'' @ own = K \<Longrightarrow>
      n + 1 \<le> scaledLimit limit factor \<and> track K t\<^sub>0 T (n + 1) l'"
proof -
  obtain l\<^sub>1 h where h: "hit maxKeys (''owner:'' @ own) REQUEST_WINDOW_MS t l = (l\<^sub>1, h)" by fastforce
  with o have "l' = l\<^sub>1" "v = Allowed \<Longrightarrow> \<not> over_limit h (scaledLimit limit factor)"
    by (auto simp: owner_check_def split: if_splits)
  with track_any [OF tr t h] show "track K t\<^sub>0 T n l'"
    and "v = Allowed \<Longrightarrow> ''owner:'' @ own = K \<Longrightarrow>
      n + 1 \<le> scaledLimit limit factor \<and> track K t\<^sub>0 T (n + 1) l'" by auto
qed

lemma allowed_cases:
  assumes "allowRequest maxKeys sha inp t l = Inr (l', v)"
  obtains (ip) h where "hit maxKeys (''ip:'' @ ri_clientIp inp) REQUEST_WINDOW_MS t l = (l', h)" "v \<noteq> Allowed"
  | (principal) l\<^sub>1 h p h' where "hit maxKeys (''ip:'' @ ri_clientIp inp) REQUEST_WINDOW_MS t l = (l\<^sub>1, h)"
      "ri_principal inp = JStr p" "v \<noteq> Allowed"
      "hit maxKeys (''principal:'' @ principal_key sha p) REQUEST_WINDOW_MS t l\<^sub>1 = (l', h')"
  | (anonymous) l\<^sub>1 h where "hit maxKeys (''ip:'' @ ri_clientIp inp) REQUEST_WINDOW_MS t l = (l\<^sub>1, h)"
      "\<not> over_limit h (scope_limit IpScope inp)" "\<And>p. ri_principal inp \<noteq> JStr p"
      "owner_check maxKeys (ri_ownerId inp) (scope_base OwnerScope inp) (effectiveScale (ri_scale inp)) t l\<^sub>1 = (l', v)"
  | (signed) l\<^sub>1 h p l\<^sub>2 h' where "hit maxKeys (''ip:'' @ ri_clientIp inp) REQUEST_WINDOW_MS t l = (l\<^sub>1, h)"
      "\<not> over_limit h (scope_limit IpScope inp)" "ri_principal inp = JStr p"
      "hit maxKeys (''principal:'' @ principal_key sha p) REQUEST_WINDOW_MS t l\<^sub>1 = (l\<^sub>2, h')"
      "\<not> over_limit h' (scope_limit PrincipalScope inp)"
      "owner_check maxKeys (ri_ownerId inp) (scope_base OwnerScope inp) (effectiveScale (ri_scale inp)) t l\<^sub>2 = (l', v)"
proof -
  obtain l\<^sub>1 h where h: "hit maxKeys (''ip:'' @ ri_clientIp inp) REQUEST_WINDOW_MS t l = (l\<^sub>1, h)" by fastforce
  show thesis
  proof (cases "over_limit h (scope_limit IpScope inp)")
    case True
    with assms h have "l' = l\<^sub>1" "v \<noteq> Allowed"
      by (auto simp: allowRequest_def scope_limit_def Let_def split: if_splits)
    with h show thesis by (intro ip) simp_all
  next
    case False
    show thesis
    proof (cases "\<exists>p. ri_principal inp = JStr p")
      case None: False
      with assms h False show thesis
        by (intro anonymous [OF h]) (auto simp: allowRequest_def scope_limit_def Let_def
            split: if_splits js.splits)
    next
      case True
      then obtain p where p: "ri_principal inp = JStr p" by blast
      obtain l\<^sub>2 h' where h': "hit maxKeys (''principal:'' @ principal_key sha p) REQUEST_WINDOW_MS t l\<^sub>1 = (l\<^sub>2, h')"
        by fastforce
      show thesis
      proof (cases "over_limit h' (scope_limit PrincipalScope inp)")
        case True
        with assms h h' p False show thesis
          by (intro principal [OF h p _]) (auto simp: allowRequest_def scope_limit_def Let_def split: if_splits)
      next
        case within: False
        with assms h h' p False show thesis
          by (intro signed [OF h False p h' within])
            (auto simp: allowRequest_def scope_limit_def Let_def split: if_splits)
      qed
    qed
  qed
qed

lemma request_track:
  assumes tr: "track K t\<^sub>0 T n l" and t: "t\<^sub>0 \<le> t" "t < T" "T \<le> t + REQUEST_WINDOW_MS"
    and r: "allowRequest maxKeys sha inp t l = Inr (l', v)"
  shows "track K t\<^sub>0 T n l' \<and> (v = Allowed \<and> scope_key sha sc inp = Some K \<longrightarrow>
    n + 1 \<le> scope_limit sc inp \<and> track K t\<^sub>0 T (n + 1) l')"
  using r
proof (cases rule: allowed_cases)
  case (ip h)
  with track_any(1) [OF tr t] show ?thesis by simp
next
  case (principal l\<^sub>1 h p h')
  from track_any(1) [OF track_any(1) [OF tr t principal(1)] t principal(4)] principal(3)
  show ?thesis by simp
next
  case (anonymous l\<^sub>1 h)
  note a = track_any [OF tr t anonymous(1)]
  note b = owner_check_track [OF a(1) t anonymous(4)]
  show ?thesis
  proof (cases sc)
    case IpScope
    with a(2) [OF _ anonymous(2)] b(1) owner_check_track(1) [OF _ t anonymous(4)] show ?thesis by auto
  next
    case PrincipalScope
    with b(1) anonymous(3) show ?thesis by (auto split: js.splits)
  next
    case OwnerScope
    with b show ?thesis by (auto simp: scope_limit_def)
  qed
next
  case (signed l\<^sub>1 h p l\<^sub>2 h')
  note a = track_any [OF tr t signed(1)]
  note b = track_any [OF a(1) t signed(4)]
  note c = owner_check_track [OF b(1) t signed(6)]
  show ?thesis
  proof (cases sc)
    case IpScope
    with a(2) [OF _ signed(2)] c(1) owner_check_track(1) [OF track_any(1) [OF _ t signed(4)] t signed(6)]
    show ?thesis by auto
  next
    case PrincipalScope
    with b(2) [OF _ signed(5)] c(1) owner_check_track(1) [OF _ t signed(6)] signed(3) show ?thesis by auto
  next
    case OwnerScope
    with c show ?thesis by (auto simp: scope_limit_def)
  qed
qed

definition request_step :: "nat \<Rightarrow> (string \<Rightarrow> string) \<Rightarrow> limiter \<Rightarrow> request_input \<times> int \<Rightarrow> limiter \<times> verdict option" where
  "request_step maxKeys sha l = (\<lambda>(inp, t). case allowRequest maxKeys sha inp t l of
      Inl _ \<Rightarrow> (l, None) | Inr (l', v) \<Rightarrow> (l', Some v))"

text \<open>How many of the requests that charge a key were let through.\<close>

fun passed :: "(request_input \<Rightarrow> bool) \<Rightarrow> (request_input \<times> int) list \<Rightarrow> verdict option list \<Rightarrow> nat" where
  "passed charges ((inp, t) # es) (v # vs) =
     (if charges inp \<and> v = Some Allowed then 1 else 0) + passed charges es vs"
| "passed charges _ _ = 0"

lemma request_run_track:
  assumes "track K t\<^sub>0 T n l" and "n \<le> B"
    and "\<forall>(inp, t) \<in> set es. t\<^sub>0 \<le> t \<and> t < T \<and> T \<le> t + REQUEST_WINDOW_MS \<and>
      (scope_key sha sc inp = Some K \<longrightarrow> scope_limit sc inp \<le> B)"
  shows "n + int (passed (\<lambda>inp. scope_key sha sc inp = Some K) es (snd (exec (request_step maxKeys sha) l es))) \<le> B"
  using assms
proof (induction es arbitrary: n l)
  case Nil
  then show ?case by simp
next
  case (Cons e es)
  obtain inp t where e: "e = (inp, t)" by fastforce
  note t = Cons.prems(3) [unfolded e]
  show ?case
  proof (cases "allowRequest maxKeys sha inp t l")
    case (Inl err)
    with Cons.IH [OF Cons.prems(1,2)] t e show ?thesis
      by (auto simp: request_step_def split: prod.splits)
  next
    case (Inr r)
    then obtain l' v where r: "allowRequest maxKeys sha inp t l = Inr (l', v)" by (cases r) auto
    have s: "request_step maxKeys sha l e = (l', Some v)" by (simp add: request_step_def e r)
    have tr: "track K t\<^sub>0 T n l' \<and> (v = Allowed \<and> scope_key sha sc inp = Some K \<longrightarrow>
        n + 1 \<le> scope_limit sc inp \<and> track K t\<^sub>0 T (n + 1) l')"
      by (rule request_track [OF Cons.prems(1) _ _ _ r]) (use t in auto)
    show ?thesis
    proof (cases "v = Allowed \<and> scope_key sha sc inp = Some K")
      case True
      with tr t have "track K t\<^sub>0 T (n + 1) l'" "n + 1 \<le> B" by auto
      from Cons.IH [OF this] t True s e show ?thesis by (auto split: prod.splits)
    next
      case False
      with Cons.IH [of n l'] tr Cons.prems(2) t s e show ?thesis by (auto split: prod.splits)
    qed
  qed
qed

definition let_through :: "nat \<Rightarrow> (string \<Rightarrow> string) \<Rightarrow> scope \<Rightarrow> string \<Rightarrow> limiter \<Rightarrow> (request_input \<times> int) list \<Rightarrow> nat" where
  "let_through maxKeys sha sc K l es =
     passed (\<lambda>inp. scope_key sha sc inp = Some K) es (snd (exec (request_step maxKeys sha) l es))"

text \<open>C20. The three request limits hold: in every run of the request handler over a minute that
  begins with no live window for a key, whatever load factors and other callers the run mixes in, at
  most 120 requests from one client address, at most 60 of one principal, and for one owner at most
  \<open>b\<close> are let through when the owner limits its own requests name lie between 0 and
  \<open>b\<close>, at least the default of 60; requests of other owners may name any limit.\<close>
theorem request_limits:
  assumes "lim_wf l" and "\<forall>w. win_of l K = Some w \<longrightarrow> win_resetAt w \<le> t\<^sub>0"
    and "\<forall>(inp, t) \<in> set es. t\<^sub>0 \<le> t \<and> t < t\<^sub>0 + REQUEST_WINDOW_MS"
    and "60 \<le> b" and "\<forall>(inp, t) \<in> set es. scope_key sha OwnerScope inp = Some K \<longrightarrow>
      (\<forall>q. ri_ownerLimit inp = JNum (Fin q) \<longrightarrow> 0 \<le> q \<and> q \<le> real b)"
  shows "let_through maxKeys sha IpScope K l es \<le> 120 \<and> let_through maxKeys sha PrincipalScope K l es \<le> 60
    \<and> let_through maxKeys sha OwnerScope K l es \<le> b"
proof -
  have start: "track K t\<^sub>0 (t\<^sub>0 + REQUEST_WINDOW_MS) 0 l"
    using assms(1,2) by (intro track_start) (simp_all add: limit_constants)
  have bound: "let_through maxKeys sha sc K l es \<le> n"
    if "\<forall>(inp, t) \<in> set es. scope_key sha sc inp = Some K \<longrightarrow> scope_limit sc inp \<le> int n" for sc n
    unfolding let_through_def
    using request_run_track [OF start, of "int n" es sha sc maxKeys] that assms(3) by fastforce
  have "scope_limit IpScope inp \<le> int 120" "scope_limit PrincipalScope inp \<le> int 60" for inp
    by (rule scope_limit_le; simp add: limit_constants)+
  moreover have "scope_limit OwnerScope inp \<le> int b"
    if "(inp, t) \<in> set es" "scope_key sha OwnerScope inp = Some K" for inp t
  proof (rule scope_limit_le)
    have lim: "ri_ownerLimit inp = JNum (Fin q) \<Longrightarrow> 0 \<le> q \<and> q \<le> real b" for q
      using assms(5) that by (blast dest: bspec)
    show "scope_base OwnerScope inp \<le> real b" "0 \<le> scope_base OwnerScope inp" "1 \<le> b"
      using assms(4) lim by (auto simp: limit_constants split: js.split js_num.split)
  qed
  ultimately show ?thesis by (auto intro!: bound)
qed

text \<open>The service charges the plan route's owner at the default limit and the connectors' shared owner
  at a higher one in the same limiter.\<close>

lemma request_limits_witness:
  "let_through 10 id OwnerScope ''owner:o'' new_limiter
    [(\<lparr>ri_clientIp = ''a'', ri_ownerId = ''o'', ri_principal = JUndef, ri_ownerLimit = JUndef, ri_scale = JUndef\<rparr>, 5),
     (\<lparr>ri_clientIp = ''b'', ri_ownerId = ''x'', ri_principal = JUndef, ri_ownerLimit = JNum (Fin 600), ri_scale = JUndef\<rparr>, 6)] \<le> 60"
  using request_limits [of new_limiter "''owner:o''" 0
      "[(\<lparr>ri_clientIp = ''a'', ri_ownerId = ''o'', ri_principal = JUndef, ri_ownerLimit = JUndef, ri_scale = JUndef\<rparr>, 5),
        (\<lparr>ri_clientIp = ''b'', ri_ownerId = ''x'', ri_principal = JUndef, ri_ownerLimit = JNum (Fin 600), ri_scale = JUndef\<rparr>, 6)]"
      60 id 10]
  by (simp add: new_limiter_def limit_constants)

subsection \<open>Failed logins in one window\<close>

datatype login_event = LoginBegin string string int | LoginEnd string bool int

fun login_step :: "nat \<Rightarrow> login_limits \<Rightarrow> login_event \<Rightarrow> login_limits \<times> login_start option" where
  "login_step maxKeys s (LoginBegin password clientIp t) =
     (let (s', r) = login_begin maxKeys password clientIp t s in (s', Some r))"
| "login_step maxKeys s (LoginEnd clientIp matches t) = (login_end clientIp matches t s, None)"

text \<open>Password checks begun and not answered with success: the wrong guesses and the pending ones.\<close>

fun unreturned :: "(string \<Rightarrow> bool) \<Rightarrow> login_event list \<Rightarrow> login_start option list \<Rightarrow> int" where
  "unreturned P (LoginBegin _ ip _ # es) (r # rs) =
     (if P ip \<and> r = Some Verifying then 1 else 0) + unreturned P es rs"
| "unreturned P (LoginEnd ip matches _ # es) (_ # rs) =
     unreturned P es rs - (if P ip \<and> matches then 1 else 0)"
| "unreturned P _ _ = 0"

fun event_time :: "login_event \<Rightarrow> int" where
  "event_time (LoginBegin _ _ t) = t"
| "event_time (LoginEnd _ _ t) = t"

text \<open>The two accounts a login keeps: per address and for the owner.\<close>

definition login_account :: "string \<Rightarrow> int \<Rightarrow> int \<Rightarrow> int \<Rightarrow> int \<Rightarrow> login_limits \<Rightarrow> bool" where
  "login_account ip t\<^sub>0 T n m s \<longleftrightarrow>
     track ip t\<^sub>0 T n (loginsByIp s) \<and> track ''owner'' t\<^sub>0 T m (ownerFailures s)"

lemma login_begin_account:
  assumes acc: "login_account ip t\<^sub>0 T n m s" and t: "t\<^sub>0 \<le> t" "t < T" "T \<le> t + LOGIN_WINDOW_MS"
    and b: "login_begin maxKeys password clientIp t s = (s', r)"
  shows "login_account ip t\<^sub>0 T n m s' \<and> (r = Verifying \<longrightarrow>
     m + 1 \<le> 10 \<and> (clientIp = ip \<longrightarrow> n + 1 \<le> 5) \<and>
     login_account ip t\<^sub>0 T (if clientIp = ip then n + 1 else n) (m + 1) s')"
proof (cases "is_valid (PASSWORD_INPUT (JStr password)) \<and> is_valid (IDENTITY_INPUT (JStr clientIp))")
  case False
  with acc b show ?thesis by (auto simp: login_begin_def split: if_splits)
next
  case True
  from acc have tr: "track ip t\<^sub>0 T n (loginsByIp s)" and tro: "track ''owner'' t\<^sub>0 T m (ownerFailures s)"
    by (simp_all add: login_account_def)
  obtain byIp h where h: "hit maxKeys clientIp LOGIN_WINDOW_MS t (loginsByIp s) = (byIp, h)" by fastforce
  obtain own h' where h': "hit maxKeys ''owner'' LOGIN_WINDOW_MS t (ownerFailures s) = (own, h')" by fastforce
  note a = track_any [OF tr t h]
  note o = track_any [OF tro t h']
  show ?thesis
  proof (cases "over_limit h (int LOGIN_ATTEMPTS_PER_IP)")
    case True
    with b h a(1) tro \<open>is_valid _ \<and> is_valid _\<close> show ?thesis
      by (auto simp: login_begin_def login_account_def Let_def)
  next
    case False
    show ?thesis
    proof (cases "over_limit h' (int OWNER_FAILURES_PER_WINDOW)")
      case True
      with b h h' False a(1) o(1) \<open>is_valid _ \<and> is_valid _\<close> show ?thesis
        by (auto simp: login_begin_def login_account_def Let_def)
    next
      case within: False
      with b h h' False \<open>is_valid _ \<and> is_valid _\<close>
      have s': "s' = \<lparr>loginsByIp = byIp, ownerFailures = own\<rparr>"
        by (cases s) (auto simp: login_begin_def Let_def)
      show ?thesis using a(1) a(2) [OF _ False] o(1) o(2) [OF refl within]
        by (auto simp: s' login_account_def limit_constants)
    qed
  qed
qed

lemma login_end_account:
  assumes "login_account ip t\<^sub>0 T n m s" "t\<^sub>0 \<le> t" "t < T"
  shows "login_account ip t\<^sub>0 T (if clientIp = ip \<and> matches then n - 1 else n)
    (if matches then m - 1 else m) (login_end clientIp matches t s)"
  using assms track_release [of ip t\<^sub>0 T n "loginsByIp s" t clientIp]
    track_release [of "''owner''" t\<^sub>0 T m "ownerFailures s" t "''owner''"]
  by (auto simp: login_end_def login_account_def)

lemma login_run_account:
  assumes "login_account ip t\<^sub>0 T n m s" and "n \<le> 5" "m \<le> 10"
    and "\<forall>e \<in> set es. t\<^sub>0 \<le> event_time e \<and> event_time e < T \<and> T \<le> event_time e + LOGIN_WINDOW_MS"
  shows "n + unreturned (\<lambda>a. a = ip) es (snd (exec (login_step maxKeys) s es)) \<le> 5
    \<and> m + unreturned (\<lambda>a. True) es (snd (exec (login_step maxKeys) s es)) \<le> 10"
  using assms
proof (induction es arbitrary: n m s)
  case Nil
  then show ?case by simp
next
  case (Cons e es)
  show ?case
  proof (cases e)
    case (LoginBegin password clientIp t)
    obtain s' r where b: "login_begin maxKeys password clientIp t s = (s', r)" by fastforce
    have acc: "login_account ip t\<^sub>0 T n m s' \<and> (r = Verifying \<longrightarrow>
        m + 1 \<le> 10 \<and> (clientIp = ip \<longrightarrow> n + 1 \<le> 5) \<and>
        login_account ip t\<^sub>0 T (if clientIp = ip then n + 1 else n) (m + 1) s')"
      by (rule login_begin_account [OF Cons.prems(1) _ _ _ b]) (use Cons.prems(4) LoginBegin in auto)
    show ?thesis
    proof (cases "r = Verifying")
      case True
      with acc Cons.prems(2) have "login_account ip t\<^sub>0 T (if clientIp = ip then n + 1 else n) (m + 1) s'"
        "(if clientIp = ip then n + 1 else n) \<le> 5" "m + 1 \<le> 10" by auto
      from Cons.IH [OF this] Cons.prems(4) True b LoginBegin show ?thesis
        by (auto split: prod.splits if_splits)
    next
      case False
      with Cons.IH [of n m s'] acc Cons.prems b LoginBegin show ?thesis by (auto split: prod.splits)
    qed
  next
    case (LoginEnd clientIp matches t)
    have acc: "login_account ip t\<^sub>0 T (if clientIp = ip \<and> matches then n - 1 else n)
        (if matches then m - 1 else m) (login_end clientIp matches t s)"
      by (rule login_end_account [OF Cons.prems(1)]) (use Cons.prems(4) LoginEnd in auto)
    from Cons.IH [OF acc] Cons.prems(2-4) LoginEnd show ?thesis
      by (auto split: prod.splits if_splits)
  qed
qed

text \<open>What the windows of a key still let through before \<open>T\<close>: the rest of a window that lasts until then, or the
  rest of the window that ends before and a new one after it.\<close>

definition spare :: "string \<Rightarrow> int \<Rightarrow> int \<Rightarrow> int \<Rightarrow> limiter \<Rightarrow> int" where
  "spare K limit T t l = (case win_of l K of
      None \<Rightarrow> limit
    | Some w \<Rightarrow> if win_resetAt w \<le> t then limit
        else max 0 (limit - int (win_count w)) + (if T \<le> win_resetAt w then 0 else limit))"

lemma spare_bound: "0 \<le> limit \<Longrightarrow> 0 \<le> spare K limit T t l \<and> spare K limit T t l \<le> 2 * limit"
  by (auto simp: spare_def split: option.split)

lemma spare_later: "0 \<le> limit \<Longrightarrow> t \<le> t' \<Longrightarrow> t' < T \<Longrightarrow> spare K limit T t' l \<le> spare K limit T t l"
  by (auto simp: spare_def split: option.split)

lemma spare_narrows: "narrows t l l' \<Longrightarrow> spare K limit T t l' = spare K limit T t l"
  using narrowsD(5) [of t l l' K] by (auto simp: spare_def split: option.split)

lemma spare_put_other: "key \<noteq> K \<Longrightarrow> spare K limit T t (put_window key w l) = spare K limit T t l"
  by (simp add: spare_def put_window_facts)

lemma spare_hit:
  assumes wf: "lim_wf l" and t: "t < T" "T \<le> t + W" and lim: "1 \<le> limit" and h: "hit maxKeys key W t l = (l', h)"
  shows "lim_wf l' \<and> spare K limit T t l' + (if key = K \<and> \<not> over_limit h limit then 1 else 0) \<le> spare K limit T t l"
proof -
  have wf': "lim_wf l'" using hit_wf [OF wf] h by (metis fst_conv)
  from wf h have "spare K limit T t l' + (if key = K \<and> \<not> over_limit h limit then 1 else 0) \<le> spare K limit T t l"
  proof (cases rule: hit_cases)
    case (counted l\<^sub>0 w)
    show ?thesis
    proof (cases "key = K")
      case True
      with counted t show ?thesis by (auto simp: spare_def put_window_facts(2) over_limit_def)
    next
      case False
      with counted(5) spare_narrows [OF counted(6), of K limit T] show ?thesis by (simp add: spare_put_other)
    qed
  next
    case (opened l\<^sub>0)
    show ?thesis
    proof (cases "key = K")
      case True
      have "spare K limit T t l = limit" using opened(1) True by (auto simp: spare_def split: option.split)
      with True opened(2,3) t lim show ?thesis by (auto simp: spare_def put_window_facts(2))
    next
      case False
      with opened(3) spare_narrows [OF opened(4), of K limit T] show ?thesis by (simp add: spare_put_other)
    qed
  next
    case full
    with spare_narrows [OF full(3), of K limit T] show ?thesis by (simp add: over_limit_def)
  qed
  with wf' show ?thesis by simp
qed

lemma spare_release:
  assumes wf: "lim_wf l" and lim: "0 \<le> limit"
  shows "lim_wf (lim_release key t l) \<and> spare K limit T t (lim_release key t l) \<le> spare K limit T t l + (if key = K then 1 else 0)"
proof -
  note r = release_cases [OF wf]
  have "spare K limit T t (lim_release K t l) \<le> spare K limit T t l + 1"
  proof (cases "\<exists>w. win_of l K = Some w \<and> t < win_resetAt w")
    case True
    then obtain w where w: "win_of l K = Some w" "t < win_resetAt w" by blast
    with r(4) [OF w] show ?thesis by (auto simp: spare_def)
  next
    case False
    then have "win_of (lim_release K t l) K = None" by (intro r(5)) force
    moreover have "spare K limit T t l = limit" using False by (fastforce simp: spare_def split: option.split)
    ultimately show ?thesis by (simp add: spare_def)
  qed
  moreover have "key \<noteq> K \<Longrightarrow> spare K limit T t (lim_release key t l) = spare K limit T t l"
    using r(3) by (simp add: spare_def)
  ultimately show ?thesis using r(1) by auto
qed

definition login_spare :: "string \<Rightarrow> int \<Rightarrow> int \<Rightarrow> login_limits \<Rightarrow> int \<times> int" where
  "login_spare ip T t s = (spare ip 5 T t (loginsByIp s), spare ''owner'' 10 T t (ownerFailures s))"

lemma login_begin_spare:
  assumes wf: "lim_wf (loginsByIp s)" "lim_wf (ownerFailures s)" and t: "t < T" "T \<le> t + LOGIN_WINDOW_MS"
    and b: "login_begin maxKeys password clientIp t s = (s', r)"
  shows "lim_wf (loginsByIp s') \<and> lim_wf (ownerFailures s')
    \<and> fst (login_spare ip T t s') + (if clientIp = ip \<and> r = Verifying then 1 else 0) \<le> fst (login_spare ip T t s)
    \<and> snd (login_spare ip T t s') + (if r = Verifying then 1 else 0) \<le> snd (login_spare ip T t s)"
proof (cases "is_valid (PASSWORD_INPUT (JStr password)) \<and> is_valid (IDENTITY_INPUT (JStr clientIp))")
  case False
  with wf b show ?thesis by (auto simp: login_begin_def split: if_splits)
next
  case valid: True
  obtain byIp h where h: "hit maxKeys clientIp LOGIN_WINDOW_MS t (loginsByIp s) = (byIp, h)" by fastforce
  obtain own h' where h': "hit maxKeys ''owner'' LOGIN_WINDOW_MS t (ownerFailures s) = (own, h')" by fastforce
  have "(1 :: int) \<le> 5" "(1 :: int) \<le> 10" by simp_all
  note a = spare_hit [OF wf(1) t this(1) h, of ip] and o = spare_hit [OF wf(2) t this(2) h', of "''owner''"]
  show ?thesis
  proof (cases "over_limit h (int LOGIN_ATTEMPTS_PER_IP)")
    case True
    with b h a wf(2) valid show ?thesis by (auto simp: login_begin_def login_spare_def Let_def limit_constants)
  next
    case False
    show ?thesis
    proof (cases "over_limit h' (int OWNER_FAILURES_PER_WINDOW)")
      case True
      with b h h' False a o valid show ?thesis
        by (auto simp: login_begin_def login_spare_def Let_def limit_constants split: if_splits)
    next
      case within: False
      with b h h' False valid have s': "s' = \<lparr>loginsByIp = byIp, ownerFailures = own\<rparr>"
        by (cases s) (auto simp: login_begin_def Let_def)
      with a o False within show ?thesis by (auto simp: login_spare_def limit_constants split: if_splits)
    qed
  qed
qed

lemma login_end_spare:
  assumes wf: "lim_wf (loginsByIp s)" "lim_wf (ownerFailures s)"
  shows "lim_wf (loginsByIp (login_end clientIp matches t s)) \<and> lim_wf (ownerFailures (login_end clientIp matches t s))
    \<and> fst (login_spare ip T t (login_end clientIp matches t s)) \<le> fst (login_spare ip T t s) + (if clientIp = ip \<and> matches then 1 else 0)
    \<and> snd (login_spare ip T t (login_end clientIp matches t s)) \<le> snd (login_spare ip T t s) + (if matches then 1 else 0)"
  using wf spare_release [OF wf(1), of 5 clientIp t ip T] spare_release [OF wf(2), of 10 "''owner''" t "''owner''" T]
  by (auto simp: login_end_def login_spare_def)

lemma login_step_spare:
  assumes wf: "lim_wf (loginsByIp s)" "lim_wf (ownerFailures s)" and t: "event_time e < T" "T \<le> event_time e + LOGIN_WINDOW_MS"
    and step: "login_step maxKeys s e = (s', r)"
  shows "(lim_wf (loginsByIp s') \<and> lim_wf (ownerFailures s'))
    \<and> unreturned (\<lambda>a. a = ip) [e] [r] + fst (login_spare ip T (event_time e) s') \<le> fst (login_spare ip T (event_time e) s)
    \<and> unreturned (\<lambda>a. True) [e] [r] + snd (login_spare ip T (event_time e) s') \<le> snd (login_spare ip T (event_time e) s)"
proof (cases e)
  case (LoginBegin password clientIp t)
  obtain s1 v where b: "login_begin maxKeys password clientIp t s = (s1, v)" by fastforce
  with step LoginBegin have "s' = s1" "r = Some v" by auto
  with login_begin_spare [OF wf _ _ b, of T ip] assms(3,4) LoginBegin show ?thesis by (auto split: if_splits)
next
  case (LoginEnd clientIp matches t)
  with step have "s' = login_end clientIp matches t s" by simp
  with login_end_spare [OF wf, of clientIp matches t ip T] LoginEnd show ?thesis by (auto split: if_splits)
qed

lemma login_run_spare:
  assumes "lim_wf (loginsByIp s)" "lim_wf (ownerFailures s)" and "sorted (t # map event_time es)"
    and "\<forall>e \<in> set es. event_time e < T \<and> T \<le> event_time e + LOGIN_WINDOW_MS"
  shows "unreturned (\<lambda>a. a = ip) es (snd (exec (login_step maxKeys) s es)) \<le> fst (login_spare ip T t s)
    \<and> unreturned (\<lambda>a. True) es (snd (exec (login_step maxKeys) s es)) \<le> snd (login_spare ip T t s)"
  using assms
proof (induction es arbitrary: t s)
  case Nil
  then show ?case using spare_bound [of 5] spare_bound [of 10] by (simp add: login_spare_def)
next
  case (Cons e es)
  let ?u = "event_time e"
  obtain s' r where step: "login_step maxKeys s e = (s', r)" by fastforce
  have u: "t \<le> ?u" "?u < T" "T \<le> ?u + LOGIN_WINDOW_MS" "sorted (?u # map event_time es)" using Cons.prems(3,4) by simp_all
  have later: "fst (login_spare ip T ?u s) \<le> fst (login_spare ip T t s)" "snd (login_spare ip T ?u s) \<le> snd (login_spare ip T t s)"
    using spare_later [OF _ u(1,2)] by (simp_all add: login_spare_def)
  have wf: "lim_wf (loginsByIp s') \<and> lim_wf (ownerFailures s')"
    and pay: "unreturned (\<lambda>a. a = ip) [e] [r] + fst (login_spare ip T ?u s') \<le> fst (login_spare ip T ?u s)"
      "unreturned (\<lambda>a. True) [e] [r] + snd (login_spare ip T ?u s') \<le> snd (login_spare ip T ?u s)"
    using login_step_spare [OF Cons.prems(1,2) u(2,3) step, of ip] by blast+
  have "\<forall>x \<in> set es. event_time x < T \<and> T \<le> event_time x + LOGIN_WINDOW_MS" using Cons.prems(4) by simp
  note ih = Cons.IH [OF conjunct1 [OF wf] conjunct2 [OF wf] u(4) this]
  have split: "unreturned P (e # es) (r # rs) = unreturned P [e] [r] + unreturned P es rs" for P rs by (cases e) simp_all
  have "snd (exec (login_step maxKeys) s (e # es)) = r # snd (exec (login_step maxKeys) s' es)" using step by (simp split: prod.split)
  then have all: "unreturned P (e # es) (snd (exec (login_step maxKeys) s (e # es)))
      = unreturned P [e] [r] + unreturned P es (snd (exec (login_step maxKeys) s' es))" for P by (simp only: split)
  show ?case unfolding all using ih [THEN conjunct1] ih [THEN conjunct2] pay later by linarith
qed

text \<open>C21. Guessing is bounded: in every run of logins over a quarter of an hour, however starts and verdicts of different
  logins interleave, the password checks begun, less those reported right, are at most ten from one client address and at
  most twenty in all, whatever windows are open when it begins and while the clock does not go back: the windows are fixed,
  and a quarter of an hour can meet two of them. They are at most five and ten when it begins with no live window for
  the address or the owner, whatever the clock does within it. A login begun before gives a guess back when it is reported
  right.\<close>
theorem login_guesses_bounded:
  assumes "lim_wf (loginsByIp s)" and "lim_wf (ownerFailures s)"
    and "\<forall>e \<in> set es. t\<^sub>0 \<le> event_time e \<and> event_time e < t\<^sub>0 + LOGIN_WINDOW_MS"
    and "byIp = unreturned (\<lambda>a. a = ip) es (snd (exec (login_step maxKeys) s es))"
    and "inAll = unreturned (\<lambda>a. True) es (snd (exec (login_step maxKeys) s es))"
  shows "(sorted (map event_time es) \<longrightarrow> byIp \<le> 10 \<and> inAll \<le> 20)
    \<and> ((\<forall>w. win_of (loginsByIp s) ip = Some w \<longrightarrow> win_resetAt w \<le> t\<^sub>0) \<and>
       (\<forall>w. win_of (ownerFailures s) ''owner'' = Some w \<longrightarrow> win_resetAt w \<le> t\<^sub>0) \<longrightarrow> byIp \<le> 5 \<and> inAll \<le> 10)"
proof (intro conjI [OF impI impI])
  assume "sorted (map event_time es)"
  then have "sorted (t\<^sub>0 # map event_time es)" using assms(3) by simp
  moreover have "\<forall>e \<in> set es. event_time e < t\<^sub>0 + LOGIN_WINDOW_MS \<and> t\<^sub>0 + LOGIN_WINDOW_MS \<le> event_time e + LOGIN_WINDOW_MS"
    using assms(3) by simp
  ultimately have "byIp \<le> fst (login_spare ip (t\<^sub>0 + LOGIN_WINDOW_MS) t\<^sub>0 s) \<and> inAll \<le> snd (login_spare ip (t\<^sub>0 + LOGIN_WINDOW_MS) t\<^sub>0 s)"
    unfolding assms(4,5) by (rule login_run_spare [OF assms(1,2)])
  with spare_bound [of 5 ip "t\<^sub>0 + LOGIN_WINDOW_MS" t\<^sub>0 "loginsByIp s"] spare_bound [of 10 "''owner''" "t\<^sub>0 + LOGIN_WINDOW_MS" t\<^sub>0 "ownerFailures s"]
  show "byIp \<le> 10 \<and> inAll \<le> 20" by (simp add: login_spare_def)
next
  assume "(\<forall>w. win_of (loginsByIp s) ip = Some w \<longrightarrow> win_resetAt w \<le> t\<^sub>0) \<and>
       (\<forall>w. win_of (ownerFailures s) ''owner'' = Some w \<longrightarrow> win_resetAt w \<le> t\<^sub>0)"
  then have "login_account ip t\<^sub>0 (t\<^sub>0 + LOGIN_WINDOW_MS) 0 0 s"
    using assms(1,2) by (auto simp: login_account_def limit_constants intro!: track_start)
  from login_run_account [OF this, of es maxKeys] assms(3) show "byIp \<le> 5 \<and> inAll \<le> 10" unfolding assms(4,5) by auto
qed

lemma login_guesses_bounded_witness:
  "unreturned (\<lambda>a. a = ''a'') [LoginBegin ''pw'' ''a'' 5, LoginEnd ''a'' False 6]
     (snd (exec (login_step 10) \<lparr>loginsByIp = new_limiter, ownerFailures = new_limiter\<rparr>
       [LoginBegin ''pw'' ''a'' 5, LoginEnd ''a'' False 6])) \<le> 5"
  using login_guesses_bounded [of "\<lparr>loginsByIp = new_limiter, ownerFailures = new_limiter\<rparr>"
      "[LoginBegin ''pw'' ''a'' 5, LoginEnd ''a'' False 6]" 0 _ "''a''" 10, OF _ _ _ refl refl]
  by (simp add: new_limiter_def limit_constants)

end
