(* ===== verification/Sessions.thy ===== *)
theory Sessions
  imports Rate_Limits
begin

text \<open>
  Sessions and approval proofs, the cryptographic half of
  \<^verbatim>\<open>services/ultrathink/auth/auth.ts\<close>: the key ring, the session cookie and the
  signed approval proofs. HMAC-SHA256 and SHA-256 in the encodings the source asks for are the
  fields of \<open>digests\<close>. A property that needs their output format states it as
  \<open>digest_format\<close>; none assumes that they have no collisions: where a forged value would
  need one, the collision is part of the conclusion.
\<close>

record digests =
  hmac_hex :: "string \<Rightarrow> string \<Rightarrow> string"
  hmac_url :: "string \<Rightarrow> string \<Rightarrow> string"
  sha_hex :: "string \<Rightarrow> string"

record auth_options =
  ao_ownerPasswordHash :: string
  ao_sessionSecret :: string
  ao_previousSessionSecrets :: "js list"
  ao_cookieSecure :: bool

record auth =
  au_ring :: "(string, string) jmap"
  au_signingKid :: string
  au_sessionSecret :: string
  au_passwordBinding :: string
  au_cookieName :: string
  au_cookieSecure :: bool

definition SESSION_LIFETIME_MS :: int where "SESSION_LIFETIME_MS = 43200000"
definition MIN_SECRET_LENGTH :: nat where "MIN_SECRET_LENGTH = 32"
definition MAX_COOKIE_HEADER_CHARS :: nat where "MAX_COOKIE_HEADER_CHARS = 8192"
definition MAX_SESSION_VALUE_CHARS :: nat where "MAX_SESSION_VALUE_CHARS = 256"
definition MAX_SIGNATURE_CHARS :: nat where "MAX_SIGNATURE_CHARS = 128"

definition KEY_ID :: "string \<Rightarrow> bool" where
  "KEY_ID s = class_run is_hex_lower 8 8 s"

definition APPROVAL_TOKEN :: "string \<Rightarrow> bool" where
  "APPROVAL_TOKEN s = class_run is_urlsafe 43 43 s"

definition SESSION_PATTERN :: "string \<Rightarrow> bool" where
  "SESSION_PATTERN s = (case split_on (CHR ''.'') s of
      [kid, expires, mac] \<Rightarrow> KEY_ID kid \<and> class_run is_digit 1 16 expires \<and> mac \<noteq> [] \<and> list_all is_urlsafe mac
    | _ \<Rightarrow> False)"

definition SESSION_VALUE :: validator where
  "SESSION_VALUE = StringValidator (no_string_options
     \<lparr>so_maxLength := Some MAX_SESSION_VALUE_CHARS, so_pattern := Some SESSION_PATTERN\<rparr>)"

subsection \<open>The key ring\<close>

definition keyIdOf :: "digests \<Rightarrow> string \<Rightarrow> string" where
  "keyIdOf D secret = take 8 (hmac_hex D secret ''ut-kid'')"

definition sessionCookieName :: "bool \<Rightarrow> string" where
  "sessionCookieName cookieSecure = (if cookieSecure then ''__Host-ut_session'' else ''ut_session'')"

fun ring_add :: "digests \<Rightarrow> (string, string) jmap \<Rightarrow> js list \<Rightarrow> js_error + (string, string) jmap" where
  "ring_add D secrets [] = Inr secrets"
| "ring_add D secrets (JStr secret # rest) =
     (if length secret < MIN_SECRET_LENGTH
      then Inl (PlainError ''previous session secrets must be at least 32 characters'')
      else let kid = keyIdOf D secret in
        case jm_get secrets kid of
          None \<Rightarrow> ring_add D (jm_set kid secret secrets) rest
        | Some existing \<Rightarrow>
            if existing \<noteq> secret then Inl (PlainError (''session secret key id collision on '' @ kid))
            else ring_add D secrets rest)"
| "ring_add D secrets (_ # rest) = Inl (PlainError ''previous session secrets must be at least 32 characters'')"

definition buildKeyRing :: "digests \<Rightarrow> string \<Rightarrow> js list \<Rightarrow> js_error + (string, string) jmap" where
  "buildKeyRing D current previous = ring_add D [(keyIdOf D current, current)] previous"

definition createAuth :: "digests \<Rightarrow> auth_options \<Rightarrow> js_error + auth" where
  "createAuth D opt = (case buildKeyRing D (ao_sessionSecret opt) (ao_previousSessionSecrets opt) of
      Inl e \<Rightarrow> Inl e
    | Inr ring \<Rightarrow> Inr \<lparr>au_ring = ring, au_signingKid = keyIdOf D (ao_sessionSecret opt),
        au_sessionSecret = ao_sessionSecret opt, au_passwordBinding = sha_hex D (ao_ownerPasswordHash opt),
        au_cookieName = sessionCookieName (ao_cookieSecure opt), au_cookieSecure = ao_cookieSecure opt\<rparr>)"

definition ringSecret :: "auth \<Rightarrow> string \<Rightarrow> string option" where
  "ringSecret a kid = (if \<not> KEY_ID kid then None else jm_get (au_ring a) kid)"

subsection \<open>Session cookies\<close>

definition session_message :: "string \<Rightarrow> int \<Rightarrow> string" where
  "session_message binding expiresAt = ''ut-session|'' @ show_int expiresAt @ ''|'' @ binding"

definition sessionMac :: "digests \<Rightarrow> auth \<Rightarrow> string \<Rightarrow> int \<Rightarrow> string" where
  "sessionMac D a secret expiresAt = hmac_url D secret (session_message (au_passwordBinding a) expiresAt)"

definition cookieHeader :: "auth \<Rightarrow> string \<Rightarrow> int \<Rightarrow> string" where
  "cookieHeader a value maxAgeSec = js_join ''; ''
     ([au_cookieName a @ ''='' @ value, ''Path=/'', ''HttpOnly'', ''SameSite=Strict'', ''Max-Age='' @ show_int maxAgeSec]
      @ (if au_cookieSecure a then [''Secure''] else []))"

text \<open>The value a successful login issues at time \<open>t\<close>, and its \<^verbatim>\<open>Set-Cookie\<close> header.\<close>

definition session_value :: "digests \<Rightarrow> auth \<Rightarrow> int \<Rightarrow> string" where
  "session_value D a t = js_join ''.'' [au_signingKid a, show_int (t + SESSION_LIFETIME_MS),
     sessionMac D a (au_sessionSecret a) (t + SESSION_LIFETIME_MS)]"

definition login_cookie :: "digests \<Rightarrow> auth \<Rightarrow> int \<Rightarrow> string" where
  "login_cookie D a t = cookieHeader a (session_value D a t) (SESSION_LIFETIME_MS div 1000)"

text \<open>
  \<^verbatim>\<open>passwordMatches\<close>: \<open>verify\<close> is \<^verbatim>\<open>Bun.password.verify\<close>,
  with \<open>None\<close> where it throws; a hash of another format never matches.
\<close>

definition HASH_FORMAT :: "string \<Rightarrow> bool" where
  "HASH_FORMAT h = list_ex (\<lambda>p. take (length p) h = p)
     [''$argon2id$'', ''$argon2i$'', ''$argon2d$'', ''$2$'', ''$2a$'', ''$2b$'', ''$2x$'', ''$2y$'']"

definition passwordMatches :: "(string \<Rightarrow> string \<Rightarrow> bool option) \<Rightarrow> string \<Rightarrow> string \<Rightarrow> bool" where
  "passwordMatches verify ownerPasswordHash password =
     (if \<not> HASH_FORMAT ownerPasswordHash then False else verify password ownerPasswordHash = Some True)"

text \<open>
  The second half of \<^verbatim>\<open>login\<close>, after the reservations: \<open>t\<close> is the clock when
  the verdict arrives.
\<close>

definition login_finish :: "digests \<Rightarrow> auth \<Rightarrow> string \<Rightarrow> bool \<Rightarrow> int \<Rightarrow> login_limits \<Rightarrow> login_limits \<times> string option" where
  "login_finish D a clientIp matches t s =
     (login_end clientIp matches t s, if matches then Some (login_cookie D a t) else None)"

definition logoutCookie :: "auth \<Rightarrow> string" where
  "logoutCookie a = cookieHeader a [] 0"

fun find_cookie :: "string \<Rightarrow> string list \<Rightarrow> string option" where
  "find_cookie name [] = None"
| "find_cookie name (part # parts) = (case index_of (CHR ''='') part of
      None \<Rightarrow> find_cookie name parts
    | Some eq \<Rightarrow> if js_trim (take eq part) = name then Some (js_trim (drop (eq + 1) part))
                 else find_cookie name parts)"

definition readCookie :: "auth \<Rightarrow> string option \<Rightarrow> string option" where
  "readCookie a header = (case header of
      None \<Rightarrow> None
    | Some h \<Rightarrow> if h = [] then None
        else if length h > MAX_COOKIE_HEADER_CHARS then None
        else find_cookie (au_cookieName a) (split_on (CHR '';'') h))"

text \<open>Whether the request is the owner's: \<^verbatim>\<open>sessionFor\<close> answers the owner or null.\<close>

definition sessionFor :: "digests \<Rightarrow> auth \<Rightarrow> int \<Rightarrow> string option \<Rightarrow> bool" where
  "sessionFor D a t header = (case readCookie a header of
      None \<Rightarrow> False
    | Some value \<Rightarrow>
        if value = [] then False
        else if \<not> is_valid (SESSION_VALUE (JStr value)) then False
        else (case split_on (CHR ''.'') value of
          [kid, expiresRaw, mac] \<Rightarrow> (case ringSecret a kid of
              None \<Rightarrow> False
            | Some secret \<Rightarrow>
                let expiresAt = int (dec_value expiresRaw) in
                if expiresAt > MAX_SAFE_INTEGER \<or> expiresAt \<le> t then False
                else mac = sessionMac D a secret expiresAt)
        | _ \<Rightarrow> False))"

subsection \<open>Approval proofs\<close>

record approval_proof =
  ap_subject :: string
  ap_nonce :: string
  ap_issuedAt :: js_num
  ap_expiresAt :: js_num
  ap_refreshedAt :: js_num

definition approval_time :: "js_num \<Rightarrow> int option" where
  "approval_time n = (case safe_integer n of
      Some i \<Rightarrow> if 0 \<le> i \<and> i \<le> 9999999999999999 then Some i else None | None \<Rightarrow> None)"

definition approval_message :: "string \<Rightarrow> string \<Rightarrow> int \<Rightarrow> int \<Rightarrow> int \<Rightarrow> string" where
  "approval_message subject nonce i e r =
     js_join ''|'' [''ut-approval'', subject, nonce, show_int i, show_int e, show_int r]"

definition approvalMac :: "digests \<Rightarrow> string \<Rightarrow> approval_proof \<Rightarrow> string option" where
  "approvalMac D secret p =
     (case (approval_time (ap_issuedAt p), approval_time (ap_expiresAt p), approval_time (ap_refreshedAt p)) of
        (Some i, Some e, Some r) \<Rightarrow>
          if \<not> APPROVAL_TOKEN (ap_subject p) \<or> \<not> APPROVAL_TOKEN (ap_nonce p) then None
          else if e < i \<or> r < i then None
          else Some (hmac_url D secret (approval_message (ap_subject p) (ap_nonce p) i e r))
      | _ \<Rightarrow> None)"

definition signApproval :: "digests \<Rightarrow> auth \<Rightarrow> approval_proof \<Rightarrow> js_error + string" where
  "signApproval D a p = (case approvalMac D (au_sessionSecret a) p of
      None \<Rightarrow> Inl (PlainError ''invalid approval proof'')
    | Some mac \<Rightarrow> Inr (au_signingKid a @ ''.'' @ mac))"

definition verifyApproval :: "digests \<Rightarrow> auth \<Rightarrow> approval_proof \<Rightarrow> js \<Rightarrow> bool" where
  "verifyApproval D a p signature = (case signature of
      JStr s \<Rightarrow>
        if length s = 0 \<or> length s > MAX_SIGNATURE_CHARS then False
        else
          let dot = index_of (CHR ''.'') s;
              kid = (case dot of None \<Rightarrow> [] | Some n \<Rightarrow> take n s);
              rest = (case dot of None \<Rightarrow> s | Some n \<Rightarrow> drop (n + 1) s)
          in if \<not> KEY_ID kid then False
             else (case ringSecret a kid of
                 None \<Rightarrow> False
               | Some secret \<Rightarrow> (case approvalMac D secret p of None \<Rightarrow> False | Some expected \<Rightarrow> rest = expected))
    | _ \<Rightarrow> False)"

subsection \<open>What the ring holds\<close>

declare map_of_eq_Some_iff [simp del] Some_eq_map_of_iff [simp del]

text \<open>The documented shape of a hex and of a base64url digest of 32 bytes.\<close>

definition digest_format :: "digests \<Rightarrow> bool" where
  "digest_format D \<longleftrightarrow> (\<forall>k m. class_run is_hex_lower 64 64 (hmac_hex D k m) \<and> class_run is_urlsafe 43 43 (hmac_url D k m))"

definition secrets_of :: "auth_options \<Rightarrow> string set" where
  "secrets_of opt = insert (ao_sessionSecret opt) {s. JStr s \<in> set (ao_previousSessionSecrets opt)}"

text \<open>Every entry sits under its own key id, so a secret has at most one place.\<close>

definition ring_ok :: "digests \<Rightarrow> (string, string) jmap \<Rightarrow> bool" where
  "ring_ok D ring \<longleftrightarrow> jm_wf ring \<and> jm_all (\<lambda>kid s. kid = keyIdOf D s) ring"

lemma ring_add_cases:
  assumes "ring_add D secrets (x # rest) = Inr ring"
  obtains (added) s where "x = JStr s" "MIN_SECRET_LENGTH \<le> length s" "jm_get secrets (keyIdOf D s) = None"
      "ring_add D (jm_set (keyIdOf D s) s secrets) rest = Inr ring"
  | (present) s where "x = JStr s" "jm_get secrets (keyIdOf D s) = Some s" "ring_add D secrets rest = Inr ring"
  using assms by (cases x) (auto simp: Let_def split: if_splits option.splits)

lemma ring_add_facts:
  assumes "ring_add D secrets xs = Inr ring" "ring_ok D secrets"
  shows "ring_ok D ring
    \<and> (\<forall>kid s. jm_get ring kid = Some s \<longleftrightarrow> jm_get secrets kid = Some s \<or> JStr s \<in> set xs \<and> kid = keyIdOf D s)"
  using assms
proof (induction xs arbitrary: secrets)
  case Nil
  then show ?case by simp
next
  case (Cons x xs)
  from Cons.prems(1) show ?case
  proof (cases rule: ring_add_cases)
    case (added s)
    have ok: "ring_ok D (jm_set (keyIdOf D s) s secrets)"
      using Cons.prems(2) by (auto simp: ring_ok_def distinct_update)
    have get: "jm_get (jm_set (keyIdOf D s) s secrets) = (jm_get secrets)(keyIdOf D s \<mapsto> s)"
      by (rule update_conv')
    from Cons.IH [OF added(4) ok] added(1,3) show ?thesis
      unfolding get by (auto split: if_splits)
  next
    case (present s)
    from Cons.IH [OF present(3) Cons.prems(2)] present(1,2) show ?thesis by auto
  qed
qed

lemma ring_lookup:
  assumes "createAuth D opt = Inr a"
  shows "jm_get (au_ring a) kid = Some s \<longleftrightarrow> s \<in> secrets_of opt \<and> kid = keyIdOf D s"
    and "au_signingKid a = keyIdOf D (ao_sessionSecret opt)" and "au_sessionSecret a = ao_sessionSecret opt"
    and "au_passwordBinding a = sha_hex D (ao_ownerPasswordHash opt)"
    and "au_cookieName a = sessionCookieName (ao_cookieSecure opt)"
proof -
  let ?first = "[(keyIdOf D (ao_sessionSecret opt), ao_sessionSecret opt)]"
  obtain ring where ring: "ring_add D ?first (ao_previousSessionSecrets opt) = Inr ring"
    and a: "a = \<lparr>au_ring = ring, au_signingKid = keyIdOf D (ao_sessionSecret opt),
        au_sessionSecret = ao_sessionSecret opt, au_passwordBinding = sha_hex D (ao_ownerPasswordHash opt),
        au_cookieName = sessionCookieName (ao_cookieSecure opt), au_cookieSecure = ao_cookieSecure opt\<rparr>"
    using assms by (auto simp: createAuth_def buildKeyRing_def split: sum.splits)
  have "ring_ok D ?first" by (simp add: ring_ok_def jm_all_def)
  from ring_add_facts [OF ring this]
  show "jm_get (au_ring a) kid = Some s \<longleftrightarrow> s \<in> secrets_of opt \<and> kid = keyIdOf D s"
    by (auto simp: a secrets_of_def)
  show "au_signingKid a = keyIdOf D (ao_sessionSecret opt)" "au_sessionSecret a = ao_sessionSecret opt"
    "au_passwordBinding a = sha_hex D (ao_ownerPasswordHash opt)"
    "au_cookieName a = sessionCookieName (ao_cookieSecure opt)" by (simp_all add: a)
qed

lemma digest_shapes:
  assumes "digest_format D"
  shows "KEY_ID (keyIdOf D s)" and "hmac_url D k m \<noteq> []" and "list_all is_urlsafe (hmac_url D k m)"
    and "length (hmac_url D k m) = 43"
proof -
  have hex: "class_run is_hex_lower 64 64 (hmac_hex D s ''ut-kid'')" and url: "class_run is_urlsafe 43 43 (hmac_url D k m)"
    using assms unfolding digest_format_def by blast+
  show "KEY_ID (keyIdOf D s)"
    using hex by (auto simp: KEY_ID_def keyIdOf_def class_run_def list_all_iff dest: in_set_takeD)
  show "hmac_url D k m \<noteq> []" "list_all is_urlsafe (hmac_url D k m)" "length (hmac_url D k m) = 43"
    using url by (auto simp: class_run_def)
qed

lemma url_char_facts: "is_urlsafe c \<Longrightarrow> \<not> is_ws c \<and> c \<noteq> CHR ''.'' \<and> c \<noteq> CHR '';'' \<and> c \<noteq> CHR ''='' \<and> c \<noteq> CHR ''|''"
  by (auto simp: char_classes is_ws_def)

lemma digit_urlsafe: "is_digit c \<Longrightarrow> is_urlsafe c"
  by (simp add: is_digit_def char_classes)

lemma hex_urlsafe: "is_hex_lower c \<Longrightarrow> is_urlsafe c"
  by (auto simp: char_classes)

lemma show_int_facts:
  assumes "0 \<le> i"
  shows "show_int i = dec (nat i)" and "list_all is_urlsafe (show_int i)" and "show_int i \<noteq> []"
  using assms dec_digits [of "nat i"] digit_urlsafe dec_nonempty
  by (auto simp: show_int_def list_all_iff)

lemma urlsafe_free:
  "list_all is_urlsafe s \<Longrightarrow> c \<in> {CHR ''.'', CHR '';'', CHR ''='', CHR ''|''} \<Longrightarrow> c \<notin> set s"
  using url_char_facts by (auto simp: list_all_iff)

subsection \<open>Reading a cookie back\<close>

lemma find_cookie_skip:
  "\<forall>p \<in> set pre. find_cookie name [p] = None \<Longrightarrow> find_cookie name (pre @ ps) = find_cookie name ps"
  by (induction pre) (auto split: option.splits if_splits)

lemma js_trim_space: "js_trim ('' '' @ s) = js_trim s"
  by (simp add: js_trim_def is_ws_def)

lemma cookie_name_chars:
  "list_all (\<lambda>c. \<not> is_ws c \<and> c \<noteq> CHR '';'' \<and> c \<noteq> CHR ''='') (sessionCookieName secure)"
  by (cases secure) (simp_all add: sessionCookieName_def is_ws_def)

lemma find_cookie_here:
  assumes name: "list_all (\<lambda>c. \<not> is_ws c \<and> c \<noteq> CHR '';'' \<and> c \<noteq> CHR ''='') name"
    and sp: "sp = [] \<or> sp = '' ''" and v: "\<forall>c \<in> set v. \<not> is_ws c"
  shows "find_cookie name ((sp @ name @ ''='' @ v) # post) = Some v"
proof -
  have "CHR ''='' \<notin> set name" using name unfolding list_all_iff by blast
  then have "CHR ''='' \<notin> set (sp @ name)" using sp by (elim disjE) simp_all
  from index_of_append [OF this, of v]
  have pos: "index_of (CHR ''='') (sp @ name @ ''='' @ v) = Some (length (sp @ name))" by simp
  have id: "js_trim name = name" "js_trim v = v"
    using name v by (simp_all add: list_all_iff js_trim_id)
  have "js_trim (take (length (sp @ name)) (sp @ name @ ''='' @ v)) = name"
    using sp id(1) js_trim_space [of name] by (elim disjE) simp_all
  with pos id(2) show ?thesis by simp
qed

lemma readCookie_finds:
  assumes header: "header = js_join '';'' (pre @ (sp @ au_cookieName a @ ''='' @ v) # post)"
    and parts: "\<forall>p \<in> set (pre @ post). CHR '';'' \<notin> set p" "\<forall>p \<in> set pre. find_cookie (au_cookieName a) [p] = None"
    and sp: "sp = [] \<or> sp = '' ''" and v: "\<forall>c \<in> set v. \<not> is_ws c \<and> c \<noteq> CHR '';''"
    and name: "au_cookieName a = sessionCookieName secure"
    and len: "length header \<le> MAX_COOKIE_HEADER_CHARS"
  shows "readCookie a (Some header) = Some v"
proof -
  let ?part = "sp @ au_cookieName a @ ''='' @ v"
  have nm: "list_all (\<lambda>c. \<not> is_ws c \<and> c \<noteq> CHR '';'' \<and> c \<noteq> CHR ''='') (au_cookieName a)"
    unfolding name by (rule cookie_name_chars)
  have "CHR '';'' \<notin> set (au_cookieName a)" "CHR '';'' \<notin> set v"
    using nm v unfolding list_all_iff by blast+
  then have semi: "CHR '';'' \<notin> set ?part" using sp by (elim disjE) simp_all
  have split: "split_on (CHR '';'') header = pre @ ?part # post"
    unfolding header by (rule split_on_join) (use parts(1) semi in simp_all)
  have "find_cookie (au_cookieName a) (?part # post) = Some v"
    by (rule find_cookie_here [OF nm sp]) (use v in simp)
  with find_cookie_skip [OF parts(2), of "?part # post"]
  have "find_cookie (au_cookieName a) (split_on (CHR '';'') header) = Some v" unfolding split by simp
  moreover have "header \<noteq> []" using split by (cases header; cases pre) auto
  ultimately show ?thesis using len by (simp add: readCookie_def)
qed

lemma session_value_split:
  assumes D: "digest_format D" and t: "0 \<le> t + SESSION_LIFETIME_MS" and kid: "au_signingKid a = keyIdOf D s"
  shows "split_on (CHR ''.'') (session_value D a t) =
      [au_signingKid a, show_int (t + SESSION_LIFETIME_MS), sessionMac D a (au_sessionSecret a) (t + SESSION_LIFETIME_MS)]"
    and "list_all (\<lambda>c. is_urlsafe c \<or> c = CHR ''.'') (session_value D a t)"
proof -
  have parts: "list_all is_urlsafe (au_signingKid a)" "list_all is_urlsafe (show_int (t + SESSION_LIFETIME_MS))"
    "list_all is_urlsafe (sessionMac D a (au_sessionSecret a) (t + SESSION_LIFETIME_MS))"
    using digest_shapes [OF D] show_int_facts(2) [OF t] hex_urlsafe kid
    by (auto simp: KEY_ID_def class_run_def sessionMac_def list_all_iff)
  then show "split_on (CHR ''.'') (session_value D a t) =
      [au_signingKid a, show_int (t + SESSION_LIFETIME_MS), sessionMac D a (au_sessionSecret a) (t + SESSION_LIFETIME_MS)]"
    unfolding session_value_def by (intro split_on_join) (auto dest: urlsafe_free)
  show "list_all (\<lambda>c. is_urlsafe c \<or> c = CHR ''.'') (session_value D a t)"
    using parts by (auto simp: session_value_def list_all_iff)
qed

lemma session_shape_ok:
  assumes D: "digest_format D" and t: "0 \<le> t + SESSION_LIFETIME_MS" "t + SESSION_LIFETIME_MS \<le> MAX_SAFE_INTEGER"
    and kid: "au_signingKid a = keyIdOf D s"
  shows "is_valid (SESSION_VALUE (JStr (session_value D a t)))"
proof -
  let ?e = "show_int (t + SESSION_LIFETIME_MS)"
  have e: "class_run is_digit 1 16 ?e"
    using show_int_facts(1) [OF t(1)] dec_digits dec_nonempty [of "nat (t + SESSION_LIFETIME_MS)"] t
      length_dec [of "nat (t + SESSION_LIFETIME_MS)" 16]
    by (auto simp: class_run_def list_all_iff MAX_SAFE_INTEGER_def Suc_le_eq)
  have mac: "sessionMac D a (au_sessionSecret a) (t + SESSION_LIFETIME_MS) \<noteq> []"
    "list_all is_urlsafe (sessionMac D a (au_sessionSecret a) (t + SESSION_LIFETIME_MS))"
    "length (sessionMac D a (au_sessionSecret a) (t + SESSION_LIFETIME_MS)) = 43"
    using digest_shapes [OF D] by (simp_all add: sessionMac_def)
  have pat: "SESSION_PATTERN (session_value D a t)"
    using session_value_split(1) [OF D t(1) kid] digest_shapes(1) [OF D] kid e mac
    by (simp add: SESSION_PATTERN_def)
  have "length (session_value D a t) \<le> 256" "session_value D a t \<noteq> []"
    using mac(3) e digest_shapes(1) [OF D, of s] kid by (auto simp: session_value_def class_run_def KEY_ID_def)
  with pat show ?thesis
    by (simp add: SESSION_VALUE_def StringValidator_def no_string_options_def MAX_SESSION_VALUE_CHARS_def
        is_valid_def success_def)
qed

lemma session_value_checked:
  assumes D: "digest_format D"
    and a: "createAuth D old = Inr a" and b: "createAuth D new = Inr b"
    and ring: "ao_sessionSecret old \<in> secrets_of new" and same: "ao_ownerPasswordHash new = ao_ownerPasswordHash old"
    and t: "0 \<le> t" "t + SESSION_LIFETIME_MS \<le> MAX_SAFE_INTEGER"
    and read: "readCookie b (Some header) = Some (session_value D a t)"
  shows "sessionFor D b t' (Some header) \<longleftrightarrow> t' < t + SESSION_LIFETIME_MS"
proof -
  note la = ring_lookup [OF a]
  note lb = ring_lookup [OF b]
  have t0: "0 \<le> t + SESSION_LIFETIME_MS" using t(1) by (simp add: SESSION_LIFETIME_MS_def)
  note split = session_value_split(1) [OF D t0 la(2)]
  have sec: "ringSecret b (au_signingKid a) = Some (ao_sessionSecret old)"
    using lb(1) [of "au_signingKid a" "ao_sessionSecret old"] ring la(2) digest_shapes(1) [OF D]
    by (simp add: ringSecret_def)
  have mac: "sessionMac D b s e = sessionMac D a s e" for s e
    using la(4) lb(4) same by (simp add: sessionMac_def)
  have val: "dec_value (show_int (t + SESSION_LIFETIME_MS)) = nat (t + SESSION_LIFETIME_MS)"
    using show_int_facts(1) [OF t0] dec_value_dec by simp
  have "session_value D a t \<noteq> []" using split by (cases "session_value D a t") auto
  then show ?thesis
    using session_shape_ok [OF D t0 t(2) la(2)] t0 t(2) la(3)
    by (simp add: sessionFor_def read split sec mac val Let_def not_le)
qed

lemma session_value_read:
  assumes D: "digest_format D" and a: "createAuth D old = Inr a" and t: "0 \<le> t"
    and header: "header = js_join '';'' (pre @ (sp @ au_cookieName a @ ''='' @ session_value D a t) # post)"
    and others: "\<forall>p \<in> set (pre @ post). CHR '';'' \<notin> set p"
      "\<forall>p \<in> set pre. find_cookie (au_cookieName a) [p] = None" "sp = [] \<or> sp = '' ''"
    and len: "length header \<le> MAX_COOKIE_HEADER_CHARS"
    and name: "au_cookieName b = au_cookieName a"
  shows "readCookie b (Some header) = Some (session_value D a t)"
proof -
  note la = ring_lookup [OF a]
  have t0: "0 \<le> t + SESSION_LIFETIME_MS" using t(1) by (simp add: SESSION_LIFETIME_MS_def)
  have chars: "\<forall>c \<in> set (session_value D a t). \<not> is_ws c \<and> c \<noteq> CHR '';''"
    using session_value_split(2) [OF D t0 la(2)] url_char_facts by (fastforce simp: list_all_iff is_ws_def)
  show ?thesis
    by (rule readCookie_finds [OF header [folded name] others(1) others(2) [folded name] others(3) chars _ len])
      (simp add: name la(5))
qed

text \<open>C22. Sessions survive a rotation and end on time: a cookie issued at \<open>t\<close> is accepted by
  every later configuration with the same password hash and cookie mode whose ring still holds the
  secret that signed it, whatever other cookies come with it (none of its name before
  it, and the header within its length limit), exactly until twelve hours after \<open>t\<close>.\<close>
theorem session_honoured_until_expiry:
  assumes D: "digest_format D"
    and a: "createAuth D old = Inr a" and b: "createAuth D new = Inr b"
    and ring: "ao_sessionSecret old \<in> secrets_of new"
    and same: "ao_ownerPasswordHash new = ao_ownerPasswordHash old" "ao_cookieSecure new = ao_cookieSecure old"
    and t: "0 \<le> t" "t + SESSION_LIFETIME_MS \<le> MAX_SAFE_INTEGER"
    and header: "header = js_join '';'' (pre @ (sp @ au_cookieName a @ ''='' @ session_value D a t) # post)"
    and others: "\<forall>p \<in> set (pre @ post). CHR '';'' \<notin> set p"
      "\<forall>p \<in> set pre. find_cookie (au_cookieName a) [p] = None" "sp = [] \<or> sp = '' ''"
    and len: "length header \<le> MAX_COOKIE_HEADER_CHARS"
  shows "sessionFor D b t' (Some header) \<longleftrightarrow> t' < t + 12 * 60 * 60 * 1000"
proof -
  have "au_cookieName b = au_cookieName a" using ring_lookup(5) [OF a] ring_lookup(5) [OF b] same(2) by simp
  from session_value_checked [OF D a b ring same(1) t session_value_read [OF D a t(1) header others len this]]
  show ?thesis by (simp add: SESSION_LIFETIME_MS_def)
qed

text \<open>Digests of the documented shape, for the witnesses: the length of the message, in both encodings.\<close>

definition sample_digits :: "nat \<Rightarrow> string \<Rightarrow> string" where
  "sample_digits n m = replicate (n - 1) (CHR ''0'') @ [digit (length m mod 10)]"

definition sample_digests :: digests where
  "sample_digests = \<lparr>hmac_hex = (\<lambda>k m. sample_digits 64 (k @ m)), hmac_url = (\<lambda>k m. sample_digits 43 (k @ m)),
     sha_hex = (\<lambda>m. sample_digits 64 m)\<rparr>"

lemma sample_digest_format: "digest_format sample_digests"
proof -
  have "is_hex_lower (digit (n mod 10))" for n
    using digit_facts [of "n mod 10"] by (simp add: is_digit_def char_classes)
  then show ?thesis
    using hex_urlsafe by (auto simp: digest_format_def sample_digests_def sample_digits_def class_run_def
        list_all_iff char_classes)
qed

definition sample_options :: auth_options where
  "sample_options = \<lparr>ao_ownerPasswordHash = ''h'', ao_sessionSecret = replicate 32 (CHR ''s''),
     ao_previousSessionSecrets = [], ao_cookieSecure = True\<rparr>"

definition sample_auth :: auth where
  "sample_auth = \<lparr>au_ring = [(keyIdOf sample_digests (ao_sessionSecret sample_options), ao_sessionSecret sample_options)],
     au_signingKid = keyIdOf sample_digests (ao_sessionSecret sample_options),
     au_sessionSecret = ao_sessionSecret sample_options, au_passwordBinding = sha_hex sample_digests ''h'',
     au_cookieName = sessionCookieName True, au_cookieSecure = True\<rparr>"

lemma sample_auth_created: "createAuth sample_digests sample_options = Inr sample_auth"
  by (simp add: createAuth_def buildKeyRing_def sample_auth_def sample_options_def)

lemma sample_header_length: "length (js_join '';'' ([] @ ([] @ au_cookieName sample_auth @ ''='' @ session_value sample_digests sample_auth 0) # []))
    \<le> MAX_COOKIE_HEADER_CHARS"
  by (simp add: SESSION_LIFETIME_MS_def MAX_COOKIE_HEADER_CHARS_def session_value_def sample_auth_def
      sample_digests_def sample_digits_def sessionMac_def keyIdOf_def sessionCookieName_def show_int_def dec.simps)

lemma session_honoured_until_expiry_witness:
  "sessionFor sample_digests sample_auth 5
     (Some (js_join '';'' ([] @ ([] @ au_cookieName sample_auth @ ''='' @ session_value sample_digests sample_auth 0) # [])))"
proof -
  have "ao_sessionSecret sample_options \<in> secrets_of sample_options" by (simp add: secrets_of_def)
  from session_honoured_until_expiry [OF sample_digest_format sample_auth_created sample_auth_created this refl refl, of 0, OF _ _ refl,
      of "[]" "[]" "[]" 5]
  show ?thesis using sample_header_length
    by (simp add: SESSION_LIFETIME_MS_def MAX_SAFE_INTEGER_def)
qed

subsection \<open>What an accepted cookie proves\<close>

lemma accepted_cookie:
  assumes "sessionFor D a t (Some h)"
  obtains v kid digits secret where "readCookie a (Some h) = Some v"
    "split_on (CHR ''.'') v = [kid, digits, sessionMac D a secret (int (dec_value digits))]"
    "jm_get (au_ring a) kid = Some secret" "t < int (dec_value digits)"
proof -
  obtain v where v: "readCookie a (Some h) = Some v" and valid: "is_valid (SESSION_VALUE (JStr v))"
    using assms by (auto simp: sessionFor_def split: option.splits if_splits)
  then have "SESSION_PATTERN v"
    by (auto simp: SESSION_VALUE_def StringValidator_def no_string_options_def is_valid_def failure_def
        split: if_splits)
  then obtain kid digits mac where sp: "split_on (CHR ''.'') v = [kid, digits, mac]"
    by (auto simp: SESSION_PATTERN_def split: list.splits)
  from assms v sp obtain secret where "ringSecret a kid = Some secret" "t < int (dec_value digits)"
    "mac = sessionMac D a secret (int (dec_value digits))"
    by (auto simp: sessionFor_def Let_def not_le split: option.splits if_splits)
  then show thesis using that [OF v, of kid digits secret] sp by (simp add: ringSecret_def split: if_splits)
qed

lemma sample_session_accepted:
  "sessionFor sample_digests sample_auth 5
     (Some (js_join '';'' ([] @ ([] @ au_cookieName sample_auth @ ''='' @ session_value sample_digests sample_auth 0) # [])))"
proof -
  have ring: "ao_sessionSecret sample_options \<in> secrets_of sample_options" by (simp add: secrets_of_def)
  have "readCookie sample_auth (Some (js_join '';'' ([] @ ([] @ au_cookieName sample_auth @ ''='' @ session_value sample_digests sample_auth 0) # [])))
      = Some (session_value sample_digests sample_auth 0)"
    by (rule session_value_read [OF sample_digest_format sample_auth_created _ refl _ _ _ sample_header_length refl]) simp_all
  from session_value_checked [OF sample_digest_format sample_auth_created sample_auth_created ring refl _ _ this, of 5]
  show ?thesis by (simp add: SESSION_LIFETIME_MS_def MAX_SAFE_INTEGER_def)
qed

text \<open>C23. Nobody without a ring secret gets a session: an accepted cookie names the key id of a
  configured secret and carries that secret's MAC over an expiry that is still to come and over the
  hash of the configured owner password.\<close>
theorem session_acceptance_sound:
  assumes a: "createAuth D opt = Inr a" and acc: "sessionFor D a t (Some h)"
  shows "\<exists>secret \<in> secrets_of opt. \<exists>digits. t < int (dec_value digits) \<and>
    readCookie a (Some h) = Some (js_join ''.'' [keyIdOf D secret, digits,
      hmac_url D secret (session_message (sha_hex D (ao_ownerPasswordHash opt)) (int (dec_value digits)))])"
proof -
  from accepted_cookie [OF acc] obtain v kid digits secret where read: "readCookie a (Some h) = Some v"
    and v: "split_on (CHR ''.'') v = [kid, digits, sessionMac D a secret (int (dec_value digits))]"
    and ring: "jm_get (au_ring a) kid = Some secret" and t: "t < int (dec_value digits)" by metis
  from ring ring_lookup(1) [OF a] have s: "secret \<in> secrets_of opt" "kid = keyIdOf D secret" by simp_all
  have "v = js_join ''.'' [kid, digits, sessionMac D a secret (int (dec_value digits))]"
    using js_join_split [of "CHR ''.''" v] unfolding v by (rule sym)
  then show ?thesis
    by (intro bexI [OF _ s(1)] exI [of _ digits] conjI t) (simp only: read s(2) sessionMac_def ring_lookup(4) [OF a])
qed

lemma session_acceptance_sound_witness:
  "\<exists>secret \<in> secrets_of sample_options. \<exists>digits. 5 < int (dec_value digits) \<and>
    readCookie sample_auth (Some (js_join '';'' ([] @ ([] @ au_cookieName sample_auth @ ''='' @ session_value sample_digests sample_auth 0) # [])))
      = Some (js_join ''.'' [keyIdOf sample_digests secret, digits, hmac_url sample_digests secret
         (session_message (sha_hex sample_digests (ao_ownerPasswordHash sample_options)) (int (dec_value digits)))])"
  by (rule session_acceptance_sound [OF sample_auth_created sample_session_accepted])

text \<open>A new password ends every session without a rotation: when two configurations share the
  ring but not the password hash, a cookie both accept exhibits two different messages, naming the two
  password hashes, with the same MAC under one ring secret (or the hashes collide).\<close>
theorem password_change_ends_sessions:
  assumes a: "createAuth D old = Inr a" and b: "createAuth D new = Inr b"
    and same: "secrets_of new = secrets_of old" "ao_cookieSecure new = ao_cookieSecure old"
    and acc: "sessionFor D a t (Some h)" "sessionFor D b t' (Some h)"
  shows "sha_hex D (ao_ownerPasswordHash old) = sha_hex D (ao_ownerPasswordHash new) \<or>
    (\<exists>secret \<in> secrets_of old. \<exists>e.
       session_message (sha_hex D (ao_ownerPasswordHash old)) e \<noteq> session_message (sha_hex D (ao_ownerPasswordHash new)) e \<and>
       hmac_url D secret (session_message (sha_hex D (ao_ownerPasswordHash old)) e) =
       hmac_url D secret (session_message (sha_hex D (ao_ownerPasswordHash new)) e))"
proof -
  note la = ring_lookup [OF a]
  note lb = ring_lookup [OF b]
  from accepted_cookie [OF acc(1)] obtain v k d s where ra: "readCookie a (Some h) = Some v"
    and va: "split_on (CHR ''.'') v = [k, d, sessionMac D a s (int (dec_value d))]"
    and sa: "jm_get (au_ring a) k = Some s" by metis
  from accepted_cookie [OF acc(2)] obtain v' k' d' s' where rb: "readCookie b (Some h) = Some v'"
    and vb: "split_on (CHR ''.'') v' = [k', d', sessionMac D b s' (int (dec_value d'))]"
    and sb: "jm_get (au_ring b) k' = Some s'" by metis
  have "readCookie b (Some h) = readCookie a (Some h)"
    using la(5) lb(5) same(2) by (simp add: readCookie_def)
  with ra rb va vb
  have eq: "k' = k" "d' = d" "sessionMac D b s' (int (dec_value d)) = sessionMac D a s (int (dec_value d))" by auto
  from sa sb la(1) lb(1) same(1) eq(1) have "s' = s" "s \<in> secrets_of old" by (metis option.inject)+
  have "hmac_url D s (session_message (sha_hex D (ao_ownerPasswordHash old)) (int (dec_value d))) =
      hmac_url D s (session_message (sha_hex D (ao_ownerPasswordHash new)) (int (dec_value d)))"
    using eq(3) la(4) lb(4) \<open>s' = s\<close> unfolding sessionMac_def by metis
  moreover have "session_message x e = session_message y e \<longleftrightarrow> x = y" for x y e
    by (simp add: session_message_def)
  ultimately show ?thesis using \<open>s \<in> secrets_of old\<close> by metis
qed

lemma sample_rehashed:
  "createAuth sample_digests (sample_options\<lparr>ao_ownerPasswordHash := ''x''\<rparr>) = Inr sample_auth"
  by (simp add: createAuth_def buildKeyRing_def sample_auth_def sample_options_def sample_digests_def sample_digits_def)

lemma password_change_ends_sessions_witness:
  "sha_hex sample_digests ''h'' = sha_hex sample_digests ''x'' \<or>
    (\<exists>secret \<in> secrets_of sample_options. \<exists>e.
       session_message (sha_hex sample_digests ''h'') e \<noteq> session_message (sha_hex sample_digests ''x'') e \<and>
       hmac_url sample_digests secret (session_message (sha_hex sample_digests ''h'') e) =
       hmac_url sample_digests secret (session_message (sha_hex sample_digests ''x'') e))"
proof -
  have "secrets_of (sample_options\<lparr>ao_ownerPasswordHash := ''x''\<rparr>) = secrets_of sample_options"
    by (simp add: secrets_of_def)
  from password_change_ends_sessions [OF sample_auth_created sample_rehashed this _ sample_session_accepted sample_session_accepted]
  show ?thesis by (simp add: sample_options_def)
qed

subsection \<open>Approval proofs\<close>

lemma approvalMac_cases:
  assumes "approvalMac D secret p = Some m"
  obtains i e r where "ap_issuedAt p = Fin (of_int i)" "ap_expiresAt p = Fin (of_int e)" "ap_refreshedAt p = Fin (of_int r)"
    "0 \<le> i" "i \<le> e" "i \<le> r" "APPROVAL_TOKEN (ap_subject p)" "APPROVAL_TOKEN (ap_nonce p)"
    "m = hmac_url D secret (approval_message (ap_subject p) (ap_nonce p) i e r)"
proof -
  obtain i e r where t: "approval_time (ap_issuedAt p) = Some i" "approval_time (ap_expiresAt p) = Some e"
      "approval_time (ap_refreshedAt p) = Some r"
    using assms by (auto simp: approvalMac_def split: option.splits)
  have time: "n = Fin (of_int k) \<and> 0 \<le> k" if "approval_time n = Some k" for n k
    using that by (auto simp: approval_time_def split: option.splits if_splits dest: safe_integer_Some)
  from assms t show thesis
    using that [of i e r] time [OF t(1)] time [OF t(2)] time [OF t(3)]
    by (auto simp: approvalMac_def split: if_splits)
qed

lemma approval_message_split:
  assumes "APPROVAL_TOKEN u" "APPROVAL_TOKEN n" "0 \<le> i" "0 \<le> e" "0 \<le> r"
  shows "split_on (CHR ''|'') (approval_message u n i e r) = [''ut-approval'', u, n, show_int i, show_int e, show_int r]"
proof -
  have free: "list_all is_urlsafe x \<Longrightarrow> CHR ''|'' \<notin> set x" for x by (rule urlsafe_free) simp_all
  have "CHR ''|'' \<notin> set u" "CHR ''|'' \<notin> set n" using assms(1,2) free by (simp_all add: APPROVAL_TOKEN_def class_run_def)
  with free [OF show_int_facts(2)] assms(3-5) show ?thesis
    unfolding approval_message_def by (intro split_on_join) simp_all
qed

lemma show_int_inj: "0 \<le> i \<Longrightarrow> 0 \<le> j \<Longrightarrow> show_int i = show_int j \<Longrightarrow> i = j"
  using dec_inj [of "nat i" "nat j"] by (simp add: show_int_facts(1))

lemma approval_message_inj:
  assumes "approvalMac D s p = Some m" "approvalMac D s q = Some m'"
  obtains x y where "m = hmac_url D s x" "m' = hmac_url D s y" "x = y \<longrightarrow> p = q"
proof -
  from assms(1) obtain i e r where p: "ap_issuedAt p = Fin (of_int i)" "ap_expiresAt p = Fin (of_int e)"
      "ap_refreshedAt p = Fin (of_int r)" "0 \<le> i" "i \<le> e" "i \<le> r" "APPROVAL_TOKEN (ap_subject p)" "APPROVAL_TOKEN (ap_nonce p)"
    "m = hmac_url D s (approval_message (ap_subject p) (ap_nonce p) i e r)" by (rule approvalMac_cases)
  from assms(2) obtain i' e' r' where q: "ap_issuedAt q = Fin (of_int i')" "ap_expiresAt q = Fin (of_int e')"
      "ap_refreshedAt q = Fin (of_int r')" "0 \<le> i'" "i' \<le> e'" "i' \<le> r'" "APPROVAL_TOKEN (ap_subject q)" "APPROVAL_TOKEN (ap_nonce q)"
    "m' = hmac_url D s (approval_message (ap_subject q) (ap_nonce q) i' e' r')" by (rule approvalMac_cases)
  have "p = q" if "approval_message (ap_subject p) (ap_nonce p) i e r = approval_message (ap_subject q) (ap_nonce q) i' e' r'"
  proof -
    from that approval_message_split [OF p(7,8), of i e r] approval_message_split [OF q(7,8), of i' e' r'] p(4-6) q(4-6)
    have "ap_subject p = ap_subject q" "ap_nonce p = ap_nonce q" "show_int i = show_int i'" "show_int e = show_int e'"
      "show_int r = show_int r'" by simp_all
    with p(1-6) q(1-6) show ?thesis
      using show_int_inj [of i i'] show_int_inj [of e e'] show_int_inj [of r r'] by (cases p; cases q) simp
  qed
  with that p(9) q(9) show thesis by metis
qed

lemma verifyApproval_iff:
  assumes "createAuth D opt = Inr a" "CHR ''.'' \<notin> set kid" "length (kid @ ''.'' @ mac) \<le> MAX_SIGNATURE_CHARS" "KEY_ID kid"
  shows "verifyApproval D a p (JStr (kid @ ''.'' @ mac)) \<longleftrightarrow>
    (\<exists>s \<in> secrets_of opt. kid = keyIdOf D s \<and> approvalMac D s p = Some mac)"
proof -
  have "index_of (CHR ''.'') (kid @ ''.'' @ mac) = Some (length kid)"
    using index_of_append [OF assms(2), of mac] by simp
  with assms(3,4) have "verifyApproval D a p (JStr (kid @ ''.'' @ mac)) \<longleftrightarrow>
      (\<exists>s. jm_get (au_ring a) kid = Some s \<and> approvalMac D s p = Some mac)"
    by (auto simp: verifyApproval_def ringSecret_def Let_def split: option.splits)
  with ring_lookup(1) [OF assms(1)] show ?thesis by auto
qed

text \<open>A signed approval verifies, and goes on verifying after a rotation as long as the secret that
  signed it stays in the ring.\<close>
theorem approval_survives_rotation:
  assumes D: "digest_format D" and a: "createAuth D old = Inr a" and b: "createAuth D new = Inr b"
    and ring: "ao_sessionSecret old \<in> secrets_of new" and sig: "signApproval D a p = Inr sig"
  shows "verifyApproval D b p (JStr sig)"
proof -
  note la = ring_lookup [OF a]
  obtain mac where mac: "approvalMac D (ao_sessionSecret old) p = Some mac" "sig = keyIdOf D (ao_sessionSecret old) @ ''.'' @ mac"
    using sig la(2,3) by (auto simp: signApproval_def split: option.splits)
  note kid = digest_shapes(1) [OF D, of "ao_sessionSecret old"]
  have "length mac = 43" using mac(1) digest_shapes(4) [OF D] by (auto elim: approvalMac_cases)
  then have "length sig \<le> MAX_SIGNATURE_CHARS" using kid by (simp add: mac(2) KEY_ID_def class_run_def MAX_SIGNATURE_CHARS_def)
  moreover have "CHR ''.'' \<notin> set (keyIdOf D (ao_sessionSecret old))"
    by (rule urlsafe_free [OF list.pred_mono_strong [of is_hex_lower]])
      (use kid hex_urlsafe in \<open>simp_all add: KEY_ID_def class_run_def\<close>)
  ultimately show ?thesis using verifyApproval_iff [OF b _ _ kid] ring mac by auto
qed

definition sample_proof :: approval_proof where
  "sample_proof = \<lparr>ap_subject = replicate 43 (CHR ''s''), ap_nonce = replicate 43 (CHR ''n''),
     ap_issuedAt = Fin 1, ap_expiresAt = Fin 2, ap_refreshedAt = Fin 3\<rparr>"

lemma sample_signed:
  "\<exists>mac. approvalMac sample_digests (au_sessionSecret sample_auth) sample_proof = Some mac"
  using safe_integer_int [of 1] safe_integer_int [of 2] safe_integer_int [of 3]
  by (simp add: approvalMac_def sample_proof_def approval_time_def MAX_SAFE_INTEGER_def APPROVAL_TOKEN_def class_run_def
      char_classes list_all_iff)

lemma approval_survives_rotation_witness:
  "\<exists>sig. signApproval sample_digests sample_auth sample_proof = Inr sig \<and> verifyApproval sample_digests sample_auth sample_proof (JStr sig)"
proof -
  obtain mac where "approvalMac sample_digests (au_sessionSecret sample_auth) sample_proof = Some mac"
    using sample_signed by blast
  then have sig: "signApproval sample_digests sample_auth sample_proof = Inr (au_signingKid sample_auth @ ''.'' @ mac)"
    by (simp add: signApproval_def)
  have "ao_sessionSecret sample_options \<in> secrets_of sample_options" by (simp add: secrets_of_def)
  from approval_survives_rotation [OF sample_digest_format sample_auth_created sample_auth_created this sig] sig show ?thesis by blast
qed

text \<open>A signature binds every field of what it approves: if one signature verifies for two
  different proofs, a ring secret gives the same MAC to two different messages.\<close>
theorem approval_binds_proof:
  assumes a: "createAuth D opt = Inr a" and p: "verifyApproval D a p (JStr sig)" and q: "verifyApproval D a q (JStr sig)"
    and "p \<noteq> q"
  shows "\<exists>secret \<in> secrets_of opt. \<exists>x y. x \<noteq> y \<and> hmac_url D secret x = hmac_url D secret y \<and>
    approvalMac D secret p = Some (hmac_url D secret x) \<and> approvalMac D secret q = Some (hmac_url D secret y)"
proof -
  obtain s where s: "s \<in> secrets_of opt" "approvalMac D s p = approvalMac D s q" "approvalMac D s p \<noteq> None"
    using p q ring_lookup(1) [OF a]
    by (auto simp: verifyApproval_def ringSecret_def Let_def split: if_splits option.splits)
  then obtain m where m: "approvalMac D s p = Some m" "approvalMac D s q = Some m" by auto
  from approval_message_inj [OF m] obtain x y where "m = hmac_url D s x" "m = hmac_url D s y" "x = y \<longrightarrow> p = q" .
  with s(1) m \<open>p \<noteq> q\<close> show ?thesis by metis
qed

definition sample_proof' :: approval_proof where
  "sample_proof' = sample_proof\<lparr>ap_subject := replicate 43 (CHR ''t'')\<rparr>"

lemma sample_signed_both:
  "\<exists>sig. verifyApproval sample_digests sample_auth sample_proof (JStr sig)
     \<and> verifyApproval sample_digests sample_auth sample_proof' (JStr sig)"
proof -
  obtain mac where mac: "approvalMac sample_digests (au_sessionSecret sample_auth) sample_proof = Some mac"
    using sample_signed by blast
  have same: "approvalMac sample_digests (au_sessionSecret sample_auth) sample_proof'
      = approvalMac sample_digests (au_sessionSecret sample_auth) sample_proof"
    using safe_integer_int [of 1] safe_integer_int [of 2] safe_integer_int [of 3]
    by (simp add: sample_proof'_def approvalMac_def sample_proof_def approval_time_def MAX_SAFE_INTEGER_def
        APPROVAL_TOKEN_def class_run_def char_classes list_all_iff sample_digests_def sample_digits_def approval_message_def)
  let ?k = "keyIdOf sample_digests (ao_sessionSecret sample_options)"
  note kid = digest_shapes(1) [OF sample_digest_format, of "ao_sessionSecret sample_options"]
  have "length mac = 43" using mac digest_shapes(4) [OF sample_digest_format] by (auto elim: approvalMac_cases)
  then have "length (?k @ ''.'' @ mac) \<le> MAX_SIGNATURE_CHARS" using kid by (simp add: KEY_ID_def class_run_def MAX_SIGNATURE_CHARS_def)
  moreover have "CHR ''.'' \<notin> set ?k"
    by (rule urlsafe_free [OF list.pred_mono_strong [of is_hex_lower]])
      (use kid hex_urlsafe in \<open>simp_all add: KEY_ID_def class_run_def\<close>)
  moreover have "ao_sessionSecret sample_options \<in> secrets_of sample_options"
    "au_sessionSecret sample_auth = ao_sessionSecret sample_options" by (simp_all add: secrets_of_def sample_auth_def)
  ultimately show ?thesis
    using verifyApproval_iff [OF sample_auth_created _ _ kid, of mac] mac same by (intro exI [of _ "?k @ ''.'' @ mac"]) auto
qed

lemma approval_binds_proof_witness:
  "\<exists>secret \<in> secrets_of sample_options. \<exists>x y. x \<noteq> y \<and> hmac_url sample_digests secret x = hmac_url sample_digests secret y
     \<and> approvalMac sample_digests secret sample_proof = Some (hmac_url sample_digests secret x)
     \<and> approvalMac sample_digests secret sample_proof' = Some (hmac_url sample_digests secret y)"
proof -
  obtain sig where sig: "verifyApproval sample_digests sample_auth sample_proof (JStr sig)"
    "verifyApproval sample_digests sample_auth sample_proof' (JStr sig)" using sample_signed_both by blast
  have "sample_proof \<noteq> sample_proof'" by (simp add: sample_proof'_def sample_proof_def)
  from approval_binds_proof [OF sample_auth_created sig this] show ?thesis .
qed

end
