(* ===== verification/Fair_Share.thy ===== *)
theory Fair_Share
  imports Js_Map "HOL-Library.Multiset"
begin

text \<open>
  Weighted admission, \<^verbatim>\<open>services/ultrathink/obs/fair-share.ts\<close>. The closure variables of
  \<^verbatim>\<open>createFairShare\<close> are the record \<open>pool\<close>. A \<^verbatim>\<open>release\<close>
  closure is a handle, the index of its record in \<open>fs_handles\<close>; a \<^verbatim>\<open>Waiter\<close> is
  named by its arrival number, and its abort listener and its timer are the events \<open>Abort\<close> and
  \<open>Expire\<close> of that number. Promise resolutions and security reports go to the log, in
  order; the code behind a resolved promise runs later, as further events.
\<close>

datatype adm_class = Owner | Connector | Bearer

record admission =
  ad_principal :: string
  ad_class :: adm_class

datatype refusal = CapacityR | ReservedR | PrincipalR

datatype report_cause = Budget | QueueFull | WaitExpired

record fs_opts =
  fo_capacity :: int
  fo_reserve :: int
  fo_perPrincipalMax :: int
  fo_depth :: nat
  fo_waitMs :: int

record handle =
  hd_admission :: admission
  hd_released :: bool

record waiter =
  wt_id :: nat
  wt_admission :: admission
  wt_blocked :: refusal

datatype settlement = GrantedTo nat | ExpiredFor refusal | AbortedWait

datatype fs_log = Settled waiter settlement | Reported adm_class refusal report_cause

record pool =
  fs_held :: int
  fs_byPrincipal :: "(string, int) jmap"
  fs_handles :: "handle list"
  fs_waiting :: "adm_class \<Rightarrow> waiter list"
  fs_arrivals :: nat
  fs_log :: "fs_log list"

definition CLASS_ORDER :: "adm_class list" where
  "CLASS_ORDER = [Owner, Connector, Bearer]"

subsection \<open>Construction\<close>

record fs_raw =
  fr_capacity :: js_num
  fr_reserve :: js_num
  fr_perPrincipalMax :: "js_num option"
  fr_queue :: "(js_num \<times> js_num) option"

definition new_pool :: pool where
  "new_pool = \<lparr>fs_held = 0, fs_byPrincipal = [], fs_handles = [], fs_waiting = (\<lambda>c. []), fs_arrivals = 0, fs_log = []\<rparr>"

definition createFairShare :: "fs_raw \<Rightarrow> js_error + (fs_opts \<times> pool)" where
  "createFairShare raw =
     (case safe_integer (fr_capacity raw) of
        None \<Rightarrow> Inl (RangeError ''capacity'')
      | Some capacity \<Rightarrow>
          if capacity \<le> 0 then Inl (RangeError ''capacity'')
          else (case safe_integer (fr_reserve raw) of
              None \<Rightarrow> Inl (RangeError ''reserve'')
            | Some reserve \<Rightarrow>
                if reserve < 0 \<or> reserve \<ge> capacity then Inl (RangeError ''reserve'')
                else (case (case fr_perPrincipalMax raw of None \<Rightarrow> Some capacity | Some n \<Rightarrow> safe_integer n) of
                    None \<Rightarrow> Inl (RangeError ''perPrincipalMax'')
                  | Some per \<Rightarrow>
                      if per < 1 \<or> per > capacity then Inl (RangeError ''perPrincipalMax'')
                      else (case fr_queue raw of
                          None \<Rightarrow> Inr (\<lparr>fo_capacity = capacity, fo_reserve = reserve, fo_perPrincipalMax = per,
                            fo_depth = 0, fo_waitMs = 0\<rparr>, new_pool)
                        | Some (depth, waitMs) \<Rightarrow> (case safe_integer depth of
                              None \<Rightarrow> Inl (RangeError ''queue.depth'')
                            | Some d \<Rightarrow>
                                if d < 0 then Inl (RangeError ''queue.depth'')
                                else (case safe_integer waitMs of
                                    None \<Rightarrow> Inl (RangeError ''queue.waitMs'')
                                  | Some w \<Rightarrow>
                                      if w < 1 then Inl (RangeError ''queue.waitMs'')
                                      else Inr (\<lparr>fo_capacity = capacity, fo_reserve = reserve, fo_perPrincipalMax = per,
                                        fo_depth = nat d, fo_waitMs = w\<rparr>, new_pool)))))))"

subsection \<open>Operations\<close>

definition held_by :: "pool \<Rightarrow> string \<Rightarrow> int" where
  "held_by s p = (case jm_get (fs_byPrincipal s) p of Some n \<Rightarrow> n | None \<Rightarrow> 0)"

definition blockedBy :: "fs_opts \<Rightarrow> pool \<Rightarrow> admission \<Rightarrow> refusal option" where
  "blockedBy opt s adm =
     (if fs_held s \<ge> fo_capacity opt then Some CapacityR
      else if ad_class adm \<noteq> Owner \<and> fs_held s \<ge> fo_capacity opt - fo_reserve opt then Some ReservedR
      else if ad_class adm \<noteq> Owner \<and> held_by s (ad_principal adm) \<ge> fo_perPrincipalMax opt then Some PrincipalR
      else None)"

definition take_slot :: "admission \<Rightarrow> pool \<Rightarrow> pool \<times> nat" where
  "take_slot adm s =
     (s\<lparr>fs_held := fs_held s + 1,
        fs_byPrincipal := jm_set (ad_principal adm) (held_by s (ad_principal adm) + 1) (fs_byPrincipal s),
        fs_handles := fs_handles s @ [\<lparr>hd_admission = adm, hd_released = False\<rparr>]\<rparr>,
      length (fs_handles s))"

definition log_event :: "fs_log \<Rightarrow> pool \<Rightarrow> pool" where
  "log_event e s = s\<lparr>fs_log := fs_log s @ [e]\<rparr>"

definition fits :: "fs_opts \<Rightarrow> pool \<Rightarrow> adm_class \<Rightarrow> bool" where
  "fits opt s c = (case fs_waiting s c of [] \<Rightarrow> False | w # _ \<Rightarrow> blockedBy opt s (wt_admission w) = None)"

text \<open>One round of the loop of \<^verbatim>\<open>admitWaiters\<close>: the first class whose head fits.\<close>

definition grant_head :: "adm_class \<Rightarrow> pool \<Rightarrow> pool" where
  "grant_head c s =
     (let w = hd (fs_waiting s c);
          s\<^sub>1 = s\<lparr>fs_waiting := (fs_waiting s)(c := tl (fs_waiting s c))\<rparr>;
          (s\<^sub>2, h) = take_slot (wt_admission w) s\<^sub>1
      in log_event (Settled w (GrantedTo h)) s\<^sub>2)"

definition queued :: "pool \<Rightarrow> nat" where
  "queued s = sum_list (map (\<lambda>c. length (fs_waiting s c)) CLASS_ORDER)"

definition next_class :: "fs_opts \<Rightarrow> pool \<Rightarrow> adm_class option" where
  "next_class opt s = List.find (fits opt s) CLASS_ORDER"

lemma grant_head_waiting:
  "fs_waiting (grant_head c s) = (fs_waiting s)(c := tl (fs_waiting s c))"
  by (simp add: grant_head_def take_slot_def log_event_def Let_def)

lemma next_class_Some: "next_class opt s = Some c \<Longrightarrow> fits opt s c"
  by (auto simp: next_class_def CLASS_ORDER_def split: if_splits)

lemma next_class_None: "next_class opt s = None \<Longrightarrow> \<not> fits opt s c"
  by (cases c) (auto simp: next_class_def CLASS_ORDER_def split: if_splits)

function admitWaiters :: "fs_opts \<Rightarrow> pool \<Rightarrow> pool" where
  "admitWaiters opt s = (case next_class opt s of None \<Rightarrow> s | Some c \<Rightarrow> admitWaiters opt (grant_head c s))"
  by pat_completeness auto
termination
proof (relation "measure (\<lambda>(opt, s). queued s)", simp)
  fix opt s c
  assume "next_class opt s = Some c"
  then have "fs_waiting s c \<noteq> []" using next_class_Some [of opt s c] by (auto simp: fits_def split: list.splits)
  then show "((opt, grant_head c s), opt, s) \<in> measure (\<lambda>(opt, s). queued s)"
    by (cases c) (auto simp: queued_def CLASS_ORDER_def grant_head_waiting)
qed

declare admitWaiters.simps [simp del]

text \<open>What a \<^verbatim>\<open>release\<close> does before it hands the slot on.\<close>

definition give_back :: "nat \<Rightarrow> pool \<Rightarrow> pool" where
  "give_back h s =
     (let p = ad_principal (hd_admission (fs_handles s ! h));
          remaining = (case jm_get (fs_byPrincipal s) p of Some n \<Rightarrow> n | None \<Rightarrow> 1) - 1
      in s\<lparr>fs_handles := (fs_handles s)[h := (fs_handles s ! h)\<lparr>hd_released := True\<rparr>],
           fs_held := fs_held s - 1,
           fs_byPrincipal := (if remaining > 0 then jm_set p remaining (fs_byPrincipal s)
                              else jm_delete p (fs_byPrincipal s))\<rparr>)"

definition fs_release :: "fs_opts \<Rightarrow> nat \<Rightarrow> pool \<Rightarrow> pool" where
  "fs_release opt h s =
     (if h < length (fs_handles s) \<and> \<not> hd_released (fs_handles s ! h)
      then admitWaiters opt (give_back h s) else s)"

datatype acquire_result = AcquiredSlot nat | AcquireRefused refusal

definition fs_acquire :: "fs_opts \<Rightarrow> admission \<Rightarrow> pool \<Rightarrow> pool \<times> acquire_result" where
  "fs_acquire opt adm s = (case blockedBy opt s adm of
      Some r \<Rightarrow> (log_event (Reported (ad_class adm) r Budget) s, AcquireRefused r)
    | None \<Rightarrow> (let (s', h) = take_slot adm s in (s', AcquiredSlot h)))"

datatype admit_result = AdmittedNow nat | RefusedFull refusal | AlreadyAborted | WaitsAs nat

definition fs_admit :: "fs_opts \<Rightarrow> admission \<Rightarrow> bool \<Rightarrow> pool \<Rightarrow> pool \<times> admit_result" where
  "fs_admit opt adm aborted s =
     (if aborted then (s, AlreadyAborted)
      else (case blockedBy opt s adm of
          None \<Rightarrow> (let (s', h) = take_slot adm s in (s', AdmittedNow h))
        | Some r \<Rightarrow>
            let line = fs_waiting s (ad_class adm) in
            if length line \<ge> fo_depth opt
            then (log_event (Reported (ad_class adm) r QueueFull) s, RefusedFull r)
            else
              let w = \<lparr>wt_id = fs_arrivals s, wt_admission = adm, wt_blocked = r\<rparr>
              in (s\<lparr>fs_waiting := (fs_waiting s)(ad_class adm := line @ [w]), fs_arrivals := fs_arrivals s + 1\<rparr>,
                  WaitsAs (fs_arrivals s))))"

text \<open>The waiter a number names, while it is in its queue.\<close>

definition find_waiter :: "nat \<Rightarrow> pool \<Rightarrow> waiter option" where
  "find_waiter i s = List.find (\<lambda>w. wt_id w = i) (concat (map (fs_waiting s) CLASS_ORDER))"

definition removeWaiter :: "waiter \<Rightarrow> pool \<Rightarrow> pool" where
  "removeWaiter w s = (let c = ad_class (wt_admission w) in
     s\<lparr>fs_waiting := (fs_waiting s)(c := remove1 w (fs_waiting s c))\<rparr>)"

definition onAbort :: "fs_opts \<Rightarrow> nat \<Rightarrow> pool \<Rightarrow> pool" where
  "onAbort opt i s = (case find_waiter i s of
      None \<Rightarrow> s
    | Some w \<Rightarrow> admitWaiters opt (log_event (Settled w AbortedWait) (removeWaiter w s)))"

definition onTimer :: "fs_opts \<Rightarrow> nat \<Rightarrow> pool \<Rightarrow> pool" where
  "onTimer opt i s = (case find_waiter i s of
      None \<Rightarrow> s
    | Some w \<Rightarrow> admitWaiters opt (log_event (Settled w (ExpiredFor (wt_blocked w)))
        (log_event (Reported (ad_class (wt_admission w)) (wt_blocked w) WaitExpired) (removeWaiter w s))))"

datatype fs_event = Acquire admission | Admit admission bool | ReleaseSlot nat | Abort nat | Expire nat

datatype fs_output = AcquireOut acquire_result | AdmitOut admit_result | NoOutput

fun fs_step :: "fs_opts \<Rightarrow> pool \<Rightarrow> fs_event \<Rightarrow> pool \<times> fs_output" where
  "fs_step opt s (Acquire adm) = (let (s', r) = fs_acquire opt adm s in (s', AcquireOut r))"
| "fs_step opt s (Admit adm aborted) = (let (s', r) = fs_admit opt adm aborted s in (s', AdmitOut r))"
| "fs_step opt s (ReleaseSlot h) = (fs_release opt h s, NoOutput)"
| "fs_step opt s (Abort i) = (onAbort opt i s, NoOutput)"
| "fs_step opt s (Expire i) = (onTimer opt i s, NoOutput)"

subsection \<open>The ledger: what is held\<close>

declare map_of_eq_Some_iff [simp del] Some_eq_map_of_iff [simp del]

definition live_count :: "pool \<Rightarrow> (admission \<Rightarrow> bool) \<Rightarrow> nat" where
  "live_count s P = length (filter (\<lambda>h. \<not> hd_released h \<and> P (hd_admission h)) (fs_handles s))"

definition others :: "admission \<Rightarrow> bool" where
  "others a \<longleftrightarrow> ad_class a \<noteq> Owner"

definition ledger :: "fs_opts \<Rightarrow> pool \<Rightarrow> bool" where
  "ledger opt s \<longleftrightarrow> jm_wf (fs_byPrincipal s)
     \<and> fs_held s = int (live_count s (\<lambda>a. True))
     \<and> (\<forall>p. held_by s p = int (live_count s (\<lambda>a. ad_principal a = p)))
     \<and> fs_held s \<le> fo_capacity opt
     \<and> int (live_count s others) \<le> fo_capacity opt - fo_reserve opt
     \<and> (\<forall>p. int (live_count s (\<lambda>a. others a \<and> ad_principal a = p)) \<le> fo_perPrincipalMax opt)"

lemma live_count_mono: "(\<And>a. P a \<Longrightarrow> Q a) \<Longrightarrow> live_count s P \<le> live_count s Q"
  unfolding live_count_def by (rule length_filter_mono) auto

lemma live_count_take:
  "live_count (fst (take_slot adm s)) P = live_count s P + (if P adm then 1 else 0)"
  by (simp add: live_count_def take_slot_def)

lemma held_by_take: "held_by (fst (take_slot adm s)) p = held_by s p + (if ad_principal adm = p then 1 else 0)"
  by (auto simp: held_by_def take_slot_def update_conv')

lemma take_ledger:
  assumes l: "ledger opt s" and fit: "blockedBy opt s adm = None"
  shows "ledger opt (fst (take_slot adm s))"
proof -
  have wf: "jm_wf (fs_byPrincipal (fst (take_slot adm s)))" and h: "fs_held (fst (take_slot adm s)) = fs_held s + 1"
    using l by (simp_all add: take_slot_def distinct_update ledger_def)
  have le: "int (live_count s others) \<le> fs_held s"
    "int (live_count s (\<lambda>a. others a \<and> ad_principal a = p)) \<le> held_by s p" for p
    using l live_count_mono [of others "\<lambda>a. True" s]
      live_count_mono [of "\<lambda>a. others a \<and> ad_principal a = p" "\<lambda>a. ad_principal a = p" s]
    by (auto simp: ledger_def)
  have per: "int (live_count s (\<lambda>a. others a \<and> ad_principal a = p)) + (if others adm \<and> ad_principal adm = p then 1 else 0)
      \<le> fo_perPrincipalMax opt" for p
  proof (cases "others adm \<and> ad_principal adm = p")
    case True
    with fit have "held_by s p < fo_perPrincipalMax opt" by (auto simp: blockedBy_def others_def split: if_splits)
    with le(2) [of p] True show ?thesis by simp
  next
    case False
    then show ?thesis using l by (auto simp: ledger_def)
  qed
  have "fs_held s < fo_capacity opt" "others adm \<Longrightarrow> fs_held s < fo_capacity opt - fo_reserve opt"
    using fit by (auto simp: blockedBy_def others_def split: if_splits)
  with l wf h le(1) per per [of "ad_principal adm"] show ?thesis
    unfolding ledger_def live_count_take held_by_take by auto
qed

lemma live_count_drop:
  assumes "h < length (fs_handles s)" "\<not> hd_released (fs_handles s ! h)"
  shows "live_count s P = live_count (give_back h s) P + (if P (hd_admission (fs_handles s ! h)) then 1 else 0)"
proof -
  let ?q = "\<lambda>h. \<not> hd_released h \<and> P (hd_admission h)"
  have hs: "fs_handles (give_back h s) = (fs_handles s)[h := (fs_handles s ! h)\<lparr>hd_released := True\<rparr>]"
    by (simp add: give_back_def Let_def)
  show ?thesis
    using assms length_filter_list_update [of h "fs_handles s" ?q "(fs_handles s ! h)\<lparr>hd_released := True\<rparr>"]
      length_filter_list_update_not [of h "fs_handles s" ?q "(fs_handles s ! h)\<lparr>hd_released := True\<rparr>"]
    by (simp add: live_count_def hs)
qed

lemma give_back_ledger:
  assumes l: "ledger opt s" and h: "h < length (fs_handles s)" "\<not> hd_released (fs_handles s ! h)"
  shows "ledger opt (give_back h s)"
proof -
  let ?p = "ad_principal (hd_admission (fs_handles s ! h))"
  note drop = live_count_drop [OF h]
  have pos: "held_by s ?p \<ge> 1" using l drop [of "\<lambda>a. ad_principal a = ?p"] by (simp add: ledger_def)
  then obtain n where n: "jm_get (fs_byPrincipal s) ?p = Some n" "held_by s ?p = n"
    by (auto simp: held_by_def split: option.splits)
  have by_p: "held_by (give_back h s) p = held_by s p - (if p = ?p then 1 else 0)" for p
    using n pos by (auto simp: give_back_def Let_def held_by_def update_conv' delete_conv' split: option.splits)
  have wf: "jm_wf (fs_byPrincipal (give_back h s))" and held: "fs_held (give_back h s) = fs_held s - 1"
    using l by (simp_all add: give_back_def Let_def ledger_def distinct_update distinct_delete)
  have le: "live_count (give_back h s) P \<le> live_count s P" for P using drop [of P] by simp
  show ?thesis
    unfolding ledger_def
  proof (intro conjI allI)
    show "fs_held (give_back h s) = int (live_count (give_back h s) (\<lambda>a. True))"
      using l drop [of "\<lambda>a. True"] by (simp add: held ledger_def)
    show "held_by (give_back h s) p = int (live_count (give_back h s) (\<lambda>a. ad_principal a = p))" for p
      using l drop [of "\<lambda>a. ad_principal a = p"] by (auto simp: by_p ledger_def)
    show "fs_held (give_back h s) \<le> fo_capacity opt" using l by (simp add: held ledger_def)
    show "int (live_count (give_back h s) others) \<le> fo_capacity opt - fo_reserve opt"
      using l le [of others] by (simp add: ledger_def)
    show "int (live_count (give_back h s) (\<lambda>a. others a \<and> ad_principal a = p)) \<le> fo_perPrincipalMax opt" for p
    proof -
      have "int (live_count s (\<lambda>a. others a \<and> ad_principal a = p)) \<le> fo_perPrincipalMax opt"
        using l by (simp add: ledger_def)
      with le [of "\<lambda>a. others a \<and> ad_principal a = p"] show ?thesis by linarith
    qed
  qed (rule wf)
qed

subsection \<open>The queues: who waits\<close>

definition settled_ids :: "fs_log list \<Rightarrow> nat list" where
  "settled_ids l = concat (map (\<lambda>e. case e of Settled w _ \<Rightarrow> [wt_id w] | _ \<Rightarrow> []) l)"

definition granted_ids :: "adm_class \<Rightarrow> fs_log list \<Rightarrow> nat list" where
  "granted_ids c l = concat (map (\<lambda>e. case e of
      Settled w (GrantedTo _) \<Rightarrow> if ad_class (wt_admission w) = c then [wt_id w] else [] | _ \<Rightarrow> []) l)"

lemma log_ids [simp]:
  "settled_ids (l @ [Settled w x]) = settled_ids l @ [wt_id w]"
  "settled_ids (l @ [Reported c r b]) = settled_ids l"
  "granted_ids c (l @ [Settled w (GrantedTo h)]) =
     granted_ids c l @ (if ad_class (wt_admission w) = c then [wt_id w] else [])"
  "granted_ids c (l @ [Settled w AbortedWait]) = granted_ids c l"
  "granted_ids c (l @ [Settled w (ExpiredFor r)]) = granted_ids c l"
  "granted_ids c (l @ [Reported c' r b]) = granted_ids c l"
  by (simp_all add: settled_ids_def granted_ids_def)

definition all_waiting :: "pool \<Rightarrow> waiter list" where
  "all_waiting s = concat (map (fs_waiting s) CLASS_ORDER)"

text \<open>Each line is in arrival order, behind everyone its class has granted; every arrival number is
  settled or waiting, exactly once.\<close>

definition line_ok :: "fs_opts \<Rightarrow> fs_log list \<Rightarrow> adm_class \<Rightarrow> waiter list \<Rightarrow> bool" where
  "line_ok opt l c ws \<longleftrightarrow> (\<forall>w \<in> set ws. ad_class (wt_admission w) = c)
     \<and> sorted_wrt (<) (granted_ids c l @ map wt_id ws) \<and> length ws \<le> fo_depth opt"

definition lines_ok :: "fs_opts \<Rightarrow> pool \<Rightarrow> bool" where
  "lines_ok opt s \<longleftrightarrow>
     mset (settled_ids (fs_log s)) + mset (map wt_id (all_waiting s)) = mset [0..<fs_arrivals s]
     \<and> (\<forall>c. line_ok opt (fs_log s) c (fs_waiting s c))"

definition no_head_fits :: "fs_opts \<Rightarrow> pool \<Rightarrow> bool" where
  "no_head_fits opt s \<longleftrightarrow> (\<forall>c. \<not> fits opt s c)"

definition pool_inv :: "fs_opts \<Rightarrow> pool \<Rightarrow> bool" where
  "pool_inv opt s \<longleftrightarrow> ledger opt s \<and> lines_ok opt s \<and> no_head_fits opt s"

lemma mset_all_waiting: "mset (all_waiting s) = mset (fs_waiting s Owner) + mset (fs_waiting s Connector) + mset (fs_waiting s Bearer)"
  by (simp add: all_waiting_def CLASS_ORDER_def)

lemma all_waiting_upd:
  "mset (map wt_id (all_waiting (s\<lparr>fs_waiting := (fs_waiting s)(c := ws)\<rparr>))) + mset (map wt_id (fs_waiting s c)) =
     mset (map wt_id (all_waiting s)) + mset (map wt_id ws)"
  by (cases c) (simp_all add: mset_all_waiting)

lemma ledger_cong:
  "fs_held s' = fs_held s \<Longrightarrow> fs_byPrincipal s' = fs_byPrincipal s \<Longrightarrow> fs_handles s' = fs_handles s \<Longrightarrow> ledger opt s' = ledger opt s"
  by (simp add: ledger_def live_count_def held_by_def)

lemma blockedBy_cong:
  "fs_held s' = fs_held s \<Longrightarrow> fs_byPrincipal s' = fs_byPrincipal s \<Longrightarrow> blockedBy opt s' adm = blockedBy opt s adm"
  by (simp add: blockedBy_def held_by_def)

lemma lines_take: "lines_ok opt (fst (take_slot adm s)) = lines_ok opt s"
  by (simp add: lines_ok_def take_slot_def all_waiting_def)

lemma lines_report: "lines_ok opt (log_event (Reported c r b) s) = lines_ok opt s"
  by (simp add: lines_ok_def line_ok_def log_event_def all_waiting_def)

lemma move_one: "x + {#a#} = y \<Longrightarrow> s + y = r \<Longrightarrow> (s + {#a#}) + x = (r :: 'a multiset)"
  by (auto simp: ac_simps)

lemma grant_head_ok:
  assumes l: "ledger opt s" and q: "lines_ok opt s" and f: "fits opt s c"
  shows "ledger opt (grant_head c s) \<and> lines_ok opt (grant_head c s)"
proof -
  obtain w ws where w: "fs_waiting s c = w # ws" and fit: "blockedBy opt s (wt_admission w) = None"
    using f by (auto simp: fits_def split: list.splits)
  let ?s = "s\<lparr>fs_waiting := (fs_waiting s)(c := ws)\<rparr>"
  have g: "grant_head c s = log_event (Settled w (GrantedTo (length (fs_handles s)))) (fst (take_slot (wt_admission w) ?s))"
    by (simp add: grant_head_def take_slot_def w Let_def)
  have l1: "ledger opt ?s" using l by (simp cong: ledger_cong)
  have fit1: "blockedBy opt ?s (wt_admission w) = None" using fit blockedBy_cong [of ?s s] by simp
  have "ledger opt (grant_head c s)"
    using take_ledger [OF l1 fit1] ledger_cong [of "grant_head c s" "fst (take_slot (wt_admission w) ?s)" opt]
    by (simp add: g log_event_def)
  moreover have "lines_ok opt (grant_head c s)"
  proof -
    have cls: "ad_class (wt_admission w) = c"
      using q w unfolding lines_ok_def line_ok_def by (metis list.set_intros(1))
    have waits: "fs_waiting (grant_head c s) = (fs_waiting s)(c := ws)" by (simp add: g log_event_def take_slot_def)
    have lg: "fs_log (grant_head c s) = fs_log s @ [Settled w (GrantedTo (length (fs_handles s)))]"
      and arr: "fs_arrivals (grant_head c s) = fs_arrivals s" by (simp_all add: g log_event_def take_slot_def)
    have "mset (map wt_id (all_waiting (grant_head c s))) + {#wt_id w#} = mset (map wt_id (all_waiting s))"
      using all_waiting_upd [of s c ws] w waits by (simp add: all_waiting_def)
    moreover have "mset (settled_ids (fs_log (grant_head c s))) = mset (settled_ids (fs_log s)) + {#wt_id w#}"
      by (simp add: lg)
    ultimately have cons: "mset (settled_ids (fs_log (grant_head c s))) + mset (map wt_id (all_waiting (grant_head c s)))
        = mset [0..<fs_arrivals (grant_head c s)]"
      using q move_one unfolding lines_ok_def arr by metis
    show ?thesis
      unfolding lines_ok_def
    proof (intro conjI allI cons)
      fix c'
      have qc: "line_ok opt (fs_log s) c' (fs_waiting s c')" using q by (simp add: lines_ok_def)
      show "line_ok opt (fs_log (grant_head c s)) c' (fs_waiting (grant_head c s) c')"
      proof (cases "c' = c")
        case True
        with qc w cls show ?thesis by (simp add: line_ok_def waits lg)
      next
        case False
        with qc cls show ?thesis by (simp add: line_ok_def waits lg)
      qed
    qed
  qed
  ultimately show ?thesis ..
qed

lemma admitWaiters_ok:
  "ledger opt s \<Longrightarrow> lines_ok opt s \<Longrightarrow> pool_inv opt (admitWaiters opt s)"
proof (induction opt s rule: admitWaiters.induct)
  case (1 opt s)
  show ?case
  proof (cases "next_class opt s")
    case None
    with 1 next_class_None [OF None] show ?thesis
      by (subst admitWaiters.simps) (simp add: pool_inv_def no_head_fits_def)
  next
    case (Some c)
    with 1 grant_head_ok [OF _ _ next_class_Some [OF Some]] show ?thesis
      by (subst admitWaiters.simps) simp
  qed
qed

subsection \<open>Every operation keeps the pool consistent\<close>

lemma no_head_fits_mono:
  assumes "no_head_fits opt s" "fs_waiting s' = fs_waiting s"
    and "\<And>adm. blockedBy opt s adm \<noteq> None \<Longrightarrow> blockedBy opt s' adm \<noteq> None"
  shows "no_head_fits opt s'"
  using assms unfolding no_head_fits_def fits_def by (fastforce split: list.splits)

lemma take_keeps_blocked: "blockedBy opt s a \<noteq> None \<Longrightarrow> blockedBy opt (fst (take_slot adm s)) a \<noteq> None"
proof -
  have "fs_held (fst (take_slot adm s)) = fs_held s + 1" by (simp add: take_slot_def)
  moreover have "held_by s p \<le> held_by (fst (take_slot adm s)) p" for p by (simp add: held_by_take)
  ultimately show "blockedBy opt s a \<noteq> None \<Longrightarrow> blockedBy opt (fst (take_slot adm s)) a \<noteq> None"
    by (auto simp: blockedBy_def split: if_splits) (meson order_trans)+
qed

lemma take_pool_inv:
  assumes "pool_inv opt s" "blockedBy opt s adm = None"
  shows "pool_inv opt (fst (take_slot adm s))"
proof -
  have "no_head_fits opt (fst (take_slot adm s))"
    by (rule no_head_fits_mono [of opt s]) (use assms take_keeps_blocked in \<open>auto simp: pool_inv_def take_slot_def\<close>)
  with assms take_ledger [of opt s adm] lines_take [of opt adm s] show ?thesis by (simp add: pool_inv_def)
qed

lemma report_pool_inv: "pool_inv opt s \<Longrightarrow> pool_inv opt (log_event (Reported c r b) s)"
  using lines_report [of opt c r b s] ledger_cong [of "log_event (Reported c r b) s" s opt]
    no_head_fits_mono [of opt s "log_event (Reported c r b) s"] blockedBy_cong [of "log_event (Reported c r b) s" s opt]
  by (simp add: pool_inv_def log_event_def)

lemma join_pool_inv:
  assumes inv: "pool_inv opt s" and b: "blockedBy opt s adm \<noteq> None"
    and room: "length (fs_waiting s (ad_class adm)) < fo_depth opt"
  shows "pool_inv opt (s\<lparr>fs_waiting := (fs_waiting s)(ad_class adm := fs_waiting s (ad_class adm) @
      [\<lparr>wt_id = fs_arrivals s, wt_admission = adm, wt_blocked = r\<rparr>]), fs_arrivals := fs_arrivals s + 1\<rparr>)"
    (is "pool_inv opt ?s")
proof -
  let ?c = "ad_class adm" and ?w = "\<lparr>wt_id = fs_arrivals s, wt_admission = adm, wt_blocked = r\<rparr>"
  have q: "lines_ok opt s" and l: "ledger opt s" and n: "no_head_fits opt s" using inv by (simp_all add: pool_inv_def)
  have upd: "mset (map wt_id (all_waiting ?s)) = mset (map wt_id (all_waiting s)) + {#fs_arrivals s#}"
    using all_waiting_upd [of s ?c "fs_waiting s ?c @ [?w]"] by (simp add: all_waiting_def)
  have tickets: "mset (settled_ids (fs_log s)) + mset (map wt_id (all_waiting s)) = mset [0..<fs_arrivals s]"
    using q by (simp add: lines_ok_def)
  then have below: "\<forall>i \<in> set (settled_ids (fs_log s)). i < fs_arrivals s"
    "\<forall>i \<in> set (map wt_id (all_waiting s)). i < fs_arrivals s"
    by (metis UnCI atLeastLessThan_iff set_mset_mset set_mset_union set_upt)+
  have sub: "set (granted_ids c lg) \<subseteq> set (settled_ids lg)" for c lg
    by (auto simp: granted_ids_def settled_ids_def split: fs_log.splits settlement.splits if_splits)
  have waiting_below: "\<forall>i \<in> set (map wt_id (fs_waiting s c)). i < fs_arrivals s" for c
    using below(2) by (cases c) (auto simp: all_waiting_def CLASS_ORDER_def)
  have "lines_ok opt ?s"
    unfolding lines_ok_def
  proof (intro conjI allI)
    show "mset (settled_ids (fs_log ?s)) + mset (map wt_id (all_waiting ?s)) = mset [0..<fs_arrivals ?s]"
      using tickets unfolding upd by (simp add: add.assoc [symmetric])
    show "line_ok opt (fs_log ?s) c (fs_waiting ?s c)" for c
    proof -
      have lc: "line_ok opt (fs_log s) c (fs_waiting s c)" using q by (simp add: lines_ok_def)
      have "\<forall>i \<in> set (granted_ids c (fs_log s) @ map wt_id (fs_waiting s c)). i < fs_arrivals s"
        using below(1) sub [of c "fs_log s"] waiting_below [of c] by auto
      with lc room show ?thesis by (cases "c = ?c") (auto simp: line_ok_def sorted_wrt_append)
    qed
  qed
  moreover have "ledger opt ?s" using l ledger_cong [of ?s s opt] by simp
  moreover have "no_head_fits opt ?s"
    using n b blockedBy_cong [of ?s s opt]
    by (auto simp: no_head_fits_def fits_def split: list.splits if_splits) (metis append_Nil list.inject waiter.select_convs(2))+
  ultimately show ?thesis by (simp add: pool_inv_def)
qed

lemma sorted_wrt_map_remove1: "sorted_wrt (<) (map f xs) \<Longrightarrow> sorted_wrt (<) (map f (remove1 x xs))"
  by (induction xs) (auto dest: set_remove1_subset [THEN subsetD])

lemma cancel_one: "a + w = b + r \<Longrightarrow> w = r + {#i#} \<Longrightarrow> a + {#i#} = (b :: 'a multiset)"
  by (auto simp: ac_simps)

lemma mset_map_remove1: "x \<in> set xs \<Longrightarrow> mset (map f xs) = mset (map f (remove1 x xs)) + {#f x#}"
  by (induction xs) auto

lemma find_in_set: "List.find P xs = Some x \<Longrightarrow> x \<in> set xs"
  by (induction xs) (auto split: if_splits)

lemma leave_ok:
  assumes l: "ledger opt s" and q: "lines_ok opt s" and w: "find_waiter i s = Some w"
    and out: "out = AbortedWait \<or> out = ExpiredFor r"
  shows "ledger opt (log_event (Settled w out) (removeWaiter w s)) \<and> lines_ok opt (log_event (Settled w out) (removeWaiter w s))"
    (is "ledger opt ?s \<and> lines_ok opt ?s")
proof -
  obtain c where inw: "w \<in> set (fs_waiting s c)"
    using find_in_set [OF w [unfolded find_waiter_def]] by auto
  have lc: "line_ok opt (fs_log s) c (fs_waiting s c)" for c using q by (simp add: lines_ok_def)
  have cls: "ad_class (wt_admission w) = c" using lc [of c] inw by (simp add: line_ok_def)
  have s: "fs_waiting ?s = (fs_waiting s)(c := remove1 w (fs_waiting s c))" "fs_log ?s = fs_log s @ [Settled w out]"
    "fs_arrivals ?s = fs_arrivals s"
    by (simp_all add: log_event_def removeWaiter_def Let_def cls)
  have ids: "settled_ids (fs_log ?s) = settled_ids (fs_log s) @ [wt_id w]"
    "granted_ids c' (fs_log ?s) = granted_ids c' (fs_log s)" for c' using out by (auto simp: s(2))
  have "mset (map wt_id (fs_waiting s c)) = mset (map wt_id (remove1 w (fs_waiting s c))) + {#wt_id w#}"
    using inw by (rule mset_map_remove1)
  from cancel_one [OF all_waiting_upd this]
  have "mset (map wt_id (all_waiting ?s)) + {#wt_id w#} = mset (map wt_id (all_waiting s))"
    by (simp add: all_waiting_def s(1))
  then have "mset (settled_ids (fs_log ?s)) + mset (map wt_id (all_waiting ?s)) = mset [0..<fs_arrivals ?s]"
    using move_one [of _ _ _ "mset (settled_ids (fs_log s))"] q by (simp add: lines_ok_def ids s(3))
  moreover have "line_ok opt (fs_log ?s) c' (fs_waiting ?s c')" for c'
  proof (cases "c' = c")
    case True
    have "sorted_wrt (<) (map wt_id (remove1 w (fs_waiting s c)))"
      using lc [of c] by (intro sorted_wrt_map_remove1) (simp add: line_ok_def sorted_wrt_append)
    moreover have "set (remove1 w (fs_waiting s c)) \<subseteq> set (fs_waiting s c)" by (rule set_remove1_subset)
    moreover have "length (remove1 w (fs_waiting s c)) \<le> length (fs_waiting s c)" using inw by (simp add: length_remove1)
    ultimately show ?thesis using lc [of c] True
      by (auto simp: line_ok_def s(1) ids(2) sorted_wrt_append)
  next
    case False
    with lc [of c'] show ?thesis by (simp add: line_ok_def s(1) ids(2))
  qed
  moreover have "ledger opt ?s" using l ledger_cong [of ?s s opt] by (simp add: log_event_def removeWaiter_def Let_def)
  ultimately show ?thesis by (simp add: lines_ok_def)
qed

lemma give_back_lines: "lines_ok opt (give_back h s) = lines_ok opt s"
  by (simp add: lines_ok_def give_back_def Let_def all_waiting_def)

lemma onTimer_log_swap:
  "lines_ok opt (log_event (Settled w out) (log_event (Reported c r b) s)) = lines_ok opt (log_event (Settled w out) s)"
  by (cases out) (simp_all add: lines_ok_def line_ok_def log_event_def all_waiting_def settled_ids_def granted_ids_def)

lemma fs_step_inv: "pool_inv opt s \<Longrightarrow> pool_inv opt (fst (fs_step opt s e))"
proof (cases e)
  case (Acquire adm)
  assume inv: "pool_inv opt s"
  with Acquire take_pool_inv [of opt s adm] report_pool_inv [OF inv] show ?thesis
    by (auto simp: fs_acquire_def take_slot_def split: option.splits)
next
  case (Admit adm aborted)
  assume inv: "pool_inv opt s"
  with Admit take_pool_inv [of opt s adm] report_pool_inv [OF inv] join_pool_inv [OF inv, of adm] show ?thesis
    by (auto simp: fs_admit_def take_slot_def Let_def not_le split: option.splits)
next
  case (ReleaseSlot h)
  assume inv: "pool_inv opt s"
  then have "h < length (fs_handles s) \<Longrightarrow> \<not> hd_released (fs_handles s ! h) \<Longrightarrow> pool_inv opt (admitWaiters opt (give_back h s))"
    by (intro admitWaiters_ok give_back_ledger) (simp_all add: pool_inv_def give_back_lines)
  with ReleaseSlot inv show ?thesis by (simp add: fs_release_def)
next
  case (Abort i)
  assume inv: "pool_inv opt s"
  then show ?thesis using Abort leave_ok [of opt s i]
    by (auto simp: onAbort_def pool_inv_def split: option.splits intro!: admitWaiters_ok [unfolded pool_inv_def])
next
  case (Expire i)
  assume inv: "pool_inv opt s"
  show ?thesis
  proof (cases "find_waiter i s")
    case None
    with inv Expire show ?thesis by (simp add: onTimer_def)
  next
    case (Some w)
    let ?a = "log_event (Settled w (ExpiredFor (wt_blocked w))) (removeWaiter w s)"
    let ?b = "log_event (Settled w (ExpiredFor (wt_blocked w)))
        (log_event (Reported (ad_class (wt_admission w)) (wt_blocked w) WaitExpired) (removeWaiter w s))"
    from inv Some leave_ok [of opt s i w "ExpiredFor (wt_blocked w)"] have "ledger opt ?a" "lines_ok opt ?a"
      by (auto simp: pool_inv_def)
    then have "ledger opt ?b" "lines_ok opt ?b"
      using ledger_cong [of ?b ?a opt] onTimer_log_swap by (simp_all add: log_event_def)
    from admitWaiters_ok [OF this] Expire Some show ?thesis by (simp add: onTimer_def)
  qed
qed

interpretation fair_share: machine "fs_step opt" "pool_inv opt" for opt
  by unfold_locales (rule fs_step_inv)

lemma created_pool_inv:
  assumes "createFairShare raw = Inr (opt, s)"
  shows "pool_inv opt s"
proof -
  have s: "s = new_pool" and o: "0 \<le> fo_capacity opt" "fo_reserve opt < fo_capacity opt" "1 \<le> fo_perPrincipalMax opt"
    using assms by (auto simp: createFairShare_def split: option.splits if_splits)
  have "ledger opt s" using o by (simp add: s new_pool_def ledger_def live_count_def held_by_def)
  moreover have "lines_ok opt s"
    by (simp add: s new_pool_def lines_ok_def line_ok_def all_waiting_def CLASS_ORDER_def settled_ids_def granted_ids_def)
  moreover have "no_head_fits opt s" by (simp add: s new_pool_def no_head_fits_def fits_def)
  ultimately show ?thesis by (simp add: pool_inv_def)
qed

text \<open>C26. The budget holds in every run of a created pool, whatever releases, aborts and timers do:
  the slots held are the handles not released, at most \<^verbatim>\<open>capacity\<close>; the classes below
  the owner never hold any of the last \<^verbatim>\<open>reserve\<close> slots, nor one of their principals more
  than \<^verbatim>\<open>perPrincipalMax\<close>; and no queue is longer than its depth.\<close>
theorem fair_share_budget:
  assumes "createFairShare raw = Inr (opt, s\<^sub>0)" and "s = final (fs_step opt) s\<^sub>0 es"
  shows "fs_held s = int (live_count s (\<lambda>a. True)) \<and> fs_held s \<le> fo_capacity opt
    \<and> int (live_count s others) \<le> fo_capacity opt - fo_reserve opt
    \<and> (\<forall>p. int (live_count s (\<lambda>a. others a \<and> ad_principal a = p)) \<le> fo_perPrincipalMax opt)
    \<and> (\<forall>c. length (fs_waiting s c) \<le> fo_depth opt)"
proof -
  have "pool_inv opt s" unfolding assms(2) by (rule fair_share.run_inv [OF created_pool_inv [OF assms(1)]])
  then show ?thesis by (simp add: pool_inv_def ledger_def lines_ok_def line_ok_def)
qed

definition sample_fs_raw :: fs_raw where
  "sample_fs_raw = \<lparr>fr_capacity = Fin 2, fr_reserve = Fin 1, fr_perPrincipalMax = None, fr_queue = Some (Fin 1, Fin 5)\<rparr>"

definition sample_fs_opts :: fs_opts where
  "sample_fs_opts = \<lparr>fo_capacity = 2, fo_reserve = 1, fo_perPrincipalMax = 2, fo_depth = 1, fo_waitMs = 5\<rparr>"

lemma sample_fs_created: "createFairShare sample_fs_raw = Inr (sample_fs_opts, new_pool)"
  by (simp add: createFairShare_def sample_fs_raw_def sample_fs_opts_def safe_integer_def MAX_SAFE_INTEGER_def)

lemma fair_share_budget_witness:
  "fs_held (final (fs_step sample_fs_opts) new_pool
     [Acquire \<lparr>ad_principal = ''a'', ad_class = Bearer\<rparr>, Admit \<lparr>ad_principal = ''b'', ad_class = Bearer\<rparr> False, ReleaseSlot 0]) \<le> 2"
  using fair_share_budget [OF sample_fs_created refl, of "[Acquire \<lparr>ad_principal = ''a'', ad_class = Bearer\<rparr>,
      Admit \<lparr>ad_principal = ''b'', ad_class = Bearer\<rparr> False, ReleaseSlot 0]"]
  by (simp add: sample_fs_opts_def)

text \<open>C27. No lost wake-up: in every reachable state, whoever is at the head of a queue does not fit the
  budget right now, so a freed slot never stays idle while a head that could take it waits.\<close>
theorem fair_share_no_lost_wakeup:
  assumes "createFairShare raw = Inr (opt, s\<^sub>0)" and "s = final (fs_step opt) s\<^sub>0 es"
    and "fs_waiting s c = w # ws"
  shows "blockedBy opt s (wt_admission w) \<noteq> None"
proof -
  have "pool_inv opt s" unfolding assms(2) by (rule fair_share.run_inv [OF created_pool_inv [OF assms(1)]])
  with assms(3) show ?thesis by (auto simp: pool_inv_def no_head_fits_def fits_def split: list.splits)
qed

lemma sample_fs_waits:
  "fs_waiting (final (fs_step sample_fs_opts) new_pool
     [Acquire \<lparr>ad_principal = ''a'', ad_class = Bearer\<rparr>, Admit \<lparr>ad_principal = ''b'', ad_class = Bearer\<rparr> False]) Bearer
   = [\<lparr>wt_id = 0, wt_admission = \<lparr>ad_principal = ''b'', ad_class = Bearer\<rparr>, wt_blocked = ReservedR\<rparr>]"
  by (simp add: fs_acquire_def fs_admit_def blockedBy_def sample_fs_opts_def new_pool_def take_slot_def held_by_def Let_def)

lemma fair_share_no_lost_wakeup_witness:
  "blockedBy sample_fs_opts (final (fs_step sample_fs_opts) new_pool
     [Acquire \<lparr>ad_principal = ''a'', ad_class = Bearer\<rparr>, Admit \<lparr>ad_principal = ''b'', ad_class = Bearer\<rparr> False])
     \<lparr>ad_principal = ''b'', ad_class = Bearer\<rparr> \<noteq> None"
  using fair_share_no_lost_wakeup [OF sample_fs_created refl sample_fs_waits] by simp

text \<open>C28. First come, first served, and answered once: in every run each admission that had to wait is
  either still waiting or was settled exactly once, and within a class the slots were granted in
  arrival order, ahead of everyone still waiting.\<close>
theorem fair_share_fifo_once:
  assumes "createFairShare raw = Inr (opt, s\<^sub>0)" and "s = final (fs_step opt) s\<^sub>0 es"
  shows "distinct (settled_ids (fs_log s) @ map wt_id (all_waiting s))
    \<and> set (settled_ids (fs_log s) @ map wt_id (all_waiting s)) = {..<fs_arrivals s}
    \<and> sorted_wrt (<) (granted_ids c (fs_log s) @ map wt_id (fs_waiting s c))"
proof -
  have inv: "pool_inv opt s" unfolding assms(2) by (rule fair_share.run_inv [OF created_pool_inv [OF assms(1)]])
  let ?ids = "settled_ids (fs_log s) @ map wt_id (all_waiting s)"
  have m: "mset ?ids = mset [0..<fs_arrivals s]" using inv by (simp add: pool_inv_def lines_ok_def)
  have "distinct ?ids" using mset_eq_imp_distinct_iff [OF m] by simp
  moreover have "set ?ids = {..<fs_arrivals s}" using mset_eq_setD [OF m] by (simp add: atLeast0LessThan)
  ultimately show ?thesis using inv by (simp add: pool_inv_def lines_ok_def line_ok_def)
qed

lemma fair_share_fifo_once_witness:
  "distinct (settled_ids (fs_log (final (fs_step sample_fs_opts) new_pool [Acquire \<lparr>ad_principal = ''a'', ad_class = Bearer\<rparr>,
     Admit \<lparr>ad_principal = ''b'', ad_class = Bearer\<rparr> False, Abort 0, Expire 0])))"
  using fair_share_fifo_once [OF sample_fs_created refl, of "[Acquire \<lparr>ad_principal = ''a'', ad_class = Bearer\<rparr>,
     Admit \<lparr>ad_principal = ''b'', ad_class = Bearer\<rparr> False, Abort 0, Expire 0]"] unfolding distinct_append by blast

end
