(* ===== verification/Token_Ledger.thy ===== *)
theory Token_Ledger
  imports Machine Js_String
begin

text \<open>
  The token ledger, \<^verbatim>\<open>services/ultrathink/cost/ledger.ts\<close>: reservations against a
  ceiling per run and per day, in the table \<^verbatim>\<open>token_ledger\<close>. A row is a record, the
  table a list in insertion order, the SQL sums and the guarded update are functions on it.
  What the database may refuse is an input of the operation: \<open>ok\<close> is false when a statement
  throws (the transaction is rolled back), and \<open>known_run\<close> is the foreign key to
  \<^verbatim>\<open>runs\<close>.
\<close>

datatype row_state = Reserved | SettledRow | Abandoned

record ledger_row =
  lr_id :: nat
  lr_run :: string
  lr_phase :: string
  lr_attempt :: int
  lr_day :: string
  lr_reserved :: int
  lr_actual :: "int option"
  lr_state :: row_state

record token_ledger =
  tl_rows :: "ledger_row list"
  tl_seq :: nat

record ledger_limits =
  runTokenCeiling :: int
  dailyTokenCeiling :: int

datatype ledger_error =
  BadEstimate | CeilingRun | CeilingDay | ReservationWrite | BadActual | NotReserved nat | UpdateWrite | ReadFailed

subsection \<open>The UTC day of a clock value\<close>

text \<open>
  \<^verbatim>\<open>new Date(at).toISOString().slice(0, 10)\<close>: the civil date of the day number, by eras of
  400 years that begin on the first of March.
\<close>

definition civil_from_days :: "int \<Rightarrow> int \<times> int \<times> int" where
  "civil_from_days n =
     (let z = n + 719468;
          era = z div 146097;
          doe = z mod 146097;
          yoe = (doe - doe div 1460 + doe div 36524 - doe div 146096) div 365;
          doy = doe - (365 * yoe + yoe div 4 - yoe div 100);
          mp = (5 * doy + 2) div 153;
          d = doy - (153 * mp + 2) div 5 + 1;
          m = (if mp < 10 then mp + 3 else mp - 9);
          y = yoe + era * 400 + (if m \<le> 2 then 1 else 0)
      in (y, m, d))"

definition pad :: "nat \<Rightarrow> int \<Rightarrow> string" where
  "pad k n = (let s = dec (nat n) in replicate (k - length s) (CHR ''0'') @ s)"

definition iso_year :: "int \<Rightarrow> string" where
  "iso_year y = (if 0 \<le> y \<and> y \<le> 9999 then pad 4 y
     else if y < 0 then ''-'' @ pad 6 (- y) else ''+'' @ pad 6 y)"

definition iso_day :: "int \<Rightarrow> string" where
  "iso_day t = (case civil_from_days (t div 86400000) of
     (y, m, d) \<Rightarrow> take 10 (iso_year y @ ''-'' @ pad 2 m @ ''-'' @ pad 2 d))"

subsection \<open>Operations\<close>

definition row_spent :: "ledger_row \<Rightarrow> int" where
  "row_spent r = (if lr_state r = SettledRow then (case lr_actual r of Some n \<Rightarrow> n | None \<Rightarrow> 0) else lr_reserved r)"

definition sumSpent :: "(ledger_row \<Rightarrow> bool) \<Rightarrow> token_ledger \<Rightarrow> int" where
  "sumSpent P l = sum_list (map row_spent (filter P (tl_rows l)))"

definition spentForRun :: "string \<Rightarrow> token_ledger \<Rightarrow> int" where
  "spentForRun run = sumSpent (\<lambda>r. lr_run r = run)"

definition spentForDay :: "string \<Rightarrow> token_ledger \<Rightarrow> int" where
  "spentForDay day = sumSpent (\<lambda>r. lr_day r = day)"

text \<open>The columns' constraints: the unique key and the foreign key.\<close>

definition insert_allowed :: "(string \<Rightarrow> bool) \<Rightarrow> ledger_row \<Rightarrow> token_ledger \<Rightarrow> bool" where
  "insert_allowed known_run r l \<longleftrightarrow> known_run (lr_run r)
     \<and> list_all (\<lambda>q. \<not> (lr_run q = lr_run r \<and> lr_phase q = lr_phase r \<and> lr_attempt q = lr_attempt r)) (tl_rows l)"

definition new_ledger :: token_ledger where
  "new_ledger = \<lparr>tl_rows = [], tl_seq = 0\<rparr>"

record reserve_input =
  ri_runId :: string
  ri_phase :: string
  ri_attempt :: int
  ri_estimatedTokens :: js_num

definition ledger_reserve :: "ledger_limits \<Rightarrow> (string \<Rightarrow> bool) \<Rightarrow> bool \<Rightarrow> reserve_input \<Rightarrow> int \<Rightarrow> token_ledger
    \<Rightarrow> token_ledger \<times> (ledger_error + nat)" where
  "ledger_reserve lims known_run ok inp t l =
     (case safe_integer (ri_estimatedTokens inp) of
        None \<Rightarrow> (l, Inl BadEstimate)
      | Some estimate \<Rightarrow>
          if estimate \<le> 0 then (l, Inl BadEstimate)
          else if \<not> ok then (l, Inl ReservationWrite)
          else if spentForRun (ri_runId inp) l + estimate > runTokenCeiling lims then (l, Inl CeilingRun)
          else if spentForDay (iso_day t) l + estimate > dailyTokenCeiling lims then (l, Inl CeilingDay)
          else
            let r = \<lparr>lr_id = tl_seq l + 1, lr_run = ri_runId inp, lr_phase = ri_phase inp,
                lr_attempt = ri_attempt inp, lr_day = iso_day t, lr_reserved = estimate,
                lr_actual = None, lr_state = Reserved\<rparr>
            in if insert_allowed known_run r l
               then (\<lparr>tl_rows = tl_rows l @ [r], tl_seq = tl_seq l + 1\<rparr>, Inr (tl_seq l + 1))
               else (l, Inl ReservationWrite))"

text \<open>\<^verbatim>\<open>UPDATE \<dots> WHERE id = ? AND state = 'reserved'\<close>, and the number of rows it changes.\<close>

definition close_row :: "nat \<Rightarrow> row_state \<Rightarrow> int option \<Rightarrow> ledger_row \<Rightarrow> ledger_row" where
  "close_row i st actual r =
     (if lr_id r = i \<and> lr_state r = Reserved then r\<lparr>lr_state := st, lr_actual := actual\<rparr> else r)"

definition ledger_transition :: "bool \<Rightarrow> nat \<Rightarrow> row_state \<Rightarrow> int option \<Rightarrow> token_ledger \<Rightarrow> token_ledger \<times> (ledger_error + unit)" where
  "ledger_transition ok i st actual l =
     (if \<not> ok then (l, Inl UpdateWrite)
      else
        let changes = length (filter (\<lambda>r. lr_id r = i \<and> lr_state r = Reserved) (tl_rows l));
            l' = l\<lparr>tl_rows := map (close_row i st actual) (tl_rows l)\<rparr>
        in if changes \<noteq> 1 then (l', Inl (NotReserved i)) else (l', Inr ()))"

definition ledger_settle :: "bool \<Rightarrow> nat \<Rightarrow> js_num \<Rightarrow> token_ledger \<Rightarrow> token_ledger \<times> (ledger_error + unit)" where
  "ledger_settle ok i actualTokens l = (case safe_integer actualTokens of
      None \<Rightarrow> (l, Inl BadActual)
    | Some n \<Rightarrow> if n < 0 then (l, Inl BadActual) else ledger_transition ok i SettledRow (Some n) l)"

definition ledger_abandon :: "bool \<Rightarrow> nat \<Rightarrow> token_ledger \<Rightarrow> token_ledger \<times> (ledger_error + unit)" where
  "ledger_abandon ok i l = ledger_transition ok i Abandoned None l"

definition read_spent :: "bool \<Rightarrow> int \<Rightarrow> ledger_error + int" where
  "read_spent ok n = (if ok then Inr n else Inl ReadFailed)"

datatype ledger_event = Reserve reserve_input int | Settle nat js_num | Abandon nat

datatype ledger_output = ReserveOut "ledger_error + nat" | CloseOut "ledger_error + unit"

text \<open>An event comes with whether its database statements succeed.\<close>

fun ledger_step :: "ledger_limits \<Rightarrow> (string \<Rightarrow> bool) \<Rightarrow> token_ledger \<Rightarrow> bool \<times> ledger_event \<Rightarrow> token_ledger \<times> ledger_output" where
  "ledger_step lims known_run l (ok, Reserve inp t) =
     (let (l', r) = ledger_reserve lims known_run ok inp t l in (l', ReserveOut r))"
| "ledger_step lims known_run l (ok, Settle i n) = (let (l', r) = ledger_settle ok i n l in (l', CloseOut r))"
| "ledger_step lims known_run l (ok, Abandon i) = (let (l', r) = ledger_abandon ok i l in (l', CloseOut r))"

subsection \<open>Invariant\<close>

text \<open>What settled rows spent beyond their reservation.\<close>

definition overrun :: "(ledger_row \<Rightarrow> bool) \<Rightarrow> token_ledger \<Rightarrow> int" where
  "overrun P l = sum_list (map (\<lambda>r. max 0 (row_spent r - lr_reserved r)) (filter P (tl_rows l)))"

definition row_key :: "ledger_row \<Rightarrow> string \<times> string \<times> int" where
  "row_key r = (lr_run r, lr_phase r, lr_attempt r)"

definition ledger_inv :: "ledger_limits \<Rightarrow> token_ledger \<Rightarrow> bool" where
  "ledger_inv lims l \<longleftrightarrow> distinct (map lr_id (tl_rows l)) \<and> distinct (map row_key (tl_rows l)) \<and> (\<forall>r \<in> set (tl_rows l). lr_id r \<le> tl_seq l)
     \<and> (\<forall>run. spentForRun run l \<le> max 0 (runTokenCeiling lims) + overrun (\<lambda>r. lr_run r = run) l)
     \<and> (\<forall>day. spentForDay day l \<le> max 0 (dailyTokenCeiling lims) + overrun (\<lambda>r. lr_day r = day) l)"

lemma overrun_nonneg: "0 \<le> overrun P l"
  unfolding overrun_def by (rule sum_list_nonneg) auto

text \<open>What a successful guarded update does: one reserved row is closed, the others stay.\<close>

lemma close_rows_others:
  "\<forall>r \<in> set rs. \<not> (lr_id r = i \<and> lr_state r = Reserved) \<Longrightarrow> map (close_row i st a) rs = rs"
  by (induction rs) (auto simp: close_row_def)

definition sum_over :: "(ledger_row \<Rightarrow> bool) \<Rightarrow> (ledger_row \<Rightarrow> int) \<Rightarrow> ledger_row list \<Rightarrow> int" where
  "sum_over P f rs = sum_list (map f (filter P rs))"

text \<open>A closed row spends at most its reservation plus its own overrun.\<close>

lemma close_rows_bound:
  assumes "\<And>r st a. P (r\<lparr>lr_state := st, lr_actual := a\<rparr>) = P r"
  shows "sum_over P row_spent (map (close_row i st a) rs) - sum_over P (\<lambda>r. max 0 (row_spent r - lr_reserved r)) (map (close_row i st a) rs)
    \<le> sum_over P row_spent rs - sum_over P (\<lambda>r. max 0 (row_spent r - lr_reserved r)) rs"
proof (induction rs)
  case Nil
  then show ?case by (simp add: sum_over_def)
next
  case (Cons r rs)
  have p: "P (close_row i st a r) = P r" by (simp add: close_row_def assms)
  have "row_spent (close_row i st a r) - max 0 (row_spent (close_row i st a r) - lr_reserved (close_row i st a r))
      \<le> row_spent r - max 0 (row_spent r - lr_reserved r)"
    by (auto simp: close_row_def row_spent_def)
  with Cons p show ?case by (auto simp: sum_over_def)
qed

lemma spent_sum_over:
  "spentForRun run l = sum_over (\<lambda>r. lr_run r = run) row_spent (tl_rows l)"
  "spentForDay day l = sum_over (\<lambda>r. lr_day r = day) row_spent (tl_rows l)"
  "overrun P l = sum_over P (\<lambda>r. max 0 (row_spent r - lr_reserved r)) (tl_rows l)"
  by (simp_all add: spentForRun_def spentForDay_def sumSpent_def overrun_def sum_over_def)

lemma close_row_id: "lr_id (close_row i st a r) = lr_id r"
  by (simp add: close_row_def)

lemma ledger_transition_inv:
  assumes "ledger_inv lims l"
  shows "ledger_inv lims (fst (ledger_transition ok i st a l))"
proof (cases ok)
  case False
  with assms show ?thesis by (simp add: ledger_transition_def)
next
  case True
  then have l': "fst (ledger_transition ok i st a l) = l\<lparr>tl_rows := map (close_row i st a) (tl_rows l)\<rparr>"
    by (simp add: ledger_transition_def Let_def)
  have ids: "lr_id \<circ> close_row i st a = lr_id" "row_key \<circ> close_row i st a = row_key"
    by (simp_all add: fun_eq_iff close_row_def row_key_def)
  have run: "spentForRun run (l\<lparr>tl_rows := map (close_row i st a) (tl_rows l)\<rparr>)
      \<le> max 0 (runTokenCeiling lims) + overrun (\<lambda>r. lr_run r = run) (l\<lparr>tl_rows := map (close_row i st a) (tl_rows l)\<rparr>)" for run
  proof -
    have "spentForRun run l \<le> max 0 (runTokenCeiling lims) + overrun (\<lambda>r. lr_run r = run) l"
      using assms by (simp add: ledger_inv_def)
    with close_rows_bound [of "\<lambda>r. lr_run r = run" i st a "tl_rows l"] show ?thesis by (simp add: spent_sum_over)
  qed
  have day: "spentForDay day (l\<lparr>tl_rows := map (close_row i st a) (tl_rows l)\<rparr>)
      \<le> max 0 (dailyTokenCeiling lims) + overrun (\<lambda>r. lr_day r = day) (l\<lparr>tl_rows := map (close_row i st a) (tl_rows l)\<rparr>)" for day
  proof -
    have "spentForDay day l \<le> max 0 (dailyTokenCeiling lims) + overrun (\<lambda>r. lr_day r = day) l"
      using assms by (simp add: ledger_inv_def)
    with close_rows_bound [of "\<lambda>r. lr_day r = day" i st a "tl_rows l"] show ?thesis by (simp add: spent_sum_over)
  qed
  from assms ids run day show ?thesis unfolding l' ledger_inv_def
    by (auto simp: close_row_id)
qed

text \<open>The branches of \<^verbatim>\<open>reserve\<close>.\<close>

lemma reserve_cases:
  obtains (refused) e where "ledger_reserve lims known_run ok inp t l = (l, Inl e)"
  | (recorded) n r where "safe_integer (ri_estimatedTokens inp) = Some n" "0 < n"
      "ledger_reserve lims known_run ok inp t l = (\<lparr>tl_rows = tl_rows l @ [r], tl_seq = tl_seq l + 1\<rparr>, Inr (tl_seq l + 1))"
      "r = \<lparr>lr_id = tl_seq l + 1, lr_run = ri_runId inp, lr_phase = ri_phase inp, lr_attempt = ri_attempt inp,
         lr_day = iso_day t, lr_reserved = n, lr_actual = None, lr_state = Reserved\<rparr>"
      "spentForRun (ri_runId inp) l + n \<le> runTokenCeiling lims" "spentForDay (iso_day t) l + n \<le> dailyTokenCeiling lims"
      "insert_allowed known_run r l"
proof (cases "\<exists>e. ledger_reserve lims known_run ok inp t l = (l, Inl e)")
  case True
  then show thesis using refused by blast
next
  case False
  then obtain n where n: "safe_integer (ri_estimatedTokens inp) = Some n"
    by (auto simp: ledger_reserve_def split: option.splits)
  with False show thesis
    by (intro recorded [OF n]) (auto simp: ledger_reserve_def Let_def not_le not_less split: if_splits)
qed

lemma sum_over_snoc: "sum_over P f (rs @ [r]) = sum_over P f rs + (if P r then f r else 0)"
  by (simp add: sum_over_def)

lemma reserve_inv:
  assumes inv: "ledger_inv lims l"
  shows "ledger_inv lims (fst (ledger_reserve lims known_run ok inp t l))"
proof (cases rule: reserve_cases [of lims known_run ok inp t l])
  case (refused e)
  with inv show ?thesis by simp
next
  case (recorded n r)
  have r: "row_spent r = n" "lr_reserved r = n" "lr_id r = tl_seq l + 1" "lr_run r = ri_runId inp" "lr_day r = iso_day t"
    by (simp_all add: recorded(4) row_spent_def)
  have "spentForRun run l \<le> max 0 (runTokenCeiling lims) + overrun (\<lambda>r. lr_run r = run) l"
    "spentForDay day l \<le> max 0 (dailyTokenCeiling lims) + overrun (\<lambda>r. lr_day r = day) l"
    "0 \<le> overrun P l" for run day P
    using inv overrun_nonneg by (auto simp: ledger_inv_def)
  then have "spentForRun run \<lparr>tl_rows = tl_rows l @ [r], tl_seq = tl_seq l + 1\<rparr> \<le> max 0 (runTokenCeiling lims)
      + overrun (\<lambda>r. lr_run r = run) \<lparr>tl_rows = tl_rows l @ [r], tl_seq = tl_seq l + 1\<rparr>"
    "spentForDay day \<lparr>tl_rows = tl_rows l @ [r], tl_seq = tl_seq l + 1\<rparr> \<le> max 0 (dailyTokenCeiling lims)
      + overrun (\<lambda>r. lr_day r = day) \<lparr>tl_rows = tl_rows l @ [r], tl_seq = tl_seq l + 1\<rparr>" for run day
    using recorded(5,6) r unfolding spent_sum_over
    by (auto simp: sum_over_snoc max_def) (smt (verit))+
  moreover have "\<forall>r \<in> set (tl_rows l). lr_id r \<le> tl_seq l" "distinct (map lr_id (tl_rows l))"
    using inv by (auto simp: ledger_inv_def)
  moreover have "distinct (map row_key (tl_rows l @ [r]))"
    using inv recorded(7) by (auto simp: ledger_inv_def insert_allowed_def row_key_def list_all_iff)
  ultimately show ?thesis using recorded(3) r(3) by (force simp: ledger_inv_def)
qed

interpretation ledger: machine "ledger_step lims known_run" "ledger_inv lims" for lims known_run
proof unfold_locales
  fix l and e :: "bool \<times> ledger_event"
  assume inv: "ledger_inv lims l"
  obtain ok ev where e: "e = (ok, ev)" by fastforce
  show "ledger_inv lims (fst (ledger_step lims known_run l e))"
  proof (cases ev)
    case (Reserve inp t)
    with reserve_inv [OF inv] e show ?thesis by (simp split: prod.splits) (metis fst_conv)
  next
    case (Settle i n)
    with ledger_transition_inv [OF inv] inv e show ?thesis
      by (auto simp: ledger_settle_def split: prod.splits option.splits if_splits) (metis fst_conv)+
  next
    case (Abandon i)
    with ledger_transition_inv [OF inv] e show ?thesis
      by (auto simp: ledger_abandon_def split: prod.splits) (metis fst_conv)
  qed
qed

lemma new_ledger_inv: "ledger_inv lims new_ledger"
  by (simp add: ledger_inv_def new_ledger_def spent_sum_over sum_over_def)

text \<open>C29. The ceilings hold in every run of the ledger, whatever attempts, failed writes, settlements and
  abandonments it mixes: what a run or a day has spent or reserved never exceeds its ceiling by more than
  what its own settled calls used beyond their reservations.\<close>
theorem ledger_ceilings:
  "spentForRun run (final (ledger_step lims known_run) new_ledger es)
     \<le> max 0 (runTokenCeiling lims) + overrun (\<lambda>r. lr_run r = run) (final (ledger_step lims known_run) new_ledger es)
   \<and> spentForDay day (final (ledger_step lims known_run) new_ledger es)
     \<le> max 0 (dailyTokenCeiling lims) + overrun (\<lambda>r. lr_day r = day) (final (ledger_step lims known_run) new_ledger es)"
  using ledger.run_inv [OF new_ledger_inv, of lims known_run es] by (simp add: ledger_inv_def)

subsection \<open>The life of a reservation\<close>

text \<open>A row stays as it is, or is closed once: settled with a count, or abandoned.\<close>

definition row_later :: "ledger_row \<Rightarrow> ledger_row \<Rightarrow> bool" where
  "row_later r r' \<longleftrightarrow> r' = r \<or> lr_state r = Reserved
     \<and> (r' = r\<lparr>lr_state := Abandoned, lr_actual := None\<rparr> \<or> (\<exists>n \<ge> 0. r' = r\<lparr>lr_state := SettledRow, lr_actual := Some n\<rparr>))"

lemma row_later_trans: "row_later a b \<Longrightarrow> row_later b c \<Longrightarrow> row_later a c"
  unfolding row_later_def by (elim disjE conjE exE) auto

definition ledger_later :: "token_ledger \<Rightarrow> token_ledger \<Rightarrow> bool" where
  "ledger_later l l' \<longleftrightarrow> (\<exists>new. \<exists>rs. tl_rows l' = rs @ new \<and> list_all2 row_later (tl_rows l) rs)"

lemma row_later_refl: "list_all2 row_later rs rs"
  by (rule list_all2_refl) (simp add: row_later_def)

lemma ledger_laterI: "tl_rows l' = rs @ new \<Longrightarrow> list_all2 row_later (tl_rows l) rs \<Longrightarrow> ledger_later l l'"
  by (auto simp: ledger_later_def)

lemma ledger_later_refl: "ledger_later l l"
  by (rule ledger_laterI [where new = "[]", OF _ row_later_refl]) simp

lemma ledger_later_trans:
  assumes "ledger_later a b" "ledger_later b c"
  shows "ledger_later a c"
proof -
  obtain rs new where b: "tl_rows b = rs @ new" "list_all2 row_later (tl_rows a) rs"
    using assms(1) by (auto simp: ledger_later_def)
  obtain rs' new' where c: "tl_rows c = rs' @ new'" "list_all2 row_later (rs @ new) rs'"
    using assms(2) b(1) by (auto simp: ledger_later_def)
  then obtain xs ys where "rs' = xs @ ys" "list_all2 row_later rs xs"
    by (auto simp: list_all2_append1)
  with b(2) c(1) list_all2_trans [of row_later row_later row_later "tl_rows a" rs xs] row_later_trans show ?thesis
    unfolding ledger_later_def by (metis append.assoc)
qed

lemma close_rows_later:
  assumes "st = Abandoned \<and> a = None \<or> st = SettledRow \<and> (\<exists>n \<ge> 0. a = Some n)"
  shows "list_all2 row_later rs (map (close_row i st a) rs)"
  using assms by (auto simp: list_all2_conv_all_nth close_row_def row_later_def)

lemma ledger_step_later: "ledger_later l (fst (ledger_step lims known_run l (ok, e)))"
proof (cases e)
  case (Reserve inp t)
  show ?thesis
  proof (cases rule: reserve_cases [of lims known_run ok inp t l])
    case (refused e)
    with Reserve ledger_later_refl show ?thesis by simp
  next
    case (recorded n r)
    with Reserve ledger_laterI [OF _ row_later_refl] show ?thesis by simp
  qed
next
  case (Settle i n)
  show ?thesis
  proof (cases "\<exists>k. safe_integer n = Some k \<and> 0 \<le> k \<and> ok")
    case True
    then obtain k where k: "safe_integer n = Some k" "0 \<le> k" "ok" by blast
    have "ledger_later l (l\<lparr>tl_rows := map (close_row i SettledRow (Some k)) (tl_rows l)\<rparr>)"
      by (rule ledger_laterI [where new = "[]", OF _ close_rows_later [of SettledRow "Some k" "tl_rows l" i]]) (use k in simp_all)
    with k Settle show ?thesis by (simp add: ledger_settle_def ledger_transition_def Let_def)
  next
    case False
    then have "fst (ledger_step lims known_run l (ok, e)) = l"
      using Settle by (cases "safe_integer n") (auto simp: ledger_settle_def ledger_transition_def not_le)
    then show ?thesis using ledger_later_refl by simp
  qed
next
  case (Abandon i)
  have "ledger_later l (l\<lparr>tl_rows := map (close_row i Abandoned None) (tl_rows l)\<rparr>)"
    by (rule ledger_laterI [where new = "[]", OF _ close_rows_later [of Abandoned None "tl_rows l" i]]) simp_all
  with Abandon ledger_later_refl show ?thesis
    by (simp add: ledger_abandon_def ledger_transition_def Let_def)
qed

text \<open>C30. A reservation is recorded once and closed at most once: from any reachable ledger on, whatever
  the later calls, each row keeps its run, phase, attempt, day and amount; it goes from reserved to
  settled or abandoned at most once and then never changes; and no two rows share an id or a
  run, phase and attempt.\<close>
theorem reservation_closed_once:
  "ledger_later (final (ledger_step lims known_run) new_ledger es) (final (ledger_step lims known_run) new_ledger (es @ later))
    \<and> distinct (map lr_id (tl_rows (final (ledger_step lims known_run) new_ledger (es @ later))))
    \<and> distinct (map row_key (tl_rows (final (ledger_step lims known_run) new_ledger (es @ later))))"
proof -
  have "ledger_later s (final (ledger_step lims known_run) s later)" for s
  proof (induction later arbitrary: s)
    case Nil
    then show ?case using ledger_later_refl by simp
  next
    case (Cons e later)
    obtain ok ev where "e = (ok, ev)" by fastforce
    with ledger_later_trans [OF ledger_step_later Cons.IH] show ?case by simp
  qed
  with ledger.run_inv [OF new_ledger_inv, of lims known_run "es @ later"] show ?thesis
    by (simp add: final_append ledger_inv_def)
qed

end
