(* ===== verification/Sink_Queue.thy ===== *)
theory Sink_Queue
  imports Machine "HOL-Library.Sublist"
begin

text \<open>
  The delivery queue of an audit sink, \<^verbatim>\<open>services/ultrathink/obs/sinks/queue.ts\<close>.
  The pump is asynchronous; its \<^verbatim>\<open>await\<close> points are the phases of the state: run
  scheduled, attempt pending, attempt settled but not resumed, backoff pending, backoff over but not
  resumed. The events are the calls of the queue's methods, the transport's answer (an answer, a throw, a
  rejection or the request timeout, each normalised as the source does), the end of a backoff, the timeout
  of a flush, and the microtask that resumes the pump. \<^verbatim>\<open>interrupt\<close> is the pending
  phase itself: closing settles it. What a step emits, sends and resolves is its output, in order.
\<close>

record failure =
  fl_retryable :: bool
  fl_reason :: string

datatype send_result = SendOk | SendFailed failure

datatype 'e phase =
    NotPumping
  | Scheduled
  | Attempt "'e list" nat
  | Answered "'e list" nat send_result
  | Backoff "'e list" nat
  | Woken "'e list" nat

record sq_opts =
  sq_capacity :: nat
  sq_maxBatch :: nat
  sq_maxAttempts :: nat

record 'e sink_queue =
  sq_items :: "'e list"
  sq_head :: nat
  sq_phase :: "'e phase"
  sq_closed :: bool
  sq_idleWaiters :: "nat list"
  sq_flushes :: nat

datatype 'e sq_out =
    Sent nat
  | FailedEvent nat string
  | Dropped nat string
  | Starts "'e list" nat
  | Flushed nat bool

definition pumping :: "'e sink_queue \<Rightarrow> bool" where
  "pumping q \<longleftrightarrow> sq_phase q \<noteq> NotPumping"

subsection \<open>Construction\<close>

definition assertPositiveInteger :: "string \<Rightarrow> js_num \<Rightarrow> js_error + nat" where
  "assertPositiveInteger name v = (case v of
      Fin r \<Rightarrow> if of_int \<lfloor>r\<rfloor> \<noteq> r \<or> r < 1 then Inl (RangeError name) else Inr (nat \<lfloor>r\<rfloor>)
    | _ \<Rightarrow> Inl (RangeError name))"

definition new_queue :: "'e sink_queue" where
  "new_queue = \<lparr>sq_items = [], sq_head = 0, sq_phase = NotPumping, sq_closed = False, sq_idleWaiters = [], sq_flushes = 0\<rparr>"

definition createSinkQueue :: "js_num \<Rightarrow> js_num \<Rightarrow> js_num \<Rightarrow> js_num \<Rightarrow> js_error + (sq_opts \<times> 'e sink_queue)" where
  "createSinkQueue capacity maxBatch maxAttempts requestTimeoutMs =
     (case assertPositiveInteger ''capacity'' capacity of Inl e \<Rightarrow> Inl e | Inr c \<Rightarrow>
      (case assertPositiveInteger ''maxBatch'' maxBatch of Inl e \<Rightarrow> Inl e | Inr b \<Rightarrow>
      (case assertPositiveInteger ''maxAttempts'' maxAttempts of Inl e \<Rightarrow> Inl e | Inr a \<Rightarrow>
      (case requestTimeoutMs of
         Fin ms \<Rightarrow> if ms \<le> 0 then Inl (RangeError ''requestTimeoutMs'')
                   else Inr (\<lparr>sq_capacity = c, sq_maxBatch = b, sq_maxAttempts = a\<rparr>, new_queue)
       | _ \<Rightarrow> Inl (RangeError ''requestTimeoutMs'')))))"

text \<open>What a transport resolves with: a well-formed result, or anything else.\<close>

datatype transport_answer = Resolved send_result | Malformed | Rejected | Threw | TimedOut

definition normalize :: "transport_answer \<Rightarrow> send_result" where
  "normalize a = (case a of
      Resolved r \<Rightarrow> r
    | Malformed \<Rightarrow> SendFailed \<lparr>fl_retryable = True, fl_reason = ''malformed transport result''\<rparr>
    | Rejected \<Rightarrow> SendFailed \<lparr>fl_retryable = True, fl_reason = ''transport rejected''\<rparr>
    | Threw \<Rightarrow> SendFailed \<lparr>fl_retryable = True, fl_reason = ''transport threw''\<rparr>
    | TimedOut \<Rightarrow> SendFailed \<lparr>fl_retryable = True, fl_reason = ''timeout''\<rparr>)"

subsection \<open>The buffer\<close>

definition compact :: "'e sink_queue \<Rightarrow> 'e sink_queue" where
  "compact q =
     (if sq_head q = length (sq_items q) then q\<lparr>sq_items := [], sq_head := 0\<rparr>
      else if sq_head q \<ge> 1024 \<and> sq_head q * 2 \<ge> length (sq_items q)
      then q\<lparr>sq_items := drop (sq_head q) (sq_items q), sq_head := 0\<rparr>
      else q)"

definition takeBatch :: "sq_opts \<Rightarrow> 'e sink_queue \<Rightarrow> 'e sink_queue \<times> 'e list" where
  "takeBatch opt q =
     (let till = min (length (sq_items q)) (sq_head q + sq_maxBatch opt);
          batch = take (till - sq_head q) (drop (sq_head q) (sq_items q))
      in (compact (q\<lparr>sq_head := till\<rparr>), batch))"

definition depth :: "'e sink_queue \<Rightarrow> nat" where
  "depth q = length (sq_items q) - sq_head q"

subsection \<open>The pump\<close>

definition resolveIdle :: "bool \<Rightarrow> 'e sink_queue \<Rightarrow> 'e sink_queue \<times> 'e sq_out list" where
  "resolveIdle idle q = (q\<lparr>sq_idleWaiters := []\<rparr>, map (\<lambda>w. Flushed w idle) (sq_idleWaiters q))"

text \<open>The loop head of \<^verbatim>\<open>run\<close>: the next batch's first attempt, or the end of the pump.\<close>

definition run_pump :: "sq_opts \<Rightarrow> 'e sink_queue \<Rightarrow> 'e sink_queue \<times> 'e sq_out list" where
  "run_pump opt q =
     (if \<not> sq_closed q \<and> length (sq_items q) > sq_head q
      then let (q', batch) = takeBatch opt q in (q'\<lparr>sq_phase := Attempt batch 1\<rparr>, [Starts batch 1])
      else let q' = q\<lparr>sq_phase := NotPumping\<rparr> in
           if \<not> sq_closed q \<and> length (sq_items q) = sq_head q then resolveIdle True q' else (q', []))"

definition giveUp :: "nat \<Rightarrow> failure \<Rightarrow> 'e sq_out list" where
  "giveUp count f = [FailedEvent count (fl_reason f), Dropped count (fl_reason f)]"

definition and_then :: "'e sq_out list \<Rightarrow> 'e sink_queue \<times> 'e sq_out list \<Rightarrow> 'e sink_queue \<times> 'e sq_out list" where
  "and_then out r = (fst r, out @ snd r)"

text \<open>\<^verbatim>\<open>deliver\<close> resumed after an attempt, and after a backoff.\<close>

definition after_attempt :: "sq_opts \<Rightarrow> 'e list \<Rightarrow> nat \<Rightarrow> send_result \<Rightarrow> 'e sink_queue \<Rightarrow> 'e sink_queue \<times> 'e sq_out list" where
  "after_attempt opt batch n r q = (case r of
      SendOk \<Rightarrow> and_then [Sent (length batch)] (run_pump opt q)
    | SendFailed f \<Rightarrow>
        if sq_closed q then and_then [Dropped (length batch) ''closed''] (run_pump opt q)
        else if \<not> fl_retryable f \<or> n \<ge> sq_maxAttempts opt then and_then (giveUp (length batch) f) (run_pump opt q)
        else (q\<lparr>sq_phase := Backoff batch n\<rparr>, []))"

definition after_backoff :: "sq_opts \<Rightarrow> 'e list \<Rightarrow> nat \<Rightarrow> 'e sink_queue \<Rightarrow> 'e sink_queue \<times> 'e sq_out list" where
  "after_backoff opt batch n q =
     (if sq_closed q then and_then [Dropped (length batch) ''closed''] (run_pump opt q)
      else (q\<lparr>sq_phase := Attempt batch (n + 1)\<rparr>, [Starts batch (n + 1)]))"

definition resume :: "sq_opts \<Rightarrow> 'e sink_queue \<Rightarrow> 'e sink_queue \<times> 'e sq_out list" where
  "resume opt q = (case sq_phase q of
      Scheduled \<Rightarrow> run_pump opt q
    | Answered batch n r \<Rightarrow> after_attempt opt batch n r q
    | Woken batch n \<Rightarrow> after_backoff opt batch n q
    | _ \<Rightarrow> (q, []))"

subsection \<open>The queue's methods\<close>

definition enqueue :: "sq_opts \<Rightarrow> 'e \<Rightarrow> 'e sink_queue \<Rightarrow> 'e sink_queue \<times> 'e sq_out list" where
  "enqueue opt e q =
     (if sq_closed q then (q, [Dropped 1 ''closed''])
      else
        let overflowed = (length (sq_items q) - sq_head q \<ge> sq_capacity opt);
            q\<^sub>1 = (if overflowed then compact (q\<lparr>sq_head := sq_head q + 1\<rparr>) else q);
            q\<^sub>2 = q\<^sub>1\<lparr>sq_items := sq_items q\<^sub>1 @ [e]\<rparr>;
            q\<^sub>3 = (if pumping q\<^sub>2 then q\<^sub>2 else q\<^sub>2\<lparr>sq_phase := Scheduled\<rparr>)
        in (q\<^sub>3, if overflowed then [Dropped 1 ''overflow''] else []))"

definition flush :: "'e sink_queue \<Rightarrow> 'e sink_queue \<times> 'e sq_out list" where
  "flush q = (let w = sq_flushes q; q' = q\<lparr>sq_flushes := w + 1\<rparr> in
     if sq_closed q then (q', [Flushed w False])
     else if \<not> pumping q \<and> length (sq_items q) = sq_head q then (q', [Flushed w True])
     else (q'\<lparr>sq_idleWaiters := sq_idleWaiters q @ [w]\<rparr>, []))"

definition flush_timeout :: "nat \<Rightarrow> 'e sink_queue \<Rightarrow> 'e sink_queue \<times> 'e sq_out list" where
  "flush_timeout w q =
     (if w \<in> set (sq_idleWaiters q)
      then (q\<lparr>sq_idleWaiters := remove1 w (sq_idleWaiters q)\<rparr>, [Flushed w False]) else (q, []))"

text \<open>\<^verbatim>\<open>interrupt\<close>: what closing does to the wait the pump is in.\<close>

definition interrupt :: "'e phase \<Rightarrow> 'e phase" where
  "interrupt p = (case p of
      Attempt batch n \<Rightarrow> Answered batch n (SendFailed \<lparr>fl_retryable = False, fl_reason = ''closed''\<rparr>)
    | Backoff batch n \<Rightarrow> Woken batch n
    | _ \<Rightarrow> p)"

definition close_queue :: "'e sink_queue \<Rightarrow> 'e sink_queue \<times> 'e sq_out list" where
  "close_queue q =
     (if sq_closed q then (q, [])
      else
        let dropped = length (sq_items q) - sq_head q;
            q' = q\<lparr>sq_closed := True, sq_items := [], sq_head := 0, sq_phase := interrupt (sq_phase q)\<rparr>;
            (q'', out) = resolveIdle False q'
        in (q'', out @ (if dropped > 0 then [Dropped dropped ''closed''] else [])))"

definition answer :: "transport_answer \<Rightarrow> 'e sink_queue \<Rightarrow> 'e sink_queue" where
  "answer a q = (case sq_phase q of Attempt batch n \<Rightarrow> q\<lparr>sq_phase := Answered batch n (normalize a)\<rparr> | _ \<Rightarrow> q)"

definition backoff_over :: "'e sink_queue \<Rightarrow> 'e sink_queue" where
  "backoff_over q = (case sq_phase q of Backoff batch n \<Rightarrow> q\<lparr>sq_phase := Woken batch n\<rparr> | _ \<Rightarrow> q)"

datatype 'e sq_event = Enqueue 'e | Flush | FlushTimeout nat | Close | Answer transport_answer | BackoffOver | Resume

fun sq_step :: "sq_opts \<Rightarrow> 'e sink_queue \<Rightarrow> 'e sq_event \<Rightarrow> 'e sink_queue \<times> 'e sq_out list" where
  "sq_step opt q (Enqueue e) = enqueue opt e q"
| "sq_step opt q Flush = flush q"
| "sq_step opt q (FlushTimeout w) = flush_timeout w q"
| "sq_step opt q Close = close_queue q"
| "sq_step opt q (Answer a) = (answer a q, [])"
| "sq_step opt q BackoffOver = (backoff_over q, [])"
| "sq_step opt q Resume = resume opt q"

subsection \<open>The specification: a queue is a list\<close>

text \<open>
  The same pump over the plain list of the pending envelopes. The array with its moving head, and when
  it is copied, must not be observable.
\<close>

record 'e fifo =
  ff_pending :: "'e list"
  ff_phase :: "'e phase"
  ff_closed :: bool
  ff_idleWaiters :: "nat list"
  ff_flushes :: nat

definition ff_pump :: "sq_opts \<Rightarrow> 'e fifo \<Rightarrow> 'e fifo \<times> 'e sq_out list" where
  "ff_pump opt q =
     (if \<not> ff_closed q \<and> ff_pending q \<noteq> []
      then let batch = take (sq_maxBatch opt) (ff_pending q) in
        (q\<lparr>ff_pending := drop (sq_maxBatch opt) (ff_pending q), ff_phase := Attempt batch 1\<rparr>, [Starts batch 1])
      else if ff_closed q then (q\<lparr>ff_phase := NotPumping\<rparr>, [])
      else (q\<lparr>ff_phase := NotPumping, ff_idleWaiters := []\<rparr>, map (\<lambda>w. Flushed w True) (ff_idleWaiters q)))"

definition ff_give :: "sq_opts \<Rightarrow> 'e sq_out list \<Rightarrow> 'e fifo \<Rightarrow> 'e fifo \<times> 'e sq_out list" where
  "ff_give opt out q = (fst (ff_pump opt q), out @ snd (ff_pump opt q))"

definition ff_resume :: "sq_opts \<Rightarrow> 'e fifo \<Rightarrow> 'e fifo \<times> 'e sq_out list" where
  "ff_resume opt q = (case ff_phase q of
      Scheduled \<Rightarrow> ff_pump opt q
    | Answered batch n SendOk \<Rightarrow> ff_give opt [Sent (length batch)] q
    | Answered batch n (SendFailed f) \<Rightarrow>
        if ff_closed q then ff_give opt [Dropped (length batch) ''closed''] q
        else if \<not> fl_retryable f \<or> n \<ge> sq_maxAttempts opt then ff_give opt (giveUp (length batch) f) q
        else (q\<lparr>ff_phase := Backoff batch n\<rparr>, [])
    | Woken batch n \<Rightarrow>
        if ff_closed q then ff_give opt [Dropped (length batch) ''closed''] q
        else (q\<lparr>ff_phase := Attempt batch (n + 1)\<rparr>, [Starts batch (n + 1)])
    | _ \<Rightarrow> (q, []))"

fun ff_step :: "sq_opts \<Rightarrow> 'e fifo \<Rightarrow> 'e sq_event \<Rightarrow> 'e fifo \<times> 'e sq_out list" where
  "ff_step opt q (Enqueue e) =
     (if ff_closed q then (q, [Dropped 1 ''closed''])
      else
        let full = (length (ff_pending q) \<ge> sq_capacity opt) in
        (q\<lparr>ff_pending := (if full then tl (ff_pending q) else ff_pending q) @ [e],
           ff_phase := (if ff_phase q = NotPumping then Scheduled else ff_phase q)\<rparr>,
         if full then [Dropped 1 ''overflow''] else []))"
| "ff_step opt q Flush =
     (let w = ff_flushes q; q' = q\<lparr>ff_flushes := w + 1\<rparr> in
      if ff_closed q then (q', [Flushed w False])
      else if ff_phase q = NotPumping \<and> ff_pending q = [] then (q', [Flushed w True])
      else (q'\<lparr>ff_idleWaiters := ff_idleWaiters q @ [w]\<rparr>, []))"
| "ff_step opt q (FlushTimeout w) =
     (if w \<in> set (ff_idleWaiters q)
      then (q\<lparr>ff_idleWaiters := remove1 w (ff_idleWaiters q)\<rparr>, [Flushed w False]) else (q, []))"
| "ff_step opt q Close =
     (if ff_closed q then (q, [])
      else (q\<lparr>ff_closed := True, ff_pending := [], ff_phase := interrupt (ff_phase q), ff_idleWaiters := []\<rparr>,
            map (\<lambda>w. Flushed w False) (ff_idleWaiters q)
            @ (if ff_pending q \<noteq> [] then [Dropped (length (ff_pending q)) ''closed''] else [])))"
| "ff_step opt q (Answer a) =
     ((case ff_phase q of Attempt batch n \<Rightarrow> q\<lparr>ff_phase := Answered batch n (normalize a)\<rparr> | _ \<Rightarrow> q), [])"
| "ff_step opt q BackoffOver =
     ((case ff_phase q of Backoff batch n \<Rightarrow> q\<lparr>ff_phase := Woken batch n\<rparr> | _ \<Rightarrow> q), [])"
| "ff_step opt q Resume = ff_resume opt q"

definition to_fifo :: "'e sink_queue \<Rightarrow> 'e fifo" where
  "to_fifo q = \<lparr>ff_pending = drop (sq_head q) (sq_items q), ff_phase = sq_phase q, ff_closed = sq_closed q,
     ff_idleWaiters = sq_idleWaiters q, ff_flushes = sq_flushes q\<rparr>"

definition head_ok :: "sq_opts \<Rightarrow> 'e sink_queue \<Rightarrow> bool" where
  "head_ok opt q \<longleftrightarrow> sq_head q \<le> length (sq_items q) \<and> 1 \<le> sq_capacity opt"

lemma compact_facts:
  "sq_head q \<le> length (sq_items q) \<Longrightarrow> sq_head (compact q) \<le> length (sq_items (compact q))"
  "to_fifo (compact q) = to_fifo q"
  by (simp_all add: compact_def to_fifo_def)

lemma take_facts:
  assumes "head_ok opt q" "takeBatch opt q = (q', batch)"
  shows "head_ok opt q'" "batch = take (sq_maxBatch opt) (ff_pending (to_fifo q))"
    "to_fifo q' = (to_fifo q)\<lparr>ff_pending := drop (sq_maxBatch opt) (ff_pending (to_fifo q))\<rparr>"
    "sq_closed q' = sq_closed q"
proof -
  let ?t = "min (length (sq_items q)) (sq_head q + sq_maxBatch opt)"
  have q': "q' = compact (q\<lparr>sq_head := ?t\<rparr>)" and b: "batch = take (?t - sq_head q) (drop (sq_head q) (sq_items q))"
    using assms(2) by (simp_all add: takeBatch_def Let_def)
  show "head_ok opt q'" using assms(1) compact_facts(1) [of "q\<lparr>sq_head := ?t\<rparr>"] by (simp add: head_ok_def q')
  show "batch = take (sq_maxBatch opt) (ff_pending (to_fifo q))"
    using assms(1) by (auto simp: b to_fifo_def head_ok_def min_def)
  show "to_fifo q' = (to_fifo q)\<lparr>ff_pending := drop (sq_maxBatch opt) (ff_pending (to_fifo q))\<rparr>"
    unfolding q' compact_facts(2) by (auto simp: to_fifo_def min_def add.commute)
  show "sq_closed q' = sq_closed q" by (simp add: q' compact_def)
qed

lemma pump_refines:
  assumes "head_ok opt q"
  shows "head_ok opt (fst (run_pump opt q))
    \<and> ff_pump opt (to_fifo q) = (to_fifo (fst (run_pump opt q)), snd (run_pump opt q))"
proof (cases "\<not> sq_closed q \<and> sq_head q < length (sq_items q)")
  case True
  obtain q' batch where t: "takeBatch opt q = (q', batch)" by fastforce
  have "head_ok opt (q'\<lparr>sq_phase := p\<rparr>)" "to_fifo (q'\<lparr>sq_phase := p\<rparr>) = (to_fifo q')\<lparr>ff_phase := p\<rparr>" for p
    using take_facts(1) [OF assms t] by (simp_all add: head_ok_def to_fifo_def)
  moreover have "ff_pending (to_fifo q) \<noteq> []" "\<not> ff_closed (to_fifo q)" using True by (simp_all add: to_fifo_def)
  moreover have "run_pump opt q = (q'\<lparr>sq_phase := Attempt batch 1\<rparr>, [Starts batch 1])"
    using True t by (simp add: run_pump_def)
  ultimately show ?thesis using take_facts [OF assms t] by (simp add: ff_pump_def Let_def)
next
  case False
  with assms show ?thesis
    by (auto simp: run_pump_def ff_pump_def head_ok_def to_fifo_def resolveIdle_def Let_def)
qed

lemma step_refines:
  assumes ok: "head_ok opt q"
  shows "head_ok opt (fst (sq_step opt q e))
    \<and> ff_step opt (to_fifo q) e = (to_fifo (fst (sq_step opt q e)), snd (sq_step opt q e))"
proof (cases e)
  case (Enqueue x)
  show ?thesis
  proof (cases "sq_closed q")
    case True
    with ok Enqueue show ?thesis by (simp add: enqueue_def to_fifo_def)
  next
    case False
    define over where "over = (sq_capacity opt \<le> length (sq_items q) - sq_head q)"
    define q\<^sub>1 where "q\<^sub>1 = (if over then compact (q\<lparr>sq_head := sq_head q + 1\<rparr>) else q)"
    have h: "sq_head q\<^sub>1 \<le> length (sq_items q\<^sub>1)" "1 \<le> sq_capacity opt"
      using ok compact_facts(1) [of "q\<lparr>sq_head := sq_head q + 1\<rparr>"] by (auto simp: head_ok_def q\<^sub>1_def over_def)
    have f: "to_fifo q\<^sub>1 = (to_fifo q)\<lparr>ff_pending := (if over then tl (ff_pending (to_fifo q)) else ff_pending (to_fifo q))\<rparr>"
      unfolding q\<^sub>1_def if_distrib [of to_fifo] compact_facts(2) by (simp add: to_fifo_def drop_Suc tl_drop)
    have same: "sq_phase q\<^sub>1 = sq_phase q" by (simp add: q\<^sub>1_def compact_def)
    let ?q = "q\<^sub>1\<lparr>sq_items := sq_items q\<^sub>1 @ [x], sq_phase := (if sq_phase q = NotPumping then Scheduled else sq_phase q)\<rparr>"
    have step: "sq_step opt q e = (?q, if over then [Dropped 1 ''overflow''] else [])"
      using Enqueue False same by (simp add: enqueue_def Let_def pumping_def q\<^sub>1_def over_def)
    have "to_fifo ?q = (to_fifo q\<^sub>1)\<lparr>ff_pending := ff_pending (to_fifo q\<^sub>1) @ [x],
        ff_phase := (if sq_phase q = NotPumping then Scheduled else sq_phase q)\<rparr>"
      using h(1) by (simp add: to_fifo_def)
    moreover have "ff_closed (to_fifo q) = sq_closed q" "ff_phase (to_fifo q) = sq_phase q"
      "length (ff_pending (to_fifo q)) = length (sq_items q) - sq_head q" by (simp_all add: to_fifo_def)
    ultimately show ?thesis
      unfolding step using h Enqueue False f by (simp add: Let_def head_ok_def over_def)
  qed
next
  case Flush
  with ok show ?thesis
    by (auto simp: flush_def Let_def head_ok_def to_fifo_def pumping_def)
next
  case (FlushTimeout w)
  with ok show ?thesis by (auto simp: flush_timeout_def head_ok_def to_fifo_def)
next
  case Close
  with ok show ?thesis by (auto simp: close_queue_def Let_def head_ok_def to_fifo_def resolveIdle_def)
next
  case (Answer a)
  with ok show ?thesis by (auto simp: answer_def head_ok_def to_fifo_def split: phase.splits)
next
  case BackoffOver
  with ok show ?thesis by (auto simp: backoff_over_def head_ok_def to_fifo_def split: phase.splits)
next
  case Resume
  have [simp]: "ff_phase (to_fifo q) = sq_phase q" "ff_closed (to_fifo q) = sq_closed q" by (simp_all add: to_fifo_def)
  show ?thesis using Resume ok pump_refines [OF ok]
    by (auto simp: resume_def ff_resume_def after_attempt_def after_backoff_def and_then_def ff_give_def
        head_ok_def to_fifo_def split: phase.splits send_result.splits)
qed

interpretation sink_queue: simulation "sq_step opt" "head_ok opt" "ff_step opt" to_fifo for opt :: sq_opts
  by unfold_locales (use step_refines in auto)

lemma created_queue:
  assumes "createSinkQueue c b a r = Inr (opt, q)"
  shows "q = new_queue" and "1 \<le> sq_capacity opt" and "1 \<le> sq_maxAttempts opt"
  using assms
  by (auto simp: createSinkQueue_def assertPositiveInteger_def le_nat_iff le_floor_iff
      split: js_num.splits if_splits sum.splits)

text \<open>C31. The array with its moving head is a queue: in every run of a created sink queue, whatever the
  transport answers and whenever the pump resumes, everything it emits, sends and resolves is what the
  specification over a plain list does, and the waiting envelopes are the specification's list.\<close>
theorem sink_queue_refines_list:
  assumes "createSinkQueue c b a r = Inr (opt, q)"
  shows "snd (exec (sq_step opt) q es) = snd (exec (ff_step opt) (to_fifo q) es)
    \<and> drop (sq_head (final (sq_step opt) q es)) (sq_items (final (sq_step opt) q es))
      = ff_pending (final (ff_step opt) (to_fifo q) es)"
proof -
  have "head_ok opt q" using created_queue [OF assms] by (simp add: head_ok_def new_queue_def)
  from sink_queue.run_abs [OF this, of es] show ?thesis by (simp add: final_def to_fifo_def)
qed

definition sample_sq_opts :: sq_opts where
  "sample_sq_opts = \<lparr>sq_capacity = 2, sq_maxBatch = 2, sq_maxAttempts = 2\<rparr>"

lemma sample_sq_created: "createSinkQueue (Fin 2) (Fin 2) (Fin 2) (Fin 100) = Inr (sample_sq_opts, new_queue)"
  by (simp add: createSinkQueue_def assertPositiveInteger_def sample_sq_opts_def)

lemma sink_queue_refines_list_witness:
  "snd (exec (sq_step sample_sq_opts) new_queue [Enqueue 1, Resume, Enqueue 2, Answer TimedOut, Resume, Close])
    = snd (exec (ff_step sample_sq_opts) (to_fifo new_queue) [Enqueue (1::nat), Resume, Enqueue 2, Answer TimedOut, Resume, Close])"
  using sink_queue_refines_list [OF sample_sq_created] by blast

subsection \<open>Accounting and bounds, on the specification\<close>

fun in_flight :: "'e phase \<Rightarrow> 'e list" where
  "in_flight NotPumping = []"
| "in_flight Scheduled = []"
| "in_flight (Attempt b n) = b"
| "in_flight (Answered b n r) = b"
| "in_flight (Backoff b n) = b"
| "in_flight (Woken b n) = b"

fun settled_count :: "'e sq_out \<Rightarrow> nat" where
  "settled_count (Sent n) = n"
| "settled_count (Dropped n _) = n"
| "settled_count _ = 0"

fun starts_ok :: "sq_opts \<Rightarrow> 'e sq_out \<Rightarrow> bool" where
  "starts_ok opt (Starts b n) \<longleftrightarrow> n \<le> sq_maxAttempts opt \<and> length b \<le> sq_maxBatch opt"
| "starts_ok opt _ \<longleftrightarrow> True"

fun enqueued :: "'e sq_event \<Rightarrow> 'e list" where
  "enqueued (Enqueue e) = [e]"
| "enqueued _ = []"

text \<open>The envelopes whose first attempt starts, in the order of the attempts.\<close>

fun first_sends :: "'e sq_out \<Rightarrow> 'e list" where
  "first_sends (Starts b n) = (if n = 1 then b else [])"
| "first_sends _ = []"

fun phase_ok :: "sq_opts \<Rightarrow> 'e phase \<Rightarrow> bool" where
  "phase_ok opt (Attempt b n) \<longleftrightarrow> 1 \<le> n \<and> n \<le> sq_maxAttempts opt \<and> length b \<le> sq_maxBatch opt"
| "phase_ok opt (Answered b n r) \<longleftrightarrow> 1 \<le> n \<and> n \<le> sq_maxAttempts opt \<and> length b \<le> sq_maxBatch opt"
| "phase_ok opt (Backoff b n) \<longleftrightarrow> 1 \<le> n \<and> n < sq_maxAttempts opt \<and> length b \<le> sq_maxBatch opt"
| "phase_ok opt (Woken b n) \<longleftrightarrow> 1 \<le> n \<and> (n < sq_maxAttempts opt) \<and> length b \<le> sq_maxBatch opt"
| "phase_ok opt _ \<longleftrightarrow> True"

definition fifo_ok :: "sq_opts \<Rightarrow> 'e fifo \<Rightarrow> bool" where
  "fifo_ok opt q \<longleftrightarrow> 1 \<le> sq_capacity opt \<and> 1 \<le> sq_maxAttempts opt
     \<and> length (ff_pending q) \<le> sq_capacity opt \<and> phase_ok opt (ff_phase q)"

text \<open>What one step promises: nothing is lost or invented, the bounds hold, and sends follow arrival order.\<close>

definition fifo_step_ok :: "sq_opts \<Rightarrow> 'e fifo \<Rightarrow> 'e sq_event \<Rightarrow> 'e sq_out list \<Rightarrow> 'e fifo \<Rightarrow> bool" where
  "fifo_step_ok opt q e out q' \<longleftrightarrow> fifo_ok opt q'
     \<and> length (ff_pending q) + length (in_flight (ff_phase q)) + length (enqueued e)
       = length (ff_pending q') + length (in_flight (ff_phase q')) + sum_list (map settled_count out)
     \<and> list_all (starts_ok opt) out
     \<and> subseq (concat (map first_sends out) @ ff_pending q') (ff_pending q @ enqueued e)"

lemma quiet_flush [simp]:
  "sum_list (map settled_count (map (\<lambda>w. Flushed w b) ws)) = 0"
  "list_all (starts_ok opt) (map (\<lambda>w. Flushed w b) ws)"
  "concat (map first_sends (map (\<lambda>w. Flushed w b) ws)) = []"
  by (induction ws) auto

lemma pump_step_ok:
  assumes "fifo_ok opt q"
  shows "fifo_ok opt (fst (ff_pump opt q))
    \<and> length (ff_pending q) = length (ff_pending (fst (ff_pump opt q))) + length (in_flight (ff_phase (fst (ff_pump opt q))))
    \<and> sum_list (map settled_count (snd (ff_pump opt q))) = 0
    \<and> list_all (starts_ok opt) (snd (ff_pump opt q))
    \<and> concat (map first_sends (snd (ff_pump opt q))) @ ff_pending (fst (ff_pump opt q)) = ff_pending q"
  using assms by (auto simp: ff_pump_def Let_def fifo_ok_def simp flip: map_map)

lemma fifo_resume_ok:
  assumes ok: "fifo_ok opt q"
  shows "fifo_step_ok opt q Resume (snd (ff_resume opt q)) (fst (ff_resume opt q))"
proof -
  note p = pump_step_ok [OF ok]
  have give: "fifo_step_ok opt q Resume (snd (ff_give opt out q)) (fst (ff_give opt out q))"
    if "sum_list (map settled_count out) = length (in_flight (ff_phase q))" "list_all (starts_ok opt) out"
      "concat (map first_sends out) = []" for out
    using that p by (simp add: fifo_step_ok_def ff_give_def del: concat_eq_Nil_conv)
  have bounds: "1 \<le> sq_capacity opt" "1 \<le> sq_maxAttempts opt" "length (ff_pending q) \<le> sq_capacity opt" "phase_ok opt (ff_phase q)"
    using ok by (simp_all add: fifo_ok_def)
  show ?thesis
  proof (cases "ff_phase q")
    case Scheduled
    with p show ?thesis by (simp add: ff_resume_def fifo_step_ok_def)
  next
    case (Answered batch n r)
    show ?thesis
    proof (cases r)
      case SendOk
      with Answered give [of "[Sent (length batch)]"] show ?thesis by (simp add: ff_resume_def)
    next
      case (SendFailed f)
      with Answered bounds give [of "[Dropped (length batch) ''closed'']"] give [of "giveUp (length batch) f"] show ?thesis
        by (auto simp: ff_resume_def giveUp_def fifo_step_ok_def fifo_ok_def)
    qed
  next
    case (Woken batch n)
    with bounds give [of "[Dropped (length batch) ''closed'']"] show ?thesis
      by (auto simp: ff_resume_def fifo_step_ok_def fifo_ok_def)
  qed (use ok in \<open>simp_all add: ff_resume_def fifo_step_ok_def\<close>)
qed

lemma fifo_step_keeps:
  assumes ok: "fifo_ok opt q"
  shows "fifo_step_ok opt q e (snd (ff_step opt q e)) (fst (ff_step opt q e))"
proof (cases e)
  case (Enqueue x)
  have "subseq (tl (ff_pending q) @ [x]) (ff_pending q @ [x])" by (cases "ff_pending q") auto
  with Enqueue ok show ?thesis by (auto simp: fifo_step_ok_def fifo_ok_def Let_def)
next
  case Close
  have "length (in_flight (interrupt (ff_phase q))) = length (in_flight (ff_phase q))" "phase_ok opt (interrupt (ff_phase q))"
    using ok by (cases "ff_phase q"; simp add: interrupt_def fifo_ok_def)+
  with Close ok show ?thesis by (auto simp: fifo_step_ok_def fifo_ok_def simp flip: map_map)
next
  case Resume
  with fifo_resume_ok [OF ok] show ?thesis by simp
next
  case (Answer a)
  with ok show ?thesis by (cases "ff_phase q") (auto simp: fifo_step_ok_def fifo_ok_def)
next
  case BackoffOver
  with ok show ?thesis by (cases "ff_phase q") (auto simp: fifo_step_ok_def fifo_ok_def)
qed (use ok in \<open>auto simp: fifo_step_ok_def fifo_ok_def Let_def\<close>)

interpretation fifo: monitored_machine "ff_step opt" "fifo_ok opt" "fifo_step_ok opt" for opt :: sq_opts
  by unfold_locales (use fifo_step_keeps in \<open>auto simp: fifo_step_ok_def\<close>)

lemma fifo_run_ok:
  fixes q :: "'e fifo" and es :: "'e sq_event list"
  assumes "fifo_ok opt q"
  defines "outs \<equiv> concat (snd (exec (ff_step opt) q es))" and "q' \<equiv> final (ff_step opt) q es"
  shows "fifo_ok opt q'
    \<and> length (ff_pending q) + length (in_flight (ff_phase q)) + length (concat (map enqueued es))
      = length (ff_pending q') + length (in_flight (ff_phase q')) + sum_list (map settled_count outs)
    \<and> list_all (starts_ok opt) outs
    \<and> subseq (concat (map first_sends outs)) (ff_pending q @ concat (map enqueued es))"
  using assms(1) unfolding outs_def q'_def
proof (induction es arbitrary: q)
  case Nil
  then show ?case by simp
next
  case (Cons e es)
  obtain q\<^sub>1 out where st: "ff_step opt q e = (q\<^sub>1, out)" by fastforce
  have step: "fifo_step_ok opt q e out q\<^sub>1" using fifo_step_keeps [OF Cons.prems, of e] st by simp
  then have ok: "fifo_ok opt q\<^sub>1" by (simp add: fifo_step_ok_def)
  note ih = Cons.IH [OF ok]
  have ex: "snd (exec (ff_step opt) q (e # es)) = out # snd (exec (ff_step opt) q\<^sub>1 es)"
    "final (ff_step opt) q (e # es) = final (ff_step opt) q\<^sub>1 es"
    using st by (simp_all split: prod.splits)
  have sub: "subseq (concat (map first_sends out) @ ff_pending q\<^sub>1) (ff_pending q @ enqueued e)"
    using step by (simp add: fifo_step_ok_def)
  have "subseq (concat (map first_sends out) @ concat (map first_sends (concat (snd (exec (ff_step opt) q\<^sub>1 es)))))
      (concat (map first_sends out) @ ff_pending q\<^sub>1 @ concat (map enqueued es))"
    by (rule list_emb_append_mono [OF subseq_order.refl]) (use ih in blast)
  also have "subseq \<dots> ((ff_pending q @ enqueued e) @ concat (map enqueued es))"
    using list_emb_append_mono [OF sub subseq_order.refl] by simp
  finally have order: "subseq (concat (map first_sends out) @ concat (map first_sends (concat (snd (exec (ff_step opt) q\<^sub>1 es)))))
      ((ff_pending q @ enqueued e) @ concat (map enqueued es))" .
  show ?case
    unfolding ex using ih step order by (simp add: fifo_step_ok_def)
qed

text \<open>Every envelope is accounted for, and the limits hold: in every run of a created sink queue the
  envelopes enqueued are those reported sent, those reported dropped, those in flight and those waiting;
  at most \<^verbatim>\<open>capacity\<close> wait; and no send has more than \<^verbatim>\<open>maxBatch\<close>
  envelopes or is more than the \<^verbatim>\<open>maxAttempts\<close>-th attempt.\<close>
theorem sink_queue_accounting:
  assumes "createSinkQueue c b a r = Inr (opt, q)"
    and "q' = final (sq_step opt) q es" and "outs = concat (snd (exec (sq_step opt) q es))"
  shows "length (concat (map enqueued es)) = sum_list (map settled_count outs) + length (in_flight (sq_phase q')) + depth q'
    \<and> depth q' \<le> sq_capacity opt \<and> list_all (starts_ok opt) outs"
proof -
  note q = created_queue [OF assms(1)]
  have h: "head_ok opt q" using q by (simp add: head_ok_def new_queue_def)
  have f: "fifo_ok opt (to_fifo q)" using q by (simp add: fifo_ok_def to_fifo_def new_queue_def)
  have abs: "final (ff_step opt) (to_fifo q) es = to_fifo q'" "concat (snd (exec (ff_step opt) (to_fifo q) es)) = outs"
    using sink_queue.run_abs [OF h, of es] by (simp_all add: final_def assms(2,3))
  have "ff_pending (to_fifo q) = []" "in_flight (ff_phase (to_fifo q)) = []" by (simp_all add: q(1) to_fifo_def new_queue_def)
  with fifo_run_ok [OF f, of es] show ?thesis
    unfolding abs by (simp add: fifo_ok_def) (simp add: to_fifo_def depth_def)
qed

lemma sink_queue_accounting_witness:
  "depth (final (sq_step sample_sq_opts) new_queue [Enqueue (1::nat), Resume, Enqueue 2, Enqueue 3, Enqueue 4]) \<le> 2"
  using sink_queue_accounting [OF sample_sq_created refl refl, of "[Enqueue (1::nat), Resume, Enqueue 2, Enqueue 3, Enqueue 4]"]
  by (simp add: sample_sq_opts_def)

text \<open>Delivery order: in every run of a created sink queue the envelopes whose delivery is attempted, in
  the order of their first attempts, are a subsequence of the envelopes in the order they were enqueued.\<close>
theorem sink_queue_in_order:
  assumes "createSinkQueue c b a r = Inr (opt, q)"
  shows "subseq (concat (map first_sends (concat (snd (exec (sq_step opt) q es))))) (concat (map enqueued es))"
proof -
  note q = created_queue [OF assms(1)]
  have h: "head_ok opt q" using q by (simp add: head_ok_def new_queue_def)
  have f: "fifo_ok opt (to_fifo q)" using q by (simp add: fifo_ok_def to_fifo_def new_queue_def)
  have "ff_pending (to_fifo q) = []" by (simp add: q(1) to_fifo_def new_queue_def)
  with fifo_run_ok [OF f, of es] show ?thesis using sink_queue.run_outputs [OF h, of es] by simp
qed

lemma sink_queue_in_order_witness:
  "subseq (concat (map first_sends (concat (snd (exec (sq_step sample_sq_opts) new_queue [Enqueue 1, Resume, Enqueue 2])))))
    (concat (map enqueued [Enqueue (1::nat), Resume, Enqueue 2]))"
  by (rule sink_queue_in_order [OF sample_sq_created])

end
