(* ===== verification/Merkle.thy ===== *)
theory Merkle
  imports Validation
begin

text \<open>
  The Merkle Mountain Range frontier of the audit chain,
  \<^verbatim>\<open>services/ultrathink/obs/audit-merkle.ts\<close>. SHA-256 in hex is the parameter \<open>sha\<close>,
  a function of the bytes hashed; its documented output is \<open>sha_format\<close>. The peaks are the list the
  source keeps, highest first. A frontier's root is compared with the Merkle tree hash of RFC 6962, defined
  here by that document's recursion.
\<close>

definition HEX_64 :: "string \<Rightarrow> bool" where
  "HEX_64 s = class_run is_hex_lower 64 64 s"

definition EMPTY_ROOT :: string where
  "EMPTY_ROOT = replicate 64 (CHR ''0'')"

record peak =
  pk_height :: nat
  pk_hash :: string

record frontier =
  fr_size :: nat
  fr_peaks :: "peak list"

subsection \<open>Hashing\<close>

text \<open>\<^verbatim>\<open>Buffer.from(h, "hex")\<close>: two digits a byte.\<close>

definition hex_value :: "char \<Rightarrow> nat" where
  "hex_value c = (let n = code_of c in if n \<le> 57 then n - 48 else n - 87)"

fun hex_bytes :: "string \<Rightarrow> nat list" where
  "hex_bytes (a # b # s) = (16 * hex_value a + hex_value b) # hex_bytes s"
| "hex_bytes _ = []"

definition assertHash :: "string \<Rightarrow> js_error + unit" where
  "assertHash h = (if HEX_64 h then Inr () else Inl (TypeError ''hash must be 64 lowercase hex characters''))"

definition leaf_input :: "string \<Rightarrow> nat list" where
  "leaf_input h = 0 # hex_bytes h"

definition node_input :: "string \<Rightarrow> string \<Rightarrow> nat list" where
  "node_input l r = 1 # hex_bytes l @ hex_bytes r"

definition leafHash :: "(nat list \<Rightarrow> string) \<Rightarrow> string \<Rightarrow> js_error + string" where
  "leafHash sha h = (case assertHash h of Inl e \<Rightarrow> Inl e | Inr _ \<Rightarrow> Inr (sha (leaf_input h)))"

definition nodeHash :: "(nat list \<Rightarrow> string) \<Rightarrow> string \<Rightarrow> string \<Rightarrow> js_error + string" where
  "nodeHash sha l r = (case assertHash l of Inl e \<Rightarrow> Inl e | Inr _ \<Rightarrow>
     (case assertHash r of Inl e \<Rightarrow> Inl e | Inr _ \<Rightarrow> Inr (sha (node_input l r))))"

subsection \<open>The frontier\<close>

definition createFrontier :: frontier where
  "createFrontier = \<lparr>fr_size = 0, fr_peaks = []\<rparr>"

text \<open>The loop of \<^verbatim>\<open>push\<close>, on the peaks from the last one back.\<close>

fun push_loop :: "(nat list \<Rightarrow> string) \<Rightarrow> string \<Rightarrow> nat \<Rightarrow> peak list \<Rightarrow> js_error + peak list" where
  "push_loop sha hash height [] = Inr [\<lparr>pk_height = height, pk_hash = hash\<rparr>]"
| "push_loop sha hash height (p # rest) =
     (if pk_height p \<noteq> height then Inr (\<lparr>pk_height = height, pk_hash = hash\<rparr> # p # rest)
      else (case nodeHash sha (pk_hash p) hash of
          Inl e \<Rightarrow> Inl e
        | Inr h \<Rightarrow> push_loop sha h (height + 1) rest))"

definition push_leaf :: "(nat list \<Rightarrow> string) \<Rightarrow> string \<Rightarrow> frontier \<Rightarrow> js_error + frontier" where
  "push_leaf sha h s = (case leafHash sha h of
      Inl e \<Rightarrow> Inl e
    | Inr leaf \<Rightarrow> (case push_loop sha leaf 0 (rev (fr_peaks s)) of
        Inl e \<Rightarrow> Inl e
      | Inr ps \<Rightarrow> Inr \<lparr>fr_size = fr_size s + 1, fr_peaks = rev ps\<rparr>))"

fun bag :: "(nat list \<Rightarrow> string) \<Rightarrow> string \<Rightarrow> peak list \<Rightarrow> js_error + string" where
  "bag sha acc [] = Inr acc"
| "bag sha acc (p # ps) = (case nodeHash sha (pk_hash p) acc of Inl e \<Rightarrow> Inl e | Inr h \<Rightarrow> bag sha h ps)"

definition frontier_root :: "(nat list \<Rightarrow> string) \<Rightarrow> frontier \<Rightarrow> js_error + string" where
  "frontier_root sha s = (case rev (fr_peaks s) of [] \<Rightarrow> Inr EMPTY_ROOT | p # ps \<Rightarrow> bag sha (pk_hash p) ps)"

fun push_all :: "(nat list \<Rightarrow> string) \<Rightarrow> string list \<Rightarrow> frontier \<Rightarrow> js_error + frontier" where
  "push_all sha [] s = Inr s"
| "push_all sha (h # hs) s = (case push_leaf sha h s of Inl e \<Rightarrow> Inl e | Inr s' \<Rightarrow> push_all sha hs s')"

subsection \<open>Snapshots\<close>

fun bits_from :: "nat \<Rightarrow> nat \<Rightarrow> nat list" where
  "bits_from height rest =
     (if rest = 0 then [] else (if rest mod 2 = 1 then [height] else []) @ bits_from (height + 1) (rest div 2))"

declare bits_from.simps [simp del]

definition peakHeightsOf :: "nat \<Rightarrow> nat list" where
  "peakHeightsOf leafCount = rev (bits_from 0 leafCount)"

definition peak_to_js :: "peak \<Rightarrow> js" where
  "peak_to_js p = JObj [(''height'', JNum (Fin (of_nat (pk_height p)))), (''hash'', JStr (pk_hash p))]"

definition frontier_snapshot :: "frontier \<Rightarrow> js" where
  "frontier_snapshot s = JObj [(''leafCount'', JNum (Fin (of_nat (fr_size s)))), (''peaks'', JArr (map peak_to_js (fr_peaks s)))]"

definition js_nat :: "js \<Rightarrow> nat option" where
  "js_nat v = (case v of
      JNum n \<Rightarrow> (case safe_integer n of Some i \<Rightarrow> if i < 0 then None else Some (nat i) | None \<Rightarrow> None)
    | _ \<Rightarrow> None)"

definition read_peak :: "js \<Rightarrow> js_error + peak" where
  "read_peak v = (case v of
      JObj fs \<Rightarrow> (case js_nat (obj_get fs ''height'') of
          None \<Rightarrow> Inl (TypeError ''peak height must be a non-negative safe integer'')
        | Some height \<Rightarrow> (case obj_get fs ''hash'' of
            JStr h \<Rightarrow> (case assertHash h of Inl e \<Rightarrow> Inl e | Inr _ \<Rightarrow> Inr \<lparr>pk_height = height, pk_hash = h\<rparr>)
          | _ \<Rightarrow> Inl (TypeError ''hash must be 64 lowercase hex characters'')))
    | _ \<Rightarrow> Inl (TypeError ''peak must be an object''))"

text \<open>\<open>previous\<close> is \<open>None\<close> for the initial infinity.\<close>

fun read_peaks :: "nat option \<Rightarrow> nat list \<Rightarrow> js list \<Rightarrow> js_error + peak list" where
  "read_peaks previous (h # hs) (v # vs) = (case read_peak v of
      Inl e \<Rightarrow> Inl e
    | Inr p \<Rightarrow>
        if (case previous of Some n \<Rightarrow> pk_height p \<ge> n | None \<Rightarrow> False)
        then Inl (TypeError ''peak height is not strictly decreasing'')
        else if pk_height p \<noteq> h then Inl (TypeError ''peak height does not match leafCount'')
        else (case read_peaks (Some (pk_height p)) hs vs of Inl e \<Rightarrow> Inl e | Inr ps \<Rightarrow> Inr (p # ps)))"
| "read_peaks previous _ _ = Inr []"

definition seedFrontier :: "js \<Rightarrow> js_error + frontier" where
  "seedFrontier state = (case state of
      JObj fs \<Rightarrow> (case js_nat (obj_get fs ''leafCount'') of
          None \<Rightarrow> Inl (TypeError ''leafCount must be a non-negative safe integer'')
        | Some n \<Rightarrow> (case obj_get fs ''peaks'' of
            JArr ps \<Rightarrow>
              if length ps \<noteq> length (peakHeightsOf n) then Inl (TypeError ''wrong number of peaks'')
              else (case read_peaks None (peakHeightsOf n) ps of
                  Inl e \<Rightarrow> Inl e
                | Inr peaks \<Rightarrow> Inr \<lparr>fr_size = n, fr_peaks = peaks\<rparr>)
          | _ \<Rightarrow> Inl (TypeError ''peaks must be an array'')))
    | _ \<Rightarrow> Inl (TypeError ''frontier state must be an object''))"

subsection \<open>The specification: RFC 6962\<close>

text \<open>The largest power of two below \<open>n\<close>, by doubling.\<close>

function split_from :: "nat \<Rightarrow> nat \<Rightarrow> nat" where
  "split_from k n = (if 0 < k \<and> 2 * k < n then split_from (2 * k) n else k)"
  by pat_completeness auto
termination by (relation "measure (\<lambda>(k, n). n - k)") auto

declare split_from.simps [simp del]

lemma split_from_power:
  assumes "0 < a" "a \<le> 2 ^ h" "j \<le> h"
  shows "split_from (2 ^ j) (2 ^ h + a) = 2 ^ h"
  using assms(3)
proof (induction "h - j" arbitrary: j)
  case 0
  with assms show ?case by (subst split_from.simps) simp
next
  case (Suc d)
  then have "2 * 2 ^ j \<le> (2 :: nat) ^ h" using power_increasing [of "Suc j" h "2 :: nat"] by simp
  moreover have "split_from (2 ^ Suc j) (2 ^ h + a) = 2 ^ h" using Suc.hyps(2) Suc.prems by (intro Suc.hyps(1)) auto
  ultimately show ?case using assms(1) by (subst split_from.simps) simp
qed

lemma split_from_bounds: "0 < k \<Longrightarrow> k < n \<Longrightarrow> 0 < split_from k n \<and> split_from k n < n"
proof (induction k n rule: split_from.induct)
  case (1 k n)
  then show ?case by (subst split_from.simps, subst (2) split_from.simps) auto
qed

text \<open>The tree hash of RFC 6962, section 2.1, over the record hashes. Its value for no leaves is the code's
  \<^verbatim>\<open>EMPTY_ROOT\<close>, 64 zero digits, where the RFC has SHA-256 of the empty string.\<close>

function mth :: "(nat list \<Rightarrow> string) \<Rightarrow> string list \<Rightarrow> string" where
  "mth sha [] = EMPTY_ROOT"
| "mth sha [x] = sha (leaf_input x)"
| "mth sha (x # y # zs) =
     (let k = split_from 1 (length (x # y # zs)) in
      sha (node_input (mth sha (take k (x # y # zs))) (mth sha (drop k (x # y # zs)))))"
  by pat_completeness auto
termination
proof (relation "measure (\<lambda>(sha, xs). length xs)", simp)
  fix sha :: "nat list \<Rightarrow> string" and x y :: string and zs and k
  assume k: "k = split_from 1 (length (x # y # zs))"
  have b: "0 < k" "k < length (x # y # zs)" using split_from_bounds [of 1 "length (x # y # zs)"] by (simp_all add: k)
  then show "((sha, take k (x # y # zs)), sha, x # y # zs) \<in> measure (\<lambda>(sha, xs). length xs)" by simp
  show "((sha, drop k (x # y # zs)), sha, x # y # zs) \<in> measure (\<lambda>(sha, xs). length xs)" using b by simp
qed

declare mth.simps [simp del]

subsection \<open>The frontier computes the tree hash\<close>

definition sha_format :: "(nat list \<Rightarrow> string) \<Rightarrow> bool" where
  "sha_format sha \<longleftrightarrow> (\<forall>bs. HEX_64 (sha bs))"

lemma split_point:
  assumes "0 < a" "a \<le> 2 ^ h"
  shows "split_from 1 (2 ^ h + a) = 2 ^ h"
  using split_from_power [OF assms, of 0] by simp

lemma mth_two:
  assumes ys: "length ys = 2 ^ h" and zs: "zs \<noteq> []" "length zs \<le> 2 ^ h"
  shows "mth sha (ys @ zs) = sha (node_input (mth sha ys) (mth sha zs))"
proof -
  have "2 \<le> length (ys @ zs)" using ys zs(1) by (cases zs) (auto simp: Suc_le_eq)
  then obtain x y ws where s: "ys @ zs = x # y # ws" by (cases "ys @ zs"; cases "tl (ys @ zs)") auto
  have k: "split_from 1 (length (x # y # ws)) = length ys"
    using split_point [of "length zs" h] ys zs unfolding s [symmetric] by simp
  have "take (length ys) (x # y # ws) = ys" "drop (length ys) (x # y # ws) = zs" unfolding s [symmetric] by simp_all
  then show ?thesis unfolding s by (simp only: mth.simps(3) Let_def k)
qed

lemma mth_format:
  assumes "sha_format sha"
  shows "HEX_64 (mth sha xs)"
proof (cases xs)
  case Nil
  then show ?thesis by (simp add: mth.simps EMPTY_ROOT_def HEX_64_def class_run_def list_all_iff char_classes)
next
  case (Cons x ys)
  with assms show ?thesis by (cases ys) (simp_all add: mth.simps sha_format_def Let_def)
qed

text \<open>The peaks, from the last one back, are the tree hashes of the blocks the leaves end in, each a
  power of two long, and the blocks grow.\<close>

fun covers :: "(nat list \<Rightarrow> string) \<Rightarrow> peak list \<Rightarrow> string list \<Rightarrow> bool" where
  "covers sha [] xs \<longleftrightarrow> xs = []"
| "covers sha (p # ps) xs \<longleftrightarrow> (\<exists>ys zs. xs = ys @ zs \<and> length zs = 2 ^ pk_height p \<and> pk_hash p = mth sha zs \<and> covers sha ps ys)"

definition growing :: "nat \<Rightarrow> peak list \<Rightarrow> bool" where
  "growing h ps \<longleftrightarrow> sorted_wrt (<) (map pk_height ps) \<and> (\<forall>p \<in> set ps. h \<le> pk_height p)"

lemma growing_Cons: "growing h (p # ps) \<longleftrightarrow> h \<le> pk_height p \<and> growing (pk_height p + 1) ps"
  by (fastforce simp: growing_def Suc_le_eq)

lemma growing_mono: "growing h ps \<Longrightarrow> k \<le> h \<Longrightarrow> growing k ps"
  by (auto simp: growing_def)

lemma nodeHash_ok: "HEX_64 l \<Longrightarrow> HEX_64 r \<Longrightarrow> nodeHash sha l r = Inr (sha (node_input l r))"
  by (simp add: nodeHash_def assertHash_def)

lemma push_loop_covers:
  assumes "sha_format sha" "covers sha ps ys" "growing height ps" "length zs = 2 ^ height" "hash = mth sha zs"
  shows "\<exists>ps'. push_loop sha hash height ps = Inr ps' \<and> covers sha ps' (ys @ zs) \<and> growing height ps'"
  using assms
proof (induction ps arbitrary: ys zs height hash)
  case Nil
  then show ?case by (force simp: growing_def)
next
  case (Cons p ps)
  from Cons.prems(2) obtain us vs where uv: "ys = us @ vs" "length vs = 2 ^ pk_height p" "pk_hash p = mth sha vs" "covers sha ps us"
    by auto
  show ?case
  proof (cases "pk_height p = height")
    case False
    then have "push_loop sha hash height (p # ps) = Inr (\<lparr>pk_height = height, pk_hash = hash\<rparr> # p # ps)" by simp
    moreover have "growing height (\<lparr>pk_height = height, pk_hash = hash\<rparr> # p # ps)"
      using Cons.prems(3) False by (auto simp: growing_Cons)
    moreover have "covers sha (\<lparr>pk_height = height, pk_hash = hash\<rparr> # p # ps) (ys @ zs)"
      using Cons.prems(2,4,5) by (simp only: covers.simps peak.simps) blast
    ultimately show ?thesis by blast
  next
    case True
    have zs: "zs \<noteq> []" using Cons.prems(4) by auto
    have m: "mth sha (vs @ zs) = sha (node_input (pk_hash p) hash)"
      using mth_two [of vs height zs sha] uv(2,3) True zs Cons.prems(4,5) by simp
    have n: "nodeHash sha (pk_hash p) hash = Inr (sha (node_input (pk_hash p) hash))"
      using nodeHash_ok mth_format [OF Cons.prems(1)] uv(3) Cons.prems(5) by simp
    have "\<exists>ps'. push_loop sha (sha (node_input (pk_hash p) hash)) (height + 1) ps = Inr ps'
        \<and> covers sha ps' (us @ (vs @ zs)) \<and> growing (height + 1) ps'"
      by (rule Cons.IH [OF Cons.prems(1) uv(4)]) (use Cons.prems(3,4) uv(2) True m in \<open>auto simp: growing_Cons\<close>)
    then show ?thesis using n True uv(1) growing_mono [of "height + 1" _ height] by auto
  qed
qed

definition frontier_of :: "(nat list \<Rightarrow> string) \<Rightarrow> frontier \<Rightarrow> string list \<Rightarrow> bool" where
  "frontier_of sha s xs \<longleftrightarrow> fr_size s = length xs \<and> covers sha (rev (fr_peaks s)) xs \<and> growing 0 (rev (fr_peaks s))"

lemma push_leaf_frontier:
  assumes sha: "sha_format sha" and s: "frontier_of sha s xs" and h: "HEX_64 h"
  shows "\<exists>s'. push_leaf sha h s = Inr s' \<and> frontier_of sha s' (xs @ [h])"
proof -
  have "\<exists>ps'. push_loop sha (sha (leaf_input h)) 0 (rev (fr_peaks s)) = Inr ps' \<and> covers sha ps' (xs @ [h]) \<and> growing 0 ps'"
    by (rule push_loop_covers [OF sha]) (use s in \<open>simp_all add: frontier_of_def mth.simps\<close>)
  with h s show ?thesis by (auto simp: push_leaf_def leafHash_def assertHash_def frontier_of_def)
qed

lemma push_all_frontier:
  "sha_format sha \<Longrightarrow> frontier_of sha s ys \<Longrightarrow> \<forall>h \<in> set xs. HEX_64 h \<Longrightarrow>
    \<exists>s'. push_all sha xs s = Inr s' \<and> frontier_of sha s' (ys @ xs)"
proof (induction xs arbitrary: s ys)
  case Nil
  then show ?case by simp
next
  case (Cons x xs)
  then obtain s' where s': "push_leaf sha x s = Inr s'" "frontier_of sha s' (ys @ [x])"
    using push_leaf_frontier [of sha s ys x] by auto
  from Cons.IH [OF Cons.prems(1) s'(2)] Cons.prems(3) s'(1) show ?case by simp
qed

lemma bag_mth:
  assumes "sha_format sha" "covers sha ps ys" "growing h ps" "zs \<noteq> []" "length zs \<le> 2 ^ h"
  shows "bag sha (mth sha zs) ps = Inr (mth sha (ys @ zs))"
  using assms
proof (induction ps arbitrary: ys zs h)
  case Nil
  then show ?case by simp
next
  case (Cons p ps)
  from Cons.prems(2) obtain us vs where uv: "ys = us @ vs" "length vs = 2 ^ pk_height p" "pk_hash p = mth sha vs" "covers sha ps us"
    by auto
  have "h \<le> pk_height p" "growing (pk_height p + 1) ps" using Cons.prems(3) by (simp_all add: growing_Cons)
  then have le: "length zs \<le> 2 ^ pk_height p" 
    using order_trans [OF Cons.prems(5) power_increasing [of h "pk_height p" "2 :: nat"]] by simp
  have m: "mth sha (vs @ zs) = sha (node_input (mth sha vs) (mth sha zs))"
    by (rule mth_two [OF uv(2) Cons.prems(4) le])
  have "bag sha (mth sha (vs @ zs)) ps = Inr (mth sha (us @ (vs @ zs)))"
    by (rule Cons.IH [OF Cons.prems(1) uv(4) \<open>growing (pk_height p + 1) ps\<close>]) (use le uv(2) Cons.prems(4) in auto)
  then show ?case using m uv(1,3) nodeHash_ok mth_format [OF Cons.prems(1)] by simp
qed

lemma frontier_root_mth:
  assumes "sha_format sha" "frontier_of sha s xs"
  shows "frontier_root sha s = Inr (mth sha xs)"
proof (cases "rev (fr_peaks s)")
  case Nil
  with assms(2) show ?thesis by (simp add: frontier_of_def frontier_root_def mth.simps)
next
  case (Cons p ps)
  with assms(2) obtain ys zs where z: "xs = ys @ zs" "length zs = 2 ^ pk_height p" "pk_hash p = mth sha zs" "covers sha ps ys"
    by (auto simp: frontier_of_def)
  have "growing (pk_height p + 1) ps" using assms(2) Cons by (simp add: frontier_of_def growing_Cons)
  then have "growing (pk_height p) ps" by (rule growing_mono) simp
  from bag_mth [OF assms(1) z(4) this, of zs] z(2) have "bag sha (mth sha zs) ps = Inr (mth sha (ys @ zs))" by fastforce
  then show ?thesis using Cons z(1,3) by (simp add: frontier_root_def)
qed

text \<open>C32. The frontier's root is the RFC 6962 tree hash of the pushed hashes: pushing any list of well-formed
  record hashes on a new frontier succeeds, counts them, and the O(log n) peaks give exactly the root the
  recursive definition over the whole list gives; for no records it is the code's own empty root.\<close>
theorem frontier_root_is_tree_hash:
  assumes "sha_format sha" and "\<forall>h \<in> set xs. HEX_64 h"
  shows "\<exists>s. push_all sha xs createFrontier = Inr s \<and> fr_size s = length xs \<and> frontier_root sha s = Inr (mth sha xs)"
proof -
  have "frontier_of sha createFrontier []" by (simp add: frontier_of_def createFrontier_def growing_def)
  from push_all_frontier [OF assms(1) this assms(2)] obtain s where
    s: "push_all sha xs createFrontier = Inr s" "frontier_of sha s xs" by auto
  with frontier_root_mth [OF assms(1) s(2)] show ?thesis by (auto simp: frontier_of_def)
qed

text \<open>A digest of the documented shape, for the witnesses.\<close>

definition sample_sha :: "nat list \<Rightarrow> string" where
  "sample_sha bs = replicate 63 (CHR ''0'') @ [digit (sum_list bs mod 10)]"

lemma sample_sha_format: "sha_format sample_sha"
proof -
  have "is_hex_lower (digit (n mod 10))" for n
    using digit_facts [of "n mod 10"] by (simp add: is_digit_def char_classes)
  then show ?thesis by (auto simp: sha_format_def sample_sha_def HEX_64_def class_run_def list_all_iff char_classes)
qed

lemma empty_root_hex: "HEX_64 EMPTY_ROOT"
  by (simp add: EMPTY_ROOT_def HEX_64_def class_run_def list_all_iff char_classes)

lemma frontier_root_is_tree_hash_witness:
  "\<exists>s. push_all sample_sha [EMPTY_ROOT, EMPTY_ROOT, EMPTY_ROOT] createFrontier = Inr s
     \<and> fr_size s = length [EMPTY_ROOT, EMPTY_ROOT, EMPTY_ROOT]
     \<and> frontier_root sample_sha s = Inr (mth sample_sha [EMPTY_ROOT, EMPTY_ROOT, EMPTY_ROOT])"
  by (rule frontier_root_is_tree_hash [OF sample_sha_format]) (simp add: empty_root_hex)

subsection \<open>Tampering\<close>

text \<open>Everything that is hashed to compute a tree hash.\<close>

function hashed_inputs :: "(nat list \<Rightarrow> string) \<Rightarrow> string list \<Rightarrow> nat list list" where
  "hashed_inputs sha [] = []"
| "hashed_inputs sha [x] = [leaf_input x]"
| "hashed_inputs sha (x # y # zs) =
     (let k = split_from 1 (length (x # y # zs)) in
      node_input (mth sha (take k (x # y # zs))) (mth sha (drop k (x # y # zs)))
      # hashed_inputs sha (take k (x # y # zs)) @ hashed_inputs sha (drop k (x # y # zs)))"
  by pat_completeness auto
termination
proof (relation "measure (\<lambda>(sha, xs). length xs)", simp)
  fix sha :: "nat list \<Rightarrow> string" and x y :: string and zs and k
  assume k: "k = split_from 1 (length (x # y # zs))"
  have b: "0 < k" "k < length (x # y # zs)" using split_from_bounds [of 1 "length (x # y # zs)"] by (simp_all add: k)
  then show "((sha, take k (x # y # zs)), sha, x # y # zs) \<in> measure (\<lambda>(sha, xs). length xs)" by simp
  show "((sha, drop k (x # y # zs)), sha, x # y # zs) \<in> measure (\<lambda>(sha, xs). length xs)" using b by simp
qed

declare hashed_inputs.simps [simp del]

lemma code_of_inj: "code_of a = code_of b \<Longrightarrow> a = b"
  by (simp add: code_of_def)

lemma hex_code:
  assumes "48 \<le> a \<and> a \<le> 57 \<or> 97 \<le> a \<and> a \<le> (102 :: nat)"
  shows "(if a \<le> 57 then a - 48 else a - 87) < 16"
    and "48 \<le> b \<and> b \<le> 57 \<or> 97 \<le> b \<and> b \<le> 102 \<Longrightarrow>
      (if a \<le> 57 then a - 48 else a - 87) = (if b \<le> 57 then b - 48 else b - 87) \<Longrightarrow> a = b"
  using assms by (auto split: if_splits)

lemma hex_value_facts:
  "is_hex_lower a \<Longrightarrow> hex_value a < 16"
  "is_hex_lower a \<Longrightarrow> is_hex_lower b \<Longrightarrow> hex_value a = hex_value b \<Longrightarrow> a = b"
proof -
  show "is_hex_lower a \<Longrightarrow> hex_value a < 16"
    unfolding hex_value_def is_hex_lower_def Let_def by (rule hex_code(1))
  assume "is_hex_lower a" "is_hex_lower b" "hex_value a = hex_value b"
  then have "code_of a = code_of b"
    unfolding hex_value_def is_hex_lower_def Let_def by (rule hex_code(2))
  then show "a = b" by (rule code_of_inj)
qed

lemma byte_digits: "16 * x + b = 16 * y + d \<Longrightarrow> b < 16 \<Longrightarrow> d < 16 \<Longrightarrow> x = y \<and> b = (d :: nat)"
proof -
  assume e: "16 * x + b = 16 * y + d" and b: "b < 16" "d < 16"
  have "(16 * x + b) div 16 = x" "(16 * y + d) div 16 = y" using b by simp_all
  with e have "x = y" by simp
  with e show ?thesis by simp
qed

lemma two_more: "length s = 2 * Suc n \<Longrightarrow> (\<And>a b s'. s = a # b # s' \<Longrightarrow> thesis) \<Longrightarrow> thesis"
  by (cases s; cases "tl s") auto

lemma hex_bytes_inj:
  "list_all is_hex_lower s \<Longrightarrow> list_all is_hex_lower t \<Longrightarrow> length s = 2 * n \<Longrightarrow> length t = 2 * n \<Longrightarrow>
    hex_bytes s = hex_bytes t \<Longrightarrow> s = t"
proof (induction n arbitrary: s t)
  case 0
  then show ?case by simp
next
  case (Suc n)
  obtain a b s' where s: "s = a # b # s'" by (rule two_more [of s n]) (use Suc.prems(3) in simp)
  obtain c d t' where t: "t = c # d # t'" by (rule two_more [of t n]) (use Suc.prems(4) in simp)
  have v: "hex_value b < 16" "hex_value d < 16" using Suc.prems(1,2) hex_value_facts(1) by (simp_all add: s t)
  have e: "16 * hex_value a + hex_value b = 16 * hex_value c + hex_value d" using Suc.prems(5) by (simp add: s t)
  from byte_digits [OF e v] have "hex_value a = hex_value c" "hex_value b = hex_value d" by simp_all
  then have "a = c" "b = d" using Suc.prems(1,2) hex_value_facts(2) by (simp_all add: s t)
  moreover have "s' = t'" using Suc.prems s t by (intro Suc.IH) simp_all
  ultimately show ?case by (simp add: s t)
qed

lemma length_hex_bytes: "length s = 2 * n \<Longrightarrow> length (hex_bytes s) = n"
proof (induction n arbitrary: s)
  case (Suc n)
  obtain a b s' where s: "s = a # b # s'" by (rule two_more [of s n]) (use Suc.prems in simp)
  with Suc show ?case by simp
qed simp

lemma HEX_64_facts: "HEX_64 h \<Longrightarrow> list_all is_hex_lower h \<and> length h = 2 * 32"
  by (auto simp: HEX_64_def class_run_def)

lemma input_inj:
  "HEX_64 a \<Longrightarrow> HEX_64 b \<Longrightarrow> leaf_input a = leaf_input b \<Longrightarrow> a = b"
  "HEX_64 a \<Longrightarrow> HEX_64 b \<Longrightarrow> HEX_64 c \<Longrightarrow> HEX_64 d \<Longrightarrow> node_input a b = node_input c d \<Longrightarrow> a = c \<and> b = d"
  "leaf_input a \<noteq> node_input b c"
proof -
  show "HEX_64 a \<Longrightarrow> HEX_64 b \<Longrightarrow> leaf_input a = leaf_input b \<Longrightarrow> a = b"
    using hex_bytes_inj [of a b 32] HEX_64_facts by (auto simp: leaf_input_def)
  assume h: "HEX_64 a" "HEX_64 b" "HEX_64 c" "HEX_64 d" and e: "node_input a b = node_input c d"
  have "length (hex_bytes a) = length (hex_bytes c)"
    using length_hex_bytes [of a 32] length_hex_bytes [of c 32] HEX_64_facts h by simp
  with e have "hex_bytes a = hex_bytes c" "hex_bytes b = hex_bytes d" by (auto simp: node_input_def)
  then show "a = c \<and> b = d"
    using h hex_bytes_inj [of a c 32] hex_bytes_inj [of b d 32] HEX_64_facts by auto
next
  show "leaf_input a \<noteq> node_input b c" by (simp add: leaf_input_def node_input_def)
qed

text \<open>Two different lists with the same tree hash contain two different inputs with the same digest.\<close>

definition collision :: "(nat list \<Rightarrow> string) \<Rightarrow> nat list list \<Rightarrow> nat list list \<Rightarrow> bool" where
  "collision sha as bs \<longleftrightarrow> (\<exists>a \<in> set as. \<exists>b \<in> set bs. a \<noteq> b \<and> sha a = sha b)"

lemma collision_mono: "collision sha as bs \<Longrightarrow> set as \<subseteq> set as' \<Longrightarrow> set bs \<subseteq> set bs' \<Longrightarrow> collision sha as' bs'"
  unfolding collision_def by blast

lemma mth_split:
  assumes "2 \<le> length xs"
  obtains k where "0 < k" "k < length xs"
    "mth sha xs = sha (node_input (mth sha (take k xs)) (mth sha (drop k xs)))"
    "hashed_inputs sha xs = node_input (mth sha (take k xs)) (mth sha (drop k xs))
       # hashed_inputs sha (take k xs) @ hashed_inputs sha (drop k xs)"
proof -
  obtain x y zs where xs: "xs = x # y # zs" using assms by (cases xs; cases "tl xs") auto
  have "0 < split_from 1 (length xs)" "split_from 1 (length xs) < length xs"
    using split_from_bounds [of 1 "length xs"] assms by simp_all
  then show thesis
    using that [of "split_from 1 (length xs)"] mth.simps(3) [of sha x y zs] hashed_inputs.simps(3) [of sha x y zs]
    unfolding xs Let_def by blast
qed

lemma mth_collision:
  assumes sha: "sha_format sha"
  shows "xs \<noteq> [] \<Longrightarrow> ys \<noteq> [] \<Longrightarrow> \<forall>h \<in> set xs. HEX_64 h \<Longrightarrow> \<forall>h \<in> set ys. HEX_64 h \<Longrightarrow> xs \<noteq> ys \<Longrightarrow>
    mth sha xs = mth sha ys \<Longrightarrow> collision sha (hashed_inputs sha xs) (hashed_inputs sha ys)"
proof (induction "length xs" arbitrary: xs ys rule: less_induct)
  case less
  have single: "\<exists>x. xs = [x]" if "\<not> 2 \<le> length xs" "xs \<noteq> []" for xs :: "string list"
    using that by (cases xs; cases "tl xs") auto
  show ?case
  proof (cases "2 \<le> length xs")
    case False
    then obtain x where x: "xs = [x]" using single less.prems(1) by blast
    show ?thesis
    proof (cases "2 \<le> length ys")
      case False
      then obtain y where y: "ys = [y]" using single less.prems(2) by blast
      with less.prems x input_inj(1) [of x y] show ?thesis
        by (auto simp: collision_def hashed_inputs.simps mth.simps)
    next
      case True
      from mth_split [OF True, of sha] less.prems(6) x input_inj(3) show ?thesis
        unfolding collision_def by (metis hashed_inputs.simps(2) list.set_intros(1) mth.simps(2))
    qed
  next
    case True
    obtain k where k: "0 < k" "k < length xs"
      and mx: "mth sha xs = sha (node_input (mth sha (take k xs)) (mth sha (drop k xs)))"
      and ix: "hashed_inputs sha xs = node_input (mth sha (take k xs)) (mth sha (drop k xs))
        # hashed_inputs sha (take k xs) @ hashed_inputs sha (drop k xs)" using mth_split [OF True, of sha] by blast
    show ?thesis
    proof (cases "2 \<le> length ys")
      case False
      then obtain y where y: "ys = [y]" using single less.prems(2) by blast
      with mx ix less.prems(6) input_inj(3) show ?thesis
        unfolding collision_def by (metis hashed_inputs.simps(2) list.set_intros(1) mth.simps(2))
    next
      case True
      obtain j where j: "0 < j" "j < length ys"
        and my: "mth sha ys = sha (node_input (mth sha (take j ys)) (mth sha (drop j ys)))"
        and iy: "hashed_inputs sha ys = node_input (mth sha (take j ys)) (mth sha (drop j ys))
          # hashed_inputs sha (take j ys) @ hashed_inputs sha (drop j ys)" using mth_split [OF True, of sha] by blast
      let ?a = "node_input (mth sha (take k xs)) (mth sha (drop k xs))"
      let ?b = "node_input (mth sha (take j ys)) (mth sha (drop j ys))"
      show ?thesis
      proof (cases "?a = ?b")
        case False
        with mx my less.prems(6) ix iy show ?thesis unfolding collision_def by (metis list.set_intros(1))
      next
        case True
        then have eq: "mth sha (take k xs) = mth sha (take j ys)" "mth sha (drop k xs) = mth sha (drop j ys)"
          using input_inj(2) mth_format [OF sha] by blast+
        have parts: "take k xs \<noteq> []" "take j ys \<noteq> []" "drop k xs \<noteq> []" "drop j ys \<noteq> []" using k j by auto
        have hex: "\<forall>h \<in> set (take k xs). HEX_64 h" "\<forall>h \<in> set (take j ys). HEX_64 h"
          "\<forall>h \<in> set (drop k xs). HEX_64 h" "\<forall>h \<in> set (drop j ys). HEX_64 h"
          using less.prems(3,4) by (auto dest: in_set_takeD in_set_dropD)
        have sub: "set (hashed_inputs sha (take k xs)) \<subseteq> set (hashed_inputs sha xs)"
          "set (hashed_inputs sha (drop k xs)) \<subseteq> set (hashed_inputs sha xs)"
          "set (hashed_inputs sha (take j ys)) \<subseteq> set (hashed_inputs sha ys)"
          "set (hashed_inputs sha (drop j ys)) \<subseteq> set (hashed_inputs sha ys)" using ix iy by auto
        from less.prems(5) have "take k xs \<noteq> take j ys \<or> drop k xs \<noteq> drop j ys"
          by (metis append_take_drop_id)
        then show ?thesis
        proof
          assume "take k xs \<noteq> take j ys"
          with less.hyps [of "take k xs" "take j ys"] parts hex eq k collision_mono sub show ?thesis by auto
        next
          assume "drop k xs \<noteq> drop j ys"
          with less.hyps [of "drop k xs" "drop j ys"] parts hex eq k collision_mono sub show ?thesis by auto
        qed
      qed
    qed
  qed
qed

text \<open>Tamper evidence: if two frontiers built from different non-empty lists of record hashes, of any
  lengths, report the same root, then among the inputs hashed for the two roots are two different ones
  with the same digest. No leaf is duplicated and no leaf is taken for a node.\<close>
theorem frontier_root_tamper_evident:
  assumes "sha_format sha" and "xs \<noteq> []" "ys \<noteq> []" and "\<forall>h \<in> set xs \<union> set ys. HEX_64 h"
    and "push_all sha xs createFrontier = Inr s" "push_all sha ys createFrontier = Inr s'"
    and "frontier_root sha s = frontier_root sha s'" and "xs \<noteq> ys"
  shows "\<exists>a \<in> set (hashed_inputs sha xs). \<exists>b \<in> set (hashed_inputs sha ys). a \<noteq> b \<and> sha a = sha b"
proof -
  have init: "frontier_of sha createFrontier []" by (simp add: frontier_of_def createFrontier_def growing_def)
  have "frontier_root sha s = Inr (mth sha xs)" "frontier_root sha s' = Inr (mth sha ys)"
    using push_all_frontier [OF assms(1) init, of xs] push_all_frontier [OF assms(1) init, of ys]
      frontier_root_mth [OF assms(1)] assms(4-6) by auto
  with mth_collision [OF assms(1-3), of] assms(4,7,8) show ?thesis by (simp add: collision_def)
qed

definition sample_leaf :: string where
  "sample_leaf = replicate 62 (CHR ''0'') @ ''0a''"

lemma hex_bytes_zeros: "hex_bytes (replicate (2 * n) (CHR ''0'') @ s) = replicate n 0 @ hex_bytes s"
  by (induction n) (simp_all add: hex_value_def code_of_def)

lemma sample_leaf_facts:
  "HEX_64 sample_leaf" "hex_bytes sample_leaf = replicate 31 0 @ [10]" "hex_bytes EMPTY_ROOT = replicate 32 0"
proof -
  show "HEX_64 sample_leaf" by (simp add: sample_leaf_def HEX_64_def class_run_def list_all_iff char_classes)
  show "hex_bytes sample_leaf = replicate 31 0 @ [10]"
    using hex_bytes_zeros [of 31 "''0a''"] by (simp add: sample_leaf_def hex_value_def code_of_def)
  show "hex_bytes EMPTY_ROOT = replicate 32 0" using hex_bytes_zeros [of 32 "[]"] by (simp add: EMPTY_ROOT_def)
qed

lemma frontier_root_tamper_evident_witness:
  "\<exists>a \<in> set (hashed_inputs sample_sha [EMPTY_ROOT]). \<exists>b \<in> set (hashed_inputs sample_sha [sample_leaf]).
     a \<noteq> b \<and> sample_sha a = sample_sha b"
proof -
  have hex: "\<forall>h \<in> set [EMPTY_ROOT] \<union> set [sample_leaf]. HEX_64 h" using empty_root_hex sample_leaf_facts(1) by simp
  have init: "frontier_of sample_sha createFrontier []" by (simp add: frontier_of_def createFrontier_def growing_def)
  obtain s where s: "push_all sample_sha [EMPTY_ROOT] createFrontier = Inr s" "frontier_of sample_sha s [EMPTY_ROOT]"
    using push_all_frontier [OF sample_sha_format init, of "[EMPTY_ROOT]"] hex by auto
  obtain s' where s': "push_all sample_sha [sample_leaf] createFrontier = Inr s'" "frontier_of sample_sha s' [sample_leaf]"
    using push_all_frontier [OF sample_sha_format init, of "[sample_leaf]"] hex by auto
  have "mth sample_sha [EMPTY_ROOT] = mth sample_sha [sample_leaf]"
    by (simp add: mth.simps leaf_input_def sample_leaf_facts sample_sha_def sum_list_replicate)
  then have "frontier_root sample_sha s = frontier_root sample_sha s'"
    using frontier_root_mth [OF sample_sha_format] s(2) s'(2) by simp
  moreover have "last (hex_bytes EMPTY_ROOT) \<noteq> last (hex_bytes sample_leaf)" by (simp add: sample_leaf_facts(2,3))
  then have "[EMPTY_ROOT] \<noteq> [sample_leaf]" by auto
  ultimately show ?thesis
    by (intro frontier_root_tamper_evident [OF sample_sha_format _ _ hex s(1) s'(1)]) simp_all
qed

subsection \<open>Snapshots restore the frontier\<close>

lemma bits_from_sum:
  "sorted_wrt (<) hs \<Longrightarrow> \<forall>h \<in> set hs. b \<le> h \<Longrightarrow> n = (\<Sum>h\<leftarrow>hs. 2 ^ (h - b)) \<Longrightarrow> bits_from b n = hs"
proof (induction b n arbitrary: hs rule: bits_from.induct)
  case (1 b n)
  show ?case
  proof (cases hs)
    case Nil
    with "1.prems" show ?thesis by (subst bits_from.simps) simp
  next
    case (Cons h t)
    have shift: "(\<Sum>h\<leftarrow>ks. (2 :: nat) ^ (h - b)) = 2 * (\<Sum>h\<leftarrow>ks. 2 ^ (h - Suc b))" if "\<forall>h \<in> set ks. Suc b \<le> h" for ks
      using that by (induction ks) (auto simp: Suc_diff_Suc [symmetric] Suc_le_eq)
    have t: "sorted_wrt (<) t" "\<forall>k \<in> set t. h < k" using "1.prems"(1) Cons by simp_all
    have pos: "n \<noteq> 0" using "1.prems"(3) Cons by simp
    show ?thesis
    proof (cases "h = b")
      case True
      have tb: "\<forall>k \<in> set t. Suc b \<le> k" using t(2) True by auto
      have n: "n = 1 + 2 * (\<Sum>h\<leftarrow>t. 2 ^ (h - Suc b))" using "1.prems"(3) Cons True shift [OF tb] by simp
      have "bits_from (b + 1) (n div 2) = t" by (rule "1.IH" [OF pos t(1)]) (use tb n in auto)
      then show ?thesis using pos n Cons True by (subst bits_from.simps) simp
    next
      case False
      have hb: "\<forall>k \<in> set hs. Suc b \<le> k" using "1.prems"(2) t(2) Cons False by (auto simp: Suc_le_eq)
      have n: "n = 2 * (\<Sum>h\<leftarrow>hs. 2 ^ (h - Suc b))" using "1.prems"(3) shift [OF hb] by simp
      have "bits_from (b + 1) (n div 2) = hs" by (rule "1.IH" [OF pos "1.prems"(1)]) (use hb n in auto)
      then show ?thesis using pos n by (subst bits_from.simps) simp
    qed
  qed
qed

lemma covers_length: "covers sha ps xs \<Longrightarrow> length xs = (\<Sum>h\<leftarrow>map pk_height ps. 2 ^ h)"
  by (induction ps arbitrary: xs) auto

lemma covers_hex: "sha_format sha \<Longrightarrow> covers sha ps xs \<Longrightarrow> \<forall>p \<in> set ps. HEX_64 (pk_hash p)"
  by (induction ps arbitrary: xs) (auto simp: mth_format)

lemma frontier_heights:
  assumes "frontier_of sha s xs"
  shows "map pk_height (fr_peaks s) = peakHeightsOf (fr_size s)"
proof -
  have "bits_from 0 (fr_size s) = map pk_height (rev (fr_peaks s))"
    by (rule bits_from_sum) (use assms covers_length [of sha "rev (fr_peaks s)" xs] in \<open>auto simp: frontier_of_def growing_def\<close>)
  then show ?thesis by (simp add: peakHeightsOf_def rev_map)
qed

lemma read_peak_js:
  "HEX_64 (pk_hash p) \<Longrightarrow> int (pk_height p) \<le> MAX_SAFE_INTEGER \<Longrightarrow> read_peak (peak_to_js p) = Inr p"
  using safe_integer_int [of "int (pk_height p)"]
  by (simp add: read_peak_def peak_to_js_def obj_get_def js_nat_def assertHash_def)

lemma read_peaks_js:
  assumes "\<forall>p \<in> set ps. HEX_64 (pk_hash p) \<and> int (pk_height p) \<le> MAX_SAFE_INTEGER"
    and "sorted_wrt (>) (map pk_height ps)" and "\<forall>n p. prev = Some n \<longrightarrow> p \<in> set ps \<longrightarrow> pk_height p < n"
  shows "read_peaks prev (map pk_height ps) (map peak_to_js ps) = Inr ps"
  using assms
proof (induction ps arbitrary: prev)
  case (Cons p ps)
  have "read_peaks (Some (pk_height p)) (map pk_height ps) (map peak_to_js ps) = Inr ps"
    using Cons.prems by (intro Cons.IH) auto
  with Cons.prems read_peak_js [of p] show ?case by (auto split: option.splits)
qed simp

text \<open>Snapshot and seed are a round trip: a frontier built from any well-formed record hashes (up to
  the safe integers) has exactly the peak heights its count prescribes, so its snapshot passes the
  seed's validation and restores the same frontier, hence the same roots ever after.\<close>
theorem frontier_snapshot_roundtrip:
  assumes "sha_format sha" and "\<forall>h \<in> set xs. HEX_64 h" and "push_all sha xs createFrontier = Inr s"
    and "int (length xs) \<le> MAX_SAFE_INTEGER"
  shows "seedFrontier (frontier_snapshot s) = Inr s"
proof -
  have init: "frontier_of sha createFrontier []" by (simp add: frontier_of_def createFrontier_def growing_def)
  have f: "frontier_of sha s xs" using push_all_frontier [OF assms(1) init assms(2)] assms(3) by simp
  have size: "fr_size s = length xs" using f by (simp add: frontier_of_def)
  have hs: "map pk_height (fr_peaks s) = peakHeightsOf (fr_size s)" by (rule frontier_heights [OF f])
  have len: "length (fr_peaks s) = length (peakHeightsOf (fr_size s))" using hs by (metis length_map)
  have hex: "\<forall>p \<in> set (fr_peaks s). HEX_64 (pk_hash p)"
    using covers_hex [OF assms(1), of "rev (fr_peaks s)" xs] f by (simp add: frontier_of_def)
  have small: "int (pk_height p) \<le> MAX_SAFE_INTEGER" if p: "p \<in> set (fr_peaks s)" for p
  proof -
    have "2 ^ pk_height p \<le> (\<Sum>h\<leftarrow>map pk_height (rev (fr_peaks s)). (2 :: nat) ^ h)"
      using p by (intro member_le_sum_list) auto
    then have "2 ^ pk_height p \<le> length xs" using covers_length [of sha "rev (fr_peaks s)" xs] f by (simp add: frontier_of_def)
    then have "pk_height p < length xs" using less_exp [of "pk_height p"] by linarith
    with assms(4) show ?thesis by simp
  qed
  have "sorted_wrt (<) (map pk_height (rev (fr_peaks s)))" using f by (simp add: frontier_of_def growing_def)
  then have "sorted_wrt (>) (map pk_height (fr_peaks s))"
    unfolding rev_map [symmetric] sorted_wrt_rev .
  from read_peaks_js [OF _ this, of None] hex small
  have "read_peaks None (peakHeightsOf (fr_size s)) (map peak_to_js (fr_peaks s)) = Inr (fr_peaks s)" by (simp add: hs)
  with len size assms(4) safe_integer_int [of "int (fr_size s)"] show ?thesis
    by (simp add: seedFrontier_def frontier_snapshot_def obj_get_def js_nat_def)
qed

lemma frontier_snapshot_roundtrip_witness:
  "\<exists>s. push_all sample_sha [EMPTY_ROOT, sample_leaf] createFrontier = Inr s \<and> seedFrontier (frontier_snapshot s) = Inr s"
proof -
  have init: "frontier_of sample_sha createFrontier []" by (simp add: frontier_of_def createFrontier_def growing_def)
  have hex: "\<forall>h \<in> set [EMPTY_ROOT, sample_leaf]. HEX_64 h" using empty_root_hex sample_leaf_facts(1) by simp
  obtain s where s: "push_all sample_sha [EMPTY_ROOT, sample_leaf] createFrontier = Inr s"
    using push_all_frontier [OF sample_sha_format init hex] by blast
  from frontier_snapshot_roundtrip [OF sample_sha_format hex s] s show ?thesis by (simp add: MAX_SAFE_INTEGER_def)
qed

end
