(* ===== verification/Slo.thy ===== *)
theory Slo
  imports Machine
begin

text \<open>
  The error-budget tracker, \<^verbatim>\<open>services/ultrathink/obs/slo.ts\<close>: counters turned into
  deltas, the last \<^verbatim>\<open>maxSamples\<close> of them in a ring, and windowed counts answered by a
  binary search. Finite numbers are exact reals here; the source's are doubles.
\<close>

record slo_entry =
  se_at :: real
  se_cumGood :: real
  se_cumTotal :: real
  se_dGood :: real
  se_dTotal :: real

record slo_opts =
  sl_objective :: real
  sl_windowMs :: js_num
  sl_capacity :: nat

record slo_tracker =
  sl_ring :: "slo_entry option list"
  sl_head :: nat
  sl_size :: nat
  sl_accGood :: real
  sl_accTotal :: real
  sl_lastGood :: real
  sl_lastTotal :: real

record slo_counts =
  sc_observedMs :: real
  sc_total :: real
  sc_bad :: real

record slo_budget =
  sb_observedMs :: real
  sb_total :: real
  sb_bad :: real
  sb_errorBudgetRemaining :: "real option"
  sb_burnRate :: "real option"

subsection \<open>Construction\<close>

text \<open>\<^verbatim>\<open>x > 0\<close> on any number.\<close>

definition positive :: "js_num \<Rightarrow> bool" where
  "positive n = (case n of Fin r \<Rightarrow> r > 0 | PosInf \<Rightarrow> True | _ \<Rightarrow> False)"

definition new_tracker :: "nat \<Rightarrow> slo_tracker" where
  "new_tracker capacity = \<lparr>sl_ring = replicate capacity None, sl_head = 0, sl_size = 0, sl_accGood = 0, sl_accTotal = 0,
     sl_lastGood = 0, sl_lastTotal = 0\<rparr>"

definition createSloTracker :: "js_num \<Rightarrow> js_num \<Rightarrow> js_num \<Rightarrow> js_error + (slo_opts \<times> slo_tracker)" where
  "createSloTracker objective windowMs maxSamples = (case objective of
      Fin q \<Rightarrow>
        if \<not> (q > 0 \<and> q < 1) then Inl (RangeError ''slo objective must be a number in (0, 1)'')
        else if \<not> positive windowMs then Inl (RangeError ''slo windowMs must be greater than 0'')
        else (case maxSamples of
            Fin c \<Rightarrow>
              if of_int \<lfloor>c\<rfloor> = c \<and> c \<ge> 2
              then Inr (\<lparr>sl_objective = q, sl_windowMs = windowMs, sl_capacity = nat \<lfloor>c\<rfloor>\<rparr>, new_tracker (nat \<lfloor>c\<rfloor>))
              else Inl (RangeError ''slo maxSamples must be an integer of at least 2'')
          | _ \<Rightarrow> Inl (RangeError ''slo maxSamples must be an integer of at least 2''))
    | _ \<Rightarrow> Inl (RangeError ''slo objective must be a number in (0, 1)''))"

subsection \<open>The ring\<close>

text \<open>\<^verbatim>\<open>entryAt\<close>, \<open>None\<close> where it throws.\<close>

definition entryAt :: "slo_opts \<Rightarrow> slo_tracker \<Rightarrow> nat \<Rightarrow> slo_entry option" where
  "entryAt opt s i = sl_ring s ! ((sl_head s + i) mod sl_capacity opt)"

definition slo_push :: "slo_opts \<Rightarrow> slo_entry \<Rightarrow> slo_tracker \<Rightarrow> slo_tracker" where
  "slo_push opt e s =
     (if sl_size s < sl_capacity opt
      then s\<lparr>sl_ring := (sl_ring s)[(sl_head s + sl_size s) mod sl_capacity opt := Some e], sl_size := sl_size s + 1\<rparr>
      else s\<lparr>sl_ring := (sl_ring s)[sl_head s := Some e], sl_head := (sl_head s + 1) mod sl_capacity opt\<rparr>)"

subsection \<open>Windowed counts\<close>

text \<open>\<^verbatim>\<open>at <= now - windowMs\<close>, for a window that is positive and possibly infinite.\<close>

definition before_window :: "real \<Rightarrow> js_num \<Rightarrow> slo_entry \<Rightarrow> bool" where
  "before_window now windowMs e = (case windowMs of Fin w \<Rightarrow> se_at e \<le> now - w | _ \<Rightarrow> False)"

text \<open>The binary search; \<open>old\<close> tells whether the entry at an index is at or before the cutoff.\<close>

function search :: "(int \<Rightarrow> bool) \<Rightarrow> int \<Rightarrow> int \<Rightarrow> int \<Rightarrow> int" where
  "search old lo hi reference =
     (if lo \<le> hi
      then let mid = (lo + hi) div 2 in
        if old mid then search old (mid + 1) hi mid else search old lo (mid - 1) reference
      else reference)"
  by pat_completeness auto
termination
  by (relation "measure (\<lambda>(old, lo, hi, reference). nat (hi - lo + 1))") (auto simp: Let_def)

declare search.simps [simp del]

definition countsOver :: "slo_opts \<Rightarrow> real \<Rightarrow> js_num \<Rightarrow> slo_tracker \<Rightarrow> slo_counts" where
  "countsOver opt now windowMs s =
     (if sl_size s = 0 then \<lparr>sc_observedMs = 0, sc_total = 0, sc_bad = 0\<rparr>
      else
        let last_e = the (entryAt opt s (sl_size s - 1));
            reference = search (\<lambda>i. before_window now windowMs (the (entryAt opt s (nat i)))) 0 (int (sl_size s) - 1) (-1);
            ref = the (entryAt opt s (nat reference));
            oldest = the (entryAt opt s 0);
            (refGood, refTotal, refAt) =
              (if reference \<ge> 0 then (se_cumGood ref, se_cumTotal ref, se_at ref)
               else (se_cumGood oldest - se_dGood oldest, se_cumTotal oldest - se_dTotal oldest, se_at oldest));
            total = se_cumTotal last_e - refTotal;
            good = se_cumGood last_e - refGood
        in \<lparr>sc_observedMs = se_at last_e - refAt, sc_total = total, sc_bad = total - good\<rparr>)"

subsection \<open>The tracker's methods\<close>

definition slo_observe :: "slo_opts \<Rightarrow> js_num \<Rightarrow> js_num \<Rightarrow> js_num \<Rightarrow> slo_tracker \<Rightarrow> slo_tracker" where
  "slo_observe opt at_ms good tot s = (case (at_ms, good, tot) of
      (Fin t, Fin g, Fin n) \<Rightarrow>
        if g < 0 \<or> n < 0 \<or> g > n then s
        else if sl_size s > 0 \<and> t < se_at (the (entryAt opt s (sl_size s - 1))) then s
        else
          let dGood = (if g \<ge> sl_lastGood s then g - sl_lastGood s else g);
              dTotal = (if n \<ge> sl_lastTotal s then n - sl_lastTotal s else n);
              s' = s\<lparr>sl_accGood := sl_accGood s + dGood, sl_accTotal := sl_accTotal s + dTotal, sl_lastGood := g, sl_lastTotal := n\<rparr>
          in slo_push opt \<lparr>se_at = t, se_cumGood = sl_accGood s', se_cumTotal = sl_accTotal s', se_dGood = dGood, se_dTotal = dTotal\<rparr> s'
    | _ \<Rightarrow> s)"

definition burn :: "slo_opts \<Rightarrow> slo_counts \<Rightarrow> real option" where
  "burn opt c = (if sc_total c > 0 then Some ((sc_bad c / sc_total c) / (1 - sl_objective opt)) else None)"

definition budget_of :: "slo_opts \<Rightarrow> slo_counts \<Rightarrow> slo_counts \<Rightarrow> slo_budget" where
  "budget_of opt requested defined = \<lparr>sb_observedMs = sc_observedMs requested, sb_total = sc_total requested,
     sb_bad = sc_bad requested,
     sb_errorBudgetRemaining = (case burn opt defined of Some b \<Rightarrow> Some (1 - b) | None \<Rightarrow> None),
     sb_burnRate = burn opt requested\<rparr>"

definition slo_budget_at :: "slo_opts \<Rightarrow> real \<Rightarrow> js_num option \<Rightarrow> slo_tracker \<Rightarrow> js_error + slo_budget" where
  "slo_budget_at opt now window s =
     (let windowMs = (case window of None \<Rightarrow> sl_windowMs opt | Some w \<Rightarrow> w) in
      if \<not> positive windowMs then Inl (RangeError ''slo budget windowMs must be greater than 0'')
      else Inr (budget_of opt (countsOver opt now windowMs s) (countsOver opt now (sl_windowMs opt) s)))"

datatype slo_event = Observe js_num js_num js_num | Budget real "js_num option"

datatype slo_output = Observed | Answered "js_error + slo_budget"

fun slo_step :: "slo_opts \<Rightarrow> slo_tracker \<Rightarrow> slo_event \<Rightarrow> slo_tracker \<times> slo_output" where
  "slo_step opt s (Observe t g n) = (slo_observe opt t g n s, Observed)"
| "slo_step opt s (Budget now w) = (s, Answered (slo_budget_at opt now w s))"

subsection \<open>The specification: the last entries, and sums over them\<close>

text \<open>The retained entries are a list; the window's counts are the sums of the deltas after the newest
  entry at or before the cutoff, over all of them when there is none.\<close>

record slo_spec =
  sp_entries :: "slo_entry list"
  sp_lastGood :: real
  sp_lastTotal :: real
  sp_accGood :: real
  sp_accTotal :: real

definition spec_counts :: "real \<Rightarrow> js_num \<Rightarrow> slo_entry list \<Rightarrow> slo_counts" where
  "spec_counts now windowMs es =
     (if es = [] then \<lparr>sc_observedMs = 0, sc_total = 0, sc_bad = 0\<rparr>
      else
        let old = filter (before_window now windowMs) es;
            recent = filter (\<lambda>e. \<not> before_window now windowMs e) es;
            start = (if old = [] then se_at (hd es) else se_at (last old));
            total = sum_list (map se_dTotal recent)
        in \<lparr>sc_observedMs = se_at (last es) - start, sc_total = total, sc_bad = total - sum_list (map se_dGood recent)\<rparr>)"

definition keep_last :: "nat \<Rightarrow> 'a list \<Rightarrow> 'a list" where
  "keep_last n xs = drop (length xs - n) xs"

definition spec_observe :: "slo_opts \<Rightarrow> real \<Rightarrow> real \<Rightarrow> real \<Rightarrow> slo_spec \<Rightarrow> slo_spec" where
  "spec_observe opt t g n s =
     (let dGood = (if g \<ge> sp_lastGood s then g - sp_lastGood s else g);
          dTotal = (if n \<ge> sp_lastTotal s then n - sp_lastTotal s else n)
      in \<lparr>sp_entries = keep_last (sl_capacity opt) (sp_entries s @ [\<lparr>se_at = t, se_cumGood = sp_accGood s + dGood,
              se_cumTotal = sp_accTotal s + dTotal, se_dGood = dGood, se_dTotal = dTotal\<rparr>]),
          sp_lastGood = g, sp_lastTotal = n, sp_accGood = sp_accGood s + dGood, sp_accTotal = sp_accTotal s + dTotal\<rparr>)"

definition acceptable :: "real \<Rightarrow> real \<Rightarrow> real \<Rightarrow> slo_entry list \<Rightarrow> bool" where
  "acceptable t g n es \<longleftrightarrow> 0 \<le> g \<and> g \<le> n \<and> (es = [] \<or> se_at (last es) \<le> t)"

fun spec_step :: "slo_opts \<Rightarrow> slo_spec \<Rightarrow> slo_event \<Rightarrow> slo_spec \<times> slo_output" where
  "spec_step opt s (Observe (Fin t) (Fin g) (Fin n)) =
     (if acceptable t g n (sp_entries s) then spec_observe opt t g n s else s, Observed)"
| "spec_step opt s (Observe _ _ _) = (s, Observed)"
| "spec_step opt s (Budget now w) =
     (s, Answered (let windowMs = (case w of None \<Rightarrow> sl_windowMs opt | Some w \<Rightarrow> w) in
        if \<not> positive windowMs then Inl (RangeError ''slo budget windowMs must be greater than 0'')
        else Inr (budget_of opt (spec_counts now windowMs (sp_entries s)) (spec_counts now (sl_windowMs opt) (sp_entries s)))))"

subsection \<open>The search finds the newest entry at or before the cutoff\<close>

lemma search_correct:
  assumes "lo \<le> k" "k \<le> hi + 1" "reference = lo - 1" "\<And>i. lo \<le> i \<Longrightarrow> i \<le> hi \<Longrightarrow> old i \<longleftrightarrow> i < k"
  shows "search old lo hi reference = k - 1"
  using assms
proof (induction old lo hi reference rule: search.induct)
  case (1 old lo hi reference)
  show ?case
  proof (cases "lo \<le> hi")
    case False
    with "1.prems" show ?thesis by (subst search.simps) simp
  next
    case True
    let ?mid = "(lo + hi) div 2"
    have mid: "lo \<le> ?mid" "?mid \<le> hi" using True by auto
    show ?thesis
    proof (cases "old ?mid")
      case True
      with mid "1.prems"(4) [OF mid] have "?mid < k" by simp
      then have "search old (?mid + 1) hi ?mid = k - 1"
        using "1.prems" mid True by (intro "1.IH"(1) [OF \<open>lo \<le> hi\<close> refl]) auto
      with True \<open>lo \<le> hi\<close> show ?thesis by (subst search.simps) simp
    next
      case False
      with mid "1.prems"(4) [OF mid] have "k \<le> ?mid" by simp
      then have "search old lo (?mid - 1) reference = k - 1"
        using "1.prems" mid False by (intro "1.IH"(2) [OF \<open>lo \<le> hi\<close> refl]) auto
      with False \<open>lo \<le> hi\<close> show ?thesis by (subst search.simps) simp
    qed
  qed
qed

subsection \<open>The ring holds the last entries\<close>

definition entries :: "slo_opts \<Rightarrow> slo_tracker \<Rightarrow> slo_entry list" where
  "entries opt s = map (\<lambda>i. the (entryAt opt s i)) [0..<sl_size s]"

definition ring_ok :: "slo_opts \<Rightarrow> slo_tracker \<Rightarrow> bool" where
  "ring_ok opt s \<longleftrightarrow> 2 \<le> sl_capacity opt \<and> length (sl_ring s) = sl_capacity opt \<and> sl_head s < sl_capacity opt
     \<and> sl_size s \<le> sl_capacity opt \<and> (sl_size s < sl_capacity opt \<longrightarrow> sl_head s = 0)"

lemma length_entries [simp]: "length (entries opt s) = sl_size s"
  by (simp add: entries_def)

lemma entries_nth: "i < sl_size s \<Longrightarrow> entries opt s ! i = the (sl_ring s ! ((sl_head s + i) mod sl_capacity opt))"
  by (simp add: entries_def entryAt_def)

lemma push_ring:
  assumes ok: "ring_ok opt s"
  shows "ring_ok opt (slo_push opt e s)" and "entries opt (slo_push opt e s) = keep_last (sl_capacity opt) (entries opt s @ [e])"
proof -
  let ?c = "sl_capacity opt" and ?s = "slo_push opt e s"
  have c: "2 \<le> ?c" "length (sl_ring s) = ?c" "sl_head s < ?c" using ok by (simp_all add: ring_ok_def)
  show "ring_ok opt ?s" using ok by (auto simp: ring_ok_def slo_push_def)
  show "entries opt ?s = keep_last ?c (entries opt s @ [e])"
  proof (cases "sl_size s < ?c")
    case True
    then have h: "sl_head s = 0" using ok by (simp add: ring_ok_def)
    have "entries opt ?s = entries opt s @ [e]"
    proof (rule nth_equalityI)
      show "length (entries opt ?s) = length (entries opt s @ [e])" using True by (simp add: slo_push_def)
      fix i assume "i < length (entries opt ?s)"
      then have "i < sl_size s \<or> i = sl_size s" using True by (auto simp: slo_push_def)
      then show "entries opt ?s ! i = (entries opt s @ [e]) ! i"
        using True c h by (auto simp: entries_nth slo_push_def nth_append)
    qed
    with True show ?thesis by (simp add: keep_last_def)
  next
    case False
    then have size: "sl_size s = ?c" using ok by (simp add: ring_ok_def)
    have "entries opt ?s = tl (entries opt s) @ [e]"
    proof (rule nth_equalityI)
      show "length (entries opt ?s) = length (tl (entries opt s) @ [e])" using size c by (simp add: slo_push_def)
      fix i assume "i < length (entries opt ?s)"
      then have i: "i < ?c" using size by (simp add: slo_push_def)
      have at_i: "entries opt ?s ! i = the ((sl_ring s)[sl_head s := Some e] ! ((sl_head s + 1 + i) mod ?c))"
        using i size by (simp add: entries_nth slo_push_def mod_simps)
      show "entries opt ?s ! i = (tl (entries opt s) @ [e]) ! i"
      proof (cases "Suc i < ?c")
        case True
        have "(sl_head s + 1 + i) mod ?c \<noteq> sl_head s"
        proof (cases "sl_head s + 1 + i < ?c")
          case False
          then have "(sl_head s + 1 + i) mod ?c = sl_head s + 1 + i - ?c" using c True by (simp add: mod_if)
          then show ?thesis using True False by arith
        qed simp
        then show ?thesis using True size at_i by (simp add: nth_append nth_tl entries_nth)
      next
        case False
        then have "sl_head s + 1 + i = sl_head s + ?c" using i by simp
        then have "(sl_head s + 1 + i) mod ?c = sl_head s" using c(3) by (metis mod_add_self2 mod_less)
        then show ?thesis using i False size c at_i by (simp add: nth_append)
      qed
    qed
    moreover have "length (entries opt s) = ?c" using size by simp
    moreover from this have "entries opt s \<noteq> []" using c(1) by (auto simp del: length_entries)
    moreover have "length (entries opt s @ [e]) - ?c = 1" using size by simp
    ultimately show ?thesis unfolding keep_last_def by (metis One_nat_def drop0 drop_Suc tl_append2)
  qed
qed

subsection \<open>Cumulative counters and sums of deltas\<close>

text \<open>Entries are in time order, and each cumulative count is the one before plus its delta.\<close>

fun chained :: "slo_entry list \<Rightarrow> bool" where
  "chained (a # b # es) \<longleftrightarrow> se_at a \<le> se_at b \<and> se_cumGood b = se_cumGood a + se_dGood b
     \<and> se_cumTotal b = se_cumTotal a + se_dTotal b \<and> chained (b # es)"
| "chained _ \<longleftrightarrow> True"

lemma chained_snoc:
  "chained (es @ [e]) \<longleftrightarrow> chained es \<and> (es \<noteq> [] \<longrightarrow> se_at (last es) \<le> se_at e
     \<and> se_cumGood e = se_cumGood (last es) + se_dGood e \<and> se_cumTotal e = se_cumTotal (last es) + se_dTotal e)"
  by (induction es rule: chained.induct) auto

lemma chained_tl: "chained es \<Longrightarrow> chained (tl es)"
  by (cases es rule: chained.cases) auto

lemma chained_drop: "chained es \<Longrightarrow> chained (drop n es)"
  by (induction n) (auto simp: drop_Suc tl_drop [symmetric] chained_tl)

lemma chained_sum:
  "chained (a # es) \<Longrightarrow> se_cumGood (last (a # es)) = se_cumGood a + sum_list (map se_dGood es)
     \<and> se_cumTotal (last (a # es)) = se_cumTotal a + sum_list (map se_dTotal es)"
  by (induction es arbitrary: a) auto

lemma chained_sorted: "chained es \<Longrightarrow> sorted (map se_at es)"
  by (induction es rule: chained.induct) (auto intro: order_trans)

lemma sorted_cut:
  assumes "sorted (map se_at es)"
  shows "filter (before_window now w) es = take (length (filter (before_window now w) es)) es"
    and "filter (\<lambda>e. \<not> before_window now w e) es = drop (length (filter (before_window now w) es)) es"
    and "i < length es \<Longrightarrow> before_window now w (es ! i) \<longleftrightarrow> i < length (filter (before_window now w) es)"
proof -
  let ?P = "before_window now w"
  have down: "se_at a \<le> se_at b \<Longrightarrow> ?P b \<Longrightarrow> ?P a" for a b by (auto simp: before_window_def split: js_num.splits)
  have tw: "filter ?P es = takeWhile ?P es \<and> filter (\<lambda>e. \<not> ?P e) es = dropWhile ?P es" using assms
  proof (induction es)
    case (Cons a es)
    show ?case
    proof (cases "?P a")
      case False
      then have "\<forall>b \<in> set es. \<not> ?P b" using Cons.prems down by auto
      with False show ?thesis by simp
    qed (use Cons in simp)
  qed simp
  then have n: "length (filter ?P es) = length (takeWhile ?P es)" by simp
  show "filter ?P es = take (length (filter ?P es)) es" using tw unfolding n by (simp add: takeWhile_eq_take [symmetric])
  show "filter (\<lambda>e. \<not> ?P e) es = drop (length (filter ?P es)) es" using tw unfolding n by (simp add: dropWhile_eq_drop [symmetric])
  assume i: "i < length es"
  show "?P (es ! i) \<longleftrightarrow> i < length (filter ?P es)"
  proof
    assume "i < length (filter ?P es)"
    then show "?P (es ! i)" unfolding n by (metis nth_mem set_takeWhileD takeWhile_nth)
  next
    assume p: "?P (es ! i)"
    show "i < length (filter ?P es)"
    proof (rule ccontr)
      assume "\<not> i < length (filter ?P es)"
      then have le: "length (takeWhile ?P es) \<le> i" unfolding n by simp
      then have m: "length (takeWhile ?P es) < length es" using i by simp
      have "se_at (es ! length (takeWhile ?P es)) \<le> se_at (es ! i)"
        using assms le i by (simp add: sorted_iff_nth_mono)
      with down p have "?P (es ! length (takeWhile ?P es))" by blast
      with nth_length_takeWhile [OF m] show False by simp
    qed
  qed
qed

definition slo_inv :: "slo_opts \<Rightarrow> slo_tracker \<Rightarrow> bool" where
  "slo_inv opt s \<longleftrightarrow> ring_ok opt s \<and> chained (entries opt s)
     \<and> (entries opt s \<noteq> [] \<longrightarrow> se_cumGood (last (entries opt s)) = sl_accGood s \<and> se_cumTotal (last (entries opt s)) = sl_accTotal s)"

lemma last_entry: "sl_size s \<noteq> 0 \<Longrightarrow> the (entryAt opt s (sl_size s - 1)) = last (entries opt s)"
  by (simp add: entries_def last_map)

lemma counts_correct:
  assumes inv: "slo_inv opt s"
  shows "countsOver opt now w s = spec_counts now w (entries opt s)"
proof (cases "sl_size s = 0")
  case True
  then have "entries opt s = []" by (simp add: entries_def)
  with True show ?thesis by (simp add: countsOver_def spec_counts_def)
next
  case False
  let ?es = "entries opt s" and ?P = "before_window now w"
  let ?n = "length (filter ?P ?es)"
  have ne: "?es \<noteq> []" using False by (metis length_entries length_0_conv)
  have ch: "chained ?es" using inv by (simp add: slo_inv_def)
  note cut = sorted_cut [OF chained_sorted [OF ch], where now = now and w = w]
  have nth: "the (entryAt opt s i) = ?es ! i" if "i < sl_size s" for i using that by (simp add: entries_nth entryAt_def)
  have "search (\<lambda>i. ?P (the (entryAt opt s (nat i)))) 0 (int (sl_size s) - 1) (-1) = int ?n - 1"
    by (rule search_correct) (use cut(3) nth in \<open>auto simp: le_trans [OF length_filter_le]\<close>)
  note ref = this
  have lst: "the (entryAt opt s (sl_size s - 1)) = last ?es" by (rule last_entry [OF False])
  show ?thesis
  proof (cases "filter ?P ?es = []")
    case True
    then have all: "filter (\<lambda>e. \<not> ?P e) ?es = ?es" using cut(2) by simp
    have first: "the (entryAt opt s 0) = hd ?es" using nth [of 0] False ne by (simp add: hd_conv_nth)
    have "se_cumGood (last ?es) = se_cumGood (hd ?es) + sum_list (map se_dGood (tl ?es))
        \<and> se_cumTotal (last ?es) = se_cumTotal (hd ?es) + sum_list (map se_dTotal (tl ?es))"
      using chained_sum [of "hd ?es" "tl ?es"] ch ne by simp
    moreover have "sum_list (map f ?es) = f (hd ?es) + sum_list (map f (tl ?es))" for f :: "slo_entry \<Rightarrow> real"
      using ne by (cases ?es) simp_all
    ultimately show ?thesis using True False ref
      by (simp add: countsOver_def spec_counts_def Let_def lst [simplified] first all ne del: length_0_conv)
  next
    case old: False
    then have n: "0 < ?n" by simp
    have n_le: "?n \<le> sl_size s" using length_filter_le [of ?P ?es] by simp
    have lo: "last (filter ?P ?es) = ?es ! (?n - 1)"
      using old cut(1) n_le by (metis (no_types, lifting) last_conv_nth nth_take n diff_less zero_less_one)
    have refe: "the (entryAt opt s (nat (int ?n - 1))) = last (filter ?P ?es)"
    proof -
      have "nat (int ?n - 1) = ?n - 1" using n by linarith
      moreover have "?n - 1 < sl_size s" using n n_le by linarith
      ultimately show ?thesis using nth lo by metis
    qed
    have dr: "drop (?n - 1) ?es = last (filter ?P ?es) # drop ?n ?es"
    proof -
      have "?n - 1 < length ?es" "Suc (?n - 1) = ?n" using n n_le unfolding length_entries by linarith+
      with Cons_nth_drop_Suc [of "?n - 1" ?es] lo show ?thesis by metis
    qed
    have "chained (last (filter ?P ?es) # drop ?n ?es)" using chained_drop [OF ch, of "?n - 1"] unfolding dr .
    moreover have "last (last (filter ?P ?es) # drop ?n ?es) = last ?es"
    proof -
      have "?n - 1 < length ?es" using n n_le unfolding length_entries by linarith
      then show ?thesis unfolding dr [symmetric] by (rule last_drop)
    qed
    ultimately have "se_cumGood (last ?es) = se_cumGood (last (filter ?P ?es)) + sum_list (map se_dGood (drop ?n ?es))
        \<and> se_cumTotal (last ?es) = se_cumTotal (last (filter ?P ?es)) + sum_list (map se_dTotal (drop ?n ?es))"
      using chained_sum by metis
    with old n ref False show ?thesis
      by (simp add: countsOver_def spec_counts_def Let_def lst [simplified] refe cut(2) [symmetric] ne)
  qed
qed

definition to_spec :: "slo_opts \<Rightarrow> slo_tracker \<Rightarrow> slo_spec" where
  "to_spec opt s = \<lparr>sp_entries = entries opt s, sp_lastGood = sl_lastGood s, sp_lastTotal = sl_lastTotal s,
     sp_accGood = sl_accGood s, sp_accTotal = sl_accTotal s\<rparr>"

lemma keep_last_snoc: "1 \<le> n \<Longrightarrow> keep_last n (xs @ [x]) = drop (Suc (length xs) - n) xs @ [x]"
  by (simp add: keep_last_def)

lemma observe_refines:
  assumes inv: "slo_inv opt s"
  shows "slo_inv opt (slo_observe opt (Fin t) (Fin g) (Fin n) s)
    \<and> to_spec opt (slo_observe opt (Fin t) (Fin g) (Fin n) s)
      = (if acceptable t g n (entries opt s) then spec_observe opt t g n (to_spec opt s) else to_spec opt s)"
proof (cases "acceptable t g n (entries opt s)")
  case False
  have "slo_observe opt (Fin t) (Fin g) (Fin n) s = s"
    using False last_entry [of s opt] by (cases "sl_size s = 0") (auto simp: slo_observe_def acceptable_def entries_def)
  with inv False show ?thesis by simp
next
  case True
  have guard: "\<not> (g < 0 \<or> n < 0 \<or> g > n)" "\<not> (sl_size s > 0 \<and> t < se_at (the (entryAt opt s (sl_size s - 1))))"
    using True last_entry [of s opt] by (auto simp: acceptable_def entries_def)
  define dG where "dG = (if g \<ge> sl_lastGood s then g - sl_lastGood s else g)"
  define dT where "dT = (if n \<ge> sl_lastTotal s then n - sl_lastTotal s else n)"
  let ?s = "s\<lparr>sl_accGood := sl_accGood s + dG, sl_accTotal := sl_accTotal s + dT, sl_lastGood := g, sl_lastTotal := n\<rparr>"
  let ?e = "\<lparr>se_at = t, se_cumGood = sl_accGood s + dG, se_cumTotal = sl_accTotal s + dT, se_dGood = dG, se_dTotal = dT\<rparr>"
  have obs: "slo_observe opt (Fin t) (Fin g) (Fin n) s = slo_push opt ?e ?s"
    by (simp only: slo_observe_def prod.case js_num.case guard if_False Let_def dG_def dT_def) simp
  have ring: "ring_ok opt ?s" "entries opt ?s = entries opt s"
    using inv by (simp_all add: slo_inv_def ring_ok_def entries_def entryAt_def)
  note push = push_ring [OF ring(1), of ?e]
  have c: "1 \<le> sl_capacity opt" using ring(1) by (simp add: ring_ok_def)
  have es: "entries opt (slo_push opt ?e ?s) = drop (Suc (sl_size s) - sl_capacity opt) (entries opt s) @ [?e]"
    using push(2) by (simp add: ring(2) keep_last_snoc [OF c])
  have link: "entries opt s \<noteq> [] \<Longrightarrow> se_at (last (entries opt s)) \<le> t \<and> se_cumGood (last (entries opt s)) = sl_accGood s
      \<and> se_cumTotal (last (entries opt s)) = sl_accTotal s"
    using inv True by (auto simp: slo_inv_def acceptable_def)
  have ch: "chained (entries opt (slo_push opt ?e ?s))"
    unfolding es chained_snoc
  proof (intro conjI impI)
    show "chained (drop (Suc (sl_size s) - sl_capacity opt) (entries opt s))"
      using inv by (intro chained_drop) (simp add: slo_inv_def)
    assume "drop (Suc (sl_size s) - sl_capacity opt) (entries opt s) \<noteq> []"
    then have "Suc (sl_size s) - sl_capacity opt < length (entries opt s)" by simp
    then have "last (drop (Suc (sl_size s) - sl_capacity opt) (entries opt s)) = last (entries opt s)" "entries opt s \<noteq> []"
      by (rule last_drop) (use \<open>Suc (sl_size s) - sl_capacity opt < length (entries opt s)\<close> in \<open>auto simp del: length_entries\<close>)
    with link show "se_at (last (drop (Suc (sl_size s) - sl_capacity opt) (entries opt s))) \<le> se_at ?e"
      "se_cumGood ?e = se_cumGood (last (drop (Suc (sl_size s) - sl_capacity opt) (entries opt s))) + se_dGood ?e"
      "se_cumTotal ?e = se_cumTotal (last (drop (Suc (sl_size s) - sl_capacity opt) (entries opt s))) + se_dTotal ?e"
      by simp_all
  qed
  have acc: "sl_accGood (slo_push opt ?e ?s) = sl_accGood s + dG" "sl_accTotal (slo_push opt ?e ?s) = sl_accTotal s + dT"
    "sl_lastGood (slo_push opt ?e ?s) = g" "sl_lastTotal (slo_push opt ?e ?s) = n" by (simp_all add: slo_push_def)
  have "slo_inv opt (slo_push opt ?e ?s)" using push(1) ch es acc by (simp add: slo_inv_def)
  moreover have "spec_observe opt t g n (to_spec opt s) = \<lparr>sp_entries = keep_last (sl_capacity opt) (entries opt s @ [?e]),
      sp_lastGood = g, sp_lastTotal = n, sp_accGood = sl_accGood s + dG, sp_accTotal = sl_accTotal s + dT\<rparr>"
    unfolding spec_observe_def Let_def dG_def dT_def to_spec_def by simp
  then have "to_spec opt (slo_push opt ?e ?s) = spec_observe opt t g n (to_spec opt s)"
    using push(2) [unfolded ring(2)] acc by (simp add: to_spec_def)
  ultimately show ?thesis using True obs by simp
qed

lemma slo_step_refines:
  assumes inv: "slo_inv opt s"
  shows "slo_inv opt (fst (slo_step opt s e))
    \<and> spec_step opt (to_spec opt s) e = (to_spec opt (fst (slo_step opt s e)), snd (slo_step opt s e))"
proof (cases e)
  case (Observe t g n)
  show ?thesis
  proof (cases "\<exists>a b c. t = Fin a \<and> g = Fin b \<and> n = Fin c")
    case True
    then obtain a b c where "t = Fin a" "g = Fin b" "n = Fin c" by blast
    with Observe observe_refines [OF inv, of a b c] show ?thesis by (auto simp: to_spec_def)
  next
    case False
    then have "slo_observe opt t g n s = s" "spec_step opt (to_spec opt s) (Observe t g n) = (to_spec opt s, Observed)"
      by (cases t; cases g; cases n; simp add: slo_observe_def)+
    with Observe inv show ?thesis by simp
  qed
next
  case (Budget now w)
  have "sp_entries (to_spec opt s) = entries opt s" by (simp add: to_spec_def)
  with Budget inv counts_correct [OF inv] show ?thesis by (simp add: slo_budget_at_def Let_def)
qed

interpretation slo: simulation "slo_step opt" "slo_inv opt" "spec_step opt" "to_spec opt" for opt
  by unfold_locales (use slo_step_refines in auto)

lemma created_tracker:
  assumes "createSloTracker q w c = Inr (opt, s)"
  shows "slo_inv opt s" and "to_spec opt s = \<lparr>sp_entries = [], sp_lastGood = 0, sp_lastTotal = 0, sp_accGood = 0, sp_accTotal = 0\<rparr>"
proof -
  have s: "s = new_tracker (sl_capacity opt)" "2 \<le> sl_capacity opt"
    using assms by (auto simp: createSloTracker_def le_nat_iff le_floor_iff split: js_num.splits if_splits)
  then show "slo_inv opt s" by (simp add: slo_inv_def ring_ok_def new_tracker_def entries_def)
  show "to_spec opt s = \<lparr>sp_entries = [], sp_lastGood = 0, sp_lastTotal = 0, sp_accGood = 0, sp_accTotal = 0\<rparr>"
    by (simp add: s(1) to_spec_def new_tracker_def entries_def)
qed

text \<open>C33. The ring, the cumulative counters and the binary search answer what the last
  \<^verbatim>\<open>maxSamples\<close> deltas say: in every run of a created tracker, every budget is the one
  computed by summing the deltas of the retained entries after the cutoff, over a plain list.\<close>
theorem slo_budgets_are_window_sums:
  assumes "createSloTracker q w c = Inr (opt, s)"
  shows "snd (exec (slo_step opt) s es) =
    snd (exec (spec_step opt) \<lparr>sp_entries = [], sp_lastGood = 0, sp_lastTotal = 0, sp_accGood = 0, sp_accTotal = 0\<rparr> es)"
  using slo.run_outputs [OF created_tracker(1) [OF assms], of es] created_tracker(2) [OF assms] by simp

lemma slo_budgets_are_window_sums_witness:
  "\<exists>opt s. snd (exec (slo_step opt) s [Observe (Fin 0) (Fin 9) (Fin 10), Observe (Fin 5) (Fin 15) (Fin 20), Budget 6 (Some (Fin 3))]) =
    snd (exec (spec_step opt) \<lparr>sp_entries = [], sp_lastGood = 0, sp_lastTotal = 0, sp_accGood = 0, sp_accTotal = 0\<rparr>
      [Observe (Fin 0) (Fin 9) (Fin 10), Observe (Fin 5) (Fin 15) (Fin 20), Budget 6 (Some (Fin 3))])"
proof -
  have "createSloTracker (Fin (1 / 2)) (Fin 100) (Fin 2) =
      Inr (\<lparr>sl_objective = 1 / 2, sl_windowMs = Fin 100, sl_capacity = 2\<rparr>, new_tracker 2)"
    by (simp add: createSloTracker_def positive_def)
  from slo_budgets_are_window_sums [OF this] show ?thesis by blast
qed

end
