(* ===== verification/Thought_Graph.thy ===== *)
theory Thought_Graph
  imports Js_Map Js_String Validation "HOL-Library.Multiset"
begin

text \<open>
  The graph of thought (\<^verbatim>\<open>src/src/think/graph.ts\<close>, \<^verbatim>\<open>types.ts\<close>): the
  normalisation of the model's untrusted JSON into a graph, Kahn's topological sort, the
  dependency levels and execution waves, and the XML the graph is rendered to. A node of a list is
  an object, compared by reference in the sort, so the sort works on the positions of the list.
\<close>

declare map_of_eq_Some_iff [simp del] Some_eq_map_of_iff [simp del]

subsection \<open>Nodes and graphs\<close>

datatype NodeKind = Understand | Decompose | Generate | Compare | Critique | Aggregate | Refine | Synthesize

fun kind_name :: "NodeKind \<Rightarrow> string" where
  "kind_name Understand = ''understand''"
| "kind_name Decompose = ''decompose''"
| "kind_name Generate = ''generate''"
| "kind_name Compare = ''compare''"
| "kind_name Critique = ''critique''"
| "kind_name Aggregate = ''aggregate''"
| "kind_name Refine = ''refine''"
| "kind_name Synthesize = ''synthesize''"

definition NODE_KINDS :: "NodeKind list" where
  "NODE_KINDS = [Understand, Decompose, Generate, Compare, Critique, Aggregate, Refine, Synthesize]"

record ThoughtNode =
  node_id :: string
  node_title :: string
  node_kind :: NodeKind
  question :: string
  dependsOn :: "string list"
  thinking :: "string option"
  conclusion :: "string option"

record ThoughtGraph =
  goal :: string
  graph_nodes :: "ThoughtNode list"

definition new_node :: "string \<Rightarrow> string \<Rightarrow> NodeKind \<Rightarrow> string \<Rightarrow> string list \<Rightarrow> ThoughtNode" where
  "new_node i t k q ds = \<lparr>node_id = i, node_title = t, node_kind = k, question = q, dependsOn = ds,
     thinking = None, conclusion = None\<rparr>"

definition MIN_NODES :: nat where "MIN_NODES = 5"
definition MAX_NODES :: nat where "MAX_NODES = 8"

definition FALLBACK_GRAPH :: ThoughtGraph where
  "FALLBACK_GRAPH = \<lparr>
     goal = ''Understand the request, decompose it, weigh approaches, and produce an execution plan'',
     graph_nodes = [
       new_node ''n1'' ''Understand'' Understand
         ''What is the user actually asking for, including implicit goals and quality bar?'' [],
       new_node ''n2'' ''Decompose'' Decompose
         ''What subproblems must be solved, in what order, and what does each depend on?'' [''n1''],
       new_node ''n3'' ''Approaches'' Generate
         ''What are 2-3 viable approaches and the tradeoffs of each for this specific task?'' [''n2''],
       new_node ''n4'' ''Risks'' Critique
         ''What could go wrong: missing constraints, edge cases, regressions, or over-scoping?'' [''n3''],
       new_node ''n5'' ''Plan'' Synthesize
         ''What is the concrete execution plan for the coding agent, in order?'' [''n4'']]\<rparr>"

subsection \<open>Normalisation of the model's answer\<close>

text \<open>Property access on an untyped value the code has checked to be an object; an array has no such key.\<close>

definition js_get :: "js \<Rightarrow> string \<Rightarrow> js" where
  "js_get v key = (case v of JObj obj \<Rightarrow> obj_get obj key | _ \<Rightarrow> JUndef)"

fun is_object_like :: "js \<Rightarrow> bool" where
  "is_object_like (JObj _) = True"
| "is_object_like (JArr _) = True"
| "is_object_like _ = False"

definition asString :: "js \<Rightarrow> string" where
  "asString v = (case v of JStr s \<Rightarrow> js_trim s | _ \<Rightarrow> [])"

definition isNodeKind :: "string \<Rightarrow> NodeKind option" where
  "isNodeKind s = List.find (\<lambda>k. kind_name k = s) NODE_KINDS"

text \<open>\<^verbatim>\<open>split\<close> on runs of a separator class.\<close>

function split_runs :: "(char \<Rightarrow> bool) \<Rightarrow> string \<Rightarrow> string list" where
  "split_runs p s = takeWhile (\<lambda>c. \<not> p c) s #
     (if dropWhile (\<lambda>c. \<not> p c) s = [] then []
      else split_runs p (dropWhile p (dropWhile (\<lambda>c. \<not> p c) s)))"
  by pat_completeness auto
termination
proof (relation "measure (\<lambda>(p, s). length s)")
  fix p :: "char \<Rightarrow> bool" and s :: string
  assume ne: "dropWhile (\<lambda>c. \<not> p c) s \<noteq> []"
  then obtain x xs where x: "dropWhile (\<lambda>c. \<not> p c) s = x # xs" by (cases "dropWhile (\<lambda>c. \<not> p c) s") auto
  then have "p x" by (simp add: dropWhile_eq_Cons_conv)
  have "length (dropWhile p xs) \<le> length xs" by (rule length_dropWhile_le)
  also have "length xs < length s" using x by (metis Suc_le_lessD length_Cons length_dropWhile_le)
  finally show "((p, dropWhile p (dropWhile (\<lambda>c. \<not> p c) s)), p, s) \<in> measure (\<lambda>(p, s). length s)"
    using x \<open>p x\<close> by simp
qed simp

declare split_runs.simps [simp del]

definition parseDependsOn :: "js \<Rightarrow> string list" where
  "parseDependsOn v = (case v of
      JArr xs \<Rightarrow> filter (\<lambda>s. s \<noteq> []) (map asString xs)
    | JStr s \<Rightarrow> filter (\<lambda>s. s \<noteq> []) (map js_trim (split_runs (\<lambda>c. c = CHR '','' \<or> is_ws c) s))
    | _ \<Rightarrow> [])"

definition NODE_ID :: "string \<Rightarrow> bool" where
  "NODE_ID = class_run is_urlsafe 1 64"

text \<open>The own property names of \<^verbatim>\<open>Object.prototype\<close>.\<close>

definition PROTOTYPE_KEYS :: "string list" where
  "PROTOTYPE_KEYS = [''constructor'', ''__defineGetter__'', ''__defineSetter__'', ''hasOwnProperty'',
     ''__lookupGetter__'', ''__lookupSetter__'', ''isPrototypeOf'', ''propertyIsEnumerable'',
     ''toString'', ''valueOf'', ''__proto__'', ''toLocaleString'']"

definition usable_id :: "string \<Rightarrow> bool" where
  "usable_id s = (NODE_ID s \<and> s \<notin> set PROTOTYPE_KEYS)"

text \<open>\<^verbatim>\<open>toLowerCase\<close> on code units below 256.\<close>

definition lower_char :: "char \<Rightarrow> char" where
  "lower_char c = (let k = code_of c in
     if 65 \<le> k \<and> k \<le> 90 \<or> 192 \<le> k \<and> k \<le> 222 \<and> k \<noteq> 215 then char_of (k + 32) else c)"

definition reserved_ids :: "js list \<Rightarrow> string list" where
  "reserved_ids = foldl (\<lambda>reserved entry.
     let raw = (if is_object_like entry then asString (js_get entry ''id'') else [])
     in if usable_id raw then reserved @ [raw] else reserved) []"

definition positional :: "nat \<Rightarrow> string" where
  "positional k = CHR ''n'' # dec k"

lemma positional_inj: "positional j = positional k \<longleftrightarrow> j = k"
  by (auto simp: positional_def dest: dec_inj)

lemma finite_positional: "finite {j. positional j \<in> set used}"
proof (rule finite_imageD)
  show "finite (positional ` {j. positional j \<in> set used})" by (rule finite_subset [of _ "set used"]) auto
  show "inj_on positional {j. positional j \<in> set used}" by (simp add: inj_on_def positional_inj)
qed

function freshId_from :: "string list \<Rightarrow> nat \<Rightarrow> nat" where
  "freshId_from used k = (if positional k \<in> set used then freshId_from used (k + 1) else k)"
  by pat_completeness auto
termination
proof (relation "measure (\<lambda>(used, k). card {j. k \<le> j \<and> positional j \<in> set used})")
  fix used :: "string list" and k
  assume taken: "positional k \<in> set used"
  have "{j. k + 1 \<le> j \<and> positional j \<in> set used} \<subset> {j. k \<le> j \<and> positional j \<in> set used}"
    using taken by (auto simp: psubset_eq set_eq_iff intro!: exI [of _ k])
  moreover have "finite {j. k \<le> j \<and> positional j \<in> set used}"
    by (rule finite_subset [OF _ finite_positional [of used]]) auto
  ultimately have "card {j. k + 1 \<le> j \<and> positional j \<in> set used} < card {j. k \<le> j \<and> positional j \<in> set used}"
    by (rule psubset_card_mono [rotated])
  then show "((used, k + 1), used, k) \<in> measure (\<lambda>(used, k). card {j. k \<le> j \<and> positional j \<in> set used})"
    by simp
qed simp

declare freshId_from.simps [simp del]

definition freshId :: "string list \<Rightarrow> string list \<Rightarrow> nat \<Rightarrow> string" where
  "freshId reserved seen index = positional (freshId_from (reserved @ seen) (index + 1))"

text \<open>The nullish default \<^verbatim>\<open>a ?? b\<close> on values.\<close>

definition or_else :: "js \<Rightarrow> js \<Rightarrow> js" where
  "or_else a b = (if a = JUndef \<or> a = JNull then b else a)"

definition first_nonempty :: "string list \<Rightarrow> string" where
  "first_nonempty ss = (case dropWhile (\<lambda>s. s = []) ss of [] \<Rightarrow> [] | s # _ \<Rightarrow> s)"

text \<open>One entry of the answer: skipped, or a node appended; \<open>seen\<close> are the ids of \<open>nodes\<close>.\<close>

type_synonym gather = "ThoughtNode list \<times> string list \<times> (string, string) jmap"

definition gather_entry :: "string list \<Rightarrow> nat \<Rightarrow> js \<Rightarrow> gather \<Rightarrow> gather" where
  "gather_entry reserved index entry st = (case st of (nodes, seen, renamed) \<Rightarrow>
     if \<not> is_object_like entry then st
     else let rawId = asString (js_get entry ''id'');
              i = (if usable_id rawId then rawId else freshId reserved seen index)
     in if i \<in> set seen then st
     else let renamed' = (if rawId \<noteq> [] \<and> rawId \<noteq> i \<and> jm_get renamed rawId = None
                          then jm_set rawId i renamed else renamed);
              kindRaw = map lower_char (asString (js_get entry ''kind''));
              k = (case isNodeKind kindRaw of Some kd \<Rightarrow> kd
                   | None \<Rightarrow> if index = 0 then Understand else Generate)
     in (nodes @ [new_node i (first_nonempty [asString (js_get entry ''title''), i]) k
           (first_nonempty [asString (js_get entry ''question''), asString (js_get entry ''prompt''),
              ''Reason about '' @ i])
           (parseDependsOn (or_else (js_get entry ''depends_on'') (js_get entry ''dependsOn'')))],
         seen @ [i], renamed'))"

text \<open>The loop over the entries; it stops once a node just appended makes \<open>maxNodes\<close>.\<close>

fun gather_nodes :: "string list \<Rightarrow> nat \<Rightarrow> nat \<Rightarrow> js list \<Rightarrow> gather \<Rightarrow> gather" where
  "gather_nodes reserved maxNodes index [] st = st"
| "gather_nodes reserved maxNodes index (entry # entries) st =
     (let st' = gather_entry reserved index entry st
      in if length (fst st') \<noteq> length (fst st) \<and> maxNodes \<le> length (fst st') then st'
         else gather_nodes reserved maxNodes (index + 1) entries st')"

definition rewire :: "string list \<Rightarrow> (string, string) jmap \<Rightarrow> ThoughtNode \<Rightarrow> ThoughtNode" where
  "rewire ids renamed node = node\<lparr>dependsOn :=
     filter (\<lambda>dep. dep \<in> set ids \<and> dep \<noteq> node_id node)
       (map (\<lambda>dep. case jm_get renamed dep of Some i \<Rightarrow> i | None \<Rightarrow> dep) (dependsOn node))\<rparr>"

definition finish_last :: "ThoughtNode list \<Rightarrow> ThoughtNode list" where
  "finish_last nodes = (if nodes = [] then []
     else nodes[length nodes - 1 := (last nodes)\<lparr>node_kind := Synthesize\<rparr>])"

definition sourceNodes :: "js \<Rightarrow> js list" where
  "sourceNodes raw = (case js_get raw ''nodes'' of JArr xs \<Rightarrow> xs | _ \<Rightarrow> [])"

definition normalizeGraph :: "js \<Rightarrow> string \<Rightarrow> nat \<Rightarrow> nat \<Rightarrow> ThoughtGraph" where
  "normalizeGraph raw fallbackGoal minNodes maxNodes =
     (let entries = sourceNodes raw;
          (nodes, seen, renamed) = gather_nodes (reserved_ids entries) maxNodes 0 entries ([], [], [])
      in if length nodes < minNodes then FALLBACK_GRAPH
         else \<lparr>goal = first_nonempty [asString (js_get raw ''goal''), fallbackGoal, goal FALLBACK_GRAPH],
               graph_nodes = finish_last (map (rewire (map node_id nodes) renamed) nodes)\<rparr>)"

definition isFallbackGraph :: "ThoughtGraph \<Rightarrow> bool" where
  "isFallbackGraph graph = (goal graph = goal FALLBACK_GRAPH \<and>
     length (graph_nodes graph) = length (graph_nodes FALLBACK_GRAPH) \<and>
     list_all2 (\<lambda>node item. node_id item = node_id node \<and> node_kind item = node_kind node \<and>
       question item = question node) (graph_nodes FALLBACK_GRAPH) (graph_nodes graph))"

subsection \<open>Topological order\<close>

text \<open>\<^verbatim>\<open>new Map(pairs)\<close>.\<close>

definition map_from :: "('k \<times> 'v) list \<Rightarrow> ('k, 'v) jmap" where
  "map_from pairs = foldl (\<lambda>m (k, v). jm_set k v m) [] pairs"

type_synonym edge_tables = "(string, int) jmap \<times> (string, string list) jmap"

definition or_zero :: "int option \<Rightarrow> int" where
  "or_zero x = (case x of Some v \<Rightarrow> v | None \<Rightarrow> 0)"

definition link_dep :: "(string, nat) jmap \<Rightarrow> string \<Rightarrow> edge_tables \<Rightarrow> string \<Rightarrow> edge_tables" where
  "link_dep byId i tables dep = (case tables of (incoming, children) \<Rightarrow>
     if jm_get byId dep = None then (incoming, children)
     else (jm_set i (or_zero (jm_get incoming i) + 1) incoming,
           case jm_get children dep of None \<Rightarrow> children | Some cs \<Rightarrow> jm_set dep (cs @ [i]) children))"

definition link_node :: "(string, nat) jmap \<Rightarrow> edge_tables \<Rightarrow> ThoughtNode \<Rightarrow> edge_tables" where
  "link_node byId tables node = foldl (link_dep byId (node_id node)) tables (dependsOn node)"

definition edge_tables_of :: "ThoughtNode list \<Rightarrow> (string, nat) jmap \<Rightarrow> edge_tables" where
  "edge_tables_of nodes byId = foldl (link_node byId)
     (map_from (map (\<lambda>n. (node_id n, 0)) nodes), map_from (map (\<lambda>n. (node_id n, [])) nodes)) nodes"

text \<open>Decrementing the children of an emitted node; those that reach zero join the queue.\<close>

fun visit :: "string list \<Rightarrow> (string, int) jmap \<Rightarrow> string list \<Rightarrow> (string, int) jmap \<times> string list" where
  "visit [] incoming queue = (incoming, queue)"
| "visit (child # cs) incoming queue =
     (let nxt = (case jm_get incoming child of Some v \<Rightarrow> v | None \<Rightarrow> 1) - 1
      in visit cs (jm_set child nxt incoming) (if nxt = 0 then queue @ [child] else queue))"

text \<open>What bounds the queue loop: the children not yet down to zero.\<close>

definition pending :: "string list \<Rightarrow> (string, int) jmap \<Rightarrow> nat" where
  "pending cs incoming = length (filter (\<lambda>c. case jm_get incoming c of None \<Rightarrow> True | Some v \<Rightarrow> 0 < v) (remdups cs))"

definition children_of :: "(string, string list) jmap \<Rightarrow> string \<Rightarrow> string list" where
  "children_of children i = (case jm_get children i of Some cs \<Rightarrow> cs | None \<Rightarrow> [])"

definition all_children :: "(string, string list) jmap \<Rightarrow> string list" where
  "all_children children = concat (map snd children)"

lemma children_of_subset: "set (children_of children i) \<subseteq> set (all_children children)"
proof (cases "jm_get children i")
  case (Some cs)
  then have "(i, cs) \<in> set children" by (rule map_of_SomeD)
  with Some show ?thesis by (force simp: children_of_def all_children_def)
qed (simp add: children_of_def)

lemma filter_drop_one:
  "distinct xs \<Longrightarrow> c \<in> set xs \<Longrightarrow> P c \<Longrightarrow> \<not> Q c \<Longrightarrow> (\<And>x. x \<noteq> c \<Longrightarrow> Q x = P x) \<Longrightarrow>
    Suc (length (filter Q xs)) = length (filter P xs)"
proof (induction xs)
  case Nil
  then show ?case by simp
next
  case (Cons x xs)
  show ?case
  proof (cases "x = c")
    case True
    then have "c \<notin> set xs" using Cons.prems(1) by simp
    then have "filter Q xs = filter P xs" by (intro filter_cong refl Cons.prems(5)) auto
    with True Cons.prems show ?thesis by simp
  next
    case False
    with Cons show ?thesis by auto
  qed
qed

lemma visit_pending:
  "set cs \<subseteq> set all \<Longrightarrow> visit cs incoming queue = (incoming', queue') \<Longrightarrow>
    length queue' + pending all incoming' \<le> length queue + pending all incoming"
proof (induction cs arbitrary: incoming queue)
  case Nil
  then show ?case by simp
next
  case (Cons c cs)
  define nxt where "nxt = (case jm_get incoming c of Some v \<Rightarrow> v | None \<Rightarrow> 1) - 1"
  let ?q = "if nxt = 0 then queue @ [c] else queue" and ?inc = "jm_set c nxt incoming"
  have "length queue' + pending all incoming' \<le> length ?q + pending all ?inc"
    using Cons.prems by (intro Cons.IH) (auto simp: nxt_def Let_def)
  also have "length ?q + pending all ?inc \<le> length queue + pending all incoming"
  proof (cases "nxt = 0")
    case True
    have "Suc (pending all ?inc) = pending all incoming"
      unfolding pending_def using True Cons.prems(1)
      by (intro filter_drop_one [where c = c])
         (auto simp: update_conv' nxt_def split: option.splits)
    with True show ?thesis by simp
  next
    case False
    have "pending all ?inc \<le> pending all incoming"
      unfolding pending_def
      by (rule length_filter_mono) (auto simp: update_conv' nxt_def split: option.splits if_splits)
    with False show ?thesis by simp
  qed
  finally show ?case .
qed

type_synonym sort_state = "string list \<times> (string, int) jmap \<times> nat list"

function topo_loop :: "(string, nat) jmap \<Rightarrow> (string, string list) jmap \<Rightarrow> string list \<Rightarrow> (string, int) jmap \<Rightarrow> nat list
    \<Rightarrow> nat list" where
  "topo_loop byId children [] incoming ordered = ordered"
| "topo_loop byId children (i # queue) incoming ordered =
     (if i = [] then ordered
      else let ordered' = (case jm_get byId i of Some p \<Rightarrow> ordered @ [p] | None \<Rightarrow> ordered);
               (incoming', queue') = visit (children_of children i) incoming queue
           in topo_loop byId children queue' incoming' ordered')"
  by pat_completeness auto
termination
proof (relation "measure (\<lambda>(byId, children, queue, incoming, ordered).
    length queue + pending (all_children children) incoming)", goal_cases)
  case 1
  show ?case by simp
next
  case (2 byId children i queue incoming ordered x y incoming' queue')
  have "length queue' + pending (all_children children) incoming'
      \<le> length queue + pending (all_children children) incoming"
    using visit_pending [OF children_of_subset, of children i incoming queue] 2 by simp
  then show ?case by simp
qed

definition append_missing :: "nat list \<Rightarrow> nat \<Rightarrow> nat list" where
  "append_missing ordered p = (if p \<in> set ordered then ordered else ordered @ [p])"

text \<open>The order as positions of \<open>nodes\<close>, and the sorted list.\<close>

definition topo_order :: "ThoughtNode list \<Rightarrow> nat list" where
  "topo_order nodes =
     (let byId = map_from (zip (map node_id nodes) [0 ..< length nodes]);
          (incoming, children) = edge_tables_of nodes byId;
          queue = filter (\<lambda>i. or_zero (jm_get incoming i) = 0) (map node_id nodes)
      in foldl append_missing (topo_loop byId children queue incoming []) [0 ..< length nodes])"

definition topoSort :: "ThoughtNode list \<Rightarrow> ThoughtNode list" where
  "topoSort nodes = map (\<lambda>p. nodes ! p) (topo_order nodes)"

subsection \<open>Dependency levels and waves\<close>

definition depth_of :: "(string, nat) jmap \<Rightarrow> ThoughtNode \<Rightarrow> nat" where
  "depth_of level node = foldl (\<lambda>depth dep. case jm_get level dep of
     Some seen \<Rightarrow> max depth (seen + 1) | None \<Rightarrow> depth) 0 (dependsOn node)"

text \<open>\<^verbatim>\<open>(levels[depth] ??= []).push(node)\<close>; a hole of the array is an empty group.\<close>

definition push_level :: "nat \<Rightarrow> ThoughtNode \<Rightarrow> ThoughtNode list list \<Rightarrow> ThoughtNode list list" where
  "push_level depth node levels = (if depth < length levels
     then levels[depth := levels ! depth @ [node]]
     else levels @ replicate (depth - length levels) [] @ [[node]])"

definition level_step :: "(string, nat) jmap \<times> ThoughtNode list list \<Rightarrow> ThoughtNode
    \<Rightarrow> (string, nat) jmap \<times> ThoughtNode list list" where
  "level_step st node = (case st of (level, levels) \<Rightarrow>
     let depth = depth_of level node
     in (jm_set (node_id node) depth level, push_level depth node levels))"

definition dependencyLevels :: "ThoughtNode list \<Rightarrow> ThoughtNode list list" where
  "dependencyLevels nodes = filter (\<lambda>g. g \<noteq> []) (snd (foldl level_step ([], []) nodes))"

record WorkflowWave =
  wave :: nat
  wave_parallel :: bool
  wave_ids :: "string list"

definition wave_of :: "nat \<times> ThoughtNode list \<Rightarrow> WorkflowWave" where
  "wave_of ig = (case ig of (index, g) \<Rightarrow>
     \<lparr>wave = index + 1, wave_parallel = (1 < length g), wave_ids = map node_id g\<rparr>)"

definition workflowWaves :: "ThoughtGraph \<Rightarrow> WorkflowWave list" where
  "workflowWaves graph = map wave_of (enumerate 0 (dependencyLevels (topoSort (graph_nodes graph))))"

subsection \<open>Rendering\<close>

definition replace_char :: "char \<Rightarrow> string \<Rightarrow> string \<Rightarrow> string" where
  "replace_char c r s = concat (map (\<lambda>x. if x = c then r else [x]) s)"

definition escapeXml :: "string \<Rightarrow> string" where
  "escapeXml s = replace_char (CHR 0x22) ''&quot;'' (replace_char (CHR ''>'') ''&gt;''
     (replace_char (CHR ''<'') ''&lt;'' (replace_char (CHR ''&'') ''&amp;'' s)))"

definition NEWLINE :: string where "NEWLINE = [CHR 0x0A]"
definition TAB :: string where "TAB = [CHR 0x09]"
definition QUOTE :: string where "QUOTE = [CHR 0x22]"

definition or_empty :: "string option \<Rightarrow> string" where
  "or_empty x = (case x of Some s \<Rightarrow> s | None \<Rightarrow> [])"

definition nodeXml :: "ThoughtNode \<Rightarrow> string" where
  "nodeXml node = js_join NEWLINE [
     TAB @ ''<NODE id='' @ QUOTE @ escapeXml (node_id node) @ QUOTE @ '' kind='' @ QUOTE
       @ escapeXml (kind_name (node_kind node)) @ QUOTE @ '' title='' @ QUOTE
       @ escapeXml (node_title node) @ QUOTE @ ''>'',
     TAB @ TAB @ ''<QUESTION>'' @ escapeXml (question node) @ ''</QUESTION>'',
     (if dependsOn node \<noteq> []
      then TAB @ TAB @ ''<DEPENDS_ON>'' @ escapeXml (js_join '','' (dependsOn node)) @ ''</DEPENDS_ON>''
      else TAB @ TAB @ ''<DEPENDS_ON></DEPENDS_ON>''),
     TAB @ TAB @ ''<RATIONALE>'' @ escapeXml (or_empty (thinking node)) @ ''</RATIONALE>'',
     TAB @ TAB @ ''<CONCLUSION>'' @ escapeXml (or_empty (conclusion node)) @ ''</CONCLUSION>'',
     TAB @ ''</NODE>'']"

definition waveXml :: "WorkflowWave \<Rightarrow> string" where
  "waveXml w = TAB @ TAB @ ''<WAVE n='' @ QUOTE @ dec (wave w) @ QUOTE @ '' parallel='' @ QUOTE
     @ (if wave_parallel w then ''true'' else ''false'') @ QUOTE @ ''>''
     @ escapeXml (js_join '', '' (wave_ids w)) @ ''</WAVE>''"

definition workflowXml :: "ThoughtGraph \<Rightarrow> string list" where
  "workflowXml graph = [TAB @ ''<WORKFLOW>''] @ map waveXml (workflowWaves graph) @ [TAB @ ''</WORKFLOW>'']"

definition graphToXml :: "ThoughtGraph \<Rightarrow> string" where
  "graphToXml graph = js_join NEWLINE
     ([''<GRAPH_OF_THOUGHT>'', TAB @ ''<GOAL>'' @ escapeXml (goal graph) @ ''</GOAL>'']
      @ map nodeXml (graph_nodes graph) @ workflowXml graph @ [''</GRAPH_OF_THOUGHT>''])"

definition node_sketch :: "ThoughtNode \<Rightarrow> string" where
  "node_sketch node = node_id node @ ''  '' @ node_title node @ ''  '' @ kind_name (node_kind node)
     @ (if dependsOn node \<noteq> [] then ''  deps='' @ js_join '','' (dependsOn node) else [])"

definition graphSketch :: "ThoughtGraph \<Rightarrow> string" where
  "graphSketch graph = js_join NEWLINE (map node_sketch (graph_nodes graph))"

subsection \<open>The normalised graph is well formed\<close>

lemma freshId_from_scan:
  "k \<le> freshId_from used k \<and> positional (freshId_from used k) \<notin> set used \<and>
    (\<forall>j. k \<le> j \<and> j < freshId_from used k \<longrightarrow> positional j \<in> set used)"
proof (induction used k rule: freshId_from.induct)
  case (1 used k)
  show ?case
  proof (cases "positional k \<in> set used")
    case True
    then have nxt: "freshId_from used k = freshId_from used (k + 1)" by (subst freshId_from.simps) simp
    have "positional j \<in> set used" if "k \<le> j" "j < freshId_from used (k + 1)" for j
      using 1 True that by (cases "j = k") auto
    with 1 True nxt show ?thesis by auto
  next
    case False
    then show ?thesis by (subst (1 2 3) freshId_from.simps) auto
  qed
qed

lemma freshId_from_bound: "freshId_from used k \<le> k + length used"
proof -
  let ?r = "freshId_from used k"
  have "inj_on positional {k ..< ?r}" by (simp add: inj_on_def positional_inj)
  then have "?r - k = card (positional ` {k ..< ?r})" by (simp add: card_image)
  also have "\<dots> \<le> card (set used)"
    using freshId_from_scan [of k used] by (intro card_mono) auto
  also have "\<dots> \<le> length used" by (rule card_length)
  finally show ?thesis by simp
qed

lemma positional_usable: "k < 10 ^ 63 \<Longrightarrow> usable_id (positional k)"
proof -
  assume k: "k < 10 ^ 63"
  have "length (dec k) \<le> 63" using length_dec [OF k] by simp
  moreover have "list_all is_urlsafe (dec k)"
    using dec_digits [of k] by (auto simp: list_all_iff char_classes is_digit_def)
  moreover have "is_urlsafe (CHR ''n'')" by code_simp
  ultimately show ?thesis
    by (simp add: usable_id_def NODE_ID_def class_run_def positional_def PROTOTYPE_KEYS_def)
qed

lemma foldl_grow:
  "(\<And>acc x. length (f acc x) \<le> length acc + 1) \<Longrightarrow> length (foldl f acc xs) \<le> length acc + length xs"
proof (induction xs arbitrary: acc)
  case (Cons x xs)
  from Cons.IH [OF Cons.prems, of "f acc x"] Cons.prems [of acc x] show ?case by simp
qed simp

lemma length_reserved: "length (reserved_ids entries) \<le> length entries"
proof -
  have "length (reserved_ids entries) \<le> length ([] :: string list) + length entries"
    unfolding reserved_ids_def by (rule foldl_grow) (simp add: Let_def)
  then show ?thesis by simp
qed

definition node_ok :: "ThoughtNode \<Rightarrow> bool" where
  "node_ok n = (usable_id (node_id n) \<and> node_title n \<noteq> [] \<and> question n \<noteq> [])"

definition gather_ok :: "nat \<Rightarrow> gather \<Rightarrow> bool" where
  "gather_ok index st = (case st of (nodes, seen, renamed) \<Rightarrow>
     seen = map node_id nodes \<and> distinct seen \<and> list_all node_ok nodes \<and> length nodes \<le> index)"

lemma first_nonempty_Cons: "first_nonempty (s # ss) = (if s = [] then first_nonempty ss else s)"
  by (simp add: first_nonempty_def)

lemma usable_nonempty: "usable_id s \<Longrightarrow> s \<noteq> []"
  by (auto simp: usable_id_def NODE_ID_def class_run_def)

lemma gather_entry_ok:
  assumes ok: "gather_ok index st" and bound: "index < 2 ^ 32" "length reserved < 2 ^ 32"
  shows "gather_ok (index + 1) (gather_entry reserved index entry st)"
    and "length (fst (gather_entry reserved index entry st)) \<le> length (fst st) + 1"
proof -
  obtain nodes seen renamed where st: "st = (nodes, seen, renamed)" by (cases st)
  let ?raw = "asString (js_get entry ''id'')"
  let ?i = "if usable_id ?raw then ?raw else freshId reserved seen index"
  have "length seen \<le> index" using ok st by (auto simp: gather_ok_def)
  then have "freshId_from (reserved @ seen) (index + 1) < 10 ^ 63"
    using freshId_from_bound [of "reserved @ seen" "index + 1"] bound by simp
  then have i: "usable_id ?i" by (simp add: freshId_def positional_usable)
  then have "?i \<noteq> []" by (rule usable_nonempty)
  with i show "gather_ok (index + 1) (gather_entry reserved index entry st)"
    using ok unfolding gather_entry_def st
    by (auto simp: gather_ok_def Let_def node_ok_def new_node_def first_nonempty_Cons)
  show "length (fst (gather_entry reserved index entry st)) \<le> length (fst st) + 1"
    by (simp add: gather_entry_def st Let_def)
qed

lemma gather_nodes_ok:
  "gather_ok index st \<Longrightarrow> index + length entries < 2 ^ 32 \<Longrightarrow> length reserved < 2 ^ 32 \<Longrightarrow>
    fst st = [] \<or> length (fst st) < maxNodes \<Longrightarrow>
    (\<exists>index'. gather_ok index' (gather_nodes reserved maxNodes index entries st)) \<and>
    length (fst (gather_nodes reserved maxNodes index entries st)) \<le> max 1 maxNodes"
proof (induction entries arbitrary: index st)
  case Nil
  then show ?case by auto
next
  case (Cons entry entries)
  let ?st = "gather_entry reserved index entry st"
  have ok: "gather_ok (index + 1) ?st" and len: "length (fst ?st) \<le> length (fst st) + 1"
    using gather_entry_ok [OF Cons.prems(1) _ Cons.prems(3), of entry] Cons.prems(2) by simp_all
  show ?case
  proof (cases "length (fst ?st) \<noteq> length (fst st) \<and> maxNodes \<le> length (fst ?st)")
    case True
    with ok len Cons.prems(4) show ?thesis by (auto simp: Let_def)
  next
    case False
    with Cons.prems(4) have "fst ?st = [] \<or> length (fst ?st) < maxNodes" by auto
    from Cons.IH [OF ok _ Cons.prems(3) this] Cons.prems(2) False show ?thesis by (simp add: Let_def) blast
  qed
qed

definition well_formed_graph :: "ThoughtGraph \<Rightarrow> bool" where
  "well_formed_graph g = (let ids = map node_id (graph_nodes g) in
     goal g \<noteq> [] \<and> distinct ids \<and>
     list_all (\<lambda>n. node_ok n \<and> list_all (\<lambda>d. d \<in> set ids \<and> d \<noteq> node_id n) (dependsOn n)) (graph_nodes g) \<and>
     (graph_nodes g \<noteq> [] \<longrightarrow> node_kind (last (graph_nodes g)) = Synthesize))"

lemma finish_last_facts:
  "map node_id (finish_last ns) = map node_id ns"
  "list_all P ns \<Longrightarrow> (\<And>n k. P n \<Longrightarrow> P (n\<lparr>node_kind := k\<rparr>)) \<Longrightarrow> list_all P (finish_last ns)"
  "ns \<noteq> [] \<Longrightarrow> node_kind (last (finish_last ns)) = Synthesize"
  "length (finish_last ns) = length ns"
proof -
  show "map node_id (finish_last ns) = map node_id ns"
    by (cases ns rule: rev_cases) (simp_all add: finish_last_def)
  show "list_all P ns \<Longrightarrow> (\<And>n k. P n \<Longrightarrow> P (n\<lparr>node_kind := k\<rparr>)) \<Longrightarrow> list_all P (finish_last ns)"
    by (cases ns rule: rev_cases) (simp_all add: finish_last_def)
  show "ns \<noteq> [] \<Longrightarrow> node_kind (last (finish_last ns)) = Synthesize"
    by (cases ns rule: rev_cases) (simp_all add: finish_last_def)
  show "length (finish_last ns) = length ns" by (simp add: finish_last_def)
qed

lemma rewire_ids: "map node_id (map (rewire ids ren) ns) = map node_id ns"
  by (simp add: rewire_def comp_def)

lemma fallback_well_formed: "well_formed_graph FALLBACK_GRAPH" "isFallbackGraph FALLBACK_GRAPH"
  by code_simp+

text \<open>C36. Whatever the model answers, the normalised graph is well formed: a goal, distinct node ids
  that are short word characters and no prototype key, titles and questions that are not empty,
  dependencies that name other nodes of the graph, a last node that synthesizes; and it is the
  fallback graph or has between \<open>minNodes\<close> and \<open>maxNodes\<close> nodes. (A JavaScript array
  has fewer than \<open>2 ^ 32\<close> entries.)\<close>
theorem normalized_graph_well_formed:
  assumes size: "length (sourceNodes raw) < 2 ^ 32"
  shows "well_formed_graph (normalizeGraph raw fallbackGoal minNodes maxNodes)
    \<and> (isFallbackGraph (normalizeGraph raw fallbackGoal minNodes maxNodes)
      \<or> minNodes \<le> length (graph_nodes (normalizeGraph raw fallbackGoal minNodes maxNodes))
        \<and> length (graph_nodes (normalizeGraph raw fallbackGoal minNodes maxNodes)) \<le> max 1 maxNodes)"
proof -
  obtain nodes seen ren where g:
      "gather_nodes (reserved_ids (sourceNodes raw)) maxNodes 0 (sourceNodes raw) ([], [], []) = (nodes, seen, ren)"
    by (metis prod_cases3)
  have "gather_ok 0 ([], [], [])" by (simp add: gather_ok_def)
  from gather_nodes_ok [OF this, of "sourceNodes raw" "reserved_ids (sourceNodes raw)" maxNodes] size
    length_reserved [of "sourceNodes raw"]
  have ok: "distinct (map node_id nodes)" "list_all node_ok nodes" and len: "length nodes \<le> max 1 maxNodes"
    by (auto simp: g gather_ok_def)
  let ?ns = "map (rewire (map node_id nodes) ren) nodes"
  let ?P = "\<lambda>n. node_ok n \<and> list_all (\<lambda>d. d \<in> set (map node_id nodes) \<and> d \<noteq> node_id n) (dependsOn n)"
  have "list_all ?P ?ns" using ok(2) by (auto simp: list_all_iff rewire_def node_ok_def)
  then have all: "list_all ?P (finish_last ?ns)" by (rule finish_last_facts(2)) (simp add: node_ok_def)
  have goal: "first_nonempty [asString (js_get raw ''goal''), fallbackGoal, goal FALLBACK_GRAPH] \<noteq> []"
    by (simp add: first_nonempty_Cons FALLBACK_GRAPH_def)
  have empty: "finish_last ?ns \<noteq> [] \<Longrightarrow> ?ns \<noteq> []" by (auto simp: finish_last_def)
  have ids: "map node_id (finish_last ?ns) = map node_id nodes"
    by (simp only: finish_last_facts(1) rewire_ids)
  have "well_formed_graph \<lparr>goal = first_nonempty [asString (js_get raw ''goal''), fallbackGoal,
      goal FALLBACK_GRAPH], graph_nodes = finish_last ?ns\<rparr>"
    unfolding well_formed_graph_def Let_def ThoughtGraph.select_convs ids
    using all goal ok(1) finish_last_facts(3) [of ?ns] empty by blast
  then have "well_formed_graph (normalizeGraph raw fallbackGoal minNodes maxNodes)"
    by (simp add: normalizeGraph_def g fallback_well_formed(1))
  with len show ?thesis
    by (simp add: normalizeGraph_def g finish_last_facts(4) fallback_well_formed(2))
qed

definition sample_answer :: js where
  "sample_answer = JObj [(''goal'', JStr ''ship it''), (''nodes'', JArr [
     JObj [(''id'', JStr ''n1''), (''title'', JStr ''a''), (''kind'', JStr ''understand'')],
     JObj [(''id'', JStr ''two words''), (''depends_on'', JArr [JStr ''n1''])],
     JObj [(''id'', JStr ''constructor''), (''dependsOn'', JStr ''n1, two words''), (''kind'', JStr ''Compare'')],
     JNull,
     JObj [(''id'', JStr ''n1'')]])]"

lemma sample_answer_nodes:
  "map (\<lambda>n. (node_id n, node_kind n, dependsOn n)) (graph_nodes (normalizeGraph sample_answer ''g'' 3 8))
    = [(''n1'', Understand, []), (''n2'', Generate, [''n1'']), (''n3'', Synthesize, [''n1''])]"
  by code_simp

theorem normalized_graph_well_formed_witness:
  "length (sourceNodes sample_answer) < 2 ^ 32 \<and> well_formed_graph (normalizeGraph sample_answer ''g'' 3 8)"
proof -
  have size: "length (sourceNodes sample_answer) < 2 ^ 32"
    by (simp add: sourceNodes_def sample_answer_def js_get_def obj_get_def)
  from normalized_graph_well_formed [OF size, of "''g''" 3 8] size show ?thesis by blast
qed

subsection \<open>The sort is a topological order\<close>

lemma update_new: "k \<notin> fst ` set m \<Longrightarrow> jm_set k v m = m @ [(k, v)]"
  by (induction m) auto

lemma map_from_distinct: "distinct (map fst ps) \<Longrightarrow> map_from ps = ps"
proof -
  have "distinct (map fst (acc @ ps)) \<Longrightarrow> foldl (\<lambda>m (k, v). jm_set k v m) acc ps = acc @ ps" for acc
  proof (induction ps arbitrary: acc)
    case (Cons p ps)
    then have "fst p \<notin> fst ` set acc" by (auto simp: rev_image_eqI)
    then have "(case p of (k, v) \<Rightarrow> jm_set k v acc) = acc @ [p]"
      by (cases p) (simp add: update_new)
    with Cons.IH [of "acc @ [p]"] Cons.prems show ?case by simp
  qed simp
  from this [of "[]"] show "distinct (map fst ps) \<Longrightarrow> map_from ps = ps" by (simp add: map_from_def)
qed

text \<open>The edges of a graph, each from a dependency to the node that names it, in the code's order.\<close>

definition node_edges :: "string list \<Rightarrow> ThoughtNode \<Rightarrow> (string \<times> string) list" where
  "node_edges ids n = map (\<lambda>d. (d, node_id n)) (filter (\<lambda>d. d \<in> set ids) (dependsOn n))"

definition edges :: "ThoughtNode list \<Rightarrow> (string \<times> string) list" where
  "edges nodes = concat (map (node_edges (map node_id nodes)) nodes)"

definition tables_ok :: "string list \<Rightarrow> (string \<times> string) list \<Rightarrow> edge_tables \<Rightarrow> bool" where
  "tables_ok ids es t = (\<forall>i \<in> set ids.
     jm_get (fst t) i = Some (int (length (filter (\<lambda>e. snd e = i) es))) \<and>
     jm_get (snd t) i = Some (map snd (filter (\<lambda>e. fst e = i) es)))"

lemma link_dep_ok:
  assumes "tables_ok ids es t" and "i \<in> set ids" and "\<And>d. jm_get byId d = None \<longleftrightarrow> d \<notin> set ids"
  shows "tables_ok ids (es @ (if d \<in> set ids then [(d, i)] else [])) (link_dep byId i t d)"
  using assms by (cases t) (auto simp: tables_ok_def link_dep_def update_conv' or_zero_def)

lemma link_deps_ok:
  assumes "i \<in> set ids" and "\<And>d. jm_get byId d = None \<longleftrightarrow> d \<notin> set ids"
  shows "tables_ok ids es t \<Longrightarrow>
    tables_ok ids (es @ map (\<lambda>d. (d, i)) (filter (\<lambda>d. d \<in> set ids) ds)) (foldl (link_dep byId i) t ds)"
proof (induction ds arbitrary: es t)
  case (Cons d ds)
  from Cons.IH [OF link_dep_ok [OF Cons.prems assms, of d]] show ?case by (cases "d \<in> set ids") simp_all
qed simp

lemma link_nodes_ok:
  assumes byId: "\<And>d. jm_get byId d = None \<longleftrightarrow> d \<notin> set ids"
  shows "tables_ok ids es t \<Longrightarrow> node_id ` set ns \<subseteq> set ids \<Longrightarrow>
    tables_ok ids (es @ concat (map (node_edges ids) ns)) (foldl (link_node byId) t ns)"
proof (induction ns arbitrary: es t)
  case (Cons n ns)
  have "tables_ok ids (es @ node_edges ids n) (link_node byId t n)"
    unfolding link_node_def node_edges_def using Cons.prems by (intro link_deps_ok byId) auto
  from Cons.IH [OF this] Cons.prems show ?case by simp
qed simp

lemma visit_spec:
  "(\<And>c. c \<in> set cs \<Longrightarrow> \<exists>v. jm_get inc c = Some v \<and> int (count_list cs c) \<le> v) \<Longrightarrow>
    visit cs inc q = (inc', q') \<Longrightarrow>
    (\<forall>c v. jm_get inc c = Some v \<longrightarrow> jm_get inc' c = Some (v - int (count_list cs c))) \<and>
    (\<exists>new. q' = q @ new \<and> distinct new \<and>
      set new = {c \<in> set cs. jm_get inc c = Some (int (count_list cs c))})"
proof (induction cs arbitrary: inc q)
  case Nil
  then show ?case by simp
next
  case (Cons c cs)
  obtain v where v: "jm_get inc c = Some v" "int (count_list cs c) + 1 \<le> v"
    using Cons.prems(1) [of c] by auto
  let ?inc = "jm_set c (v - 1) inc" and ?q = "if v = 1 then q @ [c] else q"
  have get: "jm_get ?inc x = (if x = c then Some (v - 1) else jm_get inc x)" for x
    by (simp add: update_conv')
  have pre: "\<exists>w. jm_get ?inc x = Some w \<and> int (count_list cs x) \<le> w" if "x \<in> set cs" for x
    using Cons.prems(1) [of x] that v by (auto simp: get)
  have rest: "visit cs ?inc ?q = (inc', q')" using Cons.prems(2) v(1) by (auto simp: Let_def split: if_splits)
  from Cons.IH [OF pre rest] obtain new where
    vals: "\<forall>x w. jm_get ?inc x = Some w \<longrightarrow> jm_get inc' x = Some (w - int (count_list cs x))"
    and new: "q' = ?q @ new" "distinct new"
      "set new = {x \<in> set cs. jm_get ?inc x = Some (int (count_list cs x))}" by blast
  have "jm_get inc' x = Some (w - int (count_list (c # cs) x))" if "jm_get inc x = Some w" for x w
    using vals [rule_format, of x] that v(1) by (cases "x = c") (auto simp: get)
  moreover have "\<exists>new'. q' = q @ new' \<and> distinct new' \<and>
      set new' = {x \<in> set (c # cs). jm_get inc x = Some (int (count_list (c # cs) x))}"
  proof (cases "v = 1")
    case True
    with v(2) have "c \<notin> set cs" by (simp add: count_list_0_iff)
    have "c \<notin> set new" using \<open>c \<notin> set cs\<close> unfolding new(3) by simp
    moreover have "jm_get ?inc x = jm_get inc x" if "x \<in> set cs" for x
      using that \<open>c \<notin> set cs\<close> unfolding get by auto
    then have "set new = {x \<in> set cs. jm_get inc x = Some (int (count_list cs x))}"
      unfolding new(3) by auto
    then have "set (c # new) = {x \<in> set (c # cs). jm_get inc x = Some (int (count_list (c # cs) x))}"
      using True v(1) \<open>c \<notin> set cs\<close> by (auto simp: count_list_0_iff)
    ultimately show ?thesis using new(1,2) True by (intro exI [of _ "c # new"]) simp
  next
    case False
    have "set new = {x \<in> set (c # cs). jm_get inc x = Some (int (count_list (c # cs) x))}"
      unfolding new(3) using False v by (auto simp: get count_list_0_iff)
    with new False show ?thesis by (intro exI [of _ new]) simp
  qed
  ultimately show ?case by blast
qed

definition unmet :: "(string \<times> string) list \<Rightarrow> string list \<Rightarrow> string \<Rightarrow> nat" where
  "unmet es P c = length (filter (\<lambda>e. snd e = c \<and> fst e \<notin> set P) es)"

lemma unmet_0: "unmet es P c = 0 \<longleftrightarrow> (\<forall>d. (d, c) \<in> set es \<longrightarrow> d \<in> set P)"
  by (auto simp: unmet_def filter_empty_conv)

lemma unmet_snoc:
  "i \<notin> set P \<Longrightarrow> unmet es P c = unmet es (P @ [i]) c + count_list (map snd (filter (\<lambda>e. fst e = i) es)) c"
  by (induction es) (auto simp: unmet_def)

text \<open>The queue loop: what is emitted has all its dependencies before it; what is emitted or queued is
  what has no unmet dependency.\<close>

definition deps_first :: "(string \<times> string) list \<Rightarrow> string list \<Rightarrow> bool" where
  "deps_first es P = (\<forall>k < length P. \<forall>d. (d, P ! k) \<in> set es \<longrightarrow> d \<in> set (take k P))"

lemma deps_first_snoc: "deps_first es P \<Longrightarrow> unmet es P c = 0 \<Longrightarrow> deps_first es (P @ [c])"
  by (auto simp: deps_first_def unmet_0 nth_append less_Suc_eq)

definition sort_inv :: "string list \<Rightarrow> (string \<times> string) list \<Rightarrow> string list \<Rightarrow> (string, int) jmap \<Rightarrow> string list \<Rightarrow> bool" where
  "sort_inv ids es q inc P =
     ((\<forall>c \<in> set ids. jm_get inc c = Some (int (unmet es P c))) \<and> distinct (P @ q) \<and>
      set (P @ q) = {c \<in> set ids. unmet es P c = 0} \<and> deps_first es P)"

lemma sort_step:
  assumes inv: "sort_inv ids es (i # q) inc P"
    and ends: "\<And>d c. (d, c) \<in> set es \<Longrightarrow> c \<in> set ids"
    and vis: "visit (map snd (filter (\<lambda>e. fst e = i) es)) inc q = (inc', q')"
  shows "sort_inv ids es q' inc' (P @ [i])"
proof -
  let ?cs = "map snd (filter (\<lambda>e. fst e = i) es)"
  have vals: "\<And>c. c \<in> set ids \<Longrightarrow> jm_get inc c = Some (int (unmet es P c))"
    and dist: "distinct (P @ i # q)" and zero: "set (P @ i # q) = {c \<in> set ids. unmet es P c = 0}"
    and first: "deps_first es P" using inv by (auto simp: sort_inv_def)
  have i: "i \<notin> set P" "unmet es P i = 0" using dist zero by auto
  note split = unmet_snoc [OF i(1), of es]
  have cs: "c \<in> set ids" if "c \<in> set ?cs" for c using that ends by auto
  have "\<exists>v. jm_get inc c = Some v \<and> int (count_list ?cs c) \<le> v" if "c \<in> set ?cs" for c
    using vals [OF cs [OF that]] split [of c] by simp
  from visit_spec [OF this vis] obtain new where
    dec: "\<And>c v. jm_get inc c = Some v \<Longrightarrow> jm_get inc' c = Some (v - int (count_list ?cs c))"
    and new: "q' = q @ new" "distinct new" "set new = {c \<in> set ?cs. jm_get inc c = Some (int (count_list ?cs c))}"
    by blast
  have vals': "jm_get inc' c = Some (int (unmet es (P @ [i]) c))" if "c \<in> set ids" for c
    using dec [OF vals [OF that]] split [of c] by simp
  have new_set: "set new = {c \<in> set ids. unmet es P c \<noteq> 0 \<and> unmet es (P @ [i]) c = 0}"
  proof (rule set_eqI)
    fix c
    have pos: "c \<in> set ?cs \<longleftrightarrow> count_list ?cs c \<noteq> 0" by (simp add: count_list_0_iff)
    show "c \<in> set new \<longleftrightarrow> c \<in> {c \<in> set ids. unmet es P c \<noteq> 0 \<and> unmet es (P @ [i]) c = 0}"
      using cs [of c] vals [of c] split [of c] pos unfolding new(3) by auto
  qed
  have sub: "unmet es P c = 0 \<Longrightarrow> unmet es (P @ [i]) c = 0" for c using split [of c] by simp
  have "set ((P @ [i]) @ q') = set (P @ i # q) \<union> set new" unfolding new(1) by auto
  also have "\<dots> = {c \<in> set ids. unmet es (P @ [i]) c = 0}" unfolding zero new_set using sub by blast
  finally have "set ((P @ [i]) @ q') = {c \<in> set ids. unmet es (P @ [i]) c = 0}" .
  moreover have "set new \<inter> set (P @ i # q) = {}" unfolding zero new_set by auto
  then have "distinct ((P @ [i]) @ q')" using dist new(2) unfolding new(1) by auto
  ultimately show ?thesis
    using vals' deps_first_snoc [OF first i(2)] by (simp add: sort_inv_def)
qed

lemma topo_loop_sorts:
  "sort_inv ids es q inc (map (\<lambda>p. ids ! p) ord) \<Longrightarrow> (\<forall>p \<in> set ord. p < length ids) \<Longrightarrow>
    (\<forall>i \<in> set ids. children_of children i = map snd (filter (\<lambda>e. fst e = i) es)) \<Longrightarrow>
    (\<forall>i \<in> set ids. \<exists>p < length ids. jm_get byId i = Some p \<and> ids ! p = i) \<Longrightarrow>
    (\<And>d c. (d, c) \<in> set es \<Longrightarrow> c \<in> set ids) \<Longrightarrow> [] \<notin> set ids \<Longrightarrow>
    (\<exists>inc'. sort_inv ids es [] inc' (map (\<lambda>p. ids ! p) (topo_loop byId children q inc ord))) \<and>
    (\<forall>p \<in> set (topo_loop byId children q inc ord). p < length ids)"
proof (induction byId children q inc ord rule: topo_loop.induct)
  case (1 byId children incoming ordered)
  then show ?case by auto
next
  case (2 byId children i queue incoming ordered)
  have i: "i \<in> set ids" using "2.prems"(1) by (auto simp: sort_inv_def)
  with "2.prems"(6) have ne: "i \<noteq> []" by auto
  from "2.prems"(4) i obtain p where p: "p < length ids" "jm_get byId i = Some p" "ids ! p = i" by blast
  obtain inc' q' where vis: "visit (children_of children i) incoming queue = (inc', q')" by fastforce
  with "2.prems"(3) i have "visit (map snd (filter (\<lambda>e. fst e = i) es)) incoming queue = (inc', q')" by simp
  from sort_step [OF "2.prems"(1,5) this] have st: "sort_inv ids es q' inc' (map (\<lambda>p. ids ! p) (ordered @ [p]))"
    using p(3) by simp
  have lt: "\<forall>x \<in> set (ordered @ [p]). x < length ids" using "2.prems"(2) p(1) by simp
  have eq: "ordered @ [p] = (case jm_get byId i of None \<Rightarrow> ordered | Some p \<Rightarrow> ordered @ [p])" using p(2) by simp
  note res = "2.IH" [OF ne eq vis [symmetric] refl st lt "2.prems"(3,4,5,6)]
  from res show ?case using ne vis p(2) by simp
qed

lemma append_missing_fold: "distinct ps \<Longrightarrow> foldl append_missing ord ps = ord @ filter (\<lambda>p. p \<notin> set ord) ps"
proof (induction ps arbitrary: ord)
  case (Cons p ps)
  have "filter (\<lambda>x. x \<notin> set (ord @ [p])) ps = filter (\<lambda>x. x \<notin> set ord) ps"
    using Cons.prems by (intro filter_cong) auto
  with Cons show ?case by (simp add: append_missing_def)
qed simp

definition acyclic_deps :: "ThoughtNode list \<Rightarrow> (string \<Rightarrow> nat) \<Rightarrow> bool" where
  "acyclic_deps nodes rank = (\<forall>n \<in> set nodes. \<forall>d \<in> set (dependsOn n).
     d \<in> node_id ` set nodes \<longrightarrow> rank d < rank (node_id n))"

lemma map_of_const: "i \<in> f ` set xs \<Longrightarrow> map_of (map (\<lambda>x. (f x, v)) xs) i = Some v"
  by (induction xs) auto

text \<open>What the loop emits, for a graph with distinct non-empty ids.\<close>

lemma topo_order_facts:
  assumes dist: "distinct (map node_id nodes)" and ne: "[] \<notin> set (map node_id nodes)"
  shows "\<exists>ord. topo_order nodes = ord @ filter (\<lambda>p. p \<notin> set ord) [0 ..< length nodes] \<and>
    distinct ord \<and> (\<forall>p \<in> set ord. p < length nodes) \<and>
    deps_first (edges nodes) (map (\<lambda>p. map node_id nodes ! p) ord) \<and>
    set (map (\<lambda>p. map node_id nodes ! p) ord) = {c \<in> set (map node_id nodes).
      unmet (edges nodes) (map (\<lambda>p. map node_id nodes ! p) ord) c = 0}"
proof -
  let ?ids = "map node_id nodes" and ?es = "edges nodes"
  let ?byId = "zip ?ids [0 ..< length nodes]"
  have byId: "map_from ?byId = ?byId" by (rule map_from_distinct) (simp add: dist)
  have pos: "\<exists>p < length ?ids. jm_get ?byId i = Some p \<and> ?ids ! p = i" if "i \<in> set ?ids" for i
  proof -
    from that obtain p where p: "p < length ?ids" "?ids ! p = i" by (auto simp: in_set_conv_nth)
    have "(i, p) \<in> set ?byId" using p by (force simp: in_set_zip)
    with dist have "jm_get ?byId i = Some p" by (simp add: map_of_is_SomeI)
    with p show ?thesis by blast
  qed
  have dom: "jm_get ?byId d = None \<longleftrightarrow> d \<notin> set ?ids" for d
    by (simp add: map_of_eq_None_iff map_fst_zip flip: set_map)
  have zeros: "map_from (map (\<lambda>n. (node_id n, 0 :: int)) nodes) = map (\<lambda>n. (node_id n, 0)) nodes"
    and nils: "map_from (map (\<lambda>n. (node_id n, [] :: string list)) nodes) = map (\<lambda>n. (node_id n, [])) nodes"
    using dist by (auto intro!: map_from_distinct simp: comp_def)
  obtain inc ch where t: "edge_tables_of nodes ?byId = (inc, ch)" by fastforce
  have "tables_ok ?ids [] (map (\<lambda>n. (node_id n, 0)) nodes, map (\<lambda>n. (node_id n, [])) nodes)"
    by (auto simp: tables_ok_def map_of_const)
  from link_nodes_ok [OF dom this, of nodes] t have ok: "tables_ok ?ids ?es (inc, ch)"
    by (simp add: edge_tables_of_def zeros nils edges_def)
  have ends: "c \<in> set ?ids" if "(d, c) \<in> set ?es" for d c
    using that by (auto simp: edges_def node_edges_def)
  let ?q = "filter (\<lambda>i. or_zero (jm_get inc i) = 0) ?ids"
  have inc: "jm_get inc i = Some (int (unmet ?es [] i))" if "i \<in> set ?ids" for i
    using ok that by (auto simp: tables_ok_def unmet_def)
  have kids: "children_of ch i = map snd (filter (\<lambda>e. fst e = i) ?es)" if "i \<in> set ?ids" for i
    using ok that by (auto simp: tables_ok_def children_of_def)
  have "sort_inv ?ids ?es ?q inc (map (\<lambda>p. ?ids ! p) [])"
    using dist inc by (auto simp: sort_inv_def deps_first_def or_zero_def)
  moreover have "\<forall>p \<in> set []. p < length ?ids" by simp
  moreover have "\<forall>i \<in> set ?ids. children_of ch i = map snd (filter (\<lambda>e. fst e = i) ?es)" using kids by blast
  moreover have "\<forall>i \<in> set ?ids. \<exists>p < length ?ids. jm_get ?byId i = Some p \<and> ?ids ! p = i" using pos by blast
  ultimately have "(\<exists>inc'. sort_inv ?ids ?es [] inc' (map (\<lambda>p. ?ids ! p) (topo_loop ?byId ch ?q inc []))) \<and>
      (\<forall>p \<in> set (topo_loop ?byId ch ?q inc []). p < length ?ids)"
    using ends ne by (rule topo_loop_sorts)
  then obtain inc' where fin: "sort_inv ?ids ?es [] inc' (map (\<lambda>p. ?ids ! p) (topo_loop ?byId ch ?q inc []))"
    and lt: "\<forall>p \<in> set (topo_loop ?byId ch ?q inc []). p < length nodes" unfolding length_map by blast
  have "topo_order nodes = foldl append_missing (topo_loop ?byId ch ?q inc []) [0 ..< length nodes]"
    by (simp add: topo_order_def byId t)
  moreover have "distinct (topo_loop ?byId ch ?q inc [])" using fin by (auto simp: sort_inv_def distinct_map)
  ultimately show ?thesis using fin lt
    by (intro exI [of _ "topo_loop ?byId ch ?q inc []"]) (simp add: append_missing_fold sort_inv_def)
qed

lemma unmet_covers:
  assumes acyc: "acyclic_deps nodes rank"
    and zero: "set P = {c \<in> set (map node_id nodes). unmet (edges nodes) P c = 0}"
  shows "set P = set (map node_id nodes)"
proof -
  have "c \<in> set (map node_id nodes) \<longrightarrow> c \<in> set P" for c
  proof (induction "rank c" arbitrary: c rule: less_induct)
    case less
    show ?case
    proof
      assume c: "c \<in> set (map node_id nodes)"
      have "d \<in> set P" if "(d, c) \<in> set (edges nodes)" for d
      proof -
        from that obtain n where n: "n \<in> set nodes" "node_id n = c" "d \<in> set (dependsOn n)"
          "d \<in> set (map node_id nodes)" by (auto simp: edges_def node_edges_def)
        with acyc have "rank d < rank c" by (auto simp: acyclic_deps_def)
        with less n(4) show ?thesis by blast
      qed
      with c show "c \<in> set P" by (subst zero) (simp add: unmet_0)
    qed
  qed
  with zero show ?thesis by blast
qed

lemma topo_sort_facts:
  assumes dist: "distinct (map node_id nodes)" and ne: "[] \<notin> set (map node_id nodes)"
  shows "mset (topoSort nodes) = mset nodes \<and>
    (acyclic_deps nodes rank \<longrightarrow> (\<forall>k < length nodes. \<forall>d \<in> set (dependsOn (topoSort nodes ! k)).
      d \<in> node_id ` set nodes \<longrightarrow> d \<in> node_id ` set (take k (topoSort nodes))))"
proof -
  let ?ids = "map node_id nodes"
  obtain ord where ord: "topo_order nodes = ord @ filter (\<lambda>p. p \<notin> set ord) [0 ..< length nodes]"
      "distinct ord" "\<forall>p \<in> set ord. p < length nodes"
      "deps_first (edges nodes) (map (\<lambda>p. ?ids ! p) ord)"
      "set (map (\<lambda>p. ?ids ! p) ord) = {c \<in> set ?ids. unmet (edges nodes) (map (\<lambda>p. ?ids ! p) ord) c = 0}"
    using topo_order_facts [OF assms] by blast
  have "set (topo_order nodes) = {0 ..< length nodes}" "distinct (topo_order nodes)"
    using ord(2,3) unfolding ord(1) by auto
  then have "mset (topo_order nodes) = mset [0 ..< length nodes]"
    by (metis distinct_upt set_eq_iff_mset_eq_distinct set_upt)
  then have "mset (topoSort nodes) = image_mset (\<lambda>p. nodes ! p) (mset [0 ..< length nodes])"
    by (simp add: topoSort_def)
  also have "\<dots> = mset nodes" by (metis map_nth mset_map)
  finally have perm: "mset (topoSort nodes) = mset nodes" .
  have "d \<in> node_id ` set (take k (topoSort nodes))"
    if acyc: "acyclic_deps nodes rank" and k: "k < length nodes"
      and d: "d \<in> set (dependsOn (topoSort nodes ! k))" "d \<in> node_id ` set nodes" for k d
  proof -
    have "?ids ! p \<in> set (map (\<lambda>p. ?ids ! p) ord)" if "p < length nodes" for p
      using unmet_covers [OF acyc ord(5)] that by simp
    then have "p \<in> set ord" if "p < length nodes" for p
      using that ord(3) dist by (fastforce simp: distinct_conv_nth in_set_conv_nth)
    then have all: "topo_order nodes = ord" using ord(1) by (auto simp: filter_empty_conv)
    have len: "length ord = length nodes"
      using all perm unfolding topoSort_def by (metis length_map size_mset)
    have at_k: "topoSort nodes ! k \<in> set nodes" "node_id (topoSort nodes ! k) = map (\<lambda>p. ?ids ! p) ord ! k"
      using k len ord(3) by (simp_all add: topoSort_def all)
    have "(d, node_id (topoSort nodes ! k)) \<in> set (edges nodes)"
      using at_k(1) d by (auto simp: edges_def node_edges_def)
    then have "d \<in> set (take k (map (\<lambda>p. ?ids ! p) ord))"
      using ord(4) k len at_k(2) unfolding deps_first_def by simp
    also have "take k (map (\<lambda>p. ?ids ! p) ord) = map node_id (take k (topoSort nodes))"
      using ord(3) by (auto simp: topoSort_def all take_map dest: in_set_takeD)
    finally show ?thesis by simp
  qed
  with perm show ?thesis by blast
qed

text \<open>The topological sort of a graph with distinct non-empty ids is a permutation of its nodes,
  cyclic or not; and when the dependencies have no cycle, every node comes after all the nodes of
  the graph it depends on.\<close>
theorem topo_sort_orders:
  assumes "distinct (map node_id nodes)" and "[] \<notin> set (map node_id nodes)"
  shows "mset (topoSort nodes) = mset nodes \<and>
    (acyclic_deps nodes rank \<longrightarrow> (\<forall>k < length nodes. \<forall>d \<in> set (dependsOn (topoSort nodes ! k)).
      d \<in> node_id ` set nodes \<longrightarrow> d \<in> node_id ` set (take k (topoSort nodes))))"
  using topo_sort_facts [OF assms] by blast

definition sample_nodes :: "ThoughtNode list" where
  "sample_nodes = [new_node ''d'' ''t'' Synthesize ''q'' [''b'', ''c''], new_node ''b'' ''t'' Generate ''q'' [''a''],
     new_node ''c'' ''t'' Generate ''q'' [''a'', ''zz''], new_node ''a'' ''t'' Understand ''q'' []]"

definition sample_rank :: "string \<Rightarrow> nat" where
  "sample_rank i = (if i = ''a'' then 0 else if i = ''d'' then 2 else 1)"

lemma sample_nodes_ok:
  "distinct (map node_id sample_nodes)" "[] \<notin> set (map node_id sample_nodes)" "acyclic_deps sample_nodes sample_rank"
  by (simp_all add: sample_nodes_def new_node_def acyclic_deps_def sample_rank_def)

lemma sample_waves:
  "map wave_ids (workflowWaves \<lparr>goal = ''g'', graph_nodes = sample_nodes\<rparr>) = [[''a''], [''b'', ''c''], [''d'']]"
  by code_simp

theorem topo_sort_orders_witness:
  "mset (topoSort sample_nodes) = mset sample_nodes \<and>
    list_all (\<lambda>k. list_all (\<lambda>d. d \<in> node_id ` set (take k (topoSort sample_nodes)))
      (filter (\<lambda>d. d \<in> node_id ` set sample_nodes) (dependsOn (topoSort sample_nodes ! k)))) [0..<length sample_nodes]"
  using topo_sort_orders [OF sample_nodes_ok(1,2), of sample_rank] sample_nodes_ok(3) by (simp add: list_all_iff)

subsection \<open>Waves respect the dependencies\<close>

lemma depth_of_facts:
  "(\<forall>d \<in> set (dependsOn n). \<forall>s. jm_get level d = Some s \<longrightarrow> s < depth_of level n) \<and>
    (depth_of level n = 0 \<or> (\<exists>d \<in> set (dependsOn n). \<exists>s. jm_get level d = Some s \<and> depth_of level n = s + 1))"
proof -
  have "(\<forall>d \<in> set ds. \<forall>s. jm_get level d = Some s \<longrightarrow> s < foldl f acc ds) \<and> acc \<le> foldl f acc ds \<and>
      (foldl f acc ds = acc \<or> (\<exists>d \<in> set ds. \<exists>s. jm_get level d = Some s \<and> foldl f acc ds = s + 1))"
    if "f = (\<lambda>depth dep. case jm_get level dep of Some seen \<Rightarrow> max depth (seen + 1) | None \<Rightarrow> depth)"
    for f acc ds
  proof (induction ds arbitrary: acc)
    case Nil
    then show ?case by simp
  next
    case (Cons d ds)
    have step: "f acc d = (case jm_get level d of Some seen \<Rightarrow> max acc (seen + 1) | None \<Rightarrow> acc)"
      using that by simp
    show ?case
    proof (cases "jm_get level d")
      case None
      with Cons.IH [of acc] step show ?thesis by auto
    next
      case (Some s)
      with step have "f acc d = max acc (s + 1)" by simp
      with Cons.IH [of "max acc (s + 1)"] Some show ?thesis by (auto simp: max_def split: if_splits)
    qed
  qed
  from this [OF refl, of "dependsOn n" 0] show ?thesis by (auto simp: depth_of_def)
qed

definition placed :: "ThoughtNode list list \<Rightarrow> string \<Rightarrow> nat \<Rightarrow> bool" where
  "placed levels i k = (k < length levels \<and> i \<in> node_id ` set (levels ! k))"

text \<open>The levels of a processed prefix \<open>ns\<close> whose dependencies inside \<open>ids\<close> come first.\<close>

definition levels_inv :: "string set \<Rightarrow> ThoughtNode list \<Rightarrow> (string, nat) jmap \<times> ThoughtNode list list \<Rightarrow> bool" where
  "levels_inv ids ns st = (case st of (level, levels) \<Rightarrow>
     mset (concat levels) = mset ns \<and> [] \<notin> set levels \<and>
     (\<forall>i k. jm_get level i = Some k \<longrightarrow> placed levels i k) \<and>
     (\<forall>n \<in> set ns. jm_get level (node_id n) \<noteq> None) \<and>
     (\<forall>k < length levels. \<forall>n \<in> set (levels ! k). \<forall>d \<in> set (dependsOn n). d \<in> ids \<longrightarrow> (\<exists>j < k. placed levels d j)))"

lemma push_level_facts:
  assumes "depth \<le> length levels"
  shows "mset (concat (push_level depth n levels)) = add_mset n (mset (concat levels))"
    and "[] \<notin> set levels \<Longrightarrow> [] \<notin> set (push_level depth n levels)"
    and "placed (push_level depth n levels) i k \<longleftrightarrow> placed levels i k \<or> i = node_id n \<and> k = depth"
    and "k < length (push_level depth n levels) \<Longrightarrow> m \<in> set (push_level depth n levels ! k) \<longleftrightarrow>
      k < length levels \<and> m \<in> set (levels ! k) \<or> m = n \<and> k = depth"
proof -
  have split: "levels = take depth levels @ levels ! depth # drop (Suc depth) levels" if "depth < length levels"
    using that by (rule id_take_nth_drop)
  show "mset (concat (push_level depth n levels)) = add_mset n (mset (concat levels))"
  proof (cases "depth < length levels")
    case True
    have "concat (push_level depth n levels)
        = concat (take depth levels) @ (levels ! depth @ [n]) @ concat (drop (Suc depth) levels)"
      using True by (simp add: push_level_def upd_conv_take_nth_drop)
    moreover have "concat levels = concat (take depth levels) @ levels ! depth @ concat (drop (Suc depth) levels)"
      by (subst split [OF True]) simp
    ultimately show ?thesis by simp
  next
    case False
    with assms show ?thesis by (simp add: push_level_def)
  qed
  show "[] \<notin> set levels \<Longrightarrow> [] \<notin> set (push_level depth n levels)"
    using assms by (auto simp: push_level_def dest: set_update_subset_insert [THEN subsetD])
  show "placed (push_level depth n levels) i k \<longleftrightarrow> placed levels i k \<or> i = node_id n \<and> k = depth"
    using assms by (cases "k = depth") (auto simp: push_level_def placed_def nth_append less_Suc_eq)
  show "k < length (push_level depth n levels) \<Longrightarrow> m \<in> set (push_level depth n levels ! k) \<longleftrightarrow>
      k < length levels \<and> m \<in> set (levels ! k) \<or> m = n \<and> k = depth"
    using assms by (cases "k = depth") (auto simp: push_level_def nth_append less_Suc_eq split: if_splits)
qed

lemma level_step_inv:
  assumes inv: "levels_inv ids ns st" and new: "node_id n \<notin> node_id ` set ns"
    and deps: "\<forall>d \<in> set (dependsOn n). d \<in> ids \<longrightarrow> d \<in> node_id ` set ns"
  shows "levels_inv ids (ns @ [n]) (level_step st n)"
proof -
  obtain level levels where st: "st = (level, levels)" by fastforce
  note facts = inv [unfolded levels_inv_def st prod.case]
  from facts have get: "jm_get level i = Some k \<Longrightarrow> placed levels i k" for i k by blast
  have depth: "depth_of level n \<le> length levels"
    using depth_of_facts [of n level] get by (fastforce simp: placed_def)
  note push = push_level_facts [OF depth, where n = n]
  have below: "\<exists>j < depth_of level n. placed levels d j" if d: "d \<in> set (dependsOn n)" "d \<in> ids" for d
  proof -
    from d deps facts obtain s where s: "jm_get level d = Some s" by (metis imageE not_None_eq)
    with depth_of_facts [of n level] d(1) get [OF s] show ?thesis by blast
  qed
  have len: "length levels \<le> length (push_level (depth_of level n) n levels)"
    by (simp add: push_level_def)
  show ?thesis
    unfolding levels_inv_def level_step_def st prod.case Let_def
  proof (intro conjI)
    show "mset (concat (push_level (depth_of level n) n levels)) = mset (ns @ [n])" using push(1) facts by simp
    show "[] \<notin> set (push_level (depth_of level n) n levels)" using push(2) facts by blast
    show "\<forall>i k. jm_get (jm_set (node_id n) (depth_of level n) level) i = Some k \<longrightarrow>
        placed (push_level (depth_of level n) n levels) i k"
      unfolding push(3) using get by (simp add: update_conv')
    show "\<forall>m \<in> set (ns @ [n]). jm_get (jm_set (node_id n) (depth_of level n) level) (node_id m) \<noteq> None"
      using facts by (simp add: update_conv')
    show "\<forall>k < length (push_level (depth_of level n) n levels).
        \<forall>m \<in> set (push_level (depth_of level n) n levels ! k). \<forall>d \<in> set (dependsOn m). d \<in> ids \<longrightarrow>
        (\<exists>j < k. placed (push_level (depth_of level n) n levels) d j)"
    proof (intro allI impI ballI)
      fix k m d
      assume k: "k < length (push_level (depth_of level n) n levels)"
        and m: "m \<in> set (push_level (depth_of level n) n levels ! k)" and d: "d \<in> set (dependsOn m)" "d \<in> ids"
      from m push(4) [OF k] consider "k < length levels" "m \<in> set (levels ! k)" | "m = n" "k = depth_of level n" by auto
      then have "\<exists>j < k. placed levels d j"
        using facts below d by cases blast+
      then show "\<exists>j < k. placed (push_level (depth_of level n) n levels) d j" unfolding push(3) by blast
    qed
  qed
qed

lemma levels_inv_fold:
  "levels_inv ids ns st \<Longrightarrow> distinct (map node_id (ns @ ms)) \<Longrightarrow>
    (\<And>k d. k < length ms \<Longrightarrow> d \<in> set (dependsOn (ms ! k)) \<Longrightarrow> d \<in> ids \<Longrightarrow>
      d \<in> node_id ` set (ns @ take k ms)) \<Longrightarrow>
    levels_inv ids (ns @ ms) (foldl level_step st ms)"
proof (induction ms arbitrary: ns st)
  case (Cons m ms)
  have "levels_inv ids (ns @ [m]) (level_step st m)"
  proof (rule level_step_inv [OF Cons.prems(1)])
    show "node_id m \<notin> node_id ` set ns" using Cons.prems(2) by auto
    show "\<forall>d \<in> set (dependsOn m). d \<in> ids \<longrightarrow> d \<in> node_id ` set ns" using Cons.prems(3) [of 0] by simp
  qed
  moreover have "d \<in> node_id ` set ((ns @ [m]) @ take k ms)"
    if "k < length ms" "d \<in> set (dependsOn (ms ! k))" "d \<in> ids" for k d
    using Cons.prems(3) [of "Suc k" d] that by simp
  ultimately have "levels_inv ids ((ns @ [m]) @ ms) (foldl level_step (level_step st m) ms)"
    using Cons.prems(2) by (intro Cons.IH) simp_all
  then show ?case by simp
qed simp

lemma node_ids_inj:
  "distinct (map node_id nodes) \<Longrightarrow> m \<in> set nodes \<Longrightarrow> n \<in> set nodes \<Longrightarrow> node_id m = node_id n \<Longrightarrow> m = n"
  by (auto simp: distinct_map dest: inj_onD)

text \<open>C37. The execution waves of a graph whose ids are distinct and whose dependencies have no cycle:
  they are numbered from 1, none is empty, each is marked parallel exactly when it has several
  nodes, together they hold every node once, and every dependency of a node lies in an earlier
  wave.\<close>
theorem waves_respect_dependencies:
  assumes dist: "distinct (map node_id (graph_nodes g))" and ne: "[] \<notin> set (map node_id (graph_nodes g))"
    and acyc: "acyclic_deps (graph_nodes g) rank"
  shows "mset (concat (map wave_ids (workflowWaves g))) = mset (map node_id (graph_nodes g)) \<and>
    (\<forall>k < length (workflowWaves g). wave (workflowWaves g ! k) = k + 1 \<and>
      wave_ids (workflowWaves g ! k) \<noteq> [] \<and>
      wave_parallel (workflowWaves g ! k) = (1 < length (wave_ids (workflowWaves g ! k))) \<and>
      (\<forall>n \<in> set (graph_nodes g). node_id n \<in> set (wave_ids (workflowWaves g ! k)) \<longrightarrow>
        (\<forall>d \<in> set (dependsOn n). d \<in> set (map node_id (graph_nodes g)) \<longrightarrow>
          (\<exists>j < k. d \<in> set (wave_ids (workflowWaves g ! j))))))"
proof -
  let ?ns = "topoSort (graph_nodes g)" and ?ids = "set (map node_id (graph_nodes g))"
  obtain level levels where fin: "foldl level_step ([], []) ?ns = (level, levels)" by fastforce
  note perm = topo_sort_facts [OF dist ne, of rank, THEN conjunct1]
  have set: "set ?ns = set (graph_nodes g)" and len: "length ?ns = length (graph_nodes g)"
    using perm by (metis set_mset_mset, metis size_mset)
  have "mset (map node_id ?ns) = mset (map node_id (graph_nodes g))" using perm by simp
  then have "distinct (map node_id ?ns)" using dist by (metis mset_eq_imp_distinct_iff)
  then have inv: "levels_inv ?ids ?ns (level, levels)"
    using levels_inv_fold [of ?ids "[]" "([], [])" ?ns] topo_sort_facts [OF dist ne, of rank] acyc
    by (simp add: levels_inv_def fin len)
  then have full: "filter (\<lambda>g. g \<noteq> []) levels = levels" by (auto simp: levels_inv_def intro: filter_True)
  have waves: "workflowWaves g = map wave_of (enumerate 0 levels)"
    by (simp add: workflowWaves_def dependencyLevels_def fin full)
  have nth: "workflowWaves g ! k = wave_of (k, levels ! k)" if "k < length levels" for k
    using that by (simp add: waves nth_enumerate_eq)
  have ids: "map wave_ids (workflowWaves g) = map (map node_id) levels"
    by (rule nth_equalityI) (simp_all add: waves nth_enumerate_eq wave_of_def)
  have "concat (map wave_ids (workflowWaves g)) = map node_id (concat levels)"
    unfolding ids by (simp add: map_concat)
  then have once: "mset (concat (map wave_ids (workflowWaves g))) = mset (map node_id (graph_nodes g))"
    using inv perm by (simp add: levels_inv_def)
  have earlier: "\<exists>j < k. d \<in> set (wave_ids (workflowWaves g ! j))"
    if k: "k < length levels" and n: "n \<in> set (graph_nodes g)" "node_id n \<in> node_id ` set (levels ! k)"
      and d: "d \<in> set (dependsOn n)" "d \<in> ?ids" for k n d
  proof -
    obtain m where m: "m \<in> set (levels ! k)" "node_id m = node_id n" using n(2) by auto
    have "m \<in> set (concat levels)" using m(1) k by (auto intro: nth_mem)
    moreover have "mset (concat levels) = mset ?ns" using inv by (simp add: levels_inv_def)
    ultimately have "m \<in> set (graph_nodes g)" using set mset_eq_setD by blast
    then have "m = n" using node_ids_inj [OF dist _ n(1) m(2)] by blast
    moreover have "\<forall>k < length levels. \<forall>n \<in> set (levels ! k). \<forall>d \<in> set (dependsOn n).
        d \<in> ?ids \<longrightarrow> (\<exists>j < k. placed levels d j)" using inv unfolding levels_inv_def prod.case by blast
    ultimately obtain j where j: "j < k" "placed levels d j" using k m(1) d by blast
    with k show ?thesis by (intro exI [of _ j]) (simp add: nth placed_def wave_of_def)
  qed
  show ?thesis
  proof (intro conjI once allI impI)
    fix k assume k: "k < length (workflowWaves g)"
    then have k': "k < length levels" by (simp add: waves)
    show "wave (workflowWaves g ! k) = k + 1" by (simp add: nth [OF k'] wave_of_def)
    have "levels ! k \<noteq> []" using inv k' by (auto simp: levels_inv_def dest: nth_mem)
    then show "wave_ids (workflowWaves g ! k) \<noteq> []" by (simp add: nth [OF k'] wave_of_def)
    show "wave_parallel (workflowWaves g ! k) = (1 < length (wave_ids (workflowWaves g ! k)))"
      by (simp add: nth [OF k'] wave_of_def)
    show "\<forall>n \<in> set (graph_nodes g). node_id n \<in> set (wave_ids (workflowWaves g ! k)) \<longrightarrow>
        (\<forall>d \<in> set (dependsOn n). d \<in> ?ids \<longrightarrow> (\<exists>j < k. d \<in> set (wave_ids (workflowWaves g ! j))))"
      using earlier [OF k'] by (simp add: nth [OF k'] wave_of_def)
  qed
qed

definition sample_graph :: ThoughtGraph where
  "sample_graph = \<lparr>goal = ''g'', graph_nodes = sample_nodes\<rparr>"

lemma sample_graph_nodes: "graph_nodes sample_graph = sample_nodes"
  by (simp add: sample_graph_def)

theorem waves_respect_dependencies_witness:
  "mset (concat (map wave_ids (workflowWaves sample_graph))) = mset (map node_id sample_nodes) \<and>
    list_all (\<lambda>k. wave_ids (workflowWaves sample_graph ! k) \<noteq> []) [0..<length (workflowWaves sample_graph)]"
  using waves_respect_dependencies [of sample_graph sample_rank, unfolded sample_graph_nodes, OF sample_nodes_ok]
  by (simp add: list_all_iff)

text \<open>With a cycle the first node of a wave order still has a dependency that no earlier wave holds.\<close>

lemma cyclic_waves:
  "map wave_ids (workflowWaves \<lparr>goal = ''g'', graph_nodes =
     [new_node ''a'' ''t'' Generate ''q'' [''b''], new_node ''b'' ''t'' Generate ''q'' [''a'']]\<rparr>) = [[''a''], [''b'']]"
  by code_simp

subsection \<open>The rendered XML has no markup of the model's making\<close>

lemma count_concat_map: "count_list (concat (map f xs)) c = sum_list (map (\<lambda>x. count_list (f x) c) xs)"
  by (induction xs) auto

lemma replace_char_count:
  "x \<noteq> c \<Longrightarrow> count_list r x = 0 \<Longrightarrow> count_list (replace_char c r s) x = count_list s x"
  by (induction s) (auto simp: replace_char_def)

lemma replace_char_gone: "count_list r c = 0 \<Longrightarrow> count_list (replace_char c r s) c = 0"
  by (induction s) (auto simp: replace_char_def)

lemma escapeXml_count:
  "count_list (escapeXml s) (CHR ''<'') = 0" "count_list (escapeXml s) (CHR ''>'') = 0"
  "count_list (escapeXml s) (CHR 0x22) = 0"
  by (simp_all add: escapeXml_def replace_char_count replace_char_gone)

lemma count_join: "count_list (js_join sep xs) c = sum_list (map (\<lambda>x. count_list x c) xs) + (length xs - 1) * count_list sep c"
  by (induction xs) (auto simp: neq_Nil_conv)

lemma kind_name_plain: "count_list (kind_name k) (CHR 0x22) = 0"
  by (cases k) simp_all

lemma dec_plain: "\<not> is_digit c \<Longrightarrow> count_list (dec n) c = 0"
  using dec_digits [of n] by (auto simp: count_list_0_iff)

lemma nodeXml_count:
  "count_list (nodeXml n) (CHR ''<'') = 10" "count_list (nodeXml n) (CHR ''>'') = 10"
  "count_list (nodeXml n) (CHR 0x22) = 6"
  by (simp_all add: nodeXml_def count_join escapeXml_count TAB_def QUOTE_def NEWLINE_def)

lemma waveXml_count:
  "count_list (waveXml w) (CHR ''<'') = 2" "count_list (waveXml w) (CHR ''>'') = 2"
  "count_list (waveXml w) (CHR 0x22) = 4"
  by (simp_all add: waveXml_def escapeXml_count TAB_def QUOTE_def dec_plain is_digit_def)

text \<open>The model's text cannot add markup to the rendered graph: whatever the goal, titles,
  questions, rationales and conclusions say, the numbers of angle brackets and of quotes are those of
  the fixed tags, ten per node, two per wave and six around them.\<close>
theorem graph_xml_markup_fixed:
  "count_list (graphToXml g) (CHR ''<'') = 6 + 10 * length (graph_nodes g) + 2 * length (workflowWaves g) \<and>
   count_list (graphToXml g) (CHR ''>'') = 6 + 10 * length (graph_nodes g) + 2 * length (workflowWaves g) \<and>
   count_list (graphToXml g) (CHR 0x22) = 6 * length (graph_nodes g) + 4 * length (workflowWaves g)"
  by (simp add: graphToXml_def workflowXml_def count_join escapeXml_count TAB_def QUOTE_def NEWLINE_def
      comp_def nodeXml_count waveXml_count sum_list_triv)

end
