(* ===== verification/State_Dir.thy ===== *)
theory State_Dir
  imports Js_Map Js_String Validation
begin

text \<open>
  The connector's state directory as \<^verbatim>\<open>engine/retention.ts\<close> and
  \<^verbatim>\<open>engine/sessions.ts\<close> see it: three folders, \<^verbatim>\<open>jobs\<close>,
  \<^verbatim>\<open>journal\<close> and \<^verbatim>\<open>sessions\<close>, of entries that
  \<^verbatim>\<open>lstat\<close> reports as a file, a directory or something else (a symlink). A file has a
  modification time, a size and what \<^verbatim>\<open>JSON.parse\<close> makes of its text, nothing when it
  cannot be read or parsed. Times are milliseconds.
\<close>

declare map_of_eq_Some_iff [simp del] Some_eq_map_of_iff [simp del]

datatype fs_entry = FileE real nat "js option" | DirE real "(string \<times> fs_entry) list" | OtherE

type_synonym folder = "(string, fs_entry) jmap"

text \<open>\<^verbatim>\<open>Math.trunc\<close>.\<close>

definition js_trunc :: "real \<Rightarrow> int" where
  "js_trunc q = (if 0 \<le> q then \<lfloor>q\<rfloor> else \<lceil>q\<rceil>)"

definition SESSION_ID :: "string \<Rightarrow> bool" where
  "SESSION_ID s = (let parts = split_on (CHR ''-'') s in
     map length parts = [8, 4, 4, 4, 12] \<and> list_all (list_all is_hex_lower) parts)"

definition JSON_SUFFIX :: string where "JSON_SUFFIX = ''.json''"

definition strip_suffix :: "string \<Rightarrow> string \<Rightarrow> string option" where
  "strip_suffix suf s = (if length suf \<le> length s \<and> drop (length s - length suf) s = suf
     then Some (take (length s - length suf) s) else None)"

text \<open>Session id of a \<^verbatim>\<open><id>.json\<close> name.\<close>

definition recordId :: "string \<Rightarrow> string option" where
  "recordId name = (case strip_suffix JSON_SUFFIX name of
     Some i \<Rightarrow> if SESSION_ID i then Some i else None | None \<Rightarrow> None)"

lemma strip_suffix_iff: "strip_suffix suf s = Some i \<longleftrightarrow> s = i @ suf"
proof -
  have "drop (length s - length suf) s = suf \<Longrightarrow> s = take (length s - length suf) s @ suf"
    by (metis append_take_drop_id)
  then show ?thesis by (auto simp: strip_suffix_def)
qed

lemma recordId_iff: "recordId name = Some i \<longleftrightarrow> SESSION_ID i \<and> name = i @ JSON_SUFFIX"
proof
  assume "recordId name = Some i"
  then show "SESSION_ID i \<and> name = i @ JSON_SUFFIX"
    by (auto simp: recordId_def strip_suffix_iff split: option.splits if_splits)
next
  assume i: "SESSION_ID i \<and> name = i @ JSON_SUFFIX"
  then have "strip_suffix JSON_SUFFIX name = Some i" by (simp add: strip_suffix_iff)
  with i show "recordId name = Some i" by (simp add: recordId_def)
qed

definition MAX_FILE_BYTES :: nat where "MAX_FILE_BYTES = 1024 * 1024"

definition js_key :: "js \<Rightarrow> string \<Rightarrow> js" where
  "js_key v key = (case v of JObj obj \<Rightarrow> obj_get obj key | _ \<Rightarrow> JUndef)"

definition isObject :: "js \<Rightarrow> bool" where
  "isObject v = (case v of JObj _ \<Rightarrow> True | _ \<Rightarrow> False)"

text \<open>A value that is a finite number, as \<^verbatim>\<open>typeof x === "number" && Number.isFinite(x)\<close>.\<close>

definition finite_number :: "js \<Rightarrow> real option" where
  "finite_number v = (case v of JNum (Fin q) \<Rightarrow> Some q | _ \<Rightarrow> None)"

end
