(* ===== verification/Retention.thy ===== *)
theory Retention
  imports State_Dir
begin

text \<open>
  The retention sweep of \<^verbatim>\<open>engine/retention.ts\<close>. A sweep walks the three folders in the
  code's order; each folder is read in slices of at most \<open>maxEntries\<close> names through a scan
  that stays open between sweeps. A scan is the list of names it still has to deliver, fixed when the
  folder is opened. Which calls fail, and what a removal that fails half-way leaves, is an argument of
  the sweep, \<open>faults\<close>; paths below the state directory are lists of names. The sweep is one
  synchronous call; what another process does to the folder while it runs is not modelled.
\<close>

subsection \<open>State\<close>

record tally =
  removed_jobs :: nat
  removed_sessions :: nat
  removed_journals :: nat
  kept :: nat
  skipped :: nat
  errors :: nat

definition zero_tally :: tally where
  "zero_tally = \<lparr>removed_jobs = 0, removed_sessions = 0, removed_journals = 0, kept = 0, skipped = 0, errors = 0\<rparr>"

text \<open>A removal succeeds, fails without effect, or (\<^verbatim>\<open>rmSync\<close> of a folder) throws
  after deleting some of the files: the folder then has another modification time and the files that
  are still there.\<close>

datatype removal = Removed | Refused | Partly real "string \<Rightarrow> bool"

record faults =
  list_fails :: "string \<Rightarrow> bool"
  stat_fails :: "string list \<Rightarrow> bool"
  read_fails :: "string list \<Rightarrow> bool"
  removal :: "string \<Rightarrow> string \<Rightarrow> removal"

record walk =
  tree :: folder
  scans :: "(string, string list) jmap"
  walk_tally :: tally

definition DAY_MS :: real where "DAY_MS = 86400000"
definition DEFAULT_MAX_ENTRIES :: nat where "DEFAULT_MAX_ENTRIES = 5000"

definition skip :: "walk \<Rightarrow> walk" where
  "skip w = w\<lparr>walk_tally := (walk_tally w)\<lparr>skipped := skipped (walk_tally w) + 1\<rparr>\<rparr>"

definition keep :: "walk \<Rightarrow> walk" where
  "keep w = w\<lparr>walk_tally := (walk_tally w)\<lparr>kept := kept (walk_tally w) + 1\<rparr>\<rparr>"

definition fault :: "walk \<Rightarrow> walk" where
  "fault w = w\<lparr>walk_tally := (walk_tally w)\<lparr>errors := errors (walk_tally w) + 1\<rparr>\<rparr>"

subsection \<open>Reading a folder in slices\<close>

definition closeScan :: "string \<Rightarrow> walk \<Rightarrow> walk" where
  "closeScan place w = w\<lparr>scans := jm_delete place (scans w)\<rparr>"

text \<open>The scan delivers up to \<open>cap\<close> names; when it runs dry before that, it is closed.\<close>

definition listNames :: "faults \<Rightarrow> string \<Rightarrow> folder \<Rightarrow> nat \<Rightarrow> walk \<Rightarrow> walk \<times> string list option" where
  "listNames f place entries cap w =
     (if list_fails f place then (closeScan place w, None)
      else let handle = (case jm_get (scans w) place of Some rest \<Rightarrow> rest | None \<Rightarrow> map fst entries)
      in if length handle < cap then (closeScan place w, Some handle)
         else (w\<lparr>scans := jm_set place (drop cap handle) (scans w)\<rparr>, Some (take cap handle)))"

subsection \<open>What happens to an entry\<close>

datatype verdict = Skip | Keep | Remove

text \<open>\<^verbatim>\<open>kindOf\<close>: an entry whose \<^verbatim>\<open>lstat\<close> fails is taken for a missing one.\<close>

definition kindOf :: "faults \<Rightarrow> string list \<Rightarrow> fs_entry option \<Rightarrow> fs_entry option" where
  "kindOf f path e = (if stat_fails f path then None else e)"

definition readObject :: "faults \<Rightarrow> string list \<Rightarrow> fs_entry \<Rightarrow> js option" where
  "readObject f path e = (case e of FileE _ sz (Some v) \<Rightarrow>
     if MAX_FILE_BYTES < sz then None else if read_fails f path then None
     else if isObject v then Some v else None | _ \<Rightarrow> None)"

definition session_verdict :: "faults \<Rightarrow> real \<Rightarrow> string \<Rightarrow> fs_entry option \<Rightarrow> verdict" where
  "session_verdict f cutoff name entry =
     (if recordId name = None then Skip
      else case kindOf f [''sessions'', name] entry of
        Some (FileE mtime sz body) \<Rightarrow> if cutoff \<le> of_int (js_trunc mtime) then Keep else Remove
      | _ \<Rightarrow> Skip)"

definition job_verdict :: "faults \<Rightarrow> real \<Rightarrow> string \<Rightarrow> fs_entry option \<Rightarrow> verdict" where
  "job_verdict f cutoff name entry =
     (if recordId name = None then Skip
      else case kindOf f [''jobs'', name] entry of
        Some (FileE mtime sz body) \<Rightarrow>
          (case readObject f [''jobs'', name] (FileE mtime sz body) of
             None \<Rightarrow> Skip
           | Some job \<Rightarrow>
              (case js_key job ''status'' of
                 JStr status \<Rightarrow>
                   let time = js_trunc (case finite_number (js_key job ''updatedAt'') of Some q \<Rightarrow> q | None \<Rightarrow> mtime)
                   in if cutoff \<le> of_int time \<or> status = ''running'' then Keep else Remove
               | _ \<Rightarrow> Skip))
      | _ \<Rightarrow> Skip)"

definition FINISHED_CLIENT_STATUSES :: "string list" where
  "FINISHED_CLIENT_STATUSES = [''planned'', ''invalid'', ''skipped'']"

definition finished_status :: "js \<Rightarrow> bool" where
  "finished_status v = (case v of JStr s \<Rightarrow> s \<in> set FINISHED_CLIENT_STATUSES | _ \<Rightarrow> False)"

definition age_verdict :: "real \<Rightarrow> int \<Rightarrow> verdict" where
  "age_verdict cutoff time = (if cutoff \<le> of_int time then Keep else Remove)"

definition journal_verdict :: "faults \<Rightarrow> real \<Rightarrow> string \<Rightarrow> fs_entry option \<Rightarrow> verdict" where
  "journal_verdict f cutoff name entry =
     (if \<not> SESSION_ID name then Skip
      else case kindOf f [''journal'', name] entry of
        Some (DirE mtime files) \<Rightarrow>
          (case kindOf f [''journal'', name, ''meta.json''] (jm_get files ''meta.json'') of
             None \<Rightarrow> age_verdict cutoff (js_trunc mtime)
           | Some (FileE metatime sz body) \<Rightarrow>
              (case readObject f [''journal'', name, ''meta.json''] (FileE metatime sz body) of
                 None \<Rightarrow> Skip
               | Some parsed \<Rightarrow>
                   if \<not> finished_status (js_key parsed ''status'') then Keep
                   else age_verdict cutoff (max (js_trunc mtime) (js_trunc metatime)))
           | Some _ \<Rightarrow> Skip)
      | _ \<Rightarrow> Skip)"

text \<open>The verdicts by place, and the counter a removal raises.\<close>

definition verdict_of :: "string \<Rightarrow> faults \<Rightarrow> real \<Rightarrow> string \<Rightarrow> fs_entry option \<Rightarrow> verdict" where
  "verdict_of place = (if place = ''jobs'' then job_verdict
     else if place = ''journal'' then journal_verdict else session_verdict)"

definition count_removed :: "string \<Rightarrow> tally \<Rightarrow> tally" where
  "count_removed place t = (if place = ''jobs'' then t\<lparr>removed_jobs := removed_jobs t + 1\<rparr>
     else if place = ''journal'' then t\<lparr>removed_journals := removed_journals t + 1\<rparr>
     else t\<lparr>removed_sessions := removed_sessions t + 1\<rparr>)"

definition folder_at :: "folder \<Rightarrow> string \<Rightarrow> folder" where
  "folder_at t place = (case jm_get t place of Some (DirE _ entries) \<Rightarrow> entries | _ \<Rightarrow> [])"

definition drop_entry :: "string \<Rightarrow> string \<Rightarrow> folder \<Rightarrow> folder" where
  "drop_entry place name t = (case jm_get t place of
     Some (DirE m entries) \<Rightarrow> jm_set place (DirE m (jm_delete name entries)) t | _ \<Rightarrow> t)"

definition change_entry :: "string \<Rightarrow> string \<Rightarrow> (fs_entry \<Rightarrow> fs_entry) \<Rightarrow> folder \<Rightarrow> folder" where
  "change_entry place name g t = (case jm_get t place of
     Some (DirE m entries) \<Rightarrow> (case jm_get entries name of
         Some e \<Rightarrow> jm_set place (DirE m (jm_set name (g e) entries)) t | None \<Rightarrow> t)
   | _ \<Rightarrow> t)"

text \<open>What is left where a removal failed; only a folder can be left partly deleted.\<close>

definition leftover :: "removal \<Rightarrow> fs_entry \<Rightarrow> fs_entry" where
  "leftover r e = (case (r, e) of
      (Partly m still, DirE _ files) \<Rightarrow> DirE m (filter (\<lambda>(n, _). still n) files) | _ \<Rightarrow> e)"

definition removeEntry :: "faults \<Rightarrow> string \<Rightarrow> string \<Rightarrow> walk \<Rightarrow> walk" where
  "removeEntry f place name w =
     (if removal f place name = Removed
      then w\<lparr>tree := drop_entry place name (tree w), walk_tally := count_removed place (walk_tally w)\<rparr>
      else fault (w\<lparr>tree := change_entry place name (leftover (removal f place name)) (tree w)\<rparr>))"

definition sweep_entry :: "faults \<Rightarrow> real \<Rightarrow> string \<Rightarrow> walk \<Rightarrow> string \<Rightarrow> walk" where
  "sweep_entry f cutoff place w name =
     (case verdict_of place f cutoff name (jm_get (folder_at (tree w) place) name) of
        Skip \<Rightarrow> skip w
      | Keep \<Rightarrow> keep w
      | Remove \<Rightarrow> removeEntry f place name w)"

subsection \<open>A sweep\<close>

text \<open>The walk of one folder: \<^verbatim>\<open>sweepJobs\<close>, \<^verbatim>\<open>sweepJournals\<close> and
  \<^verbatim>\<open>sweepSessions\<close> differ in the verdict only.\<close>

definition sweep_place :: "faults \<Rightarrow> real \<Rightarrow> nat \<Rightarrow> string \<Rightarrow> walk \<Rightarrow> walk" where
  "sweep_place f cutoff cap place w = (case kindOf f [place] (jm_get (tree w) place) of
      None \<Rightarrow> w
    | Some (DirE _ entries) \<Rightarrow>
        (case listNames f place entries cap w of
           (w', None) \<Rightarrow> fault w'
         | (w', Some names) \<Rightarrow> foldl (sweep_entry f cutoff place) w' names)
    | Some _ \<Rightarrow> skip w)"

definition sweepSessions :: "faults \<Rightarrow> real \<Rightarrow> nat \<Rightarrow> walk \<Rightarrow> walk" where
  "sweepSessions f cutoff cap = sweep_place f cutoff cap ''sessions''"

definition sweepJobs :: "faults \<Rightarrow> real \<Rightarrow> nat \<Rightarrow> walk \<Rightarrow> walk" where
  "sweepJobs f cutoff cap = sweep_place f cutoff cap ''jobs''"

definition sweepJournals :: "faults \<Rightarrow> real \<Rightarrow> nat \<Rightarrow> walk \<Rightarrow> walk" where
  "sweepJournals f cutoff cap = sweep_place f cutoff cap ''journal''"

record SweepOptions =
  stateDir :: js
  retentionDays :: js
  maxEntries :: js

record SweepResult =
  sweep_tally :: tally
  disabled :: bool

definition valid_days :: "js \<Rightarrow> real option" where
  "valid_days v = (case finite_number v of Some d \<Rightarrow> if d < 0 then None else Some d | None \<Rightarrow> None)"

definition valid_max :: "js \<Rightarrow> nat option" where
  "valid_max v = (case v of
      JUndef \<Rightarrow> Some DEFAULT_MAX_ENTRIES
    | JNull \<Rightarrow> Some DEFAULT_MAX_ENTRIES
    | JNum (Fin q) \<Rightarrow> if of_int \<lfloor>q\<rfloor> = q \<and> 1 \<le> q then Some (nat \<lfloor>q\<rfloor>) else None
    | _ \<Rightarrow> None)"

type_synonym disk = "folder \<times> (string, string list) jmap"

definition sweepStateDir :: "SweepOptions \<Rightarrow> real \<Rightarrow> faults \<Rightarrow> disk \<Rightarrow> js_error + SweepResult \<times> disk" where
  "sweepStateDir opts now f disk =
     (case stateDir opts of
        JStr path \<Rightarrow>
          (if js_trim path = [] then Inl (TypeError ''stateDir'')
           else case valid_days (retentionDays opts) of
             None \<Rightarrow> Inl (RangeError ''retentionDays'')
           | Some days \<Rightarrow>
             (case valid_max (maxEntries opts) of
                None \<Rightarrow> Inl (RangeError ''maxEntries'')
              | Some cap \<Rightarrow>
                  if days = 0 then Inr (\<lparr>sweep_tally = zero_tally, disabled = True\<rparr>, disk)
                  else let cutoff = now - days * DAY_MS;
                           w0 = \<lparr>tree = fst disk, scans = snd disk, walk_tally = zero_tally\<rparr>;
                           w = sweepSessions f cutoff cap (sweepJournals f cutoff cap (sweepJobs f cutoff cap w0))
                       in Inr (\<lparr>sweep_tally = walk_tally w, disabled = False\<rparr>, (tree w, scans w))))
      | _ \<Rightarrow> Inl (TypeError ''stateDir''))"

subsection \<open>What a sweep removes\<close>

definition same_elsewhere :: "string \<Rightarrow> folder \<Rightarrow> folder \<Rightarrow> bool" where
  "same_elsewhere place t t' = (\<forall>p. p \<noteq> place \<longrightarrow> jm_get t' p = jm_get t p)"

text \<open>A folder after some removals: every entry is as it was, or was stale by its verdict and is gone
  or, where the removal failed half-way, has lost some of its files.\<close>

definition removed_by :: "removal \<Rightarrow> fs_entry option \<Rightarrow> fs_entry option \<Rightarrow> bool" where
  "removed_by r e e' \<longleftrightarrow> (e' = None \<or> r \<noteq> Removed \<and>
     (\<exists>m files m' still. e = Some (DirE m files) \<and> e' = Some (DirE m' (filter (\<lambda>(n, _). still n) files))))"

definition thinned :: "faults \<Rightarrow> real \<Rightarrow> string \<Rightarrow> folder \<Rightarrow> folder \<Rightarrow> bool" where
  "thinned f cutoff place t t' = (length (folder_at t' place) \<le> length (folder_at t place) \<and>
     (\<forall>name. jm_get (folder_at t' place) name = jm_get (folder_at t place) name \<or>
       verdict_of place f cutoff name (jm_get (folder_at t place) name) = Remove \<and>
       removed_by (removal f place name) (jm_get (folder_at t place) name) (jm_get (folder_at t' place) name)))"

lemma removed_by_trans: "removed_by r e e' \<Longrightarrow> removed_by r e' e'' \<Longrightarrow> removed_by r e e''"
  unfolding removed_by_def by (auto simp: case_prod_unfold)

lemma thinned_refl: "thinned f cutoff place t t"
  by (simp add: thinned_def)

lemma thinned_trans:
  assumes "thinned f cutoff place t t'" "thinned f cutoff place t' t''"
  shows "thinned f cutoff place t t''"
proof -
  let ?e = "\<lambda>t name. jm_get (folder_at t place) name"
  have "?e t'' name = ?e t name \<or> verdict_of place f cutoff name (?e t name) = Remove
      \<and> removed_by (removal f place name) (?e t name) (?e t'' name)" for name
  proof (cases "?e t' name = ?e t name")
    case True
    with assms(2) show ?thesis unfolding thinned_def by metis
  next
    case False
    with assms(1) have one: "verdict_of place f cutoff name (?e t name) = Remove"
      "removed_by (removal f place name) (?e t name) (?e t' name)" unfolding thinned_def by metis+
    with assms(2) removed_by_trans [OF one(2)] show ?thesis unfolding thinned_def by metis
  qed
  with assms show ?thesis unfolding thinned_def by (meson le_trans)
qed

lemma folder_at_cong: "jm_get t' p = jm_get t p \<Longrightarrow> folder_at t' p = folder_at t p"
  by (simp add: folder_at_def)

lemma drop_entry_facts:
  "jm_get (folder_at (drop_entry place name t) place) n = (if n = name then None else jm_get (folder_at t place) n)"
  "p \<noteq> place \<Longrightarrow> jm_get (drop_entry place name t) p = jm_get t p"
  "length (folder_at (drop_entry place name t) place) \<le> length (folder_at t place)"
  by (auto simp: drop_entry_def folder_at_def update_conv' delete_conv' length_delete_le
      split: option.splits fs_entry.splits)

lemma change_entry_facts:
  "jm_get (folder_at (change_entry place name g t) place) n =
    (if n = name then map_option g (jm_get (folder_at t place) n) else jm_get (folder_at t place) n)"
  "p \<noteq> place \<Longrightarrow> jm_get (change_entry place name g t) p = jm_get t p"
  "length (folder_at (change_entry place name g t) place) \<le> length (folder_at t place)"
  by (auto simp: change_entry_def folder_at_def update_conv' length_update split: option.splits fs_entry.splits)

lemma leftover_removed_by:
  "r \<noteq> Removed \<Longrightarrow> map_option (leftover r) e = e \<or> removed_by r e (map_option (leftover r) e)"
  by (cases e) (auto simp: removed_by_def leftover_def split: removal.splits fs_entry.splits)

lemma walk_shell [simp]:
  "tree (skip w) = tree w" "tree (keep w) = tree w" "tree (fault w) = tree w"
  "scans (skip w) = scans w" "scans (keep w) = scans w" "scans (fault w) = scans w"
  "tree (closeScan place w) = tree w" "scans (closeScan place w) = jm_delete place (scans w)"
  by (simp_all add: skip_def keep_def fault_def closeScan_def)

lemma removeEntry_facts:
  "verdict_of place f cutoff name (jm_get (folder_at (tree w) place) name) = Remove \<Longrightarrow>
    thinned f cutoff place (tree w) (tree (removeEntry f place name w))"
  "p \<noteq> place \<Longrightarrow> jm_get (tree (removeEntry f place name w)) p = jm_get (tree w) p"
  "scans (removeEntry f place name w) = scans w"
  "removal f place name = Removed \<Longrightarrow> jm_get (folder_at (tree (removeEntry f place name w)) place) name = None"
  using leftover_removed_by [of "removal f place name" "jm_get (folder_at (tree w) place) name"]
  by (auto simp: removeEntry_def thinned_def drop_entry_facts change_entry_facts removed_by_def)

lemma sweep_entry_facts:
  "thinned f cutoff place (tree w) (tree (sweep_entry f cutoff place w name))"
  "p \<noteq> place \<Longrightarrow> jm_get (tree (sweep_entry f cutoff place w name)) p = jm_get (tree w) p"
  "scans (sweep_entry f cutoff place w name) = scans w"
  "removal f place name = Removed \<Longrightarrow>
    verdict_of place f cutoff name (jm_get (folder_at (tree w) place) name) = Remove \<Longrightarrow>
    jm_get (folder_at (tree (sweep_entry f cutoff place w name)) place) name = None"
  by (simp_all add: sweep_entry_def removeEntry_facts thinned_refl split: verdict.splits)

lemma sweep_entries_facts:
  "thinned f cutoff place (tree w) (tree (foldl (sweep_entry f cutoff place) w names)) \<and>
   (p \<noteq> place \<longrightarrow> jm_get (tree (foldl (sweep_entry f cutoff place) w names)) p = jm_get (tree w) p) \<and>
   scans (foldl (sweep_entry f cutoff place) w names) = scans w"
proof (induction names arbitrary: w)
  case (Cons n names)
  from Cons.IH [of "sweep_entry f cutoff place w n"] show ?case
    using sweep_entry_facts(2) [of p place f cutoff w n]
    by (auto simp: sweep_entry_facts(3) intro: thinned_trans [OF sweep_entry_facts(1)])
qed (simp add: thinned_refl)

lemma listNames_facts:
  "listNames f place entries cap w = (w', names) \<Longrightarrow> tree w' = tree w \<and>
    (p \<noteq> place \<longrightarrow> jm_get (scans w') p = jm_get (scans w) p)"
  by (auto simp: listNames_def Let_def update_conv' delete_conv' split: if_splits)

lemma sweep_place_facts:
  "thinned f cutoff place (tree w) (tree (sweep_place f cutoff cap place w)) \<and>
   (p \<noteq> place \<longrightarrow> jm_get (tree (sweep_place f cutoff cap place w)) p = jm_get (tree w) p \<and>
     jm_get (scans (sweep_place f cutoff cap place w)) p = jm_get (scans w) p)"
proof (cases "kindOf f [place] (jm_get (tree w) place)")
  case None
  then show ?thesis by (simp add: sweep_place_def thinned_refl)
next
  case entry: (Some e)
  show ?thesis
  proof (cases e)
    case (DirE m entries)
    obtain w' names where ls: "listNames f place entries cap w = (w', names)" by fastforce
    note facts = listNames_facts [OF ls, of p]
    show ?thesis
    proof (cases names)
      case None
      with entry DirE ls facts show ?thesis by (simp add: sweep_place_def thinned_refl)
    next
      case (Some ns)
      have "sweep_place f cutoff cap place w = foldl (sweep_entry f cutoff place) w' ns"
        using entry DirE ls Some by (simp add: sweep_place_def)
      with sweep_entries_facts [of f cutoff place w' ns p] facts show ?thesis by simp
    qed
  qed (use entry in \<open>simp_all add: sweep_place_def thinned_refl\<close>)
qed

definition PLACES :: "string list" where "PLACES = [''jobs'', ''journal'', ''sessions'']"

text \<open>The three walks of an enabled sweep.\<close>

definition sweep_all :: "faults \<Rightarrow> real \<Rightarrow> nat \<Rightarrow> walk \<Rightarrow> walk" where
  "sweep_all f cutoff cap w = sweepSessions f cutoff cap (sweepJournals f cutoff cap (sweepJobs f cutoff cap w))"

lemma sweep_all_thinned:
  "thinned f cutoff place (tree w) (tree (sweep_all f cutoff cap w))"
  "place \<notin> set PLACES \<Longrightarrow> jm_get (tree (sweep_all f cutoff cap w)) place = jm_get (tree w) place"
proof -
  define w1 where "w1 = sweep_place f cutoff cap ''jobs'' w"
  define w2 where "w2 = sweep_place f cutoff cap ''journal'' w1"
  have all: "sweep_all f cutoff cap w = sweep_place f cutoff cap ''sessions'' w2"
    by (simp add: sweep_all_def sweepJobs_def sweepJournals_def sweepSessions_def w1_def w2_def)
  have step: "thinned f cutoff place (tree v) (tree (sweep_place f cutoff cap p v))" for v p
    using sweep_place_facts [of f cutoff p v cap place]
    by (cases "p = place") (auto simp: thinned_def dest: folder_at_cong)
  show "thinned f cutoff place (tree w) (tree (sweep_all f cutoff cap w))"
    unfolding all using step [of w2 "''sessions''"] step [of w1 "''journal''"] step [of w "''jobs''"]
    by (fold w1_def w2_def) (blast intro: thinned_trans)
  show "place \<notin> set PLACES \<Longrightarrow> jm_get (tree (sweep_all f cutoff cap w)) place = jm_get (tree w) place"
    unfolding all w2_def w1_def using sweep_place_facts [where p = place] by (simp add: PLACES_def)
qed

lemma sweepStateDir_cases:
  assumes "sweepStateDir opts now f disk = Inr (res, disk')"
  obtains "disabled res" "disk' = disk" "sweep_tally res = zero_tally"
  | path days cap w where "stateDir opts = JStr path" "valid_days (retentionDays opts) = Some days" "0 < days"
      "valid_max (maxEntries opts) = Some cap" "\<not> disabled res"
      "w = sweep_all f (now - days * DAY_MS) cap \<lparr>tree = fst disk, scans = snd disk, walk_tally = zero_tally\<rparr>"
      "disk' = (tree w, scans w)" "sweep_tally res = walk_tally w"
proof -
  obtain path where path: "stateDir opts = JStr path" "js_trim path \<noteq> []"
    using assms by (auto simp: sweepStateDir_def split: js.splits if_splits)
  obtain days where days: "valid_days (retentionDays opts) = Some days"
    using assms path by (auto simp: sweepStateDir_def split: option.splits)
  then have "0 \<le> days" by (auto simp: valid_days_def split: option.splits if_splits)
  obtain cap where cap: "valid_max (maxEntries opts) = Some cap"
    using assms path days by (auto simp: sweepStateDir_def split: option.splits)
  show thesis
  proof (cases "days = 0")
    case True
    with assms path days cap show thesis by (auto simp: sweepStateDir_def intro!: that(1))
  next
    case False
    with \<open>0 \<le> days\<close> have "0 < days" by simp
    with assms path days cap False show thesis
      by (intro that(2) [OF path(1) days _ cap _ refl]) (auto simp: sweepStateDir_def Let_def sweep_all_def)
  qed
qed

definition sweep_cutoff :: "SweepOptions \<Rightarrow> real \<Rightarrow> real" where
  "sweep_cutoff opts now = (case valid_days (retentionDays opts) of Some d \<Rightarrow> now - d * DAY_MS | None \<Rightarrow> now)"

text \<open>Every entry is untouched by a sweep unless its verdict is to be removed.\<close>

lemma swept_thinned:
  assumes "sweepStateDir opts now f disk = Inr (res, disk')"
  shows "thinned f (sweep_cutoff opts now) place (fst disk) (fst disk')"
    and "place \<notin> set PLACES \<Longrightarrow> jm_get (fst disk') place = jm_get (fst disk) place"
proof -
  have "thinned f (sweep_cutoff opts now) place (fst disk) (fst disk') \<and>
    (place \<notin> set PLACES \<longrightarrow> jm_get (fst disk') place = jm_get (fst disk) place)"
    using assms
  proof (cases rule: sweepStateDir_cases)
    case 1
    then show ?thesis by (simp add: thinned_refl)
  next
    case (2 path days cap w)
    then show ?thesis
      using sweep_all_thinned [where cutoff = "now - days * DAY_MS" and place = place and f = f and cap = cap
        and w = "\<lparr>tree = fst disk, scans = snd disk, walk_tally = zero_tally\<rparr>"]
      by (simp add: sweep_cutoff_def)
  qed
  then show "thinned f (sweep_cutoff opts now) place (fst disk) (fst disk')"
    and "place \<notin> set PLACES \<Longrightarrow> jm_get (fst disk') place = jm_get (fst disk) place" by simp_all
qed

lemma kept_entry:
  assumes "sweepStateDir opts now f disk = Inr (res, disk')"
    and "jm_get (folder_at (fst disk) place) name = Some e"
    and "verdict_of place f (sweep_cutoff opts now) name (Some e) \<noteq> Remove"
  shows "jm_get (folder_at (fst disk') place) name = Some e"
  using swept_thinned(1) [OF assms(1), of place] assms(2,3) unfolding thinned_def by metis

text \<open>
  What the documentation lets a sweep remove, place by place: a job that is not running and whose own
  time (its \<^verbatim>\<open>updatedAt\<close>, else the file's) lies before the cutoff; a finished
  journal whose folder and meta file were both last modified before it, or one with no meta file to
  be seen by the folder's time alone; a plan record last modified before it.
\<close>

definition job_time :: "js \<Rightarrow> real \<Rightarrow> int" where
  "job_time job mtime = (case finite_number (js_key job ''updatedAt'') of
     Some q \<Rightarrow> js_trunc q | None \<Rightarrow> js_trunc mtime)"

definition expired_job :: "real \<Rightarrow> string \<Rightarrow> fs_entry \<Rightarrow> bool" where
  "expired_job cutoff name e \<longleftrightarrow> recordId name \<noteq> None \<and> (\<exists>m sz job status. e = FileE m sz (Some job) \<and>
     js_key job ''status'' = JStr status \<and> status \<noteq> ''running'' \<and> of_int (job_time job m) < cutoff)"

definition expired_journal :: "faults \<Rightarrow> real \<Rightarrow> string \<Rightarrow> fs_entry \<Rightarrow> bool" where
  "expired_journal f cutoff name e \<longleftrightarrow> SESSION_ID name \<and> (\<exists>m files. e = DirE m files \<and> of_int (js_trunc m) < cutoff \<and>
     (jm_get files ''meta.json'' = None \<or> stat_fails f [''journal'', name, ''meta.json''] \<or>
      (\<exists>mm sz meta. jm_get files ''meta.json'' = Some (FileE mm sz (Some meta)) \<and>
         finished_status (js_key meta ''status'') \<and> of_int (js_trunc mm) < cutoff)))"

definition expired_record :: "real \<Rightarrow> string \<Rightarrow> fs_entry \<Rightarrow> bool" where
  "expired_record cutoff name e \<longleftrightarrow> recordId name \<noteq> None \<and>
     (\<exists>m sz body. e = FileE m sz body \<and> of_int (js_trunc m) < cutoff)"

definition expired :: "faults \<Rightarrow> real \<Rightarrow> string \<Rightarrow> string \<Rightarrow> fs_entry \<Rightarrow> bool" where
  "expired f cutoff place name e \<longleftrightarrow> place = ''jobs'' \<and> expired_job cutoff name e \<or>
     place = ''journal'' \<and> expired_journal f cutoff name e \<or> place = ''sessions'' \<and> expired_record cutoff name e"

lemma age_verdict_Remove: "age_verdict cutoff t = Remove \<longleftrightarrow> of_int t < cutoff"
  by (simp add: age_verdict_def not_le)

lemma readObject_Some: "readObject f path (FileE m sz body) = Some v \<Longrightarrow> body = Some v"
  by (auto simp: readObject_def split: option.splits if_splits)

lemma kindOf_Some: "kindOf f path e = Some x \<Longrightarrow> e = Some x"
  by (simp add: kindOf_def split: if_splits)

lemma job_verdict_Remove:
  assumes "job_verdict f cutoff name (Some e) = Remove"
  shows "expired_job cutoff name e"
proof -
  from assms obtain m sz body where e: "kindOf f [''jobs'', name] (Some e) = Some (FileE m sz body)" "recordId name \<noteq> None"
    by (auto simp: job_verdict_def split: if_splits option.splits fs_entry.splits)
  with assms obtain job where job: "readObject f [''jobs'', name] (FileE m sz body) = Some job"
    by (auto simp: job_verdict_def split: option.splits)
  with assms e obtain status where st: "js_key job ''status'' = JStr status" "status \<noteq> ''running''" "of_int (job_time job m) < cutoff"
    by (auto simp: job_verdict_def Let_def job_time_def not_le split: js.splits if_splits option.splits)
  with kindOf_Some [OF e(1)] readObject_Some [OF job] e(2) show ?thesis by (auto simp: expired_job_def)
qed

lemma journal_verdict_Remove:
  assumes "journal_verdict f cutoff name (Some e) = Remove"
  shows "expired_journal f cutoff name e"
proof -
  let ?meta = "[''journal'', name, ''meta.json'']"
  from assms obtain m files where e: "kindOf f [''journal'', name] (Some e) = Some (DirE m files)" "SESSION_ID name"
    by (auto simp: journal_verdict_def split: if_splits option.splits fs_entry.splits)
  show ?thesis
  proof (cases "kindOf f ?meta (jm_get files ''meta.json'')")
    case None
    with assms e have "of_int (js_trunc m) < cutoff" by (simp add: journal_verdict_def age_verdict_Remove)
    moreover have "jm_get files ''meta.json'' = None \<or> stat_fails f ?meta"
      using None by (simp add: kindOf_def split: if_splits)
    ultimately show ?thesis using kindOf_Some [OF e(1)] e(2) by (auto simp: expired_journal_def)
  next
    case (Some meta)
    with assms e obtain mm sz body where meta: "meta = FileE mm sz body"
      by (auto simp: journal_verdict_def split: fs_entry.splits)
    with assms e Some obtain v where v: "readObject f ?meta (FileE mm sz body) = Some v"
      by (auto simp: journal_verdict_def split: option.splits)
    with assms e Some meta have "finished_status (js_key v ''status'')" "of_int (max (js_trunc m) (js_trunc mm)) < cutoff"
      by (auto simp: journal_verdict_def age_verdict_Remove split: if_splits)
    with kindOf_Some [OF e(1)] kindOf_Some [OF Some] readObject_Some [OF v] meta e(2) show ?thesis
      by (auto simp: expired_journal_def)
  qed
qed

lemma session_verdict_Remove: "session_verdict f cutoff name (Some e) = Remove \<Longrightarrow> expired_record cutoff name e"
  by (auto simp: session_verdict_def expired_record_def not_le kindOf_def split: if_splits option.splits fs_entry.splits)

lemma verdict_expired:
  "place \<in> set PLACES \<Longrightarrow> verdict_of place f cutoff name (Some e) = Remove \<Longrightarrow> expired f cutoff place name e"
  using job_verdict_Remove journal_verdict_Remove session_verdict_Remove
  by (auto simp: verdict_of_def expired_def PLACES_def split: if_splits)

text \<open>The entries the documentation promises to keep are not of these.\<close>

definition running_job :: "fs_entry \<Rightarrow> bool" where
  "running_job e = (case e of FileE _ _ (Some v) \<Rightarrow> js_key v ''status'' = JStr ''running'' | _ \<Rightarrow> False)"

definition open_journal :: "fs_entry \<Rightarrow> bool" where
  "open_journal e = (case e of DirE _ files \<Rightarrow>
     (case jm_get files ''meta.json'' of
        Some (FileE _ _ (Some v)) \<Rightarrow> \<not> finished_status (js_key v ''status'') | _ \<Rightarrow> False) | _ \<Rightarrow> False)"

lemma needed_not_expired:
  "running_job e \<Longrightarrow> \<not> expired_job cutoff name e"
  "open_journal e \<Longrightarrow> \<not> stat_fails f [''journal'', name, ''meta.json''] \<Longrightarrow> \<not> expired_journal f cutoff name e"
  by (auto simp: running_job_def open_journal_def expired_job_def expired_journal_def split: fs_entry.splits option.splits)

lemma protected_verdicts:
  "running_job e \<Longrightarrow> verdict_of ''jobs'' f cutoff name (Some e) \<noteq> Remove"
  "open_journal e \<Longrightarrow> \<not> stat_fails f [''journal'', name, ''meta.json''] \<Longrightarrow>
    verdict_of ''journal'' f cutoff name (Some e) \<noteq> Remove"
  using verdict_expired [of "''jobs''"] verdict_expired [of "''journal''"] needed_not_expired
  by (fastforce simp: expired_def PLACES_def)+

text \<open>C38. Whatever listings, \<^verbatim>\<open>lstat\<close>s, reads and removals fail, a sweep leaves every
  entry as it is but those the documentation lets it remove: a job that is not running and whose own
  time lies before the cutoff; a finished journal not modified since; a journal with no meta file,
  or whose meta file could not be \<^verbatim>\<open>lstat\<close>ed, by its folder's time; an old plan record.
  Such an entry is removed, or stays, or, where deleting a journal failed half-way, keeps some of
  its files. Hence a running job stays whatever its age, and so does a journal whose session is in
  progress while its meta file can be \<^verbatim>\<open>lstat\<close>ed. A retention of 0 days removes nothing.\<close>
theorem sweep_keeps_needed:
  assumes swept: "sweepStateDir opts now f disk = Inr (res, disk')"
    and entry: "jm_get (folder_at (fst disk) place) name = Some e"
  shows "(jm_get (folder_at (fst disk') place) name = Some e \<or>
      valid_days (retentionDays opts) \<noteq> Some 0 \<and> expired f (sweep_cutoff opts now) place name e \<and>
      (jm_get (folder_at (fst disk') place) name = None \<or>
       removal f place name \<noteq> Removed \<and> (\<exists>m files m' still. e = DirE m files \<and>
         jm_get (folder_at (fst disk') place) name = Some (DirE m' (filter (\<lambda>(n, _). still n) files))))) \<and>
    (place = ''jobs'' \<and> running_job e \<or>
     place = ''journal'' \<and> open_journal e \<and> \<not> stat_fails f [''journal'', name, ''meta.json'']
     \<longrightarrow> jm_get (folder_at (fst disk') place) name = Some e)"
proof -
  let ?e' = "jm_get (folder_at (fst disk') place) name"
  have days: "?e' = Some e" if "valid_days (retentionDays opts) = Some 0"
    using swept by (cases rule: sweepStateDir_cases) (use that entry in auto)
  have places: "?e' = Some e" if "place \<notin> set PLACES"
    using swept_thinned(2) [OF swept that] entry folder_at_cong by metis
  have "?e' = Some e \<or> verdict_of place f (sweep_cutoff opts now) name (Some e) = Remove
      \<and> removed_by (removal f place name) (Some e) ?e'"
    using swept_thinned(1) [OF swept, of place] entry unfolding thinned_def by metis
  then have changed: "?e' = Some e \<or> valid_days (retentionDays opts) \<noteq> Some 0 \<and>
      expired f (sweep_cutoff opts now) place name e \<and> removed_by (removal f place name) (Some e) ?e'"
    using days places verdict_expired by blast
  moreover have "?e' = Some e" if "place = ''jobs'' \<and> running_job e \<or>
     place = ''journal'' \<and> open_journal e \<and> \<not> stat_fails f [''journal'', name, ''meta.json'']"
    using changed needed_not_expired [of e] that by (auto simp: expired_def)
  ultimately show ?thesis unfolding removed_by_def by simp
qed

definition sample_id :: string where
  "sample_id = ''00000000-0000-4000-8000-000000000000''"

definition sample_job :: fs_entry where
  "sample_job = FileE 5 40 (Some (JObj [(''status'', JStr ''running''), (''updatedAt'', JNum (Fin 5))]))"

definition sample_disk :: disk where
  "sample_disk = ([(''jobs'', DirE 0 [(sample_id @ JSON_SUFFIX, sample_job), (''notes.txt'', FileE 1 2 None)]),
     (''sessions'', DirE 0 [(sample_id @ JSON_SUFFIX, FileE 7 30 (Some (JObj [])))])], [])"

definition sample_sweep :: SweepOptions where
  "sample_sweep = \<lparr>stateDir = JStr ''/state'', retentionDays = JNum (Fin 1), maxEntries = JUndef\<rparr>"

definition no_faults :: faults where
  "no_faults = \<lparr>list_fails = (\<lambda>_. False), stat_fails = (\<lambda>_. False),
     read_fails = (\<lambda>_. False), removal = (\<lambda>_ _. Removed)\<rparr>"

lemma no_faults_simps [simp]: "kindOf no_faults path e = e" "\<not> stat_fails no_faults path" "\<not> list_fails no_faults p"
  by (simp_all add: kindOf_def no_faults_def)

lemma sample_ids: "SESSION_ID sample_id" "recordId (sample_id @ JSON_SUFFIX) = Some sample_id"
proof -
  show "SESSION_ID sample_id"
    unfolding SESSION_ID_def sample_id_def by code_simp
  then show "recordId (sample_id @ JSON_SUFFIX) = Some sample_id" by (simp add: recordId_iff)
qed

lemma sample_options: "stateDir sample_sweep = JStr ''/state''" "valid_days (retentionDays sample_sweep) = Some 1"
  "valid_max (maxEntries sample_sweep) = Some 5000" "js_trim ''/state'' \<noteq> []"
  by (simp_all add: sample_sweep_def valid_days_def valid_max_def finite_number_def DEFAULT_MAX_ENTRIES_def js_trim_def is_ws_def)

lemma sample_swept: "\<exists>res disk'. sweepStateDir sample_sweep 100000000 no_faults sample_disk = Inr (res, disk')"
  by (simp add: sweepStateDir_def sample_options Let_def)

lemma sample_entry: "jm_get (folder_at (fst sample_disk) ''jobs'') (sample_id @ JSON_SUFFIX) = Some sample_job"
  by (simp add: sample_disk_def folder_at_def)

theorem sweep_keeps_needed_witness:
  "\<exists>res disk'. sweepStateDir sample_sweep 100000000 no_faults sample_disk = Inr (res, disk') \<and>
    jm_get (folder_at (fst disk') ''jobs'') (sample_id @ JSON_SUFFIX) = Some sample_job"
proof -
  obtain res disk' where s: "sweepStateDir sample_sweep 100000000 no_faults sample_disk = Inr (res, disk')"
    using sample_swept by blast
  have "running_job sample_job" by (simp add: running_job_def sample_job_def js_key_def obj_get_def)
  with sweep_keeps_needed [OF s sample_entry] s show ?thesis by blast
qed

subsection \<open>Every stale entry goes within one cycle of sweeps\<close>

lemma age_verdict_mono: "c0 \<le> c \<Longrightarrow> age_verdict c0 t = Remove \<Longrightarrow> age_verdict c t = Remove"
  by (auto simp: age_verdict_def split: if_splits)

lemma verdict_mono:
  assumes "c0 \<le> c" "verdict_of place f c0 name e = Remove"
  shows "verdict_of place f c name e = Remove"
proof -
  have "session_verdict f c0 name e = Remove \<Longrightarrow> session_verdict f c name e = Remove"
    using assms(1) by (auto simp: session_verdict_def split: option.splits fs_entry.splits if_splits)
  moreover have "job_verdict f c0 name e = Remove \<Longrightarrow> job_verdict f c name e = Remove"
    using assms(1) by (auto simp: job_verdict_def Let_def split: option.splits fs_entry.splits js.splits if_splits)
  moreover have "journal_verdict f c0 name e = Remove \<Longrightarrow> journal_verdict f c name e = Remove"
    using age_verdict_mono [OF assms(1)]
    by (auto simp: journal_verdict_def split: option.splits fs_entry.splits if_splits)
  ultimately show ?thesis using assms(2) by (auto simp: verdict_of_def split: if_splits)
qed

lemma verdict_None: "verdict_of place f c name None \<noteq> Remove"
  by (simp add: kindOf_def verdict_of_def job_verdict_def journal_verdict_def session_verdict_def)

text \<open>Nothing below a folder fails.\<close>

definition sound_place :: "faults \<Rightarrow> string \<Rightarrow> bool" where
  "sound_place f place \<longleftrightarrow> \<not> list_fails f place \<and> \<not> stat_fails f [place] \<and> (\<forall>name. removal f place name = Removed)"

definition stale_left :: "faults \<Rightarrow> real \<Rightarrow> string \<Rightarrow> folder \<Rightarrow> string set" where
  "stale_left f c place t = {name. verdict_of place f c name (jm_get (folder_at t place) name) = Remove}"

lemma stale_left_thinned:
  assumes "thinned f c' place t t'" "sound_place f place"
  shows "stale_left f c place t' \<subseteq> stale_left f c place t"
proof
  fix name assume "name \<in> stale_left f c place t'"
  then have v: "verdict_of place f c name (jm_get (folder_at t' place) name) = Remove" by (simp add: stale_left_def)
  then have "jm_get (folder_at t' place) name \<noteq> None" using verdict_None [of place f c name] by metis
  then have "jm_get (folder_at t' place) name = jm_get (folder_at t place) name"
    using assms unfolding thinned_def removed_by_def sound_place_def by metis
  with v show "name \<in> stale_left f c place t" by (simp add: stale_left_def)
qed

lemma stale_left_names: "stale_left f c place t \<subseteq> set (map fst (folder_at t place))"
proof
  fix name assume "name \<in> stale_left f c place t"
  then have "verdict_of place f c name (jm_get (folder_at t place) name) = Remove" by (simp add: stale_left_def)
  then have "jm_get (folder_at t place) name \<noteq> None" using verdict_None [of place f c name] by metis
  then show "name \<in> set (map fst (folder_at t place))" by (simp add: map_of_eq_None_iff)
qed

lemma sweep_entries_clear:
  assumes "c0 \<le> c" and sound: "sound_place f place"
  shows "stale_left f c0 place (tree (foldl (sweep_entry f c place) w names)) \<subseteq> stale_left f c0 place (tree w) - set names"
proof (induction names arbitrary: w)
  case (Cons n names)
  let ?w = "sweep_entry f c place w n"
  have sub: "stale_left f c0 place (tree ?w) \<subseteq> stale_left f c0 place (tree w)"
    by (rule stale_left_thinned [OF sweep_entry_facts(1) sound])
  have "n \<notin> stale_left f c0 place (tree ?w)"
  proof
    assume n: "n \<in> stale_left f c0 place (tree ?w)"
    with sub have "verdict_of place f c0 n (jm_get (folder_at (tree w) place) n) = Remove"
      by (auto simp: stale_left_def)
    from sweep_entry_facts(4) [OF _ verdict_mono [OF assms(1) this]] sound n
    show False using verdict_None by (simp add: stale_left_def sound_place_def)
  qed
  with sub Cons.IH [of ?w] show ?case by auto
qed simp

definition handle_of :: "string \<Rightarrow> walk \<Rightarrow> string list" where
  "handle_of place w = (case jm_get (scans w) place of Some rest \<Rightarrow> rest
     | None \<Rightarrow> map fst (folder_at (tree w) place))"

text \<open>After \<open>k\<close> sweeps of a folder that had \<open>n\<close> entries.\<close>

definition swept :: "faults \<Rightarrow> real \<Rightarrow> string \<Rightarrow> nat \<Rightarrow> nat \<Rightarrow> nat \<Rightarrow> walk \<Rightarrow> bool" where
  "swept f c place cap n k w = (stale_left f c place (tree w) = {} \<or>
     stale_left f c place (tree w) \<subseteq> set (handle_of place w) \<and> length (handle_of place w) + k * cap \<le> n)"

lemma sweep_place_swept:
  assumes inv: "swept f c0 place cap n k w" and c: "c0 \<le> c"
    and ok: "sound_place f place"
  shows "swept f c0 place cap n (k + 1) (sweep_place f c cap place w)"
proof (cases "stale_left f c0 place (tree w) = {}")
  case True
  with stale_left_thinned [OF sweep_place_facts [THEN conjunct1] ok] show ?thesis unfolding swept_def by blast
next
  case False
  then have "folder_at (tree w) place \<noteq> []" using stale_left_names [of f c0 place "tree w"] by auto
  then obtain m entries where dir: "jm_get (tree w) place = Some (DirE m entries)"
    by (auto simp: folder_at_def split: option.splits fs_entry.splits)
  then have at: "folder_at (tree w) place = entries" by (simp add: folder_at_def)
  let ?h = "handle_of place w"
  from inv False have sub: "stale_left f c0 place (tree w) \<subseteq> set ?h" and len: "length ?h + k * cap \<le> n"
    by (auto simp: swept_def)
  have handle: "(case jm_get (scans w) place of Some rest \<Rightarrow> rest | None \<Rightarrow> map fst entries) = ?h"
    by (simp add: handle_of_def at cong: option.case_cong)
  show ?thesis
  proof (cases "length ?h < cap")
    case True
    then have "sweep_place f c cap place w = foldl (sweep_entry f c place) (closeScan place w) ?h"
      by (simp add: sweep_place_def dir listNames_def handle Let_def kindOf_def ok [unfolded sound_place_def])
    with sweep_entries_clear [OF c ok, of "closeScan place w" ?h] sub show ?thesis
      unfolding swept_def by auto
  next
    case False
    let ?w = "w\<lparr>scans := jm_set place (drop cap ?h) (scans w)\<rparr>"
    have step: "sweep_place f c cap place w = foldl (sweep_entry f c place) ?w (take cap ?h)"
      using False by (simp add: sweep_place_def dir listNames_def handle Let_def kindOf_def ok [unfolded sound_place_def])
    have "stale_left f c0 place (tree (sweep_place f c cap place w)) \<subseteq> set ?h - set (take cap ?h)"
      using sweep_entries_clear [OF c ok, of ?w "take cap ?h"] sub unfolding step by auto
    also have "\<dots> \<subseteq> set (drop cap ?h)" by (metis Diff_subset_conv append_take_drop_id set_append subset_refl)
    finally have "stale_left f c0 place (tree (sweep_place f c cap place w)) \<subseteq> set (drop cap ?h)" .
    moreover have "handle_of place (sweep_place f c cap place w) = drop cap ?h"
      using sweep_entries_facts [of f c place ?w "take cap ?h"] by (simp add: step handle_of_def update_conv')
    moreover have "length (drop cap ?h) + (k + 1) * cap \<le> n" using False len by simp
    ultimately show ?thesis unfolding swept_def by simp
  qed
qed

lemma swept_other:
  assumes "jm_get (tree w') place = jm_get (tree w) place" and "jm_get (scans w') place = jm_get (scans w) place"
  shows "swept f c place cap n k w' = swept f c place cap n k w"
  using folder_at_cong [OF assms(1)] assms(2)
  by (cases "jm_get (scans w) place") (simp_all add: swept_def stale_left_def handle_of_def)

lemma sweep_all_swept:
  assumes inv: "swept f c0 place cap n k w" and c: "c0 \<le> c" and place: "place \<in> set PLACES"
    and ok: "sound_place f place"
  shows "swept f c0 place cap n (k + 1) (sweep_all f c cap w)"
proof -
  have other: "swept f c0 place cap n j (sweep_place f c cap p v) = swept f c0 place cap n j v" if "p \<noteq> place" for p v j
    using sweep_place_facts [of f c p v cap place] that by (intro swept_other) auto
  have own: "swept f c0 place cap n j v \<Longrightarrow> swept f c0 place cap n (j + 1) (sweep_place f c cap place v)" for j v
    by (rule sweep_place_swept [OF _ c ok])
  from place consider "place = ''jobs''" | "place = ''journal''" | "place = ''sessions''" by (auto simp: PLACES_def)
  then show ?thesis
    unfolding sweep_all_def sweepJobs_def sweepJournals_def sweepSessions_def
    by cases (use inv other own in auto)
qed

definition sweeps :: "SweepOptions \<Rightarrow> faults \<Rightarrow> disk \<Rightarrow> real list \<Rightarrow> disk" where
  "sweeps opts f = foldl (\<lambda>d now. case sweepStateDir opts now f d of Inr (_, d') \<Rightarrow> d' | Inl _ \<Rightarrow> d)"

definition disk_walk :: "disk \<Rightarrow> walk" where
  "disk_walk d = \<lparr>tree = fst d, scans = snd d, walk_tally = zero_tally\<rparr>"

lemma sweeps_swept:
  assumes opts: "stateDir opts = JStr path" "js_trim path \<noteq> []" "valid_days (retentionDays opts) = Some days" "0 < days"
      "valid_max (maxEntries opts) = Some cap"
    and place: "place \<in> set PLACES"
    and ok: "sound_place f place"
  shows "(\<forall>now \<in> set nows. c0 \<le> now - days * DAY_MS) \<Longrightarrow> swept f c0 place cap n k (disk_walk d) \<Longrightarrow>
    swept f c0 place cap n (k + length nows) (disk_walk (sweeps opts f d nows))"
proof (induction nows arbitrary: d k)
  case (Cons now nows)
  let ?w = "sweep_all f (now - days * DAY_MS) cap (disk_walk d)"
  have "sweepStateDir opts now f d = Inr (\<lparr>sweep_tally = walk_tally ?w, disabled = False\<rparr>, (tree ?w, scans ?w))"
    using opts by (simp add: sweepStateDir_def sweep_all_def disk_walk_def Let_def)
  moreover have "swept f c0 place cap n (k + 1) ?w"
    using Cons.prems by (intro sweep_all_swept place ok) auto
  then have "swept f c0 place cap n (k + 1) (disk_walk (tree ?w, scans ?w))"
    using swept_other [of "disk_walk (tree ?w, scans ?w)" place ?w] by (simp add: disk_walk_def)
  ultimately show ?case using Cons.IH [of "k + 1" "(tree ?w, scans ?w)"] Cons.prems(1) by (simp add: sweeps_def)
qed (simp add: sweeps_def)

text \<open>C39. A folder is swept completely, in slices: when a folder of fewer than
  \<open>length nows * cap\<close> entries has no open scan and no call on it fails, the sweeps at the
  instants \<open>nows\<close> remove every entry that was stale before the first of them.\<close>
theorem stale_entries_removed:
  assumes opts: "stateDir opts = JStr path" "js_trim path \<noteq> []" "valid_days (retentionDays opts) = Some days" "0 < days"
      "valid_max (maxEntries opts) = Some cap"
    and place: "place \<in> set PLACES" "jm_get (snd disk) place = None"
    and ok: "sound_place f place"
    and time: "\<forall>now \<in> set nows. since \<le> now" "length (folder_at (fst disk) place) < length nows * cap"
    and stale: "verdict_of place f (since - days * DAY_MS) name (jm_get (folder_at (fst disk) place) name) = Remove"
  shows "jm_get (folder_at (fst (sweeps opts f disk nows)) place) name = None"
proof -
  let ?c = "since - days * DAY_MS" and ?n = "length (folder_at (fst disk) place)" and ?d = "sweeps opts f disk nows"
  have "swept f ?c place cap ?n 0 (disk_walk disk)"
    using stale_left_names [of f ?c place "fst disk"] place(2) by (simp add: swept_def handle_of_def disk_walk_def)
  moreover have "\<forall>now \<in> set nows. ?c \<le> now - days * DAY_MS" using time(1) by simp
  ultimately have "swept f ?c place cap ?n (0 + length nows) (disk_walk ?d)"
    using sweeps_swept [OF opts place(1) ok] by blast
  then have "stale_left f ?c place (fst ?d) = {}" using time(2) by (simp add: swept_def disk_walk_def)
  moreover have "jm_get (folder_at (fst ?d) place) name = jm_get (folder_at (fst disk) place) name
      \<or> jm_get (folder_at (fst ?d) place) name = None"
  proof -
    have "jm_get (folder_at (fst (sweeps opts f d ns)) place) name = jm_get (folder_at (fst d) place) name
      \<or> jm_get (folder_at (fst (sweeps opts f d ns)) place) name = None" for d ns
    proof (induction ns arbitrary: d)
      case (Cons now ns)
      let ?d = "case sweepStateDir opts now f d of Inr (_, d') \<Rightarrow> d' | Inl _ \<Rightarrow> d"
      have "jm_get (folder_at (fst ?d) place) name = jm_get (folder_at (fst d) place) name
          \<or> jm_get (folder_at (fst ?d) place) name = None"
      proof (cases "sweepStateDir opts now f d")
        case (Inr p)
        then obtain res d' where r: "sweepStateDir opts now f d = Inr (res, d')" by (cases p) auto
        from swept_thinned(1) [OF r, of place] r show ?thesis using ok unfolding thinned_def removed_by_def sound_place_def by simp metis
      qed simp
      with Cons.IH [of ?d] show ?case by (auto simp: sweeps_def)
    qed (simp add: sweeps_def)
    then show ?thesis .
  qed
  ultimately show ?thesis using stale unfolding stale_left_def by (metis (mono_tags, lifting) empty_Collect_eq)
qed

theorem stale_entries_removed_witness:
  "jm_get (folder_at (fst (sweeps sample_sweep no_faults sample_disk [100000000])) ''sessions'')
    (sample_id @ JSON_SUFFIX) = None"
proof (rule stale_entries_removed [OF sample_options(1,4,2) _ sample_options(3), where since = 100000000])
  show "verdict_of ''sessions'' no_faults (100000000 - 1 * DAY_MS) (sample_id @ JSON_SUFFIX)
      (jm_get (folder_at (fst sample_disk) ''sessions'') (sample_id @ JSON_SUFFIX)) = Remove"
    by (simp add: verdict_of_def session_verdict_def sample_ids sample_disk_def folder_at_def DAY_MS_def js_trunc_def)
qed (simp_all add: PLACES_def sample_disk_def no_faults_def folder_at_def sound_place_def)

end
