(* ===== verification/Session_List.thy ===== *)
theory Session_List
  imports Retention Thought_Graph
begin

text \<open>
  The session listing of \<^verbatim>\<open>engine/sessions.ts\<close> over the same state directory the sweep
  thins. The three folders are real directories here; \<open>reach place\<close> is how many entries of a
  folder \<^verbatim>\<open>readdir\<close> delivers before it fails, if it fails. The ellipsis a cut goal ends
  with (U+2026) lies outside the modelled code units and is the argument \<open>dots\<close>; a surrogate pair
  cannot occur for the same reason.
\<close>

subsection \<open>Summaries\<close>

datatype SessionStatus = Running | Planned | Failed | Invalid_plan | Skipped_plan
datatype SessionMode = Server | Client

record SessionSummary =
  sessionId :: string
  session_status :: SessionStatus
  session_mode :: SessionMode
  updatedAt :: int
  session_goal :: string
  nodeCount :: nat
  hasGraph :: bool

definition GOAL_MAX_CHARS :: nat where "GOAL_MAX_CHARS = 120"
definition DEFAULT_LIMIT :: nat where "DEFAULT_LIMIT = 5"
definition MAX_LIMIT :: nat where "MAX_LIMIT = 20"
definition MAX_DIR_ENTRIES :: nat where "MAX_DIR_ENTRIES = 5000"
definition MAX_CANDIDATES :: nat where "MAX_CANDIDATES = 200"
definition GOAL_SCAN_CHARS :: nat where "GOAL_SCAN_CHARS = 2048"

definition JOB_STATUSES :: "(string \<times> SessionStatus) list" where
  "JOB_STATUSES = [(''running'', Running), (''planned'', Planned), (''failed'', Failed),
     (''invalid'', Invalid_plan), (''skipped'', Skipped_plan)]"

record Sources =
  src_id :: string
  jobMtime :: "int option"
  metaMtime :: "int option"
  recordMtime :: "int option"

record RecordView =
  graphGoal :: string
  record_original :: string
  record_nodeCount :: nat
  record_hasGraph :: bool

definition clampLimit :: "js \<Rightarrow> nat" where
  "clampLimit v = (case finite_number v of
      None \<Rightarrow> DEFAULT_LIMIT
    | Some q \<Rightarrow> nat (min (int MAX_LIMIT) (max 1 (js_trunc q))))"

subsection \<open>A goal on one line\<close>

fun split_class :: "(char \<Rightarrow> bool) \<Rightarrow> string \<Rightarrow> string list" where
  "split_class p [] = [[]]"
| "split_class p (x # xs) = (if p x then [] # split_class p xs
     else (case split_class p xs of [] \<Rightarrow> [[x]] | h # t \<Rightarrow> (x # h) # t))"

definition line_break :: "char \<Rightarrow> bool" where
  "line_break c = (code_of c = 10 \<or> code_of c = 13)"

definition control_char :: "char \<Rightarrow> bool" where
  "control_char c = (code_of c < 32 \<or> 127 \<le> code_of c \<and> code_of c \<le> 159)"

text \<open>\<^verbatim>\<open>replace(/\s+/g, " ")\<close>; the flag says that the previous character was white space.\<close>

fun squeeze :: "bool \<Rightarrow> string \<Rightarrow> string" where
  "squeeze w [] = []"
| "squeeze w (c # cs) = (if is_ws c then (if w then squeeze True cs else CHR '' '' # squeeze True cs)
     else c # squeeze False cs)"

definition clean_line :: "string \<Rightarrow> string" where
  "clean_line l = js_trim (squeeze False (map (\<lambda>c. if control_char c then CHR '' '' else c) l))"

definition trimEnd :: "string \<Rightarrow> string" where
  "trimEnd s = rev (dropWhile is_ws (rev s))"

definition oneLine :: "string \<Rightarrow> string \<Rightarrow> string" where
  "oneLine dots v =
     (let text = first_nonempty (map clean_line (split_class line_break (take GOAL_SCAN_CHARS v)))
      in if length text \<le> GOAL_MAX_CHARS then text
         else trimEnd (take (GOAL_MAX_CHARS - 1) text) @ dots)"

subsection \<open>Scanning the three folders\<close>

definition listed_names :: "(string \<Rightarrow> nat) \<Rightarrow> folder \<Rightarrow> string \<Rightarrow> string list" where
  "listed_names reach t place = take (min MAX_DIR_ENTRIES (reach place)) (map fst (folder_at t place))"

definition fileMtime :: "fs_entry option \<Rightarrow> int option" where
  "fileMtime e = (case e of
      Some (FileE m sz body) \<Rightarrow> if MAX_FILE_BYTES < sz then None else Some (js_trunc m) | _ \<Rightarrow> None)"

definition meta_entry :: "fs_entry option \<Rightarrow> fs_entry option" where
  "meta_entry e = (case e of Some (DirE m files) \<Rightarrow> jm_get files ''meta.json'' | _ \<Rightarrow> None)"

definition entry_body :: "fs_entry option \<Rightarrow> js" where
  "entry_body e = (case e of Some (FileE m sz (Some v)) \<Rightarrow> v | _ \<Rightarrow> JUndef)"

definition job_entry :: "folder \<Rightarrow> string \<Rightarrow> fs_entry option" where
  "job_entry t i = jm_get (folder_at t ''jobs'') (i @ JSON_SUFFIX)"

definition journal_meta :: "folder \<Rightarrow> string \<Rightarrow> fs_entry option" where
  "journal_meta t i = meta_entry (jm_get (folder_at t ''journal'') i)"

definition record_entry :: "folder \<Rightarrow> string \<Rightarrow> fs_entry option" where
  "record_entry t i = jm_get (folder_at t ''sessions'') (i @ JSON_SUFFIX)"

type_synonym found = "(string, Sources) jmap"

text \<open>\<^verbatim>\<open>entry(id)\<close>: the sources of an id, created on first use; then one field is set.\<close>

definition source_entry :: "found \<Rightarrow> string \<Rightarrow> Sources" where
  "source_entry found i = (case jm_get found i of Some s \<Rightarrow> s
     | None \<Rightarrow> \<lparr>src_id = i, jobMtime = None, metaMtime = None, recordMtime = None\<rparr>)"

definition note_name :: "(string \<Rightarrow> string option) \<Rightarrow> (string \<Rightarrow> int option) \<Rightarrow> (int \<Rightarrow> Sources \<Rightarrow> Sources)
    \<Rightarrow> found \<Rightarrow> string \<Rightarrow> found" where
  "note_name key mtime set_field found name = (case key name of
      None \<Rightarrow> found
    | Some i \<Rightarrow> (case mtime i of
        None \<Rightarrow> found
      | Some m \<Rightarrow> jm_set i (set_field m (source_entry found i)) found))"

definition set_job :: "int \<Rightarrow> Sources \<Rightarrow> Sources" where "set_job m s = s\<lparr>jobMtime := Some m\<rparr>"
definition set_meta :: "int \<Rightarrow> Sources \<Rightarrow> Sources" where "set_meta m s = s\<lparr>metaMtime := Some m\<rparr>"
definition set_record :: "int \<Rightarrow> Sources \<Rightarrow> Sources" where "set_record m s = s\<lparr>recordMtime := Some m\<rparr>"

definition scan :: "(string \<Rightarrow> nat) \<Rightarrow> folder \<Rightarrow> Sources list" where
  "scan reach t =
     (let found = foldl (note_name recordId (\<lambda>i. fileMtime (job_entry t i)) set_job) []
            (listed_names reach t ''jobs'');
          found = foldl (note_name (\<lambda>n. if SESSION_ID n then Some n else None)
            (\<lambda>i. fileMtime (journal_meta t i)) set_meta) found (listed_names reach t ''journal'');
          found = foldl (note_name recordId (\<lambda>i. fileMtime (record_entry t i)) set_record) found
            (listed_names reach t ''sessions'')
      in map snd found)"

subsection \<open>One session\<close>

definition js_slice :: "js \<Rightarrow> string" where
  "js_slice v = (case v of JStr s \<Rightarrow> take GOAL_SCAN_CHARS s | _ \<Rightarrow> [])"

text \<open>\<^verbatim>\<open>isFallbackGraph\<close> on an unchecked graph value.\<close>

definition fallback_value :: "js \<Rightarrow> js list \<Rightarrow> bool" where
  "fallback_value g nodes = (js_key g ''goal'' = JStr (goal FALLBACK_GRAPH) \<and>
     length nodes = length (graph_nodes FALLBACK_GRAPH) \<and>
     list_all2 (\<lambda>node item. js_key item ''id'' = JStr (node_id node) \<and>
       js_key item ''kind'' = JStr (kind_name (node_kind node)) \<and>
       js_key item ''question'' = JStr (question node)) (graph_nodes FALLBACK_GRAPH) nodes)"

definition readRecord :: "js \<Rightarrow> RecordView option" where
  "readRecord raw =
     (if \<not> isObject raw \<or> \<not> isObject (js_key raw ''result'') then None
      else let view = \<lparr>graphGoal = [], record_original = js_slice (js_key (js_key raw ''result'') ''original''),
                       record_nodeCount = 0, record_hasGraph = False\<rparr>;
               g = js_key raw ''graph''
      in Some (case (js_key g ''goal'', js_key g ''nodes'') of
           (JStr gl, JArr nodes) \<Rightarrow>
             if isObject g \<and> list_all isObject nodes \<and> \<not> fallback_value g nodes
             then view\<lparr>graphGoal := take GOAL_SCAN_CHARS gl, record_hasGraph := nodes \<noteq> [],
                        record_nodeCount := length nodes\<rparr>
             else view
         | _ \<Rightarrow> view))"

definition clientStatus :: "js \<Rightarrow> SessionStatus" where
  "clientStatus v = (if v = JStr ''planned'' then Planned else if v = JStr ''invalid'' then Invalid_plan
     else if v = JStr ''skipped'' then Skipped_plan else Running)"

text \<open>The status a job file supplies, and the one a journal's meta file supplies, with their times.\<close>

definition job_state :: "js \<Rightarrow> (SessionStatus \<times> int) option" where
  "job_state job = (case (js_key job ''status'', finite_number (js_key job ''updatedAt'')) of
      (JStr s, Some q) \<Rightarrow> (case map_of JOB_STATUSES s of Some st \<Rightarrow> Some (st, js_trunc q) | None \<Rightarrow> None)
    | _ \<Rightarrow> None)"

definition meta_state :: "int \<Rightarrow> js \<Rightarrow> (SessionStatus \<times> int) option" where
  "meta_state mtime meta = (if \<not> isObject meta then None
     else Some (clientStatus (js_key meta ''status''),
       case finite_number (js_key meta ''updatedAt'') of Some q \<Rightarrow> js_trunc q | None \<Rightarrow> mtime))"

definition session_state :: "folder \<Rightarrow> Sources \<Rightarrow> (SessionMode \<times> SessionStatus \<times> int \<times> string) option" where
  "session_state t s =
     (case (if jobMtime s = None then None else job_state (entry_body (job_entry t (src_id s)))) of
        Some (st, time) \<Rightarrow> Some (Server, st, time, [])
      | None \<Rightarrow>
          (case metaMtime s of
             None \<Rightarrow> None
           | Some m \<Rightarrow>
              let meta = entry_body (journal_meta t (src_id s))
              in (case meta_state m meta of
                    Some (st, time) \<Rightarrow> Some (Client, st, time, js_slice (js_key meta ''original''))
                  | None \<Rightarrow> None)))"

definition summarize :: "string \<Rightarrow> folder \<Rightarrow> Sources \<Rightarrow> SessionSummary option" where
  "summarize dots t s =
     (let view = (if recordMtime s = None then None else readRecord (entry_body (record_entry t (src_id s))))
      in case session_state t s of
           None \<Rightarrow> None
         | Some (mode, st, time, metaOriginal) \<Rightarrow> Some \<lparr>
             sessionId = src_id s, session_status = st, session_mode = mode, updatedAt = time,
             session_goal = first_nonempty [
               oneLine dots (case view of Some v \<Rightarrow> graphGoal v | None \<Rightarrow> []),
               oneLine dots (case view of Some v \<Rightarrow> record_original v | None \<Rightarrow> []),
               oneLine dots metaOriginal],
             nodeCount = (case view of Some v \<Rightarrow> record_nodeCount v | None \<Rightarrow> 0),
             hasGraph = (case view of Some v \<Rightarrow> record_hasGraph v | None \<Rightarrow> False)\<rparr>)"

subsection \<open>The listing\<close>

fun str_less :: "string \<Rightarrow> string \<Rightarrow> bool" where
  "str_less [] b = (b \<noteq> [])"
| "str_less (x # xs) [] = False"
| "str_less (x # xs) (y # ys) = (code_of x < code_of y \<or> code_of x = code_of y \<and> str_less xs ys)"

text \<open>\<^verbatim>\<open>byRecency(a, b) <= 0\<close> on pairs of a time and an id.\<close>

definition recent :: "int \<times> string \<Rightarrow> int \<times> string \<Rightarrow> bool" where
  "recent a b = (fst b < fst a \<or> fst a = fst b \<and> \<not> str_less (snd b) (snd a))"

text \<open>\<^verbatim>\<open>sort(byRecency)\<close>, stable.\<close>

fun insert_recent :: "('a \<Rightarrow> int \<times> string) \<Rightarrow> 'a \<Rightarrow> 'a list \<Rightarrow> 'a list" where
  "insert_recent key x [] = [x]"
| "insert_recent key x (y # ys) = (if recent (key x) (key y) then x # y # ys else y # insert_recent key x ys)"

primrec sort_recent :: "('a \<Rightarrow> int \<times> string) \<Rightarrow> 'a list \<Rightarrow> 'a list" where
  "sort_recent key [] = []"
| "sort_recent key (x # xs) = insert_recent key x (sort_recent key xs)"

definition mtime_or_zero :: "int option \<Rightarrow> int" where
  "mtime_or_zero m = (case m of Some v \<Rightarrow> v | None \<Rightarrow> 0)"

definition source_time :: "Sources \<Rightarrow> int" where
  "source_time s = max (mtime_or_zero (jobMtime s)) (max (mtime_or_zero (metaMtime s)) (mtime_or_zero (recordMtime s)))"

definition newestSources :: "(string \<Rightarrow> nat) \<Rightarrow> folder \<Rightarrow> nat \<Rightarrow> Sources list" where
  "newestSources reach t candidates = take candidates (sort_recent (\<lambda>s. (source_time s, src_id s)) (scan reach t))"

definition collect :: "(string \<Rightarrow> nat) \<Rightarrow> string \<Rightarrow> folder \<Rightarrow> nat \<Rightarrow> SessionSummary list" where
  "collect reach dots t candidates = sort_recent (\<lambda>s. (updatedAt s, sessionId s))
     (List.map_filter (summarize dots t) (newestSources reach t candidates))"

definition listSessions :: "(string \<Rightarrow> nat) \<Rightarrow> string \<Rightarrow> folder \<Rightarrow> js \<Rightarrow> SessionSummary list" where
  "listSessions reach dots t limit =
     (let n = clampLimit limit in take n (collect reach dots t (min MAX_CANDIDATES (n * 4))))"

definition newestPlannedSessionId :: "(string \<Rightarrow> nat) \<Rightarrow> string \<Rightarrow> folder \<Rightarrow> string option" where
  "newestPlannedSessionId reach dots t =
     (case List.find (\<lambda>s. session_status s = Planned)
        (List.map_filter (summarize dots t) (newestSources reach t MAX_CANDIDATES)) of
        Some s \<Rightarrow> Some (sessionId s) | None \<Rightarrow> None)"

subsection \<open>The listing is ordered and bounded\<close>

lemma code_inj: "code_of a = code_of b \<longleftrightarrow> a = b"
  by (simp add: code_of_def)

lemma str_less_irrefl: "\<not> str_less a a"
  by (induction a) auto

lemma str_less_trans: "str_less a b \<Longrightarrow> str_less b c \<Longrightarrow> str_less a c"
proof (induction a b arbitrary: c rule: str_less.induct)
  case (3 x xs y ys)
  then show ?case by (cases c) (auto simp: code_inj)
qed (auto elim: str_less.elims)

lemma str_less_total: "a \<noteq> b \<Longrightarrow> str_less a b \<or> str_less b a"
proof (induction a b rule: str_less.induct)
  case (3 x xs y ys)
  then show ?case using code_inj [of x y] by (cases "x = y") auto
qed auto

lemma recent_total: "recent a b \<or> recent b a"
  using str_less_trans [of "snd a" "snd b" "snd a"] str_less_irrefl [of "snd a"] by (auto simp: recent_def)

lemma recent_trans: "recent a b \<Longrightarrow> recent b c \<Longrightarrow> recent a c"
  unfolding recent_def by (metis less_trans str_less_total str_less_trans)

lemma mset_insert_recent: "mset (insert_recent key x ys) = add_mset x (mset ys)"
  by (induction ys) auto

lemma mset_sort_recent: "mset (sort_recent key xs) = mset xs"
  by (induction xs) (simp_all add: mset_insert_recent)

lemma set_sort_recent: "set (sort_recent key xs) = set xs"
  by (metis mset_sort_recent set_mset_mset)

lemma sorted_insert_recent:
  "sorted_wrt (\<lambda>a b. recent (key a) (key b)) ys \<Longrightarrow>
    sorted_wrt (\<lambda>a b. recent (key a) (key b)) (insert_recent key x ys)"
proof (induction ys)
  case (Cons y ys)
  have "set (insert_recent key x ys) = insert x (set ys)"
    by (metis mset_insert_recent set_mset_add_mset_insert set_mset_mset)
  with Cons show ?case
    using recent_trans [of "key x" "key y"] recent_total [of "key x" "key y"] by auto
qed simp

lemma sorted_sort_recent: "sorted_wrt (\<lambda>a b. recent (key a) (key b)) (sort_recent key xs)"
  by (induction xs) (simp_all add: sorted_insert_recent)

text \<open>What the scan gathers about one id.\<close>

lemma note_names_get:
  assumes idem: "\<And>m s. sf m (sf m s) = sf m s"
  shows "jm_get (foldl (note_name key mt sf) found names) i =
    (if \<exists>n \<in> set names. key n = Some i
     then (case mt i of None \<Rightarrow> jm_get found i | Some m \<Rightarrow> Some (sf m (source_entry found i)))
     else jm_get found i)"
proof (induction names arbitrary: found)
  case (Cons n names)
  show ?case
  proof (cases "key n = Some i")
    case True
    then show ?thesis
      using Cons.IH [of "note_name key mt sf found n"]
      by (cases "mt i") (auto simp: note_name_def update_conv' source_entry_def idem)
  next
    case False
    then have "jm_get (note_name key mt sf found n) i = jm_get found i"
      by (auto simp: note_name_def update_conv' split: option.splits)
    then show ?thesis using Cons.IH [of "note_name key mt sf found n"] False
      by (auto simp: source_entry_def split: option.splits)
  qed
qed simp

definition found_ok :: "found \<Rightarrow> bool" where
  "found_ok found = (jm_wf found \<and> jm_all (\<lambda>i s. src_id s = i) found)"

lemma note_names_ok:
  "(\<And>m s. src_id (sf m s) = src_id s) \<Longrightarrow> found_ok found \<Longrightarrow> found_ok (foldl (note_name key mt sf) found names)"
proof (induction names arbitrary: found)
  case (Cons n names)
  have "src_id (source_entry found i) = i" for i
    using Cons.prems(2) by (auto simp: found_ok_def source_entry_def split: option.splits dest: jm_all_get)
  then have "found_ok (note_name key mt sf found n)"
    using Cons.prems by (auto simp: found_ok_def note_name_def intro!: distinct_update jm_all_update split: option.splits)
  with Cons show ?case by simp
qed simp

lemmas set_fields = set_job_def set_meta_def set_record_def

lemma jm_get_values:
  assumes "found_ok found"
  shows "s \<in> set (map snd found) \<longleftrightarrow> jm_get found (src_id s) = Some s"
proof -
  have wf: "jm_wf found" and all: "\<forall>(i, s) \<in> set found. src_id s = i"
    using assms by (auto simp: found_ok_def jm_all_def list_all_iff)
  show ?thesis
  proof
    assume "s \<in> set (map snd found)"
    with all have "(src_id s, s) \<in> set found" by auto
    with wf show "jm_get found (src_id s) = Some s" by simp
  next
    assume "jm_get found (src_id s) = Some s"
    then have "(src_id s, s) \<in> set found" by (rule map_of_SomeD)
    then show "s \<in> set (map snd found)" by force
  qed
qed

lemma distinct_ids: "found_ok found \<Longrightarrow> distinct (map src_id (map snd found))"
proof -
  assume ok: "found_ok found"
  then have eq: "map src_id (map snd found) = map fst found"
    by (auto simp: found_ok_def jm_all_def list_all_iff)
  show ?thesis unfolding eq using ok by (simp add: found_ok_def)
qed

definition scan_map :: "(string \<Rightarrow> nat) \<Rightarrow> folder \<Rightarrow> found" where
  "scan_map reach t =
     foldl (note_name recordId (\<lambda>i. fileMtime (record_entry t i)) set_record)
      (foldl (note_name (\<lambda>n. if SESSION_ID n then Some n else None) (\<lambda>i. fileMtime (journal_meta t i)) set_meta)
        (foldl (note_name recordId (\<lambda>i. fileMtime (job_entry t i)) set_job) [] (listed_names reach t ''jobs''))
        (listed_names reach t ''journal''))
      (listed_names reach t ''sessions'')"

lemma scan_map: "scan reach t = map snd (scan_map reach t)" "found_ok (scan_map reach t)"
proof -
  show "scan reach t = map snd (scan_map reach t)" by (simp add: scan_def scan_map_def Let_def)
  have "found_ok []" by (simp add: found_ok_def)
  then show "found_ok (scan_map reach t)"
    unfolding scan_map_def by (intro note_names_ok) (simp_all add: set_fields)
qed

lemma scan_ids: "s \<in> set (scan reach t) \<Longrightarrow> SESSION_ID (src_id s)"
proof -
  assume "s \<in> set (scan reach t)"
  then have "jm_get (scan_map reach t) (src_id s) \<noteq> None"
    using jm_get_values [OF scan_map(2)] by (simp add: scan_map(1))
  then show ?thesis
    unfolding scan_map_def
    by (auto simp: note_names_get set_fields recordId_iff split: if_splits option.splits)
qed

lemma summarize_id: "summarize dots t s = Some v \<Longrightarrow> sessionId v = src_id s"
  by (auto simp: summarize_def Let_def split: option.splits)

lemma newest_facts:
  "distinct (map src_id (newestSources reach t n))" "set (newestSources reach t n) \<subseteq> set (scan reach t)"
proof -
  have "mset (map src_id (sort_recent key (scan reach t))) = mset (map src_id (scan reach t))" for key
    by (simp add: mset_sort_recent)
  moreover have "distinct (map src_id (scan reach t))" unfolding scan_map(1) by (rule distinct_ids [OF scan_map(2)])
  ultimately have "distinct (map src_id (sort_recent key (scan reach t)))" for key
    by (metis mset_eq_imp_distinct_iff)
  then show "distinct (map src_id (newestSources reach t n))"
    by (simp add: newestSources_def take_map [symmetric] del: take_map)
  show "set (newestSources reach t n) \<subseteq> set (scan reach t)"
    unfolding newestSources_def by (metis set_sort_recent set_take_subset)
qed

lemma distinct_summaries:
  "distinct (map src_id xs) \<Longrightarrow> distinct (map sessionId (List.map_filter (summarize dots t) xs))"
proof (induction xs)
  case (Cons x xs)
  have "set (map sessionId (List.map_filter (summarize dots t) xs)) \<subseteq> src_id ` set xs"
    by (auto simp: List.map_filter_def summarize_id)
  with Cons show ?case by (cases "summarize dots t x") (auto simp: List.map_filter_simps summarize_id)
qed (simp add: List.map_filter_simps)

lemma set_summaries: "set (List.map_filter f xs) = {y. \<exists>x \<in> set xs. f x = Some y}"
  by (induction xs) (auto simp: List.map_filter_simps split: option.splits)

text \<open>The listing holds at most \<open>limit\<close> sessions, 1 to 20 of them, each once, newest first and
  by id among equal times; each is a session id's summary, whose status a well-formed job file
  or a journal's meta file supplies; and if a listed session is planned, the walk for the newest
  planned session finds one.\<close>
theorem session_list_newest_first:
  "length (listSessions reach dots t limit) \<le> clampLimit limit \<and> 1 \<le> clampLimit limit \<and> clampLimit limit \<le> 20 \<and>
    sorted_wrt (\<lambda>a b. updatedAt b < updatedAt a \<or> updatedAt a = updatedAt b \<and> str_less (sessionId a) (sessionId b))
      (listSessions reach dots t limit) \<and>
    (\<forall>v \<in> set (listSessions reach dots t limit). SESSION_ID (sessionId v) \<and>
      (\<exists>s \<in> set (scan reach t). src_id s = sessionId v \<and>
        (\<exists>orig. session_state t s = Some (session_mode v, session_status v, updatedAt v, orig)))) \<and>
    ((\<exists>v \<in> set (listSessions reach dots t limit). session_status v = Planned) \<longrightarrow>
      newestPlannedSessionId reach dots t \<noteq> None)"
proof -
  let ?n = "clampLimit limit"
  let ?c = "min MAX_CANDIDATES (?n * 4)"
  let ?xs = "List.map_filter (summarize dots t) (newestSources reach t ?c)"
  let ?L = "listSessions reach dots t limit"
  have L: "?L = take ?n (sort_recent (\<lambda>s. (updatedAt s, sessionId s)) ?xs)"
    by (simp add: listSessions_def collect_def Let_def)
  have clamp: "1 \<le> ?n \<and> ?n \<le> 20"
    by (auto simp: clampLimit_def MAX_LIMIT_def DEFAULT_LIMIT_def split: option.splits)
  have sub: "set ?L \<subseteq> set ?xs" unfolding L by (metis set_sort_recent set_take_subset)
  have "distinct (map sessionId ?xs)" by (rule distinct_summaries [OF newest_facts(1)])
  moreover have "mset (map sessionId (sort_recent key ?xs)) = mset (map sessionId ?xs)" for key
    by (simp add: mset_sort_recent)
  ultimately have "distinct (map sessionId (sort_recent key ?xs))" for key by (metis mset_eq_imp_distinct_iff)
  then have dist: "distinct (map sessionId ?L)" unfolding L by (simp add: take_map [symmetric] del: take_map)
  have "sorted_wrt (\<lambda>a b. recent (updatedAt a, sessionId a) (updatedAt b, sessionId b)) ?L"
    unfolding L by (rule sorted_wrt_take [OF sorted_sort_recent])
  moreover have "sorted_wrt (\<lambda>a b. sessionId a \<noteq> sessionId b) ?L"
    using dist by (simp add: distinct_map sorted_wrt_iff_nth_less distinct_conv_nth inj_on_def)
  ultimately have "sorted_wrt (\<lambda>a b. updatedAt b < updatedAt a \<or>
      updatedAt a = updatedAt b \<and> str_less (sessionId a) (sessionId b)) ?L"
    unfolding sorted_wrt_iff_nth_less recent_def using str_less_total by fastforce
  moreover have "SESSION_ID (sessionId v) \<and> (\<exists>s \<in> set (scan reach t). src_id s = sessionId v \<and>
        (\<exists>orig. session_state t s = Some (session_mode v, session_status v, updatedAt v, orig)))"
    if "v \<in> set ?L" for v
  proof -
    from that sub obtain s where s: "s \<in> set (newestSources reach t ?c)" "summarize dots t s = Some v"
      by (auto simp: List.map_filter_def)
    then have scan: "s \<in> set (scan reach t)" using newest_facts(2) by blast
    have "\<exists>orig. session_state t s = Some (session_mode v, session_status v, updatedAt v, orig)"
      using s(2) by (auto simp: summarize_def Let_def split: option.splits)
    with scan scan_ids [OF scan] summarize_id [OF s(2)] show ?thesis by metis
  qed
  moreover have "newestPlannedSessionId reach dots t \<noteq> None" if "v \<in> set ?L" "session_status v = Planned" for v
  proof -
    have "set (newestSources reach t ?c) \<subseteq> set (newestSources reach t MAX_CANDIDATES)"
      unfolding newestSources_def by (simp add: set_take_subset_set_take)
    with that(1) sub have "v \<in> set (List.map_filter (summarize dots t) (newestSources reach t MAX_CANDIDATES))"
      unfolding set_summaries by blast
    with that(2) show ?thesis
      by (auto simp: newestPlannedSessionId_def find_None_iff split: option.splits)
  qed
  moreover have "length ?L \<le> ?n" unfolding L by simp
  ultimately show ?thesis using clamp by blast
qed

definition sample_reach :: "string \<Rightarrow> nat" where "sample_reach p = 100"


lemma sample_scan: "scan sample_reach (fst sample_disk) =
  [\<lparr>src_id = sample_id, jobMtime = Some 5, metaMtime = None, recordMtime = Some 7\<rparr>]"
proof -
  have "recordId ''notes.txt'' = None"
    by (simp add: recordId_def strip_suffix_def JSON_SUFFIX_def)
  then show ?thesis
    by (simp add: scan_def listed_names_def sample_reach_def MAX_DIR_ENTRIES_def sample_disk_def folder_at_def
        note_name_def sample_ids(2) job_entry_def record_entry_def fileMtime_def sample_job_def MAX_FILE_BYTES_def
        js_trunc_def source_entry_def set_fields)
qed

lemma sample_state: "session_state (fst sample_disk)
    \<lparr>src_id = sample_id, jobMtime = Some 5, metaMtime = None, recordMtime = Some 7\<rparr> = Some (Server, Running, 5, [])"
  by (simp add: session_state_def job_entry_def sample_disk_def folder_at_def entry_body_def sample_job_def
      job_state_def js_key_def obj_get_def JOB_STATUSES_def finite_number_def js_trunc_def)

lemma sample_listed: "\<exists>v. listSessions sample_reach [] (fst sample_disk) JUndef = [v] \<and> session_status v = Running"
proof -
  obtain v where v: "summarize [] (fst sample_disk)
      \<lparr>src_id = sample_id, jobMtime = Some 5, metaMtime = None, recordMtime = Some 7\<rparr> = Some v"
      "session_status v = Running"
    by (simp add: summarize_def sample_state Let_def)
  then show ?thesis
    by (simp add: listSessions_def collect_def newestSources_def sample_scan clampLimit_def finite_number_def
        DEFAULT_LIMIT_def MAX_CANDIDATES_def List.map_filter_simps)
qed

theorem session_list_newest_first_witness:
  "length (listSessions sample_reach [] (fst sample_disk) JUndef) = 1 \<and>
    list_all (\<lambda>v. SESSION_ID (sessionId v)) (listSessions sample_reach [] (fst sample_disk) JUndef)"
  using session_list_newest_first [of sample_reach "[]" "fst sample_disk" JUndef] sample_listed by (auto simp: list_all_iff)

subsection \<open>The sweep keeps what the listing reports as running\<close>

text \<open>The folders are listed completely.\<close>

definition complete_listing :: "(string \<Rightarrow> nat) \<Rightarrow> folder \<Rightarrow> bool" where
  "complete_listing reach t = list_all (\<lambda>place. length (folder_at t place) \<le> min MAX_DIR_ENTRIES (reach place)) PLACES"

definition expected_sources :: "folder \<Rightarrow> string \<Rightarrow> Sources" where
  "expected_sources t i = \<lparr>src_id = i, jobMtime = fileMtime (job_entry t i),
     metaMtime = fileMtime (journal_meta t i), recordMtime = fileMtime (record_entry t i)\<rparr>"

definition some_source :: "Sources \<Rightarrow> bool" where
  "some_source s = (jobMtime s \<noteq> None \<or> metaMtime s \<noteq> None \<or> recordMtime s \<noteq> None)"

lemma listed_all: "complete_listing reach t \<Longrightarrow> place \<in> set PLACES \<Longrightarrow>
    n \<in> set (listed_names reach t place) \<longleftrightarrow> jm_get (folder_at t place) n \<noteq> None"
  by (auto simp: complete_listing_def list_all_iff listed_names_def map_of_eq_None_iff)

lemma fileMtime_None [simp]: "fileMtime None = None"
  by (simp add: fileMtime_def)

lemma complete_scan:
  assumes complete: "complete_listing reach t"
  shows "s \<in> set (scan reach t) \<longleftrightarrow>
    SESSION_ID (src_id s) \<and> s = expected_sources t (src_id s) \<and> some_source s"
proof -
  let ?i = "src_id s"
  have places: "''jobs'' \<in> set PLACES" "''journal'' \<in> set PLACES" "''sessions'' \<in> set PLACES"
    by (simp_all add: PLACES_def)
  note listed = places [THEN listed_all [OF complete]]
  have jobs: "(\<exists>n \<in> set (listed_names reach t ''jobs''). recordId n = Some ?i)
      \<longleftrightarrow> SESSION_ID ?i \<and> job_entry t ?i \<noteq> None"
    unfolding recordId_iff job_entry_def using listed(1) by blast
  have records: "(\<exists>n \<in> set (listed_names reach t ''sessions''). recordId n = Some ?i)
      \<longleftrightarrow> SESSION_ID ?i \<and> record_entry t ?i \<noteq> None"
    unfolding recordId_iff record_entry_def using listed(3) by blast
  have journals: "(\<exists>n \<in> set (listed_names reach t ''journal''). (if SESSION_ID n then Some n else None) = Some ?i)
      \<longleftrightarrow> SESSION_ID ?i \<and> jm_get (folder_at t ''journal'') ?i \<noteq> None"
    using listed(2) by (auto split: if_splits)
  have meta: "journal_meta t ?i = None" if "jm_get (folder_at t ''journal'') ?i = None"
    using that by (simp add: journal_meta_def meta_entry_def)
  let ?A = "foldl (note_name recordId (\<lambda>i. fileMtime (job_entry t i)) set_job) [] (listed_names reach t ''jobs'')"
  let ?B = "foldl (note_name (\<lambda>n. if SESSION_ID n then Some n else None) (\<lambda>i. fileMtime (journal_meta t i)) set_meta)
    ?A (listed_names reach t ''journal'')"
  have A: "jm_get ?A ?i = (if SESSION_ID ?i then (case fileMtime (job_entry t ?i) of None \<Rightarrow> None
      | Some m \<Rightarrow> Some \<lparr>src_id = ?i, jobMtime = Some m, metaMtime = None, recordMtime = None\<rparr>) else None)"
    by (subst note_names_get) (simp_all add: jobs set_fields source_entry_def split: option.splits)
  have B: "jm_get ?B ?i = (if SESSION_ID ?i then (case fileMtime (journal_meta t ?i) of None \<Rightarrow> jm_get ?A ?i
      | Some m \<Rightarrow> Some (set_meta m (source_entry ?A ?i))) else None)"
    by (subst note_names_get) (auto simp: journals A meta set_meta_def split: option.splits)
  have C: "jm_get (scan_map reach t) ?i = (if SESSION_ID ?i then (case fileMtime (record_entry t ?i) of None \<Rightarrow> jm_get ?B ?i
      | Some m \<Rightarrow> Some (set_record m (source_entry ?B ?i))) else None)"
    unfolding scan_map_def
    by (subst note_names_get) (auto simp: records B set_record_def split: option.splits)
  have "jm_get (scan_map reach t) ?i = (if SESSION_ID ?i \<and> some_source (expected_sources t ?i)
      then Some (expected_sources t ?i) else None)"
    by (simp add: C B A source_entry_def set_fields expected_sources_def some_source_def split: option.splits)
  then show ?thesis
    unfolding scan_map(1) jm_get_values [OF scan_map(2)] by auto
qed

lemma running_status: "map_of JOB_STATUSES s = Some Running \<longleftrightarrow> s = ''running''"
  by (auto simp: JOB_STATUSES_def split: if_splits)

lemma job_state_running:
  assumes "job_state (entry_body (Some e)) = Some (Running, time)"
  shows "running_job e"
proof -
  from assms obtain m sz v where e: "e = FileE m sz (Some v)"
    by (auto simp: entry_body_def job_state_def js_key_def split: fs_entry.splits option.splits)
  with assms obtain st where "js_key v ''status'' = JStr st" "map_of JOB_STATUSES st = Some Running"
    by (auto simp: entry_body_def job_state_def split: js.splits option.splits)
  with e show ?thesis by (simp add: running_job_def running_status)
qed

lemma client_running: "clientStatus v = Running \<longleftrightarrow> \<not> finished_status v"
  by (auto simp: clientStatus_def finished_status_def FINISHED_CLIENT_STATUSES_def split: js.splits)

lemma meta_state_running:
  assumes "fileMtime (meta_entry (Some e)) \<noteq> None" "meta_state m (entry_body (meta_entry (Some e))) = Some (Running, time)"
  shows "open_journal e"
  using assms
  by (auto simp: meta_entry_def fileMtime_def entry_body_def meta_state_def isObject_def open_journal_def client_running
      split: fs_entry.splits option.splits if_splits js.splits)

text \<open>Files are removed whole; a meta file stays as it is or goes.\<close>

lemma swept_file:
  assumes swept: "sweepStateDir opts now f disk = Inr (res, disk')" and place: "place \<noteq> ''journal''"
  shows "jm_get (folder_at (fst disk') place) name = jm_get (folder_at (fst disk) place) name
    \<or> jm_get (folder_at (fst disk') place) name = None"
proof -
  let ?e = "jm_get (folder_at (fst disk) place) name"
  consider "jm_get (folder_at (fst disk') place) name = ?e"
    | "verdict_of place f (sweep_cutoff opts now) name ?e = Remove"
      "removed_by (removal f place name) ?e (jm_get (folder_at (fst disk') place) name)"
    using swept_thinned(1) [OF swept, of place] unfolding thinned_def by metis
  then show ?thesis
  proof cases
    case 2
    have "?e \<noteq> Some (DirE m files)" for m files
      using 2(1) place by (auto simp: verdict_of_def job_verdict_def session_verdict_def kindOf_def split: if_splits)
    with 2(2) show ?thesis by (auto simp: removed_by_def)
  qed simp
qed

lemma swept_meta:
  assumes swept: "sweepStateDir opts now f disk = Inr (res, disk')"
  shows "journal_meta (fst disk') i = journal_meta (fst disk) i \<or> journal_meta (fst disk') i = None"
proof -
  let ?e = "jm_get (folder_at (fst disk) ''journal'') i" and ?e' = "jm_get (folder_at (fst disk') ''journal'') i"
  have filtered: "map_of (filter (\<lambda>(n, _). still n) files) k = (if still k then map_of files k else None)"
    for still and files :: folder and k by (induction files) auto
  have "?e' = ?e \<or> removed_by (removal f ''journal'' i) ?e ?e'"
    using swept_thinned(1) [OF swept, of "''journal''"] unfolding thinned_def by metis
  then show ?thesis by (auto simp: removed_by_def journal_meta_def meta_entry_def filtered split: if_splits)
qed

lemma swept_job:
  assumes swept: "sweepStateDir opts now f disk = Inr (res, disk')"
  shows "job_entry (fst disk') i = job_entry (fst disk) i \<or> job_entry (fst disk') i = None"
    and "job_entry (fst disk) i = Some e \<Longrightarrow> running_job e \<Longrightarrow> job_entry (fst disk') i = Some e"
    and "jm_get (folder_at (fst disk) ''journal'') i = Some e \<Longrightarrow> open_journal e \<Longrightarrow>
      \<not> stat_fails f [''journal'', i, ''meta.json''] \<Longrightarrow>
      jm_get (folder_at (fst disk') ''journal'') i = Some e"
    and "journal_meta (fst disk') i = journal_meta (fst disk) i \<or> journal_meta (fst disk') i = None"
    and "record_entry (fst disk') i = record_entry (fst disk) i \<or> record_entry (fst disk') i = None"
proof -
  have gone: "jm_get (folder_at (fst disk') place) name = jm_get (folder_at (fst disk) place) name
      \<or> jm_get (folder_at (fst disk') place) name = None" if "place \<noteq> ''journal''" for place name
    using swept_file [OF swept that] .
  show "job_entry (fst disk') i = job_entry (fst disk) i \<or> job_entry (fst disk') i = None"
    unfolding job_entry_def by (rule gone) simp
  show "record_entry (fst disk') i = record_entry (fst disk) i \<or> record_entry (fst disk') i = None"
    unfolding record_entry_def by (rule gone) simp
  show "journal_meta (fst disk') i = journal_meta (fst disk) i \<or> journal_meta (fst disk') i = None"
    by (rule swept_meta [OF swept])
  show "job_entry (fst disk) i = Some e \<Longrightarrow> running_job e \<Longrightarrow> job_entry (fst disk') i = Some e"
    unfolding job_entry_def by (rule kept_entry [OF swept _ protected_verdicts(1)])
  show "jm_get (folder_at (fst disk) ''journal'') i = Some e \<Longrightarrow> open_journal e \<Longrightarrow>
      \<not> stat_fails f [''journal'', i, ''meta.json''] \<Longrightarrow>
      jm_get (folder_at (fst disk') ''journal'') i = Some e"
    by (rule kept_entry [OF swept _ protected_verdicts(2)])
qed

lemma swept_complete:
  assumes "sweepStateDir opts now f disk = Inr (res, disk')" "complete_listing reach (fst disk)"
  shows "complete_listing reach (fst disk')"
  using swept_thinned(1) [OF assms(1)] assms(2)
  unfolding complete_listing_def list_all_iff thinned_def by (metis le_trans)

lemma swept_state:
  assumes swept: "sweepStateDir opts now f disk = Inr (res, disk')"
    and seen: "\<not> stat_fails f [''journal'', i, ''meta.json'']"
    and state: "session_state (fst disk) (expected_sources (fst disk) i) = Some (mode, Running, time, orig)"
  shows "session_state (fst disk') (expected_sources (fst disk') i) = Some (mode, Running, time, orig) \<and>
    some_source (expected_sources (fst disk') i)"
proof -
  let ?t = "fst disk" and ?t' = "fst disk'"
  let ?job = "\<lambda>t. if fileMtime (job_entry t i) = None then None else job_state (entry_body (job_entry t i))"
  have unfold: "session_state t (expected_sources t i) = (case ?job t of
        Some (st, time) \<Rightarrow> Some (Server, st, time, [])
      | None \<Rightarrow> (case fileMtime (journal_meta t i) of None \<Rightarrow> None
          | Some m \<Rightarrow> (case meta_state m (entry_body (journal_meta t i)) of
              Some (st, time) \<Rightarrow> Some (Client, st, time, js_slice (js_key (entry_body (journal_meta t i)) ''original''))
            | None \<Rightarrow> None)))" for t
    unfolding session_state_def expected_sources_def Let_def Sources.select_convs by simp
  show ?thesis
  proof (cases "?job ?t")
    case (Some p)
    with state have p: "p = (Running, time)" by (auto simp: unfold split: prod.splits)
    with Some obtain e m where e: "job_entry ?t i = Some e" "fileMtime (Some e) = Some m"
      by (cases "job_entry ?t i") (auto split: if_splits)
    with Some p have "running_job e" by (auto intro: job_state_running split: if_splits)
    from swept_job(2) [OF swept e(1) this] have same: "job_entry ?t' i = job_entry ?t i" using e by simp
    with state Some e show ?thesis unfolding unfold by (simp add: some_source_def expected_sources_def)
  next
    case None
    with state obtain m where m: "fileMtime (journal_meta ?t i) = Some m"
        "meta_state m (entry_body (journal_meta ?t i)) = Some (Running, time)"
      by (auto simp: unfold split: option.splits prod.splits)
    then obtain e where e: "jm_get (folder_at ?t ''journal'') i = Some e"
      by (cases "jm_get (folder_at ?t ''journal'') i") (simp_all add: journal_meta_def meta_entry_def)
    with m have "open_journal e" by (intro meta_state_running [of e m time]) (simp_all add: journal_meta_def)
    from swept_job(3) [OF swept e this seen] have same: "journal_meta ?t' i = journal_meta ?t i"
      using e by (simp add: journal_meta_def)
    have "?job ?t' = None" using swept_job(1) [OF swept, of i] None by auto
    with state None same m show ?thesis unfolding unfold by (simp add: some_source_def expected_sources_def)
  qed
qed

text \<open>A sweep adds no session to a complete listing.\<close>

lemma swept_scan_length:
  assumes swept: "sweepStateDir opts now f disk = Inr (res, disk')" and complete: "complete_listing reach (fst disk)"
  shows "length (scan reach (fst disk')) \<le> length (scan reach (fst disk))"
proof -
  have ids: "distinct (map src_id (scan reach t))" for t unfolding scan_map(1) by (rule distinct_ids [OF scan_map(2)])
  have "src_id ` set (scan reach (fst disk')) \<subseteq> src_id ` set (scan reach (fst disk))"
  proof
    fix i assume "i \<in> src_id ` set (scan reach (fst disk'))"
    then have i: "SESSION_ID i" "some_source (expected_sources (fst disk') i)"
      unfolding image_iff Bex_def complete_scan [OF swept_complete [OF swept complete]] by metis+
    then have "some_source (expected_sources (fst disk) i)"
      using swept_job(1,4,5) [OF swept, of i] by (auto simp: some_source_def expected_sources_def)
    with i(1) have "expected_sources (fst disk) i \<in> set (scan reach (fst disk))"
      unfolding complete_scan [OF complete] by (simp add: expected_sources_def)
    then show "i \<in> src_id ` set (scan reach (fst disk))" by (force simp: expected_sources_def)
  qed
  then have "card (set (map src_id (scan reach (fst disk')))) \<le> card (set (map src_id (scan reach (fst disk))))"
    by (intro card_mono) simp_all
  then show ?thesis using ids by (simp only: distinct_card) simp
qed

text \<open>With no more sessions on disk than the limit, the listing is every summary of the scan.\<close>

lemma listSessions_complete:
  assumes "length (scan reach t) \<le> clampLimit limit"
  shows "set (listSessions reach dots t limit) = set (List.map_filter (summarize dots t) (scan reach t))"
proof -
  let ?n = "clampLimit limit" and ?c = "min MAX_CANDIDATES (clampLimit limit * 4)"
  let ?sorted = "sort_recent (\<lambda>s. (source_time s, src_id s)) (scan reach t)"
  have len: "length (sort_recent key xs) = length xs" for key and xs :: "'a list"
    by (metis mset_sort_recent size_mset)
  have "?n \<le> 20" by (auto simp: clampLimit_def MAX_LIMIT_def DEFAULT_LIMIT_def split: option.splits)
  then have fits: "length (scan reach t) \<le> ?c" using assms by (simp add: MAX_CANDIDATES_def)
  have "length ?sorted \<le> ?c" unfolding len by (rule fits)
  then have newest: "newestSources reach t ?c = ?sorted" by (simp add: newestSources_def)
  have some: "length (List.map_filter g xs) \<le> length xs" for g and xs :: "Sources list"
    by (simp add: List.map_filter_def)
  have "length (collect reach dots t ?c) \<le> ?n"
    unfolding collect_def newest len using order_trans [OF some, of ?sorted] assms by (simp add: len)
  then have "listSessions reach dots t limit = collect reach dots t ?c" by (simp add: listSessions_def Let_def)
  then show ?thesis unfolding collect_def newest set_sort_recent set_summaries by (simp only: set_sort_recent set_summaries)
qed

text \<open>C40. No retention sweep takes a running session off a listing that shows every session: when
  the folders are read completely and hold at most \<open>limit\<close> sessions, a session that
  \<^verbatim>\<open>listSessions\<close> shows as running before a sweep, a server job or a client-driven one
  whose meta file can be \<^verbatim>\<open>lstat\<close>ed, is shown after it with the same status, mode and
  time, whatever the retention, the clock and the other faults. With more sessions than the limit the
  removal of an old plan record can move a running session below it.\<close>
theorem running_session_survives_sweep:
  assumes swept: "sweepStateDir opts now f disk = Inr (res, disk')"
    and complete: "complete_listing reach (fst disk)" "length (scan reach (fst disk)) \<le> clampLimit limit"
    and listed: "v \<in> set (listSessions reach dots (fst disk) limit)" "session_status v = Running"
    and seen: "\<not> stat_fails f [''journal'', sessionId v, ''meta.json'']"
  shows "\<exists>v' \<in> set (listSessions reach dots (fst disk') limit).
    sessionId v' = sessionId v \<and> session_status v' = Running \<and> session_mode v' = session_mode v \<and>
    updatedAt v' = updatedAt v"
proof -
  obtain s where s: "s \<in> set (scan reach (fst disk))" "summarize dots (fst disk) s = Some v"
    using listed(1) unfolding listSessions_complete [OF complete(2)] set_summaries by blast
  let ?i = "src_id s" and ?s = "expected_sources (fst disk') (src_id s)"
  have id: "sessionId v = ?i" "src_id ?s = ?i" by (simp_all add: summarize_id [OF s(2)] expected_sources_def)
  have src: "SESSION_ID ?i" "s = expected_sources (fst disk) ?i"
    using s(1) complete_scan [OF complete(1)] by blast+
  from s(2) listed(2) obtain orig where "session_state (fst disk) s = Some (session_mode v, Running, updatedAt v, orig)"
    by (auto simp: summarize_def Let_def split: option.splits)
  then have "session_state (fst disk) (expected_sources (fst disk) ?i)
      = Some (session_mode v, Running, updatedAt v, orig)" using src(2) by simp
  note after = swept_state [OF swept seen [unfolded id(1)] this]
  have "?s \<in> set (scan reach (fst disk'))"
    unfolding complete_scan [OF swept_complete [OF swept complete(1)]] id(2) using src(1) after by simp
  moreover obtain v' where v': "summarize dots (fst disk') ?s = Some v'" "sessionId v' = ?i" "session_status v' = Running"
      "session_mode v' = session_mode v" "updatedAt v' = updatedAt v"
    using after by (simp add: summarize_def Let_def id)
  ultimately have "v' \<in> set (List.map_filter (summarize dots (fst disk')) (scan reach (fst disk')))"
    unfolding set_summaries by blast
  then have "v' \<in> set (listSessions reach dots (fst disk') limit)"
    using listSessions_complete [OF order_trans [OF swept_scan_length [OF swept complete(1)] complete(2)]] by simp
  with v' id(1) show ?thesis by metis
qed

theorem running_session_survives_sweep_witness:
  "\<exists>res disk' v'. sweepStateDir sample_sweep 100000000 no_faults sample_disk = Inr (res, disk') \<and>
    v' \<in> set (listSessions sample_reach [] (fst disk') JUndef) \<and> session_status v' = Running"
proof -
  obtain res disk' where r: "sweepStateDir sample_sweep 100000000 no_faults sample_disk = Inr (res, disk')"
    using sample_swept by blast
  have complete: "complete_listing sample_reach (fst sample_disk)"
    by (simp add: complete_listing_def PLACES_def sample_disk_def folder_at_def MAX_DIR_ENTRIES_def sample_reach_def)
  have few: "length (scan sample_reach (fst sample_disk)) \<le> clampLimit JUndef"
    by (simp add: sample_scan clampLimit_def finite_number_def DEFAULT_LIMIT_def)
  obtain v where v: "v \<in> set (listSessions sample_reach [] (fst sample_disk) JUndef)" "session_status v = Running"
    using sample_listed by (metis list.set_intros(1))
  from running_session_survives_sweep [OF r complete few v] r show ?thesis by auto
qed

end
