(* ===== verification/OAuth.thy ===== *)
theory OAuth
  imports Sessions
begin

text \<open>
  The OAuth 2.1 authorization server of \<^verbatim>\<open>oauth/oauth.ts\<close>: dynamic client
  registration, the consent request the owner approves with a password, authorization codes with
  PKCE, rotating refresh tokens, revocation, pruning and the durable store. An endpoint call is one
  event, except the approval, whose password check is awaited: it is a begin and a finish event.
  An event carries its instant, the random secrets drawn, whether the disk write succeeds and what
  \<^verbatim>\<open>auth\<close> answers. The pending requests are objects that an approval in flight still
  holds after they left the pending table, so they live in a store of their own,
  \<open>requests\<close>, and \<open>pending\<close> is the list of the keys in the table. The page markup and
  the security log are not modelled; a page is its status and message.
\<close>

declare map_of_eq_Some_iff [simp del] Some_eq_map_of_iff [simp del]

subsection \<open>Limits and schemas\<close>

definition ACCESS_TTL_MS :: int where "ACCESS_TTL_MS = 60 * 60 * 1000"
definition REFRESH_TTL_MS :: int where "REFRESH_TTL_MS = 30 * 24 * 60 * 60 * 1000"
definition SPENT_REFRESH_TTL_MS :: int where "SPENT_REFRESH_TTL_MS = 5 * 60 * 1000"
definition CODE_TTL_MS :: int where "CODE_TTL_MS = 60 * 1000"
definition PENDING_TTL_MS :: int where "PENDING_TTL_MS = 10 * 60 * 1000"
definition MAX_PENDING :: nat where "MAX_PENDING = 200"
definition MAX_PENDING_PER_CLIENT :: nat where "MAX_PENDING_PER_CLIENT = 5"
definition UNGRANTED_CLIENT_TTL_MS :: int where "UNGRANTED_CLIENT_TTL_MS = 24 * 60 * 60 * 1000"
definition GRANTED_CLIENT_IDLE_MS :: int where "GRANTED_CLIENT_IDLE_MS = 30 * 24 * 60 * 60 * 1000"
definition GRANT_IDLE_MS :: int where "GRANT_IDLE_MS = 24 * 60 * 60 * 1000"
definition MAX_REDIRECT_URIS :: nat where "MAX_REDIRECT_URIS = 5"
definition MAX_REDIRECT_URI_CHARS :: nat where "MAX_REDIRECT_URI_CHARS = 2048"
definition MAX_NAME_CHARS :: nat where "MAX_NAME_CHARS = 120"
definition MAX_SCOPE_CHARS :: nat where "MAX_SCOPE_CHARS = 256"
definition MAX_FORM_BYTES :: nat where "MAX_FORM_BYTES = 8192"
definition MAX_CLIENT_ID_CHARS :: nat where "MAX_CLIENT_ID_CHARS = 256"
definition MAX_SECRET_CHARS :: nat where "MAX_SECRET_CHARS = 256"
definition MAX_SHORT_CHARS :: nat where "MAX_SHORT_CHARS = 64"
definition MAX_STATE_CHARS :: nat where "MAX_STATE_CHARS = 512"
definition MAX_CHALLENGE_INPUT_CHARS :: nat where "MAX_CHALLENGE_INPUT_CHARS = 256"
definition MAX_VERIFIER_INPUT_CHARS :: nat where "MAX_VERIFIER_INPUT_CHARS = 256"
definition MAX_CLIENT_NAME_INPUT_CHARS :: nat where "MAX_CLIENT_NAME_INPUT_CHARS = 1024"
definition MAX_PASSWORD_CHARS :: nat where "MAX_PASSWORD_CHARS = 1024"
definition MAX_LIMITER_KEYS :: nat where "MAX_LIMITER_KEYS = 10000"

definition is_verifier_char :: "char \<Rightarrow> bool" where
  "is_verifier_char c = (is_alnum c \<or> c \<in> {CHR ''-'', CHR ''.'', CHR ''_'', CHR ''~''})"

definition VERIFIER_PATTERN :: "string \<Rightarrow> bool" where
  "VERIFIER_PATTERN = class_run is_verifier_char 43 128"

definition CHALLENGE_PATTERN :: "string \<Rightarrow> bool" where
  "CHALLENGE_PATTERN = class_run is_urlsafe 43 43"

text \<open>Space-separated runs of printable characters other than the quote and the backslash.\<close>

definition is_scope_char :: "char \<Rightarrow> bool" where
  "is_scope_char c = (let k = code_of c in k = 33 \<or> 35 \<le> k \<and> k \<le> 91 \<or> 93 \<le> k \<and> k \<le> 126)"

definition SCOPE_PATTERN :: "string \<Rightarrow> bool" where
  "SCOPE_PATTERN s = list_all (\<lambda>w. w \<noteq> [] \<and> list_all is_scope_char w) (split_on (CHR '' '') s)"

definition SUPPORTED_GRANTS :: "string list" where
  "SUPPORTED_GRANTS = [''authorization_code'', ''refresh_token'']"

definition DEFAULT_GRANT_TYPES :: "string list" where
  "DEFAULT_GRANT_TYPES = [''authorization_code'']"

definition LOOPBACK_HOSTS :: "string list" where
  "LOOPBACK_HOSTS = [''localhost'', ''127.0.0.1'', ''[::1]'']"

definition formText :: "nat \<Rightarrow> validator" where
  "formText mx = StringValidator (no_string_options\<lparr>so_allowEmpty := True, so_maxLength := Some mx,
     so_pattern := Some no_control\<rparr>)"

definition oneOf :: "string list \<Rightarrow> validator" where
  "oneOf vs = StringValidator (no_string_options\<lparr>so_allowedValues := Some vs\<rparr>)"

definition REGISTER_BODY :: schema where
  "REGISTER_BODY = [
     (''redirect_uris'', ArrayValidator (formText MAX_REDIRECT_URI_CHARS) (Some 1) (Some MAX_REDIRECT_URIS) False),
     (''token_endpoint_auth_method'', oneOf [''none'']),
     (''grant_types'', ArrayValidator (oneOf SUPPORTED_GRANTS) (Some 1) None False),
     (''response_types'', ArrayValidator (oneOf [''code'']) None None False),
     (''client_name'', formText MAX_CLIENT_NAME_INPUT_CHARS)]"

definition TOKEN_FORM :: schema where
  "TOKEN_FORM = [
     (''client_id'', formText MAX_CLIENT_ID_CHARS),
     (''grant_type'', formText MAX_SHORT_CHARS),
     (''code'', formText MAX_SECRET_CHARS),
     (''code_verifier'', formText MAX_VERIFIER_INPUT_CHARS),
     (''redirect_uri'', formText MAX_REDIRECT_URI_CHARS),
     (''refresh_token'', formText MAX_SECRET_CHARS),
     (''resource'', formText MAX_REDIRECT_URI_CHARS)]"

definition REVOKE_FORM :: schema where
  "REVOKE_FORM = [(''token'', formText MAX_SECRET_CHARS), (''client_id'', formText MAX_CLIENT_ID_CHARS)]"

definition AUTHORIZE_QUERY :: schema where
  "AUTHORIZE_QUERY = [
     (''client_id'', formText MAX_CLIENT_ID_CHARS),
     (''redirect_uri'', formText MAX_REDIRECT_URI_CHARS),
     (''response_type'', formText MAX_SHORT_CHARS),
     (''state'', formText MAX_STATE_CHARS),
     (''code_challenge'', formText MAX_CHALLENGE_INPUT_CHARS),
     (''code_challenge_method'', formText MAX_SHORT_CHARS),
     (''resource'', formText MAX_REDIRECT_URI_CHARS)]"

definition AUTHORIZE_FORM :: schema where
  "AUTHORIZE_FORM = [
     (''req'', formText MAX_SECRET_CHARS),
     (''nonce'', formText MAX_SECRET_CHARS),
     (''action'', formText MAX_SHORT_CHARS),
     (''password'', StringValidator (no_string_options\<lparr>so_allowEmpty := True, so_maxLength := Some MAX_PASSWORD_CHARS\<rparr>))]"

record rate = rate_max :: nat  rate_windowMs :: int

definition REGISTER_LIMIT :: rate where "REGISTER_LIMIT = \<lparr>rate_max = 10, rate_windowMs = 60 * 60 * 1000\<rparr>"
definition AUTHORIZE_LIMIT :: rate where "AUTHORIZE_LIMIT = \<lparr>rate_max = 30, rate_windowMs = 60 * 1000\<rparr>"
definition TOKEN_LIMIT :: rate where "TOKEN_LIMIT = \<lparr>rate_max = 60, rate_windowMs = 60 * 1000\<rparr>"
definition TOKEN_CLIENT_LIMIT :: rate where "TOKEN_CLIENT_LIMIT = \<lparr>rate_max = 30, rate_windowMs = 60 * 1000\<rparr>"
definition REVOKE_LIMIT :: rate where "REVOKE_LIMIT = \<lparr>rate_max = 60, rate_windowMs = 60 * 1000\<rparr>"

subsection \<open>Records\<close>

record ClientRecord =
  cl_name :: string
  cl_redirectUris :: "string list"
  cl_createdAt :: int
  cl_grantTypes :: "string list"
  cl_grantedAt :: "int option"
  cl_lastUsedAt :: "int option"

record GrantRecord =
  gr_clientId :: string
  gr_resource :: string
  gr_createdAt :: int
  gr_lastUsedAt :: "int option"

record CodeRecord =
  co_clientId :: string
  co_redirectUri :: string
  co_codeChallenge :: string
  co_resource :: string
  co_scope :: "string option"
  co_grantId :: string
  co_expiresAt :: int
  co_used :: bool

datatype token_kind = Access | Refresh_kind

record TokenRecord =
  tk_kind :: token_kind
  tk_grantId :: string
  tk_clientId :: string
  tk_resource :: string
  tk_scope :: "string option"
  tk_expiresAt :: int
  tk_used :: bool

datatype ApprovalState = PendingApproval | Approved | Expired

record PendingRequest =
  pr_clientId :: string
  pr_redirectUri :: string
  pr_codeChallenge :: string
  pr_resource :: string
  pr_scope :: "string option"
  pr_state :: "string option"
  pr_createdAt :: int
  pr_expiresAt :: int
  pr_refreshedAt :: int
  pr_approvalState :: ApprovalState
  pr_nonce :: string
  pr_signature :: string

record StoreShape =
  clients :: "(string, ClientRecord) jmap"
  grants :: "(string, GrantRecord) jmap"
  codes :: "(string, CodeRecord) jmap"
  tokens :: "(string, TokenRecord) jmap"

type_synonym rate_windows = "(string, nat \<times> int) jmap"

record oauth =
  data :: StoreShape
  requests :: "(string, PendingRequest) jmap"
  pending :: "string list"
  approving :: "string list"
  registerLimiter :: rate_windows
  authorizeLimiter :: rate_windows
  tokenLimiter :: rate_windows
  tokenClientLimiter :: rate_windows
  revokeLimiter :: rate_windows
  sweeping :: bool
  saved :: "(StoreShape \<times> (string \<times> PendingRequest) list) option"
  audited :: "(string \<times> string) list"

record oauth_url =
  u_protocol :: string
  u_hostname :: string
  u_pathname :: string
  u_search :: string
  u_hash :: string
  u_username :: string
  u_password :: string
  u_origin :: string

text \<open>What the server is created with: the issuer origin, the configured redirect origins, the client
  table's size, the signing of approvals, SHA-256 in base64url, and the platform's parsers of
  URLs, JSON and form bodies.\<close>

record oauth_env =
  oe_origin :: string
  oe_redirectOrigins :: "string list"
  oe_maxClients :: nat
  oe_digests :: digests
  oe_auth :: auth
  oe_digest :: "string \<Rightarrow> string"
  oe_url :: "string \<Rightarrow> oauth_url option"
  oe_json :: "string \<Rightarrow> js option"
  oe_form :: "string \<Rightarrow> (string \<times> string) list"

text \<open>The answers, as the status and the fields that differ between calls.\<close>

datatype reply =
    ErrorJson nat string string "int option"
  | ErrorPage nat string "int option"
  | ExpiredJson
  | ExpiredPage
  | PendingJson int int
  | ConsentPage string string string string string
  | RedirectTo string "(string \<times> string) list" "string option"
  | RegisteredJson string string "string list" "string list" int
  | TokensJson string string "string option"
  | RevokedOk
  | AwaitingPassword string
  | Thrown
  | NoReply

subsection \<open>Checking parameters\<close>

type_synonym form = "(string \<times> string) list"

definition form_get :: "form \<Rightarrow> string \<Rightarrow> string option" where
  "form_get f name = map_of f name"

definition form_text :: "form \<Rightarrow> string \<Rightarrow> string" where
  "form_text f name = (case form_get f name of Some v \<Rightarrow> v | None \<Rightarrow> [])"

definition form_count :: "form \<Rightarrow> string \<Rightarrow> nat" where
  "form_count f name = length (filter (\<lambda>p. fst p = name) f)"

definition first_code :: "vresult \<Rightarrow> string" where
  "first_code r = (case r of Invalid (e # _) \<Rightarrow> ve_code e | _ \<Rightarrow> ''INVALID'')"

text \<open>The typed value, or the first refused field with its validator's code.\<close>

definition checkedFields :: "schema \<Rightarrow> (string \<times> js) list \<Rightarrow> (string \<times> string) + js" where
  "checkedFields schema values = (case ObjectValidator schema True True (JObj values) of
      Valid v \<Rightarrow> Inr v
    | Invalid _ \<Rightarrow> (case List.find (\<lambda>(field, validate). \<not> is_valid (validate (obj_get values field))) schema of
        Some (field, validate) \<Rightarrow> Inl (field, first_code (validate (obj_get values field)))
      | None \<Rightarrow> Inl (''body'', ''INVALID'')))"

definition formRefusal :: "form \<Rightarrow> schema \<Rightarrow> (string \<times> string) option" where
  "formRefusal f schema = (case List.find (\<lambda>name. 1 < form_count f name) (map fst schema) of
      Some name \<Rightarrow> Some (name, ''DUPLICATE'')
    | None \<Rightarrow> (case checkedFields schema (map (\<lambda>(name, _). (name, JStr (form_text f name))) schema) of
        Inl refused \<Rightarrow> Some refused | Inr _ \<Rightarrow> None))"

definition oauthError :: "nat \<Rightarrow> string \<Rightarrow> string \<Rightarrow> reply" where
  "oauthError status err description = ErrorJson status err description None"

definition refuseForm :: "string \<times> string \<Rightarrow> reply" where
  "refuseForm refused = oauthError 400 ''invalid_request''
     (fst refused @ (if snd refused = ''DUPLICATE'' then '' must appear once.'' else '' is not valid.''))"

definition invalidGrant :: "string \<Rightarrow> reply" where
  "invalidGrant description = oauthError 400 ''invalid_grant'' description"

definition invalidClient :: reply where
  "invalidClient = oauthError 401 ''invalid_client'' ''Unknown client. Register the client again.''"

definition isJsonRequest :: "string option \<Rightarrow> bool" where
  "isJsonRequest contentType = (case contentType of
      None \<Rightarrow> False
    | Some v \<Rightarrow> map (\<lambda>c. if is_upper c then char_of (code_of c + 32) else c) (js_trim (hd (split_on (CHR '';'') v)))
        = ''application/json'')"

record body =
  bd_declared :: "js_num option"
  bd_text :: string

definition readBodyText :: "body \<Rightarrow> nat \<Rightarrow> string option" where
  "readBodyText b maxBytes =
     (if (case bd_declared b of
            Some (Fin q) \<Rightarrow> q > real maxBytes | Some PosInf \<Rightarrow> True | _ \<Rightarrow> False) then None
      else if length (bd_text b) > maxBytes then None else Some (bd_text b))"

subsection \<open>Redirect addresses, scopes and PKCE\<close>

definition normalizeOrigins :: "oauth_env \<Rightarrow> string list" where
  "normalizeOrigins env = foldl (\<lambda>out raw. case oe_url env raw of
      Some u \<Rightarrow> if u_protocol u = ''https:'' \<and> u_origin u \<notin> set out then out @ [u_origin u] else out
    | None \<Rightarrow> out) [] (oe_redirectOrigins env)"

definition isLoopbackHttp :: "oauth_url \<Rightarrow> bool" where
  "isLoopbackHttp u = (u_protocol u = ''http:'' \<and> u_hostname u \<in> set LOOPBACK_HOSTS)"

definition parseRedirect :: "oauth_env \<Rightarrow> string \<Rightarrow> oauth_url option" where
  "parseRedirect env raw =
     (if raw = [] \<or> MAX_REDIRECT_URI_CHARS < length raw then None
      else case oe_url env raw of
        None \<Rightarrow> None
      | Some u \<Rightarrow> if u_hash u \<noteq> [] \<or> u_username u \<noteq> [] \<or> u_password u \<noteq> [] then None else Some u)"

definition redirectAllowed :: "oauth_env \<Rightarrow> string \<Rightarrow> bool" where
  "redirectAllowed env raw = (case parseRedirect env raw of
      None \<Rightarrow> False
    | Some u \<Rightarrow> isLoopbackHttp u \<or> u_protocol u = ''https:'' \<and> u_origin u \<in> set (normalizeOrigins env))"

definition redirectMatches :: "oauth_env \<Rightarrow> string \<Rightarrow> string \<Rightarrow> bool" where
  "redirectMatches env registered requested = (registered = requested \<or>
     (case (parseRedirect env registered, parseRedirect env requested) of
        (Some a, Some b) \<Rightarrow> isLoopbackHttp a \<and> isLoopbackHttp b \<and> u_hostname a = u_hostname b
          \<and> u_pathname a = u_pathname b \<and> u_search a = u_search b
      | _ \<Rightarrow> False))"

definition cleanScope :: "string option \<Rightarrow> string option" where
  "cleanScope raw = (case raw of
      None \<Rightarrow> None
    | Some r \<Rightarrow> let v = js_trim r in
        if v = [] \<or> MAX_SCOPE_CHARS < length v \<or> \<not> SCOPE_PATTERN v then None else Some v)"

definition pkceMatches :: "oauth_env \<Rightarrow> string \<Rightarrow> string \<Rightarrow> bool" where
  "pkceMatches env verifier challenge = (VERIFIER_PATTERN verifier \<and> oe_digest env verifier = challenge)"

subsection \<open>The fixed-window limiter\<close>

text \<open>\<^verbatim>\<open>while (windows.size >= MAX_LIMITER_KEYS) delete the oldest\<close>.\<close>

fun drop_oldest :: "nat \<Rightarrow> rate_windows \<Rightarrow> rate_windows" where
  "drop_oldest cap [] = []"
| "drop_oldest cap (w # ws) = (if cap \<le> length (w # ws) then drop_oldest cap ws else w # ws)"

definition make_room :: "int \<Rightarrow> rate_windows \<Rightarrow> rate_windows" where
  "make_room t ws = (if MAX_LIMITER_KEYS \<le> length ws
     then drop_oldest MAX_LIMITER_KEYS (jm_sweep (\<lambda>w. snd w \<le> t) ws) else ws)"

text \<open>Counts a call of a key; the seconds to wait when it is over the limit.\<close>

definition rate_hit :: "rate \<Rightarrow> string \<Rightarrow> int \<Rightarrow> rate_windows \<Rightarrow> rate_windows \<times> int option" where
  "rate_hit rate key t ws =
     (let expired = (case jm_get ws key of Some (n, resetAt) \<Rightarrow> resetAt \<le> t | None \<Rightarrow> False);
          ws1 = (if expired then jm_delete key ws else ws);
          (ws2, n, resetAt) = (case jm_get ws1 key of
             Some (n, resetAt) \<Rightarrow> (ws1, n, resetAt)
           | None \<Rightarrow> (make_room t ws1, 0, t + rate_windowMs rate))
      in (jm_set key (n + 1, resetAt) ws2,
          if rate_max rate < n + 1 then Some (max 1 (ceil_div (resetAt - t) 1000)) else None))"

subsection \<open>Pruning and saving\<close>

definition pending_get :: "oauth \<Rightarrow> string \<Rightarrow> PendingRequest option" where
  "pending_get s key = (if key \<in> set (pending s) then jm_get (requests s) key else None)"

definition pending_requests :: "oauth \<Rightarrow> PendingRequest list" where
  "pending_requests s = List.map_filter (pending_get s) (pending s)"

definition or_default :: "int option \<Rightarrow> int \<Rightarrow> int" where
  "or_default x d = (case x of Some v \<Rightarrow> v | None \<Rightarrow> d)"

definition clientRemovable :: "oauth \<Rightarrow> int \<Rightarrow> string \<Rightarrow> ClientRecord \<Rightarrow> bool" where
  "clientRemovable s t i client =
     (if list_ex (\<lambda>r. pr_clientId r = i) (pending_requests s) then False
      else case cl_grantedAt client of
        None \<Rightarrow> t - cl_createdAt client > UNGRANTED_CLIENT_TTL_MS
      | Some granted \<Rightarrow>
          if list_ex (\<lambda>(_, g). gr_clientId g = i) (grants (data s)) then False
          else t - or_default (cl_lastUsedAt client) granted > GRANTED_CLIENT_IDLE_MS)"

definition request_over :: "int \<Rightarrow> PendingRequest \<Rightarrow> bool" where
  "request_over t r = (pr_expiresAt r \<le> t \<or> pr_approvalState r = Expired)"

text \<open>The expired pending requests: their objects become \<open>Expired\<close> and leave the table.\<close>

definition prune_pending :: "int \<Rightarrow> oauth \<Rightarrow> oauth" where
  "prune_pending t s =
     (let gone = filter (\<lambda>k. case pending_get s k of Some r \<Rightarrow> request_over t r | None \<Rightarrow> False) (pending s)
      in s\<lparr>requests := map (\<lambda>(k, r). (k, if k \<in> set gone then r\<lparr>pr_approvalState := Expired\<rparr> else r)) (requests s),
           pending := filter (\<lambda>k. k \<notin> set gone) (pending s)\<rparr>)"

definition live_grant :: "StoreShape \<Rightarrow> string \<Rightarrow> bool" where
  "live_grant d g = (list_ex (\<lambda>(_, c). co_grantId c = g) (codes d) \<or> list_ex (\<lambda>(_, k). tk_grantId k = g) (tokens d))"

definition prune :: "int \<Rightarrow> oauth \<Rightarrow> oauth" where
  "prune t s0 =
     (let s1 = s0\<lparr>data := (data s0)\<lparr>codes := jm_sweep (\<lambda>c. co_expiresAt c \<le> t) (codes (data s0)),
                   tokens := jm_sweep (\<lambda>k. tk_expiresAt k \<le> t) (tokens (data s0))\<rparr>\<rparr>;
          s2 = prune_pending t s1;
          s3 = s2\<lparr>data := (data s2)\<lparr>grants := filter (\<lambda>(i, g). live_grant (data s2) i \<or>
                   \<not> t - or_default (gr_lastUsedAt g) (gr_createdAt g) > GRANT_IDLE_MS) (grants (data s2))\<rparr>\<rparr>
      in s3\<lparr>data := (data s3)\<lparr>clients := filter (\<lambda>(i, c). \<not> clientRemovable s3 t i c) (clients (data s3))\<rparr>\<rparr>)"

text \<open>Whether \<^verbatim>\<open>prune\<close> removed anything.\<close>

definition prune_changed :: "int \<Rightarrow> oauth \<Rightarrow> bool" where
  "prune_changed t s = (let s' = prune t s in
     length (codes (data s')) \<noteq> length (codes (data s)) \<or> length (tokens (data s')) \<noteq> length (tokens (data s))
     \<or> length (pending s') \<noteq> length (pending s) \<or> length (grants (data s')) \<noteq> length (grants (data s))
     \<or> length (clients (data s')) \<noteq> length (clients (data s)))"

definition store_of :: "oauth \<Rightarrow> StoreShape \<times> (string \<times> PendingRequest) list" where
  "store_of s = (data s, List.map_filter (\<lambda>k. map_option (\<lambda>r. (k, r)) (pending_get s k)) (pending s))"

text \<open>\<^verbatim>\<open>flush\<close>: the file is replaced atomically, or the write throws and it is as it was.\<close>

definition flush_store :: "bool \<Rightarrow> oauth \<Rightarrow> oauth" where
  "flush_store disk s = (if disk then s\<lparr>saved := Some (store_of s)\<rparr> else s)"

definition persist :: "bool \<Rightarrow> int \<Rightarrow> oauth \<Rightarrow> oauth" where
  "persist disk t s = flush_store disk (prune t s)"

text \<open>The answer of a handler that saves before it answers; a failed save escapes as an exception.\<close>

definition saving :: "bool \<Rightarrow> int \<Rightarrow> oauth \<Rightarrow> reply \<Rightarrow> oauth \<times> reply" where
  "saving disk t s answer = (persist disk t s, if disk then answer else Thrown)"

definition log_audit :: "string \<Rightarrow> string \<Rightarrow> oauth \<Rightarrow> oauth" where
  "log_audit event who s = s\<lparr>audited := audited s @ [(event, who)]\<rparr>"

subsection \<open>Grants, tokens and approvals\<close>

definition resource_of :: "oauth_env \<Rightarrow> string" where
  "resource_of env = oe_origin env @ ''/mcp''"

definition sameResource :: "oauth_env \<Rightarrow> string option \<Rightarrow> bool" where
  "sameResource env v = (v = Some (resource_of env) \<or> v = Some (resource_of env @ ''/''))"

definition revokeGrant :: "string \<Rightarrow> oauth \<Rightarrow> oauth" where
  "revokeGrant g s = s\<lparr>data := (data s)\<lparr>grants := jm_delete g (grants (data s)),
     tokens := jm_sweep (\<lambda>k. tk_grantId k = g) (tokens (data s)),
     codes := jm_sweep (\<lambda>c. co_grantId c = g) (codes (data s))\<rparr>\<rparr>"

definition touch_grant :: "int \<Rightarrow> string \<Rightarrow> StoreShape \<Rightarrow> StoreShape" where
  "touch_grant t g d = (case jm_get (grants d) g of
      Some r \<Rightarrow> d\<lparr>grants := jm_set g (r\<lparr>gr_lastUsedAt := Some t\<rparr>) (grants d)\<rparr> | None \<Rightarrow> d)"

text \<open>The two tokens; \<open>access\<close> and \<open>refresh\<close> are the secrets drawn.\<close>

definition issueTokens :: "oauth_env \<Rightarrow> int \<Rightarrow> string \<times> string \<Rightarrow> string \<Rightarrow> string \<Rightarrow> string \<Rightarrow> string option
    \<Rightarrow> oauth \<Rightarrow> oauth" where
  "issueTokens env t secrets g clientId res scope s =
     (let a = \<lparr>tk_kind = Access, tk_grantId = g, tk_clientId = clientId, tk_resource = res, tk_scope = scope,
               tk_expiresAt = t + ACCESS_TTL_MS, tk_used = False\<rparr>;
          r = \<lparr>tk_kind = Refresh_kind, tk_grantId = g, tk_clientId = clientId, tk_resource = res, tk_scope = scope,
               tk_expiresAt = t + REFRESH_TTL_MS, tk_used = False\<rparr>
      in s\<lparr>data := touch_grant t g ((data s)\<lparr>tokens :=
           jm_set (oe_digest env (snd secrets)) r (jm_set (oe_digest env (fst secrets)) a (tokens (data s)))\<rparr>)\<rparr>)"

definition proofOf :: "string \<Rightarrow> PendingRequest \<Rightarrow> approval_proof" where
  "proofOf key r = \<lparr>ap_subject = key, ap_nonce = pr_nonce r, ap_issuedAt = Fin (of_int (pr_createdAt r)),
     ap_expiresAt = Fin (of_int (pr_expiresAt r)), ap_refreshedAt = Fin (of_int (pr_refreshedAt r))\<rparr>"

definition sign_request :: "oauth_env \<Rightarrow> string \<Rightarrow> PendingRequest \<Rightarrow> js_error + PendingRequest" where
  "sign_request env key r = (case signApproval (oe_digests env) (oe_auth env) (proofOf key r) of
      Inl e \<Rightarrow> Inl e | Inr sig \<Rightarrow> Inr (r\<lparr>pr_signature := sig\<rparr>))"

definition verify_request :: "oauth_env \<Rightarrow> string \<Rightarrow> PendingRequest \<Rightarrow> bool" where
  "verify_request env key r = verifyApproval (oe_digests env) (oe_auth env) (proofOf key r) (JStr (pr_signature r))"

definition set_request :: "string \<Rightarrow> PendingRequest \<Rightarrow> oauth \<Rightarrow> oauth" where
  "set_request key r s = s\<lparr>requests := jm_set key r (requests s)\<rparr>"

text \<open>One tick of a pending request: the state it is then in, \<open>None\<close> when signing threw.\<close>

definition tickApproval :: "oauth_env \<Rightarrow> string \<Rightarrow> int \<Rightarrow> oauth \<Rightarrow> oauth \<times> ApprovalState option option" where
  "tickApproval env key t s = (case pending_get s key of
      None \<Rightarrow> (s, Some None)
    | Some r \<Rightarrow>
        if pr_approvalState r \<noteq> PendingApproval then (s, Some (Some (pr_approvalState r)))
        else let deadline = pr_createdAt r + PENDING_TTL_MS in
          if deadline \<le> t \<or> pr_expiresAt r \<le> t
          then (set_request key (r\<lparr>pr_approvalState := Expired, pr_expiresAt := deadline\<rparr>) s, Some (Some Expired))
          else let r1 = r\<lparr>pr_refreshedAt := t, pr_expiresAt := deadline\<rparr> in
            (case sign_request env key r1 of
              Inl _ \<Rightarrow> (set_request key r1 s, None)
            | Inr r' \<Rightarrow> (set_request key r' s, Some (Some PendingApproval))))"

definition trustedPending :: "oauth_env \<Rightarrow> string \<times> PendingRequest \<Rightarrow> bool" where
  "trustedPending env kr = (pr_expiresAt (snd kr) = pr_createdAt (snd kr) + PENDING_TTL_MS
     \<and> verify_request env (fst kr) (snd kr))"

definition findPending :: "oauth_env \<Rightarrow> string \<Rightarrow> string \<Rightarrow> oauth \<Rightarrow> (string \<times> PendingRequest) option" where
  "findPending env requestId nonce s =
     (if requestId = [] \<or> nonce = [] then None
      else let key = oe_digest env requestId in
        case pending_get s key of
          None \<Rightarrow> None
        | Some r \<Rightarrow> if nonce \<noteq> pr_nonce r \<or> \<not> verify_request env key r then None else Some (key, r))"

text \<open>The sweep timer: pruning, a save when something went, and the timer's own end.\<close>

definition sweep :: "bool \<Rightarrow> int \<Rightarrow> oauth \<Rightarrow> oauth" where
  "sweep disk t s =
     (if \<not> sweeping s then s
      else let s' = prune t s;
               s'' = (if prune_changed t s then flush_store disk s' else s')
           in if pending s'' = [] then s''\<lparr>sweeping := False\<rparr> else s'')"

subsection \<open>The authorization endpoint\<close>

definition tooMany :: reply where
  "tooMany = ErrorPage 429 ''Too many attempts. Wait and try again.'' None"

definition expiredResponse :: "bool \<Rightarrow> reply" where
  "expiredResponse asJson = (if asJson then ExpiredJson else ExpiredPage)"

definition redirect_error :: "string \<Rightarrow> string \<Rightarrow> string \<Rightarrow> string option \<Rightarrow> reply" where
  "redirect_error uri err description state =
     RedirectTo uri [(''error'', err), (''error_description'', description)] state"

definition touch_client :: "int \<Rightarrow> string \<Rightarrow> ClientRecord \<Rightarrow> oauth \<Rightarrow> oauth" where
  "touch_client t i c s = s\<lparr>data := (data s)\<lparr>clients := jm_set i (c\<lparr>cl_lastUsedAt := Some t\<rparr>) (clients (data s))\<rparr>\<rparr>"

definition new_request :: "oauth_env \<Rightarrow> form \<Rightarrow> int \<Rightarrow> string \<Rightarrow> PendingRequest" where
  "new_request env params t nonce = \<lparr>pr_clientId = form_text params ''client_id'',
     pr_redirectUri = form_text params ''redirect_uri'', pr_codeChallenge = form_text params ''code_challenge'',
     pr_resource = resource_of env, pr_scope = cleanScope (form_get params ''scope''),
     pr_state = form_get params ''state'', pr_createdAt = t, pr_expiresAt = t + PENDING_TTL_MS,
     pr_refreshedAt = t, pr_approvalState = PendingApproval, pr_nonce = nonce, pr_signature = []\<rparr>"

definition open_request :: "oauth_env \<Rightarrow> form \<Rightarrow> int \<Rightarrow> bool \<Rightarrow> string \<times> string \<Rightarrow> ClientRecord \<Rightarrow> oauth \<Rightarrow> oauth \<times> reply" where
  "open_request env params t disk secrets client s =
     (let key = oe_digest env (fst secrets) in
      case sign_request env key (new_request env params t (snd secrets)) of
        Inl _ \<Rightarrow> (s, Thrown)
      | Inr r \<Rightarrow> saving disk t ((set_request key r s)\<lparr>pending := (if key \<in> set (pending s) then pending s else pending s @ [key]), sweeping := True\<rparr>)
          (ConsentPage (fst secrets) (snd secrets) (cl_name client) (pr_redirectUri r) []))"

definition authorizeGet :: "oauth_env \<Rightarrow> form \<Rightarrow> int \<Rightarrow> bool \<Rightarrow> string \<times> string \<Rightarrow> oauth \<Rightarrow> oauth \<times> reply" where
  "authorizeGet env params t disk secrets s0 =
     (if formRefusal params AUTHORIZE_QUERY \<noteq> None
      then (s0, ErrorPage 400 ''This authorization request is not valid. Start the connection again from your client.'' None)
      else let s = prune t s0;
               clientId = form_text params ''client_id'';
               redirectUri = form_text params ''redirect_uri'';
               state = form_get params ''state''
      in case jm_get (clients (data s)) clientId of
        None \<Rightarrow> (s, ErrorPage 400 ''This client is not registered with ultrathink.'' None)
      | Some client \<Rightarrow>
          if \<not> list_ex (\<lambda>registered. redirectMatches env registered redirectUri) (cl_redirectUris client)
          then (s, ErrorPage 400 (''The redirect address does not match this client'' @ [CHR 0x27] @ ''s registration.'') None)
          else let s1 = touch_client t clientId client s in
            if form_get params ''response_type'' \<noteq> Some ''code''
            then (s1, redirect_error redirectUri ''unsupported_response_type'' ''response_type must be code.'' state)
            else if form_get params ''code_challenge_method'' \<noteq> Some ''S256''
                \<or> \<not> CHALLENGE_PATTERN (form_text params ''code_challenge'')
            then (s1, redirect_error redirectUri ''invalid_request'' ''PKCE with S256 is required.'' state)
            else if \<not> sameResource env (form_get params ''resource'')
            then (s1, redirect_error redirectUri ''invalid_target'' ''resource must be the ultrathink MCP endpoint.'' state)
            else if MAX_PENDING_PER_CLIENT \<le> length (filter (\<lambda>r. pr_clientId r = clientId) (pending_requests s1))
            then (s1, ErrorPage 429 ''This client already has several authorizations waiting. Finish one or wait and try again.'' (Some 60))
            else if MAX_PENDING \<le> length (pending s1)
            then (s1, ErrorPage 503 ''Authorization is temporarily unavailable. Start the connection again from your client.'' None)
            else open_request env params t disk secrets client s1)"

definition client_name :: "oauth \<Rightarrow> string \<Rightarrow> string" where
  "client_name s i = (case jm_get (clients (data s)) i of Some c \<Rightarrow> cl_name c | None \<Rightarrow> ''MCP client'')"

text \<open>The approval up to the password check: on \<open>AwaitingPassword\<close> the check has begun.\<close>

definition begin_approval :: "string \<Rightarrow> string \<Rightarrow> bool \<Rightarrow> oauth \<Rightarrow> oauth \<times> reply" where
  "begin_approval requestId key attemptOk s = (case jm_get (requests s) key of
      None \<Rightarrow> (s, NoReply)
    | Some r \<Rightarrow>
        if key \<in> set (approving s)
        then (s, ConsentPage requestId (pr_nonce r) (client_name s (pr_clientId r)) (pr_redirectUri r)
               ''This approval is already being checked. Wait for the result.'')
        else if \<not> attemptOk then (s, tooMany)
        else (s\<lparr>approving := approving s @ [key]\<rparr>, AwaitingPassword key))"

definition authorizePost :: "oauth_env \<Rightarrow> body \<Rightarrow> int \<Rightarrow> bool \<Rightarrow> bool \<Rightarrow> oauth \<Rightarrow> oauth \<times> reply" where
  "authorizePost env b t disk attemptOk s = (case readBodyText b MAX_FORM_BYTES of
      None \<Rightarrow> (s, ErrorPage 413 ''The request is too large.'' None)
    | Some text \<Rightarrow>
        let form = oe_form env text; polling = (form_get form ''action'' = Some ''poll'') in
        (case formRefusal form AUTHORIZE_FORM of
           Some (field, code) \<Rightarrow>
             (s, if field = ''password''
                 then ErrorPage 400 ''This request is not valid. Start the connection again from your client.'' None
                 else expiredResponse polling)
         | None \<Rightarrow>
             (case findPending env (form_text form ''req'') (form_text form ''nonce'') s of
                None \<Rightarrow> (s, expiredResponse polling)
              | Some (key, _) \<Rightarrow>
                  (case tickApproval env key t s of
                     (s1, None) \<Rightarrow> (s1, Thrown)
                   | (s1, Some st) \<Rightarrow>
                       if st \<noteq> Some PendingApproval then saving disk t s1 (expiredResponse polling)
                       else if polling
                       then let s2 = prune t s1 in
                         if prune_changed t s1 \<and> \<not> disk then (s2, Thrown)
                         else ((if prune_changed t s1 then flush_store disk s2 else s2),
                           (case jm_get (requests s2) key of
                              Some r \<Rightarrow> PendingJson (max 0 (ceil_div (pr_expiresAt r - t) 1000)) (pr_refreshedAt r)
                            | None \<Rightarrow> NoReply))
                       else if \<not> disk then (persist disk t s1, Thrown)
                       else begin_approval (form_text form ''req'') key attemptOk (persist disk t s1)))))"

datatype login_result = LoginOk | LoginRateLimited | LoginFailed

text \<open>What the owner's password grants: the grant and the code, whose secrets are drawn here.\<close>

definition grant_code :: "oauth_env \<Rightarrow> int \<Rightarrow> string \<Rightarrow> string \<Rightarrow> PendingRequest \<Rightarrow> StoreShape \<Rightarrow> StoreShape" where
  "grant_code env t g code r d =
     (let i = pr_clientId r;
          d1 = d\<lparr>grants := jm_set g \<lparr>gr_clientId = i, gr_resource = pr_resource r, gr_createdAt = t,
                   gr_lastUsedAt = Some t\<rparr> (grants d)\<rparr>;
          d2 = (case jm_get (clients d1) i of
                  Some c \<Rightarrow> if cl_grantedAt c = None then d1\<lparr>clients := jm_set i (c\<lparr>cl_grantedAt := Some t\<rparr>) (clients d1)\<rparr> else d1
                | None \<Rightarrow> d1)
      in d2\<lparr>codes := jm_set (oe_digest env code) \<lparr>co_clientId = i, co_redirectUri = pr_redirectUri r,
               co_codeChallenge = pr_codeChallenge r, co_resource = pr_resource r, co_scope = pr_scope r,
               co_grantId = g, co_expiresAt = t + CODE_TTL_MS, co_used = False\<rparr> (codes d2)\<rparr>)"

definition finish_approval :: "oauth_env \<Rightarrow> string \<Rightarrow> string \<Rightarrow> string \<Rightarrow> login_result \<Rightarrow> string \<times> string \<Rightarrow> int \<Rightarrow> bool
    \<Rightarrow> oauth \<Rightarrow> oauth \<times> reply" where
  "finish_approval env requestId ip key result secrets t disk s0 =
     (if key \<notin> set (approving s0) then (s0, NoReply)
      else let s = s0\<lparr>approving := removeAll key (approving s0)\<rparr> in
      case jm_get (requests s) key of
        None \<Rightarrow> (s, NoReply)
      | Some r \<Rightarrow>
         (case result of
            LoginRateLimited \<Rightarrow> (log_audit ''rate_limited'' ip s, tooMany)
          | LoginFailed \<Rightarrow>
              (log_audit ''login_failed'' ip s,
               if pr_approvalState r \<noteq> PendingApproval then ExpiredPage
               else ConsentPage requestId (pr_nonce r) (client_name s (pr_clientId r)) (pr_redirectUri r) ''Incorrect password.'')
          | LoginOk \<Rightarrow>
              let s1 = log_audit ''login_ok'' ip s in
              if pr_approvalState r \<noteq> PendingApproval \<or> key \<notin> set (pending s1)
                 \<or> jm_get (clients (data s1)) (pr_clientId r) = None
              then (s1, ExpiredPage)
              else let s2 = (set_request key (r\<lparr>pr_approvalState := Approved\<rparr>) s1)\<lparr>pending := removeAll key (pending s1)\<rparr>;
                       s3 = persist disk t (s2\<lparr>data := grant_code env t (fst secrets) (snd secrets) r (data s2)\<rparr>)
                   in if \<not> disk then (s3, Thrown)
                      else (log_audit ''consent_approved'' (pr_clientId r) s3,
                            RedirectTo (pr_redirectUri r) [(''code'', snd secrets)] (pr_state r))))"

subsection \<open>The token endpoint\<close>

text \<open>The resource a request names must be the server's; an absent or empty one passes.\<close>

definition wrong_resource :: "oauth_env \<Rightarrow> form \<Rightarrow> bool" where
  "wrong_resource env form = (case form_get form ''resource'' of
      None \<Rightarrow> False | Some v \<Rightarrow> v \<noteq> [] \<and> \<not> sameResource env (Some v))"

definition invalidTarget :: reply where
  "invalidTarget = oauthError 400 ''invalid_target'' ''resource must be the ultrathink MCP endpoint.''"

definition saveFailed :: reply where
  "saveFailed = oauthError 500 ''server_error'' ''OAuth state could not be saved.''"

text \<open>Tokens are handed out only once saved: when the save fails the store is put back as it was.
  Pruning the pending table is not undone.\<close>

definition issue_saved :: "oauth_env \<Rightarrow> int \<Rightarrow> bool \<Rightarrow> string \<times> string \<Rightarrow> string \<Rightarrow> string \<Rightarrow> string \<Rightarrow> string option
    \<Rightarrow> string \<Rightarrow> StoreShape \<Rightarrow> oauth \<Rightarrow> oauth \<times> reply" where
  "issue_saved env t disk secrets g clientId res scope event snapshot s =
     (let s' = persist disk t (issueTokens env t secrets g clientId res scope s)
      in if disk then (log_audit event clientId s', TokensJson (fst secrets) (snd secrets) scope)
         else (s'\<lparr>data := snapshot\<rparr>, saveFailed))"

definition exchangeCode :: "oauth_env \<Rightarrow> form \<Rightarrow> string \<Rightarrow> int \<Rightarrow> bool \<Rightarrow> string \<times> string \<Rightarrow> oauth \<Rightarrow> oauth \<times> reply" where
  "exchangeCode env form clientId t disk secrets s =
     (let key = oe_digest env (form_text form ''code'') in
      case jm_get (codes (data s)) key of
        None \<Rightarrow> (s, invalidGrant ''The authorization is invalid or expired.'')
      | Some r \<Rightarrow>
          if co_used r
          then saving disk t (revokeGrant (co_grantId r) s) (invalidGrant ''The authorization code was already used.'')
          else if co_expiresAt r \<le> t then (s, invalidGrant ''The authorization code expired.'')
          else if co_clientId r \<noteq> clientId \<or> co_redirectUri r \<noteq> form_text form ''redirect_uri''
          then (s, invalidGrant ''The code does not match this request.'')
          else if wrong_resource env form then (s, invalidTarget)
          else if \<not> pkceMatches env (form_text form ''code_verifier'') (co_codeChallenge r)
          then (s, invalidGrant ''PKCE verification failed.'')
          else let s1 = s\<lparr>data := (data s)\<lparr>codes := jm_set key (r\<lparr>co_used := True\<rparr>) (codes (data s))\<rparr>\<rparr>
               in issue_saved env t disk secrets (co_grantId r) (co_clientId r) (co_resource r) (co_scope r)
                    ''code_exchanged'' (data s) s1)"

definition refreshGrant :: "oauth_env \<Rightarrow> form \<Rightarrow> string \<Rightarrow> int \<Rightarrow> bool \<Rightarrow> string \<times> string \<Rightarrow> oauth \<Rightarrow> oauth \<times> reply" where
  "refreshGrant env form clientId t disk secrets s =
     (let key = oe_digest env (form_text form ''refresh_token'') in
      case jm_get (tokens (data s)) key of
        None \<Rightarrow> (s, invalidGrant ''The refresh token is unknown.'')
      | Some r \<Rightarrow>
          if tk_kind r \<noteq> Refresh_kind then (s, invalidGrant ''The refresh token is unknown.'')
          else if tk_clientId r \<noteq> clientId then (s, invalidGrant ''The refresh token belongs to another client.'')
          else if tk_used r
          then (let (s', answer) = saving disk t (revokeGrant (tk_grantId r) s) (invalidGrant ''The refresh token was already used.'')
                in (if disk then log_audit ''refresh_reuse_detected'' clientId s' else s', answer))
          else if tk_expiresAt r \<le> t then (s, invalidGrant ''The refresh token expired.'')
          else if jm_get (grants (data s)) (tk_grantId r) = None then (s, invalidGrant ''The grant was revoked.'')
          else if wrong_resource env form then (s, invalidTarget)
          else let r' = r\<lparr>tk_used := True, tk_expiresAt := min (tk_expiresAt r) (t + SPENT_REFRESH_TTL_MS)\<rparr>;
                   s1 = s\<lparr>data := (data s)\<lparr>tokens := jm_set key r' (tokens (data s))\<rparr>\<rparr>
               in issue_saved env t disk secrets (tk_grantId r) (tk_clientId r) (tk_resource r) (tk_scope r)
                    ''token_refreshed'' (data s) s1)"

definition limited :: "string \<Rightarrow> int \<Rightarrow> reply" where
  "limited description wait = ErrorJson 429 ''temporarily_unavailable'' description (Some wait)"

text \<open>The endpoint after the limits: the client, its grant types, and the grant asked for.\<close>

definition token_grant :: "oauth_env \<Rightarrow> form \<Rightarrow> int \<Rightarrow> bool \<Rightarrow> string \<times> string \<Rightarrow> oauth \<Rightarrow> oauth \<times> reply" where
  "token_grant env form t disk secrets s =
     (let clientId = form_text form ''client_id'' in
      case form_get form ''grant_type'' of
        None \<Rightarrow> (s, oauthError 400 ''unsupported_grant_type'' ''Use authorization_code or refresh_token.'')
      | Some grantType \<Rightarrow>
          if grantType \<noteq> ''authorization_code'' \<and> grantType \<noteq> ''refresh_token''
          then (s, oauthError 400 ''unsupported_grant_type'' ''Use authorization_code or refresh_token.'')
          else (case jm_get (clients (data s)) clientId of
              None \<Rightarrow> (s, invalidClient)
            | Some client \<Rightarrow>
                let s1 = touch_client t clientId client s in
                if grantType \<notin> set (cl_grantTypes client)
                then (s1, oauthError 400 ''unauthorized_client'' (''The client was not registered for grant_type '' @ grantType @ ''.''))
                else if grantType = ''authorization_code'' then exchangeCode env form clientId t disk secrets s1
                else refreshGrant env form clientId t disk secrets s1))"

definition token :: "oauth_env \<Rightarrow> body \<Rightarrow> string \<Rightarrow> int \<Rightarrow> bool \<Rightarrow> string \<times> string \<Rightarrow> oauth \<Rightarrow> oauth \<times> reply" where
  "token env b ip t disk secrets s0 =
     (let (ws, wait) = rate_hit TOKEN_LIMIT ip t (tokenLimiter s0); s = s0\<lparr>tokenLimiter := ws\<rparr> in
      case wait of
        Some w \<Rightarrow> (s, limited ''Too many token requests. Try again later.'' w)
      | None \<Rightarrow>
        (case readBodyText b MAX_FORM_BYTES of
           None \<Rightarrow> (s, oauthError 400 ''invalid_request'' ''The request body is too large.'')
         | Some text \<Rightarrow>
            let form = oe_form env text; clientId = form_text form ''client_id'' in
            (case formRefusal form TOKEN_FORM of
               Some refused \<Rightarrow> (s, refuseForm refused)
             | None \<Rightarrow>
                 if clientId = [] then token_grant env form t disk secrets s
                 else (let (ws, wait) = rate_hit TOKEN_CLIENT_LIMIT (''client:'' @ clientId) t (tokenClientLimiter s);
                           s1 = s\<lparr>tokenClientLimiter := ws\<rparr>
                       in case wait of
                            Some w \<Rightarrow> (s1, limited ''Too many token requests. Try again later.'' w)
                          | None \<Rightarrow> token_grant env form t disk secrets s1))))"

definition revoke :: "oauth_env \<Rightarrow> body \<Rightarrow> string \<Rightarrow> int \<Rightarrow> bool \<Rightarrow> oauth \<Rightarrow> oauth \<times> reply" where
  "revoke env b ip t disk s0 =
     (let (ws, wait) = rate_hit REVOKE_LIMIT ip t (revokeLimiter s0); s = s0\<lparr>revokeLimiter := ws\<rparr> in
      case wait of
        Some w \<Rightarrow> (s, limited ''Too many revocation requests. Try again later.'' w)
      | None \<Rightarrow>
        (case readBodyText b MAX_FORM_BYTES of
           None \<Rightarrow> (s, oauthError 400 ''invalid_request'' ''The request body is too large.'')
         | Some text \<Rightarrow>
            let form = oe_form env text; presented = form_text form ''token''; clientId = form_text form ''client_id'' in
            (case formRefusal form REVOKE_FORM of
               Some refused \<Rightarrow> (s, refuseForm refused)
             | None \<Rightarrow>
                 if presented = [] then (s, oauthError 400 ''invalid_request'' ''token is required.'')
                 else (case jm_get (tokens (data s)) (oe_digest env presented) of
                     None \<Rightarrow> (s, RevokedOk)
                   | Some r \<Rightarrow>
                       if clientId \<noteq> [] \<and> clientId \<noteq> tk_clientId r then (s, RevokedOk)
                       else let s1 = persist disk t (revokeGrant (tk_grantId r) s)
                            in if disk then (log_audit ''token_revoked'' (tk_clientId r) s1, RevokedOk) else (s1, Thrown)))))"

definition verifyAccessToken :: "oauth_env \<Rightarrow> oauth \<Rightarrow> int \<Rightarrow> string \<Rightarrow> bool" where
  "verifyAccessToken env s t presented =
     (if presented = [] then False
      else case jm_get (tokens (data s)) (oe_digest env presented) of
        None \<Rightarrow> False
      | Some r \<Rightarrow>
          if tk_kind r \<noteq> Access then False
          else if tk_expiresAt r \<le> t then False
          else if tk_resource r \<noteq> resource_of env then False
          else jm_get (grants (data s)) (tk_grantId r) \<noteq> None)"

datatype bearer = BearerValid | BearerInvalid | BearerAbsent

definition classifyBearer :: "oauth_env \<Rightarrow> oauth \<Rightarrow> int \<Rightarrow> string option \<Rightarrow> bearer" where
  "classifyBearer env s t presented = (case presented of
      None \<Rightarrow> BearerAbsent
    | Some p \<Rightarrow> if p = [] then BearerAbsent else if verifyAccessToken env s t p then BearerValid else BearerInvalid)"

subsection \<open>Registration\<close>

text \<open>The oldest client that never had a grant and whose approval is not being checked.\<close>

fun oldest_victim :: "string list \<Rightarrow> (string \<times> int) option \<Rightarrow> (string, ClientRecord) jmap \<Rightarrow> (string \<times> int) option" where
  "oldest_victim safe best [] = best"
| "oldest_victim safe best ((i, c) # cs) =
     oldest_victim safe
       (if cl_grantedAt c = None \<and> i \<notin> set safe
           \<and> (case best of None \<Rightarrow> True | Some (_, oldest) \<Rightarrow> cl_createdAt c < oldest)
        then Some (i, cl_createdAt c) else best) cs"

definition approving_clients :: "oauth \<Rightarrow> string list" where
  "approving_clients s = map pr_clientId (List.map_filter (pending_get s) (approving s))"

definition makeRoomForClient :: "oauth_env \<Rightarrow> int \<Rightarrow> oauth \<Rightarrow> oauth \<times> bool" where
  "makeRoomForClient env t s0 =
     (let s = prune t s0 in
      if length (clients (data s)) < oe_maxClients env then (s, True)
      else case oldest_victim (approving_clients s) None (clients (data s)) of
        None \<Rightarrow> (s, False)
      | Some (victim, _) \<Rightarrow>
          (s\<lparr>data := (data s)\<lparr>clients := jm_delete victim (clients (data s))\<rparr>,
             pending := filter (\<lambda>k. case pending_get s k of Some r \<Rightarrow> pr_clientId r \<noteq> victim | None \<Rightarrow> True) (pending s)\<rparr>, True))"

definition nullish :: "js \<Rightarrow> js \<Rightarrow> js" where
  "nullish v d = (if v = JUndef \<or> v = JNull then d else v)"

definition js_strings :: "string list \<Rightarrow> js" where
  "js_strings xs = JArr (map JStr xs)"

definition string_items :: "js \<Rightarrow> string list" where
  "string_items v = (case v of JArr xs \<Rightarrow> List.map_filter (\<lambda>x. case x of JStr s \<Rightarrow> Some s | _ \<Rightarrow> None) xs | _ \<Rightarrow> [])"

definition js_text :: "js \<Rightarrow> string" where
  "js_text v = (case v of JStr s \<Rightarrow> s | _ \<Rightarrow> [])"

definition register_values :: "(string \<times> js) list \<Rightarrow> (string \<times> js) list" where
  "register_values b = [
     (''redirect_uris'', obj_get b ''redirect_uris''),
     (''token_endpoint_auth_method'', if obj_get b ''token_endpoint_auth_method'' = JUndef then JStr ''none''
        else obj_get b ''token_endpoint_auth_method''),
     (''grant_types'', nullish (obj_get b ''grant_types'') (js_strings DEFAULT_GRANT_TYPES)),
     (''response_types'', nullish (obj_get b ''response_types'') (js_strings [''code''])),
     (''client_name'', nullish (obj_get b ''client_name'') (JStr []))]"

definition redirectHelp :: "oauth_env \<Rightarrow> string" where
  "redirectHelp env = ''Register 1 to '' @ dec MAX_REDIRECT_URIS @ '' redirect URIs: https on an allowed origin (''
     @ js_join '', '' (normalizeOrigins env) @ '') or loopback http.''"

definition register_refused :: "oauth_env \<Rightarrow> string \<Rightarrow> reply" where
  "register_refused env field =
     (if field = ''token_endpoint_auth_method''
      then oauthError 400 ''invalid_client_metadata'' ''Only token_endpoint_auth_method none is supported (PKCE public clients).''
      else if field = ''grant_types''
      then oauthError 400 ''invalid_client_metadata'' ''Supported grant types: authorization_code, refresh_token.''
      else if field = ''response_types''
      then oauthError 400 ''invalid_client_metadata'' ''Only response_type code is supported.''
      else if field = ''client_name''
      then oauthError 400 ''invalid_client_metadata'' ''client_name must be text without control characters.''
      else oauthError 400 ''invalid_redirect_uri'' (redirectHelp env))"

text \<open>\<^verbatim>\<open>[...new Set(xs)]\<close>: the first occurrences, in order.\<close>

definition unique_items :: "string list \<Rightarrow> string list" where
  "unique_items xs = foldl (\<lambda>acc x. if x \<in> set acc then acc else acc @ [x]) [] xs"

definition shown_name :: "string \<Rightarrow> string" where
  "shown_name raw = (let n = js_trim (take MAX_NAME_CHARS raw) in if n = [] then ''MCP client'' else n)"

definition add_client :: "oauth_env \<Rightarrow> (string \<times> js) list \<Rightarrow> string \<Rightarrow> int \<Rightarrow> bool \<Rightarrow> oauth \<Rightarrow> oauth \<times> reply" where
  "add_client env flds random t disk s0 =
     (let uris = unique_items (string_items (obj_get flds ''redirect_uris''));
          types = unique_items (string_items (obj_get flds ''grant_types''));
          (s, room) = makeRoomForClient env t s0
      in if \<not> room then (s, oauthError 503 ''temporarily_unavailable'' ''Client registration is full.'')
         else let name = shown_name (js_text (obj_get flds ''client_name''));
                  i = ''ut_client_'' @ random;
                  c = \<lparr>cl_name = name, cl_redirectUris = uris, cl_createdAt = t, cl_grantTypes = types,
                       cl_grantedAt = None, cl_lastUsedAt = Some t\<rparr>;
                  s1 = persist disk t (s\<lparr>data := (data s)\<lparr>clients := jm_set i c (clients (data s))\<rparr>\<rparr>)
              in if disk then (log_audit ''client_registered'' i s1, RegisteredJson i name uris types (t div 1000))
                 else (s1, Thrown))"

definition register :: "oauth_env \<Rightarrow> string option \<Rightarrow> body \<Rightarrow> string \<Rightarrow> string \<Rightarrow> int \<Rightarrow> bool \<Rightarrow> oauth \<Rightarrow> oauth \<times> reply" where
  "register env contentType b ip random t disk s0 =
     (let (ws, wait) = rate_hit REGISTER_LIMIT ip t (registerLimiter s0); s = s0\<lparr>registerLimiter := ws\<rparr> in
      case wait of
        Some w \<Rightarrow> (s, limited ''Too many registrations. Try again later.'' w)
      | None \<Rightarrow>
         if \<not> isJsonRequest contentType
         then (s, oauthError 415 ''invalid_client_metadata'' ''Content-Type must be application/json.'')
         else (case readBodyText b MAX_FORM_BYTES of
             None \<Rightarrow> (s, oauthError 413 ''invalid_client_metadata'' ''The request is too large.'')
           | Some text \<Rightarrow> (case oe_json env text of
               Some (JObj obj) \<Rightarrow>
                 (case checkedFields REGISTER_BODY (register_values obj) of
                    Inl (field, _) \<Rightarrow> (s, register_refused env field)
                  | Inr v \<Rightarrow> (case v of
                      JObj flds \<Rightarrow>
                        if \<not> list_all (redirectAllowed env) (string_items (obj_get flds ''redirect_uris''))
                        then (s, register_refused env ''redirect_uris'')
                        else add_client env flds random t disk s
                    | _ \<Rightarrow> (s, Thrown)))
             | _ \<Rightarrow> (s, oauthError 400 ''invalid_client_metadata'' ''The body must be a JSON object.''))))"

subsection \<open>The server\<close>

definition emptyStore :: StoreShape where
  "emptyStore = \<lparr>clients = [], grants = [], codes = [], tokens = []\<rparr>"

text \<open>The clients of a store saved before grants were dated.\<close>

definition date_grants :: "StoreShape \<Rightarrow> StoreShape" where
  "date_grants d = foldl (\<lambda>d (_, g). case jm_get (clients d) (gr_clientId g) of
      Some c \<Rightarrow> if cl_grantedAt c = None
        then d\<lparr>clients := jm_set (gr_clientId g) (c\<lparr>cl_grantedAt := Some (gr_createdAt g)\<rparr>) (clients d)\<rparr> else d
    | None \<Rightarrow> d) d (grants d)"

text \<open>A start from what was saved; a request whose signature does not verify is dropped.\<close>

definition createOAuth :: "oauth_env \<Rightarrow> (StoreShape \<times> (string \<times> PendingRequest) list) option \<Rightarrow> oauth" where
  "createOAuth env file =
     (let (d, waiting) = (case file of Some f \<Rightarrow> f | None \<Rightarrow> (emptyStore, []));
          trusted = filter (trustedPending env) waiting
      in \<lparr>data = date_grants d, requests = trusted, pending = map fst trusted, approving = [],
          registerLimiter = [], authorizeLimiter = [], tokenLimiter = [], tokenClientLimiter = [], revokeLimiter = [],
          sweeping = (trusted \<noteq> []), saved = file, audited = []\<rparr>)"

datatype oauth_event =
    Register "string option" body string string int bool
  | AuthorizeGet form string "string \<times> string" int bool
  | AuthorizePost body string bool int bool
  | FinishApproval string string string login_result "string \<times> string" int bool
  | Token body string "string \<times> string" int bool
  | Revoke body string int bool
  | Sweep int bool
  | Restart

text \<open>\<^verbatim>\<open>authorize\<close>: GET and POST share one budget.\<close>

definition authorize :: "int \<Rightarrow> string \<Rightarrow> (oauth \<Rightarrow> oauth \<times> reply) \<Rightarrow> oauth \<Rightarrow> oauth \<times> reply" where
  "authorize t ip handler s0 =
     (let (ws, wait) = rate_hit AUTHORIZE_LIMIT ip t (authorizeLimiter s0); s = s0\<lparr>authorizeLimiter := ws\<rparr> in
      case wait of
        Some w \<Rightarrow> (s, ErrorPage 429 ''Too many requests. Wait and try again.'' (Some w))
      | None \<Rightarrow> handler s)"

fun oauth_step :: "oauth_env \<Rightarrow> oauth \<Rightarrow> oauth_event \<Rightarrow> oauth \<times> reply" where
  "oauth_step env s (Register contentType b ip random t disk) = register env contentType b ip random t disk s"
| "oauth_step env s (AuthorizeGet params ip secrets t disk) = authorize t ip (authorizeGet env params t disk secrets) s"
| "oauth_step env s (AuthorizePost b ip attemptOk t disk) = authorize t ip (authorizePost env b t disk attemptOk) s"
| "oauth_step env s (FinishApproval requestId ip key result secrets t disk) =
     finish_approval env requestId ip key result secrets t disk s"
| "oauth_step env s (Token b ip secrets t disk) = token env b ip t disk secrets s"
| "oauth_step env s (Revoke b ip t disk) = revoke env b ip t disk s"
| "oauth_step env s (Sweep t disk) = (sweep disk t s, NoReply)"
| "oauth_step env s Restart = ((createOAuth env (saved s))\<lparr>audited := audited s\<rparr>, NoReply)"

subsection \<open>What every step keeps of the store\<close>

text \<open>A property of the store in memory and of the one on disk.\<close>

definition store_holds :: "(StoreShape \<Rightarrow> bool) \<Rightarrow> oauth \<Rightarrow> bool" where
  "store_holds Q s = (Q (data s) \<and> (case saved s of None \<Rightarrow> True | Some f \<Rightarrow> Q (fst f)))"

text \<open>An event draws only admitted secrets: the tokens it may issue, the grant and the code it may create.\<close>

definition event_admits :: "oauth_env \<Rightarrow> (string \<Rightarrow> bool) \<Rightarrow> (string \<Rightarrow> bool) \<Rightarrow> oauth_event \<Rightarrow> bool" where
  "event_admits env key_ok grant_ok e = (case e of
      Token _ _ secrets _ _ \<Rightarrow> key_ok (oe_digest env (fst secrets)) \<and> key_ok (oe_digest env (snd secrets))
    | FinishApproval _ _ _ LoginOk secrets _ _ \<Rightarrow> grant_ok (fst secrets) \<and> key_ok (oe_digest env (snd secrets))
    | _ \<Rightarrow> True)"

text \<open>The contract a property of the store has to meet for every endpoint to keep it: it ignores the
  clients, survives the removals of pruning and revocation, the marking of spent codes and tokens,
  and the records of the keys and grant ids that \<open>key_ok\<close> and \<open>grant_ok\<close> admit.\<close>

locale store_property =
  fixes Q :: "StoreShape \<Rightarrow> bool"
    and key_ok :: "string \<Rightarrow> bool"
    and grant_ok :: "string \<Rightarrow> bool"
  assumes q_empty: "Q emptyStore"
    and q_clients: "Q (d\<lparr>clients := cs\<rparr>) = Q d"
    and q_sweep: "Q d \<Longrightarrow> Q (d\<lparr>codes := jm_sweep p (codes d), tokens := jm_sweep q (tokens d)\<rparr>)"
    and q_grants: "Q d \<Longrightarrow> Q (d\<lparr>grants := filter h (grants d)\<rparr>)"
    and q_touch: "Q d \<Longrightarrow> jm_get (grants d) g = Some r \<Longrightarrow> Q (d\<lparr>grants := jm_set g r' (grants d)\<rparr>)"
    and q_use_code: "Q d \<Longrightarrow> jm_get (codes d) k = Some c \<Longrightarrow> co_used c' \<Longrightarrow> Q (d\<lparr>codes := jm_set k c' (codes d)\<rparr>)"
    and q_use_token: "Q d \<Longrightarrow> jm_get (tokens d) k = Some u \<Longrightarrow> tk_used u' \<Longrightarrow> Q (d\<lparr>tokens := jm_set k u' (tokens d)\<rparr>)"
    and q_issue: "Q d \<Longrightarrow> key_ok k \<Longrightarrow> Q (d\<lparr>tokens := jm_set k u (tokens d)\<rparr>)"
    and q_approve: "Q d \<Longrightarrow> grant_ok g \<Longrightarrow> key_ok k \<Longrightarrow>
      Q (d\<lparr>grants := jm_set g r (grants d), codes := jm_set k c (codes d)\<rparr>)"
begin

abbreviation keeps :: "oauth \<Rightarrow> bool" where
  "keeps \<equiv> store_holds Q"

lemma keeps_cong: "keeps s \<Longrightarrow> data s' = data s \<Longrightarrow> saved s' = saved s \<Longrightarrow> keeps s'"
  by (simp add: store_holds_def)

lemma keeps_data: "keeps s \<Longrightarrow> Q d \<Longrightarrow> saved s' = saved s \<Longrightarrow> data s' = d \<Longrightarrow> keeps s'"
  by (simp add: store_holds_def)

lemma q_prune: "Q d \<Longrightarrow> Q (d\<lparr>codes := jm_sweep p (codes d), tokens := jm_sweep q (tokens d), grants := filter h (grants d)\<rparr>)"
  using q_grants [OF q_sweep [where d = d and p = p and q = q], where h = h] by simp

lemma keepsD: "keeps s \<Longrightarrow> Q (data s)"
  by (simp add: store_holds_def)

lemma keeps_prune: "keeps s \<Longrightarrow> keeps (prune t s)"
  by (simp add: store_holds_def prune_def prune_pending_def Let_def q_clients q_prune)

lemma keeps_flush: "keeps s \<Longrightarrow> keeps (flush_store disk s)"
  by (simp add: flush_store_def store_holds_def store_of_def)

lemma keeps_persist: "keeps s \<Longrightarrow> keeps (persist disk t s)"
  by (simp add: persist_def keeps_flush keeps_prune)

lemma keeps_saving: "keeps s \<Longrightarrow> keeps (fst (saving disk t s answer))"
  by (simp add: saving_def keeps_persist)

lemma keeps_log: "keeps (log_audit e w s) = keeps s"
  by (simp add: log_audit_def store_holds_def)

lemma keeps_touch_client: "keeps s \<Longrightarrow> keeps (touch_client t i c s)"
  by (simp add: touch_client_def store_holds_def q_clients)

lemma keeps_revokeGrant: "keeps s \<Longrightarrow> keeps (revokeGrant g s)"
proof -
  assume "keeps s"
  have swap: "e\<lparr>tokens := ts, codes := cs\<rparr> = e\<lparr>codes := cs, tokens := ts\<rparr>" for e :: StoreShape and ts cs by simp
  have delete_filter: "jm_delete g m = filter (\<lambda>x. fst x \<noteq> g) m" for m :: "(string, GrantRecord) jmap"
    by (auto simp: AList.delete_eq split_def intro: filter_cong)
  have "Q d \<Longrightarrow> Q (d\<lparr>grants := jm_delete g (grants d), tokens := jm_sweep p (tokens d), codes := jm_sweep q (codes d)\<rparr>)"
    for d p q
  proof -
    assume "Q d"
    then have "Q (d\<lparr>grants := filter (\<lambda>x. fst x \<noteq> g) (grants d)\<rparr>)" by (rule q_grants)
    from q_sweep [OF this, where p = q and q = p] show ?thesis by (simp add: delete_filter swap)
  qed
  with \<open>keeps s\<close> show ?thesis by (simp add: store_holds_def revokeGrant_def)
qed

lemma q_touch_grant: "Q d \<Longrightarrow> Q (touch_grant t g d)"
  using q_touch by (auto simp: touch_grant_def split: option.splits)

lemma keeps_issueTokens:
  "keeps s \<Longrightarrow> key_ok (oe_digest env (fst secrets)) \<Longrightarrow> key_ok (oe_digest env (snd secrets)) \<Longrightarrow>
    keeps (issueTokens env t secrets g i res scope s)"
proof -
  assume *: "keeps s" "key_ok (oe_digest env (fst secrets))" "key_ok (oe_digest env (snd secrets))"
  then have "Q (data s)" by (simp add: store_holds_def)
  from q_issue [OF q_issue [OF this *(2)] *(3)] *(1) show ?thesis
    by (auto simp: store_holds_def issueTokens_def intro!: q_touch_grant)
qed

lemma keeps_issue_saved:
  "keeps s \<Longrightarrow> Q d \<Longrightarrow> key_ok (oe_digest env (fst secrets)) \<Longrightarrow> key_ok (oe_digest env (snd secrets)) \<Longrightarrow>
    keeps (fst (issue_saved env t disk secrets g i res scope ev d s))"
  using keeps_persist [OF keeps_issueTokens] by (simp add: issue_saved_def Let_def keeps_log) (simp add: store_holds_def)

lemma keeps_use_code:
  "keeps s \<Longrightarrow> jm_get (codes (data s)) k = Some c \<Longrightarrow>
    keeps (s\<lparr>data := (data s)\<lparr>codes := jm_set k (c\<lparr>co_used := True\<rparr>) (codes (data s))\<rparr>\<rparr>)"
  by (simp add: store_holds_def q_use_code)

lemma keeps_use_token:
  "keeps s \<Longrightarrow> jm_get (tokens (data s)) k = Some u \<Longrightarrow>
    keeps (s\<lparr>data := (data s)\<lparr>tokens := jm_set k (u\<lparr>tk_used := True, tk_expiresAt := e\<rparr>) (tokens (data s))\<rparr>\<rparr>)"
  by (simp add: store_holds_def q_use_token)

lemma keeps_exchangeCode:
  assumes "keeps s" "key_ok (oe_digest env (fst secrets))" "key_ok (oe_digest env (snd secrets))"
  shows "keeps (fst (exchangeCode env form i t disk secrets s))"
proof (cases "jm_get (codes (data s)) (oe_digest env (form_text form ''code''))")
  case None
  with assms(1) show ?thesis by (simp add: exchangeCode_def Let_def)
next
  case (Some r)
  note used = keeps_issue_saved [OF keeps_use_code [OF assms(1) Some] keepsD [OF assms(1)] assms(2,3)]
  show ?thesis
    unfolding exchangeCode_def Let_def Some option.case
    using assms(1) used keeps_saving [OF keeps_revokeGrant [OF assms(1)]] by simp
qed

lemma keeps_refreshGrant:
  assumes "keeps s" "key_ok (oe_digest env (fst secrets))" "key_ok (oe_digest env (snd secrets))"
  shows "keeps (fst (refreshGrant env form i t disk secrets s))"
proof (cases "jm_get (tokens (data s)) (oe_digest env (form_text form ''refresh_token''))")
  case None
  with assms(1) show ?thesis by (simp add: refreshGrant_def Let_def)
next
  case (Some r)
  note used = keeps_issue_saved [OF keeps_use_token [OF assms(1) Some] keepsD [OF assms(1)] assms(2,3)]
  show ?thesis
    unfolding refreshGrant_def Let_def Some option.case saving_def prod.case
    using assms(1) used keeps_persist [OF keeps_revokeGrant [OF assms(1)]] by (simp add: keeps_log)
qed

lemma keeps_limits [simp]:
  "keeps (s\<lparr>registerLimiter := ws\<rparr>) = keeps s" "keeps (s\<lparr>authorizeLimiter := ws\<rparr>) = keeps s"
  "keeps (s\<lparr>tokenLimiter := ws\<rparr>) = keeps s" "keeps (s\<lparr>tokenClientLimiter := ws\<rparr>) = keeps s"
  "keeps (s\<lparr>revokeLimiter := ws\<rparr>) = keeps s" "keeps (s\<lparr>sweeping := b\<rparr>) = keeps s"
  "keeps (s\<lparr>approving := ks\<rparr>) = keeps s" "keeps (s\<lparr>pending := ks\<rparr>) = keeps s"
  "keeps (set_request k r s) = keeps s" "keeps (s\<lparr>audited := l\<rparr>) = keeps s"
  by (simp_all add: store_holds_def set_request_def)

lemma keeps_token:
  assumes "keeps s" "key_ok (oe_digest env (fst secrets))" "key_ok (oe_digest env (snd secrets))"
  shows "keeps (fst (token env b ip t disk secrets s))"
proof -
  have grant: "keeps v \<Longrightarrow> keeps (fst (token_grant env form t disk secrets v))" for v form
    using keeps_touch_client [of v] keeps_exchangeCode [OF _ assms(2,3)] keeps_refreshGrant [OF _ assms(2,3)]
    by (simp add: token_grant_def Let_def split: option.split)
  show ?thesis using assms(1) by (simp add: token_def Let_def grant split: option.split prod.split)
qed

lemma keeps_revoke: "keeps s \<Longrightarrow> keeps (fst (revoke env b ip t disk s))"
  using keeps_persist [OF keeps_revokeGrant]
  by (simp add: revoke_def Let_def keeps_log split: option.split prod.split)

lemma keeps_open_request: "keeps s \<Longrightarrow> keeps (fst (open_request env params t disk secrets c s))"
  by (simp add: open_request_def Let_def keeps_saving split: sum.split)

lemma keeps_authorizeGet: "keeps s \<Longrightarrow> keeps (fst (authorizeGet env params t disk secrets s))"
  by (simp add: authorizeGet_def Let_def keeps_prune keeps_touch_client keeps_open_request split: option.split)

lemma keeps_begin_approval: "keeps s \<Longrightarrow> keeps (fst (begin_approval requestId key ok s))"
  by (simp add: begin_approval_def split: option.split)

lemma keeps_tick: "keeps s \<Longrightarrow> tickApproval env key t s = (s', st) \<Longrightarrow> keeps s'"
  by (auto simp: tickApproval_def Let_def split: option.splits sum.splits if_splits)

lemma keeps_authorizePost: "keeps s \<Longrightarrow> keeps (fst (authorizePost env b t disk ok s))"
  by (auto simp: authorizePost_def Let_def dest: keeps_tick
      intro!: keeps_saving keeps_persist keeps_flush keeps_prune keeps_begin_approval split: option.split prod.split)

lemma keeps_grant_code: "Q d \<Longrightarrow> grant_ok g \<Longrightarrow> key_ok (oe_digest env code) \<Longrightarrow> Q (grant_code env t g code r d)"
proof -
  assume *: "Q d" "grant_ok g" "key_ok (oe_digest env code)"
  have swap: "e\<lparr>grants := gs, clients := cs, codes := ks\<rparr> = (e\<lparr>grants := gs, codes := ks\<rparr>)\<lparr>clients := cs\<rparr>"
    for e :: StoreShape and gs cs ks by simp
  show ?thesis
  proof (cases "jm_get (clients d) (pr_clientId r)")
    case None
    with * show ?thesis by (simp add: grant_code_def Let_def q_approve)
  next
    case (Some c)
    show ?thesis
    proof (cases "cl_grantedAt c")
      case None
      with * Some show ?thesis
        by (simp add: grant_code_def Let_def swap q_approve q_clients)
    next
      case (Some _)
      with * \<open>jm_get (clients d) (pr_clientId r) = Some c\<close> show ?thesis
        by (simp add: grant_code_def Let_def q_approve)
    qed
  qed
qed

lemma keeps_finish_approval:
  assumes "keeps s" "result = LoginOk \<Longrightarrow> grant_ok (fst secrets) \<and> key_ok (oe_digest env (snd secrets))"
  shows "keeps (fst (finish_approval env requestId ip key result secrets t disk s))"
proof -
  have approve: "keeps v \<Longrightarrow> result = LoginOk \<Longrightarrow>
      keeps (persist dk t (v\<lparr>data := grant_code env t (fst secrets) (snd secrets) r (data v)\<rparr>))" for v r dk
    using assms(2) by (intro keeps_persist) (simp add: store_holds_def keeps_grant_code)
  have finish: "keeps v \<Longrightarrow> result = LoginOk \<Longrightarrow>
      keeps (persist dk t (v\<lparr>pending := ps, data := grant_code env t (fst secrets) (snd secrets) r (data v)\<rparr>))" for v r ps dk
    using approve [of "v\<lparr>pending := ps\<rparr>" dk r] by simp
  show ?thesis
    using assms(1) finish
    by (simp add: finish_approval_def Let_def keeps_log split: option.split login_result.split)
qed

lemma keeps_sweep: "keeps s \<Longrightarrow> keeps (sweep disk t s)"
  by (simp add: sweep_def Let_def keeps_flush keeps_prune)

lemma keeps_makeRoom: "keeps s \<Longrightarrow> makeRoomForClient env t s = (s', ok) \<Longrightarrow> keeps s'"
  using keeps_prune [of s t]
  by (auto simp: makeRoomForClient_def Let_def store_holds_def q_clients split: option.splits if_splits)

lemma keeps_register: "keeps s \<Longrightarrow> keeps (fst (register env ct b ip random t disk s))"
proof -
  assume "keeps s"
  have add: "keeps v \<Longrightarrow> keeps (fst (add_client env flds random t disk v))" for v flds
  proof -
    assume v: "keeps v"
    obtain v' ok where room: "makeRoomForClient env t v = (v', ok)" by fastforce
    have "keeps v'" by (rule keeps_makeRoom [OF v room])
    then have "keeps (persist dk t (v'\<lparr>data := (data v')\<lparr>clients := cs\<rparr>\<rparr>))" for cs dk
      by (intro keeps_persist) (simp add: store_holds_def q_clients)
    with \<open>keeps v'\<close> show ?thesis by (simp add: add_client_def room Let_def keeps_log)
  qed
  with \<open>keeps s\<close> show ?thesis
    by (simp add: register_def Let_def split: option.split prod.split sum.split js.split)
qed

lemma date_grants_clients: "\<exists>cs. date_grants d = d\<lparr>clients := cs\<rparr>"
proof -
  have "\<exists>cs. foldl (\<lambda>d (_, g). case jm_get (clients d) (gr_clientId g) of
      Some c \<Rightarrow> if cl_grantedAt c = None
        then d\<lparr>clients := jm_set (gr_clientId g) (c\<lparr>cl_grantedAt := Some (gr_createdAt g)\<rparr>) (clients d)\<rparr> else d
    | None \<Rightarrow> d) (d\<lparr>clients := cs0\<rparr>) gs = d\<lparr>clients := cs\<rparr>" for cs0 and gs :: "('k \<times> GrantRecord) list"
  proof (induction gs arbitrary: cs0)
    case (Cons x gs)
    then show ?case by (cases x) (simp split: option.split)
  qed auto
  from this [of "clients d" "grants d"] show ?thesis by (simp add: date_grants_def)
qed

lemma keeps_create: "(case file of None \<Rightarrow> True | Some f \<Rightarrow> Q (fst f)) \<Longrightarrow> keeps (createOAuth env file)"
proof -
  assume stored: "case file of None \<Rightarrow> True | Some f \<Rightarrow> Q (fst f)"
  have "Q (date_grants d) = Q d" for d using date_grants_clients [of d] q_clients by metis
  then show ?thesis using stored q_empty
    by (cases "file") (simp_all add: createOAuth_def store_holds_def Let_def split_def)
qed

lemma step_keeps: 
  assumes "keeps s" and ok: "event_admits env key_ok grant_ok e"
  shows "keeps (fst (oauth_step env s e))"
proof -
  have authorized: "keeps (fst (authorize t ip h s))" if "\<And>v. keeps v \<Longrightarrow> keeps (fst (h v))" for t ip h
    using that assms(1) by (simp add: authorize_def Let_def split: option.split prod.split)
  show ?thesis
  proof (cases e)
    case (AuthorizeGet f ip sec t d)
    then show ?thesis by (simp add: authorized keeps_authorizeGet)
  next
    case (AuthorizePost b ip a t d)
    then show ?thesis by (simp add: authorized keeps_authorizePost)
  next
    case Restart
    have "case saved s of None \<Rightarrow> True | Some f \<Rightarrow> Q (fst f)" using assms(1) by (simp add: store_holds_def)
    from keeps_create [OF this] Restart show ?thesis by simp
  next
    case (FinishApproval requestId ip key result secrets t d)
    have "result = LoginOk \<Longrightarrow> grant_ok (fst secrets) \<and> key_ok (oe_digest env (snd secrets))"
      using ok FinishApproval by (simp add: event_admits_def)
    from keeps_finish_approval [OF assms(1) this] FinishApproval show ?thesis by simp
  qed (use assms in \<open>simp_all add: keeps_register keeps_finish_approval keeps_token keeps_revoke keeps_sweep event_admits_def\<close>)
qed

lemma trace_keeps:
  "keeps s \<Longrightarrow> list_all (event_admits env key_ok grant_ok) es \<Longrightarrow> (t, e, out, t') \<in> set (trace (oauth_step env) s es) \<Longrightarrow>
    keeps t \<and> oauth_step env t e = (t', out)"
proof (induction es arbitrary: s)
  case (Cons a es)
  from Cons.prems(3) consider "t = s" "e = a" "oauth_step env t e = (t', out)"
    | "(t, e, out, t') \<in> set (trace (oauth_step env) (fst (oauth_step env s a)) es)"
    unfolding trace_Cons by (metis prod.collapse prod.inject)
  then show ?case
  proof cases
    case 1
    with Cons.prems(1) show ?thesis by simp
  next
    case 2
    have "keeps (fst (oauth_step env s a))" using Cons.prems(1,2) by (intro step_keeps) simp_all
    from Cons.IH [OF this _ 2] Cons.prems(2) show ?thesis by simp
  qed
qed simp

lemma final_keeps:
  "keeps s \<Longrightarrow> list_all (event_admits env key_ok grant_ok) es \<Longrightarrow> keeps (final (oauth_step env) s es)"
  by (induction es arbitrary: s) (simp_all add: step_keeps)

lemma keeps_saved: "Q (data s) \<Longrightarrow> keeps (persist True t s)"
proof -
  assume "Q (data s)"
  then have "Q (data (prune t s))"
    by (simp add: prune_def prune_pending_def Let_def q_clients q_prune)
  then show ?thesis by (simp add: persist_def flush_store_def store_holds_def store_of_def)
qed

end

subsection \<open>Codes and refresh tokens are redeemed at most once\<close>

definition tables_wf :: "StoreShape \<Rightarrow> bool" where
  "tables_wf d = (jm_wf (codes d) \<and> jm_wf (tokens d) \<and> jm_wf (grants d))"

interpretation oauth_tables: store_property tables_wf "\<lambda>_. True" "\<lambda>_. True"
  by unfold_locales (auto simp: tables_wf_def emptyStore_def jm_wf_sweep distinct_update distinct_map_filter)

definition code_spent :: "string \<Rightarrow> StoreShape \<Rightarrow> bool" where
  "code_spent k d = (jm_wf (codes d) \<and> (\<forall>r. jm_get (codes d) k = Some r \<longrightarrow> co_used r))"

definition token_spent :: "string \<Rightarrow> StoreShape \<Rightarrow> bool" where
  "token_spent k d = (jm_wf (tokens d) \<and> (\<forall>r. jm_get (tokens d) k = Some r \<longrightarrow> tk_used r))"

interpretation oauth_code: store_property "code_spent k" "\<lambda>x. x \<noteq> k" "\<lambda>_. True" for k
  by unfold_locales
    (auto simp: code_spent_def emptyStore_def jm_wf_sweep map_of_jm_sweep distinct_update update_conv' split: option.splits if_splits)

interpretation oauth_token: store_property "token_spent k" "\<lambda>x. x \<noteq> k" "\<lambda>_. True" for k
  by unfold_locales
    (auto simp: token_spent_def emptyStore_def jm_wf_sweep map_of_jm_sweep distinct_update update_conv' split: option.splits if_splits)

text \<open>What a token call redeemed: a code or a refresh token, when tokens came back.\<close>

datatype grant_kind = AuthorizationCode | RefreshToken

fun redeemed :: "oauth_env \<Rightarrow> oauth_event \<Rightarrow> reply \<Rightarrow> (grant_kind \<times> string) option" where
  "redeemed env (Token b ip secrets t disk) (TokensJson a r scope) =
     (let form = oe_form env (bd_text b) in
      if form_get form ''grant_type'' = Some ''authorization_code'' then Some (AuthorizationCode, form_text form ''code'')
      else Some (RefreshToken, form_text form ''refresh_token''))"
| "redeemed env e out = None"

definition redeems_from :: "oauth_env \<Rightarrow> form \<Rightarrow> int \<Rightarrow> bool \<Rightarrow> string \<times> string \<Rightarrow> oauth \<Rightarrow> oauth \<times> reply \<Rightarrow> bool" where
  "redeems_from env form t disk secrets s result = (\<exists>v. codes (data v) = codes (data s) \<and> tokens (data v) = tokens (data s) \<and>
     (if form_get form ''grant_type'' = Some ''authorization_code''
      then exchangeCode env form (form_text form ''client_id'') t disk secrets v = result
      else refreshGrant env form (form_text form ''client_id'') t disk secrets v = result))"

lemma token_grant_redeems:
  assumes "token_grant env form t disk secrets w = (s', TokensJson a r scope)"
  shows "redeems_from env form t disk secrets w (s', TokensJson a r scope)"
proof -
  from assms obtain grantType client where g: "form_get form ''grant_type'' = Some grantType"
    "jm_get (clients (data w)) (form_text form ''client_id'') = Some client"
    "grantType = ''authorization_code'' \<or> grantType = ''refresh_token''" "grantType \<in> set (cl_grantTypes client)"
    by (auto simp: token_grant_def Let_def oauthError_def invalidClient_def split: option.splits if_splits)
  let ?v = "touch_client t (form_text form ''client_id'') client w"
  have "codes (data ?v) = codes (data w) \<and> tokens (data ?v) = tokens (data w)" by (simp add: touch_client_def)
  moreover have "if form_get form ''grant_type'' = Some ''authorization_code''
      then exchangeCode env form (form_text form ''client_id'') t disk secrets ?v = (s', TokensJson a r scope)
      else refreshGrant env form (form_text form ''client_id'') t disk secrets ?v = (s', TokensJson a r scope)"
    using assms g by (auto simp: token_grant_def Let_def)
  ultimately show ?thesis unfolding redeems_from_def by blast
qed

lemma token_redeems:
  assumes "token env b ip t disk secrets s = (s', TokensJson a r scope)"
  shows "redeems_from env (oe_form env (bd_text b)) t disk secrets s (s', TokensJson a r scope)"
proof -
  have "\<exists>w. data w = data s \<and> token_grant env (oe_form env (bd_text b)) t disk secrets w = (s', TokensJson a r scope)"
    using assms
    by (auto simp: token_def Let_def limited_def refuseForm_def oauthError_def readBodyText_def
        split: option.splits if_splits prod.splits intro: exI) 
       (metis oauth.select_convs oauth.surjective oauth.update_convs)+
  then show ?thesis using token_grant_redeems unfolding redeems_from_def by metis
qed

lemma issue_saved_tokens:
  "issue_saved env t disk secrets g i res scope ev d s = (s', TokensJson a r sc) \<Longrightarrow>
    disk \<and> s' = log_audit ev i (persist True t (issueTokens env t secrets g i res scope s))"
  by (cases disk) (auto simp: issue_saved_def Let_def saveFailed_def oauthError_def)

lemma exchange_success:
  assumes "exchangeCode env form i t disk secrets s = (s', TokensJson a r scope)"
  shows "\<exists>c. jm_get (codes (data s)) (oe_digest env (form_text form ''code'')) = Some c \<and> \<not> co_used c \<and>
    t < co_expiresAt c \<and> co_clientId c = i \<and> co_redirectUri c = form_text form ''redirect_uri'' \<and>
    pkceMatches env (form_text form ''code_verifier'') (co_codeChallenge c) \<and>
    issue_saved env t disk secrets (co_grantId c) (co_clientId c) (co_resource c) (co_scope c) ''code_exchanged'' (data s)
      (s\<lparr>data := (data s)\<lparr>codes := jm_set (oe_digest env (form_text form ''code'')) (c\<lparr>co_used := True\<rparr>) (codes (data s))\<rparr>\<rparr>)
      = (s', TokensJson a r scope)"
  using assms
  by (auto simp: exchangeCode_def Let_def invalidGrant_def oauthError_def invalidTarget_def saving_def
      split: option.splits if_splits)

lemma refresh_success:
  assumes "refreshGrant env form i t disk secrets s = (s', TokensJson a r scope)"
  shows "\<exists>u. jm_get (tokens (data s)) (oe_digest env (form_text form ''refresh_token'')) = Some u \<and> \<not> tk_used u \<and>
    issue_saved env t disk secrets (tk_grantId u) (tk_clientId u) (tk_resource u) (tk_scope u) ''token_refreshed'' (data s)
      (s\<lparr>data := (data s)\<lparr>tokens := jm_set (oe_digest env (form_text form ''refresh_token''))
        (u\<lparr>tk_used := True, tk_expiresAt := min (tk_expiresAt u) (t + SPENT_REFRESH_TTL_MS)\<rparr>) (tokens (data s))\<rparr>\<rparr>)
      = (s', TokensJson a r scope)"
  using assms
  by (auto simp: refreshGrant_def Let_def invalidGrant_def oauthError_def invalidTarget_def saving_def
      split: option.splits if_splits)

definition spent :: "grant_kind \<Rightarrow> string \<Rightarrow> StoreShape \<Rightarrow> bool" where
  "spent kind k = (case kind of AuthorizationCode \<Rightarrow> code_spent k | RefreshToken \<Rightarrow> token_spent k)"

lemma redeemed_spends:
  assumes wf: "tables_wf (data s)" and step: "oauth_step env s e = (s', out)" and red: "redeemed env e out = Some (kind, x)"
    and fresh: "event_admits env (\<lambda>k. k \<noteq> oe_digest env x) (\<lambda>_. True) e"
  shows "store_holds (spent kind (oe_digest env x)) s' \<and> \<not> spent kind (oe_digest env x) (data s)"
proof -
  obtain b ip secrets t disk a r scope where e: "e = Token b ip secrets t disk" "out = TokensJson a r scope"
    using red by (cases "(env, e, out)" rule: redeemed.cases) auto
  let ?form = "oe_form env (bd_text b)" and ?k = "oe_digest env x"
  have "redeems_from env ?form t disk secrets s (s', out)" using step e token_redeems by simp
  then obtain v where v: "codes (data v) = codes (data s)" "tokens (data v) = tokens (data s)"
      "if form_get ?form ''grant_type'' = Some ''authorization_code''
       then exchangeCode env ?form (form_text ?form ''client_id'') t disk secrets v = (s', out)
       else refreshGrant env ?form (form_text ?form ''client_id'') t disk secrets v = (s', out)"
    unfolding redeems_from_def by blast
  have keys: "oe_digest env (fst secrets) \<noteq> ?k" "oe_digest env (snd secrets) \<noteq> ?k"
    using fresh e by (auto simp: event_admits_def)
  show ?thesis
  proof (cases "form_get ?form ''grant_type'' = Some ''authorization_code''")
    case True
    with red e have x: "kind = AuthorizationCode" "x = form_text ?form ''code''" by (auto simp: Let_def)
    from True v(3) e(2) exchange_success obtain c where c:
      "jm_get (codes (data v)) ?k = Some c" "\<not> co_used c"
      "issue_saved env t disk secrets (co_grantId c) (co_clientId c) (co_resource c) (co_scope c) ''code_exchanged'' (data v)
        (v\<lparr>data := (data v)\<lparr>codes := jm_set ?k (c\<lparr>co_used := True\<rparr>) (codes (data v))\<rparr>\<rparr>) = (s', TokensJson a r scope)"
      unfolding x(2) by metis
    let ?w = "v\<lparr>data := (data v)\<lparr>codes := jm_set ?k (c\<lparr>co_used := True\<rparr>) (codes (data v))\<rparr>\<rparr>"
    have "code_spent ?k (data ?w)" using wf v(1) by (simp add: code_spent_def tables_wf_def distinct_update update_conv')
    then have "oauth_code.keeps ?k (?w\<lparr>saved := None\<rparr>)" by (simp add: store_holds_def)
    from oauth_code.keeps_issueTokens [OF this keys]
    have "code_spent ?k (data (issueTokens env t secrets g i res sc ?w))" for g i res sc
      by (simp add: store_holds_def issueTokens_def)
    then have "store_holds (code_spent ?k) s'"
      using oauth_code.keeps_saved issue_saved_tokens [OF c(3)] oauth_code.keeps_log by metis
    moreover have "\<not> code_spent ?k (data s)" using c v(1) by (auto simp: code_spent_def)
    ultimately show ?thesis by (simp add: spent_def x(1))
  next
    case False
    with red e have x: "kind = RefreshToken" "x = form_text ?form ''refresh_token''" by (auto simp: Let_def)
    from False v(3) e(2) refresh_success obtain u where u:
      "jm_get (tokens (data v)) ?k = Some u" "\<not> tk_used u"
      "issue_saved env t disk secrets (tk_grantId u) (tk_clientId u) (tk_resource u) (tk_scope u) ''token_refreshed'' (data v)
        (v\<lparr>data := (data v)\<lparr>tokens := jm_set ?k
          (u\<lparr>tk_used := True, tk_expiresAt := min (tk_expiresAt u) (t + SPENT_REFRESH_TTL_MS)\<rparr>) (tokens (data v))\<rparr>\<rparr>)
        = (s', TokensJson a r scope)"
      unfolding x(2) by metis
    let ?w = "v\<lparr>data := (data v)\<lparr>tokens := jm_set ?k
      (u\<lparr>tk_used := True, tk_expiresAt := min (tk_expiresAt u) (t + SPENT_REFRESH_TTL_MS)\<rparr>) (tokens (data v))\<rparr>\<rparr>"
    have "token_spent ?k (data ?w)" using wf v(2) by (simp add: token_spent_def tables_wf_def distinct_update update_conv')
    then have "oauth_token.keeps ?k (?w\<lparr>saved := None\<rparr>)" by (simp add: store_holds_def)
    from oauth_token.keeps_issueTokens [OF this keys]
    have "token_spent ?k (data (issueTokens env t secrets g i res sc ?w))" for g i res sc
      by (simp add: store_holds_def issueTokens_def)
    then have "store_holds (token_spent ?k) s'"
      using oauth_token.keeps_saved issue_saved_tokens [OF u(3)] oauth_token.keeps_log by metis
    moreover have "\<not> token_spent ?k (data s)" using u v(2) by (auto simp: token_spent_def)
    ultimately show ?thesis by (simp add: spent_def x(1))
  qed
qed

lemma redeemed_unspent:
  assumes "oauth_step env s e = (s', out)" "redeemed env e out = Some (kind, x)"
  shows "\<not> spent kind (oe_digest env x) (data s)"
proof -
  obtain b ip secrets t disk a r scope where e: "e = Token b ip secrets t disk" "out = TokensJson a r scope"
    using assms(2) by (cases "(env, e, out)" rule: redeemed.cases) auto
  let ?form = "oe_form env (bd_text b)"
  have "redeems_from env ?form t disk secrets s (s', TokensJson a r scope)" using assms(1) e token_redeems by simp
  then show ?thesis
    unfolding redeems_from_def
    using assms(2) e exchange_success [of env ?form "form_text ?form ''client_id''" t disk secrets _ s' a r scope]
      refresh_success [of env ?form "form_text ?form ''client_id''" t disk secrets _ s' a r scope]
    by (auto simp: spent_def code_spent_def token_spent_def Let_def split: if_splits) metis+
qed

lemma spent_trace:
  assumes "store_holds (spent kind k) s" "list_all (event_admits env (\<lambda>x. x \<noteq> k) (\<lambda>_. True)) es"
    "(t, e, out, t') \<in> set (trace (oauth_step env) s es)"
  shows "store_holds (spent kind k) t \<and> oauth_step env t e = (t', out)"
  using assms oauth_code.trace_keeps [of k s env es t e out t'] oauth_token.trace_keeps [of k s env es t e out t']
  by (cases kind) (simp_all add: spent_def)

definition file_ok :: "(StoreShape \<times> (string \<times> PendingRequest) list) option \<Rightarrow> bool" where
  "file_ok f = (case f of None \<Rightarrow> True | Some f \<Rightarrow> tables_wf (fst f))"

lemma started_wf: "file_ok f \<Longrightarrow> tables_wf (data (final (oauth_step env) (createOAuth env f) past))"
proof -
  assume "file_ok f"
  then have "oauth_tables.keeps (createOAuth env f)"
    by (intro oauth_tables.keeps_create) (simp add: file_ok_def split: option.split)
  then have "oauth_tables.keeps (final (oauth_step env) (createOAuth env f) past)"
    by (rule oauth_tables.final_keeps) (auto simp: event_admits_def list_all_iff split: oauth_event.split login_result.split)
  then show ?thesis by (rule oauth_tables.keepsD)
qed

text \<open>C1. An authorization code and a refresh token are redeemed at most once: in any run of the server
  from a store with distinct keys, through lost writes, sweeps and restarts, once a token call has
  answered with tokens for a code or a refresh token, no later call is answered with tokens for the
  same one, as long as no secret drawn later has its digest.\<close>
theorem redeemed_at_most_once:
  assumes stored: "file_ok f" and reach: "s = final (oauth_step env) (createOAuth env f) past"
    and first: "oauth_step env s e = (s', out)" "redeemed env e out = Some (kind, x)"
    and fresh: "list_all (event_admits env (\<lambda>k. k \<noteq> oe_digest env x) (\<lambda>_. True)) (e # later)"
    and again: "(t, e', out', t') \<in> set (trace (oauth_step env) s' later)"
  shows "redeemed env e' out' \<noteq> Some (kind, x)"
proof
  assume second: "redeemed env e' out' = Some (kind, x)"
  have "tables_wf (data s)" unfolding reach by (rule started_wf [OF stored])
  from redeemed_spends [OF this first] fresh have "store_holds (spent kind (oe_digest env x)) s'" by simp
  from spent_trace [OF this _ again] fresh
  have "spent kind (oe_digest env x) (data t)" "oauth_step env t e' = (t', out')" by (simp_all add: store_holds_def)
  with redeemed_unspent [OF _ second] show False by blast
qed

definition sample_verifier :: string where
  "sample_verifier = replicate 43 (CHR ''v'')"

definition sample_form :: form where
  "sample_form = [(''client_id'', ''c''), (''grant_type'', ''authorization_code''), (''code'', ''k''),
     (''code_verifier'', sample_verifier), (''redirect_uri'', ''https://c'')]"

definition sample_env :: oauth_env where
  "sample_env = \<lparr>oe_origin = ''https://o'', oe_redirectOrigins = [], oe_maxClients = 5, oe_digests = sample_digests,
     oe_auth = sample_auth, oe_digest = (\<lambda>x. x), oe_url = (\<lambda>_. None), oe_json = (\<lambda>_. None), oe_form = (\<lambda>_. sample_form)\<rparr>"

definition sample_store :: StoreShape where
  "sample_store = \<lparr>
     clients = [(''c'', \<lparr>cl_name = ''n'', cl_redirectUris = [''https://c''], cl_createdAt = 0,
       cl_grantTypes = SUPPORTED_GRANTS, cl_grantedAt = Some 0, cl_lastUsedAt = None\<rparr>)],
     grants = [(''g'', \<lparr>gr_clientId = ''c'', gr_resource = ''https://o/mcp'', gr_createdAt = 0, gr_lastUsedAt = None\<rparr>)],
     codes = [(''k'', \<lparr>co_clientId = ''c'', co_redirectUri = ''https://c'', co_codeChallenge = sample_verifier,
       co_resource = ''https://o/mcp'', co_scope = None, co_grantId = ''g'', co_expiresAt = 60000, co_used = False\<rparr>)],
     tokens = []\<rparr>"

definition sample_call :: "string \<times> string \<Rightarrow> oauth_event" where
  "sample_call secrets = Token \<lparr>bd_declared = None, bd_text = ''body''\<rparr> ''ip'' secrets 5 True"

definition sample_start :: oauth where
  "sample_start = createOAuth sample_env (Some (sample_store, []))"

lemma sample_form_accepted: "formRefusal sample_form TOKEN_FORM = None"
  by code_simp

lemma sample_exchange: "snd (oauth_step sample_env sample_start (sample_call (''A'', ''R''))) = TokensJson ''A'' ''R'' None"
  by code_simp

theorem redeemed_at_most_once_witness:
  "\<exists>s'. oauth_step sample_env sample_start (sample_call (''A'', ''R'')) = (s', TokensJson ''A'' ''R'' None) \<and>
    redeemed sample_env (sample_call (''B'', ''S''))
      (snd (oauth_step sample_env s' (sample_call (''B'', ''S'')))) \<noteq> Some (AuthorizationCode, ''k'')"
proof -
  let ?e = "sample_call (''A'', ''R'')" and ?e' = "sample_call (''B'', ''S'')"
  obtain s' where s': "oauth_step sample_env sample_start ?e = (s', TokensJson ''A'' ''R'' None)"
    using sample_exchange by (metis prod.collapse)
  have stored: "file_ok (Some (sample_store, []))"
    by (simp add: file_ok_def tables_wf_def sample_store_def)
  have reach: "sample_start = final (oauth_step sample_env) (createOAuth sample_env (Some (sample_store, []))) []"
    by (simp add: sample_start_def)
  have red: "redeemed sample_env ?e (TokensJson ''A'' ''R'' None) = Some (AuthorizationCode, ''k'')"
    by (simp add: sample_call_def sample_env_def sample_form_def form_get_def form_text_def Let_def)
  have fresh: "list_all (event_admits sample_env (\<lambda>k. k \<noteq> oe_digest sample_env ''k'') (\<lambda>_. True)) [?e, ?e']"
    by (simp add: event_admits_def sample_call_def sample_env_def)
  have again: "(s', ?e', snd (oauth_step sample_env s' ?e'), fst (oauth_step sample_env s' ?e'))
      \<in> set (trace (oauth_step sample_env) s' [?e'])"
    by (simp add: split_def Let_def)
  from redeemed_at_most_once [OF stored reach s' red fresh again] s' show ?thesis by blast
qed

subsection \<open>Every access token stems from the owner's password\<close>

definition grants_within :: "string set \<Rightarrow> StoreShape \<Rightarrow> bool" where
  "grants_within G d = (fst ` set (grants d) \<subseteq> G)"

lemma fst_set_update: "fst ` set (jm_set k v m) = insert k (fst ` set m)"
  by (induction m) auto

interpretation oauth_grants: store_property "grants_within G" "\<lambda>_. True" "\<lambda>g. g \<in> G" for G
proof unfold_locales
  fix d :: StoreShape and g r r'
  assume "grants_within G d" "jm_get (grants d) g = Some r"
  then show "grants_within G (d\<lparr>grants := jm_set g r' (grants d)\<rparr>)"
    by (auto simp: grants_within_def fst_set_update dest!: map_of_SomeD)
qed (auto simp: grants_within_def emptyStore_def fst_set_update)

definition approved_by_owner :: "oauth_event list \<Rightarrow> string \<Rightarrow> bool" where
  "approved_by_owner es g = (\<exists>requestId ip key code t disk.
     FinishApproval requestId ip key LoginOk (g, code) t disk \<in> set es)"

definition stored_grants :: "(StoreShape \<times> (string \<times> PendingRequest) list) option \<Rightarrow> string set" where
  "stored_grants f = (case f of None \<Rightarrow> {} | Some f \<Rightarrow> fst ` set (grants (fst f)))"

text \<open>C2. Every access token the server accepts, after any run from a saved store or an empty one, is an
  unexpired access token for this resource under a grant that still stands, and that grant was
  created in the run by an approval that ended in a successful password login of the owner, or was in
  the store the run began with.\<close>
theorem access_needs_owner_approval:
  assumes "verifyAccessToken env (final (oauth_step env) (createOAuth env f) es) t presented"
  shows "\<exists>r. jm_get (tokens (data (final (oauth_step env) (createOAuth env f) es))) (oe_digest env presented) = Some r \<and>
    tk_kind r = Access \<and> t < tk_expiresAt r \<and> tk_resource r = resource_of env \<and>
    jm_get (grants (data (final (oauth_step env) (createOAuth env f) es))) (tk_grantId r) \<noteq> None \<and>
    (approved_by_owner es (tk_grantId r) \<or> tk_grantId r \<in> stored_grants f)"
proof -
  let ?s = "final (oauth_step env) (createOAuth env f) es" and ?G = "{g. approved_by_owner es g} \<union> stored_grants f"
  have "oauth_grants.keeps ?G (createOAuth env f)"
    by (rule oauth_grants.keeps_create) (auto simp: grants_within_def stored_grants_def split: option.split)
  moreover have "event_admits env (\<lambda>_. True) (\<lambda>g. g \<in> ?G) e" if "e \<in> set es" for e
    using that by (auto simp: event_admits_def approved_by_owner_def split: oauth_event.split login_result.split) blast
  ultimately have "oauth_grants.keeps ?G ?s" by (intro oauth_grants.final_keeps) (simp_all add: list_all_iff)
  then have within: "fst ` set (grants (data ?s)) \<subseteq> ?G" by (simp add: store_holds_def grants_within_def)
  from assms obtain r where r: "jm_get (tokens (data ?s)) (oe_digest env presented) = Some r" "tk_kind r = Access"
      "t < tk_expiresAt r" "tk_resource r = resource_of env" "jm_get (grants (data ?s)) (tk_grantId r) \<noteq> None"
    by (auto simp: verifyAccessToken_def split: option.splits if_splits)
  from r(5) have "tk_grantId r \<in> fst ` set (grants (data ?s))" by (simp add: map_of_eq_None_iff)
  with within have "tk_grantId r \<in> ?G" by blast
  with r show ?thesis by blast
qed

lemma sample_accepted: "verifyAccessToken sample_env
    (final (oauth_step sample_env) (createOAuth sample_env (Some (sample_store, []))) [sample_call (''A'', ''R'')]) 6 ''A''"
  by code_simp

theorem access_needs_owner_approval_witness:
  "\<exists>r :: TokenRecord. tk_kind r = Access \<and> tk_resource r = resource_of sample_env \<and>
    (approved_by_owner [sample_call (''A'', ''R'')] (tk_grantId r) \<or> tk_grantId r \<in> stored_grants (Some (sample_store, [])))"
  proof -
  obtain r :: TokenRecord where "tk_kind r = Access" "tk_resource r = resource_of sample_env"
      "approved_by_owner [sample_call (''A'', ''R'')] (tk_grantId r) \<or> tk_grantId r \<in> stored_grants (Some (sample_store, []))"
    using access_needs_owner_approval [OF sample_accepted] by metis
  then show ?thesis by blast
qed

subsection \<open>Replaying a spent code or refresh token\<close>

definition grant_gone :: "string \<Rightarrow> StoreShape \<Rightarrow> bool" where
  "grant_gone g d = (jm_get (grants d) g = None \<and> list_all (\<lambda>(_, u). tk_grantId u \<noteq> g) (tokens d) \<and>
     list_all (\<lambda>(_, c). co_grantId c \<noteq> g) (codes d))"

lemma grant_gone_prune: "grant_gone g (data s) \<Longrightarrow> grant_gone g (data (prune t s))"
proof -
  have sub: "map_of xs g = None \<Longrightarrow> map_of (filter P xs) g = None" for P and xs :: "(string \<times> 'v) list"
    by (auto simp: map_of_eq_None_iff)
  show "grant_gone g (data s) \<Longrightarrow> grant_gone g (data (prune t s))"
    by (auto simp: grant_gone_def prune_def prune_pending_def Let_def jm_sweep_def list_all_iff intro: sub)
qed

lemma grant_gone_revoked: "grant_gone g (data (revokeGrant g s))"
  by (auto simp: grant_gone_def revokeGrant_def jm_sweep_def list_all_iff delete_conv')

text \<open>What is left of a grant revoked and saved: nothing in memory, nothing on disk when it was written.\<close>

definition revoked_for_good :: "oauth_env \<Rightarrow> string \<Rightarrow> bool \<Rightarrow> oauth \<Rightarrow> bool" where
  "revoked_for_good env g disk s = (grant_gone g (data s) \<and> (disk \<longrightarrow> (\<exists>f. saved s = Some f \<and> grant_gone g (fst f))))"

lemma persist_revoked: "revoked_for_good env g disk (persist disk t (revokeGrant g s))"
  using grant_gone_prune [OF grant_gone_revoked, of g t s]
  by (simp add: revoked_for_good_def persist_def flush_store_def store_of_def)

text \<open>Once a revocation is on disk the grant stays away: no event can bring it back but an approval that
  draws its id again.\<close>

definition refused_from :: "oauth_env \<Rightarrow> string \<Rightarrow> oauth \<Rightarrow> bool" where
  "refused_from env g s \<longleftrightarrow> (\<forall>later t presented. list_all (event_admits env (\<lambda>_. True) (\<lambda>h. h \<noteq> g)) later \<and>
     verifyAccessToken env (final (oauth_step env) s later) t presented \<longrightarrow>
     (\<exists>r. jm_get (tokens (data (final (oauth_step env) s later))) (oe_digest env presented) = Some r \<and> tk_grantId r \<noteq> g))"

lemma revoked_refused:
  assumes "revoked_for_good env g True s"
  shows "refused_from env g s"
proof -
  have gone: "grant_gone g d \<Longrightarrow> grants_within (- {g}) d" for d
    by (auto simp: grant_gone_def grants_within_def map_of_eq_None_iff)
  obtain f where f: "saved s = Some f" "grant_gone g (fst f)" "grant_gone g (data s)"
    using assms by (auto simp: revoked_for_good_def)
  then have start: "oauth_grants.keeps (- {g}) s" using gone by (simp add: store_holds_def)
  have "\<exists>r. jm_get (tokens (data (final (oauth_step env) s later))) (oe_digest env presented) = Some r \<and> tk_grantId r \<noteq> g"
    if later: "list_all (event_admits env (\<lambda>_. True) (\<lambda>h. h \<noteq> g)) later"
      and ok: "verifyAccessToken env (final (oauth_step env) s later) t presented" for later t presented
  proof -
    have "oauth_grants.keeps (- {g}) (final (oauth_step env) s later)"
      using later by (intro oauth_grants.final_keeps [OF start]) simp
    then have "jm_get (grants (data (final (oauth_step env) s later))) g = None"
      by (auto simp: store_holds_def grants_within_def map_of_eq_None_iff)
    with ok show ?thesis by (auto simp: verifyAccessToken_def split: option.splits if_splits)
  qed
  then show ?thesis unfolding refused_from_def by blast
qed

text \<open>C3. Presenting a spent authorization code, or a spent refresh token as its own client, while its
  record is still stored (a code's goes 60 seconds after it was issued, a spent refresh token's at most
  five minutes after its use) revokes the whole grant: its record, its codes and its tokens leave the
  store in memory. When the write succeeds the answer is invalid_grant, they are gone on disk too, and
  in every later state of the server, through restarts and failed writes, no access token of the grant
  is accepted, as long as no approval draws the same grant id. When the write fails the request ends in
  an exception and only the store in memory is changed.\<close>
theorem replay_revokes_grant:
  assumes spent: "jm_get (codes (data s)) (oe_digest env (form_text form ''code'')) = Some c" "co_used c"
    and refresh: "jm_get (tokens (data s')) (oe_digest env (form_text form' ''refresh_token'')) = Some u" "tk_used u"
      "tk_kind u = Refresh_kind" "tk_clientId u = i'"
  shows "snd (exchangeCode env form i t disk secrets s)
      = (if disk then invalidGrant ''The authorization code was already used.'' else Thrown)
    \<and> revoked_for_good env (co_grantId c) disk (fst (exchangeCode env form i t disk secrets s))
    \<and> (disk \<longrightarrow> refused_from env (co_grantId c) (fst (exchangeCode env form i t disk secrets s)))
    \<and> snd (refreshGrant env form' i' t disk secrets s')
      = (if disk then invalidGrant ''The refresh token was already used.'' else Thrown)
    \<and> revoked_for_good env (tk_grantId u) disk (fst (refreshGrant env form' i' t disk secrets s'))
    \<and> (disk \<longrightarrow> refused_from env (tk_grantId u) (fst (refreshGrant env form' i' t disk secrets s')))"
proof -
  have code: "exchangeCode env form i t disk secrets s = (persist disk t (revokeGrant (co_grantId c) s),
      if disk then invalidGrant ''The authorization code was already used.'' else Thrown)"
    using spent by (simp add: exchangeCode_def Let_def saving_def)
  let ?r = "persist disk t (revokeGrant (tk_grantId u) s')"
  have ref: "refreshGrant env form' i' t disk secrets s' = (if disk then log_audit ''refresh_reuse_detected'' i' ?r else ?r,
      if disk then invalidGrant ''The refresh token was already used.'' else Thrown)"
    using refresh by (simp add: refreshGrant_def Let_def saving_def)
  have same: "revoked_for_good env g dk (log_audit ev w v) = revoked_for_good env g dk v" for g dk ev w v
    by (simp add: revoked_for_good_def log_audit_def)
  have code': "revoked_for_good env (co_grantId c) disk (fst (exchangeCode env form i t disk secrets s))"
    using persist_revoked by (simp add: code)
  have ref': "revoked_for_good env (tk_grantId u) disk (fst (refreshGrant env form' i' t disk secrets s'))"
    using persist_revoked [of env "tk_grantId u" disk t s'] unfolding ref by (simp add: same persist_revoked)
  have "snd (exchangeCode env form i t disk secrets s)
      = (if disk then invalidGrant ''The authorization code was already used.'' else Thrown)"
    "snd (refreshGrant env form' i' t disk secrets s')
      = (if disk then invalidGrant ''The refresh token was already used.'' else Thrown)"
    unfolding code ref by simp_all
  moreover have "disk \<longrightarrow> refused_from env (co_grantId c) (fst (exchangeCode env form i t disk secrets s))"
    "disk \<longrightarrow> refused_from env (tk_grantId u) (fst (refreshGrant env form' i' t disk secrets s'))"
    using code' ref' revoked_refused by (cases disk; simp)+
  ultimately show ?thesis using code' ref' by blast
qed

definition replayed_store :: oauth where
  "replayed_store = createOAuth sample_env (Some (sample_store\<lparr>
     codes := [(''k'', \<lparr>co_clientId = ''c'', co_redirectUri = ''https://c'', co_codeChallenge = sample_verifier,
       co_resource = ''https://o/mcp'', co_scope = None, co_grantId = ''g'', co_expiresAt = 60000, co_used = True\<rparr>)],
     tokens := [(''R'', \<lparr>tk_kind = Refresh_kind, tk_grantId = ''g'', tk_clientId = ''c'', tk_resource = ''https://o/mcp'',
       tk_scope = None, tk_expiresAt = 60000, tk_used = True\<rparr>)]\<rparr>, []))"

theorem replay_revokes_grant_witness:
  "snd (exchangeCode sample_env sample_form ''c'' 5 True (''A'', ''B'') replayed_store)
      = invalidGrant ''The authorization code was already used.'' \<and>
    refused_from sample_env ''g'' (fst (refreshGrant sample_env [(''refresh_token'', ''R'')] ''c'' 5 True (''A'', ''B'') replayed_store))"
proof -
  have data: "codes (data replayed_store) = [(''k'', \<lparr>co_clientId = ''c'', co_redirectUri = ''https://c'', co_codeChallenge = sample_verifier,
       co_resource = ''https://o/mcp'', co_scope = None, co_grantId = ''g'', co_expiresAt = 60000, co_used = True\<rparr>)]"
    "tokens (data replayed_store) = [(''R'', \<lparr>tk_kind = Refresh_kind, tk_grantId = ''g'', tk_clientId = ''c'', tk_resource = ''https://o/mcp'',
       tk_scope = None, tk_expiresAt = 60000, tk_used = True\<rparr>)]"
    by (simp_all add: replayed_store_def createOAuth_def date_grants_def sample_store_def Let_def)
  have keys: "oe_digest sample_env (form_text sample_form ''code'') = ''k''"
    "oe_digest sample_env (form_text [(''refresh_token'', ''R'')] ''refresh_token'') = ''R''"
    by (simp_all add: sample_env_def sample_form_def form_text_def form_get_def)
  obtain c where c: "jm_get (codes (data replayed_store)) (oe_digest sample_env (form_text sample_form ''code'')) = Some c" "co_used c"
    by (simp add: data keys)
  obtain u where u: "jm_get (tokens (data replayed_store))
        (oe_digest sample_env (form_text [(''refresh_token'', ''R'')] ''refresh_token'')) = Some u"
      "tk_used u" "tk_kind u = Refresh_kind" "tk_clientId u = ''c''" "tk_grantId u = ''g''"
    by (simp add: data keys)
  from replay_revokes_grant [OF c u(1-4), where i = "''c''" and t = 5 and disk = True and secrets = "(''A'', ''B'')"] u(5)
  show ?thesis by (metis (full_types))
qed

end
