(* ===== verification/Anomaly.thy ===== *)
theory Anomaly
  imports State_Dir
begin

text \<open>
  The audit trail's anomaly rules, \<^verbatim>\<open>services/ultrathink/obs/anomaly.ts\<close>: the
  validation of an untrusted rule list and the detector that counts events per rule and key. A
  detector is the list of its rules' states; a key's timestamps are the array \<open>ks_recent\<close>,
  oldest first, and \<open>ks_suppressedUntil\<close> is \<open>None\<close> for \<^verbatim>\<open>-Infinity\<close>. The clock is
  the integer each event carries. Event fields are own properties: a rule that groups by a name every
  object inherits (such as \<^verbatim>\<open>toString\<close>) is outside the model. How a number that is not a
  safe integer prints is the parameter \<open>num_text\<close>.
\<close>

subsection \<open>Rules\<close>

record anomaly_rule =
  ar_name :: string
  ar_event :: string
  ar_count :: nat
  ar_windowSec :: int
  ar_groupBy :: "string option"
  ar_where :: "(string \<times> js) list option"

record anomaly_alert =
  al_rule :: string
  al_key :: string
  al_count :: nat
  al_windowSec :: int

definition DEFAULT_ANOMALY_RULES :: "anomaly_rule list" where
  "DEFAULT_ANOMALY_RULES = [
     \<lparr>ar_name = ''login_failed'', ar_event = ''login_failed'', ar_count = 10, ar_windowSec = 300,
       ar_groupBy = Some ''ip'', ar_where = None\<rparr>,
     \<lparr>ar_name = ''refresh_reuse_detected'', ar_event = ''refresh_reuse_detected'', ar_count = 1, ar_windowSec = 3600,
       ar_groupBy = Some ''clientId'', ar_where = None\<rparr>,
     \<lparr>ar_name = ''rate_limited'', ar_event = ''rate_limited'', ar_count = 50, ar_windowSec = 300,
       ar_groupBy = Some ''ip'', ar_where = None\<rparr>]"

definition AUDIT_OWN_EVENTS :: "string list" where
  "AUDIT_OWN_EVENTS = [''audit_anchor'', ''anomaly_detected'', ''audit_tamper_detected'', ''audit_retention_pruned'']"

definition RULE_FIELDS :: "string list" where
  "RULE_FIELDS = [''name'', ''event'', ''count'', ''windowSec'', ''groupBy'', ''where'']"

definition MAX_COUNT :: int where "MAX_COUNT = 10000"
definition MAX_WINDOW_SEC :: int where "MAX_WINDOW_SEC = 86400"
definition MAX_KEYS_PER_RULE :: nat where "MAX_KEYS_PER_RULE = 10000"
definition UNGROUPED_KEY :: string where "UNGROUPED_KEY = ''*''"

fun isPrimitive :: "js \<Rightarrow> bool" where
  "isPrimitive (JStr _) = True"
| "isPrimitive (JNum _) = True"
| "isPrimitive (JBool _) = True"
| "isPrimitive _ = False"

text \<open>The integer of a value within bounds.\<close>

definition isIntegerIn :: "js \<Rightarrow> int \<Rightarrow> int \<Rightarrow> int option" where
  "isIntegerIn v lo hi = (case v of
      JNum n \<Rightarrow> (case safe_integer n of Some i \<Rightarrow> if lo \<le> i \<and> i \<le> hi then Some i else None | None \<Rightarrow> None)
    | _ \<Rightarrow> None)"

definition nonempty_text :: "js \<Rightarrow> string option" where
  "nonempty_text v = (case v of JStr s \<Rightarrow> if s \<noteq> [] then Some s else None | _ \<Rightarrow> None)"

definition quoted :: "string \<Rightarrow> string" where
  "quoted s = [CHR 0x22] @ s @ [CHR 0x22]"

definition ruleFailure :: "nat \<Rightarrow> js \<Rightarrow> string \<Rightarrow> js_error" where
  "ruleFailure index name problem = RangeError (''anomaly rule '' @ dec index
     @ (case nonempty_text name of Some s \<Rightarrow> '' ('' @ quoted s @ '')'' | None \<Rightarrow> []) @ '': '' @ problem)"

text \<open>An assignment to \<^verbatim>\<open>__proto__\<close> of a primitive leaves no property.\<close>

definition parseWhere :: "js \<Rightarrow> nat \<Rightarrow> js \<Rightarrow> js_error + (string \<times> js) list" where
  "parseWhere raw index name = (case raw of
      JObj entries \<Rightarrow> (case List.find (\<lambda>(_, v). \<not> isPrimitive v) entries of
          Some (field, _) \<Rightarrow> Inl (ruleFailure index name (''where.'' @ field @ '' must be a string, number or boolean''))
        | None \<Rightarrow> Inr (filter (\<lambda>(field, _). field \<noteq> ''__proto__'') entries))
    | _ \<Rightarrow> Inl (ruleFailure index name ''where must be an object''))"

definition parse_optional :: "js \<Rightarrow> (js \<Rightarrow> js_error + 'a) \<Rightarrow> js_error + 'a option" where
  "parse_optional v parse = (if v = JUndef then Inr None
     else (case parse v of Inl e \<Rightarrow> Inl e | Inr x \<Rightarrow> Inr (Some x)))"

definition parse_groupBy :: "nat \<Rightarrow> js \<Rightarrow> js \<Rightarrow> js_error + string" where
  "parse_groupBy index name v = (case nonempty_text v of
      Some s \<Rightarrow> Inr s | None \<Rightarrow> Inl (ruleFailure index name ''groupBy must be a non-empty string''))"

text \<open>A rule and the names with its own.\<close>

definition parseRule :: "js \<Rightarrow> nat \<Rightarrow> string list \<Rightarrow> js_error + anomaly_rule \<times> string list" where
  "parseRule raw index names = (case raw of
      JObj obj \<Rightarrow>
        let nm = obj_get obj ''name''; failure = (\<lambda>problem. Inl (ruleFailure index nm problem)) in
        (case List.find (\<lambda>field. field \<notin> set RULE_FIELDS) (map fst obj) of
           Some field \<Rightarrow> failure (''unknown field '' @ quoted field)
         | None \<Rightarrow>
           (case nonempty_text nm of
              None \<Rightarrow> failure ''name must be a non-empty string''
            | Some name \<Rightarrow>
              if name \<in> set names then failure ''duplicate name''
              else (case nonempty_text (obj_get obj ''event'') of
                  None \<Rightarrow> failure ''event must be a non-empty string''
                | Some event \<Rightarrow>
                  if event \<in> set AUDIT_OWN_EVENTS
                  then failure (''event '' @ quoted event @ '' is written by the audit trail and cannot be counted'')
                  else (case isIntegerIn (obj_get obj ''count'') 1 MAX_COUNT of
                      None \<Rightarrow> failure (''count must be an integer 1..'' @ dec (nat MAX_COUNT))
                    | Some count \<Rightarrow>
                      (case isIntegerIn (obj_get obj ''windowSec'') 1 MAX_WINDOW_SEC of
                         None \<Rightarrow> failure (''windowSec must be an integer 1..'' @ dec (nat MAX_WINDOW_SEC))
                       | Some windowSec \<Rightarrow>
                         (case parse_optional (obj_get obj ''groupBy'') (parse_groupBy index nm) of
                            Inl e \<Rightarrow> Inl e
                          | Inr groupBy \<Rightarrow>
                            (case parse_optional (obj_get obj ''where'') (\<lambda>v. parseWhere v index nm) of
                               Inl e \<Rightarrow> Inl e
                             | Inr wh \<Rightarrow> Inr (\<lparr>ar_name = name, ar_event = event, ar_count = nat count,
                                 ar_windowSec = windowSec, ar_groupBy = groupBy, ar_where = wh\<rparr>, names @ [name]))))))))
    | _ \<Rightarrow> Inl (ruleFailure index JUndef ''must be an object''))"

fun parse_rules :: "nat \<Rightarrow> string list \<Rightarrow> js list \<Rightarrow> js_error + anomaly_rule list" where
  "parse_rules index names [] = Inr []"
| "parse_rules index names (raw # raws) = (case parseRule raw index names of
      Inl e \<Rightarrow> Inl e
    | Inr (r, names') \<Rightarrow> (case parse_rules (index + 1) names' raws of Inl e \<Rightarrow> Inl e | Inr rs \<Rightarrow> Inr (r # rs)))"

definition parseAnomalyRules :: "js \<Rightarrow> js_error + anomaly_rule list" where
  "parseAnomalyRules value = (case value of
      JArr raws \<Rightarrow> parse_rules 0 [] raws
    | _ \<Rightarrow> Inl (RangeError ''anomaly rules must be an array''))"

subsection \<open>The detector\<close>

record key_state =
  ks_recent :: "int list"
  ks_suppressedUntil :: "int option"

record rule_state =
  rs_rule :: anomaly_rule
  rs_keys :: "(string, key_state) jmap"

type_synonym event_fields = "(string \<times> js) list"

text \<open>\<^verbatim>\<open>===\<close> on primitives: NaN differs from itself.\<close>

definition same_primitive :: "js \<Rightarrow> js \<Rightarrow> bool" where
  "same_primitive a b = (a = b \<and> a \<noteq> JNum NaN)"

definition matchesWhere :: "(string \<times> js) list option \<Rightarrow> event_fields \<Rightarrow> bool" where
  "matchesWhere wh flds = (case wh of
      None \<Rightarrow> True
    | Some conds \<Rightarrow> list_all (\<lambda>(field, expected). same_primitive (obj_get flds field) expected) conds)"

text \<open>\<^verbatim>\<open>String(value)\<close> of a primitive.\<close>

definition primitive_text :: "(js_num \<Rightarrow> string) \<Rightarrow> js \<Rightarrow> string" where
  "primitive_text num_text v = (case v of
      JStr s \<Rightarrow> s
    | JBool b \<Rightarrow> if b then ''true'' else ''false''
    | JNum n \<Rightarrow> (case safe_integer n of
        Some i \<Rightarrow> if i < 0 then ''-'' @ dec (nat (- i)) else dec (nat i) | None \<Rightarrow> num_text n)
    | _ \<Rightarrow> [])"

text \<open>One event of a key, and the alert if the window's threshold is reached and not suppressed.\<close>

definition new_key :: key_state where
  "new_key = \<lparr>ks_recent = [], ks_suppressedUntil = None\<rparr>"

definition evict_oldest :: "(string, key_state) jmap \<Rightarrow> (string, key_state) jmap" where
  "evict_oldest keys = (if MAX_KEYS_PER_RULE \<le> length keys then tl keys else keys)"

definition record_event :: "rule_state \<Rightarrow> string \<Rightarrow> int \<Rightarrow> rule_state \<times> anomaly_alert option" where
  "record_event st key t =
     (let rule = rs_rule st;
          (keys, entry) = (case jm_get (rs_keys st) key of
             Some e \<Rightarrow> (rs_keys st, e)
           | None \<Rightarrow> (evict_oldest (rs_keys st), new_key));
          pushed = ks_recent entry @ [t];
          recent = (if ar_count rule < length pushed then tl pushed else pushed);
          put = (\<lambda>e. st\<lparr>rs_keys := jm_set key e keys\<rparr>);
          entry' = entry\<lparr>ks_recent := recent\<rparr>;
          windowMs = ar_windowSec rule * 1000
      in if length recent < ar_count rule then (put entry', None)
         else if hd recent \<le> t - windowMs then (put entry', None)
         else if (case ks_suppressedUntil entry of Some u \<Rightarrow> t < u | None \<Rightarrow> False) then (put entry', None)
         else (put (entry'\<lparr>ks_suppressedUntil := Some (t + windowMs)\<rparr>),
               Some \<lparr>al_rule = ar_name rule, al_key = key, al_count = ar_count rule, al_windowSec = ar_windowSec rule\<rparr>))"

text \<open>The key an event counts under for a rule, if it counts at all.\<close>

definition key_of :: "(js_num \<Rightarrow> string) \<Rightarrow> anomaly_rule \<Rightarrow> string \<Rightarrow> event_fields \<Rightarrow> string option" where
  "key_of num_text rule event flds =
     (if ar_event rule \<noteq> event \<or> \<not> matchesWhere (ar_where rule) flds then None
      else (case ar_groupBy rule of
          None \<Rightarrow> Some UNGROUPED_KEY
        | Some g \<Rightarrow> if obj_get flds g = JUndef then None else Some (primitive_text num_text (obj_get flds g))))"

type_synonym audit_event = "int \<times> string \<times> event_fields"

definition observe_rule :: "(js_num \<Rightarrow> string) \<Rightarrow> audit_event \<Rightarrow> rule_state \<Rightarrow> rule_state \<times> anomaly_alert option" where
  "observe_rule num_text e st = (case e of (t, event, flds) \<Rightarrow>
     (case key_of num_text (rs_rule st) event flds of
        None \<Rightarrow> (st, None)
      | Some key \<Rightarrow> record_event st key t))"

definition observe :: "(js_num \<Rightarrow> string) \<Rightarrow> rule_state list \<Rightarrow> audit_event \<Rightarrow> rule_state list \<times> anomaly_alert list" where
  "observe num_text states e =
     (if fst (snd e) \<in> set AUDIT_OWN_EVENTS then (states, [])
      else (map (fst \<circ> observe_rule num_text e) states, List.map_filter (snd \<circ> observe_rule num_text e) states))"

definition createAnomalyDetector :: "js \<Rightarrow> js_error + rule_state list" where
  "createAnomalyDetector rules = (case parseAnomalyRules rules of
      Inl e \<Rightarrow> Inl e
    | Inr rs \<Rightarrow> Inr (map (\<lambda>r. \<lparr>rs_rule = r, rs_keys = []\<rparr>) rs))"

subsection \<open>The accepted rule lists\<close>

definition valid_rule :: "anomaly_rule \<Rightarrow> bool" where
  "valid_rule r = (ar_name r \<noteq> [] \<and> ar_event r \<noteq> [] \<and> ar_event r \<notin> set AUDIT_OWN_EVENTS \<and>
     1 \<le> ar_count r \<and> int (ar_count r) \<le> MAX_COUNT \<and> 1 \<le> ar_windowSec r \<and> ar_windowSec r \<le> MAX_WINDOW_SEC \<and>
     ar_groupBy r \<noteq> Some [] \<and> (case ar_where r of None \<Rightarrow> True | Some ws \<Rightarrow> list_all (\<lambda>(_, v). isPrimitive v) ws))"

lemma isIntegerIn_Some: "isIntegerIn v lo hi = Some i \<Longrightarrow> lo \<le> i \<and> i \<le> hi"
  by (auto simp: isIntegerIn_def split: js.splits js_num.splits option.splits if_splits)

lemma nonempty_text_Some: "nonempty_text v = Some s \<Longrightarrow> s \<noteq> []"
  by (auto simp: nonempty_text_def split: js.splits if_splits)

lemma parse_groupBy_Inr: "parse_groupBy i n v = Inr s \<Longrightarrow> s \<noteq> []"
  by (auto simp: parse_groupBy_def dest: nonempty_text_Some split: option.splits)

lemma parseWhere_Inr: "parseWhere v i n = Inr ws \<Longrightarrow> list_all (\<lambda>(_, v). isPrimitive v) ws"
  by (fastforce simp: parseWhere_def list_all_iff find_None_iff split: js.splits option.splits)

lemma parse_optional_Inr: "parse_optional v f = Inr x \<Longrightarrow> (x = None \<or> (\<exists>y. x = Some y \<and> f v = Inr y))"
  by (auto simp: parse_optional_def split: if_splits sum.splits)

lemma parseRule_Inr:
  assumes "parseRule raw i names = Inr (r, names')"
  shows "valid_rule r \<and> ar_name r \<notin> set names \<and> names' = names @ [ar_name r]"
  using assms
  by (auto simp: parseRule_def Let_def valid_rule_def split: js.splits option.splits if_splits sum.splits
      dest!: isIntegerIn_Some nonempty_text_Some parse_optional_Inr parse_groupBy_Inr parseWhere_Inr)

lemma parse_rules_Inr:
  "parse_rules i names raws = Inr rs \<Longrightarrow> list_all valid_rule rs \<and> distinct (map ar_name rs) \<and>
     set (map ar_name rs) \<inter> set names = {}"
proof (induction raws arbitrary: i names rs)
  case Nil
  then show ?case by simp
next
  case (Cons raw raws)
  then obtain r names' rs' where r: "parseRule raw i names = Inr (r, names')"
      "parse_rules (i + 1) names' raws = Inr rs'" "rs = r # rs'"
    by (auto split: sum.splits)
  with Cons.IH [OF r(2)] parseRule_Inr [OF r(1)] show ?case by auto
qed

lemma created_rules:
  assumes "createAnomalyDetector v = Inr d"
  shows "list_all valid_rule (map rs_rule d)" "distinct (map (ar_name \<circ> rs_rule) d)" "\<forall>st \<in> set d. rs_keys st = []"
proof -
  from assms obtain raws rs where "v = JArr raws" "parse_rules 0 [] raws = Inr rs"
      "d = map (\<lambda>r. \<lparr>rs_rule = r, rs_keys = []\<rparr>) rs"
    by (auto simp: createAnomalyDetector_def parseAnomalyRules_def split: js.splits sum.splits)
  with parse_rules_Inr [OF this(2)]
  show "list_all valid_rule (map rs_rule d)" "distinct (map (ar_name \<circ> rs_rule) d)" "\<forall>st \<in> set d. rs_keys st = []"
    by (simp_all add: comp_def)
qed

lemma default_rules_valid: "list_all valid_rule DEFAULT_ANOMALY_RULES \<and> distinct (map ar_name DEFAULT_ANOMALY_RULES)"
  by (simp add: DEFAULT_ANOMALY_RULES_def valid_rule_def AUDIT_OWN_EVENTS_def MAX_COUNT_def MAX_WINDOW_SEC_def)

subsection \<open>The specification: counting over the whole history\<close>

text \<open>A history is every event so far with the alerts it raised.\<close>

type_synonym alert_log = "(audit_event \<times> anomaly_alert list) list"

definition alert_of :: "anomaly_rule \<Rightarrow> string \<Rightarrow> anomaly_alert" where
  "alert_of r k = \<lparr>al_rule = ar_name r, al_key = k, al_count = ar_count r, al_windowSec = ar_windowSec r\<rparr>"

definition counts_under :: "(js_num \<Rightarrow> string) \<Rightarrow> anomaly_rule \<Rightarrow> string \<Rightarrow> audit_event \<Rightarrow> bool" where
  "counts_under nt r k e = (key_of nt r (fst (snd e)) (snd (snd e)) = Some k)"

definition times_of :: "(js_num \<Rightarrow> string) \<Rightarrow> anomaly_rule \<Rightarrow> string \<Rightarrow> alert_log \<Rightarrow> int list" where
  "times_of nt r k L = map (fst \<circ> fst) (filter (counts_under nt r k \<circ> fst) L)"

definition alert_times :: "anomaly_rule \<Rightarrow> string \<Rightarrow> alert_log \<Rightarrow> int list" where
  "alert_times r k L = map (fst \<circ> fst) (filter (\<lambda>p. alert_of r k \<in> set (snd p)) L)"

text \<open>The alert an event raises: the events of its key inside the window, itself included, are at least the
  rule's count, and the key has not alerted inside the window.\<close>

definition spec_alert :: "(js_num \<Rightarrow> string) \<Rightarrow> alert_log \<Rightarrow> audit_event \<Rightarrow> anomaly_rule \<Rightarrow> anomaly_alert option" where
  "spec_alert nt L e r = (case key_of nt r (fst (snd e)) (snd (snd e)) of
      None \<Rightarrow> None
    | Some k \<Rightarrow> let windowMs = ar_windowSec r * 1000 in
        if ar_count r \<le> Suc (length (filter (\<lambda>x. fst e - windowMs < x) (times_of nt r k L)))
          \<and> list_all (\<lambda>x. x + windowMs \<le> fst e) (alert_times r k L)
        then Some (alert_of r k) else None)"

definition spec_observe :: "(js_num \<Rightarrow> string) \<Rightarrow> anomaly_rule list \<Rightarrow> alert_log \<Rightarrow> audit_event \<Rightarrow> alert_log \<times> anomaly_alert list" where
  "spec_observe nt rules L e = (let alerts = List.map_filter (spec_alert nt L e) rules in (L @ [(e, alerts)], alerts))"

text \<open>The distinct keys a rule counts.\<close>

definition counted_keys :: "(js_num \<Rightarrow> string) \<Rightarrow> anomaly_rule \<Rightarrow> audit_event list \<Rightarrow> string list" where
  "counted_keys nt r es = remdups (List.map_filter (\<lambda>e. key_of nt r (fst (snd e)) (snd (snd e))) es)"

subsection \<open>The detector implements the specification\<close>

definition last_n :: "nat \<Rightarrow> 'a list \<Rightarrow> 'a list" where
  "last_n n xs = drop (length xs - n) xs"

lemma length_last_n: "length (last_n n xs) = min n (length xs)"
  by (simp add: last_n_def)

lemma last_n_snoc: "1 \<le> n \<Longrightarrow>
  last_n n (xs @ [x]) = (if n < Suc (length (last_n n xs)) then tl (last_n n xs @ [x]) else last_n n xs @ [x])"
proof (cases "length xs < n")
  case True
  then show ?thesis by (simp add: last_n_def)
next
  case False
  assume "1 \<le> n"
  let ?m = "length xs - n"
  have "drop ?m xs \<noteq> []" using False \<open>1 \<le> n\<close> by simp
  then have "tl (drop ?m xs @ [x]) = drop (Suc ?m) xs @ [x]" by (simp add: drop_Suc tl_drop)
  with False \<open>1 \<le> n\<close> show ?thesis by (simp add: last_n_def Suc_diff_le)
qed

lemma sorted_window:
  assumes "sorted ts" "1 \<le> c"
  shows "c \<le> length (filter (\<lambda>x. b < x) ts) \<longleftrightarrow> c \<le> length ts \<and> b < hd (last_n c ts)"
proof (cases "c \<le> length ts")
  case False
  then show ?thesis using length_filter_le [of "\<lambda>x. b < x" ts] by linarith
next
  case True
  define A B where "A = take (length ts - c) ts" and "B = last_n c ts"
  have ts: "ts = A @ B" by (simp add: A_def B_def last_n_def)
  have B: "length B = c" using True by (simp add: B_def length_last_n)
  with assms(2) obtain y ys where y: "B = y # ys" by (cases B) auto
  show ?thesis
  proof (cases "b < y")
    case above: True
    then have "filter (\<lambda>x. b < x) B = B" using assms(1) ts y by (auto simp: sorted_append filter_id_conv)
    with B have "c \<le> length (filter (\<lambda>x. b < x) ts)" by (simp add: ts)
    with True above y show ?thesis by (simp flip: B_def)
  next
    case below: False
    then have "filter (\<lambda>x. b < x) A = []" using assms(1) ts y by (auto simp: sorted_append filter_empty_conv)
    moreover have "length (filter (\<lambda>x. b < x) B) < c" using below B y by (auto simp: le_imp_less_Suc)
    ultimately have "length (filter (\<lambda>x. b < x) ts) < c" by (simp add: ts)
    with below y show ?thesis by (simp flip: B_def)
  qed
qed

definition key_entry_ok :: "(js_num \<Rightarrow> string) \<Rightarrow> alert_log \<Rightarrow> anomaly_rule \<Rightarrow> string \<Rightarrow> key_state option \<Rightarrow> bool" where
  "key_entry_ok nt L r k entry = (case entry of
      None \<Rightarrow> times_of nt r k L = [] \<and> alert_times r k L = []
    | Some e \<Rightarrow> times_of nt r k L \<noteq> [] \<and> ks_recent e = last_n (ar_count r) (times_of nt r k L) \<and>
        ks_suppressedUntil e = (if alert_times r k L = [] then None
          else Some (last (alert_times r k L) + ar_windowSec r * 1000)))"

definition tracks :: "(js_num \<Rightarrow> string) \<Rightarrow> alert_log \<Rightarrow> rule_state \<Rightarrow> bool" where
  "tracks nt L st = (jm_wf (rs_keys st) \<and> (\<forall>k. key_entry_ok nt L (rs_rule st) k (jm_get (rs_keys st) k)))"

lemma times_of_snoc: "times_of nt r k (L @ [(e, as)]) = times_of nt r k L @ (if counts_under nt r k e then [fst e] else [])"
  by (simp add: times_of_def)

lemma alert_times_snoc: "alert_times r k (L @ [(e, as)]) = alert_times r k L @ (if alert_of r k \<in> set as then [fst e] else [])"
  by (simp add: alert_times_def)

lemma last_suppresses:
  assumes "sorted ts"
  shows "list_all (\<lambda>x. x + w \<le> t) ts \<longleftrightarrow> (ts = [] \<or> last ts + w \<le> (t :: int))"
proof (cases ts rule: rev_cases)
  case (snoc ys y)
  with assms show ?thesis by (fastforce simp: list_all_iff sorted_append)
qed simp

text \<open>What \<open>record_event\<close> does, with the table's part and the key's part apart.\<close>

definition entry_step :: "anomaly_rule \<Rightarrow> string \<Rightarrow> int \<Rightarrow> key_state \<Rightarrow> key_state \<times> anomaly_alert option" where
  "entry_step rule key t entry =
     (let pushed = ks_recent entry @ [t];
          recent = (if ar_count rule < length pushed then tl pushed else pushed);
          entry' = entry\<lparr>ks_recent := recent\<rparr>
      in if ar_count rule \<le> length recent \<and> t - ar_windowSec rule * 1000 < hd recent
            \<and> \<not> (case ks_suppressedUntil entry of Some u \<Rightarrow> t < u | None \<Rightarrow> False)
         then (entry'\<lparr>ks_suppressedUntil := Some (t + ar_windowSec rule * 1000)\<rparr>, Some (alert_of rule key))
         else (entry', None))"

lemma record_event_alt:
  "record_event st key t =
     (let (keys, entry) = (case jm_get (rs_keys st) key of
         Some e \<Rightarrow> (rs_keys st, e) | None \<Rightarrow> (evict_oldest (rs_keys st), new_key));
        (e', alert) = entry_step (rs_rule st) key t entry
      in (st\<lparr>rs_keys := jm_set key e' keys\<rparr>, alert))"
  by (auto simp: record_event_def entry_step_def alert_of_def Let_def not_less not_le split: option.splits prod.splits)

lemma entry_step_ok:
  assumes ok: "key_entry_ok nt L r k (Some entry) \<or> entry = new_key \<and> key_entry_ok nt L r k None"
    and r: "1 \<le> ar_count r" "1 \<le> ar_windowSec r" and sorted: "sorted (times_of nt r k L @ [fst e])" "sorted (alert_times r k L @ [fst e])"
    and key: "counts_under nt r k e"
    and as: "alert_of r k \<in> set as \<longleftrightarrow> spec_alert nt L e r = Some (alert_of r k)"
  shows "snd (entry_step r k (fst e) entry) = spec_alert nt L e r \<and>
    key_entry_ok nt (L @ [(e, as)]) r k (Some (fst (entry_step r k (fst e) entry)))"
proof -
  let ?ts = "times_of nt r k L" and ?t = "fst e" and ?w = "ar_windowSec r * 1000" and ?al = "alert_times r k L"
  have recent: "ks_recent entry = last_n (ar_count r) ?ts"
    and until: "ks_suppressedUntil entry = (if ?al = [] then None else Some (last ?al + ?w))"
    using ok by (auto simp: key_entry_ok_def new_key_def last_n_def)
  have pushed: "(if ar_count r < length (ks_recent entry @ [?t]) then tl (ks_recent entry @ [?t]) else ks_recent entry @ [?t])
      = last_n (ar_count r) (?ts @ [?t])"
    using last_n_snoc [OF r(1), of ?ts ?t] by (simp add: recent)
  have window: "ar_count r \<le> Suc (length (filter (\<lambda>x. ?t - ?w < x) ?ts)) \<longleftrightarrow>
      ar_count r \<le> length (last_n (ar_count r) (?ts @ [?t])) \<and> ?t - ?w < hd (last_n (ar_count r) (?ts @ [?t]))"
    using sorted_window [OF sorted(1) r(1), of "?t - ?w"] r(2) by (simp add: length_last_n)
  have quiet: "list_all (\<lambda>x. x + ?w \<le> ?t) ?al \<longleftrightarrow> \<not> (case ks_suppressedUntil entry of Some u \<Rightarrow> ?t < u | None \<Rightarrow> False)"
    using last_suppresses [of ?al ?w ?t] sorted(2) by (simp add: until sorted_append not_less)
  have spec: "spec_alert nt L e r = (if ar_count r \<le> length (last_n (ar_count r) (?ts @ [?t]))
      \<and> ?t - ?w < hd (last_n (ar_count r) (?ts @ [?t]))
      \<and> \<not> (case ks_suppressedUntil entry of Some u \<Rightarrow> ?t < u | None \<Rightarrow> False) then Some (alert_of r k) else None)"
    using key by (simp add: spec_alert_def counts_under_def Let_def window quiet)
  then show ?thesis
    using key as until unfolding entry_step_def Let_def pushed key_entry_ok_def
    by (simp add: times_of_snoc alert_times_snoc split: if_splits)
qed

lemma sorted_times:
  assumes "sorted (map (fst \<circ> fst) L @ [fst e])"
  shows "sorted (times_of nt r k L @ [fst e])" "sorted (alert_times r k L @ [fst e])"
  using assms by (auto simp: times_of_def alert_times_def sorted_append sorted_filter)

lemma observe_rule_rule: "rs_rule (fst (observe_rule nt e st)) = rs_rule st"
  by (simp add: observe_rule_def record_event_alt Let_def split: prod.split option.split)

lemma key_entry_other:
  "\<not> counts_under nt r k e \<Longrightarrow> alert_of r k \<notin> set as \<Longrightarrow> key_entry_ok nt (L @ [(e, as)]) r k x = key_entry_ok nt L r k x"
  by (cases x) (simp_all add: key_entry_ok_def times_of_snoc alert_times_snoc)

lemma tracks_step:
  assumes st: "tracks nt L st" "valid_rule (rs_rule st)" and sorted: "sorted (map (fst \<circ> fst) L @ [fst e])"
    and as: "\<And>k. alert_of (rs_rule st) k \<in> set as \<longleftrightarrow> spec_alert nt L e (rs_rule st) = Some (alert_of (rs_rule st) k)"
    and room: "\<And>k. counts_under nt (rs_rule st) k e \<Longrightarrow> jm_get (rs_keys st) k = None \<Longrightarrow> length (rs_keys st) < MAX_KEYS_PER_RULE"
  shows "snd (observe_rule nt e st) = spec_alert nt L e (rs_rule st) \<and> tracks nt (L @ [(e, as)]) (fst (observe_rule nt e st))"
proof -
  let ?r = "rs_rule st"
  obtain t event flds where e: "e = (t, event, flds)" by (metis prod_cases3)
  have r: "1 \<le> ar_count ?r" "1 \<le> ar_windowSec ?r" using st(2) by (auto simp: valid_rule_def)
  show ?thesis
  proof (cases "key_of nt ?r event flds")
    case None
    then have "spec_alert nt L e ?r = None" by (simp add: spec_alert_def e)
    moreover from None have "\<not> counts_under nt ?r k e" for k by (simp add: counts_under_def e)
    ultimately show ?thesis using None st(1) as by (simp add: observe_rule_def e tracks_def key_entry_other)
  next
    case (Some k)
    then have key: "counts_under nt ?r k e" and others: "k' \<noteq> k \<Longrightarrow> \<not> counts_under nt ?r k' e" for k'
      by (simp_all add: counts_under_def e)
    have quiet: "k' \<noteq> k \<Longrightarrow> alert_of ?r k' \<notin> set as" for k'
      using as [of k'] Some by (auto simp: spec_alert_def e alert_of_def Let_def split: if_splits)
    obtain keys entry where ke: "(case jm_get (rs_keys st) k of Some x \<Rightarrow> (rs_keys st, x)
        | None \<Rightarrow> (evict_oldest (rs_keys st), new_key)) = (keys, entry)" by fastforce
    then have keys: "keys = rs_keys st" using room [OF key] by (auto simp: evict_oldest_def split: option.splits)
    have "key_entry_ok nt L ?r k (jm_get (rs_keys st) k)" using st(1) by (simp add: tracks_def)
    then have "key_entry_ok nt L ?r k (Some entry) \<or> entry = new_key \<and> key_entry_ok nt L ?r k None"
      using ke by (cases "jm_get (rs_keys st) k") auto
    from entry_step_ok [OF this r sorted_times [OF sorted] key as]
    have step: "snd (entry_step ?r k t entry) = spec_alert nt L e ?r"
        "key_entry_ok nt (L @ [(e, as)]) ?r k (Some (fst (entry_step ?r k t entry)))" by (simp_all add: e)
    have same: "key_entry_ok nt (L @ [(e, as)]) ?r k' x = key_entry_ok nt L ?r k' x" if "k' \<noteq> k" for k' x
      using others [OF that] quiet [OF that] by (rule key_entry_other)
    have obs: "observe_rule nt e st = (st\<lparr>rs_keys := jm_set k (fst (entry_step ?r k t entry)) keys\<rparr>, snd (entry_step ?r k t entry))"
      using Some ke by (simp add: observe_rule_def e record_event_alt Let_def case_prod_beta)
    show ?thesis
      using st(1) step(2) same by (auto simp: obs step(1) keys tracks_def distinct_update update_conv')
  qed
qed

lemma alerts_of_rule:
  assumes "distinct (map ar_name rules)" "r \<in> set rules"
  shows "alert_of r k \<in> set (List.map_filter (spec_alert nt L e) rules) \<longleftrightarrow> spec_alert nt L e r = Some (alert_of r k)"
proof
  have alert: "spec_alert nt L e q = Some a \<Longrightarrow> \<exists>j. a = alert_of q j" for q a
    by (auto simp: spec_alert_def Let_def split: option.splits if_splits)
  assume "alert_of r k \<in> set (List.map_filter (spec_alert nt L e) rules)"
  then obtain q where q: "q \<in> set rules" "spec_alert nt L e q = Some (alert_of r k)"
    by (auto simp: in_map_filter)
  with alert have "ar_name q = ar_name r" by (fastforce simp: alert_of_def)
  with q(1) assms have "q = r" by (auto simp: distinct_map inj_on_def)
  with q(2) show "spec_alert nt L e r = Some (alert_of r k)" by simp
next
  assume "spec_alert nt L e r = Some (alert_of r k)"
  with assms(2) show "alert_of r k \<in> set (List.map_filter (spec_alert nt L e) rules)"
    by (auto simp: in_map_filter)
qed

lemma tracked_keys:
  assumes "tracks nt L st" "counts_under nt (rs_rule st) k e" "jm_get (rs_keys st) k = None"
    "length (counted_keys nt (rs_rule st) (map fst L @ e # es)) \<le> MAX_KEYS_PER_RULE"
  shows "length (rs_keys st) < MAX_KEYS_PER_RULE"
proof -
  let ?r = "rs_rule st" and ?K = "map fst (rs_keys st)"
  let ?C = "set (counted_keys nt ?r (map fst L @ e # es))"
  have "k' \<in> ?C" if "k' \<in> set ?K" for k'
  proof -
    from that obtain x where "jm_get (rs_keys st) k' = Some x" by (metis map_of_eq_None_iff not_None_eq list.set_map)
    then have "key_entry_ok nt L ?r k' (Some x)" using assms(1) unfolding tracks_def by metis
    then have "times_of nt ?r k' L \<noteq> []" by (simp add: key_entry_ok_def)
    then show ?thesis
      by (fastforce simp: times_of_def counts_under_def counted_keys_def in_map_filter filter_empty_conv)
  qed
  moreover have "k \<in> ?C" using assms(2) by (simp add: counts_under_def counted_keys_def in_map_filter)
  moreover have "k \<notin> set ?K" using assms(3) by (simp add: map_of_eq_None_iff)
  ultimately have "set ?K \<subset> ?C" by blast
  then have "card (set ?K) < card ?C" by (simp add: psubset_card_mono)
  also have "\<dots> \<le> length (counted_keys nt ?r (map fst L @ e # es))" by (rule card_length)
  finally show ?thesis using assms(1,4) distinct_card [of ?K] by (simp add: tracks_def)
qed

subsection \<open>The detector's alerts\<close>

lemma observe_step:
  assumes d: "\<forall>st \<in> set d. tracks nt L st" "list_all valid_rule (map rs_rule d)" "distinct (map (ar_name \<circ> rs_rule) d)"
    and sorted: "sorted (map (fst \<circ> fst) L @ [fst e])"
    and room: "\<forall>r \<in> set (map rs_rule d). length (counted_keys nt r (map fst L @ e # es)) \<le> MAX_KEYS_PER_RULE"
  shows "snd (observe nt d e) = snd (spec_observe nt (map rs_rule d) L e) \<and>
    map rs_rule (fst (observe nt d e)) = map rs_rule d \<and>
    (\<forall>st \<in> set (fst (observe nt d e)). tracks nt (fst (spec_observe nt (map rs_rule d) L e)) st)"
proof -
  let ?rules = "map rs_rule d" and ?as = "List.map_filter (spec_alert nt L e) (map rs_rule d)"
  have names: "distinct (map ar_name ?rules)" using d(3) by (simp add: comp_def)
  have step: "snd (observe_rule nt e st) = spec_alert nt L e (rs_rule st) \<and> tracks nt (L @ [(e, ?as)]) (fst (observe_rule nt e st))"
    if "st \<in> set d" for st
  proof (rule tracks_step [OF _ _ sorted])
    show "tracks nt L st" "valid_rule (rs_rule st)" using d that by (simp_all add: list_all_iff)
    fix k
    show "(alert_of (rs_rule st) k \<in> set ?as) = (spec_alert nt L e (rs_rule st) = Some (alert_of (rs_rule st) k))"
      using that by (intro alerts_of_rule [OF names]) simp
    assume "counts_under nt (rs_rule st) k e" "jm_get (rs_keys st) k = None"
    with d that room show "length (rs_keys st) < MAX_KEYS_PER_RULE" by (intro tracked_keys) auto
  qed
  show ?thesis
  proof (cases "fst (snd e) \<in> set AUDIT_OWN_EVENTS")
    case True
    have own: "key_of nt (rs_rule st) (fst (snd e)) (snd (snd e)) = None" if "st \<in> set d" for st
      using True d(2) that by (auto simp: key_of_def list_all_iff valid_rule_def)
    then have none: "?as = []" by (simp add: spec_alert_def List.map_filter_def filter_empty_conv)
    have "fst (observe_rule nt e st) = st" if "st \<in> set d" for st
      using own [OF that] by (simp add: observe_rule_def case_prod_beta)
    with True step none show ?thesis by (simp add: observe_def spec_observe_def)
  next
    case False
    have "List.map_filter (snd \<circ> observe_rule nt e) d = ?as"
      using step by (intro map_filter_cong) simp
    with False step show ?thesis by (simp add: observe_def spec_observe_def observe_rule_rule Let_def)
  qed
qed

lemma observe_run:
  "\<forall>st \<in> set d. tracks nt L st \<Longrightarrow> list_all valid_rule (map rs_rule d) \<Longrightarrow> distinct (map (ar_name \<circ> rs_rule) d) \<Longrightarrow>
    sorted (map (fst \<circ> fst) L @ map fst es) \<Longrightarrow>
    \<forall>r \<in> set (map rs_rule d). length (counted_keys nt r (map fst L @ es)) \<le> MAX_KEYS_PER_RULE \<Longrightarrow>
    snd (exec (observe nt) d es) = snd (exec (spec_observe nt (map rs_rule d)) L es)"
proof (induction es arbitrary: d L)
  case Nil
  then show ?case by simp
next
  case (Cons e es)
  obtain d' as where o: "observe nt d e = (d', as)" by fastforce
  obtain L' as' where o': "spec_observe nt (map rs_rule d) L e = (L', as')" by fastforce
  have sorted: "sorted (map (fst \<circ> fst) L @ [fst e])" using Cons.prems(4) by (simp add: sorted_append comp_def)
  from observe_step [OF Cons.prems(1-3) sorted Cons.prems(5)]
  have step: "as = as'" "map rs_rule d' = map rs_rule d" "\<forall>st \<in> set d'. tracks nt L' st" by (simp_all add: o o')
  have L': "L' = L @ [(e, as')]" using o' by (auto simp: spec_observe_def Let_def)
  have names: "distinct (map (ar_name \<circ> rs_rule) d')"
    using Cons.prems(3) step(2) by (metis map_map)
  have "sorted (map (fst \<circ> fst) L' @ map fst es)" using Cons.prems(4) by (simp add: L' comp_def)
  moreover have "\<forall>r \<in> set (map rs_rule d'). length (counted_keys nt r (map fst L' @ es)) \<le> MAX_KEYS_PER_RULE"
    using Cons.prems(5) unfolding step(2) by (simp add: L')
  ultimately have "snd (exec (observe nt) d' es) = snd (exec (spec_observe nt (map rs_rule d')) L' es)"
    using Cons.prems(2) names step(2,3) by (intro Cons.IH) (assumption | simp)+
  then show ?case by (simp add: o o' step(1,2) case_prod_beta)
qed

text \<open>C34. For every accepted rule list and every sequence of events with a clock that does not go back and
  at most 10000 distinct keys per rule, the detector, which keeps only the last timestamps of each key, raises
  exactly the alerts of the specification that looks at the whole history: a rule alerts for a key when
  the key's events inside the window are at least the rule's count and the key has not alerted inside
  the window; events the audit trail writes itself raise none.\<close>
theorem anomaly_alerts_exact:
  assumes "createAnomalyDetector v = Inr d" and "sorted (map fst es)"
    and "\<forall>r \<in> set (map rs_rule d). length (counted_keys nt r es) \<le> MAX_KEYS_PER_RULE"
  shows "snd (exec (observe nt) d es) = snd (exec (spec_observe nt (map rs_rule d)) [] es) \<and>
    (\<forall>(e, as) \<in> set (zip es (snd (exec (observe nt) d es))). fst (snd e) \<in> set AUDIT_OWN_EVENTS \<longrightarrow> as = [])"
proof
  note rules = created_rules [OF assms(1)]
  have "\<forall>st \<in> set d. tracks nt [] st" using rules(3) by (simp add: tracks_def key_entry_ok_def times_of_def alert_times_def)
  then show "snd (exec (observe nt) d es) = snd (exec (spec_observe nt (map rs_rule d)) [] es)"
    using rules assms by (intro observe_run) simp_all
  have "\<forall>(e, as) \<in> set (zip es (snd (exec (observe nt) s es))). fst (snd e) \<in> set AUDIT_OWN_EVENTS \<longrightarrow> as = []" for s
  proof (induction es arbitrary: s)
    case (Cons e es)
    then show ?case by (cases e) (force simp: observe_def case_prod_beta)
  qed simp
  then show "\<forall>(e, as) \<in> set (zip es (snd (exec (observe nt) d es))). fst (snd e) \<in> set AUDIT_OWN_EVENTS \<longrightarrow> as = []" .
qed

definition sample_rules :: js where
  "sample_rules = JArr [JObj [(''name'', JStr ''r''), (''event'', JStr ''login_failed''), (''count'', JNum (Fin 2)),
     (''windowSec'', JNum (Fin 10)), (''groupBy'', JStr ''ip'')]]"

definition sample_detector :: "rule_state list" where
  "sample_detector = [\<lparr>rs_rule = \<lparr>ar_name = ''r'', ar_event = ''login_failed'', ar_count = 2, ar_windowSec = 10,
     ar_groupBy = Some ''ip'', ar_where = None\<rparr>, rs_keys = []\<rparr>]"

definition sample_events :: "audit_event list" where
  "sample_events = [(0, ''login_failed'', [(''ip'', JStr ''a'')]), (5000, ''login_failed'', [(''ip'', JStr ''a'')]),
     (6000, ''login_failed'', [(''ip'', JStr ''a'')]), (7000, ''anomaly_detected'', []), (15000, ''login_failed'', [(''ip'', JStr ''a'')])]"

lemma sample_created: "createAnomalyDetector sample_rules = Inr sample_detector"
  by (simp add: createAnomalyDetector_def parseAnomalyRules_def sample_rules_def parseRule_def obj_get_def nonempty_text_def
      RULE_FIELDS_def AUDIT_OWN_EVENTS_def isIntegerIn_def safe_integer_def MAX_SAFE_INTEGER_def MAX_COUNT_def MAX_WINDOW_SEC_def
      parse_optional_def parse_groupBy_def sample_detector_def)

theorem anomaly_alerts_exact_witness:
  "snd (exec (observe (\<lambda>_. [])) sample_detector sample_events) = [[], [alert_of (rs_rule (hd sample_detector)) ''a''], [], [],
     [alert_of (rs_rule (hd sample_detector)) ''a'']] \<and>
   snd (exec (spec_observe (\<lambda>_. []) (map rs_rule sample_detector)) [] sample_events) =
     snd (exec (observe (\<lambda>_. [])) sample_detector sample_events)"
proof
  have "sorted (map fst sample_events)" "\<forall>r \<in> set (map rs_rule sample_detector). length (counted_keys (\<lambda>_. []) r sample_events) \<le> MAX_KEYS_PER_RULE"
    by code_simp+
  from anomaly_alerts_exact [OF sample_created this]
  show "snd (exec (spec_observe (\<lambda>_. []) (map rs_rule sample_detector)) [] sample_events) =
     snd (exec (observe (\<lambda>_. [])) sample_detector sample_events)" by simp
  show "snd (exec (observe (\<lambda>_. [])) sample_detector sample_events) = [[], [alert_of (rs_rule (hd sample_detector)) ''a''], [], [],
     [alert_of (rs_rule (hd sample_detector)) ''a'']]" by code_simp
qed

end
