(* ===== verification/Load_Forecast.thy ===== *)
theory Load_Forecast
  imports State_Dir
begin

text \<open>
  Load figures of the service: the per-minute request history and its forecast,
  \<^verbatim>\<open>services/ultrathink/obs/forecast.ts\<close>, and the adaptive quota factor,
  \<^verbatim>\<open>services/ultrathink/obs/quota.ts\<close>. The history is a one-day ring of counts by minute
  modulo 1440; minutes are integers, the forecast's rates and the factor are exact reals where the
  sources compute with doubles. \<^verbatim>\<open>JSON.stringify\<close> and \<^verbatim>\<open>JSON.parse\<close> appear as
  the value that is written and the value that is read, \<open>None\<close> when the text does not parse.
\<close>

subsection \<open>The ring\<close>

definition MINUTE_MS :: real where "MINUTE_MS = 60000"
definition SLOTS :: int where "SLOTS = 1440"
definition HORIZON_MINUTES :: int where "HORIZON_MINUTES = 15"
definition MIN_OBSERVED_MINUTES :: nat where "MIN_OBSERVED_MINUTES = 5"
definition HOLT_ALPHA :: real where "HOLT_ALPHA = 3 / 10"
definition HOLT_BETA :: real where "HOLT_BETA = 1 / 10"

record ring_state =
  rg_last :: "int option"
  rg_counts :: "nat list"

definition minuteOf :: "real \<Rightarrow> int" where
  "minuteOf nowMs = \<lfloor>nowMs / MINUTE_MS\<rfloor>"

definition slotOf :: "int \<Rightarrow> nat" where
  "slotOf minute = nat (minute mod SLOTS)"

definition countAt :: "ring_state \<Rightarrow> int \<Rightarrow> nat" where
  "countAt st minute = (case rg_last st of
      None \<Rightarrow> 0
    | Some l \<Rightarrow> if l < minute \<or> minute \<le> l - SLOTS then 0 else rg_counts st ! slotOf minute)"

text \<open>The slots the clock passed since minute \<open>l\<close>, set to zero.\<close>

definition clear_passed :: "int \<Rightarrow> int \<Rightarrow> nat list \<Rightarrow> nat list" where
  "clear_passed l current counts =
     (if l < current then foldl (\<lambda>cs k. cs[slotOf (l + k) := 0]) counts [1..min (current - l) SLOTS] else counts)"

definition record_request :: "js_num \<Rightarrow> ring_state \<Rightarrow> ring_state" where
  "record_request nowMs st = (case nowMs of
      Fin q \<Rightarrow>
        let minute = minuteOf q;
            current = (case rg_last st of None \<Rightarrow> minute | Some l \<Rightarrow> max minute l);
            counts = (case rg_last st of None \<Rightarrow> rg_counts st | Some l \<Rightarrow> clear_passed l current (rg_counts st));
            slot = slotOf current
        in \<lparr>rg_last = Some current, rg_counts = counts[slot := counts ! slot + 1]\<rparr>
    | _ \<Rightarrow> st)"

definition createLoadHistory :: ring_state where
  "createLoadHistory = \<lparr>rg_last = None, rg_counts = replicate (nat SLOTS) 0\<rparr>"

subsection \<open>Saving and restoring\<close>

definition ring_json :: "ring_state \<Rightarrow> js" where
  "ring_json st = JObj [
     (''last'', case rg_last st of None \<Rightarrow> JNull | Some l \<Rightarrow> JNum (Fin (of_int l))),
     (''counts'', JArr (map (\<lambda>c. JNum (Fin (of_nat c))) (rg_counts st)))]"

text \<open>A count: a safe integer that is not negative.\<close>

definition parse_count :: "js \<Rightarrow> nat option" where
  "parse_count v = (case v of
      JNum n \<Rightarrow> (case safe_integer n of Some i \<Rightarrow> if 0 \<le> i then Some (nat i) else None | None \<Rightarrow> None)
    | _ \<Rightarrow> None)"

definition parseState :: "js option \<Rightarrow> ring_state option" where
  "parseState raw = (case raw of
      Some (JObj obj) \<Rightarrow>
        (case obj_get obj ''counts'' of
           JArr items \<Rightarrow>
             if int (length items) \<noteq> SLOTS \<or> \<not> list_all (\<lambda>v. parse_count v \<noteq> None) items then None
             else let ring = map (\<lambda>v. the (parse_count v)) items in
               (case obj_get obj ''last'' of
                  JNull \<Rightarrow> if list_all (\<lambda>c. c = 0) ring then Some \<lparr>rg_last = None, rg_counts = ring\<rparr> else None
                | JNum n \<Rightarrow> (case safe_integer n of Some l \<Rightarrow> Some \<lparr>rg_last = Some l, rg_counts = ring\<rparr> | None \<Rightarrow> None)
                | _ \<Rightarrow> None)
         | _ \<Rightarrow> None)
    | _ \<Rightarrow> None)"

definition loadLoadHistory :: "js option \<Rightarrow> ring_state" where
  "loadLoadHistory text = (case parseState text of Some st \<Rightarrow> st | None \<Rightarrow> createLoadHistory)"

text \<open>The saved file, of the service's \<^verbatim>\<open>routes/router.ts\<close>: \<open>None\<close> when
  there is none. A save goes through a temporary file and a rename, so one that fails leaves the file as
  it was; a file that cannot be read starts an empty history.\<close>

definition saveHistory :: "bool \<Rightarrow> ring_state \<Rightarrow> js option \<Rightarrow> js option" where
  "saveHistory written st stored = (if written then Some (ring_json st) else stored)"

definition restoreHistory :: "bool \<Rightarrow> js option \<Rightarrow> ring_state" where
  "restoreHistory readable stored = (case stored of
      Some content \<Rightarrow> if readable then loadLoadHistory (Some content) else createLoadHistory
    | None \<Rightarrow> createLoadHistory)"

subsection \<open>The forecast\<close>

datatype forecast_source = Cold | Holt | Holt_yesterday

text \<open>One step of Holt's linear method.\<close>

definition holt_step :: "real \<times> real \<Rightarrow> real \<Rightarrow> real \<times> real" where
  "holt_step lt observedNow = (let (previous, trend) = lt;
     level = HOLT_ALPHA * observedNow + (1 - HOLT_ALPHA) * (previous + trend)
     in (level, HOLT_BETA * (level - previous) + (1 - HOLT_BETA) * trend))"

text \<open>Level and trend over a series, started from its first two values; an absent value reads as zero.\<close>

definition holt :: "real list \<Rightarrow> real \<times> real" where
  "holt series = (let first = (if series = [] then 0 else series ! 0);
      second = (if length series < 2 then 0 else series ! 1)
    in foldl holt_step (second, second - first) (drop 2 series))"

definition holt_peak :: "real \<times> real \<Rightarrow> real" where
  "holt_peak lt = foldl (\<lambda>peak h. max peak (fst lt + of_int h * snd lt)) 0 [1..HORIZON_MINUTES]"

definition yesterday_peak :: "ring_state \<Rightarrow> int \<Rightarrow> nat" where
  "yesterday_peak st now = foldl (\<lambda>y h. max y (countAt st (now + h - SLOTS))) 0 [1..HORIZON_MINUTES]"

definition forecast :: "js_num \<Rightarrow> ring_state \<Rightarrow> real \<times> forecast_source" where
  "forecast nowMs st = (case (rg_last st, nowMs) of
      (Some l, Fin q) \<Rightarrow>
        let now = max (minuteOf q) l;
            seen = filter (\<lambda>m. 0 < countAt st m) [now - SLOTS + 1..now]
        in if length seen < MIN_OBSERVED_MINUTES then (of_nat (countAt st now) / 60, Cold)
           else let peak = holt_peak (holt (map (\<lambda>m. of_nat (countAt st m)) [hd seen..now]));
                    yesterday = of_nat (yesterday_peak st now)
                in if peak < yesterday then (yesterday / 60, Holt_yesterday) else (peak / 60, Holt)
    | _ \<Rightarrow> (0, Cold))"

definition recommendedReplicas :: "js_num \<Rightarrow> js_num \<Rightarrow> js_error + int" where
  "recommendedReplicas rps capacityRps = (case capacityRps of
      Fin capacity \<Rightarrow>
        if capacity \<le> 0 then Inl (RangeError ''capacityRps'')
        else (case rps of
            Fin r \<Rightarrow> if r < 0 then Inl (RangeError ''rps'') else Inr (max 1 \<lceil>r / capacity\<rceil>)
          | _ \<Rightarrow> Inl (RangeError ''rps''))
    | _ \<Rightarrow> Inl (RangeError ''capacityRps''))"

subsection \<open>The adaptive quota\<close>

definition STEP_DOWN :: real where "STEP_DOWN = 1 / 2"
definition STEP_UP :: real where "STEP_UP = 1 / 20"
definition PRESSURE_UTILISATION :: real where "PRESSURE_UTILISATION = 4 / 5"

record quota =
  qt_minFactor :: real
  qt_lagTargetMs :: real
  qt_factor :: real

definition createAdaptiveQuota :: "js_num \<Rightarrow> js_num \<Rightarrow> js_error + quota" where
  "createAdaptiveQuota minFactor lagTargetMs = (case minFactor of
      Fin m \<Rightarrow>
        if \<not> (0 < m \<and> m \<le> 1) then Inl (RangeError ''minFactor'')
        else (case lagTargetMs of
            Fin l \<Rightarrow> if l < 0 then Inl (RangeError ''lagTargetMs'')
              else Inr \<lparr>qt_minFactor = m, qt_lagTargetMs = l, qt_factor = 1\<rparr>
          | _ \<Rightarrow> Inl (RangeError ''lagTargetMs''))
    | _ \<Rightarrow> Inl (RangeError ''minFactor''))"

definition quota_observe :: "js_num \<Rightarrow> js_num \<Rightarrow> quota \<Rightarrow> quota" where
  "quota_observe lagMs utilisation s = (case (lagMs, utilisation) of
      (Fin lag, Fin u) \<Rightarrow>
        if lag < 0 \<or> u < 0 then s
        else if qt_lagTargetMs s < lag \<or> PRESSURE_UTILISATION \<le> u
        then s\<lparr>qt_factor := max (qt_minFactor s) (qt_factor s * STEP_DOWN)\<rparr>
        else s\<lparr>qt_factor := min 1 (qt_factor s + STEP_UP)\<rparr>
    | _ \<Rightarrow> s)"

subsection \<open>The ring counts the last day's requests\<close>

text \<open>A service: its ring and the file it last saved, to which it goes back when it starts again.\<close>

record load_service =
  sv_ring :: ring_state
  sv_file :: "js option"

definition fresh_service :: load_service where
  "fresh_service = \<lparr>sv_ring = createLoadHistory, sv_file = None\<rparr>"

datatype load_event = Request js_num | Save bool | Restart bool

definition load_step :: "load_service \<Rightarrow> load_event \<Rightarrow> load_service" where
  "load_step s e = (case e of
      Request q \<Rightarrow> s\<lparr>sv_ring := record_request q (sv_ring s)\<rparr>
    | Save written \<Rightarrow> s\<lparr>sv_file := saveHistory written (sv_ring s) (sv_file s)\<rparr>
    | Restart readable \<Rightarrow> s\<lparr>sv_ring := restoreHistory readable (sv_file s)\<rparr>)"

text \<open>What an observer writes down: the minute of every request by the clock it was recorded with, oldest
  first, and the list as it was when it was last saved, to which a restart takes it back.\<close>

definition note_event :: "int list \<times> int list \<Rightarrow> load_event \<Rightarrow> int list \<times> int list" where
  "note_event logs e = (case e of
      Request (Fin q) \<Rightarrow> (fst logs @ [minuteOf q], snd logs)
    | Request _ \<Rightarrow> logs
    | Save written \<Rightarrow> (fst logs, if written then fst logs else snd logs)
    | Restart readable \<Rightarrow> (if readable then snd logs else [], snd logs))"

text \<open>The minute each request counts for: the newest seen up to it, which is its own when the clock never
  goes back.\<close>

definition counted_minutes :: "int list \<Rightarrow> int list" where
  "counted_minutes reqs = map (\<lambda>i. Max (set (take (Suc i) reqs))) [0..<length reqs]"

lemma counted_minutes_snoc: "counted_minutes (reqs @ [m]) = counted_minutes reqs @ [Max (set (reqs @ [m]))]"
  by (simp add: counted_minutes_def)

lemma counted_minutes_last: "reqs \<noteq> [] \<Longrightarrow> counted_minutes reqs \<noteq> [] \<and> last (counted_minutes reqs) = Max (set reqs)"
  by (cases reqs rule: rev_cases) (simp_all add: counted_minutes_snoc)

lemma counted_minutes_Nil [simp]: "counted_minutes [] = []" "counted_minutes reqs = [] \<longleftrightarrow> reqs = []"
  "length (counted_minutes reqs) = length reqs"
  by (simp_all add: counted_minutes_def)

lemma counted_minutes_step:
  "counted_minutes (reqs @ [m]) = counted_minutes reqs @
     [if reqs = [] then m else max m (last (counted_minutes reqs))]"
proof (cases "reqs = []")
  case False
  then have "Max (set (reqs @ [m])) = max m (Max (set reqs))" by (simp add: max.commute)
  with False counted_minutes_last [OF False] show ?thesis by (simp add: counted_minutes_snoc)
qed (simp add: counted_minutes_def)

lemma counted_minutes_sorted: "sorted reqs \<Longrightarrow> counted_minutes reqs = reqs"
proof (induction reqs rule: rev_induct)
  case (snoc m reqs)
  then have "sorted reqs" "reqs \<noteq> [] \<Longrightarrow> last reqs \<le> m" by (auto simp: sorted_append)
  with snoc.IH show ?case by (auto simp: counted_minutes_step)
qed simp

definition ring_ok :: "int list \<Rightarrow> ring_state \<Rightarrow> bool" where
  "ring_ok mins st = (int (length (rg_counts st)) = SLOTS \<and> sorted mins \<and> list_all (\<lambda>c. c \<le> length mins) (rg_counts st) \<and>
     (if mins = [] then st = createLoadHistory
      else rg_last st = Some (last mins) \<and>
        (\<forall>m. last mins - SLOTS < m \<and> m \<le> last mins \<longrightarrow> rg_counts st ! slotOf m = count_list mins m)))"

lemma slotOf_less: "slotOf m < nat SLOTS"
  by (simp add: slotOf_def SLOTS_def)

lemma slotOf_eq: "slotOf a = slotOf b \<longleftrightarrow> SLOTS dvd a - b"
proof -
  have "slotOf a = slotOf b \<longleftrightarrow> a mod SLOTS = b mod SLOTS" by (simp add: slotOf_def SLOTS_def eq_nat_nat_iff)
  then show ?thesis by (simp add: mod_eq_dvd_iff)
qed

lemma slotOf_window: "\<bar>a - b\<bar> < SLOTS \<Longrightarrow> slotOf a = slotOf b \<longleftrightarrow> a = b"
  unfolding slotOf_eq using dvd_imp_le_int [of "a - b" SLOTS] by auto

lemma clear_nth:
  "i < length cs \<Longrightarrow> foldl (\<lambda>cs k. cs[slotOf (l + k) := 0]) cs ks ! i
    = (if \<exists>k \<in> set ks. slotOf (l + k) = i then 0 else cs ! i)"
  by (induction ks arbitrary: cs) (auto simp: nth_list_update)

lemma length_clear: "length (foldl (\<lambda>cs k. cs[slotOf (l + k) := 0]) cs ks) = length cs"
  by (induction ks arbitrary: cs) auto

lemma set_clear: "set (foldl (\<lambda>cs k. cs[slotOf (l + k) := 0]) cs ks) \<subseteq> insert 0 (set cs)"
  by (induction ks arbitrary: cs) (use set_update_subset_insert in fastforce)+

lemma count_list_above: "sorted mins \<Longrightarrow> mins \<noteq> [] \<Longrightarrow> last mins < m \<Longrightarrow> count_list mins m = 0"
  by (cases mins rule: rev_cases) (auto simp: count_list_0_iff sorted_append)

lemma clear_passed_nth:
  assumes ok: "ring_ok mins st" "mins \<noteq> []" and c: "last mins \<le> c" and m: "c - SLOTS < m" "m \<le> c"
  shows "clear_passed (last mins) c (rg_counts st) ! slotOf m = count_list mins m"
proof -
  let ?l = "last mins" and ?ks = "[1..min (c - last mins) SLOTS]"
  have i: "slotOf m < length (rg_counts st)" using ok(1) slotOf_less [of m] by (auto simp: ring_ok_def)
  have in_window: "?l - SLOTS < m \<Longrightarrow> m \<le> ?l \<Longrightarrow> rg_counts st ! slotOf m = count_list mins m"
    using ok by (simp add: ring_ok_def)
  show ?thesis
  proof (cases "?l < m")
    case True
    define k where "k = (m - ?l - 1) mod SLOTS + 1"
    have eq: "?l + k - m = - ((m - ?l - 1) - (m - ?l - 1) mod SLOTS)" by (simp add: k_def)
    have "slotOf (?l + k) = slotOf m" unfolding slotOf_eq eq dvd_minus_iff by (rule dvd_minus_mod)
    moreover have "1 \<le> k" "k \<le> SLOTS"
      using pos_mod_bound [of SLOTS "m - ?l - 1"] pos_mod_sign [of SLOTS "m - ?l - 1"] by (simp_all add: k_def SLOTS_def)
    moreover have "k \<le> c - ?l"
      using zmod_le_nonneg_dividend [of "m - ?l - 1" SLOTS] True m(2) by (simp add: k_def)
    ultimately have "\<exists>k \<in> set ?ks. slotOf (?l + k) = slotOf m" by auto
    then have "foldl (\<lambda>cs k. cs[slotOf (?l + k) := 0]) (rg_counts st) ?ks ! slotOf m = 0" by (simp add: clear_nth [OF i])
    moreover have "count_list mins m = 0" using ok True by (intro count_list_above) (simp_all add: ring_ok_def)
    ultimately show ?thesis using True m by (simp add: clear_passed_def)
  next
    case False
    have "slotOf (?l + k) \<noteq> slotOf m" if "k \<in> set ?ks" for k
      using that False m by (subst slotOf_window) auto
    then have "foldl (\<lambda>cs k. cs[slotOf (?l + k) := 0]) (rg_counts st) ?ks ! slotOf m = rg_counts st ! slotOf m"
      by (auto simp: clear_nth [OF i])
    with False c m in_window show ?thesis by (simp add: clear_passed_def)
  qed
qed

lemma record_ok:
  assumes ok: "ring_ok mins st"
  shows "ring_ok (mins @ [if mins = [] then minuteOf q else max (minuteOf q) (last mins)]) (record_request (Fin q) st)"
proof -
  define c where "c = (if mins = [] then minuteOf q else max (minuteOf q) (last mins))"
  define cs where "cs = (if mins = [] then rg_counts st else clear_passed (last mins) c (rg_counts st))"
  have st: "record_request (Fin q) st = \<lparr>rg_last = Some c, rg_counts = cs[slotOf c := cs ! slotOf c + 1]\<rparr>"
    using ok by (auto simp: record_request_def ring_ok_def c_def cs_def createLoadHistory_def Let_def)
  have length_cs: "length cs = length (rg_counts st)" by (simp add: cs_def clear_passed_def length_clear)
  have sub: "set cs \<subseteq> insert 0 (set (rg_counts st))"
    using set_clear by (auto simp: cs_def clear_passed_def split: if_splits)
  have small: "list_all (\<lambda>x. x \<le> length mins) cs"
    using ok sub by (auto simp: ring_ok_def list_all_iff)
  have sorted: "sorted (mins @ [c])" using ok by (cases mins rule: rev_cases) (auto simp: ring_ok_def sorted_append c_def)
  have nth: "cs ! slotOf m = count_list mins m" if m: "c - SLOTS < m" "m \<le> c" for m
  proof (cases "mins = []")
    case True
    with ok slotOf_less [of m] show ?thesis by (simp add: ring_ok_def cs_def createLoadHistory_def)
  next
    case False
    with m clear_passed_nth [OF ok False, of c m] show ?thesis by (simp add: cs_def c_def)
  qed
  have len: "slotOf m < length cs" for m using ok length_cs slotOf_less [of m] by (auto simp: ring_ok_def)
  have "cs[slotOf c := cs ! slotOf c + 1] ! slotOf m = count_list (mins @ [c]) m" if "c - SLOTS < m" "m \<le> c" for m
    using nth [OF that] len that by (auto simp: nth_list_update slotOf_window)
  moreover have "list_all (\<lambda>x. x \<le> Suc (length mins)) (cs[slotOf c := cs ! slotOf c + 1])"
    using small len [of c] set_update_subset_insert [of cs "slotOf c" "cs ! slotOf c + 1"]
    by (force simp: list_all_iff dest: nth_mem)
  ultimately show ?thesis
    using ok sorted length_cs by (simp add: st ring_ok_def flip: c_def)
qed

lemma ring_json_get [simp]:
  "obj_get [(''last'', a), (''counts'', b)] ''counts'' = b" "obj_get [(''last'', a), (''counts'', b)] ''last'' = a"
  by (simp_all add: obj_get_def)

lemma parse_count_of_nat: "int c \<le> MAX_SAFE_INTEGER \<Longrightarrow> parse_count (JNum (Fin (of_nat c))) = Some c"
  using safe_integer_int [of "int c"] by (simp add: parse_count_def)

text \<open>A ring comes back from its saved form.\<close>

lemma ring_roundtrip:
  assumes "int (length (rg_counts st)) = SLOTS" "list_all (\<lambda>c. int c \<le> MAX_SAFE_INTEGER) (rg_counts st)"
    "case rg_last st of None \<Rightarrow> list_all (\<lambda>c. c = 0) (rg_counts st) | Some l \<Rightarrow> \<bar>l\<bar> \<le> MAX_SAFE_INTEGER"
  shows "parseState (Some (ring_json st)) = Some st"
proof -
  have parsed: "map (\<lambda>v. the (parse_count v)) (map (\<lambda>c. JNum (Fin (of_nat c))) (rg_counts st)) = rg_counts st"
    using assms(2) by (auto simp: list_all_iff parse_count_of_nat intro: map_idI)
  have "list_all (\<lambda>v. parse_count v \<noteq> None) (map (\<lambda>c. JNum (Fin (of_nat c))) (rg_counts st))"
    using assms(2) by (auto simp: list_all_iff parse_count_of_nat)
  with assms show ?thesis
    by (auto simp: parseState_def ring_json_def Let_def parsed [unfolded map_map comp_def] comp_def split: option.splits)
qed

definition timely :: "load_event \<Rightarrow> bool" where
  "timely e = (case e of Request (Fin q) \<Rightarrow> \<bar>q\<bar> \<le> of_int MAX_SAFE_INTEGER | _ \<Rightarrow> True)"

lemma minuteOf_small: "\<bar>q\<bar> \<le> of_int MAX_SAFE_INTEGER \<Longrightarrow> \<bar>minuteOf q\<bar> \<le> MAX_SAFE_INTEGER"
  unfolding minuteOf_def MINUTE_MS_def MAX_SAFE_INTEGER_def by linarith

lemma ring_ok_parse:
  assumes "ring_ok mins st" "int (length mins) \<le> MAX_SAFE_INTEGER" "list_all (\<lambda>m. \<bar>m\<bar> \<le> MAX_SAFE_INTEGER) mins"
  shows "parseState (Some (ring_json st)) = Some st"
  using assms
  by (intro ring_roundtrip) (auto simp: ring_ok_def list_all_iff createLoadHistory_def split: if_splits option.split)

text \<open>The ring is the counted requests, and the file the counted requests that was saved.\<close>

definition log_small :: "nat \<Rightarrow> int list \<Rightarrow> bool" where
  "log_small n reqs \<longleftrightarrow> list_all (\<lambda>m. \<bar>m\<bar> \<le> MAX_SAFE_INTEGER) (counted_minutes reqs) \<and> length reqs \<le> n"

definition service_ok :: "nat \<Rightarrow> int list \<times> int list \<Rightarrow> load_service \<Rightarrow> bool" where
  "service_ok n logs s \<longleftrightarrow> ring_ok (counted_minutes (fst logs)) (sv_ring s) \<and> log_small n (fst logs) \<and> log_small n (snd logs) \<and>
     (case sv_file s of
        None \<Rightarrow> snd logs = []
      | Some stored \<Rightarrow> \<exists>st. stored = ring_json st \<and> ring_ok (counted_minutes (snd logs)) st)"

lemma empty_ring_ok: "ring_ok [] createLoadHistory"
  by (simp add: ring_ok_def createLoadHistory_def SLOTS_def list_all_iff)

lemma saved_parse:
  assumes "ring_ok (counted_minutes reqs) st" "log_small n reqs" "int n \<le> MAX_SAFE_INTEGER"
  shows "parseState (Some (ring_json st)) = Some st"
  using assms by (intro ring_ok_parse [OF assms(1)]) (simp_all add: log_small_def)

lemma load_step_ok:
  assumes ok: "service_ok n logs s" and e: "timely e" and n: "int n \<le> MAX_SAFE_INTEGER"
  shows "service_ok (Suc n) (note_event logs e) (load_step s e)"
proof -
  have grow: "log_small n reqs \<Longrightarrow> log_small (Suc n) reqs" for reqs by (simp add: log_small_def)
  show ?thesis
  proof (cases e)
    case (Request v)
    show ?thesis
    proof (cases v)
      case (Fin q)
      have "\<bar>minuteOf q\<bar> \<le> MAX_SAFE_INTEGER" using e Request Fin minuteOf_small by (simp add: timely_def)
      moreover have "log_small n (fst logs)" using ok by (simp add: service_ok_def)
      moreover have "fst logs \<noteq> [] \<Longrightarrow> last (counted_minutes (fst logs)) \<in> set (counted_minutes (fst logs))" by simp
      ultimately have "log_small (Suc n) (fst logs @ [minuteOf q])"
        unfolding log_small_def counted_minutes_step by (auto simp: list_all_iff max_def)
      with ok record_ok [of "counted_minutes (fst logs)" "sv_ring s" q] Request Fin grow show ?thesis
        by (cases "sv_file s") (auto simp: service_ok_def note_event_def load_step_def counted_minutes_step)
    qed (use ok Request grow in \<open>simp_all add: service_ok_def note_event_def load_step_def record_request_def\<close>)
  next
    case (Save written)
    with ok grow show ?thesis
      by (cases "sv_file s") (auto simp: service_ok_def note_event_def load_step_def saveHistory_def)
  next
    case (Restart readable)
    show ?thesis
    proof (cases "sv_file s")
      case None
      with ok Restart grow empty_ring_ok show ?thesis
        by (simp add: service_ok_def note_event_def load_step_def restoreHistory_def log_small_def)
    next
      case (Some stored)
      with ok obtain st where st: "stored = ring_json st" "ring_ok (counted_minutes (snd logs)) st" "log_small n (snd logs)"
        by (auto simp: service_ok_def)
      from saved_parse [OF st(2,3) n] have "loadLoadHistory (Some stored) = st" by (simp add: loadLoadHistory_def st(1))
      with ok Restart Some st grow empty_ring_ok show ?thesis
        by (auto simp: service_ok_def note_event_def load_step_def restoreHistory_def log_small_def)
    qed
  qed
qed

lemma load_run_ok:
  "service_ok n logs s \<Longrightarrow> list_all timely es \<Longrightarrow> int (n + length es) \<le> MAX_SAFE_INTEGER \<Longrightarrow>
    service_ok (n + length es) (foldl note_event logs es) (foldl load_step s es)"
proof (induction es arbitrary: n logs s)
  case (Cons e es)
  from Cons.prems load_step_ok [OF Cons.prems(1), of e] have "service_ok (Suc n) (note_event logs e) (load_step s e)" by simp
  from Cons.IH [OF this] Cons.prems show ?case by simp
qed simp

text \<open>C35. After any sequence of recorded requests, of saves that may fail and of restarts from the file last
  saved, with instants within the safe integers, the ring holds for every minute of the last day the
  number of requests that count for it among those not lost in a restart (a restart loses the requests
  since the last save, and all of them when the file cannot be read), and zero for every other minute: a
  reused slot never shows a count of an earlier day. A request counts for the newest minute seen up to
  it, so when the clock never goes back the counts are those of the requests' own minutes. What is
  saved reads back as the same ring.\<close>
theorem load_ring_counts:
  assumes "list_all timely es" "int (length es) \<le> MAX_SAFE_INTEGER"
    and "reqs = fst (foldl note_event ([], []) es)" and "st = sv_ring (foldl load_step fresh_service es)"
  shows "countAt st m = (if reqs \<noteq> [] \<and> Max (set reqs) - SLOTS < m then count_list (counted_minutes reqs) m else 0) \<and>
    (sorted reqs \<longrightarrow> countAt st m = (if reqs \<noteq> [] \<and> last reqs - SLOTS < m then count_list reqs m else 0)) \<and>
    parseState (Some (ring_json st)) = Some st"
proof -
  have "service_ok 0 ([], []) fresh_service" using empty_ring_ok by (simp add: service_ok_def fresh_service_def log_small_def)
  from load_run_ok [OF this assms(1)] assms(2-4)
  have ok: "ring_ok (counted_minutes reqs) st" "log_small (length es) reqs" by (simp_all add: service_ok_def)
  have count: "countAt st m = (if reqs \<noteq> [] \<and> Max (set reqs) - SLOTS < m then count_list (counted_minutes reqs) m else 0)"
  proof (cases "reqs = []")
    case True
    with ok(1) show ?thesis by (simp add: ring_ok_def countAt_def createLoadHistory_def)
  next
    case False
    note l = counted_minutes_last [OF False]
    have "count_list (counted_minutes reqs) m = 0" if "Max (set reqs) < m"
      using ok(1) l that by (intro count_list_above) (auto simp: ring_ok_def)
    moreover have "rg_last st = Some (Max (set reqs))" "m \<le> Max (set reqs) \<Longrightarrow> Max (set reqs) - SLOTS < m \<Longrightarrow>
        rg_counts st ! slotOf m = count_list (counted_minutes reqs) m"
      using ok(1) l by (auto simp: ring_ok_def)
    ultimately show ?thesis using False by (simp add: countAt_def del: Max_less_iff Max_ge_iff)
  qed
  have "Max (set reqs) = last reqs" if "sorted reqs" "reqs \<noteq> []"
    using counted_minutes_last [OF that(2)] counted_minutes_sorted [OF that(1)] by simp
  with count counted_minutes_sorted [of reqs] saved_parse [OF ok assms(2)] show ?thesis by auto
qed

definition sample_load :: "load_event list" where
  "sample_load = [Request (Fin 30000), Save True, Request (Fin 90000), Restart True, Request (Fin 90000),
     Request (Fin 61000), Request NaN, Request (Fin 20000)]"

text \<open>The request lost in the restart is not counted; the one of the minute before, by a clock moved back, counts for minute 1.\<close>

theorem load_ring_counts_witness: "countAt (sv_ring (foldl load_step fresh_service sample_load)) 1 = 3"
proof -
  have ok: "list_all timely sample_load" "int (length sample_load) \<le> MAX_SAFE_INTEGER"
    by (simp_all add: sample_load_def timely_def MAX_SAFE_INTEGER_def)
  have reqs: "fst (foldl note_event ([], []) sample_load) = [0, 1, 1, 0]"
    by (simp add: sample_load_def note_event_def minuteOf_def MINUTE_MS_def floor_divide_of_int_eq [of _ _, symmetric])
  have "counted_minutes [0, 1, 1, 0] = [0, 1, 1, 1]" by (simp add: counted_minutes_def numeral_2_eq_2 numeral_3_eq_3 upt_rec)
  with load_ring_counts [OF ok reqs [symmetric] refl, of 1] show ?thesis by (simp add: SLOTS_def)
qed

subsection \<open>The forecast\<close>

lemma holt_step_linear: "holt_step (x, b) (x + b) = (x + b, b)"
  by (simp add: holt_step_def HOLT_ALPHA_def HOLT_BETA_def Let_def field_simps)

lemma holt_linear:
  assumes "2 \<le> n"
  shows "holt (map (\<lambda>i. a + b * of_nat i) [0..<n]) = (a + b * of_nat (n - 1), b)"
proof -
  have "foldl holt_step (a + b * of_nat k, b) (map (\<lambda>i. a + b * of_nat i) [Suc k..<Suc k + j]) = (a + b * of_nat (k + j), b)" for k j
  proof (induction j)
    case (Suc j)
    have "holt_step (a + b * of_nat (k + j), b) (a + b * of_nat (Suc k + j)) = (a + b * of_nat (k + Suc j), b)"
      using holt_step_linear [of "a + b * of_nat (k + j)" b] by (simp add: algebra_simps)
    with Suc show ?case by simp
  qed simp
  moreover obtain j where "n = Suc 1 + j" using assms by (metis le_Suc_ex one_add_one plus_1_eq_Suc)
  ultimately have "foldl holt_step (a + b, b) (map (\<lambda>i. a + b * of_nat i) [2..<n]) = (a + b * of_nat (n - 1), b)"
    by (metis (no_types, lifting) diff_Suc_1 mult.right_neutral numeral_2_eq_2 of_nat_1 One_nat_def plus_1_eq_Suc add_Suc)
  with assms show ?thesis by (simp add: holt_def drop_map nth_append Let_def numeral_2_eq_2)
qed

lemma foldl_max_ge:
  "y0 \<le> foldl (\<lambda>y x. max y (f x)) (y0 :: 'a :: linorder) xs"
  "x \<in> set xs \<Longrightarrow> f x \<le> foldl (\<lambda>y x. max y (f x)) (y0 :: 'a :: linorder) xs"
proof -
  show ge: "y0 \<le> foldl (\<lambda>y x. max y (f x)) y0 xs" for y0 and xs by (induction xs arbitrary: y0) (simp, metis foldl_Cons max.bounded_iff)
  show "x \<in> set xs \<Longrightarrow> f x \<le> foldl (\<lambda>y x. max y (f x)) y0 xs"
  proof (induction xs arbitrary: y0)
    case (Cons z xs)
    then show ?case using ge [of "max y0 (f z)" xs] by auto
  qed simp
qed

lemma foldl_max_le:
  "y0 \<le> B \<Longrightarrow> (\<And>x. x \<in> set xs \<Longrightarrow> f x \<le> B) \<Longrightarrow> foldl (\<lambda>y x. max y (f x)) (y0 :: 'a :: linorder) xs \<le> B"
  by (induction xs arbitrary: y0) auto

lemma holt_peak_linear:
  assumes "0 \<le> x" "0 \<le> b"
  shows "holt_peak (x, b) = x + 15 * b"
proof (rule antisym)
  have "of_int h * b \<le> 15 * b" if "h \<in> set [1..HORIZON_MINUTES]" for h
    using that assms by (intro mult_right_mono) (auto simp: HORIZON_MINUTES_def)
  with assms show "holt_peak (x, b) \<le> x + 15 * b" unfolding holt_peak_def by (intro foldl_max_le) auto
  have "(15 :: int) \<in> set [1..HORIZON_MINUTES]" by (simp add: HORIZON_MINUTES_def)
  from foldl_max_ge(2) [OF this, of "\<lambda>h. x + of_int h * b" 0] show "x + 15 * b \<le> holt_peak (x, b)"
    by (simp add: holt_peak_def)
qed

lemma upto_split: "i \<le> k \<Longrightarrow> k \<le> j + 1 \<Longrightarrow> [i..j] = [i..k - 1] @ [k..j]" for i j k :: int
proof (induction "nat (k - i)" arbitrary: i)
  case 0
  then show ?case by simp
next
  case (Suc n)
  then have "[i + 1..j] = [i + 1..k - 1] @ [k..j]" by (intro Suc.hyps(1)) linarith+
  with Suc.hyps(2) Suc.prems show ?case by (simp add: upto_rec1 [of i])
qed

lemma upto_as_upt: "[i..i + int n - 1] = map (\<lambda>k. i + int k) [0..<n]"
proof (induction n)
  case (Suc n)
  have "[i..i + int n] = [i..i + int n - 1] @ [i + int n]" by (rule upto_rec2) simp
  with Suc show ?case by simp
qed simp

text \<open>What a forecast is bounded by: never negative, and never below what the same fifteen minutes had a day before.\<close>

lemma holt_peak_nonneg: "0 \<le> holt_peak lt"
  unfolding holt_peak_def by (rule foldl_max_ge(1))

lemma forecast_floor:
  assumes "snd (forecast (Fin q) st) \<noteq> Cold" "rg_last st = Some l" "1 \<le> h" "h \<le> HORIZON_MINUTES"
  shows "of_nat (countAt st (max (minuteOf q) l + h - SLOTS)) / 60 \<le> fst (forecast (Fin q) st)"
proof -
  have "countAt st (max (minuteOf q) l + h - SLOTS) \<le> yesterday_peak st (max (minuteOf q) l)"
    unfolding yesterday_peak_def using assms(3,4) by (intro foldl_max_ge(2) [of h]) simp
  with assms(1,2) show ?thesis by (auto simp: forecast_def Let_def split: if_splits)
qed

text \<open>When the count per minute has grown linearly since the first request of the last day, over at least
  five minutes, the forecast is exactly the line's value fifteen minutes ahead, in requests per second.\<close>
theorem linear_load_extrapolated:
  assumes l: "rg_last st = Some l" and now: "now = max (minuteOf q) l"
    and n: "5 \<le> n" "int n \<le> SLOTS - HORIZON_MINUTES" and a: "0 < a"
    and line: "\<And>i. i < n \<Longrightarrow> countAt st (now - int n + 1 + int i) = a + b * i"
    and before: "\<And>m. now - SLOTS < m \<Longrightarrow> m \<le> now - int n \<Longrightarrow> countAt st m = 0"
  shows "forecast (Fin q) st = ((of_nat a + of_nat b * (of_nat n - 1 + 15)) / 60, Holt)"
proof -
  let ?f = "now - int n + 1" and ?days = "[now - SLOTS + 1..now]"
  have upt: "[?f..now] = map (\<lambda>i. ?f + int i) [0..<n]" using upto_as_upt [of ?f n] by simp
  have split: "?days = [now - SLOTS + 1..?f - 1] @ [?f..now]" using n by (intro upto_split) (simp_all add: SLOTS_def HORIZON_MINUTES_def)
  have "filter (\<lambda>m. 0 < countAt st m) [now - SLOTS + 1..?f - 1] = []" using before by (auto simp: filter_empty_conv)
  moreover have "filter (\<lambda>m. 0 < countAt st m) [?f..now] = [?f..now]"
    using line a by (auto simp: upt filter_id_conv)
  ultimately have seen: "filter (\<lambda>m. 0 < countAt st m) ?days = [?f..now]" by (simp add: split)
  have nonempty: "[?f..now] \<noteq> []" "hd [?f..now] = ?f" using n by (simp_all add: upto_rec1)
  have series: "map (\<lambda>m. real (countAt st m)) [?f..now] = map (\<lambda>i. real a + real b * real i) [0..<n]"
    using line by (simp add: upt)
  have peak: "holt_peak (holt (map (\<lambda>m. real (countAt st m)) [?f..now])) = real a + real b * real (n - 1) + 15 * real b"
    unfolding series using n holt_peak_linear by (subst holt_linear) simp_all
  have "yesterday_peak st now \<le> 0"
    unfolding yesterday_peak_def using before n by (intro foldl_max_le) (auto simp: SLOTS_def HORIZON_MINUTES_def)
  moreover have "length [?f..now] = n" by simp
  moreover have "real (n - 1) = real n - 1" using n by simp
  ultimately have "forecast (Fin q) st = (holt_peak (holt (map (\<lambda>m. real (countAt st m)) [?f..now])) / 60, Holt)"
    using l n nonempty holt_peak_nonneg [of "holt (map (\<lambda>m. real (countAt st m)) [?f..now])"]
    by (simp add: forecast_def Let_def seen MIN_OBSERVED_MINUTES_def flip: now)
  with n show ?thesis unfolding peak by (simp add: algebra_simps)
qed

definition sample_ring :: ring_state where
  "sample_ring = \<lparr>rg_last = Some 5, rg_counts = [0, 4, 6, 8, 10, 12] @ replicate (1440 - 6) 0\<rparr>"

theorem linear_load_extrapolated_witness: "forecast (Fin 300000) sample_ring = (42 / 60, Holt)"
proof -
  have at: "countAt sample_ring m = (if 1 \<le> m \<and> m \<le> 5 then nat (2 + 2 * m) else 0)" if "5 - SLOTS < m" "m \<le> 5" for m
  proof (cases "0 \<le> m")
    case True
    with that have "m \<in> {0, 1, 2, 3, 4, 5}" by auto
    then show ?thesis by (auto simp: sample_ring_def countAt_def slotOf_def SLOTS_def)
  next
    case False
    have "0 \<le> m + 1440" "m + 1440 < 1440" using False that by (simp_all add: SLOTS_def)
    then have "m mod 1440 = m + 1440" by (metis mod_add_self2 mod_pos_pos_trivial)
    then have "slotOf m = nat (m + 1440)" "6 \<le> nat (m + 1440)" "nat (m + 1440) < 1440"
      using False that by (simp_all add: slotOf_def SLOTS_def)
    with False that show ?thesis by (simp add: sample_ring_def countAt_def nth_append SLOTS_def)
  qed
  have "minuteOf 300000 = 5" by (simp add: minuteOf_def MINUTE_MS_def)
  then show ?thesis
    using linear_load_extrapolated [of sample_ring 5 5 300000 5 4 2] at
    by (simp add: sample_ring_def SLOTS_def HORIZON_MINUTES_def nat_add_distrib)
qed

subsection \<open>The replicas and the quota factor\<close>

lemma replicas_serve:
  assumes "recommendedReplicas (Fin rps) (Fin capacity) = Inr n"
  shows "rps \<le> of_int n * capacity \<and> 1 \<le> n \<and> (1 < n \<longrightarrow> of_int (n - 1) * capacity < rps)"
proof -
  from assms have c: "0 < capacity" and n: "n = max 1 \<lceil>rps / capacity\<rceil>"
    by (auto simp: recommendedReplicas_def split: if_splits)
  have "rps / capacity \<le> of_int n" using n by linarith
  moreover have "1 < n \<Longrightarrow> of_int (n - 1) < rps / capacity" using n by linarith
  ultimately show ?thesis using c n by (simp add: pos_divide_le_eq pos_less_divide_eq)
qed

definition quota_ok :: "quota \<Rightarrow> bool" where
  "quota_ok s = (0 < qt_minFactor s \<and> qt_minFactor s \<le> 1 \<and> qt_minFactor s \<le> qt_factor s \<and> qt_factor s \<le> 1)"

definition quota_step :: "quota \<Rightarrow> js_num \<times> js_num \<Rightarrow> quota \<times> unit" where
  "quota_step s e = (quota_observe (fst e) (snd e) s, ())"

interpretation quota: machine quota_step quota_ok
  by unfold_locales
    (auto simp: quota_step_def quota_observe_def quota_ok_def STEP_DOWN_def STEP_UP_def split: js_num.split)

lemma created_quota: "createAdaptiveQuota m l = Inr s \<Longrightarrow> quota_ok s"
  by (auto simp: createAdaptiveQuota_def quota_ok_def split: js_num.splits if_splits)

text \<open>The factor stays between the configured minimum and one in every run.\<close>

lemma quota_bounds: "createAdaptiveQuota m l = Inr s \<Longrightarrow> quota_ok (final quota_step s es)"
  by (intro quota.run_inv created_quota)

text \<open>Twenty calm samples restore the factor, whatever the load did before.\<close>

definition calm :: "quota \<Rightarrow> js_num \<times> js_num \<Rightarrow> bool" where
  "calm s e = (case e of (Fin lag, Fin u) \<Rightarrow>
     0 \<le> lag \<and> lag \<le> qt_lagTargetMs s \<and> 0 \<le> u \<and> u < PRESSURE_UTILISATION | _ \<Rightarrow> False)"

lemma calm_observe: "calm s e \<Longrightarrow> fst (quota_step s e) = s\<lparr>qt_factor := min 1 (qt_factor s + STEP_UP)\<rparr>"
  by (auto simp: calm_def quota_step_def quota_observe_def split: prod.splits js_num.splits)

lemma calm_run:
  "list_all (calm s) es \<Longrightarrow> qt_factor s \<le> 1 \<Longrightarrow>
    qt_factor (final quota_step s es) = min 1 (qt_factor s + of_nat (length es) * STEP_UP)"
proof (induction es arbitrary: s)
  case (Cons e es)
  let ?s = "fst (quota_step s e)"
  have s: "?s = s\<lparr>qt_factor := min 1 (qt_factor s + STEP_UP)\<rparr>" using Cons.prems by (intro calm_observe) simp
  then have "calm ?s = calm s" 
    by (intro ext) (auto simp: calm_def split: prod.split js_num.split)
  with Cons.prems s have "qt_factor (final quota_step ?s es) = min 1 (qt_factor ?s + of_nat (length es) * STEP_UP)"
    by (intro Cons.IH) simp_all
  then show ?case using Cons.prems(2) by (simp add: s STEP_UP_def add_divide_distrib algebra_simps min_def)
qed simp

lemma quota_recovers:
  "createAdaptiveQuota m l = Inr s0 \<Longrightarrow> list_all (calm (final quota_step s0 es)) cs \<Longrightarrow> 20 \<le> length cs \<Longrightarrow>
    qt_factor (final quota_step s0 (es @ cs)) = 1"
  using calm_run [of "final quota_step s0 es" cs] quota_bounds [of m l s0 es]
  by (simp add: final_append quota_ok_def STEP_UP_def field_simps min_def)

end
