(* ===== verification/File_Lock.thy ===== *)
theory File_Lock
  imports Js_Map Js_String
begin

text \<open>
  The cross-process file lock of \<^verbatim>\<open>src/src/claude/atomic.ts\<close>: \<^verbatim>\<open>withFileLock\<close>
  with \<^verbatim>\<open>acquire\<close>, \<^verbatim>\<open>release\<close>, \<^verbatim>\<open>withLockMutation\<close> and the reclaiming of
  dead guards and stale locks, run by any number of processes at once. Every system call is one step, so
  the processes interleave between any two calls; a call may also fail (\<open>ok\<close> is false), a process may
  die at any point, and time passes between steps. Closing a descriptor does not fail. The shared state is the guard directory (its entries,
  \<open>None\<close> when it does not exist), the lock file and the clock. A process's candidate directory has a name of
  its own and is private until it is renamed, so preparing it is one step. The random names are drawn by
  the events; \<open>drawn\<close> remembers them.
\<close>

declare map_of_eq_Some_iff [simp del] Some_eq_map_of_iff [simp del]

subsection \<open>Processes\<close>

record lock_opts =
  staleMs :: int
  timeoutMs :: int
  pollMs :: int

definition DEFAULT_LOCK_OPTIONS :: lock_opts where
  "DEFAULT_LOCK_OPTIONS = \<lparr>staleMs = 10000, timeoutMs = 2000, pollMs = 15\<rparr>"

definition MAX_ATTEMPTS :: nat where "MAX_ATTEMPTS = 1000"

text \<open>What one attempt under the guard came to: the token, retry at once or not, the guard busy, an exception.\<close>

datatype attempt_result = GotToken | RetryNow | RetryLater | GuardBusy | Failed

text \<open>The system call a process makes next. The states from \<open>OpenLock\<close> to \<open>UnlinkOwn\<close> are the
  callback that \<^verbatim>\<open>withLockMutation\<close> runs while the guard is held.\<close>

datatype pc =
    Ready
  | RenameCandidate bool
  | ReadGuard
  | KillCheck string
  | UnlinkDead string
  | RmdirDead
  | OpenLock
  | WriteToken
  | UnlinkUnwritten
  | StatLock
  | UnlinkStale
  | ReadLock
  | UnlinkOwn
  | UnlinkGuard attempt_result
  | RmdirGuard attempt_result
  | Judge attempt_result
  | Sleeping int
  | Working

datatype task = Acquire | Release

record proc =
  lp_pc :: pc
  lp_task :: task
  lp_owner :: string
  lp_token :: string
  lp_holds :: bool
  lp_since :: int
  lp_attempt :: nat
  lp_started :: int

record lock_file =
  lf_text :: string
  lf_mtime :: int

record lock_sys =
  clock :: int
  guard :: "string list option"
  lockfile :: "lock_file option"
  procs :: "(nat, proc) jmap"
  drawn :: "string list"

definition owner_name :: "nat \<Rightarrow> string \<Rightarrow> string" where
  "owner_name pid nonce = dec pid @ ''.'' @ nonce"

text \<open>\<^verbatim>\<open>/^[1-9]\d*\.[a-f0-9]{32}$/\<close>.\<close>

definition GUARD_OWNER :: "string \<Rightarrow> bool" where
  "GUARD_OWNER s = (case split_on (CHR ''.'') s of
      [pid, nonce] \<Rightarrow> pid \<noteq> [] \<and> list_all is_digit pid \<and> hd pid \<noteq> CHR ''0'' \<and> class_run is_hex_lower 32 32 nonce
    | _ \<Rightarrow> False)"

definition owner_pid :: "string \<Rightarrow> nat" where
  "owner_pid s = dec_value (takeWhile is_digit s)"

text \<open>\<^verbatim>\<open>process.kill(pid, 0)\<close> reports \<^verbatim>\<open>ESRCH\<close>: no process has the pid.\<close>

definition deadGuardOwner :: "lock_sys \<Rightarrow> string \<Rightarrow> bool" where
  "deadGuardOwner s owner = (GUARD_OWNER owner \<and> jm_get (procs s) (owner_pid owner) = None)"

subsection \<open>One system call\<close>

definition put_proc :: "nat \<Rightarrow> proc \<Rightarrow> lock_sys \<Rightarrow> lock_sys" where
  "put_proc i p s = s\<lparr>procs := jm_set i p (procs s)\<rparr>"

definition end_proc :: "nat \<Rightarrow> lock_sys \<Rightarrow> lock_sys" where
  "end_proc i s = s\<lparr>procs := jm_delete i (procs s)\<rparr>"

definition goto :: "nat \<Rightarrow> proc \<Rightarrow> pc \<Rightarrow> lock_sys \<Rightarrow> lock_sys" where
  "goto i p next_pc s = put_proc i (p\<lparr>lp_pc := next_pc\<rparr>) s"

text \<open>Removing one entry of the guard, and removing the guard when it is empty.\<close>

definition unlink_entry :: "string \<Rightarrow> lock_sys \<Rightarrow> lock_sys option" where
  "unlink_entry owner s = (case guard s of
      Some es \<Rightarrow> if owner \<in> set es then Some (s\<lparr>guard := Some (removeAll owner es)\<rparr>) else None
    | None \<Rightarrow> None)"

definition rmdir_guard :: "bool \<Rightarrow> lock_sys \<Rightarrow> lock_sys" where
  "rmdir_guard ok s = (if ok \<and> guard s = Some [] then s\<lparr>guard := None\<rparr> else s)"

text \<open>A rename onto the guard succeeds when it does not exist or is an empty directory.\<close>

definition rename_call :: "nat \<Rightarrow> bool \<Rightarrow> bool \<Rightarrow> proc \<Rightarrow> lock_sys \<Rightarrow> lock_sys" where
  "rename_call i first ok p s =
     (if \<not> ok then goto i p (Judge Failed) s
      else if guard s = None \<or> guard s = Some []
      then goto i p (case lp_task p of Acquire \<Rightarrow> OpenLock | Release \<Rightarrow> ReadLock) (s\<lparr>guard := Some [lp_owner p]\<rparr>)
      else goto i p (if first then ReadGuard else Judge GuardBusy) s)"

text \<open>\<^verbatim>\<open>reclaimDeadGuard\<close> and \<^verbatim>\<open>discardGuard\<close>.\<close>

definition reclaim_call :: "nat \<Rightarrow> bool \<Rightarrow> proc \<Rightarrow> lock_sys \<Rightarrow> lock_sys" where
  "reclaim_call i ok p s = (case lp_pc p of
      ReadGuard \<Rightarrow> goto i p (case guard s of Some [owner] \<Rightarrow> if ok then KillCheck owner else RenameCandidate False
        | _ \<Rightarrow> RenameCandidate False) s
    | KillCheck owner \<Rightarrow> goto i p (if ok \<and> deadGuardOwner s owner then UnlinkDead owner else RenameCandidate False) s
    | UnlinkDead owner \<Rightarrow> (case unlink_entry owner s of
        Some s' \<Rightarrow> if ok then goto i p RmdirDead s' else goto i p (RenameCandidate False) s
      | None \<Rightarrow> goto i p (RenameCandidate False) s)
    | RmdirDead \<Rightarrow> goto i p (RenameCandidate False) (rmdir_guard ok s)
    | UnlinkGuard r \<Rightarrow> (case unlink_entry (lp_owner p) s of
        Some s' \<Rightarrow> if ok then goto i p (RmdirGuard r) s' else goto i p (Judge r) s
      | None \<Rightarrow> goto i p (Judge r) s)
    | RmdirGuard r \<Rightarrow> goto i p (Judge r) (rmdir_guard ok s)
    | _ \<Rightarrow> s)"

text \<open>The callbacks of \<^verbatim>\<open>acquire\<close> and \<^verbatim>\<open>release\<close> under the guard.\<close>

definition lock_call :: "lock_opts \<Rightarrow> nat \<Rightarrow> bool \<Rightarrow> proc \<Rightarrow> lock_sys \<Rightarrow> lock_sys" where
  "lock_call opt i ok p s = (case lp_pc p of
      OpenLock \<Rightarrow>
        if \<not> ok then goto i p (UnlinkGuard Failed) s
        else if lockfile s = None
        then goto i p WriteToken (s\<lparr>lockfile := Some \<lparr>lf_text = [], lf_mtime = clock s\<rparr>\<rparr>)
        else goto i p StatLock s
    | WriteToken \<Rightarrow>
        if \<not> ok then goto i p UnlinkUnwritten s
        else put_proc i (p\<lparr>lp_pc := UnlinkGuard GotToken, lp_holds := True, lp_since := clock s\<rparr>)
          (s\<lparr>lockfile := map_option (\<lambda>f. \<lparr>lf_text = lp_token p, lf_mtime = clock s\<rparr>) (lockfile s)\<rparr>)
    | UnlinkUnwritten \<Rightarrow> goto i p (UnlinkGuard Failed) (if ok then s\<lparr>lockfile := None\<rparr> else s)
    | StatLock \<Rightarrow> (case lockfile s of
        None \<Rightarrow> goto i p (UnlinkGuard (if ok then RetryNow else RetryLater)) s
      | Some f \<Rightarrow> goto i p (if ok \<and> \<not> clock s - lf_mtime f \<le> staleMs opt then UnlinkStale else UnlinkGuard RetryLater) s)
    | UnlinkStale \<Rightarrow>
        if ok then goto i p (UnlinkGuard RetryNow) (s\<lparr>lockfile := None\<rparr>) else goto i p (UnlinkGuard RetryLater) s
    | ReadLock \<Rightarrow> (case lockfile s of
        Some f \<Rightarrow> goto i p (if ok \<and> lf_text f = lp_token p then UnlinkOwn else UnlinkGuard RetryNow) s
      | None \<Rightarrow> goto i p (UnlinkGuard RetryNow) s)
    | UnlinkOwn \<Rightarrow> goto i p (UnlinkGuard RetryNow) (if ok then s\<lparr>lockfile := None\<rparr> else s)
    | _ \<Rightarrow> s)"

text \<open>What a process does with the result of an attempt: run the callback with or without the lock, try
  again at once or after a sleep, or, when releasing, be done.\<close>

definition next_attempt :: "nat \<Rightarrow> proc \<Rightarrow> pc \<Rightarrow> lock_sys \<Rightarrow> lock_sys" where
  "next_attempt i p next_pc s = put_proc i (p\<lparr>lp_pc := next_pc, lp_attempt := lp_attempt p + 1\<rparr>) s"

definition judge_acquire :: "lock_opts \<Rightarrow> nat \<Rightarrow> nat \<Rightarrow> attempt_result \<Rightarrow> proc \<Rightarrow> lock_sys \<Rightarrow> lock_sys" where
  "judge_acquire opt i jitter r p s =
     (if r = Failed \<or> r = GotToken then goto i p Working s
      else if r = RetryNow \<and> lp_attempt p < MAX_ATTEMPTS then next_attempt i p Ready s
      else if timeoutMs opt \<le> clock s - lp_started p then goto i p Working s
      else next_attempt i p (Sleeping (clock s + pollMs opt + int jitter)) s)"

definition judge_release :: "lock_opts \<Rightarrow> nat \<Rightarrow> attempt_result \<Rightarrow> proc \<Rightarrow> lock_sys \<Rightarrow> lock_sys" where
  "judge_release opt i r p s =
     (if r \<noteq> GuardBusy \<or> timeoutMs opt \<le> clock s - lp_started p
      then end_proc i s
      else next_attempt i p (Sleeping (clock s + pollMs opt)) s)"

datatype lock_event =
    Begin nat string
  | Prepare nat string bool
  | Call nat bool nat
  | Finish nat
  | Crash nat
  | Tick int

definition call_step :: "lock_opts \<Rightarrow> nat \<Rightarrow> bool \<Rightarrow> nat \<Rightarrow> proc \<Rightarrow> lock_sys \<Rightarrow> lock_sys" where
  "call_step opt i ok jitter p s = (case lp_pc p of
      RenameCandidate first \<Rightarrow> rename_call i first ok p s
    | Judge r \<Rightarrow> (case lp_task p of Acquire \<Rightarrow> judge_acquire opt i jitter r p s | Release \<Rightarrow> judge_release opt i r p s)
    | Sleeping until \<Rightarrow>
        if clock s < until then s
        else if lp_task p = Release \<and> MAX_ATTEMPTS \<le> lp_attempt p then end_proc i s
        else goto i p Ready s
    | Ready \<Rightarrow> s
    | Working \<Rightarrow> s
    | _ \<Rightarrow> reclaim_call i ok p (lock_call opt i ok p s))"

subsection \<open>Runs\<close>

definition new_proc :: "string \<Rightarrow> int \<Rightarrow> proc" where
  "new_proc token t = \<lparr>lp_pc = Ready, lp_task = Acquire, lp_owner = [], lp_token = token, lp_holds = False,
     lp_since = 0, lp_attempt = 0, lp_started = t\<rparr>"

text \<open>\<^verbatim>\<open>fn\<close> has returned or thrown: the lock is released, if it was taken.\<close>

definition finish_work :: "nat \<Rightarrow> proc \<Rightarrow> lock_sys \<Rightarrow> lock_sys" where
  "finish_work i p s = (if lp_holds p
     then put_proc i (p\<lparr>lp_pc := Ready, lp_task := Release, lp_attempt := 0, lp_started := clock s\<rparr>) s
     else end_proc i s)"

definition prepare :: "nat \<Rightarrow> string \<Rightarrow> bool \<Rightarrow> proc \<Rightarrow> lock_sys \<Rightarrow> lock_sys" where
  "prepare i nonce ok p s = (let owner = owner_name i nonce in
     if ok then put_proc i (p\<lparr>lp_pc := RenameCandidate True, lp_owner := owner\<rparr>) (s\<lparr>drawn := owner # drawn s\<rparr>)
     else goto i p (Judge Failed) s)"

definition lock_step :: "lock_opts \<Rightarrow> lock_sys \<Rightarrow> lock_event \<Rightarrow> lock_sys" where
  "lock_step opt s e = (case e of
      Begin i token \<Rightarrow> if jm_get (procs s) i = None
        then put_proc i (new_proc token (clock s)) (s\<lparr>drawn := token # drawn s\<rparr>) else s
    | Prepare i nonce ok \<Rightarrow> (case jm_get (procs s) i of
        Some p \<Rightarrow> if lp_pc p = Ready then prepare i nonce ok p s else s | None \<Rightarrow> s)
    | Call i ok jitter \<Rightarrow> (case jm_get (procs s) i of Some p \<Rightarrow> call_step opt i ok jitter p s | None \<Rightarrow> s)
    | Finish i \<Rightarrow> (case jm_get (procs s) i of
        Some p \<Rightarrow> if lp_pc p = Working then finish_work i p s else s | None \<Rightarrow> s)
    | Crash i \<Rightarrow> end_proc i s
    | Tick d \<Rightarrow> s\<lparr>clock := clock s + max 0 d\<rparr>)"

text \<open>Random names do not repeat and have the format \<^verbatim>\<open>randomBytes(16)\<close> prints.\<close>

definition fresh :: "lock_sys \<Rightarrow> lock_event \<Rightarrow> bool" where
  "fresh s e = (case e of
      Begin _ token \<Rightarrow> token \<notin> set (drawn s) \<and> class_run is_hex_lower 32 32 token
    | Prepare i nonce _ \<Rightarrow> owner_name i nonce \<notin> set (drawn s) \<and> class_run is_hex_lower 32 32 nonce
    | _ \<Rightarrow> True)"

definition unused :: "int \<Rightarrow> lock_sys" where
  "unused t = \<lparr>clock = t, guard = None, lockfile = None, procs = [], drawn = []\<rparr>"

inductive reachable :: "lock_opts \<Rightarrow> lock_sys \<Rightarrow> bool" for opt where
  start: "reachable opt (unused t)"
| step: "reachable opt s \<Longrightarrow> fresh s e \<Longrightarrow> reachable opt (lock_step opt s e)"

primrec fresh_run :: "lock_opts \<Rightarrow> lock_sys \<Rightarrow> lock_event list \<Rightarrow> bool" where
  "fresh_run opt s [] = True"
| "fresh_run opt s (e # es) = (fresh s e \<and> fresh_run opt (lock_step opt s e) es)"

lemma reachable_run: "reachable opt s \<Longrightarrow> fresh_run opt s es \<Longrightarrow> reachable opt (foldl (lock_step opt) s es)"
  by (induction es arbitrary: s) (auto intro: reachable.step)

subsection \<open>The invariant\<close>

text \<open>The calls made while the guard is held.\<close>

fun in_guard :: "pc \<Rightarrow> bool" where
  "in_guard OpenLock = True"
| "in_guard WriteToken = True"
| "in_guard UnlinkUnwritten = True"
| "in_guard StatLock = True"
| "in_guard UnlinkStale = True"
| "in_guard ReadLock = True"
| "in_guard UnlinkOwn = True"
| "in_guard (UnlinkGuard _) = True"
| "in_guard _ = False"

text \<open>The calls made between the preparation of the candidate and the guard.\<close>

fun prepared :: "pc \<Rightarrow> bool" where
  "prepared (RenameCandidate _) = True"
| "prepared ReadGuard = True"
| "prepared (KillCheck _) = True"
| "prepared (UnlinkDead _) = True"
| "prepared RmdirDead = True"
| "prepared _ = False"

text \<open>The rest of an attempt that took the lock, and the callback.\<close>

fun took :: "pc \<Rightarrow> bool" where
  "took (UnlinkGuard r) = (r = GotToken)"
| "took (RmdirGuard r) = (r = GotToken)"
| "took (Judge r) = (r = GotToken)"
| "took Working = True"
| "took _ = False"

definition lease_over :: "lock_opts \<Rightarrow> proc \<Rightarrow> lock_sys \<Rightarrow> bool" where
  "lease_over opt p s = (staleMs opt < clock s - lp_since p)"

text \<open>A process that took the lock and whose callback has not returned.\<close>

definition holding :: "proc \<Rightarrow> bool" where
  "holding p = (lp_holds p \<and> lp_task p = Acquire)"

text \<open>A process's name in the guard is its own.\<close>

definition owner_ok :: "string list \<Rightarrow> nat \<Rightarrow> string \<Rightarrow> bool" where
  "owner_ok names i owner = (owner = [] \<or> owner \<in> set names \<and> (\<exists>nonce. owner = owner_name i nonce))"

lemma owner_ok_mono: "owner_ok names i owner \<Longrightarrow> set names \<subseteq> set names' \<Longrightarrow> owner_ok names' i owner"
  by (auto simp: owner_ok_def)

text \<open>What a process's own fields satisfy, what it knows of the guard, of a dead owner it removes, and of the lock file.\<close>

definition local_ok :: "string list \<Rightarrow> nat \<Rightarrow> proc \<Rightarrow> bool" where
  "local_ok names i p = (
     owner_ok names i (lp_owner p) \<and> (prepared (lp_pc p) \<longrightarrow> lp_owner p \<noteq> []) \<and>
     lp_token p \<in> set names \<and> lp_token p \<noteq> [] \<and>
     (\<forall>owner. lp_pc p = KillCheck owner \<or> lp_pc p = UnlinkDead owner \<longrightarrow> owner \<in> set names - {[]}) \<and>
     (lp_pc p = ReadLock \<or> lp_pc p = UnlinkOwn \<longrightarrow> lp_task p = Release) \<and> (holding p \<longrightarrow> took (lp_pc p)))"

definition guard_ok :: "lock_sys \<Rightarrow> proc \<Rightarrow> bool" where
  "guard_ok s p = (in_guard (lp_pc p) \<longrightarrow> guard s = Some [lp_owner p])"

definition dead_ok :: "lock_sys \<Rightarrow> proc \<Rightarrow> bool" where
  "dead_ok s p = (\<forall>owner. lp_pc p = UnlinkDead owner \<longrightarrow> (\<forall>j q. jm_get (procs s) j = Some q \<longrightarrow> lp_owner q \<noteq> owner))"

definition lock_ok :: "lock_opts \<Rightarrow> lock_sys \<Rightarrow> proc \<Rightarrow> bool" where
  "lock_ok opt s p = (
     (lp_pc p = WriteToken \<or> lp_pc p = UnlinkUnwritten \<longrightarrow> (\<exists>f. lockfile s = Some f \<and> lf_text f = [])) \<and>
     (lp_pc p = UnlinkStale \<longrightarrow> (\<exists>f. lockfile s = Some f \<and> staleMs opt < clock s - lf_mtime f)) \<and>
     (lp_pc p = UnlinkOwn \<longrightarrow> (\<exists>f. lockfile s = Some f \<and> lf_text f = lp_token p)) \<and>
     (holding p \<longrightarrow> lease_over opt p s \<or> lockfile s = Some \<lparr>lf_text = lp_token p, lf_mtime = lp_since p\<rparr>))"

definition proc_ok :: "lock_opts \<Rightarrow> lock_sys \<Rightarrow> nat \<Rightarrow> proc \<Rightarrow> bool" where
  "proc_ok opt s i p = (local_ok (drawn s) i p \<and> guard_ok s p \<and> dead_ok s p \<and> lock_ok opt s p)"

lemmas proc_ok_defs = proc_ok_def local_ok_def guard_ok_def dead_ok_def lock_ok_def

lemma prepared_not_took: "prepared c \<Longrightarrow> \<not> took c"
  by (cases c) simp_all

lemma local_ok_mono: "local_ok names i p \<Longrightarrow> set names \<subseteq> set names' \<Longrightarrow> local_ok names' i p"
  by (auto simp: local_ok_def intro: owner_ok_mono)

definition lock_inv :: "lock_opts \<Rightarrow> lock_sys \<Rightarrow> bool" where
  "lock_inv opt s = (jm_wf (procs s) \<and>
     (\<forall>es. guard s = Some es \<longrightarrow> length es \<le> 1 \<and> set es \<subseteq> set (drawn s) - {[]}) \<and>
     (\<forall>i p. jm_get (procs s) i = Some p \<longrightarrow> proc_ok opt s i p) \<and>
     (\<forall>i j p q. jm_get (procs s) i = Some p \<longrightarrow> jm_get (procs s) j = Some q \<longrightarrow> lp_token p = lp_token q \<longrightarrow> i = j))"

lemma owner_pid_name: "owner_pid (owner_name i nonce) = i"
proof -
  have "takeWhile is_digit (dec i @ ''.'' @ nonce) = dec i"
    using dec_digits [of i] by (simp add: takeWhile_append2 is_digit_def)
  then show ?thesis by (simp add: owner_pid_def owner_name_def dec_value_dec)
qed

lemma owner_name_nonempty: "owner_name i nonce \<noteq> []"
  by (simp add: owner_name_def)

lemma lock_inv_proc: "lock_inv opt s \<Longrightarrow> jm_get (procs s) i = Some p \<Longrightarrow> proc_ok opt s i p"
  by (simp add: lock_inv_def)

lemma guard_exclusive:
  assumes inv: "lock_inv opt s" and p: "jm_get (procs s) i = Some p" "in_guard (lp_pc p)"
    and q: "jm_get (procs s) j = Some q" "in_guard (lp_pc q)"
  shows "i = j"
proof -
  have own: "\<exists>nonce. lp_owner r = owner_name k nonce" "guard s = Some [lp_owner r]"
    if "jm_get (procs s) k = Some r" "in_guard (lp_pc r)" for k r
  proof -
    from lock_inv_proc [OF inv that(1)] that(2) have r: "guard s = Some [lp_owner r]"
        "lp_owner r = [] \<or> (\<exists>nonce. lp_owner r = owner_name k nonce)" by (auto simp: proc_ok_defs owner_ok_def)
    moreover from inv r(1) have "lp_owner r \<noteq> []" by (auto simp: lock_inv_def)
    ultimately show "\<exists>nonce. lp_owner r = owner_name k nonce" "guard s = Some [lp_owner r]" by auto
  qed
  from own [OF p] own [OF q] show ?thesis by (metis list.inject option.inject owner_pid_name)
qed

text \<open>One process moves and changes the shared state: what is left to show.\<close>

lemma inv_put:
  assumes inv: "lock_inv opt s" and p: "jm_get (procs s) i = Some p"
    and same: "procs s1 = procs s" "set (drawn s) \<subseteq> set (drawn s1)" "clock s1 = clock s" "lp_token p' = lp_token p"
    and owner: "lp_owner p' = lp_owner p \<or> lp_owner p' \<notin> set (drawn s)"
    and guard: "guard s1 = guard s \<or> (\<forall>j q. j \<noteq> i \<longrightarrow> jm_get (procs s) j = Some q \<longrightarrow> \<not> in_guard (lp_pc q))"
    and entries: "\<forall>es. guard s1 = Some es \<longrightarrow> length es \<le> 1 \<and> set es \<subseteq> set (drawn s1) - {[]}"
    and lock: "lockfile s1 = lockfile s \<or>
      in_guard (lp_pc p) \<and> (\<forall>j q. j \<noteq> i \<longrightarrow> jm_get (procs s) j = Some q \<longrightarrow> holding q \<longrightarrow> lease_over opt q s)"
    and ok: "proc_ok opt (put_proc i p' s1) i p'"
  shows "lock_inv opt (put_proc i p' s1)"
proof -
  let ?s = "put_proc i p' s1"
  have get: "jm_get (procs ?s) j = (if j = i then Some p' else jm_get (procs s) j)" for j
    by (simp add: put_proc_def same update_conv')
  have other: "proc_ok opt ?s j q" if "j \<noteq> i" "jm_get (procs s) j = Some q" for j q
  proof -
    have q: "proc_ok opt s j q" by (rule lock_inv_proc [OF inv that(2)])
    have g: "in_guard (lp_pc q) \<Longrightarrow> guard s1 = guard s" using guard that by blast
    have l: "in_guard (lp_pc q) \<Longrightarrow> lockfile s1 = lockfile s"
      using lock guard_exclusive [OF inv p _ that(2)] that(1) by blast
    have h: "holding q \<Longrightarrow> lockfile s1 = lockfile s \<or> lease_over opt q s" using lock that by blast
    have dead: "lp_owner r \<noteq> owner" if "lp_pc q = UnlinkDead owner" "jm_get (procs ?s) k = Some r" for owner k r
    proof (cases "k = i")
      case True
      with that(2) have "r = p'" by (simp add: get)
      moreover have "owner \<in> set (drawn s)" "lp_owner p \<noteq> owner" using q that(1) p by (auto simp: proc_ok_defs)
      ultimately show ?thesis using owner by metis
    next
      case False
      with that q show ?thesis by (simp add: proc_ok_defs get)
    qed
    have "local_ok (drawn s1) j q" using q same(2) by (auto simp: proc_ok_def intro: local_ok_mono)
    moreover have "guard_ok s1 q" using q g by (simp add: proc_ok_def guard_ok_def)
    moreover have "dead_ok ?s q" using dead by (simp add: dead_ok_def)
    moreover have "lock_ok opt s1 q" using q l h same(3) by (auto simp: proc_ok_def lock_ok_def lease_over_def)
    ultimately show ?thesis by (simp add: proc_ok_def guard_ok_def lock_ok_def lease_over_def put_proc_def)
  qed
  have "lp_token r = lp_token r' \<Longrightarrow> j = k" if "jm_get (procs ?s) j = Some r" "jm_get (procs ?s) k = Some r'" for j k r r'
    using inv that p same(4) unfolding lock_inv_def get by (metis option.inject)
  moreover have "jm_wf (procs ?s)" using inv by (simp add: lock_inv_def put_proc_def same distinct_update)
  moreover have "proc_ok opt ?s j q" if "jm_get (procs ?s) j = Some q" for j q
    using that ok other [of j q] by (auto simp: get split: if_splits)
  moreover have "guard ?s = guard s1" "drawn ?s = drawn s1" by (simp_all add: put_proc_def)
  ultimately show ?thesis using entries unfolding lock_inv_def by metis
qed

lemmas put_simps = put_proc_def goto_def end_proc_def update_conv' delete_conv' lease_over_def holding_def

lemma inv_local:
  assumes inv: "lock_inv opt s" and p: "jm_get (procs s) i = Some p"
    and "lp_token p' = lp_token p" "lp_owner p' = lp_owner p" "proc_ok opt (put_proc i p' s) i p'"
  shows "lock_inv opt (put_proc i p' s)"
  using assms by (intro inv_put [OF inv p]) (simp_all add: lock_inv_def)

lemma proc_ok_move:
  assumes "proc_ok opt s i p" "\<And>owner. c \<noteq> KillCheck owner" "\<And>owner. c \<noteq> UnlinkDead owner"
    "c \<notin> {WriteToken, UnlinkUnwritten, UnlinkStale, ReadLock, UnlinkOwn}"
    "in_guard c \<Longrightarrow> in_guard (lp_pc p)" "prepared c \<Longrightarrow> prepared (lp_pc p)" "took (lp_pc p) \<Longrightarrow> took c"
  shows "proc_ok opt (put_proc i (p\<lparr>lp_pc := c\<rparr>) s) i (p\<lparr>lp_pc := c\<rparr>)"
  using assms by (auto simp: proc_ok_defs put_simps)

text \<open>A process that only moves to its next call.\<close>

lemma inv_goto:
  assumes "lock_inv opt s" "jm_get (procs s) i = Some p" "\<And>owner. c \<noteq> KillCheck owner" "\<And>owner. c \<noteq> UnlinkDead owner"
    "c \<notin> {WriteToken, UnlinkUnwritten, UnlinkStale, ReadLock, UnlinkOwn}"
    "in_guard c \<Longrightarrow> in_guard (lp_pc p)" "prepared c \<Longrightarrow> prepared (lp_pc p)" "took (lp_pc p) \<Longrightarrow> took c"
  shows "lock_inv opt (goto i p c s)"
  unfolding goto_def
  using assms by (intro inv_local proc_ok_move lock_inv_proc) simp_all

lemma nobody_in_guard:
  "lock_inv opt s \<Longrightarrow> guard s = None \<or> guard s = Some [] \<Longrightarrow> jm_get (procs s) j = Some q \<Longrightarrow> \<not> in_guard (lp_pc q)"
  using lock_inv_proc [of opt s j q] by (auto simp: proc_ok_def guard_ok_def)

lemma inv_rename:
  assumes inv: "lock_inv opt s" and p: "jm_get (procs s) i = Some p" "lp_pc p = RenameCandidate first"
  shows "lock_inv opt (rename_call i first ok p s)"
proof -
  have ok: "proc_ok opt s i p" by (rule lock_inv_proc [OF inv p(1)])
  have owner: "lp_owner p \<in> set (drawn s) - {[]}" using ok p(2) by (auto simp: proc_ok_defs owner_ok_def)
  show ?thesis
  proof (cases "ok \<and> (guard s = None \<or> guard s = Some [])")
    case False
    with p(2) show ?thesis
      by (auto simp: rename_call_def intro!: inv_goto [OF inv p(1)])
  next
    case True
    let ?p = "p\<lparr>lp_pc := case lp_task p of Acquire \<Rightarrow> OpenLock | Release \<Rightarrow> ReadLock\<rparr>" and ?s = "s\<lparr>guard := Some [lp_owner p]\<rparr>"
    have "lock_inv opt (put_proc i ?p ?s)"
    proof (rule inv_put [OF inv p(1)])
      show "guard ?s = guard s \<or> (\<forall>j q. j \<noteq> i \<longrightarrow> jm_get (procs s) j = Some q \<longrightarrow> \<not> in_guard (lp_pc q))"
        using nobody_in_guard [OF inv] True by blast
      show "proc_ok opt (put_proc i ?p ?s) i ?p"
        using ok p(2) by (cases "lp_task p") (simp_all add: proc_ok_defs put_simps)
    qed (use owner in simp_all)
    with True show ?thesis by (simp add: rename_call_def goto_def)
  qed
qed

lemma unlink_entry_Some:
  assumes "lock_inv opt s" "unlink_entry owner s = Some s'"
  shows "guard s = Some [owner]" "s' = s\<lparr>guard := Some []\<rparr>"
proof -
  from assms(2) obtain es where es: "guard s = Some es" "owner \<in> set es" "s' = s\<lparr>guard := Some (removeAll owner es)\<rparr>"
    by (auto simp: unlink_entry_def split: option.splits if_splits)
  with assms(1) have "length es \<le> 1" by (simp add: lock_inv_def)
  with es(2) have "es = [owner]" by (cases es) auto
  with es show "guard s = Some [owner]" "s' = s\<lparr>guard := Some []\<rparr>" by simp_all
qed

lemma inv_guard:
  assumes inv: "lock_inv opt s" and p: "jm_get (procs s) i = Some p" and move: "(c = Judge r \<or> c = RmdirGuard r) \<and> (took (lp_pc p) \<longrightarrow> r = GotToken) \<or> prepared (lp_pc p) \<and> (c = RmdirDead \<or> c = RenameCandidate False)"
    and free: "\<And>j q. j \<noteq> i \<Longrightarrow> jm_get (procs s) j = Some q \<Longrightarrow> \<not> in_guard (lp_pc q)" and g: "g = None \<or> g = Some []"
  shows "lock_inv opt (goto i p c (s\<lparr>guard := g\<rparr>))"
proof -
  have ok: "proc_ok opt s i p" by (rule lock_inv_proc [OF inv p])
  show ?thesis unfolding goto_def
  proof (rule inv_put [OF inv p])
    show "guard (s\<lparr>guard := g\<rparr>) = guard s \<or> (\<forall>j q. j \<noteq> i \<longrightarrow> jm_get (procs s) j = Some q \<longrightarrow> \<not> in_guard (lp_pc q))"
      using free by blast
    show "proc_ok opt (put_proc i (p\<lparr>lp_pc := c\<rparr>) (s\<lparr>guard := g\<rparr>)) i (p\<lparr>lp_pc := c\<rparr>)"
      using move ok prepared_not_took by (elim disjE conjE) (simp_all add: proc_ok_defs put_simps)
  qed (use g in auto)
qed

lemma inv_rmdir:
  assumes inv: "lock_inv opt s" and p: "jm_get (procs s) i = Some p"
    and move: "c = Judge r \<and> lp_pc p = RmdirGuard r \<or> prepared (lp_pc p) \<and> c = RenameCandidate False"
  shows "lock_inv opt (goto i p c (rmdir_guard ok s))"
proof (cases "ok \<and> guard s = Some []")
  case True
  then have free: "\<not> in_guard (lp_pc q)" if "jm_get (procs s) j = Some q" for j q
    using nobody_in_guard [OF inv] that by blast
  have "lock_inv opt (goto i p c (s\<lparr>guard := None\<rparr>))"
    by (rule inv_guard [OF inv p, where r = r]) (use move free in auto)
  with True show ?thesis by (simp add: rmdir_guard_def)
next
  case False
  then show ?thesis unfolding rmdir_guard_def using move by (auto intro!: inv_goto [OF inv p] dest: prepared_not_took)
qed

lemma dead_owner_absent:
  assumes inv: "lock_inv opt s" and dead: "deadGuardOwner s owner" and q: "jm_get (procs s) j = Some q" and "owner \<noteq> []"
  shows "lp_owner q \<noteq> owner"
proof
  assume "lp_owner q = owner"
  with lock_inv_proc [OF inv q] \<open>owner \<noteq> []\<close> obtain nonce where "owner = owner_name j nonce"
    by (auto simp: proc_ok_defs owner_ok_def)
  with dead q show False by (simp add: deadGuardOwner_def owner_pid_name)
qed

lemma inv_reclaim:
  assumes inv: "lock_inv opt s" and p: "jm_get (procs s) i = Some p"
  shows "lock_inv opt (reclaim_call i ok p s)"
proof -
  have pok: "proc_ok opt s i p" by (rule lock_inv_proc [OF inv p])
  have retry: "prepared (lp_pc p) \<Longrightarrow> lock_inv opt (goto i p (RenameCandidate False) s)"
    by (rule inv_goto [OF inv p]) (simp_all add: prepared_not_took)
  have judge: "lp_pc p = UnlinkGuard r \<Longrightarrow> lock_inv opt (goto i p (Judge r) s)" for r
    by (rule inv_goto [OF inv p]) simp_all
  show ?thesis
  proof (cases "lp_pc p")
    case ReadGuard
    have "lock_inv opt (goto i p (KillCheck owner) s)" if "guard s = Some [owner]" for owner
    proof -
      have "owner \<in> set (drawn s) - {[]}" using inv that by (simp add: lock_inv_def)
      with pok ReadGuard show ?thesis unfolding goto_def
        by (intro inv_local [OF inv p]) (simp_all add: proc_ok_defs put_simps)
    qed
    with ReadGuard retry show ?thesis by (simp add: reclaim_call_def split: option.split list.split)
  next
    case (KillCheck owner)
    have "lock_inv opt (goto i p (UnlinkDead owner) s)" if "deadGuardOwner s owner"
    proof -
      have "owner \<in> set (drawn s) - {[]}" using pok KillCheck by (simp add: proc_ok_defs)
      moreover from this dead_owner_absent [OF inv that] p
      have "\<forall>j q. jm_get (procs s) j = Some q \<longrightarrow> lp_owner q \<noteq> owner" "lp_owner p \<noteq> owner" by blast+
      ultimately show ?thesis using pok KillCheck unfolding goto_def
        by (intro inv_local [OF inv p]) (simp_all add: proc_ok_defs put_simps)
    qed
    with KillCheck retry show ?thesis by (simp add: reclaim_call_def)
  next
    case (UnlinkDead owner)
    have "lock_inv opt (goto i p RmdirDead s')" if "unlink_entry owner s = Some s'" for s'
    proof -
      note e = unlink_entry_Some [OF inv that]
      have "\<not> in_guard (lp_pc q)" if "jm_get (procs s) j = Some q" for j q
      proof
        assume "in_guard (lp_pc q)"
        with lock_inv_proc [OF inv that] e(1) have "lp_owner q = owner" by (simp add: proc_ok_defs)
        with pok UnlinkDead that show False by (simp add: proc_ok_defs)
      qed
      then show ?thesis unfolding e(2) using UnlinkDead by (intro inv_guard [OF inv p]) auto
    qed
    with UnlinkDead retry show ?thesis by (simp add: reclaim_call_def split: option.split)
  next
    case (UnlinkGuard r)
    have "lock_inv opt (goto i p (RmdirGuard r) s')" if "unlink_entry (lp_owner p) s = Some s'" for s'
      unfolding unlink_entry_Some(2) [OF inv that]
      by (rule inv_guard [OF inv p]) (use guard_exclusive [OF inv p] UnlinkGuard in auto)
    with UnlinkGuard judge show ?thesis by (simp add: reclaim_call_def split: option.split)
  qed (use inv inv_rmdir [OF inv p] in \<open>auto simp: reclaim_call_def\<close>)
qed

text \<open>A process under the guard that replaces or removes the lock file.\<close>

lemma inv_lockfile:
  assumes inv: "lock_inv opt s" and p: "jm_get (procs s) i = Some p" "in_guard (lp_pc p)"
    and same: "lp_token p' = lp_token p" "lp_owner p' = lp_owner p"
    and over: "\<And>j q. j \<noteq> i \<Longrightarrow> jm_get (procs s) j = Some q \<Longrightarrow> holding q \<Longrightarrow> lease_over opt q s"
    and ok: "proc_ok opt (put_proc i p' (s\<lparr>lockfile := f\<rparr>)) i p'"
  shows "lock_inv opt (put_proc i p' (s\<lparr>lockfile := f\<rparr>))"
  using assms by (intro inv_put [OF inv p(1)]) (auto simp: lock_inv_def)

text \<open>The lock file of another text than a holder's means that the holder's lease is over.\<close>

lemma holder_over:
  assumes inv: "lock_inv opt s" and q: "jm_get (procs s) j = Some q" "holding q"
    and other: "\<And>f. lockfile s = Some f \<Longrightarrow> lf_text f \<noteq> lp_token q \<or> staleMs opt < clock s - lf_mtime f"
  shows "lease_over opt q s"
  using lock_inv_proc [OF inv q(1)] q(2) other by (auto simp: proc_ok_defs lease_over_def)

lemma inv_lock_call:
  assumes inv: "lock_inv opt s" and p: "jm_get (procs s) i = Some p"
  shows "lock_inv opt (lock_call opt i ok p s)"
proof -
  have pok: "proc_ok opt s i p" by (rule lock_inv_proc [OF inv p])
  have tok: "lp_token q \<noteq> []" if "jm_get (procs s) j = Some q" for j q
    using lock_inv_proc [OF inv that] by (simp add: proc_ok_defs)
  have over: "lease_over opt q s" if "lockfile s = Some f" "lf_text f = []" "holding q" "jm_get (procs s) j = Some q" for f q j
    using holder_over [OF inv that(4,3)] tok [OF that(4)] that(1,2) by auto
  have leave: "in_guard (lp_pc p) \<Longrightarrow> \<not> took (lp_pc p) \<Longrightarrow> lock_inv opt (goto i p (UnlinkGuard r) s)" for r
    by (rule inv_goto [OF inv p]) simp_all
  have remove: "lock_inv opt (goto i p (UnlinkGuard r) (s\<lparr>lockfile := None\<rparr>))"
    if "in_guard (lp_pc p)" "\<not> took (lp_pc p)"
      "\<And>j q. j \<noteq> i \<Longrightarrow> jm_get (procs s) j = Some q \<Longrightarrow> holding q \<Longrightarrow> lease_over opt q s" for r
    unfolding goto_def using pok that by (intro inv_lockfile [OF inv p]) (auto simp: proc_ok_defs put_simps)
  show ?thesis
  proof (cases "lp_pc p")
    case OpenLock
    have "lock_inv opt (goto i p WriteToken (s\<lparr>lockfile := Some \<lparr>lf_text = [], lf_mtime = clock s\<rparr>\<rparr>))"
      if "lockfile s = None" unfolding goto_def
      using pok OpenLock that holder_over [OF inv]
      by (intro inv_lockfile [OF inv p]) (auto simp: proc_ok_defs put_simps)
    moreover have "lock_inv opt (goto i p StatLock s)" by (rule inv_goto [OF inv p]) (simp_all add: OpenLock)
    ultimately show ?thesis using OpenLock leave by (simp add: lock_call_def)
  next
    case WriteToken
    then obtain f where f: "lockfile s = Some f" "lf_text f = []" using pok by (auto simp: proc_ok_def lock_ok_def)
    have "lock_inv opt (goto i p UnlinkUnwritten s)"
      unfolding goto_def using pok WriteToken by (intro inv_local [OF inv p]) (auto simp: proc_ok_defs put_simps)
    moreover have "lock_inv opt (put_proc i (p\<lparr>lp_pc := UnlinkGuard GotToken, lp_holds := True, lp_since := clock s\<rparr>)
        (s\<lparr>lockfile := Some \<lparr>lf_text = lp_token p, lf_mtime = clock s\<rparr>\<rparr>))"
      using pok WriteToken over [OF f]
      by (intro inv_lockfile [OF inv p]) (auto simp: proc_ok_defs put_simps)
    ultimately show ?thesis using WriteToken f by (simp add: lock_call_def)
  next
    case UnlinkUnwritten
    then obtain f where "lockfile s = Some f" "lf_text f = []" using pok by (auto simp: proc_ok_def lock_ok_def)
    from over [OF this] UnlinkUnwritten remove leave show ?thesis by (simp add: lock_call_def)
  next
    case StatLock
    have "lock_inv opt (goto i p UnlinkStale s)" if "lockfile s = Some f" "staleMs opt < clock s - lf_mtime f" for f
      unfolding goto_def using pok StatLock that by (intro inv_local [OF inv p]) (auto simp: proc_ok_defs put_simps)
    with StatLock leave show ?thesis by (simp add: lock_call_def split: option.split)
  next
    case UnlinkStale
    then obtain f where "lockfile s = Some f" "staleMs opt < clock s - lf_mtime f" using pok by (auto simp: proc_ok_def lock_ok_def)
    then have "holding q \<Longrightarrow> jm_get (procs s) j = Some q \<Longrightarrow> lease_over opt q s" for j q
      using holder_over [OF inv, of j q] by fastforce
    with UnlinkStale remove leave show ?thesis by (simp add: lock_call_def)
  next
    case ReadLock
    have "lock_inv opt (goto i p UnlinkOwn s)" if "lockfile s = Some f" "lf_text f = lp_token p" for f
      unfolding goto_def using pok ReadLock that by (intro inv_local [OF inv p]) (auto simp: proc_ok_defs put_simps)
    with ReadLock leave show ?thesis by (simp add: lock_call_def split: option.split)
  next
    case UnlinkOwn
    then obtain f where f: "lockfile s = Some f" "lf_text f = lp_token p" using pok by (auto simp: proc_ok_def lock_ok_def)
    have "lp_token q \<noteq> lp_token p" if "j \<noteq> i" "jm_get (procs s) j = Some q" for j q
      using inv p that unfolding lock_inv_def by metis
    with f have "j \<noteq> i \<Longrightarrow> holding q \<Longrightarrow> jm_get (procs s) j = Some q \<Longrightarrow> lease_over opt q s" for j q
      using holder_over [OF inv, of j q] by fastforce
    with UnlinkOwn remove leave show ?thesis by (simp add: lock_call_def)
  qed (use inv in \<open>simp_all add: lock_call_def\<close>)
qed

text \<open>A process that touches nothing shared and stays outside the guard.\<close>

fun idle :: "pc \<Rightarrow> bool" where
  "idle Ready = True"
| "idle (Judge _) = True"
| "idle (Sleeping _) = True"
| "idle Working = True"
| "idle _ = False"

lemma inv_idle:
  assumes inv: "lock_inv opt s" and p: "jm_get (procs s) i = Some p"
    and "idle (lp_pc p')" "lp_token p' = lp_token p" "lp_owner p' = lp_owner p"
    and "holding p' \<Longrightarrow> holding p \<and> took (lp_pc p') \<and> lp_since p' = lp_since p"
  shows "lock_inv opt (put_proc i p' s)"
proof (rule inv_local [OF inv p])
  show "proc_ok opt (put_proc i p' s) i p'"
    using lock_inv_proc [OF inv p] assms(3-)
    by (cases "lp_pc p'"; cases "holding p'") (simp_all add: proc_ok_defs put_proc_def lease_over_def)
qed (use assms in simp_all)

lemma inv_end:
  assumes inv: "lock_inv opt s"
  shows "lock_inv opt (end_proc i s)"
proof -
  have get: "jm_get (procs (end_proc i s)) j = (if j = i then None else jm_get (procs s) j)" for j
    by (simp add: end_proc_def delete_conv')
  have "proc_ok opt (end_proc i s) j q" if "jm_get (procs s) j = Some q" for j q
    using lock_inv_proc [OF inv that] get by (auto simp: proc_ok_def guard_ok_def dead_ok_def lock_ok_def end_proc_def lease_over_def split: if_splits)
  moreover have "jm_wf (procs (end_proc i s))" using inv by (simp add: lock_inv_def end_proc_def distinct_delete)
  moreover have "guard (end_proc i s) = guard s" "drawn (end_proc i s) = drawn s" by (simp_all add: end_proc_def)
  ultimately show ?thesis using inv get unfolding lock_inv_def by (metis option.distinct(1))
qed

lemma inv_tick:
  assumes inv: "lock_inv opt s" and "0 \<le> d"
  shows "lock_inv opt (s\<lparr>clock := clock s + d\<rparr>)"
proof -
  have "proc_ok opt (s\<lparr>clock := clock s + d\<rparr>) i p" if "jm_get (procs s) i = Some p" for i p
    using lock_inv_proc [OF inv that] \<open>0 \<le> d\<close>
    by (auto simp: proc_ok_def guard_ok_def dead_ok_def lock_ok_def lease_over_def)
  with inv show ?thesis by (simp add: lock_inv_def)
qed

lemma inv_begin:
  assumes inv: "lock_inv opt s" and none: "jm_get (procs s) i = None" and token: "token \<notin> set (drawn s)" "token \<noteq> []"
  shows "lock_inv opt (put_proc i (new_proc token t) (s\<lparr>drawn := token # drawn s\<rparr>))"
proof -
  let ?s = "put_proc i (new_proc token t) (s\<lparr>drawn := token # drawn s\<rparr>)"
  have get: "jm_get (procs ?s) j = (if j = i then Some (new_proc token t) else jm_get (procs s) j)" for j
    by (simp add: put_proc_def update_conv')
  have old: "proc_ok opt ?s j q" if "jm_get (procs s) j = Some q" for j q
  proof -
    have q: "proc_ok opt s j q" by (rule lock_inv_proc [OF inv that])
    then have "local_ok (token # drawn s) j q" by (auto simp: proc_ok_def intro: local_ok_mono)
    moreover have "dead_ok ?s q"
      unfolding dead_ok_def
    proof (intro allI impI)
      fix owner k r
      assume dead: "lp_pc q = UnlinkDead owner" "jm_get (procs ?s) k = Some r"
      show "lp_owner r \<noteq> owner"
      proof (cases "k = i")
        case True
        with dead(2) have "r = new_proc token t" unfolding get by simp
        with dead(1) q show ?thesis by (auto simp: new_proc_def proc_ok_def local_ok_def)
      next
        case False
        with dead q show ?thesis by (simp add: get proc_ok_def dead_ok_def)
      qed
    qed
    ultimately show ?thesis using q by (simp add: proc_ok_def guard_ok_def lock_ok_def lease_over_def put_proc_def)
  qed
  have new: "proc_ok opt ?s i (new_proc token t)"
    using token by (simp add: proc_ok_defs new_proc_def put_proc_def holding_def owner_ok_def)
  have tokens: "lp_token q \<noteq> token" if "jm_get (procs s) j = Some q" for j q
    using lock_inv_proc [OF inv that] token by (auto simp: proc_ok_def local_ok_def)
  have "lp_token q = lp_token r \<Longrightarrow> j = k" if "jm_get (procs ?s) j = Some q" "jm_get (procs ?s) k = Some r" for j k q r
    using that inv tokens unfolding lock_inv_def get by (auto simp: new_proc_def split: if_splits) metis+
  moreover have "jm_wf (procs ?s)" using inv by (simp add: lock_inv_def put_proc_def distinct_update)
  moreover have "proc_ok opt ?s j q" if "jm_get (procs ?s) j = Some q" for j q
    using that old new by (auto simp: get split: if_splits)
  moreover have "length es \<le> 1 \<and> set es \<subseteq> set (drawn ?s) - {[]}" if "guard ?s = Some es" for es
    using inv that by (auto simp: lock_inv_def put_proc_def)
  ultimately show ?thesis unfolding lock_inv_def by blast
qed

lemma inv_prepare:
  assumes inv: "lock_inv opt s" and p: "jm_get (procs s) i = Some p" "lp_pc p = Ready"
    and fresh: "owner_name i nonce \<notin> set (drawn s)"
  shows "lock_inv opt (prepare i nonce ok p s)"
proof (cases ok)
  case True
  let ?owner = "owner_name i nonce"
  have "\<not> holding p" using lock_inv_proc [OF inv p(1)] p(2) by (simp add: proc_ok_def local_ok_def)
  moreover have "owner_ok (?owner # drawn s) i ?owner" by (auto simp: owner_ok_def)
  ultimately have "proc_ok opt (put_proc i (p\<lparr>lp_pc := RenameCandidate True, lp_owner := ?owner\<rparr>)
      (s\<lparr>drawn := ?owner # drawn s\<rparr>)) i (p\<lparr>lp_pc := RenameCandidate True, lp_owner := ?owner\<rparr>)"
    using lock_inv_proc [OF inv p(1)] by (simp add: proc_ok_defs put_simps owner_name_nonempty)
  then have "lock_inv opt (put_proc i (p\<lparr>lp_pc := RenameCandidate True, lp_owner := owner_name i nonce\<rparr>)
      (s\<lparr>drawn := owner_name i nonce # drawn s\<rparr>))"
    using inv fresh by (intro inv_put [OF inv p(1)]) (auto simp: lock_inv_def)
  with True show ?thesis by (simp add: prepare_def Let_def)
next
  case False
  have "\<not> took (lp_pc p)" using p(2) by simp
  then show ?thesis using False p(2) by (auto simp: prepare_def Let_def intro!: inv_goto [OF inv p(1)])
qed

lemma inv_call:
  assumes inv: "lock_inv opt s" and p: "jm_get (procs s) i = Some p"
  shows "lock_inv opt (call_step opt i ok jitter p s)"
proof -
  have not_took: "\<not> took (lp_pc p) \<Longrightarrow> \<not> holding p"
    using lock_inv_proc [OF inv p] by (simp add: proc_ok_def local_ok_def)
  have other: "lock_inv opt (reclaim_call i ok p (lock_call opt i ok p s))"
    if "lock_call opt i ok p s = s \<or> (\<forall>v. reclaim_call i ok p v = v)"
    using that inv_reclaim [OF inv p] inv_lock_call [OF inv p] by auto
  show ?thesis
  proof (cases "lp_pc p")
    case (RenameCandidate first)
    with inv_rename [OF inv p] show ?thesis by (simp add: call_step_def)
  next
    case (Judge r)
    have "lock_inv opt (next_attempt i p c s)" if "r \<noteq> GotToken" "idle c" for c
      unfolding next_attempt_def using that not_took Judge by (intro inv_idle [OF inv p]) (auto simp: holding_def)
    moreover have "lock_inv opt (goto i p Working s)"
      unfolding goto_def by (intro inv_idle [OF inv p]) (auto simp: holding_def)
    ultimately show ?thesis using Judge inv_end [OF inv]
      by (auto simp: call_step_def judge_acquire_def judge_release_def split: task.split)
  next
    case (Sleeping t)
    have "lock_inv opt (goto i p Ready s)"
      unfolding goto_def using not_took Sleeping by (intro inv_idle [OF inv p]) (auto simp: holding_def)
    with Sleeping inv inv_end [OF inv] show ?thesis by (simp add: call_step_def)
  qed (use inv other in \<open>simp_all add: call_step_def lock_call_def reclaim_call_def\<close>)
qed

lemma inv_finish: 
  assumes inv: "lock_inv opt s" and p: "jm_get (procs s) i = Some p"
  shows "lock_inv opt (finish_work i p s)"
  unfolding finish_work_def using inv_end [OF inv]
  by (auto intro!: inv_idle [OF inv p] simp: holding_def)

lemma lock_step_inv: "lock_inv opt s \<Longrightarrow> fresh s e \<Longrightarrow> lock_inv opt (lock_step opt s e)"
  by (auto simp: lock_step_def fresh_def class_run_def intro: inv_begin inv_prepare inv_call inv_finish inv_end inv_tick
      split: lock_event.split option.split)

lemma reachable_inv: "reachable opt s \<Longrightarrow> lock_inv opt s"
proof (induction rule: reachable.induct)
  case (start t)
  show ?case by (simp add: lock_inv_def unused_def)
next
  case (step s e)
  then show ?case by (intro lock_step_inv)
qed

subsection \<open>Mutual exclusion\<close>

text \<open>A process is in the callback of \<^verbatim>\<open>withFileLock\<close> with the lock taken.\<close>

definition critical :: "lock_sys \<Rightarrow> nat \<Rightarrow> proc \<Rightarrow> bool" where
  "critical s i p = (jm_get (procs s) i = Some p \<and> lp_pc p = Working \<and> holding p)"

text \<open>C4. With any number of processes, any interleaving of their system calls, failing calls and crashes: at
  most one process at a time is inside the guarded part of \<^verbatim>\<open>withLockMutation\<close>, so that no
  reclaiming removes the guard of a live owner; a callback that runs with the lock taken for no longer than
  \<open>staleMs\<close> still finds its own token in the lock file, and of two callbacks that run with the lock
  at the same time one has held it for longer.\<close>
theorem file_lock_exclusive:
  assumes "reachable opt s"
  shows "(jm_get (procs s) i = Some p \<and> in_guard (lp_pc p) \<and> jm_get (procs s) j = Some q \<and> in_guard (lp_pc q) \<longrightarrow> i = j)
    \<and> (critical s i p \<and> \<not> lease_over opt p s \<longrightarrow>
        lockfile s = Some \<lparr>lf_text = lp_token p, lf_mtime = lp_since p\<rparr>)
    \<and> (critical s i p \<and> critical s j q \<and> i \<noteq> j \<longrightarrow> lease_over opt p s \<or> lease_over opt q s)"
proof -
  have inv: "lock_inv opt s" using assms by (rule reachable_inv)
  have own: "lockfile s = Some \<lparr>lf_text = lp_token p, lf_mtime = lp_since p\<rparr>"
    if "critical s i p" "\<not> lease_over opt p s" for i p
    using that lock_inv_proc [OF inv, of i p] by (auto simp: critical_def proc_ok_def lock_ok_def)
  have "lease_over opt p s \<or> lease_over opt q s" if "critical s i p" "critical s j q" "i \<noteq> j"
  proof (rule ccontr)
    assume "\<not> (lease_over opt p s \<or> lease_over opt q s)"
    with own [OF that(1)] own [OF that(2)] have "lp_token p = lp_token q" by simp
    with inv that show False unfolding lock_inv_def critical_def by metis
  qed
  with own guard_exclusive [OF inv] show ?thesis by blast
qed

definition sample_opts :: lock_opts where
  "sample_opts = \<lparr>staleMs = 10, timeoutMs = 20, pollMs = 5\<rparr>"

definition hex_name :: "char \<Rightarrow> string" where
  "hex_name c = replicate 32 c"

text \<open>One process takes the lock and dies before it gives the guard back; another reclaims the dead guard and, once it
  is stale, the lock.\<close>

definition sample_run :: "lock_event list" where
  "sample_run = [Begin 1 (hex_name (CHR ''a'')), Prepare 1 (hex_name (CHR ''b'')) True, Call 1 True 0, Call 1 True 0, Call 1 True 0,
     Begin 2 (hex_name (CHR ''c'')), Crash 1, Tick 11, Prepare 2 (hex_name (CHR ''d'')) True] @ replicate 12 (Call 2 True 0)
     @ [Prepare 2 (hex_name (CHR ''e'')) True] @ replicate 6 (Call 2 True 0)"

lemma sample_run_facts:
  "fresh_run sample_opts (unused 0) sample_run"
  "(case jm_get (procs (foldl (lock_step sample_opts) (unused 0) sample_run)) 2 of
      Some p \<Rightarrow> lp_pc p = Working \<and> holding p \<and> \<not> lease_over sample_opts p (foldl (lock_step sample_opts) (unused 0) sample_run)
        \<and> lp_token p = hex_name (CHR ''c'') | None \<Rightarrow> False)"
  by code_simp+

theorem file_lock_exclusive_witness:
  "map_option lf_text (lockfile (foldl (lock_step sample_opts) (unused 0) sample_run)) = Some (hex_name (CHR ''c''))"
proof -
  let ?s = "foldl (lock_step sample_opts) (unused 0) sample_run"
  have "reachable sample_opts ?s" by (rule reachable_run [OF reachable.start sample_run_facts(1)])
  note excl = file_lock_exclusive [OF this]
  from sample_run_facts(2) obtain p where "critical ?s 2 p" "\<not> lease_over sample_opts p ?s" "lp_token p = hex_name (CHR ''c'')"
    by (auto simp: critical_def split: option.splits)
  with excl [of 2 p] show ?thesis by auto
qed

subsection \<open>Taking the lock comes to an end\<close>

fun rank :: "pc \<Rightarrow> nat" where
  "rank (Sleeping _) = 15"
| "rank Ready = 14"
| "rank (RenameCandidate first) = (if first then 13 else 8)"
| "rank ReadGuard = 12"
| "rank (KillCheck _) = 11"
| "rank (UnlinkDead _) = 10"
| "rank RmdirDead = 9"
| "rank OpenLock = 7"
| "rank ReadLock = 7"
| "rank StatLock = 6"
| "rank WriteToken = 6"
| "rank UnlinkOwn = 6"
| "rank UnlinkStale = 5"
| "rank UnlinkUnwritten = 5"
| "rank (UnlinkGuard _) = 4"
| "rank (RmdirGuard _) = 3"
| "rank (Judge _) = 2"
| "rank Working = 1"

text \<open>The attempts left: the immediate retries, and the sleeps that fit into the timeout.\<close>

definition sleeps_left :: "lock_opts \<Rightarrow> int \<Rightarrow> proc \<Rightarrow> nat" where
  "sleeps_left opt t p = nat (ceil_div (timeoutMs opt - ((case lp_pc p of Sleeping until \<Rightarrow> max until t | _ \<Rightarrow> t) - lp_started p)) (pollMs opt))"

definition effort :: "lock_opts \<Rightarrow> int \<Rightarrow> proc \<Rightarrow> nat" where
  "effort opt t p = 16 * (MAX_ATTEMPTS - lp_attempt p + sleeps_left opt t p) + rank (lp_pc p)"

definition acquiring :: "proc \<Rightarrow> bool" where
  "acquiring p = (lp_task p = Acquire \<and> lp_pc p \<noteq> Working)"

text \<open>The steps that change a process for as long as it is taking the lock.\<close>

primrec acquire_moves :: "lock_opts \<Rightarrow> nat \<Rightarrow> lock_sys \<Rightarrow> lock_event list \<Rightarrow> nat" where
  "acquire_moves opt i s [] = 0"
| "acquire_moves opt i s (e # es) = (case jm_get (procs s) i of
      Some p \<Rightarrow> if acquiring p
        then (if jm_get (procs (lock_step opt s e)) i = Some p then 0 else 1) + acquire_moves opt i (lock_step opt s e) es
        else 0
    | None \<Rightarrow> 0)"

lemma ceil_div_mono: "0 < b \<Longrightarrow> a \<le> a' \<Longrightarrow> ceil_div a b \<le> ceil_div a' b"
  using ceil_div_bounds(1) [of b a'] by (simp add: ceil_div_le_iff)

lemma ceil_div_minus: "0 < b \<Longrightarrow> ceil_div (a - b) b = ceil_div a b - 1"
proof -
  assume b: "0 < b"
  have "(- (a - b)) div b = (- a + 1 * b) div b" by simp
  also have "\<dots> = 1 + (- a) div b" using b by (simp only: div_mult_self1)
  finally show ?thesis by (simp add: ceil_div_def)
qed

lemma effort_later: "0 < pollMs opt \<Longrightarrow> t \<le> t' \<Longrightarrow> effort opt t' p \<le> effort opt t p"
  unfolding effort_def sleeps_left_def
  by (intro add_right_mono mult_le_mono2 add_left_mono nat_mono ceil_div_mono) (auto split: pc.split)

text \<open>An attempt that ends with a sleep uses one of the sleeps that are left.\<close>

lemma sleep_uses:
  assumes "0 < pollMs opt" "\<not> timeoutMs opt \<le> t - lp_started p" "\<And>u. lp_pc p \<noteq> Sleeping u"
  shows "sleeps_left opt t (p\<lparr>lp_pc := Sleeping (t + pollMs opt + int j), lp_attempt := a\<rparr>) < sleeps_left opt t p"
proof -
  let ?left = "timeoutMs opt - (t - lp_started p)"
  have pos: "0 < ceil_div ?left (pollMs opt)" using assms(1,2) by (intro ceil_div_pos) simp_all
  have "ceil_div (timeoutMs opt - (t + pollMs opt + int j - lp_started p)) (pollMs opt) \<le> ceil_div (?left - pollMs opt) (pollMs opt)"
    using assms(1) by (intro ceil_div_mono) simp_all
  also have "\<dots> = ceil_div ?left (pollMs opt) - 1" by (rule ceil_div_minus [OF assms(1)])
  finally have "ceil_div (timeoutMs opt - (t + pollMs opt + int j - lp_started p)) (pollMs opt) < ceil_div ?left (pollMs opt)" by simp
  moreover have "sleeps_left opt t p = nat (ceil_div ?left (pollMs opt))" using assms(3) by (simp add: sleeps_left_def split: pc.split)
  ultimately show ?thesis using assms(1) pos by (simp add: sleeps_left_def)
qed

lemma effort_rank:
  assumes "lp_attempt p' = lp_attempt p" "lp_started p' = lp_started p" "\<And>u. lp_pc p \<noteq> Sleeping u" "\<And>u. lp_pc p' \<noteq> Sleeping u"
    "rank (lp_pc p') < rank (lp_pc p)"
  shows "effort opt t p' < effort opt t p"
proof -
  have "sleeps_left opt t p' = sleeps_left opt t p" using assms(2-4) by (simp add: sleeps_left_def split: pc.split)
  with assms show ?thesis by (simp add: effort_def)
qed

lemmas call_defs = call_step_def rename_call_def reclaim_call_def lock_call_def unlink_entry_def rmdir_guard_def put_simps

definition advances :: "lock_opts \<Rightarrow> int \<Rightarrow> proc \<Rightarrow> proc \<Rightarrow> bool" where
  "advances opt t p p' = (lp_pc p' \<noteq> lp_pc p \<and> (acquiring p' \<longrightarrow> effort opt t p' < effort opt t p))"

lemma advances_rank:
  "lp_attempt p' = lp_attempt p \<Longrightarrow> lp_started p' = lp_started p \<Longrightarrow> \<forall>u. lp_pc p \<noteq> Sleeping u \<Longrightarrow> \<forall>u. lp_pc p' \<noteq> Sleeping u \<Longrightarrow>
    rank (lp_pc p') < rank (lp_pc p) \<Longrightarrow> advances opt t p p'"
  unfolding advances_def using effort_rank [of p' p opt t] by (metis less_irrefl)

lemma advances_judge:
  assumes "0 < pollMs opt" "lp_pc p = Judge r" "c = Ready \<and> lp_attempt p < MAX_ATTEMPTS \<or>
      c = Sleeping (t + pollMs opt + int j) \<and> \<not> timeoutMs opt \<le> t - lp_started p"
  shows "advances opt t p (p\<lparr>lp_pc := c, lp_attempt := Suc (lp_attempt p)\<rparr>)"
  using assms(3)
proof
  assume c: "c = Ready \<and> lp_attempt p < MAX_ATTEMPTS"
  then have "sleeps_left opt t (p\<lparr>lp_pc := c, lp_attempt := Suc (lp_attempt p)\<rparr>) = sleeps_left opt t p"
    using assms(2) by (simp add: sleeps_left_def)
  with c assms(2) show ?thesis by (simp add: advances_def effort_def) (use c in linarith)
next
  assume c: "c = Sleeping (t + pollMs opt + int j) \<and> \<not> timeoutMs opt \<le> t - lp_started p"
  with sleep_uses [OF assms(1), where t = t and p = p and j = j and a = "Suc (lp_attempt p)"] assms(2)
  show ?thesis by (simp add: advances_def effort_def) linarith
qed

lemma call_advances:
  assumes "jm_get (procs s) i = Some p" "0 < pollMs opt" "acquiring p" "\<forall>u. lp_pc p \<noteq> Sleeping u" "lp_pc p \<noteq> Ready"
    "jm_get (procs (call_step opt i ok jitter p s)) i = Some p'"
  shows "advances opt (clock s) p p'"
proof (cases "lp_pc p")
  case (Judge r)
  have retry: "advances opt (clock s) p (p\<lparr>lp_pc := Ready, lp_attempt := Suc (lp_attempt p)\<rparr>)" if "lp_attempt p < MAX_ATTEMPTS"
    using that by (intro advances_judge [OF assms(2) Judge]) simp
  have sleep: "advances opt (clock s) p (p\<lparr>lp_pc := Sleeping (clock s + pollMs opt + int jitter), lp_attempt := Suc (lp_attempt p)\<rparr>)"
    if "\<not> timeoutMs opt \<le> clock s - lp_started p"
    using that by (intro advances_judge [OF assms(2) Judge]) simp
  have work: "advances opt (clock s) p (p\<lparr>lp_pc := Working\<rparr>)" using Judge by (intro advances_rank) simp_all
  show ?thesis
    using assms Judge retry sleep work
    by (simp add: call_step_def judge_acquire_def next_attempt_def put_simps acquiring_def split: if_splits)
qed (use assms in \<open>auto simp: call_defs acquiring_def intro!: advances_rank split: option.splits list.splits if_splits task.splits\<close>)

lemma call_other: "j \<noteq> i \<Longrightarrow> jm_get (procs (call_step opt j ok jitter q s)) i = jm_get (procs s) i"
  by (cases "lp_pc q")
    (auto simp: call_defs judge_acquire_def judge_release_def next_attempt_def split: option.split list.split task.split)

lemma call_clock: "clock (call_step opt i ok jitter p s) = clock s"
  by (cases "lp_pc p")
    (auto simp: call_defs judge_acquire_def judge_release_def next_attempt_def split: option.split list.split task.split)

text \<open>What any event does to a process that is taking the lock: it is gone, or as it was, or has advanced.\<close>

lemma step_advances:
  assumes p: "jm_get (procs s) i = Some p" "acquiring p" and poll: "0 < pollMs opt"
    and p': "jm_get (procs (lock_step opt s e)) i = Some p'"
  shows "clock s \<le> clock (lock_step opt s e) \<and>
    (p' = p \<or> (acquiring p' \<longrightarrow> effort opt (clock (lock_step opt s e)) p' < effort opt (clock s) p))"
proof -
  have other: "jm_get (procs (call_step opt j ok jitter q s)) i = Some p" if "j \<noteq> i" for j ok jitter q
    using p(1) that by (simp add: call_other)
  show ?thesis
  proof (cases e)
    case (Begin j token)
    with p p' show ?thesis by (auto simp: lock_step_def put_simps split: if_splits)
  next
    case (Prepare j nonce ok)
    show ?thesis
    proof (cases "j = i \<and> lp_pc p = Ready")
      case True
      have "effort opt (clock s) (p\<lparr>lp_pc := RenameCandidate True, lp_owner := owner_name i nonce\<rparr>) < effort opt (clock s) p"
          "effort opt (clock s) (p\<lparr>lp_pc := Judge Failed\<rparr>) < effort opt (clock s) p"
        using True by (intro effort_rank; simp)+
      with True Prepare p p' show ?thesis by (auto simp: lock_step_def prepare_def put_simps Let_def split: if_splits)
    next
      case False
      with Prepare p p' show ?thesis
        by (cases "j = i") (auto simp: lock_step_def prepare_def put_simps Let_def split: if_splits option.splits)
    qed
  next
    case (Call j ok jitter)
    show ?thesis
    proof (cases "j = i")
      case True
      then have step: "lock_step opt s e = call_step opt i ok jitter p s" using Call p(1) by (simp add: lock_step_def)
      consider (sleep) u where "lp_pc p = Sleeping u" | (ready) "lp_pc p = Ready" | (call) "\<forall>u. lp_pc p \<noteq> Sleeping u" "lp_pc p \<noteq> Ready"
        by blast
      then show ?thesis
      proof cases
        case sleep
        have "effort opt (clock s) (p\<lparr>lp_pc := Ready\<rparr>) < effort opt (clock s) p" if "u \<le> clock s"
          using sleep that by (simp add: effort_def sleeps_left_def max_def)
        with sleep p p' show ?thesis
          by (auto simp: step call_step_def put_simps acquiring_def split: if_splits)
      next
        case ready
        with p p' show ?thesis by (simp add: step call_step_def)
      next
        case call
        from call_advances [OF p(1) poll p(2) call, of ok jitter p'] p' show ?thesis
          by (simp add: step call_clock advances_def)
      qed
    next
      case False
      with Call p p' other show ?thesis by (auto simp: lock_step_def call_clock split: option.splits)
    qed
  next
    case (Finish j)
    with p p' show ?thesis
      by (cases "j = i") (auto simp: lock_step_def finish_work_def put_simps acquiring_def split: option.splits if_splits)
  next
    case (Crash j)
    with p p' show ?thesis by (auto simp: lock_step_def put_simps split: if_splits)
  next
    case (Tick d)
    with p p' show ?thesis by (simp add: lock_step_def)
  qed
qed

lemma acquire_moves_bound:
  "jm_get (procs s) i = Some p \<Longrightarrow> acquiring p \<Longrightarrow> 0 < pollMs opt \<Longrightarrow> acquire_moves opt i s es \<le> effort opt (clock s) p"
proof (induction es arbitrary: s p)
  case Nil
  then show ?case by simp
next
  case (Cons e es)
  let ?s = "lock_step opt s e"
  have pos: "1 \<le> effort opt t q" for t q by (cases "lp_pc q") (simp_all add: effort_def)
  show ?case
  proof (cases "jm_get (procs ?s) i")
    case None
    then have "acquire_moves opt i ?s es = 0" by (cases es) simp_all
    with Cons.prems None pos show ?thesis by simp
  next
    case (Some p')
    show ?thesis
    proof (cases "acquiring p'")
      case False
      with Some have "acquire_moves opt i ?s es = 0" by (cases es) simp_all
      with Cons.prems Some pos show ?thesis by simp
    next
      case True
      from Cons.IH [OF Some True Cons.prems(3)] step_advances [OF Cons.prems Some] True effort_later [OF Cons.prems(3), of "clock s" "clock ?s" p]
      show ?thesis using Cons.prems Some by auto
    qed
  qed
qed

text \<open>The next call of a process, which moves it unless it is asleep.\<close>

definition own_event :: "nat \<Rightarrow> proc \<Rightarrow> string \<Rightarrow> bool \<Rightarrow> nat \<Rightarrow> lock_event" where
  "own_event i p nonce ok jitter = (if lp_pc p = Ready then Prepare i nonce ok else Call i ok jitter)"

definition asleep :: "int \<Rightarrow> proc \<Rightarrow> bool" where
  "asleep t p = (case lp_pc p of Sleeping u \<Rightarrow> t < u | _ \<Rightarrow> False)"

lemma own_event_moves:
  assumes p: "jm_get (procs s) i = Some p" "acquiring p" "\<not> asleep (clock s) p" and poll: "0 < pollMs opt"
  shows "jm_get (procs (lock_step opt s (own_event i p nonce ok jitter))) i \<noteq> Some p"
proof
  assume stuck: "jm_get (procs (lock_step opt s (own_event i p nonce ok jitter))) i = Some p"
  consider (ready) "lp_pc p = Ready" | (sleep) u where "lp_pc p = Sleeping u" | (call) "\<forall>u. lp_pc p \<noteq> Sleeping u" "lp_pc p \<noteq> Ready"
    by blast
  then show False
  proof cases
    case ready
    have "p\<lparr>lp_pc := RenameCandidate True, lp_owner := owner_name i nonce\<rparr> \<noteq> p" "p\<lparr>lp_pc := Judge Failed\<rparr> \<noteq> p"
      using ready by (metis pc.distinct(1) pc.distinct proc.select_convs(1) proc.surjective proc.update_convs(1,3))+
    with ready p stuck show False
      by (auto simp: own_event_def lock_step_def prepare_def put_simps Let_def split: if_splits)
  next
    case sleep
    have "p\<lparr>lp_pc := Ready\<rparr> \<noteq> p" using sleep by (metis pc.distinct proc.select_convs(1) proc.surjective proc.update_convs(1))
    with sleep p stuck show False
      by (auto simp: own_event_def lock_step_def call_step_def put_simps asleep_def acquiring_def split: if_splits)
  next
    case call
    with stuck p have "jm_get (procs (call_step opt i ok jitter p s)) i = Some p" by (simp add: own_event_def lock_step_def)
    from call_advances [OF p(1) poll p(2) call this] show False by (simp add: advances_def)
  qed
qed

text \<open>C5. A process that begins to take the lock makes at most \<open>16 * (1000 + ceil(timeoutMs / pollMs)) + 14\<close> moves
  before it runs its callback, with or without the lock, or dies, whatever the other processes, the failing
  calls and the clock do in between; and until then it is never stuck: unless it is asleep, its next call
  moves it. So \<^verbatim>\<open>acquire\<close> returns.\<close>
theorem acquire_terminates:
  assumes "0 < pollMs opt" and "jm_get (procs s) i = None"
  shows "acquire_moves opt i (lock_step opt s (Begin i token)) es \<le> 16 * (1000 + nat (ceil_div (timeoutMs opt) (pollMs opt))) + 14
    \<and> (jm_get (procs s') i = Some p \<and> acquiring p \<and> \<not> asleep (clock s') p \<longrightarrow>
        jm_get (procs (lock_step opt s' (own_event i p nonce ok jitter))) i \<noteq> Some p)"
proof -
  let ?s = "lock_step opt s (Begin i token)" and ?p = "new_proc token (clock s)"
  have "jm_get (procs ?s) i = Some ?p" "acquiring ?p" "clock ?s = clock s"
    using assms(2) by (simp_all add: lock_step_def put_simps acquiring_def new_proc_def)
  from acquire_moves_bound [OF this(1,2) assms(1), of es] this(3)
  have "acquire_moves opt i ?s es \<le> 16 * (1000 + nat (ceil_div (timeoutMs opt) (pollMs opt))) + 14"
    by (simp add: effort_def sleeps_left_def new_proc_def MAX_ATTEMPTS_def)
  with own_event_moves [OF _ _ _ assms(1)] show ?thesis by blast
qed

theorem acquire_terminates_witness:
  "acquire_moves sample_opts 2 (lock_step sample_opts (unused 0) (Begin 2 [])) (replicate 5 (Prepare 2 [] False)) \<le> 16078"
proof -
  have "nat (ceil_div (timeoutMs sample_opts) (pollMs sample_opts)) = 4" by (simp add: sample_opts_def ceil_div_def)
  then show ?thesis
    using acquire_terminates [of sample_opts "unused 0" 2 "[]" "replicate 5 (Prepare 2 [] False)"] by (simp add: sample_opts_def unused_def)
qed

end
