(* ===== verification/Atomic_Write.thy ===== *)
theory Atomic_Write
  imports Js_Map
begin

text \<open>
  The two routines that replace a state file: \<^verbatim>\<open>writeFileAtomic\<close> of
  \<^verbatim>\<open>src/src/claude/atomic.ts\<close> and \<^verbatim>\<open>writeFileDurably\<close> of
  \<^verbatim>\<open>services/ultrathink/oauth/oauth.ts\<close>. A disk maps paths to contents. The system calls
  consume a list of outcomes, one each: success (of a write, with the bytes it wrote) or an exception. Where the
  list ends, the process dies and the disk stays as it is, so a statement over all lists is one over
  all failures and all crashes.
\<close>

declare map_of_eq_Some_iff [simp del] Some_eq_map_of_iff [simp del]

type_synonym disk = "(string, string) jmap"

datatype outcome = Ok nat | Fail nat

datatype write_result = Written | Threw | Died

text \<open>One system call: what follows when the process dies at it, when it throws and when it succeeds.\<close>

definition sys_call :: "outcome list \<Rightarrow> 'a \<Rightarrow> (nat \<Rightarrow> outcome list \<Rightarrow> 'a) \<Rightarrow> (outcome list \<Rightarrow> 'a) \<Rightarrow> 'a" where
  "sys_call os died threw ok = (case os of
      [] \<Rightarrow> died
    | Fail n # rest \<Rightarrow> threw n rest
    | Ok _ # rest \<Rightarrow> ok rest)"

definition content :: "disk \<Rightarrow> string \<Rightarrow> string" where
  "content d path = (case jm_get d path of Some c \<Rightarrow> c | None \<Rightarrow> [])"

definition rename_file :: "string \<Rightarrow> string \<Rightarrow> disk \<Rightarrow> disk" where
  "rename_file src dst d = jm_set dst (content d src) (jm_delete src d)"

subsection \<open>The hooks' writer\<close>

text \<open>The \<^verbatim>\<open>catch\<close>: a descriptor still open is closed, the temporary file removed, both at best.\<close>

definition clean_up :: "bool \<Rightarrow> string \<Rightarrow> disk \<Rightarrow> outcome list \<Rightarrow> disk \<times> write_result" where
  "clean_up open_fd tmp d os =
     (let unlink = (\<lambda>os. sys_call os (d, Died) (\<lambda>_ _. (d, Threw)) (\<lambda>_. (jm_delete tmp d, Threw)))
      in if open_fd then sys_call os (d, Died) (\<lambda>_ rest. unlink rest) unlink else unlink os)"

text \<open>\<^verbatim>\<open>while (offset < bytes.length) offset += writeSync(...)\<close>.\<close>

fun write_bytes :: "string \<Rightarrow> string \<Rightarrow> disk \<Rightarrow> outcome list \<Rightarrow> (disk \<Rightarrow> outcome list \<Rightarrow> disk \<times> write_result)
    \<Rightarrow> disk \<times> write_result" where
  "write_bytes tmp rest d [] next = (if rest = [] then next d [] else (d, Died))"
| "write_bytes tmp rest d (o1 # os) next =
     (if rest = [] then next d (o1 # os)
      else case o1 of
        Fail _ \<Rightarrow> clean_up True tmp d os
      | Ok n \<Rightarrow> write_bytes tmp (drop n rest) (jm_set tmp (content d tmp @ take n rest) d) os next)"

definition writeFileAtomic :: "string \<Rightarrow> string \<Rightarrow> string \<Rightarrow> disk \<Rightarrow> outcome list \<Rightarrow> disk \<times> write_result" where
  "writeFileAtomic tmp path bytes d os =
     sys_call os (d, Died) (\<lambda>_. clean_up False tmp d) (\<lambda>os.
     if jm_get d tmp \<noteq> None then sys_call os (d, Died) (\<lambda>_. clean_up False tmp d) (clean_up False tmp d)
     else sys_call os (d, Died) (\<lambda>_. clean_up False tmp d) (\<lambda>os.
     write_bytes tmp bytes (jm_set tmp [] d) os (\<lambda>d os.
     sys_call os (d, Died) (\<lambda>_. clean_up True tmp d) (\<lambda>os.
     sys_call os (d, Died) (\<lambda>_. clean_up False tmp d) (\<lambda>os.
     sys_call os (d, Died) (\<lambda>_. clean_up False tmp d) (\<lambda>os.
     (rename_file tmp path d, Written)))))))"

subsection \<open>The server's writer\<close>

text \<open>The \<^verbatim>\<open>catch\<close> here gives up removing the temporary file when closing it throws.\<close>

definition clean_up_durably :: "string \<Rightarrow> disk \<Rightarrow> outcome list \<Rightarrow> disk \<times> write_result" where
  "clean_up_durably tmp d os = sys_call os (d, Died) (\<lambda>_ _. (d, Threw))
     (\<lambda>os. sys_call os (d, Died) (\<lambda>_ _. (d, Threw)) (\<lambda>_. (jm_delete tmp d, Threw)))"

text \<open>Flushing the directory: a failure is ignored, except one of closing it.\<close>

definition flush_directory :: "disk \<Rightarrow> outcome list \<Rightarrow> disk \<times> write_result" where
  "flush_directory d os =
     (let close = (\<lambda>os. sys_call os (d, Died) (\<lambda>_ _. (d, Threw)) (\<lambda>_. (d, Written)))
      in sys_call os (d, Died) (\<lambda>_ _. (d, Written)) (\<lambda>os. sys_call os (d, Died) (\<lambda>_. close) close))"

text \<open>A \<^verbatim>\<open>writeFileSync\<close> that throws may have written part of the content.\<close>

definition writeFileDurably :: "string \<Rightarrow> string \<Rightarrow> string \<Rightarrow> disk \<Rightarrow> outcome list \<Rightarrow> disk \<times> write_result" where
  "writeFileDurably tmp path text d os =
     sys_call os (d, Died) (\<lambda>_ _. (d, Threw)) (\<lambda>os.
     sys_call os (d, Died) (\<lambda>_ _. (d, Threw)) (\<lambda>os.
     let d = jm_set tmp [] d in
     sys_call os (d, Died) (\<lambda>_. clean_up_durably tmp d) (\<lambda>os.
     sys_call os (d, Died) (\<lambda>n. clean_up_durably tmp (jm_set tmp (take n text) d)) (\<lambda>os.
     let d = jm_set tmp text d in
     sys_call os (d, Died) (\<lambda>_. clean_up_durably tmp d) (\<lambda>os.
     sys_call os (d, Died) (\<lambda>_ _. (d, Threw)) (\<lambda>os.
     sys_call os (d, Died) (\<lambda>_ _. (d, Threw)) (\<lambda>os.
     flush_directory (rename_file tmp path d) os)))))))"

subsection \<open>A file is replaced whole or not at all\<close>

text \<open>Two disks that agree but for the temporary file.\<close>

definition same_but :: "string \<Rightarrow> disk \<Rightarrow> disk \<Rightarrow> bool" where
  "same_but tmp d d' = (\<forall>x. x \<noteq> tmp \<longrightarrow> jm_get d' x = jm_get d x)"

text \<open>The outcome of a replacement that went on from a disk that agrees with \<open>d\<close>.\<close>

definition replaced :: "string \<Rightarrow> string \<Rightarrow> string \<Rightarrow> disk \<Rightarrow> disk \<times> write_result \<Rightarrow> bool" where
  "replaced tmp path new d r =
     (same_but tmp d (fst r) \<and> snd r \<noteq> Written
      \<or> snd r \<noteq> Threw \<and> jm_get (fst r) path = Some new \<and> jm_get (fst r) tmp = None \<and>
        (\<forall>x. x \<noteq> tmp \<and> x \<noteq> path \<longrightarrow> jm_get (fst r) x = jm_get d x))"

lemma same_but_simps [simp]:
  "same_but tmp d d" "same_but tmp d (jm_set tmp c d') = same_but tmp d d'" "same_but tmp d (jm_delete tmp d') = same_but tmp d d'"
  by (simp_all add: same_but_def update_conv' delete_conv')

lemma replaced_sys_call:
  "replaced tmp path new d died \<Longrightarrow> (\<And>n os. replaced tmp path new d (threw n os)) \<Longrightarrow> (\<And>os. replaced tmp path new d (ok os)) \<Longrightarrow>
    replaced tmp path new d (sys_call os died threw ok)"
  by (simp add: sys_call_def split: list.split outcome.split)

lemma replaced_stop:
  "same_but tmp d d' \<Longrightarrow> replaced tmp path new d (d', Died)" "same_but tmp d d' \<Longrightarrow> replaced tmp path new d (d', Threw)"
  by (simp_all add: replaced_def)

lemma content_set [simp]: "content (jm_set tmp c d) tmp = c"
  by (simp add: content_def update_conv')

lemma replaced_clean_up: "same_but tmp d d' \<Longrightarrow> replaced tmp path new d (clean_up fd tmp d' os)"
  unfolding clean_up_def Let_def by (auto intro!: replaced_sys_call replaced_stop)

lemma replaced_rename:
  "same_but tmp d d' \<Longrightarrow> tmp \<noteq> path \<Longrightarrow> content d' tmp = new \<Longrightarrow> replaced tmp path new d (rename_file tmp path d', Written)"
  by (auto simp: replaced_def rename_file_def same_but_def update_conv' delete_conv')

lemma replaced_write_bytes:
  "(\<And>d' os. same_but tmp d d' \<Longrightarrow> content d' tmp = new \<Longrightarrow> replaced tmp path new d (next d' os)) \<Longrightarrow>
    same_but tmp d d' \<Longrightarrow> content d' tmp @ rest = new \<Longrightarrow> replaced tmp path new d (write_bytes tmp rest d' os next)"
proof (induction tmp rest d' os "next" rule: write_bytes.induct)
  case (1 tmp rest d' "next")
  then show ?case by (auto intro: replaced_stop)
next
  case (2 tmp rest d' o1 os "next")
  show ?case
  proof (cases "rest = []")
    case True
    with 2 show ?thesis by simp
  next
    case False
    with 2 show ?thesis by (cases o1) (auto intro!: replaced_clean_up)
  qed
qed

lemmas replaced_intros = replaced_sys_call replaced_stop replaced_clean_up replaced_rename

text \<open>C6. Whatever system call of \<^verbatim>\<open>writeFileAtomic\<close> fails, whatever the writes' lengths are and
  wherever the process dies, the target holds its old content or the new one, whole, and every other
  file but the temporary one is as it was. When the routine returns, the target is new and the temporary file gone;
  when it throws, the target is old.\<close>
theorem writeFileAtomic_replaces:
  assumes "tmp \<noteq> path" "writeFileAtomic tmp path bytes d os = (d', r)"
  shows "(jm_get d' path = jm_get d path \<or> jm_get d' path = Some bytes)
    \<and> (r = Written \<longrightarrow> jm_get d' path = Some bytes \<and> jm_get d' tmp = None)
    \<and> (r = Threw \<longrightarrow> jm_get d' path = jm_get d path)
    \<and> (x \<noteq> tmp \<and> x \<noteq> path \<longrightarrow> jm_get d' x = jm_get d x)"
proof -
  have "replaced tmp path bytes d (writeFileAtomic tmp path bytes d os)"
    unfolding writeFileAtomic_def using assms(1) by (auto intro!: replaced_intros replaced_write_bytes)
  with assms show ?thesis by (auto simp: replaced_def same_but_def)
qed

theorem writeFileAtomic_replaces_witness:
  "jm_get (fst (writeFileAtomic ''t'' ''p'' ''abcd'' [(''p'', ''old'')] [Ok 0, Ok 0, Ok 3, Ok 1, Ok 0, Ok 0, Ok 0])) ''p'' = Some ''abcd''"
proof -
  obtain d' r where w: "writeFileAtomic ''t'' ''p'' ''abcd'' [(''p'', ''old'')] [Ok 0, Ok 0, Ok 3, Ok 1, Ok 0, Ok 0, Ok 0] = (d', r)"
    by fastforce
  then have "r = Written" by (auto simp: writeFileAtomic_def sys_call_def)
  with writeFileAtomic_replaces [OF _ w] w show ?thesis by simp
qed

text \<open>The server's writer gives the same, except that an exception may come after the replacement, from closing
  the directory.\<close>

lemma writeFileDurably_replaces:
  assumes "tmp \<noteq> path" "writeFileDurably tmp path text d os = (d', r)"
  shows "(jm_get d' path = jm_get d path \<or> jm_get d' path = Some text)
    \<and> (r = Written \<longrightarrow> jm_get d' path = Some text \<and> jm_get d' tmp = None)
    \<and> (x \<noteq> tmp \<and> x \<noteq> path \<longrightarrow> jm_get d' x = jm_get d x)"
  using assms
  by (auto simp: writeFileDurably_def clean_up_durably_def flush_directory_def sys_call_def rename_file_def Let_def update_conv' delete_conv'
      split: list.splits outcome.splits)

end
