(* ===== verification/Run_Store.thy ===== *)
theory Run_Store
  imports Token_Ledger "HOL-Library.List_Lexorder" "HOL-Library.Char_ord" "HOL-Library.Product_Lexorder"
begin

text \<open>
  The table of runs and their recorded phases, \<^verbatim>\<open>services/ultrathink/store/store.ts\<close>. A table is
  a list of records in rowid order, a query a filter and a stable sort on it, an update a map over it.
  A statement that the database refuses (disk, lock) throws and changes nothing; the callers' theories make
  that an input. Text columns compare by code unit, as SQLite's binary collation does.
\<close>

subsection \<open>Runs\<close>

datatype run_status =
    Queued | Discovering | Discussing | Planning | Executing
  | PausedForDecision | PausedForBlocker | RunComplete | RunFailed

record run =
  rn_id :: string
  rn_ownerId :: string
  rn_request :: string
  rn_route :: string
  rn_status :: run_status
  rn_currentPhase :: "string option"
  rn_reason :: "string option"
  rn_createdAt :: int
  rn_updatedAt :: int

datatype phase_status = PhaseComplete | PhaseFailed

record phase_record =
  pr_runId :: string
  pr_phase :: string
  pr_attempt :: int
  pr_status :: phase_status
  pr_output :: "string option"
  pr_createdAt :: int

record run_store =
  st_runs :: "run list"
  st_phases :: "phase_record list"

datatype store_error = DuplicatePhase | ConstraintFailed

record run_input =
  in_ownerId :: string
  in_request :: string
  in_route :: string

record run_patch =
  pt_status :: "run_status option"
  pt_currentPhase :: "string option option"
  pt_reason :: "string option option"

definition no_patch :: run_patch where
  "no_patch = \<lparr>pt_status = None, pt_currentPhase = None, pt_reason = None\<rparr>"

definition empty_store :: run_store where
  "empty_store = \<lparr>st_runs = [], st_phases = []\<rparr>"

subsection \<open>Operations\<close>

text \<open>\<^verbatim>\<open>Math.min(100, Math.max(1, Math.trunc(limit)))\<close>, and 1 for NaN.\<close>

definition clamp_run_limit :: "js_num \<Rightarrow> nat" where
  "clamp_run_limit n = (case n of
      NaN \<Rightarrow> 1
    | PosInf \<Rightarrow> 100
    | NegInf \<Rightarrow> 1
    | Fin q \<Rightarrow> nat (min 100 (max 1 (if 0 \<le> q then \<lfloor>q\<rfloor> else \<lceil>q\<rceil>))))"

definition run_exists :: "run_store \<Rightarrow> string \<Rightarrow> bool" where
  "run_exists s i = list_ex (\<lambda>r. rn_id r = i) (st_runs s)"

text \<open>The id is the UUID the call draws; the primary key refuses one that is taken.\<close>

definition createRun :: "string \<Rightarrow> int \<Rightarrow> run_input \<Rightarrow> run_store \<Rightarrow> run_store \<times> (store_error + run)" where
  "createRun uuid t inp s =
     (let r = \<lparr>rn_id = uuid, rn_ownerId = in_ownerId inp, rn_request = in_request inp, rn_route = in_route inp,
          rn_status = Queued, rn_currentPhase = None, rn_reason = None, rn_createdAt = t, rn_updatedAt = t\<rparr>
      in if run_exists s uuid then (s, Inl ConstraintFailed)
         else (s\<lparr>st_runs := st_runs s @ [r]\<rparr>, Inr r))"

definition getRunForOwner :: "string \<Rightarrow> string \<Rightarrow> run_store \<Rightarrow> run option" where
  "getRunForOwner i own s = find (\<lambda>r. rn_id r = i \<and> rn_ownerId r = own) (st_runs s)"

text \<open>\<^verbatim>\<open>ORDER BY created_at DESC, rowid DESC LIMIT ?\<close>.\<close>

definition listRunsForOwner :: "string \<Rightarrow> js_num \<Rightarrow> run_store \<Rightarrow> run list" where
  "listRunsForOwner own n s =
     take (clamp_run_limit n) (sort_key (\<lambda>r. - rn_createdAt r) (rev (filter (\<lambda>r. rn_ownerId r = own) (st_runs s))))"

definition patch_run :: "int \<Rightarrow> run_patch \<Rightarrow> run \<Rightarrow> run" where
  "patch_run t p r = r\<lparr>
     rn_updatedAt := t,
     rn_status := (case pt_status p of Some x \<Rightarrow> x | None \<Rightarrow> rn_status r),
     rn_currentPhase := (case pt_currentPhase p of Some x \<Rightarrow> x | None \<Rightarrow> rn_currentPhase r),
     rn_reason := (case pt_reason p of Some x \<Rightarrow> x | None \<Rightarrow> rn_reason r)\<rparr>"

definition updateRun :: "int \<Rightarrow> string \<Rightarrow> run_patch \<Rightarrow> run_store \<Rightarrow> run_store" where
  "updateRun t i p s = s\<lparr>st_runs := map (\<lambda>r. if rn_id r = i then patch_run t p r else r) (st_runs s)\<rparr>"

definition recordPhase :: "int \<Rightarrow> phase_record \<Rightarrow> run_store \<Rightarrow> run_store \<times> (store_error + unit)" where
  "recordPhase t inp s =
     (if list_ex (\<lambda>q. pr_runId q = pr_runId inp \<and> pr_phase q = pr_phase inp \<and> pr_attempt q = pr_attempt inp) (st_phases s)
      then (s, Inl DuplicatePhase)
      else if \<not> run_exists s (pr_runId inp) then (s, Inl ConstraintFailed)
      else (s\<lparr>st_phases := st_phases s @ [inp\<lparr>pr_createdAt := t\<rparr>]\<rparr>, Inr ()))"

definition getPhase :: "string \<Rightarrow> string \<Rightarrow> int \<Rightarrow> run_store \<Rightarrow> phase_record option" where
  "getPhase i ph att s = find (\<lambda>q. pr_runId q = i \<and> pr_phase q = ph \<and> pr_attempt q = att) (st_phases s)"

definition listPhases :: "string \<Rightarrow> run_store \<Rightarrow> phase_record list" where
  "listPhases i s = sort_key (\<lambda>q. (pr_createdAt q, pr_phase q, pr_attempt q)) (filter (\<lambda>q. pr_runId q = i) (st_phases s))"

subsection \<open>Pruning old runs\<close>

text \<open>
  \<^verbatim>\<open>store/retention.ts\<close>: \<open>pruneRuns\<close> finds the child tables through the foreign keys to
  \<^verbatim>\<open>runs\<close>. A child table is here its rows and the column that refers to a run.
\<close>

record prune_options =
  cutoffMs :: int
  today :: string

definition doomed :: "prune_options \<Rightarrow> token_ledger \<Rightarrow> run list \<Rightarrow> string list" where
  "doomed opts led runs =
     (let kept = map lr_run (filter (\<lambda>r. today opts \<le> lr_day r) (tl_rows led))
      in map rn_id (filter (\<lambda>r. rn_updatedAt r < cutoffMs opts \<and> rn_id r \<notin> set kept) runs))"

definition prune_child :: "string list \<Rightarrow> ('r \<Rightarrow> string) \<Rightarrow> 'r list \<Rightarrow> 'r list \<times> nat" where
  "prune_child gone column rows =
     (filter (\<lambda>r. column r \<notin> set gone) rows, length (filter (\<lambda>r. column r \<in> set gone) rows))"

subsection \<open>What the operations keep\<close>

definition store_wf :: "run_store \<Rightarrow> bool" where
  "store_wf s \<longleftrightarrow> distinct (map rn_id (st_runs s))
     \<and> distinct (map (\<lambda>q. (pr_runId q, pr_phase q, pr_attempt q)) (st_phases s))
     \<and> (\<forall>q \<in> set (st_phases s). run_exists s (pr_runId q))"

lemma run_exists_iff: "run_exists s i \<longleftrightarrow> i \<in> rn_id ` set (st_runs s)"
  by (auto simp: run_exists_def list_ex_iff)

lemma patch_run_id [simp]: "rn_id (patch_run t p r) = rn_id r"
  and patch_run_owner [simp]: "rn_ownerId (patch_run t p r) = rn_ownerId r"
  and patch_run_request [simp]: "rn_request (patch_run t p r) = rn_request r"
  and patch_run_created [simp]: "rn_createdAt (patch_run t p r) = rn_createdAt r"
  by (simp_all add: patch_run_def)

lemma patch_run_status: "rn_status (patch_run t p r) = (case pt_status p of Some x \<Rightarrow> x | None \<Rightarrow> rn_status r)"
  by (simp add: patch_run_def)

lemma updateRun_ids: "map rn_id (st_runs (updateRun t i p s)) = map rn_id (st_runs s)"
  by (simp add: updateRun_def comp_def if_distrib cong: if_cong)

lemma updateRun_phases [simp]: "st_phases (updateRun t i p s) = st_phases s"
  by (simp add: updateRun_def)

lemma updateRun_exists [simp]: "run_exists (updateRun t i p s) j = run_exists s j"
  using updateRun_ids [of t i p s] by (metis run_exists_iff set_map)

lemma updateRun_wf: "store_wf s \<Longrightarrow> store_wf (updateRun t i p s)"
  by (simp add: store_wf_def updateRun_ids)

lemma createRun_wf: "store_wf s \<Longrightarrow> store_wf (fst (createRun uuid t inp s))"
  by (auto simp: store_wf_def createRun_def Let_def run_exists_iff)

lemma recordPhase_wf: "store_wf s \<Longrightarrow> store_wf (fst (recordPhase t q s))"
  by (auto simp: store_wf_def recordPhase_def run_exists_iff list_ex_iff)

lemma listPhases_set: "set (listPhases i s) = {q \<in> set (st_phases s). pr_runId q = i}"
  by (simp add: listPhases_def)

lemma prune_child_set: "set (fst (prune_child gone col rows)) = {r \<in> set rows. col r \<notin> set gone}"
  by (simp add: prune_child_def)

lemma clamp_run_limit_bounds: "1 \<le> clamp_run_limit n \<and> clamp_run_limit n \<le> 100"
  by (cases n) (auto simp: clamp_run_limit_def)

text \<open>The runs an owner is shown are the owner's, at most a hundred, newest first and, at the same
  millisecond, the later insertion first.\<close>

lemma sorted_wrt_take_key: "sorted_wrt R xs \<Longrightarrow> sorted_wrt R (take n xs)"
  by (metis append_take_drop_id sorted_wrt_append)

lemma listRunsForOwner_newest:
  "set (listRunsForOwner own n s) \<subseteq> {r \<in> set (st_runs s). rn_ownerId r = own}
   \<and> length (listRunsForOwner own n s) = min (clamp_run_limit n) (length (filter (\<lambda>r. rn_ownerId r = own) (st_runs s)))
   \<and> sorted_wrt (\<lambda>a b. rn_createdAt b \<le> rn_createdAt a) (listRunsForOwner own n s)"
proof -
  define xs where "xs = sort_key (\<lambda>r. - rn_createdAt r) (rev (filter (\<lambda>r. rn_ownerId r = own) (st_runs s)))"
  have "sorted (map (\<lambda>r. - rn_createdAt r) xs)" by (simp add: xs_def)
  then have "sorted_wrt (\<lambda>a b. rn_createdAt b \<le> rn_createdAt a) xs" by (simp add: sorted_map)
  moreover have "set xs = {r \<in> set (st_runs s). rn_ownerId r = own}"
    "length xs = length (filter (\<lambda>r. rn_ownerId r = own) (st_runs s))" by (auto simp: xs_def)
  moreover have "set (take (clamp_run_limit n) xs) \<subseteq> set xs" by (rule set_take_subset)
  ultimately show ?thesis
    by (auto simp: listRunsForOwner_def xs_def [symmetric] sorted_wrt_take_key)
qed

text \<open>A patch writes the named columns of one run and leaves every other run as it is.\<close>

lemma updateRun_lookup:
  "find (\<lambda>r. rn_id r = j) (st_runs (updateRun t i p s)) =
     map_option (if j = i then patch_run t p else id) (find (\<lambda>r. rn_id r = j) (st_runs s))"
proof -
  have "find (\<lambda>r. rn_id r = j) (map (\<lambda>r. if rn_id r = i then patch_run t p r else r) rs)
      = map_option (if j = i then patch_run t p else id) (find (\<lambda>r. rn_id r = j) rs)" for rs
    by (induction rs) auto
  then show ?thesis by (simp add: updateRun_def)
qed

end
