(* ===== verification/Worker.thy ===== *)
theory Worker
  imports Worker_Prompt Machine
begin

text \<open>
  The planning worker, \<^verbatim>\<open>services/ultrathink/worker/worker.ts\<close>, with the tables it shares
  through SQLite. Any number of workers run, one per holder id, each in its own process: a worker's
  program counter \<open>wpc\<close> stands before its next database transaction, file write or wait, and a
  move executes that one operation, so that the moves of different workers interleave at every point where
  the database serialises them. An operation's \<open>io\<close> says whether it works, throws, or (a file write)
  throws after its rename; the model's answers are inputs. A heartbeat is a move of its own, possible while
  the model is called or waited for; a crash drops the program counter and leaves the tables as they are.
  A move reads the clock once. Timer lengths and the polling loop are not modelled: a move may come at any time.
\<close>

subsection \<open>State\<close>

record decision_row =
  dc_id :: nat
  dc_run :: string
  dc_phase :: string
  dc_attempt :: int
  dc_question :: string
  dc_options :: "decision_option list"
  dc_default :: "string option"
  dc_answer :: "string option"
  dc_createdAt :: int

text \<open>A lease is its holder and its expiry; an artifact is a run's file for a phase.\<close>

record world =
  w_store :: run_store
  w_leases :: "(string, string \<times> int) jmap"
  w_decisions :: "decision_row list"
  w_dseq :: nat
  w_ledger :: token_ledger
  w_files :: "(string \<times> phase, string) jmap"

record worker_options =
  wo_leaseMs :: int
  wo_maxModelAttempts :: int
  wo_limits :: ledger_limits
  wo_json :: "string \<Rightarrow> js option"

datatype worker_error = LeaseLost | Thrown

datatype tick_result = TickIdle | TickPaused | TickComplete | TickFailed

datatype io = Works | Fails | FailsLate

record job =
  jb_run :: string
  jb_request :: string
  jb_todo :: "phase list"
  jb_outputs :: "(phase, string) jmap"
  jb_reservation :: "nat option"

text \<open>The last argument of \<open>Calling\<close> and \<open>Backoff\<close> is the heartbeat's error.\<close>

datatype wpc =
    Idle
  | Claimed job
  | Sweeping job "nat list"
  | Loading job
  | Looping job
  | Counting job phase
  | Asking job phase int
  | Reserving job phase int string
  | Marking job phase int string
  | Calling job phase int string nat "worker_error option"
  | Backoff job phase int string nat "worker_error option"
  | Committing job phase int string js_num
  | Saving job phase string
  | Ending job run_patch tick_result bool
  | Releasing job tick_result
  | Lost job
  | Leaving job "tick_result option"

datatype model_reply = NoReply | ModelText string js_num | ModelError | LeaseRejection

subsection \<open>Leases\<close>

definition claimable :: "int \<Rightarrow> world \<Rightarrow> run \<Rightarrow> bool" where
  "claimable t w r \<longleftrightarrow>
     (case jm_get (w_leases w) (rn_id r) of None \<Rightarrow> True | Some l \<Rightarrow> snd l < t)
     \<and> rn_status r \<in> {Queued, Discovering, Discussing, Planning, Executing}"

definition claimNext :: "worker_options \<Rightarrow> string \<Rightarrow> int \<Rightarrow> world \<Rightarrow> world \<times> (string \<times> string) option" where
  "claimNext opts h t w =
     (case sort_key (\<lambda>r. (rn_createdAt r, rn_id r)) (filter (claimable t w) (st_runs (w_store w))) of
        [] \<Rightarrow> (w, None)
      | r # _ \<Rightarrow> (w\<lparr>w_leases := jm_set (rn_id r) (h, t + wo_leaseMs opts) (w_leases w)\<rparr>, Some (rn_id r, rn_request r)))"

definition renewLease :: "worker_options \<Rightarrow> string \<Rightarrow> string \<Rightarrow> int \<Rightarrow> world \<Rightarrow> world \<times> (worker_error + unit)" where
  "renewLease opts h i t w =
     (case jm_get (w_leases w) i of
        None \<Rightarrow> (w, Inl LeaseLost)
      | Some l \<Rightarrow> if fst l = h then (w\<lparr>w_leases := jm_set i (h, t + wo_leaseMs opts) (w_leases w)\<rparr>, Inr ())
          else (w, Inl LeaseLost))"

definition releaseLease :: "string \<Rightarrow> string \<Rightarrow> world \<Rightarrow> world" where
  "releaseLease h i w =
     (case jm_get (w_leases w) i of
        None \<Rightarrow> w
      | Some l \<Rightarrow> if fst l = h then w\<lparr>w_leases := jm_delete i (w_leases w)\<rparr> else w)"

subsection \<open>Reservations\<close>

definition abandonReservation :: "io \<Rightarrow> nat \<Rightarrow> world \<Rightarrow> world \<times> (worker_error + unit)" where
  "abandonReservation ok rid w =
     (if ok \<noteq> Works then (w, Inl Thrown)
      else case find (\<lambda>r. lr_id r = rid) (tl_rows (w_ledger w)) of
        None \<Rightarrow> (w, Inr ())
      | Some r \<Rightarrow>
          if lr_state r \<noteq> Reserved then (w, Inr ())
          else (case ledger_abandon True rid (w_ledger w) of
              (l, Inr _) \<Rightarrow> (w\<lparr>w_ledger := l\<rparr>, Inr ())
            | (_, Inl _) \<Rightarrow> (w, Inl Thrown)))"

definition deadReservations :: "string \<Rightarrow> world \<Rightarrow> nat list" where
  "deadReservations i w = sort (map lr_id (filter (\<lambda>r. lr_run r = i \<and> lr_state r = Reserved) (tl_rows (w_ledger w))))"

subsection \<open>Reading the tables\<close>

definition completedOutputs :: "string \<Rightarrow> world \<Rightarrow> (phase, string) jmap" where
  "completedOutputs i w = foldl (\<lambda>outputs q.
       if pr_status q = PhaseComplete then
         (case isPhase (pr_phase q) of
            Some p \<Rightarrow> jm_set p (case pr_output q of Some x \<Rightarrow> x | None \<Rightarrow> []) outputs
          | None \<Rightarrow> outputs)
       else outputs) [] (listPhases i (w_store w))"

definition nextAttempt :: "string \<Rightarrow> phase \<Rightarrow> world \<Rightarrow> int" where
  "nextAttempt i p w =
     (case map lr_attempt (filter (\<lambda>r. lr_run r = i \<and> lr_phase r = phase_name p) (tl_rows (w_ledger w))) of
        [] \<Rightarrow> 0
      | a # as \<Rightarrow> foldl max a as) + 1"

text \<open>\<^verbatim>\<open>\<dots> ORDER BY id DESC LIMIT 1\<close>.\<close>

definition newest_row :: "(decision_row \<Rightarrow> bool) \<Rightarrow> world \<Rightarrow> decision_row option" where
  "newest_row P w = (case rev (sort_key dc_id (filter P (w_decisions w))) of [] \<Rightarrow> None | d # _ \<Rightarrow> Some d)"

definition latestAnswer :: "string \<Rightarrow> phase \<Rightarrow> world \<Rightarrow> owner_answer option" where
  "latestAnswer i p w =
     (case newest_row (\<lambda>d. dc_run d = i \<and> dc_phase d = phase_name p \<and> dc_answer d \<noteq> None) w of
        None \<Rightarrow> None
      | Some d \<Rightarrow> map_option (\<lambda>a. \<lparr>oa_question = dc_question d, oa_answer = a\<rparr>) (dc_answer d))"

definition pendingQuestion :: "string \<Rightarrow> phase \<Rightarrow> world \<Rightarrow> string option" where
  "pendingQuestion i p w =
     map_option dc_question (newest_row (\<lambda>d. dc_run d = i \<and> dc_phase d = phase_name p \<and> dc_answer d = None) w)"

subsection \<open>Transactions of a phase\<close>

definition patch_store :: "int \<Rightarrow> string \<Rightarrow> run_patch \<Rightarrow> world \<Rightarrow> world" where
  "patch_store t i p w = w\<lparr>w_store := updateRun t i p (w_store w)\<rparr>"

definition setTerminalStatus :: "worker_options \<Rightarrow> string \<Rightarrow> int \<Rightarrow> io \<Rightarrow> string \<Rightarrow> run_patch \<Rightarrow> world
    \<Rightarrow> world \<times> (worker_error + unit)" where
  "setTerminalStatus opts h t ok i p w =
     (if ok \<noteq> Works then (w, Inl Thrown)
      else case renewLease opts h i t w of
        (_, Inl e) \<Rightarrow> (w, Inl e)
      | (w', Inr _) \<Rightarrow> (patch_store t i p w', Inr ()))"

definition settle_in :: "nat \<Rightarrow> js_num \<Rightarrow> world \<Rightarrow> world \<times> (worker_error + unit)" where
  "settle_in rid tokens w = (case ledger_settle True rid tokens (w_ledger w) of
      (l, Inr _) \<Rightarrow> (w\<lparr>w_ledger := l\<rparr>, Inr ())
    | (_, Inl _) \<Rightarrow> (w, Inl Thrown))"

definition insertDecision :: "int \<Rightarrow> string \<Rightarrow> phase \<Rightarrow> int \<Rightarrow> parsed_decision \<Rightarrow> world \<Rightarrow> world \<times> (worker_error + unit)" where
  "insertDecision t i p att d w =
     (if list_ex (\<lambda>x. dc_run x = i \<and> dc_phase x = phase_name p \<and> dc_attempt x = att) (w_decisions w)
          \<or> \<not> run_exists (w_store w) i
      then (w, Inl Thrown)
      else (w\<lparr>w_decisions := w_decisions w @ [\<lparr>dc_id = w_dseq w + 1, dc_run = i, dc_phase = phase_name p,
               dc_attempt = att, dc_question = pd_question d, dc_options = pd_options d,
               dc_default = Some (pd_default d), dc_answer = None, dc_createdAt = t\<rparr>],
             w_dseq := w_dseq w + 1\<rparr>, Inr ()))"

definition and_then :: "world \<times> (worker_error + unit) \<Rightarrow> (world \<Rightarrow> world \<times> (worker_error + unit)) \<Rightarrow> world \<times> (worker_error + unit)" where
  "and_then r f = (case r of (w, Inr _) \<Rightarrow> f w | (w, Inl e) \<Rightarrow> (w, Inl e))"

text \<open>\<^verbatim>\<open>db.transaction(\<dots>).immediate()\<close>: whatever throws rolls everything back.\<close>

definition transact :: "io \<Rightarrow> (world \<Rightarrow> world \<times> (worker_error + unit)) \<Rightarrow> world \<Rightarrow> world \<times> (worker_error + unit)" where
  "transact ok f w = (if ok \<noteq> Works then (w, Inl Thrown)
     else case f w of (w', Inr _) \<Rightarrow> (w', Inr ()) | (_, Inl e) \<Rightarrow> (w, Inl e))"

definition commitDecision :: "worker_options \<Rightarrow> string \<Rightarrow> int \<Rightarrow> string \<Rightarrow> phase \<Rightarrow> int \<Rightarrow> nat \<Rightarrow> js_num
    \<Rightarrow> parsed_decision \<Rightarrow> world \<Rightarrow> world \<times> (worker_error + unit)" where
  "commitDecision opts h t i p att rid tokens d w =
     and_then (renewLease opts h i t w) (\<lambda>w.
     and_then (settle_in rid tokens w) (\<lambda>w.
     and_then (insertDecision t i p att d w) (\<lambda>w.
       (patch_store t i \<lparr>pt_status = Some PausedForDecision, pt_currentPhase = None,
          pt_reason = Some (Some (pd_question d))\<rparr> w, Inr ()))))"

definition commitPhase :: "worker_options \<Rightarrow> string \<Rightarrow> int \<Rightarrow> string \<Rightarrow> phase \<Rightarrow> int \<Rightarrow> nat \<Rightarrow> js_num
    \<Rightarrow> string \<Rightarrow> world \<Rightarrow> world \<times> (worker_error + unit)" where
  "commitPhase opts h t i p att rid tokens text w =
     and_then (renewLease opts h i t w) (\<lambda>w.
     and_then (case recordPhase t \<lparr>pr_runId = i, pr_phase = phase_name p, pr_attempt = att,
           pr_status = PhaseComplete, pr_output = Some text, pr_createdAt = t\<rparr> (w_store w) of
         (s, Inr _) \<Rightarrow> (w\<lparr>w_store := s\<rparr>, Inr ()) | (_, Inl _) \<Rightarrow> (w, Inl Thrown)) (\<lambda>w.
       settle_in rid tokens w))"

definition writeArtifact :: "string \<Rightarrow> phase \<Rightarrow> string \<Rightarrow> io \<Rightarrow> world \<Rightarrow> world" where
  "writeArtifact i p text ok w = (if ok = Fails then w else w\<lparr>w_files := jm_set (i, p) text (w_files w)\<rparr>)"

subsection \<open>A worker's moves\<close>

text \<open>Where an exception goes: the catch of \<^verbatim>\<open>tickOnce\<close> for a lost lease, else its finally.\<close>

definition throw_to :: "job \<Rightarrow> worker_error \<Rightarrow> wpc" where
  "throw_to j e = (case e of LeaseLost \<Rightarrow> Lost j | Thrown \<Rightarrow> Leaving j None)"

definition pause :: "run_status \<Rightarrow> string \<Rightarrow> run_patch" where
  "pause s why = \<lparr>pt_status = Some s, pt_currentPhase = None, pt_reason = Some (Some why)\<rparr>"

definition loop_move :: "io \<Rightarrow> job \<Rightarrow> world \<Rightarrow> world \<times> wpc" where
  "loop_move ok j w = (case jb_todo j of
      [] \<Rightarrow> (w, Ending j \<lparr>pt_status = Some RunComplete, pt_currentPhase = Some None, pt_reason = None\<rparr> TickComplete False)
    | p # ps \<Rightarrow> (case jm_get (jb_outputs j) p of
        Some output \<Rightarrow>
          if jm_get (w_files w) (jb_run j, p) = Some output then (w, Looping (j\<lparr>jb_todo := ps\<rparr>))
          else (writeArtifact (jb_run j) p output ok w,
                if ok = Works then Looping (j\<lparr>jb_todo := ps\<rparr>) else Leaving j None)
      | None \<Rightarrow>
          if ok \<noteq> Works then (w, Leaving j None)
          else (case pendingQuestion (jb_run j) p w of
              Some q \<Rightarrow> (w, Ending j (pause PausedForDecision q) TickPaused False)
            | None \<Rightarrow> (w, Counting j p))))"

definition reserve_move :: "worker_options \<Rightarrow> int \<Rightarrow> io \<Rightarrow> job \<Rightarrow> phase \<Rightarrow> int \<Rightarrow> string \<Rightarrow> world \<Rightarrow> world \<times> wpc" where
  "reserve_move opts t ok j p att prompt w =
     (case ledger_reserve (wo_limits opts) (run_exists (w_store w)) (ok = Works)
         \<lparr>ri_runId = jb_run j, ri_phase = phase_name p, ri_attempt = att,
          ri_estimatedTokens = Fin (of_int (estimatedTokens (SYSTEM_PROMPTS p) prompt))\<rparr> t (w_ledger w) of
       (l, Inr rid) \<Rightarrow> (w\<lparr>w_ledger := l\<rparr>, Marking (j\<lparr>jb_reservation := Some rid\<rparr>) p att prompt)
     | (_, Inl CeilingRun) \<Rightarrow> (w, Ending j (pause RunFailed ''run_token_ceiling'') TickFailed False)
     | (_, Inl CeilingDay) \<Rightarrow> (w, Ending j (pause PausedForBlocker ''daily_token_ceiling'') TickPaused False)
     | (_, Inl ReservationWrite) \<Rightarrow> (w, Ending j (pause PausedForBlocker ''ledger_unavailable'') TickPaused False)
     | (_, Inl _) \<Rightarrow> (w, Leaving j None))"

definition call_move :: "worker_options \<Rightarrow> model_reply \<Rightarrow> job \<Rightarrow> phase \<Rightarrow> int \<Rightarrow> string \<Rightarrow> nat \<Rightarrow> worker_error option \<Rightarrow> wpc" where
  "call_move opts reply j p att prompt n beat = (case reply of
      NoReply \<Rightarrow> Calling j p att prompt n beat
    | ModelText text tokens \<Rightarrow> Committing j p att text tokens
    | ModelError \<Rightarrow> (case beat of
        Some e \<Rightarrow> throw_to j e
      | None \<Rightarrow> if wo_maxModelAttempts opts \<le> int n then Ending j (pause PausedForBlocker ''model_unavailable'') TickPaused True
          else Backoff j p att prompt n beat)
    | LeaseRejection \<Rightarrow> (case beat of Some e \<Rightarrow> throw_to j e | None \<Rightarrow> Calling j p att prompt n beat))"

definition commit_move :: "worker_options \<Rightarrow> string \<Rightarrow> int \<Rightarrow> io \<Rightarrow> job \<Rightarrow> phase \<Rightarrow> int \<Rightarrow> string \<Rightarrow> js_num
    \<Rightarrow> world \<Rightarrow> world \<times> wpc" where
  "commit_move opts h t ok j p att text tokens w =
     (case jb_reservation j of
        None \<Rightarrow> (w, Leaving j None)
      | Some rid \<Rightarrow> (case parseDecision (wo_json opts) text of
          Some d \<Rightarrow> (case transact ok (commitDecision opts h t (jb_run j) p att rid tokens d) w of
              (w', Inr _) \<Rightarrow> (w', Leaving (j\<lparr>jb_reservation := None\<rparr>) (Some TickPaused))
            | (w', Inl e) \<Rightarrow> (w', throw_to j e))
        | None \<Rightarrow> (case transact ok (commitPhase opts h t (jb_run j) p att rid tokens text) w of
              (w', Inr _) \<Rightarrow> (w', Saving (j\<lparr>jb_reservation := None\<rparr>) p text)
            | (w', Inl e) \<Rightarrow> (w', throw_to j e))))"

definition release_move :: "io \<Rightarrow> job \<Rightarrow> tick_result \<Rightarrow> world \<Rightarrow> world \<times> wpc" where
  "release_move ok j res w = (case jb_reservation j of
      None \<Rightarrow> (w, Leaving j (Some res))
    | Some rid \<Rightarrow> (case abandonReservation ok rid w of
        (w', Inr _) \<Rightarrow> (w', Leaving (j\<lparr>jb_reservation := None\<rparr>) (Some res))
      | (w', Inl e) \<Rightarrow> (w', Leaving j None)))"

fun worker_move :: "worker_options \<Rightarrow> string \<Rightarrow> int \<Rightarrow> io \<Rightarrow> model_reply \<Rightarrow> wpc \<Rightarrow> world \<Rightarrow> world \<times> wpc" where
  "worker_move opts h t ok reply Idle w =
     (if ok \<noteq> Works then (w, Idle)
      else case claimNext opts h t w of
        (w', None) \<Rightarrow> (w', Idle)
      | (w', Some (i, req)) \<Rightarrow>
          (w', Claimed \<lparr>jb_run = i, jb_request = req, jb_todo = PHASES, jb_outputs = [], jb_reservation = None\<rparr>))"
| "worker_move opts h t ok reply (Claimed j) w =
     (w, if ok \<noteq> Works then Leaving j None else Sweeping j (deadReservations (jb_run j) w))"
| "worker_move opts h t ok reply (Sweeping j []) w = (w, Loading j)"
| "worker_move opts h t ok reply (Sweeping j (i # is)) w =
     (case abandonReservation ok i w of
        (w', Inr _) \<Rightarrow> (w', Sweeping j is)
      | (w', Inl e) \<Rightarrow> (w', throw_to j e))"
| "worker_move opts h t ok reply (Loading j) w =
     (w, if ok \<noteq> Works then Leaving j None else Looping (j\<lparr>jb_outputs := completedOutputs (jb_run j) w\<rparr>))"
| "worker_move opts h t ok reply (Looping j) w = loop_move ok j w"
| "worker_move opts h t ok reply (Counting j p) w =
     (w, if ok \<noteq> Works then Leaving j None else Asking j p (nextAttempt (jb_run j) p w))"
| "worker_move opts h t ok reply (Asking j p att) w =
     (w, if ok \<noteq> Works then Leaving j None
         else Reserving j p att (buildPrompt (jb_request j) p (jb_outputs j) (latestAnswer (jb_run j) p w)))"
| "worker_move opts h t ok reply (Reserving j p att prompt) w = reserve_move opts t ok j p att prompt w"
| "worker_move opts h t ok reply (Marking j p att prompt) w =
     (if ok \<noteq> Works then (w, Leaving j None)
      else (patch_store t (jb_run j) \<lparr>pt_status = Some (PHASE_STATUS p), pt_currentPhase = Some (Some (phase_name p)),
              pt_reason = None\<rparr> w,
            Calling j p att prompt 1 None))"
| "worker_move opts h t ok reply (Calling j p att prompt n beat) w = (w, call_move opts reply j p att prompt n beat)"
| "worker_move opts h t ok reply (Backoff j p att prompt n beat) w = (w, Calling j p att prompt (n + 1) beat)"
| "worker_move opts h t ok reply (Committing j p att text tokens) w = commit_move opts h t ok j p att text tokens w"
| "worker_move opts h t ok reply (Saving j p text) w =
     (writeArtifact (jb_run j) p text ok w,
      if ok = Works then Looping (j\<lparr>jb_todo := tl (jb_todo j), jb_outputs := jm_set p text (jb_outputs j)\<rparr>)
      else Leaving j None)"
| "worker_move opts h t ok reply (Ending j patch res release) w =
     (case setTerminalStatus opts h t ok (jb_run j) patch w of
        (w', Inr _) \<Rightarrow> (w', if release then Releasing j res else Leaving j (Some res))
      | (w', Inl e) \<Rightarrow> (w', throw_to j e))"
| "worker_move opts h t ok reply (Releasing j res) w = release_move ok j res w"
| "worker_move opts h t ok reply (Lost j) w =
     (case jb_reservation j of
        None \<Rightarrow> w
      | Some rid \<Rightarrow> fst (abandonReservation ok rid w), Leaving j (Some TickIdle))"
| "worker_move opts h t ok reply (Leaving j res) w = (if ok \<noteq> Works then w else releaseLease h (jb_run j) w, Idle)"

text \<open>The heartbeat renews the lease until it fails once; the timer is cleared then.\<close>

fun heartbeat :: "worker_options \<Rightarrow> string \<Rightarrow> int \<Rightarrow> io \<Rightarrow> wpc \<Rightarrow> world \<Rightarrow> world \<times> wpc" where
  "heartbeat opts h t ok (Calling j p att prompt n None) w =
     (case transact ok (renewLease opts h (jb_run j) t) w of
        (w', Inr _) \<Rightarrow> (w', Calling j p att prompt n None)
      | (w', Inl e) \<Rightarrow> (w', Calling j p att prompt n (Some e)))"
| "heartbeat opts h t ok (Backoff j p att prompt n None) w =
     (case transact ok (renewLease opts h (jb_run j) t) w of
        (w', Inr _) \<Rightarrow> (w', Backoff j p att prompt n None)
      | (w', Inl e) \<Rightarrow> (w', Backoff j p att prompt n (Some e)))"
| "heartbeat opts h t ok pc w = (w, pc)"

subsection \<open>The other writers\<close>

record answer_input =
  ai_runId :: string
  ai_ownerId :: string
  ai_answer :: string

datatype answer_result = Answered | NotFound | NotWaiting | InvalidAnswer | AnswerThrows

definition answerDecision :: "io \<Rightarrow> int \<Rightarrow> answer_input \<Rightarrow> world \<Rightarrow> world \<times> answer_result" where
  "answerDecision ok t inp w =
     (if ok \<noteq> Works then (w, AnswerThrows)
      else case getRunForOwner (ai_runId inp) (ai_ownerId inp) (w_store w) of
        None \<Rightarrow> (w, NotFound)
      | Some r \<Rightarrow>
          if rn_status r \<noteq> PausedForDecision then (w, NotWaiting)
          else (case normalizeAnswer (ai_answer inp) of
              None \<Rightarrow> (w, InvalidAnswer)
            | Some a \<Rightarrow> (case newest_row (\<lambda>d. dc_run d = rn_id r \<and> dc_answer d = None) w of
                None \<Rightarrow> (w, NotWaiting)
              | Some d \<Rightarrow>
                  (patch_store t (rn_id r) \<lparr>pt_status = Some Queued, pt_currentPhase = None, pt_reason = Some None\<rparr>
                     (w\<lparr>w_decisions := map (\<lambda>x. if dc_id x = dc_id d then x\<lparr>dc_answer := Some a\<rparr> else x) (w_decisions w)\<rparr>),
                   Answered))))"

record prune_result =
  pn_runs :: nat
  pn_rows :: "(string \<times> nat) list"

text \<open>The child tables in name order; the ledger's columns exist, so its guard applies.\<close>

definition pruneRuns :: "prune_options \<Rightarrow> world \<Rightarrow> world \<times> prune_result" where
  "pruneRuns opts w =
     (let gone = doomed opts (w_ledger w) (st_runs (w_store w));
          (ds, nd) = prune_child gone dc_run (w_decisions w);
          (ps, np) = prune_child gone pr_runId (st_phases (w_store w));
          (ls, nl) = prune_child gone fst (w_leases w);
          (rs, nr) = prune_child gone lr_run (tl_rows (w_ledger w));
          (runs, n) = prune_child gone rn_id (st_runs (w_store w))
      in (w\<lparr>w_store := \<lparr>st_runs = runs, st_phases = ps\<rparr>, w_leases := ls, w_decisions := ds,
            w_ledger := (w_ledger w)\<lparr>tl_rows := rs\<rparr>\<rparr>,
          \<lparr>pn_runs = n, pn_rows = [(''decisions'', nd), (''phases'', np), (''run_leases'', nl), (''token_ledger'', nr)]\<rparr>))"

subsection \<open>The system\<close>

text \<open>\<open>sy_issued\<close> holds every UUID drawn so far: a fresh one is in none of the tables and in no worker.\<close>

record system =
  sy_world :: world
  sy_worker :: "string \<Rightarrow> wpc"
  sy_issued :: "string list"

datatype sys_event =
    Move string int io model_reply
  | Beat string int io
  | Crash string
  | CreateRun string int run_input
  | Answer io int answer_input
  | Prune prune_options

datatype sys_output = Moved | RunCreated "store_error + run" | AnswerOut answer_result | Pruned prune_result

definition with_worker :: "system \<Rightarrow> string \<Rightarrow> world \<times> wpc \<Rightarrow> system" where
  "with_worker s h r = s\<lparr>sy_world := fst r, sy_worker := (sy_worker s)(h := snd r)\<rparr>"

fun sys_step :: "worker_options \<Rightarrow> system \<Rightarrow> sys_event \<Rightarrow> system \<times> sys_output" where
  "sys_step opts s (Move h t ok reply) =
     (with_worker s h (worker_move opts h t ok reply (sy_worker s h) (sy_world s)), Moved)"
| "sys_step opts s (Beat h t ok) =
     (with_worker s h (heartbeat opts h t ok (sy_worker s h) (sy_world s)), Moved)"
| "sys_step opts s (Crash h) = (with_worker s h (sy_world s, Idle), Moved)"
| "sys_step opts s (CreateRun uuid t inp) =
     (if uuid \<in> set (sy_issued s) then (s, Moved)
      else (case createRun uuid t inp (w_store (sy_world s)) of
        (st, r) \<Rightarrow> (s\<lparr>sy_world := (sy_world s)\<lparr>w_store := st\<rparr>, sy_issued := uuid # sy_issued s\<rparr>, RunCreated r)))"
| "sys_step opts s (Answer ok t inp) =
     (case answerDecision ok t inp (sy_world s) of (w, r) \<Rightarrow> (s\<lparr>sy_world := w\<rparr>, AnswerOut r))"
| "sys_step opts s (Prune po) =
     (case pruneRuns po (sy_world s) of (w, r) \<Rightarrow> (s\<lparr>sy_world := w\<rparr>, Pruned r))"

definition start :: "(string \<times> phase, string) jmap \<Rightarrow> system" where
  "start files = \<lparr>sy_world = \<lparr>w_store = empty_store, w_leases = [], w_decisions = [], w_dseq = 0,
      w_ledger = new_ledger, w_files = files\<rparr>, sy_worker = \<lambda>_. Idle, sy_issued = []\<rparr>"

end
