(* ===== verification/Worker_Safety.thy ===== *)
theory Worker_Safety
  imports Worker
begin

text \<open>
  What the workers of \<open>Worker\<close> never do, whatever the interleaving of their moves, failing
  operations, crashes, answers and prunes. The argument is a rely-guarantee one: \<open>pc_inv\<close> says what a
  worker at a program point knows about the tables, part of it only while the lease is its own;
  \<open>rely\<close> is what every step of the others leaves true; \<open>world_inv\<close> is the invariant of the tables.
\<close>

subsection \<open>Views of the tables\<close>

definition holds :: "world \<Rightarrow> string \<Rightarrow> string \<Rightarrow> bool" where
  "holds w i h \<longleftrightarrow> (case jm_get (w_leases w) i of Some l \<Rightarrow> fst l = h | None \<Rightarrow> False)"

definition recs :: "world \<Rightarrow> string \<Rightarrow> phase_record list" where
  "recs w i = filter (\<lambda>q. pr_runId q = i) (st_phases (w_store w))"

definition waiting :: "world \<Rightarrow> string \<Rightarrow> decision_row list" where
  "waiting w i = filter (\<lambda>d. dc_run d = i \<and> dc_answer d = None) (w_decisions w)"

definition recorded :: "world \<Rightarrow> string \<Rightarrow> phase \<Rightarrow> string \<Rightarrow> bool" where
  "recorded w i p x \<longleftrightarrow> (\<exists>q \<in> set (recs w i). pr_phase q = phase_name p \<and> pr_output q = Some x)"

definition asked :: "world \<Rightarrow> string \<Rightarrow> phase \<Rightarrow> bool" where
  "asked w i p \<longleftrightarrow> (\<exists>d \<in> set (waiting w i). dc_phase d = phase_name p)"

definition row_of :: "world \<Rightarrow> nat \<Rightarrow> string \<Rightarrow> phase \<Rightarrow> int \<Rightarrow> bool" where
  "row_of w rid i p att \<longleftrightarrow> (\<exists>r \<in> set (tl_rows (w_ledger w)). lr_id r = rid \<and> row_key r = (i, phase_name p, att))"

definition paid :: "world \<Rightarrow> phase_record \<Rightarrow> bool" where
  "paid w q \<longleftrightarrow> (\<exists>r \<in> set (tl_rows (w_ledger w)). row_key r = (pr_runId q, pr_phase q, pr_attempt q) \<and> lr_state r = SettledRow)"

subsection \<open>The invariant of the tables\<close>

definition run_ok :: "world \<Rightarrow> string \<Rightarrow> bool" where
  "run_ok w i \<longleftrightarrow> (\<exists>n \<le> 4. map pr_phase (recs w i) = map phase_name (take n PHASES)
     \<and> (\<forall>d \<in> set (waiting w i). n < 4 \<and> dc_phase d = phase_name (PHASES ! n)) \<and> length (waiting w i) \<le> 1)"

definition rec_ok :: "world \<Rightarrow> phase_record \<Rightarrow> bool" where
  "rec_ok w q \<longleftrightarrow> pr_status q = PhaseComplete \<and> pr_output q \<noteq> None \<and> paid w q"

definition done_ok :: "world \<Rightarrow> run \<Rightarrow> bool" where
  "done_ok w r \<longleftrightarrow> (rn_status r = RunComplete \<longrightarrow>
     (\<forall>p. \<exists>x. recorded w (rn_id r) p x \<and> jm_get (w_files w) (rn_id r, p) = Some x))"

definition row_nonneg :: "ledger_row \<Rightarrow> bool" where
  "row_nonneg r \<longleftrightarrow> 0 \<le> lr_reserved r \<and> 0 \<le> row_spent r"

text \<open>An unanswered question is the last of its run.\<close>

definition last_asked :: "decision_row list \<Rightarrow> bool" where
  "last_asked ds \<longleftrightarrow> (\<forall>d \<in> set ds. dc_answer d = None \<longrightarrow> (\<forall>x \<in> set ds. dc_run x = dc_run d \<longrightarrow> dc_id x \<le> dc_id d))"

definition keys_ok :: "world \<Rightarrow> bool" where
  "keys_ok w \<longleftrightarrow> store_wf (w_store w) \<and> jm_wf (w_leases w)
     \<and> (\<forall>i \<in> fst ` set (w_leases w). run_exists (w_store w) i)
     \<and> (\<forall>d \<in> set (w_decisions w). run_exists (w_store w) (dc_run d) \<and> dc_id d \<le> w_dseq w)
     \<and> distinct (map dc_id (w_decisions w))
     \<and> last_asked (w_decisions w)"

definition money_ok :: "ledger_limits \<Rightarrow> world \<Rightarrow> bool" where
  "money_ok lims w \<longleftrightarrow> ledger_inv lims (w_ledger w) \<and> (\<forall>r \<in> set (tl_rows (w_ledger w)). row_nonneg r)"

definition world_inv :: "ledger_limits \<Rightarrow> world \<Rightarrow> bool" where
  "world_inv lims w \<longleftrightarrow> keys_ok w \<and> money_ok lims w \<and> (\<forall>i. run_ok w i)
     \<and> (\<forall>q \<in> set (st_phases (w_store w)). rec_ok w q) \<and> (\<forall>r \<in> set (st_runs (w_store w)). done_ok w r)"

lemma last_asked_Nil [simp]: "last_asked []"
  by (simp add: last_asked_def)

lemma last_asked_filter: "last_asked ds \<Longrightarrow> last_asked (filter P ds)"
  by (simp add: last_asked_def)

lemma last_asked_snoc:
  "last_asked ds \<Longrightarrow> \<forall>d \<in> set ds. dc_run d = dc_run x \<longrightarrow> dc_answer d \<noteq> None \<Longrightarrow> \<forall>d \<in> set ds. dc_id d \<le> dc_id x
    \<Longrightarrow> last_asked (ds @ [x])"
  by (auto simp: last_asked_def)

lemma last_asked_map:
  "last_asked ds \<Longrightarrow> (\<And>y. dc_id (f y) = dc_id y) \<Longrightarrow> (\<And>y. dc_run (f y) = dc_run y)
    \<Longrightarrow> (\<And>y. dc_answer (f y) = None \<Longrightarrow> f y = y) \<Longrightarrow> last_asked (map f ds)"
  by (auto simp: last_asked_def) metis

subsection \<open>What a worker knows\<close>

definition job_base :: "world \<Rightarrow> string list \<Rightarrow> job \<Rightarrow> bool" where
  "job_base w iss j \<longleftrightarrow> jb_run j \<in> set iss \<and> (\<exists>k \<le> 4. jb_todo j = drop k PHASES)
     \<and> (run_exists (w_store w) (jb_run j) \<longrightarrow> (\<forall>p x. jm_get (jb_outputs j) p = Some x \<longrightarrow> recorded w (jb_run j) p x))"

definition current :: "world \<Rightarrow> job \<Rightarrow> bool" where
  "current w j \<longleftrightarrow> (\<forall>p. jm_get (jb_outputs j) p = None \<longrightarrow> (\<forall>x. \<not> recorded w (jb_run j) p x))
     \<and> (\<forall>p. p \<notin> set (jb_todo j) \<longrightarrow> (\<exists>x. jm_get (jb_outputs j) p = Some x \<and> jm_get (w_files w) (jb_run j, p) = Some x))"

definition at_phase :: "job \<Rightarrow> phase \<Rightarrow> bool" where
  "at_phase j p \<longleftrightarrow> jb_todo j \<noteq> [] \<and> hd (jb_todo j) = p \<and> jm_get (jb_outputs j) p = None"

definition open_phase :: "world \<Rightarrow> string \<Rightarrow> job \<Rightarrow> phase \<Rightarrow> bool" where
  "open_phase w h j p \<longleftrightarrow> at_phase j p \<and> (holds w (jb_run j) h \<longrightarrow> current w j \<and> \<not> asked w (jb_run j) p)"

definition reserved_for :: "world \<Rightarrow> string \<Rightarrow> job \<Rightarrow> phase \<Rightarrow> int \<Rightarrow> bool" where
  "reserved_for w h j p att \<longleftrightarrow>
     (\<exists>rid. jb_reservation j = Some rid \<and> (holds w (jb_run j) h \<longrightarrow> row_of w rid (jb_run j) p att))"

definition saved_job :: "job \<Rightarrow> phase \<Rightarrow> string \<Rightarrow> job" where
  "saved_job j p x = j\<lparr>jb_outputs := jm_set p x (jb_outputs j)\<rparr>"

fun pc_knows :: "world \<Rightarrow> string \<Rightarrow> wpc \<Rightarrow> bool" where
  "pc_knows w h Idle = True"
| "pc_knows w h (Claimed j) = (jb_todo j = PHASES \<and> jb_outputs j = [])"
| "pc_knows w h (Sweeping j ids) = (jb_todo j = PHASES \<and> jb_outputs j = [])"
| "pc_knows w h (Loading j) = (jb_todo j = PHASES \<and> jb_outputs j = [])"
| "pc_knows w h (Looping j) = (holds w (jb_run j) h \<longrightarrow> current w j)"
| "pc_knows w h (Counting j p) = open_phase w h j p"
| "pc_knows w h (Asking j p att) = open_phase w h j p"
| "pc_knows w h (Reserving j p att prompt) = open_phase w h j p"
| "pc_knows w h (Marking j p att prompt) = (open_phase w h j p \<and> reserved_for w h j p att)"
| "pc_knows w h (Calling j p att prompt n beat) = (open_phase w h j p \<and> reserved_for w h j p att)"
| "pc_knows w h (Backoff j p att prompt n beat) = (open_phase w h j p \<and> reserved_for w h j p att)"
| "pc_knows w h (Committing j p att text tokens) = (open_phase w h j p \<and> reserved_for w h j p att)"
| "pc_knows w h (Saving j p text) =
     (jb_todo j \<noteq> [] \<and> hd (jb_todo j) = p \<and> (run_exists (w_store w) (jb_run j) \<longrightarrow> recorded w (jb_run j) p text)
      \<and> (holds w (jb_run j) h \<longrightarrow> current w (saved_job j p text)))"
| "pc_knows w h (Ending j patch res release) =
     (pt_status patch = Some RunComplete \<longrightarrow> jb_todo j = [] \<and> (holds w (jb_run j) h \<longrightarrow> current w j))"
| "pc_knows w h (Releasing j res) = True"
| "pc_knows w h (Lost j) = True"
| "pc_knows w h (Leaving j res) = True"

fun pc_job :: "wpc \<Rightarrow> job option" where
  "pc_job Idle = None"
| "pc_job (Claimed j) = Some j"
| "pc_job (Sweeping j ids) = Some j"
| "pc_job (Loading j) = Some j"
| "pc_job (Looping j) = Some j"
| "pc_job (Counting j p) = Some j"
| "pc_job (Asking j p att) = Some j"
| "pc_job (Reserving j p att prompt) = Some j"
| "pc_job (Marking j p att prompt) = Some j"
| "pc_job (Calling j p att prompt n beat) = Some j"
| "pc_job (Backoff j p att prompt n beat) = Some j"
| "pc_job (Committing j p att text tokens) = Some j"
| "pc_job (Saving j p text) = Some j"
| "pc_job (Ending j patch res release) = Some j"
| "pc_job (Releasing j res) = Some j"
| "pc_job (Lost j) = Some j"
| "pc_job (Leaving j res) = Some j"

definition pc_inv :: "world \<Rightarrow> string list \<Rightarrow> string \<Rightarrow> wpc \<Rightarrow> bool" where
  "pc_inv w iss h pc \<longleftrightarrow> pc_knows w h pc \<and> (case pc_job pc of None \<Rightarrow> True | Some j \<Rightarrow> job_base w iss j)"

definition sys_inv :: "ledger_limits \<Rightarrow> system \<Rightarrow> bool" where
  "sys_inv lims s \<longleftrightarrow> world_inv lims (sy_world s) \<and> (\<forall>h. pc_inv (sy_world s) (sy_issued s) h (sy_worker s h))
     \<and> (\<forall>i. run_exists (w_store (sy_world s)) i \<longrightarrow> i \<in> set (sy_issued s))"

subsection \<open>What the others leave true\<close>

definition rely :: "world \<Rightarrow> world \<Rightarrow> string \<Rightarrow> string \<Rightarrow> bool" where
  "rely w w' i h \<longleftrightarrow>
     (run_exists (w_store w') i \<longrightarrow> run_exists (w_store w) i \<and> (\<forall>p x. recorded w i p x \<longrightarrow> recorded w' i p x))
     \<and> (holds w' i h \<longrightarrow> holds w i h \<and> (\<forall>p x. recorded w' i p x \<longleftrightarrow> recorded w i p x)
         \<and> (\<forall>p. asked w' i p \<longrightarrow> asked w i p)
         \<and> (\<forall>p x. recorded w i p x \<longrightarrow> jm_get (w_files w) (i, p) = Some x \<longrightarrow> jm_get (w_files w') (i, p) = Some x)
         \<and> (\<forall>rid p att. row_of w rid i p att \<longrightarrow> row_of w' rid i p att))"

lemma rely_current:
  assumes "rely w w' (jb_run j) h" "holds w' (jb_run j) h" "current w j"
    and "\<forall>p x. jm_get (jb_outputs j) p = Some x \<longrightarrow> recorded w (jb_run j) p x"
  shows "current w' j"
  using assms unfolding rely_def current_def by blast

lemma rely_base: "rely w w' (jb_run j) h \<Longrightarrow> set iss \<subseteq> set iss' \<Longrightarrow> job_base w iss j \<Longrightarrow> job_base w' iss' j"
  unfolding rely_def job_base_def by blast

lemma holds_exists: "keys_ok w \<Longrightarrow> holds w i h \<Longrightarrow> run_exists (w_store w) i"
  by (force simp: holds_def keys_ok_def split: option.splits dest!: map_of_SomeD)

lemma rely_holds: "rely w w' i h \<Longrightarrow> holds w' i h \<Longrightarrow> holds w i h"
  by (simp add: rely_def)

lemma rely_open:
  assumes k: "keys_ok w" and r: "rely w w' (jb_run j) h" and b: "job_base w iss j" and o: "open_phase w h j p"
  shows "open_phase w' h j p"
proof -
  have "current w' j \<and> \<not> asked w' (jb_run j) p" if h: "holds w' (jb_run j) h"
  proof -
    have hw: "holds w (jb_run j) h" by (rule rely_holds [OF r h])
    then have "current w j" "\<not> asked w (jb_run j) p" using o by (simp_all add: open_phase_def)
    moreover have "\<forall>p x. jm_get (jb_outputs j) p = Some x \<longrightarrow> recorded w (jb_run j) p x"
      using b holds_exists [OF k hw] by (simp add: job_base_def)
    ultimately show ?thesis using rely_current [OF r h] r h by (auto simp: rely_def)
  qed
  with o show ?thesis by (simp add: open_phase_def)
qed

lemma rely_reserved: "rely w w' (jb_run j) h \<Longrightarrow> reserved_for w h j p att \<Longrightarrow> reserved_for w' h j p att"
  unfolding reserved_for_def rely_def by blast

lemma rely_pc:
  assumes k: "keys_ok w" and sub: "set iss \<subseteq> set iss'" and inv: "pc_inv w iss h pc"
    and r: "\<And>j. pc_job pc = Some j \<Longrightarrow> rely w w' (jb_run j) h"
  shows "pc_inv w' iss' h pc"
proof (cases "pc_job pc")
  case None
  then have "pc = Idle" by (cases pc) simp_all
  then show ?thesis by (simp add: pc_inv_def)
next
  case (Some j)
  note r = r [OF Some]
  have b: "job_base w iss j" and kn: "pc_knows w h pc" using inv Some by (simp_all add: pc_inv_def)
  have known: "\<forall>p x. jm_get (jb_outputs j) p = Some x \<longrightarrow> recorded w (jb_run j) p x" if "holds w' (jb_run j) h"
    using b holds_exists [OF k rely_holds [OF r that]] by (simp add: job_base_def)
  have "pc_knows w' h pc"
  proof (cases pc)
    case (Looping j')
    with Some kn r known rely_current [OF r] rely_holds [OF r] show ?thesis by simp
  next
    case (Saving j' p x)
    with Some have [simp]: "j' = j" by simp
    have "current w' (saved_job j p x)" if h: "holds w' (jb_run j) h"
    proof (rule rely_current)
      show "rely w w' (jb_run (saved_job j p x)) h" "holds w' (jb_run (saved_job j p x)) h"
        using r h by (simp_all add: saved_job_def)
      show "current w (saved_job j p x)" using kn Saving rely_holds [OF r h] by simp
      show "\<forall>q y. jm_get (jb_outputs (saved_job j p x)) q = Some y \<longrightarrow> recorded w (jb_run (saved_job j p x)) q y"
        using known [OF h] kn Saving holds_exists [OF k rely_holds [OF r h]] by (auto simp: saved_job_def update_conv')
    qed
    moreover have "recorded w' (jb_run j) p x" if "run_exists (w_store w') (jb_run j)"
      using that kn Saving r by (auto simp: rely_def)
    ultimately show ?thesis using kn Saving by simp
  next
    case (Ending j' patch res rel)
    with Some kn r known rely_current [OF r] rely_holds [OF r] show ?thesis by simp
  qed (use Some kn rely_open [OF k r b] rely_reserved [OF r] in simp_all)
  with rely_base [OF r sub b] Some show ?thesis by (simp add: pc_inv_def)
qed

subsection \<open>Changes of one table\<close>

lemmas views = recs_def waiting_def recorded_def asked_def row_of_def paid_def

text \<open>A step that leaves phases, decisions and files as they are, keeps the ledger's rows and gives no one a lease.\<close>

lemma rely_same:
  assumes "st_phases (w_store w') = st_phases (w_store w)" "w_decisions w' = w_decisions w" "w_files w' = w_files w"
    and "run_exists (w_store w') i \<longrightarrow> run_exists (w_store w) i" "holds w' i h \<longrightarrow> holds w i h"
    and "\<And>rid p att. row_of w rid i p att \<Longrightarrow> row_of w' rid i p att"
  shows "rely w w' i h"
  using assms by (auto simp: rely_def recs_def waiting_def recorded_def asked_def)

lemma rely_refl: "rely w w i h"
  by (rule rely_same) simp_all

lemma rely_leases: "(holds (w\<lparr>w_leases := L\<rparr>) i h \<Longrightarrow> holds w i h) \<Longrightarrow> rely w (w\<lparr>w_leases := L\<rparr>) i h"
  by (rule rely_same) (auto simp: row_of_def)

lemma world_inv_leases:
  assumes "world_inv lims w" "jm_wf L" "\<forall>i \<in> fst ` set L. run_exists (w_store w) i"
  shows "world_inv lims (w\<lparr>w_leases := L\<rparr>)"
  using assms by (auto simp: world_inv_def keys_ok_def money_ok_def run_ok_def rec_ok_def done_ok_def views)

lemma holds_set: "holds (w\<lparr>w_leases := jm_set i (h, e) L\<rparr>) k h' \<longleftrightarrow>
    (if k = i then h' = h else holds (w\<lparr>w_leases := L\<rparr>) k h')"
  by (auto simp: holds_def update_conv')

lemma holds_delete: "holds (w\<lparr>w_leases := jm_delete i (w_leases w)\<rparr>) k h' \<longleftrightarrow> k \<noteq> i \<and> holds w k h'"
  by (auto simp: holds_def delete_conv')

lemma keys_of_set: "fst ` set (jm_set k v m) = insert k (fst ` set m)"
  using dom_map_of_conv_image_fst [of "jm_set k v m"] dom_map_of_conv_image_fst [of m] by (simp add: update_conv')

lemma keys_of_delete: "fst ` set (jm_delete k m) \<subseteq> fst ` set m"
  by (auto simp: AList.delete_eq)

text \<open>The ledger only grows and closes rows.\<close>

lemma later_row: "ledger_later l l' \<Longrightarrow> r \<in> set (tl_rows l) \<Longrightarrow> \<exists>r' \<in> set (tl_rows l'). row_later r r'"
  by (fastforce simp: ledger_later_def in_set_conv_nth list_all2_conv_all_nth nth_append)

lemma row_later_key: "row_later r r' \<Longrightarrow> lr_id r' = lr_id r \<and> row_key r' = row_key r"
  by (auto simp: row_later_def row_key_def)

lemma row_of_later: "ledger_later (w_ledger w) l \<Longrightarrow> row_of w rid i p att \<Longrightarrow> row_of (w\<lparr>w_ledger := l\<rparr>) rid i p att"
  unfolding row_of_def using later_row [of "w_ledger w" l] row_later_key by fastforce

lemma paid_later: "ledger_later (w_ledger w) l \<Longrightarrow> paid w q \<Longrightarrow> paid (w\<lparr>w_ledger := l\<rparr>) q"
  unfolding paid_def using later_row [of "w_ledger w" l] by (fastforce simp: row_later_def)

lemma rely_ledger: "ledger_later (w_ledger w) l \<Longrightarrow> rely w (w\<lparr>w_ledger := l\<rparr>) i h"
  by (rule rely_same) (simp_all add: holds_def row_of_later)

lemma world_inv_ledger:
  assumes w: "world_inv lims w" and l: "ledger_later (w_ledger w) l" "ledger_inv lims l" "\<forall>r \<in> set (tl_rows l). row_nonneg r"
  shows "world_inv lims (w\<lparr>w_ledger := l\<rparr>)"
proof -
  have "run_ok (w\<lparr>w_ledger := l\<rparr>) i = run_ok w i" for i by (simp add: run_ok_def recs_def waiting_def)
  moreover have "done_ok (w\<lparr>w_ledger := l\<rparr>) r = done_ok w r" for r by (simp add: done_ok_def recorded_def recs_def)
  moreover have "rec_ok w q \<Longrightarrow> rec_ok (w\<lparr>w_ledger := l\<rparr>) q" for q using paid_later [OF l(1)] by (simp add: rec_ok_def)
  ultimately show ?thesis using w l(2,3) by (auto simp: world_inv_def keys_ok_def money_ok_def)
qed

lemma transition_facts:
  assumes "ledger_transition True rid st a l = (l', Inr u)"
    and st: "st = Abandoned \<and> a = None \<or> st = SettledRow \<and> (\<exists>n \<ge> 0. a = Some n)"
    and "\<forall>r \<in> set (tl_rows l). row_nonneg r"
  shows "ledger_later l l'" "\<forall>r \<in> set (tl_rows l'). row_nonneg r"
    and "\<exists>r \<in> set (tl_rows l). lr_id r = rid \<and> lr_state r = Reserved"
    and "r \<in> set (tl_rows l) \<Longrightarrow> lr_id r = rid \<Longrightarrow> lr_state r = Reserved \<Longrightarrow> r\<lparr>lr_state := st, lr_actual := a\<rparr> \<in> set (tl_rows l')"
proof -
  have l': "l' = l\<lparr>tl_rows := map (close_row rid st a) (tl_rows l)\<rparr>"
    and n: "length (filter (\<lambda>r. lr_id r = rid \<and> lr_state r = Reserved) (tl_rows l)) = 1"
    using assms(1) by (auto simp: ledger_transition_def Let_def split: if_splits)
  show "ledger_later l l'"
    by (rule ledger_laterI [where new = "[]", OF _ close_rows_later [OF st, of "tl_rows l" rid]]) (simp add: l')
  have "row_nonneg r \<Longrightarrow> row_nonneg (close_row rid st a r)" for r
    using st by (auto simp: row_nonneg_def close_row_def row_spent_def)
  with assms(3) show "\<forall>r \<in> set (tl_rows l'). row_nonneg r" by (simp add: l')
  have "filter (\<lambda>r. lr_id r = rid \<and> lr_state r = Reserved) (tl_rows l) \<noteq> []" using n by auto
  then show "\<exists>r \<in> set (tl_rows l). lr_id r = rid \<and> lr_state r = Reserved" by (auto simp: filter_empty_conv)
  show "r\<lparr>lr_state := st, lr_actual := a\<rparr> \<in> set (tl_rows l')"
    if "r \<in> set (tl_rows l)" "lr_id r = rid" "lr_state r = Reserved"
    using that by (force simp: l' close_row_def)
qed

lemma abandon_effect:
  assumes w: "world_inv lims w"
  shows "world_inv lims (fst (abandonReservation ok rid w)) \<and> rely w (fst (abandonReservation ok rid w)) i h
    \<and> w_store (fst (abandonReservation ok rid w)) = w_store w"
proof (cases "fst (abandonReservation ok rid w) = w")
  case True
  with w rely_refl show ?thesis by simp
next
  case False
  then obtain l u where l: "ledger_abandon True rid (w_ledger w) = (l, Inr u)"
      and eq: "fst (abandonReservation ok rid w) = w\<lparr>w_ledger := l\<rparr>"
    by (auto simp: abandonReservation_def split: if_splits option.splits prod.splits sum.splits)
  have m: "ledger_inv lims (w_ledger w)" "\<forall>r \<in> set (tl_rows (w_ledger w)). row_nonneg r"
    using w by (simp_all add: world_inv_def money_ok_def)
  note t = transition_facts [OF l [unfolded ledger_abandon_def] _ m(2)]
  have "ledger_inv lims l" using ledger_transition_inv [OF m(1), of True rid Abandoned None] l by (simp add: ledger_abandon_def)
  with t(1,2) world_inv_ledger [OF w] rely_ledger show ?thesis by (simp add: eq)
qed

subsection \<open>Guarantees of single operations\<close>

definition guar :: "ledger_limits \<Rightarrow> world \<Rightarrow> world \<Rightarrow> string \<Rightarrow> bool" where
  "guar lims w w' h \<longleftrightarrow> world_inv lims w' \<and> (\<forall>i. run_exists (w_store w') i = run_exists (w_store w) i)
     \<and> (\<forall>i h'. h' \<noteq> h \<longrightarrow> rely w w' i h')"

lemma guar_refl: "world_inv lims w \<Longrightarrow> guar lims w w h"
  by (simp add: guar_def rely_refl)

lemma abandon_store: "abandonReservation ok rid w = (w', r) \<Longrightarrow> w_store w' = w_store w"
  by (auto simp: abandonReservation_def split: if_splits option.splits prod.splits sum.splits)

lemma abandon_guar: "world_inv lims w \<Longrightarrow> guar lims w (fst (abandonReservation ok rid w)) h"
  using abandon_effect by (simp add: guar_def)

lemma world_inv_keys: "world_inv lims w \<Longrightarrow> keys_ok w"
  by (simp add: world_inv_def)

lemma world_inv_run: "world_inv lims w \<Longrightarrow> run_ok w i"
  by (simp add: world_inv_def)

lemma set_lease_guar:
  assumes "world_inv lims w" "run_exists (w_store w) i"
  shows "guar lims w (w\<lparr>w_leases := jm_set i (h, e) (w_leases w)\<rparr>) h"
proof -
  have "jm_wf (jm_set i (h, e) (w_leases w))" using assms(1) by (intro distinct_update) (simp add: world_inv_def keys_ok_def)
  then have "world_inv lims (w\<lparr>w_leases := jm_set i (h, e) (w_leases w)\<rparr>)"
    using assms by (intro world_inv_leases) (auto simp: keys_of_set world_inv_def keys_ok_def)
  moreover have "rely w (w\<lparr>w_leases := jm_set i (h, e) (w_leases w)\<rparr>) k h'" if "h' \<noteq> h" for k h'
    using that by (intro rely_leases) (simp add: holds_set split: if_splits)
  ultimately show ?thesis by (simp add: guar_def)
qed

lemma claim_guar:
  assumes "world_inv lims w" "claimNext opts h t w = (w', r)"
  shows "guar lims w w' h \<and> (case r of None \<Rightarrow> True | Some (i, req) \<Rightarrow> run_exists (w_store w) i)"
proof (cases "sort_key (\<lambda>r. (rn_createdAt r, rn_id r)) (filter (claimable t w) (st_runs (w_store w)))")
  case Nil
  with assms guar_refl show ?thesis by (simp add: claimNext_def)
next
  case (Cons a rest)
  then have "a \<in> set (st_runs (w_store w))"
    by (metis filter_is_subset list.set_intros(1) set_sort subsetD)
  then have "run_exists (w_store w) (rn_id a)" by (simp add: run_exists_iff)
  with Cons assms set_lease_guar [OF assms(1)] show ?thesis by (auto simp: claimNext_def)
qed

lemma renew_guar:
  assumes w: "world_inv lims w" and r: "renewLease opts h i t w = (w', Inr u)"
  shows "guar lims w w' h" "holds w i h" "\<And>k h'. holds w' k h' = holds w k h'"
    and "w_store w' = w_store w \<and> w_decisions w' = w_decisions w \<and> w_dseq w' = w_dseq w \<and> w_ledger w' = w_ledger w \<and> w_files w' = w_files w"
proof -
  have h: "holds w i h" and w': "w' = w\<lparr>w_leases := jm_set i (h, t + wo_leaseMs opts) (w_leases w)\<rparr>"
    using r by (auto simp: renewLease_def holds_def split: option.splits if_splits)
  show "holds w i h" by (rule h)
  show "guar lims w w' h" unfolding w' by (rule set_lease_guar [OF w holds_exists [OF world_inv_keys [OF w] h]])
  show "holds w' k h' = holds w k h'" for k h'
    using h by (auto simp: w' holds_def update_conv' split: option.splits)
  show "w_store w' = w_store w \<and> w_decisions w' = w_decisions w \<and> w_dseq w' = w_dseq w \<and> w_ledger w' = w_ledger w \<and> w_files w' = w_files w"
    by (simp add: w')
qed

lemma release_guar: "world_inv lims w \<Longrightarrow> guar lims w (releaseLease h i w) h"
proof -
  assume w: "world_inv lims w"
  have "world_inv lims (w\<lparr>w_leases := jm_delete i (w_leases w)\<rparr>)"
  proof (rule world_inv_leases [OF w])
    show "jm_wf (jm_delete i (w_leases w))" using w by (intro distinct_delete) (simp add: world_inv_def keys_ok_def)
    show "\<forall>k \<in> fst ` set (jm_delete i (w_leases w)). run_exists (w_store w) k"
    proof
      fix k
      assume "k \<in> fst ` set (jm_delete i (w_leases w))"
      with keys_of_delete have "k \<in> fst ` set (w_leases w)" by (rule subsetD)
      then show "run_exists (w_store w) k" using world_inv_keys [OF w] by (simp only: keys_ok_def)
    qed
  qed
  moreover have "rely w (w\<lparr>w_leases := jm_delete i (w_leases w)\<rparr>) k h'" for k h'
    by (rule rely_leases) (simp add: holds_delete)
  ultimately show ?thesis using guar_refl [OF w] by (auto simp: releaseLease_def guar_def rely_refl split: option.splits)
qed

lemma patch_views [simp]:
  "recs (patch_store t i p w) k = recs w k" "waiting (patch_store t i p w) k = waiting w k"
  "recorded (patch_store t i p w) k q x = recorded w k q x" "asked (patch_store t i p w) k q = asked w k q"
  "row_of (patch_store t i p w) rid k q att = row_of w rid k q att" "paid (patch_store t i p w) r = paid w r"
  "holds (patch_store t i p w) k h = holds w k h" "w_files (patch_store t i p w) = w_files w"
  "w_ledger (patch_store t i p w) = w_ledger w" "w_leases (patch_store t i p w) = w_leases w"
  "w_decisions (patch_store t i p w) = w_decisions w" "w_dseq (patch_store t i p w) = w_dseq w"
  "run_exists (w_store (patch_store t i p w)) k = run_exists (w_store w) k"
  "st_phases (w_store (patch_store t i p w)) = st_phases (w_store w)"
  by (simp_all add: patch_store_def views holds_def)

lemma patch_guar:
  assumes w: "world_inv lims w"
    and c: "pt_status p = Some RunComplete \<Longrightarrow> \<forall>q. \<exists>x. recorded w i q x \<and> jm_get (w_files w) (i, q) = Some x"
  shows "guar lims w (patch_store t i p w) h"
proof -
  have "done_ok (patch_store t i p w) r" if "r \<in> set (st_runs (w_store (patch_store t i p w)))" for r
  proof -
    from that obtain a where a: "a \<in> set (st_runs (w_store w))" "r = (if rn_id a = i then patch_run t p a else a)"
      by (auto simp: patch_store_def updateRun_def)
    have "done_ok w a" using w a(1) by (simp add: world_inv_def)
    with c a(2) show ?thesis by (auto simp: done_ok_def patch_run_status split: option.splits)
  qed
  moreover have "keys_ok (patch_store t i p w)" "money_ok lims (patch_store t i p w)"
    using w updateRun_wf [of "w_store w" t i p] by (simp_all add: world_inv_def keys_ok_def money_ok_def) (simp add: patch_store_def)
  ultimately have "world_inv lims (patch_store t i p w)"
    using w by (simp add: world_inv_def run_ok_def rec_ok_def)
  moreover have "rely w (patch_store t i p w) k h'" for k h' by (rule rely_same) simp_all
  ultimately show ?thesis by (simp add: guar_def)
qed

lemma rely_trans: "rely a b i h \<Longrightarrow> rely b c i h \<Longrightarrow> rely a c i h"
  unfolding rely_def by (intro conjI impI allI; simp)

lemma guar_trans: "guar lims a b h \<Longrightarrow> guar lims b c h \<Longrightarrow> guar lims a c h"
  unfolding guar_def using rely_trans by (metis (no_types, lifting))

subsection \<open>Committing a phase or a question\<close>

lemma phase_name_inj [simp]: "phase_name p = phase_name q \<longleftrightarrow> p = q"
  by (cases p; cases q) simp_all

lemma isPhase_name [simp]: "isPhase (phase_name p) = Some p"
  by (cases p) (simp_all add: isPhase_def PHASES_def)

lemma recorded_iff:
  assumes "world_inv lims w" "map pr_phase (recs w i) = map phase_name (take n PHASES)"
  shows "(\<exists>x. recorded w i p x) \<longleftrightarrow> p \<in> set (take n PHASES)"
proof -
  have out: "q \<in> set (recs w i) \<Longrightarrow> \<exists>x. pr_output q = Some x" for q
    using assms(1) by (auto simp: world_inv_def rec_ok_def recs_def)
  have "phase_name p \<in> pr_phase ` set (recs w i) \<longleftrightarrow> p \<in> set (take n PHASES)"
  proof -
    have "pr_phase ` set (recs w i) = phase_name ` set (take n PHASES)" using assms(2) by (metis list.set_map)
    then show ?thesis by auto
  qed
  with out show ?thesis unfolding recorded_def by (auto simp: image_iff) (metis out)+
qed

lemma recorded_unique:
  assumes "world_inv lims w" "recorded w i p x" "recorded w i p y"
  shows "x = y"
proof -
  obtain n where n: "map pr_phase (recs w i) = map phase_name (take n PHASES)"
    using world_inv_run [OF assms(1), of i] by (auto simp: run_ok_def)
  have "distinct PHASES" by (simp add: PHASES_def)
  then have "distinct (map pr_phase (recs w i))"
    unfolding n by (simp add: distinct_map distinct_take inj_on_def)
  then have "inj_on pr_phase (set (recs w i))" by (simp add: distinct_map)
  with assms(2,3) show ?thesis unfolding recorded_def by (metis inj_onD option.inject)
qed

lemma PHASES_set [simp]: "set PHASES = UNIV"
  by (auto simp: PHASES_def intro: phase.exhaust)

lemma length_PHASES [simp]: "length PHASES = 4"
  by (simp add: PHASES_def)

lemma distinct_PHASES: "distinct PHASES"
  by (simp add: PHASES_def)

lemma in_take_PHASES: "m < 4 \<Longrightarrow> n \<le> 4 \<Longrightarrow> PHASES ! m \<in> set (take n PHASES) \<longleftrightarrow> m < n"
  using distinct_PHASES by (auto simp: in_set_conv_nth nth_eq_iff_index_eq)

lemma in_drop_PHASES: "m < 4 \<Longrightarrow> k \<le> 4 \<Longrightarrow> PHASES ! m \<in> set (drop k PHASES) \<longleftrightarrow> k \<le> m"
proof -
  assume m: "m < 4" and k: "k \<le> 4"
  have "set (take k PHASES) \<union> set (drop k PHASES) = UNIV" by (metis PHASES_set append_take_drop_id set_append)
  moreover have "set (take k PHASES) \<inter> set (drop k PHASES) = {}"
    by (rule set_take_disj_set_drop_if_distinct [OF distinct_PHASES]) simp
  ultimately have "PHASES ! m \<in> set (drop k PHASES) \<longleftrightarrow> PHASES ! m \<notin> set (take k PHASES)" by blast
  with in_take_PHASES [OF m k] show ?thesis by (simp add: not_less)
qed


text \<open>The lease holder's next phase is the run's: those before it are recorded, it is not, and no question waits.\<close>

lemma open_next:
  assumes w: "world_inv lims w" and b: "job_base w iss j" and o: "open_phase w h j p" and h: "holds w (jb_run j) h"
  obtains n where "n < 4" "PHASES ! n = p" "map pr_phase (recs w (jb_run j)) = map phase_name (take n PHASES)"
    "waiting w (jb_run j) = []" "jb_todo j = drop n PHASES"
proof -
  obtain n where n: "n \<le> 4" "map pr_phase (recs w (jb_run j)) = map phase_name (take n PHASES)"
      "\<forall>d \<in> set (waiting w (jb_run j)). n < 4 \<and> dc_phase d = phase_name (PHASES ! n)"
    using world_inv_run [OF w, of "jb_run j"] by (auto simp: run_ok_def)
  obtain k where k: "k \<le> 4" "jb_todo j = drop k PHASES" using b by (auto simp: job_base_def)
  have at: "jb_todo j \<noteq> []" "hd (jb_todo j) = p" "jm_get (jb_outputs j) p = None" "current w j" "\<not> asked w (jb_run j) p"
    using o h by (simp_all add: open_phase_def at_phase_def)
  have k4: "k < 4" and pk: "PHASES ! k = p" using at(1,2) k by (auto simp: hd_drop_conv_nth)
  have ex: "run_exists (w_store w) (jb_run j)" by (rule holds_exists [OF world_inv_keys [OF w] h])
  have "p \<notin> set (take n PHASES)"
    using at(3,4) recorded_iff [OF w n(2), of p] by (auto simp: current_def)
  then have "n \<le> k" using in_take_PHASES [OF k4 n(1)] pk by simp
  moreover have "k \<le> n"
  proof (rule ccontr)
    assume "\<not> k \<le> n"
    then have "n < 4" "PHASES ! n \<notin> set (jb_todo j)" using k4 in_drop_PHASES [of n k] k(1) by (auto simp: k(2))
    then obtain x where "recorded w (jb_run j) (PHASES ! n) x"
      using at(4) b ex unfolding current_def job_base_def by blast
    then have "PHASES ! n \<in> set (take n PHASES)" using recorded_iff [OF w n(2)] by blast
    then show False using in_take_PHASES [OF \<open>n < 4\<close> n(1)] by simp
  qed
  ultimately have nk: "n = k" by simp
  have "waiting w (jb_run j) = []"
  proof (rule ccontr)
    assume "waiting w (jb_run j) \<noteq> []"
    then have "asked w (jb_run j) p" using n(3) nk pk by (auto simp: asked_def neq_Nil_conv)
    with at(5) show False by simp
  qed
  with that [of n] k4 pk n(2) nk k(2) show thesis by simp
qed

text \<open>Settling this reservation is a step of the ledger and leaves its row settled.\<close>

lemma settle_facts:
  assumes w: "world_inv lims w" and s: "settle_in rid tokens w = (w', Inr u)"
  shows "guar lims w w' h" "\<exists>l. w' = w\<lparr>w_ledger := l\<rparr>" "rely w w' i h'"
    and "row_of w rid i p att \<Longrightarrow> \<exists>r \<in> set (tl_rows (w_ledger w')). row_key r = (i, phase_name p, att) \<and> lr_state r = SettledRow"
proof -
  obtain l v where l: "ledger_settle True rid tokens (w_ledger w) = (l, Inr v)" and w': "w' = w\<lparr>w_ledger := l\<rparr>"
    using s by (auto simp: settle_in_def split: prod.splits sum.splits)
  then obtain n where n: "0 \<le> n" "ledger_transition True rid SettledRow (Some n) (w_ledger w) = (l, Inr v)"
    by (auto simp: ledger_settle_def not_less split: option.splits if_splits)
  have m: "ledger_inv lims (w_ledger w)" "\<forall>r \<in> set (tl_rows (w_ledger w)). row_nonneg r"
    using w by (simp_all add: world_inv_def money_ok_def)
  note t = transition_facts [OF n(2) _ m(2)]
  have st: "SettledRow = Abandoned \<and> Some n = None \<or> SettledRow = SettledRow \<and> (\<exists>k \<ge> 0. Some n = Some k)" using n(1) by simp
  have "ledger_inv lims l" using ledger_transition_inv [OF m(1), of True rid SettledRow "Some n"] n(2) by simp
  with world_inv_ledger [OF w t(1) [OF st]] t(2) [OF st] rely_ledger [OF t(1) [OF st]]
  show "guar lims w w' h" "rely w w' i h'" by (simp_all add: w' guar_def)
  show "\<exists>l. w' = w\<lparr>w_ledger := l\<rparr>" using w' by blast
  show "\<exists>r \<in> set (tl_rows (w_ledger w')). row_key r = (i, phase_name p, att) \<and> lr_state r = SettledRow"
    if ro: "row_of w rid i p att"
  proof -
    obtain r where r: "r \<in> set (tl_rows (w_ledger w))" "lr_id r = rid" "row_key r = (i, phase_name p, att)"
      using ro by (auto simp: row_of_def)
    obtain a where a: "a \<in> set (tl_rows (w_ledger w))" "lr_id a = rid" "lr_state a = Reserved" using t(3) [OF st] by blast
    have "inj_on lr_id (set (tl_rows (w_ledger w)))" using m(1) by (simp add: ledger_inv_def distinct_map)
    then have "a = r" using a r by (metis inj_onD)
    with a(3) have "r\<lparr>lr_state := SettledRow, lr_actual := Some n\<rparr> \<in> set (tl_rows l)" using t(4) [OF st r(1,2)] by simp
    moreover have "row_key (r\<lparr>lr_state := SettledRow, lr_actual := Some n\<rparr>) = (i, phase_name p, att)"
      using r(3) by (simp add: row_key_def)
    ultimately show ?thesis unfolding w' by fastforce
  qed
qed

lemma holds_unique: "holds w i h \<Longrightarrow> holds w i h' \<Longrightarrow> h' = h"
  by (auto simp: holds_def split: option.splits)

lemma settle_in_store: "settle_in rid tokens (w\<lparr>w_store := s\<rparr>) =
    ((fst (settle_in rid tokens w))\<lparr>w_store := s\<rparr>, snd (settle_in rid tokens w))"
  by (auto simp: settle_in_def split: prod.splits sum.splits)

lemma take_next_PHASES: "n < 4 \<Longrightarrow> map phase_name (take (Suc n) PHASES) = map phase_name (take n PHASES) @ [phase_name (PHASES ! n)]"
  by (simp add: take_Suc_conv_app_nth)

lemma add_phase:
  assumes w: "world_inv lims w" and q: "recordPhase t q (w_store w) = (s, Inr u)" "pr_runId q = i"
      "pr_phase q = phase_name (PHASES ! n)" "pr_status q = PhaseComplete" "pr_output q \<noteq> None" "paid w q"
    and n: "n < 4" "map pr_phase (recs w i) = map phase_name (take n PHASES)" "waiting w i = []" and h: "holds w i h"
  shows "guar lims w (w\<lparr>w_store := s\<rparr>) h"
    and "recs (w\<lparr>w_store := s\<rparr>) k = recs w k @ (if k = i then [q\<lparr>pr_createdAt := t\<rparr>] else [])"
proof -
  define w' where "w' = w\<lparr>w_store := s\<rparr>"
  define q' where "q' = q\<lparr>pr_createdAt := t\<rparr>"
  have s: "s = (w_store w)\<lparr>st_phases := st_phases (w_store w) @ [q']\<rparr>"
    using q(1) by (auto simp: recordPhase_def q'_def split: if_splits)
  have recs: "recs w' k = recs w k @ (if k = i then [q'] else [])" for k
    using q(2) by (simp add: recs_def w'_def s q'_def)
  show "recs (w\<lparr>w_store := s\<rparr>) k = recs w k @ (if k = i then [q\<lparr>pr_createdAt := t\<rparr>] else [])"
    using recs by (simp add: w'_def q'_def)
  have same: "waiting w' k = waiting w k" "asked w' k p = asked w k p" "row_of w' rid k p att = row_of w rid k p att"
    "paid w' r = paid w r" "holds w' k g = holds w k g" for k p rid att r g
    by (simp_all add: w'_def waiting_def asked_def row_of_def paid_def holds_def)
  have grows: "recorded w k p x \<Longrightarrow> recorded w' k p x" for k p x by (auto simp: recorded_def recs)
  have ex: "run_exists s k = run_exists (w_store w) k" for k by (simp add: s run_exists_def)
  have "run_ok w' k" for k
  proof (cases "k = i")
    case True
    have "map pr_phase (recs w' i) = map phase_name (take (Suc n) PHASES)"
      unfolding take_next_PHASES [OF n(1)] using n(2) q(3) by (simp add: recs q'_def)
    with True n(1,3) same show ?thesis unfolding run_ok_def by (intro exI [of _ "Suc n"]) simp
  next
    case False
    with world_inv_run [OF w, of k] same show ?thesis by (simp add: run_ok_def recs)
  qed
  moreover have "rec_ok w' r" if "r \<in> set (st_phases (w_store w'))" for r
  proof (cases "r = q'")
    case True
    have "paid w q' = paid w q" by (simp add: paid_def q'_def)
    with True q(4-6) same show ?thesis by (simp add: rec_ok_def q'_def)
  next
    case False
    with that have "r \<in> set (st_phases (w_store w))" by (simp add: w'_def s)
    with w same show ?thesis by (simp add: world_inv_def rec_ok_def)
  qed
  moreover have "done_ok w' r" if "r \<in> set (st_runs (w_store w'))" for r
  proof -
    from that have "done_ok w r" using w by (simp add: world_inv_def w'_def s)
    with grows show ?thesis by (auto simp: done_ok_def w'_def) metis
  qed
  moreover have "keys_ok w'" "money_ok lims w'"
    using w recordPhase_wf [of "w_store w" t q] q(1) ex
    by (simp_all add: world_inv_def keys_ok_def money_ok_def w'_def)
  ultimately have inv: "world_inv lims w'" by (simp add: world_inv_def)
  have "rely w w' k h'" if "h' \<noteq> h" for k h'
  proof -
    have "k \<noteq> i" if "holds w k h'" using that h holds_unique \<open>h' \<noteq> h\<close> by blast
    then have "recorded w' k p x = recorded w k p x" if "holds w k h'" for p x using that by (simp add: recorded_def recs)
    moreover have "run_exists (w_store w') k = run_exists (w_store w) k" "w_files w' = w_files w" using ex by (simp_all add: w'_def)
    ultimately show ?thesis using same grows unfolding rely_def by simp
  qed
  with inv ex show "guar lims w (w\<lparr>w_store := s\<rparr>) h" by (simp add: guar_def w'_def [symmetric]) (simp add: w'_def)
qed

lemma guar_inv: "guar lims w w' h \<Longrightarrow> world_inv lims w'"
  by (simp add: guar_def)

lemma and_then_Inr: "and_then r f = (w', Inr u) \<longleftrightarrow> (\<exists>w1. r = (w1, Inr ()) \<and> f w1 = (w', Inr u))"
  by (cases r) (auto simp: and_then_def split: sum.splits)

lemma open_same:
  assumes "\<And>k p x. recorded w' k p x = recorded w k p x" "\<And>k p. asked w' k p = asked w k p"
    "w_files w' = w_files w" "\<And>k g. holds w' k g = holds w k g"
  shows "open_phase w' h j p = open_phase w h j p"
  using assms by (simp add: open_phase_def current_def)

lemma commit_phase_guar:
  assumes w: "world_inv lims w" and b: "job_base w iss j" and o: "open_phase w h j p"
    and r: "reserved_for w h j p att" "jb_reservation j = Some rid"
    and c: "commitPhase opts h t (jb_run j) p att rid tokens text w = (w', Inr u)"
  shows "guar lims w w' h" "holds w (jb_run j) h" "recorded w' (jb_run j) p text"
    and "holds w' (jb_run j) h \<Longrightarrow> current w' (saved_job j p text)"
    and "recorded w k q x \<Longrightarrow> recorded w' k q x"
proof -
  let ?i = "jb_run j"
  define q where "q = \<lparr>pr_runId = ?i, pr_phase = phase_name p, pr_attempt = att,
    pr_status = PhaseComplete, pr_output = Some text, pr_createdAt = t\<rparr>"
  obtain w1 w2 where w1: "renewLease opts h ?i t w = (w1, Inr ())"
      and w2: "(case recordPhase t q (w_store w1) of
         (s, Inr _) \<Rightarrow> (w1\<lparr>w_store := s\<rparr>, Inr ()) | (_, Inl _) \<Rightarrow> (w1, Inl Thrown)) = (w2, Inr ())"
      and w3: "settle_in rid tokens w2 = (w', Inr u)"
    using c unfolding commitPhase_def and_then_Inr q_def by blast
  note renew = renew_guar [OF w w1]
  obtain s v where s: "recordPhase t q (w_store w1) = (s, Inr v)" "w2 = w1\<lparr>w_store := s\<rparr>"
    using w2 by (auto split: prod.splits sum.splits)
  obtain w4 where w4: "settle_in rid tokens w1 = (w4, Inr u)" and w': "w' = w4\<lparr>w_store := s\<rparr>"
    using w3 unfolding s(2) settle_in_store by (metis prod.collapse prod.inject)
  note settle = settle_facts [OF guar_inv [OF renew(1)] w4]
  obtain l where l: "w4 = w1\<lparr>w_ledger := l\<rparr>" using settle(2) by blast
  have i4: "world_inv lims w4" by (rule guar_inv [OF settle(1)])
  have same: "recs w4 k = recs w k" "waiting w4 k = waiting w k" "asked w4 k g = asked w k g"
      "recorded w4 k g x = recorded w k g x" "w_files w4 = w_files w" "holds w4 k h' = holds w k h'" for k g x h'
    using renew(3,4) by (simp_all add: l views holds_def)
  show hw: "holds w ?i h" by (rule renew(2))
  obtain n where n: "n < 4" "PHASES ! n = p" "map pr_phase (recs w ?i) = map phase_name (take n PHASES)" "waiting w ?i = []"
      "jb_todo j = drop n PHASES"
    using open_next [OF w b o hw] by metis
  have ro: "row_of w1 rid ?i p att" using r hw renew(4) by (simp add: reserved_for_def row_of_def)
  have pd: "paid w4 q" using settle(4) [OF ro] by (simp add: paid_def q_def)
  have s4: "recordPhase t q (w_store w4) = (s, Inr v)" using s(1) by (simp add: l)
  have add: "guar lims w4 w' h" "recs w' k = recs w k @ (if k = ?i then [q\<lparr>pr_createdAt := t\<rparr>] else [])" for k
    using add_phase [OF i4 s4, of ?i n h] n same hw pd by (simp_all add: q_def w')
  show "guar lims w w' h" using guar_trans [OF renew(1) guar_trans [OF settle(1) add(1)]] .
  show rp: "recorded w' ?i p text" by (simp add: recorded_def add(2) q_def)
  show "recorded w k q x \<Longrightarrow> recorded w' k q x" for k q x by (auto simp: recorded_def add(2))
  show "current w' (saved_job j p text)" if "holds w' ?i h"
  proof -
    have cur: "current w j" using o hw by (simp add: open_phase_def)
    have new: "recorded w' ?i g x \<longleftrightarrow> recorded w ?i g x \<or> g = p \<and> x = text" for g x
      by (auto simp: recorded_def add(2) q_def)
    have files: "w_files w' = w_files w" using same(5) by (simp add: w')
    have inp: "p \<in> set (jb_todo j)" using o by (auto simp: open_phase_def at_phase_def intro: hd_in_set)
    show ?thesis using cur inp unfolding current_def saved_job_def
      by (auto simp: update_conv' new files split: if_splits)
  qed
qed

lemma add_question:
  assumes w: "world_inv lims w" and d: "insertDecision t i p att dn w = (w', Inr u)"
    and n: "n < 4" "PHASES ! n = p" "map pr_phase (recs w i) = map phase_name (take n PHASES)" "waiting w i = []"
    and h: "holds w i h"
  shows "guar lims w w' h"
proof -
  obtain x where w': "w' = w\<lparr>w_decisions := w_decisions w @ [x], w_dseq := w_dseq w + 1\<rparr>"
      and x: "dc_id x = w_dseq w + 1" "dc_run x = i" "dc_phase x = phase_name p" "dc_answer x = None"
      and ex: "run_exists (w_store w) i"
    using d by (auto simp: insertDecision_def split: if_splits)
  have same: "recs w' k = recs w k" "recorded w' k q y = recorded w k q y" "row_of w' rid k q a = row_of w rid k q a"
      "paid w' r = paid w r" "holds w' k g = holds w k g" for k q y rid a r g
    by (simp_all add: w' views holds_def)
  have wait: "waiting w' k = waiting w k @ (if k = i then [x] else [])" for k
    using x by (simp add: waiting_def w')
  have "run_ok w' k" for k
  proof (cases "k = i")
    case True
    with n x show ?thesis unfolding run_ok_def by (intro exI [of _ n]) (simp add: wait same)
  next
    case False
    with world_inv_run [OF w, of k] show ?thesis by (simp add: run_ok_def wait same)
  qed
  moreover have "keys_ok w'"
  proof -
    have "\<forall>d \<in> set (w_decisions w). dc_run d = dc_run x \<longrightarrow> dc_answer d \<noteq> None"
      using n(4) x(2) by (auto simp: waiting_def filter_empty_conv)
    moreover have "\<forall>d \<in> set (w_decisions w). dc_id d \<le> w_dseq w" using world_inv_keys [OF w] by (simp add: keys_ok_def)
    moreover from this have "\<forall>d \<in> set (w_decisions w). dc_id d \<le> dc_id x" "dc_id x \<notin> dc_id ` set (w_decisions w)"
      using x(1) by force+
    ultimately show ?thesis using world_inv_keys [OF w] ex x last_asked_snoc [of "w_decisions w" x]
      by (auto simp: keys_ok_def w')
  qed
  moreover have "money_ok lims w'" "\<forall>r \<in> set (st_runs (w_store w')). done_ok w' r" "\<forall>q \<in> set (st_phases (w_store w')). rec_ok w' q"
    using w same by (simp_all add: world_inv_def money_ok_def done_ok_def rec_ok_def w')
  ultimately have "world_inv lims w'" by (simp add: world_inv_def)
  moreover have "rely w w' k h'" if "h' \<noteq> h" for k h'
  proof -
    have "k \<noteq> i" if "holds w k h'" using that h holds_unique \<open>h' \<noteq> h\<close> by blast
    then have "asked w' k q \<Longrightarrow> asked w k q" if "holds w k h'" for q using that by (simp add: asked_def wait)
    moreover have "w_files w' = w_files w" "w_store w' = w_store w" by (simp_all add: w')
    ultimately show ?thesis using same unfolding rely_def by simp
  qed
  ultimately show ?thesis by (simp add: guar_def w')
qed

lemma commit_decision_guar:
  assumes w: "world_inv lims w" and b: "job_base w iss j" and o: "open_phase w h j p"
    and c: "commitDecision opts h t (jb_run j) p att rid tokens d w = (w', Inr u)"
  shows "guar lims w w' h" "holds w (jb_run j) h" "recorded w' k q x = recorded w k q x"
proof -
  let ?i = "jb_run j"
  obtain w1 w2 w3 where w1: "renewLease opts h ?i t w = (w1, Inr ())" and w2: "settle_in rid tokens w1 = (w2, Inr ())"
      and w3: "insertDecision t ?i p att d w2 = (w3, Inr ())"
      and w': "w' = patch_store t ?i \<lparr>pt_status = Some PausedForDecision, pt_currentPhase = None,
          pt_reason = Some (Some (pd_question d))\<rparr> w3"
    using c unfolding commitDecision_def and_then_Inr by auto
  note renew = renew_guar [OF w w1]
  note settle = settle_facts [OF guar_inv [OF renew(1)] w2]
  obtain l where l: "w2 = w1\<lparr>w_ledger := l\<rparr>" using settle(2) by blast
  have same: "recs w2 k = recs w k" "waiting w2 k = waiting w k" "holds w2 k h' = holds w k h'" for k h'
    using renew(3,4) by (simp_all add: l views holds_def)
  show hw: "holds w ?i h" by (rule renew(2))
  obtain n where n: "n < 4" "PHASES ! n = p" "map pr_phase (recs w ?i) = map phase_name (take n PHASES)" "waiting w ?i = []"
      "jb_todo j = drop n PHASES"
    using open_next [OF w b o hw] by metis
  have add: "guar lims w2 w3 h"
    using add_question [OF guar_inv [OF settle(1)] w3 n(1,2), of h] n(3,4) hw same by simp
  have "guar lims w3 w' h" unfolding w' by (rule patch_guar [OF guar_inv [OF add]]) simp
  with guar_trans [OF renew(1) guar_trans [OF settle(1) guar_trans [OF add]]] show "guar lims w w' h" .
  have "w_store w3 = w_store w2" using w3 by (auto simp: insertDecision_def split: if_splits)
  then show "recorded w' k q x = recorded w k q x"
    using same(1) [of k] by (simp add: w' recorded_def recs_def)
qed

lemma write_guar:
  assumes w: "world_inv lims w" and x: "run_exists (w_store w) i \<longrightarrow> recorded w i p x"
  shows "guar lims w (writeArtifact i p x ok w) h"
    and "recorded (writeArtifact i p x ok w) k q y = recorded w k q y"
    and "holds (writeArtifact i p x ok w) k g = holds w k g"
    and "w_store (writeArtifact i p x ok w) = w_store w"
    and "ok \<noteq> Fails \<Longrightarrow> jm_get (w_files (writeArtifact i p x ok w)) = (jm_get (w_files w))((i, p) \<mapsto> x)"
proof -
  let ?w = "writeArtifact i p x ok w"
  have f: "jm_get (w_files ?w) = (if ok = Fails then jm_get (w_files w) else (jm_get (w_files w))((i, p) \<mapsto> x))"
    by (simp add: writeArtifact_def update_conv' fun_upd_def)
  then show "ok \<noteq> Fails \<Longrightarrow> jm_get (w_files ?w) = (jm_get (w_files w))((i, p) \<mapsto> x)" by metis
  have same: "recorded ?w k q y = recorded w k q y" "recs ?w k = recs w k" "waiting ?w k = waiting w k" "asked ?w k q = asked w k q"
    "row_of ?w rid k q a = row_of w rid k q a" "paid ?w r = paid w r" "holds ?w k g = holds w k g" "w_store ?w = w_store w"
    "w_ledger ?w = w_ledger w" "w_leases ?w = w_leases w" "w_decisions ?w = w_decisions w" "w_dseq ?w = w_dseq w" for k q y rid a r g
    by (simp_all add: writeArtifact_def views holds_def)
  show "recorded ?w k q y = recorded w k q y" "holds ?w k g = holds w k g" "w_store ?w = w_store w" by (rule same)+
  have keep: "jm_get (w_files ?w) (k, q) = Some y" if "run_exists (w_store w) k" "recorded w k q y" "jm_get (w_files w) (k, q) = Some y" for k q y
    using that x recorded_unique [OF w, of k q y x] by (auto simp: f)
  have "done_ok ?w r" if "r \<in> set (st_runs (w_store w))" for r
  proof -
    have "run_exists (w_store w) (rn_id r)" "done_ok w r" using that w by (auto simp: run_exists_iff world_inv_def)
    with keep show ?thesis unfolding done_ok_def same by metis
  qed
  then have "world_inv lims ?w"
    using w by (simp add: world_inv_def keys_ok_def money_ok_def run_ok_def rec_ok_def same)
  moreover have "rely w ?w k g" for k g
    using keep holds_exists [OF world_inv_keys [OF w], of k g] by (simp add: rely_def same)
  ultimately show "guar lims w ?w h" by (simp add: guar_def same)
qed

subsection \<open>A worker's move\<close>

definition move_ok :: "ledger_limits \<Rightarrow> world \<Rightarrow> string list \<Rightarrow> string \<Rightarrow> world \<times> wpc \<Rightarrow> bool" where
  "move_ok lims w iss h r \<longleftrightarrow> guar lims w (fst r) h \<and> pc_inv (fst r) iss h (snd r)"

lemma isPhase_Some: "isPhase s = Some p \<longleftrightarrow> s = phase_name p"
proof
  assume "isPhase s = Some p"
  then show "s = phase_name p" by (auto simp: isPhase_def find_Some_iff)
qed simp

lemma completed_lookup:
  "\<forall>q \<in> set qs. pr_status q = PhaseComplete \<and> pr_output q \<noteq> None \<Longrightarrow>
   (case jm_get (foldl (\<lambda>outputs q. if pr_status q = PhaseComplete then
         (case isPhase (pr_phase q) of Some p \<Rightarrow> jm_set p (case pr_output q of Some x \<Rightarrow> x | None \<Rightarrow> []) outputs | None \<Rightarrow> outputs)
       else outputs) [] qs) p of
     Some x \<Rightarrow> \<exists>q \<in> set qs. pr_phase q = phase_name p \<and> pr_output q = Some x
   | None \<Rightarrow> \<forall>q \<in> set qs. pr_phase q \<noteq> phase_name p)"
proof (induction qs rule: rev_induct)
  case Nil
  then show ?case by simp
next
  case (snoc q qs)
  obtain x where x: "pr_output q = Some x" "pr_status q = PhaseComplete" using snoc.prems by auto
  show ?case
  proof (cases "isPhase (pr_phase q) = Some p")
    case True
    with x show ?thesis by (simp add: update_conv' isPhase_Some)
  next
    case False
    then have "pr_phase q \<noteq> phase_name p" by (simp add: isPhase_Some [symmetric])
    with False x snoc show ?thesis by (auto simp: update_conv' split: option.splits)
  qed
qed

lemma completedOutputs_recorded:
  assumes w: "world_inv lims w"
  shows "jm_get (completedOutputs i w) p = Some x \<Longrightarrow> recorded w i p x"
    and "jm_get (completedOutputs i w) p = None \<Longrightarrow> \<not> recorded w i p x"
proof -
  have "\<forall>q \<in> set (listPhases i (w_store w)). pr_status q = PhaseComplete \<and> pr_output q \<noteq> None"
    using w by (auto simp: listPhases_set world_inv_def rec_ok_def)
  note look = completed_lookup [OF this, of p, folded completedOutputs_def]
  have set: "set (listPhases i (w_store w)) = set (recs w i)" by (auto simp: listPhases_set recs_def)
  show "jm_get (completedOutputs i w) p = Some x \<Longrightarrow> recorded w i p x"
    "jm_get (completedOutputs i w) p = None \<Longrightarrow> \<not> recorded w i p x"
    using look unfolding set by (auto simp: recorded_def)
qed

lemma move_same: "world_inv lims w \<Longrightarrow> pc_inv w iss h pc \<Longrightarrow> move_ok lims w iss h (w, pc)"
  by (simp add: move_ok_def guar_refl)

lemma pc_inv_throw: "job_base w iss j \<Longrightarrow> pc_inv w iss h (throw_to j e)"
  by (cases e) (simp_all add: throw_to_def pc_inv_def)

lemma base_simps [simp]:
  "job_base w iss (j\<lparr>jb_reservation := v\<rparr>) = job_base w iss j"
  by (simp add: job_base_def)

lemma current_simps [simp]: "current w (j\<lparr>jb_reservation := v\<rparr>) = current w j"
  by (simp add: current_def)

lemma at_phase_simps [simp]: "at_phase (j\<lparr>jb_reservation := v\<rparr>) p = at_phase j p"
  by (simp add: at_phase_def)

lemma open_phase_simps [simp]: "open_phase w h (j\<lparr>jb_reservation := v\<rparr>) p = open_phase w h j p"
  by (simp add: open_phase_def)

lemma base_same: "w_store w' = w_store w \<Longrightarrow> job_base w' iss j = job_base w iss j"
  by (simp add: job_base_def recorded_def recs_def)

lemma base_guar:
  "guar lims w w' h \<Longrightarrow> (\<And>p x. recorded w (jb_run j) p x \<Longrightarrow> recorded w' (jb_run j) p x) \<Longrightarrow> job_base w iss j \<Longrightarrow> job_base w' iss j"
  by (auto simp: job_base_def guar_def)

lemma newest_row_None: "newest_row P w = None \<longleftrightarrow> filter P (w_decisions w) = []"
proof -
  have "newest_row P w = None \<longleftrightarrow> sort_key dc_id (filter P (w_decisions w)) = []"
    by (simp add: newest_row_def split: list.splits)
  also have "\<dots> \<longleftrightarrow> filter P (w_decisions w) = []" by (metis length_0_conv length_sort)
  finally show ?thesis .
qed

lemma newest_row_Some: "newest_row P w = Some d \<Longrightarrow> d \<in> set (w_decisions w) \<and> P d"
proof -
  assume "newest_row P w = Some d"
  then obtain ds where "rev (sort_key dc_id (filter P (w_decisions w))) = d # ds"
    by (auto simp: newest_row_def split: list.splits)
  then have "d \<in> set (rev (sort_key dc_id (filter P (w_decisions w))))" by (metis list.set_intros(1))
  then show ?thesis by (simp only: set_rev set_sort set_filter mem_Collect_eq)
qed

lemma not_asked: "pendingQuestion i p w = None \<Longrightarrow> \<not> asked w i p"
  by (auto simp: pendingQuestion_def newest_row_None asked_def waiting_def filter_empty_conv)

lemma reserve_facts:
  assumes w: "world_inv lims w"
    and r: "ledger_reserve lims (run_exists (w_store w)) ok inp t (w_ledger w) = (l, Inr rid)"
    and inp: "ri_runId inp = i" "ri_phase inp = phase_name p" "ri_attempt inp = att"
  shows "guar lims w (w\<lparr>w_ledger := l\<rparr>) h" "rely w (w\<lparr>w_ledger := l\<rparr>) k g" "row_of (w\<lparr>w_ledger := l\<rparr>) rid i p att"
proof -
  have m: "ledger_inv lims (w_ledger w)" "\<forall>r \<in> set (tl_rows (w_ledger w)). row_nonneg r"
    using w by (simp_all add: world_inv_def money_ok_def)
  have later: "ledger_later (w_ledger w) l"
    using ledger_step_later [of "w_ledger w" lims "run_exists (w_store w)" ok "Reserve inp t"] r by simp
  have inv: "ledger_inv lims l" using reserve_inv [OF m(1), of "run_exists (w_store w)" ok inp t] r by simp
  obtain n row where row: "0 < n" "l = \<lparr>tl_rows = tl_rows (w_ledger w) @ [row], tl_seq = tl_seq (w_ledger w) + 1\<rparr>"
      "rid = tl_seq (w_ledger w) + 1"
      "row = \<lparr>lr_id = tl_seq (w_ledger w) + 1, lr_run = ri_runId inp, lr_phase = ri_phase inp, lr_attempt = ri_attempt inp,
         lr_day = iso_day t, lr_reserved = n, lr_actual = None, lr_state = Reserved\<rparr>"
  proof (cases rule: reserve_cases [of lims "run_exists (w_store w)" ok inp t "w_ledger w"])
    case (refused e)
    with r show thesis by simp
  next
    case (recorded n row)
    have "l = \<lparr>tl_rows = tl_rows (w_ledger w) @ [row], tl_seq = tl_seq (w_ledger w) + 1\<rparr>" "rid = tl_seq (w_ledger w) + 1"
      using r unfolding recorded(3) by (auto simp only: prod.inject sum.inject)
    then show thesis by (rule that [OF recorded(2) _ _ recorded(4)])
  qed
  have "\<forall>r \<in> set (tl_rows l). row_nonneg r" using m(2) row by (auto simp: row_nonneg_def row_spent_def)
  with world_inv_ledger [OF w later inv] rely_ledger [OF later]
  show "guar lims w (w\<lparr>w_ledger := l\<rparr>) h" "rely w (w\<lparr>w_ledger := l\<rparr>) k g" by (simp_all add: guar_def)
  show "row_of (w\<lparr>w_ledger := l\<rparr>) rid i p att" using row inp by (simp add: row_of_def row_key_def)
qed

lemma drop_PHASES_tl: "jb_todo j = p # ps \<Longrightarrow> job_base w iss j \<Longrightarrow> job_base w iss (j\<lparr>jb_todo := ps\<rparr>)"
proof -
  assume t: "jb_todo j = p # ps" and b: "job_base w iss j"
  then obtain k where k: "k \<le> 4" "drop k PHASES = p # ps" by (auto simp: job_base_def)
  then have "k < 4" by (cases "k = 4") simp_all
  moreover have "drop (Suc k) PHASES = ps" using k(2) by (metis drop_Suc list.sel(3) tl_drop)
  ultimately have "\<exists>k \<le> 4. ps = drop k PHASES" by (intro exI [of _ "Suc k"]) simp
  with b show ?thesis by (simp add: job_base_def)
qed

lemma pc_inv_job: "pc_job pc = Some j \<Longrightarrow> pc_inv w iss h pc \<longleftrightarrow> pc_knows w h pc \<and> job_base w iss j"
  by (simp add: pc_inv_def)

lemma loop_move_ok:
  assumes w: "world_inv lims w" and b: "job_base w iss j" and c: "holds w (jb_run j) h \<longrightarrow> current w j"
  shows "move_ok lims w iss h (loop_move ok j w)"
proof (cases "jb_todo j")
  case Nil
  with move_same [OF w] b c show ?thesis by (simp add: loop_move_def pc_inv_def)
next
  case (Cons p ps)
  show ?thesis
  proof (cases "jm_get (jb_outputs j) p")
    case None
    then have at: "at_phase j p" using Cons by (simp add: at_phase_def)
    show ?thesis
    proof (cases "pendingQuestion (jb_run j) p w")
      case None
      with at c not_asked have "open_phase w h j p" by (simp add: open_phase_def)
      with move_same [OF w] b Cons \<open>jm_get (jb_outputs j) p = None\<close> None show ?thesis
        by (simp add: loop_move_def pc_inv_def)
    next
      case (Some q)
      with move_same [OF w] b Cons \<open>jm_get (jb_outputs j) p = None\<close> show ?thesis
        by (simp add: loop_move_def pc_inv_def pause_def)
    qed
  next
    case (Some x)
    have rec: "run_exists (w_store w) (jb_run j) \<longrightarrow> recorded w (jb_run j) p x" using b Some by (simp add: job_base_def)
    have b': "job_base w iss (j\<lparr>jb_todo := ps\<rparr>)" by (rule drop_PHASES_tl [OF Cons b])
    show ?thesis
    proof (cases "jm_get (w_files w) (jb_run j, p) = Some x")
      case True
      have "current w (j\<lparr>jb_todo := ps\<rparr>)" if "current w j"
        using that True Some Cons unfolding current_def by auto
      with move_same [OF w] b' c True Some Cons show ?thesis by (simp add: loop_move_def pc_inv_def)
    next
      case False
      let ?w = "writeArtifact (jb_run j) p x ok w"
      note g = write_guar [OF w rec]
      have cur: "current ?w (j\<lparr>jb_todo := ps\<rparr>)" if "current w j" "ok = Works"
        using that g(5) [of ok] Some Cons unfolding current_def by (auto simp: g(2))
      have "pc_inv ?w iss h (if ok = Works then Looping (j\<lparr>jb_todo := ps\<rparr>) else Leaving j None)"
        using cur c b b' by (auto simp: pc_inv_def g(3,4) base_same [OF g(4)])
      with g(1) False Some Cons show ?thesis by (simp add: loop_move_def move_ok_def)
    qed
  qed
qed

lemma set_status_cases:
  assumes "setTerminalStatus opts h t ok i p w = (w', r)"
  obtains (lost) e where "r = Inl e" "w' = w"
  | (set) w1 where "r = Inr ()" "renewLease opts h i t w = (w1, Inr ())" "w' = patch_store t i p w1"
  using assms by (auto simp: setTerminalStatus_def split: if_splits prod.splits sum.splits)

lemma ending_move_ok:
  assumes w: "world_inv (wo_limits opts) w" and b: "job_base w iss j"
    and c: "pt_status p = Some RunComplete \<longrightarrow> jb_todo j = [] \<and> (holds w (jb_run j) h \<longrightarrow> current w j)"
  shows "move_ok (wo_limits opts) w iss h (worker_move opts h t ok reply (Ending j p res release) w)"
proof -
  obtain w' r where s: "setTerminalStatus opts h t ok (jb_run j) p w = (w', r)" by fastforce
  then show ?thesis
  proof (cases rule: set_status_cases)
    case (lost e)
    with s move_same [OF w] pc_inv_throw [OF b] show ?thesis by simp
  next
    case (set w1)
    note renew = renew_guar [OF w set(2)]
    have same: "recorded w1 k q x = recorded w k q x" for k q x using renew(4) by (simp add: views)
    have full: "\<forall>q. \<exists>x. recorded w1 (jb_run j) q x \<and> jm_get (w_files w1) (jb_run j, q) = Some x" if "pt_status p = Some RunComplete"
    proof -
      have "current w j" "jb_todo j = []" using c that renew(2) by simp_all
      moreover have "run_exists (w_store w) (jb_run j)" by (rule holds_exists [OF world_inv_keys [OF w] renew(2)])
      ultimately show ?thesis using b renew(4) unfolding current_def job_base_def same by (metis empty_iff list.set(1))
    qed
    have g: "guar (wo_limits opts) w w' h"
      using guar_trans [OF renew(1) patch_guar [OF guar_inv [OF renew(1)] full]] set(3) by simp
    have "job_base w' iss j" by (rule base_guar [OF g _ b]) (simp add: set(3) same)
    with g s set(1) show ?thesis by (simp add: move_ok_def pc_inv_def)
  qed
qed

lemma transact_cases:
  assumes "transact ok f w = (w', r)"
  obtains (thrown) e where "r = Inl e" "w' = w" | (done') "r = Inr ()" "f w = (w', Inr ())"
  using assms by (auto simp: transact_def split: if_splits prod.splits sum.splits)

lemma commit_move_ok:
  assumes w: "world_inv (wo_limits opts) w" and b: "job_base w iss j"
    and o: "open_phase w h j p" and r: "reserved_for w h j p att"
  shows "move_ok (wo_limits opts) w iss h (commit_move opts h t ok j p att text tokens w)"
proof -
  obtain rid where rid: "jb_reservation j = Some rid" using r by (auto simp: reserved_for_def)
  show ?thesis
  proof (cases "parseDecision (wo_json opts) text")
    case (Some d)
    obtain w' v where v: "transact ok (commitDecision opts h t (jb_run j) p att rid tokens d) w = (w', v)" by fastforce
    then show ?thesis
    proof (cases rule: transact_cases)
      case (thrown e)
      with v Some rid move_same [OF w] pc_inv_throw [OF b] show ?thesis by (simp add: commit_move_def)
    next
      case done'
      note g = commit_decision_guar [OF w b o done'(2)]
      have "job_base w' iss j" by (rule base_guar [OF g(1) _ b]) (simp add: g(3))
      with g(1) v Some rid done'(1) show ?thesis by (simp add: commit_move_def move_ok_def pc_inv_def)
    qed
  next
    case None
    obtain w' v where v: "transact ok (commitPhase opts h t (jb_run j) p att rid tokens text) w = (w', v)" by fastforce
    then show ?thesis
    proof (cases rule: transact_cases)
      case (thrown e)
      with v None rid move_same [OF w] pc_inv_throw [OF b] show ?thesis by (simp add: commit_move_def)
    next
      case done'
      note g = commit_phase_guar [OF w b o r rid done'(2)]
      have "job_base w' iss j" by (rule base_guar [OF g(1) _ b]) (rule g(5))
      moreover have "current w' (saved_job (j\<lparr>jb_reservation := None\<rparr>) p text)" if "holds w' (jb_run j) h"
        using g(4) [OF that] by (simp add: saved_job_def current_def)
      moreover have "jb_todo j \<noteq> []" "hd (jb_todo j) = p" using o by (simp_all add: open_phase_def at_phase_def)
      ultimately show ?thesis using g(1,3) v None rid done'(1) by (simp add: commit_move_def move_ok_def pc_inv_def)
    qed
  qed
qed

lemma reserve_move_ok:
  assumes w: "world_inv (wo_limits opts) w" and b: "job_base w iss j" and o: "open_phase w h j p"
  shows "move_ok (wo_limits opts) w iss h (reserve_move opts t ok j p att prompt w)"
proof -
  define inp where "inp = \<lparr>ri_runId = jb_run j, ri_phase = phase_name p, ri_attempt = att,
          ri_estimatedTokens = Fin (of_int (estimatedTokens (SYSTEM_PROMPTS p) prompt))\<rparr>"
  obtain l v where v: "ledger_reserve (wo_limits opts) (run_exists (w_store w)) (ok = Works) inp t (w_ledger w) = (l, v)" by fastforce
  show ?thesis
  proof (cases v)
    case (Inl e)
    have "pc_inv w iss h (snd (reserve_move opts t ok j p att prompt w)) \<and> fst (reserve_move opts t ok j p att prompt w) = w"
      using v [unfolded inp_def] Inl b by (cases e) (simp_all add: reserve_move_def pc_inv_def pause_def)
    with guar_refl [OF w] show ?thesis by (simp add: move_ok_def)
  next
    case (Inr rid)
    note f = reserve_facts [OF w v [unfolded Inr], of "jb_run j" p att]
    let ?j = "j\<lparr>jb_reservation := Some rid\<rparr>"
    have inp: "ri_runId inp = jb_run j" "ri_phase inp = phase_name p" "ri_attempt inp = att" by (simp_all add: inp_def)
    have "open_phase (w\<lparr>w_ledger := l\<rparr>) h ?j p"
      using o by (simp add: open_phase_def current_def views holds_def)
    moreover have "reserved_for (w\<lparr>w_ledger := l\<rparr>) h ?j p att" using f(3) [OF inp] by (simp add: reserved_for_def)
    moreover have "job_base (w\<lparr>w_ledger := l\<rparr>) iss ?j" using b by (simp add: job_base_def views)
    moreover have "reserve_move opts t ok j p att prompt w = (w\<lparr>w_ledger := l\<rparr>, Marking ?j p att prompt)"
      using v [unfolded inp_def] Inr by (simp add: reserve_move_def)
    ultimately show ?thesis using f(1) [OF inp] by (simp add: move_ok_def pc_inv_def)
  qed
qed

lemma release_move_ok:
  assumes w: "world_inv lims w" and b: "job_base w iss j"
  shows "move_ok lims w iss h (release_move ok j res w)"
proof (cases "jb_reservation j")
  case None
  with move_same [OF w] b show ?thesis by (simp add: release_move_def pc_inv_def)
next
  case (Some rid)
  obtain w' r where r: "abandonReservation ok rid w = (w', r)" by fastforce
  have g: "w_store w' = w_store w" "guar lims w w' h"
    using abandon_store [OF r] abandon_guar [OF w, of ok rid h] unfolding r by simp_all
  then have "job_base w' iss j" using b base_same [OF g(1)] by simp
  with g(2) Some r show ?thesis by (cases r) (simp_all add: release_move_def move_ok_def pc_inv_job)
qed

lemma saving_move_ok:
  assumes w: "world_inv lims w" and b: "job_base w iss j"
    and k: "pc_knows w h (Saving j p x)"
  shows "move_ok lims w iss h (worker_move opts h t ok reply (Saving j p x) w)"
proof -
  let ?w = "writeArtifact (jb_run j) p x ok w"
  let ?j = "j\<lparr>jb_todo := tl (jb_todo j), jb_outputs := jm_set p x (jb_outputs j)\<rparr>"
  have rec: "run_exists (w_store w) (jb_run j) \<longrightarrow> recorded w (jb_run j) p x" using k by simp
  note g = write_guar [OF w rec]
  obtain ps where ps: "jb_todo j = p # ps" using k by (cases "jb_todo j") simp_all
  have b': "job_base w iss ?j"
    using drop_PHASES_tl [OF ps b] b rec by (auto simp: ps job_base_def update_conv')
  have cur: "current ?w ?j" if "current w (saved_job j p x)" "ok = Works"
    using that g(5) [of ok] ps unfolding current_def saved_job_def by (auto simp: g(2) update_conv')
  have "pc_inv ?w iss h (if ok = Works then Looping ?j else Leaving j None)"
    using cur k b b' by (auto simp: pc_inv_def g(3,4) base_same [OF g(4)])
  with g(1) show ?thesis by (simp add: move_ok_def)
qed

lemma worker_move_ok:
  assumes w: "world_inv (wo_limits opts) w" and p: "pc_inv w iss h pc"
    and ids: "\<forall>i. run_exists (w_store w) i \<longrightarrow> i \<in> set iss"
  shows "move_ok (wo_limits opts) w iss h (worker_move opts h t ok reply pc w)"
proof (cases pc)
  case Idle
  show ?thesis
  proof (cases "ok = Works")
    case True
    obtain w' r where r: "claimNext opts h t w = (w', r)" by fastforce
    have g: "guar (wo_limits opts) w w' h" "\<And>i req. r = Some (i, req) \<Longrightarrow> i \<in> set iss"
      using claim_guar [OF w r] ids by auto
    have "\<exists>k \<le> 4. PHASES = drop k PHASES" by (intro exI [of _ 0]) simp
    with g r True Idle show ?thesis by (cases r) (auto simp: move_ok_def pc_inv_def job_base_def)
  next
    case False
    with Idle move_same [OF w] show ?thesis by (simp add: pc_inv_def)
  qed
next
  case (Sweeping j ids)
  then have b: "job_base w iss j" and t: "jb_todo j = PHASES" "jb_outputs j = []" using p by (simp_all add: pc_inv_def)
  show ?thesis
  proof (cases ids)
    case Nil
    with Sweeping move_same [OF w] b t show ?thesis by (simp add: pc_inv_def)
  next
    case (Cons i rest)
    obtain w' r where r: "abandonReservation ok i w = (w', r)" by fastforce
    have "w_store w' = w_store w" "guar (wo_limits opts) w w' h"
      using abandon_store [OF r] abandon_guar [OF w, of ok i h] unfolding r by simp_all
    moreover from this(1) have b': "job_base w' iss j" using b base_same [of w' w] by simp
    ultimately show ?thesis using Sweeping Cons r t pc_inv_throw [OF b']
      by (cases r) (simp_all add: move_ok_def pc_inv_job)
  qed
next
  case (Loading j)
  then have b: "job_base w iss j" and t: "jb_todo j = PHASES" using p by (simp_all add: pc_inv_def)
  have "current w (j\<lparr>jb_outputs := completedOutputs (jb_run j) w\<rparr>)"
    using completedOutputs_recorded(2) [OF w] t by (simp add: current_def)
  moreover have "job_base w iss (j\<lparr>jb_outputs := completedOutputs (jb_run j) w\<rparr>)"
    using b completedOutputs_recorded(1) [OF w] by (simp add: job_base_def)
  ultimately show ?thesis using Loading move_same [OF w] b by (simp add: pc_inv_def)
next
  case (Looping j)
  with p loop_move_ok [OF w, of iss j h ok] show ?thesis by (simp add: pc_inv_def)
next
  case (Reserving j ph att prompt)
  with p reserve_move_ok [OF w, of iss j h ph] show ?thesis by (simp add: pc_inv_def)
next
  case (Marking j ph att prompt)
  let ?p = "\<lparr>pt_status = Some (PHASE_STATUS ph), pt_currentPhase = Some (Some (phase_name ph)), pt_reason = None\<rparr>"
  have g: "guar (wo_limits opts) w (patch_store t (jb_run j) ?p w) h" by (rule patch_guar [OF w]) (cases ph; simp)
  have "open_phase (patch_store t (jb_run j) ?p w) h j ph" "reserved_for (patch_store t (jb_run j) ?p w) h j ph att"
    "job_base (patch_store t (jb_run j) ?p w) iss j"
    using p Marking by (simp_all add: pc_inv_def open_phase_def current_def reserved_for_def job_base_def)
  with g Marking p guar_refl [OF w] show ?thesis by (simp add: move_ok_def pc_inv_def)
next
  case (Calling j ph att prompt n beat)
  then have "pc_inv w iss h (call_move opts reply j ph att prompt n beat)"
    using p by (simp add: pc_inv_def call_move_def pause_def throw_to_def split: model_reply.split option.split worker_error.split)
  with Calling move_same [OF w] show ?thesis by simp
next
  case (Committing j ph att body tokens)
  with p commit_move_ok [OF w, of iss j h ph att] show ?thesis by (simp add: pc_inv_def)
next
  case (Saving j ph body)
  with p saving_move_ok [OF w, of iss j h ph body] show ?thesis by (simp add: pc_inv_def)
next
  case (Ending j patch res release)
  with p ending_move_ok [OF w, of iss j patch h] show ?thesis by (simp add: pc_inv_def)
next
  case (Releasing j res)
  with p release_move_ok [OF w, of iss j h] show ?thesis by (simp add: pc_inv_def)
next
  case (Lost j)
  show ?thesis
  proof (cases "jb_reservation j")
    case None
    with Lost p guar_refl [OF w] show ?thesis by (simp add: move_ok_def pc_inv_def)
  next
    case (Some rid)
    obtain w' r where r: "abandonReservation ok rid w = (w', r)" by fastforce
    have "job_base w' iss j" using base_same [OF abandon_store [OF r]] p Lost by (simp add: pc_inv_def)
    with r Some Lost abandon_guar [OF w, of ok rid h] show ?thesis by (simp add: move_ok_def pc_inv_def)
  qed
next
  case (Leaving j res)
  with release_guar [OF w] guar_refl [OF w] show ?thesis by (simp add: move_ok_def pc_inv_def)
qed (use p move_same [OF w] in \<open>simp_all add: pc_inv_def\<close>)

lemma renew_ok:
  assumes w: "world_inv (wo_limits opts) w" and r: "transact ok (renewLease opts h i t) w = (w', v)" and p: "pc_inv w iss h pc"
  shows "guar (wo_limits opts) w w' h \<and> pc_inv w' iss h pc"
  using r
proof (cases rule: transact_cases)
  case (thrown e)
  with guar_refl [OF w] p show ?thesis by simp
next
  case done'
  note renew = renew_guar [OF w done'(2)]
  have "rely w w' i' h" for i' by (rule rely_same) (use renew(3,4) in \<open>simp_all add: row_of_def\<close>)
  with rely_pc [OF world_inv_keys [OF w] subset_refl p] renew(1) show ?thesis by blast
qed

lemma heartbeat_ok:
  assumes w: "world_inv (wo_limits opts) w" and p: "pc_inv w iss h pc"
  shows "move_ok (wo_limits opts) w iss h (heartbeat opts h t ok pc w)"
proof (cases "\<exists>j ph att prompt n. pc = Calling j ph att prompt n None \<or> pc = Backoff j ph att prompt n None")
  case True
  then obtain j ph att prompt n where pc: "pc = Calling j ph att prompt n None \<or> pc = Backoff j ph att prompt n None" by blast
  obtain w' v where v: "transact ok (renewLease opts h (jb_run j) t) w = (w', v)" by fastforce
  have g: "guar (wo_limits opts) w w' h" and inv: "pc_inv w' iss h pc" using renew_ok [OF w v p] by simp_all
  from pc inv have "pc_inv w' iss h (Calling j ph att prompt n b) \<and> pc_inv w' iss h (Backoff j ph att prompt n b)" for b
    by (auto simp: pc_inv_def)
  with g pc v show ?thesis by (cases v) (auto simp: move_ok_def)
next
  case False
  then have "heartbeat opts h t ok pc w = (w, pc)" by (cases "(opts, h, t, ok, pc, w)" rule: heartbeat.cases) auto
  with move_same [OF w p] show ?thesis by simp
qed

subsection \<open>The other writers\<close>

text \<open>What a change not made by a worker must give: the table invariant and everybody's rely on the runs in use.\<close>

definition env_ok :: "ledger_limits \<Rightarrow> world \<Rightarrow> string list \<Rightarrow> world \<Rightarrow> bool" where
  "env_ok lims w iss w' \<longleftrightarrow> world_inv lims w' \<and> (\<forall>i h. i \<in> set iss \<longrightarrow> rely w w' i h)"

lemma create_env:
  assumes w: "world_inv lims w" and n: "uuid \<notin> set iss" and c: "createRun uuid t inp (w_store w) = (st, r)"
  shows "env_ok lims w iss (w\<lparr>w_store := st\<rparr>) \<and> (\<forall>i. run_exists st i \<longrightarrow> i = uuid \<or> run_exists (w_store w) i)"
proof (cases "run_exists (w_store w) uuid")
  case True
  with c have "st = w_store w" by (simp add: createRun_def Let_def)
  with w rely_refl show ?thesis by (simp add: env_ok_def)
next
  case False
  then obtain a where st: "st = (w_store w)\<lparr>st_runs := st_runs (w_store w) @ [a]\<rparr>" and a: "rn_id a = uuid" "rn_status a = Queued"
    using c by (auto simp: createRun_def Let_def)
  let ?w = "w\<lparr>w_store := st\<rparr>"
  have ex: "run_exists st i \<longleftrightarrow> i = uuid \<or> run_exists (w_store w) i" for i using a by (auto simp: run_exists_def st)
  have same: "recs ?w i = recs w i" "waiting ?w i = waiting w i" "paid ?w q = paid w q" "recorded ?w i p x = recorded w i p x" for i q p x
    by (simp_all add: views st)
  have "store_wf st" using createRun_wf [of "w_store w" uuid t inp] c w by (simp add: world_inv_def keys_ok_def)
  then have "keys_ok ?w" using world_inv_keys [OF w] ex by (auto simp: keys_ok_def)
  moreover have "done_ok ?w b" if "b \<in> set (st_runs st)" for b
  proof (cases "b = a")
    case True
    with a show ?thesis by (simp add: done_ok_def)
  next
    case False
    with that have "done_ok w b" using w by (simp add: world_inv_def st)
    then show ?thesis by (simp add: done_ok_def same)
  qed
  moreover have "money_ok lims ?w" "run_ok ?w k" "\<forall>q \<in> set (st_phases st). rec_ok ?w q" for k
    using w by (simp_all add: world_inv_def money_ok_def run_ok_def rec_ok_def same) (simp add: st)
  ultimately have "world_inv lims ?w" by (simp add: world_inv_def)
  moreover have "rely w ?w i h" if "i \<in> set iss" for i h
    using that n by (intro rely_same) (auto simp: ex, simp_all add: st row_of_def holds_def)
  ultimately show ?thesis by (simp add: env_ok_def ex)
qed

lemma answer_env:
  assumes w: "world_inv lims w" and a: "answerDecision ok t inp w = (w', r)"
  shows "env_ok lims w iss w' \<and> (\<forall>i. run_exists (w_store w') i = run_exists (w_store w) i)"
proof (cases "w' = w")
  case True
  with w rely_refl show ?thesis by (simp add: env_ok_def)
next
  case False
  obtain d x i p where w': "w' = patch_store t i p
      (w\<lparr>w_decisions := map (\<lambda>y. if dc_id y = d then y\<lparr>dc_answer := Some x\<rparr> else y) (w_decisions w)\<rparr>)"
      and p: "pt_status p = Some Queued"
    using a False by (auto simp: answerDecision_def split: if_splits option.splits)
  define f :: "decision_row \<Rightarrow> decision_row" where "f = (\<lambda>y. if dc_id y = d then y\<lparr>dc_answer := Some x\<rparr> else y)"
  define w1 where "w1 = w\<lparr>w_decisions := map f (w_decisions w)\<rparr>"
  have f: "dc_id (f y) = dc_id y" "dc_run (f y) = dc_run y" "dc_answer (f y) = None \<Longrightarrow> f y = y" for y by (auto simp: f_def split: if_splits)
  have same: "recs w1 k = recs w k" "recorded w1 k q z = recorded w k q z" "row_of w1 rid k q att = row_of w rid k q att"
      "paid w1 c = paid w c" "holds w1 k g = holds w k g" for k q z rid att c g
    by (simp_all add: w1_def views holds_def)
  have sub: "set (waiting w1 k) \<subseteq> set (waiting w k)" for k
    using f(2,3) by (auto simp: waiting_def w1_def) (metis f(3))+
  have len: "length (waiting w1 k) \<le> length (waiting w k)" for k
    unfolding waiting_def w1_def by (simp add: filter_map comp_def f(2)) (rule length_filter_mono, metis f(3))
  have "run_ok w1 k" for k
    using world_inv_run [OF w, of k] sub [of k] len [of k] unfolding run_ok_def same by (meson le_trans subsetD)
  moreover have "keys_ok w1"
  proof -
    have "last_asked (map f (w_decisions w))"
      by (rule last_asked_map [OF _ f]) (use world_inv_keys [OF w] in \<open>simp add: keys_ok_def\<close>)
    then show ?thesis using world_inv_keys [OF w] f(1,2) by (simp add: keys_ok_def w1_def comp_def)
  qed
  ultimately have inv: "world_inv lims w1"
    using w by (simp add: world_inv_def money_ok_def rec_ok_def done_ok_def same) (simp add: w1_def)
  have g: "guar lims w1 w' h" for h
    unfolding w' f_def [symmetric] w1_def [symmetric] by (rule patch_guar [OF inv]) (simp add: p)
  have "rely w w1 k h" for k h
  proof -
    have "asked w1 k q \<Longrightarrow> asked w k q" for q using sub by (auto simp: asked_def)
    then show ?thesis by (simp add: rely_def same) (simp add: w1_def)
  qed
  moreover have "rely w1 w' k h" for k h
    unfolding w' f_def [symmetric] w1_def [symmetric] by (rule rely_same) simp_all
  ultimately have "rely w w' k h" for k h by (rule rely_trans)
  with g show ?thesis by (simp add: env_ok_def guar_def) (simp add: w1_def)
qed

text \<open>Removing rows from the ledger keeps its ceilings: a row counts at least nothing beyond its own overrun.\<close>

lemma spent_split: "sum_over P row_spent rs =
    sum_over P (\<lambda>r. min (row_spent r) (lr_reserved r)) rs + sum_over P (\<lambda>r. max 0 (row_spent r - lr_reserved r)) rs"
  by (induction rs) (auto simp: sum_over_def min_def max_def)

lemma sum_over_filter_le:
  "\<forall>r \<in> set rs. 0 \<le> f r \<Longrightarrow> sum_over P f (filter Q rs) \<le> sum_over P f rs"
  by (induction rs) (auto simp: sum_over_def)

lemma ledger_filter_inv:
  assumes "ledger_inv lims l" "\<forall>r \<in> set (tl_rows l). row_nonneg r"
  shows "ledger_inv lims (l\<lparr>tl_rows := filter Q (tl_rows l)\<rparr>)"
proof -
  have nn: "\<forall>r \<in> set (tl_rows l). 0 \<le> min (row_spent r) (lr_reserved r)" using assms(2) by (simp add: row_nonneg_def)
  note le = sum_over_filter_le [OF nn]
  have bound: "sum_over P row_spent (filter Q (tl_rows l)) \<le> c + sum_over P (\<lambda>r. max 0 (row_spent r - lr_reserved r)) (filter Q (tl_rows l))"
    if "sum_over P row_spent (tl_rows l) \<le> c + sum_over P (\<lambda>r. max 0 (row_spent r - lr_reserved r)) (tl_rows l)" for P c
    using that le [of P Q] unfolding spent_split [of P "tl_rows l"] spent_split [of P "filter Q (tl_rows l)"] by linarith
  have "spentForRun run (l\<lparr>tl_rows := filter Q (tl_rows l)\<rparr>) \<le> max 0 (runTokenCeiling lims)
      + overrun (\<lambda>r. lr_run r = run) (l\<lparr>tl_rows := filter Q (tl_rows l)\<rparr>)" for run
    unfolding spent_sum_over
    by simp (rule bound, use assms(1) in \<open>simp add: ledger_inv_def spent_sum_over\<close>)
  moreover have "spentForDay day (l\<lparr>tl_rows := filter Q (tl_rows l)\<rparr>) \<le> max 0 (dailyTokenCeiling lims)
      + overrun (\<lambda>r. lr_day r = day) (l\<lparr>tl_rows := filter Q (tl_rows l)\<rparr>)" for day
    unfolding spent_sum_over
    by simp (rule bound, use assms(1) in \<open>simp add: ledger_inv_def spent_sum_over\<close>)
  ultimately show ?thesis using assms(1) by (simp add: ledger_inv_def distinct_map_filter)
qed

lemma prune_world:
  "fst (pruneRuns po w) =
     (let gone = set (doomed po (w_ledger w) (st_runs (w_store w))) in
      w\<lparr>w_store := \<lparr>st_runs = filter (\<lambda>r. rn_id r \<notin> gone) (st_runs (w_store w)),
           st_phases = filter (\<lambda>q. pr_runId q \<notin> gone) (st_phases (w_store w))\<rparr>,
         w_leases := filter (\<lambda>l. fst l \<notin> gone) (w_leases w),
         w_decisions := filter (\<lambda>d. dc_run d \<notin> gone) (w_decisions w),
         w_ledger := (w_ledger w)\<lparr>tl_rows := filter (\<lambda>r. lr_run r \<notin> gone) (tl_rows (w_ledger w))\<rparr>\<rparr>)"
  by (simp add: pruneRuns_def prune_child_def Let_def)

lemma map_of_filter_key: "map_of (filter (\<lambda>l. fst l \<notin> G) m) k = (if k \<in> G then None else map_of m k)"
  by (induction m) auto

lemma prune_env:
  assumes w: "world_inv lims w"
  shows "env_ok lims w iss (fst (pruneRuns po w)) \<and> (\<forall>i. run_exists (w_store (fst (pruneRuns po w))) i \<longrightarrow> run_exists (w_store w) i)"
proof -
  define G where "G = set (doomed po (w_ledger w) (st_runs (w_store w)))"
  define w' where "w' = fst (pruneRuns po w)"
  have tables: "st_runs (w_store w') = filter (\<lambda>r. rn_id r \<notin> G) (st_runs (w_store w))"
      "st_phases (w_store w') = filter (\<lambda>q. pr_runId q \<notin> G) (st_phases (w_store w))"
      "w_leases w' = filter (\<lambda>l. fst l \<notin> G) (w_leases w)" "w_files w' = w_files w" "w_dseq w' = w_dseq w"
      "w_decisions w' = filter (\<lambda>d. dc_run d \<notin> G) (w_decisions w)"
      "w_ledger w' = (w_ledger w)\<lparr>tl_rows := filter (\<lambda>r. lr_run r \<notin> G) (tl_rows (w_ledger w))\<rparr>"
    by (simp_all add: w'_def prune_world Let_def G_def)
  have ex: "run_exists (w_store w') i \<longleftrightarrow> run_exists (w_store w) i \<and> i \<notin> G" for i
    by (auto simp: run_exists_iff tables)
  have recs: "recs w' i = (if i \<in> G then [] else recs w i)" for i
    by (auto simp: recs_def tables filter_empty_conv intro: filter_cong)
  have wait: "waiting w' i = (if i \<in> G then [] else waiting w i)" for i
    by (auto simp: waiting_def tables filter_empty_conv intro: filter_cong)
  have hold: "holds w' i h \<longleftrightarrow> i \<notin> G \<and> holds w i h" for i h
    by (simp add: holds_def tables map_of_filter_key)
  have row: "row_of w rid i p att \<Longrightarrow> i \<notin> G \<Longrightarrow> row_of w' rid i p att" for rid i p att
    by (auto simp: row_of_def tables row_key_def)
  have paid: "paid w q \<Longrightarrow> pr_runId q \<notin> G \<Longrightarrow> paid w' q" for q by (auto simp: paid_def tables row_key_def)
  have keys: "keys_ok w'"
    using world_inv_keys [OF w] ex by (auto simp: keys_ok_def store_wf_def tables distinct_map_filter last_asked_filter)
  have money: "money_ok lims w'" using w ledger_filter_inv by (auto simp: world_inv_def money_ok_def tables)
  have run: "run_ok w' i" for i
  proof (cases "i \<in> G")
    case True
    then show ?thesis unfolding run_ok_def by (intro exI [of _ 0]) (simp add: recs wait)
  next
    case False
    with world_inv_run [OF w, of i] show ?thesis by (simp add: run_ok_def recs wait)
  qed
  have rec: "rec_ok w' q" if "q \<in> set (st_phases (w_store w'))" for q
    using that w paid by (auto simp: tables world_inv_def rec_ok_def)
  have don: "done_ok w' r" if "r \<in> set (st_runs (w_store w'))" for r
  proof -
    have "done_ok w r" "rn_id r \<notin> G" using that w by (auto simp: tables world_inv_def)
    then show ?thesis by (simp add: done_ok_def recorded_def recs tables)
  qed
  from keys money run rec don have inv: "world_inv lims w'" by (simp add: world_inv_def)
  have "rely w w' i h" for i h
    using row by (auto simp: rely_def ex hold recorded_def asked_def recs wait tables)
  with inv ex show ?thesis by (simp add: env_ok_def w'_def)
qed

subsection \<open>Every run of the system\<close>

lemma sys_worker_step:
  assumes inv: "sys_inv lims s" and m: "move_ok lims (sy_world s) (sy_issued s) h r"
  shows "sys_inv lims (with_worker s h r)"
proof -
  have g: "guar lims (sy_world s) (fst r) h" and own: "pc_inv (fst r) (sy_issued s) h (snd r)"
    using m by (simp_all add: move_ok_def)
  have w: "world_inv lims (sy_world s)" using inv by (simp add: sys_inv_def)
  have "pc_inv (fst r) (sy_issued s) k (sy_worker s k)" if "k \<noteq> h" for k
  proof (rule rely_pc [OF world_inv_keys [OF w] subset_refl])
    show "pc_inv (sy_world s) (sy_issued s) k (sy_worker s k)" using inv by (simp add: sys_inv_def)
    show "rely (sy_world s) (fst r) (jb_run j) k" for j using g that by (simp add: guar_def)
  qed
  with own g inv show ?thesis by (simp add: sys_inv_def with_worker_def guar_def)
qed

lemma sys_env_step:
  assumes inv: "sys_inv lims s" and e: "env_ok lims (sy_world s) (sy_issued s) w'" and sub: "set (sy_issued s) \<subseteq> set iss"
    and ids: "\<forall>i. run_exists (w_store w') i \<longrightarrow> i \<in> set iss"
  shows "sys_inv lims (s\<lparr>sy_world := w', sy_issued := iss\<rparr>)"
proof -
  have w: "world_inv lims (sy_world s)" using inv by (simp add: sys_inv_def)
  have "pc_inv w' iss h (sy_worker s h)" for h
  proof (rule rely_pc [OF world_inv_keys [OF w] sub])
    show p: "pc_inv (sy_world s) (sy_issued s) h (sy_worker s h)" using inv by (simp add: sys_inv_def)
    show "rely (sy_world s) w' (jb_run j) h" if "pc_job (sy_worker s h) = Some j" for j
      using p that e by (auto simp: pc_inv_def job_base_def env_ok_def)
  qed
  with e ids show ?thesis by (simp add: sys_inv_def env_ok_def)
qed

lemma sys_step_inv:
  assumes inv: "sys_inv (wo_limits opts) s"
  shows "sys_inv (wo_limits opts) (fst (sys_step opts s e))"
proof -
  have w: "world_inv (wo_limits opts) (sy_world s)" and ids: "\<forall>i. run_exists (w_store (sy_world s)) i \<longrightarrow> i \<in> set (sy_issued s)"
    and p: "pc_inv (sy_world s) (sy_issued s) h (sy_worker s h)" for h using inv by (simp_all add: sys_inv_def)
  show ?thesis
  proof (cases e)
    case (Move h t ok reply)
    with sys_worker_step [OF inv worker_move_ok [OF w p ids]] show ?thesis by simp
  next
    case (Beat h t ok)
    with sys_worker_step [OF inv heartbeat_ok [OF w p]] show ?thesis by simp
  next
    case (Crash h)
    have "move_ok (wo_limits opts) (sy_world s) (sy_issued s) h (sy_world s, Idle)"
      by (rule move_same [OF w]) (simp add: pc_inv_def)
    with sys_worker_step [OF inv] Crash show ?thesis by simp
  next
    case (CreateRun uuid t inp)
    show ?thesis
    proof (cases "uuid \<in> set (sy_issued s)")
      case True
      with CreateRun inv show ?thesis by simp
    next
      case False
      obtain st r where c: "createRun uuid t inp (w_store (sy_world s)) = (st, r)" by fastforce
      note env = create_env [OF w False c]
      have "sys_inv (wo_limits opts) (s\<lparr>sy_world := (sy_world s)\<lparr>w_store := st\<rparr>, sy_issued := uuid # sy_issued s\<rparr>)"
        by (rule sys_env_step [OF inv]) (use env ids in auto)
      with CreateRun False c show ?thesis by simp
    qed
  next
    case (Answer ok t inp)
    obtain w' r where a: "answerDecision ok t inp (sy_world s) = (w', r)" by fastforce
    have "sys_inv (wo_limits opts) (s\<lparr>sy_world := w', sy_issued := sy_issued s\<rparr>)"
      by (rule sys_env_step [OF inv]) (use answer_env [OF w a] ids in auto)
    with Answer a show ?thesis by simp
  next
    case (Prune po)
    obtain w' r where a: "pruneRuns po (sy_world s) = (w', r)" by fastforce
    have "sys_inv (wo_limits opts) (s\<lparr>sy_world := w', sy_issued := sy_issued s\<rparr>)"
      by (rule sys_env_step [OF inv]) (use prune_env [OF w, of "sy_issued s" po] a ids in auto)
    with Prune a show ?thesis by simp
  qed
qed

interpretation workers: machine "sys_step opts" "sys_inv (wo_limits opts)" for opts
  by unfold_locales (rule sys_step_inv)

lemma start_inv: "sys_inv lims (start files)"
  by (simp add: sys_inv_def start_def world_inv_def keys_ok_def money_ok_def run_ok_def pc_inv_def store_wf_def
      empty_store_def run_exists_def recs_def waiting_def new_ledger_inv) (auto simp: new_ledger_def)

end
