(* ===== verification/Worker_Results.thy ===== *)
theory Worker_Results
  imports Worker_Safety
begin

text \<open>
  The properties of the planning workers, over every run of the system of \<open>Worker\<close> from an empty
  store and arbitrary files: what the tables hold, who may write them, what an answer does, and that a tick ends.
\<close>

abbreviation run_from :: "worker_options \<Rightarrow> (string \<times> phase, string) jmap \<Rightarrow> sys_event list \<Rightarrow> system" where
  "run_from opts files es \<equiv> final (sys_step opts) (start files) es"

lemma workers_inv: "sys_inv (wo_limits opts) (run_from opts files es)"
  by (rule workers.run_inv [OF start_inv])

lemma workers_world: "world_inv (wo_limits opts) (sy_world (run_from opts files es))"
  using workers_inv by (simp add: sys_inv_def)

subsection \<open>What the tables hold\<close>

text \<open>C7. A run goes through its phases once and in order, and never past an open question: however many workers
  race for it, crash, lose leases and retry, the phases recorded for a run are discover, discuss, plan, execute up to
  some point, each once, complete and paid for by a settled reservation of the same run, phase and attempt; at most
  one question of the run is unanswered, and it is about the phase that comes next.\<close>
theorem run_progress:
  "\<exists>n \<le> 4. map pr_phase (recs (sy_world (run_from opts files es)) i) = map phase_name (take n PHASES)
     \<and> list_all (\<lambda>q. pr_status q = PhaseComplete \<and> pr_output q \<noteq> None \<and> paid (sy_world (run_from opts files es)) q)
         (recs (sy_world (run_from opts files es)) i)
     \<and> list_all (\<lambda>d. n < 4 \<and> dc_phase d = phase_name (PHASES ! n)) (waiting (sy_world (run_from opts files es)) i)
     \<and> length (waiting (sy_world (run_from opts files es)) i) \<le> 1"
proof -
  let ?w = "sy_world (run_from opts files es)"
  have w: "world_inv (wo_limits opts) ?w" by (rule workers_world)
  have "list_all (\<lambda>q. pr_status q = PhaseComplete \<and> pr_output q \<noteq> None \<and> paid ?w q) (recs ?w i)"
    using w by (auto simp: list_all_iff recs_def world_inv_def rec_ok_def)
  with world_inv_run [OF w, of i] show ?thesis unfolding run_ok_def list_all_iff by blast
qed

text \<open>C9. A run that is marked complete is delivered: all four phases are recorded, and the artifact of each on disk is
  the recorded output, whatever stale or missing files there were before and whichever workers wrote them.\<close>
theorem complete_run_delivered:
  "list_all (\<lambda>r. list_all (\<lambda>p. \<exists>x. recorded (sy_world (run_from opts files es)) (rn_id r) p x
          \<and> jm_get (w_files (sy_world (run_from opts files es))) (rn_id r, p) = Some x) PHASES)
    (filter (\<lambda>r. rn_status r = RunComplete) (st_runs (w_store (sy_world (run_from opts files es)))))"
  using workers_world [of opts files es] by (simp add: list_all_iff world_inv_def done_ok_def)

definition sample_worker_opts :: worker_options where
  "sample_worker_opts = \<lparr>wo_leaseMs = 60000, wo_maxModelAttempts = 3,
     wo_limits = \<lparr>runTokenCeiling = 100000, dailyTokenCeiling = 1000000\<rparr>, wo_json = (\<lambda>_. None)\<rparr>"

text \<open>The ceilings of the ledger survive its composition with the workers: whatever is reserved, settled, abandoned
  after a crash, or pruned with its run, a run and a day never count more than their ceiling plus what settled calls
  used beyond their own reservations.\<close>
theorem worker_ledger_ceilings:
  "spentForRun i (w_ledger (sy_world (run_from opts files es)))
     \<le> max 0 (runTokenCeiling (wo_limits opts)) + overrun (\<lambda>r. lr_run r = i) (w_ledger (sy_world (run_from opts files es)))
   \<and> spentForDay day (w_ledger (sy_world (run_from opts files es)))
     \<le> max 0 (dailyTokenCeiling (wo_limits opts)) + overrun (\<lambda>r. lr_day r = day) (w_ledger (sy_world (run_from opts files es)))"
  using workers_world [of opts files es] by (simp add: world_inv_def money_ok_def ledger_inv_def)

subsection \<open>Fencing\<close>

definition progress_status :: "run_status \<Rightarrow> bool" where
  "progress_status s \<longleftrightarrow> s \<in> {Discovering, Discussing, Planning, Executing}"

definition status_of :: "world \<Rightarrow> string \<Rightarrow> run_status option" where
  "status_of w i = map_option rn_status (find (\<lambda>r. rn_id r = i) (st_runs (w_store w)))"

definition asked_of :: "world \<Rightarrow> string \<Rightarrow> decision_row list" where
  "asked_of w i = filter (\<lambda>d. dc_run d = i) (w_decisions w)"

definition fenced :: "string \<Rightarrow> world \<Rightarrow> world \<Rightarrow> string \<Rightarrow> bool" where
  "fenced h w w' i \<longleftrightarrow> holds w i h \<or>
     recs w' i = recs w i \<and> asked_of w' i = asked_of w i
     \<and> (status_of w' i = status_of w i \<or> (\<exists>s. status_of w' i = Some s \<and> progress_status s))"

lemma fenced_same: "w_store w' = w_store w \<Longrightarrow> w_decisions w' = w_decisions w \<Longrightarrow> fenced h w w' i"
  by (simp add: fenced_def recs_def asked_of_def status_of_def)

lemma status_patch: "status_of (patch_store t j p w) i =
    (if i = j then map_option (\<lambda>s. case pt_status p of Some x \<Rightarrow> x | None \<Rightarrow> s) (status_of w i) else status_of w i)"
  by (simp add: status_of_def patch_store_def updateRun_lookup option.map_comp comp_def patch_run_status)

lemma fenced_elsewhere:
  "holds w j h \<Longrightarrow> (\<And>i. i \<noteq> j \<Longrightarrow> recs w' i = recs w i \<and> asked_of w' i = asked_of w i \<and> status_of w' i = status_of w i)
    \<Longrightarrow> fenced h w w' i"
  by (cases "i = j") (auto simp: fenced_def)

lemma renew_tables:
  "renewLease opts h i t w = (w', Inr u) \<Longrightarrow> holds w i h \<and> w_store w' = w_store w \<and> w_decisions w' = w_decisions w"
  by (auto simp: renewLease_def holds_def split: option.splits if_splits)

lemma settle_tables: "settle_in rid tokens w = (w', Inr u) \<Longrightarrow> w_store w' = w_store w \<and> w_decisions w' = w_decisions w"
  by (auto simp: settle_in_def split: prod.splits sum.splits)

lemma commit_phase_tables:
  assumes "commitPhase opts h t j p att rid tokens body w = (w', Inr u)"
  shows "holds w j h" "i \<noteq> j \<Longrightarrow> recs w' i = recs w i \<and> asked_of w' i = asked_of w i \<and> status_of w' i = status_of w i"
proof -
  define q where "q = \<lparr>pr_runId = j, pr_phase = phase_name p, pr_attempt = att,
    pr_status = PhaseComplete, pr_output = Some body, pr_createdAt = t\<rparr>"
  obtain w1 w2 where w1: "renewLease opts h j t w = (w1, Inr ())"
      and w2: "(case recordPhase t q (w_store w1) of
         (s, Inr _) \<Rightarrow> (w1\<lparr>w_store := s\<rparr>, Inr ()) | (_, Inl _) \<Rightarrow> (w1, Inl Thrown)) = (w2, Inr ())"
      and w3: "settle_in rid tokens w2 = (w', Inr u)"
    using assms unfolding commitPhase_def and_then_Inr q_def by blast
  obtain s where s: "recordPhase t q (w_store w1) = (s, Inr ())" "w2 = w1\<lparr>w_store := s\<rparr>"
    using w2 by (auto split: prod.splits sum.splits)
  have "s = (w_store w1)\<lparr>st_phases := st_phases (w_store w1) @ [q\<lparr>pr_createdAt := t\<rparr>]\<rparr>"
    using s(1) by (auto simp: recordPhase_def split: if_splits)
  with renew_tables [OF w1] settle_tables [OF w3] s(2) show "holds w j h"
    "i \<noteq> j \<Longrightarrow> recs w' i = recs w i \<and> asked_of w' i = asked_of w i \<and> status_of w' i = status_of w i"
    by (auto simp: recs_def asked_of_def status_of_def q_def)
qed

lemma commit_decision_tables:
  assumes "commitDecision opts h t j p att rid tokens d w = (w', Inr u)"
  shows "holds w j h" "i \<noteq> j \<Longrightarrow> recs w' i = recs w i \<and> asked_of w' i = asked_of w i \<and> status_of w' i = status_of w i"
proof -
  obtain w1 w2 w3 pt where w1: "renewLease opts h j t w = (w1, Inr ())" and w2: "settle_in rid tokens w1 = (w2, Inr ())"
      and w3: "insertDecision t j p att d w2 = (w3, Inr ())" and w': "w' = patch_store t j pt w3"
    using assms unfolding commitDecision_def and_then_Inr by auto
  have "recs w3 i = recs w2 i" "i \<noteq> j \<Longrightarrow> asked_of w3 i = asked_of w2 i" "status_of w3 i = status_of w2 i"
    using w3 by (auto simp: insertDecision_def recs_def asked_of_def status_of_def split: if_splits)
  moreover have "recs w2 i = recs w i" "asked_of w2 i = asked_of w i" "status_of w2 i = status_of w i"
    using renew_tables [OF w1] settle_tables [OF w2] by (simp_all add: recs_def asked_of_def status_of_def)
  ultimately show "i \<noteq> j \<Longrightarrow> recs w' i = recs w i \<and> asked_of w' i = asked_of w i \<and> status_of w' i = status_of w i"
    by (simp add: w' status_patch) (simp add: asked_of_def)
  show "holds w j h" using renew_tables [OF w1] by simp
qed

lemma abandon_tables: "abandonReservation ok rid w = (w', r) \<Longrightarrow> w_store w' = w_store w \<and> w_decisions w' = w_decisions w"
  by (auto simp: abandonReservation_def split: if_splits option.splits prod.splits sum.splits)

lemma abandon_fenced: "fenced h w (fst (abandonReservation ok rid w)) i"
  using abandon_tables [of ok rid w] by (cases "abandonReservation ok rid w") (simp add: fenced_same)

lemma write_fenced: "fenced h w (writeArtifact k p x ok w) i"
  by (rule fenced_same) (simp_all add: writeArtifact_def)

lemma commit_move_fenced: "fenced h w (fst (commit_move opts h t ok j p att body tokens w)) i"
proof (cases "fst (commit_move opts h t ok j p att body tokens w) = w")
  case True
  then show ?thesis by (simp add: fenced_same)
next
  case False
  then obtain rid where rid: "jb_reservation j = Some rid" by (auto simp: commit_move_def split: option.splits)
  show ?thesis
  proof (cases "parseDecision (wo_json opts) body")
    case (Some d)
    obtain w' v where v: "transact ok (commitDecision opts h t (jb_run j) p att rid tokens d) w = (w', v)" by fastforce
    with Some rid have eq: "fst (commit_move opts h t ok j p att body tokens w) = w'"
      by (cases v) (simp_all add: commit_move_def)
    from v show ?thesis
    proof (cases rule: transact_cases)
      case (thrown e)
      with eq False show ?thesis by simp
    next
      case done'
      from fenced_elsewhere [OF commit_decision_tables(1) [OF done'(2)] commit_decision_tables(2) [OF done'(2)]] eq show ?thesis by simp
    qed
  next
    case None
    obtain w' v where v: "transact ok (commitPhase opts h t (jb_run j) p att rid tokens body) w = (w', v)" by fastforce
    with None rid have eq: "fst (commit_move opts h t ok j p att body tokens w) = w'"
      by (cases v) (simp_all add: commit_move_def)
    from v show ?thesis
    proof (cases rule: transact_cases)
      case (thrown e)
      with eq False show ?thesis by simp
    next
      case done'
      from fenced_elsewhere [OF commit_phase_tables(1) [OF done'(2)] commit_phase_tables(2) [OF done'(2)]] eq show ?thesis by simp
    qed
  qed
qed

lemma ending_fenced:
  assumes "setTerminalStatus opts h t ok k p w = (w', r)"
  shows "fenced h w w' i"
  using assms
proof (cases rule: set_status_cases)
  case (lost e)
  then show ?thesis by (simp add: fenced_same)
next
  case (set w1)
  note r = renew_tables [OF set(2)]
  have "recs w1 i = recs w i" "asked_of w1 i = asked_of w i" "status_of w1 i = status_of w i" for i
    using r by (simp_all add: recs_def asked_of_def status_of_def)
  then have "i \<noteq> k \<Longrightarrow> recs w' i = recs w i \<and> asked_of w' i = asked_of w i \<and> status_of w' i = status_of w i" for i
    by (simp add: set(3) status_patch) (simp add: asked_of_def)
  with r show ?thesis by (intro fenced_elsewhere [of w k]) simp_all
qed

lemma marking_fenced:
  "fenced h w (patch_store t k \<lparr>pt_status = Some (PHASE_STATUS p), pt_currentPhase = x, pt_reason = y\<rparr> w) i"
proof -
  have "progress_status (PHASE_STATUS p)" by (cases p) (simp_all add: progress_status_def)
  then show ?thesis
    by (cases "status_of w i") (auto simp: fenced_def status_patch asked_of_def)
qed

lemma move_fenced: "fenced h w (fst (worker_move opts h t ok reply pc w)) i"
proof (cases pc)
  case Idle
  then show ?thesis by (auto intro!: fenced_same simp: claimNext_def split: list.split prod.split option.split)
next
  case (Sweeping j ids)
  then show ?thesis using abandon_fenced [of h w ok "hd ids" i]
    by (cases ids) (auto simp: fenced_same split: prod.split sum.split)
next
  case (Looping j)
  then show ?thesis using write_fenced by (auto simp: loop_move_def fenced_same split: list.split option.split)
next
  case (Reserving j p att prompt)
  then show ?thesis by (auto intro!: fenced_same simp: reserve_move_def split: prod.split sum.split ledger_error.split)
next
  case (Marking j p att prompt)
  then show ?thesis using marking_fenced by (simp add: fenced_same)
next
  case (Committing j p att body tokens)
  then show ?thesis using commit_move_fenced by simp
next
  case (Saving j p body)
  then show ?thesis using write_fenced by simp
next
  case (Ending j p res release)
  then show ?thesis using ending_fenced [of opts h t ok "jb_run j" p w _ _ i] by (auto split: prod.split sum.split)
next
  case (Releasing j res)
  then show ?thesis using abandon_fenced [of h w ok _ i]
    by (auto simp: release_move_def fenced_same split: prod.split sum.split option.split) (metis fst_conv)+
next
  case (Lost j)
  then show ?thesis using abandon_fenced by (simp add: fenced_same split: option.split)
next
  case (Leaving j res)
  then show ?thesis by (auto intro!: fenced_same simp: releaseLease_def split: option.split)
qed (simp_all add: fenced_same)

lemma heartbeat_fenced: "fenced h w (fst (heartbeat opts h t ok pc w)) i"
proof -
  have "transact ok (renewLease opts h k t) w = (w', v) \<Longrightarrow> w_store w' = w_store w \<and> w_decisions w' = w_decisions w" for k w' v
    by (auto simp: transact_def dest: renew_tables split: if_splits prod.splits sum.splits)
  then show ?thesis
    by (cases "(opts, h, t, ok, pc, w)" rule: heartbeat.cases) (auto intro!: fenced_same split: prod.split sum.split)
qed

definition fenced_step :: "system \<times> sys_event \<times> sys_output \<times> system \<Rightarrow> bool" where
  "fenced_step x = (case x of (s, e, out, s') \<Rightarrow> (case e of
      Move h t ok reply \<Rightarrow> (\<forall>i. fenced h (sy_world s) (sy_world s') i)
    | Beat h t ok \<Rightarrow> (\<forall>i. fenced h (sy_world s) (sy_world s') i)
    | Crash h \<Rightarrow> sy_world s' = sy_world s
    | _ \<Rightarrow> True))"

interpretation fencing: monitored_machine "sys_step opts" "sys_inv (wo_limits opts)" "\<lambda>s e out s'. fenced_step (s, e, out, s')" for opts
proof unfold_locales
  fix s e
  show "fenced_step (s, e, snd (sys_step opts s e), fst (sys_step opts s e))"
    by (cases e) (auto simp: fenced_step_def with_worker_def intro: move_fenced heartbeat_fenced)
qed

text \<open>C8. Workers are fenced by their lease: in every step of every run, a worker that does not hold the lease of a run
  adds no phase and no question to it, and leaves its status alone, unless it writes one of the four progress
  statuses. So pauses, failures and completions are written by the lease's holder only.\<close>
theorem workers_fenced:
  "list_all fenced_step (trace (sys_step opts) (start files) es)"
  unfolding list_all_iff using fencing.run_guarantee [OF start_inv] by fast

subsection \<open>Answers\<close>

lemma newest_row_max:
  assumes "distinct (map dc_id (w_decisions w))" "d \<in> set (w_decisions w)" "P d"
    and "\<And>x. x \<in> set (w_decisions w) \<Longrightarrow> P x \<Longrightarrow> dc_id x \<le> dc_id d"
  shows "newest_row P w = Some d"
proof -
  define ds where "ds = sort_key dc_id (filter P (w_decisions w))"
  have set: "set ds = {x \<in> set (w_decisions w). P x}" by (auto simp: ds_def)
  then have ne: "ds \<noteq> []" using assms(2,3) by auto
  then obtain as e where e: "ds = as @ [e]" by (metis rev_exhaust)
  have "sorted (map dc_id ds)" by (simp add: ds_def)
  then have "dc_id d \<le> dc_id e" using assms(2,3) set unfolding e by (auto simp: sorted_append)
  moreover have em: "e \<in> set (w_decisions w)" "P e" using set by (auto simp: e)
  moreover from this have "dc_id e \<le> dc_id d" by (rule assms(4))
  ultimately have "e = d" using assms(1,2) by (metis antisym distinct_map inj_onD)
  then show ?thesis by (simp add: newest_row_def ds_def [symmetric] e)
qed

lemma js_join_snoc: "\<exists>pre. js_join sep (xs @ [x]) = pre @ x"
proof (induction xs)
  case Nil
  then show ?case by simp
next
  case (Cons a xs)
  then obtain pre where "js_join sep (xs @ [x]) = pre @ x" by blast
  then have "js_join sep ((a # xs) @ [x]) = (a @ sep @ pre) @ x" by simp
  then show ?case by blast
qed

text \<open>C10. An answer takes effect exactly once and is heard: when the owner's answer is accepted, the run's one open
  question has it, nothing of the run waits any more, the run is queued again, and whichever worker asks the model for
  that phase next puts question and answer, wrapped, at the end of the prompt; an answer that is refused changes
  nothing.\<close>
theorem answer_reaches_prompt:
  "case answerDecision ok t inp (sy_world (run_from opts files es)) of (w', r) \<Rightarrow>
    (if r = Answered then
       (\<exists>p q a. pendingQuestion (ai_runId inp) p (sy_world (run_from opts files es)) = Some q
         \<and> normalizeAnswer (ai_answer inp) = Some a
         \<and> waiting w' (ai_runId inp) = [] \<and> status_of w' (ai_runId inp) = Some Queued
         \<and> (\<forall>request outputs. \<exists>pre. buildPrompt request p outputs (latestAnswer (ai_runId inp) p w')
              = pre @ tagged ''owner_answer'' (''Question: '' @ q @ [NL] @ ''Answer: '' @ a) []))
     else w' = sy_world (run_from opts files es))"
proof -
  define w where "w = sy_world (run_from opts files es)"
  obtain w' r where a: "answerDecision ok t inp w = (w', r)" by fastforce
  let ?i = "ai_runId inp"
  show ?thesis
  proof (cases "r = Answered")
    case False
    with a show ?thesis unfolding w_def [symmetric]
      by (auto simp: answerDecision_def split: if_splits option.splits)
  next
    case True
    have inv: "world_inv (wo_limits opts) w" unfolding w_def by (rule workers_world)
    obtain rr d x where rr: "getRunForOwner ?i (ai_ownerId inp) (w_store w) = Some rr"
        and x: "normalizeAnswer (ai_answer inp) = Some x"
        and d: "newest_row (\<lambda>d. dc_run d = rn_id rr \<and> dc_answer d = None) w = Some d"
        and w': "w' = patch_store t (rn_id rr) \<lparr>pt_status = Some Queued, pt_currentPhase = None, pt_reason = Some None\<rparr>
           (w\<lparr>w_decisions := map (\<lambda>y. if dc_id y = dc_id d then y\<lparr>dc_answer := Some x\<rparr> else y) (w_decisions w)\<rparr>)"
      using a True by (auto simp: answerDecision_def split: if_splits option.splits)
    have i: "rn_id rr = ?i" "rr \<in> set (st_runs (w_store w))"
      using rr by (auto simp: getRunForOwner_def find_Some_iff)
    have dm: "d \<in> set (w_decisions w)" "dc_run d = ?i" "dc_answer d = None" using newest_row_Some [OF d] i by simp_all
    have keys: "distinct (map dc_id (w_decisions w))" "last_asked (w_decisions w)"
      using world_inv_keys [OF inv] by (simp_all add: keys_ok_def)
    obtain n where n: "\<forall>d \<in> set (waiting w ?i). n < 4 \<and> dc_phase d = phase_name (PHASES ! n)" "length (waiting w ?i) \<le> 1"
      using world_inv_run [OF inv, of ?i] by (auto simp: run_ok_def)
    define p where "p = PHASES ! n"
    have dw: "d \<in> set (waiting w ?i)" using dm by (simp add: waiting_def)
    with n(2) have wt: "waiting w ?i = [d]" by (cases "waiting w ?i") auto
    have ph: "dc_phase d = phase_name p" using n(1) dw by (simp add: p_def)
    have last: "y \<in> set (w_decisions w) \<Longrightarrow> dc_run y = ?i \<Longrightarrow> dc_id y \<le> dc_id d" for y
      using keys(2) dm by (auto simp: last_asked_def)
    have pq: "pendingQuestion ?i p w = Some (dc_question d)"
      unfolding pendingQuestion_def using newest_row_max [OF keys(1) dm(1), of "\<lambda>d. dc_run d = ?i \<and> dc_phase d = phase_name p \<and> dc_answer d = None"]
        dm ph last by simp
    define f :: "decision_row \<Rightarrow> decision_row" where "f = (\<lambda>y. if dc_id y = dc_id d then y\<lparr>dc_answer := Some x\<rparr> else y)"
    have ds: "w_decisions w' = map f (w_decisions w)" by (simp add: w' f_def)
    have f: "dc_id (f y) = dc_id y" "dc_run (f y) = dc_run y" "dc_phase (f y) = dc_phase y" "dc_question (f y) = dc_question y" for y
      by (simp_all add: f_def)
    have w0: "waiting w' ?i = []"
    proof -
      have "\<not> (dc_run (f y) = ?i \<and> dc_answer (f y) = None)" if "y \<in> set (w_decisions w)" for y
      proof
        assume "dc_run (f y) = ?i \<and> dc_answer (f y) = None"
        then have "y \<in> set (waiting w ?i)" "dc_id y \<noteq> dc_id d" using that by (auto simp: waiting_def f_def split: if_splits)
        with wt show False by simp
      qed
      then show ?thesis by (simp add: waiting_def ds filter_empty_conv)
    qed
    have "newest_row (\<lambda>d. dc_run d = ?i \<and> dc_phase d = phase_name p \<and> dc_answer d \<noteq> None) w' = Some (f d)"
    proof (rule newest_row_max)
      show "distinct (map dc_id (w_decisions w'))" using keys(1) by (simp add: ds comp_def f(1))
      show "f d \<in> set (w_decisions w')" using dm(1) by (simp add: ds)
      show "dc_run (f d) = ?i \<and> dc_phase (f d) = phase_name p \<and> dc_answer (f d) \<noteq> None" using dm ph by (simp add: f_def)
      show "dc_id y \<le> dc_id (f d)"
        if "y \<in> set (w_decisions w')" "dc_run y = ?i \<and> dc_phase y = phase_name p \<and> dc_answer y \<noteq> None" for y
        using that last by (auto simp: ds f)
    qed
    then have la: "latestAnswer ?i p w' = Some \<lparr>oa_question = dc_question d, oa_answer = x\<rparr>"
      by (simp add: latestAnswer_def f(4)) (simp add: f_def)
    have st: "status_of w' ?i = Some Queued"
    proof -
      have "\<exists>r0. find (\<lambda>r. rn_id r = ?i) (st_runs (w_store w)) = Some r0" using i by (metis (mono_tags, lifting) find_None_iff option.exhaust)
      then show ?thesis by (auto simp: w' i status_patch) (auto simp: status_of_def)
    qed
    have pr: "\<exists>pre. buildPrompt request p outputs (latestAnswer ?i p w')
        = pre @ tagged ''owner_answer'' (''Question: '' @ dc_question d @ [NL] @ ''Answer: '' @ x) []" for request outputs
      unfolding la buildPrompt_def option.case append_assoc [symmetric] owner_answer.simps by (rule js_join_snoc)
    have "\<exists>p q a. pendingQuestion ?i p w = Some q \<and> normalizeAnswer (ai_answer inp) = Some a
         \<and> waiting w' ?i = [] \<and> status_of w' ?i = Some Queued
         \<and> (\<forall>request outputs. \<exists>pre. buildPrompt request p outputs (latestAnswer ?i p w')
              = pre @ tagged ''owner_answer'' (''Question: '' @ q @ [NL] @ ''Answer: '' @ a) [])"
    proof (rule exI [of _ p], rule exI [of _ "dc_question d"], rule exI [of _ x], intro conjI allI)
    qed (rule pq x w0 st pr)+
    then show ?thesis unfolding w_def [symmetric] a prod.case if_P [OF True] .
  qed
qed

subsection \<open>Pruning\<close>

text \<open>Pruning cannot free a day's budget: the total a day counts against its ceiling is the same after the prune as
  before, for today and every later day; what is deleted are the runs untouched since the cutoff that have no ledger
  row from today on, and every row of theirs in every table.\<close>
theorem prune_keeps_daily_total:
  assumes "today po \<le> day"
  shows "spentForDay day (w_ledger (fst (pruneRuns po w))) = spentForDay day (w_ledger w)
    \<and> (run_exists (w_store w) i \<longrightarrow> \<not> run_exists (w_store (fst (pruneRuns po w))) i \<longrightarrow>
        recs (fst (pruneRuns po w)) i = [] \<and> asked_of (fst (pruneRuns po w)) i = []
        \<and> jm_get (w_leases (fst (pruneRuns po w))) i = None
        \<and> filter (\<lambda>r. lr_run r = i) (tl_rows (w_ledger (fst (pruneRuns po w)))) = []
        \<and> list_all (\<lambda>r. \<not> (lr_run r = i \<and> today po \<le> lr_day r)) (tl_rows (w_ledger w)))"
proof -
  define G where "G = set (doomed po (w_ledger w) (st_runs (w_store w)))"
  have G: "i \<in> G \<Longrightarrow> r \<in> set (tl_rows (w_ledger w)) \<Longrightarrow> lr_run r = i \<Longrightarrow> \<not> today po \<le> lr_day r" for i r
    by (auto simp: G_def doomed_def Let_def image_iff)
  let ?w = "fst (pruneRuns po w)"
  have t: "st_runs (w_store ?w) = filter (\<lambda>r. rn_id r \<notin> G) (st_runs (w_store w))"
      "st_phases (w_store ?w) = filter (\<lambda>q. pr_runId q \<notin> G) (st_phases (w_store w))"
      "w_leases ?w = filter (\<lambda>l. fst l \<notin> G) (w_leases w)"
      "w_decisions ?w = filter (\<lambda>d. dc_run d \<notin> G) (w_decisions w)"
      "tl_rows (w_ledger ?w) = filter (\<lambda>r. lr_run r \<notin> G) (tl_rows (w_ledger w))"
    by (simp_all add: prune_world Let_def G_def)
  have "filter (\<lambda>r. lr_run r \<notin> G \<and> lr_day r = day) (tl_rows (w_ledger w)) = filter (\<lambda>r. lr_day r = day) (tl_rows (w_ledger w))"
    by (rule filter_cong) (use G assms in auto)
  then have "spentForDay day (w_ledger ?w) = spentForDay day (w_ledger w)"
    by (simp add: spentForDay_def sumSpent_def t)
  moreover have "i \<in> G" if "run_exists (w_store w) i" "\<not> run_exists (w_store ?w) i"
    using that by (auto simp: run_exists_iff t)
  ultimately show ?thesis using G
    by (auto simp: recs_def asked_of_def t map_of_filter_key filter_empty_conv list_all_iff)
qed

definition two_runs :: world where
  "two_runs = \<lparr>w_store = \<lparr>
       st_runs = [\<lparr>rn_id = ''old'', rn_ownerId = ''o'', rn_request = ''x'', rn_route = ''y'', rn_status = RunComplete,
           rn_currentPhase = None, rn_reason = None, rn_createdAt = 1, rn_updatedAt = 2\<rparr>,
         \<lparr>rn_id = ''new'', rn_ownerId = ''o'', rn_request = ''x'', rn_route = ''y'', rn_status = Queued,
           rn_currentPhase = None, rn_reason = None, rn_createdAt = 1, rn_updatedAt = 2\<rparr>],
       st_phases = [\<lparr>pr_runId = ''old'', pr_phase = ''discover'', pr_attempt = 1, pr_status = PhaseComplete,
           pr_output = Some ''z'', pr_createdAt = 2\<rparr>]\<rparr>,
     w_leases = [], w_decisions = [], w_dseq = 0,
     w_ledger = \<lparr>tl_rows =
        [\<lparr>lr_id = 1, lr_run = ''old'', lr_phase = ''discover'', lr_attempt = 1, lr_day = ''2025-12-31'', lr_reserved = 7,
           lr_actual = Some 5, lr_state = SettledRow\<rparr>,
         \<lparr>lr_id = 2, lr_run = ''new'', lr_phase = ''discover'', lr_attempt = 1, lr_day = ''2026-01-01'', lr_reserved = 7,
           lr_actual = None, lr_state = Reserved\<rparr>], tl_seq = 2\<rparr>,
     w_files = []\<rparr>"

theorem prune_keeps_daily_total_witness:
  "spentForDay ''2026-01-01'' (w_ledger (fst (pruneRuns \<lparr>cutoffMs = 5, today = ''2026-01-01''\<rparr> two_runs))) = 7
    \<and> recs (fst (pruneRuns \<lparr>cutoffMs = 5, today = ''2026-01-01''\<rparr> two_runs)) ''old'' = []"
proof -
  have le: "today \<lparr>cutoffMs = 5, today = ''2026-01-01''\<rparr> \<le> ''2026-01-01''" by simp
  have "spentForDay ''2026-01-01'' (w_ledger two_runs) = 7" "run_exists (w_store two_runs) ''old''"
    "\<not> run_exists (w_store (fst (pruneRuns \<lparr>cutoffMs = 5, today = ''2026-01-01''\<rparr> two_runs))) ''old''" by code_simp+
  with prune_keeps_daily_total [OF le, of two_runs "''old''"] show ?thesis by simp
qed

subsection \<open>A tick ends\<close>

definition attempts :: "worker_options \<Rightarrow> nat" where
  "attempts opts = nat (wo_maxModelAttempts opts)"

definition phase_cost :: "worker_options \<Rightarrow> nat" where
  "phase_cost opts = 8 + 2 * attempts opts"

text \<open>How many moves a worker has before it is idle, at most.\<close>

fun effort :: "worker_options \<Rightarrow> wpc \<Rightarrow> nat" where
  "effort opts Idle = 0"
| "effort opts (Claimed j) = 0"
| "effort opts (Sweeping j ids) = 6 + length ids + length (jb_todo j) * phase_cost opts"
| "effort opts (Loading j) = 5 + length (jb_todo j) * phase_cost opts"
| "effort opts (Looping j) = 4 + length (jb_todo j) * phase_cost opts"
| "effort opts (Counting j p) = 11 + 2 * attempts opts + (length (jb_todo j) - 1) * phase_cost opts"
| "effort opts (Asking j p att) = 10 + 2 * attempts opts + (length (jb_todo j) - 1) * phase_cost opts"
| "effort opts (Reserving j p att prompt) = 9 + 2 * attempts opts + (length (jb_todo j) - 1) * phase_cost opts"
| "effort opts (Marking j p att prompt) = 8 + 2 * attempts opts + (length (jb_todo j) - 1) * phase_cost opts"
| "effort opts (Calling j p att prompt n beat) = 7 + 2 * (attempts opts - n) + (length (jb_todo j) - 1) * phase_cost opts"
| "effort opts (Backoff j p att prompt n beat) = 8 + 2 * (attempts opts - Suc n) + (length (jb_todo j) - 1) * phase_cost opts"
| "effort opts (Committing j p att body tokens) = 6 + (length (jb_todo j) - 1) * phase_cost opts"
| "effort opts (Saving j p body) = 5 + (length (jb_todo j) - 1) * phase_cost opts"
| "effort opts (Ending j patch res release) = 3"
| "effort opts (Releasing j res) = 2"
| "effort opts (Lost j) = 2"
| "effort opts (Leaving j res) = 1"

text \<open>A move that only waits: the model has not answered, or no lease was lost.\<close>

definition waits :: "model_reply \<Rightarrow> wpc \<Rightarrow> bool" where
  "waits reply pc \<longleftrightarrow> (case pc of
      Calling j p att prompt n beat \<Rightarrow> reply = NoReply \<or> reply = LeaseRejection \<and> beat = None
    | _ \<Rightarrow> False)"

lemma effort_throw: "effort opts (throw_to j e) \<le> 2"
  by (cases e) (simp_all add: throw_to_def)

lemma loop_effort: "effort opts (snd (loop_move ok j w)) < effort opts (Looping j) \<and> snd (loop_move ok j w) \<noteq> Claimed k"
  by (auto simp: loop_move_def phase_cost_def split: list.split option.split)

lemma reserve_effort:
  "effort opts (snd (reserve_move opts t ok j p att prompt w)) < effort opts (Reserving j p att prompt)
   \<and> snd (reserve_move opts t ok j p att prompt w) \<noteq> Claimed k"
  by (auto simp: reserve_move_def split: prod.split sum.split ledger_error.split)

lemma call_effort:
  "\<not> waits reply (Calling j p att prompt n beat) \<Longrightarrow>
     effort opts (call_move opts reply j p att prompt n beat) < effort opts (Calling j p att prompt n beat)
   \<and> call_move opts reply j p att prompt n beat \<noteq> Claimed k"
  using effort_throw [of opts j]
  by (auto simp: call_move_def waits_def attempts_def throw_to_def split: model_reply.splits option.splits worker_error.split)

lemma commit_effort:
  "effort opts (snd (commit_move opts h t ok j p att body tokens w)) < effort opts (Committing j p att body tokens)
   \<and> snd (commit_move opts h t ok j p att body tokens w) \<noteq> Claimed k"
  by (auto simp: commit_move_def throw_to_def split: option.split prod.split sum.split worker_error.split)

lemma move_effort:
  assumes "pc \<noteq> Idle" "\<And>j. pc \<noteq> Claimed j" "\<not> waits reply pc"
  shows "effort opts (snd (worker_move opts h t ok reply pc w)) < effort opts pc
    \<and> snd (worker_move opts h t ok reply pc w) \<noteq> Claimed k"
proof (cases pc)
  case (Sweeping j ids)
  then show ?thesis
    by (cases ids) (auto simp: throw_to_def split: prod.split sum.split worker_error.split)
next
  case (Looping j)
  with loop_effort show ?thesis by simp
next
  case (Reserving j p att prompt)
  with reserve_effort show ?thesis by simp
next
  case (Calling j p att prompt n beat)
  with call_effort assms(3) show ?thesis by simp
next
  case (Committing j p att body tokens)
  with commit_effort show ?thesis by simp
next
  case (Ending j patch res release)
  then show ?thesis by (auto simp: throw_to_def split: prod.split sum.split worker_error.split)
next
  case (Releasing j res)
  then show ?thesis by (auto simp: release_move_def split: option.split prod.split sum.split)
qed (use assms in \<open>auto simp: attempts_def\<close>)

text \<open>The moves of worker \<open>h\<close> that are not waits, until it is idle.\<close>

fun tick_moves :: "worker_options \<Rightarrow> string \<Rightarrow> system \<Rightarrow> sys_event list \<Rightarrow> nat" where
  "tick_moves opts h s [] = 0"
| "tick_moves opts h s (e # es) =
     (if sy_worker s h = Idle then 0
      else (case e of Move k t ok reply \<Rightarrow> if k = h \<and> \<not> waits reply (sy_worker s h) then 1 else 0 | _ \<Rightarrow> 0)
        + tick_moves opts h (fst (sys_step opts s e)) es)"

lemma heartbeat_effort: "effort opts (snd (heartbeat opts h t ok pc w)) = effort opts pc
    \<and> (snd (heartbeat opts h t ok pc w) = Claimed j \<longrightarrow> pc = Claimed j)"
  by (cases "(opts, h, t, ok, pc, w)" rule: heartbeat.cases) (auto split: prod.split sum.split)

lemma wait_move: "waits reply pc \<Longrightarrow> snd (worker_move opts h t ok reply pc w) = pc"
  by (cases pc) (auto simp: waits_def call_move_def)

lemma other_step:
  assumes "\<And>t ok reply. e \<noteq> Move h t ok reply \<or> waits reply (sy_worker s h)"
  shows "effort opts (sy_worker (fst (sys_step opts s e)) h) \<le> effort opts (sy_worker s h)
    \<and> (sy_worker (fst (sys_step opts s e)) h = Claimed j \<longrightarrow> sy_worker s h = Claimed j)"
proof (cases e)
  case (Move k t ok reply)
  with assms [of t ok reply] wait_move [of reply "sy_worker s h" opts h t ok "sy_world s"] show ?thesis
    by (cases "k = h") (auto simp: with_worker_def)
next
  case (Beat k t ok)
  with heartbeat_effort [of opts k t ok "sy_worker s k" "sy_world s" j] show ?thesis by (auto simp: with_worker_def)
qed (auto simp: with_worker_def split: prod.split)

lemma tick_moves_bound:
  "\<forall>j. sy_worker s h \<noteq> Claimed j \<Longrightarrow> tick_moves opts h s es \<le> effort opts (sy_worker s h)"
proof (induction es arbitrary: s)
  case Nil
  then show ?case by simp
next
  case (Cons e es)
  let ?s = "fst (sys_step opts s e)"
  show ?case
  proof (cases "sy_worker s h = Idle \<or> (\<forall>t ok reply. e \<noteq> Move h t ok reply \<or> waits reply (sy_worker s h))")
    case True
    then consider "sy_worker s h = Idle" | "\<And>t ok reply. e \<noteq> Move h t ok reply \<or> waits reply (sy_worker s h)" by blast
    then show ?thesis
    proof cases
      case 2
      have "\<forall>j. sy_worker ?s h \<noteq> Claimed j" "effort opts (sy_worker ?s h) \<le> effort opts (sy_worker s h)"
        using other_step [OF 2, of opts] Cons.prems by blast+
      with Cons.IH [of ?s] 2 show ?thesis by (fastforce split: sys_event.split)
    qed simp
  next
    case False
    then obtain t ok reply where e: "e = Move h t ok reply" "\<not> waits reply (sy_worker s h)" and busy: "sy_worker s h \<noteq> Idle" by blast
    have "effort opts (sy_worker ?s h) < effort opts (sy_worker s h)" "\<forall>j. sy_worker ?s h \<noteq> Claimed j"
      using move_effort [OF busy _ e(2), of opts h t ok "sy_world s"] Cons.prems by (auto simp: e(1) with_worker_def)
    with Cons.IH [of ?s] e busy show ?thesis by simp
  qed
qed

text \<open>A tick ends. From the moment a worker has listed the dead reservations of the run it claimed, it makes at
  most \<open>38 + 8 * maxModelAttempts\<close> moves and one for each of them before it is idle again, whatever
  fails and whatever the other workers do in between; waiting for the model's answer is not a move.\<close>
theorem tick_terminates:
  assumes "sy_worker (run_from opts files es) h = Sweeping j ids"
  shows "tick_moves opts h (run_from opts files es) later \<le> 38 + 8 * nat (wo_maxModelAttempts opts) + length ids"
proof -
  have "pc_inv (sy_world (run_from opts files es)) (sy_issued (run_from opts files es)) h (Sweeping j ids)"
    using workers_inv [of opts files es] assms by (metis sys_inv_def)
  then have "length (jb_todo j) = 4" by (simp add: pc_inv_def)
  with tick_moves_bound [of "run_from opts files es" h opts later] assms show ?thesis
    by (simp add: phase_cost_def attempts_def)
qed

definition worker_a :: "nat \<Rightarrow> sys_event list" where
  "worker_a n = replicate n (Move ''a'' 1 Works NoReply)"

definition one_run :: sys_event where
  "one_run = CreateRun ''r'' 0 \<lparr>in_ownerId = ''o'', in_request = ''plan it'', in_route = ''x''\<rparr>"

theorem tick_terminates_witness:
  "tick_moves sample_worker_opts ''a'' (run_from sample_worker_opts [] (one_run # worker_a 2)) (worker_a 3) \<le> 62"
proof -
  have "sy_worker (run_from sample_worker_opts [] (one_run # worker_a 2)) ''a'' =
      Sweeping \<lparr>jb_run = ''r'', jb_request = ''plan it'', jb_todo = PHASES, jb_outputs = [], jb_reservation = None\<rparr> []"
    by code_simp
  from tick_terminates [OF this, of "worker_a 3"] show ?thesis by (simp add: sample_worker_opts_def)
qed

subsection \<open>The unfenced progress write\<close>

definition tight_opts :: worker_options where
  "tight_opts = sample_worker_opts\<lparr>wo_limits := \<lparr>runTokenCeiling = 3000, dailyTokenCeiling = 1000000\<rparr>\<rparr>"

definition failed_by_b :: "sys_event list" where
  "failed_by_b = one_run # worker_a 8 @ replicate 11 (Move ''b'' 100000 Works NoReply)"

text \<open>The status a worker writes when it enters a phase is not fenced: a worker stopped between its reservation and
  that write for longer than its lease reopens a run that another worker has failed meanwhile, here because the
  abandoned reservation still counts against the run's ceiling.\<close>
theorem stale_worker_reopens_run:
  "status_of (sy_world (run_from tight_opts [] failed_by_b)) ''r'' = Some RunFailed
   \<and> status_of (sy_world (run_from tight_opts [] (failed_by_b @ worker_a 1))) ''r'' = Some Discovering"
  by code_simp

end
