(* ===== verification/Json_Text.thy ===== *)
theory Json_Text
  imports Merkle Js_Map "HOL-Library.List_Lexorder" "HOL-Library.Char_ord"
begin

text \<open>
  JSON text as the audit log writes and hashes it: \<^verbatim>\<open>JSON.stringify\<close> of strings, numbers, booleans,
  arrays and objects, the \<^verbatim>\<open>canonical\<close> serialization of \<^verbatim>\<open>obs/audit.ts\<close> with sorted keys, and
  UTF-8. The text of a number that is not a safe integer is the parameter \<open>num_text\<close>; what is known of it is
  \<open>number_format\<close>, stated for the numbers at hand. Shown here: the canonical text of a flat record determines the
  record up to the order of its fields.
\<close>

subsection \<open>Text of values\<close>

definition hex_digit :: "nat \<Rightarrow> char" where
  "hex_digit n = (if n < 10 then char_of (48 + n) else char_of (87 + n))"

definition json_char :: "char \<Rightarrow> string" where
  "json_char c =
     (let n = code_of c in
      if n = 34 then [CHR 0x5C, CHR 0x22] else if n = 92 then [CHR 0x5C, CHR 0x5C]
      else if n = 8 then [CHR 0x5C, CHR ''b''] else if n = 9 then [CHR 0x5C, CHR ''t'']
      else if n = 10 then [CHR 0x5C, CHR ''n''] else if n = 12 then [CHR 0x5C, CHR ''f'']
      else if n = 13 then [CHR 0x5C, CHR ''r'']
      else if n < 32 then CHR 0x5C # ''u00'' @ [hex_digit (n div 16), hex_digit (n mod 16)]
      else [c])"

definition json_string :: "string \<Rightarrow> string" where
  "json_string s = CHR 0x22 # concat (map json_char s) @ [CHR 0x22]"

definition int_text :: "int \<Rightarrow> string" where
  "int_text i = (if i < 0 then CHR ''-'' # dec (nat (- i)) else dec (nat i))"

definition json_number :: "(js_num \<Rightarrow> string) \<Rightarrow> js_num \<Rightarrow> string" where
  "json_number num_text n = (case safe_integer n of
      Some i \<Rightarrow> int_text i
    | None \<Rightarrow> if is_finite n then num_text n else ''null'')"

definition present :: "js \<Rightarrow> bool" where
  "present v = (case v of JUndef \<Rightarrow> False | JFun \<Rightarrow> False | _ \<Rightarrow> True)"

fun stringify :: "(js_num \<Rightarrow> string) \<Rightarrow> js \<Rightarrow> string" where
  "stringify nt JUndef = ''null''"
| "stringify nt JFun = ''null''"
| "stringify nt JNull = ''null''"
| "stringify nt (JBool b) = (if b then ''true'' else ''false'')"
| "stringify nt (JNum n) = json_number nt n"
| "stringify nt (JStr s) = json_string s"
| "stringify nt (JArr vs) = ''['' @ js_join '','' (map (stringify nt) vs) @ '']''"
| "stringify nt (JObj es) = ''{'' @ js_join '','' (map (\<lambda>e. json_string (fst e) @ '':'' @ stringify nt (snd e))
     (filter (\<lambda>e. present (snd e)) es)) @ ''}''"

text \<open>\<^verbatim>\<open>canonical\<close>: keys sorted at every level.\<close>

fun canonical :: "(js_num \<Rightarrow> string) \<Rightarrow> js \<Rightarrow> string" where
  "canonical nt (JArr vs) = ''['' @ js_join '','' (map (canonical nt) vs) @ '']''"
| "canonical nt (JObj es) = ''{'' @ js_join '','' (map (\<lambda>e. json_string (fst e) @ '':'' @ canonical nt (snd e))
     (sort_key fst es)) @ ''}''"
| "canonical nt v = stringify nt v"

definition utf8 :: "string \<Rightarrow> nat list" where
  "utf8 s = concat (map (\<lambda>c. let n = code_of c in if n < 128 then [n] else [192 + n div 64, 128 + n mod 64]) s)"

definition primitive :: "js \<Rightarrow> bool" where
  "primitive v = (case v of JStr _ \<Rightarrow> True | JBool _ \<Rightarrow> True | JNum n \<Rightarrow> is_finite n | _ \<Rightarrow> False)"

subsection \<open>Strings are read back\<close>

text \<open>One escaped character off the front.\<close>

fun unescape :: "string \<Rightarrow> (char \<times> string) option" where
  "unescape [] = None"
| "unescape (x # xs) =
     (if x \<noteq> CHR 0x5C then Some (x, xs)
      else (case xs of
          y # ys \<Rightarrow>
            if y = CHR ''b'' then Some (CHR 0x08, ys) else if y = CHR ''t'' then Some (CHR 0x09, ys)
            else if y = CHR ''n'' then Some (CHR 0x0A, ys) else if y = CHR ''f'' then Some (CHR 0x0C, ys)
            else if y = CHR ''r'' then Some (CHR 0x0D, ys)
            else if y = CHR ''u'' then
              (case ys of _ # _ # a # b # zs \<Rightarrow> Some (char_of (16 * hex_value a + hex_value b), zs) | _ \<Rightarrow> None)
            else Some (y, ys)
        | [] \<Rightarrow> None))"

lemma hex_value_digit: "n < 16 \<Longrightarrow> hex_value (hex_digit n) = n"
  by (auto simp: hex_digit_def hex_value_def code_of_def Let_def)

lemma char_of_code: "char_of (code_of c) = c"
  by (simp add: code_of_def)

lemma code_chars:
  "code_of c = 34 \<longleftrightarrow> c = CHR 0x22" "code_of c = 92 \<longleftrightarrow> c = CHR 0x5C" "code_of c = 8 \<longleftrightarrow> c = CHR 0x08"
  "code_of c = 9 \<longleftrightarrow> c = CHR 0x09" "code_of c = 10 \<longleftrightarrow> c = CHR 0x0A" "code_of c = 12 \<longleftrightarrow> c = CHR 0x0C"
  "code_of c = 13 \<longleftrightarrow> c = CHR 0x0D"
  using code_of_inj [of c "CHR 0x22"] code_of_inj [of c "CHR 0x5C"] code_of_inj [of c "CHR 0x08"]
    code_of_inj [of c "CHR 0x09"] code_of_inj [of c "CHR 0x0A"] code_of_inj [of c "CHR 0x0C"] code_of_inj [of c "CHR 0x0D"]
  by (auto simp: code_of_def)

lemma unescape_json_char: "unescape (json_char c @ r) = Some (c, r)"
proof -
  consider "c \<in> {CHR 0x22, CHR 0x5C, CHR 0x08, CHR 0x09, CHR 0x0A, CHR 0x0C, CHR 0x0D}"
    | "c \<notin> {CHR 0x22, CHR 0x5C, CHR 0x08, CHR 0x09, CHR 0x0A, CHR 0x0C, CHR 0x0D}" "code_of c < 32"
    | "c \<notin> {CHR 0x22, CHR 0x5C, CHR 0x08, CHR 0x09, CHR 0x0A, CHR 0x0C, CHR 0x0D}" "\<not> code_of c < 32" by blast
  then show ?thesis
  proof cases
    case 1
    then show ?thesis by (auto simp: json_char_def code_of_def)
  next
    case 2
    then have "json_char c = CHR 0x5C # ''u00'' @ [hex_digit (code_of c div 16), hex_digit (code_of c mod 16)]"
      by (simp add: json_char_def Let_def code_chars)
    with 2 show ?thesis by (simp add: hex_value_digit char_of_code)
  next
    case 3
    then have "json_char c = [c]" by (simp add: json_char_def Let_def code_chars)
    with 3 show ?thesis by simp
  qed
qed

lemma json_char_head: "json_char c @ r \<noteq> CHR 0x22 # u"
proof
  assume eq: "json_char c @ r = CHR 0x22 # u"
  then have "c = CHR 0x22" using unescape_json_char [of c r] by simp
  with eq show False by (simp add: json_char_def code_of_def)
qed

lemma json_chars_prefix:
  "concat (map json_char s) @ CHR 0x22 # r = concat (map json_char t) @ CHR 0x22 # u \<Longrightarrow> s = t \<and> r = u"
proof (induction s arbitrary: t)
  case Nil
  note prem = Nil
  show ?case
  proof (cases t)
    case Nil
    from prem have "CHR 0x22 # r = CHR 0x22 # u" unfolding Nil by (simp only: list.map concat.simps append_Nil)
    with Nil show ?thesis by blast
  next
    case (Cons d t')
    have eq: "CHR 0x22 # r = json_char d @ (concat (map json_char t') @ CHR 0x22 # u)"
      using prem unfolding Cons by (simp only: list.map concat.simps append_Nil append_assoc)
    from eq [symmetric] show ?thesis by (rule notE [OF json_char_head])
  qed
next
  case (Cons c s)
  show ?case
  proof (cases t)
    case Nil
    have eq: "json_char c @ (concat (map json_char s) @ CHR 0x22 # r) = CHR 0x22 # u"
      using Cons.prems unfolding Nil by (simp only: list.map concat.simps append_Nil append_assoc)
    from eq show ?thesis by (rule notE [OF json_char_head])
  next
    case (Cons d t')
    have eq: "json_char c @ concat (map json_char s) @ CHR 0x22 # r = json_char d @ concat (map json_char t') @ CHR 0x22 # u"
      using Cons.prems unfolding Cons by (simp only: list.map concat.simps append_assoc)
    have "Some (c, concat (map json_char s) @ CHR 0x22 # r) = Some (d, concat (map json_char t') @ CHR 0x22 # u)"
      using arg_cong [OF eq, of unescape] unfolding unescape_json_char .
    then have same: "c = d" "concat (map json_char s) @ CHR 0x22 # r = concat (map json_char t') @ CHR 0x22 # u"
      unfolding option.inject prod.inject by blast+
    from Cons.IH [OF same(2)] same(1) Cons show ?thesis by blast
  qed
qed

lemma json_string_prefix: "json_string s @ r = json_string t @ u \<Longrightarrow> s = t \<and> r = u"
  using json_chars_prefix [of s r t u] by (simp add: json_string_def)

subsection \<open>Numbers\<close>

definition number_char :: "char \<Rightarrow> bool" where
  "number_char c = (is_digit c \<or> c = CHR ''-'' \<or> c = CHR ''+'' \<or> c = CHR ''.'' \<or> c = CHR ''e'')"

definition number_text :: "string \<Rightarrow> bool" where
  "number_text t \<longleftrightarrow> t \<noteq> [] \<and> list_all number_char t \<and> (is_digit (hd t) \<or> hd t = CHR ''-'')"

text \<open>Number to string is injective on the finite numbers at hand, and writes numerals.\<close>

definition number_format :: "(js_num \<Rightarrow> string) \<Rightarrow> js_num set \<Rightarrow> bool" where
  "number_format nt N \<longleftrightarrow> (\<forall>n \<in> N. is_finite n \<longrightarrow> number_text (json_number nt n))
     \<and> inj_on (json_number nt) {n \<in> N. is_finite n}"

lemma dec_number_text: "number_text (dec n)"
proof -
  have "is_digit (hd (dec n))" using dec_digits [of n] dec_nonempty [of n] by simp
  with dec_digits [of n] dec_nonempty [of n] show ?thesis by (simp add: number_text_def list_all_iff number_char_def)
qed

lemma int_text_number: "number_text (int_text i)"
  using dec_number_text by (auto simp: int_text_def number_text_def number_char_def)

lemma minus_not_digit: "\<not> is_digit (CHR ''-'')"
  by (simp add: is_digit_def)

lemma int_text_inj: "int_text i = int_text j \<Longrightarrow> i = j"
proof -
  assume eq: "int_text i = int_text j"
  have hd: "hd (dec n) \<noteq> CHR ''-''" for n using dec_digits [of n] dec_nonempty [of n] minus_not_digit by (metis hd_in_set)
  consider "i < 0" "j < 0" | "\<not> i < 0" "\<not> j < 0" | "i < 0" "\<not> j < 0" | "\<not> i < 0" "j < 0" by blast
  then show ?thesis
  proof cases
    case 1
    then have "dec (nat (- i)) = dec (nat (- j))" using eq by (simp add: int_text_def)
    then have "nat (- i) = nat (- j)" by (rule dec_inj)
    with 1 show ?thesis by simp
  next
    case 2
    then have "dec (nat i) = dec (nat j)" using eq by (simp add: int_text_def)
    then have "nat i = nat j" by (rule dec_inj)
    with 2 show ?thesis by simp
  qed (use eq hd in \<open>auto simp: int_text_def dest: sym, (metis list.sel(1))+\<close>)
qed

lemma number_format_ints:
  assumes "\<forall>n \<in> N. is_finite n \<longrightarrow> safe_integer n \<noteq> None"
  shows "number_format nt N"
proof -
  have "json_number nt n = int_text (the (safe_integer n))" if "n \<in> N" "is_finite n" for n
    using assms that by (auto simp: json_number_def)
  moreover have "n = m" if "n \<in> N" "is_finite n" "m \<in> N" "is_finite m" "the (safe_integer n) = the (safe_integer m)" for n m
    using assms that by (metis option.collapse safe_integer_Some)
  ultimately show ?thesis using int_text_number int_text_inj unfolding number_format_def inj_on_def
    by (metis (mono_tags, lifting) mem_Collect_eq)
qed

lemma number_format_mono: "number_format nt N \<Longrightarrow> M \<subseteq> N \<Longrightarrow> number_format nt M"
  unfolding number_format_def by (auto intro: inj_on_subset)

subsection \<open>The canonical text determines the record\<close>

definition numbers_of :: "(string \<times> js) list \<Rightarrow> js_num set" where
  "numbers_of fs = {n. JNum n \<in> snd ` set fs}"

definition flat :: "(string \<times> js) list \<Rightarrow> bool" where
  "flat fs \<longleftrightarrow> list_all (\<lambda>e. primitive (snd e)) fs"

lemma canonical_primitive: "primitive v \<Longrightarrow> canonical nt v = stringify nt v"
  by (cases v) (simp_all add: primitive_def)

lemma takeWhile_delim: "list_all P a \<Longrightarrow> \<not> P d \<Longrightarrow> takeWhile P (a @ d # r) = a"
  by (induction a) auto

lemma number_split:
  assumes "number_text a" "number_text b" "a @ d # r = b @ e # u" "\<not> number_char d" "\<not> number_char e"
  shows "a = b \<and> d # r = e # u"
proof -
  have "takeWhile number_char (a @ d # r) = a"
    by (rule takeWhile_delim) (use assms(1,4) in \<open>simp_all add: number_text_def\<close>)
  moreover have "takeWhile number_char (b @ e # u) = b"
    by (rule takeWhile_delim) (use assms(2,5) in \<open>simp_all add: number_text_def\<close>)
  ultimately have "a = b" using assms(3) by metis
  with assms(3) show ?thesis by simp
qed

lemma stringify_hd:
  assumes "primitive v" "number_format nt N" "\<And>n. v = JNum n \<Longrightarrow> n \<in> N"
  shows "\<exists>x xs. stringify nt v = x # xs \<and> (case v of JStr _ \<Rightarrow> x = CHR 0x22 | JBool b \<Rightarrow> x = (if b then CHR ''t'' else CHR ''f'')
    | _ \<Rightarrow> is_digit x \<or> x = CHR ''-'')"
proof (cases v)
  case (JNum n)
  then have "number_text (json_number nt n)" using assms(1,2) assms(3) [OF JNum] by (simp add: number_format_def primitive_def)
  with JNum show ?thesis by (cases "json_number nt n") (auto simp: number_text_def)
qed (use assms(1) in \<open>auto simp: primitive_def json_string_def\<close>)

lemma stringify_split:
  assumes v: "primitive v" "\<And>n. v = JNum n \<Longrightarrow> n \<in> N" and w: "primitive w" "\<And>n. w = JNum n \<Longrightarrow> n \<in> N"
    and nt: "number_format nt N" and eq: "stringify nt v @ d # r = stringify nt w @ e # u"
    and de: "\<not> number_char d" "\<not> number_char e"
  shows "v = w \<and> d # r = e # u"
proof -
  have dig: "\<not> is_digit (CHR 0x22)" "\<not> is_digit (CHR ''t'')" "\<not> is_digit (CHR ''f'')" by (simp_all add: is_digit_def)
  obtain x xs where x: "stringify nt v = x # xs" "case v of JStr _ \<Rightarrow> x = CHR 0x22 | JBool b \<Rightarrow> x = (if b then CHR ''t'' else CHR ''f'')
    | _ \<Rightarrow> is_digit x \<or> x = CHR ''-''" using stringify_hd [OF v(1) nt v(2)] by blast
  obtain y ys where y: "stringify nt w = y # ys" "case w of JStr _ \<Rightarrow> y = CHR 0x22 | JBool b \<Rightarrow> y = (if b then CHR ''t'' else CHR ''f'')
    | _ \<Rightarrow> is_digit y \<or> y = CHR ''-''" using stringify_hd [OF w(1) nt w(2)] by blast
  have xy: "x = y" using eq x(1) y(1) by simp
  show ?thesis
  proof (cases v)
    case (JNum n)
    then obtain m where m: "w = JNum m" using x(2) y(2) xy dig w(1) by (cases w) (auto simp: primitive_def split: if_splits)
    have fin: "is_finite n" "is_finite m" using v(1) w(1) JNum m by (simp_all add: primitive_def)
    have in_N: "n \<in> N" "m \<in> N" using v(2) w(2) JNum m by simp_all
    have "number_text (json_number nt n)" "number_text (json_number nt m)" using nt fin in_N by (simp_all add: number_format_def)
    from number_split [OF this _ de, of r u] eq JNum m have "json_number nt n = json_number nt m" "d # r = e # u" by simp_all
    moreover from this(1) have "n = m" using nt fin in_N by (auto simp: number_format_def inj_on_def)
    ultimately show ?thesis using JNum m by simp
  next
    case (JStr s)
    then obtain t where t: "w = JStr t" using x(2) y(2) xy dig w(1) by (cases w) (auto simp: primitive_def split: if_splits)
    with eq JStr json_string_prefix [of s "d # r" t "e # u"] show ?thesis by simp
  next
    case (JBool b)
    then obtain c where c: "w = JBool c" using x(2) y(2) xy dig w(1) by (cases w) (auto simp: primitive_def split: if_splits)
    with eq JBool show ?thesis by (cases b; cases c) simp_all
  qed (use v(1) in \<open>auto simp: primitive_def\<close>)
qed

definition field_text :: "(js_num \<Rightarrow> string) \<Rightarrow> string \<times> js \<Rightarrow> string" where
  "field_text nt e = json_string (fst e) @ '':'' @ stringify nt (snd e)"

lemma fields_text_split:
  assumes "number_format nt N" "flat fs" "flat gs" "numbers_of fs \<subseteq> N" "numbers_of gs \<subseteq> N"
    and "js_join '','' (map (field_text nt) fs) @ CHR ''}'' # r = js_join '','' (map (field_text nt) gs) @ CHR ''}'' # u"
  shows "fs = gs \<and> r = u"
  using assms
proof (induction fs arbitrary: gs)
  case Nil
  then show ?case by (cases gs) (auto simp: field_text_def json_string_def split: if_splits)
next
  case (Cons f fs)
  show ?case
  proof (cases gs)
    case Nil
    with Cons.prems(6) show ?thesis by (auto simp: field_text_def json_string_def split: if_splits)
  next
    case (Cons g gs')
    define rest where "rest = (\<lambda>xs z. if xs = [] then CHR ''}'' # z else CHR '','' # js_join '','' (map (field_text nt) xs) @ CHR ''}'' # z)"
    have delim: "\<exists>d z'. rest xs z = d # z' \<and> \<not> number_char d \<and> (d = CHR '','' \<longleftrightarrow> xs \<noteq> [])" for xs z
      by (auto simp: rest_def number_char_def is_digit_def)
    have eq: "field_text nt f @ rest fs r = field_text nt g @ rest gs' u"
      using Cons.prems(6) unfolding Cons rest_def by (auto split: if_splits)
    have "json_string (fst f) @ CHR '':'' # (stringify nt (snd f) @ rest fs r) = json_string (fst g) @ CHR '':'' # (stringify nt (snd g) @ rest gs' u)"
      using eq by (simp add: field_text_def)
    from json_string_prefix [OF this] have k: "fst f = fst g" and v: "stringify nt (snd f) @ rest fs r = stringify nt (snd g) @ rest gs' u" by simp_all
    obtain d dr where d: "rest fs r = d # dr" "\<not> number_char d" "d = CHR '','' \<longleftrightarrow> fs \<noteq> []" using delim by blast
    obtain e er where e: "rest gs' u = e # er" "\<not> number_char e" "e = CHR '','' \<longleftrightarrow> gs' \<noteq> []" using delim by blast
    have "snd f = snd g \<and> d # dr = e # er"
    proof (rule stringify_split [OF _ _ _ _ Cons.prems(1) _ d(2) e(2)])
      show "primitive (snd f)" "primitive (snd g)" using Cons.prems(2,3) Cons by (simp_all add: flat_def)
      show "snd f = JNum n \<Longrightarrow> n \<in> N" "snd g = JNum n \<Longrightarrow> n \<in> N" for n
        using Cons.prems(4,5) Cons by (auto simp: numbers_of_def)
      show "stringify nt (snd f) @ d # dr = stringify nt (snd g) @ e # er" using v d(1) e(1) by simp
    qed
    then have fg: "f = g" and de: "d = e" "dr = er" using k by (auto simp: prod_eq_iff)
    show ?thesis
    proof (cases "fs = []")
      case True
      then have "gs' = []" using d(3) e(3) de by simp
      with True fg Cons d(1) e(1) de show ?thesis by (simp add: rest_def)
    next
      case False
      then have ne: "gs' \<noteq> []" using d(3) e(3) de by simp
      have "js_join '','' (map (field_text nt) fs) @ CHR ''}'' # r = js_join '','' (map (field_text nt) gs') @ CHR ''}'' # u"
        using d(1) e(1) de False ne unfolding rest_def by (metis list.inject)
      with Cons.IH [of gs'] Cons.prems(1-5) Cons fg show ?thesis by (auto simp: flat_def numbers_of_def)
    qed
  qed
qed

definition record_body :: "(js_num \<Rightarrow> string) \<Rightarrow> nat \<Rightarrow> string \<Rightarrow> string \<Rightarrow> string \<Rightarrow> (string \<times> js) list \<Rightarrow> string" where
  "record_body nt seq ts event prev fs = canonical nt (JObj [(''seq'', JNum (Fin (of_nat seq))), (''ts'', JStr ts),
     (''event'', JStr event), (''prev'', JStr prev), (''fields'', JObj fs)])"

lemma sort_record_keys:
  "sort_key fst [(''seq'', a), (''ts'', b), (''event'', c), (''prev'', d), (''fields'', e)]
     = [(''event'', c), (''fields'', e), (''prev'', d), (''seq'', a), (''ts'', b)]"
  by (simp add: less_char_def less_eq_char_def)

lemma record_body_text:
  assumes "flat fs"
  shows "record_body nt seq ts event prev fs =
    CHR ''{'' # json_string ''event'' @ CHR '':'' # json_string event @ CHR '','' # json_string ''fields'' @ CHR '':'' #
    CHR ''{'' # js_join '','' (map (field_text nt) (sort_key fst fs)) @ CHR ''}'' # CHR '','' #
    json_string ''prev'' @ CHR '':'' # json_string prev @ CHR '','' # json_string ''seq'' @ CHR '':'' #
    json_number nt (Fin (of_nat seq)) @ CHR '','' # json_string ''ts'' @ CHR '':'' # json_string ts @ ''}''"
proof -
  have "map (\<lambda>e. json_string (fst e) @ '':'' @ canonical nt (snd e)) (sort_key fst fs) = map (field_text nt) (sort_key fst fs)"
    using assms by (intro map_cong) (auto simp: flat_def list_all_iff field_text_def canonical_primitive)
  then have fields: "canonical nt (JObj fs) = ''{'' @ js_join '','' (map (field_text nt) (sort_key fst fs)) @ ''}''"
    unfolding canonical.simps(2) by (simp only:)
  have top: "canonical nt (JObj es) = ''{'' @ js_join '','' (map (\<lambda>e. json_string (fst e) @ '':'' @ canonical nt (snd e)) (sort_key fst es)) @ ''}''" for es
    by (rule canonical.simps(2))
  show ?thesis unfolding record_body_def top sort_record_keys by (simp add: fields del: canonical.simps(2))
qed

text \<open>Equal bodies are bodies of equal records, the fields up to their order.\<close>

lemma record_body_inj:
  assumes nt: "number_format nt N" and fs: "flat fs" "flat gs" "numbers_of fs \<subseteq> N" "numbers_of gs \<subseteq> N"
    and seq: "Fin (of_nat seq) \<in> N" "Fin (of_nat seq') \<in> N"
    and eq: "record_body nt seq ts event prev fs = record_body nt seq' ts' event' prev' gs"
  shows "seq = seq' \<and> ts = ts' \<and> event = event' \<and> prev = prev' \<and> sort_key fst fs = sort_key fst gs"
proof -
  have sorted: "flat (sort_key fst fs)" "flat (sort_key fst gs)" "numbers_of (sort_key fst fs) \<subseteq> N" "numbers_of (sort_key fst gs) \<subseteq> N"
    using fs by (simp_all add: flat_def list_all_iff numbers_of_def)
  note eq = eq [unfolded record_body_text [OF fs(1)] record_body_text [OF fs(2)]]
  from eq have "json_string event @ CHR '','' # json_string ''fields'' @ CHR '':'' #
    CHR ''{'' # js_join '','' (map (field_text nt) (sort_key fst fs)) @ CHR ''}'' # CHR '','' #
    json_string ''prev'' @ CHR '':'' # json_string prev @ CHR '','' # json_string ''seq'' @ CHR '':'' #
    json_number nt (Fin (of_nat seq)) @ CHR '','' # json_string ''ts'' @ CHR '':'' # json_string ts @ ''}''
    = json_string event' @ CHR '','' # json_string ''fields'' @ CHR '':'' #
    CHR ''{'' # js_join '','' (map (field_text nt) (sort_key fst gs)) @ CHR ''}'' # CHR '','' #
    json_string ''prev'' @ CHR '':'' # json_string prev' @ CHR '','' # json_string ''seq'' @ CHR '':'' #
    json_number nt (Fin (of_nat seq')) @ CHR '','' # json_string ''ts'' @ CHR '':'' # json_string ts' @ ''}''" by simp
  from json_string_prefix [OF this] have ev: "event = event'" and
    "js_join '','' (map (field_text nt) (sort_key fst fs)) @ CHR ''}'' # CHR '','' #
    json_string ''prev'' @ CHR '':'' # json_string prev @ CHR '','' # json_string ''seq'' @ CHR '':'' #
    json_number nt (Fin (of_nat seq)) @ CHR '','' # json_string ''ts'' @ CHR '':'' # json_string ts @ ''}''
    = js_join '','' (map (field_text nt) (sort_key fst gs)) @ CHR ''}'' # CHR '','' #
    json_string ''prev'' @ CHR '':'' # json_string prev' @ CHR '','' # json_string ''seq'' @ CHR '':'' #
    json_number nt (Fin (of_nat seq')) @ CHR '','' # json_string ''ts'' @ CHR '':'' # json_string ts' @ ''}''" by simp_all
  from fields_text_split [OF nt sorted this(2)] have fl: "sort_key fst fs = sort_key fst gs" and
    "json_string prev @ CHR '','' # json_string ''seq'' @ CHR '':'' #
    json_number nt (Fin (of_nat seq)) @ CHR '','' # json_string ''ts'' @ CHR '':'' # json_string ts @ ''}''
    = json_string prev' @ CHR '','' # json_string ''seq'' @ CHR '':'' #
    json_number nt (Fin (of_nat seq')) @ CHR '','' # json_string ''ts'' @ CHR '':'' # json_string ts' @ ''}''" by simp_all
  from json_string_prefix [OF this(2)] have pv: "prev = prev'" and
    n: "stringify nt (JNum (Fin (of_nat seq))) @ CHR '','' # json_string ''ts'' @ CHR '':'' # json_string ts @ ''}''
    = stringify nt (JNum (Fin (of_nat seq'))) @ CHR '','' # json_string ''ts'' @ CHR '':'' # json_string ts' @ ''}''" by simp_all
  have comma: "\<not> number_char (CHR '','')" by (simp add: number_char_def is_digit_def)
  have "JNum (Fin (of_nat seq)) = JNum (Fin (of_nat seq'))
     \<and> CHR '','' # json_string ''ts'' @ CHR '':'' # json_string ts @ ''}'' = CHR '','' # json_string ''ts'' @ CHR '':'' # json_string ts' @ ''}''"
    by (rule stringify_split [OF _ _ _ _ nt n comma comma]) (use seq in \<open>auto simp: primitive_def is_finite_def\<close>)
  then have "seq = seq'" "json_string ts @ ''}'' = json_string ts' @ ''}''" by simp_all
  with ev fl pv json_string_prefix [of ts "''}''" ts' "''}''"] show ?thesis by simp
qed

lemma utf8_inj: "utf8 s = utf8 t \<Longrightarrow> s = t"
proof (induction s arbitrary: t)
  case Nil
  then show ?case by (cases t) (auto simp: utf8_def Let_def split: if_splits)
next
  case (Cons c s)
  show ?case
  proof (cases t)
    case Nil
    with Cons.prems show ?thesis by (auto simp: utf8_def Let_def split: if_splits)
  next
    case (Cons d t')
    have "code_of c = code_of d \<and> utf8 s = utf8 t'"
      using Cons.prems unfolding Cons utf8_def Let_def
      by (auto split: if_splits) (metis div_mult_mod_eq mult.commute)+
    with Cons.IH [of t'] Cons code_of_inj show ?thesis by blast
  qed
qed

end
