(* ===== verification/Audit_Chain.thy ===== *)
theory Audit_Chain
  imports Json_Text
begin

text \<open>
  Verification of the audit trail, \<^verbatim>\<open>services/ultrathink/obs/audit.ts\<close>: a record line checked at its
  place in the hash chain, files read in chunks, anchors checked against the Merkle frontier of \<open>Merkle\<close>, and the
  boundary of a pruned prefix. \<^verbatim>\<open>JSON.parse\<close>, the text of fractional numbers, UTF-8 decoding and SHA-256 are
  the fields of \<open>audit_env\<close>. A file is seen through its reads: the chunks of bytes they return, and whether one then
  throws; a read of the active file up to pinned bytes is a view of those bytes. Sequence numbers are exact integers.
\<close>

record audit_env =
  ae_parse :: "string \<Rightarrow> js option"
  ae_decode :: "nat list \<Rightarrow> string"
  ae_num :: "js_num \<Rightarrow> string"
  ae_sha :: "nat list \<Rightarrow> string"

type_synonym fields = "(string \<times> js) list"

subsection \<open>Constants\<close>

definition GENESIS_HASH :: string where
  "GENESIS_HASH = replicate 64 (CHR ''0'')"

definition ANCHOR_EVENT :: string where "ANCHOR_EVENT = ''audit_anchor''"
definition RETENTION_EVENT :: string where "RETENTION_EVENT = ''audit_retention_pruned''"
definition MAX_LINE_BYTES :: nat where "MAX_LINE_BYTES = 1048576"

definition RECORD_KEYS :: "string list" where
  "RECORD_KEYS = [''event'', ''fields'', ''hash'', ''prev'', ''seq'', ''ts'']"

subsection \<open>Records\<close>

datatype audit_reason =
    NotJson | NotObject | WrongKeys | NotCanonicalLine | SeqNotInteger | SeqWrong nat | TsNotString | EventNotString
  | PrevNotDigest | PrevMismatch | HashNotDigest | FieldsNotObject | FieldNotPrimitive string | HashMismatch
  | AnchorMismatch nat | LineTooLong | TruncatedRecord | CannotRead
  | PrefixUnreadable int | BadHead int | NoValidFrontier int | FrontierSize int nat

record checked =
  ck_hash :: string
  ck_ts :: string
  ck_event :: string
  ck_fields :: fields

definition hash_input :: "audit_env \<Rightarrow> nat \<Rightarrow> string \<Rightarrow> string \<Rightarrow> string \<Rightarrow> fields \<Rightarrow> nat list" where
  "hash_input env seq ts event prev fs = utf8 (prev @ [CHR 0x0A] @ record_body (ae_num env) seq ts event prev fs)"

definition hashRecord :: "audit_env \<Rightarrow> nat \<Rightarrow> string \<Rightarrow> string \<Rightarrow> string \<Rightarrow> fields \<Rightarrow> string" where
  "hashRecord env seq ts event prev fs = ae_sha env (hash_input env seq ts event prev fs)"

text \<open>
  \<^verbatim>\<open>flat[key] = value\<close> on an object literal: the key \<^verbatim>\<open>__proto__\<close> reaches the setter of
  \<^verbatim>\<open>Object.prototype\<close>, which ignores a primitive.
\<close>

definition set_member :: "fields \<Rightarrow> string \<times> js \<Rightarrow> fields" where
  "set_member out e = (if fst e = ''__proto__'' then out else jm_set (fst e) (snd e) out)"

definition flatten_fields :: "fields \<Rightarrow> string + fields" where
  "flatten_fields fs = (case find (\<lambda>e. \<not> primitive (snd e)) fs of
      Some e \<Rightarrow> Inl (fst e)
    | None \<Rightarrow> Inr (foldl set_member [] fs))"

definition integer_of :: "js \<Rightarrow> int option" where
  "integer_of v = (case v of JNum (Fin q) \<Rightarrow> if of_int \<lfloor>q\<rfloor> = q then Some \<lfloor>q\<rfloor> else None | _ \<Rightarrow> None)"

definition digest_of :: "js \<Rightarrow> string option" where
  "digest_of v = (case v of JStr s \<Rightarrow> if HEX_64 s then Some s else None | _ \<Rightarrow> None)"

definition checkLine :: "audit_env \<Rightarrow> string \<Rightarrow> nat \<Rightarrow> string \<Rightarrow> audit_reason + checked" where
  "checkLine env line expectedSeq expectedPrev =
     (case ae_parse env line of
        None \<Rightarrow> Inl NotJson
      | Some (JObj es) \<Rightarrow>
          if sort (map fst es) \<noteq> RECORD_KEYS then Inl WrongKeys
          else if stringify (ae_num env) (JObj es) \<noteq> line then Inl NotCanonicalLine
          else (case integer_of (obj_get es ''seq'') of
            None \<Rightarrow> Inl SeqNotInteger
          | Some seq \<Rightarrow>
              if seq \<noteq> int expectedSeq then Inl (SeqWrong expectedSeq)
              else (case obj_get es ''ts'' of
                JStr ts \<Rightarrow> (case obj_get es ''event'' of
                  JStr event \<Rightarrow>
                    if event = [] then Inl EventNotString
                    else (case digest_of (obj_get es ''prev'') of
                      None \<Rightarrow> Inl PrevNotDigest
                    | Some prev \<Rightarrow>
                        if prev \<noteq> expectedPrev then Inl PrevMismatch
                        else (case digest_of (obj_get es ''hash'') of
                          None \<Rightarrow> Inl HashNotDigest
                        | Some hash \<Rightarrow> (case obj_get es ''fields'' of
                            JObj fs \<Rightarrow> (case flatten_fields fs of
                              Inl k \<Rightarrow> Inl (FieldNotPrimitive k)
                            | Inr flt \<Rightarrow>
                                if hashRecord env expectedSeq ts event prev flt \<noteq> hash then Inl HashMismatch
                                else Inr \<lparr>ck_hash = hash, ck_ts = ts, ck_event = event, ck_fields = flt\<rparr>)
                          | _ \<Rightarrow> Inl FieldsNotObject)))
                | _ \<Rightarrow> Inl EventNotString)
              | _ \<Rightarrow> Inl TsNotString))
      | Some _ \<Rightarrow> Inl NotObject)"

definition peekHead :: "audit_env \<Rightarrow> string \<Rightarrow> (int \<times> string) option" where
  "peekHead env line = (case ae_parse env line of
      Some (JObj es) \<Rightarrow> (case (integer_of (obj_get es ''seq''), obj_get es ''prev'') of
          (Some seq, JStr prev) \<Rightarrow> Some (seq, prev)
        | _ \<Rightarrow> None)
    | _ \<Rightarrow> None)"

subsection \<open>Reading a file line by line\<close>

datatype file_view = CannotOpen | Reads "nat list list" bool

datatype scan_step = StepOk | StepBroken audit_reason | StepIo

text \<open>What the callback does with a line: accept it, reject it, or throw.\<close>

datatype line_verdict = Accept | Reject audit_reason | Throws

text \<open>One chunk: \<open>pending\<close> is what earlier chunks left, \<open>cur\<close> what this one has since its last line break.\<close>

fun feed :: "(nat list \<Rightarrow> string) \<Rightarrow> ('s \<Rightarrow> string \<Rightarrow> 's \<times> line_verdict) \<Rightarrow> nat list \<Rightarrow> nat list \<Rightarrow> nat list \<Rightarrow> 's
    \<Rightarrow> 's \<times> (scan_step + nat list)" where
  "feed decode onLine pending cur [] s =
     (if cur = [] then (s, Inr pending)
      else if MAX_LINE_BYTES < length pending + length cur then (s, Inl (StepBroken LineTooLong))
      else (s, Inr (pending @ cur)))"
| "feed decode onLine pending cur (b # bs) s =
     (if b \<noteq> 0x0A then feed decode onLine pending (cur @ [b]) bs s
      else if MAX_LINE_BYTES < length pending + length cur then (s, Inl (StepBroken LineTooLong))
      else (case onLine s (decode (pending @ cur)) of
          (s', Accept) \<Rightarrow> feed decode onLine [] [] bs s'
        | (s', Reject r) \<Rightarrow> (s', Inl (StepBroken r))
        | (s', Throws) \<Rightarrow> (s', Inl StepIo)))"

fun read_chunks :: "(nat list \<Rightarrow> string) \<Rightarrow> ('s \<Rightarrow> string \<Rightarrow> 's \<times> line_verdict) \<Rightarrow> nat list \<Rightarrow> nat list list \<Rightarrow> bool \<Rightarrow> 's
    \<Rightarrow> 's \<times> scan_step" where
  "read_chunks decode onLine pending [] fails s =
     (s, if fails then StepIo else if pending \<noteq> [] then StepBroken TruncatedRecord else StepOk)"
| "read_chunks decode onLine pending (ch # chs) fails s =
     (if ch = [] then (s, if pending \<noteq> [] then StepBroken TruncatedRecord else StepOk)
      else (case feed decode onLine pending [] ch s of
          (s', Inl step) \<Rightarrow> (s', step)
        | (s', Inr pending') \<Rightarrow> read_chunks decode onLine pending' chs fails s'))"

definition eachLine :: "(nat list \<Rightarrow> string) \<Rightarrow> file_view \<Rightarrow> ('s \<Rightarrow> string \<Rightarrow> 's \<times> line_verdict) \<Rightarrow> 's \<Rightarrow> 's \<times> scan_step" where
  "eachLine decode view onLine s = (case view of
      CannotOpen \<Rightarrow> (s, StepIo)
    | Reads chunks fails \<Rightarrow> read_chunks decode onLine [] chunks fails s)"

subsection \<open>The boundary of a pruned prefix\<close>

definition has_substring :: "string \<Rightarrow> string \<Rightarrow> bool" where
  "has_substring p s = list_ex (\<lambda>i. take (length p) (drop i s) = p) [0..<Suc (length s)]"

definition boundary_line :: "audit_env \<Rightarrow> int \<Rightarrow> string \<Rightarrow> fields option \<Rightarrow> string \<Rightarrow> fields option \<times> line_verdict" where
  "boundary_line env throughSeq throughHash found line =
     (if found \<noteq> None \<or> \<not> has_substring RETENTION_EVENT line then found
      else (case ae_parse env line of
          Some (JObj es) \<Rightarrow>
            if obj_get es ''event'' = JStr RETENTION_EVENT then
              (case obj_get es ''fields'' of
                 JObj fs \<Rightarrow>
                   if obj_get fs ''throughSeq'' = JNum (Fin (of_int throughSeq)) \<and> obj_get fs ''throughHash'' = JStr throughHash
                   then Some fs else found
               | _ \<Rightarrow> found)
            else found
        | _ \<Rightarrow> found), Accept)"

text \<open>The fields found, and whether a file failed on the way.\<close>

definition findBoundaryRecord :: "audit_env \<Rightarrow> file_view list \<Rightarrow> int \<Rightarrow> string \<Rightarrow> fields option \<times> bool" where
  "findBoundaryRecord env files throughSeq throughHash =
     foldl (\<lambda>(found, failed) f. case eachLine (ae_decode env) f (boundary_line env throughSeq throughHash) found of
         (found', step) \<Rightarrow> (found', failed \<or> step \<noteq> StepOk)) (None, False) files"

definition decodeFrontier :: "audit_env \<Rightarrow> js \<Rightarrow> (frontier \<times> string) option" where
  "decodeFrontier env v = (case v of
      JStr t \<Rightarrow> (case ae_parse env t of
          None \<Rightarrow> None
        | Some state \<Rightarrow> (case seedFrontier state of Inr f \<Rightarrow> Some (f, t) | Inl _ \<Rightarrow> None))
    | _ \<Rightarrow> None)"

datatype audit_verdict = Verified nat string | Broken nat nat audit_reason

datatype pruned_prefix = PrefixFailed audit_verdict | Seeded frontier string "fields option"

fun newestBoundary_rev :: "audit_env \<Rightarrow> fields list \<Rightarrow> (nat \<times> string \<times> fields \<times> frontier) option" where
  "newestBoundary_rev env [] = None"
| "newestBoundary_rev env (fs # rest) =
     (case (integer_of (obj_get fs ''throughSeq''), obj_get fs ''throughHash'', decodeFrontier env (obj_get fs ''frontier'')) of
        (Some seq, JStr hash, Some (f, t)) \<Rightarrow>
          if int (fr_size f) = seq then Some (nat seq, hash, fs, f) else newestBoundary_rev env rest
      | _ \<Rightarrow> newestBoundary_rev env rest)"

definition newestBoundary :: "audit_env \<Rightarrow> fields list \<Rightarrow> (nat \<times> string \<times> fields \<times> frontier) option" where
  "newestBoundary env retentions = newestBoundary_rev env (rev retentions)"

definition resolvePrunedPrefix :: "audit_env \<Rightarrow> int \<Rightarrow> string \<Rightarrow> file_view list \<Rightarrow> fields list \<Rightarrow> pruned_prefix" where
  "resolvePrunedPrefix env seq prev files carried =
     (let (found, failed) = findBoundaryRecord env files (seq - 1) prev;
          fromCarried = (if found = None then
            find (\<lambda>r. obj_get r ''throughSeq'' = JNum (Fin (of_int (seq - 1))) \<and> obj_get r ''throughHash'' = JStr prev) carried
            else None)
      in case (case found of Some fs \<Rightarrow> Some fs | None \<Rightarrow> fromCarried) of
          None \<Rightarrow> PrefixFailed (if failed then Broken 0 0 (PrefixUnreadable seq) else Broken 0 1 (BadHead seq))
        | Some fs \<Rightarrow> (case decodeFrontier env (obj_get fs ''frontier'') of
            None \<Rightarrow> PrefixFailed (Broken 0 0 (NoValidFrontier seq))
          | Some (f, t) \<Rightarrow>
              if int (fr_size f) \<noteq> seq - 1 then PrefixFailed (Broken 0 0 (FrontierSize seq (fr_size f)))
              else Seeded f t fromCarried))"

subsection \<open>The scan\<close>

record boundary =
  by_throughSeq :: nat
  by_throughHash :: string
  by_frontier :: string
  by_file :: string

record scanned_file =
  sf_path :: string
  sf_firstSeq :: nat
  sf_lastSeq :: nat
  sf_lastTs :: string
  sf_lastHash :: string
  sf_frontier :: frontier

record scanning =
  sg_frontier :: frontier
  sg_files :: "scanned_file list"
  sg_count :: nat
  sg_lastSeq :: nat
  sg_prev :: string
  sg_sinceAnchor :: nat
  sg_started :: bool
  sg_boundary :: "boundary option"
  sg_halt :: "audit_verdict option"
  sg_retentions :: "fields list"
  sg_carriedUsed :: "fields option"
  sg_records :: "(nat \<times> string) list"
  sg_first :: nat
  sg_last :: nat
  sg_ts :: string
  sg_hash :: string

definition fresh_scan :: scanning where
  "fresh_scan = \<lparr>sg_frontier = createFrontier, sg_files = [], sg_count = 0, sg_lastSeq = 0, sg_prev = GENESIS_HASH,
     sg_sinceAnchor = 0, sg_started = False, sg_boundary = None, sg_halt = None, sg_retentions = [], sg_carriedUsed = None,
     sg_records = [], sg_first = 0, sg_last = 0, sg_ts = [], sg_hash = GENESIS_HASH\<rparr>"

definition verdict_reason :: "audit_verdict \<Rightarrow> audit_reason" where
  "verdict_reason v = (case v of Broken _ _ r \<Rightarrow> r | Verified _ _ \<Rightarrow> CannotRead)"

text \<open>The first line of the chain: one whose seq is not 1 needs the boundary that names its predecessor.\<close>

definition start_chain :: "audit_env \<Rightarrow> file_view list \<Rightarrow> fields list \<Rightarrow> string \<Rightarrow> string \<Rightarrow> scanning \<Rightarrow> scanning" where
  "start_chain env files carried file line st =
     (if sg_started st then st
      else
        let st = st\<lparr>sg_started := True\<rparr> in
        case peekHead env line of
          Some (seq, prev) \<Rightarrow>
            if seq \<le> 1 then st
            else (case resolvePrunedPrefix env seq prev files carried of
                PrefixFailed v \<Rightarrow> st\<lparr>sg_halt := Some v\<rparr>
              | Seeded f t c \<Rightarrow>
                  let st = st\<lparr>sg_lastSeq := nat (seq - 1), sg_prev := prev, sg_frontier := f\<rparr> in
                  if c = None
                  then st\<lparr>sg_boundary := Some \<lparr>by_throughSeq = nat (seq - 1), by_throughHash = prev, by_frontier = t, by_file = file\<rparr>\<rparr>
                  else st\<lparr>sg_carriedUsed := c\<rparr>)
        | None \<Rightarrow> st)"

definition names_boundary :: "checked \<Rightarrow> boundary \<Rightarrow> bool" where
  "names_boundary c b \<longleftrightarrow> ck_event c = RETENTION_EVENT
     \<and> obj_get (ck_fields c) ''throughSeq'' = JNum (Fin (of_nat (by_throughSeq b)))
     \<and> obj_get (ck_fields c) ''throughHash'' = JStr (by_throughHash b)
     \<and> obj_get (ck_fields c) ''frontier'' = JStr (by_frontier b)"

definition take_record :: "audit_env \<Rightarrow> bool \<Rightarrow> checked \<Rightarrow> scanning \<Rightarrow> scanning \<times> line_verdict" where
  "take_record env active c st =
     (let since = (if ck_event c = ANCHOR_EVENT then 0 else sg_sinceAnchor st + 1);
          bound = (case sg_boundary st of None \<Rightarrow> None | Some b \<Rightarrow> if names_boundary c b then None else Some b);
          kept = (if active \<and> ck_event c = RETENTION_EVENT then sg_retentions st @ [ck_fields c] else sg_retentions st);
          st = st\<lparr>sg_sinceAnchor := since, sg_boundary := bound, sg_retentions := kept\<rparr>
      in case push_leaf (ae_sha env) (ck_hash c) (sg_frontier st) of
          Inl _ \<Rightarrow> (st, Throws)
        | Inr f \<Rightarrow>
            let seq = sg_lastSeq st + 1 in
            (st\<lparr>sg_frontier := f, sg_lastSeq := seq, sg_count := sg_count st + 1, sg_prev := ck_hash c,
               sg_records := sg_records st @ [(seq, ck_hash c)],
               sg_first := (if sg_first st = 0 then seq else sg_first st),
               sg_last := seq, sg_ts := ck_ts c, sg_hash := ck_hash c\<rparr>, Accept))"

definition anchor_verdict :: "audit_env \<Rightarrow> checked \<Rightarrow> scanning \<Rightarrow> line_verdict" where
  "anchor_verdict env c st =
     (if ck_event c \<noteq> ANCHOR_EVENT then Accept
      else if obj_get (ck_fields c) ''through'' \<noteq> JNum (Fin (of_nat (sg_lastSeq st))) then Reject (AnchorMismatch (sg_lastSeq st))
      else (case frontier_root (ae_sha env) (sg_frontier st) of
          Inl _ \<Rightarrow> Throws
        | Inr rt \<Rightarrow> if obj_get (ck_fields c) ''root'' \<noteq> JStr rt then Reject (AnchorMismatch (sg_lastSeq st)) else Accept))"

definition acceptLine :: "audit_env \<Rightarrow> file_view list \<Rightarrow> fields list \<Rightarrow> string \<Rightarrow> string \<Rightarrow> scanning \<Rightarrow> string
    \<Rightarrow> scanning \<times> line_verdict" where
  "acceptLine env files carried path file st line =
     (let st = start_chain env files carried file line st in
      case sg_halt st of
        Some v \<Rightarrow> (st, Reject (verdict_reason v))
      | None \<Rightarrow> (case checkLine env line (sg_lastSeq st + 1) (sg_prev st) of
          Inl r \<Rightarrow> (st, Reject r)
        | Inr c \<Rightarrow> (case anchor_verdict env c st of
            Accept \<Rightarrow> take_record env (file = path) c st
          | v \<Rightarrow> (st, v))))"

definition scanFile :: "audit_env \<Rightarrow> file_view list \<Rightarrow> fields list \<Rightarrow> string \<Rightarrow> string \<Rightarrow> file_view \<Rightarrow> scanning
    \<Rightarrow> scanning \<times> scan_step" where
  "scanFile env files carried path file view st =
     (case eachLine (ae_decode env) view (acceptLine env files carried path file)
         (st\<lparr>sg_first := 0, sg_last := 0, sg_ts := [], sg_hash := GENESIS_HASH\<rparr>) of
        (st', step) \<Rightarrow>
          (if step = StepOk \<and> 0 < sg_first st'
           then st'\<lparr>sg_files := sg_files st' @ [\<lparr>sf_path = file, sf_firstSeq = sg_first st', sf_lastSeq = sg_last st',
             sf_lastTs = sg_ts st', sf_lastHash = sg_hash st', sf_frontier = sg_frontier st'\<rparr>]\<rparr>
           else st', step))"

record chain_scan =
  cs_verification :: audit_verdict
  cs_lastSeq :: nat
  cs_lastHash :: string
  cs_frontier :: frontier
  cs_sinceAnchor :: nat
  cs_activeFirst :: nat
  cs_brokenIn :: string
  cs_files :: "scanned_file list"
  cs_retentions :: "fields list"
  cs_carriedUsed :: "fields option"
  cs_records :: "(nat \<times> string) list"

definition finish :: "string \<Rightarrow> scanning \<Rightarrow> audit_verdict \<Rightarrow> string \<Rightarrow> chain_scan" where
  "finish path st v brokenIn = \<lparr>cs_verification = v, cs_lastSeq = sg_lastSeq st, cs_lastHash = sg_prev st,
     cs_frontier = sg_frontier st, cs_sinceAnchor = sg_sinceAnchor st,
     cs_activeFirst = (case find (\<lambda>f. sf_path f = path) (sg_files st) of Some f \<Rightarrow> sf_firstSeq f | None \<Rightarrow> sg_lastSeq st + 1),
     cs_brokenIn = brokenIn, cs_files = sg_files st, cs_retentions = sg_retentions st,
     cs_carriedUsed = sg_carriedUsed st, cs_records = sg_records st\<rparr>"

fun scan_files :: "audit_env \<Rightarrow> file_view list \<Rightarrow> fields list \<Rightarrow> string \<Rightarrow> (string \<times> file_view) list \<Rightarrow> scanning \<Rightarrow> chain_scan" where
  "scan_files env views carried path [] st =
     (case sg_boundary st of
        Some b \<Rightarrow> finish path st (Broken 0 1 (BadHead (int (by_throughSeq b) + 1))) (by_file b)
      | None \<Rightarrow> finish path st (Verified (sg_count st) (sg_prev st)) path)"
| "scan_files env views carried path ((file, view) # rest) st =
     (case scanFile env views carried path file view st of
        (st', step) \<Rightarrow> (case sg_halt st' of
            Some v \<Rightarrow> finish path st' v file
          | None \<Rightarrow> (case step of
              StepIo \<Rightarrow> finish path st' (Broken (sg_count st') 0 CannotRead) file
            | StepBroken r \<Rightarrow> finish path st' (Broken (sg_count st') (sg_lastSeq st' + 1) r) file
            | StepOk \<Rightarrow> scan_files env views carried path rest st')))"

text \<open>The files are the sealed segments in order and the active file, if it exists and is asked for.\<close>

definition scanChain :: "audit_env \<Rightarrow> string \<Rightarrow> (string \<times> file_view) list \<Rightarrow> fields list \<Rightarrow> chain_scan" where
  "scanChain env path files carried = scan_files env (map snd files) carried path files fresh_scan"

definition verifyAuditFile :: "audit_env \<Rightarrow> string \<Rightarrow> (string \<times> file_view) list \<Rightarrow> audit_verdict" where
  "verifyAuditFile env path files = cs_verification (scanChain env path files [])"

definition recordHashes :: "audit_env \<Rightarrow> string \<Rightarrow> (string \<times> file_view) list \<Rightarrow> nat list \<Rightarrow> (nat, string) jmap" where
  "recordHashes env path files seqs =
     foldl (\<lambda>m r. if fst r \<in> set seqs then jm_set (fst r) (snd r) m else m) [] (cs_records (scanChain env path files []))"

end
