(* ===== verification/Audit_Verify.thy ===== *)
theory Audit_Verify
  imports Audit_Chain
begin

text \<open>
  What a verified audit trail says. Reading in chunks is compared with a reading of the bytes one by one; the streaming
  scan of a trail that starts at its first record is compared with a definition over the list of its lines, which takes
  each anchor's root from the tree hash of all the hashes before it (\<open>Audit_Sync\<close> adds the pruned trails); and two trails that end in the same hash, or hold
  the same anchor, are compared record by record.
\<close>

subsection \<open>Reading in chunks\<close>

fun scan_bytes :: "(nat list \<Rightarrow> string) \<Rightarrow> ('s \<Rightarrow> string \<Rightarrow> 's \<times> line_verdict) \<Rightarrow> nat list \<Rightarrow> nat list \<Rightarrow> bool \<Rightarrow> 's
    \<Rightarrow> 's \<times> scan_step" where
  "scan_bytes decode onLine acc [] fails s =
     (s, if MAX_LINE_BYTES < length acc then StepBroken LineTooLong
         else if fails then StepIo else if acc \<noteq> [] then StepBroken TruncatedRecord else StepOk)"
| "scan_bytes decode onLine acc (b # bs) fails s =
     (if b \<noteq> 0x0A then scan_bytes decode onLine (acc @ [b]) bs fails s
      else if MAX_LINE_BYTES < length acc then (s, StepBroken LineTooLong)
      else (case onLine s (decode acc) of
          (s', Accept) \<Rightarrow> scan_bytes decode onLine [] bs fails s'
        | (s', Reject r) \<Rightarrow> (s', StepBroken r)
        | (s', Throws) \<Rightarrow> (s', StepIo)))"

definition view_bytes :: "file_view \<Rightarrow> nat list" where
  "view_bytes view = (case view of CannotOpen \<Rightarrow> [] | Reads chunks _ \<Rightarrow> concat (takeWhile (\<lambda>c. c \<noteq> []) chunks))"

definition view_whole :: "file_view \<Rightarrow> bool" where
  "view_whole view = (case view of CannotOpen \<Rightarrow> False | Reads chunks fails \<Rightarrow> \<not> (fails \<and> list_all (\<lambda>c. c \<noteq> []) chunks))"

lemma scan_bytes_long: "MAX_LINE_BYTES < length acc \<Longrightarrow> scan_bytes decode onLine acc bs fails s = (s, StepBroken LineTooLong)"
  by (induction bs arbitrary: acc) simp_all

lemma feed_scan:
  "length pending \<le> MAX_LINE_BYTES \<Longrightarrow> scan_bytes decode onLine (pending @ cur) (bs @ rest) fails s =
     (case feed decode onLine pending cur bs s of
        (s', Inl step) \<Rightarrow> (s', step)
      | (s', Inr pending') \<Rightarrow> scan_bytes decode onLine pending' rest fails s')"
proof (induction decode onLine pending cur bs s rule: feed.induct)
  case (1 decode onLine pending cur s)
  then show ?case by (simp add: scan_bytes_long)
next
  case (2 decode onLine pending cur b bs s)
  have step: "b \<noteq> 0x0A \<Longrightarrow> ?case" using 2 by (simp add: append_assoc [symmetric] del: append_assoc)
  have long: "b = 0x0A \<Longrightarrow> MAX_LINE_BYTES < length pending + length cur \<Longrightarrow> ?case" by simp
  have line: "b = 0x0A \<Longrightarrow> \<not> MAX_LINE_BYTES < length pending + length cur \<Longrightarrow> ?case"
    using 2(2) by (auto split: prod.splits line_verdict.splits)
  from step long line show ?case by blast
qed

lemma feed_pending:
  "feed decode onLine pending cur bs s = (s', Inr p) \<Longrightarrow> length pending \<le> MAX_LINE_BYTES \<Longrightarrow> length p \<le> MAX_LINE_BYTES"
  by (induction decode onLine pending cur bs s rule: feed.induct)
    (auto split: if_splits prod.splits line_verdict.splits)

lemma read_chunks_scan:
  "length pending \<le> MAX_LINE_BYTES \<Longrightarrow> read_chunks decode onLine pending chunks fails s =
     scan_bytes decode onLine pending (concat (takeWhile (\<lambda>c. c \<noteq> []) chunks)) (fails \<and> list_all (\<lambda>c. c \<noteq> []) chunks) s"
proof (induction chunks arbitrary: pending s)
  case Nil
  then show ?case by simp
next
  case (Cons ch chunks)
  show ?case
  proof (cases "ch = []")
    case True
    with Cons.prems show ?thesis by simp
  next
    case False
    with Cons.IH feed_pending [of decode onLine pending "[]" ch s]
      feed_scan [OF Cons.prems, of decode onLine "[]" ch "concat (takeWhile (\<lambda>c. c \<noteq> []) chunks)"] Cons.prems
    show ?thesis by (auto split: prod.splits sum.splits)
  qed
qed

lemma eachLine_scan:
  "eachLine decode view onLine s = (case view of CannotOpen \<Rightarrow> (s, StepIo)
     | Reads _ _ \<Rightarrow> scan_bytes decode onLine [] (view_bytes view) (\<not> view_whole view) s)"
proof (cases view)
  case (Reads chunks fails)
  have "length [] \<le> MAX_LINE_BYTES" by simp
  from read_chunks_scan [OF this] Reads show ?thesis by (simp add: eachLine_def view_bytes_def view_whole_def)
qed (simp add: eachLine_def)

text \<open>How the reads cut a file does not matter: whatever chunks \<^verbatim>\<open>readSync\<close> returns, the callback sees the
  same lines in the same order and the verdict is the one of reading the file's bytes one by one, the line length limit
  and a read that fails included.\<close>
theorem chunks_do_not_matter:
  "eachLine decode view onLine s = (case view of CannotOpen \<Rightarrow> (s, StepIo)
     | Reads _ _ \<Rightarrow> scan_bytes decode onLine [] (view_bytes view) (\<not> view_whole view) s)"
  by (rule eachLine_scan)

subsection \<open>The lines of a file\<close>

fun split_lines :: "nat list \<Rightarrow> nat list \<Rightarrow> nat list list \<times> nat list" where
  "split_lines acc [] = ([], acc)"
| "split_lines acc (b # bs) =
     (if b \<noteq> 0x0A then split_lines (acc @ [b]) bs
      else (acc # fst (split_lines [] bs), snd (split_lines [] bs)))"

definition view_lines :: "(nat list \<Rightarrow> string) \<Rightarrow> file_view \<Rightarrow> string list" where
  "view_lines decode view = map decode (fst (split_lines [] (view_bytes view)))"

text \<open>A file that can be read, in whole lines none of which is too long.\<close>

definition readable :: "file_view \<Rightarrow> bool" where
  "readable view \<longleftrightarrow> view_whole view \<and> snd (split_lines [] (view_bytes view)) = []
     \<and> list_all (\<lambda>l. length l \<le> MAX_LINE_BYTES) (fst (split_lines [] (view_bytes view)))"

fun accepts :: "('s \<Rightarrow> string \<Rightarrow> 's \<times> line_verdict) \<Rightarrow> 's \<Rightarrow> string list \<Rightarrow> 's option" where
  "accepts f s [] = Some s"
| "accepts f s (l # ls) = (case f s l of (s', Accept) \<Rightarrow> accepts f s' ls | _ \<Rightarrow> None)"

lemma scan_bytes_ok:
  "scan_bytes decode f acc bs fails s = (s', StepOk) \<longleftrightarrow> \<not> fails \<and> snd (split_lines acc bs) = []
     \<and> list_all (\<lambda>l. length l \<le> MAX_LINE_BYTES) (fst (split_lines acc bs))
     \<and> accepts f s (map decode (fst (split_lines acc bs))) = Some s'"
proof (induction decode f acc bs fails s rule: scan_bytes.induct)
  case (1 decode onLine acc fails s)
  then show ?case by auto
next
  case (2 decode onLine acc b bs fails s)
  show ?case
  proof (cases "b \<noteq> 0x0A \<or> MAX_LINE_BYTES < length acc")
    case True
    with 2(1) show ?thesis by auto
  next
    case False
    with 2(2) show ?thesis by (auto split: prod.splits line_verdict.splits)
  qed
qed

lemma eachLine_ok:
  "eachLine decode view f s = (s', StepOk) \<longleftrightarrow> readable view \<and> accepts f s (view_lines decode view) = Some s'"
  unfolding eachLine_scan readable_def view_lines_def
  by (cases view) (auto simp: scan_bytes_ok view_whole_def simp del: scan_bytes.simps)

text \<open>The lines of all files, in the order of the chain.\<close>

definition chain_lines :: "audit_env \<Rightarrow> (string \<times> file_view) list \<Rightarrow> string list" where
  "chain_lines env files = concat (map (view_lines (ae_decode env) \<circ> snd) files)"

subsection \<open>The chain as a function of its lines\<close>

definition head_hash :: "string list \<Rightarrow> string" where
  "head_hash hs = last (GENESIS_HASH # hs)"

definition anchor_holds :: "audit_env \<Rightarrow> string list \<Rightarrow> checked \<Rightarrow> bool" where
  "anchor_holds env hs c \<longleftrightarrow> ck_event c \<noteq> ANCHOR_EVENT
     \<or> obj_get (ck_fields c) ''through'' = JNum (Fin (of_nat (length hs)))
       \<and> obj_get (ck_fields c) ''root'' = JStr (mth (ae_sha env) hs)"

fun chain_hashes :: "audit_env \<Rightarrow> string list \<Rightarrow> string list \<Rightarrow> string list option" where
  "chain_hashes env hs [] = Some hs"
| "chain_hashes env hs (l # ls) = (case checkLine env l (length hs + 1) (head_hash hs) of
      Inl _ \<Rightarrow> None
    | Inr c \<Rightarrow> if anchor_holds env hs c then chain_hashes env (hs @ [ck_hash c]) ls else None)"

definition starts_at_one :: "audit_env \<Rightarrow> string list \<Rightarrow> bool" where
  "starts_at_one env ls \<longleftrightarrow> (case ls of [] \<Rightarrow> True
     | l # _ \<Rightarrow> (case peekHead env l of Some (seq, _) \<Rightarrow> seq \<le> 1 | None \<Rightarrow> True))"

text \<open>The state of a scan that has accepted the records with the hashes \<open>hs\<close> from the first on.\<close>

definition scanned :: "audit_env \<Rightarrow> string list \<Rightarrow> scanning \<Rightarrow> bool" where
  "scanned env hs st \<longleftrightarrow> sg_halt st = None \<and> sg_boundary st = None \<and> sg_lastSeq st = length hs \<and> sg_count st = length hs
     \<and> sg_prev st = head_hash hs \<and> frontier_of (ae_sha env) (sg_frontier st) hs \<and> (hs \<noteq> [] \<longrightarrow> sg_started st)"

lemma head_hash_snoc [simp]: "head_hash (hs @ [h]) = h"
  by (simp add: head_hash_def)

lemma scanned_fresh: "scanned env [] fresh_scan"
  by (simp add: scanned_def fresh_scan_def head_hash_def frontier_of_def createFrontier_def growing_def)

lemma checkLine_hash: "checkLine env l n p = Inr c \<Longrightarrow> HEX_64 (ck_hash c)"
  by (auto simp: checkLine_def digest_of_def split: option.splits js.splits if_splits sum.splits)

lemma take_record_scanned:
  assumes sha: "sha_format (ae_sha env)" and st: "scanned env hs st" "sg_started st" and h: "HEX_64 (ck_hash c)"
  shows "\<exists>st'. take_record env active c st = (st', Accept) \<and> scanned env (hs @ [ck_hash c]) st' \<and> sg_started st'"
proof -
  from st push_leaf_frontier [OF sha _ h, of "sg_frontier st" hs] obtain f
    where "push_leaf (ae_sha env) (ck_hash c) (sg_frontier st) = Inr f" "frontier_of (ae_sha env) f (hs @ [ck_hash c])"
    by (auto simp: scanned_def)
  with st show ?thesis by (simp add: take_record_def scanned_def Let_def)
qed

lemma anchor_verdict_scanned:
  assumes sha: "sha_format (ae_sha env)" and st: "scanned env hs st"
  shows "anchor_verdict env c st = (if anchor_holds env hs c then Accept else Reject (AnchorMismatch (length hs)))"
proof -
  from st have "frontier_root (ae_sha env) (sg_frontier st) = Inr (mth (ae_sha env) hs)" "sg_lastSeq st = length hs"
    using frontier_root_mth [OF sha] by (auto simp: scanned_def)
  then show ?thesis by (simp add: anchor_verdict_def anchor_holds_def)
qed

lemma start_chain_scanned:
  assumes "scanned env hs st" "hs = [] \<Longrightarrow> starts_at_one env (l # ls)"
  shows "scanned env hs (start_chain env files carried nm l st) \<and> sg_started (start_chain env files carried nm l st)"
  using assms by (cases "hs = []") (auto simp: start_chain_def scanned_def starts_at_one_def Let_def split: option.splits prod.splits)

lemma acceptLine_scanned:
  assumes sha: "sha_format (ae_sha env)" and st: "scanned env hs st" and first: "hs = [] \<Longrightarrow> starts_at_one env (l # ls)"
  shows "case checkLine env l (length hs + 1) (head_hash hs) of
      Inl _ \<Rightarrow> snd (acceptLine env files carried path nm st l) \<noteq> Accept
    | Inr c \<Rightarrow> if anchor_holds env hs c
        then \<exists>st'. acceptLine env files carried path nm st l = (st', Accept) \<and> scanned env (hs @ [ck_hash c]) st'
        else snd (acceptLine env files carried path nm st l) \<noteq> Accept"
proof -
  let ?st = "start_chain env files carried nm l st"
  have s: "scanned env hs ?st" "sg_started ?st" using start_chain_scanned [OF st first] by blast+
  then have eq: "sg_lastSeq ?st = length hs" "sg_prev ?st = head_hash hs" "sg_halt ?st = None" by (simp_all add: scanned_def)
  show ?thesis
    using take_record_scanned [OF sha s, where active = "nm = path"] checkLine_hash [of env l "length hs + 1" "head_hash hs"]
    by (auto simp: acceptLine_def Let_def eq anchor_verdict_scanned [OF sha s(1)] split: sum.split)
qed

lemma accepts_scanned:
  assumes sha: "sha_format (ae_sha env)"
  shows "scanned env hs st \<Longrightarrow> (hs = [] \<Longrightarrow> starts_at_one env ls) \<Longrightarrow>
    (case chain_hashes env hs ls of
       None \<Rightarrow> accepts (acceptLine env files carried path nm) st ls = None
     | Some hs' \<Rightarrow> \<exists>st'. accepts (acceptLine env files carried path nm) st ls = Some st' \<and> scanned env hs' st')"
proof (induction ls arbitrary: hs st)
  case Nil
  then show ?case by simp
next
  case (Cons l ls)
  note a = acceptLine_scanned [OF sha Cons.prems, where files = files and carried = carried and path = path and nm = nm]
  show ?case
  proof (cases "checkLine env l (length hs + 1) (head_hash hs)")
    case (Inl r)
    with a show ?thesis by (auto split: prod.split line_verdict.split)
  next
    case (Inr c)
    show ?thesis
    proof (cases "anchor_holds env hs c")
      case True
      with a Inr obtain st' where st': "acceptLine env files carried path nm st l = (st', Accept)" "scanned env (hs @ [ck_hash c]) st'"
        by auto
      from Cons.IH [OF st'(2)] Inr True st'(1) show ?thesis by (auto split: option.splits)
    next
      case False
      with a Inr show ?thesis by (auto split: prod.split line_verdict.split)
    qed
  qed
qed

lemma chain_hashes_append:
  "chain_hashes env hs (ls @ ls') = Option.bind (chain_hashes env hs ls) (\<lambda>hs'. chain_hashes env hs' ls')"
  by (induction ls arbitrary: hs) (simp_all split: sum.split)

lemma chain_hashes_extend: "chain_hashes env hs ls = Some hs' \<Longrightarrow> \<exists>new. hs' = hs @ new \<and> length new = length ls"
proof (induction ls arbitrary: hs)
  case (Cons l ls)
  from Cons.prems obtain h where "chain_hashes env (hs @ [h]) ls = Some hs'" by (auto split: sum.splits if_splits)
  from Cons.IH [OF this] show ?case by auto
qed simp

lemma starts_at_one_append: "starts_at_one env (ls @ ls') \<Longrightarrow> starts_at_one env ls"
  by (cases ls) (auto simp: starts_at_one_def)

lemma scanned_files:
  "scanned env hs (st\<lparr>sg_files := f\<rparr>) = scanned env hs st"
  "scanned env hs (st\<lparr>sg_first := a, sg_last := b, sg_ts := t, sg_hash := h\<rparr>) = scanned env hs st"
  by (simp_all add: scanned_def)

lemma scanFile_scanned:
  assumes sha: "sha_format (ae_sha env)" and st: "scanned env hs st" and first: "hs = [] \<Longrightarrow> starts_at_one env (view_lines (ae_decode env) view)"
  shows "if readable view \<and> chain_hashes env hs (view_lines (ae_decode env) view) \<noteq> None
    then \<exists>st'. scanFile env files carried path nm view st = (st', StepOk)
      \<and> scanned env (the (chain_hashes env hs (view_lines (ae_decode env) view))) st'
    else snd (scanFile env files carried path nm view st) \<noteq> StepOk"
proof -
  let ?st = "st\<lparr>sg_first := 0, sg_last := 0, sg_ts := [], sg_hash := GENESIS_HASH\<rparr>"
  let ?f = "acceptLine env files carried path nm"
  have "scanned env hs ?st" using st by (simp only: scanned_files)
  from accepts_scanned [OF sha this first, where files = files and carried = carried and path = path and nm = nm]
  have a: "case chain_hashes env hs (view_lines (ae_decode env) view) of
       None \<Rightarrow> accepts ?f ?st (view_lines (ae_decode env) view) = None
     | Some hs' \<Rightarrow> \<exists>st'. accepts ?f ?st (view_lines (ae_decode env) view) = Some st' \<and> scanned env hs' st'" .
  show ?thesis
  proof (cases "readable view \<and> chain_hashes env hs (view_lines (ae_decode env) view) \<noteq> None")
    case True
    with a obtain st' where "eachLine (ae_decode env) view ?f ?st = (st', StepOk)"
      "scanned env (the (chain_hashes env hs (view_lines (ae_decode env) view))) st'" by (auto simp: eachLine_ok)
    with True show ?thesis by (simp add: scanFile_def scanned_files)
  next
    case False
    then have "eachLine (ae_decode env) view ?f ?st \<noteq> (st', StepOk)" for st' using a by (auto simp: eachLine_ok)
    with False show ?thesis by (auto simp: scanFile_def split: prod.split)
  qed
qed

lemma scan_bytes_inv:
  "(\<And>s l. P s \<Longrightarrow> P (fst (f s l))) \<Longrightarrow> P s \<Longrightarrow> P (fst (scan_bytes decode f acc bs fails s))"
proof (induction decode f acc bs fails s rule: scan_bytes.induct)
  case (2 decode onLine acc b bs fails s)
  show ?case
  proof (cases "b \<noteq> 0x0A \<or> MAX_LINE_BYTES < length acc")
    case True
    with 2 show ?thesis by auto
  next
    case False
    obtain s' v where v: "onLine s (decode acc) = (s', v)" by fastforce
    with 2(3) [OF 2(4), of "decode acc"] have "P s'" by simp
    have "v = Accept \<Longrightarrow> P (fst (scan_bytes decode onLine [] bs fails s'))"
      using 2(2) [OF _ _ v [symmetric] _ 2(3)] False \<open>P s'\<close> by blast
    with False v \<open>P s'\<close> show ?thesis by (cases v) simp_all
  qed
qed simp

text \<open>A scan halts on a broken verdict only.\<close>

definition halt_broken :: "scanning \<Rightarrow> bool" where
  "halt_broken st \<longleftrightarrow> (case sg_halt st of Some (Verified _ _) \<Rightarrow> False | _ \<Rightarrow> True)"

lemma resolve_broken: "resolvePrunedPrefix env seq prev files carried = PrefixFailed v \<Longrightarrow> \<exists>a b r. v = Broken a b r"
  by (auto simp: resolvePrunedPrefix_def Let_def split: option.splits prod.splits if_splits)

lemma start_chain_halt: "halt_broken st \<Longrightarrow> halt_broken (start_chain env files carried nm l st)"
  using resolve_broken
  by (fastforce simp: start_chain_def halt_broken_def Let_def split: option.splits prod.splits pruned_prefix.splits audit_verdict.splits)

lemma take_record_halt: "sg_halt (fst (take_record env active c st)) = sg_halt st"
  by (simp add: take_record_def Let_def split: sum.split)

lemma acceptLine_halt: "halt_broken st \<Longrightarrow> halt_broken (fst (acceptLine env files carried path nm st l))"
  using start_chain_halt [of st env files carried nm l] take_record_halt
  by (auto simp: acceptLine_def Let_def halt_broken_def split: option.splits sum.splits line_verdict.splits)

lemma scanFile_halt:
  assumes "halt_broken st"
  shows "halt_broken (fst (scanFile env files carried path nm view st))"
proof -
  let ?st = "st\<lparr>sg_first := 0, sg_last := 0, sg_ts := [], sg_hash := GENESIS_HASH\<rparr>"
  have "halt_broken (fst (eachLine (ae_decode env) view (acceptLine env files carried path nm) ?st))"
  proof (cases view)
    case (Reads chunks fails)
    have "halt_broken ?st" using assms by (simp add: halt_broken_def)
    from scan_bytes_inv [of halt_broken, OF acceptLine_halt this] Reads show ?thesis by (simp add: eachLine_scan)
  qed (use assms in \<open>simp add: eachLine_scan halt_broken_def\<close>)
  then show ?thesis by (auto simp: scanFile_def halt_broken_def split: prod.splits)
qed

lemma scan_files_scanned:
  assumes sha: "sha_format (ae_sha env)"
  shows "scanned env hs st \<Longrightarrow> (hs = [] \<Longrightarrow> starts_at_one env (chain_lines env files)) \<Longrightarrow>
    cs_verification (scan_files env views carried path files st) = Verified n h \<longleftrightarrow>
      list_all (readable \<circ> snd) files \<and> (case chain_hashes env hs (chain_lines env files) of
        None \<Rightarrow> False | Some hs' \<Rightarrow> n = length hs' \<and> h = head_hash hs')"
proof (induction files arbitrary: hs st)
  case Nil
  then show ?case by (auto simp: chain_lines_def scanned_def finish_def)
next
  case (Cons f files)
  obtain nm view where f: "f = (nm, view)" by (cases f)
  have lines: "chain_lines env (f # files) = view_lines (ae_decode env) view @ chain_lines env files"
    by (simp add: chain_lines_def f)
  have first: "hs = [] \<Longrightarrow> starts_at_one env (view_lines (ae_decode env) view)"
    using Cons.prems(2) starts_at_one_append unfolding lines by blast
  note s = scanFile_scanned [OF sha Cons.prems(1) first, where files = views and carried = carried and path = path and nm = nm]
  show ?case
  proof (cases "readable view \<and> chain_hashes env hs (view_lines (ae_decode env) view) \<noteq> None")
    case True
    then obtain hs' where hs': "chain_hashes env hs (view_lines (ae_decode env) view) = Some hs'" by blast
    with s True obtain st' where st': "scanFile env views carried path nm view st = (st', StepOk)" "scanned env hs' st'" by auto
    have "hs' = [] \<Longrightarrow> starts_at_one env (chain_lines env files)"
    proof -
      assume e: "hs' = []"
      with chain_hashes_extend [OF hs'] have "hs = []" "view_lines (ae_decode env) view = []" by auto
      with Cons.prems(2) lines show "starts_at_one env (chain_lines env files)" by simp
    qed
    from Cons.IH [OF st'(2) this] st' True hs' lines f show ?thesis
      by (auto simp: scanned_def chain_hashes_append)
  next
    case False
    with s obtain st' step where "scanFile env views carried path nm view st = (st', step)" "step \<noteq> StepOk"
      by (cases "scanFile env views carried path nm view st") auto
    moreover have "chain_hashes env hs (chain_lines env (f # files)) = None \<or> \<not> readable view"
      using False lines by (auto simp: chain_hashes_append)
    moreover have "halt_broken st'" using scanFile_halt [where st = st and files = views and carried = carried and path = path and nm = nm and view = view and env = env] Cons.prems(1) calculation(1)
      by (simp add: halt_broken_def scanned_def)
    ultimately show ?thesis using f
      by (cases step; cases "sg_halt st'"; auto simp: finish_def halt_broken_def)
  qed
qed

lemma scanChain_exact:
  assumes sha: "sha_format (ae_sha env)" and "starts_at_one env (chain_lines env files)"
  shows "cs_verification (scanChain env path files carried) = Verified n h \<longleftrightarrow>
    list_all (readable \<circ> snd) files \<and> (case chain_hashes env [] (chain_lines env files) of
      None \<Rightarrow> False | Some hs \<Rightarrow> n = length hs \<and> h = head_hash hs)"
  unfolding scanChain_def by (rule scan_files_scanned [OF sha scanned_fresh assms(2)])

subsection \<open>Records\<close>

record audit_record =
  ar_seq :: nat
  ar_ts :: string
  ar_event :: string
  ar_prev :: string
  ar_hash :: string
  ar_fields :: fields

text \<open>The record a line stores, with every member of its fields.\<close>

definition record_of :: "audit_env \<Rightarrow> string \<Rightarrow> audit_record option" where
  "record_of env line = (case ae_parse env line of
      Some (JObj es) \<Rightarrow> (case (integer_of (obj_get es ''seq''), obj_get es ''ts'', obj_get es ''event'', obj_get es ''prev'',
          obj_get es ''hash'', obj_get es ''fields'') of
        (Some seq, JStr ts, JStr event, JStr prev, JStr hash, JObj fs) \<Rightarrow>
          Some \<lparr>ar_seq = nat seq, ar_ts = ts, ar_event = event, ar_prev = prev, ar_hash = hash, ar_fields = fs\<rparr>
      | _ \<Rightarrow> None)
    | _ \<Rightarrow> None)"

text \<open>The fields the verifier hashes are its copy of the stored ones, which a member named \<^verbatim>\<open>__proto__\<close>
  does not reach. \<open>covered\<close> is what is left to agree on: the value of every other key (of equal keys the last).\<close>

definition hashed_fields :: "fields \<Rightarrow> fields" where
  "hashed_fields fs = foldl set_member [] fs"

definition covered :: "fields \<Rightarrow> string \<Rightarrow> js option" where
  "covered fs = map_of (rev (filter (\<lambda>e. fst e \<noteq> ''__proto__'') fs))"

definition record_input :: "audit_env \<Rightarrow> audit_record \<Rightarrow> nat list" where
  "record_input env r = hash_input env (ar_seq r) (ar_ts r) (ar_event r) (ar_prev r) (hashed_fields (ar_fields r))"

definition chain_records :: "audit_env \<Rightarrow> (string \<times> file_view) list \<Rightarrow> audit_record list" where
  "chain_records env files = map (\<lambda>l. the (record_of env l)) (chain_lines env files)"

text \<open>The same record as stored, but for the order of its fields and a field named \<^verbatim>\<open>__proto__\<close>.\<close>

definition same_record :: "audit_record \<Rightarrow> audit_record \<Rightarrow> bool" where
  "same_record r r' \<longleftrightarrow> ar_seq r = ar_seq r' \<and> ar_ts r = ar_ts r' \<and> ar_event r = ar_event r' \<and> ar_prev r = ar_prev r'
     \<and> ar_hash r = ar_hash r' \<and> covered (ar_fields r) = covered (ar_fields r')"

definition record_numbers :: "audit_record list \<Rightarrow> js_num set" where
  "record_numbers rs = (\<Union>r \<in> set rs. insert (Fin (of_nat (ar_seq r))) (numbers_of (hashed_fields (ar_fields r))))"

text \<open>Records at consecutive places of a chain whose first predecessor has the hash \<open>p\<close>.\<close>

fun linked :: "audit_env \<Rightarrow> nat \<Rightarrow> string \<Rightarrow> audit_record list \<Rightarrow> bool" where
  "linked env s p [] \<longleftrightarrow> True"
| "linked env s p (r # rs) \<longleftrightarrow> ar_seq r = s \<and> ar_prev r = p \<and> HEX_64 p \<and> flat (hashed_fields (ar_fields r))
     \<and> ar_hash r = ae_sha env (record_input env r) \<and> HEX_64 (ar_hash r) \<and> linked env (s + 1) (ar_hash r) rs"

definition end_hash :: "string \<Rightarrow> audit_record list \<Rightarrow> string" where
  "end_hash p rs = last (p # map ar_hash rs)"

lemma end_hash_simps [simp]: "end_hash p [] = p" "end_hash p (rs @ [r]) = ar_hash r"
  by (simp_all add: end_hash_def)

lemma linked_snoc:
  "linked env s p (rs @ [r]) \<longleftrightarrow> linked env s p rs \<and> linked env (s + length rs) (end_hash p rs) [r]"
  by (induction rs arbitrary: s p) (auto simp: end_hash_def)

lemma set_update_sub: "set (AList.update k v m) \<subseteq> insert (k, v) (set m)"
  by (induction m) auto

lemma flat_fields: "list_all (\<lambda>e. primitive (snd e)) fs \<Longrightarrow> flat out \<Longrightarrow> flat (foldl set_member out fs)"
proof (induction fs arbitrary: out)
  case (Cons e fs)
  have "flat (set_member out e)"
    using Cons.prems set_update_sub [of "fst e" "snd e" out] by (auto simp: flat_def set_member_def list_all_iff)
  with Cons show ?case by simp
qed simp

lemma map_of_flattened: "map_of (foldl set_member out fs) = map_of out ++ covered fs"
  by (induction fs arbitrary: out) (auto simp: covered_def set_member_def update_conv' fun_eq_iff map_add_def split: option.split)

lemma map_of_hashed: "map_of (hashed_fields fs) = covered fs"
  by (simp add: hashed_fields_def map_of_flattened)

lemma distinct_hashed: "distinct (map fst (hashed_fields fs))"
proof -
  have "distinct (map fst (foldl set_member out fs))" if "distinct (map fst out)" for out
    using that
  proof (induction fs arbitrary: out)
    case (Cons e fs)
    have "distinct (map fst (set_member out e))" using distinct_update [OF Cons.prems, of "fst e" "snd e"] Cons.prems by (simp add: set_member_def)
    with Cons.IH show ?case by simp
  qed simp
  then show ?thesis by (simp add: hashed_fields_def)
qed

lemma covered_sorted:
  assumes "sort_key fst (hashed_fields fs) = sort_key fst (hashed_fields fs')"
  shows "covered fs = covered fs'"
proof -
  have "set (hashed_fields fs) = set (hashed_fields fs')" using arg_cong [OF assms, of set] by simp
  then have "map_of (hashed_fields fs) = map_of (hashed_fields fs')"
    using map_of_inject_set [OF distinct_hashed distinct_hashed] by blast
  then show ?thesis by (simp add: map_of_hashed)
qed

lemma covered_get: "obj_get (hashed_fields fs) k = (case covered fs k of Some v \<Rightarrow> v | None \<Rightarrow> JUndef)"
  by (simp add: obj_get_def map_of_hashed)

lemma covered_distinct:
  assumes "distinct (map fst fs)" and "k \<noteq> ''__proto__''"
  shows "covered fs k = map_of fs k"
proof -
  let ?g = "filter (\<lambda>e. fst e \<noteq> ''__proto__'') fs"
  have "distinct (map fst ?g)" using assms(1) by (rule distinct_map_filter)
  then have "map_of (rev ?g) = map_of ?g" by (subst map_of_inject_set) (simp_all add: rev_map [symmetric])
  moreover have "map_of ?g k = map_of fs k" using assms(2) by (induction fs) auto
  ultimately show ?thesis by (simp add: covered_def)
qed

lemma checkLine_record:
  assumes "checkLine env l s p = Inr c"
  shows "\<exists>r. record_of env l = Some r \<and> linked env s p [r]
    \<and> ck_hash c = ar_hash r \<and> ck_event c = ar_event r \<and> ck_fields c = hashed_fields (ar_fields r)"
proof -
  from assms obtain es ts ev prev h fs flt where
    p1: "ae_parse env l = Some (JObj es)" "integer_of (obj_get es ''seq'') = Some (int s)" "obj_get es ''ts'' = JStr ts"
      "obj_get es ''event'' = JStr ev" and
    p2: "obj_get es ''prev'' = JStr p" "HEX_64 p" "obj_get es ''hash'' = JStr h" "HEX_64 h" and
    p3: "obj_get es ''fields'' = JObj fs" "flatten_fields fs = Inr flt" "hashRecord env s ts ev p flt = h" and
    c: "c = \<lparr>ck_hash = h, ck_ts = ts, ck_event = ev, ck_fields = flt\<rparr>"
    unfolding checkLine_def digest_of_def by (auto split: option.splits js.splits if_splits sum.splits)
  from p3(2) have flt: "flt = foldl set_member [] fs" "list_all (\<lambda>e. primitive (snd e)) fs"
    by (auto simp: flatten_fields_def find_None_iff list_all_iff split: option.splits)
  have "flat flt" using flat_fields [OF flt(2), of "[]"] by (simp add: flt(1) flat_def)
  with p1 p2 p3 c flt(1) show ?thesis
    by (simp add: record_of_def record_input_def hashRecord_def hashed_fields_def)
qed

text \<open>A scan, from its first record on, holds the records it has accepted.\<close>

definition holding :: "audit_env \<Rightarrow> audit_record list \<Rightarrow> scanning \<Rightarrow> bool" where
  "holding env rs st \<longleftrightarrow> (\<exists>s p. linked env s p rs \<and> (sg_started st \<longrightarrow> sg_lastSeq st + 1 = s + length rs \<and> sg_prev st = end_hash p rs))
     \<and> (\<not> sg_started st \<longrightarrow> rs = []) \<and> sg_count st = length rs"

lemma start_chain_holding:
  assumes "holding env rs st"
  shows "holding env rs (start_chain env files carried nm l st) \<and> sg_started (start_chain env files carried nm l st)"
proof (cases "sg_started st")
  case True
  with assms show ?thesis by (simp add: start_chain_def)
next
  case False
  let ?st = "start_chain env files carried nm l st"
  from False assms have rs: "rs = []" and n: "sg_count st = 0" by (simp_all add: holding_def)
  have "sg_started ?st" "sg_count ?st = 0" using False n
    by (auto simp: start_chain_def Let_def split: option.splits prod.splits pruned_prefix.splits)
  moreover have "linked env (sg_lastSeq ?st + 1) (sg_prev ?st) []" by simp
  ultimately show ?thesis unfolding holding_def rs by force
qed

lemma take_record_fields:
  "take_record env active c st = (st', Accept) \<Longrightarrow>
     sg_lastSeq st' = sg_lastSeq st + 1 \<and> sg_prev st' = ck_hash c \<and> sg_count st' = sg_count st + 1 \<and> sg_started st' = sg_started st"
  by (auto simp: take_record_def Let_def split: sum.splits)

lemma acceptLine_holding:
  assumes st: "holding env rs st" and ok: "acceptLine env files carried path nm st l = (st', Accept)"
  shows "\<exists>r. record_of env l = Some r \<and> holding env (rs @ [r]) st'"
proof -
  let ?st = "start_chain env files carried nm l st"
  have h: "holding env rs ?st" "sg_started ?st" using start_chain_holding [OF st] by blast+
  then obtain s p where sp: "linked env s p rs" "sg_lastSeq ?st + 1 = s + length rs" "sg_prev ?st = end_hash p rs"
    "sg_count ?st = length rs" by (auto simp: holding_def)
  from ok obtain c where c: "checkLine env l (sg_lastSeq ?st + 1) (sg_prev ?st) = Inr c" "take_record env (nm = path) c ?st = (st', Accept)"
    by (auto simp: acceptLine_def Let_def split: option.splits sum.splits line_verdict.splits)
  from checkLine_record [OF c(1)] obtain r where r: "record_of env l = Some r" "linked env (s + length rs) (end_hash p rs) [r]"
    "ck_hash c = ar_hash r" unfolding sp(2,3) by blast
  have "linked env s p (rs @ [r])" using sp(1) r(2) linked_snoc by blast
  with take_record_fields [OF c(2)] sp r(3) h(2) have "holding env (rs @ [r]) st'" unfolding holding_def
    by (auto intro!: exI [of _ s] exI [of _ p])
  with r(1) show ?thesis by blast
qed

lemma accepts_holding:
  "holding env rs st \<Longrightarrow> accepts (acceptLine env files carried path nm) st ls = Some st' \<Longrightarrow>
     holding env (rs @ map (\<lambda>l. the (record_of env l)) ls) st'"
proof (induction ls arbitrary: rs st)
  case (Cons l ls)
  from Cons.prems(2) obtain st1 where st1: "acceptLine env files carried path nm st l = (st1, Accept)"
    "accepts (acceptLine env files carried path nm) st1 ls = Some st'" by (auto split: prod.splits line_verdict.splits)
  from acceptLine_holding [OF Cons.prems(1) st1(1)] obtain r where "record_of env l = Some r" "holding env (rs @ [r]) st1" by blast
  with Cons.IH [of "rs @ [r]" st1] st1(2) show ?case by simp
qed simp

lemma scan_files_holding:
  "holding env rs st \<Longrightarrow> halt_broken st \<Longrightarrow> cs_verification (scan_files env views carried path files st) = Verified n h \<Longrightarrow>
     (\<exists>s p. linked env s p (rs @ chain_records env files) \<and> (rs @ chain_records env files \<noteq> [] \<longrightarrow> h = end_hash p (rs @ chain_records env files)))
       \<and> n = length (rs @ chain_records env files)"
proof (induction files arbitrary: rs st)
  case Nil
  then show ?case by (auto simp: chain_records_def chain_lines_def holding_def finish_def split: option.splits)
next
  case (Cons f files)
  obtain nm view where f: "f = (nm, view)" by (cases f)
  obtain st' step where s: "scanFile env views carried path nm view st = (st', step)" by fastforce
  have hb: "halt_broken st'" using scanFile_halt [OF Cons.prems(2), of env views carried path nm view] s by simp
  with Cons.prems(3) f s have step: "step = StepOk" and rest: "cs_verification (scan_files env views carried path files st') = Verified n h"
    by (auto simp: finish_def halt_broken_def split: option.splits scan_step.splits)
  let ?st = "st\<lparr>sg_first := 0, sg_last := 0, sg_ts := [], sg_hash := GENESIS_HASH\<rparr>"
  obtain st1 where st1: "eachLine (ae_decode env) view (acceptLine env views carried path nm) ?st = (st1, StepOk)"
    and up: "sg_count st' = sg_count st1" "sg_prev st' = sg_prev st1" "sg_lastSeq st' = sg_lastSeq st1" "sg_started st' = sg_started st1"
    using s step by (auto simp: scanFile_def split: prod.splits if_splits)
  have "holding env rs ?st" using Cons.prems(1) by (simp add: holding_def)
  from accepts_holding [OF this st1 [unfolded eachLine_ok, THEN conjunct2]]
  have "holding env (rs @ map (\<lambda>l. the (record_of env l)) (view_lines (ae_decode env) view)) st1" .
  then have "holding env (rs @ map (\<lambda>l. the (record_of env l)) (view_lines (ae_decode env) view)) st'" by (simp add: holding_def up)
  from Cons.IH [OF this hb rest] show ?case by (simp add: chain_records_def chain_lines_def f)
qed

lemma verified_records:
  assumes "verifyAuditFile env path files = Verified n h"
  shows "n = length (chain_records env files)"
    "\<exists>s p. linked env s p (chain_records env files) \<and> (chain_records env files \<noteq> [] \<longrightarrow> h = end_hash p (chain_records env files))"
proof -
  have "holding env [] fresh_scan" by (simp add: holding_def fresh_scan_def)
  moreover have "halt_broken fresh_scan" by (simp add: halt_broken_def fresh_scan_def)
  moreover have "cs_verification (scan_files env (map snd files) [] path files fresh_scan) = Verified n h"
    using assms by (simp add: verifyAuditFile_def scanChain_def)
  ultimately have "(\<exists>s p. linked env s p (chain_records env files) \<and> (chain_records env files \<noteq> [] \<longrightarrow> h = end_hash p (chain_records env files)))
     \<and> n = length (chain_records env files)"
    using scan_files_holding [of env "[]" fresh_scan] by (simp only: append_Nil)
  then show "n = length (chain_records env files)"
    "\<exists>s p. linked env s p (chain_records env files) \<and> (chain_records env files \<noteq> [] \<longrightarrow> h = end_hash p (chain_records env files))"
    by blast+
qed

subsection \<open>Tampering shows\<close>

lemma same_input:
  assumes nt: "number_format (ae_num env) (record_numbers [r] \<union> record_numbers [r'])"
    and fl: "flat (hashed_fields (ar_fields r))" "flat (hashed_fields (ar_fields r'))" and hex: "HEX_64 (ar_prev r)" "HEX_64 (ar_prev r')"
    and eq: "record_input env r = record_input env r'"
  shows "ar_seq r = ar_seq r' \<and> ar_ts r = ar_ts r' \<and> ar_event r = ar_event r' \<and> ar_prev r = ar_prev r'
    \<and> covered (ar_fields r) = covered (ar_fields r')"
proof -
  let ?b = "\<lambda>r. record_body (ae_num env) (ar_seq r) (ar_ts r) (ar_event r) (ar_prev r) (hashed_fields (ar_fields r))"
  have a: "ar_prev r @ CHR 0x0A # ?b r = ar_prev r' @ CHR 0x0A # ?b r'"
    using eq utf8_inj [of "ar_prev r @ CHR 0x0A # ?b r" "ar_prev r' @ CHR 0x0A # ?b r'"] by (simp add: record_input_def hash_input_def)
  have len: "length (ar_prev r) = length (ar_prev r')" using HEX_64_facts [OF hex(1)] HEX_64_facts [OF hex(2)] by simp
  from iffD1 [OF append_eq_append_conv [OF disjI1 [OF len]] a] have "?b r = ?b r'" by (rule conjE) (rule list.inject [THEN iffD1, THEN conjunct2])
  from record_body_inj [OF nt fl _ _ _ _ this] show ?thesis by (auto simp: record_numbers_def intro: covered_sorted)
qed

lemma linked_agree:
  assumes nt: "number_format (ae_num env) (record_numbers rs \<union> record_numbers rs')"
    and l: "linked env s p rs" "linked env s' p' rs'" "end_hash p rs = end_hash p' rs'"
  shows "collision (ae_sha env) (map (record_input env) rs) (map (record_input env) rs')
    \<or> list_all2 same_record (take (min (length rs) (length rs')) (rev rs)) (take (min (length rs) (length rs')) (rev rs'))"
  using assms
proof (induction rs arbitrary: rs' rule: rev_induct)
  case Nil
  then show ?case by simp
next
  case (snoc r rs)
  show ?case
  proof (cases rs' rule: rev_cases)
    case Nil
    then show ?thesis by simp
  next
    case (snoc qs q)
    from snoc.prems(2) have r: "linked env s p rs" "linked env (s + length rs) (end_hash p rs) [r]" by (simp_all only: linked_snoc)
    from snoc.prems(3) snoc have q: "linked env s' p' qs" "linked env (s' + length qs) (end_hash p' qs) [q]" by (simp_all only: linked_snoc)
    have h: "ae_sha env (record_input env r) = ae_sha env (record_input env q)" "ar_hash r = ar_hash q"
      using snoc.prems(4) snoc r(2) q(2) by simp_all
    show ?thesis
    proof (cases "record_input env r = record_input env q")
      case False
      with h(1) have "collision (ae_sha env) (map (record_input env) (rs @ [r])) (map (record_input env) rs')"
        using snoc by (auto simp: collision_def)
      then show ?thesis ..
    next
      case True
      have "number_format (ae_num env) (record_numbers [r] \<union> record_numbers [q])"
        by (rule number_format_mono [OF snoc.prems(1)]) (auto simp: record_numbers_def snoc)
      from same_input [OF this _ _ _ _ True] r(2) q(2)
      have e: "ar_seq r = ar_seq q" "ar_ts r = ar_ts q" "ar_event r = ar_event q" "ar_prev r = ar_prev q"
        "covered (ar_fields r) = covered (ar_fields q)" by simp_all
      have same: "same_record r q" using e h(2) by (simp add: same_record_def)
      have "end_hash p rs = end_hash p' qs" using e(4) r(2) q(2) by simp
      moreover have "number_format (ae_num env) (record_numbers rs \<union> record_numbers qs)"
        by (rule number_format_mono [OF snoc.prems(1)]) (auto simp: record_numbers_def snoc)
      ultimately have "collision (ae_sha env) (map (record_input env) rs) (map (record_input env) qs)
        \<or> list_all2 same_record (take (min (length rs) (length qs)) (rev rs)) (take (min (length rs) (length qs)) (rev qs))"
        using snoc.IH r(1) q(1) by blast
      then show ?thesis
      proof
        assume "collision (ae_sha env) (map (record_input env) rs) (map (record_input env) qs)"
        then have "collision (ae_sha env) (map (record_input env) (rs @ [r])) (map (record_input env) rs')"
          by (rule collision_mono) (auto simp: snoc)
        then show ?thesis ..
      qed (use same snoc in simp)
    qed
  qed
qed

text \<open>C12. The last hash of a verified trail vouches for every record in it. If two trails verify with the same last hash,
  however their files are cut and wherever retention has pruned them, then counted from the end the records they store are
  the same as far back as both reach, in sequence number, time stamp, event, predecessor, hash and the value of every field
  except one named \<^verbatim>\<open>__proto__\<close>, which the hash does not cover (\<open>proto_member_unseen\<close>); or two different texts
  hashed for their records have the same SHA-256. The numbers of the trails are assumed to be written injectively.\<close>
theorem last_hash_commits:
  assumes "number_format (ae_num env) (record_numbers (chain_records env files) \<union> record_numbers (chain_records env files'))"
    and "verifyAuditFile env path files = Verified n h" "verifyAuditFile env path' files' = Verified m h"
  shows "collision (ae_sha env) (map (record_input env) (chain_records env files)) (map (record_input env) (chain_records env files'))
    \<or> list_all2 same_record (take (min n m) (rev (chain_records env files))) (take (min n m) (rev (chain_records env files')))"
proof -
  note v = verified_records [OF assms(2)] verified_records [OF assms(3)]
  show ?thesis
  proof (cases "chain_records env files = [] \<or> chain_records env files' = []")
    case True
    with v(1,3) show ?thesis by auto
  next
    case False
    with v(2,4) obtain s p s' p' where "linked env s p (chain_records env files)" "linked env s' p' (chain_records env files')"
      "end_hash p (chain_records env files) = end_hash p' (chain_records env files')" by metis
    from linked_agree [OF assms(1) this] show ?thesis unfolding v(1,3) .
  qed
qed

lemma chain_hashes_records:
  "chain_hashes env hs ls = Some hs' \<Longrightarrow> linked env (length hs + 1) (head_hash hs) (map (\<lambda>l. the (record_of env l)) ls)
     \<and> hs' = hs @ map ar_hash (map (\<lambda>l. the (record_of env l)) ls)
     \<and> (\<forall>i < length ls. ar_event (the (record_of env (ls ! i))) = ANCHOR_EVENT
         \<longrightarrow> covered (ar_fields (the (record_of env (ls ! i)))) ''root'' = Some (JStr (mth (ae_sha env) (take (length hs + i) hs'))))"
proof (induction ls arbitrary: hs)
  case (Cons l ls)
  from Cons.prems obtain c where c: "checkLine env l (length hs + 1) (head_hash hs) = Inr c" "anchor_holds env hs c"
    "chain_hashes env (hs @ [ck_hash c]) ls = Some hs'" by (auto split: sum.splits if_splits)
  from checkLine_record [OF c(1)] obtain r where r: "record_of env l = Some r" "linked env (length hs + 1) (head_hash hs) [r]"
    "ck_hash c = ar_hash r" "ck_event c = ar_event r" "ck_fields c = hashed_fields (ar_fields r)" by blast
  from Cons.IH [OF c(3)] r(3)
  have ih: "linked env (length hs + 2) (ar_hash r) (map (\<lambda>l. the (record_of env l)) ls)"
    "hs' = hs @ ar_hash r # map ar_hash (map (\<lambda>l. the (record_of env l)) ls)"
    "\<forall>i < length ls. ar_event (the (record_of env (ls ! i))) = ANCHOR_EVENT
         \<longrightarrow> covered (ar_fields (the (record_of env (ls ! i)))) ''root'' = Some (JStr (mth (ae_sha env) (take (length hs + Suc i) hs')))" by simp_all
  have "ar_event (the (record_of env ((l # ls) ! i))) = ANCHOR_EVENT
      \<longrightarrow> covered (ar_fields (the (record_of env ((l # ls) ! i)))) ''root'' = Some (JStr (mth (ae_sha env) (take (length hs + i) hs')))"
    if "i < length (l # ls)" for i
  proof (cases i)
    case 0
    have "take (length hs) hs' = hs" unfolding ih(2) by simp
    with 0 c(2) r show ?thesis by (auto simp: anchor_holds_def covered_get split: option.splits)
  next
    case (Suc j)
    with ih(3) that show ?thesis by simp
  qed
  then have "\<forall>i < length (l # ls). ar_event (the (record_of env ((l # ls) ! i))) = ANCHOR_EVENT
      \<longrightarrow> covered (ar_fields (the (record_of env ((l # ls) ! i)))) ''root'' = Some (JStr (mth (ae_sha env) (take (length hs + i) hs')))" by blast
  moreover have "linked env (length hs + 1) (head_hash hs) (map (\<lambda>l. the (record_of env l)) (l # ls))"
    using r(1,2) ih(1) by auto
  moreover have "hs' = hs @ map ar_hash (map (\<lambda>l. the (record_of env l)) (l # ls))"
    unfolding ih(2) list.map r(1) option.sel by (rule refl)
  ultimately show ?case by blast
qed simp

lemma linked_take: "linked env s p rs \<Longrightarrow> linked env s p (take k rs)"
  by (induction rs arbitrary: s p k) (auto simp: take_Cons split: nat.split)

lemma list_all2_rev_take:
  "list_all2 P (take (min (length xs) (length ys)) (rev xs)) (take (min (length xs) (length ys)) (rev ys)) \<Longrightarrow>
     length xs = length ys \<Longrightarrow> list_all2 P xs ys"
  by simp

lemma linked_hex: "linked env s p rs \<Longrightarrow> \<forall>h \<in> set (map ar_hash rs). HEX_64 h"
  by (induction rs arbitrary: s p) auto

lemma verified_chain:
  assumes "sha_format (ae_sha env)" "starts_at_one env (chain_lines env files)" "verifyAuditFile env path files = Verified n h"
  shows "linked env 1 GENESIS_HASH (chain_records env files)"
    "\<forall>i < length (chain_records env files). ar_event (chain_records env files ! i) = ANCHOR_EVENT
       \<longrightarrow> covered (ar_fields (chain_records env files ! i)) ''root'' = Some (JStr (mth (ae_sha env) (take i (map ar_hash (chain_records env files)))))"
proof -
  from assms(3) scanChain_exact [OF assms(1,2), of path "[]" n h] obtain hs where "chain_hashes env [] (chain_lines env files) = Some hs"
    by (auto simp: verifyAuditFile_def split: option.splits)
  from chain_hashes_records [OF this] show "linked env 1 GENESIS_HASH (chain_records env files)"
    "\<forall>i < length (chain_records env files). ar_event (chain_records env files ! i) = ANCHOR_EVENT
       \<longrightarrow> covered (ar_fields (chain_records env files ! i)) ''root'' = Some (JStr (mth (ae_sha env) (take i (map ar_hash (chain_records env files)))))"
    by (simp_all add: chain_records_def head_hash_def)
qed

text \<open>C13. An anchor vouches for every record before it. If two trails that both start at their record 1 (nothing pruned)
  verify, and hold anchors with the same root that are not their first records, then the records stored before the two
  anchors are the same, one by one and the same number, but for fields named \<^verbatim>\<open>__proto__\<close>, which the hash does not
  cover; or two different inputs hashed for the records or for the trees over them have the same SHA-256. So a trail whose
  last hashes were all recomputed after an edit is told from the original by any anchor kept elsewhere.\<close>
theorem anchor_commits:
  assumes "number_format (ae_num env) (record_numbers (chain_records env files) \<union> record_numbers (chain_records env files'))"
    and "sha_format (ae_sha env)"
    and "starts_at_one env (chain_lines env files)" "starts_at_one env (chain_lines env files')"
    and "verifyAuditFile env path files = Verified n h" "verifyAuditFile env path' files' = Verified m h'"
    and "0 < i" "i < n" "ar_event (chain_records env files ! i) = ANCHOR_EVENT"
    and "0 < j" "j < m" "ar_event (chain_records env files' ! j) = ANCHOR_EVENT"
    and "covered (ar_fields (chain_records env files ! i)) ''root'' = covered (ar_fields (chain_records env files' ! j)) ''root''"
  shows "collision (ae_sha env)
      (map (record_input env) (chain_records env files) @ hashed_inputs (ae_sha env) (take i (map ar_hash (chain_records env files))))
      (map (record_input env) (chain_records env files') @ hashed_inputs (ae_sha env) (take j (map ar_hash (chain_records env files'))))
    \<or> list_all2 same_record (take i (chain_records env files)) (take j (chain_records env files'))"
proof -
  let ?rs = "chain_records env files" and ?rs' = "chain_records env files'"
  let ?hs = "take i (map ar_hash ?rs)" and ?hs' = "take j (map ar_hash ?rs')"
  note v = verified_chain [OF assms(2,3,5)] and v' = verified_chain [OF assms(2,4,6)]
  have n: "n = length ?rs" "m = length ?rs'" using verified_records(1) assms(5,6) by blast+
  have roots: "mth (ae_sha env) ?hs = mth (ae_sha env) ?hs'" using v(2) v'(2) assms(8,9,11,12,13) n by simp
  have l: "linked env 1 GENESIS_HASH (take i ?rs)" "linked env 1 GENESIS_HASH (take j ?rs')" using v(1) v'(1) linked_take by blast+
  have hs: "?hs = map ar_hash (take i ?rs)" "?hs' = map ar_hash (take j ?rs')" by (simp_all add: take_map)
  show ?thesis
  proof (cases "?hs = ?hs'")
    case False
    have "?hs \<noteq> []" "?hs' \<noteq> []" using assms(7,8,10,11) n by auto
    from mth_collision [OF assms(2) this _ _ False roots] linked_hex [OF l(1)] linked_hex [OF l(2)] hs
    have "collision (ae_sha env) (hashed_inputs (ae_sha env) ?hs) (hashed_inputs (ae_sha env) ?hs')" by simp
    then have "collision (ae_sha env) (map (record_input env) ?rs @ hashed_inputs (ae_sha env) ?hs)
      (map (record_input env) ?rs' @ hashed_inputs (ae_sha env) ?hs')" by (rule collision_mono) auto
    then show ?thesis ..
  next
    case True
    have "end_hash GENESIS_HASH (take i ?rs) = end_hash GENESIS_HASH (take j ?rs')" using True hs by (simp only: end_hash_def)
    moreover have "number_format (ae_num env) (record_numbers (take i ?rs) \<union> record_numbers (take j ?rs'))"
      by (rule number_format_mono [OF assms(1)]) (auto simp: record_numbers_def dest: in_set_takeD)
    moreover have len: "length (take i ?rs) = length (take j ?rs')" using arg_cong [OF True, of length] by simp
    ultimately have "collision (ae_sha env) (map (record_input env) (take i ?rs)) (map (record_input env) (take j ?rs'))
      \<or> list_all2 same_record (take i ?rs) (take j ?rs')" using linked_agree [OF _ l] list_all2_rev_take [OF _ len] by blast
    then show ?thesis
    proof
      assume "collision (ae_sha env) (map (record_input env) (take i ?rs)) (map (record_input env) (take j ?rs'))"
      then have "collision (ae_sha env) (map (record_input env) ?rs @ hashed_inputs (ae_sha env) ?hs)
        (map (record_input env) ?rs' @ hashed_inputs (ae_sha env) ?hs')"
        by (rule collision_mono) (auto dest: in_set_takeD)
      then show ?thesis ..
    qed blast
  qed
qed

subsection \<open>Lines as the writer makes them\<close>

definition record_js :: "nat \<Rightarrow> string \<Rightarrow> string \<Rightarrow> string \<Rightarrow> string \<Rightarrow> fields \<Rightarrow> js" where
  "record_js seq ts event prev hash fs = JObj [(''seq'', JNum (Fin (of_nat seq))), (''ts'', JStr ts), (''event'', JStr event),
     (''prev'', JStr prev), (''hash'', JStr hash), (''fields'', JObj fs)]"

definition clean_fields :: "fields \<Rightarrow> bool" where
  "clean_fields fs \<longleftrightarrow> flat fs \<and> distinct (map fst fs) \<and> ''__proto__'' \<notin> set (map fst fs)"

lemma fields_update_new: "k \<notin> set (map fst m) \<Longrightarrow> AList.update k v m = m @ [(k, v)]"
  by (induction m) auto

lemma flatten_clean: "clean_fields fs \<Longrightarrow> flatten_fields fs = Inr fs"
proof -
  have "foldl set_member out fs = out @ fs" if "distinct (map fst (out @ fs))" "''__proto__'' \<notin> set (map fst fs)" for out
    using that
  proof (induction fs arbitrary: out)
    case (Cons e fs)
    have "set_member out e = out @ [e]" using Cons.prems by (auto simp: set_member_def fields_update_new)
    with Cons.IH [of "out @ [e]"] Cons.prems show ?case by auto
  qed simp
  note all = this [of "[]"]
  show "clean_fields fs \<Longrightarrow> flatten_fields fs = Inr fs"
  proof -
    assume c: "clean_fields fs"
    then have "find (\<lambda>e. \<not> primitive (snd e)) fs = None"
      by (auto simp: clean_fields_def flat_def list_all_iff find_None_iff)
    with c all show "flatten_fields fs = Inr fs" by (simp add: flatten_fields_def clean_fields_def)
  qed
qed

lemma record_js_keys: "sort (map fst [(''seq'', a), (''ts'', b), (''event'', c), (''prev'', d), (''hash'', e), (''fields'', f)]) = RECORD_KEYS"
  by (simp add: RECORD_KEYS_def less_char_def less_eq_char_def)

lemma checkLine_flattened:
  assumes "ae_parse env (stringify (ae_num env) (record_js seq ts event prev hash fs)) = Some (record_js seq ts event prev hash fs)"
    and "flatten_fields fs = Inr flt" "event \<noteq> []" "HEX_64 prev" "HEX_64 hash" "hash = hashRecord env seq ts event prev flt"
  shows "checkLine env (stringify (ae_num env) (record_js seq ts event prev hash fs)) seq prev
    = Inr \<lparr>ck_hash = hash, ck_ts = ts, ck_event = event, ck_fields = flt\<rparr>"
proof -
  let ?es = "[(''seq'', JNum (Fin (of_nat seq))), (''ts'', JStr ts), (''event'', JStr event),
     (''prev'', JStr prev), (''hash'', JStr hash), (''fields'', JObj fs)]"
  have get: "obj_get ?es ''seq'' = JNum (Fin (of_nat seq))" "obj_get ?es ''ts'' = JStr ts" "obj_get ?es ''event'' = JStr event"
    "obj_get ?es ''prev'' = JStr prev" "obj_get ?es ''hash'' = JStr hash" "obj_get ?es ''fields'' = JObj fs"
    by (simp_all add: obj_get_def)
  have int: "integer_of (JNum (Fin (of_nat seq))) = Some (int seq)" by (simp add: integer_of_def)
  have parse: "ae_parse env (stringify (ae_num env) (JObj ?es)) = Some (JObj ?es)" using assms(1) by (simp only: record_js_def)
  show ?thesis
    unfolding record_js_def checkLine_def parse option.case js.case record_js_keys get int digest_of_def assms(2)
    using assms(3-6) by simp
qed

lemma checkLine_written:
  assumes "ae_parse env (stringify (ae_num env) (record_js seq ts event prev hash fs)) = Some (record_js seq ts event prev hash fs)"
    and "clean_fields fs" "event \<noteq> []" "HEX_64 prev" "HEX_64 hash" "hash = hashRecord env seq ts event prev fs"
  shows "checkLine env (stringify (ae_num env) (record_js seq ts event prev hash fs)) seq prev
    = Inr \<lparr>ck_hash = hash, ck_ts = ts, ck_event = event, ck_fields = fs\<rparr>"
  by (rule checkLine_flattened [OF assms(1) flatten_clean [OF assms(2)] assms(3-6)])

text \<open>A member \<^verbatim>\<open>__proto__\<close> put into the fields of a written line goes unseen: the line is accepted, at the
  same place and with the same hash, as if it were not there.\<close>

lemma proto_member_unseen:
  assumes "ae_parse env (stringify (ae_num env) (record_js seq ts event prev hash (fs @ [(''__proto__'', JStr x)])))
      = Some (record_js seq ts event prev hash (fs @ [(''__proto__'', JStr x)]))"
    and "clean_fields fs" "event \<noteq> []" "HEX_64 prev" "HEX_64 hash" "hash = hashRecord env seq ts event prev fs"
  shows "checkLine env (stringify (ae_num env) (record_js seq ts event prev hash (fs @ [(''__proto__'', JStr x)]))) seq prev
    = Inr \<lparr>ck_hash = hash, ck_ts = ts, ck_event = event, ck_fields = fs\<rparr>"
proof -
  have "find (\<lambda>e. \<not> primitive (snd e)) (fs @ [(''__proto__'', JStr x)]) = None" and f: "foldl set_member [] fs = fs"
    using assms(2) flatten_clean [OF assms(2)]
    by (auto simp: clean_fields_def flat_def list_all_iff find_None_iff primitive_def flatten_fields_def split: option.splits)
  then have flat: "flatten_fields (fs @ [(''__proto__'', JStr x)]) = Inr fs"
    by (simp add: flatten_fields_def set_member_def)
  from checkLine_flattened [OF assms(1) flat assms(3-6)] show ?thesis .
qed

text \<open>No line holds a line break, and UTF-8 is read back.\<close>

lemma code_of_less: "code_of c < 256"
  by (simp add: code_of_def)

lemma json_string_no_newline: "CHR 0x0A \<notin> set (json_string s)"
proof -
  have hex: "hex_digit n \<noteq> CHR 0x0A" if "n < 16" for n
  proof -
    have "code_of (hex_digit n) \<noteq> code_of (CHR 0x0A)" using that by (simp add: hex_digit_def code_of_def)
    then show ?thesis by (rule contrapos_nn) simp
  qed
  have "CHR 0x0A \<notin> set (json_char c)" for c
  proof (cases "code_of c < 32 \<or> code_of c = 34 \<or> code_of c = 92")
    case True
    have "code_of c div 16 < 16" "code_of c mod 16 < 16" using code_of_less [of c] by auto
    with hex [of "code_of c div 16"] hex [of "code_of c mod 16"] True show ?thesis by (auto simp: json_char_def Let_def)
  next
    case False
    then have "c \<noteq> CHR 0x0A" by (auto simp: code_of_def)
    with False show ?thesis by (auto simp: json_char_def Let_def code_chars)
  qed
  then show ?thesis by (auto simp: json_string_def)
qed

lemma number_no_newline: "number_text t \<Longrightarrow> CHR 0x0A \<notin> set t"
  by (auto simp: number_text_def list_all_iff number_char_def is_digit_def dest!: bspec)

lemma set_js_join: "set (js_join sep xs) \<subseteq> set sep \<union> \<Union> (set ` set xs)"
  by (induction xs) auto

lemma stringify_no_newline:
  assumes "number_format nt N" "primitive v" "\<And>n. v = JNum n \<Longrightarrow> n \<in> N"
  shows "CHR 0x0A \<notin> set (stringify nt v)"
proof (cases v)
  case (JNum n)
  with assms have "number_text (json_number nt n)" by (simp add: number_format_def primitive_def)
  with JNum number_no_newline show ?thesis by simp
qed (use assms(2) json_string_no_newline in \<open>auto simp: primitive_def\<close>)

lemma object_no_newline:
  assumes "\<And>e. e \<in> set es \<Longrightarrow> CHR 0x0A \<notin> set (stringify nt (snd e))"
  shows "CHR 0x0A \<notin> set (stringify nt (JObj es))"
  using assms json_string_no_newline
  by (auto dest!: set_mp [OF set_js_join])

lemma record_no_newline:
  assumes "number_format nt N" "flat fs" "numbers_of fs \<subseteq> N" "Fin (of_nat seq) \<in> N"
  shows "CHR 0x0A \<notin> set (stringify nt (record_js seq ts event prev hash fs))"
proof -
  have fs: "CHR 0x0A \<notin> set (stringify nt (JObj fs))"
  proof (rule object_no_newline)
    fix e
    assume e: "e \<in> set fs"
    show "CHR 0x0A \<notin> set (stringify nt (snd e))"
      by (rule stringify_no_newline [OF assms(1)]) (use assms(2,3) e in \<open>force simp: flat_def list_all_iff numbers_of_def\<close>)+
  qed
  have seq: "CHR 0x0A \<notin> set (stringify nt (JNum (Fin (of_nat seq))))"
    by (rule stringify_no_newline [OF assms(1)]) (use assms(4) in \<open>auto simp: primitive_def is_finite_def\<close>)
  show ?thesis unfolding record_js_def
    by (rule object_no_newline) (use fs seq json_string_no_newline in \<open>auto simp del: stringify.simps(5,8)\<close>)
qed

definition line_bytes :: "string \<Rightarrow> nat list" where
  "line_bytes l = utf8 l @ [0x0A]"

definition written_file :: "string list \<Rightarrow> file_view" where
  "written_file ls = Reads [concat (map line_bytes ls)] False"

lemma utf8_simps: "utf8 [] = []" "utf8 (c # s) = (if code_of c < 128 then [code_of c] else [192 + code_of c div 64, 128 + code_of c mod 64]) @ utf8 s"
  by (simp_all add: utf8_def Let_def)

lemma utf8_newline: "CHR 0x0A \<notin> set l \<Longrightarrow> 0x0A \<notin> set (utf8 l)"
proof (induction l)
  case (Cons c l)
  then have "code_of c \<noteq> 10" using code_chars(5) [of c] by auto
  with Cons show ?case by (auto simp: utf8_simps)
qed (simp add: utf8_simps)

lemma split_lines_line: "0x0A \<notin> set bs \<Longrightarrow> split_lines acc (bs @ 0x0A # rest) = ((acc @ bs) # fst (split_lines [] rest), snd (split_lines [] rest))"
  by (induction bs arbitrary: acc) auto

lemma split_written: "\<forall>l \<in> set ls. CHR 0x0A \<notin> set l \<Longrightarrow> split_lines [] (concat (map line_bytes ls)) = (map utf8 ls, [])"
proof (induction ls)
  case (Cons l ls)
  then have "split_lines [] (utf8 l @ 0x0A # concat (map line_bytes ls)) = (utf8 l # map utf8 ls, [])"
    using split_lines_line [OF utf8_newline, of l "[]" "concat (map line_bytes ls)"] by simp
  then show ?case unfolding list.map concat.simps line_bytes_def [of l] by simp
qed simp

lemma view_bytes_one: "view_bytes (Reads [bs] f) = bs" "view_bytes (Reads [] f) = []"
  by (simp_all add: view_bytes_def)

lemma written_view:
  assumes "\<forall>l \<in> set ls. CHR 0x0A \<notin> set l" "\<forall>l \<in> set ls. decode (utf8 l) = l" "\<forall>l \<in> set ls. length (utf8 l) \<le> MAX_LINE_BYTES"
  shows "view_lines decode (written_file ls) = ls" "readable (written_file ls)"
  using split_written [OF assms(1)] assms(2,3)
  by (simp_all add: written_file_def view_lines_def readable_def view_bytes_one view_whole_def comp_def list_all_iff map_idI)

fun utf8_decode :: "nat list \<Rightarrow> string" where
  "utf8_decode [] = []"
| "utf8_decode (b # bs) = (if b < 128 then char_of b # utf8_decode bs
     else (case bs of [] \<Rightarrow> [] | c # cs \<Rightarrow> char_of ((b - 192) * 64 + (c - 128)) # utf8_decode cs))"

lemma utf8_roundtrip: "utf8_decode (utf8 s) = s"
proof (induction s)
  case (Cons c s)
  have "code_of c div 64 * 64 + code_of c mod 64 = code_of c" by simp
  with Cons char_of_code [of c] show ?case by (simp add: utf8_simps)
qed (simp add: utf8_simps)

subsection \<open>Samples for the witnesses\<close>

definition plain_num :: "js_num \<Rightarrow> string" where
  "plain_num n = ''0.5''"

definition sample_env :: "js list \<Rightarrow> audit_env" where
  "sample_env known = \<lparr>ae_parse = map_of (map (\<lambda>v. (stringify plain_num v, v)) known), ae_decode = utf8_decode,
     ae_num = plain_num, ae_sha = sample_sha\<rparr>"

definition sample_record :: "nat \<Rightarrow> string \<Rightarrow> string \<Rightarrow> string \<Rightarrow> fields \<Rightarrow> js" where
  "sample_record seq ts event prev fs = record_js seq ts event prev (hashRecord (sample_env []) seq ts event prev fs) fs"

definition user_fields :: fields where
  "user_fields = [(''user'', JStr ''a'')]"

definition first_hash :: string where
  "first_hash = hashRecord (sample_env []) 1 ''T'' ''login_ok'' GENESIS_HASH user_fields"

definition anchor_fields :: fields where
  "anchor_fields = [(''through'', JNum (Fin 1)), (''root'', JStr (mth sample_sha [first_hash]))]"

definition trail_records :: "js list" where
  "trail_records = [sample_record 1 ''T'' ''login_ok'' GENESIS_HASH user_fields, sample_record 2 ''U'' ANCHOR_EVENT first_hash anchor_fields]"

definition trail_env :: audit_env where
  "trail_env = sample_env trail_records"

definition trail_line :: "nat \<Rightarrow> string" where
  "trail_line i = stringify plain_num (trail_records ! i)"

definition sample_trail :: "(string \<times> file_view) list" where
  "sample_trail = [(''audit.jsonl'', written_file [trail_line 0, trail_line 1])]"

lemma json_string_length: "length (json_string s) \<le> 6 * length s + 2"
proof -
  have "length (json_char c) \<le> 6" for c by (simp add: json_char_def Let_def)
  then have "length (concat (map json_char s)) \<le> 6 * length s"
    by (induction s) (auto intro: add_mono)
  then show ?thesis by (simp add: json_string_def)
qed

lemma utf8_length: "length (utf8 s) \<le> 2 * length s"
  by (induction s) (auto simp: utf8_simps)

lemma hex_length: "HEX_64 h \<Longrightarrow> length h = 64"
  using HEX_64_facts by fastforce

lemma sample_hash: "HEX_64 first_hash" "HEX_64 (hashRecord (sample_env k) seq ts event prev fs)" "HEX_64 GENESIS_HASH"
  using sample_sha_format empty_root_hex
  by (simp_all add: first_hash_def hashRecord_def sample_env_def sha_format_def GENESIS_HASH_def EMPTY_ROOT_def)

lemma trail_lines: 
  "trail_line 0 = stringify plain_num (sample_record 1 ''T'' ''login_ok'' GENESIS_HASH user_fields)"
  "trail_line 1 = stringify plain_num (sample_record 2 ''U'' ANCHOR_EVENT first_hash anchor_fields)"
  by (simp_all add: trail_line_def trail_records_def)

lemma trail_short: "length (utf8 (trail_line 0)) \<le> MAX_LINE_BYTES" "length (utf8 (trail_line 1)) \<le> MAX_LINE_BYTES"
proof -
  note j = json_string_length
  have "length (trail_line 0) \<le> 2000"
    using j [of "''seq''"] j [of "''ts''"] j [of "''event''"] j [of "''prev''"] j [of "''hash''"] j [of "''fields''"] j [of "''user''"] j [of "''a''"]
      j [of "''T''"] j [of "''login_ok''"] j [of GENESIS_HASH] hex_length [OF sample_hash(3)]
      j [of "hashRecord (sample_env []) 1 ''T'' ''login_ok'' GENESIS_HASH user_fields"] hex_length [OF sample_hash(2), of "[]" 1 "''T''" "''login_ok''" GENESIS_HASH user_fields]
    by (simp add: trail_lines sample_record_def record_js_def present_def json_number_def safe_integer_def MAX_SAFE_INTEGER_def int_text_def dec.simps user_fields_def)
  then show "length (utf8 (trail_line 0)) \<le> MAX_LINE_BYTES" using utf8_length [of "trail_line 0"] by (simp add: MAX_LINE_BYTES_def)
  have "length (trail_line 1) \<le> 2000"
    using j [of "''seq''"] j [of "''ts''"] j [of "''event''"] j [of "''prev''"] j [of "''hash''"] j [of "''fields''"] j [of "''through''"] j [of "''root''"]
      j [of "''U''"] j [of ANCHOR_EVENT] j [of first_hash] hex_length [OF sample_hash(1)] j [of "mth sample_sha [first_hash]"]
      hex_length [OF mth_format [OF sample_sha_format], of "[first_hash]"]
      j [of "hashRecord (sample_env []) 2 ''U'' ANCHOR_EVENT first_hash anchor_fields"] hex_length [OF sample_hash(2), of "[]" 2 "''U''" ANCHOR_EVENT first_hash anchor_fields]
    by (simp add: trail_lines(2) [simplified] sample_record_def record_js_def present_def json_number_def safe_integer_def MAX_SAFE_INTEGER_def int_text_def dec.simps anchor_fields_def ANCHOR_EVENT_def)
  then show "length (utf8 (trail_line 1)) \<le> MAX_LINE_BYTES" using utf8_length [of "trail_line 1"] by (simp add: MAX_LINE_BYTES_def)
qed

definition second_hash :: string where
  "second_hash = hashRecord (sample_env []) 2 ''U'' ANCHOR_EVENT first_hash anchor_fields"

text \<open>The same trail with its first record sealed.\<close>

definition sealed_trail :: "(string \<times> file_view) list" where
  "sealed_trail = [(''audit-1-1.jsonl'', written_file [trail_line 0]),
     (''audit.jsonl'', written_file [trail_line 1])]"

lemma sample_env_simps [simp]: "ae_num (sample_env k) = plain_num" "ae_sha (sample_env k) = sample_sha"
  "ae_decode (sample_env k) = utf8_decode"
  by (simp_all add: sample_env_def)

lemma trail_env_simps [simp]: "ae_num trail_env = plain_num" "ae_sha trail_env = sample_sha" "ae_decode trail_env = utf8_decode"
  "hashRecord trail_env = hashRecord (sample_env [])"
  by (simp_all add: trail_env_def sample_env_def hashRecord_def hash_input_def fun_eq_iff)

lemma trail_fields: "clean_fields user_fields" "clean_fields anchor_fields" "numbers_of user_fields = {}" "numbers_of anchor_fields = {Fin 1}"
  by (auto simp: clean_fields_def flat_def user_fields_def anchor_fields_def primitive_def is_finite_def numbers_of_def)

lemma trail_differ: "trail_line 0 \<noteq> trail_line 1"
  by (simp add: trail_lines [simplified] sample_record_def record_js_def present_def json_number_def safe_integer_def
    MAX_SAFE_INTEGER_def int_text_def dec.simps digit_def)

lemma trail_text:
  "trail_line 0 = stringify plain_num (record_js 1 ''T'' ''login_ok'' GENESIS_HASH first_hash user_fields)"
  "trail_line 1 = stringify plain_num (record_js 2 ''U'' ANCHOR_EVENT first_hash second_hash anchor_fields)"
  unfolding trail_lines sample_record_def first_hash_def [symmetric] second_hash_def [symmetric] by (rule refl)+

lemma trail_parse:
  "ae_parse trail_env (trail_line 0) = Some (record_js 1 ''T'' ''login_ok'' GENESIS_HASH first_hash user_fields)"
  "ae_parse trail_env (trail_line 1) = Some (record_js 2 ''U'' ANCHOR_EVENT first_hash second_hash anchor_fields)"
proof -
  have parse: "ae_parse trail_env = map_of [(trail_line 0, trail_records ! 0), (trail_line 1, trail_records ! 1)]"
    by (simp add: trail_env_def sample_env_def trail_line_def trail_records_def)
  have "ae_parse trail_env (trail_line 0) = Some (trail_records ! 0)" "ae_parse trail_env (trail_line 1) = Some (trail_records ! 1)"
    unfolding parse using trail_differ by simp_all
  then show "ae_parse trail_env (trail_line 0) = Some (record_js 1 ''T'' ''login_ok'' GENESIS_HASH first_hash user_fields)"
    "ae_parse trail_env (trail_line 1) = Some (record_js 2 ''U'' ANCHOR_EVENT first_hash second_hash anchor_fields)"
    unfolding trail_records_def sample_record_def first_hash_def [symmetric] second_hash_def [symmetric] by simp_all
qed

lemma trail_check:
  "checkLine trail_env (trail_line 0) 1 GENESIS_HASH = Inr \<lparr>ck_hash = first_hash, ck_ts = ''T'', ck_event = ''login_ok'', ck_fields = user_fields\<rparr>"
  "checkLine trail_env (trail_line 1) 2 first_hash = Inr \<lparr>ck_hash = second_hash, ck_ts = ''U'', ck_event = ANCHOR_EVENT, ck_fields = anchor_fields\<rparr>"
proof -
  note w = checkLine_written [where env = trail_env, unfolded trail_env_simps]
  have "ANCHOR_EVENT \<noteq> []" "''login_ok'' \<noteq> []" by (simp_all add: ANCHOR_EVENT_def)
  note t = this sample_hash(2) [where k = "[]"] sample_hash
  show "checkLine trail_env (trail_line 0) 1 GENESIS_HASH = Inr \<lparr>ck_hash = first_hash, ck_ts = ''T'', ck_event = ''login_ok'', ck_fields = user_fields\<rparr>"
    unfolding trail_text
    by (rule w [OF trail_parse(1) [unfolded trail_text] trail_fields(1) t(2) sample_hash(3,1) first_hash_def])
  show "checkLine trail_env (trail_line 1) 2 first_hash = Inr \<lparr>ck_hash = second_hash, ck_ts = ''U'', ck_event = ANCHOR_EVENT, ck_fields = anchor_fields\<rparr>"
    unfolding trail_text
    by (rule w [OF trail_parse(2) [unfolded trail_text] trail_fields(2) t(1) sample_hash(1) _ second_hash_def])
      (simp only: second_hash_def sample_hash(2))
qed

lemma trail_format: "N \<subseteq> {Fin 1, Fin 2} \<Longrightarrow> number_format nt N"
  by (rule number_format_ints) (auto simp: safe_integer_def MAX_SAFE_INTEGER_def)

lemma trail_no_newline: "CHR 0x0A \<notin> set (trail_line 0)" "CHR 0x0A \<notin> set (trail_line 1)"
proof -
  have nf: "number_format plain_num {Fin 1, Fin 2}" by (rule trail_format) simp
  show "CHR 0x0A \<notin> set (trail_line 0)" unfolding trail_text
    by (rule record_no_newline [OF nf]) (use trail_fields in \<open>simp_all add: clean_fields_def\<close>)
  show "CHR 0x0A \<notin> set (trail_line 1)" unfolding trail_text
    by (rule record_no_newline [OF nf]) (use trail_fields in \<open>simp_all add: clean_fields_def\<close>)
qed

lemma trail_views:
  "view_lines utf8_decode (written_file [trail_line 0, trail_line 1]) = [trail_line 0, trail_line 1]"
  "readable (written_file [trail_line 0, trail_line 1])"
  "view_lines utf8_decode (written_file [trail_line 0]) = [trail_line 0]" "readable (written_file [trail_line 0])"
  "view_lines utf8_decode (written_file [trail_line 1]) = [trail_line 1]" "readable (written_file [trail_line 1])"
proof -
  have w: "view_lines utf8_decode (written_file ls) = ls \<and> readable (written_file ls)" if "set ls \<subseteq> {trail_line 0, trail_line 1}" for ls
    using written_view [of ls utf8_decode] that trail_no_newline trail_short utf8_roundtrip by blast
  show "view_lines utf8_decode (written_file [trail_line 0, trail_line 1]) = [trail_line 0, trail_line 1]"
    "readable (written_file [trail_line 0, trail_line 1])"
    "view_lines utf8_decode (written_file [trail_line 0]) = [trail_line 0]" "readable (written_file [trail_line 0])"
    "view_lines utf8_decode (written_file [trail_line 1]) = [trail_line 1]" "readable (written_file [trail_line 1])"
    using w [of "[trail_line 0, trail_line 1]"] w [of "[trail_line 0]"] w [of "[trail_line 1]"] by simp_all
qed

lemma trail_chain:
  "chain_lines trail_env sample_trail = [trail_line 0, trail_line 1]" "chain_lines trail_env sealed_trail = [trail_line 0, trail_line 1]"
  "list_all (readable \<circ> snd) sample_trail" "list_all (readable \<circ> snd) sealed_trail"
  unfolding sample_trail_def sealed_trail_def chain_lines_def using trail_views by (simp_all del: One_nat_def)

lemma trail_chain_hashes: "chain_hashes trail_env [] [trail_line 0, trail_line 1] = Some [first_hash, second_hash]"
proof -
  have "anchor_holds trail_env [first_hash] \<lparr>ck_hash = second_hash, ck_ts = ''U'', ck_event = ANCHOR_EVENT, ck_fields = anchor_fields\<rparr>"
    by (simp add: anchor_holds_def anchor_fields_def obj_get_def)
  then show ?thesis using trail_check by (simp add: head_hash_def anchor_holds_def ANCHOR_EVENT_def numeral_2_eq_2 del: One_nat_def)
qed

lemma trail_start: "starts_at_one trail_env [trail_line 0, trail_line 1]"
  using trail_parse(1) by (simp add: starts_at_one_def peekHead_def record_js_def obj_get_def integer_of_def)

lemma trail_verified:
  "verifyAuditFile trail_env ''audit.jsonl'' sample_trail = Verified 2 second_hash"
  "verifyAuditFile trail_env ''audit.jsonl'' sealed_trail = Verified 2 second_hash"
proof -
  have sha: "sha_format (ae_sha trail_env)" by (simp add: sample_sha_format)
  show "verifyAuditFile trail_env ''audit.jsonl'' sample_trail = Verified 2 second_hash"
    unfolding verifyAuditFile_def
    by (subst scanChain_exact [OF sha]) (simp_all add: trail_chain trail_start trail_chain_hashes head_hash_def del: One_nat_def chain_hashes.simps)
  show "verifyAuditFile trail_env ''audit.jsonl'' sealed_trail = Verified 2 second_hash"
    unfolding verifyAuditFile_def
    by (subst scanChain_exact [OF sha]) (simp_all add: trail_chain trail_start trail_chain_hashes head_hash_def del: One_nat_def chain_hashes.simps)
qed

lemma trail_record_facts:
  "chain_records trail_env sample_trail = chain_records trail_env sealed_trail"
  "length (chain_records trail_env sample_trail) = 2"
  "chain_records trail_env sample_trail ! 1 = \<lparr>ar_seq = 2, ar_ts = ''U'', ar_event = ANCHOR_EVENT, ar_prev = first_hash,
     ar_hash = second_hash, ar_fields = anchor_fields\<rparr>"
  "number_format (ae_num trail_env) (record_numbers (chain_records trail_env sample_trail) \<union> record_numbers (chain_records trail_env sealed_trail))"
proof -
  have f: "foldl set_member [] user_fields = user_fields" "foldl set_member [] anchor_fields = anchor_fields"
    using flatten_clean [OF trail_fields(1)] flatten_clean [OF trail_fields(2)] by (auto simp: flatten_fields_def split: option.splits)
  have r: "record_of trail_env (trail_line 0) = Some \<lparr>ar_seq = 1, ar_ts = ''T'', ar_event = ''login_ok'', ar_prev = GENESIS_HASH,
      ar_hash = first_hash, ar_fields = user_fields\<rparr>"
    "record_of trail_env (trail_line 1) = Some \<lparr>ar_seq = 2, ar_ts = ''U'', ar_event = ANCHOR_EVENT, ar_prev = first_hash,
     ar_hash = second_hash, ar_fields = anchor_fields\<rparr>"
    unfolding record_of_def trail_parse record_js_def using f by (simp_all add: obj_get_def integer_of_def)
  show eq: "chain_records trail_env sample_trail = chain_records trail_env sealed_trail"
    "length (chain_records trail_env sample_trail) = 2"
    by (simp_all add: chain_records_def trail_chain)
  show "chain_records trail_env sample_trail ! 1 = \<lparr>ar_seq = 2, ar_ts = ''U'', ar_event = ANCHOR_EVENT, ar_prev = first_hash,
     ar_hash = second_hash, ar_fields = anchor_fields\<rparr>"
    unfolding chain_records_def trail_chain using r(2) by (simp del: One_nat_def)
  have "record_numbers (chain_records trail_env sample_trail) \<subseteq> {Fin 1, Fin 2}"
    unfolding chain_records_def trail_chain record_numbers_def hashed_fields_def using r f trail_fields by (simp del: One_nat_def)
  then show "number_format (ae_num trail_env) (record_numbers (chain_records trail_env sample_trail) \<union> record_numbers (chain_records trail_env sealed_trail))"
    unfolding eq by (intro trail_format) simp
qed

lemma last_hash_commits_witness:
  "collision sample_sha (map (record_input trail_env) (chain_records trail_env sample_trail)) (map (record_input trail_env) (chain_records trail_env sealed_trail))
    \<or> list_all2 same_record (take (min 2 2) (rev (chain_records trail_env sample_trail))) (take (min 2 2) (rev (chain_records trail_env sealed_trail)))"
  using last_hash_commits [OF trail_record_facts(4) trail_verified] by simp

lemma anchor_commits_witness:
  "collision sample_sha
      (map (record_input trail_env) (chain_records trail_env sample_trail) @ hashed_inputs sample_sha (take 1 (map ar_hash (chain_records trail_env sample_trail))))
      (map (record_input trail_env) (chain_records trail_env sealed_trail) @ hashed_inputs sample_sha (take 1 (map ar_hash (chain_records trail_env sealed_trail))))
    \<or> list_all2 same_record (take 1 (chain_records trail_env sample_trail)) (take 1 (chain_records trail_env sealed_trail))"
proof -
  have sha: "sha_format (ae_sha trail_env)" by (simp add: sample_sha_format)
  have start: "starts_at_one trail_env (chain_lines trail_env sample_trail)" "starts_at_one trail_env (chain_lines trail_env sealed_trail)"
    using trail_start by (simp_all add: trail_chain del: One_nat_def)
  have a: "ar_event (chain_records trail_env sample_trail ! 1) = ANCHOR_EVENT" "ar_event (chain_records trail_env sealed_trail ! 1) = ANCHOR_EVENT"
    "covered (ar_fields (chain_records trail_env sample_trail ! 1)) ''root'' = covered (ar_fields (chain_records trail_env sealed_trail ! 1)) ''root''"
    using trail_record_facts(1,3) by (simp_all del: One_nat_def)
  have "(0 :: nat) < 1" "(1 :: nat) < 2" by simp_all
  from anchor_commits [OF trail_record_facts(4) sha start trail_verified this a(1) this a(2,3)] show ?thesis by simp
qed

end
