(* ===== verification/Audit_Disk.thy ===== *)
theory Audit_Disk
  imports Audit_Verify
begin

text \<open>
  What the audit log writes and where: the fields it keeps of an event (\<^verbatim>\<open>sanitizeFields\<close> of
  \<^verbatim>\<open>obs/audit.ts\<close>), the names of sealed segments (\<^verbatim>\<open>obs/audit-segments.ts\<close>), and the directory with the
  calls of \<^verbatim>\<open>AuditFs\<close>. A call takes its outcome from a list of faults: it works, it fails, or a read or write
  stops after some bytes and then fails. Looking names up (\<^verbatim>\<open>stat\<close>, \<^verbatim>\<open>exists\<close>, \<^verbatim>\<open>readdir\<close>) has a list of
  its own, since their failures are taken for absence. Names are relative to the directory; modes are not modelled.
\<close>

subsection \<open>Fields\<close>

definition MAX_STRING :: nat where "MAX_STRING = 256"
definition MAX_KEYS :: nat where "MAX_KEYS = 32"

definition SECRET_WORDS :: "string list" where
  "SECRET_WORDS = [''secret'', ''password'', ''token'', ''authorization'', ''apikey'', ''api-key'', ''api_key'', ''cookie'', ''connector'']"

definition ascii_lower :: "string \<Rightarrow> string" where
  "ascii_lower = map (\<lambda>c. if is_upper c then char_of (code_of c + 32) else c)"

text \<open>\<^verbatim>\<open>SECRET_KEY\<close>.\<close>

definition secret_key :: "string \<Rightarrow> bool" where
  "secret_key k = list_ex (\<lambda>w. has_substring w (ascii_lower k)) SECRET_WORDS"

definition is_control :: "char \<Rightarrow> bool" where
  "is_control c = (code_of c < 32 \<or> code_of c = 127)"

text \<open>The ellipsis that marks a clipped string, U+2026, is an argument: it is not among the model's characters.\<close>

definition cleanString :: "char \<Rightarrow> string \<Rightarrow> string" where
  "cleanString ellipsis value =
     (let stripped = filter (\<lambda>c. \<not> is_control c) value in
      if MAX_STRING < length stripped then take (MAX_STRING - 1) stripped @ [ellipsis] else stripped)"

text \<open>The names \<^verbatim>\<open>key in out\<close> finds on \<^verbatim>\<open>Object.prototype\<close>.\<close>

definition PROTOTYPE_NAMES :: "string list" where
  "PROTOTYPE_NAMES = [''constructor'', ''__defineGetter__'', ''__defineSetter__'', ''hasOwnProperty'', ''__lookupGetter__'',
     ''__lookupSetter__'', ''isPrototypeOf'', ''propertyIsEnumerable'', ''toString'', ''valueOf'', ''__proto__'', ''toLocaleString'']"

definition clean_value :: "char \<Rightarrow> js \<Rightarrow> js option" where
  "clean_value ellipsis raw = (case raw of
      JStr s \<Rightarrow> Some (JStr (cleanString ellipsis s))
    | JBool b \<Rightarrow> Some (JBool b)
    | JNum n \<Rightarrow> if is_finite n then Some (JNum n) else None
    | _ \<Rightarrow> None)"

text \<open>A member is its key and what reading it gives: a value, or \<open>None\<close> for a getter that throws.\<close>

fun sanitize :: "char \<Rightarrow> (string \<times> js option) list \<Rightarrow> fields \<Rightarrow> fields" where
  "sanitize ellipsis [] out = out"
| "sanitize ellipsis ((rawKey, raw) # rest) out =
     (if MAX_KEYS \<le> length out then out
      else if secret_key rawKey then sanitize ellipsis rest out
      else
        let key = cleanString ellipsis rawKey in
        if key = [] \<or> key \<in> set (map fst out) \<or> key \<in> set PROTOTYPE_NAMES then sanitize ellipsis rest out
        else (case Option.bind raw (clean_value ellipsis) of
            None \<Rightarrow> sanitize ellipsis rest out
          | Some v \<Rightarrow> sanitize ellipsis rest (out @ [(key, v)])))"

text \<open>Own properties in the order of \<^verbatim>\<open>Object.keys\<close>: array indices by value, then the others as inserted.\<close>

definition is_index :: "string \<Rightarrow> bool" where
  "is_index k \<longleftrightarrow> k \<noteq> [] \<and> list_all is_digit k \<and> dec (dec_value k) = k \<and> dec_value k < 4294967295"

definition own_order :: "fields \<Rightarrow> fields" where
  "own_order fs = sort_key (dec_value \<circ> fst) (filter (is_index \<circ> fst) fs) @ filter (Not \<circ> is_index \<circ> fst) fs"

definition sanitizeFields :: "char \<Rightarrow> (string \<times> js option) list option \<Rightarrow> fields" where
  "sanitizeFields ellipsis given = (case given of None \<Rightarrow> [] | Some ms \<Rightarrow> own_order (sanitize ellipsis ms []))"

subsection \<open>Segment names\<close>

definition sealedName :: "nat \<Rightarrow> nat \<Rightarrow> string" where
  "sealedName lo hi = ''audit-'' @ dec lo @ ''-'' @ dec hi @ ''.jsonl''"

definition numeral :: "string \<Rightarrow> bool" where
  "numeral s \<longleftrightarrow> s \<noteq> [] \<and> hd s \<noteq> CHR ''0''"

definition sealed_range :: "string \<Rightarrow> (nat \<times> nat) option" where
  "sealed_range name =
     (let r = drop 6 name; a = takeWhile is_digit r; r1 = dropWhile is_digit r;
          b = takeWhile is_digit (tl r1); r2 = dropWhile is_digit (tl r1) in
      if take 6 name = ''audit-'' \<and> numeral a \<and> r1 \<noteq> [] \<and> hd r1 = CHR ''-'' \<and> numeral b \<and> r2 = ''.jsonl''
         \<and> dec_value a \<le> 9007199254740991 \<and> dec_value b \<le> 9007199254740991 \<and> dec_value a \<le> dec_value b
         \<and> sealedName (dec_value a) (dec_value b) = name
      then Some (dec_value a, dec_value b) else None)"

subsection \<open>The directory\<close>

datatype fault = Fine | Fails | Short nat

record audit_file =
  fl_bytes :: "nat list"
  fl_mtime :: nat
  fl_ino :: nat

record fingerprint =
  fp_size :: nat
  fp_mtime :: nat
  fp_ino :: nat

record audit_disk =
  dk_files :: "(string, audit_file) jmap"
  dk_clock :: nat
  dk_ino :: nat
  dk_faults :: "fault list"
  dk_lookups :: "bool list"

definition next_fault :: "audit_disk \<Rightarrow> fault \<times> audit_disk" where
  "next_fault d = (case dk_faults d of [] \<Rightarrow> (Fine, d) | f # fs \<Rightarrow> (f, d\<lparr>dk_faults := fs\<rparr>))"

definition next_lookup :: "audit_disk \<Rightarrow> bool \<times> audit_disk" where
  "next_lookup d = (case dk_lookups d of [] \<Rightarrow> (False, d) | b # bs \<Rightarrow> (b, d\<lparr>dk_lookups := bs\<rparr>))"

definition identity :: "audit_file \<Rightarrow> fingerprint" where
  "identity f = \<lparr>fp_size = length (fl_bytes f), fp_mtime = fl_mtime f, fp_ino = fl_ino f\<rparr>"

definition fingerprintOf :: "string \<Rightarrow> audit_disk \<Rightarrow> fingerprint option \<times> audit_disk" where
  "fingerprintOf path d = (case next_lookup d of
      (True, d) \<Rightarrow> (None, d)
    | (False, d) \<Rightarrow> (map_option identity (jm_get (dk_files d) path), d))"

definition sizeOf :: "string \<Rightarrow> audit_disk \<Rightarrow> nat option \<times> audit_disk" where
  "sizeOf path d = (case fingerprintOf path d of (fp, d) \<Rightarrow> (map_option fp_size fp, d))"

definition exists_call :: "string \<Rightarrow> audit_disk \<Rightarrow> bool \<times> audit_disk" where
  "exists_call path d = (case next_lookup d of
      (True, d) \<Rightarrow> (False, d)
    | (False, d) \<Rightarrow> (jm_get (dk_files d) path \<noteq> None, d))"

definition listSegments :: "audit_disk \<Rightarrow> string list \<times> audit_disk" where
  "listSegments d = (case next_lookup d of
      (True, d) \<Rightarrow> ([], d)
    | (False, d) \<Rightarrow> (map fst (sort_key (fst \<circ> snd) (List.map_filter (\<lambda>e. map_option (\<lambda>r. (fst e, r)) (sealed_range (fst e))) (dk_files d))), d))"

definition sameIdentity :: "fingerprint option \<Rightarrow> fingerprint option \<Rightarrow> bool" where
  "sameIdentity a b = (a = b)"

text \<open>A call whose effect is not modelled (\<^verbatim>\<open>fsync\<close>, \<^verbatim>\<open>fchmod\<close>, the directory sync): whether it works.\<close>

definition plain_call :: "audit_disk \<Rightarrow> bool \<times> audit_disk" where
  "plain_call d = (case next_fault d of (f, d) \<Rightarrow> (f = Fine, d))"

definition rename_call :: "string \<Rightarrow> string \<Rightarrow> audit_disk \<Rightarrow> bool \<times> audit_disk" where
  "rename_call a b d = (case next_fault d of
      (Fine, d) \<Rightarrow> (case jm_get (dk_files d) a of
          None \<Rightarrow> (False, d)
        | Some f \<Rightarrow> (True, d\<lparr>dk_files := jm_set b f (jm_delete a (dk_files d))\<rparr>))
    | (_, d) \<Rightarrow> (False, d))"

definition unlink_call :: "string \<Rightarrow> audit_disk \<Rightarrow> bool \<times> audit_disk" where
  "unlink_call path d = (case next_fault d of
      (Fine, d) \<Rightarrow> (case jm_get (dk_files d) path of
          None \<Rightarrow> (False, d)
        | Some _ \<Rightarrow> (True, d\<lparr>dk_files := jm_delete path (dk_files d)\<rparr>))
    | (_, d) \<Rightarrow> (False, d))"

definition set_bytes :: "string \<Rightarrow> nat list \<Rightarrow> audit_disk \<Rightarrow> audit_disk" where
  "set_bytes path bs d = (case jm_get (dk_files d) path of
      None \<Rightarrow> d
    | Some f \<Rightarrow> d\<lparr>dk_files := jm_set path (f\<lparr>fl_bytes := bs, fl_mtime := dk_clock d\<rparr>) (dk_files d)\<rparr>)"

definition bytes_of :: "string \<Rightarrow> audit_disk \<Rightarrow> nat list" where
  "bytes_of path d = (case jm_get (dk_files d) path of None \<Rightarrow> [] | Some f \<Rightarrow> fl_bytes f)"

definition truncate_call :: "string \<Rightarrow> nat \<Rightarrow> audit_disk \<Rightarrow> bool \<times> audit_disk" where
  "truncate_call path n d = (case next_fault d of
      (Fine, d) \<Rightarrow> (case jm_get (dk_files d) path of
          None \<Rightarrow> (False, d)
        | Some f \<Rightarrow> (True, set_bytes path (take n (fl_bytes f) @ replicate (n - length (fl_bytes f)) 0) d))
    | (_, d) \<Rightarrow> (False, d))"

text \<open>\<^verbatim>\<open>openSync(path, "a")\<close>.\<close>

definition open_append :: "string \<Rightarrow> audit_disk \<Rightarrow> bool \<times> audit_disk" where
  "open_append path d = (case next_fault d of
      (Fine, d) \<Rightarrow> (True, (case jm_get (dk_files d) path of
          Some _ \<Rightarrow> d
        | None \<Rightarrow> d\<lparr>dk_files := jm_set path \<lparr>fl_bytes = [], fl_mtime = dk_clock d, fl_ino = dk_ino d\<rparr> (dk_files d), dk_ino := dk_ino d + 1\<rparr>))
    | (_, d) \<Rightarrow> (False, d))"

definition writeAll :: "string \<Rightarrow> nat list \<Rightarrow> audit_disk \<Rightarrow> bool \<times> audit_disk" where
  "writeAll path data d = (case next_fault d of
      (Fine, d) \<Rightarrow> (True, set_bytes path (bytes_of path d @ data) d)
    | (Short n, d) \<Rightarrow> (False, set_bytes path (bytes_of path d @ take n data) d)
    | (Fails, d) \<Rightarrow> (False, d))"

text \<open>Reading a file for a scan, open and reads together.\<close>

definition one_read :: "nat list \<Rightarrow> bool \<Rightarrow> file_view" where
  "one_read bs fails = Reads (if bs = [] then [] else [bs]) fails"

definition read_view :: "string \<Rightarrow> audit_disk \<Rightarrow> file_view \<times> audit_disk" where
  "read_view path d = (case next_fault d of
      (f, d) \<Rightarrow> ((case (f, jm_get (dk_files d) path) of
          (Fine, Some fl) \<Rightarrow> one_read (fl_bytes fl) False
        | (Short n, Some fl) \<Rightarrow> one_read (take n (fl_bytes fl)) True
        | _ \<Rightarrow> CannotOpen), d))"

fun read_views :: "string list \<Rightarrow> audit_disk \<Rightarrow> file_view list \<times> audit_disk" where
  "read_views [] d = ([], d)"
| "read_views (p # ps) d = (let (v, d) = read_view p d; (vs, d) = read_views ps d in (v # vs, d))"

end
