(* ===== verification/Audit_Log.thy ===== *)
theory Audit_Log
  imports Audit_Disk
begin

text \<open>
  The audit log, \<^verbatim>\<open>createAuditLog\<close> of \<^verbatim>\<open>obs/audit.ts\<close>, over the directory of \<open>Audit_Disk\<close>: starting, adopting
  what is on disk, moving a broken file aside, sealing, writing a record with its roll-back, anchors, and pruning. The
  hooks \<^verbatim>\<open>onError\<close>, \<^verbatim>\<open>onNotice\<close> and \<^verbatim>\<open>onAppend\<close> are the list \<open>lg_out\<close>; a call made from inside
  \<^verbatim>\<open>onAppend\<close> is not modelled. Time stamps come from a list. \<open>lg_tried\<close> lists the records for which a write was
  attempted; the code keeps no such list.
\<close>

datatype notice = MovedTo string | ChangedOutside | Pruned nat nat

datatype audit_out = Appended audit_record | Reported string | Noticed notice

record audit_log =
  lg_path :: string
  lg_anchorEvery :: nat
  lg_segmentBytes :: nat
  lg_closed :: bool
  lg_seq :: nat
  lg_prev :: string
  lg_frontier :: frontier
  lg_sinceAnchor :: nat
  lg_activeFirst :: nat
  lg_fingerprint :: "fingerprint option"
  lg_expected :: "fingerprint option option"
  lg_disk :: audit_disk
  lg_stamps :: "string list"
  lg_out :: "audit_out list"
  lg_tried :: "audit_record list"

definition report :: "string \<Rightarrow> audit_log \<Rightarrow> audit_log" where
  "report m L = L\<lparr>lg_out := lg_out L @ [Reported m]\<rparr>"

definition notify :: "notice \<Rightarrow> audit_log \<Rightarrow> audit_log" where
  "notify n L = L\<lparr>lg_out := lg_out L @ [Noticed n]\<rparr>"

definition notifyAppended :: "audit_record \<Rightarrow> audit_log \<Rightarrow> audit_log" where
  "notifyAppended r L = L\<lparr>lg_out := lg_out L @ [Appended r]\<rparr>"

definition with_disk :: "(audit_disk \<Rightarrow> 'a \<times> audit_disk) \<Rightarrow> audit_log \<Rightarrow> 'a \<times> audit_log" where
  "with_disk f L = (case f (lg_disk L) of (a, d) \<Rightarrow> (a, L\<lparr>lg_disk := d\<rparr>))"

definition stamp :: "audit_log \<Rightarrow> string \<times> audit_log" where
  "stamp L = (case lg_stamps L of [] \<Rightarrow> (''1970-01-01T00:00:00.000Z'', L) | t # ts \<Rightarrow> (t, L\<lparr>lg_stamps := ts\<rparr>))"

subsection \<open>Scanning the directory\<close>

text \<open>A scan that looks for a boundary reads the files once more; both readings of a file have the same outcome here.\<close>

definition scanDisk :: "audit_env \<Rightarrow> string \<Rightarrow> bool \<Rightarrow> fields list \<Rightarrow> audit_disk \<Rightarrow> chain_scan \<times> audit_disk" where
  "scanDisk env path sealedOnly carried d =
     (let (segments, d) = listSegments d;
          (there, d) = (if sealedOnly then (False, d) else exists_call path d);
          names = segments @ (if there then [path] else []);
          (views, d) = read_views names d
      in (scanChain env path (zip names views) carried, d))"

record resume_point =
  rp_lastSeq :: nat
  rp_lastHash :: string
  rp_frontier :: frontier
  rp_sinceAnchor :: nat
  rp_activeFirst :: nat

definition resume_of :: "chain_scan \<Rightarrow> resume_point" where
  "resume_of s = \<lparr>rp_lastSeq = cs_lastSeq s, rp_lastHash = cs_lastHash s, rp_frontier = cs_frontier s,
     rp_sinceAnchor = cs_sinceAnchor s, rp_activeFirst = cs_activeFirst s\<rparr>"

definition adopt :: "resume_point \<Rightarrow> audit_log \<Rightarrow> audit_log" where
  "adopt r L = L\<lparr>lg_seq := rp_lastSeq r, lg_prev := rp_lastHash r, lg_frontier := rp_frontier r,
     lg_sinceAnchor := rp_sinceAnchor r, lg_activeFirst := rp_activeFirst r\<rparr>"

definition refreshFingerprint :: "audit_log \<Rightarrow> audit_log" where
  "refreshFingerprint L = (case with_disk (fingerprintOf (lg_path L)) L of
      (fp, L) \<Rightarrow> L\<lparr>lg_fingerprint := fp, lg_expected := Some fp\<rparr>)"

subsection \<open>Writing a record\<close>

definition seal :: "audit_log \<Rightarrow> bool \<times> audit_log" where
  "seal L =
     (let target = sealedName (lg_activeFirst L) (lg_seq L); (taken, L) = with_disk (exists_call target) L in
      if taken then (False, report ''cannot seal: the name is taken'' L)
      else (case with_disk (rename_call (lg_path L) target) L of
          (False, L) \<Rightarrow> (False, report ''cannot seal'' L)
        | (True, L) \<Rightarrow>
            let (opened, L) = with_disk plain_call L;
                (changed, L) = (if opened then with_disk plain_call L else (False, L));
                L = (if changed then L else report ''sealed but not read-only'' L);
                (synced, L) = with_disk plain_call L;
                L = (if synced then L else report ''sealed but the directory was not synced'' L)
            in (True, L\<lparr>lg_activeFirst := lg_seq L + 1, lg_expected := None\<rparr>)))"

text \<open>The body of the \<^verbatim>\<open>try\<close>: open, write, sync, and sync the directory of a file just created.\<close>

definition append_data :: "string \<Rightarrow> nat list \<Rightarrow> bool \<Rightarrow> audit_disk \<Rightarrow> bool \<times> audit_disk" where
  "append_data path data created d = (case open_append path d of
      (False, d) \<Rightarrow> (False, d)
    | (True, d) \<Rightarrow> (case writeAll path data d of
        (False, d) \<Rightarrow> (False, d)
      | (True, d) \<Rightarrow> (case plain_call d of
          (False, d) \<Rightarrow> (False, d)
        | (True, d) \<Rightarrow> if created then plain_call d else (True, d))))"

definition record_line :: "audit_env \<Rightarrow> audit_record \<Rightarrow> string" where
  "record_line env r = stringify (ae_num env) (record_js (ar_seq r) (ar_ts r) (ar_event r) (ar_prev r) (ar_hash r) (ar_fields r))"

definition next_record :: "audit_env \<Rightarrow> string \<Rightarrow> fields \<Rightarrow> string \<Rightarrow> audit_log \<Rightarrow> audit_record" where
  "next_record env event fs ts L = \<lparr>ar_seq = lg_seq L + 1, ar_ts = ts, ar_event = event, ar_prev = lg_prev L,
     ar_hash = hashRecord env (lg_seq L + 1) ts event (lg_prev L) fs, ar_fields = fs\<rparr>"

text \<open>What is left of a failed append: the file is cut back to its size before.\<close>

definition roll_back :: "string \<Rightarrow> nat \<Rightarrow> audit_log \<Rightarrow> audit_log" where
  "roll_back label before L =
     (let L = report (label @ '' dropped'') L;
          (truncated, L) = with_disk (truncate_call (lg_path L) before) L;
          L = refreshFingerprint L
      in if truncated then L else L\<lparr>lg_expected := None\<rparr>)"

definition writeRecord :: "audit_env \<Rightarrow> string \<Rightarrow> fields \<Rightarrow> string \<Rightarrow> audit_log \<Rightarrow> audit_record option \<times> audit_log" where
  "writeRecord env event fs label L =
     (let (ts, L) = stamp L; r = next_record env event fs ts L; data = line_bytes (record_line env r);
          L = L\<lparr>lg_tried := lg_tried L @ [r]\<rparr>;
          (sizeBefore, L) = with_disk (sizeOf (lg_path L)) L;
          before = (case sizeBefore of None \<Rightarrow> 0 | Some n \<Rightarrow> n);
          (sealed, L) = (if 0 < before \<and> lg_segmentBytes L < before + length data then seal L else (False, L));
          before = (if sealed then 0 else before)
      in case with_disk (append_data (lg_path L) data (sealed \<or> sizeBefore = None)) L of
          (False, L) \<Rightarrow> (None, roll_back label before L)
        | (True, L) \<Rightarrow>
            let L = L\<lparr>lg_seq := ar_seq r, lg_prev := ar_hash r\<rparr> in
            (case push_leaf (ae_sha env) (ar_hash r) (lg_frontier L) of
               Inl _ \<Rightarrow> (None, L)
             | Inr f \<Rightarrow> (Some r, refreshFingerprint (L\<lparr>lg_frontier := f\<rparr>))))"

subsection \<open>Adopting the directory\<close>

definition file_stamp :: "string \<Rightarrow> string" where
  "file_stamp = map (\<lambda>c. if c = CHR '':'' \<or> c = CHR ''.'' then CHR ''-'' else c)"

text \<open>Where the chain goes on after a broken active file, and the boundary record that has to be written again.\<close>

definition resume_after :: "chain_scan \<Rightarrow> chain_scan \<Rightarrow> audit_env \<Rightarrow> (resume_point \<times> fields option) option" where
  "resume_after check sealed env =
     (if cs_lastSeq sealed = 0 \<and> cs_retentions check \<noteq> [] then
        (case newestBoundary env (cs_retentions check) of
           None \<Rightarrow> None
         | Some (seq, hash, fs, f) \<Rightarrow> Some (\<lparr>rp_lastSeq = seq, rp_lastHash = hash, rp_frontier = f, rp_sinceAnchor = 0,
             rp_activeFirst = seq + 1\<rparr>, Some fs))
      else Some (resume_of sealed, cs_carriedUsed sealed))"

definition recoverFrom :: "audit_env \<Rightarrow> chain_scan \<Rightarrow> audit_log \<Rightarrow> string option \<times> audit_log" where
  "recoverFrom env check L = (case cs_verification check of
      Verified _ _ \<Rightarrow> (None, L)
    | Broken _ _ _ \<Rightarrow>
        if cs_brokenIn check \<noteq> lg_path L then (Some ''a sealed segment is broken'', L)
        else (case with_disk (scanDisk env (lg_path L) True (cs_retentions check)) L of
          (sealed, L) \<Rightarrow> (case cs_verification sealed of
              Broken _ _ _ \<Rightarrow> (Some ''the sealed segments do not verify'', L)
            | Verified _ _ \<Rightarrow> (case resume_after check sealed env of
                None \<Rightarrow> (Some ''no boundary to resume from'', L)
              | Some (resume, carried) \<Rightarrow>
                  let (t, L) = stamp L; quarantine = lg_path L @ ''.corrupt-'' @ file_stamp t in
                  (case with_disk (rename_call (lg_path L) quarantine) L of
                     (False, L) \<Rightarrow> (Some ''cannot be quarantined'', L)
                   | (True, L) \<Rightarrow>
                       let L = adopt resume L in
                       (case carried of
                          None \<Rightarrow> (None, notify (MovedTo quarantine) L)
                        | Some fs \<Rightarrow> (case writeRecord env RETENTION_EVENT fs ''carried boundary'' L of
                            (None, L) \<Rightarrow> (case with_disk (rename_call quarantine (lg_path L)) L of
                              (_, L) \<Rightarrow> (Some ''the boundary could not be written'', L\<lparr>lg_expected := None\<rparr>))
                          | (Some _, L) \<Rightarrow> (None, notify (MovedTo quarantine)
                              (L\<lparr>lg_sinceAnchor := lg_sinceAnchor L + 1\<rparr>)))))))))"

definition adoptDisk :: "audit_env \<Rightarrow> audit_log \<Rightarrow> bool \<times> audit_log" where
  "adoptDisk env L = (case with_disk (scanDisk env (lg_path L) False []) L of
      (check, L) \<Rightarrow> (case cs_verification check of
          Verified _ _ \<Rightarrow>
            let L = (if cs_lastSeq check \<noteq> lg_seq L \<or> cs_lastHash check \<noteq> lg_prev L then notify ChangedOutside L else L)
            in (True, refreshFingerprint (adopt (resume_of check) L))
        | Broken _ brokenAt _ \<Rightarrow>
            if brokenAt = 0 then (False, (report ''cannot verify; record dropped'' L)\<lparr>lg_expected := None\<rparr>)
            else (case recoverFrom env check L of
                (Some reason, L) \<Rightarrow> (False, (report reason L)\<lparr>lg_expected := None\<rparr>)
              | (None, L) \<Rightarrow> (True, refreshFingerprint L))))"

definition ensureDisk :: "audit_env \<Rightarrow> audit_log \<Rightarrow> bool \<times> audit_log" where
  "ensureDisk env L = (case lg_expected L of
      None \<Rightarrow> adoptDisk env L
    | Some fp \<Rightarrow> (case with_disk (fingerprintOf (lg_path L)) L of
        (now, L) \<Rightarrow> if sameIdentity now fp then (True, L) else adoptDisk env L))"

definition appendLine :: "audit_env \<Rightarrow> string \<Rightarrow> fields \<Rightarrow> string \<Rightarrow> audit_log \<Rightarrow> audit_record option \<times> audit_log" where
  "appendLine env event fs label L = (case ensureDisk env L of
      (False, L) \<Rightarrow> (None, L)
    | (True, L) \<Rightarrow> writeRecord env event fs label L)"

subsection \<open>Records and anchors\<close>

definition anchorIfDue :: "audit_env \<Rightarrow> audit_log \<Rightarrow> audit_log" where
  "anchorIfDue env L =
     (if lg_closed L \<or> lg_sinceAnchor L < lg_anchorEvery L then L
      else (case ensureDisk env L of
          (False, L) \<Rightarrow> L
        | (True, L) \<Rightarrow>
            if lg_sinceAnchor L < lg_anchorEvery L then L
            else (case frontier_root (ae_sha env) (lg_frontier L) of
                Inl _ \<Rightarrow> L
              | Inr rt \<Rightarrow> (case appendLine env ANCHOR_EVENT [(''through'', JNum (Fin (of_nat (lg_seq L)))), (''root'', JStr rt)] ''anchor'' L of
                  (None, L) \<Rightarrow> L
                | (Some r, L) \<Rightarrow> notifyAppended r (L\<lparr>lg_sinceAnchor := 0\<rparr>)))))"

definition commit :: "audit_env \<Rightarrow> audit_record \<Rightarrow> audit_log \<Rightarrow> audit_log" where
  "commit env r L = anchorIfDue env (notifyAppended r (L\<lparr>lg_sinceAnchor := lg_sinceAnchor L + 1\<rparr>))"

definition record_event :: "audit_env \<Rightarrow> char \<Rightarrow> string \<Rightarrow> (string \<times> js option) list option \<Rightarrow> audit_log \<Rightarrow> audit_log" where
  "record_event env ellipsis event fs L =
     (if lg_closed L then report ''record after close dropped'' L
      else if event = ANCHOR_EVENT \<or> event = RETENTION_EVENT then report ''written by the log only; record dropped'' L
      else (case appendLine env event (sanitizeFields ellipsis fs) ''record'' L of
          (None, L) \<Rightarrow> L
        | (Some r, L) \<Rightarrow> commit env r L))"

subsection \<open>Pruning\<close>

definition retention_fields :: "audit_env \<Rightarrow> scanned_file \<Rightarrow> fields" where
  "retention_fields env f = [(''segments'', JNum (Fin 1)), (''fromSeq'', JNum (Fin (of_nat (sf_firstSeq f)))),
     (''throughSeq'', JNum (Fin (of_nat (sf_lastSeq f)))), (''throughHash'', JStr (sf_lastHash f)),
     (''frontier'', JStr (stringify (ae_num env) (frontier_snapshot (sf_frontier f))))]"

definition retain :: "audit_env \<Rightarrow> scanned_file \<Rightarrow> audit_log \<Rightarrow> bool \<times> audit_log" where
  "retain env f L = (case appendLine env RETENTION_EVENT (retention_fields env f) ''retention record'' L of
      (None, L) \<Rightarrow> (False, L)
    | (Some r, L) \<Rightarrow> (True, commit env r L))"

text \<open>The segments whose boundary was written, and those removed.\<close>

fun retain_all :: "audit_env \<Rightarrow> scanned_file list \<Rightarrow> audit_log \<Rightarrow> scanned_file list \<times> audit_log" where
  "retain_all env [] L = ([], L)"
| "retain_all env (f # fs) L = (case retain env f L of
      (False, L) \<Rightarrow> ([], L)
    | (True, L) \<Rightarrow> (case retain_all env fs L of (written, L) \<Rightarrow> (f # written, L)))"

fun remove_all :: "scanned_file list \<Rightarrow> audit_log \<Rightarrow> scanned_file list \<times> audit_log" where
  "remove_all [] L = ([], L)"
| "remove_all (f # fs) L = (case with_disk (unlink_call (sf_path f)) L of
      (False, L) \<Rightarrow> ([], report ''prune stopped'' L)
    | (True, L) \<Rightarrow> (case with_disk plain_call L of
        (False, L) \<Rightarrow> ([f], report ''prune stopped: the directory was not synced'' L)
      | (True, L) \<Rightarrow> (case remove_all fs L of (removed, L) \<Rightarrow> (f # removed, L))))"

definition prune_log :: "audit_env \<Rightarrow> (string \<Rightarrow> int option) \<Rightarrow> int \<Rightarrow> audit_log \<Rightarrow> nat \<times> audit_log" where
  "prune_log env date_parse cutoff L =
     (if lg_closed L then (0, report ''prune after close dropped'' L)
      else (case ensureDisk env L of
          (False, L) \<Rightarrow> (0, L)
        | (True, L) \<Rightarrow> (case with_disk (scanDisk env (lg_path L) False []) L of
            (scan, L) \<Rightarrow> (case cs_verification scan of
                Broken _ _ _ \<Rightarrow> (0, report ''prune skipped: the chain does not verify'' L)
              | Verified _ _ \<Rightarrow>
                  let eligible = takeWhile (\<lambda>f. sf_path f \<noteq> lg_path L
                        \<and> (case date_parse (sf_lastTs f) of Some t \<Rightarrow> t < cutoff | None \<Rightarrow> False)) (cs_files scan);
                      (written, L) = retain_all env eligible L;
                      (removed, L) = remove_all written L
                  in if removed = [] then (0, L)
                     else (length removed, notify (Pruned (length removed) (sf_lastSeq (last removed))) L)))))"

subsection \<open>Starting and stopping\<close>

record audit_options =
  ao_path :: string
  ao_anchorEvery :: "js_num option"
  ao_segmentBytes :: "js_num option"

definition option_in :: "nat \<Rightarrow> nat \<Rightarrow> nat option \<Rightarrow> js_num option \<Rightarrow> nat option" where
  "option_in dflt lo hi v = (case v of
      None \<Rightarrow> Some dflt
    | Some n \<Rightarrow> (case integer_of (JNum n) of
        None \<Rightarrow> None
      | Some i \<Rightarrow> if int lo \<le> i \<and> (case hi of Some h \<Rightarrow> i \<le> int h | None \<Rightarrow> True) then Some (nat i) else None))"

definition new_log :: "string \<Rightarrow> nat \<Rightarrow> nat \<Rightarrow> audit_disk \<Rightarrow> string list \<Rightarrow> audit_log" where
  "new_log path anchorEvery segmentBytes d stamps = \<lparr>lg_path = path, lg_anchorEvery = anchorEvery, lg_segmentBytes = segmentBytes,
     lg_closed = False, lg_seq = 0, lg_prev = GENESIS_HASH, lg_frontier = createFrontier, lg_sinceAnchor = 0, lg_activeFirst = 1,
     lg_fingerprint = None, lg_expected = None, lg_disk = d, lg_stamps = stamps, lg_out = [], lg_tried = []\<rparr>"

text \<open>Reading the chain at the start: the reason to refuse, or the log resumed.\<close>

definition startup :: "audit_env \<Rightarrow> audit_log \<Rightarrow> string option \<times> audit_log" where
  "startup env L = (case with_disk (scanDisk env (lg_path L) False []) L of
      (scan, L) \<Rightarrow> (case cs_verification scan of
          Verified _ _ \<Rightarrow> (None, adopt (resume_of scan) L)
        | Broken _ brokenAt _ \<Rightarrow> if brokenAt = 0 then (Some ''cannot verify'', L) else recoverFrom env scan L))"

text \<open>Opening the file for append once.\<close>

definition probe :: "audit_log \<Rightarrow> string option \<times> audit_log" where
  "probe L =
     (let (size, L) = with_disk (sizeOf (lg_path L)) L in
      case with_disk (open_append (lg_path L)) L of
        (False, L) \<Rightarrow> (Some ''cannot open for append'', L)
      | (True, L) \<Rightarrow>
          let (_, L) = with_disk plain_call L;
              (synced, L) = (if size \<noteq> None then (True, L) else with_disk plain_call L)
          in if synced then (None, refreshFingerprint L) else (Some ''cannot sync the directory'', L))"

definition createAuditLog :: "audit_env \<Rightarrow> audit_options \<Rightarrow> audit_disk \<Rightarrow> string list \<Rightarrow> string + audit_log" where
  "createAuditLog env opts d stamps =
     (if js_trim (ao_path opts) = [] then Inl ''path must be a non-empty string''
      else (case option_in 1000 1 (Some 1000000) (ao_anchorEvery opts) of
          None \<Rightarrow> Inl ''anchorEvery must be an integer 1..1000000''
        | Some every \<Rightarrow> (case option_in 67108864 1048576 None (ao_segmentBytes opts) of
            None \<Rightarrow> Inl ''segmentBytes must be an integer of at least 1048576''
          | Some bytes \<Rightarrow> (case startup env (new_log (ao_path opts) every bytes d stamps) of
              (Some reason, _) \<Rightarrow> Inl reason
            | (None, L) \<Rightarrow> (case probe L of
                (Some reason, _) \<Rightarrow> Inl reason
              | (None, L) \<Rightarrow> Inr L)))))"

definition close_log :: "audit_log \<Rightarrow> audit_log" where
  "close_log L = L\<lparr>lg_closed := True\<rparr>"

definition verify_log :: "audit_env \<Rightarrow> audit_log \<Rightarrow> audit_verdict \<times> audit_log" where
  "verify_log env L = (case with_disk (scanDisk env (lg_path L) False []) L of (scan, L) \<Rightarrow> (cs_verification scan, L))"

definition log_head :: "audit_log \<Rightarrow> nat \<times> string" where
  "log_head L = (lg_seq L, lg_prev L)"

text \<open>What a client does with the log, and what happens to the disk meanwhile: \<open>Outside\<close> replaces the directory, the
  clock and the outcomes of the calls to come.\<close>

datatype audit_op =
    Record string "(string \<times> js option) list option"
  | Prune int
  | Verify
  | Close
  | Outside audit_disk

fun audit_step :: "audit_env \<Rightarrow> char \<Rightarrow> (string \<Rightarrow> int option) \<Rightarrow> audit_log \<Rightarrow> audit_op \<Rightarrow> audit_log" where
  "audit_step env ellipsis date_parse L (Record event fs) = record_event env ellipsis event fs L"
| "audit_step env ellipsis date_parse L (Prune cutoff) = snd (prune_log env date_parse cutoff L)"
| "audit_step env ellipsis date_parse L Verify = snd (verify_log env L)"
| "audit_step env ellipsis date_parse L Close = close_log L"
| "audit_step env ellipsis date_parse L (Outside d) = L\<lparr>lg_disk := d\<rparr>"

end
