(* ===== verification/Audit_Sync.thy ===== *)
theory Audit_Sync
  imports Audit_Log
begin

text \<open>
  The chain on disk while the log writes it. The streaming scan is first reduced to \<open>chain_run\<close>, a function of the
  list of all lines; then every write of the log is shown to extend a chain that \<open>chain_run\<close> accepts, or to be cut
  back, or to leave the log knowing that it has to look at the disk again.
\<close>

subsection \<open>The scan as a function of the lines\<close>

definition boundary_fields :: "audit_env \<Rightarrow> int \<Rightarrow> string \<Rightarrow> string list \<Rightarrow> fields option" where
  "boundary_fields env s h ls = foldl (\<lambda>found l. fst (boundary_line env s h found l)) None ls"

definition prefix_of :: "audit_env \<Rightarrow> string list \<Rightarrow> int \<Rightarrow> string \<Rightarrow> (frontier \<times> string) option" where
  "prefix_of env all seq prev = (case boundary_fields env (seq - 1) prev all of
      None \<Rightarrow> None
    | Some fs \<Rightarrow> (case decodeFrontier env (obj_get fs ''frontier'') of
        None \<Rightarrow> None
      | Some (f, t) \<Rightarrow> if int (fr_size f) = seq - 1 then Some (f, t) else None))"

record core =
  co_frontier :: frontier
  co_lastSeq :: nat
  co_prev :: string
  co_started :: bool
  co_bound :: "(nat \<times> string \<times> string) option"

definition core_start :: "audit_env \<Rightarrow> string list \<Rightarrow> string \<Rightarrow> core \<Rightarrow> core option" where
  "core_start env all l c =
     (if co_started c then Some c
      else (case peekHead env l of
          None \<Rightarrow> Some (c\<lparr>co_started := True\<rparr>)
        | Some (seq, prev) \<Rightarrow>
            if seq \<le> 1 then Some (c\<lparr>co_started := True\<rparr>)
            else (case prefix_of env all seq prev of
                None \<Rightarrow> None
              | Some (f, t) \<Rightarrow> Some \<lparr>co_frontier = f, co_lastSeq = nat (seq - 1), co_prev = prev, co_started = True,
                  co_bound = Some (nat (seq - 1), prev, t)\<rparr>)))"

definition core_anchor :: "audit_env \<Rightarrow> checked \<Rightarrow> core \<Rightarrow> bool" where
  "core_anchor env k c \<longleftrightarrow> ck_event k \<noteq> ANCHOR_EVENT
     \<or> obj_get (ck_fields k) ''through'' = JNum (Fin (of_nat (co_lastSeq c)))
       \<and> (case frontier_root (ae_sha env) (co_frontier c) of Inl _ \<Rightarrow> False | Inr rt \<Rightarrow> obj_get (ck_fields k) ''root'' = JStr rt)"

definition core_names :: "checked \<Rightarrow> nat \<times> string \<times> string \<Rightarrow> bool" where
  "core_names k b = names_boundary k \<lparr>by_throughSeq = fst b, by_throughHash = fst (snd b), by_frontier = snd (snd b), by_file = []\<rparr>"

definition core_take :: "audit_env \<Rightarrow> checked \<Rightarrow> core \<Rightarrow> core option" where
  "core_take env k c = (if \<not> core_anchor env k c then None
     else (case push_leaf (ae_sha env) (ck_hash k) (co_frontier c) of
         Inl _ \<Rightarrow> None
       | Inr f \<Rightarrow> Some \<lparr>co_frontier = f, co_lastSeq = co_lastSeq c + 1, co_prev = ck_hash k, co_started = True,
           co_bound = (case co_bound c of None \<Rightarrow> None | Some b \<Rightarrow> if core_names k b then None else Some b)\<rparr>))"

definition core_step :: "audit_env \<Rightarrow> string list \<Rightarrow> core \<Rightarrow> string \<Rightarrow> core option" where
  "core_step env all c l = Option.bind (core_start env all l c) (\<lambda>c.
     case checkLine env l (co_lastSeq c + 1) (co_prev c) of Inl _ \<Rightarrow> None | Inr k \<Rightarrow> core_take env k c)"

fun chain_run :: "audit_env \<Rightarrow> string list \<Rightarrow> core \<Rightarrow> string list \<Rightarrow> core option" where
  "chain_run env all c [] = Some c"
| "chain_run env all c (l # ls) = Option.bind (core_step env all c l) (\<lambda>c. chain_run env all c ls)"

definition fresh_core :: core where
  "fresh_core = \<lparr>co_frontier = createFrontier, co_lastSeq = 0, co_prev = GENESIS_HASH, co_started = False, co_bound = None\<rparr>"

lemma chain_run_append: "chain_run env all c (ls @ ls') = Option.bind (chain_run env all c ls) (\<lambda>c. chain_run env all c ls')"
  by (induction ls arbitrary: c) (simp_all split: Option.bind_split)

subsection \<open>Finding a boundary\<close>

lemma boundary_line_accepts: "snd (boundary_line env s h found l) = Accept"
  by (simp add: boundary_line_def)

lemma boundary_line_found: "found \<noteq> None \<Longrightarrow> fst (boundary_line env s h found l) = found"
  by (simp add: boundary_line_def)

lemma accepts_boundary:
  "accepts (boundary_line env s h) found ls = Some (foldl (\<lambda>found l. fst (boundary_line env s h found l)) found ls)"
proof (induction ls arbitrary: found)
  case (Cons l ls)
  obtain r where "boundary_line env s h found l = (r, Accept)" using boundary_line_accepts [of env s h found l]
    by (cases "boundary_line env s h found l") auto
  with Cons show ?case by simp
qed simp

lemma boundary_kept: "found \<noteq> None \<Longrightarrow> foldl (\<lambda>found l. fst (boundary_line env s h found l)) found ls = found"
  by (induction ls) (simp_all add: boundary_line_found)

lemma boundary_fields_append:
  "boundary_fields env s h (ls @ ls') = (case boundary_fields env s h ls of
     Some fs \<Rightarrow> Some fs | None \<Rightarrow> boundary_fields env s h ls')"
  by (simp add: boundary_fields_def boundary_kept split: option.split)

lemma prefix_of_append: "prefix_of env all seq prev = Some x \<Longrightarrow> prefix_of env (all @ extra) seq prev = Some x"
  by (auto simp: prefix_of_def boundary_fields_append split: option.splits)

lemma core_step_more: "core_step env all c l = Some c' \<Longrightarrow> core_step env (all @ extra) c l = Some c'"
proof -
  assume s: "core_step env all c l = Some c'"
  then obtain c1 where c1: "core_start env all l c = Some c1" by (auto simp: core_step_def bind_eq_Some_conv)
  then have "core_start env (all @ extra) l c = Some c1"
    by (auto simp: core_start_def dest!: prefix_of_append [of env all _ _ _ extra] split: if_splits option.splits)
  with s c1 show ?thesis by (simp add: core_step_def)
qed

lemma chain_run_more: "chain_run env all c ls = Some c' \<Longrightarrow> chain_run env (all @ extra) c ls = Some c'"
proof (induction ls arbitrary: c)
  case (Cons l ls)
  then obtain c1 where "core_step env all c l = Some c1" "chain_run env all c1 ls = Some c'" by (auto simp: bind_eq_Some_conv)
  with Cons.IH core_step_more show ?case by (simp add: core_step_more)
qed simp

lemma found_in_readable:
  assumes "list_all readable views"
  shows "foldl (\<lambda>(found, failed) f. case eachLine (ae_decode env) f (boundary_line env s h) found of
         (found', step) \<Rightarrow> (found', failed \<or> step \<noteq> StepOk)) (found, failed) views
    = (foldl (\<lambda>found l. fst (boundary_line env s h found l)) found (concat (map (view_lines (ae_decode env)) views)), failed)"
  using assms
proof (induction views arbitrary: found)
  case (Cons v views)
  then have "eachLine (ae_decode env) v (boundary_line env s h) found
    = (foldl (\<lambda>found l. fst (boundary_line env s h found l)) found (view_lines (ae_decode env) v), StepOk)"
    by (simp add: eachLine_ok accepts_boundary)
  with Cons show ?case by simp
qed simp

lemma findBoundaryRecord_readable:
  "list_all readable views \<Longrightarrow>
     findBoundaryRecord env views s h = (boundary_fields env s h (concat (map (view_lines (ae_decode env)) views)), False)"
  unfolding findBoundaryRecord_def boundary_fields_def by (rule found_in_readable)

text \<open>A prefix resolved by a record on disk is the one the lines give; one resolved by a carried record would be, were that
  record's line there.\<close>

lemma resolve_on_disk:
  assumes "list_all readable views"
  shows "resolvePrunedPrefix env seq prev views carried = Seeded f t None \<longleftrightarrow>
    prefix_of env (concat (map (view_lines (ae_decode env)) views)) seq prev = Some (f, t)"
  by (auto simp: resolvePrunedPrefix_def prefix_of_def findBoundaryRecord_readable [OF assms] Let_def
    split: option.splits prod.splits if_splits)

lemma resolve_carried:
  assumes "list_all readable views" "resolvePrunedPrefix env seq prev views carried = Seeded f t (Some fs)"
  shows "boundary_fields env (seq - 1) prev (concat (map (view_lines (ae_decode env)) views)) = None" "fs \<in> set carried"
    "obj_get fs ''throughSeq'' = JNum (Fin (of_int (seq - 1)))" "obj_get fs ''throughHash'' = JStr prev"
    "decodeFrontier env (obj_get fs ''frontier'') = Some (f, t)" "int (fr_size f) = seq - 1"
proof -
  have found: "x \<in> set xs \<and> P x" if "find P xs = Some x" for P and x :: fields and xs
    using that by (auto simp: find_Some_iff in_set_conv_nth)
  let ?all = "concat (map (view_lines (ae_decode env)) views)"
  let ?P = "\<lambda>r. obj_get r ''throughSeq'' = JNum (Fin (of_int (seq - 1))) \<and> obj_get r ''throughHash'' = JStr prev"
  note r = assms(2) [unfolded resolvePrunedPrefix_def findBoundaryRecord_readable [OF assms(1)] Let_def prod.case]
  show none: "boundary_fields env (seq - 1) prev ?all = None"
    using r by (auto split: option.splits prod.splits if_splits)
  obtain fs' where fs': "find ?P carried = Some fs'" "decodeFrontier env (obj_get fs' ''frontier'') = Some (f, t)"
    "int (fr_size f) = seq - 1" "fs = fs'"
    using r none by (auto split: option.splits prod.splits if_splits)
  with found [OF fs'(1)] show "fs \<in> set carried" "obj_get fs ''throughSeq'' = JNum (Fin (of_int (seq - 1)))"
    "obj_get fs ''throughHash'' = JStr prev" "decodeFrontier env (obj_get fs ''frontier'') = Some (f, t)" "int (fr_size f) = seq - 1"
    by simp_all
qed

subsection \<open>The streaming scan follows the run\<close>

definition bound_of :: "boundary \<Rightarrow> nat \<times> string \<times> string" where
  "bound_of b = (by_throughSeq b, by_throughHash b, by_frontier b)"

definition names_fields :: "fields \<Rightarrow> nat \<times> string \<times> string \<Rightarrow> bool" where
  "names_fields fs b \<longleftrightarrow> obj_get fs ''throughSeq'' = JNum (Fin (of_nat (fst b))) \<and> obj_get fs ''throughHash'' = JStr (fst (snd b))
     \<and> obj_get fs ''frontier'' = JStr (snd (snd b))"

text \<open>A boundary that a carried record stands for is still open in the run, unless a later record names it.\<close>

definition bounds_match :: "scanning \<Rightarrow> core \<Rightarrow> bool" where
  "bounds_match st c \<longleftrightarrow> (case sg_carriedUsed st of
      None \<Rightarrow> co_bound c = map_option bound_of (sg_boundary st)
    | Some fs \<Rightarrow> sg_boundary st = None \<and> (case co_bound c of None \<Rightarrow> True | Some b \<Rightarrow> names_fields fs b))"

definition tracks :: "scanning \<Rightarrow> core \<Rightarrow> bool" where
  "tracks st c \<longleftrightarrow> sg_halt st = None \<and> sg_frontier st = co_frontier c \<and> sg_lastSeq st = co_lastSeq c \<and> sg_prev st = co_prev c
     \<and> sg_started st = co_started c \<and> (\<not> co_started c \<longrightarrow> sg_boundary st = None \<and> sg_carriedUsed st = None) \<and> bounds_match st c"

lemma tracks_fresh: "tracks fresh_scan fresh_core"
  by (simp add: tracks_def fresh_scan_def fresh_core_def bounds_match_def)

definition resolves :: "audit_env \<Rightarrow> file_view list \<Rightarrow> fields list \<Rightarrow> string list \<Rightarrow> string \<Rightarrow> bool" where
  "resolves env views carried all l \<longleftrightarrow> (\<forall>seq prev f t cu. peekHead env l = Some (seq, prev) \<longrightarrow> 1 < seq \<longrightarrow>
     resolvePrunedPrefix env seq prev views carried = Seeded f t cu \<longrightarrow> prefix_of env all seq prev = Some (f, t))"

lemma names_boundary_core: "names_boundary k b \<longleftrightarrow> core_names k (bound_of b)"
  by (simp add: names_boundary_def core_names_def bound_of_def)

lemma core_names_fields: "core_names k b \<longleftrightarrow> ck_event k = RETENTION_EVENT \<and> names_fields (ck_fields k) b"
  by (simp add: core_names_def names_boundary_def names_fields_def)

lemma start_chain_tracks:
  assumes st: "tracks st c" and ok: "sg_halt (start_chain env views carried nm l st) = None"
    and r: "\<not> co_started c \<Longrightarrow> resolves env views carried all l" and v: "list_all readable views"
  shows "\<exists>c'. core_start env all l c = Some c' \<and> tracks (start_chain env views carried nm l st) c'
    \<and> sg_started (start_chain env views carried nm l st)"
proof (cases "co_started c")
  case True
  with st show ?thesis by (auto simp: start_chain_def core_start_def tracks_def)
next
  case False
  with st have new: "\<not> sg_started st" "sg_boundary st = None" "sg_carriedUsed st = None" by (simp_all add: tracks_def)
  show ?thesis
  proof (cases "peekHead env l")
    case None
    with st False new show ?thesis by (auto simp: start_chain_def core_start_def tracks_def bounds_match_def Let_def)
  next
    case (Some sp)
    obtain seq prev where sp: "sp = (seq, prev)" by (cases sp)
    show ?thesis
    proof (cases "seq \<le> 1")
      case True
      with Some sp st False new show ?thesis by (auto simp: start_chain_def core_start_def tracks_def bounds_match_def Let_def)
    next
      case False
      show ?thesis
      proof (cases "resolvePrunedPrefix env seq prev views carried")
        case (PrefixFailed x)
        with ok Some sp False new show ?thesis by (simp add: start_chain_def Let_def)
      next
        case (Seeded f t cu)
        have p: "prefix_of env all seq prev = Some (f, t)"
          using r [OF \<open>\<not> co_started c\<close>] Some sp Seeded False by (simp add: resolves_def)
        have "names_fields fs (nat (seq - 1), prev, t)" if cu: "cu = Some fs" for fs
        proof -
          from resolve_carried [OF v Seeded [unfolded cu]] False show ?thesis
            by (auto simp: names_fields_def decodeFrontier_def split: js.splits option.splits sum.splits)
        qed
        with p Some sp st False new Seeded \<open>\<not> co_started c\<close> show ?thesis
          by (cases cu) (auto simp: start_chain_def core_start_def tracks_def bounds_match_def bound_of_def Let_def)
      qed
    qed
  qed
qed

lemma take_record_tracks:
  assumes st: "tracks st c" "sg_started st" and a: "anchor_verdict env k st = Accept" and ok: "take_record env active k st = (st', Accept)"
  shows "\<exists>c'. core_take env k c = Some c' \<and> tracks st' c'"
proof -
  have anchor: "core_anchor env k c" using a st(1)
    by (auto simp: anchor_verdict_def core_anchor_def tracks_def split: sum.splits if_splits)
  obtain f where f: "push_leaf (ae_sha env) (ck_hash k) (co_frontier c) = Inr f"
    using ok st(1) by (auto simp: take_record_def tracks_def Let_def split: sum.splits)
  have st': "sg_halt st' = None" "sg_frontier st' = f" "sg_lastSeq st' = co_lastSeq c + 1" "sg_prev st' = ck_hash k" "sg_started st'"
    "sg_carriedUsed st' = sg_carriedUsed st"
    "sg_boundary st' = (case sg_boundary st of None \<Rightarrow> None | Some b \<Rightarrow> if names_boundary k b then None else Some b)"
    using ok f st by (auto simp: take_record_def tracks_def Let_def)
  let ?c = "\<lparr>co_frontier = f, co_lastSeq = co_lastSeq c + 1, co_prev = ck_hash k, co_started = True,
           co_bound = (case co_bound c of None \<Rightarrow> None | Some b \<Rightarrow> if core_names k b then None else Some b)\<rparr>"
  have "core_take env k c = Some ?c" using anchor f by (simp add: core_take_def)
  moreover have "bounds_match st' ?c" using st(1) st'(6,7)
    by (auto simp: bounds_match_def tracks_def names_boundary_core split: option.splits)
  then have "tracks st' ?c" using st' by (simp add: tracks_def)
  ultimately show ?thesis by blast
qed

lemma acceptLine_tracks:
  assumes st: "tracks st c" and ok: "acceptLine env views carried path nm st l = (st', Accept)"
    and r: "\<not> co_started c \<Longrightarrow> resolves env views carried all l" and v: "list_all readable views"
  shows "\<exists>c'. core_step env all c l = Some c' \<and> tracks st' c' \<and> co_started c'"
proof -
  let ?st = "start_chain env views carried nm l st"
  have h: "sg_halt ?st = None" using ok by (auto simp: acceptLine_def Let_def split: option.splits)
  from start_chain_tracks [OF st h r v] obtain c1 where c1: "core_start env all l c = Some c1" "tracks ?st c1" "sg_started ?st" by blast
  from ok h obtain k where k: "checkLine env l (sg_lastSeq ?st + 1) (sg_prev ?st) = Inr k" "anchor_verdict env k ?st = Accept"
    "take_record env (nm = path) k ?st = (st', Accept)"
    by (auto simp: acceptLine_def Let_def split: sum.splits line_verdict.splits)
  from take_record_tracks [OF c1(2,3) k(2,3)] obtain c' where c': "core_take env k c1 = Some c'" "tracks st' c'" by blast
  have "checkLine env l (co_lastSeq c1 + 1) (co_prev c1) = Inr k" using k(1) c1(2) by (simp add: tracks_def)
  with c1(1) c' have "core_step env all c l = Some c'" by (simp add: core_step_def)
  moreover have "co_started c'" using c'(1) by (auto simp: core_take_def split: if_splits sum.splits)
  ultimately show ?thesis using c'(2) by blast
qed

lemma accepts_tracks:
  "tracks st c \<Longrightarrow> accepts (acceptLine env views carried path nm) st ls = Some st' \<Longrightarrow>
     (\<And>l ls'. \<not> co_started c \<Longrightarrow> ls = l # ls' \<Longrightarrow> resolves env views carried all l) \<Longrightarrow> list_all readable views \<Longrightarrow>
     \<exists>c'. chain_run env all c ls = Some c' \<and> tracks st' c' \<and> (ls \<noteq> [] \<longrightarrow> co_started c')"
proof (induction ls arbitrary: st c)
  case Nil
  then show ?case by simp
next
  case (Cons l ls)
  from Cons.prems(2) obtain st1 where st1: "acceptLine env views carried path nm st l = (st1, Accept)"
    "accepts (acceptLine env views carried path nm) st1 ls = Some st'" by (auto split: prod.splits line_verdict.splits)
  have r: "\<not> co_started c \<Longrightarrow> resolves env views carried all l" using Cons.prems(3) by blast
  from acceptLine_tracks [OF Cons.prems(1) st1(1) r Cons.prems(4)] obtain c1
    where c1: "core_step env all c l = Some c1" "tracks st1 c1" "co_started c1" by blast
  from Cons.IH [OF c1(2) st1(2) _ Cons.prems(4)] c1(3) obtain c' where "chain_run env all c1 ls = Some c'" "tracks st' c'"
    "ls \<noteq> [] \<longrightarrow> co_started c'" by blast
  moreover have "co_started c'" if "ls = []" using that calculation(1) c1(3) by simp
  ultimately show ?case using c1(1) by auto
qed

subsection \<open>Files of a verified scan\<close>

fun through :: "audit_env \<Rightarrow> file_view list \<Rightarrow> fields list \<Rightarrow> string \<Rightarrow> (string \<times> file_view) list \<Rightarrow> scanning \<Rightarrow> scanning option" where
  "through env views carried path [] st = Some st"
| "through env views carried path ((nm, view) # fs) st = (case scanFile env views carried path nm view st of
      (st', StepOk) \<Rightarrow> through env views carried path fs st'
    | _ \<Rightarrow> None)"

lemma through_append:
  "through env views carried path (fs @ gs) st = Option.bind (through env views carried path fs st) (through env views carried path gs)"
  by (induction fs arbitrary: st) (auto split: prod.split scan_step.split)

lemma acceptLine_fields:
  assumes "acceptLine env views carried path nm st l = (st', Accept)"
  shows "sg_halt st' = None" "sg_started st'" "sg_files st' = sg_files st" "sg_first st' = (if sg_first st = 0 then sg_lastSeq st' else sg_first st)"
    "sg_started st \<Longrightarrow> sg_lastSeq st' = sg_lastSeq st + 1" "0 < sg_lastSeq st'"
    "sg_started st \<Longrightarrow> sg_carriedUsed st' = sg_carriedUsed st"
proof -
  let ?st = "start_chain env views carried nm l st"
  have s: "sg_started ?st" "sg_files ?st = sg_files st" "sg_first ?st = sg_first st"
    by (auto simp: start_chain_def Let_def split: option.splits prod.splits pruned_prefix.splits)
  have same: "sg_started st \<Longrightarrow> ?st = st" by (simp add: start_chain_def)
  have h: "sg_halt ?st = None" using assms by (auto simp: acceptLine_def Let_def split: option.splits)
  from assms h obtain k where k: "take_record env (nm = path) k ?st = (st', Accept)"
    by (auto simp: acceptLine_def Let_def split: sum.splits line_verdict.splits)
  then have t: "sg_halt st' = None" "sg_started st'" "sg_files st' = sg_files ?st" "sg_lastSeq st' = sg_lastSeq ?st + 1"
    "sg_first st' = (if sg_first ?st = 0 then sg_lastSeq st' else sg_first ?st)" "sg_carriedUsed st' = sg_carriedUsed ?st"
    using h s(1) by (auto simp: take_record_def Let_def split: sum.splits)
  show "sg_halt st' = None" "sg_started st'" "sg_files st' = sg_files st" "sg_first st' = (if sg_first st = 0 then sg_lastSeq st' else sg_first st)"
    "0 < sg_lastSeq st'" using t s by simp_all
  show "sg_started st \<Longrightarrow> sg_lastSeq st' = sg_lastSeq st + 1" "sg_started st \<Longrightarrow> sg_carriedUsed st' = sg_carriedUsed st"
    using t same by simp_all
qed

lemma accepts_fields:
  "accepts (acceptLine env views carried path nm) st ls = Some st' \<Longrightarrow> sg_files st' = sg_files st \<and> (sg_halt st = None \<longrightarrow> sg_halt st' = None)
     \<and> (sg_first st = 0 \<longrightarrow> (if ls = [] then sg_first st' = 0 else 0 < sg_first st' \<and> sg_first st' + length ls = sg_lastSeq st' + 1))
     \<and> (0 < sg_first st \<longrightarrow> sg_started st \<longrightarrow> sg_first st' = sg_first st \<and> sg_lastSeq st' = sg_lastSeq st + length ls)"
proof (induction ls arbitrary: st)
  case (Cons l ls)
  from Cons.prems obtain st1 where st1: "acceptLine env views carried path nm st l = (st1, Accept)"
    "accepts (acceptLine env views carried path nm) st1 ls = Some st'" by (auto split: prod.splits line_verdict.splits)
  note f = acceptLine_fields [OF st1(1)]
  from Cons.IH [OF st1(2)] f show ?case by auto
qed simp

lemma scanFile_fields:
  assumes "scanFile env views carried path nm view st = (st', StepOk)"
  shows "readable view" "sg_halt st = None \<longrightarrow> sg_halt st' = None"
    "\<exists>F. sg_files st' = sg_files st @ (if view_lines (ae_decode env) view = [] then [] else [F]) \<and> sf_path F = nm
      \<and> sf_firstSeq F + length (view_lines (ae_decode env) view) = sg_lastSeq st' + 1"
    "\<exists>st1. accepts (acceptLine env views carried path nm) (st\<lparr>sg_first := 0, sg_last := 0, sg_ts := [], sg_hash := GENESIS_HASH\<rparr>)
        (view_lines (ae_decode env) view) = Some st1 \<and> st' = st1\<lparr>sg_files := sg_files st'\<rparr>"
proof -
  let ?st = "st\<lparr>sg_first := 0, sg_last := 0, sg_ts := [], sg_hash := GENESIS_HASH\<rparr>"
  let ?ls = "view_lines (ae_decode env) view"
  obtain st1 step where e: "eachLine (ae_decode env) view (acceptLine env views carried path nm) ?st = (st1, step)" by fastforce
  with assms have step: "step = StepOk" by (auto simp: scanFile_def)
  from e step have ok: "readable view" "accepts (acceptLine env views carried path nm) ?st ?ls = Some st1"
    by (simp_all add: eachLine_ok)
  note a = accepts_fields [OF ok(2)]
  have st': "st' = (if 0 < sg_first st1 then st1\<lparr>sg_files := sg_files st1 @ [\<lparr>sf_path = nm, sf_firstSeq = sg_first st1, sf_lastSeq = sg_last st1,
             sf_lastTs = sg_ts st1, sf_lastHash = sg_hash st1, sf_frontier = sg_frontier st1\<rparr>]\<rparr> else st1)"
    using assms e step by (auto simp: scanFile_def)
  show "readable view" by (rule ok(1))
  show "sg_halt st = None \<longrightarrow> sg_halt st' = None" using a st' by simp
  show "\<exists>st1. accepts (acceptLine env views carried path nm) ?st ?ls = Some st1 \<and> st' = st1\<lparr>sg_files := sg_files st'\<rparr>"
    using ok(2) st' by (intro exI [of _ st1]) simp
  show "\<exists>F. sg_files st' = sg_files st @ (if ?ls = [] then [] else [F]) \<and> sf_path F = nm \<and> sf_firstSeq F + length ?ls = sg_lastSeq st' + 1"
  proof (cases "?ls = []")
    case True
    with a st' show ?thesis by (intro exI [of _ "\<lparr>sf_path = nm, sf_firstSeq = sg_lastSeq st' + 1, sf_lastSeq = 0,
             sf_lastTs = [], sf_lastHash = [], sf_frontier = createFrontier\<rparr>"]) simp
  next
    case False
    with a st' show ?thesis by (intro exI [of _ "\<lparr>sf_path = nm, sf_firstSeq = sg_first st1, sf_lastSeq = sg_last st1,
             sf_lastTs = sg_ts st1, sf_lastHash = sg_hash st1, sf_frontier = sg_frontier st1\<rparr>"]) simp
  qed
qed

lemma scan_files_through:
  "sg_halt st = None \<Longrightarrow> cs_verification (scan_files env views carried path files st) = Verified n h \<longleftrightarrow>
     (\<exists>st'. through env views carried path files st = Some st' \<and> sg_boundary st' = None \<and> n = sg_count st' \<and> h = sg_prev st')"
proof (induction files arbitrary: st)
  case Nil
  then show ?case by (auto simp: finish_def split: option.splits)
next
  case (Cons f files)
  obtain nm view where f: "f = (nm, view)" by (cases f)
  obtain st' step where s: "scanFile env views carried path nm view st = (st', step)" by fastforce
  show ?case
  proof (cases "step = StepOk")
    case True
    from scanFile_fields(2) [OF s [unfolded True]] Cons.prems have "sg_halt st' = None" by simp
    with Cons.IH [of st'] s True f show ?thesis by simp
  next
    case False
    have "halt_broken st'" using scanFile_halt [of st env views carried path nm view] s Cons.prems by (simp add: halt_broken_def)
    with False s f show ?thesis by (cases step) (auto simp: finish_def halt_broken_def split: option.splits audit_verdict.splits)
  qed
qed

lemma scan_files_finish:
  "through env views carried path files st = Some st' \<Longrightarrow> sg_halt st = None \<Longrightarrow> sg_boundary st' = None \<Longrightarrow>
     scan_files env views carried path files st = finish path st' (Verified (sg_count st') (sg_prev st')) path"
proof (induction files arbitrary: st)
  case (Cons f files)
  obtain nm view where f: "f = (nm, view)" by (cases f)
  with Cons.prems(1) obtain st1 where s: "scanFile env views carried path nm view st = (st1, StepOk)"
    "through env views carried path files st1 = Some st'" by (auto split: prod.splits scan_step.splits)
  from scanFile_fields(2) [OF s(1)] Cons.prems(2) have "sg_halt st1 = None" by simp
  with Cons.IH [OF s(2) this Cons.prems(3)] s(1) f show ?case by simp
qed simp

lemma through_readable: "through env views carried path files st = Some st' \<Longrightarrow> list_all (readable \<circ> snd) files"
proof (induction files arbitrary: st)
  case (Cons f files)
  obtain nm view where f: "f = (nm, view)" by (cases f)
  with Cons.prems obtain st1 where s: "scanFile env views carried path nm view st = (st1, StepOk)"
    "through env views carried path files st1 = Some st'" by (auto split: prod.splits scan_step.splits)
  from scanFile_fields(1) [OF s(1)] Cons.IH [OF s(2)] f show ?case by simp
qed simp

lemma through_paths:
  "through env views carried path files st = Some st' \<Longrightarrow> sf_path ` set (sg_files st') \<subseteq> sf_path ` set (sg_files st) \<union> fst ` set files"
proof (induction files arbitrary: st)
  case (Cons f files)
  obtain nm view where f: "f = (nm, view)" by (cases f)
  with Cons.prems obtain st1 where s: "scanFile env views carried path nm view st = (st1, StepOk)"
    "through env views carried path files st1 = Some st'" by (auto split: prod.splits scan_step.splits)
  from scanFile_fields(3) [OF s(1)] have "sf_path ` set (sg_files st1) \<subseteq> insert nm (sf_path ` set (sg_files st))" by (auto split: if_splits)
  with Cons.IH [OF s(2)] f show ?case by auto
qed simp

lemma tracks_files: "tracks (st\<lparr>sg_files := fs\<rparr>) c = tracks st c"
  "tracks (st\<lparr>sg_first := a, sg_last := b, sg_ts := t, sg_hash := h\<rparr>) c = tracks st c"
  by (simp_all add: tracks_def bounds_match_def split: option.split)

lemma through_tracks:
  "tracks st c \<Longrightarrow> through env views carried path files st = Some st' \<Longrightarrow>
     (\<And>l ls'. \<not> co_started c \<Longrightarrow> chain_lines env files = l # ls' \<Longrightarrow> resolves env views carried all l) \<Longrightarrow> list_all readable views \<Longrightarrow>
     \<exists>c'. chain_run env all c (chain_lines env files) = Some c' \<and> tracks st' c' \<and> (chain_lines env files \<noteq> [] \<longrightarrow> co_started c')"
proof (induction files arbitrary: st c)
  case Nil
  then show ?case by (simp add: chain_lines_def)
next
  case (Cons f files)
  obtain nm view where f: "f = (nm, view)" by (cases f)
  with Cons.prems(2) obtain st1 where s: "scanFile env views carried path nm view st = (st1, StepOk)"
    "through env views carried path files st1 = Some st'" by (auto split: prod.splits scan_step.splits)
  have lines: "chain_lines env (f # files) = view_lines (ae_decode env) view @ chain_lines env files" by (simp add: chain_lines_def f)
  from scanFile_fields(4) [OF s(1)] obtain st2 where st2:
    "accepts (acceptLine env views carried path nm) (st\<lparr>sg_first := 0, sg_last := 0, sg_ts := [], sg_hash := GENESIS_HASH\<rparr>)
        (view_lines (ae_decode env) view) = Some st2" "st1 = st2\<lparr>sg_files := sg_files st1\<rparr>" by blast
  have "\<exists>c1. chain_run env all c (view_lines (ae_decode env) view) = Some c1 \<and> tracks st2 c1 \<and> (view_lines (ae_decode env) view \<noteq> [] \<longrightarrow> co_started c1)"
    by (rule accepts_tracks [OF _ st2(1) _ Cons.prems(4)])
      (use Cons.prems(1,3) lines in \<open>auto simp: tracks_files\<close>)
  then obtain c1 where c1: "chain_run env all c (view_lines (ae_decode env) view) = Some c1" "tracks st2 c1"
    "view_lines (ae_decode env) view \<noteq> [] \<longrightarrow> co_started c1" by blast
  have t1: "tracks st1 c1" using c1(2) st2(2) tracks_files(1) by metis
  have "\<exists>c'. chain_run env all c1 (chain_lines env files) = Some c' \<and> tracks st' c' \<and> (chain_lines env files \<noteq> [] \<longrightarrow> co_started c')"
  proof (rule Cons.IH [OF t1 s(2) _ Cons.prems(4)])
    fix l ls'
    assume n: "\<not> co_started c1" "chain_lines env files = l # ls'"
    then have "view_lines (ae_decode env) view = []" using c1(3) by blast
    with c1(1) n lines Cons.prems(3) show "resolves env views carried all l" by simp
  qed
  then obtain c' where "chain_run env all c1 (chain_lines env files) = Some c'" "tracks st' c'" "chain_lines env files \<noteq> [] \<longrightarrow> co_started c'" by blast
  moreover have "co_started c'" if "chain_lines env files = []" "view_lines (ae_decode env) view \<noteq> []" using that calculation(1) c1(3) by simp
  ultimately show ?case using c1(1) lines by (auto simp: chain_run_append)
qed

subsection \<open>And the scan accepts what the run accepts\<close>

lemma start_chain_back:
  assumes st: "tracks st c" "sg_carriedUsed st = None" and c: "core_start env all l c = Some c'"
    and v: "list_all readable views" "all = concat (map (view_lines (ae_decode env)) views)"
  shows "tracks (start_chain env views [] nm l st) c' \<and> sg_carriedUsed (start_chain env views [] nm l st) = None
    \<and> sg_started (start_chain env views [] nm l st)"
proof (cases "co_started c")
  case True
  with st c show ?thesis by (auto simp: start_chain_def core_start_def tracks_def)
next
  case False
  with st have new: "\<not> sg_started st" "sg_boundary st = None" by (simp_all add: tracks_def)
  show ?thesis
  proof (cases "peekHead env l")
    case None
    with st False new c show ?thesis by (auto simp: start_chain_def core_start_def tracks_def bounds_match_def Let_def)
  next
    case (Some sp)
    obtain seq prev where sp: "sp = (seq, prev)" by (cases sp)
    show ?thesis
    proof (cases "seq \<le> 1")
      case True
      with Some sp st False new c show ?thesis by (auto simp: start_chain_def core_start_def tracks_def bounds_match_def Let_def)
    next
      case late: False
      with c False Some sp obtain f t where p: "prefix_of env all seq prev = Some (f, t)"
        and c': "c' = \<lparr>co_frontier = f, co_lastSeq = nat (seq - 1), co_prev = prev, co_started = True, co_bound = Some (nat (seq - 1), prev, t)\<rparr>"
        by (auto simp: core_start_def split: option.splits)
      have "resolvePrunedPrefix env seq prev views [] = Seeded f t None"
        using p resolve_on_disk [OF v(1)] v(2) by simp
      with st False new Some sp late c' show ?thesis
        by (auto simp: start_chain_def tracks_def bounds_match_def bound_of_def Let_def)
    qed
  qed
qed

lemma take_record_back:
  assumes st: "tracks st c" "sg_carriedUsed st = None" "sg_started st" and c: "core_take env k c = Some c'"
  shows "anchor_verdict env k st = Accept \<and> (\<exists>st'. take_record env active k st = (st', Accept) \<and> tracks st' c' \<and> sg_carriedUsed st' = None)"
proof -
  from c have a: "core_anchor env k c" by (auto simp: core_take_def split: if_splits)
  from c obtain f where f: "push_leaf (ae_sha env) (ck_hash k) (co_frontier c) = Inr f"
    and c': "c' = \<lparr>co_frontier = f, co_lastSeq = co_lastSeq c + 1, co_prev = ck_hash k, co_started = True,
           co_bound = (case co_bound c of None \<Rightarrow> None | Some b \<Rightarrow> if core_names k b then None else Some b)\<rparr>"
    by (auto simp: core_take_def split: if_splits sum.splits)
  have "anchor_verdict env k st = Accept" using a st(1)
    by (auto simp: anchor_verdict_def core_anchor_def tracks_def split: sum.splits)
  moreover have "push_leaf (ae_sha env) (ck_hash k) (sg_frontier st) = Inr f" using f st(1) by (simp add: tracks_def)
  moreover obtain st' where st': "take_record env active k st = (st', Accept)" "sg_halt st' = sg_halt st" "sg_frontier st' = f"
    "sg_lastSeq st' = sg_lastSeq st + 1" "sg_prev st' = ck_hash k" "sg_started st' = sg_started st"
    "sg_carriedUsed st' = sg_carriedUsed st"
    "sg_boundary st' = (case sg_boundary st of None \<Rightarrow> None | Some b \<Rightarrow> if names_boundary k b then None else Some b)"
    using calculation(2) by (simp add: take_record_def Let_def)
  ultimately show ?thesis using st c'
    by (auto simp: tracks_def bounds_match_def names_boundary_core split: option.split)
qed

lemma acceptLine_back:
  assumes st: "tracks st c" "sg_carriedUsed st = None" and c: "core_step env all c l = Some c'"
    and v: "list_all readable views" "all = concat (map (view_lines (ae_decode env)) views)"
  shows "\<exists>st'. acceptLine env views [] path nm st l = (st', Accept) \<and> tracks st' c' \<and> sg_carriedUsed st' = None"
proof -
  let ?st = "start_chain env views [] nm l st"
  from c obtain c1 k where c1: "core_start env all l c = Some c1" "checkLine env l (co_lastSeq c1 + 1) (co_prev c1) = Inr k"
    "core_take env k c1 = Some c'"
  proof -
    from c obtain c1 where "core_start env all l c = Some c1"
      "(case checkLine env l (co_lastSeq c1 + 1) (co_prev c1) of Inl _ \<Rightarrow> None | Inr k \<Rightarrow> core_take env k c1) = Some c'"
      by (auto simp: core_step_def bind_eq_Some_conv)
    with that show thesis by (cases "checkLine env l (co_lastSeq c1 + 1) (co_prev c1)") auto
  qed
  from start_chain_back [OF st c1(1) v] have s: "tracks ?st c1" "sg_carriedUsed ?st = None" "sg_started ?st" by blast+
  have eq: "sg_lastSeq ?st = co_lastSeq c1" "sg_prev ?st = co_prev c1" "sg_halt ?st = None" using s(1) by (simp_all add: tracks_def)
  from take_record_back [OF s c1(3), of "nm = path"] c1(2) show ?thesis by (auto simp: acceptLine_def Let_def eq)
qed

lemma accepts_back:
  assumes v: "list_all readable views" "all = concat (map (view_lines (ae_decode env)) views)"
  shows "tracks st c \<Longrightarrow> sg_carriedUsed st = None \<Longrightarrow> chain_run env all c ls = Some c' \<Longrightarrow>
    \<exists>st'. accepts (acceptLine env views [] path nm) st ls = Some st' \<and> tracks st' c' \<and> sg_carriedUsed st' = None"
proof (induction ls arbitrary: st c)
  case (Cons l ls)
  from Cons.prems(3) obtain c1 where c1: "core_step env all c l = Some c1" "chain_run env all c1 ls = Some c'"
    by (auto simp: bind_eq_Some_conv)
  from acceptLine_back [OF Cons.prems(1,2) c1(1) v] obtain st1
    where "acceptLine env views [] path nm st l = (st1, Accept)" "tracks st1 c1" "sg_carriedUsed st1 = None" by blast
  with Cons.IH [of st1 c1] c1(2) show ?case by simp
qed simp

lemma through_back:
  assumes v: "list_all readable views" "all = concat (map (view_lines (ae_decode env)) views)"
  shows "tracks st c \<Longrightarrow> sg_carriedUsed st = None \<Longrightarrow> chain_run env all c (chain_lines env files) = Some c' \<Longrightarrow>
    list_all (readable \<circ> snd) files \<Longrightarrow> \<exists>st'. through env views [] path files st = Some st' \<and> tracks st' c' \<and> sg_carriedUsed st' = None"
proof (induction files arbitrary: st c)
  case Nil
  then show ?case by (simp add: chain_lines_def)
next
  case (Cons f files)
  obtain nm view where f: "f = (nm, view)" by (cases f)
  have lines: "chain_lines env (f # files) = view_lines (ae_decode env) view @ chain_lines env files" by (simp add: chain_lines_def f)
  from Cons.prems(3) obtain c1 where c1: "chain_run env all c (view_lines (ae_decode env) view) = Some c1"
    "chain_run env all c1 (chain_lines env files) = Some c'" unfolding lines by (auto simp: chain_run_append bind_eq_Some_conv)
  let ?st = "st\<lparr>sg_first := 0, sg_last := 0, sg_ts := [], sg_hash := GENESIS_HASH\<rparr>"
  have r: "readable view" using Cons.prems(4) f by simp
  have "tracks ?st c" "sg_carriedUsed ?st = None" using Cons.prems(1,2) by (simp_all add: tracks_files)
  from accepts_back [OF v this c1(1)] obtain st1 where st1: "accepts (acceptLine env views [] path nm) ?st (view_lines (ae_decode env) view) = Some st1"
    "tracks st1 c1" "sg_carriedUsed st1 = None" by blast
  then have "eachLine (ae_decode env) view (acceptLine env views [] path nm) ?st = (st1, StepOk)" using r by (simp add: eachLine_ok)
  then have "\<exists>st2. scanFile env views [] path nm view st = (st2, StepOk) \<and> tracks st2 c1 \<and> sg_carriedUsed st2 = None"
    using st1(2,3) by (simp add: scanFile_def tracks_files)
  then obtain st2 where st2: "scanFile env views [] path nm view st = (st2, StepOk)" "tracks st2 c1" "sg_carriedUsed st2 = None" by blast
  from Cons.IH [OF st2(2,3) c1(2)] Cons.prems(4) st2(1) f show ?case by simp
qed

text \<open>A directory whose lines the run accepts verifies, with the state the run ends in.\<close>

lemma run_verifies:
  assumes r: "list_all (readable \<circ> snd) files" and c: "chain_run env (chain_lines env files) fresh_core (chain_lines env files) = Some c"
    and b: "co_bound c = None"
  shows "\<exists>n. cs_verification (scanChain env path files []) = Verified n (co_prev c)"
    "cs_lastSeq (scanChain env path files []) = co_lastSeq c" "cs_lastHash (scanChain env path files []) = co_prev c"
proof -
  have v: "list_all readable (map snd files)" using r by (simp add: list_all_iff)
  have all: "chain_lines env files = concat (map (view_lines (ae_decode env)) (map snd files))" by (simp add: chain_lines_def comp_def)
  have f: "sg_carriedUsed fresh_scan = None" "sg_halt fresh_scan = None" by (simp_all add: fresh_scan_def)
  from through_back [OF v all tracks_fresh f(1) c r] obtain st' where st': "through env (map snd files) [] path files fresh_scan = Some st'"
    "tracks st' c" "sg_carriedUsed st' = None" by blast
  have bd: "sg_boundary st' = None" using st'(2,3) b by (simp add: tracks_def bounds_match_def)
  have s: "scanChain env path files [] = finish path st' (Verified (sg_count st') (sg_prev st')) path"
    unfolding scanChain_def by (rule scan_files_finish [OF st'(1) f(2) bd])
  show "\<exists>n. cs_verification (scanChain env path files []) = Verified n (co_prev c)"
    "cs_lastSeq (scanChain env path files []) = co_lastSeq c" "cs_lastHash (scanChain env path files []) = co_prev c"
    using s st'(2) by (simp_all add: finish_def tracks_def)
qed

subsection \<open>What the verifier accepts\<close>

text \<open>A trail whose first line is not record 1 carries on from what its pruned prefix left: a frontier \<open>f\<close>, which
  counts the records before, and the hash \<open>p\<close> of the last of them.\<close>

definition root_after :: "audit_env \<Rightarrow> frontier \<Rightarrow> string list \<Rightarrow> string option" where
  "root_after env f hs = (case push_all (ae_sha env) hs f of
      Inl _ \<Rightarrow> None
    | Inr f' \<Rightarrow> (case frontier_root (ae_sha env) f' of Inl _ \<Rightarrow> None | Inr r \<Rightarrow> Some r))"

definition anchor_after :: "audit_env \<Rightarrow> frontier \<Rightarrow> string list \<Rightarrow> checked \<Rightarrow> bool" where
  "anchor_after env f hs c \<longleftrightarrow> ck_event c \<noteq> ANCHOR_EVENT
     \<or> obj_get (ck_fields c) ''through'' = JNum (Fin (of_nat (fr_size f + length hs)))
       \<and> Some (obj_get (ck_fields c) ''root'') = map_option JStr (root_after env f hs)"

fun chain_after :: "audit_env \<Rightarrow> frontier \<Rightarrow> string \<Rightarrow> string list \<Rightarrow> string list \<Rightarrow> string list option" where
  "chain_after env f p hs [] = Some hs"
| "chain_after env f p hs (l # ls) = (case checkLine env l (fr_size f + length hs + 1) (last (p # hs)) of
      Inl _ \<Rightarrow> None
    | Inr c \<Rightarrow> if anchor_after env f hs c then chain_after env f p (hs @ [ck_hash c]) ls else None)"

definition pruned_head :: "audit_env \<Rightarrow> string list \<Rightarrow> (int \<times> string) option" where
  "pruned_head env ls = (case ls of [] \<Rightarrow> None
     | l # _ \<Rightarrow> (case peekHead env l of Some (seq, prev) \<Rightarrow> if seq \<le> 1 then None else Some (seq, prev) | None \<Rightarrow> None))"

text \<open>A record that closes the boundary: it names the last pruned record and the frontier there.\<close>

definition closes :: "audit_env \<Rightarrow> nat \<times> string \<times> string \<Rightarrow> string \<Rightarrow> bool" where
  "closes env b l \<longleftrightarrow> (case record_of env l of
      Some r \<Rightarrow> ar_event r = RETENTION_EVENT \<and> names_fields (hashed_fields (ar_fields r)) b
    | None \<Rightarrow> False)"

definition trail_hashes :: "audit_env \<Rightarrow> string list \<Rightarrow> string list option" where
  "trail_hashes env ls = (case pruned_head env ls of
      None \<Rightarrow> chain_hashes env [] ls
    | Some (seq, prev) \<Rightarrow> (case prefix_of env ls seq prev of
        None \<Rightarrow> None
      | Some (f, t) \<Rightarrow> if list_ex (closes env (nat (seq - 1), prev, t)) ls then chain_after env f prev [] ls else None))"

definition sound_peaks :: "frontier \<Rightarrow> bool" where
  "sound_peaks f \<longleftrightarrow> list_all (\<lambda>p. HEX_64 (pk_hash p)) (fr_peaks f)"

lemma push_loop_sound:
  assumes sha: "sha_format sha"
  shows "HEX_64 hash \<Longrightarrow> list_all (\<lambda>p. HEX_64 (pk_hash p)) ps \<Longrightarrow>
    \<exists>ps'. push_loop sha hash height ps = Inr ps' \<and> list_all (\<lambda>p. HEX_64 (pk_hash p)) ps'"
proof (induction ps arbitrary: hash height)
  case (Cons p ps)
  have "HEX_64 (sha (node_input (pk_hash p) hash))" using sha by (simp add: sha_format_def)
  with Cons show ?case by (simp add: nodeHash_ok)
qed simp

lemma push_leaf_sound:
  assumes "sha_format sha" "HEX_64 h" "sound_peaks f"
  shows "\<exists>f'. push_leaf sha h f = Inr f' \<and> sound_peaks f'"
proof -
  have "HEX_64 (sha (leaf_input h))" "list_all (\<lambda>p. HEX_64 (pk_hash p)) (rev (fr_peaks f))"
    using assms by (simp_all add: sha_format_def sound_peaks_def)
  from push_loop_sound [OF assms(1) this, of 0] assms(2) show ?thesis
    by (auto simp: push_leaf_def leafHash_def assertHash_def sound_peaks_def)
qed

lemma push_all_snoc: "push_all sha (hs @ [h]) f = (case push_all sha hs f of Inl e \<Rightarrow> Inl e | Inr f' \<Rightarrow> push_leaf sha h f')"
  by (induction hs arbitrary: f) (simp_all split: sum.split)

text \<open>Where the frontier is the one of hashes \<open>hs0\<close>, the roots are tree hashes of these and what follows.\<close>

lemma root_after_tree:
  assumes "sha_format (ae_sha env)" "frontier_of (ae_sha env) f hs0" "\<forall>h \<in> set hs. HEX_64 h"
  shows "root_after env f hs = Some (mth (ae_sha env) (hs0 @ hs))"
proof -
  from push_all_frontier [OF assms] obtain f' where "push_all (ae_sha env) hs f = Inr f'" "frontier_of (ae_sha env) f' (hs0 @ hs)" by blast
  with frontier_root_mth [OF assms(1)] show ?thesis by (simp add: root_after_def)
qed

lemma read_peaks_sound: "read_peaks q hs vs = Inr ps \<Longrightarrow> list_all (\<lambda>p. HEX_64 (pk_hash p)) ps"
proof (induction q hs vs arbitrary: ps rule: read_peaks.induct)
  case (1 q h hs v vs)
  from 1(2) obtain p ps' where p: "read_peak v = Inr p" "read_peaks (Some (pk_height p)) hs vs = Inr ps'" "ps = p # ps'"
    and ok: "\<not> (case q of Some n \<Rightarrow> pk_height p \<ge> n | None \<Rightarrow> False)" "pk_height p = h"
    by (auto split: sum.splits if_splits)
  have "HEX_64 (pk_hash p)" using p(1)
    by (auto simp: read_peak_def assertHash_def split: js.splits option.splits if_splits sum.splits)
  moreover have "list_all (\<lambda>p. HEX_64 (pk_hash p)) ps'" using 1(1) [OF p(1)] ok p(2) by simp
  ultimately show ?case by (simp add: p(3))
qed simp_all

lemma prefix_of_sound: "prefix_of env all seq prev = Some (f, t) \<Longrightarrow> sound_peaks f \<and> int (fr_size f) = seq - 1"
  by (auto simp: prefix_of_def decodeFrontier_def seedFrontier_def sound_peaks_def
    split: option.splits js.splits sum.splits if_splits dest!: read_peaks_sound)

lemma closes_names: "checkLine env l s p = Inr k \<Longrightarrow> core_names k b \<longleftrightarrow> closes env b l"
  by (auto simp: core_names_fields closes_def dest!: checkLine_record)

text \<open>The run from such a prefix on.\<close>

definition carried_on :: "audit_env \<Rightarrow> frontier \<Rightarrow> string \<Rightarrow> string list \<Rightarrow> core \<Rightarrow> bool" where
  "carried_on env f p hs c \<longleftrightarrow> co_started c \<and> push_all (ae_sha env) hs f = Inr (co_frontier c) \<and> sound_peaks (co_frontier c)
     \<and> co_lastSeq c = fr_size f + length hs \<and> co_prev c = last (p # hs)"

lemma core_take_after:
  assumes sha: "sha_format (ae_sha env)" and c: "carried_on env f p hs c" and h: "HEX_64 (ck_hash k)"
  shows "if anchor_after env f hs k
    then \<exists>c'. core_take env k c = Some c' \<and> carried_on env f p (hs @ [ck_hash k]) c'
      \<and> co_bound c' = (case co_bound c of None \<Rightarrow> None | Some b \<Rightarrow> if core_names k b then None else Some b)
    else core_take env k c = None"
proof -
  have a: "core_anchor env k c \<longleftrightarrow> anchor_after env f hs k"
    using c by (auto simp: core_anchor_def anchor_after_def root_after_def carried_on_def split: sum.split)
  from push_leaf_sound [OF sha h] c obtain f' where "push_leaf (ae_sha env) (ck_hash k) (co_frontier c) = Inr f'" "sound_peaks f'"
    by (auto simp: carried_on_def)
  with a c show ?thesis by (simp add: core_take_def carried_on_def push_all_snoc)
qed

lemma run_after:
  assumes sha: "sha_format (ae_sha env)"
  shows "carried_on env f p hs c \<Longrightarrow> (case chain_after env f p hs ls of
      None \<Rightarrow> chain_run env all c ls = None
    | Some hs' \<Rightarrow> length hs' = length hs + length ls \<and> (\<exists>c'. chain_run env all c ls = Some c' \<and> co_prev c' = last (p # hs')
        \<and> (co_bound c' = None \<longleftrightarrow> (case co_bound c of None \<Rightarrow> True | Some b \<Rightarrow> list_ex (closes env b) ls))))"
proof (induction ls arbitrary: hs c)
  case Nil
  then show ?case by (simp add: carried_on_def split: option.split)
next
  case (Cons l ls)
  have started: "core_start env all l c = Some c" using Cons.prems by (simp add: core_start_def carried_on_def)
  have at_: "co_lastSeq c = fr_size f + length hs" "co_prev c = last (p # hs)" using Cons.prems by (simp_all add: carried_on_def)
  show ?case
  proof (cases "checkLine env l (fr_size f + length hs + 1) (last (p # hs))")
    case (Inl r)
    with started at_ show ?thesis by (simp add: core_step_def)
  next
    case (Inr k)
    note t = core_take_after [OF sha Cons.prems checkLine_hash [OF Inr]]
    have st: "core_step env all c l = core_take env k c" using started at_ Inr by (simp add: core_step_def)
    show ?thesis
    proof (cases "anchor_after env f hs k")
      case False
      with t st Inr show ?thesis by simp
    next
      case True
      with t obtain c1 where c1: "core_take env k c = Some c1" "carried_on env f p (hs @ [ck_hash k]) c1"
        "co_bound c1 = (case co_bound c of None \<Rightarrow> None | Some b \<Rightarrow> if core_names k b then None else Some b)" by auto
      have "(case co_bound c1 of None \<Rightarrow> True | Some b \<Rightarrow> list_ex (closes env b) ls)
        \<longleftrightarrow> (case co_bound c of None \<Rightarrow> True | Some b \<Rightarrow> list_ex (closes env b) (l # ls))"
        using c1(3) closes_names [OF Inr] by (auto split: option.split)
      with Cons.IH [OF c1(2)] st c1(1) Inr True show ?thesis by (auto split: option.splits)
    qed
  qed
qed

text \<open>The verdict as a function of the run.\<close>

lemma verified_run:
  "verifyAuditFile env path files = Verified n h \<longleftrightarrow> list_all (readable \<circ> snd) files \<and> n = length (chain_lines env files)
     \<and> (\<exists>c. chain_run env (chain_lines env files) fresh_core (chain_lines env files) = Some c \<and> co_bound c = None \<and> h = co_prev c)"
proof
  assume v: "verifyAuditFile env path files = Verified n h"
  let ?views = "map snd files" and ?all = "chain_lines env files"
  have f: "sg_carriedUsed fresh_scan = None" "sg_halt fresh_scan = None" by (simp_all add: fresh_scan_def)
  from v scan_files_through [OF f(2)] obtain st' where st': "through env ?views [] path files fresh_scan = Some st'"
    "sg_boundary st' = None" "h = sg_prev st'" by (auto simp: verifyAuditFile_def scanChain_def)
  have r: "list_all (readable \<circ> snd) files" using through_readable [OF st'(1)] .
  then have rv: "list_all readable ?views" by (simp add: list_all_iff)
  have all: "?all = concat (map (view_lines (ae_decode env)) ?views)" by (simp add: chain_lines_def comp_def)
  have res: "resolves env ?views [] ?all l" for l
    unfolding resolves_def
  proof (intro allI impI)
    fix seq prev fr t cu
    assume s: "resolvePrunedPrefix env seq prev ?views [] = Seeded fr t cu"
    have "cu = None"
    proof (rule ccontr)
      assume "cu \<noteq> None"
      with s obtain fs where "resolvePrunedPrefix env seq prev ?views [] = Seeded fr t (Some fs)" by auto
      from resolve_carried(2) [OF rv this] show False by simp
    qed
    with s resolve_on_disk [OF rv] all show "prefix_of env ?all seq prev = Some (fr, t)" by simp
  qed
  from through_tracks [OF tracks_fresh st'(1) res rv] obtain c where c: "chain_run env ?all fresh_core ?all = Some c" "tracks st' c" by blast
  from through_back [OF rv all tracks_fresh f(1) c(1) r, of path] st'(1) have "sg_carriedUsed st' = None" by simp
  then have "co_bound c = None" "h = co_prev c" using c(2) st'(2,3) by (simp_all add: tracks_def bounds_match_def)
  moreover have "n = length ?all" using verified_records(1) [OF v] by (simp add: chain_records_def)
  ultimately show "list_all (readable \<circ> snd) files \<and> n = length ?all
     \<and> (\<exists>c. chain_run env ?all fresh_core ?all = Some c \<and> co_bound c = None \<and> h = co_prev c)" using r c(1) by blast
next
  assume "list_all (readable \<circ> snd) files \<and> n = length (chain_lines env files)
     \<and> (\<exists>c. chain_run env (chain_lines env files) fresh_core (chain_lines env files) = Some c \<and> co_bound c = None \<and> h = co_prev c)"
  then obtain c where c: "list_all (readable \<circ> snd) files" "n = length (chain_lines env files)"
    "chain_run env (chain_lines env files) fresh_core (chain_lines env files) = Some c" "co_bound c = None" "h = co_prev c" by blast
  from run_verifies(1) [OF c(1,3,4)] obtain m where m: "verifyAuditFile env path files = Verified m h"
    using c(5) by (auto simp: verifyAuditFile_def)
  with verified_records(1) [OF m] c(2) show "verifyAuditFile env path files = Verified n h" by (simp add: chain_records_def)
qed

text \<open>C14. What the streaming verifier accepts. \<^verbatim>\<open>verifyAuditFile\<close> answers ok with n records and the last hash h
  exactly when every file can be read and ends with a line break, no line is too long, every line is the canonical text of
  a record at its place in the chain, every anchor names its place and the root there, and n and h are the number and the
  last of the hashes. The chain starts at record 1, where the roots are the RFC 6962 tree hashes of all the hashes before;
  or at a later one, where the first retention record of the trail that names the predecessor's number and hash has a
  valid frontier of that many records, the roots are those of that frontier with the hashes since, and a record of the
  verified trail names the number, the hash and the frontier.\<close>
theorem verify_exact:
  assumes "sha_format (ae_sha env)"
  shows "verifyAuditFile env path files = Verified n h \<longleftrightarrow>
    list_all (readable \<circ> snd) files \<and> (case trail_hashes env (chain_lines env files) of
      None \<Rightarrow> False | Some hs \<Rightarrow> n = length hs \<and> h = head_hash hs)"
proof (cases "pruned_head env (chain_lines env files)")
  case None
  then have "starts_at_one env (chain_lines env files)"
    by (auto simp: pruned_head_def starts_at_one_def split: list.splits option.splits if_splits)
  from scanChain_exact [OF assms this] None show ?thesis by (simp add: verifyAuditFile_def trail_hashes_def)
next
  case (Some sp)
  let ?all = "chain_lines env files"
  obtain seq prev where sp: "sp = (seq, prev)" by (cases sp)
  from Some sp obtain l ls where l: "?all = l # ls" "peekHead env l = Some (seq, prev)" "1 < seq"
    by (auto simp: pruned_head_def split: list.splits option.splits if_splits)
  show ?thesis
  proof (cases "prefix_of env ?all seq prev")
    case None
    then have "chain_run env ?all fresh_core ?all = None"
      using l by (simp add: core_step_def core_start_def fresh_core_def)
    with None Some sp show ?thesis by (simp add: verified_run trail_hashes_def)
  next
    case (Some ft)
    obtain f t where ft: "ft = (f, t)" by (cases ft)
    let ?c = "\<lparr>co_frontier = f, co_lastSeq = nat (seq - 1), co_prev = prev, co_started = True, co_bound = Some (nat (seq - 1), prev, t)\<rparr>"
    have "carried_on env f prev [] ?c" using prefix_of_sound [OF Some [unfolded ft]] by (auto simp: carried_on_def)
    note run = run_after [OF assms this, where ls = ?all and all = ?all]
    have "core_start env ?all l fresh_core = Some ?c" using l Some ft by (simp add: core_start_def fresh_core_def)
    then have "core_step env ?all fresh_core l = core_step env ?all ?c l" by (simp add: core_step_def core_start_def)
    then have "chain_run env ?all fresh_core ?all = chain_run env ?all ?c ?all" unfolding l(1) by simp
    with run Some ft sp \<open>pruned_head env ?all = Some sp\<close> l(1) show ?thesis
      by (auto simp: verified_run trail_hashes_def head_hash_def split: option.splits)
  qed
qed

lemma verify_exact_witness: "verifyAuditFile trail_env ''audit.jsonl'' sample_trail = Verified 2 second_hash"
proof -
  have sha: "sha_format (ae_sha trail_env)" by (simp add: sample_sha_format)
  have "pruned_head trail_env [trail_line 0, trail_line 1] = None"
    using trail_start by (auto simp: pruned_head_def starts_at_one_def split: option.splits)
  then show ?thesis
    by (subst verify_exact [OF sha]) (simp_all add: trail_chain trail_hashes_def trail_chain_hashes head_hash_def del: One_nat_def chain_hashes.simps)
qed

end
