(* ===== verification/Audit_Durable.thy ===== *)
theory Audit_Durable
  imports Audit_Sync
begin

text \<open>
  Every operation of the log keeps the chain on disk. \<open>synced\<close> says that the directory verifies and that the log's
  state is the one the verifier ends in; a record is acknowledged in such a state only, whichever calls have failed
  before.
\<close>

subsection \<open>The directory as the verifier sees it\<close>

definition sealed_part :: "audit_disk \<Rightarrow> (string \<times> audit_file) list" where
  "sealed_part d = filter (\<lambda>e. sealed_range (fst e) \<noteq> None) (dk_files d)"

definition seg_names :: "audit_disk \<Rightarrow> string list" where
  "seg_names d = map fst (sort_key (fst \<circ> snd) (map (\<lambda>e. (fst e, the (sealed_range (fst e)))) (sealed_part d)))"

definition disk_names :: "string \<Rightarrow> audit_disk \<Rightarrow> string list" where
  "disk_names path d = seg_names d @ (if jm_get (dk_files d) path \<noteq> None then [path] else [])"

definition view_of :: "audit_disk \<Rightarrow> string \<Rightarrow> file_view" where
  "view_of d nm = one_read (bytes_of nm d) False"

definition disk_files :: "string \<Rightarrow> audit_disk \<Rightarrow> (string \<times> file_view) list" where
  "disk_files path d = map (\<lambda>nm. (nm, view_of d nm)) (disk_names path d)"

definition file_lines :: "audit_env \<Rightarrow> audit_disk \<Rightarrow> string \<Rightarrow> string list" where
  "file_lines env d nm = view_lines (ae_decode env) (view_of d nm)"

definition seg_lines :: "audit_env \<Rightarrow> audit_disk \<Rightarrow> string list" where
  "seg_lines env d = concat (map (file_lines env d) (seg_names d))"

definition all_lines :: "audit_env \<Rightarrow> string \<Rightarrow> audit_disk \<Rightarrow> string list" where
  "all_lines env path d = seg_lines env d @ file_lines env d path"

lemma one_read_bytes: "view_bytes (one_read bs f) = bs"
  by (simp add: one_read_def view_bytes_one)

lemma one_read_whole: "view_whole (one_read bs f) \<longleftrightarrow> \<not> f"
  by (simp add: one_read_def view_whole_def)

lemma file_lines_missing: "jm_get (dk_files d) nm = None \<Longrightarrow> file_lines env d nm = []"
  by (simp add: file_lines_def view_of_def bytes_of_def view_lines_def one_read_bytes)

lemma disk_chain_lines: "chain_lines env (disk_files path d) = all_lines env path d"
proof -
  have v: "view_lines (ae_decode env) (view_of d nm) = file_lines env d nm" for nm by (simp add: file_lines_def)
  show ?thesis using file_lines_missing [of d path env]
    by (simp add: chain_lines_def disk_files_def disk_names_def all_lines_def seg_lines_def comp_def v)
qed

lemma listed: "dk_lookups d = [] \<Longrightarrow> listSegments d = (seg_names d, d)"
proof -
  have "List.map_filter (\<lambda>e. map_option (\<lambda>r. (fst e, r)) (sealed_range (fst e))) m
    = map (\<lambda>e. (fst e, the (sealed_range (fst e)))) (filter (\<lambda>e. sealed_range (fst e) \<noteq> None) m)" for m :: "(string, audit_file) jmap"
    by (induction m) (simp_all add: List.map_filter_simps split: option.split)
  then show "dk_lookups d = [] \<Longrightarrow> listSegments d = (seg_names d, d)"
    by (simp add: listSegments_def next_lookup_def seg_names_def sealed_part_def)
qed

lemma seg_names_sealed: "nm \<in> set (seg_names d) \<longleftrightarrow> nm \<in> fst ` set (dk_files d) \<and> sealed_range nm \<noteq> None"
  by (force simp: seg_names_def sealed_part_def)

text \<open>A change of files other than segments.\<close>

lemma sealed_part_set: "sealed_range nm = None \<Longrightarrow> sealed_part (d\<lparr>dk_files := jm_set nm f (dk_files d)\<rparr>) = sealed_part d"
proof -
  have "sealed_range nm = None \<Longrightarrow> filter (\<lambda>e. sealed_range (fst e) \<noteq> None) (jm_set nm f m) = filter (\<lambda>e. sealed_range (fst e) \<noteq> None) m"
    for m :: "(string, audit_file) jmap" by (induction m) auto
  then show "sealed_range nm = None \<Longrightarrow> sealed_part (d\<lparr>dk_files := jm_set nm f (dk_files d)\<rparr>) = sealed_part d"
    by (simp add: sealed_part_def)
qed

lemma sealed_part_delete: "sealed_range nm = None \<Longrightarrow> sealed_part (d\<lparr>dk_files := jm_delete nm (dk_files d)\<rparr>) = sealed_part d"
proof -
  have "sealed_range nm = None \<Longrightarrow> filter (\<lambda>e. sealed_range (fst e) \<noteq> None) (jm_delete nm m) = filter (\<lambda>e. sealed_range (fst e) \<noteq> None) m"
    for m :: "(string, audit_file) jmap" by (induction m) auto
  then show "sealed_range nm = None \<Longrightarrow> sealed_part (d\<lparr>dk_files := jm_delete nm (dk_files d)\<rparr>) = sealed_part d"
    by (simp add: sealed_part_def)
qed

lemma bytes_sealed: "sealed_range nm \<noteq> None \<Longrightarrow> sealed_part d' = sealed_part d \<Longrightarrow> bytes_of nm d' = bytes_of nm d"
proof -
  have m: "map_of m nm = map_of (filter (\<lambda>e. sealed_range (fst e) \<noteq> None) m) nm" if "sealed_range nm \<noteq> None" for m :: "(string, audit_file) jmap"
    using that by (induction m) auto
  assume r: "sealed_range nm \<noteq> None" and p: "sealed_part d' = sealed_part d"
  have "map_of (dk_files d') nm = map_of (dk_files d) nm"
    using p m [OF r, of "dk_files d'"] m [OF r, of "dk_files d"] unfolding sealed_part_def by argo
  then show "bytes_of nm d' = bytes_of nm d" by (simp add: bytes_of_def)
qed

lemma seg_lines_same:
  assumes "sealed_part d' = sealed_part d"
  shows "seg_names d' = seg_names d" "seg_lines env d' = seg_lines env d" "\<forall>nm \<in> set (seg_names d). view_of d' nm = view_of d nm"
proof -
  show n: "seg_names d' = seg_names d" using assms by (simp add: seg_names_def)
  have b: "\<forall>nm \<in> set (seg_names d). bytes_of nm d' = bytes_of nm d" using bytes_sealed [OF _ assms] seg_names_sealed by blast
  then show "\<forall>nm \<in> set (seg_names d). view_of d' nm = view_of d nm" by (simp add: view_of_def)
  with n show "seg_lines env d' = seg_lines env d" by (simp add: seg_lines_def file_lines_def cong: map_cong)
qed

subsection \<open>Reading\<close>

definition same_files :: "audit_disk \<Rightarrow> audit_disk \<Rightarrow> bool" where
  "same_files d d' \<longleftrightarrow> dk_files d' = dk_files d \<and> dk_lookups d' = dk_lookups d"

lemma same_files_refl [simp]: "same_files d d"
  by (simp add: same_files_def)

lemma same_files_trans: "same_files d d' \<Longrightarrow> same_files d' d'' \<Longrightarrow> same_files d d''"
  by (simp add: same_files_def)

lemma next_fault_same: "next_fault d = (f, d') \<Longrightarrow> same_files d d'"
  by (auto simp: next_fault_def same_files_def split: list.splits)

lemma read_view_same: "read_view p d = (v, d') \<Longrightarrow> same_files d d'"
  using next_fault_same by (auto simp: read_view_def split: prod.splits)

lemma view_of_same: "same_files d d' \<Longrightarrow> view_of d' nm = view_of d nm"
  by (simp add: view_of_def bytes_of_def same_files_def)

lemma read_view_readable:
  assumes "read_view p d = (v, d')" "readable v"
  shows "v = view_of d p"
proof -
  obtain f d1 where f: "next_fault d = (f, d1)" by fastforce
  have same: "dk_files d1 = dk_files d" using next_fault_same [OF f] by (simp add: same_files_def)
  show ?thesis
  proof (cases f)
    case Fine
    with assms f same show ?thesis
      by (auto simp: read_view_def view_of_def bytes_of_def readable_def view_whole_def split: option.splits)
  next
    case Fails
    with assms f show ?thesis by (auto simp: read_view_def readable_def view_whole_def)
  next
    case (Short n)
    with assms f show ?thesis by (auto simp: read_view_def readable_def one_read_whole split: option.splits) (simp add: view_whole_def)
  qed
qed

lemma read_views_readable:
  "read_views ps d = (vs, d') \<Longrightarrow> same_files d d' \<and> length vs = length ps \<and> (list_all readable vs \<longrightarrow> vs = map (view_of d) ps)"
proof (induction ps arbitrary: d d' vs)
  case (Cons p ps)
  obtain v d1 where v: "read_view p d = (v, d1)" by fastforce
  obtain ws d2 where ws: "read_views ps d1 = (ws, d2)" by fastforce
  have eq: "vs = v # ws" "d' = d2" using Cons.prems v ws by simp_all
  note s = read_view_same [OF v]
  from Cons.IH [OF ws] s same_files_trans view_of_same [OF s] read_view_readable [OF v] show ?case
    unfolding eq by (auto simp: fun_eq_iff)
qed simp

definition seg_files :: "audit_disk \<Rightarrow> (string \<times> file_view) list" where
  "seg_files d = map (\<lambda>nm. (nm, view_of d nm)) (seg_names d)"

lemma fresh_scan_halt: "sg_halt fresh_scan = None" "sg_files fresh_scan = []" "sg_carriedUsed fresh_scan = None"
  by (simp_all add: fresh_scan_def)

lemma zip_views: "zip ns (map f ns) = map (\<lambda>nm. (nm, f nm)) ns"
  by (induction ns) simp_all

lemma scanDisk_clean:
  assumes d: "dk_lookups d = []" and s: "scanDisk env path only carried d = (sc, d')"
  shows "same_files d d'" "cs_verification sc = Verified n h \<Longrightarrow>
    sc = scanChain env path (if only then seg_files d else disk_files path d) carried"
proof -
  let ?names = "if only then seg_names d else disk_names path d"
  obtain vs d2 where vs: "read_views ?names d = (vs, d2)" by fastforce
  have "(let (there, d1) = (if only then (False, d) else exists_call path d) in (seg_names d @ (if there then [path] else []), d1)) = (?names, d)"
    using d by (simp add: exists_call_def next_lookup_def disk_names_def)
  then have sc: "sc = scanChain env path (zip ?names vs) carried" "d' = d2"
    using s vs by (auto simp: scanDisk_def listed [OF d] Let_def split: prod.splits if_splits)
  note r = read_views_readable [OF vs]
  show "same_files d d'" using r sc(2) by blast
  assume v: "cs_verification sc = Verified n h"
  then obtain st where "through env (map snd (zip ?names vs)) carried path (zip ?names vs) fresh_scan = Some st"
    unfolding sc(1) scanChain_def scan_files_through [OF fresh_scan_halt(1)] by blast
  then have "list_all (readable \<circ> snd) (zip ?names vs)" by (rule through_readable)
  then have "list_all readable (map snd (zip ?names vs))" by (simp add: list_all_iff)
  then have "list_all readable vs" using r by simp
  then have "vs = map (view_of d) ?names" using r by blast
  then show "sc = scanChain env path (if only then seg_files d else disk_files path d) carried"
    unfolding sc(1) by (cases only) (simp_all add: zip_views seg_files_def disk_files_def)
qed

subsection \<open>Chains that a run has accepted\<close>

lemma core_step_fields:
  assumes "core_step env all c l = Some c'"
  shows "co_started c'" "HEX_64 (co_prev c')" "0 < co_lastSeq c'"
    "co_lastSeq c' = (if co_started c then co_lastSeq c else (case peekHead env l of
        Some (seq, _) \<Rightarrow> if seq \<le> 1 then co_lastSeq c else nat (seq - 1) | None \<Rightarrow> co_lastSeq c)) + 1"
proof -
  from assms obtain c1 where c1: "core_start env all l c = Some c1"
    "(case checkLine env l (co_lastSeq c1 + 1) (co_prev c1) of Inl _ \<Rightarrow> None | Inr k \<Rightarrow> core_take env k c1) = Some c'"
    by (auto simp: core_step_def bind_eq_Some_conv)
  then obtain k where k: "checkLine env l (co_lastSeq c1 + 1) (co_prev c1) = Inr k" "core_take env k c1 = Some c'"
    by (cases "checkLine env l (co_lastSeq c1 + 1) (co_prev c1)") auto
  from k(2) have t: "co_started c'" "co_lastSeq c' = co_lastSeq c1 + 1" "co_prev c' = ck_hash k"
    by (auto simp: core_take_def split: if_splits sum.splits)
  show "co_started c'" "HEX_64 (co_prev c')" "0 < co_lastSeq c'" using t checkLine_hash [OF k(1)] by simp_all
  show "co_lastSeq c' = (if co_started c then co_lastSeq c else (case peekHead env l of
        Some (seq, _) \<Rightarrow> if seq \<le> 1 then co_lastSeq c else nat (seq - 1) | None \<Rightarrow> co_lastSeq c)) + 1"
    using t(2) c1(1) by (auto simp: core_start_def split: if_splits option.splits prod.splits)
qed

lemma chain_run_fields:
  "chain_run env all c ls = Some c' \<Longrightarrow> (ls \<noteq> [] \<longrightarrow> co_started c' \<and> HEX_64 (co_prev c')) \<and> (ls = [] \<longrightarrow> c' = c)
     \<and> co_lastSeq c' \<ge> (if co_started c \<or> co_lastSeq c = 0 then co_lastSeq c else 0) + length ls"
proof (induction ls arbitrary: c)
  case (Cons l ls)
  then obtain c1 where c1: "core_step env all c l = Some c1" "chain_run env all c1 ls = Some c'" by (auto simp: bind_eq_Some_conv)
  note f = core_step_fields [OF c1(1)]
  from Cons.IH [OF c1(2)] f show ?case by (auto split: if_splits option.splits prod.splits)
qed simp

text \<open>Where a run ends does not depend on the lines a boundary is looked for in.\<close>

lemma chain_run_seq:
  "chain_run env all c ls = Some c' \<Longrightarrow> chain_run env all2 c2 ls = Some c2' \<Longrightarrow> co_lastSeq c = co_lastSeq c2 \<Longrightarrow>
     co_started c = co_started c2 \<Longrightarrow> co_lastSeq c' = co_lastSeq c2'"
proof (induction ls arbitrary: c c2)
  case (Cons l ls)
  from Cons.prems(1,2) obtain d d2 where d: "core_step env all c l = Some d" "chain_run env all d ls = Some c'"
    "core_step env all2 c2 l = Some d2" "chain_run env all2 d2 ls = Some c2'" by (auto simp: bind_eq_Some_conv)
  have "co_lastSeq d = co_lastSeq d2" "co_started d = co_started d2"
    using core_step_fields(1,4) [OF d(1)] core_step_fields(1,4) [OF d(3)] unfolding Cons.prems(3,4) by simp_all
  with Cons.IH [OF d(2,4)] show ?case by blast
qed simp

lemma fresh_core_simps [simp]: "co_lastSeq fresh_core = 0" "co_prev fresh_core = GENESIS_HASH" "\<not> co_started fresh_core"
  "co_frontier fresh_core = createFrontier" "co_bound fresh_core = None"
  by (simp_all add: fresh_core_def)

lemma run_from_start:
  assumes "chain_run env all fresh_core ls = Some c"
  shows "length ls \<le> co_lastSeq c" "HEX_64 (co_prev c)" "ls = [] \<Longrightarrow> c = fresh_core" "ls \<noteq> [] \<Longrightarrow> co_started c"
  using chain_run_fields [OF assms] sample_hash(3) by (cases "ls = []"; simp)+

text \<open>The hashes of the peaks are well-formed.\<close>

definition hex_frontier :: "frontier \<Rightarrow> bool" where
  "hex_frontier f \<longleftrightarrow> (\<forall>p \<in> set (fr_peaks f). HEX_64 (pk_hash p))"

lemma push_loop_hex:
  "sha_format sha \<Longrightarrow> HEX_64 h \<Longrightarrow> \<forall>p \<in> set ps. HEX_64 (pk_hash p) \<Longrightarrow>
     \<exists>ps'. push_loop sha h n ps = Inr ps' \<and> (\<forall>p \<in> set ps'. HEX_64 (pk_hash p))"
proof (induction ps arbitrary: h n)
  case (Cons p ps)
  show ?case
  proof (cases "pk_height p = n")
    case True
    have "HEX_64 (sha (node_input (pk_hash p) h))" using Cons.prems(1) by (simp add: sha_format_def)
    with Cons.IH [OF Cons.prems(1) this, of "n + 1"] Cons.prems True show ?thesis by (simp add: nodeHash_ok)
  qed (use Cons.prems in simp)
qed simp

lemma push_leaf_hex:
  assumes "sha_format sha" "HEX_64 h" "hex_frontier f"
  shows "\<exists>f'. push_leaf sha h f = Inr f' \<and> hex_frontier f'"
proof -
  have "HEX_64 (sha (leaf_input h))" using assms(1) by (simp add: sha_format_def)
  from push_loop_hex [OF assms(1) this, of "rev (fr_peaks f)" 0] assms show ?thesis
    by (auto simp: push_leaf_def leafHash_def assertHash_def hex_frontier_def)
qed

lemma read_peaks_hex: "read_peaks prv hs vs = Inr ps \<Longrightarrow> \<forall>p \<in> set ps. HEX_64 (pk_hash p)"
  by (induction prv hs vs arbitrary: ps rule: read_peaks.induct)
    (auto simp: read_peak_def assertHash_def split: sum.splits if_splits js.splits option.splits)

lemma seedFrontier_hex: "seedFrontier v = Inr f \<Longrightarrow> hex_frontier f"
  by (auto simp: seedFrontier_def hex_frontier_def dest: read_peaks_hex split: js.splits option.splits if_splits sum.splits)

lemma decodeFrontier_hex: "decodeFrontier env v = Some (f, t) \<Longrightarrow> hex_frontier f \<and> v = JStr t"
  by (auto simp: decodeFrontier_def dest: seedFrontier_hex split: js.splits option.splits sum.splits)

lemma bag_hex: "sha_format sha \<Longrightarrow> HEX_64 a \<Longrightarrow> \<forall>p \<in> set ps. HEX_64 (pk_hash p) \<Longrightarrow> \<exists>h. bag sha a ps = Inr h \<and> HEX_64 h"
  by (induction ps arbitrary: a) (auto simp: nodeHash_ok sha_format_def)

lemma chain_run_hex:
  assumes sha: "sha_format (ae_sha env)"
  shows "chain_run env all c ls = Some c' \<Longrightarrow> hex_frontier (co_frontier c) \<Longrightarrow> hex_frontier (co_frontier c')"
proof (induction ls arbitrary: c)
  case (Cons l ls)
  then obtain c2 where c2: "core_step env all c l = Some c2" "chain_run env all c2 ls = Some c'" by (auto simp: bind_eq_Some_conv)
  from c2(1) obtain c1 where c1: "core_start env all l c = Some c1"
    "(case checkLine env l (co_lastSeq c1 + 1) (co_prev c1) of Inl _ \<Rightarrow> None | Inr k \<Rightarrow> core_take env k c1) = Some c2"
    by (auto simp: core_step_def bind_eq_Some_conv)
  then obtain k where k: "checkLine env l (co_lastSeq c1 + 1) (co_prev c1) = Inr k" "core_take env k c1 = Some c2"
    by (cases "checkLine env l (co_lastSeq c1 + 1) (co_prev c1)") auto
  have "hex_frontier (co_frontier c1)" using c1(1) Cons.prems(2) decodeFrontier_hex
    by (fastforce simp: core_start_def prefix_of_def split: if_splits option.splits prod.splits)
  with push_leaf_hex [OF sha checkLine_hash [OF k(1)] this] k(2) have "hex_frontier (co_frontier c2)"
    by (auto simp: core_take_def split: if_splits)
  with Cons.IH [OF c2(2)] show ?case by blast
qed simp

subsection \<open>One more record\<close>

text \<open>What is asked of the platform for a record the log writes: \<^verbatim>\<open>JSON.parse\<close> and UTF-8 decoding read its line back,
  numbers are written as numerals, injectively, and its sequence number is a safe integer. The line has to be within the
  verifier's limit, and a boundary that is written again has to name a record and its hash.\<close>

definition good_record :: "audit_env \<Rightarrow> audit_record \<Rightarrow> bool" where
  "good_record env r \<longleftrightarrow> ae_parse env (record_line env r)
        = Some (record_js (ar_seq r) (ar_ts r) (ar_event r) (ar_prev r) (ar_hash r) (ar_fields r))
     \<and> ae_decode env (utf8 (record_line env r)) = record_line env r
     \<and> number_format (ae_num env) (insert (Fin (of_nat (ar_seq r))) (numbers_of (ar_fields r)))
     \<and> length (utf8 (record_line env r)) \<le> MAX_LINE_BYTES \<and> ar_seq r \<le> 9007199254740991
     \<and> HEX_64 (ar_prev r) \<and> obj_get (ar_fields r) ''throughSeq'' \<noteq> JNum (Fin 0)"

text \<open>A record the log makes: its hash is computed, its fields are clean.\<close>

definition made_record :: "audit_env \<Rightarrow> audit_record \<Rightarrow> bool" where
  "made_record env r \<longleftrightarrow> clean_fields (ar_fields r) \<and> ar_event r \<noteq> [] \<and> HEX_64 (ar_prev r)
     \<and> ar_hash r = hashRecord env (ar_seq r) (ar_ts r) (ar_event r) (ar_prev r) (ar_fields r)"

definition checked_of :: "audit_record \<Rightarrow> checked" where
  "checked_of r = \<lparr>ck_hash = ar_hash r, ck_ts = ar_ts r, ck_event = ar_event r, ck_fields = ar_fields r\<rparr>"

lemma made_hash: "sha_format (ae_sha env) \<Longrightarrow> made_record env r \<Longrightarrow> HEX_64 (ar_hash r)"
  by (simp add: made_record_def hashRecord_def sha_format_def)

lemma check_made:
  assumes "sha_format (ae_sha env)" "good_record env r" "made_record env r"
  shows "checkLine env (record_line env r) (ar_seq r) (ar_prev r) = Inr (checked_of r)"
  unfolding record_line_def checked_of_def
  by (rule checkLine_written)
    (use assms made_hash [OF assms(1,3)] in \<open>simp_all add: good_record_def made_record_def record_line_def\<close>)

lemma peek_made:
  assumes "good_record env r"
  shows "peekHead env (record_line env r) = Some (int (ar_seq r), ar_prev r)"
proof -
  have "ae_parse env (record_line env r) = Some (record_js (ar_seq r) (ar_ts r) (ar_event r) (ar_prev r) (ar_hash r) (ar_fields r))"
    using assms by (simp add: good_record_def)
  then show ?thesis by (simp add: peekHead_def record_js_def obj_get_def integer_of_def)
qed

lemma extend_chain:
  assumes sha: "sha_format (ae_sha env)" and r: "good_record env r" "made_record env r" and l: "l = record_line env r"
    and run: "chain_run env (all @ [l]) fresh_core all = Some c0" and start: "core_start env (all @ [l]) l c0 = Some c"
    and pos: "ar_seq r = co_lastSeq c + 1" "ar_prev r = co_prev c"
    and bound: "case co_bound c of None \<Rightarrow> True | Some b \<Rightarrow> ar_event r = RETENTION_EVENT \<and> names_fields (ar_fields r) b"
    and anchor: "core_anchor env (checked_of r) c"
    and push: "push_leaf (ae_sha env) (ar_hash r) (co_frontier c) = Inr f"
  shows "\<exists>c'. chain_run env (all @ [l]) fresh_core (all @ [l]) = Some c' \<and> co_bound c' = None \<and> co_lastSeq c' = ar_seq r
    \<and> co_prev c' = ar_hash r \<and> co_frontier c' = f"
proof -
  have k: "checkLine env l (co_lastSeq c + 1) (co_prev c) = Inr (checked_of r)"
    using check_made [OF sha r] pos l by simp
  let ?c = "\<lparr>co_frontier = f, co_lastSeq = co_lastSeq c + 1, co_prev = ar_hash r, co_started = True, co_bound = None\<rparr>"
  have "core_take env (checked_of r) c = Some ?c"
    using anchor push bound by (auto simp: core_take_def checked_of_def core_names_fields split: option.splits)
  then have "core_step env (all @ [l]) c0 l = Some ?c" using start k by (simp add: core_step_def)
  then have "chain_run env (all @ [l]) fresh_core (all @ [l]) = Some ?c" using run by (simp add: chain_run_append)
  with pos show ?thesis by auto
qed

lemma split_lines_append:
  "snd (split_lines acc bs) = [] \<Longrightarrow>
     split_lines acc (bs @ cs) = (fst (split_lines acc bs) @ fst (split_lines [] cs), snd (split_lines [] cs))"
proof (induction acc bs rule: split_lines.induct)
  case (2 acc b bs)
  then show ?case by (cases "b = 0x0A") auto
qed auto

lemma good_no_newline: "good_record env r \<Longrightarrow> made_record env r \<Longrightarrow> CHR 0x0A \<notin> set (record_line env r)"
  unfolding record_line_def
  by (rule record_no_newline [where N = "insert (Fin (of_nat (ar_seq r))) (numbers_of (ar_fields r))"])
    (auto simp: good_record_def made_record_def clean_fields_def)

lemma append_view:
  assumes "readable (one_read bs False)" "good_record env r" "made_record env r"
  shows "readable (one_read (bs @ line_bytes (record_line env r)) False)"
    "view_lines (ae_decode env) (one_read (bs @ line_bytes (record_line env r)) False)
      = view_lines (ae_decode env) (one_read bs False) @ [record_line env r]"
proof -
  have nl: "0x0A \<notin> set (utf8 (record_line env r))" by (rule utf8_newline [OF good_no_newline [OF assms(2,3)]])
  have one: "split_lines [] (line_bytes (record_line env r)) = ([utf8 (record_line env r)], [])"
    using split_lines_line [OF nl, of "[]" "[]"] by (simp add: line_bytes_def)
  have rest: "snd (split_lines [] bs) = []" using assms(1) by (simp add: readable_def one_read_bytes)
  note s = split_lines_append [OF rest, of "line_bytes (record_line env r)", unfolded one]
  show "readable (one_read (bs @ line_bytes (record_line env r)) False)"
    using assms(1,2) s by (simp add: readable_def one_read_bytes one_read_whole good_record_def)
  show "view_lines (ae_decode env) (one_read (bs @ line_bytes (record_line env r)) False)
      = view_lines (ae_decode env) (one_read bs False) @ [record_line env r]"
    using assms(2) s by (simp add: view_lines_def one_read_bytes good_record_def)
qed

subsection \<open>The log in step with the directory\<close>

definition disk_readable :: "string \<Rightarrow> audit_disk \<Rightarrow> bool" where
  "disk_readable path d \<longleftrightarrow> (\<forall>nm \<in> insert path (set (seg_names d)). readable (view_of d nm))"

definition disk_core :: "audit_env \<Rightarrow> string \<Rightarrow> audit_disk \<Rightarrow> core \<Rightarrow> bool" where
  "disk_core env path d c \<longleftrightarrow> disk_readable path d
     \<and> chain_run env (all_lines env path d) fresh_core (all_lines env path d) = Some c \<and> co_bound c = None"

definition in_step :: "audit_env \<Rightarrow> audit_log \<Rightarrow> core \<Rightarrow> bool" where
  "in_step env L c \<longleftrightarrow> lg_seq L = co_lastSeq c \<and> lg_prev L = co_prev c \<and> lg_frontier L = co_frontier c
     \<and> lg_activeFirst L + length (file_lines env (lg_disk L) (lg_path L)) = lg_seq L + 1"

definition synced :: "audit_env \<Rightarrow> audit_log \<Rightarrow> bool" where
  "synced env L \<longleftrightarrow> (\<exists>c. disk_core env (lg_path L) (lg_disk L) c \<and> in_step env L c)"

text \<open>A segment's name does not start after the last record of the segments.\<close>

definition well_named :: "audit_env \<Rightarrow> audit_disk \<Rightarrow> bool" where
  "well_named env d \<longleftrightarrow> (\<forall>all c nm a b. chain_run env all fresh_core (seg_lines env d) = Some c \<longrightarrow> nm \<in> set (seg_names d)
     \<longrightarrow> sealed_range nm = Some (a, b) \<longrightarrow> a \<le> co_lastSeq c)"

definition disk_ok :: "audit_env \<Rightarrow> audit_disk \<Rightarrow> bool" where
  "disk_ok env d \<longleftrightarrow> dk_lookups d = [] \<and> jm_wf (dk_files d) \<and> well_named env d"

lemma same_files_facts:
  assumes "same_files d d'"
  shows "sealed_part d' = sealed_part d" "bytes_of nm d' = bytes_of nm d" "disk_ok env d' = disk_ok env d"
    "file_lines env d' nm = file_lines env d nm" "all_lines env path d' = all_lines env path d"
    "disk_readable path d' = disk_readable path d" "disk_core env path d' c = disk_core env path d c"
proof -
  have f: "dk_files d' = dk_files d" "dk_lookups d' = dk_lookups d" using assms by (simp_all add: same_files_def)
  show p: "sealed_part d' = sealed_part d" using f by (simp add: sealed_part_def)
  show b: "bytes_of nm d' = bytes_of nm d" for nm using f by (simp add: bytes_of_def)
  have v: "view_of d' nm = view_of d nm" for nm using b by (simp add: view_of_def)
  show l: "file_lines env d' nm = file_lines env d nm" for nm using v by (simp add: file_lines_def)
  note s = seg_lines_same(1,2) [OF p]
  show "disk_ok env d' = disk_ok env d" using f s by (simp add: disk_ok_def well_named_def)
  show a: "all_lines env path d' = all_lines env path d" using s l by (simp add: all_lines_def)
  show r: "disk_readable path d' = disk_readable path d" using s v by (simp add: disk_readable_def)
  show "disk_core env path d' c = disk_core env path d c" using a r by (simp add: disk_core_def)
qed

lemma view_missing: "jm_get (dk_files d) nm = None \<Longrightarrow> readable (view_of d nm)"
  by (simp add: view_of_def bytes_of_def one_read_def readable_def view_whole_def view_bytes_one)

lemma readable_files: "list_all (readable \<circ> snd) (disk_files path d) \<longleftrightarrow> disk_readable path d"
proof -
  have "list_all (readable \<circ> snd) (disk_files path d) \<longleftrightarrow> (\<forall>nm \<in> set (disk_names path d). readable (view_of d nm))"
    by (simp add: list_all_iff disk_files_def)
  then show ?thesis using view_missing [of d path] by (cases "jm_get (dk_files d) path") (auto simp: disk_names_def disk_readable_def)
qed

text \<open>In step, the directory verifies, and ends in the log's head.\<close>

lemma synced_verifies:
  assumes "synced env L"
  shows "\<exists>n. verifyAuditFile env (lg_path L) (disk_files (lg_path L) (lg_disk L)) = Verified n (lg_prev L)"
    "cs_lastSeq (scanChain env (lg_path L) (disk_files (lg_path L) (lg_disk L)) []) = lg_seq L"
proof -
  from assms obtain c where c: "disk_core env (lg_path L) (lg_disk L) c" "in_step env L c" by (auto simp: synced_def)
  have r: "list_all (readable \<circ> snd) (disk_files (lg_path L) (lg_disk L))" using c(1) by (simp only: readable_files disk_core_def)
  have run: "chain_run env (chain_lines env (disk_files (lg_path L) (lg_disk L))) fresh_core (chain_lines env (disk_files (lg_path L) (lg_disk L))) = Some c"
    "co_bound c = None" using c(1) by (simp_all add: disk_core_def disk_chain_lines)
  note v = run_verifies [OF r run, of "lg_path L"]
  show "\<exists>n. verifyAuditFile env (lg_path L) (disk_files (lg_path L) (lg_disk L)) = Verified n (lg_prev L)"
    using v(1) c(2) by (simp add: verifyAuditFile_def in_step_def)
  show "cs_lastSeq (scanChain env (lg_path L) (disk_files (lg_path L) (lg_disk L)) []) = lg_seq L"
    using v(2) c(2) by (simp add: in_step_def)
qed

subsection \<open>Adopting what is on disk\<close>

lemma active_first:
  assumes t: "through env views carried path (segs @ act) fresh_scan = Some st'" and p: "path \<notin> fst ` set segs"
    and act: "act = [] \<or> (\<exists>v. act = [(path, v)])"
  shows "cs_activeFirst (finish path st' V br) + length (chain_lines env act) = sg_lastSeq st' + 1"
proof -
  from t obtain st1 where st1: "through env views carried path segs fresh_scan = Some st1" "through env views carried path act st1 = Some st'"
    by (auto simp: through_append bind_eq_Some_conv)
  from through_paths [OF st1(1)] p have "path \<notin> sf_path ` set (sg_files st1)" by (auto simp: fresh_scan_halt)
  then have none: "find (\<lambda>f. sf_path f = path) (sg_files st1) = None" by (auto simp: find_None_iff)
  have app: "find P (xs @ ys) = (case find P xs of None \<Rightarrow> find P ys | Some x \<Rightarrow> Some x)" for P :: "scanned_file \<Rightarrow> bool" and xs ys
    by (induction xs) auto
  show ?thesis
  proof (cases "act = []")
    case True
    with st1(2) none show ?thesis by (simp add: finish_def chain_lines_def)
  next
    case False
    with act obtain v where v: "act = [(path, v)]" by blast
    with st1(2) have s: "scanFile env views carried path path v st1 = (st', StepOk)" by (auto split: prod.splits scan_step.splits)
    from scanFile_fields(3) [OF s] obtain F where F: "sg_files st' = sg_files st1 @ (if view_lines (ae_decode env) v = [] then [] else [F])"
      "sf_path F = path" "sf_firstSeq F + length (view_lines (ae_decode env) v) = sg_lastSeq st' + 1" by blast
    then show ?thesis using none v by (simp add: finish_def chain_lines_def app)
  qed
qed

lemma resolve_uncarried: "resolvePrunedPrefix env seq prev views [] = Seeded f t cu \<Longrightarrow> cu = None"
  by (auto simp: resolvePrunedPrefix_def Let_def split: option.splits prod.splits if_splits)

lemma verified_core:
  assumes v: "cs_verification (scanChain env path files []) = Verified n h" and p: "path \<notin> fst ` set segs" and files: "files = segs @ act"
    and act: "act = [] \<or> (\<exists>v. act = [(path, v)])"
  shows "list_all (readable \<circ> snd) files" "\<exists>c. chain_run env (chain_lines env files) fresh_core (chain_lines env files) = Some c \<and> co_bound c = None
    \<and> cs_lastSeq (scanChain env path files []) = co_lastSeq c \<and> cs_lastHash (scanChain env path files []) = co_prev c
    \<and> cs_frontier (scanChain env path files []) = co_frontier c
    \<and> cs_activeFirst (scanChain env path files []) + length (chain_lines env act) = co_lastSeq c + 1"
proof -
  from v obtain st' where st': "through env (map snd files) [] path files fresh_scan = Some st'" "sg_boundary st' = None"
    unfolding scanChain_def scan_files_through [OF fresh_scan_halt(1)] by blast
  show r: "list_all (readable \<circ> snd) files" by (rule through_readable [OF st'(1)])
  then have views: "list_all readable (map snd files)" by (simp add: list_all_iff)
  have all: "chain_lines env files = concat (map (view_lines (ae_decode env)) (map snd files))" by (simp add: chain_lines_def comp_def)
  have res: "resolves env (map snd files) [] (chain_lines env files) l" for l
    unfolding resolves_def using resolve_on_disk [OF views] resolve_uncarried all by metis
  from through_tracks [OF tracks_fresh st'(1) res views] obtain c
    where c: "chain_run env (chain_lines env files) fresh_core (chain_lines env files) = Some c" "tracks st' c" by blast
  from through_back [OF views all tracks_fresh fresh_scan_halt(3) c(1) r, of path] st'(1) have cu: "sg_carriedUsed st' = None" by fastforce
  have bound: "co_bound c = None" using c(2) cu st'(2) by (simp add: tracks_def bounds_match_def)
  have sc: "scanChain env path files [] = finish path st' (Verified (sg_count st') (sg_prev st')) path"
    unfolding scanChain_def by (rule scan_files_finish [OF st'(1) fresh_scan_halt(1) st'(2)])
  have af: "cs_activeFirst (scanChain env path files []) + length (chain_lines env act) = sg_lastSeq st' + 1"
    unfolding sc by (rule active_first [OF st'(1) [unfolded files] p act])
  show "\<exists>c. chain_run env (chain_lines env files) fresh_core (chain_lines env files) = Some c \<and> co_bound c = None
    \<and> cs_lastSeq (scanChain env path files []) = co_lastSeq c \<and> cs_lastHash (scanChain env path files []) = co_prev c
    \<and> cs_frontier (scanChain env path files []) = co_frontier c
    \<and> cs_activeFirst (scanChain env path files []) + length (chain_lines env act) = co_lastSeq c + 1"
    using c bound af sc by (intro exI [of _ c]) (simp add: finish_def tracks_def)
qed

lemma adopt_core:
  assumes p: "sealed_range path = None" and v: "cs_verification (scanChain env path (disk_files path d) []) = Verified n h"
  shows "\<exists>c. disk_core env path d c \<and> cs_lastSeq (scanChain env path (disk_files path d) []) = co_lastSeq c
    \<and> cs_lastHash (scanChain env path (disk_files path d) []) = co_prev c
    \<and> cs_frontier (scanChain env path (disk_files path d) []) = co_frontier c
    \<and> cs_activeFirst (scanChain env path (disk_files path d) []) + length (file_lines env d path) = co_lastSeq c + 1"
proof -
  let ?act = "map (\<lambda>nm. (nm, view_of d nm)) (if jm_get (dk_files d) path \<noteq> None then [path] else [])"
  have files: "disk_files path d = seg_files d @ ?act" by (simp add: disk_files_def disk_names_def seg_files_def)
  have act: "?act = [] \<or> (\<exists>v. ?act = [(path, v)])" by simp
  have "path \<notin> fst ` set (seg_files d)" using p seg_names_sealed [of path d] by (auto simp: seg_files_def)
  note c = verified_core [OF v this files act]
  have lines: "chain_lines env ?act = file_lines env d path"
    using file_lines_missing [of d path env] by (auto simp: chain_lines_def file_lines_def)
  have "disk_readable path d" using c(1) readable_files by blast
  with c(2) show ?thesis unfolding disk_chain_lines lines disk_core_def by blast
qed

lemma adopt_synced:
  assumes p: "sealed_range (lg_path L) = None" and d: "dk_lookups (lg_disk L) = []"
    and s: "scanDisk env (lg_path L) False [] (lg_disk L) = (sc, d')" and v: "cs_verification sc = Verified n h"
    and L': "lg_path L' = lg_path L" "same_files (lg_disk L) (lg_disk L')"
  shows "synced env (adopt (resume_of sc) L')"
proof -
  note clean = scanDisk_clean [OF d s]
  have sc: "sc = scanChain env (lg_path L) (disk_files (lg_path L) (lg_disk L)) []" using clean(2) [OF v] by simp
  from adopt_core [OF p v [unfolded sc]] obtain c where c: "disk_core env (lg_path L) (lg_disk L) c"
    "cs_lastSeq sc = co_lastSeq c" "cs_lastHash sc = co_prev c" "cs_frontier sc = co_frontier c"
    "cs_activeFirst sc + length (file_lines env (lg_disk L) (lg_path L)) = co_lastSeq c + 1" unfolding sc by blast
  have "disk_core env (lg_path L') (lg_disk L') c" using c(1) same_files_facts(7) [OF L'(2)] L'(1) by simp
  moreover have "in_step env (adopt (resume_of sc) L') c"
    using c same_files_facts(4) [OF L'(2)] L'(1) by (simp add: in_step_def adopt_def resume_of_def)
  ultimately show ?thesis by (auto simp: synced_def adopt_def)
qed

end
