(* ===== verification/Audit_Writes.thy ===== *)
theory Audit_Writes
  imports Audit_Durable
begin

text \<open>
  The writes of the log one by one: appending with its roll-back, sealing, and \<^verbatim>\<open>writeRecord\<close>. From a state in step
  with the directory each ends in one, or leaves \<^verbatim>\<open>expected\<close> undefined.
\<close>

subsection \<open>Changes of the active file\<close>

definition grown :: "string \<Rightarrow> nat list \<Rightarrow> audit_disk \<Rightarrow> audit_disk \<Rightarrow> bool" where
  "grown path p d d' \<longleftrightarrow> sealed_part d' = sealed_part d \<and> dk_lookups d' = dk_lookups d
     \<and> (jm_wf (dk_files d) \<longrightarrow> jm_wf (dk_files d')) \<and> bytes_of path d' = bytes_of path d @ p"

lemma grown_refl [simp]: "grown path [] d d"
  by (simp add: grown_def)

lemma grown_trans: "grown path p d d' \<Longrightarrow> grown path q d' d'' \<Longrightarrow> grown path (p @ q) d d''"
  by (simp add: grown_def)

lemma grown_same: "same_files d d' \<Longrightarrow> grown path [] d d'"
proof -
  assume s: "same_files d d'"
  show "grown path [] d d'" unfolding grown_def same_files_facts(1) [OF s] same_files_facts(2) [OF s]
    using s by (simp add: same_files_def)
qed

lemma set_bytes_facts:
  assumes "sealed_range path = None" "jm_get (dk_files d) path \<noteq> None"
  shows "sealed_part (set_bytes path bs d) = sealed_part d" "dk_lookups (set_bytes path bs d) = dk_lookups d"
    "jm_wf (dk_files d) \<Longrightarrow> jm_wf (dk_files (set_bytes path bs d))" "bytes_of path (set_bytes path bs d) = bs"
    "jm_get (dk_files (set_bytes path bs d)) path \<noteq> None"
  using assms sealed_part_set [OF assms(1)] by (auto simp: set_bytes_def bytes_of_def distinct_update update_conv)

lemma open_append_grown:
  assumes p: "sealed_range path = None" and o: "open_append path d = (ok, d')"
  shows "grown path [] d d'" "ok \<Longrightarrow> jm_get (dk_files d') path \<noteq> None"
proof -
  obtain f d1 where f: "next_fault d = (f, d1)" by fastforce
  note s = next_fault_same [OF f]
  let ?f = "\<lparr>fl_bytes = [], fl_mtime = dk_clock d1, fl_ino = dk_ino d1\<rparr>"
  let ?d = "d1\<lparr>dk_files := jm_set path ?f (dk_files d1), dk_ino := dk_ino d1 + 1\<rparr>"
  have sp: "sealed_part ?d = sealed_part (d1\<lparr>dk_files := jm_set path ?f (dk_files d1)\<rparr>)" by (simp add: sealed_part_def)
  have new: "jm_get (dk_files d1) path = None \<Longrightarrow> grown path [] d1 ?d"
    unfolding grown_def sp sealed_part_set [OF p] by (simp add: bytes_of_def update_conv distinct_update)
  have "grown path [] d d1" using s by (rule grown_same)
  with new o f show "grown path [] d d'"
    by (cases f; cases "jm_get (dk_files d1) path") (auto simp: open_append_def dest: grown_trans)
  show "ok \<Longrightarrow> jm_get (dk_files d') path \<noteq> None" using o f
    by (cases f; cases "jm_get (dk_files d1) path") (auto simp: open_append_def update_conv)
qed

lemma writeAll_grown:
  assumes p: "sealed_range path = None" and e: "jm_get (dk_files d) path \<noteq> None" and w: "writeAll path data d = (ok, d')"
  shows "\<exists>q. grown path q d d' \<and> (ok \<longrightarrow> q = data)"
proof -
  obtain f d1 where f: "next_fault d = (f, d1)" by fastforce
  note s = next_fault_same [OF f]
  have e1: "jm_get (dk_files d1) path \<noteq> None" using e s by (simp add: same_files_def)
  have set: "grown path q d1 (set_bytes path (bytes_of path d1 @ q) d1)" for q
    using set_bytes_facts [OF p e1] by (simp add: grown_def)
  have g: "grown path [] d d1" using s by (rule grown_same)
  show ?thesis
  proof (cases f)
    case Fine
    with w f have "ok" "d' = set_bytes path (bytes_of path d1 @ data) d1" by (simp_all add: writeAll_def)
    with grown_trans [OF g set [of data]] show ?thesis by auto
  next
    case Fails
    with w f g show ?thesis by (auto simp: writeAll_def)
  next
    case (Short n)
    with w f have "\<not> ok" "d' = set_bytes path (bytes_of path d1 @ take n data) d1" by (simp_all add: writeAll_def)
    with grown_trans [OF g set [of "take n data"]] show ?thesis by auto
  qed
qed

lemma plain_call_same: "plain_call d = (ok, d') \<Longrightarrow> same_files d d'"
  using next_fault_same by (auto simp: plain_call_def split: prod.splits)

lemma append_data_grown:
  assumes p: "sealed_range path = None" and a: "append_data path data created d = (ok, d')"
  shows "\<exists>q. grown path q d d' \<and> (ok \<longrightarrow> q = data)"
proof -
  obtain ok1 d1 where o: "open_append path d = (ok1, d1)" by fastforce
  note g1 = open_append_grown [OF p o]
  show ?thesis
  proof (cases ok1)
    case False
    with a o g1(1) show ?thesis by (auto simp: append_data_def)
  next
    case True
    obtain ok2 d2 where w: "writeAll path data d1 = (ok2, d2)" by fastforce
    from writeAll_grown [OF p g1(2) [OF True] w] obtain q where q: "grown path q d1 d2" "ok2 \<longrightarrow> q = data" by blast
    have g2: "grown path q d d2" using grown_trans [OF g1(1) q(1)] by simp
    show ?thesis
    proof (cases ok2)
      case False
      with a o True w g2 show ?thesis by (auto simp: append_data_def)
    next
      case ok2: True
      obtain ok3 d3 where s: "plain_call d2 = (ok3, d3)" by fastforce
      have g3: "grown path q d d3" using grown_trans [OF g2 grown_same [OF plain_call_same [OF s]]] by simp
      obtain ok4 d4 where s4: "plain_call d3 = (ok4, d4)" by fastforce
      have g4: "grown path q d d4" using grown_trans [OF g3 grown_same [OF plain_call_same [OF s4]]] by simp
      show ?thesis using a o True w ok2 s s4 g3 g4 q(2)
        by (cases ok3; cases created) (auto simp: append_data_def)
    qed
  qed
qed

lemma truncate_facts:
  assumes p: "sealed_range path = None" and t: "truncate_call path n d = (ok, d')"
  shows "sealed_part d' = sealed_part d" "dk_lookups d' = dk_lookups d" "jm_wf (dk_files d) \<Longrightarrow> jm_wf (dk_files d')"
    "ok \<Longrightarrow> bytes_of path d' = take n (bytes_of path d) @ replicate (n - length (bytes_of path d)) 0"
proof -
  obtain f d1 where f: "next_fault d = (f, d1)" by fastforce
  note s = next_fault_same [OF f]
  have eq: "dk_files d1 = dk_files d" "dk_lookups d1 = dk_lookups d" "sealed_part d1 = sealed_part d"
    using s same_files_facts(1) [OF s] by (simp_all add: same_files_def)
  consider "d' = d1" "\<not> ok" | fl where "jm_get (dk_files d1) path = Some fl" "ok"
    "d' = set_bytes path (take n (fl_bytes fl) @ replicate (n - length (fl_bytes fl)) 0) d1"
    using t f by (cases f; cases "jm_get (dk_files d1) path") (auto simp: truncate_call_def)
  then have "sealed_part d' = sealed_part d \<and> dk_lookups d' = dk_lookups d \<and> (jm_wf (dk_files d) \<longrightarrow> jm_wf (dk_files d'))
    \<and> (ok \<longrightarrow> bytes_of path d' = take n (bytes_of path d) @ replicate (n - length (bytes_of path d)) 0)"
  proof cases
    case 1
    with eq show ?thesis by simp
  next
    case (2 fl)
    have ex: "jm_get (dk_files d1) path \<noteq> None" using 2(1) by simp
    have b: "bytes_of path d = fl_bytes fl" using 2(1) eq(1) by (simp add: bytes_of_def)
    show ?thesis unfolding 2(3) b set_bytes_facts(1,2,4) [OF p ex] eq using set_bytes_facts(3) [OF p ex] eq(1) by simp
  qed
  then show "sealed_part d' = sealed_part d" "dk_lookups d' = dk_lookups d" "jm_wf (dk_files d) \<Longrightarrow> jm_wf (dk_files d')"
    "ok \<Longrightarrow> bytes_of path d' = take n (bytes_of path d) @ replicate (n - length (bytes_of path d)) 0"
    by blast+
qed

lemma rename_facts:
  assumes r: "rename_call a b d = (ok, d')"
  shows "dk_lookups d' = dk_lookups d" "jm_wf (dk_files d) \<Longrightarrow> jm_wf (dk_files d')"
    "\<not> ok \<Longrightarrow> same_files d d'" "ok \<Longrightarrow> \<exists>f. jm_get (dk_files d) a = Some f \<and> dk_files d' = jm_set b f (jm_delete a (dk_files d))"
proof -
  obtain f d1 where f: "next_fault d = (f, d1)" by fastforce
  note s = next_fault_same [OF f]
  have eq: "dk_files d1 = dk_files d" "dk_lookups d1 = dk_lookups d" using s by (simp_all add: same_files_def)
  show "dk_lookups d' = dk_lookups d" "jm_wf (dk_files d) \<Longrightarrow> jm_wf (dk_files d')" "\<not> ok \<Longrightarrow> same_files d d'"
    "ok \<Longrightarrow> \<exists>f. jm_get (dk_files d) a = Some f \<and> dk_files d' = jm_set b f (jm_delete a (dk_files d))"
    using r f s eq by (cases f; cases "jm_get (dk_files d1) a"; auto simp: rename_call_def distinct_update distinct_delete)+
qed

subsection \<open>What such a change means for the chain\<close>

lemma well_named_same: "sealed_part d' = sealed_part d \<Longrightarrow> well_named env d' = well_named env d"
proof -
  assume s: "sealed_part d' = sealed_part d"
  show ?thesis unfolding well_named_def seg_lines_same(1) [OF s] seg_lines_same(2) [OF s] ..
qed

lemma core_same:
  assumes "sealed_part d' = sealed_part d" "bytes_of path d' = bytes_of path d"
  shows "disk_core env path d' c = disk_core env path d c" "file_lines env d' path = file_lines env d path"
proof -
  have v: "view_of d' path = view_of d path" using assms(2) by (simp add: view_of_def)
  then show l: "file_lines env d' path = file_lines env d path" by (simp add: file_lines_def)
  note s = seg_lines_same [OF assms(1)]
  have "disk_readable path d' = disk_readable path d" using s v by (simp add: disk_readable_def)
  moreover have "all_lines env path d' = all_lines env path d" using s l by (simp add: all_lines_def)
  ultimately show "disk_core env path d' c = disk_core env path d c" by (simp add: disk_core_def)
qed

lemma grown_line:
  assumes g: "grown path (line_bytes (record_line env r)) d d'" and c: "disk_readable path d" and r: "good_record env r" "made_record env r"
  shows "disk_readable path d'" "file_lines env d' path = file_lines env d path @ [record_line env r]"
    "all_lines env path d' = all_lines env path d @ [record_line env r]"
proof -
  have s: "sealed_part d' = sealed_part d" "bytes_of path d' = bytes_of path d @ line_bytes (record_line env r)"
    using g by (simp_all add: grown_def)
  have rd: "readable (one_read (bytes_of path d) False)" using c by (simp add: disk_readable_def view_of_def)
  note a = append_view [OF rd r]
  have v: "view_of d' path = one_read (bytes_of path d @ line_bytes (record_line env r)) False" using s by (simp add: view_of_def)
  show "disk_readable path d'" using c a(1) v seg_lines_same [OF s(1)] by (simp add: disk_readable_def)
  show f: "file_lines env d' path = file_lines env d path @ [record_line env r]"
    using a(2) v by (simp add: file_lines_def view_of_def)
  show "all_lines env path d' = all_lines env path d @ [record_line env r]"
    using f seg_lines_same(2) [OF s(1)] by (simp add: all_lines_def)
qed

subsection \<open>Sealing\<close>

lemma dec_head: "1 \<le> n \<Longrightarrow> hd (dec n) \<noteq> CHR ''0''"
proof (induction n rule: dec.induct)
  case (1 n)
  show ?case
  proof (cases "n < 10")
    case True
    have "hd (dec n) = digit n" using True by (subst dec.simps) simp
    moreover have "digit n \<noteq> digit 0"
    proof
      assume "digit n = digit 0"
      then have "digit_value (digit n) = digit_value (digit 0)" by simp
      with digit_facts [OF True] digit_facts [of 0] 1(2) show False by simp
    qed
    moreover have "digit 0 = CHR ''0''" by code_simp
    ultimately show ?thesis by simp
  next
    case False
    then have "dec n = dec (n div 10) @ [digit (n mod 10)]" by (subst dec.simps) simp
    moreover have "1 \<le> n div 10" using False by (simp add: Suc_le_eq div_greater_zero_iff)
    ultimately show ?thesis using 1(1) [OF False] dec_nonempty by simp
  qed
qed

lemma digits_split: "\<not> is_digit c \<Longrightarrow> takeWhile is_digit (dec n @ c # r) = dec n \<and> dropWhile is_digit (dec n @ c # r) = c # r"
  using dec_digits [of n] by (simp add: takeWhile_append dropWhile_append)

lemma sealed_range_name:
  assumes "1 \<le> a" "a \<le> b" "b \<le> 9007199254740991"
  shows "sealed_range (sealedName a b) = Some (a, b)"
proof -
  have nd: "\<not> is_digit (CHR ''-'')" "\<not> is_digit (CHR ''.'')" by (simp_all add: is_digit_def)
  have a: "takeWhile is_digit (dec a @ CHR ''-'' # r) = dec a" "dropWhile is_digit (dec a @ CHR ''-'' # r) = CHR ''-'' # r" for r
    using digits_split [OF nd(1)] by blast+
  have b: "takeWhile is_digit (dec b @ ''.jsonl'') = dec b" "dropWhile is_digit (dec b @ ''.jsonl'') = ''.jsonl''"
    using digits_split [OF nd(2)] by auto
  have n: "numeral (dec a)" "numeral (dec b)" using dec_head [of a] dec_head [of b] dec_nonempty assms by (simp_all add: numeral_def)
  have s: "sealedName a b = ''audit-'' @ dec a @ CHR ''-'' # dec b @ ''.jsonl''" by (simp add: sealedName_def)
  show ?thesis using assms n unfolding sealed_range_def s by (simp add: a b nd dec_value_dec Let_def sealedName_def)
qed

lemma sealed_range_facts:
  assumes "sealed_range nm = Some (a, b)"
  shows "nm = sealedName a b" "1 \<le> a" "a \<le> b" "b \<le> 9007199254740991"
proof -
  let ?A = "takeWhile is_digit (drop 6 nm)"
  from assms have eq: "nm = sealedName a b" "a = dec_value ?A" "numeral ?A" "a \<le> b" "b \<le> 9007199254740991"
    by (auto simp: sealed_range_def Let_def split: if_splits)
  then show "nm = sealedName a b" "a \<le> b" "b \<le> 9007199254740991" by simp_all
  have nd: "\<not> is_digit (CHR ''-'')" by (simp add: is_digit_def)
  have "drop 6 nm = dec a @ CHR ''-'' # dec b @ ''.jsonl''" unfolding eq(1) sealedName_def by simp
  then have "?A = dec a" using digits_split [OF nd, of a "dec b @ ''.jsonl''"] by simp
  then have "hd (dec a) \<noteq> CHR ''0''" using eq(3) by (simp add: numeral_def)
  moreover have "dec 0 = ''0''" by code_simp
  ultimately show "1 \<le> a" by (cases a) auto
qed

lemma sort_key_last:
  assumes "\<forall>y \<in> set xs. f y \<le> f x"
  shows "sort_key f (xs @ [x]) = sort_key f xs @ [x]"
proof -
  have ins: "f y \<le> f x \<Longrightarrow> insort_key f y (zs @ [x]) = insort_key f y zs @ [x]" for y zs by (induction zs) auto
  show ?thesis using assms by (induction xs) (simp_all add: ins)
qed

lemma chain_run_started: "chain_run env all c ls = Some c' \<Longrightarrow> co_started c \<Longrightarrow> co_lastSeq c' = co_lastSeq c + length ls"
proof (induction ls arbitrary: c)
  case (Cons l ls)
  then obtain c1 where c1: "core_step env all c l = Some c1" "chain_run env all c1 ls = Some c'" by (auto simp: bind_eq_Some_conv)
  with Cons.IH [OF c1(2) core_step_fields(1) [OF c1(1)]] core_step_fields(4) [OF c1(1)] Cons.prems(2) show ?case by simp
qed simp

lemma lines_of_bytes: "readable (one_read bs False) \<Longrightarrow> bs \<noteq> [] \<Longrightarrow> view_lines decode (one_read bs False) \<noteq> []"
proof -
  have "fst (split_lines acc xs) = [] \<Longrightarrow> snd (split_lines acc xs) = acc @ xs" for acc xs
    by (induction acc xs rule: split_lines.induct) (auto split: if_splits)
  from this [of "[]" bs] show "readable (one_read bs False) \<Longrightarrow> bs \<noteq> [] \<Longrightarrow> view_lines decode (one_read bs False) \<noteq> []"
    by (auto simp: readable_def one_read_bytes view_lines_def)
qed

text \<open>The active file of a chain in step, renamed to its range, is the last segment.\<close>

lemma sealed_chain:
  assumes p: "sealed_range path = None" and ok: "disk_ok env d" and c: "disk_core env path d c" and ne: "bytes_of path d \<noteq> []"
    and af: "first + length (file_lines env d path) = co_lastSeq c + 1" and big: "co_lastSeq c \<le> 9007199254740991"
    and free: "jm_get (dk_files d) (sealedName first (co_lastSeq c)) = None"
    and f: "jm_get (dk_files d) path = Some f"
    and d': "dk_files d' = jm_set (sealedName first (co_lastSeq c)) f (jm_delete path (dk_files d))" "dk_lookups d' = []"
  shows "disk_ok env d'" "disk_core env path d' c" "bytes_of path d' = []" "jm_get (dk_files d') path = None" "file_lines env d' path = []"
    "all_lines env path d' = all_lines env path d"
proof -
  let ?t = "sealedName first (co_lastSeq c)"
  let ?act = "file_lines env d path"
  from c have rd: "disk_readable path d" and run: "chain_run env (all_lines env path d) fresh_core (all_lines env path d) = Some c"
    and bd: "co_bound c = None" by (simp_all add: disk_core_def)
  have act: "?act \<noteq> []" using lines_of_bytes [OF _ ne] rd by (simp add: disk_readable_def view_of_def file_lines_def)
  have len: "length (all_lines env path d) \<le> co_lastSeq c" by (rule run_from_start(1) [OF run])
  then have "length ?act \<le> co_lastSeq c" by (simp add: all_lines_def)
  with af act have first: "1 \<le> first" "first \<le> co_lastSeq c" by (cases ?act; simp)+
  have rt: "sealed_range ?t = Some (first, co_lastSeq c)" by (rule sealed_range_name [OF first big])
  have tp: "?t \<noteq> path" using rt p by auto
  have free': "?t \<notin> set (map fst (jm_delete path (dk_files d)))" using free by (auto simp: map_of_eq_None_iff AList.delete_eq)
  have files: "dk_files d' = jm_delete path (dk_files d) @ [(?t, f)]" unfolding d'(1) by (rule fields_update_new [OF free'])
  have sp: "sealed_part d' = sealed_part d @ [(?t, f)]"
    using sealed_part_delete [OF p, of d] rt by (simp add: sealed_part_def files)
  obtain c1 where c1: "chain_run env (all_lines env path d) fresh_core (seg_lines env d) = Some c1"
    "chain_run env (all_lines env path d) c1 ?act = Some c"
    using run by (auto simp: all_lines_def chain_run_append bind_eq_Some_conv)
  have old: "a < first" if nm: "nm \<in> set (seg_names d)" "sealed_range nm = Some (a, b)" for nm a b
  proof -
    have le: "a \<le> co_lastSeq c1" using ok nm c1(1) unfolding disk_ok_def well_named_def by blast
    have "1 \<le> a" by (rule sealed_range_facts(2) [OF nm(2)])
    with le have "co_started c1" using run_from_start(3,4) [OF c1(1)] by (cases "seg_lines env d = []") auto
    from chain_run_started [OF c1(2) this] af le show ?thesis by simp
  qed
  have "\<forall>y \<in> set (map (\<lambda>e. (fst e, the (sealed_range (fst e)))) (sealed_part d)). (fst \<circ> snd) y \<le> (fst \<circ> snd) (?t, (first, co_lastSeq c))"
  proof
    fix y
    assume "y \<in> set (map (\<lambda>e. (fst e, the (sealed_range (fst e)))) (sealed_part d))"
    then obtain e where e: "e \<in> set (sealed_part d)" "y = (fst e, the (sealed_range (fst e)))" by auto
    then have "fst e \<in> set (seg_names d)" by (force simp: seg_names_def)
    moreover obtain a b where "sealed_range (fst e) = Some (a, b)" using e(1) by (auto simp: sealed_part_def)
    ultimately show "(fst \<circ> snd) y \<le> (fst \<circ> snd) (?t, (first, co_lastSeq c))" using old e(2) by fastforce
  qed
  note snoc = sort_key_last [OF this]
  have parts: "map (\<lambda>e. (fst e, the (sealed_range (fst e)))) (sealed_part d') =
    map (\<lambda>e. (fst e, the (sealed_range (fst e)))) (sealed_part d) @ [(?t, (first, co_lastSeq c))]" by (simp add: sp rt)
  have names: "seg_names d' = seg_names d @ [?t]" unfolding seg_names_def parts snoc by simp
  have get: "jm_get (dk_files d') nm = (if nm = ?t then Some f else if nm = path then None else jm_get (dk_files d) nm)" for nm
    unfolding d'(1) by (simp add: update_conv delete_conv)
  show gone: "jm_get (dk_files d') path = None" using get tp by simp
  then show nobytes: "bytes_of path d' = []" by (simp add: bytes_of_def)
  show nolines: "file_lines env d' path = []" using gone by (rule file_lines_missing)
  have vt: "view_of d' ?t = view_of d path" using get f by (simp add: view_of_def bytes_of_def)
  have vs: "view_of d' nm = view_of d nm" if nm: "nm \<in> set (seg_names d)" for nm
  proof -
    have "nm \<in> fst ` set (dk_files d)" "sealed_range nm \<noteq> None" using nm seg_names_sealed by blast+
    then have "nm \<noteq> ?t" "nm \<noteq> path" using free p map_of_eq_None_iff by metis+
    then show ?thesis using get by (simp add: view_of_def bytes_of_def)
  qed
  have "seg_lines env d' = seg_lines env d @ ?act"
    using vs vt by (simp add: seg_lines_def names file_lines_def cong: map_cong)
  then have segs: "seg_lines env d' = all_lines env path d" by (simp add: all_lines_def)
  then show all: "all_lines env path d' = all_lines env path d" using nolines by (simp add: all_lines_def)
  have "disk_readable path d'" using rd vs vt view_missing [OF gone] by (simp add: disk_readable_def names)
  with all run bd show "disk_core env path d' c" by (simp add: disk_core_def)
  have "jm_wf (dk_files d')" using ok unfolding d'(1) by (simp add: disk_ok_def distinct_update distinct_delete)
  moreover have "well_named env d'" unfolding well_named_def segs
  proof (intro allI impI)
    fix al c' nm a b
    assume r: "chain_run env al fresh_core (all_lines env path d) = Some c'" and nm: "nm \<in> set (seg_names d')" "sealed_range nm = Some (a, b)"
    from r obtain c1' where c1': "chain_run env al fresh_core (seg_lines env d) = Some c1'" "chain_run env al c1' ?act = Some c'"
      by (auto simp: all_lines_def chain_run_append bind_eq_Some_conv)
    have last: "co_lastSeq c' = co_lastSeq c" by (rule chain_run_seq [OF r run]) simp_all
    show "a \<le> co_lastSeq c'"
    proof (cases "nm = ?t")
      case True
      with nm(2) rt first(2) last show ?thesis by simp
    next
      case False
      with nm(1) names have "nm \<in> set (seg_names d)" by simp
      with ok nm(2) c1'(1) have "a \<le> co_lastSeq c1'" unfolding disk_ok_def well_named_def by blast
      moreover have "co_lastSeq c1' \<le> co_lastSeq c'"
        using chain_run_fields [OF c1'(2)] run_from_start(3,4) [OF c1'(1)] by (cases "seg_lines env d = []") auto
      ultimately show ?thesis by simp
    qed
  qed
  ultimately show "disk_ok env d'" using d'(2) by (simp add: disk_ok_def)
qed

text \<open>What an operation leaves alone: all but the disk, the outputs and what is known of the file.\<close>

lemma with_disk_eq: "with_disk f L = (fst (f (lg_disk L)), L\<lparr>lg_disk := snd (f (lg_disk L))\<rparr>)"
  by (simp add: with_disk_def split: prod.split)

lemma report_simps [simp]: "lg_path (report m L) = lg_path L" "lg_disk (report m L) = lg_disk L" "lg_seq (report m L) = lg_seq L"
  "lg_prev (report m L) = lg_prev L" "lg_frontier (report m L) = lg_frontier L" "lg_activeFirst (report m L) = lg_activeFirst L"
  "lg_expected (report m L) = lg_expected L" "lg_tried (report m L) = lg_tried L"
  by (simp_all add: report_def)

lemma notify_simps [simp]: "lg_path (notify n L) = lg_path L" "lg_disk (notify n L) = lg_disk L" "lg_seq (notify n L) = lg_seq L"
  "lg_prev (notify n L) = lg_prev L" "lg_frontier (notify n L) = lg_frontier L" "lg_activeFirst (notify n L) = lg_activeFirst L"
  "lg_expected (notify n L) = lg_expected L" "lg_tried (notify n L) = lg_tried L"
  by (simp_all add: notify_def)

definition same_head :: "audit_log \<Rightarrow> audit_log \<Rightarrow> bool" where
  "same_head L L' \<longleftrightarrow> lg_path L' = lg_path L \<and> lg_seq L' = lg_seq L \<and> lg_prev L' = lg_prev L \<and> lg_frontier L' = lg_frontier L
     \<and> lg_tried L' = lg_tried L"

lemma lookup_none: "dk_lookups d = [] \<Longrightarrow> exists_call p d = (jm_get (dk_files d) p \<noteq> None, d)"
  "dk_lookups d = [] \<Longrightarrow> fingerprintOf p d = (map_option identity (jm_get (dk_files d) p), d)"
  "dk_lookups d = [] \<Longrightarrow> sizeOf p d = (map_option (length \<circ> fl_bytes) (jm_get (dk_files d) p), d)"
  by (simp_all add: exists_call_def fingerprintOf_def sizeOf_def next_lookup_def identity_def option.map_comp comp_def)

lemma plain_same: "same_files d (snd (plain_call d))"
  using plain_call_same [of d] by (metis prod.collapse)

lemma seal_cases:
  assumes d: "dk_lookups (lg_disk L) = []" and s: "seal L = (sealed, L')"
  shows "same_head L L'"
    "\<not> sealed \<Longrightarrow> same_files (lg_disk L) (lg_disk L') \<and> lg_activeFirst L' = lg_activeFirst L"
    "sealed \<Longrightarrow> jm_get (dk_files (lg_disk L)) (sealedName (lg_activeFirst L) (lg_seq L)) = None
       \<and> (\<exists>d1. rename_call (lg_path L) (sealedName (lg_activeFirst L) (lg_seq L)) (lg_disk L) = (True, d1)
           \<and> same_files d1 (lg_disk L')) \<and> lg_activeFirst L' = lg_seq L + 1 \<and> lg_expected L' = None"
proof -
  let ?t = "sealedName (lg_activeFirst L) (lg_seq L)"
  obtain ok d1 where r: "rename_call (lg_path L) ?t (lg_disk L) = (ok, d1)" by fastforce
  let ?d2 = "snd (plain_call d1)"
  let ?d3 = "snd (plain_call ?d2)"
  let ?d4 = "snd (plain_call ?d3)"
  let ?d3' = "snd (plain_call ?d2)"
  have s12: "same_files d1 ?d2" and s23: "same_files ?d2 ?d3" and s34: "same_files ?d3 ?d4" by (rule plain_same)+
  have s13: "same_files d1 ?d3" using s12 s23 by (rule same_files_trans)
  have s14: "same_files d1 ?d4" using s13 s34 by (rule same_files_trans)
  have no: "\<not> ok \<Longrightarrow> same_files (lg_disk L) d1" using rename_facts(3) [OF r] by simp
  have "same_head L L' \<and> (\<not> sealed \<longrightarrow> same_files (lg_disk L) (lg_disk L') \<and> lg_activeFirst L' = lg_activeFirst L)
    \<and> (sealed \<longrightarrow> jm_get (dk_files (lg_disk L)) ?t = None \<and> (\<exists>d1. rename_call (lg_path L) ?t (lg_disk L) = (True, d1)
           \<and> same_files d1 (lg_disk L')) \<and> lg_activeFirst L' = lg_seq L + 1 \<and> lg_expected L' = None)"
  proof (cases "jm_get (dk_files (lg_disk L)) ?t = None")
    case False
    with s d show ?thesis by (auto simp: seal_def with_disk_eq lookup_none same_head_def Let_def)
  next
    case free: True
    show ?thesis
    proof (cases ok)
      case False
      with s d free r no show ?thesis by (auto simp: seal_def with_disk_eq lookup_none same_head_def Let_def)
    next
      case True
      with s d free r have "sealed" "same_head L L'" "lg_activeFirst L' = lg_seq L + 1" "lg_expected L' = None"
        "lg_disk L' = (if fst (plain_call d1) then ?d4 else ?d3)"
        by (auto simp: seal_def with_disk_eq lookup_none same_head_def Let_def split: if_splits)
      with free r True s13 s14 show ?thesis by auto
    qed
  qed
  then show "same_head L L'"
    "\<not> sealed \<Longrightarrow> same_files (lg_disk L) (lg_disk L') \<and> lg_activeFirst L' = lg_activeFirst L"
    "sealed \<Longrightarrow> jm_get (dk_files (lg_disk L)) ?t = None
       \<and> (\<exists>d1. rename_call (lg_path L) ?t (lg_disk L) = (True, d1)
           \<and> same_files d1 (lg_disk L')) \<and> lg_activeFirst L' = lg_seq L + 1 \<and> lg_expected L' = None"
    by blast+
qed

lemma same_synced:
  assumes "same_head L L'" "same_files (lg_disk L) (lg_disk L')" "lg_activeFirst L' = lg_activeFirst L"
  shows "synced env L' = synced env L"
  using assms(1,3) unfolding synced_def in_step_def same_head_def same_files_facts(7,4) [OF assms(2)] by auto

lemma seal_synced:
  assumes p: "sealed_range (lg_path L) = None" and ok: "disk_ok env (lg_disk L)" and c: "synced env L" and ne: "bytes_of (lg_path L) (lg_disk L) \<noteq> []"
    and big: "lg_seq L \<le> 9007199254740991" and s: "seal L = (sealed, L')"
  shows "same_head L L'" "disk_ok env (lg_disk L')" "synced env L'"
    "bytes_of (lg_path L) (lg_disk L') = (if sealed then [] else bytes_of (lg_path L) (lg_disk L))"
    "sealed \<Longrightarrow> jm_get (dk_files (lg_disk L')) (lg_path L) = None"
    "all_lines env (lg_path L) (lg_disk L') = all_lines env (lg_path L) (lg_disk L)"
proof -
  have lk: "dk_lookups (lg_disk L) = []" using ok by (simp add: disk_ok_def)
  note cs = seal_cases [OF lk s]
  show h: "same_head L L'" by (rule cs(1))
  from c obtain k where k: "disk_core env (lg_path L) (lg_disk L) k" "in_step env L k" by (auto simp: synced_def)
  have "disk_ok env (lg_disk L') \<and> synced env L' \<and> bytes_of (lg_path L) (lg_disk L') = (if sealed then [] else bytes_of (lg_path L) (lg_disk L))
    \<and> (sealed \<longrightarrow> jm_get (dk_files (lg_disk L')) (lg_path L) = None)
    \<and> all_lines env (lg_path L) (lg_disk L') = all_lines env (lg_path L) (lg_disk L)"
  proof (cases sealed)
    case False
    with cs(2) have f: "same_files (lg_disk L) (lg_disk L')" "lg_activeFirst L' = lg_activeFirst L" by blast+
    show ?thesis using ok c False same_synced [OF h f] same_files_facts(2,3,5) [OF f(1)] by simp
  next
    case True
    with cs(3) obtain d1 where free: "jm_get (dk_files (lg_disk L)) (sealedName (lg_activeFirst L) (lg_seq L)) = None"
      and r: "rename_call (lg_path L) (sealedName (lg_activeFirst L) (lg_seq L)) (lg_disk L) = (True, d1)"
      and d1: "same_files d1 (lg_disk L')" and af: "lg_activeFirst L' = lg_seq L + 1" by blast
    have lk1: "dk_lookups d1 = []" using rename_facts(1) [OF r] lk by simp
    from rename_facts(4) [OF r] obtain f where f: "jm_get (dk_files (lg_disk L)) (lg_path L) = Some f"
      "dk_files d1 = jm_set (sealedName (lg_activeFirst L) (lg_seq L)) f (jm_delete (lg_path L) (dk_files (lg_disk L)))" by blast
    have st: "lg_seq L = co_lastSeq k" "lg_activeFirst L + length (file_lines env (lg_disk L) (lg_path L)) = co_lastSeq k + 1"
      using k(2) by (simp_all add: in_step_def)
    note sc = sealed_chain [OF p ok k(1) ne st(2) big [unfolded st(1)] free [unfolded st(1)] f(1) f(2) [unfolded st(1)] lk1]
    have "in_step env L' k" using k(2) h af sc(5) same_files_facts(4) [OF d1] by (simp add: in_step_def same_head_def)
    moreover have "disk_core env (lg_path L') (lg_disk L') k" using sc(2) same_files_facts(7) [OF d1] h by (simp add: same_head_def)
    ultimately have "synced env L'" by (auto simp: synced_def)
    then show ?thesis using True sc(1,3,4,6) same_files_facts(2,3,5) [OF d1] d1 by (simp add: same_files_def)
  qed
  then show "disk_ok env (lg_disk L')" "synced env L'"
    "bytes_of (lg_path L) (lg_disk L') = (if sealed then [] else bytes_of (lg_path L) (lg_disk L))"
    "sealed \<Longrightarrow> jm_get (dk_files (lg_disk L')) (lg_path L) = None"
    "all_lines env (lg_path L) (lg_disk L') = all_lines env (lg_path L) (lg_disk L)" by blast+
qed

subsection \<open>Appending a record\<close>

text \<open>A record that extends the chain, as its line resolves it: from a log in step, or after a pruned prefix whose boundary it names.\<close>

definition extends :: "audit_env \<Rightarrow> audit_log \<Rightarrow> audit_record \<Rightarrow> bool" where
  "extends env L r \<longleftrightarrow> (let all = all_lines env (lg_path L) (lg_disk L); l = record_line env r in
     disk_readable (lg_path L) (lg_disk L) \<and> (\<exists>c0 c. chain_run env (all @ [l]) fresh_core all = Some c0 \<and> core_start env (all @ [l]) l c0 = Some c
       \<and> ar_seq r = co_lastSeq c + 1 \<and> ar_prev r = co_prev c \<and> co_frontier c = lg_frontier L \<and> co_lastSeq c = lg_seq L
       \<and> (case co_bound c of None \<Rightarrow> True | Some b \<Rightarrow> ar_event r = RETENTION_EVENT \<and> names_fields (ar_fields r) b)
       \<and> core_anchor env (checked_of r) c)
     \<and> hex_frontier (lg_frontier L) \<and> lg_activeFirst L + length (file_lines env (lg_disk L) (lg_path L)) = lg_seq L + 1)"

definition anchor_for :: "audit_env \<Rightarrow> string \<Rightarrow> fields \<Rightarrow> audit_log \<Rightarrow> bool" where
  "anchor_for env event fs L \<longleftrightarrow> event \<noteq> ANCHOR_EVENT \<or> obj_get fs ''through'' = JNum (Fin (of_nat (lg_seq L)))
     \<and> (case frontier_root (ae_sha env) (lg_frontier L) of Inl _ \<Rightarrow> False | Inr rt \<Rightarrow> obj_get fs ''root'' = JStr rt)"

lemma hex_fresh: "hex_frontier (co_frontier fresh_core)"
  by (simp add: hex_frontier_def createFrontier_def)

lemma synced_hex: "sha_format (ae_sha env) \<Longrightarrow> synced env L \<Longrightarrow> hex_frontier (lg_frontier L) \<and> HEX_64 (lg_prev L)"
  unfolding synced_def in_step_def disk_core_def using chain_run_hex [OF _ _ hex_fresh] run_from_start(2) by metis

lemma synced_extends:
  assumes sha: "sha_format (ae_sha env)" and c: "synced env L" and r: "ar_seq r = lg_seq L + 1" "ar_prev r = lg_prev L"
    and g: "good_record env r" and a: "anchor_for env (ar_event r) (ar_fields r) L"
  shows "extends env L r"
proof -
  let ?all = "all_lines env (lg_path L) (lg_disk L)"
  let ?l = "record_line env r"
  from c obtain k where k: "disk_readable (lg_path L) (lg_disk L)" "chain_run env ?all fresh_core ?all = Some k" "co_bound k = None"
    "in_step env L k" by (auto simp: synced_def disk_core_def)
  note st = k(4) [unfolded in_step_def]
  have run: "chain_run env (?all @ [?l]) fresh_core ?all = Some k" using k(2) by (rule chain_run_more)
  have start: "core_start env (?all @ [?l]) ?l k = Some (k\<lparr>co_started := True\<rparr>)"
  proof (cases "?all = []")
    case True
    with run_from_start(3) [OF k(2)] st r have "k = fresh_core" "ar_seq r = 1" by auto
    then show ?thesis using peek_made [OF g] by (simp add: core_start_def)
  next
    case False
    with run_from_start(4) [OF k(2)] show ?thesis by (simp add: core_start_def)
  qed
  have anchor: "core_anchor env (checked_of r) (k\<lparr>co_started := True\<rparr>)"
    using a st by (auto simp: anchor_for_def core_anchor_def checked_of_def split: sum.splits)
  show ?thesis unfolding extends_def Let_def
    using k(1,3) run start anchor st r synced_hex [OF sha c]
    by (intro conjI exI [of _ k] exI [of _ "k\<lparr>co_started := True\<rparr>"]) auto
qed

lemma extends_append:
  assumes sha: "sha_format (ae_sha env)" and e: "extends env L r" and r: "good_record env r" "made_record env r"
    and g: "grown (lg_path L) (line_bytes (record_line env r)) (lg_disk L) (lg_disk L')" and p: "lg_path L' = lg_path L"
    and h: "lg_seq L' = ar_seq r" "lg_prev L' = ar_hash r" "push_leaf (ae_sha env) (ar_hash r) (lg_frontier L) = Inr (lg_frontier L')"
      "lg_activeFirst L' = lg_activeFirst L"
  shows "synced env L'"
proof -
  let ?all = "all_lines env (lg_path L) (lg_disk L)"
  let ?l = "record_line env r"
  from e obtain c0 c where c: "disk_readable (lg_path L) (lg_disk L)" "chain_run env (?all @ [?l]) fresh_core ?all = Some c0"
    "core_start env (?all @ [?l]) ?l c0 = Some c" "ar_seq r = co_lastSeq c + 1" "ar_prev r = co_prev c" "co_frontier c = lg_frontier L"
    "case co_bound c of None \<Rightarrow> True | Some b \<Rightarrow> ar_event r = RETENTION_EVENT \<and> names_fields (ar_fields r) b"
    "core_anchor env (checked_of r) c" "co_lastSeq c = lg_seq L"
    "lg_activeFirst L + length (file_lines env (lg_disk L) (lg_path L)) = lg_seq L + 1"
    unfolding extends_def Let_def by blast
  from extend_chain [OF sha r refl c(2,3,4,5,7,8) h(3) [folded c(6)]] obtain c' where c':
    "chain_run env (?all @ [?l]) fresh_core (?all @ [?l]) = Some c'" "co_bound c' = None" "co_lastSeq c' = ar_seq r"
    "co_prev c' = ar_hash r" "co_frontier c' = lg_frontier L'" by blast
  note gl = grown_line [OF g c(1) r]
  have "disk_core env (lg_path L') (lg_disk L') c'" unfolding disk_core_def p gl(3) using c'(1,2) gl(1) by blast
  moreover have "in_step env L' c'" using c' h gl(2) p c(4,9,10) by (simp add: in_step_def)
  ultimately show ?thesis by (auto simp: synced_def)
qed

lemma refresh_simps [simp]: "lg_path (refreshFingerprint L) = lg_path L" "lg_seq (refreshFingerprint L) = lg_seq L"
  "lg_prev (refreshFingerprint L) = lg_prev L" "lg_frontier (refreshFingerprint L) = lg_frontier L"
  "lg_activeFirst (refreshFingerprint L) = lg_activeFirst L" "lg_tried (refreshFingerprint L) = lg_tried L"
  "dk_lookups (lg_disk L) = [] \<Longrightarrow> lg_disk (refreshFingerprint L) = lg_disk L"
  "dk_lookups (lg_disk L) = [] \<Longrightarrow> lg_expected (refreshFingerprint L) = Some (map_option identity (jm_get (dk_files (lg_disk L)) (lg_path L)))"
  by (simp_all add: refreshFingerprint_def with_disk_eq lookup_none)

lemma synced_cong:
  "lg_path L' = lg_path L \<Longrightarrow> lg_disk L' = lg_disk L \<Longrightarrow> lg_seq L' = lg_seq L \<Longrightarrow> lg_prev L' = lg_prev L \<Longrightarrow>
     lg_frontier L' = lg_frontier L \<Longrightarrow> lg_activeFirst L' = lg_activeFirst L \<Longrightarrow> synced env L' = synced env L"
  by (simp add: synced_def in_step_def)

lemma roll_back_facts:
  assumes p: "sealed_range (lg_path L) = None" and ok: "disk_ok env (lg_disk L)" and L1: "L1 = L\<lparr>lg_disk := d1\<rparr>" and g: "grown (lg_path L) q (lg_disk L) d1"
  shows "same_head L (roll_back label (length (bytes_of (lg_path L) (lg_disk L))) L1)"
    "disk_ok env (lg_disk (roll_back label (length (bytes_of (lg_path L) (lg_disk L))) L1))"
    "lg_expected (roll_back label (length (bytes_of (lg_path L) (lg_disk L))) L1) \<noteq> None \<Longrightarrow> synced env L \<Longrightarrow>
       synced env (roll_back label (length (bytes_of (lg_path L) (lg_disk L))) L1)"
proof -
  let ?n = "length (bytes_of (lg_path L) (lg_disk L))"
  let ?R = "roll_back label ?n L1"
  obtain tr d2 where t: "truncate_call (lg_path L) ?n d1 = (tr, d2)" by fastforce
  note tf = truncate_facts [OF p t]
  have lk: "dk_lookups d2 = []" "dk_lookups d1 = []" using tf(2) g ok by (simp_all add: grown_def disk_ok_def)
  have R: "lg_disk ?R = d2" "same_head L ?R" "lg_activeFirst ?R = lg_activeFirst L" "lg_expected ?R \<noteq> None \<Longrightarrow> tr"
    using t lk L1 by (auto simp: roll_back_def with_disk_eq Let_def same_head_def split: if_splits)
  have sp: "sealed_part d2 = sealed_part (lg_disk L)" using tf(1) g by (simp add: grown_def)
  show "same_head L ?R" by (rule R(2))
  show "disk_ok env (lg_disk ?R)" using ok lk tf(3) g well_named_same [OF sp] by (simp add: R(1) disk_ok_def grown_def)
  assume "lg_expected ?R \<noteq> None" and c: "synced env L"
  then have "tr" by (intro R(4))
  then have b: "bytes_of (lg_path L) d2 = bytes_of (lg_path L) (lg_disk L)" using tf(4) g by (simp add: grown_def)
  show "synced env ?R" using c R(2,3) core_same [OF sp b] by (auto simp: synced_def in_step_def same_head_def R(1))
qed

text \<open>The part of \<^verbatim>\<open>writeRecord\<close> after the seal.\<close>

definition append_record :: "audit_env \<Rightarrow> audit_record \<Rightarrow> bool \<Rightarrow> string \<Rightarrow> nat \<Rightarrow> audit_log \<Rightarrow> audit_record option \<times> audit_log" where
  "append_record env r created label before L =
     (case with_disk (append_data (lg_path L) (line_bytes (record_line env r)) created) L of
          (False, L) \<Rightarrow> (None, roll_back label before L)
        | (True, L) \<Rightarrow>
            let L = L\<lparr>lg_seq := ar_seq r, lg_prev := ar_hash r\<rparr> in
            (case push_leaf (ae_sha env) (ar_hash r) (lg_frontier L) of
               Inl _ \<Rightarrow> (None, L)
             | Inr f \<Rightarrow> (Some r, refreshFingerprint (L\<lparr>lg_frontier := f\<rparr>))))"

lemma writeRecord_eq:
  "writeRecord env event fs label L =
     (let (ts, L) = stamp L; r = next_record env event fs ts L; data = line_bytes (record_line env r);
          L = L\<lparr>lg_tried := lg_tried L @ [r]\<rparr>;
          (sizeBefore, L) = with_disk (sizeOf (lg_path L)) L;
          before = (case sizeBefore of None \<Rightarrow> 0 | Some n \<Rightarrow> n);
          (sealed, L) = (if 0 < before \<and> lg_segmentBytes L < before + length data then seal L else (False, L))
      in append_record env r (sealed \<or> sizeBefore = None) label (if sealed then 0 else before) L)"
  by (simp add: writeRecord_def append_record_def Let_def split: prod.split)

text \<open>What every operation promises of the log it leaves. Undefined, \<^verbatim>\<open>expected\<close> makes the next append read the disk.\<close>

definition keeps :: "audit_env \<Rightarrow> audit_log \<Rightarrow> bool" where
  "keeps env L \<longleftrightarrow> sealed_range (lg_path L) = None \<and> disk_ok env (lg_disk L) \<and> (lg_expected L \<noteq> None \<longrightarrow> synced env L)"

definition current :: "audit_log \<Rightarrow> bool" where
  "current L \<longleftrightarrow> lg_expected L = Some (map_option identity (jm_get (dk_files (lg_disk L)) (lg_path L)))"

lemma append_record_facts:
  assumes sha: "sha_format (ae_sha env)" and p: "sealed_range (lg_path L) = None" and ok: "disk_ok env (lg_disk L)"
    and e: "extends env L r" and r: "good_record env r" "made_record env r"
    and a: "append_record env r created label (length (bytes_of (lg_path L) (lg_disk L))) L = (res, L')"
  shows "lg_path L' = lg_path L \<and> lg_tried L' = lg_tried L \<and> disk_ok env (lg_disk L')"
    "res \<noteq> None \<Longrightarrow> res = Some r \<and> synced env L' \<and> lg_seq L' = ar_seq r \<and> lg_prev L' = ar_hash r \<and> current L'
       \<and> all_lines env (lg_path L) (lg_disk L') = all_lines env (lg_path L) (lg_disk L) @ [record_line env r]"
    "res = None \<Longrightarrow> lg_expected L' \<noteq> None \<Longrightarrow> synced env L \<Longrightarrow> synced env L'"
proof -
  obtain good d1 where d1: "append_data (lg_path L) (line_bytes (record_line env r)) created (lg_disk L) = (good, d1)" by fastforce
  from append_data_grown [OF p d1] obtain q where q: "grown (lg_path L) q (lg_disk L) d1"
    "good \<longrightarrow> q = line_bytes (record_line env r)" by blast
  have lk: "dk_lookups d1 = []" using q ok by (simp add: grown_def disk_ok_def)
  have okd: "disk_ok env d1" using ok lk q well_named_same [of d1 "lg_disk L"] by (simp add: grown_def disk_ok_def)
  have "hex_frontier (lg_frontier L)" using e by (simp add: extends_def Let_def)
  then obtain f where f: "push_leaf (ae_sha env) (ar_hash r) (lg_frontier L) = Inr f"
    using push_leaf_hex [OF sha made_hash [OF sha r(2)]] by blast
  have "(lg_path L' = lg_path L \<and> lg_tried L' = lg_tried L \<and> disk_ok env (lg_disk L'))
    \<and> (res \<noteq> None \<longrightarrow> res = Some r \<and> synced env L' \<and> lg_seq L' = ar_seq r \<and> lg_prev L' = ar_hash r \<and> current L'
       \<and> all_lines env (lg_path L) (lg_disk L') = all_lines env (lg_path L) (lg_disk L) @ [record_line env r])
    \<and> (res = None \<longrightarrow> lg_expected L' \<noteq> None \<longrightarrow> synced env L \<longrightarrow> synced env L')"
  proof (cases good)
    case False
    let ?R = "roll_back label (length (bytes_of (lg_path L) (lg_disk L))) (L\<lparr>lg_disk := d1\<rparr>)"
    have "res = None" "L' = ?R" using a d1 False by (simp_all add: append_record_def with_disk_eq)
    with roll_back_facts [OF p ok refl q(1), of label] show ?thesis by (simp add: same_head_def)
  next
    case True
    let ?L = "L\<lparr>lg_disk := d1, lg_seq := ar_seq r, lg_prev := ar_hash r, lg_frontier := f\<rparr>"
    have res: "res = Some r" "L' = refreshFingerprint ?L" using a d1 True f by (simp_all add: append_record_def with_disk_eq)
    have "synced env ?L" by (rule extends_append [OF sha e r]) (use q True f in simp_all)
    then have "synced env L'" using lk unfolding res(2) by (subst synced_cong [where L = ?L]) simp_all
    have rd: "disk_readable (lg_path L) (lg_disk L)" using e by (simp add: extends_def Let_def)
    have "grown (lg_path L) (line_bytes (record_line env r)) (lg_disk L) d1" using q True by simp
    from grown_line(3) [OF this rd r] have "all_lines env (lg_path L) d1 = all_lines env (lg_path L) (lg_disk L) @ [record_line env r]" .
    with res lk okd \<open>synced env L'\<close> show ?thesis by (simp add: current_def)
  qed
  then show "lg_path L' = lg_path L \<and> lg_tried L' = lg_tried L \<and> disk_ok env (lg_disk L')"
    "res \<noteq> None \<Longrightarrow> res = Some r \<and> synced env L' \<and> lg_seq L' = ar_seq r \<and> lg_prev L' = ar_hash r \<and> current L'
       \<and> all_lines env (lg_path L) (lg_disk L') = all_lines env (lg_path L) (lg_disk L) @ [record_line env r]"
    "res = None \<Longrightarrow> lg_expected L' \<noteq> None \<Longrightarrow> synced env L \<Longrightarrow> synced env L'"
    by blast+
qed

lemma append_record_tried: "append_record env r created label before L = (res, L') \<Longrightarrow> lg_tried L' = lg_tried L"
proof -
  have "lg_tried (roll_back label before L) = lg_tried L" for L
    by (simp add: roll_back_def with_disk_eq Let_def refreshFingerprint_def)
  then show "append_record env r created label before L = (res, L') \<Longrightarrow> lg_tried L' = lg_tried L"
    by (auto simp: append_record_def with_disk_eq Let_def refreshFingerprint_def split: prod.splits bool.splits sum.splits)
qed

lemma seal_tried: "seal L = (sealed, L') \<Longrightarrow> lg_tried L' = lg_tried L"
  by (auto simp: seal_def with_disk_eq Let_def split: prod.splits bool.splits if_splits)

lemma stamp_eq: "\<exists>t ts. stamp L = (t, L\<lparr>lg_stamps := ts\<rparr>)"
  by (cases "lg_stamps L") (auto simp: stamp_def intro: exI [of _ "lg_stamps L"])

lemma writeRecord_cases:
  assumes lk: "dk_lookups (lg_disk L) = []" and w: "writeRecord env event fs label L = (res, L')"
  obtains r L0 L1 sealed created where "\<exists>ts. r = next_record env event fs ts L" "same_head (L\<lparr>lg_tried := lg_tried L @ [r]\<rparr>) L0"
    "lg_disk L0 = lg_disk L" "lg_activeFirst L0 = lg_activeFirst L"
    "if bytes_of (lg_path L) (lg_disk L) = [] then sealed = False \<and> L1 = L0 else (sealed, L1) = seal L0 \<or> sealed = False \<and> L1 = L0"
    "append_record env r created label (if sealed then 0 else length (bytes_of (lg_path L) (lg_disk L))) L1 = (res, L')"
proof -
  obtain t ts where t: "stamp L = (t, L\<lparr>lg_stamps := ts\<rparr>)" using stamp_eq by blast
  let ?r = "next_record env event fs t L"
  let ?L0 = "L\<lparr>lg_stamps := ts, lg_tried := lg_tried L @ [?r]\<rparr>"
  let ?data = "line_bytes (record_line env ?r)"
  let ?n = "length (bytes_of (lg_path L) (lg_disk L))"
  let ?full = "0 < ?n \<and> lg_segmentBytes L < ?n + length ?data"
  let ?S = "if ?full then seal ?L0 else (False, ?L0)"
  obtain sz where size: "sizeOf (lg_path L) (lg_disk L) = (sz, lg_disk L)" and before: "(case sz of None \<Rightarrow> 0 | Some n \<Rightarrow> n) = ?n"
    using lookup_none(3) [OF lk] by (auto simp: bytes_of_def split: option.split)
  have r: "next_record env event fs t (L\<lparr>lg_stamps := ts\<rparr>) = ?r" by (simp add: next_record_def)
  have sz: "with_disk (sizeOf (lg_path ?L0)) ?L0 = (sz, ?L0)" by (simp add: with_disk_def size)
  have L0: "(L\<lparr>lg_stamps := ts\<rparr>)\<lparr>lg_tried := lg_tried (L\<lparr>lg_stamps := ts\<rparr>) @ [?r]\<rparr> = ?L0" "lg_segmentBytes ?L0 = lg_segmentBytes L" by simp_all
  have w': "append_record env ?r (fst ?S \<or> sz = None) label (if fst ?S then 0 else ?n) (snd ?S) = (res, L')"
    using w unfolding writeRecord_eq t Let_def prod.case r L0(1) sz before L0(2) by (simp only: case_prod_beta)
  show thesis
  proof (rule that [OF _ _ _ _ _ w'])
    show "\<exists>ts. ?r = next_record env event fs ts L" by blast
    show "same_head (L\<lparr>lg_tried := lg_tried L @ [?r]\<rparr>) ?L0" by (simp add: same_head_def)
    show "if bytes_of (lg_path L) (lg_disk L) = [] then fst ?S = False \<and> snd ?S = ?L0
      else (fst ?S, snd ?S) = seal ?L0 \<or> fst ?S = False \<and> snd ?S = ?L0" by auto
  qed simp_all
qed

lemma next_made: "clean_fields fs \<Longrightarrow> event \<noteq> [] \<Longrightarrow> HEX_64 (lg_prev L) \<Longrightarrow> made_record env (next_record env event fs ts L)"
  by (simp add: made_record_def next_record_def)

definition written :: "audit_env \<Rightarrow> audit_log \<Rightarrow> audit_record option \<times> audit_log \<Rightarrow> bool" where
  "written env L out \<longleftrightarrow> (case out of (res, L') \<Rightarrow> lg_path L' = lg_path L \<and> (\<exists>r. lg_tried L' = lg_tried L @ [r] \<and> (res \<noteq> None \<longrightarrow> res = Some r))
     \<and> disk_ok env (lg_disk L') \<and> (\<forall>r. res = Some r \<longrightarrow> synced env L' \<and> lg_seq L' = ar_seq r \<and> lg_prev L' = ar_hash r \<and> current L'
       \<and> all_lines env (lg_path L) (lg_disk L') = all_lines env (lg_path L) (lg_disk L) @ [record_line env r]))"

lemma writeRecord_synced:
  assumes sha: "sha_format (ae_sha env)" and p: "sealed_range (lg_path L) = None" and ok: "disk_ok env (lg_disk L)" and c: "synced env L"
    and fs: "clean_fields fs" "event \<noteq> []" "anchor_for env event fs L"
    and w: "writeRecord env event fs label L = (res, L')" and good: "\<forall>r \<in> set (lg_tried L'). good_record env r"
  shows "written env L (res, L')" "keeps env L'"
proof -
  have lk: "dk_lookups (lg_disk L) = []" using ok by (simp add: disk_ok_def)
  obtain r L0 L1 sealed created where x: "\<exists>ts. r = next_record env event fs ts L"
    "same_head (L\<lparr>lg_tried := lg_tried L @ [r]\<rparr>) L0" "lg_disk L0 = lg_disk L" "lg_activeFirst L0 = lg_activeFirst L"
    "if bytes_of (lg_path L) (lg_disk L) = [] then sealed = False \<and> L1 = L0 else (sealed, L1) = seal L0 \<or> sealed = False \<and> L1 = L0"
    "append_record env r created label (if sealed then 0 else length (bytes_of (lg_path L) (lg_disk L))) L1 = (res, L')"
    by (rule writeRecord_cases [OF lk w])
  note h0 = x(2) [unfolded same_head_def]
  have L0: "sealed_range (lg_path L0) = None" "disk_ok env (lg_disk L0)" "synced env L0"
    using p ok c h0 x(3,4) synced_cong [of L0 L env] by simp_all
  have made: "made_record env r" using next_made [OF fs(1,2)] synced_hex [OF sha c] x(1) by blast
  have rr: "ar_seq r = lg_seq L + 1" "ar_prev r = lg_prev L" "ar_event r = event" "ar_fields r = fs"
    using x(1) by (auto simp: next_record_def)
  have L1_tried: "lg_tried L1 = lg_tried L0" using x(5) seal_tried [of L0 sealed L1] by (auto split: if_splits)
  have L1: "same_head L0 L1 \<and> disk_ok env (lg_disk L1) \<and> synced env L1
    \<and> all_lines env (lg_path L) (lg_disk L1) = all_lines env (lg_path L) (lg_disk L)
    \<and> length (bytes_of (lg_path L1) (lg_disk L1)) = (if sealed then 0 else length (bytes_of (lg_path L) (lg_disk L)))" if big: "lg_seq L \<le> 9007199254740991"
  proof (cases "sealed = False \<and> L1 = L0")
    case True
    with L0 h0 x(3) show ?thesis by (simp add: same_head_def)
  next
    case False
    with x(5) have s: "seal L0 = (sealed, L1)" and ne: "bytes_of (lg_path L0) (lg_disk L0) \<noteq> []"
      using h0 x(3) by (auto split: if_splits)
    have "lg_seq L0 \<le> 9007199254740991" using big h0 by simp
    note ss = seal_synced [OF L0 ne this s]
    then show ?thesis using h0 x(3) by (simp add: same_head_def)
  qed
  have tr: "lg_tried L' = lg_tried L @ [r]" using append_record_tried [OF x(6)] L1_tried h0 by simp
  have g: "good_record env r" using good tr by simp
  then have "lg_seq L \<le> 9007199254740991" using rr(1) by (simp add: good_record_def)
  note l1 = L1 [OF this]
  have p1: "sealed_range (lg_path L1) = None" "lg_seq L1 = lg_seq L" "lg_prev L1 = lg_prev L" "lg_frontier L1 = lg_frontier L" "lg_path L1 = lg_path L"
    using l1 L0(1) h0 by (simp_all add: same_head_def)
  have e: "extends env L1 r"
    by (rule synced_extends [OF sha _ _ _ g]) (use l1 p1 rr fs(3) in \<open>auto simp: anchor_for_def\<close>)
  have "append_record env r created label (length (bytes_of (lg_path L1) (lg_disk L1))) L1 = (res, L')"
    unfolding conjunct2 [OF conjunct2 [OF conjunct2 [OF conjunct2 [OF l1]]]] by (rule x(6))
  note f = append_record_facts [OF sha p1(1) _ e g made this]
  have c1: "synced env L1" "disk_ok env (lg_disk L1)" using l1 by blast+
  have L': "lg_path L' = lg_path L" "disk_ok env (lg_disk L')" "sealed_range (lg_path L') = None" using f(1) [OF c1(2)] p1 p by simp_all
  have lines: "all_lines env (lg_path L) (lg_disk L1) = all_lines env (lg_path L) (lg_disk L)" using l1 by blast
  have some: "res = Some r \<and> synced env L' \<and> lg_seq L' = ar_seq r \<and> lg_prev L' = ar_hash r \<and> current L'
       \<and> all_lines env (lg_path L) (lg_disk L') = all_lines env (lg_path L) (lg_disk L) @ [record_line env r]" if "res \<noteq> None"
    using f(2) [OF c1(2) that] unfolding p1(5) lines .
  show "written env L (res, L')" unfolding written_def prod.case using L'(1,2) tr some by blast
  have "lg_expected L' \<noteq> None \<Longrightarrow> synced env L'" using some f(3) [OF c1(2) _ _ c1(1)] by blast
  then show "keeps env L'" using L' by (simp add: keeps_def)
qed

end
