(* ===== verification/Audit_Resume.thy ===== *)
theory Audit_Resume
  imports Audit_Writes
begin

text \<open>
  Going on after a broken active file (\<^verbatim>\<open>recoverFrom\<close> of \<^verbatim>\<open>obs/audit.ts\<close>): the boundary that the sealed
  segments need is written again, and the record that does so extends the chain.
\<close>

subsection \<open>The fields a scan keeps\<close>

lemma flatten_result:
  assumes "flatten_fields fs = Inr flt"
  shows "clean_fields flt"
proof -
  have "distinct (map fst out) \<and> ''__proto__'' \<notin> set (map fst out) \<Longrightarrow>
    distinct (map fst (foldl set_member out fs)) \<and> ''__proto__'' \<notin> set (map fst (foldl set_member out fs))" for out
  proof (induction fs arbitrary: out)
    case (Cons e fs)
    have "distinct (map fst (set_member out e)) \<and> ''__proto__'' \<notin> set (map fst (set_member out e))"
      using Cons.prems by (auto simp: set_member_def distinct_update dom_update)
    with Cons.IH show ?case by simp
  qed simp
  from this [of "[]"] have d: "distinct (map fst (foldl set_member [] fs))" "''__proto__'' \<notin> set (map fst (foldl set_member [] fs))" by auto
  from assms have flt: "flt = foldl set_member [] fs" "list_all (\<lambda>e. primitive (snd e)) fs"
    by (auto simp: flatten_fields_def find_None_iff list_all_iff split: option.splits)
  with flat_fields [OF flt(2), of "[]"] d show ?thesis by (simp add: clean_fields_def flat_def)
qed

lemma checkLine_clean: "checkLine env l n p = Inr c \<Longrightarrow> clean_fields (ck_fields c)"
  by (auto simp: checkLine_def dest: flatten_result split: option.splits js.splits if_splits sum.splits)

definition kept_clean :: "scanning \<Rightarrow> bool" where
  "kept_clean st \<longleftrightarrow> (\<forall>fs \<in> set (sg_retentions st). clean_fields fs)"

lemma acceptLine_kept: "kept_clean st \<Longrightarrow> kept_clean (fst (acceptLine env files carried path nm st l))"
proof -
  assume k: "kept_clean st"
  let ?st = "start_chain env files carried nm l st"
  have s: "sg_retentions ?st = sg_retentions st"
    by (auto simp: start_chain_def Let_def split: option.splits prod.splits pruned_prefix.splits)
  have s1: "kept_clean ?st" using k s by (simp add: kept_clean_def)
  have t: "checkLine env l n p = Inr c \<Longrightarrow> kept_clean (fst (take_record env a c ?st))" for c a n p
    using k s checkLine_clean [of env l n p c] by (auto simp: take_record_def kept_clean_def Let_def split: sum.split)
  show ?thesis using s1 t by (auto simp: acceptLine_def Let_def split: option.split sum.split line_verdict.split)
qed

lemma scanFile_kept: "kept_clean st \<Longrightarrow> kept_clean (fst (scanFile env files carried path nm view st))"
proof -
  assume k: "kept_clean st"
  let ?st = "st\<lparr>sg_first := 0, sg_last := 0, sg_ts := [], sg_hash := GENESIS_HASH\<rparr>"
  have k': "kept_clean ?st" using k by (simp add: kept_clean_def)
  have "kept_clean (fst (eachLine (ae_decode env) view (acceptLine env files carried path nm) ?st))"
  proof (cases view)
    case (Reads chunks fails)
    from scan_bytes_inv [of kept_clean, OF acceptLine_kept k'] Reads show ?thesis by (simp add: eachLine_scan)
  qed (use k' in \<open>simp add: eachLine_scan\<close>)
  then show ?thesis by (auto simp: scanFile_def kept_clean_def split: prod.splits)
qed

lemma scan_files_kept: "kept_clean st \<Longrightarrow> \<forall>fs \<in> set (cs_retentions (scan_files env views carried path files st)). clean_fields fs"
proof (induction files arbitrary: st)
  case Nil
  then show ?case by (simp add: finish_def kept_clean_def split: option.split)
next
  case (Cons f files)
  obtain nm view where f: "f = (nm, view)" by (cases f)
  obtain st' step where s: "scanFile env views carried path nm view st = (st', step)" by fastforce
  have k: "kept_clean st'" using scanFile_kept [OF Cons.prems, of env views carried path nm view] s by simp
  with Cons.IH [OF k] s f show ?case by (auto simp: finish_def kept_clean_def split: option.split scan_step.split)
qed

lemma retentions_clean: "fs \<in> set (cs_retentions (scanChain env path files carried)) \<Longrightarrow> clean_fields fs"
  using scan_files_kept [of fresh_scan] by (simp add: scanChain_def kept_clean_def fresh_scan_def)

subsection \<open>The carried record a chain started with\<close>

definition seeds :: "audit_env \<Rightarrow> file_view list \<Rightarrow> fields list \<Rightarrow> string \<Rightarrow> fields option \<Rightarrow> bool" where
  "seeds env views carried l cu \<longleftrightarrow> (\<forall>seq prev f t cu'. peekHead env l = Some (seq, prev) \<longrightarrow> 1 < seq \<longrightarrow>
     resolvePrunedPrefix env seq prev views carried = Seeded f t cu' \<longrightarrow> cu' = cu)
     \<and> (\<forall>fs. cu = Some fs \<longrightarrow> (\<exists>seq prev f t. peekHead env l = Some (seq, prev) \<and> 1 < seq \<and> resolvePrunedPrefix env seq prev views carried = Seeded f t cu))"

lemma acceptLine_seeds:
  assumes a: "acceptLine env views carried path nm st l = (st', Accept)" and st: "\<not> sg_started st" "sg_carriedUsed st = None"
  shows "seeds env views carried l (sg_carriedUsed st')"
proof -
  let ?st = "start_chain env views carried nm l st"
  have h: "sg_halt ?st = None" using a by (auto simp: acceptLine_def Let_def split: option.splits)
  from a h obtain k where k: "take_record env (nm = path) k ?st = (st', Accept)"
    by (auto simp: acceptLine_def Let_def split: sum.splits line_verdict.splits)
  then have "sg_carriedUsed st' = sg_carriedUsed ?st" by (auto simp: take_record_def Let_def split: sum.splits)
  moreover have "seeds env views carried l (sg_carriedUsed ?st)"
    using h st by (auto simp: start_chain_def seeds_def Let_def split: option.splits prod.splits pruned_prefix.splits if_splits)
  ultimately show ?thesis by simp
qed

lemma accepts_seeds:
  "accepts (acceptLine env views carried path nm) st ls = Some st' \<Longrightarrow>
     (sg_started st \<longrightarrow> sg_started st' \<and> sg_carriedUsed st' = sg_carriedUsed st) \<and> (ls = [] \<longrightarrow> st' = st)
     \<and> (\<not> sg_started st \<longrightarrow> sg_carriedUsed st = None \<longrightarrow> ls \<noteq> [] \<longrightarrow> sg_started st' \<and> seeds env views carried (hd ls) (sg_carriedUsed st'))"
proof (induction ls arbitrary: st)
  case (Cons l ls)
  from Cons.prems obtain st1 where st1: "acceptLine env views carried path nm st l = (st1, Accept)"
    "accepts (acceptLine env views carried path nm) st1 ls = Some st'" by (auto split: prod.splits line_verdict.splits)
  note f = acceptLine_fields [OF st1(1)]
  have s1: "sg_started st1" by (rule f(2))
  with Cons.IH [OF st1(2)] have c: "sg_started st' \<and> sg_carriedUsed st' = sg_carriedUsed st1" by blast
  show ?case using c f(7) acceptLine_seeds [OF st1(1)] by simp
qed simp

lemma through_seeds:
  "through env views carried path files st = Some st' \<Longrightarrow>
     (sg_started st \<longrightarrow> sg_started st' \<and> sg_carriedUsed st' = sg_carriedUsed st)
     \<and> (\<not> sg_started st \<longrightarrow> sg_carriedUsed st = None \<longrightarrow> (if chain_lines env files = [] then sg_carriedUsed st' = None
          else seeds env views carried (hd (chain_lines env files)) (sg_carriedUsed st')))"
proof (induction files arbitrary: st)
  case Nil
  then show ?case by (simp add: chain_lines_def)
next
  case (Cons f files)
  obtain nm view where f: "f = (nm, view)" by (cases f)
  with Cons.prems obtain st1 where s: "scanFile env views carried path nm view st = (st1, StepOk)"
    "through env views carried path files st1 = Some st'" by (auto split: prod.splits scan_step.splits)
  have lines: "chain_lines env (f # files) = view_lines (ae_decode env) view @ chain_lines env files" by (simp add: chain_lines_def f)
  from scanFile_fields(4) [OF s(1)] obtain st2 where st2:
    "accepts (acceptLine env views carried path nm) (st\<lparr>sg_first := 0, sg_last := 0, sg_ts := [], sg_hash := GENESIS_HASH\<rparr>)
        (view_lines (ae_decode env) view) = Some st2" "st1 = st2\<lparr>sg_files := sg_files st1\<rparr>" by blast
  have eq: "sg_started st1 = sg_started st2" "sg_carriedUsed st1 = sg_carriedUsed st2" by (subst st2(2), simp)+
  from accepts_seeds [OF st2(1)] Cons.IH [OF s(2)] show ?case unfolding lines eq
    by (cases "view_lines (ae_decode env) view = []") auto
qed

subsection \<open>The line of a carried boundary\<close>

lemma has_substring_mid: "has_substring p (a @ p @ b)"
  by (auto simp: has_substring_def list_ex_iff intro: bexI [of _ "length a"])

lemma substring_join: "e \<in> set xs \<Longrightarrow> \<exists>a b. js_join sep xs = a @ e @ b"
proof (induction xs)
  case (Cons x xs)
  show ?case
  proof (cases "e = x")
    case True
    have "\<exists>b. js_join sep (x # xs) = x @ b" by (cases "xs = []") simp_all
    with True show ?thesis by (metis append_Nil)
  next
    case False
    with Cons obtain a b where "js_join sep xs = a @ e @ b" by auto
    moreover have "xs \<noteq> []" using Cons.prems False by auto
    ultimately have "js_join sep (x # xs) = (x @ sep @ a) @ e @ b" by simp
    then show ?thesis by blast
  qed
qed simp

lemma retention_text: "ar_event r = RETENTION_EVENT \<Longrightarrow> has_substring RETENTION_EVENT (record_line env r)"
proof -
  assume e: "ar_event r = RETENTION_EVENT"
  let ?t = "\<lambda>e. json_string (fst e) @ '':'' @ stringify (ae_num env) (snd e)"
  let ?es = "[(''seq'', JNum (Fin (of_nat (ar_seq r)))), (''ts'', JStr (ar_ts r)), (''event'', JStr (ar_event r)),
     (''prev'', JStr (ar_prev r)), (''hash'', JStr (ar_hash r)), (''fields'', JObj (ar_fields r))]"
  have "?t (''event'', JStr (ar_event r)) \<in> set (map ?t (filter (\<lambda>e. present (snd e)) ?es))" by (simp add: present_def)
  from substring_join [OF this, of "'',''"] obtain a b where ab:
    "js_join '','' (map ?t (filter (\<lambda>e. present (snd e)) ?es)) = a @ ?t (''event'', JStr (ar_event r)) @ b" by blast
  have q: "json_string RETENTION_EVENT = [CHR 0x22] @ RETENTION_EVENT @ [CHR 0x22]" by code_simp
  have "record_line env r = (''{'' @ a @ json_string ''event'' @ '':'' @ [CHR 0x22]) @ RETENTION_EVENT @ ([CHR 0x22] @ b @ ''}'')"
    unfolding record_line_def record_js_def stringify.simps(8) ab using e q by simp
  then show ?thesis using has_substring_mid by metis
qed

lemma boundary_of_line:
  assumes "good_record env r" "ar_event r = RETENTION_EVENT"
    and "obj_get (ar_fields r) ''throughSeq'' = JNum (Fin (of_int s))" "obj_get (ar_fields r) ''throughHash'' = JStr h"
  shows "boundary_fields env s h [record_line env r] = Some (ar_fields r)"
proof -
  have "ae_parse env (record_line env r) = Some (record_js (ar_seq r) (ar_ts r) (ar_event r) (ar_prev r) (ar_hash r) (ar_fields r))"
    using assms(1) by (simp add: good_record_def)
  with retention_text [OF assms(2)] assms(2-4) show ?thesis
    by (simp add: boundary_fields_def boundary_line_def record_js_def obj_get_def)
qed

subsection \<open>Where the chain goes on\<close>

lemma sealed_run:
  assumes t: "through env (map snd files) carried path files fresh_scan = Some st'"
    and x: "\<And>fs. sg_carriedUsed st' = Some fs \<Longrightarrow> \<exists>r. extra = [record_line env r] \<and> good_record env r \<and> ar_event r = RETENTION_EVENT \<and> ar_fields r = fs"
  shows "\<exists>c. chain_run env (chain_lines env files @ extra) fresh_core (chain_lines env files) = Some c \<and> tracks st' c"
proof -
  let ?S = "chain_lines env files"
  have views: "list_all readable (map snd files)" using through_readable [OF t] by (simp add: list_all_iff)
  have all: "concat (map (view_lines (ae_decode env)) (map snd files)) = ?S" by (simp add: chain_lines_def comp_def)
  have fresh: "\<not> sg_started fresh_scan" "sg_carriedUsed fresh_scan = None" by (simp_all add: fresh_scan_def)
  have res: "resolves env (map snd files) carried (?S @ extra) l" if l: "?S = l # ls" for l ls
  proof -
    have seeds: "seeds env (map snd files) carried l (sg_carriedUsed st')"
      using through_seeds [OF t] fresh l by simp
    show ?thesis unfolding resolves_def
    proof (intro allI impI)
      fix seq prev f tx cu
      assume h: "peekHead env l = Some (seq, prev)" "1 < seq" "resolvePrunedPrefix env seq prev (map snd files) carried = Seeded f tx cu"
      have cu: "cu = sg_carriedUsed st'" using seeds h unfolding seeds_def by blast
      show "prefix_of env (?S @ extra) seq prev = Some (f, tx)"
      proof (cases "sg_carriedUsed st'")
        case None
        then have "prefix_of env ?S seq prev = Some (f, tx)" using h(3) resolve_on_disk [OF views] cu all by simp
        then show ?thesis by (rule prefix_of_append)
      next
        case (Some fs)
        from x [OF Some] obtain r where r: "extra = [record_line env r]" "good_record env r" "ar_event r = RETENTION_EVENT" "ar_fields r = fs" by blast
        note c = resolve_carried [OF views h(3) [unfolded cu Some], unfolded all]
        have "boundary_fields env (seq - 1) prev extra = Some fs"
          using boundary_of_line [OF r(2,3), of "seq - 1" prev] r(1,4) c(3,4) by simp
        then show ?thesis using c(1,5,6) by (simp add: prefix_of_def boundary_fields_append)
      qed
    qed
  qed
  show ?thesis using through_tracks [OF tracks_fresh t _ views, of "?S @ extra"] res by fastforce
qed

lemma through_pos:
  "through env views carried path files st = Some st' \<Longrightarrow> chain_lines env files \<noteq> [] \<or> 0 < sg_lastSeq st \<Longrightarrow> 0 < sg_lastSeq st'"
proof (induction files arbitrary: st)
  case Nil
  then show ?case by (simp add: chain_lines_def)
next
  case (Cons f files)
  have lines: "accepts (acceptLine env views carried path nm) st ls = Some st' \<Longrightarrow> ls \<noteq> [] \<or> 0 < sg_lastSeq st \<Longrightarrow> 0 < sg_lastSeq st'" for nm st st' ls
    by (induction ls arbitrary: st) (auto split: prod.splits line_verdict.splits dest: acceptLine_fields(6))
  obtain nm view where f: "f = (nm, view)" by (cases f)
  with Cons.prems obtain st1 where s: "scanFile env views carried path nm view st = (st1, StepOk)"
    "through env views carried path files st1 = Some st'" by (auto split: prod.splits scan_step.splits)
  from scanFile_fields(4) [OF s(1)] obtain st2 where st2:
    "accepts (acceptLine env views carried path nm) (st\<lparr>sg_first := 0, sg_last := 0, sg_ts := [], sg_hash := GENESIS_HASH\<rparr>)
        (view_lines (ae_decode env) view) = Some st2" "st1 = st2\<lparr>sg_files := sg_files st1\<rparr>" by blast
  have eq: "sg_lastSeq st1 = sg_lastSeq st2" by (subst st2(2), simp)
  have "chain_lines env (f # files) = view_lines (ae_decode env) view @ chain_lines env files" by (simp add: chain_lines_def f)
  with Cons.prems(2) lines [OF st2(1)] Cons.IH [OF s(2)] eq show ?case by auto
qed

lemma newest_found:
  "newestBoundary env rs = Some (seq, hash, fs, f) \<Longrightarrow> fs \<in> set rs \<and> (\<exists>t. obj_get fs ''throughSeq'' = JNum (Fin (of_nat seq))
     \<and> obj_get fs ''throughHash'' = JStr hash \<and> decodeFrontier env (obj_get fs ''frontier'') = Some (f, t) \<and> fr_size f = seq)"
proof -
  have int: "v = JNum (Fin (of_int i))" if "integer_of v = Some i" for v i
    using that by (auto simp: integer_of_def split: js.splits js_num.splits if_splits)
  have "newestBoundary_rev env rs = Some (seq, hash, fs, f) \<Longrightarrow> fs \<in> set rs \<and> (\<exists>t. obj_get fs ''throughSeq'' = JNum (Fin (of_nat seq))
     \<and> obj_get fs ''throughHash'' = JStr hash \<and> decodeFrontier env (obj_get fs ''frontier'') = Some (f, t) \<and> fr_size f = seq)" for rs
  proof (induction rs)
    case (Cons r rs)
    show ?case
    proof (cases "newestBoundary_rev env rs = Some (seq, hash, fs, f)")
      case True
      with Cons.IH show ?thesis by simp
    next
      case False
      with Cons.prems show ?thesis
        by (auto dest!: int split: option.splits js.splits prod.splits if_splits)
    qed
  qed simp
  then show "newestBoundary env rs = Some (seq, hash, fs, f) \<Longrightarrow> fs \<in> set rs \<and> (\<exists>t. obj_get fs ''throughSeq'' = JNum (Fin (of_nat seq))
     \<and> obj_get fs ''throughHash'' = JStr hash \<and> decodeFrontier env (obj_get fs ''frontier'') = Some (f, t) \<and> fr_size f = seq)"
    unfolding newestBoundary_def by fastforce
qed

lemma resume_extends:
  assumes p: "sealed_range path = None" and v: "cs_verification sealed = Verified n h"
    and s: "sealed = scanChain env path (seg_files d) (cs_retentions check)" and clean: "\<forall>fs \<in> set (cs_retentions check). clean_fields fs"
    and r: "resume_after check sealed env = Some (resume, carried)" and sha: "sha_format (ae_sha env)"
    and L: "lg_path L = path" "sealed_part (lg_disk L) = sealed_part d" "jm_get (dk_files (lg_disk L)) path = None"
  shows "carried = None \<Longrightarrow> synced env (adopt resume L)"
    "carried = Some fs \<Longrightarrow> clean_fields fs"
    "carried = Some fs \<Longrightarrow> good_record env rc \<Longrightarrow> ar_event rc = RETENTION_EVENT \<Longrightarrow> ar_fields rc = fs \<Longrightarrow>
       ar_seq rc = lg_seq (adopt resume L) + 1 \<Longrightarrow> ar_prev rc = lg_prev (adopt resume L) \<Longrightarrow> extends env (adopt resume L) rc"
proof -
  let ?files = "seg_files d"
  let ?S = "seg_lines env d"
  from v obtain st' where st': "through env (map snd ?files) (cs_retentions check) path ?files fresh_scan = Some st'" "sg_boundary st' = None"
    unfolding s scanChain_def scan_files_through [OF fresh_scan_halt(1)] by blast
  have sc: "sealed = finish path st' (Verified (sg_count st') (sg_prev st')) path"
    unfolding s scanChain_def by (rule scan_files_finish [OF st'(1) fresh_scan_halt(1) st'(2)])
  have S: "chain_lines env ?files = ?S" by (simp add: chain_lines_def seg_files_def seg_lines_def file_lines_def [abs_def] comp_def)
  have "path \<notin> fst ` set ?files" using p seg_names_sealed [of path d] by (auto simp: seg_files_def)
  from active_first [of env "map snd ?files" "cs_retentions check" path ?files "[]" st', OF _ this] st'(1)
  have af: "cs_activeFirst sealed = sg_lastSeq st' + 1" unfolding sc by (simp add: chain_lines_def)
  have fin: "cs_lastSeq sealed = sg_lastSeq st'" "cs_lastHash sealed = sg_prev st'" "cs_frontier sealed = sg_frontier st'"
    "cs_carriedUsed sealed = sg_carriedUsed st'" by (simp_all add: sc finish_def)
  note seg = seg_lines_same [OF L(2)]
  have nolines: "file_lines env (lg_disk L) path = []" using L(3) by (rule file_lines_missing)
  have all: "all_lines env path (lg_disk L) = ?S" using seg(2) nolines by (simp add: all_lines_def)
  have rd: "disk_readable path (lg_disk L)"
  proof -
    have "\<forall>nm \<in> set (seg_names d). readable (view_of d nm)" using through_readable [OF st'(1)] by (simp add: list_all_iff seg_files_def)
    then show ?thesis using seg view_missing [OF L(3)] by (simp add: disk_readable_def)
  qed
  have A: "path = lg_path (adopt resume L)" "lg_disk (adopt resume L) = lg_disk L" using L by (simp_all add: adopt_def)
  have carriedIn: "fs \<in> set (cs_retentions check)" if cu: "sg_carriedUsed st' = Some fs" for fs
  proof -
    have fresh: "\<not> sg_started fresh_scan" "sg_carriedUsed fresh_scan = None" by (simp_all add: fresh_scan_def)
    have views: "list_all readable (map snd ?files)" using through_readable [OF st'(1)] by (simp add: list_all_iff)
    from through_seeds [OF st'(1)] fresh cu have "seeds env (map snd ?files) (cs_retentions check) (hd (chain_lines env ?files)) (Some fs)"
      by (auto split: if_splits)
    then obtain seq prev f t where "resolvePrunedPrefix env seq prev (map snd ?files) (cs_retentions check) = Seeded f t (Some fs)"
      unfolding seeds_def by blast
    with resolve_carried(2) [OF views] show ?thesis by blast
  qed
  show "carried = None \<Longrightarrow> synced env (adopt resume L)"
  proof -
    assume n: "carried = None"
    then have re: "resume = resume_of sealed" "sg_carriedUsed st' = None" using r fin(4)
      by (auto simp: resume_after_def split: if_splits option.splits)
    from sealed_run [OF st'(1), of "[]"] re(2) obtain c where c: "chain_run env ?S fresh_core ?S = Some c" "tracks st' c" unfolding S by auto
    have "co_bound c = None" using c(2) re(2) st'(2) by (simp add: tracks_def bounds_match_def)
    then have "disk_core env path (lg_disk L) c" using rd c(1) by (simp add: disk_core_def all)
    moreover have "in_step env (adopt resume L) c" using c(2) fin af nolines L(1)
      by (simp add: in_step_def adopt_def re(1) resume_of_def tracks_def)
    ultimately show "synced env (adopt resume L)" using A unfolding synced_def by metis
  qed
  show "clean_fields fs" if "carried = Some fs"
    using that r clean carriedIn fin(4) newest_found [of env "cs_retentions check"]
    by (auto simp: resume_after_def split: if_splits option.splits)
  assume fs: "carried = Some fs" and g: "good_record env rc" "ar_event rc = RETENTION_EVENT" "ar_fields rc = fs"
    and at: "ar_seq rc = lg_seq (adopt resume L) + 1" "ar_prev rc = lg_prev (adopt resume L)"
  have noanchor: "core_anchor env (checked_of rc) c" for c
    using g(2) by (simp add: core_anchor_def checked_of_def ANCHOR_EVENT_def RETENTION_EVENT_def)
  show "extends env (adopt resume L) rc"
  proof (cases "cs_lastSeq sealed = 0 \<and> cs_retentions check \<noteq> []")
    case False
    then have re: "resume = resume_of sealed" "sg_carriedUsed st' = Some fs" using r fin(4) fs
      by (auto simp: resume_after_def split: if_splits option.splits)
    have "\<exists>c. chain_run env (chain_lines env ?files @ [record_line env rc]) fresh_core (chain_lines env ?files) = Some c \<and> tracks st' c"
      by (rule sealed_run [OF st'(1)]) (use re(2) g in auto)
    then obtain c where c: "chain_run env (?S @ [record_line env rc]) fresh_core ?S = Some c" "tracks st' c" unfolding S by blast
    have started: "co_started c" using c(2) re(2) unfolding tracks_def by auto
    have start: "core_start env (?S @ [record_line env rc]) (record_line env rc) c = Some c" using started by (simp add: core_start_def)
    have bound: "case co_bound c of None \<Rightarrow> True | Some b \<Rightarrow> names_fields fs b"
      using c(2) re(2) by (simp add: tracks_def bounds_match_def)
    have head: "co_lastSeq c = lg_seq (adopt resume L)" "co_prev c = lg_prev (adopt resume L)" "co_frontier c = lg_frontier (adopt resume L)"
      "lg_activeFirst (adopt resume L) = lg_seq (adopt resume L) + 1"
      using c(2) fin af by (simp_all add: adopt_def re(1) resume_of_def tracks_def)
    have hex: "hex_frontier (lg_frontier (adopt resume L))" using chain_run_hex [OF sha c(1) hex_fresh] head(3) by simp
    show ?thesis unfolding extends_def Let_def A(1) [symmetric] A(2) all nolines
      using c(1) start at head bound hex rd g noanchor
      by (intro conjI exI [of _ c]) (auto split: option.splits)
  next
    case True
    then obtain sq hash f where nb: "newestBoundary env (cs_retentions check) = Some (sq, hash, fs, f)"
      and re: "resume = \<lparr>rp_lastSeq = sq, rp_lastHash = hash, rp_frontier = f, rp_sinceAnchor = 0, rp_activeFirst = sq + 1\<rparr>"
      using r fs by (auto simp: resume_after_def split: option.splits)
    from newest_found [OF nb] obtain t where t: "obj_get fs ''throughSeq'' = JNum (Fin (of_nat sq))"
      "obj_get fs ''throughHash'' = JStr hash" "decodeFrontier env (obj_get fs ''frontier'') = Some (f, t)" "fr_size f = sq" by blast
    have pos: "0 < sq" using g(1,3) t(1) by (cases sq) (simp_all add: good_record_def)
    have e: "?S = []" using through_pos [OF st'(1)] True fin(1) unfolding S by fastforce
    have head: "lg_seq (adopt resume L) = sq" "lg_prev (adopt resume L) = hash" "lg_frontier (adopt resume L) = f" "lg_activeFirst (adopt resume L) = sq + 1"
      by (simp_all add: adopt_def re)
    have peek: "peekHead env (record_line env rc) = Some (int (sq + 1), hash)" using peek_made [OF g(1)] at head by simp
    have "boundary_fields env (int sq) hash [record_line env rc] = Some fs"
      using boundary_of_line [OF g(1,2), of "int sq" hash] t(1,2) g(3) by simp
    then have pre: "prefix_of env [record_line env rc] (int (sq + 1)) hash = Some (f, t)" using t(3,4) by (simp add: prefix_of_def)
    let ?c = "\<lparr>co_frontier = f, co_lastSeq = sq, co_prev = hash, co_started = True, co_bound = Some (sq, hash, t)\<rparr>"
    have start: "core_start env ([] @ [record_line env rc]) (record_line env rc) fresh_core = Some ?c"
      using peek pre pos by (simp add: core_start_def)
    have names: "names_fields fs (sq, hash, t)" using t decodeFrontier_hex by (auto simp: names_fields_def)
    show ?thesis unfolding extends_def Let_def A(1) [symmetric] A(2) all nolines e
      using start at head names rd g noanchor decodeFrontier_hex [OF t(3)]
      by (intro conjI exI [of _ fresh_core] exI [of _ ?c]) auto
  qed
qed

end
