(* ===== verification/Audit_Keeps.thy ===== *)
theory Audit_Keeps
  imports Audit_Resume
begin

text \<open>
  Every operation of the log but pruning keeps \<open>log_ok\<close>: whenever the file on disk is the one the log expects, the
  directory verifies and ends in the log's head.
\<close>

subsection \<open>What only grows\<close>

definition grew :: "audit_log \<Rightarrow> audit_log \<Rightarrow> bool" where
  "grew L L' \<longleftrightarrow> lg_path L' = lg_path L \<and> (\<exists>rs. lg_tried L' = lg_tried L @ rs)"

lemma grew_refl: "lg_path L' = lg_path L \<Longrightarrow> lg_tried L' = lg_tried L \<Longrightarrow> grew L L'"
  by (simp add: grew_def)

lemma grew_trans: "grew L L' \<Longrightarrow> grew L' L'' \<Longrightarrow> grew L L''"
  by (auto simp: grew_def)

lemma grew_good: "grew L L' \<Longrightarrow> \<forall>r \<in> set (lg_tried L'). good_record env r \<Longrightarrow> \<forall>r \<in> set (lg_tried L). good_record env r"
  by (auto simp: grew_def)

lemma refresh_same [simp]: "lg_path (refreshFingerprint L) = lg_path L" "lg_tried (refreshFingerprint L) = lg_tried L"
  by (simp_all add: refreshFingerprint_def with_disk_eq)

lemma adopt_same [simp]: "lg_path (adopt r L) = lg_path L" "lg_tried (adopt r L) = lg_tried L" "lg_disk (adopt r L) = lg_disk L"
  by (simp_all add: adopt_def)

lemma seal_same: "lg_path (snd (seal L)) = lg_path L \<and> lg_tried (snd (seal L)) = lg_tried L"
  by (auto simp: seal_def with_disk_eq Let_def split: prod.splits bool.splits if_splits)

lemma roll_back_same: "lg_path (roll_back label n L) = lg_path L \<and> lg_tried (roll_back label n L) = lg_tried L"
  by (simp add: roll_back_def with_disk_eq Let_def)

lemma append_record_same: "lg_path (snd (append_record env r created label n L)) = lg_path L
    \<and> lg_tried (snd (append_record env r created label n L)) = lg_tried L"
  using roll_back_same by (auto simp: append_record_def with_disk_eq Let_def split: prod.split bool.split sum.split)

lemma writeRecord_grew: "grew L (snd (writeRecord env event fs label L))"
proof -
  obtain t ts where t: "stamp L = (t, L\<lparr>lg_stamps := ts\<rparr>)" using stamp_eq by blast
  show ?thesis unfolding writeRecord_eq t using seal_same append_record_same
    by (auto simp: grew_def with_disk_eq Let_def case_prod_beta)
qed

lemma recoverFrom_cases:
  assumes r: "recoverFrom env check L = (res, L')"
  obtains (verified) n h where "cs_verification check = Verified n h" "res = None" "L' = L"
  | (refused) ts where "res \<noteq> None" "L' = L\<lparr>lg_stamps := ts, lg_disk := lg_disk L'\<rparr>"
      "dk_lookups (lg_disk L) = [] \<Longrightarrow> same_files (lg_disk L) (lg_disk L')"
      "lg_disk L' \<in> {lg_disk L, snd (scanDisk env (lg_path L) True (cs_retentions check) (lg_disk L))}
        \<or> (\<exists>q. lg_disk L' = snd (rename_call (lg_path L) q (snd (scanDisk env (lg_path L) True (cs_retentions check) (lg_disk L)))))"
  | (resumed) sealed d1 n h resume carried q d2 ts where
      "scanDisk env (lg_path L) True (cs_retentions check) (lg_disk L) = (sealed, d1)" "cs_verification sealed = Verified n h"
      "resume_after check sealed env = Some (resume, carried)" "\<exists>x. q = lg_path L @ ''.corrupt-'' @ x"
      "rename_call (lg_path L) q d1 = (True, d2)" "carried = None" "res = None"
      "L' = notify (MovedTo q) (adopt resume (L\<lparr>lg_stamps := ts, lg_disk := d2\<rparr>))"
  | (carried) sealed d1 n h resume fs q d2 ts L3 rc where
      "scanDisk env (lg_path L) True (cs_retentions check) (lg_disk L) = (sealed, d1)" "cs_verification sealed = Verified n h"
      "resume_after check sealed env = Some (resume, Some fs)" "\<exists>x. q = lg_path L @ ''.corrupt-'' @ x"
      "rename_call (lg_path L) q d1 = (True, d2)"
      "writeRecord env RETENTION_EVENT fs ''carried boundary'' (adopt resume (L\<lparr>lg_stamps := ts, lg_disk := d2\<rparr>)) = (Some rc, L3)"
      "res = None" "L' = notify (MovedTo q) (L3\<lparr>lg_sinceAnchor := lg_sinceAnchor L3 + 1\<rparr>)"
  | (dropped) sealed d1 n h resume fs q d2 ts L3 where
      "scanDisk env (lg_path L) True (cs_retentions check) (lg_disk L) = (sealed, d1)" "cs_verification sealed = Verified n h"
      "resume_after check sealed env = Some (resume, Some fs)" "\<exists>x. q = lg_path L @ ''.corrupt-'' @ x"
      "rename_call (lg_path L) q d1 = (True, d2)"
      "writeRecord env RETENTION_EVENT fs ''carried boundary'' (adopt resume (L\<lparr>lg_stamps := ts, lg_disk := d2\<rparr>)) = (None, L3)"
      "res \<noteq> None" "L' = L3\<lparr>lg_disk := snd (rename_call q (lg_path L3) (lg_disk L3)), lg_expected := None\<rparr>"
proof -
  obtain sealed d1 where sc: "scanDisk env (lg_path L) True (cs_retentions check) (lg_disk L) = (sealed, d1)" by fastforce
  note same1 = scanDisk_clean(1) [OF _ sc]
  show thesis
  proof (cases "cs_verification check")
    case (Verified n h)
    show thesis by (rule verified [OF Verified]) (use r Verified in \<open>simp_all add: recoverFrom_def\<close>)
  next
    case (Broken n b why)
    show thesis
    proof (cases "cs_brokenIn check = lg_path L")
      case False
      show thesis by (rule refused [of "lg_stamps L"]) (use r Broken False in \<open>auto simp: recoverFrom_def\<close>)
    next
      case here: True
      show thesis
      proof (cases "\<exists>n h. cs_verification sealed = Verified n h \<and> resume_after check sealed env \<noteq> None")
        case False
        then have e: "res \<noteq> None \<and> L' = L\<lparr>lg_disk := d1\<rparr>" using r Broken here sc
          by (cases "cs_verification sealed"; cases "resume_after check sealed env") (auto simp: recoverFrom_def with_disk_eq)
        show thesis by (rule refused [of "lg_stamps L"]) (use e same1 sc in auto)
      next
        case True
        then obtain n h resume carried where v: "cs_verification sealed = Verified n h" "resume_after check sealed env = Some (resume, carried)" by auto
        obtain t ts where t: "stamp (L\<lparr>lg_disk := d1\<rparr>) = (t, L\<lparr>lg_disk := d1\<rparr>\<lparr>lg_stamps := ts\<rparr>)" using stamp_eq by blast
        let ?q = "lg_path L @ ''.corrupt-'' @ file_stamp t"
        obtain ok d2 where rn: "rename_call (lg_path L) ?q d1 = (ok, d2)" by fastforce
        have q: "\<exists>x. ?q = lg_path L @ ''.corrupt-'' @ x" by blast
        let ?L2 = "adopt resume (L\<lparr>lg_stamps := ts, lg_disk := d2\<rparr>)"
        have r': "(if ok then case carried of
                          None \<Rightarrow> (None, notify (MovedTo ?q) ?L2)
                        | Some fs \<Rightarrow> (case writeRecord env RETENTION_EVENT fs ''carried boundary'' ?L2 of
                            (None, L) \<Rightarrow> (case with_disk (rename_call ?q (lg_path L)) L of
                              (_, L) \<Rightarrow> (Some ''the boundary could not be written'', L\<lparr>lg_expected := None\<rparr>))
                          | (Some _, L) \<Rightarrow> (None, notify (MovedTo ?q) (L\<lparr>lg_sinceAnchor := lg_sinceAnchor L + 1\<rparr>)))
            else (Some ''cannot be quarantined'', L\<lparr>lg_stamps := ts, lg_disk := d2\<rparr>)) = (res, L')"
          using r Broken here sc v t rn unfolding recoverFrom_def by (cases ok; cases carried) (auto simp: with_disk_def Let_def split: option.splits prod.splits)
        show thesis
        proof (cases ok)
          case False
          show thesis by (rule refused [of ts])
            (use r' False same1 rename_facts(3) [OF rn] same_files_trans sc rn exI [of _ ?q] in \<open>auto simp del: append.simps append_assoc\<close>)
        next
          case ok: True
          have rn: "rename_call (lg_path L) ?q d1 = (True, d2)" using rn ok by simp
          show thesis
          proof (cases carried)
            case None
            show thesis
              by (rule resumed [where ts = ts, OF sc v q rn None]) (use r' ok None in simp_all)
          next
            case (Some fs)
            obtain wr L3 where w: "writeRecord env RETENTION_EVENT fs ''carried boundary'' ?L2 = (wr, L3)" by fastforce
            note vs = v(2) [unfolded Some]
            show thesis
            proof (cases wr)
              case None
              show thesis
                by (rule dropped [OF sc v(1) vs q rn w [unfolded None]]) (use r' ok Some w None in \<open>auto simp: with_disk_eq\<close>)
            next
              case (Some rc)
              show thesis
                by (rule carried [OF sc v(1) vs q rn w [unfolded Some]]) (use r' ok \<open>carried = Some fs\<close> w Some in simp_all)
            qed
          qed
        qed
      qed
    qed
  qed
qed

lemma recoverFrom_grew: "recoverFrom env check L = (res, L') \<Longrightarrow> grew L L'"
proof -
  assume r: "recoverFrom env check L = (res, L')"
  have w: "grew L1 L3" if "writeRecord env event fs label L1 = (wr, L3)" for event fs label L1 wr L3
    using writeRecord_grew [of L1 env event fs label] that by simp
  from r show "grew L L'"
  proof (cases rule: recoverFrom_cases)
    case (refused ts)
    show ?thesis by (intro grew_refl) (subst refused(2), simp)+
  next
    case (carried sealed d1 n h resume fs q d2 ts L3 rc)
    from w [OF carried(6)] show ?thesis unfolding carried(8) by (simp add: grew_def)
  next
    case (dropped sealed d1 n h resume fs q d2 ts L3)
    from w [OF dropped(6)] show ?thesis unfolding dropped(8) by (simp add: grew_def)
  qed (simp_all add: grew_refl)
qed

subsection \<open>Recovery\<close>

lemma quarantine_unsealed: "sealed_range (path @ ''.corrupt-'' @ x) = None"
proof (cases "sealed_range (path @ ''.corrupt-'' @ x)")
  case (Some ab)
  obtain a b where "ab = (a, b)" by (cases ab)
  with sealed_range_facts(1) Some have eq: "path @ ''.corrupt-'' @ x = sealedName a b" by blast
  have c: "CHR ''c'' \<in> set (path @ ''.corrupt-'' @ x)" by simp
  have "\<not> is_digit (CHR ''c'')" by (simp add: is_digit_def)
  with dec_digits have "CHR ''c'' \<notin> set (dec n)" for n by (auto simp: list_all_iff)
  then have "CHR ''c'' \<notin> set (sealedName a b)" by (simp add: sealedName_def)
  then show ?thesis using c unfolding eq by blast
qed simp

lemma rename_unsealed:
  assumes a: "sealed_range a = None" "sealed_range b = None" and r: "rename_call a b d = (ok, d')"
  shows "sealed_part d' = sealed_part d" "disk_ok env d \<Longrightarrow> disk_ok env d'"
proof -
  note f = rename_facts [OF r]
  show p: "sealed_part d' = sealed_part d"
  proof (cases ok)
    case True
    from f(4) [OF this] obtain fl where fl: "dk_files d' = jm_set b fl (jm_delete a (dk_files d))" by blast
    have "sealed_part d' = sealed_part (d\<lparr>dk_files := jm_set b fl (jm_delete a (dk_files d))\<rparr>)" using fl by (simp add: sealed_part_def)
    also have "\<dots> = sealed_part (d\<lparr>dk_files := jm_delete a (dk_files d)\<rparr>)"
      using sealed_part_set [OF a(2), where d = "d\<lparr>dk_files := jm_delete a (dk_files d)\<rparr>" and f = fl] by simp
    finally show ?thesis using sealed_part_delete [OF a(1), where d = d] by simp
  next
    case False
    from f(3) [OF this] show ?thesis by (rule same_files_facts(1))
  qed
  show "disk_ok env d \<Longrightarrow> disk_ok env d'" using f(1,2) well_named_same [OF p, of env] by (simp add: disk_ok_def)
qed

lemma extends_cong:
  "lg_path L' = lg_path L \<Longrightarrow> lg_disk L' = lg_disk L \<Longrightarrow> lg_seq L' = lg_seq L \<Longrightarrow> lg_frontier L' = lg_frontier L \<Longrightarrow>
     lg_activeFirst L' = lg_activeFirst L \<Longrightarrow> extends env L' r = extends env L r"
  by (simp add: extends_def)

lemma writeRecord_carried:
  assumes sha: "sha_format (ae_sha env)" and p: "sealed_range (lg_path L) = None" and ok: "disk_ok env (lg_disk L)"
    and gone: "jm_get (dk_files (lg_disk L)) (lg_path L) = None" and fs: "clean_fields fs"
    and e: "\<And>r. good_record env r \<Longrightarrow> ar_event r = RETENTION_EVENT \<Longrightarrow> ar_fields r = fs \<Longrightarrow> ar_seq r = lg_seq L + 1 \<Longrightarrow>
       ar_prev r = lg_prev L \<Longrightarrow> extends env L r"
    and w: "writeRecord env RETENTION_EVENT fs label L = (res, L')" and good: "\<forall>r \<in> set (lg_tried L'). good_record env r"
  shows "disk_ok env (lg_disk L')" "res \<noteq> None \<Longrightarrow> synced env L'"
proof -
  have lk: "dk_lookups (lg_disk L) = []" using ok by (simp add: disk_ok_def)
  obtain r L0 L1 sealed created where x: "\<exists>ts. r = next_record env RETENTION_EVENT fs ts L"
    "same_head (L\<lparr>lg_tried := lg_tried L @ [r]\<rparr>) L0" "lg_disk L0 = lg_disk L" "lg_activeFirst L0 = lg_activeFirst L"
    "if bytes_of (lg_path L) (lg_disk L) = [] then sealed = False \<and> L1 = L0 else (sealed, L1) = seal L0 \<or> sealed = False \<and> L1 = L0"
    "append_record env r created label (if sealed then 0 else length (bytes_of (lg_path L) (lg_disk L))) L1 = (res, L')"
    by (rule writeRecord_cases [OF lk w])
  note h0 = x(2) [unfolded same_head_def]
  have nb: "bytes_of (lg_path L) (lg_disk L) = []" using gone by (simp add: bytes_of_def)
  with x(5) have L1: "L1 = L0" "\<not> sealed" by simp_all
  have tr: "lg_tried L' = lg_tried L @ [r]" using append_record_tried [OF x(6)] L1 h0 by simp
  have g: "good_record env r" using good tr by simp
  have rr: "ar_seq r = lg_seq L + 1" "ar_prev r = lg_prev L" "ar_event r = RETENTION_EVENT" "ar_fields r = fs"
    using x(1) by (auto simp: next_record_def)
  have made: "made_record env r" using next_made [OF fs, of RETENTION_EVENT L env] g rr(2) x(1)
    by (auto simp: RETENTION_EVENT_def good_record_def)
  have e0: "extends env L0 r" using e [OF g rr(3,4,1,2)] extends_cong [of L0 L env r] h0 x(3,4) by simp
  have p0: "sealed_range (lg_path L0) = None" "disk_ok env (lg_disk L0)" "bytes_of (lg_path L0) (lg_disk L0) = []"
    using p ok nb h0 x(3) by simp_all
  have a: "append_record env r created label (length (bytes_of (lg_path L0) (lg_disk L0))) L0 = (res, L')"
    using x(6) L1 nb p0(3) by simp
  note f = append_record_facts [OF sha p0(1,2) e0 g made a]
  show "disk_ok env (lg_disk L')" "res \<noteq> None \<Longrightarrow> synced env L'" using f(1,2) by blast+
qed

lemma recoverFrom_facts:
  assumes sha: "sha_format (ae_sha env)" and p: "sealed_range (lg_path L) = None" and ok: "disk_ok env (lg_disk L)"
    and clean: "\<forall>fs \<in> set (cs_retentions check). clean_fields fs" and broken: "cs_verification check = Broken n b why"
    and r: "recoverFrom env check L = (res, L')" and good: "\<forall>r \<in> set (lg_tried L'). good_record env r"
  shows "disk_ok env (lg_disk L')" "res = None \<Longrightarrow> synced env L'"
proof -
  have lk: "dk_lookups (lg_disk L) = []" using ok by (simp add: disk_ok_def)
  have moved: "sealed_part d2 = sealed_part (lg_disk L) \<and> disk_ok env d2 \<and> jm_get (dk_files d2) (lg_path L) = None \<and> sealed_range q = None
      \<and> sealed = scanChain env (lg_path L) (seg_files (lg_disk L)) (cs_retentions check)"
    if sc: "scanDisk env (lg_path L) True (cs_retentions check) (lg_disk L) = (sealed, d1)" and v: "cs_verification sealed = Verified n h"
      and q: "\<exists>x. q = lg_path L @ ''.corrupt-'' @ x" and rn: "rename_call (lg_path L) q d1 = (True, d2)" for sealed d1 n h q d2
  proof -
    note s1 = scanDisk_clean [OF lk sc]
    obtain x where "q = lg_path L @ ''.corrupt-'' @ x" using q by blast
    then have uq: "sealed_range q = None" by (simp only: quarantine_unsealed)
    have d1: "disk_ok env d1" using ok same_files_facts(3) [OF s1(1)] by simp
    have pt: "sealed_part d2 = sealed_part (lg_disk L)" using rename_unsealed(1) [OF p uq rn] same_files_facts(1) [OF s1(1)] by simp
    have "q \<noteq> lg_path L" using q by auto
    then have "jm_get (dk_files d2) (lg_path L) = None" using rename_facts(4) [OF rn] by (auto simp: update_conv delete_conv)
    with uq pt rename_unsealed(2) [OF p uq rn d1] s1(2) [OF v] show ?thesis by simp
  qed
  from r have "disk_ok env (lg_disk L') \<and> (res = None \<longrightarrow> synced env L')"
  proof (cases rule: recoverFrom_cases)
    case (verified n h)
    with broken show ?thesis by simp
  next
    case (refused ts)
    from ok same_files_facts(3) [OF refused(3) [OF lk]] refused(1) show ?thesis by auto
  next
    case (resumed sealed d1 n h resume carried q d2 ts)
    note s = moved [OF resumed(1,2,4,5)]
    let ?L = "L\<lparr>lg_stamps := ts, lg_disk := d2\<rparr>"
    have "synced env (adopt resume ?L)"
      by (rule resume_extends(1) [where d = "lg_disk L" and path = "lg_path L", OF p resumed(2) _ clean resumed(3) sha]) (use s resumed(6) in simp_all)
    then have "synced env L'" unfolding resumed(8) by (subst synced_cong [where L = "adopt resume ?L"]) simp_all
    with s show ?thesis unfolding resumed(8) by simp
  next
    case (carried sealed d1 n h resume fs q d2 ts L3 rc)
    note s = moved [OF carried(1,2,4,5)]
    let ?L = "L\<lparr>lg_stamps := ts, lg_disk := d2\<rparr>"
    have cf: "clean_fields fs"
      by (rule resume_extends(2) [where d = "lg_disk L" and path = "lg_path L" and L = ?L, OF p carried(2) _ clean carried(3) sha]) (use s in simp_all)
    have ex: "extends env (adopt resume ?L) r" if "good_record env r" "ar_event r = RETENTION_EVENT" "ar_fields r = fs"
      "ar_seq r = lg_seq (adopt resume ?L) + 1" "ar_prev r = lg_prev (adopt resume ?L)" for r
      by (rule resume_extends(3) [where d = "lg_disk L" and path = "lg_path L" and L = ?L, OF p carried(2) _ clean carried(3) sha _ _ _ refl that]) (use s in simp_all)
    have pre: "sealed_range (lg_path (adopt resume ?L)) = None" "disk_ok env (lg_disk (adopt resume ?L))"
      "jm_get (dk_files (lg_disk (adopt resume ?L))) (lg_path (adopt resume ?L)) = None" using s p by simp_all
    have g: "\<forall>r \<in> set (lg_tried L3). good_record env r" using good unfolding carried(8) by simp
    have ok3: "disk_ok env (lg_disk L3)" by (rule writeRecord_carried(1) [OF sha pre cf _ carried(6) g]) (rule ex)
    have sy3: "synced env L3" by (rule writeRecord_carried(2) [OF sha pre cf _ carried(6) g]) (rule ex, assumption+, simp)
    have "synced env L'" unfolding carried(8) using sy3 by (subst synced_cong [where L = L3]) simp_all
    with ok3 show ?thesis unfolding carried(8) by simp
  next
    case (dropped sealed d1 n h resume fs q d2 ts L3)
    note s = moved [OF dropped(1,2,4,5)]
    let ?L = "L\<lparr>lg_stamps := ts, lg_disk := d2\<rparr>"
    have cf: "clean_fields fs"
      by (rule resume_extends(2) [where d = "lg_disk L" and path = "lg_path L" and L = ?L, OF p dropped(2) _ clean dropped(3) sha]) (use s in simp_all)
    have ex: "extends env (adopt resume ?L) r" if "good_record env r" "ar_event r = RETENTION_EVENT" "ar_fields r = fs"
      "ar_seq r = lg_seq (adopt resume ?L) + 1" "ar_prev r = lg_prev (adopt resume ?L)" for r
      by (rule resume_extends(3) [where d = "lg_disk L" and path = "lg_path L" and L = ?L, OF p dropped(2) _ clean dropped(3) sha _ _ _ refl that]) (use s in simp_all)
    have g: "\<forall>r \<in> set (lg_tried L3). good_record env r" using good unfolding dropped(8) by simp
    have pre: "sealed_range (lg_path (adopt resume ?L)) = None" "disk_ok env (lg_disk (adopt resume ?L))"
      "jm_get (dk_files (lg_disk (adopt resume ?L))) (lg_path (adopt resume ?L)) = None" using s p by simp_all
    have ok3: "disk_ok env (lg_disk L3)" by (rule writeRecord_carried(1) [OF sha pre cf _ dropped(6) g]) (rule ex)
    have "lg_path L3 = lg_path L" using writeRecord_grew [of "adopt resume ?L" env RETENTION_EVENT fs "''carried boundary''"] dropped(6)
      by (simp add: grew_def)
    then have up: "sealed_range (lg_path L3) = None" using p by simp
    obtain ok4 d4 where rn: "rename_call q (lg_path L3) (lg_disk L3) = (ok4, d4)" by fastforce
    have "sealed_range q = None" using s by simp
    from rename_unsealed(2) [OF this up rn ok3] dropped(7) rn show ?thesis unfolding dropped(8) by auto
  qed
  then show "disk_ok env (lg_disk L')" "res = None \<Longrightarrow> synced env L'" by blast+
qed

end
