(* ===== verification/Audit_Trail.thy ===== *)
theory Audit_Trail
  imports Audit_Keeps
begin

text \<open>
  The audit log over whole runs: what a record acknowledged by the log says of the directory, whatever calls have
  failed before and whatever happened to the files in between, as long as the log can see that it did.
\<close>

subsection \<open>Reading the disk before a write\<close>

definition log_ok :: "audit_env \<Rightarrow> audit_log \<Rightarrow> bool" where
  "log_ok env L \<longleftrightarrow> sealed_range (lg_path L) = None \<and> disk_ok env (lg_disk L) \<and> (current L \<longrightarrow> synced env L)"

definition good_tried :: "audit_env \<Rightarrow> audit_log \<Rightarrow> bool" where
  "good_tried env L \<longleftrightarrow> (\<forall>r \<in> set (lg_tried L). good_record env r)"

definition ready :: "audit_env \<Rightarrow> audit_log \<Rightarrow> bool" where
  "ready env L \<longleftrightarrow> log_ok env L \<and> synced env L \<and> current L"

lemma good_before: "grew L L' \<Longrightarrow> good_tried env L' \<Longrightarrow> good_tried env L"
  unfolding good_tried_def by (rule grew_good)

lemma keeps_log_ok: "keeps env L \<Longrightarrow> log_ok env L"
  by (auto simp: keeps_def log_ok_def current_def)

lemma unexpected_ok: "sealed_range (lg_path L) = None \<Longrightarrow> disk_ok env (lg_disk L) \<Longrightarrow> lg_expected L = None \<Longrightarrow> log_ok env L"
  by (simp add: log_ok_def current_def)

lemma log_ok_cong:
  assumes "lg_path L' = lg_path L" "lg_disk L' = lg_disk L" "lg_seq L' = lg_seq L" "lg_prev L' = lg_prev L"
    "lg_frontier L' = lg_frontier L" "lg_activeFirst L' = lg_activeFirst L" "lg_expected L' = lg_expected L"
  shows "log_ok env L' = log_ok env L" "ready env L' = ready env L"
proof -
  have "synced env L' = synced env L" by (rule synced_cong) (use assms in simp_all)
  with assms show "log_ok env L' = log_ok env L" "ready env L' = ready env L"
    by (simp_all add: log_ok_def ready_def current_def)
qed

lemma refresh_ready:
  assumes "sealed_range (lg_path L) = None" "disk_ok env (lg_disk L)" "synced env L"
  shows "ready env (refreshFingerprint L)"
proof -
  have lk: "dk_lookups (lg_disk L) = []" using assms(2) by (simp add: disk_ok_def)
  have "synced env (refreshFingerprint L) = synced env L" by (rule synced_cong) (use lk in simp_all)
  with assms lk show ?thesis by (simp add: ready_def log_ok_def current_def)
qed

lemma scanDisk_retentions: "scanDisk env path only carried d = (sc, d') \<Longrightarrow> fs \<in> set (cs_retentions sc) \<Longrightarrow> clean_fields fs"
  by (auto simp: scanDisk_def Let_def dest: retentions_clean split: prod.splits)

lemma adoptDisk_grew: "adoptDisk env L = (ok, L') \<Longrightarrow> grew L L'"
proof -
  assume a: "adoptDisk env L = (ok, L')"
  obtain check d1 where sc: "scanDisk env (lg_path L) False [] (lg_disk L) = (check, d1)" by fastforce
  obtain r L2 where r: "recoverFrom env check (L\<lparr>lg_disk := d1\<rparr>) = (r, L2)" by fastforce
  have "grew L L2" using recoverFrom_grew [OF r] by (simp add: grew_def)
  with a sc r show "grew L L'"
    by (cases r) (auto simp: adoptDisk_def with_disk_def Let_def grew_def split: audit_verdict.splits if_splits)
qed

lemma adoptDisk_facts:
  assumes sha: "sha_format (ae_sha env)" and p: "sealed_range (lg_path L) = None" and ok: "disk_ok env (lg_disk L)"
    and a: "adoptDisk env L = (res, L')" and good: "good_tried env L'"
  shows "log_ok env L'" "res \<Longrightarrow> ready env L'"
proof -
  have lk: "dk_lookups (lg_disk L) = []" using ok by (simp add: disk_ok_def)
  obtain check d1 where sc: "scanDisk env (lg_path L) False [] (lg_disk L) = (check, d1)" by fastforce
  note s = scanDisk_clean(1) [OF lk sc]
  let ?L = "L\<lparr>lg_disk := d1\<rparr>"
  have d1: "disk_ok env d1" using ok same_files_facts(3) [OF s] by simp
  have "log_ok env L' \<and> (res \<longrightarrow> ready env L')"
  proof (cases "cs_verification check")
    case (Verified n h)
    let ?L1 = "if cs_lastSeq check \<noteq> lg_seq ?L \<or> cs_lastHash check \<noteq> lg_prev ?L then notify ChangedOutside ?L else ?L"
    have L1: "lg_path ?L1 = lg_path L" "lg_disk ?L1 = d1" by auto
    have "synced env (adopt (resume_of check) ?L1)"
      by (rule adopt_synced [OF p lk sc Verified]) (use L1 s in simp_all)
    then have "ready env (refreshFingerprint (adopt (resume_of check) ?L1))" using p d1 L1 by (intro refresh_ready) simp_all
    moreover have "res = True" "L' = refreshFingerprint (adopt (resume_of check) ?L1)"
      using a sc Verified by (simp_all add: adoptDisk_def with_disk_def Let_def)
    ultimately show ?thesis by (simp add: ready_def)
  next
    case (Broken n b why)
    obtain r L2 where r: "recoverFrom env check ?L = (r, L2)" by fastforce
    show ?thesis
    proof (cases "b = 0")
      case True
      with a sc Broken have "\<not> res" "L' = (report ''cannot verify; record dropped'' ?L)\<lparr>lg_expected := None\<rparr>"
        by (simp_all add: adoptDisk_def with_disk_def)
      with p d1 show ?thesis by (auto intro: unexpected_ok)
    next
      case False
      have L': "L' = (case r of Some m \<Rightarrow> (report m L2)\<lparr>lg_expected := None\<rparr> | None \<Rightarrow> refreshFingerprint L2)" "res \<longleftrightarrow> r = None"
        using a sc Broken False r by (auto simp: adoptDisk_def with_disk_def split: option.splits)
      have "lg_tried L2 = lg_tried L'" using L' by (cases r) simp_all
      then have g: "\<forall>r \<in> set (lg_tried L2). good_record env r" using good by (simp add: good_tried_def)
      have p1: "sealed_range (lg_path ?L) = None" and ok1: "disk_ok env (lg_disk ?L)" using p d1 by simp_all
      have cl: "\<forall>fs \<in> set (cs_retentions check). clean_fields fs" using scanDisk_retentions [OF sc] by blast
      note f = recoverFrom_facts [OF sha p1 ok1 cl Broken r g]
      have p2: "sealed_range (lg_path L2) = None" using recoverFrom_grew [OF r] p by (simp add: grew_def)
      show ?thesis
      proof (cases r)
        case None
        with f(2) refresh_ready [OF p2 f(1)] L' show ?thesis by (simp add: ready_def)
      next
        case (Some m)
        with L' f(1) p2 show ?thesis by (auto intro: unexpected_ok)
      qed
    qed
  qed
  then show "log_ok env L'" "res \<Longrightarrow> ready env L'" by blast+
qed

lemma ensureDisk_current:
  assumes "dk_lookups (lg_disk L) = []"
  shows "ensureDisk env L = (if current L then (True, L) else adoptDisk env L)"
proof (cases "lg_expected L")
  case None
  then show ?thesis by (simp add: ensureDisk_def current_def)
next
  case (Some fp)
  with assms show ?thesis by (auto simp: ensureDisk_def current_def with_disk_eq lookup_none sameIdentity_def)
qed

lemma ensureDisk_grew: "ensureDisk env L = (ok, L') \<Longrightarrow> grew L L'"
proof -
  assume e: "ensureDisk env L = (ok, L')"
  have g: "grew L L'" if a: "adoptDisk env (L\<lparr>lg_disk := d\<rparr>) = (ok, L')" for d
    using adoptDisk_grew [OF a] by (simp add: grew_def)
  have same: "L\<lparr>lg_disk := lg_disk L\<rparr> = L" by simp
  show "grew L L'"
  proof (cases "lg_expected L")
    case None
    with e have "adoptDisk env (L\<lparr>lg_disk := lg_disk L\<rparr>) = (ok, L')" unfolding same by (simp add: ensureDisk_def)
    then show ?thesis by (rule g)
  next
    case (Some fp)
    with e g show ?thesis by (auto simp: ensureDisk_def with_disk_eq grew_refl split: if_splits)
  qed
qed

lemma ensureDisk_facts:
  assumes sha: "sha_format (ae_sha env)" and ok: "log_ok env L" and e: "ensureDisk env L = (res, L')" and good: "good_tried env L'"
  shows "log_ok env L'" "res \<Longrightarrow> ready env L'"
proof -
  have p: "sealed_range (lg_path L) = None" "disk_ok env (lg_disk L)" using ok by (simp_all add: log_ok_def)
  have lk: "dk_lookups (lg_disk L) = []" using p(2) by (simp add: disk_ok_def)
  have "log_ok env L' \<and> (res \<longrightarrow> ready env L')"
  proof (cases "current L")
    case True
    with e ok show ?thesis by (simp add: ensureDisk_current [OF lk] ready_def log_ok_def)
  next
    case False
    with e have "adoptDisk env L = (res, L')" by (simp add: ensureDisk_current [OF lk])
    from adoptDisk_facts [OF sha p this good] show ?thesis by blast
  qed
  then show "log_ok env L'" "res \<Longrightarrow> ready env L'" by blast+
qed

subsection \<open>Appending\<close>

lemma writeRecord_result:
  assumes "dk_lookups (lg_disk L) = []" "writeRecord env event fs label L = (Some r, L')"
  shows "ar_event r = event \<and> ar_fields r = fs"
proof -
  obtain r' L0 L1 sealed created where x: "\<exists>ts. r' = next_record env event fs ts L" "same_head (L\<lparr>lg_tried := lg_tried L @ [r']\<rparr>) L0"
    "lg_disk L0 = lg_disk L" "lg_activeFirst L0 = lg_activeFirst L"
    "if bytes_of (lg_path L) (lg_disk L) = [] then sealed = False \<and> L1 = L0 else (sealed, L1) = seal L0 \<or> sealed = False \<and> L1 = L0"
    "append_record env r' created label (if sealed then 0 else length (bytes_of (lg_path L) (lg_disk L))) L1 = (Some r, L')"
    by (rule writeRecord_cases [OF assms])
  from x(6) have "r = r'" by (auto simp: append_record_def with_disk_eq Let_def split: bool.splits sum.splits)
  with x(1) show ?thesis by (auto simp: next_record_def)
qed

lemma appendLine_grew: "appendLine env event fs label L = (res, L') \<Longrightarrow> grew L L'"
proof -
  assume a: "appendLine env event fs label L = (res, L')"
  obtain ok L1 where e: "ensureDisk env L = (ok, L1)" by fastforce
  show "grew L L'"
  proof (cases ok)
    case True
    with a e have "L' = snd (writeRecord env event fs label L1)" by (simp add: appendLine_def)
    with grew_trans [OF ensureDisk_grew [OF e] writeRecord_grew] show ?thesis by simp
  next
    case False
    with a e ensureDisk_grew [OF e] show ?thesis by (simp add: appendLine_def)
  qed
qed

lemma appendLine_facts:
  assumes sha: "sha_format (ae_sha env)" and ok: "log_ok env L" and fs: "clean_fields fs" "event \<noteq> []"
    and anchor: "\<And>L1. ensureDisk env L = (True, L1) \<Longrightarrow> anchor_for env event fs L1"
    and a: "appendLine env event fs label L = (res, L')" and good: "good_tried env L'"
  shows "log_ok env L'" "res = Some r \<Longrightarrow> ready env L' \<and> lg_seq L' = ar_seq r \<and> lg_prev L' = ar_hash r \<and> ar_event r = event \<and> ar_fields r = fs
       \<and> (\<exists>ls. all_lines env (lg_path L') (lg_disk L') = ls @ [record_line env r])"
proof -
  obtain opened L1 where e: "ensureDisk env L = (opened, L1)" by fastforce
  have "log_ok env L' \<and> (res = Some r \<longrightarrow> ready env L' \<and> lg_seq L' = ar_seq r \<and> lg_prev L' = ar_hash r \<and> ar_event r = event \<and> ar_fields r = fs
       \<and> (\<exists>ls. all_lines env (lg_path L') (lg_disk L') = ls @ [record_line env r]))"
  proof (cases opened)
    case False
    with a e have eq: "res = None" "L' = L1" by (simp_all add: appendLine_def)
    from ensureDisk_facts(1) [OF sha ok e] good eq show ?thesis by simp
  next
    case True
    with a e have w: "writeRecord env event fs label L1 = (res, L')" by (simp add: appendLine_def)
    have "grew L1 L'" using writeRecord_grew [of L1 env event fs label] w by simp
    then have "good_tried env L1" using good by (rule good_before)
    from ensureDisk_facts(2) [OF sha ok e this] True have r1: "ready env L1" by simp
    then have x: "sealed_range (lg_path L1) = None" "disk_ok env (lg_disk L1)" "synced env L1" by (simp_all add: ready_def log_ok_def)
    have af: "anchor_for env event fs L1" using anchor e True by simp
    note ws = writeRecord_synced [OF sha x fs af w good [unfolded good_tried_def]]
    have lk: "dk_lookups (lg_disk L1) = []" using x(2) by (simp add: disk_ok_def)
    have "log_ok env L'" by (rule keeps_log_ok [OF ws(2)])
    then show ?thesis using ws(1) w writeRecord_result [OF lk, of env event fs label r L'] by (auto simp: written_def ready_def)
  qed
  then show "log_ok env L'" "res = Some r \<Longrightarrow> ready env L' \<and> lg_seq L' = ar_seq r \<and> lg_prev L' = ar_hash r \<and> ar_event r = event \<and> ar_fields r = fs
       \<and> (\<exists>ls. all_lines env (lg_path L') (lg_disk L') = ls @ [record_line env r])"
    by blast+
qed

lemma notifyAppended_simps [simp]: "lg_path (notifyAppended r L) = lg_path L" "lg_disk (notifyAppended r L) = lg_disk L"
  "lg_seq (notifyAppended r L) = lg_seq L" "lg_prev (notifyAppended r L) = lg_prev L" "lg_frontier (notifyAppended r L) = lg_frontier L"
  "lg_activeFirst (notifyAppended r L) = lg_activeFirst L" "lg_expected (notifyAppended r L) = lg_expected L"
  "lg_tried (notifyAppended r L) = lg_tried L"
  by (simp_all add: notifyAppended_def)

subsection \<open>Anchors and records\<close>

lemma anchorIfDue_grew: "grew L (anchorIfDue env L)"
proof -
  obtain ok L1 where e: "ensureDisk env L = (ok, L1)" by fastforce
  note g = ensureDisk_grew [OF e]
  have a: "grew L L2" if "appendLine env ANCHOR_EVENT fs ''anchor'' L1 = (res, L2)" for fs res L2
    using grew_trans [OF g appendLine_grew [OF that]] .
  show ?thesis
  proof (cases "lg_closed L \<or> lg_sinceAnchor L < lg_anchorEvery L \<or> \<not> ok \<or> lg_sinceAnchor L1 < lg_anchorEvery L1")
    case True
    with e g show ?thesis by (cases ok) (auto simp: anchorIfDue_def grew_refl)
  next
    case False
    show ?thesis
    proof (cases "frontier_root (ae_sha env) (lg_frontier L1)")
      case (Inl x)
      with False e g show ?thesis by (simp add: anchorIfDue_def)
    next
      case (Inr rt)
      obtain res L2 where ap: "appendLine env ANCHOR_EVENT [(''through'', JNum (Fin (of_nat (lg_seq L1)))), (''root'', JStr rt)] ''anchor'' L1 = (res, L2)" by fastforce
      from a [OF ap] False e Inr ap show ?thesis by (cases res) (simp_all add: anchorIfDue_def grew_def)
    qed
  qed
qed

lemma anchorIfDue_facts:
  assumes sha: "sha_format (ae_sha env)" and ok: "log_ok env L" and good: "good_tried env (anchorIfDue env L)"
  shows "log_ok env (anchorIfDue env L)"
proof -
  obtain opened L1 where e: "ensureDisk env L = (opened, L1)" by fastforce
  show ?thesis
  proof (cases "lg_closed L \<or> lg_sinceAnchor L < lg_anchorEvery L")
    case True
    with ok show ?thesis by (simp add: anchorIfDue_def)
  next
    case due: False
    show ?thesis
    proof (cases "opened \<and> \<not> lg_sinceAnchor L1 < lg_anchorEvery L1 \<and> (\<exists>rt. frontier_root (ae_sha env) (lg_frontier L1) = Inr rt)")
      case False
      then have eq: "anchorIfDue env L = L1" using due e
        by (cases opened; cases "frontier_root (ae_sha env) (lg_frontier L1)") (auto simp: anchorIfDue_def)
      with ensureDisk_facts(1) [OF sha ok e] good show ?thesis by simp
    next
      case True
      then obtain rt where rt: "frontier_root (ae_sha env) (lg_frontier L1) = Inr rt" by blast
      let ?fs = "[(''through'', JNum (Fin (of_nat (lg_seq L1)))), (''root'', JStr rt)]"
      obtain res L2 where ap: "appendLine env ANCHOR_EVENT ?fs ''anchor'' L1 = (res, L2)" by fastforce
      have eq: "anchorIfDue env L = (case res of None \<Rightarrow> L2 | Some r \<Rightarrow> notifyAppended r (L2\<lparr>lg_sinceAnchor := 0\<rparr>))"
        using True due e rt ap by (cases res) (simp_all add: anchorIfDue_def)
      then have g2: "good_tried env L2" using good by (cases res) (simp_all add: good_tried_def)
      have r1: "ready env L1" using ensureDisk_facts(2) [OF sha ok e good_before [OF appendLine_grew [OF ap] g2]] True by blast
      then have l1: "log_ok env L1" "current L1" "dk_lookups (lg_disk L1) = []" by (simp_all add: ready_def log_ok_def disk_ok_def)
      have cl: "clean_fields ?fs" by (simp add: clean_fields_def flat_def primitive_def is_finite_def)
      have af: "anchor_for env ANCHOR_EVENT ?fs L'" if "ensureDisk env L1 = (True, L')" for L'
        using that l1 rt by (simp add: ensureDisk_current anchor_for_def obj_get_def)
      have ne: "ANCHOR_EVENT \<noteq> []" by (simp add: ANCHOR_EVENT_def)
      have "log_ok env L2" by (rule appendLine_facts(1) [OF sha l1(1) cl ne _ ap g2]) (rule af)
      moreover have "log_ok env (notifyAppended r (L2\<lparr>lg_sinceAnchor := 0\<rparr>)) = log_ok env L2" for r
        by (rule log_ok_cong) simp_all
      ultimately show ?thesis unfolding eq by (simp split: option.split)
    qed
  qed
qed

lemma commit_facts:
  assumes sha: "sha_format (ae_sha env)" and ok: "log_ok env L" and good: "good_tried env (commit env r L)"
  shows "log_ok env (commit env r L)"
proof -
  have "log_ok env (notifyAppended r (L\<lparr>lg_sinceAnchor := lg_sinceAnchor L + 1\<rparr>)) = log_ok env L" by (rule log_ok_cong) simp_all
  with anchorIfDue_facts [OF sha] ok good show ?thesis by (simp add: commit_def)
qed

lemma commit_grew: "grew L (commit env r L)"
  using anchorIfDue_grew [of "notifyAppended r (L\<lparr>lg_sinceAnchor := lg_sinceAnchor L + 1\<rparr>)" env] by (simp add: commit_def grew_def)

subsection \<open>The fields of an event\<close>

text \<open>A member kept: where it comes from, and what it looks like.\<close>

definition kept_from :: "char \<Rightarrow> (string \<times> js option) list \<Rightarrow> string \<times> js \<Rightarrow> bool" where
  "kept_from ellipsis given e \<longleftrightarrow> (\<exists>raw v. (raw, Some v) \<in> set given \<and> \<not> secret_key raw \<and> fst e = cleanString ellipsis raw
     \<and> clean_value ellipsis v = Some (snd e))"

definition tidy :: "string \<Rightarrow> bool" where
  "tidy s \<longleftrightarrow> length s \<le> MAX_STRING \<and> (\<forall>c \<in> set s. \<not> is_control c)"

lemma cleanString_tidy: "\<not> is_control ellipsis \<Longrightarrow> tidy (cleanString ellipsis s)"
  by (auto simp: tidy_def cleanString_def Let_def MAX_STRING_def dest: in_set_takeD)

lemma sanitize_kept:
  "(\<And>e. e \<in> set out \<Longrightarrow> kept_from ellipsis given e) \<Longrightarrow> set members \<subseteq> set given \<Longrightarrow> e \<in> set (sanitize ellipsis members out) \<Longrightarrow> kept_from ellipsis given e"
proof (induction ellipsis members out rule: sanitize.induct)
  case (2 ellipsis rawKey raw rest out)
  show ?case
  proof (cases "MAX_KEYS \<le> length out \<or> secret_key rawKey \<or> cleanString ellipsis rawKey = [] \<or> cleanString ellipsis rawKey \<in> set (map fst out)
      \<or> cleanString ellipsis rawKey \<in> set PROTOTYPE_NAMES \<or> Option.bind raw (clean_value ellipsis) = None")
    case True
    with 2 show ?thesis by (auto simp: Let_def split: if_splits)
  next
    case False
    then obtain v w where v: "raw = Some w" "clean_value ellipsis w = Some v" by (cases raw) auto
    have "kept_from ellipsis given (cleanString ellipsis rawKey, v)" using False v 2(6) by (auto simp: kept_from_def)
    moreover have "e \<in> set (sanitize ellipsis rest (out @ [(cleanString ellipsis rawKey, v)]))" using 2(7) False v by (simp add: Let_def)
    ultimately show ?thesis using 2(4) [OF _ _ refl] False v 2(5,6) by auto
  qed
qed simp

definition shaped :: "fields \<Rightarrow> bool" where
  "shaped fs \<longleftrightarrow> distinct (map fst fs) \<and> length fs \<le> MAX_KEYS \<and> (\<forall>k \<in> set (map fst fs). k \<noteq> [] \<and> k \<notin> set PROTOTYPE_NAMES)"

lemma sanitize_shape: "shaped out \<Longrightarrow> shaped (sanitize ellipsis members out)"
proof (induction ellipsis members out rule: sanitize.induct)
  case (2 ellipsis rawKey raw rest out)
  show ?case
  proof (cases "MAX_KEYS \<le> length out \<or> secret_key rawKey \<or> cleanString ellipsis rawKey = [] \<or> cleanString ellipsis rawKey \<in> set (map fst out)
      \<or> cleanString ellipsis rawKey \<in> set PROTOTYPE_NAMES \<or> Option.bind raw (clean_value ellipsis) = None")
    case True
    with 2 show ?thesis by (auto simp: Let_def)
  next
    case False
    then obtain v where v: "Option.bind raw (clean_value ellipsis) = Some v" by auto
    from False v have "sanitize ellipsis ((rawKey, raw) # rest) out = sanitize ellipsis rest (out @ [(cleanString ellipsis rawKey, v)])" by (simp add: Let_def)
    moreover have "shaped (out @ [(cleanString ellipsis rawKey, v)])" using False 2(5) by (auto simp: shaped_def)
    ultimately show ?thesis using 2(4) [OF _ _ refl _ v] False by simp
  qed
qed simp

lemma own_order_facts: "set (own_order fs) = set fs" "length (own_order fs) = length fs" "distinct (map fst fs) \<Longrightarrow> distinct (map fst (own_order fs))"
proof -
  show s: "set (own_order fs) = set fs" by (auto simp: own_order_def)
  show l: "length (own_order fs) = length fs" by (simp add: own_order_def sum_length_filter_compl comp_def)
  show "distinct (map fst fs) \<Longrightarrow> distinct (map fst (own_order fs))"
    using s l by (metis card_distinct distinct_card length_map set_map)
qed

lemma clean_value_primitive: "clean_value ellipsis v = Some w \<Longrightarrow> primitive w \<and> (case w of JStr s \<Rightarrow> \<exists>t. s = cleanString ellipsis t | _ \<Rightarrow> True)"
  by (auto simp: clean_value_def primitive_def split: js.splits if_splits)

lemma sanitized_clean: "clean_fields (sanitizeFields ellipsis given)"
proof (cases given)
  case (Some ms)
  let ?out = "sanitize ellipsis ms []"
  have shape: "shaped ?out" by (rule sanitize_shape) (simp add: shaped_def)
  have "\<forall>e \<in> set ?out. primitive (snd e)"
    using sanitize_kept [of "[]" ellipsis ms ms] clean_value_primitive by (fastforce simp: kept_from_def)
  with shape own_order_facts [of ?out] show ?thesis unfolding Some
    by (auto simp: sanitizeFields_def clean_fields_def flat_def list_all_iff shaped_def PROTOTYPE_NAMES_def)
qed (simp add: sanitizeFields_def clean_fields_def flat_def)

subsection \<open>Runs\<close>

lemma record_event_grew: "grew L (record_event env ellipsis event given L)"
proof -
  obtain res L1 where a: "appendLine env event (sanitizeFields ellipsis given) ''record'' L = (res, L1)" by fastforce
  note g = appendLine_grew [OF a]
  show ?thesis
  proof (cases res)
    case None
    with a g show ?thesis by (auto simp: record_event_def grew_refl)
  next
    case (Some r)
    with a grew_trans [OF g commit_grew, of env r] show ?thesis by (auto simp: record_event_def grew_refl)
  qed
qed

lemma record_event_facts:
  assumes sha: "sha_format (ae_sha env)" and ok: "log_ok env L" and ev: "event \<noteq> []"
    and good: "good_tried env (record_event env ellipsis event given L)"
  shows "log_ok env (record_event env ellipsis event given L)"
proof (cases "lg_closed L \<or> event = ANCHOR_EVENT \<or> event = RETENTION_EVENT")
  case True
  have "log_ok env (report m L) = log_ok env L" for m by (rule log_ok_cong) simp_all
  with True ok show ?thesis by (auto simp: record_event_def)
next
  case False
  obtain res L1 where a: "appendLine env event (sanitizeFields ellipsis given) ''record'' L = (res, L1)" by fastforce
  have eq: "record_event env ellipsis event given L = (case res of None \<Rightarrow> L1 | Some r \<Rightarrow> commit env r L1)"
    using False a by (cases res) (simp_all add: record_event_def)
  have g1: "good_tried env L1" using good good_before [OF commit_grew] unfolding eq by (cases res) auto
  have "anchor_for env event (sanitizeFields ellipsis given) L2" for L2 using False by (simp add: anchor_for_def)
  from appendLine_facts(1) [OF sha ok sanitized_clean ev this a g1] have "log_ok env L1" .
  then show ?thesis using commit_facts [OF sha, of L1] good unfolding eq by (cases res) simp_all
qed

text \<open>What may happen between the log's calls: the outcomes to come change, or the files, if not behind the log's back (the
  active file then has another size, time or inode than the log expects). Segments keep the names they were sealed under.\<close>

definition noticed :: "audit_env \<Rightarrow> audit_log \<Rightarrow> audit_disk \<Rightarrow> bool" where
  "noticed env L d \<longleftrightarrow> disk_ok env d \<and> (dk_files d = dk_files (lg_disk L)
     \<or> lg_expected L \<noteq> Some (map_option identity (jm_get (dk_files d) (lg_path L))))"

fun allowed :: "audit_env \<Rightarrow> audit_log \<Rightarrow> audit_op \<Rightarrow> bool" where
  "allowed env L (Record event given) = (event \<noteq> [])"
| "allowed env L (Prune cutoff) = False"
| "allowed env L (Outside d) = noticed env L d"
| "allowed env L _ = True"

fun audit_run :: "audit_env \<Rightarrow> char \<Rightarrow> (string \<Rightarrow> int option) \<Rightarrow> audit_log \<Rightarrow> audit_op list \<Rightarrow> audit_log" where
  "audit_run env ellipsis date_parse L [] = L"
| "audit_run env ellipsis date_parse L (x # xs) = audit_run env ellipsis date_parse (audit_step env ellipsis date_parse L x) xs"

fun run_allowed :: "audit_env \<Rightarrow> char \<Rightarrow> (string \<Rightarrow> int option) \<Rightarrow> audit_log \<Rightarrow> audit_op list \<Rightarrow> bool" where
  "run_allowed env ellipsis date_parse L [] = True"
| "run_allowed env ellipsis date_parse L (x # xs) =
     (allowed env L x \<and> run_allowed env ellipsis date_parse (audit_step env ellipsis date_parse L x) xs)"

lemma outside_ok:
  assumes ok: "log_ok env L" and n: "noticed env L d"
  shows "log_ok env (L\<lparr>lg_disk := d\<rparr>)"
proof (cases "dk_files d = dk_files (lg_disk L)")
  case True
  have "same_files (lg_disk L) d" using True ok n by (simp add: same_files_def log_ok_def disk_ok_def noticed_def)
  then have "synced env (L\<lparr>lg_disk := d\<rparr>) = synced env L" by (intro same_synced) (simp_all add: same_head_def)
  with ok n True show ?thesis by (simp add: log_ok_def noticed_def current_def)
next
  case False
  with ok n show ?thesis by (auto simp: log_ok_def noticed_def current_def)
qed

lemma verify_log_facts:
  assumes ok: "log_ok env L"
  shows "log_ok env (snd (verify_log env L))" "grew L (snd (verify_log env L))"
proof -
  obtain sc d where s: "scanDisk env (lg_path L) False [] (lg_disk L) = (sc, d)" by fastforce
  have eq: "snd (verify_log env L) = L\<lparr>lg_disk := d\<rparr>" using s by (simp add: verify_log_def with_disk_def)
  have lk: "dk_lookups (lg_disk L) = []" using ok by (simp add: log_ok_def disk_ok_def)
  note sf = scanDisk_clean(1) [OF lk s]
  have "noticed env L d" using ok sf same_files_facts(3) [OF sf] by (simp add: noticed_def log_ok_def same_files_def)
  from outside_ok [OF ok this] show "log_ok env (snd (verify_log env L))" unfolding eq .
  show "grew L (snd (verify_log env L))" unfolding eq by (simp add: grew_refl)
qed

lemma audit_step_grew: "\<forall>c. x \<noteq> Prune c \<Longrightarrow> grew L (audit_step env ellipsis date_parse L x)"
proof (cases x)
  case (Record event given)
  then show ?thesis using record_event_grew by simp
next
  case Verify
  then show ?thesis by (simp add: verify_log_def with_disk_eq grew_refl)
qed (simp_all add: close_log_def grew_refl)

lemma audit_step_ok:
  assumes sha: "sha_format (ae_sha env)" and ok: "log_ok env L" and al: "allowed env L x"
    and good: "good_tried env (audit_step env ellipsis date_parse L x)"
  shows "log_ok env (audit_step env ellipsis date_parse L x)"
proof (cases x)
  case (Record event given)
  with record_event_facts [OF sha ok] al good show ?thesis by simp
next
  case Verify
  with verify_log_facts(1) [OF ok] show ?thesis by simp
next
  case Close
  have "log_ok env (close_log L) = log_ok env L" by (rule log_ok_cong) (simp_all add: close_log_def)
  with Close ok show ?thesis by simp
next
  case (Outside d)
  with outside_ok [OF ok] al show ?thesis by simp
qed (use al in simp)

lemma audit_run_grew: "run_allowed env ellipsis date_parse L xs \<Longrightarrow> grew L (audit_run env ellipsis date_parse L xs)"
proof (induction xs arbitrary: L)
  case (Cons x xs)
  have "\<forall>c. x \<noteq> Prune c" using Cons.prems by auto
  from grew_trans [OF audit_step_grew [OF this] Cons.IH] Cons.prems show ?case by simp
qed (simp add: grew_refl)

lemma audit_run_ok:
  "sha_format (ae_sha env) \<Longrightarrow> log_ok env L \<Longrightarrow> run_allowed env ellipsis date_parse L xs \<Longrightarrow>
     good_tried env (audit_run env ellipsis date_parse L xs) \<Longrightarrow> log_ok env (audit_run env ellipsis date_parse L xs)"
proof (induction xs arbitrary: L)
  case (Cons x xs)
  have r: "run_allowed env ellipsis date_parse (audit_step env ellipsis date_parse L x) xs" "allowed env L x" using Cons.prems by simp_all
  have "good_tried env (audit_step env ellipsis date_parse L x)" using good_before [OF audit_run_grew [OF r(1)]] Cons.prems(4) by simp
  from audit_step_ok [OF Cons.prems(1,2) r(2) this] Cons.IH Cons.prems r show ?case by simp
qed simp

subsection \<open>Starting\<close>

lemma probe_facts:
  assumes p: "sealed_range (lg_path L) = None" and ok: "disk_ok env (lg_disk L)" and c: "synced env L" and pr: "probe L = (None, L')"
  shows "ready env L'" "lg_tried L' = lg_tried L"
proof -
  have lk: "dk_lookups (lg_disk L) = []" using ok by (simp add: disk_ok_def)
  obtain o1 d1 where op: "open_append (lg_path L) (lg_disk L) = (o1, d1)" by fastforce
  note g = open_append_grown(1) [OF p op]
  let ?d2 = "snd (plain_call d1)"
  have g2: "grown (lg_path L) [] (lg_disk L) ?d2" using grown_trans [OF g grown_same [OF plain_same]] by simp
  have g3: "grown (lg_path L) [] (lg_disk L) (snd (plain_call ?d2))" using grown_trans [OF g2 grown_same [OF plain_same]] by simp
  have "\<exists>d. L' = refreshFingerprint (L\<lparr>lg_disk := d\<rparr>) \<and> grown (lg_path L) [] (lg_disk L) d"
    using pr op g2 g3 by (auto simp: probe_def with_disk_eq lookup_none lk Let_def split: bool.splits if_splits)
  then obtain d where d: "L' = refreshFingerprint (L\<lparr>lg_disk := d\<rparr>)" "grown (lg_path L) [] (lg_disk L) d" by blast
  have sp: "sealed_part d = sealed_part (lg_disk L)" "bytes_of (lg_path L) d = bytes_of (lg_path L) (lg_disk L)"
    "dk_lookups d = dk_lookups (lg_disk L)" "jm_wf (dk_files d)" using d(2) ok by (simp_all add: grown_def disk_ok_def)
  have okd: "disk_ok env d" using ok sp well_named_same [OF sp(1), of env] by (simp add: disk_ok_def)
  have "synced env (L\<lparr>lg_disk := d\<rparr>)" using c core_same [OF sp(1,2)] by (auto simp: synced_def in_step_def)
  with refresh_ready [of "L\<lparr>lg_disk := d\<rparr>" env] p okd show "ready env L'" by (simp add: d(1))
  show "lg_tried L' = lg_tried L" by (simp add: d(1))
qed

lemma created_ready:
  assumes sha: "sha_format (ae_sha env)" and p: "sealed_range (ao_path opts) = None" and ok: "disk_ok env d"
    and c: "createAuditLog env opts d stamps = Inr L" and good: "good_tried env L"
  shows "ready env L"
proof -
  from c obtain every bytes L1 where st: "startup env (new_log (ao_path opts) every bytes d stamps) = (None, L1)" and pr: "probe L1 = (None, L)"
    by (auto simp: createAuditLog_def split: if_splits option.splits prod.splits)
  let ?N = "new_log (ao_path opts) every bytes d stamps"
  have N: "lg_path ?N = ao_path opts" "lg_disk ?N = d" by (simp_all add: new_log_def)
  have lk: "dk_lookups d = []" using ok by (simp add: disk_ok_def)
  obtain sc d1 where s: "scanDisk env (ao_path opts) False [] d = (sc, d1)" by fastforce
  note sf = scanDisk_clean(1) [OF lk s]
  have d1: "disk_ok env d1" using ok same_files_facts(3) [OF sf] by simp
  have L1: "sealed_range (lg_path L1) = None \<and> disk_ok env (lg_disk L1) \<and> synced env L1" if g1: "good_tried env L1"
  proof (cases "cs_verification sc")
    case (Verified n h)
    have l1: "L1 = adopt (resume_of sc) (?N\<lparr>lg_disk := d1\<rparr>)" using st s Verified N by (simp add: startup_def with_disk_def)
    have "synced env L1" unfolding l1 by (rule adopt_synced [where L = ?N and n = n and h = h]) (use p lk s Verified sf N in simp_all)
    then show ?thesis using p d1 N by (simp add: l1)
  next
    case (Broken n b why)
    then have r: "recoverFrom env sc (?N\<lparr>lg_disk := d1\<rparr>) = (None, L1)" using st s N by (simp add: startup_def with_disk_def split: if_splits)
    have cl: "\<forall>fs \<in> set (cs_retentions sc). clean_fields fs" using scanDisk_retentions [OF s] by blast
    have p1: "sealed_range (lg_path (?N\<lparr>lg_disk := d1\<rparr>)) = None" "disk_ok env (lg_disk (?N\<lparr>lg_disk := d1\<rparr>))" using p d1 N by simp_all
    note f = recoverFrom_facts [OF sha p1 cl Broken r g1 [unfolded good_tried_def]]
    show ?thesis using f recoverFrom_grew [OF r] p N by (simp add: grew_def)
  qed
  have "lg_tried L = lg_tried L1" using pr by (auto simp: probe_def with_disk_eq Let_def split: bool.splits if_splits)
  then have "good_tried env L1" using good by (simp add: good_tried_def)
  with L1 have "sealed_range (lg_path L1) = None" "disk_ok env (lg_disk L1)" "synced env L1" by blast+
  from probe_facts(1) [OF this pr] show ?thesis .
qed

subsection \<open>A sample run\<close>

text \<open>A log is created in an empty directory; the first record is torn after five bytes and rolled back; then it is written.\<close>

definition sample_disk :: audit_disk where
  "sample_disk = \<lparr>dk_files = [], dk_clock = 1, dk_ino = 1, dk_faults = [], dk_lookups = []\<rparr>"

definition sample_file :: "nat list \<Rightarrow> audit_file" where
  "sample_file bs = \<lparr>fl_bytes = bs, fl_mtime = 1, fl_ino = 1\<rparr>"

definition sample_options :: audit_options where
  "sample_options = \<lparr>ao_path = ''audit.jsonl'', ao_anchorEvery = None, ao_segmentBytes = None\<rparr>"

definition disk_with :: "nat list \<Rightarrow> fault list \<Rightarrow> audit_disk" where
  "disk_with bs faults = \<lparr>dk_files = [(''audit.jsonl'', sample_file bs)], dk_clock = 1, dk_ino = 2, dk_faults = faults, dk_lookups = []\<rparr>"

definition new_sample :: audit_log where
  "new_sample = (new_log ''audit.jsonl'' 1000 67108864 (disk_with [] []) [''T'', ''T''])
     \<lparr>lg_fingerprint := Some (identity (sample_file [])), lg_expected := Some (Some (identity (sample_file [])))\<rparr>"

definition given_fields :: "(string \<times> js option) list" where
  "given_fields = [(''user'', Some (JStr ''a''))]"

definition sample_ops :: "audit_op list" where
  "sample_ops = [Outside (disk_with [] [Fine, Short 5]), Record ''login_ok'' (Some given_fields)]"

definition first_record :: audit_record where
  "first_record = \<lparr>ar_seq = 1, ar_ts = ''T'', ar_event = ''login_ok'', ar_prev = GENESIS_HASH, ar_hash = first_hash, ar_fields = user_fields\<rparr>"

lemma sample_sanitized: "sanitizeFields (CHR 0x2E) (Some given_fields) = user_fields"
  by code_simp

lemma audit_sample_created: "createAuditLog trail_env sample_options sample_disk [''T'', ''T''] = Inr new_sample"
proof -
  have t: "js_trim ''audit.jsonl'' \<noteq> []" by code_simp
  have r: "sealed_range ''audit.jsonl'' = None" by code_simp
  have s: "scanDisk trail_env ''audit.jsonl'' False [] sample_disk = (scanChain trail_env ''audit.jsonl'' [] [], sample_disk)"
    by (simp add: scanDisk_def listSegments_def next_lookup_def exists_call_def sample_disk_def List.map_filter_simps)
  let ?N = "new_log ''audit.jsonl'' 1000 67108864 sample_disk [''T'', ''T'']"
  have st: "startup trail_env ?N = (None, ?N)"
    by (simp add: startup_def with_disk_def new_log_def s scanChain_def fresh_scan_def finish_def adopt_def resume_of_def)
  have pr: "probe ?N = (None, new_sample)"
    by (simp add: probe_def with_disk_def sizeOf_def fingerprintOf_def next_lookup_def next_fault_def sample_disk_def new_log_def open_append_def
      plain_call_def refreshFingerprint_def new_sample_def disk_with_def sample_file_def)
  show ?thesis using t st pr by (simp add: createAuditLog_def sample_options_def option_in_def)
qed

lemma sample_line: "lg_seq L = 0 \<Longrightarrow> lg_prev L = GENESIS_HASH \<Longrightarrow> next_record trail_env ''login_ok'' user_fields ''T'' L = first_record"
  "record_line trail_env first_record = trail_line 0"
  by (simp_all add: next_record_def first_record_def first_hash_def record_line_def trail_text del: One_nat_def)

lemma sample_good: "good_record trail_env first_record"
proof -
  have "number_format plain_num {Fin 1}" by (rule trail_format) simp
  moreover have "obj_get user_fields ''throughSeq'' \<noteq> JNum (Fin 0)" by (simp add: user_fields_def obj_get_def)
  ultimately show ?thesis using trail_parse(1) trail_short(1) sample_hash(3) utf8_roundtrip trail_fields(3)
    unfolding good_record_def sample_line(2) by (simp add: first_record_def)
qed

definition log_with :: "nat list \<Rightarrow> string list \<Rightarrow> audit_out list \<Rightarrow> audit_record list \<Rightarrow> audit_log" where
  "log_with bs stamps out tried = new_sample\<lparr>lg_disk := disk_with bs [], lg_stamps := stamps, lg_out := out, lg_tried := tried,
     lg_fingerprint := Some (identity (sample_file bs)), lg_expected := Some (Some (identity (sample_file bs)))\<rparr>"

lemma new_sample_simps: "lg_path new_sample = ''audit.jsonl''" "lg_segmentBytes new_sample = 67108864" "lg_closed new_sample = False"
  "lg_seq new_sample = 0" "lg_prev new_sample = GENESIS_HASH" "lg_frontier new_sample = createFrontier" "lg_sinceAnchor new_sample = 0"
  "lg_anchorEvery new_sample = 1000" "lg_expected new_sample = Some (Some (identity (sample_file [])))" "lg_stamps new_sample = [''T'', ''T'']"
  "lg_out new_sample = []" "lg_tried new_sample = []"
  by (simp_all add: new_sample_def new_log_def)

lemma sample_torn: "audit_run trail_env (CHR 0x2E) (\<lambda>_. None) new_sample sample_ops = log_with [] [''T''] [Reported ''record dropped''] [first_record]"
proof -
  let ?L = "new_sample\<lparr>lg_disk := disk_with [] [Fine, Short 5]\<rparr>"
  have cur: "ensureDisk trail_env ?L = (True, ?L)"
    by (simp add: ensureDisk_current current_def disk_with_def new_sample_simps)
  have st: "stamp ?L = (''T'', ?L\<lparr>lg_stamps := [''T'']\<rparr>)" by (simp add: stamp_def new_sample_simps)
  have r: "next_record trail_env ''login_ok'' user_fields ''T'' (?L\<lparr>lg_stamps := [''T'']\<rparr>) = first_record"
    by (rule sample_line(1)) (simp_all add: new_sample_simps)
  have w: "writeRecord trail_env ''login_ok'' user_fields ''record'' ?L = (None, log_with [] [''T''] [Reported ''record dropped''] [first_record])"
    unfolding writeRecord_eq st prod.case Let_def r
    by (simp add: with_disk_def sizeOf_def fingerprintOf_def next_lookup_def disk_with_def new_sample_simps sample_file_def identity_def
      append_record_def append_data_def open_append_def next_fault_def writeAll_def set_bytes_def bytes_of_def roll_back_def truncate_call_def
      report_def refreshFingerprint_def log_with_def Let_def)
  have "appendLine trail_env ''login_ok'' user_fields ''record'' ?L = (None, log_with [] [''T''] [Reported ''record dropped''] [first_record])"
    unfolding appendLine_def cur prod.case by (simp add: w)
  then show ?thesis
    by (simp add: sample_ops_def record_event_def sample_sanitized ANCHOR_EVENT_def RETENTION_EVENT_def new_sample_simps)
qed

lemma sample_appended:
  "\<exists>L. appendLine trail_env ''login_ok'' user_fields ''record'' (log_with [] [''T''] out tried) = (Some first_record, L)
    \<and> lg_tried L = tried @ [first_record] \<and> lg_path L = ''audit.jsonl'' \<and> lg_disk L = disk_with (line_bytes (trail_line 0)) []"
proof -
  let ?L = "log_with [] [''T''] out tried"
  have cur: "ensureDisk trail_env ?L = (True, ?L)"
    by (simp add: ensureDisk_current current_def disk_with_def new_sample_simps log_with_def)
  have st: "stamp ?L = (''T'', ?L\<lparr>lg_stamps := []\<rparr>)" by (simp add: stamp_def log_with_def)
  have r: "next_record trail_env ''login_ok'' user_fields ''T'' (?L\<lparr>lg_stamps := []\<rparr>) = first_record"
    by (rule sample_line(1)) (simp_all add: new_sample_simps log_with_def)
  have hex: "hex_frontier createFrontier" using hex_fresh by simp
  obtain f where f: "push_leaf sample_sha first_hash createFrontier = Inr f"
    using push_leaf_hex [OF sample_sha_format sample_hash(1) hex] by blast
  show ?thesis unfolding appendLine_def cur prod.case writeRecord_eq st Let_def r
    by (simp add: with_disk_def sizeOf_def fingerprintOf_def next_lookup_def disk_with_def new_sample_simps sample_file_def identity_def
      append_record_def append_data_def open_append_def next_fault_def writeAll_def set_bytes_def bytes_of_def plain_call_def
      refreshFingerprint_def log_with_def Let_def sample_line(2) first_record_def [THEN arg_cong [where f = ar_hash]] f)
qed

lemma sample_disk_ok: "disk_ok trail_env (disk_with bs fs)" "disk_ok trail_env sample_disk" "sealed_range ''audit.jsonl'' = None"
proof -
  show r: "sealed_range ''audit.jsonl'' = None" by code_simp
  have "seg_names (disk_with bs fs) = []" "seg_names sample_disk = []"
    using r by (simp_all add: seg_names_def sealed_part_def disk_with_def sample_disk_def)
  then show "disk_ok trail_env (disk_with bs fs)" "disk_ok trail_env sample_disk"
    by (simp_all add: disk_ok_def well_named_def) (simp_all add: disk_with_def sample_disk_def)
qed

lemma sample_allowed: "run_allowed trail_env (CHR 0x2E) (\<lambda>_. None) new_sample sample_ops"
  using sample_disk_ok(1) by (simp add: sample_ops_def noticed_def) (simp add: new_sample_def new_log_def disk_with_def)

subsection \<open>Properties\<close>





text \<open>C18. What is kept of an event's fields: at most 32 members with distinct keys, none empty or on the prototype of an object,
  strings and keys clipped to 256 characters without control characters; each comes from a member given whose key does
  not look like a secret.\<close>
theorem sanitized_fields:
  assumes "\<not> is_control ellipsis" "kept = sanitizeFields ellipsis (Some given)"
  shows "clean_fields kept \<and> length kept \<le> 32 \<and> (\<forall>e \<in> set kept. kept_from ellipsis given e \<and> fst e \<noteq> []
    \<and> tidy (fst e) \<and> (case snd e of JStr s \<Rightarrow> tidy s | JBool _ \<Rightarrow> True | JNum n \<Rightarrow> is_finite n | _ \<Rightarrow> False))"
proof -
  let ?out = "sanitize ellipsis given []"
  have shape: "shaped ?out" by (rule sanitize_shape) (simp add: shaped_def)
  have kept: "kept = own_order ?out" by (simp add: assms(2) sanitizeFields_def)
  note own = own_order_facts [of ?out]
  have origin: "kept_from ellipsis given e" if "e \<in> set kept" for e
    using sanitize_kept [of "[]" ellipsis given given e] that own kept by simp
  have "fst e \<noteq> [] \<and> tidy (fst e) \<and> (case snd e of JStr s \<Rightarrow> tidy s | JBool _ \<Rightarrow> True | JNum n \<Rightarrow> is_finite n | _ \<Rightarrow> False)" if e: "e \<in> set kept" for e
  proof -
    from origin [OF e] obtain raw v where v: "fst e = cleanString ellipsis raw" "clean_value ellipsis v = Some (snd e)" by (auto simp: kept_from_def)
    have "fst e \<noteq> []" using shape e own kept by (auto simp: shaped_def)
    moreover have "case snd e of JStr s \<Rightarrow> tidy s | JBool _ \<Rightarrow> True | JNum n \<Rightarrow> is_finite n | _ \<Rightarrow> False"
      using v(2) cleanString_tidy [OF assms(1)] by (cases v; cases "snd e") (auto simp: clean_value_def split: if_splits)
    ultimately show ?thesis using cleanString_tidy [OF assms(1)] v(1) by simp
  qed
  with origin show ?thesis using shape own kept sanitized_clean [of ellipsis "Some given"] assms(2) by (auto simp: shaped_def MAX_KEYS_def)
qed

lemma sanitized_fields_witness:
  "clean_fields (sanitizeFields (CHR 0x2E) (Some (given_fields @ [(''api_Key'', Some (JStr ''x''))])))"
  using sanitized_fields [of "CHR 0x2E", OF _ refl] by (simp add: is_control_def code_of_def)

end
