(* ===== verification/Audit_Prune.thy ===== *)
theory Audit_Prune
  imports Audit_Trail
begin

text \<open>
  Pruning the audit log (\<^verbatim>\<open>prune\<close> of \<^verbatim>\<open>obs/audit.ts\<close>): a segment goes only after the record that names it has
  been written, and no other operation removes one.
\<close>

subsection \<open>Segments stay\<close>

definition segs_kept :: "audit_disk \<Rightarrow> audit_disk \<Rightarrow> bool" where
  "segs_kept d d' \<longleftrightarrow> (\<forall>nm. sealed_range nm \<noteq> None \<longrightarrow> jm_get (dk_files d) nm \<noteq> None \<longrightarrow> jm_get (dk_files d') nm \<noteq> None)"

definition onward :: "audit_log \<Rightarrow> audit_log \<Rightarrow> bool" where
  "onward L L' \<longleftrightarrow> lg_path L' = lg_path L \<and> segs_kept (lg_disk L) (lg_disk L') \<and> (\<exists>os. lg_out L' = lg_out L @ os)"

lemma segs_kept_same: "dk_files d' = dk_files d \<Longrightarrow> segs_kept d d'"
  by (simp add: segs_kept_def)

lemma segs_kept_trans: "segs_kept d d' \<Longrightarrow> segs_kept d' d'' \<Longrightarrow> segs_kept d d''"
  by (simp add: segs_kept_def)

lemma onward_refl: "onward L L"
  by (simp add: onward_def segs_kept_def)

lemma onward_trans: "onward L L' \<Longrightarrow> onward L' L'' \<Longrightarrow> onward L L''"
  by (auto simp: onward_def intro: segs_kept_trans)

lemma onward_path: "onward L L' \<Longrightarrow> sealed_range (lg_path L) = None \<Longrightarrow> sealed_range (lg_path L') = None"
  by (simp add: onward_def)

text \<open>A step that changes the disk, the outputs and the state, but keeps the path.\<close>

lemma onwardI:
  assumes "lg_path L' = lg_path L" "lg_out L' = lg_out L @ os" "segs_kept (lg_disk L) (lg_disk L')"
  shows "onward L L'"
  using assms by (auto simp: onward_def)

subsection \<open>The calls\<close>

lemma next_fault_files: "dk_files (snd (next_fault d)) = dk_files d"
  by (simp add: next_fault_def split: list.split)

lemma next_lookup_files: "dk_files (snd (next_lookup d)) = dk_files d"
  by (simp add: next_lookup_def split: list.split)

lemma looking_files: "dk_files (snd (fingerprintOf p d)) = dk_files d" "dk_files (snd (sizeOf p d)) = dk_files d"
  "dk_files (snd (exists_call p d)) = dk_files d" "dk_files (snd (listSegments d)) = dk_files d" "dk_files (snd (plain_call d)) = dk_files d"
  using next_lookup_files [of d] next_fault_files [of d]
  by (auto simp: fingerprintOf_def sizeOf_def exists_call_def listSegments_def plain_call_def split: prod.splits bool.splits)

lemma read_views_files: "dk_files (snd (read_views ps d)) = dk_files d"
proof (induction ps arbitrary: d)
  case (Cons p ps)
  have "dk_files (snd (read_view p d)) = dk_files d" using next_fault_files [of d] by (auto simp: read_view_def split: prod.splits)
  with Cons [of "snd (read_view p d)"] show ?case by (simp add: case_prod_beta)
qed simp

lemma scanDisk_files: "dk_files (snd (scanDisk env path only carried d)) = dk_files d"
  using looking_files(3,4) read_views_files by (simp add: scanDisk_def Let_def case_prod_beta)

lemma set_bytes_kept: "segs_kept d (set_bytes p bs d)"
  by (auto simp: set_bytes_def segs_kept_def update_conv split: option.split)

lemma rename_kept:
  assumes "sealed_range a = None"
  shows "segs_kept d (snd (rename_call a b d))"
proof -
  obtain f d1 where f: "next_fault d = (f, d1)" by fastforce
  have "dk_files d1 = dk_files d" using next_fault_files [of d] f by simp
  with f assms show ?thesis
    by (cases f; cases "jm_get (dk_files d) a") (auto simp: rename_call_def segs_kept_def update_conv delete_conv)
qed

lemma call_kept: "segs_kept d (snd (open_append p d))" "segs_kept d (snd (writeAll p data d))" "segs_kept d (snd (truncate_call p n d))"
proof -
  obtain f d1 where f: "next_fault d = (f, d1)" by fastforce
  have eq: "dk_files d1 = dk_files d" using next_fault_files [of d] f by simp
  have sb: "segs_kept d (set_bytes p bs d1)" for bs using set_bytes_kept [of d1 p bs] eq by (simp add: segs_kept_def)
  have same: "segs_kept d d1" using eq by (rule segs_kept_same)
  show "segs_kept d (snd (open_append p d))" using f eq same
    by (cases f; cases "jm_get (dk_files d1) p") (auto simp: open_append_def segs_kept_def update_conv)
  show "segs_kept d (snd (writeAll p data d))" using f sb same by (cases f) (auto simp: writeAll_def)
  show "segs_kept d (snd (truncate_call p n d))" using f sb same
    by (cases f; cases "jm_get (dk_files d1) p") (auto simp: truncate_call_def)
qed

lemma append_data_kept: "segs_kept d (snd (append_data p data created d))"
proof -
  obtain o1 d1 where 1: "open_append p d = (o1, d1)" by fastforce
  obtain o2 d2 where 2: "writeAll p data d1 = (o2, d2)" by fastforce
  have k1: "segs_kept d d1" using call_kept(1) [of d p] 1 by simp
  have k2: "segs_kept d d2" using segs_kept_trans [OF k1] call_kept(2) [of d1 p data] 2 by simp
  have k3: "segs_kept d (snd (plain_call d2))" using segs_kept_trans [OF k2 segs_kept_same [OF looking_files(5)]] .
  have k4: "segs_kept d (snd (plain_call (snd (plain_call d2))))" using segs_kept_trans [OF k3 segs_kept_same [OF looking_files(5)]] .
  show ?thesis using 1 2 k1 k2 k3 k4
    by (cases o1; cases o2; cases "plain_call d2"; cases "fst (plain_call d2)"; cases created) (auto simp: append_data_def)
qed

subsection \<open>The operations\<close>

lemma report_onward: "onward L (report m L)" "onward L (notify n L)" "onward L (notifyAppended r L)"
  by (auto simp: onward_def segs_kept_def report_def notify_def notifyAppended_def)

lemma onward_same: "lg_path L' = lg_path L \<Longrightarrow> lg_disk L' = lg_disk L \<Longrightarrow> lg_out L' = lg_out L \<Longrightarrow> onward L L'"
  by (simp add: onward_def segs_kept_def)

lemma with_disk_onward: "(\<And>d. segs_kept d (snd (f d))) \<Longrightarrow> onward L (snd (with_disk f L))"
  by (simp add: with_disk_eq onward_def)

lemma looking_onward: "(\<And>d. dk_files (snd (f d)) = dk_files d) \<Longrightarrow> onward L (snd (with_disk f L))"
  by (rule with_disk_onward) (rule segs_kept_same)

lemma refresh_onward: "onward L (refreshFingerprint L)"
  by (simp add: refreshFingerprint_def with_disk_eq onward_def segs_kept_same looking_files)

lemma adopt_onward: "onward L (adopt r L)"
  by (rule onward_same) (simp_all add: adopt_def)

lemma seal_onward:
  assumes p: "sealed_range (lg_path L) = None"
  shows "onward L (snd (seal L))"
proof -
  let ?t = "sealedName (lg_activeFirst L) (lg_seq L)"
  let ?d1 = "snd (exists_call ?t (lg_disk L))"
  let ?d2 = "snd (rename_call (lg_path L) ?t ?d1)"
  have k1: "segs_kept (lg_disk L) ?d1" by (rule segs_kept_same [OF looking_files(3)])
  have k2: "segs_kept (lg_disk L) ?d2" by (rule segs_kept_trans [OF k1 rename_kept [OF p]])
  have k: "segs_kept (lg_disk L) (snd (plain_call d))" if "segs_kept (lg_disk L) d" for d
    by (rule segs_kept_trans [OF that segs_kept_same [OF looking_files(5)]])
  show ?thesis unfolding onward_def using k1 k2 k [OF k2] k [OF k [OF k2]] k [OF k [OF k [OF k2]]]
    by (auto simp: seal_def with_disk_eq Let_def report_def split: prod.split bool.split)
qed

lemma roll_back_onward: "onward L (roll_back label n L)"
proof -
  let ?L1 = "report (label @ '' dropped'') L"
  let ?L2 = "snd (with_disk (truncate_call (lg_path L) n) ?L1)"
  have "onward L ?L2" by (rule onward_trans [OF report_onward(1) with_disk_onward [OF call_kept(3)]])
  from onward_trans [OF this refresh_onward] have o2: "onward L (refreshFingerprint ?L2)" .
  have "onward L ((refreshFingerprint ?L2)\<lparr>lg_expected := None\<rparr>)" by (rule onward_trans [OF o2 onward_same]) simp_all
  with o2 show ?thesis by (simp add: roll_back_def Let_def case_prod_beta)
qed

lemma append_record_onward: "onward L (snd (append_record env r created label n L))"
proof -
  obtain ok d where a: "append_data (lg_path L) (line_bytes (record_line env r)) created (lg_disk L) = (ok, d)" by fastforce
  have k: "segs_kept (lg_disk L) d" using append_data_kept [of "lg_disk L" "lg_path L" "line_bytes (record_line env r)" created] a by simp
  have o1: "onward L (L\<lparr>lg_disk := d\<rparr>)" using k by (simp add: onward_def)
  have o2: "onward L (L\<lparr>lg_disk := d, lg_seq := s, lg_prev := h\<rparr>)" for s h using k by (simp add: onward_def)
  have o3: "onward L (refreshFingerprint (L\<lparr>lg_disk := d, lg_seq := s, lg_prev := h, lg_frontier := f\<rparr>))" for s h f
    by (rule onward_trans [OF _ refresh_onward]) (use k in \<open>simp add: onward_def\<close>)
  show ?thesis using a o2 o3 onward_trans [OF o1 roll_back_onward]
    by (cases ok) (auto simp: append_record_def with_disk_def Let_def split: sum.split)
qed

lemma writeRecord_onward:
  assumes p: "sealed_range (lg_path L) = None"
  shows "onward L (snd (writeRecord env event fs label L))"
proof -
  obtain t ts where t: "stamp L = (t, L\<lparr>lg_stamps := ts\<rparr>)" using stamp_eq by blast
  let ?r = "next_record env event fs t (L\<lparr>lg_stamps := ts\<rparr>)"
  let ?L0 = "L\<lparr>lg_stamps := ts, lg_tried := lg_tried L @ [?r]\<rparr>"
  let ?L1 = "snd (with_disk (sizeOf (lg_path L)) ?L0)"
  have o1: "onward L ?L1" by (rule onward_trans [OF onward_same looking_onward]) (simp_all add: looking_files)
  have p1: "sealed_range (lg_path ?L1) = None" using onward_path [OF o1 p] .
  have a1: "onward L (snd (append_record env r created label n (snd (seal ?L1))))" for r created n
    by (rule onward_trans [OF onward_trans [OF o1 seal_onward [OF p1]] append_record_onward])
  have a2: "onward L (snd (append_record env r created label n ?L1))" for r created n
    by (rule onward_trans [OF o1 append_record_onward])
  show ?thesis unfolding writeRecord_eq t using a1 a2 by (simp add: Let_def case_prod_beta)
qed

lemma recoverFrom_onward:
  assumes p: "sealed_range (lg_path L) = None" and r: "recoverFrom env check L = (res, L')"
  shows "onward L L'"
proof -
  have moved: "onward L (adopt resume (L\<lparr>lg_stamps := ts, lg_disk := d2\<rparr>))"
    if sc: "scanDisk env (lg_path L) True (cs_retentions check) (lg_disk L) = (sealed, d1)" and rn: "rename_call (lg_path L) q d1 = (True, d2)"
    for sealed d1 q d2 resume ts
  proof -
    have "segs_kept (lg_disk L) d1" using scanDisk_files [of env "lg_path L" True "cs_retentions check" "lg_disk L"] sc by (simp add: segs_kept_same)
    moreover have "segs_kept d1 d2" using rename_kept [OF p, of d1 q] rn by simp
    ultimately show ?thesis by (auto simp: onward_def adopt_def intro: segs_kept_trans)
  qed
  from r show ?thesis
  proof (cases rule: recoverFrom_cases)
    case (refused ts)
    let ?d1 = "snd (scanDisk env (lg_path L) True (cs_retentions check) (lg_disk L))"
    have k1: "segs_kept (lg_disk L) ?d1" by (rule segs_kept_same [OF scanDisk_files])
    have k2: "segs_kept (lg_disk L) (snd (rename_call (lg_path L) q ?d1))" for q by (rule segs_kept_trans [OF k1 rename_kept [OF p]])
    have k: "segs_kept (lg_disk L) (lg_disk L')" using refused(4) k1 k2 segs_kept_same [OF refl, of "lg_disk L"] by auto
    have same: "lg_path L' = lg_path L" "lg_out L' = lg_out L" by (subst refused(2), simp)+
    show ?thesis using k same by (simp add: onward_def)
  next
    case (resumed sealed d1 n h resume carried q d2 ts)
    show ?thesis unfolding resumed(8) by (rule onward_trans [OF moved [OF resumed(1,5)] report_onward(2)])
  next
    case (carried sealed d1 n h resume fs q d2 ts L3 rc)
    note m = moved [OF carried(1,5), of resume ts]
    have "onward L L3" using onward_trans [OF m writeRecord_onward [OF onward_path [OF m p], of env RETENTION_EVENT fs "''carried boundary''"]] carried(6) by simp
    then have "onward L (L3\<lparr>lg_sinceAnchor := lg_sinceAnchor L3 + 1\<rparr>)" by (rule onward_trans) (rule onward_same; simp)
    then show ?thesis unfolding carried(8) by (rule onward_trans) (rule report_onward(2))
  next
    case (dropped sealed d1 n h resume fs q d2 ts L3)
    note m = moved [OF dropped(1,5), of resume ts]
    have o3: "onward L L3" using onward_trans [OF m writeRecord_onward [OF onward_path [OF m p], of env RETENTION_EVENT fs "''carried boundary''"]] dropped(6) by simp
    obtain x where "q = lg_path L @ ''.corrupt-'' @ x" using dropped(4) by blast
    then have "sealed_range q = None" by (simp only: quarantine_unsealed)
    then have "segs_kept (lg_disk L3) (snd (rename_call q (lg_path L3) (lg_disk L3)))" by (rule rename_kept)
    then have "onward L3 L'" unfolding dropped(8) by (simp add: onward_def)
    with o3 show ?thesis by (rule onward_trans)
  qed (simp add: onward_refl)
qed

lemma adoptDisk_onward:
  assumes p: "sealed_range (lg_path L) = None" and a: "adoptDisk env L = (ok, L')"
  shows "onward L L'"
proof -
  obtain check d1 where sc: "scanDisk env (lg_path L) False [] (lg_disk L) = (check, d1)" by fastforce
  have o1: "onward L (L\<lparr>lg_disk := d1\<rparr>)"
    using scanDisk_files [of env "lg_path L" False "[]" "lg_disk L"] sc by (simp add: onward_def segs_kept_same)
  obtain r L2 where r: "recoverFrom env check (L\<lparr>lg_disk := d1\<rparr>) = (r, L2)" by fastforce
  have "onward (L\<lparr>lg_disk := d1\<rparr>) L2" by (rule recoverFrom_onward [OF _ r]) (use p in simp)
  with o1 have o2: "onward L L2" by (rule onward_trans)
  have o3: "onward L ((report m L1)\<lparr>lg_expected := None\<rparr>)" if "onward L L1" for m L1
    by (rule onward_trans [OF onward_trans [OF that report_onward(1)] onward_same]) simp_all
  have o4: "onward L (refreshFingerprint L1)" if "onward L L1" for L1 by (rule onward_trans [OF that refresh_onward])
  have o5: "onward L (adopt x L1)" if "onward L L1" for x L1 by (rule onward_trans [OF that adopt_onward])
  have o6: "onward L (notify x L1)" if "onward L L1" for x L1 by (rule onward_trans [OF that report_onward(2)])
  show ?thesis using a sc r o1 o2
    by (cases r) (auto simp: adoptDisk_def with_disk_def Let_def intro: o3 o4 o5 o6 split: audit_verdict.splits if_splits)
qed

lemma ensureDisk_onward:
  assumes p: "sealed_range (lg_path L) = None" and e: "ensureDisk env L = (ok, L')"
  shows "onward L L'"
proof (cases "lg_expected L")
  case None
  with e adoptDisk_onward [OF p] show ?thesis by (simp add: ensureDisk_def)
next
  case (Some fp)
  let ?L = "snd (with_disk (fingerprintOf (lg_path L)) L)"
  have o1: "onward L ?L" by (rule looking_onward [OF looking_files(1)])
  have o2: "onward L L1" if "adoptDisk env ?L = (ok, L1)" for L1
    by (rule onward_trans [OF o1 adoptDisk_onward [OF onward_path [OF o1 p] that]])
  show ?thesis using e Some o1 o2 by (auto simp: ensureDisk_def case_prod_beta split: if_splits)
qed

lemma appendLine_onward:
  assumes p: "sealed_range (lg_path L) = None" and a: "appendLine env event fs label L = (res, L')"
  shows "onward L L'"
proof -
  obtain ok L1 where e: "ensureDisk env L = (ok, L1)" by fastforce
  note o1 = ensureDisk_onward [OF p e]
  have "onward L (snd (writeRecord env event fs label L1))" by (rule onward_trans [OF o1 writeRecord_onward [OF onward_path [OF o1 p]]])
  with o1 a e show ?thesis by (cases ok) (auto simp: appendLine_def)
qed

lemma commit_onward:
  assumes p: "sealed_range (lg_path L) = None"
  shows "onward L (commit env r L)" "\<exists>os. lg_out (commit env r L) = lg_out L @ Appended r # os"
proof -
  let ?N = "notifyAppended r (L\<lparr>lg_sinceAnchor := lg_sinceAnchor L + 1\<rparr>)"
  have oN: "onward L ?N" by (rule onward_trans [OF onward_same report_onward(3)]) simp_all
  have anchor: "onward L2 (anchorIfDue env L2)" if p2: "sealed_range (lg_path L2) = None" for L2
  proof -
    obtain ok L1 where e: "ensureDisk env L2 = (ok, L1)" by fastforce
    note o1 = ensureDisk_onward [OF p2 e]
    have o2: "onward L2 L3" if "appendLine env ANCHOR_EVENT fs ''anchor'' L1 = (res, L3)" for fs res L3
      by (rule onward_trans [OF o1 appendLine_onward [OF onward_path [OF o1 p2] that]])
    have o3: "onward L2 (notifyAppended x (L3\<lparr>lg_sinceAnchor := 0\<rparr>))" if "onward L2 L3" for x L3
      by (rule onward_trans [OF onward_trans [OF that onward_same] report_onward(3)]) simp_all
    show ?thesis using e o1 o2 o3 onward_refl
      by (auto simp: anchorIfDue_def split: prod.split bool.split sum.split option.split)
  qed
  have "onward ?N (commit env r L)" unfolding commit_def by (rule anchor [OF onward_path [OF oN p]])
  with oN show "onward L (commit env r L)" by (rule onward_trans)
  show "\<exists>os. lg_out (commit env r L) = lg_out L @ Appended r # os"
    using \<open>onward ?N (commit env r L)\<close> by (auto simp: onward_def notifyAppended_def)
qed

lemma writeRecord_fields: "writeRecord env event fs label L = (Some r, L') \<Longrightarrow> ar_event r = event \<and> ar_fields r = fs"
proof -
  assume w: "writeRecord env event fs label L = (Some r, L')"
  obtain t ts where t: "stamp L = (t, L\<lparr>lg_stamps := ts\<rparr>)" using stamp_eq by blast
  have "append_record env r0 created label n L1 = (Some r, L2) \<Longrightarrow> r = r0" for r0 created n L1 L2
    by (auto simp: append_record_def with_disk_eq Let_def split: bool.splits sum.splits)
  then have "r = next_record env event fs t (L\<lparr>lg_stamps := ts\<rparr>)" using w unfolding writeRecord_eq t
    by (auto simp: Let_def split: prod.splits)
  then show ?thesis by (simp add: next_record_def)
qed

lemma retain_onward:
  assumes p: "sealed_range (lg_path L) = None" and a: "retain env f L = (ok, L')"
  shows "onward L L'"
    "ok \<Longrightarrow> \<exists>r. Appended r \<in> set (drop (length (lg_out L)) (lg_out L')) \<and> ar_event r = RETENTION_EVENT \<and> ar_fields r = retention_fields env f"
proof -
  obtain res L1 where ap: "appendLine env RETENTION_EVENT (retention_fields env f) ''retention record'' L = (res, L1)" by fastforce
  note o1 = appendLine_onward [OF p ap]
  have p1: "sealed_range (lg_path L1) = None" by (rule onward_path [OF o1 p])
  show "onward L L'" using a ap o1 onward_trans [OF o1 commit_onward(1) [OF p1]] by (cases res) (auto simp: retain_def)
  assume ok
  with a ap obtain r where r: "res = Some r" "L' = commit env r L1" by (cases res) (auto simp: retain_def)
  obtain L0 where "writeRecord env RETENTION_EVENT (retention_fields env f) ''retention record'' L0 = (Some r, L1)"
    using ap r(1) by (auto simp: appendLine_def split: prod.splits bool.splits)
  then have "ar_event r = RETENTION_EVENT \<and> ar_fields r = retention_fields env f" by (rule writeRecord_fields)
  moreover obtain os where "lg_out L1 = lg_out L @ os" using o1 by (auto simp: onward_def)
  moreover obtain os' where "lg_out L' = lg_out L1 @ Appended r # os'" using commit_onward(2) [OF p1, of env r] r(2) by blast
  ultimately show "\<exists>r. Appended r \<in> set (drop (length (lg_out L)) (lg_out L')) \<and> ar_event r = RETENTION_EVENT \<and> ar_fields r = retention_fields env f"
    by auto
qed

lemma retain_all_onward:
  "sealed_range (lg_path L) = None \<Longrightarrow> retain_all env fs L = (ws, L') \<Longrightarrow> onward L L' \<and> (\<exists>rest. fs = ws @ rest)
     \<and> (\<forall>f \<in> set ws. \<exists>r. Appended r \<in> set (drop (length (lg_out L)) (lg_out L')) \<and> ar_event r = RETENTION_EVENT \<and> ar_fields r = retention_fields env f)"
proof (induction fs arbitrary: L ws L')
  case (Cons f fs)
  obtain ok L1 where r: "retain env f L = (ok, L1)" by fastforce
  note o1 = retain_onward [OF Cons.prems(1) r]
  show ?case
  proof (cases ok)
    case False
    with Cons.prems(2) r o1(1) show ?thesis by simp
  next
    case True
    obtain ws1 L2 where w: "retain_all env fs L1 = (ws1, L2)" by fastforce
    from Cons.IH [OF onward_path [OF o1(1) Cons.prems(1)] w] have ih: "onward L1 L2" "\<exists>rest. fs = ws1 @ rest"
      "\<forall>f \<in> set ws1. \<exists>r. Appended r \<in> set (drop (length (lg_out L1)) (lg_out L2)) \<and> ar_event r = RETENTION_EVENT \<and> ar_fields r = retention_fields env f" by blast+
    have eq: "ws = f # ws1" "L' = L2" using Cons.prems(2) r True w by simp_all
    obtain os1 os2 where os: "lg_out L1 = lg_out L @ os1" "lg_out L2 = lg_out L1 @ os2" using o1(1) ih(1) by (auto simp: onward_def)
    have sub: "set (drop (length (lg_out L)) (lg_out L1)) \<subseteq> set (drop (length (lg_out L)) (lg_out L2))"
      "set (drop (length (lg_out L1)) (lg_out L2)) \<subseteq> set (drop (length (lg_out L)) (lg_out L2))" using os by auto
    from o1(2) [OF True] ih sub onward_trans [OF o1(1) ih(1)] show ?thesis unfolding eq by (auto; blast)
  qed
qed (simp add: onward_refl)

text \<open>What is removed was among the files to remove.\<close>

lemma remove_all_files:
  "remove_all fs L = (rs, L') \<Longrightarrow> jm_get (dk_files (lg_disk L)) nm \<noteq> None \<Longrightarrow> jm_get (dk_files (lg_disk L')) nm = None \<Longrightarrow> \<exists>f \<in> set fs. sf_path f = nm"
proof (induction fs arbitrary: L rs L')
  case (Cons f fs)
  obtain ok d1 where u: "unlink_call (sf_path f) (lg_disk L) = (ok, d1)" by fastforce
  obtain ok2 d2 where s: "plain_call d1 = (ok2, d2)" by fastforce
  have d2: "dk_files d2 = dk_files d1" using looking_files(5) [of d1] s by simp
  obtain rs1 L2 where r: "remove_all fs (L\<lparr>lg_disk := d2\<rparr>) = (rs1, L2)" by fastforce
  have kept: "sf_path f = nm \<or> jm_get (dk_files d1) nm \<noteq> None"
  proof -
    obtain fa d0 where f: "next_fault (lg_disk L) = (fa, d0)" by fastforce
    have "dk_files d0 = dk_files (lg_disk L)" using next_fault_files [of "lg_disk L"] f by simp
    with u f Cons.prems(2) show ?thesis
      by (cases fa; cases "jm_get (dk_files d0) (sf_path f)") (auto simp: unlink_call_def delete_conv)
  qed
  show ?case
  proof (cases "ok \<and> ok2")
    case True
    then have "L' = L2" using Cons.prems(1) u s r by (simp add: with_disk_def)
    with Cons.IH [OF r] Cons.prems(3) kept d2 show ?thesis by auto
  next
    case False
    then have "lg_disk L' \<in> {d1, d2}" using Cons.prems(1) u s by (cases ok; cases ok2) (auto simp: with_disk_def)
    with Cons.prems(3) kept d2 show ?thesis by auto
  qed
qed simp

subsection \<open>Pruning\<close>

lemma remove_all_out: "\<exists>os. lg_out (snd (remove_all fs L)) = lg_out L @ os"
proof (induction fs arbitrary: L)
  case (Cons f fs)
  have disk: "lg_out (snd (with_disk g M)) = lg_out M" for g and M :: audit_log by (simp add: with_disk_eq)
  obtain ok M where u: "with_disk (unlink_call (sf_path f)) L = (ok, M)" by fastforce
  obtain ok' M' where y: "with_disk plain_call M = (ok', M')" by fastforce
  have "lg_out M = lg_out L" "lg_out M' = lg_out M" using disk [of "unlink_call (sf_path f)" L] disk [of plain_call M] u y by simp_all
  moreover obtain rs N where a: "remove_all fs M' = (rs, N)" by fastforce
  moreover obtain os where "lg_out N = lg_out M' @ os" using Cons.IH [of M'] a by auto
  ultimately show ?case using u y by (cases ok; cases ok') (simp_all add: report_def)
qed simp

lemma prune_cases:
  assumes p: "sealed_range (lg_path L) = None" and r: "prune_log env date_parse cutoff L = (n, L')"
    and gone: "sealed_range nm \<noteq> None" "jm_get (dk_files (lg_disk L)) nm \<noteq> None" "jm_get (dk_files (lg_disk L')) nm = None"
  obtains L1 L2 scan written L3 rs L4 where "ensureDisk env L = (True, L1)" "with_disk (scanDisk env (lg_path L1) False []) L1 = (scan, L2)"
    "\<exists>m h. cs_verification scan = Verified m h" "onward L L2"
    "retain_all env (takeWhile (\<lambda>f. sf_path f \<noteq> lg_path L2 \<and> (case date_parse (sf_lastTs f) of Some t \<Rightarrow> t < cutoff | None \<Rightarrow> False)) (cs_files scan)) L2 = (written, L3)"
    "remove_all written L3 = (rs, L4)" "lg_disk L' = lg_disk L4" "\<exists>os. lg_out L' = lg_out L4 @ os"
proof -
  have kept: "\<not> onward L X" if "lg_disk L' = lg_disk X" for X using gone that by (auto simp: onward_def segs_kept_def)
  have closed: "\<not> lg_closed L"
  proof
    assume "lg_closed L"
    then have "lg_disk L' = lg_disk L" using r by (auto simp: prune_log_def)
    with kept onward_refl show False by blast
  qed
  obtain ok L1 where e: "ensureDisk env L = (ok, L1)" by fastforce
  note o1 = ensureDisk_onward [OF p e]
  have ok: "ok" using r e closed o1 kept by (cases ok) (auto simp: prune_log_def)
  obtain scan L2 where sc: "with_disk (scanDisk env (lg_path L1) False []) L1 = (scan, L2)" by fastforce
  have "onward L1 (snd (with_disk (scanDisk env (lg_path L1) False []) L1))" by (rule looking_onward [OF scanDisk_files])
  with sc o1 have o2: "onward L L2" by (auto intro: onward_trans)
  obtain m h where v: "cs_verification scan = Verified m h"
  proof (cases "cs_verification scan")
    case (Broken a b c)
    then have "lg_disk L' = lg_disk L2" using r e ok closed sc by (auto simp: prune_log_def)
    with kept o2 show thesis by blast
  qed
  let ?el = "takeWhile (\<lambda>f. sf_path f \<noteq> lg_path L2 \<and> (case date_parse (sf_lastTs f) of Some t \<Rightarrow> t < cutoff | None \<Rightarrow> False)) (cs_files scan)"
  obtain written L3 where w: "retain_all env ?el L2 = (written, L3)" by fastforce
  obtain rs L4 where rm: "remove_all written L3 = (rs, L4)" by fastforce
  have "lg_disk L' = lg_disk L4" "\<exists>os. lg_out L' = lg_out L4 @ os"
    using r e ok closed sc v w rm by (auto simp: prune_log_def Let_def notify_def split: if_splits)
  then show thesis using that [OF _ sc _ o2 w rm] e ok v by simp
qed

subsection \<open>A sample run\<close>

definition prune_disk :: audit_disk where
  "prune_disk = \<lparr>dk_files = [(''audit-1-1.jsonl'', sample_file (line_bytes (trail_line 0)))], dk_clock = 1, dk_ino = 2, dk_faults = [], dk_lookups = []\<rparr>"

definition prune_sample :: audit_log where
  "prune_sample = new_log ''audit.jsonl'' 1000 67108864 prune_disk [''U'']"

definition segment_chain :: chain_scan where
  "segment_chain = scanChain trail_env ''audit.jsonl'' [(''audit-1-1.jsonl'', one_read (line_bytes (trail_line 0)) False)] []"

lemma segment_scan:
  "cs_verification segment_chain = Verified 1 first_hash \<and> (\<exists>F. cs_files segment_chain = [F] \<and> sf_path F = ''audit-1-1.jsonl'')
     \<and> hex_frontier (cs_frontier segment_chain) \<and> cs_sinceAnchor segment_chain = 1 \<and> cs_lastSeq segment_chain = 1 \<and> cs_lastHash segment_chain = first_hash"
proof -
  have v: "one_read (line_bytes (trail_line 0)) False = written_file [trail_line 0]"
    by (simp add: one_read_def written_file_def line_bytes_def)
  obtain f where f: "push_leaf sample_sha first_hash createFrontier = Inr f" "hex_frontier f"
    using push_leaf_hex [OF sample_sha_format sample_hash(1)] hex_fresh by auto
  have peek: "peekHead trail_env (trail_line 0) = Some (1, GENESIS_HASH)"
    using trail_parse(1) by (simp add: peekHead_def record_js_def obj_get_def integer_of_def)
  let ?st = "fresh_scan\<lparr>sg_started := True, sg_sinceAnchor := 1, sg_frontier := f, sg_lastSeq := 1, sg_count := 1, sg_prev := first_hash,
    sg_records := [(1, first_hash)], sg_first := 1, sg_last := 1, sg_ts := ''T'', sg_hash := first_hash\<rparr>"
  have acc: "acceptLine trail_env [written_file [trail_line 0]] [] ''audit.jsonl'' ''audit-1-1.jsonl'' fresh_scan (trail_line 0) = (?st, Accept)"
    using trail_check(1) f(1) peek
    by (simp add: acceptLine_def start_chain_def fresh_scan_def anchor_verdict_def take_record_def ANCHOR_EVENT_def RETENTION_EVENT_def Let_def)
  have "accepts (acceptLine trail_env [written_file [trail_line 0]] [] ''audit.jsonl'' ''audit-1-1.jsonl'') fresh_scan [trail_line 0] = Some ?st"
    using acc by simp
  then have each: "eachLine utf8_decode (written_file [trail_line 0]) (acceptLine trail_env [written_file [trail_line 0]] [] ''audit.jsonl'' ''audit-1-1.jsonl'') fresh_scan
    = (?st, StepOk)" using trail_views(3,4) by (simp only: eachLine_ok)
  have fr: "fresh_scan\<lparr>sg_first := 0, sg_last := 0, sg_ts := [], sg_hash := GENESIS_HASH\<rparr> = fresh_scan" by (simp add: fresh_scan_def)
  show ?thesis unfolding segment_chain_def v scanChain_def using each f(2)
    by (simp add: scanFile_def fr fresh_scan_halt) (simp add: finish_def fresh_scan_def)
qed

lemma segment_name: "sealed_range ''audit-1-1.jsonl'' = Some (1, 1)"
proof -
  have "dec 1 = ''1''" by code_simp
  then have "sealedName 1 1 = ''audit-1-1.jsonl''" by (simp add: sealedName_def)
  with sealed_range_name [of 1 1] show ?thesis by simp
qed

lemma append_beside_segment:
  assumes "lg_disk L = prune_disk" "lg_path L = ''audit.jsonl''" "hex_frontier (lg_frontier L)"
  shows "\<exists>r L' f. writeRecord trail_env event fs label L = (Some r, L') \<and> lg_path L' = ''audit.jsonl'' \<and> lg_closed L' = lg_closed L
    \<and> lg_sinceAnchor L' = lg_sinceAnchor L \<and> lg_anchorEvery L' = lg_anchorEvery L
    \<and> lg_disk L' = prune_disk\<lparr>dk_files := dk_files prune_disk @ [(''audit.jsonl'', f)], dk_ino := 3\<rparr>"
proof -
  obtain t ts where t: "stamp L = (t, L\<lparr>lg_stamps := ts\<rparr>)" using stamp_eq by blast
  let ?r = "next_record trail_env event fs t (L\<lparr>lg_stamps := ts\<rparr>)"
  have "HEX_64 (ar_hash ?r)" using sample_hash(2) by (simp add: next_record_def)
  from push_leaf_hex [OF sample_sha_format this assms(3)] obtain f where f: "push_leaf sample_sha (ar_hash ?r) (lg_frontier L) = Inr f" by blast
  show ?thesis unfolding writeRecord_eq t prod.case Let_def using f assms(1,2)
    by (simp add: with_disk_def sizeOf_def fingerprintOf_def next_lookup_def prune_disk_def append_record_def append_data_def open_append_def
      next_fault_def writeAll_def set_bytes_def bytes_of_def plain_call_def refreshFingerprint_def Let_def)
qed

lemma sample_pruned: "jm_get (dk_files (lg_disk (snd (prune_log trail_env (\<lambda>_. Some 0) 1 prune_sample)))) ''audit-1-1.jsonl'' = None"
proof -
  let ?S = segment_chain
  obtain F where F: "cs_files ?S = [F]" "sf_path F = ''audit-1-1.jsonl''" using segment_scan by blast
  note rs = segment_name
  have sc: "scanDisk trail_env ''audit.jsonl'' False [] prune_disk = (?S, prune_disk)"
    by (simp add: scanDisk_def listSegments_def next_lookup_def exists_call_def prune_disk_def List.map_filter_simps rs read_view_def next_fault_def
      sample_file_def segment_chain_def)
  let ?L1 = "refreshFingerprint (adopt (resume_of ?S) (notify ChangedOutside prune_sample))"
  have L: "lg_path prune_sample = ''audit.jsonl''" "lg_disk prune_sample = prune_disk" "lg_expected prune_sample = None" "lg_seq prune_sample = 0"
    "lg_closed prune_sample = False" "lg_anchorEvery prune_sample = 1000" "dk_lookups prune_disk = []"
    by (simp_all add: prune_sample_def new_log_def prune_disk_def)
  have upd: "prune_sample\<lparr>lg_disk := prune_disk\<rparr> = prune_sample" by (simp add: prune_sample_def new_log_def)
  have e: "ensureDisk trail_env prune_sample = (True, ?L1)"
    using segment_scan by (simp add: ensureDisk_def adoptDisk_def with_disk_def L sc upd)
  have L1: "lg_path ?L1 = ''audit.jsonl''" "lg_disk ?L1 = prune_disk" "hex_frontier (lg_frontier ?L1)" "lg_closed ?L1 = False"
    "lg_sinceAnchor ?L1 = 1" "lg_anchorEvery ?L1 = 1000" "current ?L1"
    using segment_scan L by (simp_all add: current_def refreshFingerprint_def with_disk_eq lookup_none adopt_def resume_of_def notify_def)
  have sc1: "with_disk (scanDisk trail_env (lg_path ?L1) False []) ?L1 = (?S, ?L1)" unfolding with_disk_def L1(1,2) sc by (simp add: L1(2) [symmetric])
  have e1: "ensureDisk trail_env ?L1 = (True, ?L1)" using L1(2,7) L(7) by (simp add: ensureDisk_current)
  obtain r L2 f where w: "writeRecord trail_env RETENTION_EVENT (retention_fields trail_env F) ''retention record'' ?L1 = (Some r, L2)"
    "lg_path L2 = ''audit.jsonl''" "lg_closed L2 = False" "lg_sinceAnchor L2 = 1" "lg_anchorEvery L2 = 1000"
    "lg_disk L2 = prune_disk\<lparr>dk_files := dk_files prune_disk @ [(''audit.jsonl'', f)], dk_ino := 3\<rparr>"
    using append_beside_segment [OF L1(2,1,3), of RETENTION_EVENT "retention_fields trail_env F" "''retention record''"] L1(4-6) by auto
  let ?L3 = "notifyAppended r (L2\<lparr>lg_sinceAnchor := 2\<rparr>)"
  have rt: "retain trail_env F ?L1 = (True, ?L3)"
    using w by (simp add: retain_def appendLine_def e1 commit_def anchorIfDue_def notifyAppended_def)
  have rm: "lg_disk (snd (remove_all [F] ?L3)) = prune_disk\<lparr>dk_files := [(''audit.jsonl'', f)], dk_ino := 3\<rparr>"
    "fst (remove_all [F] ?L3) = [F]"
    using w(6) F(2) by (simp_all add: with_disk_def unlink_call_def next_fault_def plain_call_def prune_disk_def)
  have "lg_disk (snd (prune_log trail_env (\<lambda>_. Some 0) 1 prune_sample)) = lg_disk (snd (remove_all [F] ?L3))"
    unfolding prune_log_def L(5) e prod.case sc1 using segment_scan F L1(1) rt rm(2)
    by (simp add: Let_def case_prod_beta notify_def)
  then show ?thesis unfolding rm(1) by simp
qed

text \<open>C17. When a prune has removed a segment: the directory's chain verified when the segment was chosen;
  its last record is older than the cutoff; the prune had first written, for this segment as for every other
  it removed, a boundary record with the segment's last sequence number, its last hash and the frontier
  through it, whose append was acknowledged while the segment was still there and stands in the prune's
  final output; and the disk the prune leaves is the one the removals made from that state. This holds
  whichever calls fail; no other segment goes.\<close>
theorem prune_after_boundary:
  assumes "sealed_range (lg_path L) = None" "prune_log env date_parse cutoff L = (n, L')"
    and "sealed_range nm \<noteq> None" "jm_get (dk_files (lg_disk L)) nm \<noteq> None" "jm_get (dk_files (lg_disk L')) nm = None"
  shows "\<exists>f r L1 scan L2 written L3 rs L4. ensureDisk env L = (True, L1)
    \<and> with_disk (scanDisk env (lg_path L) False []) L1 = (scan, L2) \<and> (\<exists>k h. cs_verification scan = Verified k h)
    \<and> f \<in> set (cs_files scan) \<and> sf_path f = nm \<and> (\<exists>t. date_parse (sf_lastTs f) = Some t \<and> t < cutoff)
    \<and> retain_all env (takeWhile (\<lambda>f. sf_path f \<noteq> lg_path L \<and>
          (case date_parse (sf_lastTs f) of Some t \<Rightarrow> t < cutoff | None \<Rightarrow> False)) (cs_files scan)) L2 = (written, L3)
    \<and> f \<in> set written \<and> Appended r \<in> set (drop (length (lg_out L2)) (lg_out L3))
    \<and> ar_event r = RETENTION_EVENT \<and> ar_fields r = retention_fields env f
    \<and> jm_get (dk_files (lg_disk L3)) nm \<noteq> None
    \<and> remove_all written L3 = (rs, L4) \<and> lg_disk L' = lg_disk L4
    \<and> Appended r \<in> set (drop (length (lg_out L)) (lg_out L'))"
proof -
  from prune_cases [OF assms] obtain L1 L2 scan written L3 rs L4 where x: "ensureDisk env L = (True, L1)"
    "with_disk (scanDisk env (lg_path L1) False []) L1 = (scan, L2)"
    "\<exists>m h. cs_verification scan = Verified m h" "onward L L2"
    "retain_all env (takeWhile (\<lambda>f. sf_path f \<noteq> lg_path L2 \<and> (case date_parse (sf_lastTs f) of Some t \<Rightarrow> t < cutoff | None \<Rightarrow> False)) (cs_files scan)) L2 = (written, L3)"
    "remove_all written L3 = (rs, L4)" "lg_disk L' = lg_disk L4" "\<exists>os. lg_out L' = lg_out L4 @ os" .
  have path: "lg_path L1 = lg_path L" "lg_path L2 = lg_path L"
    using ensureDisk_onward [OF assms(1) x(1)] x(4) by (simp_all add: onward_def)
  have p2: "sealed_range (lg_path L2) = None" by (rule onward_path [OF x(4) assms(1)])
  from retain_all_onward [OF p2 x(5)] obtain rest where w: "onward L2 L3"
    "takeWhile (\<lambda>f. sf_path f \<noteq> lg_path L2 \<and> (case date_parse (sf_lastTs f) of Some t \<Rightarrow> t < cutoff | None \<Rightarrow> False)) (cs_files scan) = written @ rest"
    "\<forall>f \<in> set written. \<exists>r. Appended r \<in> set (drop (length (lg_out L2)) (lg_out L3)) \<and> ar_event r = RETENTION_EVENT \<and> ar_fields r = retention_fields env f" by blast
  have there: "jm_get (dk_files (lg_disk L3)) nm \<noteq> None"
    using onward_trans [OF x(4) w(1)] assms(3,4) by (auto simp: onward_def segs_kept_def)
  from remove_all_files [OF x(6) there] assms(5) x(7) obtain f where f: "f \<in> set written" "sf_path f = nm" by auto
  from f(1) w(2) have "f \<in> set (takeWhile (\<lambda>f. sf_path f \<noteq> lg_path L2 \<and> (case date_parse (sf_lastTs f) of Some t \<Rightarrow> t < cutoff | None \<Rightarrow> False)) (cs_files scan))" by simp
  from set_takeWhileD [OF this] have old: "f \<in> set (cs_files scan)" "\<exists>t. date_parse (sf_lastTs f) = Some t \<and> t < cutoff" by (auto split: option.splits)
  from w(3) f(1) obtain r where r: "Appended r \<in> set (drop (length (lg_out L2)) (lg_out L3))" "ar_event r = RETENTION_EVENT" "ar_fields r = retention_fields env f" by blast
  obtain os where os: "lg_out L2 = lg_out L @ os" using x(4) by (auto simp: onward_def)
  obtain os' where os': "lg_out L3 = lg_out L2 @ os'" using w(1) by (auto simp: onward_def)
  obtain os'' where "lg_out L4 = lg_out L3 @ os''" using remove_all_out [of written L3] x(6) by auto
  with x(8) obtain out where "lg_out L' = lg_out L3 @ out" by auto
  with os os' r(1) have final: "Appended r \<in> set (drop (length (lg_out L)) (lg_out L'))" by simp
  note facts = x(1) x(2) [unfolded path] x(3) old(1) f(2) old(2) x(5) [unfolded path] f(1) r there x(6,7) final
  show ?thesis
    by (rule exI [of _ f], rule exI [of _ r], rule exI [of _ L1], rule exI [of _ scan], rule exI [of _ L2], rule exI [of _ written],
        rule exI [of _ L3], rule exI [of _ rs], rule exI [of _ L4]) (intro conjI facts)
qed

lemma prune_after_boundary_witness:
  "\<exists>f r. sf_path f = ''audit-1-1.jsonl'' \<and> ar_event r = RETENTION_EVENT \<and> ar_fields r = retention_fields trail_env f
    \<and> Appended r \<in> set (drop (length (lg_out prune_sample)) (lg_out (snd (prune_log trail_env (\<lambda>_. Some 0) 1 prune_sample))))"
proof -
  have "lg_path prune_sample = ''audit.jsonl''" by (simp add: prune_sample_def new_log_def)
  then have p: "sealed_range (lg_path prune_sample) = None" using sample_disk_ok(3) by simp
  have nm: "sealed_range ''audit-1-1.jsonl'' \<noteq> None" by (simp add: segment_name)
  have there: "jm_get (dk_files (lg_disk prune_sample)) ''audit-1-1.jsonl'' \<noteq> None" by (simp add: prune_sample_def new_log_def prune_disk_def)
  from prune_after_boundary [OF p prod.collapse [symmetric] nm there sample_pruned]
  show ?thesis by (elim exE conjE) (intro exI conjI; assumption)
qed

end
