(* ===== verification/Spec2Isabelle.thy ===== *)
theory Spec2Isabelle
  imports Breaker Penalty Validation Rate_Limits Sessions Fair_Share Token_Ledger Sink_Queue Merkle Slo Thought_Graph
    Session_List OAuth Anomaly Load_Forecast File_Lock Atomic_Write
    Worker_Results Audit_Prune
begin

text \<open>
  A verification library for ultrathink, a planning engine with an HTTP and MCP service around it.

  \<^bold>\<open>The program.\<close> \<^verbatim>\<open>src/services/ultrathink\<close> is the service. A request passes the
  router (\<^verbatim>\<open>routes/\<close>), which asks the limiters and sessions of \<^verbatim>\<open>auth/\<close> and the OAuth
  server of \<^verbatim>\<open>oauth/\<close> who is calling, validates the body with \<^verbatim>\<open>security/validation.ts\<close>,
  is admitted by the fair-share pool of \<^verbatim>\<open>obs/fair-share.ts\<close>, reserves its cost in
  \<^verbatim>\<open>cost/ledger.ts\<close> and then runs model calls behind the circuit breaker of
  \<^verbatim>\<open>engine/breaker.ts\<close>. The model's draft becomes a graph of thought in
  \<^verbatim>\<open>src/src/think/graph.ts\<close>. What happened is an audit event: it is hashed into the Merkle
  log of \<^verbatim>\<open>obs/audit-merkle.ts\<close>, counted by the rules of \<^verbatim>\<open>obs/anomaly.ts\<close> and sent
  to sinks through \<^verbatim>\<open>obs/sinks/queue.ts\<close>. Results are files in a state directory that
  \<^verbatim>\<open>engine/sessions.ts\<close> lists and \<^verbatim>\<open>engine/retention.ts\<close> thins.

  \<^bold>\<open>Foundations.\<close>
  \<^item> \<open>Prelude\<close>: JavaScript numbers and values, thrown errors, rounding division, list lemmas.
  \<^item> \<open>Machine\<close>: step functions, runs and traces, and the three contracts a component is held to:
    \<open>machine\<close> (an invariant of every run), \<open>monitored_machine\<close> (a guarantee of every step of
    every run) and \<open>simulation\<close> (an abstract machine with the same outputs).
  \<^item> \<open>Js_Map\<close>, \<open>Js_String\<close>: \<^verbatim>\<open>Map\<close> in insertion order as an association list, with
    the contract \<open>keyed_store\<close>; trimming, splitting, joining, decimal text.
  \<^item> \<open>State_Dir\<close>: the state directory as three folders of files.

  \<^bold>\<open>Components.\<close> Each theory has the source's constants and records, one definition per function or
  handler, an invariant or an abstract specification, and the properties.
  \<^item> \<open>OAuth\<close> (\<^verbatim>\<open>oauth/oauth.ts\<close>): every endpoint as a step of \<open>oauth_step\<close> over the record
    \<open>oauth\<close> (tables, pending approvals, limiters, the file). The locale \<open>store_property\<close> is the
    contract a property of the store has to meet for every endpoint, sweep and restart to keep it; it is
    interpreted for well-formed tables, for a code staying spent, for a refresh token staying spent and for the
    grants staying among approved ones. Shown: codes and refresh tokens are redeemed at most once, an
    accepted access token goes back to an approval by the owner, and the replay of a spent code or refresh token that is
    still stored revokes its grant: for good when the write reaches the disk, in memory otherwise.
  \<^item> \<open>Breaker\<close> (\<^verbatim>\<open>engine/breaker.ts\<close>): the state machine, its invariant, and the cause of every
    transition: an observer that sees only the calls and the clock counts the failures noted since the window they fall in
    began, and the circuit opens exactly on a threshold reached in one window or on a failed probe; refusal while open.
  \<^item> \<open>Rate_Limits\<close>, \<open>Sessions\<close> (\<^verbatim>\<open>auth/auth.ts\<close>): request, login and approval limits
    with their bounds over whole runs, the owner's with anyone else's requests mixed in; login guesses are
    bounded in a window and, by twice as much, in any quarter of an hour; cookies and signed approvals, honoured until they expire, accepted only
    with a configured secret's MAC, ended by a password change.
  \<^item> \<open>Penalty\<close> (\<^verbatim>\<open>auth/penalty.ts\<close>): doubling blocks; a table that was pruned answers every
    further sequence of calls as the unpruned one does, but for the level it reports.
  \<^item> \<open>Validation\<close> (\<^verbatim>\<open>security/validation.ts\<close>): the validators; a request body is accepted
    exactly when it is an object whose fields satisfy the schema, with no other keys unless they are allowed.
  \<^item> \<open>Fair_Share\<close> (\<^verbatim>\<open>obs/fair-share.ts\<close>): budgets, no lost wake-up, first in first out.
  \<^item> \<open>Token_Ledger\<close> (\<^verbatim>\<open>cost/ledger.ts\<close>): ceilings in every run, each reservation closed once.
  \<^item> \<open>Run_Store\<close> (\<^verbatim>\<open>store/store.ts\<close>, \<^verbatim>\<open>store/retention.ts\<close>): the tables of runs and phases, and
    \<open>Worker_Prompt\<close>, \<open>Worker\<close> (\<^verbatim>\<open>worker/worker.ts\<close>): what the planning worker asks the model, and any number
    of workers over those tables, the ledger and the artifact files, interleaved at every transaction. \<open>Worker_Safety\<close>
    is the rely-guarantee argument, \<open>Worker_Results\<close> the properties: phases once and in order, never past an open
    question; pauses and completions written by the lease's holder only; a complete run delivered; an answer heard; a
    tick that ends; a budget that pruning cannot free. It also shows the one write that is not fenced.
  \<^item> \<open>Sink_Queue\<close> (\<^verbatim>\<open>obs/sinks/queue.ts\<close>): the array with its moving head implements a list;
    accounting and order of deliveries.
  \<^item> \<open>Merkle\<close> (\<^verbatim>\<open>obs/audit-merkle.ts\<close>): the frontier's root is the tree hash of RFC 6962; two
    histories with one root exhibit a collision; snapshots read back. The root of no records is the code's own constant.
  \<^item> \<open>Json_Text\<close>, \<open>Audit_Chain\<close> (\<^verbatim>\<open>obs/audit.ts\<close>): the text that is hashed and the verifier of the audit trail,
    file by file and chunk by chunk. \<open>Audit_Verify\<close>: chunks do not matter; the last hash of a trail, and every anchor of
    a trail that starts at record 1, vouch for the records stored before them, all but a field named
    \<^verbatim>\<open>__proto__\<close>, the one member a line may hold unseen.
  \<^item> \<open>Audit_Disk\<close>, \<open>Audit_Log\<close> (\<^verbatim>\<open>createAuditLog\<close> of \<^verbatim>\<open>obs/audit.ts\<close>, \<^verbatim>\<open>obs/audit-segments.ts\<close>): the log that
    writes the trail, over a directory whose calls work, fail or stop short. \<open>Audit_Sync\<close> reduces the scan to a function of
    the lines and shows that the verifier accepts exactly what a definition over the list of lines accepts, pruned trails
    included; \<open>Audit_Durable\<close> says when the log and the directory are in step, \<open>Audit_Writes\<close>, \<open>Audit_Resume\<close> and
    \<open>Audit_Keeps\<close> show that sealing, appending, rolling back and recovery keep it so or leave the log knowing that it has to
    read the disk. \<open>Audit_Trail\<close>: an acknowledged record is the last line on disk and the directory verifies, in every run
    without pruning in which no lookup (\<^verbatim>\<open>stat\<close>, \<^verbatim>\<open>existsSync\<close>, \<^verbatim>\<open>readdir\<close>) fails and every change by
    others shows in the active file's size, time or inode. \<open>Audit_Prune\<close>: a segment goes only after its boundary record is
    written, and the output and disk a prune ends with show it.
  \<^item> \<open>Slo\<close> (\<^verbatim>\<open>obs/slo.ts\<close>): the ring and its binary search compute window sums.
  \<^item> \<open>Anomaly\<close> (\<^verbatim>\<open>obs/anomaly.ts\<close>): the bounded detector raises the alerts of a specification
    over the whole history.
  \<^item> \<open>Load_Forecast\<close> (\<^verbatim>\<open>obs/forecast.ts\<close>, \<^verbatim>\<open>obs/quota.ts\<close>): the one-day ring
    counts every minute of the last day as an observer of the requests does that charges a request under a clock set back
    to the last minute reached, and falls back to the last saved minute counts on a restart; the forecast continues a line; the
    quota factor stays in bounds and recovers.
  \<^item> \<open>Thought_Graph\<close> (\<^verbatim>\<open>src/src/think/graph.ts\<close>): any draft becomes a well-formed graph; the
    sort and the waves respect dependencies when there is no cycle; the XML has no markup of the model's.
  \<^item> \<open>Retention\<close>, \<open>Session_List\<close> (\<^verbatim>\<open>engine/retention.ts\<close>, \<^verbatim>\<open>engine/sessions.ts\<close>): the
    sweep changes only entries past their documented age, with the calls that list, stat, read or remove failing at will, a
    removal half-way included, and reaches what is stale; the listing is newest first, and a session it shows as running
    is still shown after a sweep when the limit leaves room for every candidate.
  \<^item> \<open>File_Lock\<close> (\<^verbatim>\<open>src/src/claude/atomic.ts\<close>): the hooks' cross-process lock, every system call a step
    of one of any number of processes; an inductive relation of reachable states, mutual exclusion of the guard and of
    unexpired leases, and a bound on the moves of \<^verbatim>\<open>acquire\<close>.
  \<^item> \<open>Atomic_Write\<close> (\<^verbatim>\<open>writeFileAtomic\<close>, \<^verbatim>\<open>writeFileDurably\<close>): a state file is replaced whole or not at
    all, whichever call fails and wherever the process dies.

  \<^bold>\<open>Conventions.\<close> The clock, random secrets, disk results and answers of other services are arguments of a
  step, so a theorem over all runs is one over all their values. Hash functions, the URL and JSON parsers and
  regular-expression engines are parameters; a theorem that needs their documented format says so, and
  none assumes a hash without collisions: the collision is part of the conclusion. Finite numbers are exact
  reals, and integers within \<open>2 ^ 53\<close> are \<open>int\<close> or \<open>nat\<close>. Loops are structural recursion or have
  a termination proof; no definition uses fuel.

  \<^bold>\<open>Not modelled.\<close> Markup, headers and logs; parsing of the saved OAuth store; model
  calls, sockets, timers and child processes; the host adapters, dashboards and command-line tools of
  \<^verbatim>\<open>src/src\<close>, whose behaviour is that of the services and terminals they drive; extraction of
  graphs from free text by regular expressions. Of the audit log: calls made from inside its hooks, file modes, and that the
  chain still verifies after a prune. Strings are of code units below 256.
\<close>

end
